(* ===== verification/Prelude.thy ===== *)
theory Prelude
  imports Complex_Main "HOL-Library.Multiset"
begin

section \<open>Shared types, list and string helpers, and the two generic interfaces\<close>

text \<open>
  What the components share.  JavaScript numbers are read as exact rationals (\<open>jsnum\<close>):
  rounding and the loss of integer precision above \<open>2 ^ 53\<close> are not modelled.  Strings
  are HOL character lists, so a component that works on text covers strings whose UTF-16
  code units are below 256.  A value that may be \<open>null\<close> (or an absent property) is an
  \<open>option\<close>.  The string operations below are the ones of the JavaScript standard library
  that the sources call (\<open>split\<close>, \<open>join\<close>, \<open>trim\<close>, \<open>indexOf\<close>, \<open>startsWith\<close>,
  \<open>Array.prototype.sort\<close>).

  The two locales are interfaces used by many components: \<open>machine\<close> (an event handler that
  keeps an invariant; its lemma lifts the invariant to every run) and \<open>comparator\<close> (a
  consistent compare function; its lemmas say what the stable sort returns).
\<close>

named_theorems wf_intros \<open>rules that establish a well-formedness invariant\<close>
named_theorems step_simps \<open>equations that compute one step of a component\<close>

type_synonym jsnum = rat

abbreviation nullish :: "'a option \<Rightarrow> 'a \<Rightarrow> 'a" where
  "nullish x d \<equiv> (case x of None \<Rightarrow> d | Some v \<Rightarrow> v)"

subsection \<open>Lists\<close>

definition last_n :: "nat \<Rightarrow> 'a list \<Rightarrow> 'a list" where
  "last_n n xs = drop (length xs - n) xs"

lemma last_n_all [simp]: "length xs \<le> n \<Longrightarrow> last_n n xs = xs"
  by (simp add: last_n_def)

lemma length_last_n [simp]: "length (last_n n xs) = min n (length xs)"
  by (simp add: last_n_def)

lemma last_n_suffix: "\<exists>ys. xs = ys @ last_n n xs"
  unfolding last_n_def by (metis append_take_drop_id)

lemma set_last_n: "set (last_n n xs) \<subseteq> set xs"
  by (simp add: last_n_def set_drop_subset)

lemma sorted_wrt_last_n: "sorted_wrt P xs \<Longrightarrow> sorted_wrt P (last_n n xs)"
  by (simp add: last_n_def sorted_wrt_drop)

lemma distinct_map_last_n: "distinct (map f xs) \<Longrightarrow> distinct (map f (last_n n xs))"
  by (simp add: last_n_def drop_map [symmetric])

lemma sorted_wrt_filter_keep: "sorted_wrt P xs \<Longrightarrow> sorted_wrt P (filter Q xs)"
  by (induction xs) auto

lemma distinct_map_filter_keep: "distinct (map f xs) \<Longrightarrow> distinct (map f (filter Q xs))"
  by (induction xs) auto

lemma filter_last_n: "\<exists>m. filter P (last_n n xs) = last_n m (filter P xs)"
proof -
  obtain ys where xs: "xs = ys @ last_n n xs" using last_n_suffix by blast
  let ?z = "filter P (last_n n xs)"
  have "filter P xs = filter P ys @ ?z" by (metis filter_append xs)
  then have "last_n (length ?z) (filter P xs) = ?z" by (simp add: last_n_def)
  then show ?thesis by metis
qed

subsection \<open>Strings\<close>

text \<open>\<open>s.startsWith(p)\<close> and \<open>s.endsWith(p)\<close>.\<close>

definition starts_with :: "string \<Rightarrow> string \<Rightarrow> bool" where
  "starts_with p s \<longleftrightarrow> take (length p) s = p"

definition ends_with :: "string \<Rightarrow> string \<Rightarrow> bool" where
  "ends_with p s \<longleftrightarrow> length p \<le> length s \<and> drop (length s - length p) s = p"

lemma starts_with_append [simp]: "starts_with p (p @ s)"
  by (simp add: starts_with_def)

lemma starts_with_length: "starts_with p s \<Longrightarrow> length p \<le> length s"
  unfolding starts_with_def by (metis length_take min.absorb_iff2 min.commute)

lemma starts_with_ex: "starts_with p s \<Longrightarrow> \<exists>r. s = p @ r"
  unfolding starts_with_def by (metis append_take_drop_id)

text \<open>\<open>s.split(c)\<close> for a one-character separator, and \<open>parts.join(sep)\<close>.\<close>

fun split_char :: "char \<Rightarrow> string \<Rightarrow> string list" where
  "split_char c [] = [[]]"
| "split_char c (x # xs) =
     (if x = c then [] # split_char c xs
      else (case split_char c xs of [] \<Rightarrow> [[x]] | p # ps \<Rightarrow> (x # p) # ps))"

fun join :: "string \<Rightarrow> string list \<Rightarrow> string" where
  "join sep [] = []"
| "join sep [p] = p"
| "join sep (p # q # ps) = p @ sep @ join sep (q # ps)"

lemma split_char_neq_Nil [simp]: "split_char c s \<noteq> []"
  by (induction s) (auto split: list.splits)

lemma join_Cons: "ps \<noteq> [] \<Longrightarrow> join sep (p # ps) = p @ sep @ join sep ps"
  by (cases ps) auto

lemma join_split_char [simp]: "join [c] (split_char c s) = s"
proof (induction s)
  case (Cons x xs)
  obtain p ps where "split_char c xs = p # ps" using split_char_neq_Nil list.exhaust by metis
  with Cons show ?case by (cases ps) auto
qed simp

lemma split_char_no_sep: "p \<in> set (split_char c s) \<Longrightarrow> c \<notin> set p"
  by (induction s arbitrary: p) (fastforce split: list.splits if_splits)+

lemma split_char_notin: "c \<notin> set s \<Longrightarrow> split_char c s = [s]"
  by (induction s) auto

lemma split_char_append: "c \<notin> set p \<Longrightarrow> split_char c (p @ c # s) = p # split_char c s"
  by (induction p) auto

lemma split_char_join:
  "ps \<noteq> [] \<Longrightarrow> \<forall>p \<in> set ps. c \<notin> set p \<Longrightarrow> split_char c (join [c] ps) = ps"
  by (induction "[c]" ps rule: join.induct) (auto simp: split_char_notin split_char_append)

text \<open>\<open>s.indexOf(p)\<close>: the first position where \<open>p\<close> starts, or none.\<close>

fun index_of :: "string \<Rightarrow> string \<Rightarrow> nat option" where
  "index_of p [] = (if p = [] then Some 0 else None)"
| "index_of p (c # s) =
     (if starts_with p (c # s) then Some 0 else map_option Suc (index_of p s))"

definition index_of_from :: "string \<Rightarrow> string \<Rightarrow> nat \<Rightarrow> nat option" where
  "index_of_from p s i = map_option (\<lambda>k. i + k) (index_of p (drop i s))"

lemma index_of_Some:
  "index_of p s = Some i \<Longrightarrow> s = take i s @ p @ drop (i + length p) s"
proof (induction p s arbitrary: i rule: index_of.induct)
  case (2 p c s)
  show ?case
  proof (cases "starts_with p (c # s)")
    case True
    with 2 have i: "i = 0" by simp
    from starts_with_ex [OF True] obtain r where r: "c # s = p @ r" ..
    show ?thesis unfolding i r by simp
  next
    case False
    with 2 obtain j where "i = Suc j" "index_of p s = Some j" by auto
    with 2 False show ?thesis by simp
  qed
qed (auto split: if_splits)

lemma index_of_bound: "index_of p s = Some i \<Longrightarrow> i + length p \<le> length s"
  by (induction p s arbitrary: i rule: index_of.induct) (auto dest: starts_with_length split: if_splits)

lemma index_of_from_bound:
  "index_of_from p s i = Some k \<Longrightarrow> i \<le> length s \<Longrightarrow> i \<le> k \<and> k + length p \<le> length s"
  by (auto simp: index_of_from_def dest: index_of_bound)

lemma index_of_append_hit: "index_of p s = Some i \<Longrightarrow> index_of p (s @ t) = Some i"
proof (induction p s arbitrary: i rule: index_of.induct)
  case (1 p)
  then show ?case by (cases t) (auto simp: starts_with_def split: if_splits)
next
  case (2 p c s)
  show ?case
  proof (cases "starts_with p (c # s)")
    case True
    then obtain r where "c # s = p @ r" using starts_with_ex by blast
    then have "c # s @ t = p @ (r @ t)" by (metis append_Cons append_assoc)
    then have "starts_with p (c # s @ t)" by (metis starts_with_append)
    with 2 True show ?thesis by simp
  next
    case False
    with 2 obtain j where j: "i = Suc j" "index_of p s = Some j" by auto
    with 2 have jt: "index_of p (s @ t) = Some j" using False by blast
    from index_of_bound [OF j(2)] have "length p \<le> length (c # s)" by simp
    then have "take (length p) ((c # s) @ t) = take (length p) (c # s)"
      by (simp only: take_append) simp
    with False have "\<not> starts_with p (c # s @ t)" unfolding starts_with_def by simp
    with jt j show ?thesis by simp
  qed
qed

lemma index_of_minimal: "index_of p s = Some i \<Longrightarrow> j < i \<Longrightarrow> \<not> starts_with p (drop j s)"
proof (induction p s arbitrary: i j rule: index_of.induct)
  case (2 p c s)
  then show ?case by (cases j) (auto split: if_splits)
qed (auto split: if_splits)

lemma index_of_None: "index_of p s = None \<Longrightarrow> \<not> starts_with p (drop j s)"
proof (induction p s arbitrary: j rule: index_of.induct)
  case (2 p c s)
  then show ?case by (cases j) (auto split: if_splits)
qed (auto simp: starts_with_def split: if_splits)

text \<open>\<open>s.trim()\<close>: the white space and line terminators of ECMAScript below code unit 256.\<close>

definition is_js_space :: "char \<Rightarrow> bool" where
  "is_js_space c \<longleftrightarrow> (of_char c :: nat) \<in> {9, 10, 11, 12, 13, 32, 160}"

definition trim_start :: "string \<Rightarrow> string" where
  "trim_start = dropWhile is_js_space"

definition trim :: "string \<Rightarrow> string" where
  "trim s = rev (dropWhile is_js_space (rev (dropWhile is_js_space s)))"

lemma trim_Nil [simp]: "trim [] = []"
  by (simp add: trim_def)

lemma dropWhile_rev_keeps_hd:
  "xs \<noteq> [] \<Longrightarrow> \<not> P (hd xs) \<Longrightarrow>
     rev (dropWhile P (rev xs)) \<noteq> [] \<and> hd (rev (dropWhile P (rev xs))) = hd xs"
proof (induction xs rule: rev_induct)
  case (snoc x xs)
  then show ?case by (cases xs) auto
qed simp

lemma trim_idem [simp]: "trim (trim s) = trim s"
proof (cases "dropWhile is_js_space s = []")
  case True
  then have "trim s = []" by (simp only: trim_def rev.simps dropWhile.simps)
  then show ?thesis by simp
next
  case False
  let ?d = "dropWhile is_js_space s"
  have "\<not> is_js_space (hd ?d)" using False by (simp add: hd_dropWhile)
  from dropWhile_rev_keeps_hd [of ?d is_js_space, OF False this]
  have ne: "trim s \<noteq> []" and hd: "hd (trim s) = hd ?d" by (auto simp: trim_def)
  have "\<not> is_js_space (hd (trim s))" using hd False by (simp add: hd_dropWhile)
  then have 1: "dropWhile is_js_space (trim s) = trim s"
    using ne by (metis dropWhile.simps(2) list.exhaust_sel)
  have "dropWhile is_js_space (rev (trim s)) = rev (trim s)"
    by (simp add: trim_def)
  with 1 show ?thesis by (metis trim_def rev_rev_ident)
qed

text \<open>\<open>s.toLowerCase()\<close> below code unit 256.\<close>

definition lower_char :: "char \<Rightarrow> char" where
  "lower_char c =
     (let n = of_char c :: nat
      in if (65 \<le> n \<and> n \<le> 90) \<or> (192 \<le> n \<and> n \<le> 222 \<and> n \<noteq> 215) then char_of (n + 32) else c)"

definition lower_case :: "string \<Rightarrow> string" where
  "lower_case = map lower_char"

text \<open>\<open>String(n)\<close> for a non-negative integer.\<close>

fun show_nat :: "nat \<Rightarrow> string" where
  "show_nat n = (if n < 10 then [char_of (48 + n)] else show_nat (n div 10) @ [char_of (48 + n mod 10)])"

declare show_nat.simps [simp del]

definition show_int :: "int \<Rightarrow> string" where
  "show_int i = (if i < 0 then ''-'' @ show_nat (nat (- i)) else show_nat (nat i))"

text \<open>\<open>x.toFixed(d)\<close> below \<open>10 ^ 21\<close>: the nearest multiple of \<open>10 ^ -d\<close>, the larger of two, and the
  sign of \<open>x\<close> itself.\<close>

definition pad_zeros :: "nat \<Rightarrow> string \<Rightarrow> string" where
  "pad_zeros n s = replicate (n - length s) (CHR ''0'') @ s"

definition fixed_digits :: "nat \<Rightarrow> rat \<Rightarrow> string" where
  "fixed_digits d x =
     (let n = nat \<lfloor>x * 10 ^ d + 1 / 2\<rfloor>
      in show_nat (n div 10 ^ d) @ (if d = 0 then [] else ''.'' @ pad_zeros d (show_nat (n mod 10 ^ d))))"

definition to_fixed :: "nat \<Rightarrow> rat \<Rightarrow> string" where
  "to_fixed d x = (if x < 0 then ''-'' @ fixed_digits d (- x) else fixed_digits d x)"

subsection \<open>Event handlers and their runs\<close>

text \<open>
  A component whose code is a set of handlers over closed-over variables is a function from
  the state and one event (a call, a resolved promise, a timer, a socket callback) to the
  new state and the outputs it made, in order.  Which events the environment can deliver in
  a state is \<open>enabled\<close>: a timer that was cleared never fires, a promise settles once.
\<close>

fun run_events :: "('s \<Rightarrow> 'e \<Rightarrow> 's \<times> 'o list) \<Rightarrow> 's \<Rightarrow> 'e list \<Rightarrow> 's \<times> 'o list" where
  "run_events step s [] = (s, [])"
| "run_events step s (e # es) =
     (let (s1, o1) = step s e; (s2, o2) = run_events step s1 es in (s2, o1 @ o2))"

fun legal_events :: "('s \<Rightarrow> 'e \<Rightarrow> 's \<times> 'o list) \<Rightarrow> ('s \<Rightarrow> 'e \<Rightarrow> bool) \<Rightarrow> 's \<Rightarrow> 'e list \<Rightarrow> bool" where
  "legal_events step enabled s [] \<longleftrightarrow> True"
| "legal_events step enabled s (e # es) \<longleftrightarrow>
     enabled s e \<and> legal_events step enabled (fst (step s e)) es"

lemma run_events_Cons [simp]:
  "fst (run_events step s (e # es)) = fst (run_events step (fst (step s e)) es)"
  "snd (run_events step s (e # es)) = snd (step s e) @ snd (run_events step (fst (step s e)) es)"
  by (simp_all add: split_beta Let_def)

declare run_events.simps(2) [simp del]

lemma run_events_single [simp]: "run_events step s [e] = step s e"
  by (simp add: run_events.simps(2) split_beta)

lemma run_events_append:
  "fst (run_events step s (xs @ ys)) = fst (run_events step (fst (run_events step s xs)) ys)"
  "snd (run_events step s (xs @ ys)) =
     snd (run_events step s xs) @ snd (run_events step (fst (run_events step s xs)) ys)"
  by (induction xs arbitrary: s) simp_all

text \<open>One handler after another, with the outputs of both.\<close>

definition chain :: "'s \<times> 'o list \<Rightarrow> ('s \<Rightarrow> 't \<times> 'o list) \<Rightarrow> 't \<times> 'o list" where
  "chain r f = (let (s, os) = r; (s', os') = f s in (s', os @ os'))"

lemma chain_simps [simp]:
  "fst (chain r f) = fst (f (fst r))" "snd (chain r f) = snd r @ snd (f (fst r))"
  by (simp_all add: chain_def split_beta Let_def)

lemma run_events_view:
  assumes "\<And>s e. v (fst (step s e)) = v s"
  shows "v (fst (run_events step s es)) = v s"
  using assms by (induction es arbitrary: s) simp_all

lemma run_events_silent:
  assumes "\<And>s e. g (snd (step s e)) = []" "g [] = []" "\<And>xs ys. g (xs @ ys) = g xs @ g ys"
  shows "g (snd (run_events step s es)) = []"
  using assms by (induction es arbitrary: s) simp_all

lemma legal_events_append:
  "legal_events step en s (xs @ ys) \<longleftrightarrow>
     legal_events step en s xs \<and> legal_events step en (fst (run_events step s xs)) ys"
  by (induction xs arbitrary: s) auto

locale machine =
  fixes step :: "'s \<Rightarrow> 'e \<Rightarrow> 's \<times> 'o list"
    and enabled :: "'s \<Rightarrow> 'e \<Rightarrow> bool"
    and inv :: "'s \<Rightarrow> bool"
  assumes step_inv: "inv s \<Longrightarrow> enabled s e \<Longrightarrow> inv (fst (step s e))"
begin

lemma run_inv:
  "inv s \<Longrightarrow> legal_events step enabled s es \<Longrightarrow> inv (fst (run_events step s es))"
  by (induction es arbitrary: s) (auto intro: step_inv)

lemma run_outputs:
  assumes out: "\<And>s e. inv s \<Longrightarrow> enabled s e \<Longrightarrow> \<forall>x \<in> set (snd (step s e)). P x"
  shows "inv s \<Longrightarrow> legal_events step enabled s es \<Longrightarrow> x \<in> set (snd (run_events step s es)) \<Longrightarrow> P x"
proof (induction es arbitrary: s)
  case (Cons e es)
  then show ?case using out [of s e] step_inv [of s e] by auto
qed simp

lemma run_measure:
  fixes f :: "'s \<Rightarrow> 'a list" and g :: "'o list \<Rightarrow> 'a list" and h :: "'e \<Rightarrow> 'a list"
  assumes bal: "\<And>s e. inv s \<Longrightarrow> enabled s e \<Longrightarrow> g (snd (step s e)) @ f (fst (step s e)) = f s @ h e"
    and gapp: "\<And>xs ys. g (xs @ ys) = g xs @ g ys"
  shows "inv s \<Longrightarrow> legal_events step enabled s es \<Longrightarrow>
    g (snd (run_events step s es)) @ f (fst (run_events step s es)) = f s @ concat (map h es)"
proof (induction es arbitrary: s)
  case Nil
  from gapp [of "[]" "[]"] show ?case by simp
next
  case (Cons e es)
  let ?s1 = "fst (step s e)"
  let ?o2 = "g (snd (run_events step ?s1 es))" and ?f2 = "f (fst (run_events step ?s1 es))"
  have IH: "?o2 @ ?f2 = f ?s1 @ concat (map h es)"
    using Cons.IH [of ?s1] Cons.prems step_inv [of s e] by simp
  have "(g (snd (step s e)) @ ?o2) @ ?f2 = (g (snd (step s e)) @ f ?s1) @ concat (map h es)"
    by (simp only: append.assoc IH)
  also have "\<dots> = (f s @ h e) @ concat (map h es)" using bal [of s e] Cons.prems by simp
  finally show ?case by (simp add: gapp)
qed

text \<open>What comes in is either given out or still held, as a multiset.\<close>

lemma run_balance:
  fixes f :: "'s \<Rightarrow> 'a multiset" and g :: "'o \<Rightarrow> 'a multiset" and h :: "'e \<Rightarrow> 'a multiset"
  assumes bal: "\<And>s e. inv s \<Longrightarrow> enabled s e \<Longrightarrow> sum_list (map g (snd (step s e))) + f (fst (step s e)) = f s + h e"
  shows "inv s \<Longrightarrow> legal_events step enabled s es \<Longrightarrow>
    sum_list (map g (snd (run_events step s es))) + f (fst (run_events step s es)) = f s + sum_list (map h es)"
proof (induction es arbitrary: s)
  case (Cons e es)
  let ?s1 = "fst (step s e)"
  have "sum_list (map g (snd (run_events step ?s1 es))) + f (fst (run_events step ?s1 es))
      = f ?s1 + sum_list (map h es)"
    using Cons.IH [of ?s1] Cons.prems step_inv [of s e] by simp
  moreover have "sum_list (map g (snd (step s e))) + f ?s1 = f s + h e" using bal [of s e] Cons.prems by simp
  ultimately show ?case by (simp add: algebra_simps)
qed simp

end

subsection \<open>Stable sorting\<close>

text \<open>
  \<open>xs.sort(cmp)\<close>: ECMAScript requires a stable sort, and for a consistent compare function
  the result is determined by that; insertion keeps an element before those it ties with.
\<close>

fun insert_by :: "('a \<Rightarrow> 'a \<Rightarrow> int) \<Rightarrow> 'a \<Rightarrow> 'a list \<Rightarrow> 'a list" where
  "insert_by cmp x [] = [x]"
| "insert_by cmp x (y # ys) = (if cmp x y \<le> 0 then x # y # ys else y # insert_by cmp x ys)"

fun js_sort :: "('a \<Rightarrow> 'a \<Rightarrow> int) \<Rightarrow> 'a list \<Rightarrow> 'a list" where
  "js_sort cmp [] = []"
| "js_sort cmp (x # xs) = insert_by cmp x (js_sort cmp xs)"

lemma mset_insert_by [simp]: "mset (insert_by cmp x xs) = add_mset x (mset xs)"
  by (induction xs) auto

lemma mset_js_sort [simp]: "mset (js_sort cmp xs) = mset xs"
  by (induction xs) auto

lemma set_js_sort [simp]: "set (js_sort cmp xs) = set xs"
  by (metis mset_js_sort set_mset_mset)

lemma set_insert_by [simp]: "set (insert_by cmp x xs) = insert x (set xs)"
  by (metis mset_insert_by set_mset_add_mset_insert set_mset_mset)

lemma distinct_map_js_sort: "distinct (map f (js_sort cmp xs)) = distinct (map f xs)"
  by (metis mset_eq_imp_distinct_iff mset_js_sort mset_map)

locale comparator =
  fixes cmp :: "'a \<Rightarrow> 'a \<Rightarrow> int" and dom :: "'a \<Rightarrow> bool"
  assumes cmp_total: "dom x \<Longrightarrow> dom y \<Longrightarrow> cmp x y \<le> 0 \<or> cmp y x \<le> 0"
    and cmp_trans: "dom x \<Longrightarrow> dom y \<Longrightarrow> dom z \<Longrightarrow> cmp x y \<le> 0 \<Longrightarrow> cmp y z \<le> 0 \<Longrightarrow> cmp x z \<le> 0"
begin

lemma insert_by_sorted:
  "dom x \<Longrightarrow> (\<forall>y \<in> set ys. dom y) \<Longrightarrow> sorted_wrt (\<lambda>a b. cmp a b \<le> 0) ys \<Longrightarrow>
     sorted_wrt (\<lambda>a b. cmp a b \<le> 0) (insert_by cmp x ys)"
proof (induction ys)
  case (Cons y ys)
  then show ?case using cmp_total [of x y] cmp_trans [of x y] by fastforce
qed simp

lemma js_sort_sorted:
  "(\<forall>x \<in> set xs. dom x) \<Longrightarrow> sorted_wrt (\<lambda>a b. cmp a b \<le> 0) (js_sort cmp xs)"
  by (induction xs) (auto intro: insert_by_sorted)

text \<open>Elements that tie keep their order: the sort does not move any of a tied group.\<close>

lemma insert_by_stable:
  assumes tie: "\<And>a b. dom a \<Longrightarrow> dom b \<Longrightarrow> Q a \<Longrightarrow> Q b \<Longrightarrow> cmp a b \<le> 0"
  shows "dom x \<Longrightarrow> (\<forall>y \<in> set ys. dom y) \<Longrightarrow>
    filter Q (insert_by cmp x ys) = (if Q x then x # filter Q ys else filter Q ys)"
  by (induction ys) (auto dest: tie)

lemma js_sort_stable:
  assumes tie: "\<And>a b. dom a \<Longrightarrow> dom b \<Longrightarrow> Q a \<Longrightarrow> Q b \<Longrightarrow> cmp a b \<le> 0"
  shows "(\<forall>x \<in> set xs. dom x) \<Longrightarrow> filter Q (js_sort cmp xs) = filter Q xs"
  by (induction xs) (auto simp: insert_by_stable [OF tie])

end

end
