(* ===== verification/Json.thy ===== *)
theory Json
  imports Prelude
begin

section \<open>JSON values and the boundary readers (apps/core/src/protocol/parse.ts)\<close>

text \<open>
  The values \<open>JSON.parse\<close> returns, and the small readers every boundary parser is built
  from.  \<open>JNonFinite\<close> stands for Infinity (which \<open>JSON.parse\<close> does return, for
  \<open>1e999\<close>) and the other non-finite numbers.  An object is its list of own properties, with
  distinct keys; an array is an object too, with its indices as keys, and the code's
  \<open>record\<close> accepts it.  A property that is not there reads as \<open>None\<close> (undefined).
  The three-way results of \<open>nullableStr\<close> and its kin (a value, null, or undefined for
  malformed) are \<open>'a option option\<close>: \<open>None\<close> is malformed, \<open>Some None\<close> is null.
\<close>

datatype json =
  JNull
| JBool bool
| JNum jsnum
| JNonFinite
| JStr string
| JArr "json list"
| JObj "(string \<times> json) list"

type_synonym jobj = "(string \<times> json) list"

definition field :: "jobj \<Rightarrow> string \<Rightarrow> json option" where
  "field obj key = map_of obj key"

text \<open>\<open>record\<close>: \<open>typeof value === "object" && value !== null\<close>.\<close>

fun as_record :: "json option \<Rightarrow> jobj option" where
  "as_record (Some (JObj ps)) = Some ps"
| "as_record (Some (JArr xs)) = Some (zip (map show_nat [0..<length xs]) xs)"
| "as_record _ = None"

fun as_str :: "json option \<Rightarrow> string option" where
  "as_str (Some (JStr s)) = Some s"
| "as_str _ = None"

fun as_arr :: "json option \<Rightarrow> json list option" where
  "as_arr (Some (JArr xs)) = Some xs"
| "as_arr _ = None"

fun as_bool :: "json option \<Rightarrow> bool option" where
  "as_bool (Some (JBool b)) = Some b"
| "as_bool _ = None"

fun as_num :: "json option \<Rightarrow> jsnum option" where
  "as_num (Some (JNum n)) = Some n"
| "as_num _ = None"

text \<open>\<open>value == null\<close>: the property is absent or null.\<close>

fun is_nullish :: "json option \<Rightarrow> bool" where
  "is_nullish None \<longleftrightarrow> True"
| "is_nullish (Some JNull) \<longleftrightarrow> True"
| "is_nullish (Some _) \<longleftrightarrow> False"

definition nullable_str :: "json option \<Rightarrow> string option option" where
  "nullable_str v = (if is_nullish v then Some None
     else case as_str v of Some s \<Rightarrow> Some (Some s) | None \<Rightarrow> None)"

text \<open>parse-chat.ts has the same readers for numbers and booleans.\<close>

definition optional_num :: "json option \<Rightarrow> jsnum option option" where
  "optional_num v = (if is_nullish v then Some None
     else case as_num v of Some n \<Rightarrow> Some (Some n) | None \<Rightarrow> None)"

definition optional_bool :: "json option \<Rightarrow> bool option option" where
  "optional_bool v = (if is_nullish v then Some None
     else case as_bool v of Some b \<Rightarrow> Some (Some b) | None \<Rightarrow> None)"

lemma nullable_str_simps [simp]:
  "nullable_str None = Some None" "nullable_str (Some JNull) = Some None"
  "nullable_str (Some (JStr s)) = Some (Some s)" "nullable_str (Some (JBool b)) = None"
  "nullable_str (Some (JNum n)) = None" "nullable_str (Some JNonFinite) = None"
  "nullable_str (Some (JArr xs)) = None" "nullable_str (Some (JObj ps)) = None"
  by (simp_all add: nullable_str_def)

lemma optional_num_simps [simp]:
  "optional_num None = Some None" "optional_num (Some JNull) = Some None"
  "optional_num (Some (JNum n)) = Some (Some n)" "optional_num (Some (JStr s)) = None"
  "optional_num (Some (JBool b)) = None" "optional_num (Some JNonFinite) = None"
  "optional_num (Some (JArr xs)) = None" "optional_num (Some (JObj ps)) = None"
  by (simp_all add: optional_num_def)

lemma optional_bool_simps [simp]:
  "optional_bool None = Some None" "optional_bool (Some JNull) = Some None"
  "optional_bool (Some (JBool b)) = Some (Some b)" "optional_bool (Some (JStr s)) = None"
  "optional_bool (Some (JNum n)) = None" "optional_bool (Some JNonFinite) = None"
  "optional_bool (Some (JArr xs)) = None" "optional_bool (Some (JObj ps)) = None"
  by (simp_all add: optional_bool_def)

lemma field_simps_obj [simp]:
  "field [] k = None" "field ((k', v) # ps) k = (if k' = k then Some v else field ps k)"
  by (simp_all add: field_def)

lemma as_str_Some_iff: "as_str v = Some s \<longleftrightarrow> v = Some (JStr s)"
  by (cases v rule: as_str.cases) auto

lemma as_num_Some_iff: "as_num v = Some n \<longleftrightarrow> v = Some (JNum n)"
  by (cases v rule: as_num.cases) auto

lemma as_bool_Some_iff: "as_bool v = Some b \<longleftrightarrow> v = Some (JBool b)"
  by (cases v rule: as_bool.cases) auto

lemma as_arr_Some_iff: "as_arr v = Some xs \<longleftrightarrow> v = Some (JArr xs)"
  by (cases v rule: as_arr.cases) auto

lemmas reader_Some_iff = as_str_Some_iff as_num_Some_iff as_bool_Some_iff as_arr_Some_iff

text \<open>How a nullable value is written on the wire.\<close>

definition json_of_str_opt :: "string option \<Rightarrow> json" where
  "json_of_str_opt s = (case s of None \<Rightarrow> JNull | Some t \<Rightarrow> JStr t)"

definition json_of_num_opt :: "jsnum option \<Rightarrow> json" where
  "json_of_num_opt n = (case n of None \<Rightarrow> JNull | Some m \<Rightarrow> JNum m)"

lemma nullable_str_json [simp]: "nullable_str (Some (json_of_str_opt s)) = Some s"
  by (cases s) (simp_all add: json_of_str_opt_def)

end
