(* ===== verification/SyncTree.thy ===== *)
theory SyncTree
  imports Json "HOL-Library.AList"
begin

section \<open>The state tree and its selectors (protocol/tree.ts, protocol/deltas.ts, tree/*.ts)\<close>

text \<open>
  The tree vestad publishes over /sync, the deltas that change it, and the selectors both
  apps read it through, with the structural compares that decide whether a delta is a
  change.  A \<open>Record<string, T>\<close> is an association list in insertion order (a property
  name that is an array index, which ECMAScript enumerates first, and the names
  \<open>Object.prototype\<close> carries are left aside); setting a key is \<open>AList.update\<close>.
  Where the code tests \<open>== null\<close> only, absent and null are one \<open>None\<close>.
\<close>

subsection \<open>protocol/tree.ts\<close>

datatype agent_status =
  Alive | Starting | SettingUp | NotAuthenticated | Unprovisioned
| Restarting | Rebuilding | Stopped | Dead | NotFound

datatype activity_state = Idle | Thinking

datatype agent_operation = BackingUp | Restoring

datatype build_phase = Pulling | Building | Preparing | Creating | PhaseStarting

datatype release_channel = Stable | Beta

record service_info =
  svc_port :: jsnum
  svc_rev :: jsnum
  svc_public :: bool

record rate_limited_info =
  rl_window :: "string option"
  rl_resets_at :: "jsnum option"

record agent_info =
  ai_status :: agent_status
  ai_activity :: activity_state
  ai_build_phase :: "build_phase option"
  ai_operation :: "agent_operation option"
  ai_booting :: "bool option"
  ai_rate_limited :: "rate_limited_info option"
  ai_started_at :: "string option"
  ai_services :: "(string \<times> service_info) list"

text \<open>The phase and the kind are kept as the wire strings: an unknown one is a real case.\<close>

record gateway_operation =
  go_kind :: string
  go_phase :: string
  go_agent :: "string option"
  go_done :: "jsnum option"
  go_total :: "jsnum option"
  go_target_version :: "string option"
  go_warnings :: "string list"
  go_error :: "string option"

record gateway_lan =
  lan_exposed :: bool
  lan_url :: "string option"

record gateway_info =
  gw_version :: string
  gw_channel :: release_channel
  gw_auto_update :: bool
  gw_port :: jsnum
  gw_lan :: gateway_lan
  gw_tunnel_url :: "string option"
  gw_update_available :: bool
  gw_latest_version :: "string option"
  gw_managed :: bool
  gw_operation :: "gateway_operation option"
  gw_user_notifications_seen_at :: "jsnum option"
  gw_last_user_notification_at :: "jsnum option"

datatype device_kind = DWeb | DMobile | DDesktop | DUnknown

record device_place =
  pl_city :: "string option"
  pl_region :: "string option"
  pl_country :: "string option"

record device_position =
  dp_latitude :: jsnum
  dp_longitude :: jsnum
  dp_accuracy :: "jsnum option"
  dp_place :: "device_place option"

record device_info =
  dv_id :: string
  dv_kind :: device_kind
  dv_descriptor :: "string option"
  dv_present :: bool
  dv_last_seen :: string
  dv_push_enabled :: bool
  dv_timezone :: "string option"
  dv_position :: "device_position option"
  dv_position_at :: "string option"

text \<open>
  The reducer never looks inside a gateway, an agent's info or a pending notification, so
  the tree is parametric in them (\<open>'g\<close>, \<open>'i\<close>, \<open>'n\<close>).
\<close>

record ('i, 'n) agent_node =
  an_info :: 'i
  an_pending :: "'n list"

record ('g, 'i, 'n) tree =
  tr_gateway :: 'g
  tr_agents :: "(string \<times> ('i, 'n) agent_node) list"
  tr_devices :: "device_info list"

subsection \<open>protocol/deltas.ts\<close>

record user_notification =
  un_id :: jsnum
  un_at :: jsnum
  un_agent :: string
  un_kind :: string
  un_title :: string
  un_body :: string

datatype ('g, 'i, 'n) delta =
  StateDelta 'g
| AgentDelta string 'i
| AgentRemovedDelta string
| AgentNotificationsDelta string "'n list"
| UserNotificationDelta user_notification
| PresenceDelta bool
| DevicesDelta "device_info list"

subsection \<open>tree/roster.ts\<close>

type_synonym agent_row = "string \<times> agent_info"

definition roster_from_tree :: "('g, agent_info, 'n) tree option \<Rightarrow> agent_row list" where
  "roster_from_tree t =
     (case t of None \<Rightarrow> [] | Some tree \<Rightarrow> map (\<lambda>(name, node). (name, an_info node)) (tr_agents tree))"

definition services_equal :: "(string \<times> service_info) list \<Rightarrow> (string \<times> service_info) list \<Rightarrow> bool" where
  "services_equal a b =
     (let keys = map fst a
      in if length keys \<noteq> length (map fst b) then False
         else list_all (\<lambda>key.
           map_option svc_port (map_of a key) = map_option svc_port (map_of b key) \<and>
           map_option svc_rev (map_of a key) = map_option svc_rev (map_of b key) \<and>
           map_option svc_public (map_of a key) = map_option svc_public (map_of b key)) keys)"

definition rate_limits_equal :: "rate_limited_info option \<Rightarrow> rate_limited_info option \<Rightarrow> bool" where
  "rate_limits_equal a b =
     (case (a, b) of
        (Some x, Some y) \<Rightarrow> rl_window x = rl_window y \<and> rl_resets_at x = rl_resets_at y
      | _ \<Rightarrow> a = None \<and> b = None)"

definition rows_equal :: "agent_row \<Rightarrow> agent_row \<Rightarrow> bool" where
  "rows_equal row other \<longleftrightarrow>
     fst other = fst row \<and> ai_status (snd other) = ai_status (snd row) \<and>
     ai_activity (snd other) = ai_activity (snd row) \<and>
     ai_build_phase (snd other) = ai_build_phase (snd row) \<and>
     ai_operation (snd other) = ai_operation (snd row) \<and>
     ai_started_at (snd other) = ai_started_at (snd row) \<and>
     nullish (ai_booting (snd other)) False = nullish (ai_booting (snd row)) False \<and>
     rate_limits_equal (ai_rate_limited (snd row)) (ai_rate_limited (snd other)) \<and>
     services_equal (ai_services (snd row)) (ai_services (snd other))"

definition rosters_equal :: "agent_row list \<Rightarrow> agent_row list \<Rightarrow> bool" where
  "rosters_equal a b =
     (if length a \<noteq> length b then False
      else list_all (\<lambda>i. i < length b \<and> rows_equal (a ! i) (b ! i)) [0..<length a])"

subsection \<open>tree/devices.ts\<close>

definition select_devices :: "('g, 'i, 'n) tree option \<Rightarrow> device_info list" where
  "select_devices t = (case t of None \<Rightarrow> [] | Some tree \<Rightarrow> tr_devices tree)"

text \<open>
  \<open>date_ms\<close> is \<open>new Date(s).getTime()\<close>, whose reading of an arbitrary string ECMAScript
  leaves to the implementation.  A compare function's answer is only read by its sign.
\<close>

definition present_first :: "(string \<Rightarrow> jsnum) \<Rightarrow> device_info \<Rightarrow> device_info \<Rightarrow> int" where
  "present_first date_ms a b =
     (let p = of_bool (dv_present b) - of_bool (dv_present a);
          t = date_ms (dv_last_seen b) - date_ms (dv_last_seen a)
      in if p \<noteq> 0 then p else if t > 0 then 1 else if t < 0 then - 1 else 0)"

definition split_self_device ::
  "(string \<Rightarrow> jsnum) \<Rightarrow> device_info list \<Rightarrow> string option \<Rightarrow> device_info option \<times> device_info list" where
  "split_self_device date_ms devices self_id =
     (let self = find (\<lambda>d. Some (dv_id d) = self_id) devices;
          others = js_sort (present_first date_ms) (filter (\<lambda>d. Some (dv_id d) \<noteq> self_id) devices)
      in (self, others))"

definition position_equal :: "device_position option \<Rightarrow> device_position option \<Rightarrow> bool" where
  "position_equal a b =
     (case (a, b) of
        (Some x, Some y) \<Rightarrow>
          dp_latitude x = dp_latitude y \<and> dp_longitude x = dp_longitude y \<and>
          dp_accuracy x = dp_accuracy y \<and>
          map_option pl_city (dp_place x) = map_option pl_city (dp_place y) \<and>
          map_option pl_region (dp_place x) = map_option pl_region (dp_place y) \<and>
          map_option pl_country (dp_place x) = map_option pl_country (dp_place y)
      | _ \<Rightarrow> a = None \<and> b = None)"

definition devices_equal :: "device_info list \<Rightarrow> device_info list \<Rightarrow> bool" where
  "devices_equal a b =
     (if length a \<noteq> length b then False
      else list_all (\<lambda>i. i < length b \<and>
        (let device = a ! i; other = b ! i
         in dv_id other = dv_id device \<and> dv_kind other = dv_kind device \<and>
            dv_descriptor other = dv_descriptor device \<and> dv_present other = dv_present device \<and>
            dv_last_seen other = dv_last_seen device \<and>
            dv_push_enabled other = dv_push_enabled device \<and>
            dv_timezone other = dv_timezone device \<and> dv_position_at other = dv_position_at device \<and>
            position_equal (dv_position other) (dv_position device))) [0..<length a])"

subsection \<open>tree/gateway-operation.ts\<close>

definition operation_phases :: "string list" where
  "operation_phases = [''snapshotting'', ''applying'', ''restarting'', ''failed'']"

definition operation_kinds :: "string list" where
  "operation_kinds = [''update'', ''restart'']"

definition select_gateway_operation :: "(gateway_info, 'i, 'n) tree option \<Rightarrow> gateway_operation option" where
  "select_gateway_operation t =
     (case Option.bind t (\<lambda>tree. gw_operation (tr_gateway tree)) of
        None \<Rightarrow> None
      | Some operation \<Rightarrow>
          (if \<not> go_kind operation \<in> set operation_kinds \<or> \<not> go_phase operation \<in> set operation_phases
           then None else Some operation))"

definition gateway_operations_equal :: "gateway_operation option \<Rightarrow> gateway_operation option \<Rightarrow> bool" where
  "gateway_operations_equal a b =
     (case (a, b) of
        (Some x, Some y) \<Rightarrow>
          go_kind x = go_kind y \<and> go_phase x = go_phase y \<and> go_agent x = go_agent y \<and>
          go_done x = go_done y \<and> go_total x = go_total y \<and>
          go_target_version x = go_target_version y \<and> go_error x = go_error y \<and>
          length (go_warnings x) = length (go_warnings y) \<and>
          list_all (\<lambda>i. go_warnings y ! i = go_warnings x ! i) [0..<length (go_warnings x)]
      | _ \<Rightarrow> a = None \<and> b = None)"

text \<open>\<open>String(n)\<close> of a count; counts are non-negative integers.\<close>

definition show_count :: "jsnum \<Rightarrow> string" where
  "show_count n = show_int \<lfloor>n\<rfloor>"

text \<open>
  The switch is exhaustive over the known phases, and \<open>select_gateway_operation\<close> lets no
  other through; \<open>None\<close> is the \<open>undefined\<close> an unknown phase would return.
\<close>

definition gateway_operation_label :: "gateway_operation \<Rightarrow> string option" where
  "gateway_operation_label operation =
     (if go_phase operation = ''snapshotting'' then
        (case go_agent operation of
           None \<Rightarrow> Some ''backing up your agents''
         | Some agent \<Rightarrow>
             (case (go_done operation, go_total operation) of
                (Some dn, Some tot) \<Rightarrow>
                  Some (''backing up '' @ agent @ '' '' @ show_count (dn + 1) @ ''/'' @ show_count tot)
              | _ \<Rightarrow> Some (''backing up '' @ agent)))
      else if go_phase operation = ''applying'' then Some ''installing''
      else if go_phase operation = ''restarting'' then Some ''restarting''
      else if go_phase operation = ''failed'' then Some ''update failed''
      else None)"

subsection \<open>The compares are structural equality\<close>

lemma index_all_eq:
  "length a = length b \<Longrightarrow>
     list_all (\<lambda>i. i < length b \<and> R (a ! i) (b ! i)) [0..<length a] = list_all2 R a b"
  by (auto simp: list_all_iff list_all2_conv_all_nth)

lemma position_equal_iff: "position_equal a b \<longleftrightarrow> a = b"
proof (cases "a = None \<or> b = None")
  case False
  then obtain x y where xy: "a = Some x" "b = Some y" by auto
  have "dp_place x = dp_place y" if "map_option pl_city (dp_place x) = map_option pl_city (dp_place y)"
    "map_option pl_region (dp_place x) = map_option pl_region (dp_place y)"
    "map_option pl_country (dp_place x) = map_option pl_country (dp_place y)"
    using that by (cases "dp_place x"; cases "dp_place y") auto
  then show ?thesis by (auto simp: xy position_equal_def intro: device_position.equality)
qed (auto simp: position_equal_def split: option.splits)

lemma rate_limits_equal_iff: "rate_limits_equal a b \<longleftrightarrow> a = b"
  by (auto simp: rate_limits_equal_def intro: rate_limited_info.equality split: option.splits)

lemma services_equal_iff:
  assumes "distinct (map fst a)" "distinct (map fst b)"
  shows "services_equal a b \<longleftrightarrow> map_of a = map_of b"
proof
  assume eq: "map_of a = map_of b"
  have "length (map fst a) = card (dom (map_of a))" "length (map fst b) = card (dom (map_of b))"
    using assms by (simp_all only: dom_map_of_conv_image_fst distinct_card [symmetric] set_map)
  with eq show "services_equal a b" by (simp add: services_equal_def list_all_iff)
next
  assume se: "services_equal a b"
  have some: "map_of a k = map_of b k" if "k \<in> fst ` set a" for k
  proof -
    from that obtain x where x: "map_of a k = Some x" by (metis map_of_eq_None_iff not_None_eq)
    from se that have e: "map_option svc_port (map_of a k) = map_option svc_port (map_of b k)"
      "map_option svc_rev (map_of a k) = map_option svc_rev (map_of b k)"
      "map_option svc_public (map_of a k) = map_option svc_public (map_of b k)"
      by (auto simp: services_equal_def list_all_iff Let_def split: if_splits)
    from e(1) x obtain y where y: "map_of b k = Some y" by (cases "map_of b k") auto
    from e x y have "x = y" by (auto intro: service_info.equality)
    with x y show ?thesis by simp
  qed
  have sub: "fst ` set a \<subseteq> fst ` set b" using some by (metis map_of_eq_None_iff subsetI)
  have "card (fst ` set a) = length a" "card (fst ` set b) = length b"
    using assms by (metis distinct_card length_map set_map)+
  moreover have "length a = length b" using se by (auto simp: services_equal_def Let_def split: if_splits)
  ultimately have same: "fst ` set a = fst ` set b" by (intro card_subset_eq [OF _ sub]) auto
  show "map_of a = map_of b"
  proof
    fix k
    show "map_of a k = map_of b k"
      by (cases "k \<in> fst ` set a") (use some same map_of_eq_None_iff in metis)+
  qed
qed

lemma index_all_same:
  "length a = length b \<and> list_all (\<lambda>i. b ! i = a ! i) [0..<length a] \<longleftrightarrow> a = b"
  unfolding list_all_iff by (metis atLeastLessThan_iff le0 nth_equalityI set_upt)

lemma gateway_operations_equal_iff: "gateway_operations_equal a b \<longleftrightarrow> a = b"
proof (cases "a = None \<or> b = None")
  case False
  then obtain x y where xy: "a = Some x" "b = Some y" by auto
  show ?thesis
    unfolding xy gateway_operations_equal_def prod.case option.case index_all_same option.inject
    by (metis (full_types) gateway_operation.surjective old.unit.exhaust)
qed (auto simp: gateway_operations_equal_def split: option.splits)

lemma device_fields_equal:
  "(dv_id y = dv_id x \<and> dv_kind y = dv_kind x \<and> dv_descriptor y = dv_descriptor x \<and>
    dv_present y = dv_present x \<and> dv_last_seen y = dv_last_seen x \<and>
    dv_push_enabled y = dv_push_enabled x \<and> dv_timezone y = dv_timezone x \<and>
    dv_position_at y = dv_position_at x \<and> position_equal (dv_position y) (dv_position x))
   \<longleftrightarrow> x = (y :: device_info)"
  unfolding position_equal_iff by (cases x; cases y) auto

text \<open>What a view reads of a roster row: an absent \<open>booting\<close> reads as false, services as a map.\<close>

definition observed_row :: "agent_row \<Rightarrow> string \<times> agent_info \<times> (string \<rightharpoonup> service_info)" where
  "observed_row row =
     (fst row,
      (snd row)\<lparr>ai_booting := Some (nullish (ai_booting (snd row)) False), ai_services := []\<rparr>,
      map_of (ai_services (snd row)))"

definition service_keys_distinct :: "agent_row list \<Rightarrow> bool" where
  "service_keys_distinct rows = list_all (\<lambda>r. distinct (map fst (ai_services (snd r)))) rows"

lemma rows_equal_iff:
  assumes "distinct (map fst (ai_services (snd a)))" "distinct (map fst (ai_services (snd b)))"
  shows "rows_equal a b \<longleftrightarrow> observed_row a = observed_row b"
  using assms
  by (cases "snd a"; cases "snd b")
    (auto simp: rows_equal_def observed_row_def rate_limits_equal_iff services_equal_iff)

subsection \<open>Properties\<close>

text \<open>The roster compare answers true exactly when the two rosters are the same list of
  rows to every reader (a missing \<open>booting\<close> counting as false, the services as a map): an
  unrelated delta never reads as a change and no change is missed.\<close>

theorem rosters_equal_exact:
  assumes "service_keys_distinct a" "service_keys_distinct b"
  shows "rosters_equal a b \<longleftrightarrow> map observed_row a = map observed_row b"
proof -
  have "list_all2 rows_equal a b \<longleftrightarrow> list_all2 (\<lambda>x y. observed_row x = observed_row y) a b"
    using assms by (auto simp: list_all2_conv_all_nth service_keys_distinct_def list_all_iff rows_equal_iff)
  also have "\<dots> \<longleftrightarrow> map observed_row a = map observed_row b"
    by (simp add: list_all2_eq list.rel_map)
  finally have eq: "list_all2 rows_equal a b \<longleftrightarrow> map observed_row a = map observed_row b" .
  show ?thesis
  proof (cases "length a = length b")
    case True
    show ?thesis unfolding rosters_equal_def using True eq index_all_eq [OF True, of rows_equal] by simp
  next
    case False
    then have "map observed_row a \<noteq> map observed_row b" by (metis length_map)
    with False show ?thesis by (simp add: rosters_equal_def)
  qed
qed

theorem rosters_equal_exact_witness:
  "rosters_equal [(''a'', \<lparr>ai_status = Alive, ai_activity = Idle, ai_build_phase = None, ai_operation = None,
      ai_booting = None, ai_rate_limited = None, ai_started_at = None, ai_services = []\<rparr>)]
     [(''a'', \<lparr>ai_status = Alive, ai_activity = Idle, ai_build_phase = None, ai_operation = None,
      ai_booting = Some False, ai_rate_limited = None, ai_started_at = None, ai_services = []\<rparr>)]"
  by (subst rosters_equal_exact) (simp_all add: service_keys_distinct_def observed_row_def)

text \<open>The device compare is equality of the two lists, and the gateway-operation compare
  equality of the two operations, so a subscription fires on every change and on no other.\<close>

theorem tree_compares_exact:
  "(devices_equal a b \<longleftrightarrow> a = b) \<and> (gateway_operations_equal x y \<longleftrightarrow> x = y)"
proof
  show "gateway_operations_equal x y \<longleftrightarrow> x = y" by (rule gateway_operations_equal_iff)
  show "devices_equal a b \<longleftrightarrow> a = b"
  proof (cases "length a = length b")
    case True
    show ?thesis
      unfolding devices_equal_def Let_def device_fields_equal index_all_eq [OF True, of "(=)"]
      using True by (simp add: list_all2_eq)
  qed (auto simp: devices_equal_def)
qed

text \<open>
  The compare function of the device list is consistent, so the comparator contract applies.
\<close>

interpretation present_first: comparator "present_first date_ms" "\<lambda>_. True"
  for date_ms :: "string \<Rightarrow> jsnum"
  by unfold_locales (auto simp: present_first_def Let_def split: if_splits)

definition device_after :: "(string \<Rightarrow> jsnum) \<Rightarrow> device_info \<Rightarrow> device_info \<Rightarrow> bool" where
  "device_after date_ms a b \<longleftrightarrow> (dv_present b \<longrightarrow> dv_present a) \<and>
     (dv_present a = dv_present b \<longrightarrow> date_ms (dv_last_seen b) \<le> date_ms (dv_last_seen a))"

text \<open>Splitting off this client's own device loses nothing: the others are exactly the
  devices with another id, present ones first, then the most recently seen, and every
  device is the self device or among the others.\<close>

theorem split_self_device_sorted:
  assumes "split_self_device date_ms devices self_id = (self, others)"
  shows "mset others = mset (filter (\<lambda>d. Some (dv_id d) \<noteq> self_id) devices) \<and>
    sorted_wrt (device_after date_ms) others \<and>
    (self = None \<longleftrightarrow> mset others = mset devices)"
proof (intro conjI)
  let ?f = "filter (\<lambda>d. Some (dv_id d) \<noteq> self_id) devices"
  from assms have o: "others = js_sort (present_first date_ms) ?f"
    and s: "self = find (\<lambda>d. Some (dv_id d) = self_id) devices"
    by (auto simp: split_self_device_def Let_def)
  show ms: "mset others = mset ?f" by (simp add: o)
  have "sorted_wrt (\<lambda>a b. present_first date_ms a b \<le> 0) others"
    unfolding o by (rule present_first.js_sort_sorted) simp
  then show "sorted_wrt (device_after date_ms) others"
    by (rule sorted_wrt_mono_rel [rotated]) (auto simp: present_first_def device_after_def Let_def split: if_splits)
  have "self = None \<longleftrightarrow> ?f = devices"
    by (auto simp: s find_None_iff filter_id_conv)
  moreover have "?f = devices" if "mset ?f = mset devices"
    using mset_eq_setD [OF that] by (auto simp: filter_id_conv)
  ultimately show "self = None \<longleftrightarrow> mset others = mset devices" unfolding ms by metis
qed

definition sample_device :: "string \<Rightarrow> bool \<Rightarrow> string \<Rightarrow> device_info" where
  "sample_device i present last_seen = \<lparr>dv_id = i, dv_kind = DWeb, dv_descriptor = None, dv_present = present,
     dv_last_seen = last_seen, dv_push_enabled = False, dv_timezone = None, dv_position = None,
     dv_position_at = None\<rparr>"

lemma sample_device_simps [simp]:
  "dv_id (sample_device i p l) = i" "dv_present (sample_device i p l) = p"
  "dv_last_seen (sample_device i p l) = l"
  by (simp_all add: sample_device_def)

theorem split_self_device_sorted_witness:
  "mset [sample_device ''c'' True ''1'', sample_device ''b'' False ''22''] =
     mset (filter (\<lambda>d. Some (dv_id d) \<noteq> Some ''a'')
       [sample_device ''a'' True ''1'', sample_device ''b'' False ''22'', sample_device ''c'' True ''1'']) \<and>
   sorted_wrt (device_after (of_nat \<circ> length))
     [sample_device ''c'' True ''1'', sample_device ''b'' False ''22''] \<and>
   (Some (sample_device ''a'' True ''1'') = None \<longleftrightarrow>
     mset [sample_device ''c'' True ''1'', sample_device ''b'' False ''22''] =
     mset [sample_device ''a'' True ''1'', sample_device ''b'' False ''22'', sample_device ''c'' True ''1''])"
  by (rule split_self_device_sorted) (simp add: split_self_device_def present_first_def)

text \<open>Every operation the selector lets through has a label: an app never shows an
  operation it has no words for.\<close>

theorem selected_operation_has_label:
  assumes "select_gateway_operation t = Some op"
  shows "gateway_operation_label op \<noteq> None"
  using assms
  by (auto simp: select_gateway_operation_def operation_phases_def gateway_operation_label_def
      split: option.splits if_splits)

theorem selected_operation_has_label_witness:
  "gateway_operation_label \<lparr>go_kind = ''update'', go_phase = ''applying'', go_agent = None, go_done = None,
     go_total = None, go_target_version = None, go_warnings = [], go_error = None\<rparr> \<noteq> None"
  by (rule selected_operation_has_label [of "Some \<lparr>tr_gateway = \<lparr>gw_version = ''0.1.1'', gw_channel = Stable,
       gw_auto_update = False, gw_port = 443, gw_lan = \<lparr>lan_exposed = False, lan_url = None\<rparr>,
       gw_tunnel_url = None, gw_update_available = False, gw_latest_version = None, gw_managed = False,
       gw_operation = Some \<lparr>go_kind = ''update'', go_phase = ''applying'', go_agent = None, go_done = None,
         go_total = None, go_target_version = None, go_warnings = [], go_error = None\<rparr>,
       gw_user_notifications_seen_at = None, gw_last_user_notification_at = None\<rparr>,
       tr_agents = [], tr_devices = []\<rparr>"])
    (simp add: select_gateway_operation_def operation_kinds_def operation_phases_def)

end
