(* ===== verification/AgentStatus.thy ===== *)
theory AgentStatus
  imports SyncTree
begin

section \<open>What an agent's status means (agent-status/agent-status.ts, orb/orb.ts)\<close>

text \<open>
  The one exhaustive reading of an agent's status: its kind, its words and its orb, with the
  precedence of a running operation over the boot over the rate limit over the container's
  own status.  \<open>now_ms\<close> is \<open>Date.now()\<close>.  An optional argument that is null or left out is
  \<open>None\<close> (\<open>False\<close> for \<open>booting\<close>).
\<close>

subsection \<open>agent-status.ts\<close>

datatype agent_status_kind = KAlive | KWorking | KNeedsUser | KDown

fun agent_status_kind_of :: "agent_status \<Rightarrow> agent_status_kind" where
  "agent_status_kind_of Alive = KAlive"
| "agent_status_kind_of Starting = KWorking"
| "agent_status_kind_of SettingUp = KWorking"
| "agent_status_kind_of Restarting = KWorking"
| "agent_status_kind_of Rebuilding = KWorking"
| "agent_status_kind_of NotAuthenticated = KNeedsUser"
| "agent_status_kind_of Unprovisioned = KNeedsUser"
| "agent_status_kind_of Stopped = KDown"
| "agent_status_kind_of Dead = KDown"
| "agent_status_kind_of NotFound = KDown"

definition agent_needs_user :: "agent_status \<Rightarrow> bool" where
  "agent_needs_user status \<longleftrightarrow> agent_status_kind_of status = KNeedsUser"

definition agent_is_connectable :: "agent_status \<Rightarrow> bool" where
  "agent_is_connectable status \<longleftrightarrow>
     (let kind = agent_status_kind_of status in kind = KAlive \<or> kind = KNeedsUser)"

definition agent_is_down :: "agent_status \<Rightarrow> bool" where
  "agent_is_down status \<longleftrightarrow> agent_status_kind_of status = KDown"

datatype orb_visual_state = OAlive | OThinking | OBusy | OLimited | OAttention | OOff | ODeleting

definition agent_orb_state ::
  "agent_status \<Rightarrow> activity_state \<Rightarrow> agent_operation option \<Rightarrow> bool \<Rightarrow> rate_limited_info option
   \<Rightarrow> orb_visual_state" where
  "agent_orb_state status activity operation booting rate_limited =
     (if operation \<noteq> None then OBusy
      else if booting \<and> status = Alive then OBusy
      else if rate_limited \<noteq> None \<and> status = Alive then OLimited
      else (case agent_status_kind_of status of
              KAlive \<Rightarrow> (if activity = Thinking then OThinking else OAlive)
            | KWorking \<Rightarrow> OBusy
            | KNeedsUser \<Rightarrow> OAttention
            | KDown \<Rightarrow> OOff))"

definition orb_is_live :: "orb_visual_state \<Rightarrow> bool" where
  "orb_is_live state \<longleftrightarrow> state \<in> {OAlive, OThinking, OBusy}"

text \<open>\<open>Math.round\<close>: the nearest integer, a half rounded up.\<close>

definition js_round :: "jsnum \<Rightarrow> int" where
  "js_round x = \<lfloor>x + 1/2\<rfloor>"

definition format_reset_time :: "jsnum \<Rightarrow> jsnum \<Rightarrow> string" where
  "format_reset_time now_ms resets_at =
     (let minutes = js_round ((resets_at * 1000 - now_ms) / 60000)
      in if minutes \<le> 1 then ''in a minute''
         else if minutes < 60 then ''in '' @ show_int minutes @ ''m''
         else let hours = js_round (of_int minutes / 60)
              in if hours < 24 then ''in '' @ show_int hours @ ''h''
                 else ''in '' @ show_int (js_round (of_int hours / 24)) @ ''d'')"

fun agent_operation_label :: "agent_operation \<Rightarrow> string" where
  "agent_operation_label BackingUp = ''backing up...''"
| "agent_operation_label Restoring = ''restoring...''"

fun status_words :: "agent_status \<Rightarrow> activity_state \<Rightarrow> string" where
  "status_words Alive activity = (if activity = Thinking then ''thinking'' else ''alive'')"
| "status_words Starting _ = ''waking up...''"
| "status_words SettingUp _ = ''setting up...''"
| "status_words NotAuthenticated _ = ''needs you to sign in''"
| "status_words Unprovisioned _ = ''needs to be set up''"
| "status_words Restarting _ = ''restarting...''"
| "status_words Rebuilding _ = ''updating...''"
| "status_words Stopped _ = ''stopped''"
| "status_words Dead _ = ''broken''"
| "status_words NotFound _ = ''unavailable''"

definition agent_status_label ::
  "jsnum \<Rightarrow> agent_status \<Rightarrow> activity_state \<Rightarrow> agent_operation option \<Rightarrow> bool \<Rightarrow> rate_limited_info option
   \<Rightarrow> string" where
  "agent_status_label now_ms status activity operation booting rate_limited =
     (case operation of
        Some op \<Rightarrow> agent_operation_label op
      | None \<Rightarrow>
          (if booting \<and> status = Alive then ''waking up...''
           else case (if status = Alive then rate_limited else None) of
                  Some limit \<Rightarrow>
                    (case rl_resets_at limit of
                       Some resets_at \<Rightarrow> ''rate limited, back '' @ format_reset_time now_ms resets_at
                     | None \<Rightarrow> ''rate limited'')
                | None \<Rightarrow> status_words status activity))"

subsection \<open>orb.ts\<close>

record orb_visual =
  ov_live :: bool
  ov_breathes :: bool
  ov_thinking :: bool
  ov_pulse_scale :: jsnum
  ov_pulse_half_ms :: jsnum
  ov_rotation_ms :: jsnum

datatype orb_motion = Listening | Talking

fun motion_config :: "orb_motion \<Rightarrow> jsnum \<times> jsnum" where
  "motion_config Listening = (103/100, 2400)"
| "motion_config Talking = (116/100, 430)"

text \<open>The gradient and highlight constants, the same in every state, are left out.\<close>

definition orb_visual_of :: "orb_visual_state \<Rightarrow> orb_motion option \<Rightarrow> orb_visual" where
  "orb_visual_of state motion =
     (let thinking = (state = OThinking);
          base = \<lparr>ov_live = orb_is_live state, ov_breathes = (state = OAlive \<or> thinking),
                  ov_thinking = thinking, ov_pulse_scale = (if thinking then 11/10 else 104/100),
                  ov_pulse_half_ms = (if thinking then 1200 else 1800),
                  ov_rotation_ms = (if thinking then 2600 else 9000)\<rparr>
      in case motion of
           None \<Rightarrow> base
         | Some m \<Rightarrow> base\<lparr>ov_breathes := True, ov_pulse_scale := fst (motion_config m),
                          ov_pulse_half_ms := snd (motion_config m)\<rparr>)"

subsection \<open>The words and the orb tell one story\<close>

text \<open>The orb an agent's words stand for, by the words alone.\<close>

definition orb_of_words :: "string \<Rightarrow> orb_visual_state" where
  "orb_of_words w =
     (if starts_with ''rate limited'' w then OLimited
      else if w \<in> {''needs you to sign in'', ''needs to be set up''} then OAttention
      else if w \<in> {'''', ''stopped'', ''broken'', ''unavailable''} then OOff
      else if w = ''deleting...'' then ODeleting
      else if w = ''thinking'' then OThinking
      else if w = ''alive'' then OAlive
      else OBusy)"

lemma starts_with_rate_limited [simp]: "starts_with ''rate limited'' (''rate limited'' @ r)"
  by (rule starts_with_append)

lemma rate_limited_back [simp]: "starts_with ''rate limited'' (''rate limited, back '' @ r)"
  by (simp add: starts_with_def)

lemma agent_label_orb:
  "agent_orb_state st act op boot rl = orb_of_words (agent_status_label now_ms st act op boot rl)"
proof (cases op)
  case (Some o')
  then show ?thesis
    by (cases o') (simp_all add: agent_orb_state_def agent_status_label_def orb_of_words_def starts_with_def)
next
  case None
  show ?thesis
  proof (cases "st = Alive")
    case True
    show ?thesis
    proof (cases "boot \<or> rl = None")
      case True
      with None \<open>st = Alive\<close> show ?thesis
        by (cases act) (auto simp: agent_orb_state_def agent_status_label_def orb_of_words_def starts_with_def)
    next
      case False
      then obtain l where l: "rl = Some l" "\<not> boot" by auto
      show ?thesis
      proof (cases "rl_resets_at l")
        case None
        with \<open>op = None\<close> \<open>st = Alive\<close> l show ?thesis
          by (simp add: agent_orb_state_def agent_status_label_def orb_of_words_def starts_with_def)
      next
        case (Some r)
        have "starts_with ''rate limited'' (agent_status_label now_ms st act op boot rl)"
          using \<open>op = None\<close> \<open>st = Alive\<close> l Some unfolding agent_status_label_def
          by (simp add: starts_with_def)
        then have "orb_of_words (agent_status_label now_ms st act op boot rl) = OLimited"
          unfolding orb_of_words_def by simp
        with \<open>op = None\<close> \<open>st = Alive\<close> l show ?thesis by (simp add: agent_orb_state_def)
      qed
    qed
  next
    case False
    with None show ?thesis
      by (cases st) (auto simp: agent_orb_state_def agent_status_label_def orb_of_words_def starts_with_def)
  qed
qed

lemma orb_attention_iff:
  "agent_orb_state st act op boot rl = OAttention \<longleftrightarrow> op = None \<and> agent_needs_user st"
  by (cases st; cases act) (auto simp: agent_orb_state_def agent_needs_user_def)

end
