(* ===== verification/AgentRequests.thy ===== *)
theory AgentRequests
  imports AgentStatus
begin

section \<open>This client's own requests on an agent (agent-request/agent-request.ts)\<close>

text \<open>
  The store of in-flight requests, one per agent, and the derivation of the words and the orb
  both apps show.  A \<open>run\<close> is two events: the call, which may start the action, and the
  settling of that action.  The outputs are the notifications of the listeners and the
  actions started.  The map is an association list in insertion order.
\<close>

datatype agent_request = ReqIdle | Stopping | ReqStarting | Authenticating | Deleting | ReqBackingUp | ReqRestoring

record agent_request_state =
  ar_request :: agent_request
  ar_error :: string

definition idle_request :: agent_request_state where
  "idle_request = \<lparr>ar_request = ReqIdle, ar_error = ''''\<rparr>"

text \<open>An action in flight: its number, its agent and the fallback message.\<close>

record requests =
  rq_states :: "(string \<times> agent_request_state) list"
  rq_running :: "(nat \<times> string \<times> string) list"
  rq_next :: nat

datatype request_event =
  ReqSet string agent_request string
| ReqClear string
| Reconcile "string list"
| Run string agent_request string
| ActionDone nat
| ActionFailed nat "string option"

datatype request_out = Notify | StartAction nat string

definition create_agent_requests :: requests where
  "create_agent_requests = \<lparr>rq_states = [], rq_running = [], rq_next = 0\<rparr>"

definition get_request :: "string \<Rightarrow> requests \<Rightarrow> agent_request_state" where
  "get_request name s = nullish (map_of (rq_states s) name) idle_request"

definition set_request :: "string \<Rightarrow> agent_request \<Rightarrow> string \<Rightarrow> requests \<Rightarrow> requests \<times> request_out list" where
  "set_request name request err s =
     (s\<lparr>rq_states := AList.update name \<lparr>ar_request = request, ar_error = err\<rparr> (rq_states s)\<rparr>, [Notify])"

definition clear_request :: "string \<Rightarrow> requests \<Rightarrow> requests \<times> request_out list" where
  "clear_request name s =
     (if map_of (rq_states s) name = None then (s, [])
      else (s\<lparr>rq_states := AList.delete name (rq_states s)\<rparr>, [Notify]))"

definition reconcile :: "string list \<Rightarrow> requests \<Rightarrow> requests \<times> request_out list" where
  "reconcile names s =
     (let kept = filter (\<lambda>(name, _). name \<in> set names) (rq_states s);
          changed = list_ex (\<lambda>(name, _). name \<notin> set names) (rq_states s)
      in (s\<lparr>rq_states := kept\<rparr>, if changed then [Notify] else []))"

definition start_run :: "string \<Rightarrow> agent_request \<Rightarrow> string \<Rightarrow> requests \<Rightarrow> requests \<times> request_out list" where
  "start_run name request fallback s =
     (if ar_request (get_request name s) \<noteq> ReqIdle then (s, [])
      else let (s, os) = set_request name request '''' s
           in (s\<lparr>rq_running := rq_running s @ [(rq_next s, name, fallback)], rq_next := Suc (rq_next s)\<rparr>,
               os @ [StartAction (rq_next s) name]))"

definition settle :: "nat \<Rightarrow> requests \<Rightarrow> requests" where
  "settle i s = s\<lparr>rq_running := filter (\<lambda>r. fst r \<noteq> i) (rq_running s)\<rparr>"

definition action_done :: "nat \<Rightarrow> requests \<Rightarrow> requests \<times> request_out list" where
  "action_done i s =
     (case map_of (rq_running s) i of
        None \<Rightarrow> (s, [])
      | Some (name, _) \<Rightarrow> clear_request name (settle i s))"

text \<open>The message of the rejection is empty when the cause is not an \<open>Error\<close>.\<close>

definition action_failed :: "nat \<Rightarrow> string option \<Rightarrow> requests \<Rightarrow> requests \<times> request_out list" where
  "action_failed i cause s =
     (case map_of (rq_running s) i of
        None \<Rightarrow> (s, [])
      | Some (name, fallback) \<Rightarrow>
          (let message = nullish cause ''''
           in set_request name ReqIdle (if message \<noteq> '''' then message else fallback) (settle i s)))"

fun request_step :: "requests \<Rightarrow> request_event \<Rightarrow> requests \<times> request_out list" where
  "request_step s (ReqSet name request err) = set_request name request err s"
| "request_step s (ReqClear name) = clear_request name s"
| "request_step s (Reconcile names) = reconcile names s"
| "request_step s (Run name request fallback) = start_run name request fallback s"
| "request_step s (ActionDone i) = action_done i s"
| "request_step s (ActionFailed i cause) = action_failed i cause s"

subsection \<open>The label and the orb\<close>

fun agent_request_label :: "agent_request \<Rightarrow> string" where
  "agent_request_label ReqStarting = ''starting...''"
| "agent_request_label Stopping = ''stopping...''"
| "agent_request_label Deleting = ''deleting...''"
| "agent_request_label ReqBackingUp = agent_operation_label BackingUp"
| "agent_request_label ReqRestoring = agent_operation_label Restoring"
| "agent_request_label Authenticating = ''signing in...''"
| "agent_request_label ReqIdle = ''''"

definition agent_request_orb_state :: "agent_request \<Rightarrow> orb_visual_state" where
  "agent_request_orb_state request = (if request = Deleting then ODeleting else OBusy)"

record agent_visual_source =
  av_status :: agent_status
  av_operation :: "agent_operation option"
  av_booting :: "bool option"
  av_rate_limited :: "rate_limited_info option"

definition agent_visual_status ::
  "jsnum \<Rightarrow> agent_visual_source option \<Rightarrow> agent_request \<Rightarrow> activity_state \<Rightarrow> string \<times> orb_visual_state" where
  "agent_visual_status now_ms agent request activity =
     (if request \<noteq> ReqIdle then (agent_request_label request, agent_request_orb_state request)
      else case agent of
             None \<Rightarrow> ('''', OOff)
           | Some a \<Rightarrow>
               (agent_status_label now_ms (av_status a) activity (av_operation a) (nullish (av_booting a) False)
                  (av_rate_limited a),
                agent_orb_state (av_status a) activity (av_operation a) (nullish (av_booting a) False)
                  (av_rate_limited a)))"

lemma request_label_orb:
  "r \<noteq> ReqIdle \<Longrightarrow> agent_request_orb_state r = orb_of_words (agent_request_label r)"
  by (cases r) (simp_all add: agent_request_orb_state_def orb_of_words_def starts_with_def)

lemma visual_orb_of_words:
  "snd (agent_visual_status now_ms agent request activity) =
     orb_of_words (fst (agent_visual_status now_ms agent request activity))"
proof (cases "request = ReqIdle")
  case True
  then show ?thesis
    by (cases agent) (simp_all add: agent_visual_status_def agent_label_orb [of _ _ _ _ _ now_ms]
        orb_of_words_def starts_with_def)
qed (simp add: agent_visual_status_def request_label_orb)

subsection \<open>One action per agent\<close>

text \<open>Every running action's agent shows a request, and no agent has two.\<close>

definition requests_inv :: "requests \<Rightarrow> bool" where
  "requests_inv s \<longleftrightarrow>
     distinct (map (fst \<circ> snd) (rq_running s)) \<and> distinct (map fst (rq_running s)) \<and>
     list_all (\<lambda>r. fst r < rq_next s) (rq_running s) \<and>
     list_all (\<lambda>r. ar_request (get_request (fst (snd r)) s) \<noteq> ReqIdle) (rq_running s)"

text \<open>The client drives its requests through \<open>run\<close> and nothing else.\<close>

fun run_only :: "requests \<Rightarrow> request_event \<Rightarrow> bool" where
  "run_only s (Run name request fallback) \<longleftrightarrow> request \<noteq> ReqIdle"
| "run_only s (ActionDone i) \<longleftrightarrow> True"
| "run_only s (ActionFailed i cause) \<longleftrightarrow> True"
| "run_only s _ \<longleftrightarrow> False"

lemma get_request_update [simp]:
  "get_request n (s\<lparr>rq_states := AList.update name r (rq_states s)\<rparr>) = (if n = name then r else get_request n s)"
  by (simp add: get_request_def update_conv')

lemma get_request_other [simp]:
  "get_request n (s\<lparr>rq_running := x\<rparr>) = get_request n s"
  "get_request n (s\<lparr>rq_running := x, rq_next := y\<rparr>) = get_request n s"
  by (simp_all add: get_request_def)

lemma get_request_clear:
  "get_request n (fst (clear_request name s)) = (if n = name then idle_request else get_request n s)"
  by (auto simp: clear_request_def get_request_def delete_conv')

lemma running_set [simp]:
  "rq_running (fst (set_request n r e s)) = rq_running s" "rq_next (fst (set_request n r e s)) = rq_next s"
  "rq_running (fst (clear_request n s)) = rq_running s" "rq_next (fst (clear_request n s)) = rq_next s"
  "rq_running (settle i s) = filter (\<lambda>r. fst r \<noteq> i) (rq_running s)" "rq_next (settle i s) = rq_next s"
  by (simp_all add: set_request_def clear_request_def settle_def)

lemma get_request_set:
  "get_request n (fst (set_request name r e s)) =
     (if n = name then \<lparr>ar_request = r, ar_error = e\<rparr> else get_request n s)"
  by (simp add: set_request_def)

lemma get_request_settle [simp]: "get_request n (settle i s) = get_request n s"
  by (simp add: settle_def)

lemma settle_others:
  assumes "requests_inv s" "map_of (rq_running s) i = Some (name, fb)"
    and "r \<in> set (rq_running s)" "fst r \<noteq> i"
  shows "fst (snd r) \<noteq> name"
proof
  assume eq: "fst (snd r) = name"
  have mem: "(i, name, fb) \<in> set (rq_running s)" using assms(2) by (rule map_of_SomeD)
  have "inj_on (fst \<circ> snd) (set (rq_running s))"
    using assms(1) by (simp add: requests_inv_def distinct_map)
  from inj_onD [OF this _ mem assms(3)] eq have "r = (i, name, fb)" by simp
  with assms(4) show False by simp
qed

lemma settled_inv:
  assumes "requests_inv s" "map_of (rq_running s) i = Some (name, fb)"
    and "\<And>n. n \<noteq> name \<Longrightarrow> get_request n s' = get_request n s"
    and "rq_running s' = filter (\<lambda>r. fst r \<noteq> i) (rq_running s)" "rq_next s' = rq_next s"
  shows "requests_inv s'"
  using assms(1) settle_others [OF assms(1,2)] assms(3-5)
  by (auto simp: requests_inv_def list_all_iff distinct_map_filter_keep)

lemma requests_inv_step:
  assumes inv: "requests_inv s" and en: "run_only s e"
  shows "requests_inv (fst (request_step s e))"
proof (cases e)
  case (Run name request fallback)
  show ?thesis
  proof (cases "ar_request (get_request name s) = ReqIdle")
    case True
    then have "name \<notin> (fst \<circ> snd) ` set (rq_running s)" using inv by (auto simp: requests_inv_def list_all_iff)
    moreover have "rq_next s \<notin> fst ` set (rq_running s)" using inv by (auto simp: requests_inv_def list_all_iff)
    ultimately show ?thesis
      using inv en True Run
      by (auto simp: start_run_def set_request_def requests_inv_def list_all_iff Let_def)
  qed (use Run inv in \<open>simp add: start_run_def\<close>)
next
  case (ActionDone i)
  show ?thesis
  proof (cases "map_of (rq_running s) i")
    case (Some p)
    obtain name fb where p: "p = (name, fb)" by (cases p)
    have "requests_inv (fst (clear_request name (settle i s)))"
      by (rule settled_inv [OF inv Some [unfolded p]]) (simp_all add: get_request_clear)
    with ActionDone Some p show ?thesis by (simp add: action_done_def)
  qed (use ActionDone inv in \<open>simp add: action_done_def\<close>)
next
  case (ActionFailed i cause)
  show ?thesis
  proof (cases "map_of (rq_running s) i")
    case (Some p)
    obtain name fb where p: "p = (name, fb)" by (cases p)
    have "requests_inv (fst (set_request name ReqIdle m (settle i s)))" for m
      by (rule settled_inv [OF inv Some [unfolded p]]) (simp_all add: get_request_set)
    with ActionFailed Some p show ?thesis by (simp add: action_failed_def Let_def)
  qed (use ActionFailed inv in \<open>simp add: action_failed_def\<close>)
qed (use en in auto)

interpretation requests: machine request_step run_only requests_inv
  by unfold_locales (rule requests_inv_step)

subsection \<open>Properties\<close>

text \<open>The words and the orb never contradict each other: whatever the roster, this client's
  request and the clock say, two views with the same words show the same orb.\<close>

theorem words_determine_orb:
  assumes "fst (agent_visual_status now agent request activity) =
    fst (agent_visual_status now' agent' request' activity')"
  shows "snd (agent_visual_status now agent request activity) =
    snd (agent_visual_status now' agent' request' activity')"
  using assms visual_orb_of_words by simp

theorem words_determine_orb_witness:
  "snd (agent_visual_status 0 (Some \<lparr>av_status = Alive, av_operation = Some Restoring, av_booting = None,
      av_rate_limited = None\<rparr>) ReqIdle Thinking) = snd (agent_visual_status 5 None ReqRestoring Idle)"
  by (rule words_determine_orb) (simp add: agent_visual_status_def agent_status_label_def)

text \<open>While the client goes through \<open>run\<close>, no agent ever has two of its actions in flight,
  and an agent with one always shows its request.\<close>

theorem one_action_per_agent:
  assumes "legal_events request_step run_only create_agent_requests es"
    and "s = fst (run_events request_step create_agent_requests es)"
  shows "distinct (map (\<lambda>r. fst (snd r)) (rq_running s)) \<and>
    list_all (\<lambda>r. ar_request (get_request (fst (snd r)) s) \<noteq> ReqIdle) (rq_running s)"
proof -
  have "requests_inv create_agent_requests" by (simp add: requests_inv_def create_agent_requests_def)
  from requests.run_inv [OF this assms(1)] show ?thesis by (simp add: requests_inv_def assms(2) o_def)
qed

theorem one_action_per_agent_witness:
  "distinct (map (\<lambda>r. fst (snd r)) (rq_running (fst (run_events request_step create_agent_requests
     [Run ''a'' Stopping ''x'', Run ''a'' ReqStarting ''x'', ActionFailed 0 None, Run ''a'' ReqStarting ''x''])))) \<and>
   list_all (\<lambda>r. ar_request (get_request (fst (snd r)) (fst (run_events request_step create_agent_requests
     [Run ''a'' Stopping ''x'', Run ''a'' ReqStarting ''x'', ActionFailed 0 None, Run ''a'' ReqStarting ''x''])))
       \<noteq> ReqIdle)
     (rq_running (fst (run_events request_step create_agent_requests
       [Run ''a'' Stopping ''x'', Run ''a'' ReqStarting ''x'', ActionFailed 0 None, Run ''a'' ReqStarting ''x''])))"
  by (rule one_action_per_agent [OF _ refl]) simp

lemma reconcile_drops_gone:
  "get_request n (fst (reconcile names s)) = (if n \<in> set names then get_request n s else idle_request)"
proof -
  have "map_of (filter (\<lambda>(name, _). name \<in> set names) ps) n = (if n \<in> set names then map_of ps n else None)"
    for ps :: "(string \<times> agent_request_state) list"
    by (induction ps) auto
  then show ?thesis by (simp add: get_request_def reconcile_def Let_def)
qed

end
