(* ===== verification/ReleaseVersion.thy ===== *)
theory ReleaseVersion
  imports Prelude
begin

section \<open>Release versions (apps/core/src/protocol/release-version.ts)\<close>

text \<open>
  The comparison behind the compatibility window, the backup timeline and the release notes.
  \<open>version_order\<close> is the contract its callers rely on: flipping the arguments negates the
  answer, answers are -1, 0 or 1, the order is transitive, and an answer exists exactly when
  both sides parse (the fail-open rule).  A part is read as the JavaScript number its digits denote: exact
  below $2^{53}$, rounded to 53 significant bits from there on.  A part of some 309 digits, which reads as
  \<open>Infinity\<close>, is left out.
\<close>

subsection \<open>The code\<close>

definition is_digit :: "char \<Rightarrow> bool" where
  "is_digit c \<longleftrightarrow> (48::nat) \<le> of_char c \<and> of_char c \<le> (57::nat)"

text \<open>\<open>/^\d+$/.test(part)\<close> and \<open>Number(part)\<close> on such a part.\<close>

definition all_digits :: "string \<Rightarrow> bool" where
  "all_digits s \<longleftrightarrow> s \<noteq> [] \<and> list_all is_digit s"

definition digits_value :: "string \<Rightarrow> nat" where
  "digits_value s = foldl (\<lambda>n c. 10 * n + (of_char c - 48)) 0 s"

text \<open>A decimal number is its digits and reads back.\<close>

lemma show_nat_digits: "show_nat n \<noteq> [] \<and> list_all is_digit (show_nat n) \<and> digits_value (show_nat n) = n"
proof (induction n rule: less_induct)
  case (less n)
  show ?case
  proof (cases "n < 10")
    case True
    then show ?thesis by (simp add: show_nat.simps [of n] is_digit_def digits_value_def)
  next
    case False
    then have "n div 10 < n" by simp
    note IH = less [OF this]
    have "is_digit (char_of (48 + n mod 10))" "(of_char (char_of (48 + n mod 10) :: char) :: nat) = 48 + n mod 10"
      by (simp_all add: is_digit_def)
    with False IH show ?thesis by (simp add: show_nat.simps [of n] digits_value_def)
  qed
qed

text \<open>The double nearest to a natural number, a tie going to the even significand.\<close>

fun bit_count :: "nat \<Rightarrow> nat" where
  "bit_count n = (if n = 0 then 0 else Suc (bit_count (n div 2)))"

declare bit_count.simps [simp del]

definition js_number :: "nat \<Rightarrow> nat" where
  "js_number n =
     (if n < 2 ^ 53 then n
      else let unit = 2 ^ (bit_count n - 53); q = n div unit; r = n mod unit
           in (if 2 * r > unit \<or> 2 * r = unit \<and> odd q then Suc q else q) * unit)"

lemma js_number_exact [simp]: "n < 9007199254740992 \<Longrightarrow> js_number n = n"
  by (simp add: js_number_def)

fun parse_nums :: "string list \<Rightarrow> nat list option" where
  "parse_nums [] = Some []"
| "parse_nums (part # parts) =
     (if \<not> all_digits part then None
      else map_option (Cons (js_number (digits_value part))) (parse_nums parts))"

definition parse_parts :: "string \<Rightarrow> nat list option" where
  "parse_parts version =
     (let core = hd (split_char (CHR ''-'') version)
      in case parse_nums (split_char (CHR ''.'') core) of
           None \<Rightarrow> None
         | Some nums \<Rightarrow> (if length nums > 0 then Some nums else None))"

definition resolve_client_version :: "string option \<Rightarrow> bool \<Rightarrow> string option" where
  "resolve_client_version release_version development =
     (if development then Some ''dev'' else release_version)"

definition part_at :: "nat list \<Rightarrow> nat \<Rightarrow> nat" where
  "part_at ns i = (if i < length ns then ns ! i else 0)"

function compare_loop :: "nat list \<Rightarrow> nat list \<Rightarrow> nat \<Rightarrow> nat \<Rightarrow> int" where
  "compare_loop left right len index =
     (if index < len then
        let diff = int (part_at left index) - int (part_at right index)
        in if diff \<noteq> 0 then (if diff > 0 then 1 else - 1)
           else compare_loop left right len (Suc index)
      else 0)"
  by pat_completeness auto
termination
  by (relation "measure (\<lambda>(l, r, len, i). len - i)") auto

declare compare_loop.simps [simp del]

definition compare_release_versions :: "string \<Rightarrow> string \<Rightarrow> int option" where
  "compare_release_versions a b =
     (case (parse_parts a, parse_parts b) of
        (Some left, Some right) \<Rightarrow>
          Some (compare_loop left right (max (length left) (length right)) 0)
      | _ \<Rightarrow> None)"

definition client_ahead_of_gateway :: "string \<Rightarrow> string \<Rightarrow> bool" where
  "client_ahead_of_gateway client_version gateway_version =
     (case compare_release_versions client_version gateway_version of
        None \<Rightarrow> False | Some cmp \<Rightarrow> cmp > 0)"

definition client_below_minimum :: "string \<Rightarrow> string \<Rightarrow> bool" where
  "client_below_minimum client_version min_supported =
     (case compare_release_versions client_version min_supported of
        None \<Rightarrow> False | Some cmp \<Rightarrow> cmp < 0)"

subsection \<open>The loop computes the lexicographic order of the zero-padded parts\<close>

lemma compare_loop_cases:
  "(compare_loop l r len i = 0 \<and> (\<forall>k. i \<le> k \<and> k < len \<longrightarrow> part_at l k = part_at r k)) \<or>
   (\<exists>k. i \<le> k \<and> k < len \<and> (\<forall>j. i \<le> j \<and> j < k \<longrightarrow> part_at l j = part_at r j) \<and>
      part_at l k \<noteq> part_at r k \<and>
      compare_loop l r len i = (if part_at r k < part_at l k then 1 else - 1))"
proof (induction l r len i rule: compare_loop.induct)
  case (1 l r len i)
  consider (stop) "\<not> i < len" | (diff) "i < len" "part_at l i \<noteq> part_at r i"
    | (eq) "i < len" "part_at l i = part_at r i" by blast
  then show ?case
  proof cases
    case stop
    then show ?thesis by (simp add: compare_loop.simps)
  next
    case diff
    then have "compare_loop l r len i = (if part_at r i < part_at l i then 1 else - 1)"
      by (simp add: compare_loop.simps [of l r len i])
    with diff show ?thesis by (intro disjI2 exI [of _ i]) auto
  next
    case eq
    then have step: "compare_loop l r len i = compare_loop l r len (Suc i)"
      by (simp add: compare_loop.simps [of l r len i])
    have below: "i \<le> k \<Longrightarrow> (k = i \<or> Suc i \<le> k)" for k by linarith
    have "\<not> int (part_at l i) - int (part_at r i) \<noteq> 0" using eq by simp
    from "1.IH" [OF eq(1) refl this] show ?thesis
    proof (elim disjE exE conjE)
      fix k
      assume k: "Suc i \<le> k" "k < len" "part_at l k \<noteq> part_at r k"
        and before: "\<forall>j. Suc i \<le> j \<and> j < k \<longrightarrow> part_at l j = part_at r j"
        and c: "compare_loop l r len (Suc i) = (if part_at r k < part_at l k then 1 else - 1)"
      have "part_at l j = part_at r j" if "i \<le> j" "j < k" for j
        using below [OF that(1)] eq(2) before that(2) by blast
      moreover have "i \<le> k" using k(1) by simp
      ultimately show ?thesis unfolding step using k c by blast
    next
      assume z: "compare_loop l r len (Suc i) = 0"
        and all: "\<forall>k. Suc i \<le> k \<and> k < len \<longrightarrow> part_at l k = part_at r k"
      have "part_at l k = part_at r k" if "i \<le> k" "k < len" for k
        using below [OF that(1)] eq(2) all that(2) by blast
      with z show ?thesis unfolding step by blast
    qed
  qed
qed

lemma part_at_beyond: "length l \<le> k \<Longrightarrow> part_at l k = 0"
  by (simp add: part_at_def)

definition lex_less :: "nat list \<Rightarrow> nat list \<Rightarrow> bool" where
  "lex_less l r \<longleftrightarrow> (\<exists>k. part_at l k < part_at r k \<and> (\<forall>j < k. part_at l j = part_at r j))"

lemma lex_less_trans: "lex_less a b \<Longrightarrow> lex_less b c \<Longrightarrow> lex_less a c"
proof -
  assume "lex_less a b" "lex_less b c"
  then obtain i j where i: "part_at a i < part_at b i" "\<forall>k < i. part_at a k = part_at b k"
    and j: "part_at b j < part_at c j" "\<forall>k < j. part_at b k = part_at c k"
    by (auto simp: lex_less_def)
  have "part_at a (min i j) < part_at c (min i j) \<and> (\<forall>k < min i j. part_at a k = part_at c k)"
    using i j by (cases i j rule: linorder_cases) (auto simp: min_def)
  then show ?thesis unfolding lex_less_def by blast
qed

lemma lex_less_asym: "lex_less a b \<Longrightarrow> \<not> lex_less b a"
  using lex_less_trans [of a b a] by (auto simp: lex_less_def)

definition lex_eq :: "nat list \<Rightarrow> nat list \<Rightarrow> bool" where
  "lex_eq l r \<longleftrightarrow> part_at l = part_at r"

lemma compare_loop_spec:
  fixes l r :: "nat list"
  defines "c \<equiv> compare_loop l r (max (length l) (length r)) 0"
  shows "(c = 0 \<and> lex_eq l r) \<or> (c = 1 \<and> lex_less r l) \<or> (c = - 1 \<and> lex_less l r)"
  using compare_loop_cases [of l r "max (length l) (length r)" 0]
proof (elim disjE exE conjE)
  assume z: "compare_loop l r (max (length l) (length r)) 0 = 0"
    and eq: "\<forall>k. 0 \<le> k \<and> k < max (length l) (length r) \<longrightarrow> part_at l k = part_at r k"
  have "part_at l k = part_at r k" for k
    using eq part_at_beyond [of l k] part_at_beyond [of r k]
    by (cases "k < max (length l) (length r)") auto
  with z show ?thesis by (auto simp: c_def lex_eq_def)
next
  fix k
  assume "\<forall>j. 0 \<le> j \<and> j < k \<longrightarrow> part_at l j = part_at r j" and ne: "part_at l k \<noteq> part_at r k"
    and c: "compare_loop l r (max (length l) (length r)) 0 = (if part_at r k < part_at l k then 1 else - 1)"
  then have eq: "\<forall>j < k. part_at l j = part_at r j" by simp
  show ?thesis
  proof (cases "part_at r k < part_at l k")
    case True
    with eq have "lex_less r l" unfolding lex_less_def by metis
    with True c show ?thesis by (simp add: c_def)
  next
    case False
    with ne have "part_at l k < part_at r k" by simp
    with eq have "lex_less l r" unfolding lex_less_def by blast
    with False c show ?thesis by (simp add: c_def)
  qed
qed

lemma lex_less_eq_irrefl: "lex_eq l r \<Longrightarrow> \<not> lex_less l r"
  by (auto simp: lex_eq_def lex_less_def)

lemma compare_loop_iff:
  fixes l r :: "nat list"
  defines "c \<equiv> compare_loop l r (max (length l) (length r)) 0"
  shows "c = 0 \<longleftrightarrow> lex_eq l r" and "c = 1 \<longleftrightarrow> lex_less r l" and "c = - 1 \<longleftrightarrow> lex_less l r"
    and "c \<in> {- 1, 0, 1}"
  using compare_loop_spec [of l r] lex_less_eq_irrefl [of l r] lex_less_eq_irrefl [of r l]
    lex_less_asym [of l r] unfolding c_def lex_eq_def by auto

lemma compare_loop_le:
  "compare_loop l r (max (length l) (length r)) 0 \<le> 0 \<longleftrightarrow> lex_eq l r \<or> lex_less l r"
  using compare_loop_spec [of l r] lex_less_eq_irrefl [of r l] lex_less_asym [of l r]
  by (auto simp: lex_eq_def)

lemma compare_loop_lt:
  "compare_loop l r (max (length l) (length r)) 0 < 0 \<longleftrightarrow> lex_less l r"
  using compare_loop_spec [of l r] lex_less_eq_irrefl [of l r] lex_less_asym [of l r] by auto

lemma lex_eq_subst:
  "lex_eq a b \<Longrightarrow> lex_less b c \<Longrightarrow> lex_less a c" "lex_less a b \<Longrightarrow> lex_eq b c \<Longrightarrow> lex_less a c"
  "lex_eq a b \<Longrightarrow> lex_eq b c \<Longrightarrow> lex_eq a c"
  by (auto simp: lex_eq_def lex_less_def)

lemma parse_parts_nonempty: "parse_parts v = Some ns \<Longrightarrow> ns \<noteq> []"
  by (auto simp: parse_parts_def Let_def split: option.splits if_splits)

subsection \<open>The contract of a fail-open version order\<close>

locale version_order =
  fixes compare :: "string \<Rightarrow> string \<Rightarrow> int option" and parses :: "string \<Rightarrow> bool"
  assumes answers: "compare a b \<noteq> None \<longleftrightarrow> parses a \<and> parses b"
    and flips: "compare b a = map_option uminus (compare a b)"
    and signs: "compare a b = Some c \<Longrightarrow> c \<in> {- 1, 0, 1}"
    and trans_le: "compare a b = Some x \<Longrightarrow> compare b d = Some y \<Longrightarrow> compare a d = Some z \<Longrightarrow>
      x \<le> 0 \<Longrightarrow> y \<le> 0 \<Longrightarrow> z \<le> 0"
    and trans_less: "compare a b = Some x \<Longrightarrow> compare b d = Some y \<Longrightarrow> compare a d = Some z \<Longrightarrow>
      x < 0 \<Longrightarrow> y \<le> 0 \<Longrightarrow> z < 0"
begin

definition compare_or_zero :: "string \<Rightarrow> string \<Rightarrow> int" where
  "compare_or_zero a b = nullish (compare a b) 0"

lemma self_zero: "parses a \<Longrightarrow> compare a a = Some 0"
  using answers [of a a] flips [of a a] by (cases "compare a a") auto

lemma fails_open: "\<not> parses a \<or> \<not> parses b \<Longrightarrow> compare a b = None"
  using answers [of a b] by blast

lemma some_when_parses: "parses a \<Longrightarrow> parses b \<Longrightarrow> \<exists>c. compare a b = Some c"
  using answers [of a b] by (cases "compare a b") auto

sublocale ascending: comparator compare_or_zero parses
proof
  fix x y
  assume "parses x" "parses y"
  then obtain c where "compare x y = Some c" using some_when_parses by blast
  moreover from this have "compare y x = Some (- c)" using flips [of y x] by simp
  ultimately show "compare_or_zero x y \<le> 0 \<or> compare_or_zero y x \<le> 0"
    by (auto simp: compare_or_zero_def)
next
  fix x y z
  assume "parses x" "parses y" "parses z" "compare_or_zero x y \<le> 0" "compare_or_zero y z \<le> 0"
  then show "compare_or_zero x z \<le> 0"
    using some_when_parses [of x y] some_when_parses [of y z] some_when_parses [of x z] trans_le
    by (auto simp: compare_or_zero_def)
qed

end

interpretation release: version_order compare_release_versions "\<lambda>v. parse_parts v \<noteq> None"
proof
  fix a b c :: string and x y z :: int
  show "compare_release_versions a b \<noteq> None \<longleftrightarrow> parse_parts a \<noteq> None \<and> parse_parts b \<noteq> None"
    by (auto simp: compare_release_versions_def split: option.splits)
  show "compare_release_versions b a = map_option uminus (compare_release_versions a b)"
  proof (cases "parse_parts a = None \<or> parse_parts b = None")
    case False
    then obtain l r where lr: "parse_parts a = Some l" "parse_parts b = Some r" by auto
    have "compare_loop r l (max (length l) (length r)) 0 =
      - compare_loop l r (max (length l) (length r)) 0"
      using compare_loop_spec [of l r] compare_loop_iff [of r l]
      by (auto simp: max.commute lex_eq_def)
    with lr show ?thesis by (simp add: compare_release_versions_def max.commute)
  qed (auto simp: compare_release_versions_def split: option.splits)
  show "compare_release_versions a b = Some c \<Longrightarrow> c \<in> {- 1, 0, 1}" for c
    using compare_loop_iff(4) by (auto simp: compare_release_versions_def split: option.splits)
  assume "compare_release_versions a b = Some x" "compare_release_versions b c = Some y"
    "compare_release_versions a c = Some z"
  then obtain l m r where lmr: "parse_parts a = Some l" "parse_parts b = Some m" "parse_parts c = Some r"
    and xyz: "x = compare_loop l m (max (length l) (length m)) 0"
      "y = compare_loop m r (max (length m) (length r)) 0"
      "z = compare_loop l r (max (length l) (length r)) 0"
    by (auto simp: compare_release_versions_def split: option.splits)
  show "x \<le> 0 \<Longrightarrow> y \<le> 0 \<Longrightarrow> z \<le> 0"
    unfolding xyz compare_loop_le using lex_eq_subst lex_less_trans by blast
  show "x < 0 \<Longrightarrow> y \<le> 0 \<Longrightarrow> z < 0"
    unfolding xyz compare_loop_le compare_loop_lt using lex_eq_subst lex_less_trans by blast
qed

subsection \<open>Properties\<close>

text \<open>The comparison answers exactly when both versions parse, and its answer is the
  lexicographic order of the dotted numbers, a missing part counting as zero: -1 for older,
  1 for newer, 0 for the same.\<close>

theorem compare_is_lexicographic:
  "compare_release_versions a b =
     (case (parse_parts a, parse_parts b) of
        (Some l, Some r) \<Rightarrow> Some (if lex_less l r then - 1 else if lex_less r l then 1 else 0)
      | _ \<Rightarrow> None)"
proof (cases "parse_parts a = None \<or> parse_parts b = None")
  case False
  then obtain l r where "parse_parts a = Some l" "parse_parts b = Some r" by auto
  then show ?thesis
    using compare_loop_spec [of l r] lex_less_eq_irrefl [of l r] lex_less_eq_irrefl [of r l]
      lex_less_asym [of l r]
    by (auto simp: compare_release_versions_def lex_eq_def)
qed (auto simp: compare_release_versions_def split: option.splits)

text \<open>The handshake never contradicts itself: when the gateway supports its own version, no
  client is both too old and too new for it, and a client is refused exactly when it lies
  outside the window from the minimum supported version to the gateway's version.\<close>

theorem hello_window_consistent:
  assumes "parse_parts client \<noteq> None" "parse_parts gateway \<noteq> None" "parse_parts lowest \<noteq> None"
    and "nullish (compare_release_versions lowest gateway) 0 \<le> 0"
  shows "\<not> (client_below_minimum client lowest \<and> client_ahead_of_gateway client gateway) \<and>
    (\<not> client_below_minimum client lowest \<and> \<not> client_ahead_of_gateway client gateway \<longleftrightarrow>
     nullish (compare_release_versions lowest client) 1 \<le> 0 \<and>
     nullish (compare_release_versions client gateway) 1 \<le> 0)"
proof -
  obtain x where x: "compare_release_versions client lowest = Some x"
    using release.some_when_parses [OF assms(1,3)] by (rule exE)
  obtain y where y: "compare_release_versions client gateway = Some y"
    using release.some_when_parses [OF assms(1,2)] by (rule exE)
  obtain z where z: "compare_release_versions lowest gateway = Some z"
    using release.some_when_parses [OF assms(3,2)] by (rule exE)
  note xyz = x y z
  have flip: "compare_release_versions lowest client = Some (- x)"
    using release.flips [of lowest client] xyz(1) by simp
  have "\<not> (x < 0 \<and> y > 0)"
    using release.trans_less [OF xyz(1) xyz(3) xyz(2)] assms(4) xyz(3) by auto
  then show ?thesis
    by (auto simp: client_below_minimum_def client_ahead_of_gateway_def xyz flip)
qed

theorem hello_window_consistent_witness:
  "\<not> (client_below_minimum ''0.1.5'' ''0.1.2'' \<and> client_ahead_of_gateway ''0.1.5'' ''0.1.10'') \<and>
    (\<not> client_below_minimum ''0.1.5'' ''0.1.2'' \<and> \<not> client_ahead_of_gateway ''0.1.5'' ''0.1.10'' \<longleftrightarrow>
     nullish (compare_release_versions ''0.1.2'' ''0.1.5'') 1 \<le> 0 \<and>
     nullish (compare_release_versions ''0.1.5'' ''0.1.10'') 1 \<le> 0)"
  by (rule hello_window_consistent)
    (simp_all add: parse_parts_def all_digits_def is_digit_def digits_value_def compare_release_versions_def
      compare_loop.simps part_at_def)

end
