(* ===== verification/Ansi.thy ===== *)
theory Ansi
  imports ReleaseVersion
begin

section \<open>The terminal log's escape sequences (ansi/ansi.ts)\<close>

text \<open>
  The parser both apps read their log surfaces through.  The two regular expressions are written as
  matchers at the head of a text, with the order of their alternatives; a scan takes the leftmost
  match and goes on behind it, as \<open>matchAll\<close> and a global \<open>replace\<close> do.  A style's absent flag
  is \<open>False\<close>: the code never stores a \<open>false\<close> flag.  The lemmas relate the spans to a character by
  character reading of the same text, write a list of spans as a terminal would and read it back,
  and show that the stripping loop ends with no sequence of its own pattern left.
\<close>

subsection \<open>Styles\<close>

abbreviation ESC :: char where "ESC \<equiv> CHR 0x1B"
abbreviation BEL :: char where "BEL \<equiv> CHR 0x07"

datatype ansi_color = Palette nat | Rgb string

record ansi_style =
  foreground :: "ansi_color option"
  background :: "ansi_color option"
  bold :: bool
  dim :: bool
  italic :: bool
  underline :: bool
  strikethrough :: bool
  inverse :: bool
  hidden :: bool

definition no_style :: ansi_style where
  "no_style = \<lparr>foreground = None, background = None, bold = False, dim = False, italic = False,
     underline = False, strikethrough = False, inverse = False, hidden = False\<rparr>"

record ansi_span =
  span_text :: string
  span_style :: ansi_style

datatype ansi_flag = FBold | FDim | FItalic | FUnderline | FStrikethrough | FInverse | FHidden

definition enabled_style_flag :: "nat \<Rightarrow> ansi_flag option" where
  "enabled_style_flag code =
     (if code = 1 then Some FBold else if code = 2 then Some FDim else if code = 3 then Some FItalic
      else if code = 4 then Some FUnderline else if code = 7 then Some FInverse else if code = 8 then Some FHidden
      else if code = 9 then Some FStrikethrough else if code = 21 then Some FUnderline else None)"

fun set_flag :: "ansi_flag \<Rightarrow> ansi_style \<Rightarrow> ansi_style" where
  "set_flag FBold s = s\<lparr>bold := True\<rparr>"
| "set_flag FDim s = s\<lparr>dim := True\<rparr>"
| "set_flag FItalic s = s\<lparr>italic := True\<rparr>"
| "set_flag FUnderline s = s\<lparr>underline := True\<rparr>"
| "set_flag FStrikethrough s = s\<lparr>strikethrough := True\<rparr>"
| "set_flag FInverse s = s\<lparr>inverse := True\<rparr>"
| "set_flag FHidden s = s\<lparr>hidden := True\<rparr>"

definition reset_style :: "nat \<Rightarrow> (ansi_style \<Rightarrow> ansi_style) option" where
  "reset_style code =
     (if code = 22 then Some (\<lambda>s. s\<lparr>bold := False, dim := False\<rparr>)
      else if code = 23 then Some (\<lambda>s. s\<lparr>italic := False\<rparr>)
      else if code = 24 then Some (\<lambda>s. s\<lparr>underline := False\<rparr>)
      else if code = 27 then Some (\<lambda>s. s\<lparr>inverse := False\<rparr>)
      else if code = 28 then Some (\<lambda>s. s\<lparr>hidden := False\<rparr>)
      else if code = 29 then Some (\<lambda>s. s\<lparr>strikethrough := False\<rparr>)
      else if code = 39 then Some (\<lambda>s. s\<lparr>foreground := None\<rparr>)
      else if code = 49 then Some (\<lambda>s. s\<lparr>background := None\<rparr>)
      else None)"

subsection \<open>Colors\<close>

definition color_index :: "nat \<Rightarrow> nat option" where
  "color_index code =
     (if 30 \<le> code \<and> code \<le> 37 then Some (code - 30)
      else if 90 \<le> code \<and> code \<le> 97 then Some (code - 90 + 8)
      else if 40 \<le> code \<and> code \<le> 47 then Some (code - 40)
      else if 100 \<le> code \<and> code \<le> 107 then Some (code - 100 + 8)
      else None)"

text \<open>A parameter is a non-negative integer, which \<open>Math.round\<close> and \<open>Math.max(0, _)\<close> keep.\<close>

definition byte :: "nat \<Rightarrow> nat" where "byte v = min 255 v"

definition rgb :: "nat \<Rightarrow> nat \<Rightarrow> nat \<Rightarrow> string" where
  "rgb red green blue = ''rgb('' @ join '', '' (map show_nat [red, green, blue]) @ '')''"

text \<open>The color read from the parameters behind a 38 or 48, and how many of them it takes.\<close>

fun extended_color :: "nat list \<Rightarrow> ansi_color option \<times> nat" where
  "extended_color (mode # p # later) =
     (if mode = 5 then (Some (Palette (byte p)), 2)
      else case later of
             green # blue # _ \<Rightarrow> (if mode = 2 then (Some (Rgb (rgb (byte p) (byte green) (byte blue))), 4) else (None, 0))
           | _ \<Rightarrow> (None, 0))"
| "extended_color _ = (None, 0)"

text \<open>
  \<open>split(/[;:]/)\<close>, \<open>Number\<close> and \<open>Number.isFinite\<close> on the characters the pattern admits (digits
  and the signs from the colon to the question mark): a part is a decimal number or \<open>NaN\<close>, and a
  number that rounds to infinity is dropped.
\<close>

definition split_parameters :: "string \<Rightarrow> string list" where
  "split_parameters v = split_char (CHR '';'') (map (\<lambda>c. if c = CHR '':'' then CHR '';'' else c) v)"

definition finite_number :: "nat \<Rightarrow> bool" where
  "finite_number n \<longleftrightarrow> n < 2 ^ 1024 - 2 ^ 970"

definition sgr_parameters :: "string \<Rightarrow> nat list" where
  "sgr_parameters v =
     (if v = [] then [0]
      else filter finite_number (map digits_value (filter all_digits (split_parameters v))))"

definition apply_palette_color :: "nat \<Rightarrow> ansi_style \<Rightarrow> ansi_style" where
  "apply_palette_color code s =
     (case color_index code of
        None \<Rightarrow> s
      | Some i \<Rightarrow>
          if (40 \<le> code \<and> code \<le> 47) \<or> 100 \<le> code then s\<lparr>background := Some (Palette i)\<rparr>
          else s\<lparr>foreground := Some (Palette i)\<rparr>)"

function apply_parameters :: "ansi_style \<Rightarrow> nat list \<Rightarrow> ansi_style" where
  "apply_parameters s [] = s"
| "apply_parameters s (code # later) =
     (if code = 0 then apply_parameters no_style later
      else case enabled_style_flag code of
        Some flag \<Rightarrow> apply_parameters (set_flag flag s) later
      | None \<Rightarrow>
          (case reset_style code of
             Some reset \<Rightarrow> apply_parameters (reset s) later
           | None \<Rightarrow>
               if code = 38 \<or> code = 48
               then let (color, consumed) = extended_color later;
                        s' = (case color of None \<Rightarrow> s
                              | Some c \<Rightarrow> if code = 38 then s\<lparr>foreground := Some c\<rparr> else s\<lparr>background := Some c\<rparr>)
                    in apply_parameters s' (drop consumed later)
               else apply_parameters (apply_palette_color code s) later))"
  by pat_completeness auto
termination by (relation "measure (\<lambda>(s, ps). length ps)") auto

definition apply_sgr :: "ansi_style \<Rightarrow> string \<Rightarrow> ansi_style" where
  "apply_sgr current sequence = apply_parameters current (sgr_parameters sequence)"

text \<open>The color a view paints, over the sixteen names it supplies.\<close>

definition cube_values :: "nat list" where "cube_values = [0, 95, 135, 175, 215, 255]"

definition cube_value :: "nat \<Rightarrow> nat" where
  "cube_value i = (if i < length cube_values then cube_values ! i else 0)"

fun resolve_ansi_color :: "string list \<Rightarrow> ansi_color \<Rightarrow> string" where
  "resolve_ansi_color palette (Rgb v) = v"
| "resolve_ansi_color palette (Palette i) =
     (if i < 16
      then (if i < length palette then palette ! i else if 7 < length palette then palette ! 7 else ''#000000'')
      else if i < 232
      then rgb (cube_value ((i - 16) div 36)) (cube_value ((i - 16) mod 36 div 6)) (cube_value ((i - 16) mod 6))
      else let gray = 8 + (i - 232) * 10 in rgb gray gray gray)"

subsection \<open>The controls a log carries\<close>

definition between :: "nat \<Rightarrow> nat \<Rightarrow> char \<Rightarrow> bool" where
  "between lo hi c \<longleftrightarrow> lo \<le> of_char c \<and> of_char c \<le> hi"

definition is_param :: "char \<Rightarrow> bool" where "is_param = between 0x30 0x3F"
definition is_intermediate :: "char \<Rightarrow> bool" where "is_intermediate = between 0x20 0x2F"
definition is_final :: "char \<Rightarrow> bool" where "is_final = between 0x40 0x7E"
definition is_c1 :: "char \<Rightarrow> bool" where "is_c1 = between 0x40 0x5F"

definition is_charset :: "char \<Rightarrow> bool" where
  "is_charset c \<longleftrightarrow> between 0x41 0x5A c \<or> is_digit c"

datatype ansi_control = Csi string string char | OtherControl

text \<open>The parameters, the intermediates and the command of a control sequence: the three classes are disjoint.\<close>

definition csi_match :: "string \<Rightarrow> (ansi_control \<times> string) option" where
  "csi_match s =
     (let s1 = dropWhile is_param s; s2 = dropWhile is_intermediate s1
      in case s2 of
           [] \<Rightarrow> None
         | c # rest \<Rightarrow> if is_final c then Some (Csi (takeWhile is_param s) (takeWhile is_intermediate s1) c, rest) else None)"

text \<open>A string sequence runs to its first terminator; \<open>stop\<close> are the characters its body cannot hold.\<close>

fun osc_end :: "(char \<Rightarrow> bool) \<Rightarrow> string \<Rightarrow> string option" where
  "osc_end stop [] = None"
| "osc_end stop (c # s) =
     (if c = BEL then Some s
      else if c = ESC \<and> starts_with [CHR 0x5C] s then Some (tl s)
      else if stop c then None else osc_end stop s)"

definition control_match :: "string \<Rightarrow> (ansi_control \<times> string) option" where
  "control_match s =
     (case s of
        [] \<Rightarrow> None
      | c # s1 \<Rightarrow>
          if c = CHR 0x9B then csi_match s1
          else if c \<noteq> ESC \<or> s1 = [] then None
          else (case (if hd s1 = CHR ''['' then csi_match (tl s1) else None) of
                  Some r \<Rightarrow> Some r
                | None \<Rightarrow>
                    (case (if hd s1 = CHR '']'' then osc_end (\<lambda>_. False) (tl s1) else None) of
                       Some rest \<Rightarrow> Some (OtherControl, rest)
                     | None \<Rightarrow>
                         if (hd s1 = CHR ''('' \<or> hd s1 = CHR '')'') \<and> tl s1 \<noteq> [] \<and> is_charset (hd (tl s1))
                         then Some (OtherControl, tl (tl s1))
                         else if is_c1 (hd s1) then Some (OtherControl, tl s1) else None)))"

lemma csi_match_length: "csi_match s = Some (k, rest) \<Longrightarrow> length rest < length s"
proof -
  assume a: "csi_match s = Some (k, rest)"
  let ?s1 = "dropWhile is_param s"
  from a have "Suc (length rest) = length (dropWhile is_intermediate ?s1)"
    by (auto simp: csi_match_def Let_def split: list.splits if_splits)
  also have "\<dots> \<le> length s" using length_dropWhile_le le_trans by blast
  finally show ?thesis by simp
qed

lemma osc_end_length: "osc_end stop s = Some rest \<Longrightarrow> length rest < length s"
  by (induction stop s rule: osc_end.induct) (auto split: if_splits)

lemma control_match_length: "control_match s = Some (k, rest) \<Longrightarrow> length rest < length s"
  by (cases s; cases "tl s")
    (auto simp: control_match_def split: if_splits option.splits dest!: csi_match_length osc_end_length)

definition apply_control :: "ansi_style \<Rightarrow> ansi_control \<Rightarrow> ansi_style" where
  "apply_control s k =
     (case k of Csi parameters intermediates command \<Rightarrow>
        (if command = CHR ''m'' \<and> intermediates = [] then apply_sgr s parameters else s)
      | OtherControl \<Rightarrow> s)"

text \<open>The text since the last control becomes a span, unless it is empty.\<close>

definition flush_span :: "ansi_style \<Rightarrow> string \<Rightarrow> ansi_span list" where
  "flush_span s t = (if t = [] then [] else [\<lparr>span_text = t, span_style = s\<rparr>])"

function parse_from :: "ansi_style \<Rightarrow> string \<Rightarrow> string \<Rightarrow> ansi_span list" where
  "parse_from s t [] = flush_span s t"
| "parse_from s t (c # cs) =
     (case control_match (c # cs) of
        None \<Rightarrow> parse_from s (t @ [c]) cs
      | Some (k, rest) \<Rightarrow> flush_span s t @ parse_from (apply_control s k) [] rest)"
  by pat_completeness auto
termination
  by (relation "measure (\<lambda>(s, t, cs). length cs)") (auto dest: control_match_length)

definition parse_ansi :: "string \<Rightarrow> ansi_span list" where
  "parse_ansi v = parse_from no_style [] v"

subsection \<open>Stripping\<close>

definition is_line_end :: "char \<Rightarrow> bool" where
  "is_line_end c \<longleftrightarrow> c = CHR 0x0A \<or> c = CHR 0x0D"

definition is_letter :: "char \<Rightarrow> bool" where
  "is_letter c \<longleftrightarrow> between 0x41 0x5A c \<or> between 0x61 0x7A c"

definition ansi_match :: "string \<Rightarrow> string option" where
  "ansi_match s =
     (case s of
        c # d # later \<Rightarrow>
          if c \<noteq> ESC then None
          else if d = CHR ''['' then
            (case dropWhile (\<lambda>x. is_digit x \<or> x = CHR '';'' \<or> x = CHR '':'') later of
               [] \<Rightarrow> None | x # rest \<Rightarrow> if is_letter x then Some rest else None)
          else if d = CHR '']'' then osc_end is_line_end later
          else if d = CHR ''('' \<and> later \<noteq> [] \<and> is_charset (hd later) then Some (tl later)
          else None
      | _ \<Rightarrow> None)"

lemma ansi_match_length: "ansi_match s = Some rest \<Longrightarrow> length rest < length s"
proof -
  assume a: "ansi_match s = Some rest"
  have l: "dropWhile P xs = x # ys \<Longrightarrow> length ys < length xs" for P and xs ys :: string and x
    using length_dropWhile_le [of P xs] by simp
  from a show ?thesis
    by (auto simp: ansi_match_def split: list.splits if_splits dest!: l osc_end_length)
qed

function strip_once :: "string \<Rightarrow> string" where
  "strip_once [] = []"
| "strip_once (c # cs) =
     (case ansi_match (c # cs) of None \<Rightarrow> c # strip_once cs | Some rest \<Rightarrow> strip_once rest)"
  by pat_completeness auto
termination by (relation "measure length") (auto dest: ansi_match_length)

lemma strip_once_length: "length (strip_once s) \<le> length s"
proof (induction s rule: strip_once.induct)
  case (2 c cs)
  then show ?case using ansi_match_length [of "c # cs"] by (fastforce split: option.splits)
qed simp

lemma strip_once_shorter: "strip_once s \<noteq> s \<Longrightarrow> length (strip_once s) < length s"
proof (induction s rule: strip_once.induct)
  case (2 c cs)
  show ?case
  proof (cases "ansi_match (c # cs)")
    case None
    with 2 show ?thesis by simp
  next
    case (Some rest)
    from ansi_match_length [OF this] strip_once_length [of rest] show ?thesis by (simp add: Some)
  qed
qed simp

function strip_ansi :: "string \<Rightarrow> string" where
  "strip_ansi t = (let out = strip_once t in if out = t then out else strip_ansi out)"
  by pat_completeness auto
termination by (relation "measure length") (auto intro: strip_once_shorter)

declare strip_ansi.simps [simp del]

subsection \<open>What the spans show\<close>

text \<open>The same text read one character at a time: each that is no part of a control, with the style in force.\<close>

function styled :: "ansi_style \<Rightarrow> string \<Rightarrow> (char \<times> ansi_style) list" where
  "styled s [] = []"
| "styled s (c # cs) =
     (case control_match (c # cs) of
        None \<Rightarrow> (c, s) # styled s cs
      | Some (k, rest) \<Rightarrow> styled (apply_control s k) rest)"
  by pat_completeness auto
termination
  by (relation "measure (\<lambda>(s, cs). length cs)") (auto dest: control_match_length)

definition painted :: "ansi_span list \<Rightarrow> (char \<times> ansi_style) list" where
  "painted spans = concat (map (\<lambda>x. map (\<lambda>c. (c, span_style x)) (span_text x)) spans)"

lemma painted_simps [simp]:
  "painted [] = []" "painted (xs @ ys) = painted xs @ painted ys"
  "painted (flush_span s t) = map (\<lambda>c. (c, s)) t"
  by (simp_all add: painted_def flush_span_def)

lemma painted_from: "painted (parse_from s t cs) = map (\<lambda>c. (c, s)) t @ styled s cs"
  by (induction s t cs rule: parse_from.induct) (auto split: option.splits)

lemma no_empty_span: "[] \<notin> span_text ` set (parse_from s t cs)"
proof (induction s t cs rule: parse_from.induct)
  case (2 s t c cs)
  have "[] \<notin> span_text ` set (flush_span s t)" by (simp add: flush_span_def)
  with 2 show ?case by (cases "control_match (c # cs)") (simp_all add: split_beta image_Un)
qed (simp add: flush_span_def)

text \<open>The spans of a text are exactly its characters outside the escape sequences, in order, each in
  the style the sequences before it have set, and no span is empty.\<close>

theorem spans_are_the_visible_text:
  "painted (parse_ansi v) = styled no_style v \<and> [] \<notin> span_text ` set (parse_ansi v)"
  using painted_from [of no_style "[]" v] no_empty_span [of no_style "[]" v] by (simp add: parse_ansi_def)

subsection \<open>Writing and reading back\<close>

text \<open>A pen as a program sets it: the colors in their extended forms and the flags.\<close>

datatype pen_color = PenIndex nat | PenRgb nat nat nat
datatype pen = Pen "pen_color option" "pen_color option" "ansi_flag list"

fun flag_code :: "ansi_flag \<Rightarrow> nat" where
  "flag_code FBold = 1" | "flag_code FDim = 2" | "flag_code FItalic = 3" | "flag_code FUnderline = 4"
| "flag_code FInverse = 7" | "flag_code FHidden = 8" | "flag_code FStrikethrough = 9"

fun color_parameters :: "nat \<Rightarrow> pen_color option \<Rightarrow> nat list" where
  "color_parameters base None = []"
| "color_parameters base (Some (PenIndex i)) = [base, 5, i]"
| "color_parameters base (Some (PenRgb r g b)) = [base, 2, r, g, b]"

fun pen_parameters :: "pen \<Rightarrow> nat list" where
  "pen_parameters (Pen f b flags) = 0 # map flag_code flags @ color_parameters 38 f @ color_parameters 48 b"

fun color_of :: "pen_color \<Rightarrow> ansi_color" where
  "color_of (PenIndex i) = Palette i"
| "color_of (PenRgb r g b) = Rgb (rgb r g b)"

fun style_of :: "pen \<Rightarrow> ansi_style" where
  "style_of (Pen f b flags) = (fold set_flag flags no_style)
     \<lparr>foreground := map_option color_of f, background := map_option color_of b\<rparr>"

fun color_fits :: "pen_color option \<Rightarrow> bool" where
  "color_fits None \<longleftrightarrow> True"
| "color_fits (Some (PenIndex i)) \<longleftrightarrow> i \<le> 255"
| "color_fits (Some (PenRgb r g b)) \<longleftrightarrow> r \<le> 255 \<and> g \<le> 255 \<and> b \<le> 255"

fun pen_fits :: "pen \<Rightarrow> bool" where
  "pen_fits (Pen f b flags) \<longleftrightarrow> color_fits f \<and> color_fits b"

definition sgr_sequence :: "nat list \<Rightarrow> string" where
  "sgr_sequence ns = [ESC, CHR ''[''] @ join '';'' (map show_nat ns) @ ''m''"

definition written_line :: "(pen \<times> string) list \<Rightarrow> string" where
  "written_line spans = concat (map (\<lambda>(p, t). sgr_sequence (pen_parameters p) @ t) spans)"

lemma apply_flags:
  "apply_parameters s (map flag_code flags @ ns) = apply_parameters (fold set_flag flags s) ns"
proof (induction flags arbitrary: s)
  case (Cons f flags)
  have "enabled_style_flag (flag_code f) = Some f" "flag_code f \<noteq> 0"
    by (cases f; simp add: enabled_style_flag_def)+
  with Cons show ?case by simp
qed simp

lemma extended_fits:
  "color_fits (Some c) \<Longrightarrow> extended_color (tl (color_parameters base (Some c)) @ ns) =
     (Some (color_of c), length (tl (color_parameters base (Some c))))"
  by (cases c) (simp_all add: byte_def)

lemma apply_extended:
  assumes "color_fits (Some c)" "code = 38 \<or> code = 48"
  shows "apply_parameters s (color_parameters code (Some c) @ ns) =
    apply_parameters (if code = 38 then s\<lparr>foreground := Some (color_of c)\<rparr> else s\<lparr>background := Some (color_of c)\<rparr>) ns"
proof -
  let ?later = "tl (color_parameters code (Some c))"
  have "color_parameters code (Some c) = code # ?later" by (cases c) simp_all
  then have eq: "color_parameters code (Some c) @ ns = code # ?later @ ns" by (metis append_Cons)
  have "enabled_style_flag code = None" "reset_style code = None" "code \<noteq> 0"
    using assms(2) by (auto simp: enabled_style_flag_def reset_style_def)
  then show ?thesis using assms(2)
    unfolding eq apply_parameters.simps(2) extended_fits [OF assms(1)] by auto
qed

lemma apply_colors:
  assumes "color_fits f"
  shows "apply_parameters s (color_parameters 38 f @ ns) =
           apply_parameters (case f of None \<Rightarrow> s | Some c \<Rightarrow> s\<lparr>foreground := Some (color_of c)\<rparr>) ns"
    and "apply_parameters s (color_parameters 48 f @ ns) =
           apply_parameters (case f of None \<Rightarrow> s | Some c \<Rightarrow> s\<lparr>background := Some (color_of c)\<rparr>) ns"
  using assms by (cases f; simp add: apply_extended)+

lemma fold_flags_colors:
  "foreground (fold set_flag flags s) = foreground s \<and> background (fold set_flag flags s) = background s"
proof (induction flags arbitrary: s)
  case (Cons f flags)
  then show ?case by (cases f) auto
qed simp

lemma apply_pen: "pen_fits p \<Longrightarrow> apply_parameters s (pen_parameters p) = style_of p"
proof (cases p)
  case (Pen f b flags)
  assume "pen_fits p"
  with Pen have "color_fits f" "color_fits b" by simp_all
  note c = apply_colors(1) [OF this(1)] apply_colors(2) [OF this(2), where ns = "[]", unfolded append_Nil2]
  have "foreground (fold set_flag flags no_style) = None" "background (fold set_flag flags no_style) = None"
    using fold_flags_colors [of flags no_style] by (simp_all add: no_style_def)
  then show ?thesis unfolding Pen
    unfolding pen_parameters.simps apply_parameters.simps(2) if_P [OF refl] apply_flags c
    by (cases f; cases b; simp)
qed

lemma digit_param: "is_digit c \<Longrightarrow> is_param c \<and> c \<noteq> CHR '';'' \<and> c \<noteq> CHR '':''"
  by (auto simp: is_digit_def is_param_def between_def)

lemma joined_numbers:
  "c \<in> set (join '';'' (map show_nat ns)) \<Longrightarrow> is_param c \<and> c \<noteq> CHR '':''"
proof (induction ns)
  case (Cons n ns)
  have n: "\<forall>x \<in> set (show_nat n). is_param x \<and> x \<noteq> CHR '':''"
    using show_nat_digits [of n] digit_param by (auto simp: list_all_iff)
  have semi: "is_param (CHR '';'')" by (simp add: is_param_def between_def)
  from Cons show ?case
    by (cases ns) (use n semi in \<open>auto simp: join_Cons\<close>)
qed simp

lemma parameters_read_back:
  assumes "ns \<noteq> []" "\<forall>n \<in> set ns. n \<le> 255"
  shows "sgr_parameters (join '';'' (map show_nat ns)) = ns"
proof -
  let ?v = "join '';'' (map show_nat ns)"
  have ne: "?v \<noteq> []" using assms(1) show_nat_digits by (cases ns; cases "tl ns") auto
  have "map (\<lambda>c. if c = CHR '':'' then CHR '';'' else c) ?v = ?v"
    using joined_numbers by (intro map_idI) auto
  moreover have "\<forall>p \<in> set (map show_nat ns). CHR '';'' \<notin> set p"
    using show_nat_digits digit_param by (fastforce simp: list_all_iff)
  ultimately have "split_parameters ?v = map show_nat ns"
    using assms(1) by (simp add: split_parameters_def split_char_join)
  moreover have "filter all_digits (map show_nat ns) = map show_nat ns"
    using show_nat_digits by (auto simp: all_digits_def intro!: filter_True)
  moreover have "filter finite_number ns = ns"
    using assms(2) by (auto simp: finite_number_def intro!: filter_True)
  ultimately show ?thesis using ne show_nat_digits by (simp add: sgr_parameters_def comp_def)
qed

lemma csi_sgr:
  "csi_match (join '';'' (map show_nat ns) @ CHR ''m'' # rest) = Some (Csi (join '';'' (map show_nat ns)) [] (CHR ''m''), rest)"
proof -
  have "\<forall>c \<in> set (join '';'' (map show_nat ns)). is_param c" using joined_numbers by blast
  then show ?thesis
    by (simp add: csi_match_def Let_def takeWhile_append2 dropWhile_append2)
      (simp add: is_param_def is_intermediate_def is_final_def between_def)
qed

lemma parse_sgr:
  assumes "ns \<noteq> []" "\<forall>n \<in> set ns. n \<le> 255"
  shows "parse_from s t (sgr_sequence ns @ rest) = flush_span s t @ parse_from (apply_parameters s ns) [] rest"
  by (simp add: sgr_sequence_def control_match_def csi_sgr apply_control_def apply_sgr_def parameters_read_back [OF assms])

definition writable :: "string \<Rightarrow> bool" where
  "writable t \<longleftrightarrow> t \<noteq> [] \<and> ESC \<notin> set t \<and> CHR 0x9B \<notin> set t"

lemma parse_text: "ESC \<notin> set u \<Longrightarrow> CHR 0x9B \<notin> set u \<Longrightarrow> parse_from s t (u @ rest) = parse_from s (t @ u) rest"
  by (induction u arbitrary: t) (auto simp: control_match_def)

lemma pen_bytes: "pen_fits p \<Longrightarrow> \<forall>n \<in> set (pen_parameters p). n \<le> 255"
proof (cases p)
  case (Pen f b flags)
  have c: "color_fits q \<Longrightarrow> base \<le> 255 \<Longrightarrow> \<forall>n \<in> set (color_parameters base q). n \<le> 255" for q base
    by (cases "(base, q)" rule: color_parameters.cases) auto
  have "flag_code f \<le> 255" for f by (cases f) auto
  moreover assume "pen_fits p"
  ultimately show ?thesis using Pen c [of f 38] c [of b 48] by auto
qed

lemma parse_written_line:
  "list_all (\<lambda>(p, t). pen_fits p \<and> writable t) spans \<Longrightarrow>
     parse_from s t (written_line spans) =
       flush_span s t @ map (\<lambda>(p, t). \<lparr>span_text = t, span_style = style_of p\<rparr>) spans"
proof (induction spans arbitrary: s t)
  case (Cons x spans)
  obtain p u where x: "x = (p, u)" by (cases x)
  with Cons.prems have p: "pen_fits p" and u: "writable u" by simp_all
  have ne: "pen_parameters p \<noteq> []" by (cases p) simp
  have "written_line (x # spans) = sgr_sequence (pen_parameters p) @ u @ written_line spans"
    by (simp add: written_line_def x)
  then show ?case using Cons u
    by (simp add: x parse_sgr [OF ne pen_bytes [OF p]] apply_pen [OF p] parse_text writable_def)
      (simp add: flush_span_def)
qed (simp add: written_line_def)

text \<open>C13: A line written as a terminal program writes it, each stretch of text behind one sequence that
  resets and sets its pen, is read back as exactly those stretches in those styles: every flag, and every
  256-color and 24-bit color of the foreground and of the background.\<close>

theorem written_spans_read_back:
  assumes "list_all (\<lambda>(p, t). pen_fits p \<and> writable t) spans"
  shows "parse_ansi (written_line spans) = map (\<lambda>(p, t). \<lparr>span_text = t, span_style = style_of p\<rparr>) spans"
  using parse_written_line [OF assms, of no_style "[]"] by (simp add: parse_ansi_def flush_span_def)

theorem written_spans_read_back_witness:
  "parse_ansi (written_line [(Pen (Some (PenIndex 196)) None [FBold], ''red''), (Pen None (Some (PenRgb 1 2 3)) [], ''x'')]) =
     [\<lparr>span_text = ''red'', span_style = style_of (Pen (Some (PenIndex 196)) None [FBold])\<rparr>,
      \<lparr>span_text = ''x'', span_style = style_of (Pen None (Some (PenRgb 1 2 3)) [])\<rparr>]"
  using written_spans_read_back [of "[(Pen (Some (PenIndex 196)) None [FBold], ''red''), (Pen None (Some (PenRgb 1 2 3)) [], ''x'')]"]
  by (simp add: writable_def)

subsection \<open>The stripping loop\<close>

lemma strip_ansi_fixpoint: "strip_once (strip_ansi t) = strip_ansi t"
proof (induction t rule: strip_ansi.induct)
  case (1 t)
  then show ?case by (cases "strip_once t = t") (simp_all add: strip_ansi.simps [of t] Let_def)
qed

lemma strip_once_id: "strip_once s = s \<Longrightarrow> ansi_match (drop i s) = None"
proof (induction s arbitrary: i rule: strip_once.induct)
  case 1
  then show ?case by (simp add: ansi_match_def)
next
  case (2 c cs)
  show ?case
  proof (cases "ansi_match (c # cs)")
    case (Some rest)
    with 2(3) have "length (strip_once rest) = Suc (length cs)" by simp
    with ansi_match_length [OF Some] strip_once_length [of rest] show ?thesis by simp
  next
    case None
    with 2 show ?thesis by (cases i) auto
  qed
qed

text \<open>The stripping loop returns for every text, and no sequence of its pattern is left anywhere in
  what it returns, also none that removing another has put together; stripping again changes nothing.\<close>

theorem stripping_leaves_no_sequence:
  "ansi_match (drop i (strip_ansi t)) = None \<and> strip_ansi (strip_ansi t) = strip_ansi t"
  using strip_once_id [OF strip_ansi_fixpoint] strip_ansi_fixpoint [of t]
  by (simp add: strip_ansi.simps [of "strip_ansi t"])

text \<open>The stripping pattern has no private parameters and no two-byte escapes: a sequence that hides the
  cursor, which the parser removes, stays in the text.\<close>

lemma strip_keeps_private_modes:
  "strip_ansi ([ESC] @ ''[?25lready'') = [ESC] @ ''[?25lready''"
  "map span_text (parse_ansi ([ESC] @ ''[?25lready'')) = [''ready'']"
proof -
  show "strip_ansi ([ESC] @ ''[?25lready'') = [ESC] @ ''[?25lready''"
    by (simp add: strip_ansi.simps ansi_match_def is_digit_def is_letter_def between_def)
  show "map span_text (parse_ansi ([ESC] @ ''[?25lready'')) = [''ready'']"
    by (simp add: parse_ansi_def control_match_def csi_match_def is_param_def is_intermediate_def
        is_final_def between_def flush_span_def)
qed

end
