(* ===== verification/Urls.thy ===== *)
theory Urls
  imports Prelude
begin

section \<open>Text in URLs (encodeURIComponent, URLSearchParams)\<close>

text \<open>
  The two encodings the request paths are built with, written out from ECMAScript and the URL
  standard for text below code unit 256, whose UTF-8 form takes one or two bytes.  The decoder is
  the reader of a server; it shows that no text is lost, and a segment that is encoded holds no
  character a path or a query is cut at.
\<close>

definition hex_digit :: "nat \<Rightarrow> char" where
  "hex_digit d = ''0123456789ABCDEF'' ! d"

definition pct_byte :: "nat \<Rightarrow> string" where
  "pct_byte b = [CHR ''%'', hex_digit (b div 16), hex_digit (b mod 16)]"

definition utf8 :: "char \<Rightarrow> nat list" where
  "utf8 c = (let n = of_char c in if n < 128 then [n] else [192 + n div 64, 128 + n mod 64])"

definition is_alnum :: "char \<Rightarrow> bool" where
  "is_alnum c \<longleftrightarrow> (let n = of_char c :: nat in 48 \<le> n \<and> n \<le> 57 \<or> 65 \<le> n \<and> n \<le> 90 \<or> 97 \<le> n \<and> n \<le> 122)"

definition percent_encode :: "(char \<Rightarrow> bool) \<Rightarrow> string \<Rightarrow> string" where
  "percent_encode safe s = concat (map (\<lambda>c. if safe c then [c] else concat (map pct_byte (utf8 c))) s)"

definition uri_safe :: "char \<Rightarrow> bool" where
  "uri_safe c \<longleftrightarrow> is_alnum c \<or> c \<in> set ''-_.!~*'' \<or> c = CHR 0x27 \<or> c \<in> set ''()''"

definition encode_uri_component :: "string \<Rightarrow> string" where
  "encode_uri_component s = percent_encode uri_safe s"

text \<open>\<open>new URLSearchParams(...).toString()\<close> over its entries in order.\<close>

definition form_safe :: "char \<Rightarrow> bool" where
  "form_safe c \<longleftrightarrow> is_alnum c \<or> c \<in> set ''*-._''"

definition form_encode :: "string \<Rightarrow> string" where
  "form_encode s = map (\<lambda>c. if c = CHR '' '' then CHR ''+'' else c) (percent_encode (\<lambda>c. form_safe c \<or> c = CHR '' '') s)"

definition query_string :: "(string \<times> string) list \<Rightarrow> string" where
  "query_string ps = join ''&'' (map (\<lambda>(k, v). form_encode k @ ''='' @ form_encode v) ps)"

subsection \<open>Reading back\<close>

definition hex_value :: "char \<Rightarrow> nat" where
  "hex_value c = (let n = of_char c in if n < 58 then n - 48 else n - 55)"

fun unescape_bytes :: "string \<Rightarrow> nat list" where
  "unescape_bytes [] = []"
| "unescape_bytes (c # s) =
     (if c = CHR ''%''
      then (case s of h # l # r \<Rightarrow> (16 * hex_value h + hex_value l) # unescape_bytes (drop 2 s) | _ \<Rightarrow> [])
      else of_char c # unescape_bytes s)"

fun utf8_read :: "nat list \<Rightarrow> string" where
  "utf8_read [] = []"
| "utf8_read (b # bs) =
     (if b < 128 then char_of b # utf8_read bs
      else (case bs of [] \<Rightarrow> [] | c # cs \<Rightarrow> char_of ((b mod 32) * 64 + c mod 64) # utf8_read (drop 1 bs)))"

definition percent_decode :: "string \<Rightarrow> string" where
  "percent_decode s = utf8_read (unescape_bytes s)"

lemma hex_value_digit [simp]: "d < 16 \<Longrightarrow> hex_value (hex_digit d) = d"
  by (auto simp: numeral_eq_Suc less_Suc_eq hex_digit_def hex_value_def)

lemma hex_digit_alnum: "d < 16 \<Longrightarrow> is_alnum (hex_digit d)"
  by (auto simp: numeral_eq_Suc less_Suc_eq hex_digit_def is_alnum_def)

lemma utf8_bytes: "b \<in> set (utf8 c) \<Longrightarrow> b < 256"
proof -
  assume "b \<in> set (utf8 c)"
  moreover have "(of_char c :: nat) div 64 < 4" by (simp add: less_mult_imp_div_less)
  moreover have "(of_char c :: nat) mod 64 < 64" by simp
  ultimately show ?thesis by (auto simp: utf8_def Let_def split: if_splits)
qed

lemma unescape_pct: "b < 256 \<Longrightarrow> unescape_bytes (pct_byte b @ s) = b # unescape_bytes s"
  by (simp add: pct_byte_def)

lemma unescape_pcts: "\<forall>b \<in> set bs. b < 256 \<Longrightarrow> unescape_bytes (concat (map pct_byte bs) @ s) = bs @ unescape_bytes s"
  by (induction bs) (simp_all add: unescape_pct)

lemma two_bytes:
  assumes "(n :: nat) < 256"
  shows "(192 + n div 64) mod 32 * 64 + (128 + n mod 64) mod 64 = n"
proof -
  have "n div 64 < 4" using assms by (simp add: less_mult_imp_div_less)
  then have "(192 + n div 64) mod 32 = n div 64" by (simp add: mod_add_eq [of 192 32 "n div 64", symmetric])
  moreover have "(128 + n mod 64) mod 64 = n mod 64" by (simp add: mod_add_eq [of 128 64 "n mod 64", symmetric])
  ultimately show ?thesis by simp
qed

lemma utf8_read_char: "utf8_read (utf8 c @ bs) = c # utf8_read bs"
proof (cases "(of_char c :: nat) < 128")
  case False
  have "utf8_read (utf8 c @ bs) =
      char_of ((192 + of_char c div 64 :: nat) mod 32 * 64 + (128 + of_char c mod 64) mod 64) # utf8_read bs"
    using False unfolding utf8_def Let_def if_not_P [OF False] append.simps utf8_read.simps list.case by simp
  then show ?thesis by (simp only: two_bytes nat_of_char_less_256 char_of_char)
qed (simp add: utf8_def Let_def)

lemma percent_roundtrip:
  assumes "\<And>c. safe c \<Longrightarrow> (of_char c :: nat) < 128 \<and> c \<noteq> CHR ''%''"
  shows "unescape_bytes (percent_encode safe s @ t) = concat (map utf8 s) @ unescape_bytes t"
proof (induction s)
  case (Cons c s)
  show ?case
  proof (cases "safe c")
    case True
    with assms [OF True] Cons show ?thesis by (simp add: percent_encode_def utf8_def Let_def)
  next
    case False
    with Cons show ?thesis using utf8_bytes by (simp add: percent_encode_def unescape_pcts)
  qed
qed (simp add: percent_encode_def)

lemma utf8_read_text: "utf8_read (concat (map utf8 s)) = s"
  by (induction s) (simp_all add: utf8_read_char)

lemma uri_safe_ascii: "uri_safe c \<Longrightarrow> (of_char c :: nat) < 128 \<and> c \<noteq> CHR ''%''"
  by (auto simp: uri_safe_def is_alnum_def Let_def)

lemma decode_encoded: "percent_decode (encode_uri_component s) = s"
  using percent_roundtrip [of uri_safe s "[]"] uri_safe_ascii
  by (simp add: percent_decode_def encode_uri_component_def utf8_read_text)

lemma encode_inj [simp]: "encode_uri_component s = encode_uri_component t \<longleftrightarrow> s = t"
  by (metis decode_encoded)

lemma encoded_chars: "c \<in> set (encode_uri_component s) \<Longrightarrow> uri_safe c \<or> c = CHR ''%''"
proof -
  assume "c \<in> set (encode_uri_component s)"
  then obtain d where d: "c \<in> set (if uri_safe d then [d] else concat (map pct_byte (utf8 d)))"
    unfolding encode_uri_component_def percent_encode_def set_concat set_map by blast
  show ?thesis
  proof (cases "uri_safe d")
    case True
    with d show ?thesis by simp
  next
    case False
    with d obtain b where "b \<in> set (utf8 d)" "c \<in> set (pct_byte b)" by auto
    with utf8_bytes [of b d] have "c = CHR ''%'' \<or> is_alnum c"
      by (auto simp: pct_byte_def hex_digit_alnum)
    then show ?thesis by (auto simp: uri_safe_def)
  qed
qed

lemma encoded_no_cut [simp]: "CHR ''/'' \<notin> set (encode_uri_component s)" "CHR ''?'' \<notin> set (encode_uri_component s)"
  using encoded_chars [of "CHR ''/''" s] encoded_chars [of "CHR ''?''" s]
  by (auto simp: uri_safe_def is_alnum_def)

text \<open>How a server reads a query's value.\<close>

definition form_decode :: "string \<Rightarrow> string" where
  "form_decode s = percent_decode (map (\<lambda>c. if c = CHR ''+'' then CHR '' '' else c) s)"

lemma percent_encode_no_plus:
  assumes "\<And>c. safe c \<Longrightarrow> c \<noteq> CHR ''+''" "c \<in> set (percent_encode safe s)"
  shows "c \<noteq> CHR ''+''"
proof -
  from assms(2) obtain d where d: "c \<in> set (if safe d then [d] else concat (map pct_byte (utf8 d)))"
    unfolding percent_encode_def set_concat set_map by blast
  show ?thesis
  proof (cases "safe d")
    case True
    with d assms(1) show ?thesis by auto
  next
    case False
    with d obtain b where "b \<in> set (utf8 d)" "c \<in> set (pct_byte b)" by auto
    with utf8_bytes [of b d] have "c = CHR ''%'' \<or> is_alnum c" by (auto simp: pct_byte_def hex_digit_alnum)
    then show ?thesis by (auto simp: is_alnum_def)
  qed
qed

lemma form_roundtrip: "form_decode (form_encode s) = s"
proof -
  let ?safe = "\<lambda>c. form_safe c \<or> c = CHR '' ''"
  have ascii: "?safe c \<Longrightarrow> (of_char c :: nat) < 128 \<and> c \<noteq> CHR ''%''" for c
    by (auto simp: form_safe_def is_alnum_def Let_def)
  have "?safe c \<Longrightarrow> c \<noteq> CHR ''+''" for c by (auto simp: form_safe_def is_alnum_def)
  from percent_encode_no_plus [of ?safe, OF this]
  have "CHR ''+'' \<notin> set (percent_encode ?safe s)" by blast
  then have "map (\<lambda>c. if c = CHR ''+'' then CHR '' '' else c) (form_encode s) = percent_encode ?safe s"
    unfolding form_encode_def map_map by (intro map_idI) auto
  then show ?thesis
    using percent_roundtrip [of ?safe s "[]", OF ascii]
    by (simp add: form_decode_def percent_decode_def utf8_read_text)
qed

end
