(* ===== verification/Provider.thy ===== *)
theory Provider
  imports ReleaseVersion Json
begin

section \<open>Model providers (provider/provider.ts, provider/provider-setup.ts)\<close>

text \<open>
  Who runs an agent: the catalog the gateway serves, the body of a provider's setup, the labels both
  apps show, and the context windows a plan is offered.  The tables are association lists, so a model
  named like a member every JavaScript object inherits (\<open>constructor\<close>) is read as an unknown model.
\<close>

datatype provider_kind = Claude | OpenRouter | Zai | Kimi | OpenAI

definition kind_name :: "provider_kind \<Rightarrow> string" where
  "kind_name k = (case k of Claude \<Rightarrow> ''claude'' | OpenRouter \<Rightarrow> ''openrouter'' | Zai \<Rightarrow> ''zai''
     | Kimi \<Rightarrow> ''kimi'' | OpenAI \<Rightarrow> ''openai'')"

datatype provider_auth_kind = ClaudeOAuth | DeviceOAuth | SubscriptionKey | ApiKey

record context_preset =
  cp_tokens :: jsnum
  cp_label :: string
  cp_note :: string
  cp_plans :: "string list option"

record context_policy =
  cx_default :: jsnum
  cx_max :: "jsnum option"
  cx_presets :: "context_preset list"
  cx_defaults_by_plan :: "(string \<times> jsnum) list option"
  cx_harness_suffix_above :: "jsnum option"

datatype provider_models = Models "string list" | LiveModels

record catalog_entry =
  ce_display :: string
  ce_order :: jsnum
  ce_auth_kind :: provider_auth_kind
  ce_models :: provider_models
  ce_model_names :: "(string \<times> string) list option"
  ce_default_model :: "string option"
  ce_auxiliary_model :: "string option"
  ce_context :: context_policy
  ce_context_by_model :: "(string \<times> context_policy) list option"

record provider_catalog =
  pc_default_provider :: provider_kind
  pc_providers :: "provider_kind \<rightharpoonup> catalog_entry"

subsection \<open>The setup's body\<close>

datatype provider_selection =
  ClaudeSelection string "string option" "jsnum option"
| KeySelection provider_kind string string "jsnum option"
| OpenAISelection string string "jsnum option"

definition context_field :: "jsnum option \<Rightarrow> jobj" where
  "context_field n = (case n of None \<Rightarrow> [] | Some t \<Rightarrow> [(''max_context_tokens'', JNum t)])"

fun provider_put_body :: "provider_selection \<Rightarrow> json" where
  "provider_put_body (ClaudeSelection credentials model tokens) =
     JObj ([(''kind'', JStr ''claude''), (''credentials'', JStr credentials)] @
       (case model of Some (c # m) \<Rightarrow> [(''model'', JStr (c # m))] | _ \<Rightarrow> []) @ context_field tokens)"
| "provider_put_body (OpenAISelection credentials model tokens) =
     JObj ([(''kind'', JStr ''openai''), (''credentials'', JStr credentials), (''model'', JStr model)] @
       context_field tokens)"
| "provider_put_body (KeySelection kind key model tokens) =
     JObj ([(''kind'', JStr (kind_name kind)), (''key'', JStr key), (''model'', JStr model)] @ context_field tokens)"

record provider_info =
  pi_kind :: "provider_kind option"
  pi_model :: "string option"
  pi_resolved_model :: "string option"
  pi_max_context_tokens :: "jsnum option"
  pi_authed :: bool
  pi_plan :: "string option"

text \<open>The wire's form: each field may be absent, and all but the kind and the flag also null.\<close>

record provider_info_wire =
  pw_kind :: "provider_kind option"
  pw_model :: "string option option"
  pw_resolved_model :: "string option option"
  pw_max_context_tokens :: "jsnum option option"
  pw_authed :: "bool option"
  pw_plan :: "string option option"

definition normalize_provider_info :: "provider_info_wire \<Rightarrow> provider_info" where
  "normalize_provider_info w =
     \<lparr>pi_kind = pw_kind w, pi_model = nullish (pw_model w) None,
      pi_resolved_model = nullish (pw_resolved_model w) None,
      pi_max_context_tokens = nullish (pw_max_context_tokens w) None, pi_authed = nullish (pw_authed w) False,
      pi_plan = nullish (pw_plan w) None\<rparr>"

subsection \<open>Labels\<close>

record provider_identity =
  id_kind :: provider_kind
  id_provider_name :: string
  id_model_name :: "string option"

definition claude_aliases :: "(string \<times> string) list" where
  "claude_aliases = [(''opus-latest'', ''Opus''), (''sonnet-latest'', ''Sonnet'')]"

definition legacy_claude_aliases :: "(string \<times> string) list" where
  "legacy_claude_aliases = [(''opus'', ''opus-latest''), (''sonnet'', ''sonnet-latest'')]"

definition claude_alias_labels :: "(string \<times> string) list" where
  "claude_alias_labels =
     claude_aliases @ map (\<lambda>(legacy, canonical). (legacy, nullish (map_of claude_aliases canonical) legacy)) legacy_claude_aliases"

definition canonical_claude_model :: "string \<Rightarrow> string" where
  "canonical_claude_model model = nullish (map_of legacy_claude_aliases model) model"

definition is_lower :: "char \<Rightarrow> bool" where
  "is_lower c \<longleftrightarrow> (97 :: nat) \<le> of_char c \<and> of_char c \<le> (122 :: nat)"

definition capitalize :: "string \<Rightarrow> string" where
  "capitalize s = (case s of [] \<Rightarrow> [] | c # t \<Rightarrow> char_of (of_char c - 32 :: nat) # t)"

text \<open>\<open>/^claude-([a-z]+)((?:-\d+)+)$/\<close>: the family, and the numbers behind it.\<close>

definition claude_slug :: "string \<Rightarrow> (string \<times> string list) option" where
  "claude_slug slug =
     (if \<not> starts_with ''claude-'' slug then None
      else let s = drop 7 slug; family = takeWhile is_lower s; later = dropWhile is_lower s;
               parts = split_char (CHR ''-'') (tl later)
           in if family \<noteq> [] \<and> starts_with ''-'' later \<and> list_all all_digits parts then Some (family, parts) else None)"

definition format_claude_slug :: "string \<Rightarrow> string option" where
  "format_claude_slug slug =
     (case claude_slug slug of
        None \<Rightarrow> None
      | Some (family, parts) \<Rightarrow>
          (let parts = (if length (last parts) = 8 then butlast parts else parts)
           in if parts = [] then None else Some (capitalize family @ '' '' @ join ''.'' parts)))"

definition resolve_model_name :: "provider_info \<Rightarrow> catalog_entry option \<Rightarrow> string option" where
  "resolve_model_name provider entry =
     (case pi_model provider of
        None \<Rightarrow> None
      | Some model \<Rightarrow>
          if model = [] then None
          else case (case entry of None \<Rightarrow> None | Some e \<Rightarrow> (case ce_model_names e of None \<Rightarrow> None | Some names \<Rightarrow> map_of names model)) of
            Some catalog_name \<Rightarrow> Some catalog_name
          | None \<Rightarrow>
              (case map_of claude_alias_labels model of
                 Some alias_label \<Rightarrow>
                   (let resolved = (case pi_resolved_model provider of
                                      Some (c # m) \<Rightarrow> format_claude_slug (c # m) | _ \<Rightarrow> None)
                    in Some (nullish resolved alias_label))
               | None \<Rightarrow> Some (nullish (format_claude_slug model) model)))"

definition resolve_provider_identity :: "provider_info option \<Rightarrow> provider_catalog option \<Rightarrow> provider_identity option" where
  "resolve_provider_identity provider catalog =
     (case provider of
        None \<Rightarrow> None
      | Some p \<Rightarrow>
          (case pi_kind p of
             None \<Rightarrow> None
           | Some kind \<Rightarrow>
               if \<not> pi_authed p then None
               else let entry = (case catalog of None \<Rightarrow> None | Some c \<Rightarrow> pc_providers c kind)
                    in Some \<lparr>id_kind = kind,
                             id_provider_name = (case entry of None \<Rightarrow> kind_name kind | Some e \<Rightarrow> ce_display e),
                             id_model_name = (if pi_model p \<noteq> None \<and> pi_model p \<noteq> Some [] then resolve_model_name p entry
                                              else None)\<rparr>))"

subsection \<open>Setup\<close>

text \<open>The parsed credentials, or none where they are no JSON.\<close>

definition plan_from_credentials :: "json option \<Rightarrow> string option" where
  "plan_from_credentials parsed =
     (case parsed of
        Some (JObj fs) \<Rightarrow>
          (case field fs ''claudeAiOauth'' of
             Some (JObj oauth) \<Rightarrow> as_str (field oauth ''subscriptionType'')
           | _ \<Rightarrow> None)
      | _ \<Rightarrow> None)"

definition preset_allowed :: "context_preset \<Rightarrow> string option \<Rightarrow> bool" where
  "preset_allowed preset plan \<longleftrightarrow>
     (case (cp_plans preset, plan) of (Some plans, Some p) \<Rightarrow> p \<in> set plans | _ \<Rightarrow> True)"

definition plan_context_options :: "context_policy \<Rightarrow> string option \<Rightarrow> context_preset list \<times> jsnum" where
  "plan_context_options context plan =
     (let presets = filter (\<lambda>preset. preset_allowed preset plan) (cx_presets context);
          preferred = (case (plan, cx_defaults_by_plan context) of (Some p, Some ds) \<Rightarrow> map_of ds p | _ \<Rightarrow> None);
          in_presets = (\<lambda>tokens. list_ex (\<lambda>preset. cp_tokens preset = tokens) presets);
          initial = (if preferred \<noteq> None \<and> in_presets (the preferred) then the preferred
                     else if in_presets (cx_default context) then cx_default context
                     else if presets \<noteq> [] then cp_tokens (last presets) else cx_default context)
      in (presets, initial))"

definition some_context :: "jsnum \<Rightarrow> jsnum option" where
  "some_context n = (if n > 0 then Some n else None)"

definition provider_result :: "provider_kind \<Rightarrow> string option \<Rightarrow> string \<Rightarrow> string \<Rightarrow> jsnum \<Rightarrow> provider_selection option" where
  "provider_result provider credentials key model max_context_tokens =
     (if provider = Claude
      then map_option (\<lambda>c. ClaudeSelection c (if model = [] then None else Some model) (Some max_context_tokens)) credentials
      else if provider = OpenAI
      then map_option (\<lambda>c. OpenAISelection c model (some_context max_context_tokens)) credentials
      else Some (KeySelection provider key model (some_context max_context_tokens)))"

definition model_step_initial_model :: "provider_kind option \<Rightarrow> string \<Rightarrow> provider_catalog \<Rightarrow> string" where
  "model_step_initial_model provider model catalog =
     (if model \<noteq> [] then model
      else case provider of
        None \<Rightarrow> []
      | Some k \<Rightarrow>
          if k = Claude then ''opus-latest''
          else (case pc_providers catalog k of None \<Rightarrow> [] | Some e \<Rightarrow> nullish (ce_default_model e) []))"

definition provider_uses_oauth :: "provider_kind option \<Rightarrow> provider_catalog \<Rightarrow> bool" where
  "provider_uses_oauth provider catalog \<longleftrightarrow>
     (case provider of
        None \<Rightarrow> False
      | Some k \<Rightarrow>
          (case pc_providers catalog k of
             None \<Rightarrow> False
           | Some e \<Rightarrow> ce_auth_kind e = ClaudeOAuth \<or> ce_auth_kind e = DeviceOAuth))"

subsection \<open>Properties\<close>

text \<open>The context step never starts on a window the plan is not offered: the initial one is among the
  presets shown whenever any is shown, the plan's own default where that is offered, and every preset
  shown is one the plan may use.\<close>

theorem initial_window_is_offered:
  assumes "plan_context_options context plan = (presets, initial)"
  shows "(presets = [] \<or> initial \<in> cp_tokens ` set presets) \<and> list_all (\<lambda>p. preset_allowed p plan) presets \<and>
    (\<forall>p ds t. plan = Some p \<and> cx_defaults_by_plan context = Some ds \<and> map_of ds p = Some t \<and>
       t \<in> cp_tokens ` set presets \<longrightarrow> initial = t)"
proof -
  have last_in: "xs \<noteq> [] \<Longrightarrow> cp_tokens (last xs) \<in> cp_tokens ` set xs" for xs by simp
  have ex: "list_ex (\<lambda>preset. cp_tokens preset = t) xs \<longleftrightarrow> t \<in> cp_tokens ` set xs" for t xs
    by (auto simp: list_ex_iff)
  have p: "presets = filter (\<lambda>preset. preset_allowed preset plan) (cx_presets context)"
    using assms by (simp add: plan_context_options_def Let_def)
  have i: "initial = (if preferred \<noteq> None \<and> the preferred \<in> cp_tokens ` set presets then the preferred
      else if cx_default context \<in> cp_tokens ` set presets then cx_default context
      else if presets \<noteq> [] then cp_tokens (last presets) else cx_default context)"
    if "preferred = (case (plan, cx_defaults_by_plan context) of (Some p, Some ds) \<Rightarrow> map_of ds p | _ \<Rightarrow> None)" for preferred
    using assms unfolding that plan_context_options_def Let_def ex p [symmetric] prod.inject by (elim conjE) (rule sym)
  have "presets = [] \<or> initial \<in> cp_tokens ` set presets"
    using last_in [of presets] unfolding i [OF refl] by simp
  moreover have "list_all (\<lambda>p. preset_allowed p plan) presets" by (simp add: p list_all_iff)
  moreover have "\<forall>p ds t. plan = Some p \<and> cx_defaults_by_plan context = Some ds \<and> map_of ds p = Some t \<and>
       t \<in> cp_tokens ` set presets \<longrightarrow> initial = t" using i by auto
  ultimately show ?thesis by blast
qed

definition sample_policy :: context_policy where
  "sample_policy =
     \<lparr>cx_default = 200000, cx_max = None,
      cx_presets = [\<lparr>cp_tokens = 200000, cp_label = ''200K'', cp_note = [], cp_plans = None\<rparr>,
                    \<lparr>cp_tokens = 1000000, cp_label = ''1M'', cp_note = [], cp_plans = Some [''max'']\<rparr>],
      cx_defaults_by_plan = Some [(''max'', 1000000)], cx_harness_suffix_above = None\<rparr>"

theorem initial_window_is_offered_witness:
  "\<exists>presets. plan_context_options sample_policy (Some ''pro'') = (presets, 200000) \<and> 200000 \<in> cp_tokens ` set presets"
proof -
  obtain presets where p: "plan_context_options sample_policy (Some ''pro'') = (presets, 200000)" "presets \<noteq> []"
    by (simp add: plan_context_options_def sample_policy_def preset_allowed_def)
  from initial_window_is_offered [OF p(1)] p show ?thesis by blast
qed

lemma split_snoc: "c \<notin> set q \<Longrightarrow> split_char c (s @ c # q) = split_char c s @ [q]"
proof (induction s)
  case (Cons x s)
  have "split_char c s \<noteq> []" by simp
  with Cons show ?case by (auto split: list.splits)
qed (simp add: split_char_notin)

lemma all_digits_no_dash: "all_digits s \<Longrightarrow> CHR ''-'' \<notin> set s"
  by (auto simp: all_digits_def list_all_iff is_digit_def)

text \<open>A dated pin of a Claude model reads as the model it pins: appending an eight-digit date to a slug
  that has a label of its own, and no date yet, does not change the label.\<close>

theorem dated_pin_keeps_its_label:
  assumes "claude_slug slug = Some (family, parts)" "length (last parts) \<noteq> 8" "all_digits date" "length date = 8"
  shows "format_claude_slug (slug @ ''-'' @ date) = format_claude_slug slug \<and> format_claude_slug slug \<noteq> None"
proof -
  let ?s = "drop 7 slug"
  let ?later = "dropWhile is_lower ?s"
  from assms(1) have pre: "starts_with ''claude-'' slug" and f: "family = takeWhile is_lower ?s" "family \<noteq> []"
    and l: "starts_with ''-'' ?later" and ps: "parts = split_char (CHR ''-'') (tl ?later)" "list_all all_digits parts"
    by (auto simp: claude_slug_def Let_def split: if_splits)
  from l obtain r where r: "?later = CHR ''-'' # r" using starts_with_ex [OF l] by auto
  have len: "7 \<le> length slug" using starts_with_length [OF pre] by simp
  have "starts_with ''claude-'' (slug @ ''-'' @ date)" using starts_with_ex [OF pre] by (auto simp: starts_with_def)
  moreover have d: "drop 7 (slug @ ''-'' @ date) = ?s @ ''-'' @ date" using len by simp
  moreover have t: "takeWhile is_lower (?s @ ''-'' @ date) = family" "dropWhile is_lower (?s @ ''-'' @ date) = ?later @ ''-'' @ date"
  proof -
    have s: "?s = family @ ?later" unfolding f(1) by simp
    have "\<forall>c \<in> set family. is_lower c" unfolding f(1) by (auto dest: set_takeWhileD)
    moreover have "\<not> is_lower (CHR ''-'')" by (simp add: is_lower_def)
    ultimately show "takeWhile is_lower (?s @ ''-'' @ date) = family" "dropWhile is_lower (?s @ ''-'' @ date) = ?later @ ''-'' @ date"
      using r by (subst s, simp add: takeWhile_append2 dropWhile_append2)+
  qed
  moreover have "split_char (CHR ''-'') (tl (?later @ ''-'' @ date)) = parts @ [date]"
    using split_snoc [OF all_digits_no_dash [OF assms(3)], of r] by (simp add: r ps(1))
  moreover have "starts_with ''-'' (?later @ ''-'' @ date)" by (simp add: r starts_with_def)
  ultimately have "claude_slug (slug @ ''-'' @ date) = Some (family, parts @ [date])"
    using f(2) ps(2) assms(3) by (simp add: claude_slug_def Let_def)
  moreover have "parts \<noteq> []" using ps(1) by simp
  ultimately show ?thesis using assms(1,2,4) by (simp add: format_claude_slug_def)
qed

theorem dated_pin_keeps_its_label_witness:
  "format_claude_slug (''claude-opus-4-8'' @ ''-'' @ ''20260101'') = format_claude_slug ''claude-opus-4-8'' \<and>
    format_claude_slug ''claude-opus-4-8'' \<noteq> None"
  by (rule dated_pin_keeps_its_label [where family = "''opus''" and parts = "[''4'', ''8'']"])
    (simp_all add: claude_slug_def starts_with_def is_lower_def all_digits_def is_digit_def)

text \<open>An agent that is signed in always has a name to show, and a model to show whenever it has one set:
  a known model by its label, an unknown one as it is written, never an empty text.\<close>

theorem signed_in_agent_has_a_label:
  assumes "pi_kind p = Some kind" "pi_authed p" "pi_model p = Some (c # m)"
    and "\<And>e. pc_providers catalog kind = Some e \<Longrightarrow> list_all (\<lambda>kv. snd kv \<noteq> []) (nullish (ce_model_names e) [])"
  shows "\<exists>i label. resolve_provider_identity (Some p) (Some catalog) = Some i \<and> id_kind i = kind \<and>
    id_model_name i = Some label \<and> label \<noteq> []"
proof -
  let ?entry = "pc_providers catalog kind"
  have alias_ok: "label \<noteq> []" if "map_of claude_alias_labels x = Some label" for x label
    using that by (auto simp: claude_alias_labels_def claude_aliases_def legacy_claude_aliases_def split: if_splits)
  have slug_ok: "label \<noteq> []" if "format_claude_slug x = Some label" for x label
    using that by (auto simp: format_claude_slug_def Let_def split: option.splits if_splits)
  have names_ok: "label \<noteq> []" if "?entry = Some e" "ce_model_names e = Some ns" "map_of ns x = Some label" for e ns x label
    using assms(4) [OF that(1)] that(2) map_of_SomeD [OF that(3)] by (auto simp: list_all_iff)
  have "\<exists>label. resolve_model_name p ?entry = Some label \<and> label \<noteq> []"
    using assms(3) alias_ok slug_ok names_ok
    by (auto simp: resolve_model_name_def Let_def split: option.split list.split)
  then show ?thesis using assms(1-3) by (auto simp: resolve_provider_identity_def)
qed

theorem signed_in_agent_has_a_label_witness:
  "\<exists>i label. resolve_provider_identity
      (Some \<lparr>pi_kind = Some Claude, pi_model = Some ''opus-latest'', pi_resolved_model = None, pi_max_context_tokens = None,
             pi_authed = True, pi_plan = None\<rparr>)
      (Some \<lparr>pc_default_provider = Claude, pc_providers = Map.empty\<rparr>) = Some i \<and> id_kind i = Claude \<and>
    id_model_name i = Some label \<and> label \<noteq> []"
  by (rule signed_in_agent_has_a_label) simp_all

text \<open>A zero context is left off the wire for every provider but Claude, whose setup always names it.\<close>

lemma claude_zero_context_reaches_the_wire:
  "map_option provider_put_body (provider_result Claude (Some ''c'') [] [] 0) =
     Some (JObj [(''kind'', JStr ''claude''), (''credentials'', JStr ''c''), (''max_context_tokens'', JNum 0)])"
  "map_option provider_put_body (provider_result OpenAI (Some ''c'') [] ''m'' 0) =
     Some (JObj [(''kind'', JStr ''openai''), (''credentials'', JStr ''c''), (''model'', JStr ''m'')])"
  by (simp_all add: provider_result_def context_field_def some_context_def)

end
