(* ===== verification/Http.thy ===== *)
theory Http
  imports Json
begin

section \<open>The http client (transport/http.ts)\<close>

text \<open>
  The request of the one http client, with the world passed explicitly: \<open>'w\<close> is whatever
  the injected functions (\<open>fetch\<close>, \<open>token\<close>, \<open>refresh\<close>, \<open>isExpiring\<close>, \<open>baseUrl\<close>) read and
  change, so a world may hold anything that happens during an await.  A fetch that rejects is
  \<open>None\<close>.  A response carries its status, its body text and what \<open>JSON.parse\<close> makes of it.
\<close>

record http_response =
  re_status :: nat
  re_body :: string
  re_json :: "json option"

text \<open>A request as it leaves: the URL, the headers (lower-case names), the rest of \<open>init\<close>.\<close>

record http_send =
  hs_url :: string
  hs_headers :: "(string \<times> string) list"
  hs_method :: string
  hs_payload :: "json option"

record http_init =
  hi_method :: string
  hi_headers :: "(string \<times> string) list"
  hi_payload :: "json option"

datatype http_error =
  ApiError nat string
| FetchRejected
| NotConnected

record 'w http_deps =
  hd_base_url :: "'w \<Rightarrow> string option"
  hd_fetch :: "http_send \<Rightarrow> 'w \<Rightarrow> http_response option \<times> 'w"
  hd_token :: "'w \<Rightarrow> string option"
  hd_refresh :: "'w \<Rightarrow> bool \<times> 'w"
  hd_is_expiring :: "('w \<Rightarrow> bool) option"
  hd_format_error :: "(http_response \<Rightarrow> string \<Rightarrow> string) option"

definition response_ok :: "http_response \<Rightarrow> bool" where
  "response_ok r \<longleftrightarrow> 200 \<le> re_status r \<and> re_status r \<le> 299"

definition json_init :: "string \<Rightarrow> json \<Rightarrow> http_init" where
  "json_init method body =
     \<lparr>hi_method = method, hi_headers = [(''content-type'', ''application/json'')], hi_payload = Some body\<rparr>"

definition error_message :: "http_response \<Rightarrow> string" where
  "error_message r =
     (case as_record (re_json r) of
        None \<Rightarrow> re_body r
      | Some parsed \<Rightarrow> (case as_str (field parsed ''error'') of Some v \<Rightarrow> v | None \<Rightarrow> re_body r))"

text \<open>\<open>result.set(key, value)\<close> on a \<open>Headers\<close>: replaces the entry of that name.\<close>

definition header_set :: "string \<Rightarrow> string \<Rightarrow> (string \<times> string) list \<Rightarrow> (string \<times> string) list" where
  "header_set key v hs = filter (\<lambda>h. fst h \<noteq> key) hs @ [(key, v)]"

definition http_headers :: "string option \<Rightarrow> http_init \<Rightarrow> (string \<times> string) list" where
  "http_headers token init =
     foldl (\<lambda>result (key, v). header_set key v result)
       (case token of None \<Rightarrow> [] | Some t \<Rightarrow> header_set ''authorization'' (''Bearer '' @ t) [])
       (hi_headers init)"

definition http_send_once ::
  "'w http_deps \<Rightarrow> string \<Rightarrow> http_init \<Rightarrow> 'w \<Rightarrow> (http_error + http_response) \<times> 'w" where
  "http_send_once deps path init w =
     (case hd_base_url deps w of
        None \<Rightarrow> (Inl NotConnected, w)
      | Some base \<Rightarrow>
          (case hd_fetch deps \<lparr>hs_url = base @ path, hs_headers = http_headers (hd_token deps w) init,
                              hs_method = hi_method init, hs_payload = hi_payload init\<rparr> w of
             (None, w) \<Rightarrow> (Inl FetchRejected, w)
           | (Some r, w) \<Rightarrow> (Inr r, w)))"

definition http_request ::
  "'w http_deps \<Rightarrow> string \<Rightarrow> http_init \<Rightarrow> 'w \<Rightarrow> (http_error + http_response) \<times> 'w" where
  "http_request deps path init w =
     (let w = (case hd_is_expiring deps of
                 None \<Rightarrow> w
               | Some expiring \<Rightarrow> (if expiring w then snd (hd_refresh deps w) else w));
          (first, w) = http_send_once deps path init w;
          (response, w) =
            (case first of
               Inl e \<Rightarrow> (first, w)
             | Inr r \<Rightarrow>
                 (if re_status r = 401
                  then (case hd_refresh deps w of
                          (True, w) \<Rightarrow> http_send_once deps path init w
                        | (False, w) \<Rightarrow> (first, w))
                  else (first, w)))
      in case response of
           Inl e \<Rightarrow> (Inl e, w)
         | Inr r \<Rightarrow>
             (if \<not> response_ok r
              then (Inl (ApiError (re_status r)
                     (case hd_format_error deps of
                        Some format_error \<Rightarrow> format_error r (re_body r)
                      | None \<Rightarrow> error_message r)), w)
              else (Inr r, w)))"

text \<open>\<open>json\<close>: the response's body parsed, \<open>None\<close> when the parse throws.\<close>

definition http_json ::
  "'w http_deps \<Rightarrow> string \<Rightarrow> http_init \<Rightarrow> 'w \<Rightarrow> (http_error + json option) \<times> 'w" where
  "http_json deps path init w =
     (case http_request deps path init w of
        (Inl e, w) \<Rightarrow> (Inl e, w)
      | (Inr r, w) \<Rightarrow> (Inr (re_json r), w))"

subsection \<open>What is sent, observed by tracing\<close>

text \<open>The same client with every send and its status, and every refresh and its answer, recorded in a trace.\<close>

datatype wire_event = Sent http_send "nat option" | Refreshed bool

definition logged :: "'w http_deps \<Rightarrow> ('w \<times> wire_event list) http_deps" where
  "logged deps =
     \<lparr>hd_base_url = (\<lambda>(w, tr). hd_base_url deps w),
      hd_fetch = (\<lambda>req (w, tr). let (r, w) = hd_fetch deps req w
                                in (r, w, tr @ [Sent req (map_option re_status r)])),
      hd_token = (\<lambda>(w, tr). hd_token deps w),
      hd_refresh = (\<lambda>(w, tr). let (b, w) = hd_refresh deps w in (b, w, tr @ [Refreshed b])),
      hd_is_expiring = map_option (\<lambda>f (w, tr). f w) (hd_is_expiring deps),
      hd_format_error = hd_format_error deps\<rparr>"

lemma logged_sel [simp]:
  "hd_base_url (logged deps) (w, tr) = hd_base_url deps w"
  "hd_fetch (logged deps) req (w, tr) =
     (fst (hd_fetch deps req w), snd (hd_fetch deps req w), tr @ [Sent req (map_option re_status (fst (hd_fetch deps req w)))])"
  "hd_token (logged deps) (w, tr) = hd_token deps w"
  "hd_refresh (logged deps) (w, tr) =
     (fst (hd_refresh deps w), snd (hd_refresh deps w), tr @ [Refreshed (fst (hd_refresh deps w))])"
  "hd_is_expiring (logged deps) = map_option (\<lambda>f (w, tr). f w) (hd_is_expiring deps)"
  "hd_format_error (logged deps) = hd_format_error deps"
  by (simp_all add: logged_def split_beta Let_def)

definition sends :: "wire_event list \<Rightarrow> (http_send \<times> nat option) list" where
  "sends tr = concat (map (\<lambda>e. case e of Sent r s \<Rightarrow> [(r, s)] | Refreshed _ \<Rightarrow> []) tr)"

lemma sends_simps [simp]:
  "sends [] = []" "sends (xs @ ys) = sends xs @ sends ys" "sends [Sent r s] = [(r, s)]" "sends [Refreshed b] = []"
  by (simp_all add: sends_def)

definition is_error :: "http_error + 'a \<Rightarrow> http_error \<Rightarrow> bool" where
  "is_error r e = (case r of Inl x \<Rightarrow> x = e | Inr _ \<Rightarrow> False)"

lemma send_once_log:
  "http_send_once (logged deps) path init (w, tr) =
     (case http_send_once deps path init w of
        (r, w') \<Rightarrow> (r, w', (case hd_base_url deps w of
           None \<Rightarrow> tr
         | Some base \<Rightarrow> tr @ [Sent \<lparr>hs_url = base @ path, hs_headers = http_headers (hd_token deps w) init,
              hs_method = hi_method init, hs_payload = hi_payload init\<rparr>
              (case r of Inr x \<Rightarrow> Some (re_status x) | Inl _ \<Rightarrow> None)])))"
  by (auto simp: http_send_once_def split: option.splits prod.splits sum.splits)

text \<open>The refresh a request may start with.\<close>

definition preflight :: "'w http_deps \<Rightarrow> 'w \<Rightarrow> 'w \<times> wire_event list" where
  "preflight deps w =
     (case hd_is_expiring deps of
        None \<Rightarrow> (w, [])
      | Some expiring \<Rightarrow> (if expiring w then (snd (hd_refresh deps w), [Refreshed (fst (hd_refresh deps w))]) else (w, [])))"

lemma sends_preflight [simp]: "sends (snd (preflight deps w)) = []"
  by (simp add: preflight_def split: option.splits)

definition finish :: "'w http_deps \<Rightarrow> http_error + http_response \<Rightarrow> http_error + http_response" where
  "finish deps r = (case r of Inl e \<Rightarrow> Inl e
     | Inr x \<Rightarrow> (if response_ok x then Inr x
                else Inl (ApiError (re_status x)
                   (case hd_format_error deps of Some f \<Rightarrow> f x (re_body x) | None \<Rightarrow> error_message x))))"

lemma http_request_alt:
  "http_request deps path init w =
     (let (first, w1) = http_send_once deps path init (fst (preflight deps w))
      in case first of
           Inl e \<Rightarrow> (Inl e, w1)
         | Inr r \<Rightarrow>
             (if re_status r \<noteq> 401 then (finish deps first, w1)
              else let (b, w2) = hd_refresh deps w1
                   in if \<not> b then (finish deps first, w2)
                      else let (second, w3) = http_send_once deps path init w2 in (finish deps second, w3)))"
  by (auto simp: http_request_def preflight_def finish_def Let_def split: option.splits sum.splits prod.splits)

lemma preflight_logged:
  "preflight (logged deps) (w, tr) = ((fst (preflight deps w), tr @ snd (preflight deps w)), snd (preflight deps w))"
  by (auto simp: preflight_def split: option.splits)

lemma finish_logged [simp]: "finish (logged deps) = finish deps"
  unfolding finish_def logged_sel by (rule refl)

lemma finish_Inr: "finish deps x = Inr r \<Longrightarrow> x = Inr r \<and> response_ok r"
  by (auto simp: finish_def split: sum.splits if_splits)

text \<open>One send adds one entry at most, and its status is the response's.\<close>

lemma send_once_cases:
  obtains (none) "http_send_once (logged deps) path init (w, tr) = (Inl NotConnected, w, tr)"
    | (rejected) req w1 where "http_send_once (logged deps) path init (w, tr) = (Inl FetchRejected, w1, tr @ [Sent req None])"
    | (answered) r req w1 where
        "http_send_once (logged deps) path init (w, tr) = (Inr r, w1, tr @ [Sent req (Some (re_status r))])"
        "hs_headers req = http_headers (hd_token deps w) init"
proof (cases "hd_base_url deps w")
  case None
  then show ?thesis using none by (simp add: http_send_once_def)
next
  case (Some base)
  let ?req = "\<lparr>hs_url = base @ path, hs_headers = http_headers (hd_token deps w) init,
    hs_method = hi_method init, hs_payload = hi_payload init\<rparr>"
  obtain x w1 where f: "hd_fetch deps ?req w = (x, w1)" by (cases "hd_fetch deps ?req w")
  show ?thesis
  proof (cases x)
    case None
    then show ?thesis using rejected [of w1 ?req] f Some by (simp add: http_send_once_def)
  next
    case (Some r)
    then show ?thesis using answered [of r w1 ?req] f \<open>hd_base_url deps w = Some base\<close>
      by (simp add: http_send_once_def)
  qed
qed

lemma logged_refresh:
  "hd_refresh (logged deps) (w, tr) = (b, w') \<Longrightarrow>
     hd_refresh deps w = (b, fst w') \<and> snd w' = tr @ [Refreshed b]"
  by (cases "hd_refresh deps w") auto

subsection \<open>Properties\<close>

text \<open>A request reaches the wire at most twice, and twice only when the first answer was 401
  and the refresh it forced succeeded; the retry carries the token that refresh left.  A
  request that returns a response returns the last answer on the wire, and that answer is ok.\<close>

theorem retries_once_after_refresh:
  assumes "http_request (logged deps) path init (w, []) = (res, w', tr)"
  shows "length (sends tr) \<le> 2 \<and>
    (length (sends tr) = 2 \<longrightarrow> snd (hd (sends tr)) = Some 401 \<and> (\<exists>w1 w2. hd_refresh deps w1 = (True, w2) \<and>
       hs_headers (fst (last (sends tr))) = http_headers (hd_token deps w2) init)) \<and>
    (\<forall>r. res = Inr r \<longrightarrow> response_ok r \<and> sends tr \<noteq> [] \<and> snd (last (sends tr)) = Some (re_status r))"
proof -
  let ?pre = "snd (preflight deps w)" and ?w0 = "fst (preflight deps w)"
  have req: "http_request (logged deps) path init (w, []) =
     (let (first, w1) = http_send_once (logged deps) path init (?w0, ?pre)
      in case first of
           Inl e \<Rightarrow> (Inl e, w1)
         | Inr r \<Rightarrow>
             (if re_status r \<noteq> 401 then (finish deps first, w1)
              else let (b, w2) = hd_refresh (logged deps) w1
                   in if \<not> b then (finish deps first, w2)
                      else let (second, w3) = http_send_once (logged deps) path init w2 in (finish deps second, w3)))"
    unfolding http_request_alt preflight_logged finish_logged by simp
  have pre: "sends ?pre = []" by simp
  show ?thesis
  proof (cases rule: send_once_cases [of deps path init ?w0 ?pre])
    case none
    with assms req have "tr = ?pre" "res = Inl NotConnected" by simp_all
    then show ?thesis by (simp add: pre)
  next
    case (rejected q w1)
    with assms req have "tr = ?pre @ [Sent q None]" "res = Inl FetchRejected" by simp_all
    then show ?thesis by (simp add: pre)
  next
    case (answered r q w1)
    obtain b w2 where hr: "hd_refresh deps w1 = (b, w2)" by (cases "hd_refresh deps w1")
    consider (plain) "re_status r \<noteq> 401" | (stale) "re_status r = 401" "\<not> b" | (again) "re_status r = 401" "b"
      by blast
    then show ?thesis
    proof cases
      case plain
      with answered assms req have "res = finish deps (Inr r)" "tr = ?pre @ [Sent q (Some (re_status r))]" by simp_all
      then show ?thesis using finish_Inr [of deps "Inr r"] pre by auto
    next
      case stale
      with answered assms req hr have "res = finish deps (Inr r)"
        "tr = ?pre @ [Sent q (Some 401), Refreshed False]" by simp_all
      then show ?thesis using stale finish_Inr [of deps "Inr r"] pre sends_simps(2) [of "[Sent q (Some 401)]" "[Refreshed False]"]
        by auto
    next
      case again
      let ?t2 = "?pre @ [Sent q (Some 401), Refreshed True]"
      have t2: "sends ?t2 = [(q, Some 401)]"
        using pre sends_simps(2) [of "[Sent q (Some 401)]" "[Refreshed True]"] by simp
      have second: "(case http_send_once (logged deps) path init (w2, ?t2) of
          (second, w3) \<Rightarrow> (finish deps second, w3)) = (res, w', tr)"
        using answered(1) assms req hr again by simp
      show ?thesis
      proof (cases rule: send_once_cases [of deps path init w2 ?t2])
        case none
        with second have "tr = ?t2" "res = Inl NotConnected" by (auto simp: finish_def)
        then show ?thesis by (simp only: t2) simp
      next
        case (rejected q' w3)
        then have tr: "tr = ?t2 @ [Sent q' None]" "res = Inl FetchRejected" using second by (auto simp: finish_def)
        have "sends tr = [(q, Some 401), (q', None)]" unfolding tr(1) sends_simps(2) [of ?t2] t2 by simp
        moreover have "hs_headers q' = http_headers (hd_token deps w2) init"
          using rejected by (auto simp: http_send_once_def split: option.splits prod.splits)
        ultimately show ?thesis using tr(2) hr again by auto
      next
        case (answered r' q' w3)
        then have tr: "tr = ?t2 @ [Sent q' (Some (re_status r'))]" "res = finish deps (Inr r')"
          using second by auto
        have "sends tr = [(q, Some 401), (q', Some (re_status r'))]" unfolding tr(1) sends_simps(2) [of ?t2] t2 by simp
        then show ?thesis using tr(2) answered(2) hr again finish_Inr [of deps "Inr r'"] by auto
      qed
    qed
  qed
qed

definition sample_http :: "bool http_deps" where
  "sample_http = \<lparr>hd_base_url = (\<lambda>_. Some ''http://g''),
     hd_fetch = (\<lambda>req fresh. (Some \<lparr>re_status = (if fresh then 200 else 401), re_body = [], re_json = None\<rparr>, fresh)),
     hd_token = (\<lambda>fresh. Some (if fresh then ''new'' else ''old'')), hd_refresh = (\<lambda>_. (True, True)),
     hd_is_expiring = None, hd_format_error = None\<rparr>"

definition get_init :: http_init where
  "get_init = \<lparr>hi_method = ''GET'', hi_headers = [], hi_payload = None\<rparr>"

theorem retries_once_after_refresh_witness:
  "\<exists>res w' tr. http_request (logged sample_http) ''/x'' get_init (False, []) = (res, w', tr) \<and>
     length (sends tr) = 2 \<and> snd (hd (sends tr)) = Some 401"
proof -
  obtain res w' tr where r: "http_request (logged sample_http) ''/x'' get_init (False, []) = (res, w', tr)"
    by (metis prod.collapse)
  have "tr = snd (snd (http_request (logged sample_http) ''/x'' get_init (False, [])))" by (simp add: r)
  then have "length (sends tr) = 2"
    by (simp add: http_request_def sample_http_def logged_def http_send_once_def get_init_def sends_def response_ok_def)
  with retries_once_after_refresh [OF r] r show ?thesis by blast
qed

end
