(* ===== verification/Sse.thy ===== *)
theory Sse
  imports Http
begin

section \<open>Event streams (transport/sse.ts)\<close>

text \<open>
  The reader of a log stream, as a machine over what its awaits settle to, and the one-shot
  drain of a pipeline's answer.  A chunk is the text the \<open>TextDecoder\<close> makes of it, and
  \<open>JSON.parse\<close> is a parameter.
\<close>

subsection \<open>Blocks\<close>

definition blank_line :: string where
  "blank_line = [CHR 0x0A, CHR 0x0A]"

text \<open>The lines of a block set its name and add to its data.\<close>

definition sse_line :: "string \<times> string list \<Rightarrow> string \<Rightarrow> string \<times> string list" where
  "sse_line acc line =
     (if starts_with '':'' line then acc
      else if starts_with ''data:'' line
      then (let d = drop 5 line in (fst acc, snd acc @ [if starts_with '' '' d then tl d else d]))
      else if starts_with ''event:'' line then (trim (drop 6 line), snd acc)
      else acc)"

definition parse_sse_block :: "string \<Rightarrow> string \<times> string" where
  "parse_sse_block block =
     (let (name, datas) = foldl sse_line (''message'', []) (split_char (CHR 0x0A) block)
      in (name, join [CHR 0x0A] datas))"

subsection \<open>The reader\<close>

datatype stream_event =
  StreamLine string
| StreamEnd
| StreamError string

definition disconnected :: string where "disconnected = ''log stream disconnected''"

text \<open>The block that names the stopped event ends the stream.\<close>

definition dispatch_block :: "string \<Rightarrow> string \<Rightarrow> stream_event \<times> bool" where
  "dispatch_block stopped_event block =
     (let (name, t) = parse_sse_block block
      in if name = stopped_event then (StreamEnd, True)
         else (if starts_with ''error:'' t then StreamError t else StreamLine t, False))"

text \<open>The blocks that are whole: the events, the rest of the buffer, and whether the stream was stopped.\<close>

function drain_blocks :: "string \<Rightarrow> string \<Rightarrow> stream_event list \<times> string \<times> bool" where
  "drain_blocks stopped_event buffer =
     (case index_of blank_line buffer of
        None \<Rightarrow> ([], buffer, False)
      | Some i \<Rightarrow>
          (let (event, stop) = dispatch_block stopped_event (take i buffer); rest = drop (i + 2) buffer
           in if stop then ([event], rest, True)
              else (let (events, rest', stop') = drain_blocks stopped_event rest in (event # events, rest', stop'))))"
  by pat_completeness auto
termination
proof (relation "measure (\<lambda>(e, buffer). length buffer)", goal_cases)
  case (2 stopped_event buffer i x event stop rest)
  then have "i + 2 \<le> length buffer" using index_of_bound [of blank_line buffer i] by (simp add: blank_line_def)
  with 2 show ?case by simp
qed simp

declare drain_blocks.simps [simp del]

datatype sse_stage = SseFetching | SseReading | SseDone

record sse =
  sse_stopped_event :: string
  sse_cancelled :: bool
  sse_stage :: sse_stage
  sse_buffer :: string

datatype sse_event =
  SseFetched bool
| SseFetchFails
| SseChunk string
| SseCloses
| SseReadFails
| SseCancel

datatype sse_out =
  OnStream stream_event
| CancelReader

type_synonym sse_result = "sse \<times> sse_out list"

definition read_sse :: "string \<Rightarrow> sse" where
  "read_sse stopped_event =
     \<lparr>sse_stopped_event = stopped_event, sse_cancelled = False, sse_stage = SseFetching, sse_buffer = []\<rparr>"

definition sse_fail :: "sse \<Rightarrow> sse_result" where
  "sse_fail s =
     (if sse_cancelled s then (s\<lparr>sse_stage := SseDone\<rparr>, [])
      else (s\<lparr>sse_cancelled := True, sse_stage := SseDone\<rparr>, [OnStream (StreamError disconnected)]))"

definition sse_chunk :: "string \<Rightarrow> sse \<Rightarrow> sse_result" where
  "sse_chunk t s =
     (if sse_cancelled s then (s\<lparr>sse_stage := SseDone\<rparr>, [])
      else let (events, rest, stop) = drain_blocks (sse_stopped_event s) (sse_buffer s @ t)
           in (s\<lparr>sse_buffer := rest, sse_cancelled := stop, sse_stage := (if stop then SseDone else SseReading)\<rparr>,
               map OnStream events))"

fun sse_step :: "sse \<Rightarrow> sse_event \<Rightarrow> sse_result" where
  "sse_step s (SseFetched usable) =
     (if sse_cancelled s then (s\<lparr>sse_stage := SseDone\<rparr>, [])
      else if \<not> usable then sse_fail s
      else (s\<lparr>sse_stage := SseReading\<rparr>, []))"
| "sse_step s SseFetchFails = sse_fail s"
| "sse_step s (SseChunk t) = sse_chunk t s"
| "sse_step s SseCloses =
     (if sse_cancelled s then (s\<lparr>sse_stage := SseDone\<rparr>, [])
      else (s\<lparr>sse_stage := SseDone\<rparr>, [OnStream StreamEnd]))"
| "sse_step s SseReadFails = sse_fail s"
| "sse_step s SseCancel =
     (s\<lparr>sse_cancelled := True\<rparr>, if sse_stage s = SseFetching then [] else [CancelReader])"

fun sse_enabled :: "sse \<Rightarrow> sse_event \<Rightarrow> bool" where
  "sse_enabled s SseCancel = True"
| "sse_enabled s (SseFetched usable) = (sse_stage s = SseFetching)"
| "sse_enabled s SseFetchFails = (sse_stage s = SseFetching)"
| "sse_enabled s e = (sse_stage s = SseReading)"

subsection \<open>The drain of a pipeline\<close>

function split_blocks :: "string \<Rightarrow> string list" where
  "split_blocks s =
     (case index_of blank_line s of None \<Rightarrow> [s] | Some i \<Rightarrow> take i s # split_blocks (drop (i + 2) s))"
  by pat_completeness auto
termination
proof (relation "measure length", goal_cases)
  case (2 s i)
  then have "i + 2 \<le> length s" using index_of_bound [of blank_line s i] by (simp add: blank_line_def)
  then show ?case by simp
qed simp

declare split_blocks.simps [simp del]

definition pipeline_error :: "(string \<Rightarrow> json option) \<Rightarrow> string \<Rightarrow> nat \<Rightarrow> http_error" where
  "pipeline_error parse payload fallback =
     (case as_record (parse payload) of
        None \<Rightarrow> ApiError fallback payload
      | Some r \<Rightarrow>
          ApiError (case as_num (field r ''status'') of Some n \<Rightarrow> nat \<lfloor>n\<rfloor> | None \<Rightarrow> fallback)
            (nullish (as_str (field r ''error'')) payload))"

fun drain_pipeline_blocks :: "(string \<Rightarrow> json option) \<Rightarrow> nat \<Rightarrow> string list \<Rightarrow> http_error + string" where
  "drain_pipeline_blocks parse status [] = Inl (ApiError status ''pipeline ended without a result'')"
| "drain_pipeline_blocks parse status (block # blocks) =
     (let (name, t) = parse_sse_block block
      in if name = ''error'' then Inl (pipeline_error parse t status)
         else if name = ''done'' then Inr t
         else drain_pipeline_blocks parse status blocks)"

definition drain_sse_pipeline :: "(string \<Rightarrow> json option) \<Rightarrow> nat \<Rightarrow> string \<Rightarrow> http_error + string" where
  "drain_sse_pipeline parse status raw = drain_pipeline_blocks parse status (split_blocks raw)"

subsection \<open>A stream is its text\<close>

text \<open>What a list of whole blocks delivers, up to the one that stops the stream.\<close>

fun delivered :: "string \<Rightarrow> string list \<Rightarrow> stream_event list \<times> bool" where
  "delivered stopped_event [] = ([], False)"
| "delivered stopped_event (block # blocks) =
     (let (event, stop) = dispatch_block stopped_event block
      in if stop then ([event], True)
         else (let (events, stop') = delivered stopped_event blocks in (event # events, stop')))"

lemma split_blocks_ne [simp]: "split_blocks s \<noteq> []"
  by (subst split_blocks.simps) (simp split: option.split)

lemma drain_delivered:
  "fst (drain_blocks e buffer) = fst (delivered e (butlast (split_blocks buffer))) \<and>
   snd (snd (drain_blocks e buffer)) = snd (delivered e (butlast (split_blocks buffer))) \<and>
   (\<not> snd (snd (drain_blocks e buffer)) \<longrightarrow> fst (snd (drain_blocks e buffer)) = last (split_blocks buffer))"
proof (induction e buffer rule: drain_blocks.induct)
  case (1 e buffer)
  show ?case
  proof (cases "index_of blank_line buffer")
    case None
    then show ?thesis by (simp add: drain_blocks.simps [of e buffer] split_blocks.simps [of buffer])
  next
    case (Some i)
    obtain event stop where d: "dispatch_block e (take i buffer) = (event, stop)" by fastforce
    show ?thesis
    proof (cases stop)
      case True
      with Some d show ?thesis
        by (simp add: drain_blocks.simps [of e buffer] split_blocks.simps [of buffer])
    next
      case False
      note IH = "1.IH" [OF Some d [symmetric] refl refl False]
      with Some d False show ?thesis
        by (simp add: drain_blocks.simps [of e buffer] split_blocks.simps [of buffer] split_beta Let_def)
    qed
  qed
qed
lemma split_blocks_append:
  "split_blocks (x @ y) = butlast (split_blocks x) @ split_blocks (last (split_blocks x) @ y)"
proof (induction x rule: split_blocks.induct)
  case (1 x)
  show ?case
  proof (cases "index_of blank_line x")
    case None
    then show ?thesis by (simp add: split_blocks.simps [of x])
  next
    case (Some i)
    have "index_of blank_line (x @ y) = Some i" by (rule index_of_append_hit [OF Some])
    moreover have "i + 2 \<le> length x" using index_of_bound [OF Some] by (simp add: blank_line_def)
    ultimately have "split_blocks (x @ y) = take i x # split_blocks (drop (i + 2) x @ y)"
      by (subst split_blocks.simps) simp
    with 1 [OF Some] Some show ?thesis by (simp add: split_blocks.simps [of x])
  qed
qed

lemma delivered_append:
  "delivered e (xs @ ys) =
     (if snd (delivered e xs) then delivered e xs
      else (fst (delivered e xs) @ fst (delivered e ys), snd (delivered e ys)))"
  by (induction xs) (auto simp: split_beta Let_def)

lemma silent_chunks: "sse_cancelled s \<Longrightarrow> snd (run_events sse_step s (map SseChunk cs @ [SseCloses])) = []"
  by (induction cs arbitrary: s) (simp_all add: sse_chunk_def)


text \<open>The buffer of the reader never holds a whole block.\<close>

lemma split_blocks_last [simp]: "split_blocks (last (split_blocks s)) = [last (split_blocks s)]"
proof (induction s rule: split_blocks.induct)
  case (1 s)
  then show ?case by (cases "index_of blank_line s") (simp_all add: split_blocks.simps [of s])
qed

lemma chunks_deliver:
  assumes "\<not> sse_cancelled s" "split_blocks (sse_buffer s) = [sse_buffer s]"
  shows "snd (run_events sse_step s (map SseChunk cs @ [SseCloses])) =
    map OnStream (let d = delivered (sse_stopped_event s) (butlast (split_blocks (sse_buffer s @ concat cs)))
      in fst d @ (if snd d then [] else [StreamEnd]))"
  using assms
proof (induction cs arbitrary: s)
  case Nil
  then show ?case by (simp add: Let_def)
next
  case (Cons c cs)
  let ?e = "sse_stopped_event s" and ?b = "sse_buffer s"
  let ?first = "delivered ?e (butlast (split_blocks (?b @ c)))"
  note dr = drain_delivered [of ?e "?b @ c"]
  have whole: "split_blocks (?b @ c @ concat cs) =
      butlast (split_blocks (?b @ c)) @ split_blocks (last (split_blocks (?b @ c)) @ concat cs)"
    using split_blocks_append [of "?b @ c" "concat cs"] by simp
  show ?case
  proof (cases "snd ?first")
    case True
    let ?s = "fst (sse_step s (SseChunk c))"
    have "snd (sse_step s (SseChunk c)) = map OnStream (fst ?first)" "sse_cancelled ?s"
      using Cons.prems dr True by (simp_all add: sse_chunk_def split_beta Let_def)
    with silent_chunks [of ?s cs] True show ?thesis
      by (simp add: whole butlast_append delivered_append Let_def)
  next
    case False
    let ?s = "fst (sse_step s (SseChunk c))"
    have s: "snd (sse_step s (SseChunk c)) = map OnStream (fst ?first)" "\<not> sse_cancelled ?s"
      "sse_buffer ?s = last (split_blocks (?b @ c))" "sse_stopped_event ?s = ?e"
      using Cons.prems dr False by (simp_all add: sse_chunk_def split_beta Let_def)
    have "snd (run_events sse_step ?s (map SseChunk cs @ [SseCloses])) =
        map OnStream (let d = delivered ?e (butlast (split_blocks (last (split_blocks (?b @ c)) @ concat cs)))
          in fst d @ (if snd d then [] else [StreamEnd]))"
      using Cons.IH [of ?s] s by simp
    with s(1) False show ?thesis
      by (simp add: whole butlast_append delivered_append Let_def)
  qed
qed

text \<open>C26: What a stream delivers is its text: however it is cut into chunks, the reader reports the
  events of the whole blocks of the joined text, in order, up to the stopped event, and then the
  end once; a block that the close cuts off is dropped.\<close>

theorem stream_is_its_text:
  "snd (run_events sse_step (read_sse stopped_event) (SseFetched True # map SseChunk chunks @ [SseCloses])) =
    map OnStream (let d = delivered stopped_event (butlast (split_blocks (concat chunks)))
      in fst d @ (if snd d then [] else [StreamEnd]))"
proof -
  have "split_blocks [] = [[]]" by (subst split_blocks.simps) (simp add: blank_line_def)
  then show ?thesis
    using chunks_deliver [of "(read_sse stopped_event)\<lparr>sse_stage := SseReading\<rparr>" chunks]
    by (simp add: read_sse_def)
qed

text \<open>A cancelled stream is silent: after the cancel no event reaches the caller, whatever the fetch
  and the reads settle to.\<close>

theorem cancelled_stream_is_silent:
  "filter (\<lambda>x. x \<noteq> CancelReader)
     (snd (run_events sse_step (fst (run_events sse_step (read_sse stopped_event) (before @ [SseCancel]))) after)) = []"
proof -
  have one: "sse_cancelled s \<Longrightarrow> sse_cancelled (fst (sse_step s e)) \<and> filter (\<lambda>x. x \<noteq> CancelReader) (snd (sse_step s e)) = []"
    for s e by (cases e) (simp_all add: sse_fail_def sse_chunk_def)
  have "sse_cancelled s \<Longrightarrow> filter (\<lambda>x. x \<noteq> CancelReader) (snd (run_events sse_step s es)) = []" for s es
  proof (induction es arbitrary: s)
    case (Cons e es)
    with one [OF Cons.prems, of e] show ?case by simp
  qed simp
  then show ?thesis by (simp add: run_events_append)
qed

end
