(* ===== verification/SyncProtocol.thy ===== *)
theory SyncProtocol
  imports SyncTree
begin

section \<open>The /sync frames (protocol/parse.ts, protocol/frames.ts)\<close>

text \<open>
  The parser of server frames and the builders of client frames.  \<open>parse_server_frame\<close> takes
  what \<open>JSON.parse(raw)\<close> gave: a value, or \<open>None\<close> when it threw.  The trusted sub-shapes
  (\<open>as Tree\<close>, \<open>as GatewayInfo\<close>, \<open>as AgentInfo\<close>, \<open>as NotificationEvent[]\<close>) stay the JSON
  values they are, since a type assertion changes nothing at run time.  A client frame's
  encoding is the JSON value that \<open>JSON.stringify\<close> prints, which leaves out the properties
  that are undefined.
\<close>

subsection \<open>protocol/parse.ts\<close>

record hello_frame =
  hello_version :: string
  hello_min_supported :: string

type_synonym wire_delta = "(json, json, json) delta"

datatype parsed_frame =
  HelloParsed hello_frame
| SnapshotParsed json
| DeltaParsed wire_delta
| UnknownFrame

definition parse_hello :: "jobj \<Rightarrow> parsed_frame" where
  "parse_hello frame =
     (case (as_str (field frame ''version''), as_str (field frame ''min_supported'')) of
        (Some version, Some min_supported) \<Rightarrow>
          HelloParsed \<lparr>hello_version = version, hello_min_supported = min_supported\<rparr>
      | _ \<Rightarrow> UnknownFrame)"

definition parse_snapshot :: "jobj \<Rightarrow> parsed_frame" where
  "parse_snapshot frame =
     (case field frame ''tree'' of
        Some tree \<Rightarrow> (if as_record (Some tree) = None then UnknownFrame else SnapshotParsed tree)
      | None \<Rightarrow> UnknownFrame)"

definition parse_place :: "jobj \<Rightarrow> device_place option" where
  "parse_place raw =
     (case (nullable_str (field raw ''city''), nullable_str (field raw ''region''),
            nullable_str (field raw ''country'')) of
        (Some city, Some region, Some country) \<Rightarrow>
          Some \<lparr>pl_city = city, pl_region = region, pl_country = country\<rparr>
      | _ \<Rightarrow> None)"

definition parse_position :: "json option \<Rightarrow> device_position option" where
  "parse_position v =
     (case as_record v of
        None \<Rightarrow> None
      | Some position \<Rightarrow>
          (case (as_num (field position ''latitude''), as_num (field position ''longitude'')) of
             (Some latitude, Some longitude) \<Rightarrow>
               (let accuracy = (if is_nullish (field position ''accuracyM'') then None
                                else as_num (field position ''accuracyM''))
                in if accuracy = None \<and> \<not> is_nullish (field position ''accuracyM'') then None
                   else if is_nullish (field position ''place'') then
                     Some \<lparr>dp_latitude = latitude, dp_longitude = longitude,
                           dp_accuracy = accuracy, dp_place = None\<rparr>
                   else (case as_record (field position ''place'') of
                           None \<Rightarrow> None
                         | Some raw \<Rightarrow>
                             (case parse_place raw of
                                None \<Rightarrow> None
                              | Some place \<Rightarrow>
                                  Some \<lparr>dp_latitude = latitude, dp_longitude = longitude,
                                        dp_accuracy = accuracy, dp_place = Some place\<rparr>)))
           | _ \<Rightarrow> None))"

definition parse_device_context ::
  "jobj \<Rightarrow> (string option \<times> device_position option \<times> string option) option" where
  "parse_device_context device =
     (case (nullable_str (field device ''timezone''), nullable_str (field device ''positionAt'')) of
        (Some timezone, Some position_at) \<Rightarrow>
          (let position = (if is_nullish (field device ''position'') then None
                           else parse_position (field device ''position''))
           in if position = None \<and> \<not> is_nullish (field device ''position'') then None
              else Some (timezone, position, position_at))
      | _ \<Rightarrow> None)"

definition device_kind_of :: "string \<Rightarrow> device_kind option" where
  "device_kind_of kind =
     (if kind = ''web'' then Some DWeb else if kind = ''mobile'' then Some DMobile
      else if kind = ''desktop'' then Some DDesktop else if kind = ''unknown'' then Some DUnknown
      else None)"

definition parse_device :: "json \<Rightarrow> device_info option" where
  "parse_device v =
     (case as_record (Some v) of
        None \<Rightarrow> None
      | Some device \<Rightarrow>
          (case (as_str (field device ''id''), as_str (field device ''kind''),
                 as_bool (field device ''present''), as_str (field device ''lastSeen''),
                 as_bool (field device ''pushEnabled'')) of
             (Some i, Some kind, Some present, Some last_seen, Some push_enabled) \<Rightarrow>
               (case device_kind_of kind of
                  None \<Rightarrow> None
                | Some k \<Rightarrow>
                    (let descriptor = (if field device ''descriptor'' = Some JNull then None
                                       else as_str (field device ''descriptor''))
                     in if descriptor = None \<and> field device ''descriptor'' \<noteq> Some JNull then None
                        else (case parse_device_context device of
                                None \<Rightarrow> None
                              | Some (timezone, position, position_at) \<Rightarrow>
                                  Some \<lparr>dv_id = i, dv_kind = k, dv_descriptor = descriptor,
                                        dv_present = present, dv_last_seen = last_seen,
                                        dv_push_enabled = push_enabled, dv_timezone = timezone,
                                        dv_position = position, dv_position_at = position_at\<rparr>)))
           | _ \<Rightarrow> None))"

definition parse_user_notification :: "jobj \<Rightarrow> parsed_frame" where
  "parse_user_notification frame =
     (case (as_num (field frame ''id''), as_num (field frame ''at''), as_str (field frame ''agent''),
            as_str (field frame ''kind''), as_str (field frame ''title''), as_str (field frame ''body'')) of
        (Some i, Some stamp, Some agent, Some kind, Some title, Some body) \<Rightarrow>
          DeltaParsed (UserNotificationDelta
            \<lparr>un_id = i, un_at = stamp, un_agent = agent, un_kind = kind, un_title = title, un_body = body\<rparr>)
      | _ \<Rightarrow> UnknownFrame)"

definition parse_devices :: "jobj \<Rightarrow> parsed_frame" where
  "parse_devices frame =
     (case as_arr (field frame ''devices'') of
        None \<Rightarrow> UnknownFrame
      | Some raw \<Rightarrow>
          (let devices = map parse_device raw
           in if None \<in> set devices then UnknownFrame
              else DeltaParsed (DevicesDelta (map the (filter (\<lambda>d. d \<noteq> None) devices)))))"

definition parse_delta :: "string \<Rightarrow> jobj \<Rightarrow> parsed_frame" where
  "parse_delta ty frame =
     (if ty = ''state'' then
        (case field frame ''value'' of
           Some v \<Rightarrow> (if as_str (field frame ''scope'') \<noteq> Some ''gateway'' \<or> as_record (Some v) = None
                     then UnknownFrame else DeltaParsed (StateDelta v))
         | None \<Rightarrow> UnknownFrame)
      else if ty = ''agent'' then
        (case (as_str (field frame ''name''), field frame ''info'') of
           (Some name, Some info) \<Rightarrow>
             (if as_record (Some info) = None then UnknownFrame else DeltaParsed (AgentDelta name info))
         | _ \<Rightarrow> UnknownFrame)
      else if ty = ''agent_removed'' then
        (case as_str (field frame ''name'') of
           Some name \<Rightarrow> DeltaParsed (AgentRemovedDelta name)
         | None \<Rightarrow> UnknownFrame)
      else if ty = ''agent_notifications'' then
        (case (as_str (field frame ''agent''), as_arr (field frame ''pending'')) of
           (Some agent, Some pending) \<Rightarrow> DeltaParsed (AgentNotificationsDelta agent pending)
         | _ \<Rightarrow> UnknownFrame)
      else if ty = ''user_notification'' then parse_user_notification frame
      else if ty = ''presence'' then
        (case as_bool (field frame ''any_focused'') of
           Some any_focused \<Rightarrow> DeltaParsed (PresenceDelta any_focused)
         | None \<Rightarrow> UnknownFrame)
      else if ty = ''devices'' then parse_devices frame
      else UnknownFrame)"

definition delta_types :: "string list" where
  "delta_types = [''state'', ''agent'', ''agent_removed'', ''agent_notifications'',
     ''user_notification'', ''presence'', ''devices'']"

definition parse_server_frame :: "json option \<Rightarrow> parsed_frame" where
  "parse_server_frame raw =
     (case raw of
        None \<Rightarrow> UnknownFrame
      | Some v \<Rightarrow>
          (case as_record (Some v) of
             None \<Rightarrow> UnknownFrame
           | Some frame \<Rightarrow>
               (case as_str (field frame ''type'') of
                  None \<Rightarrow> UnknownFrame
                | Some ty \<Rightarrow>
                    (if ty = ''hello'' then parse_hello frame
                     else if ty = ''snapshot'' then parse_snapshot frame
                     else if ty \<in> set delta_types then parse_delta ty frame
                     else UnknownFrame))))"

subsection \<open>protocol/frames.ts\<close>

datatype client_kind = CWeb | CMobile | CDesktop

text \<open>\<open>dc_position\<close>: absent, null (location sharing off), or a position.\<close>

record device_context =
  dc_timezone :: "string option"
  dc_position :: "device_position option option"

record client_context_input =
  ci_focused :: bool
  ci_client :: client_kind
  ci_resync :: bool
  ci_viewing :: "string option"
  ci_device :: "(string \<times> string) option"
  ci_context :: "device_context option"

record client_context_frame_t =
  cf_focused :: bool
  cf_client :: client_kind
  cf_resync :: bool
  cf_viewing :: "string option"
  cf_device_id :: "string option"
  cf_descriptor :: "string option"
  cf_timezone :: "string option"
  cf_position :: "device_position option option"

datatype client_frame =
  ReauthFrame string
| ClientContextFrame client_context_frame_t

definition reauth_frame :: "string \<Rightarrow> client_frame" where
  "reauth_frame token = ReauthFrame token"

definition client_context_frame :: "client_context_input \<Rightarrow> client_frame" where
  "client_context_frame input =
     (let frame = \<lparr>cf_focused = ci_focused input, cf_client = ci_client input,
                   cf_resync = ci_resync input, cf_viewing = ci_viewing input,
                   cf_device_id = None, cf_descriptor = None,
                   cf_timezone = None, cf_position = None\<rparr>;
          frame = (case ci_device input of
                     None \<Rightarrow> frame
                   | Some (i, descriptor) \<Rightarrow>
                       frame\<lparr>cf_device_id := Some i, cf_descriptor := Some descriptor\<rparr>)
      in case ci_context input of
           None \<Rightarrow> ClientContextFrame frame
         | Some context \<Rightarrow>
             ClientContextFrame (frame\<lparr>cf_timezone := dc_timezone context,
                                       cf_position := dc_position context\<rparr>))"

fun json_of_client_kind :: "client_kind \<Rightarrow> json" where
  "json_of_client_kind CWeb = JStr ''web''"
| "json_of_client_kind CMobile = JStr ''mobile''"
| "json_of_client_kind CDesktop = JStr ''desktop''"

definition json_of_place :: "device_place \<Rightarrow> json" where
  "json_of_place p = JObj [(''city'', json_of_str_opt (pl_city p)),
     (''region'', json_of_str_opt (pl_region p)), (''country'', json_of_str_opt (pl_country p))]"

definition json_of_position :: "device_position option \<Rightarrow> json" where
  "json_of_position v =
     (case v of
        None \<Rightarrow> JNull
      | Some p \<Rightarrow> JObj [(''latitude'', JNum (dp_latitude p)), (''longitude'', JNum (dp_longitude p)),
          (''accuracyM'', json_of_num_opt (dp_accuracy p)),
          (''place'', (case dp_place p of None \<Rightarrow> JNull | Some place \<Rightarrow> json_of_place place))])"

definition opt_field :: "string \<Rightarrow> json option \<Rightarrow> (string \<times> json) list" where
  "opt_field key v = (case v of None \<Rightarrow> [] | Some j \<Rightarrow> [(key, j)])"

fun encode_frame :: "client_frame \<Rightarrow> json" where
  "encode_frame (ReauthFrame token) = JObj [(''type'', JStr ''reauth''), (''token'', JStr token)]"
| "encode_frame (ClientContextFrame f) =
     JObj ([(''type'', JStr ''client_context''), (''focused'', JBool (cf_focused f)),
            (''client'', json_of_client_kind (cf_client f)), (''resync'', JBool (cf_resync f)),
            (''viewing'', json_of_str_opt (cf_viewing f))]
           @ opt_field ''deviceId'' (map_option JStr (cf_device_id f))
           @ opt_field ''descriptor'' (map_option JStr (cf_descriptor f))
           @ opt_field ''timezone'' (map_option JStr (cf_timezone f))
           @ opt_field ''position'' (map_option json_of_position (cf_position f)))"

subsection \<open>The wire form of a device\<close>

text \<open>How vestad serializes a device, as the parser and its fixtures describe it.\<close>

definition wire_device_kind :: "device_kind \<Rightarrow> string" where
  "wire_device_kind k = (case k of DWeb \<Rightarrow> ''web'' | DMobile \<Rightarrow> ''mobile'' | DDesktop \<Rightarrow> ''desktop''
     | DUnknown \<Rightarrow> ''unknown'')"

definition wire_device :: "device_info \<Rightarrow> json" where
  "wire_device d = JObj [(''id'', JStr (dv_id d)), (''kind'', JStr (wire_device_kind (dv_kind d))),
     (''descriptor'', json_of_str_opt (dv_descriptor d)), (''present'', JBool (dv_present d)),
     (''lastSeen'', JStr (dv_last_seen d)), (''pushEnabled'', JBool (dv_push_enabled d)),
     (''timezone'', json_of_str_opt (dv_timezone d)), (''position'', json_of_position (dv_position d)),
     (''positionAt'', json_of_str_opt (dv_position_at d))]"

definition wire_devices_frame :: "device_info list \<Rightarrow> json" where
  "wire_devices_frame ds = JObj [(''type'', JStr ''devices''), (''devices'', JArr (map wire_device ds))]"

lemma device_kind_of_wire [simp]: "device_kind_of (wire_device_kind k) = Some k"
  by (cases k) (simp_all add: device_kind_of_def wire_device_kind_def)

lemma json_of_str_opt_cases: "json_of_str_opt s = JNull \<longleftrightarrow> s = None"
  "as_str (Some (json_of_str_opt s)) = s"
  by (cases s; simp add: json_of_str_opt_def)+

lemma parse_place_wire: "parse_place [(''city'', json_of_str_opt (pl_city p)),
     (''region'', json_of_str_opt (pl_region p)), (''country'', json_of_str_opt (pl_country p))] = Some p"
  by (cases p) (simp add: parse_place_def)

lemma parse_position_wire: "parse_position (Some (json_of_position (Some p))) = Some p"
  by (cases p; cases "dp_accuracy p"; cases "dp_place p")
    (simp_all add: parse_position_def json_of_position_def json_of_num_opt_def json_of_place_def
      Let_def parse_place_wire)

lemma nullish_position_wire: "is_nullish (Some (json_of_position v)) \<longleftrightarrow> v = None"
  by (cases v) (simp_all add: json_of_position_def)

lemma parse_device_wire [simp]: "parse_device (wire_device d) = Some d"
proof -
  let ?ps = "[(''id'', JStr (dv_id d)), (''kind'', JStr (wire_device_kind (dv_kind d))),
     (''descriptor'', json_of_str_opt (dv_descriptor d)), (''present'', JBool (dv_present d)),
     (''lastSeen'', JStr (dv_last_seen d)), (''pushEnabled'', JBool (dv_push_enabled d)),
     (''timezone'', json_of_str_opt (dv_timezone d)), (''position'', json_of_position (dv_position d)),
     (''positionAt'', json_of_str_opt (dv_position_at d))]"
  have "parse_device_context ?ps = Some (dv_timezone d, dv_position d, dv_position_at d)"
    by (cases "dv_position d")
      (simp_all add: parse_device_context_def Let_def nullish_position_wire parse_position_wire)
  then show ?thesis
    by (simp add: parse_device_def wire_device_def Let_def json_of_str_opt_cases)
qed

subsection \<open>What the parser does not read\<close>

text \<open>The field names the frame parser reads at the top level of a frame.\<close>

definition frame_fields :: "string set" where
  "frame_fields = {''type'', ''version'', ''min_supported'', ''tree'', ''scope'', ''value'', ''name'',
     ''info'', ''agent'', ''pending'', ''id'', ''at'', ''kind'', ''title'', ''body'', ''any_focused'',
     ''devices''}"

lemma field_append: "k \<notin> fst ` set extra \<Longrightarrow> field (ps @ extra) k = field ps k"
  by (simp add: field_def map_add_def split: option.splits) (metis map_of_eq_None_iff)

subsection \<open>Properties\<close>

text \<open>A devices frame in vestad's wire form parses back to exactly the devices it lists,
  every nullable field, position and place included.\<close>

theorem devices_frame_roundtrip:
  "parse_server_frame (Some (wire_devices_frame ds)) = DeltaParsed (DevicesDelta ds)"
proof -
  have "map parse_device (map wire_device ds) = map Some ds" by simp
  then show ?thesis
    by (auto simp: parse_server_frame_def wire_devices_frame_def delta_types_def parse_delta_def
        parse_devices_def Let_def filter_map o_def)
qed

text \<open>A devices frame is taken whole or not at all: it is accepted exactly when every entry
  is a well-formed device, and then lists one device per entry, in order.\<close>

theorem devices_frame_all_or_nothing:
  assumes "as_arr (field frame ''devices'') = Some raw" "as_str (field frame ''type'') = Some ''devices''"
  shows "parse_server_frame (Some (JObj frame)) =
    (if \<exists>d \<in> set raw. parse_device d = None then UnknownFrame
     else DeltaParsed (DevicesDelta (map (the \<circ> parse_device) raw)))"
proof -
  have "filter (\<lambda>d. d \<noteq> None) (map parse_device raw) = map parse_device raw"
    if "\<not> (\<exists>d \<in> set raw. parse_device d = None)"
    using that by (auto simp: filter_id_conv)
  moreover have "None \<in> set (map parse_device raw) \<longleftrightarrow> (\<exists>d \<in> set raw. parse_device d = None)"
    by (simp add: image_iff eq_commute)
  ultimately show ?thesis
    using assms by (simp add: parse_server_frame_def delta_types_def parse_delta_def
        parse_devices_def Let_def)
qed

theorem devices_frame_all_or_nothing_witness:
  "parse_server_frame (Some (JObj [(''type'', JStr ''devices''), (''devices'', JArr [JObj []])])) = UnknownFrame"
  using devices_frame_all_or_nothing [of "[(''type'', JStr ''devices''), (''devices'', JArr [JObj []])]" "[JObj []]"]
  by (simp add: parse_device_def)

text \<open>Additive evolution: fields a newer gateway adds to a frame change nothing of how this
  client reads it.\<close>

theorem extra_frame_fields_ignored:
  assumes "fst ` set extra \<inter> frame_fields = {}"
  shows "parse_server_frame (Some (JObj (frame @ extra))) = parse_server_frame (Some (JObj frame))"
proof -
  have eqs: "field (frame @ extra) ''type'' = field frame ''type''"
    "field (frame @ extra) ''version'' = field frame ''version''"
    "field (frame @ extra) ''min_supported'' = field frame ''min_supported''"
    "field (frame @ extra) ''tree'' = field frame ''tree''"
    "field (frame @ extra) ''scope'' = field frame ''scope''"
    "field (frame @ extra) ''value'' = field frame ''value''"
    "field (frame @ extra) ''name'' = field frame ''name''"
    "field (frame @ extra) ''info'' = field frame ''info''"
    "field (frame @ extra) ''agent'' = field frame ''agent''"
    "field (frame @ extra) ''pending'' = field frame ''pending''"
    "field (frame @ extra) ''id'' = field frame ''id''"
    "field (frame @ extra) ''at'' = field frame ''at''"
    "field (frame @ extra) ''kind'' = field frame ''kind''"
    "field (frame @ extra) ''title'' = field frame ''title''"
    "field (frame @ extra) ''body'' = field frame ''body''"
    "field (frame @ extra) ''any_focused'' = field frame ''any_focused''"
    "field (frame @ extra) ''devices'' = field frame ''devices''"
    using assms by (auto intro!: field_append simp: frame_fields_def)
  have 1: "parse_hello (frame @ extra) = parse_hello frame"
    "parse_snapshot (frame @ extra) = parse_snapshot frame"
    unfolding parse_hello_def parse_snapshot_def eqs by (rule refl)+
  have 2: "parse_delta ty (frame @ extra) = parse_delta ty frame" for ty
    unfolding parse_delta_def parse_devices_def parse_user_notification_def eqs by (rule refl)
  show ?thesis
    unfolding parse_server_frame_def option.case as_record.simps eqs 1 2 by (rule refl)
qed

theorem extra_frame_fields_ignored_witness:
  "parse_server_frame (Some (JObj ([(''type'', JStr ''hello''), (''version'', JStr ''0.1.1''),
      (''min_supported'', JStr ''0.1.0'')] @ [(''region'', JNull)]))) =
   parse_server_frame (Some (JObj [(''type'', JStr ''hello''), (''version'', JStr ''0.1.1''),
      (''min_supported'', JStr ''0.1.0'')]))"
  by (rule extra_frame_fields_ignored) (simp add: frame_fields_def)

end
