(* ===== verification/ParseChat.thy ===== *)
theory ParseChat
  imports Json
begin

section \<open>Chat events and their parser (protocol/events.ts, protocol/parse-chat.ts)\<close>

text \<open>
  The chat rows and the parser of the chat socket's frames and the history page.  A row is an
  optional id and time with the body of its kind; an absent property is \<open>None\<close>.  The parser
  picks a variant by \<open>VARIANTS[type]\<close> on an object literal, so a type that names a member of
  \<open>Object.prototype\<close> finds that inherited member: calling it is outside the model, and
  \<open>InheritedCall\<close> records that it happens.
\<close>

subsection \<open>The rows\<close>

datatype input_method = Voice | Typed

record chat_attachment =
  at_id :: string
  at_name :: string
  at_mime :: string
  at_size :: jsnum
  at_width :: "jsnum option"
  at_height :: "jsnum option"
  at_duration_secs :: "jsnum option"

datatype send_state = Sending | Retry | Failed

record user_fields =
  us_text :: string
  us_input_method :: "input_method option"
  us_attachments :: "chat_attachment list option"
  us_intent_id :: "string option"
  us_send_state :: "send_state option"

datatype notification_decided = Interrupt | Snooze | Trash

record notification_fields =
  nf_source :: string
  nf_summary :: string
  nf_type :: "string option"
  nf_sender :: "string option"
  nf_fields :: "(string \<times> string) list option"
  nf_decided :: "notification_decided option"
  nf_id :: "string option"

datatype chat_body =
  UserBody user_fields
| ChatBody string "chat_attachment list option"
| AssistantBody string
| ErrorBody string
| ThinkingBody string string
| StatusBody bool
| ToolStartBody string string "bool option"
| ToolEndBody string "bool option"
| RateLimitedBody string "string option" "jsnum option"
| NotificationBody notification_fields
| NotificationClearedBody string
| SubagentStartBody string string
| SubagentStopBody string string

record chat_message =
  cm_id :: "jsnum option"
  cm_ts :: "string option"
  cm_body :: chat_body

subsection \<open>The parser\<close>

datatype parsed_event = Dropped | Event chat_message | InheritedCall

definition parse_base :: "jobj \<Rightarrow> (jsnum option \<times> string option) option" where
  "parse_base frame =
     (case (optional_num (field frame ''id''), nullable_str (field frame ''ts'')) of
        (Some i, Some ts) \<Rightarrow> Some (i, ts)
      | _ \<Rightarrow> None)"

definition parse_input_method :: "json option \<Rightarrow> input_method option option" where
  "parse_input_method v =
     (if is_nullish v then Some None
      else if v = Some (JStr ''voice'') then Some (Some Voice)
      else if v = Some (JStr ''typed'') then Some (Some Typed)
      else None)"

definition parse_attachment :: "json \<Rightarrow> chat_attachment option" where
  "parse_attachment v =
     (case as_record (Some v) of
        None \<Rightarrow> None
      | Some item \<Rightarrow>
          (case (as_str (field item ''id''), as_str (field item ''name''), as_str (field item ''mime'')) of
             (Some i, Some name, Some mime) \<Rightarrow>
               (case optional_num (field item ''size'') of
                  Some (Some bytes) \<Rightarrow>
                    (case (optional_num (field item ''width''), optional_num (field item ''height''),
                           optional_num (field item ''duration_secs'')) of
                       (Some width, Some height, Some duration) \<Rightarrow>
                         Some \<lparr>at_id = i, at_name = name, at_mime = mime, at_size = bytes,
                               at_width = width, at_height = height, at_duration_secs = duration\<rparr>
                     | _ \<Rightarrow> None)
                | _ \<Rightarrow> None)
           | _ \<Rightarrow> None))"

fun parse_attachment_items :: "json list \<Rightarrow> chat_attachment list option" where
  "parse_attachment_items [] = Some []"
| "parse_attachment_items (item # items) =
     (case parse_attachment item of
        None \<Rightarrow> None
      | Some a \<Rightarrow> map_option (Cons a) (parse_attachment_items items))"

definition parse_attachments :: "json option \<Rightarrow> chat_attachment list option option" where
  "parse_attachments v =
     (if is_nullish v then Some None
      else case as_arr v of
             None \<Rightarrow> None
           | Some items \<Rightarrow> (case parse_attachment_items items of None \<Rightarrow> None | Some l \<Rightarrow> Some (Some l)))"

definition string_entries :: "jobj \<Rightarrow> (string \<times> string) list" where
  "string_entries ps = concat (map (\<lambda>(k, v). case v of JStr s \<Rightarrow> [(k, s)] | _ \<Rightarrow> []) ps)"

definition parse_decided :: "json option \<Rightarrow> notification_decided option" where
  "parse_decided v =
     (if v = Some (JStr ''interrupt'') then Some Interrupt
      else if v = Some (JStr ''snooze'') then Some Snooze
      else if v = Some (JStr ''trash'') then Some Trash
      else None)"

definition user_variant :: "jobj \<Rightarrow> chat_body option" where
  "user_variant frame =
     (case (as_str (field frame ''text''), parse_attachments (field frame ''attachments'')) of
        (Some txt, Some attachments) \<Rightarrow>
          (case (parse_input_method (field frame ''input_method''), nullable_str (field frame ''intent_id'')) of
             (Some input_method, Some intent_id) \<Rightarrow>
               Some (UserBody \<lparr>us_text = txt, us_input_method = input_method, us_attachments = attachments,
                               us_intent_id = intent_id, us_send_state = None\<rparr>)
           | _ \<Rightarrow> None)
      | _ \<Rightarrow> None)"

definition chat_variant :: "jobj \<Rightarrow> chat_body option" where
  "chat_variant frame =
     (case (as_str (field frame ''text''), parse_attachments (field frame ''attachments'')) of
        (Some txt, Some attachments) \<Rightarrow> Some (ChatBody txt attachments)
      | _ \<Rightarrow> None)"

definition status_variant :: "jobj \<Rightarrow> chat_body option" where
  "status_variant frame =
     (if field frame ''state'' = Some (JStr ''idle'') then Some (StatusBody False)
      else if field frame ''state'' = Some (JStr ''thinking'') then Some (StatusBody True)
      else None)"

definition thinking_variant :: "jobj \<Rightarrow> chat_body option" where
  "thinking_variant frame =
     (case (as_str (field frame ''text''), as_str (field frame ''signature'')) of
        (Some txt, Some signature) \<Rightarrow> Some (ThinkingBody txt signature)
      | _ \<Rightarrow> None)"

definition tool_start_variant :: "jobj \<Rightarrow> chat_body option" where
  "tool_start_variant frame =
     (case (as_str (field frame ''tool''), as_str (field frame ''input''), optional_bool (field frame ''subagent'')) of
        (Some tool, Some input, Some subagent) \<Rightarrow> Some (ToolStartBody tool input subagent)
      | _ \<Rightarrow> None)"

definition tool_end_variant :: "jobj \<Rightarrow> chat_body option" where
  "tool_end_variant frame =
     (case (as_str (field frame ''tool''), optional_bool (field frame ''subagent'')) of
        (Some tool, Some subagent) \<Rightarrow> Some (ToolEndBody tool subagent)
      | _ \<Rightarrow> None)"

definition rate_limited_variant :: "jobj \<Rightarrow> chat_body option" where
  "rate_limited_variant frame =
     (case (as_str (field frame ''text''), nullable_str (field frame ''window''), optional_num (field frame ''resets_at'')) of
        (Some txt, Some window, Some resets_at) \<Rightarrow> Some (RateLimitedBody txt window resets_at)
      | _ \<Rightarrow> None)"

definition notification_variant :: "jobj \<Rightarrow> chat_body option" where
  "notification_variant frame =
     (case (as_str (field frame ''source''), as_str (field frame ''summary'')) of
        (Some source, Some summary) \<Rightarrow>
          Some (NotificationBody
            \<lparr>nf_source = source, nf_summary = summary, nf_type = as_str (field frame ''notif_type''),
             nf_sender = as_str (field frame ''sender''),
             nf_fields = map_option string_entries (as_record (field frame ''fields'')),
             nf_decided = parse_decided (field frame ''decided''), nf_id = as_str (field frame ''notif_id'')\<rparr>)
      | _ \<Rightarrow> None)"

definition subagent_event :: "bool \<Rightarrow> jobj \<Rightarrow> chat_body option" where
  "subagent_event start frame =
     (case (as_str (field frame ''agent_id''), as_str (field frame ''agent_type'')) of
        (Some agent_id, Some agent_type) \<Rightarrow>
          Some (if start then SubagentStartBody agent_id agent_type else SubagentStopBody agent_id agent_type)
      | _ \<Rightarrow> None)"

definition object_prototype_members :: "string list" where
  "object_prototype_members = [''constructor'', ''__defineGetter__'', ''__defineSetter__'', ''hasOwnProperty'',
     ''__lookupGetter__'', ''__lookupSetter__'', ''isPrototypeOf'', ''propertyIsEnumerable'', ''toString'',
     ''valueOf'', ''toLocaleString'', ''__proto__'']"

definition variants :: "(string \<times> (jobj \<Rightarrow> chat_body option)) list" where
  "variants =
     [(''user'', user_variant), (''chat'', chat_variant),
      (''assistant'', \<lambda>frame. map_option AssistantBody (as_str (field frame ''text''))),
      (''error'', \<lambda>frame. map_option ErrorBody (as_str (field frame ''text''))),
      (''thinking'', thinking_variant), (''status'', status_variant),
      (''tool_start'', tool_start_variant), (''tool_end'', tool_end_variant),
      (''rate_limited'', rate_limited_variant), (''notification'', notification_variant),
      (''notification_cleared'', \<lambda>frame. map_option NotificationClearedBody (as_str (field frame ''notif_id''))),
      (''subagent_start'', subagent_event True), (''subagent_stop'', subagent_event False)]"

definition parse_chat_event :: "json \<Rightarrow> parsed_event" where
  "parse_chat_event v =
     (case as_record (Some v) of
        None \<Rightarrow> Dropped
      | Some frame \<Rightarrow>
          (case parse_base frame of
             None \<Rightarrow> Dropped
           | Some (i, ts) \<Rightarrow>
               (case as_str (field frame ''type'') of
                  None \<Rightarrow> Dropped
                | Some ty \<Rightarrow>
                    (case map_of variants ty of
                       Some parse \<Rightarrow>
                         (case parse frame of
                            None \<Rightarrow> Dropped
                          | Some body \<Rightarrow> Event \<lparr>cm_id = i, cm_ts = ts, cm_body = body\<rparr>)
                     | None \<Rightarrow> (if ty \<in> set object_prototype_members then InheritedCall else Dropped)))))"

record history_page =
  hp_events :: "chat_message list"
  hp_cursor :: "jsnum option"

text \<open>\<open>None\<close>: an event of the page reached an inherited member.\<close>

definition parse_history_page :: "json \<Rightarrow> history_page option" where
  "parse_history_page v =
     (let page = as_record (Some v);
          events = nullish (as_arr (Option.bind page (\<lambda>p. field p ''events''))) [];
          parsed = map parse_chat_event events
      in if InheritedCall \<in> set parsed then None
         else Some \<lparr>hp_events = concat (map (\<lambda>e. case e of Event m \<Rightarrow> [m] | _ \<Rightarrow> []) parsed),
                    hp_cursor = as_num (Option.bind page (\<lambda>p. field p ''cursor''))\<rparr>)"

subsection \<open>The wire form of a row\<close>

text \<open>How the app-chat service writes an event: a property that is absent is left out.\<close>

definition wire_opt :: "string \<Rightarrow> ('a \<Rightarrow> json) \<Rightarrow> 'a option \<Rightarrow> jobj" where
  "wire_opt key f v = (case v of None \<Rightarrow> [] | Some x \<Rightarrow> [(key, f x)])"

definition wire_attachment :: "chat_attachment \<Rightarrow> json" where
  "wire_attachment a = JObj ([(''id'', JStr (at_id a)), (''name'', JStr (at_name a)), (''mime'', JStr (at_mime a)),
     (''size'', JNum (at_size a))] @ wire_opt ''width'' JNum (at_width a) @ wire_opt ''height'' JNum (at_height a)
     @ wire_opt ''duration_secs'' JNum (at_duration_secs a))"

definition wire_attachments :: "chat_attachment list option \<Rightarrow> jobj" where
  "wire_attachments = wire_opt ''attachments'' (\<lambda>l. JArr (map wire_attachment l))"

definition wire_input_method :: "input_method \<Rightarrow> json" where
  "wire_input_method m = JStr (case m of Voice \<Rightarrow> ''voice'' | Typed \<Rightarrow> ''typed'')"

fun wire_body :: "chat_body \<Rightarrow> jobj" where
  "wire_body (UserBody u) = [(''type'', JStr ''user''), (''text'', JStr (us_text u))]
     @ wire_opt ''input_method'' wire_input_method (us_input_method u)
     @ wire_attachments (us_attachments u) @ wire_opt ''intent_id'' JStr (us_intent_id u)"
| "wire_body (ChatBody t a) = [(''type'', JStr ''chat''), (''text'', JStr t)] @ wire_attachments a"
| "wire_body (AssistantBody t) = [(''type'', JStr ''assistant''), (''text'', JStr t)]"
| "wire_body (ErrorBody t) = [(''type'', JStr ''error''), (''text'', JStr t)]"
| "wire_body (ThinkingBody t s) = [(''type'', JStr ''thinking''), (''text'', JStr t), (''signature'', JStr s)]"
| "wire_body (StatusBody b) = [(''type'', JStr ''status''), (''state'', JStr (if b then ''thinking'' else ''idle''))]"
| "wire_body (ToolStartBody t i s) = [(''type'', JStr ''tool_start''), (''tool'', JStr t), (''input'', JStr i)]
     @ wire_opt ''subagent'' JBool s"
| "wire_body (ToolEndBody t s) = [(''type'', JStr ''tool_end''), (''tool'', JStr t)] @ wire_opt ''subagent'' JBool s"
| "wire_body (RateLimitedBody t w r) = [(''type'', JStr ''rate_limited''), (''text'', JStr t),
     (''window'', json_of_str_opt w), (''resets_at'', json_of_num_opt r)]"
| "wire_body (NotificationBody n) = [(''type'', JStr ''notification''), (''source'', JStr (nf_source n)),
     (''summary'', JStr (nf_summary n))] @ wire_opt ''notif_type'' JStr (nf_type n)
     @ wire_opt ''sender'' JStr (nf_sender n) @ wire_opt ''notif_id'' JStr (nf_id n)
     @ wire_opt ''fields'' (\<lambda>fs. JObj (map (\<lambda>(k, v). (k, JStr v)) fs)) (nf_fields n)
     @ wire_opt ''decided'' (\<lambda>d. JStr (case d of Interrupt \<Rightarrow> ''interrupt'' | Snooze \<Rightarrow> ''snooze'' | Trash \<Rightarrow> ''trash''))
         (nf_decided n)"
| "wire_body (NotificationClearedBody n) = [(''type'', JStr ''notification_cleared''), (''notif_id'', JStr n)]"
| "wire_body (SubagentStartBody i t) = [(''type'', JStr ''subagent_start''), (''agent_id'', JStr i), (''agent_type'', JStr t)]"
| "wire_body (SubagentStopBody i t) = [(''type'', JStr ''subagent_stop''), (''agent_id'', JStr i), (''agent_type'', JStr t)]"

definition wire_event :: "chat_message \<Rightarrow> json" where
  "wire_event m = JObj (wire_opt ''id'' JNum (cm_id m) @ wire_opt ''ts'' JStr (cm_ts m) @ wire_body (cm_body m))"

definition from_service :: "chat_message \<Rightarrow> bool" where
  "from_service m = (case cm_body m of UserBody u \<Rightarrow> us_send_state u = None | _ \<Rightarrow> True)"

lemma field_append_cases: "field (ps @ qs) k = (case field ps k of Some v \<Rightarrow> Some v | None \<Rightarrow> field qs k)"
  by (simp add: field_def map_add_def split: option.splits)

lemma field_wire_opt: "field (wire_opt key f v) k = (if k = key then map_option f v else None)"
  by (cases v) (simp_all add: wire_opt_def)

lemma field_wire_attachments: "field (wire_attachments a) k = (if k = ''attachments'' then map_option (\<lambda>l. JArr (map wire_attachment l)) a else None)"
  unfolding wire_attachments_def field_wire_opt by simp

lemma parse_attachment_wire [simp]: "parse_attachment (wire_attachment a) = Some a"
  by (cases a; cases "at_width a"; cases "at_height a"; cases "at_duration_secs a")
    (simp_all add: parse_attachment_def wire_attachment_def wire_opt_def)

lemma parse_attachments_wire [simp]: "parse_attachments (Some (JArr (map wire_attachment l))) = Some (Some l)"
proof -
  have "parse_attachment_items (map wire_attachment l) = Some l" by (induction l) simp_all
  then show ?thesis by (simp add: parse_attachments_def)
qed

lemma parse_attachments_None [simp]: "parse_attachments None = Some None"
  by (simp add: parse_attachments_def)

lemma parse_input_method_wire [simp]:
  "parse_input_method (Some (wire_input_method m)) = Some (Some m)" "parse_input_method None = Some None"
  by (cases m; simp add: parse_input_method_def wire_input_method_def)+

lemma string_entries_wire [simp]: "string_entries (map (\<lambda>(k, v). (k, JStr v)) fs) = fs"
  by (induction fs) (auto simp: string_entries_def)

lemma parse_decided_wire [simp]:
  "parse_decided (Some (JStr (case d of Interrupt \<Rightarrow> ''interrupt'' | Snooze \<Rightarrow> ''snooze'' | Trash \<Rightarrow> ''trash''))) = Some d"
  "parse_decided None = None"
  by (cases d; simp add: parse_decided_def)+

lemmas variant_defs = user_variant_def chat_variant_def status_variant_def thinking_variant_def tool_start_variant_def
  tool_end_variant_def rate_limited_variant_def notification_variant_def subagent_event_def

lemma notification_roundtrip: "notification_variant (wire_body (NotificationBody n)) = Some (NotificationBody n)"
  by (cases n; cases "nf_type n"; cases "nf_sender n"; cases "nf_id n"; cases "nf_fields n"; cases "nf_decided n")
    (simp_all add: notification_variant_def wire_opt_def)

lemma user_roundtrip:
  "us_send_state u = None \<Longrightarrow> user_variant (wire_body (UserBody u)) = Some (UserBody u)"
  by (cases u; cases "us_input_method u"; cases "us_attachments u"; cases "us_intent_id u")
    (simp_all add: user_variant_def wire_opt_def wire_attachments_def)

lemma tool_roundtrip:
  "tool_start_variant (wire_body (ToolStartBody t i s)) = Some (ToolStartBody t i s)"
  "tool_end_variant (wire_body (ToolEndBody t s)) = Some (ToolEndBody t s)"
  "chat_variant (wire_body (ChatBody t a)) = Some (ChatBody t a)"
  "rate_limited_variant (wire_body (RateLimitedBody t w r)) = Some (RateLimitedBody t w r)"
  by (cases s; cases a; cases r;
      simp add: tool_start_variant_def tool_end_variant_def chat_variant_def rate_limited_variant_def wire_opt_def
        wire_attachments_def json_of_num_opt_def)+

text \<open>The variant of a body's own type reads the body back from its wire fields.\<close>

definition variant_reads :: "chat_body \<Rightarrow> bool" where
  "variant_reads b \<longleftrightarrow> (\<exists>ty parse. field (wire_body b) ''type'' = Some (JStr ty) \<and>
     map_of variants ty = Some parse \<and> parse (wire_body b) = Some b)"

lemma variant_reads_service:
  assumes "case b of UserBody u \<Rightarrow> us_send_state u = None | _ \<Rightarrow> True"
  shows "variant_reads b"
  using assms notification_roundtrip user_roundtrip tool_roundtrip
  unfolding variant_reads_def
  by (cases b) (simp_all add: variants_def status_variant_def thinking_variant_def subagent_event_def)

text \<open>The variants read only their own fields, none of which is the id or the time.\<close>

definition body_fields :: "string list" where
  "body_fields = [''type'', ''text'', ''attachments'', ''input_method'', ''intent_id'', ''signature'', ''state'',
     ''tool'', ''input'', ''subagent'', ''window'', ''resets_at'', ''source'', ''summary'', ''notif_type'',
     ''sender'', ''notif_id'', ''fields'', ''decided'', ''agent_id'', ''agent_type'']"

lemma variant_congruence:
  assumes "list_all (\<lambda>k. field ps k = field qs k) body_fields" "map_of variants ty = Some parse"
  shows "parse ps = parse qs"
proof -
  have eqs: "field ps ''text'' = field qs ''text''" "field ps ''attachments'' = field qs ''attachments''"
    "field ps ''input_method'' = field qs ''input_method''" "field ps ''intent_id'' = field qs ''intent_id''"
    "field ps ''signature'' = field qs ''signature''" "field ps ''state'' = field qs ''state''"
    "field ps ''tool'' = field qs ''tool''" "field ps ''input'' = field qs ''input''"
    "field ps ''subagent'' = field qs ''subagent''" "field ps ''window'' = field qs ''window''"
    "field ps ''resets_at'' = field qs ''resets_at''" "field ps ''source'' = field qs ''source''"
    "field ps ''summary'' = field qs ''summary''" "field ps ''notif_type'' = field qs ''notif_type''"
    "field ps ''sender'' = field qs ''sender''" "field ps ''notif_id'' = field qs ''notif_id''"
    "field ps ''fields'' = field qs ''fields''" "field ps ''decided'' = field qs ''decided''"
    "field ps ''agent_id'' = field qs ''agent_id''" "field ps ''agent_type'' = field qs ''agent_type''"
    using assms(1) by (simp_all add: body_fields_def)
  have 1: "user_variant ps = user_variant qs" "chat_variant ps = chat_variant qs"
    "thinking_variant ps = thinking_variant qs" "status_variant ps = status_variant qs"
    "tool_start_variant ps = tool_start_variant qs" "tool_end_variant ps = tool_end_variant qs"
    "rate_limited_variant ps = rate_limited_variant qs" "notification_variant ps = notification_variant qs"
    "subagent_event b ps = subagent_event b qs" for b
    unfolding variant_defs eqs by (rule refl)+
  from map_of_SomeD [OF assms(2)] show ?thesis
    unfolding variants_def set_simps insert_iff prod.inject empty_iff
    by (elim disjE conjE) (simp_all only: 1 eqs)
qed

lemma parse_event_wire:
  assumes "from_service m"
  shows "parse_chat_event (wire_event m) = Event m"
proof -
  let ?b = "wire_body (cm_body m)"
  let ?f = "wire_opt ''id'' JNum (cm_id m) @ wire_opt ''ts'' JStr (cm_ts m) @ ?b"
  obtain ty parse where ty: "field ?b ''type'' = Some (JStr ty)" "map_of variants ty = Some parse"
    "parse ?b = Some (cm_body m)"
    using variant_reads_service assms unfolding from_service_def variant_reads_def by blast
  have skip: "field ?f k = field ?b k" if "k \<noteq> ''id''" "k \<noteq> ''ts''" for k
    using that by (cases "cm_id m"; cases "cm_ts m") (simp_all add: wire_opt_def)
  have "list_all (\<lambda>k. field ?f k = field ?b k) body_fields"
    by (simp add: body_fields_def skip)
  from variant_congruence [OF this ty(2)] ty(3) have p: "parse ?f = Some (cm_body m)" by simp
  have "field ?b ''id'' = None" "field ?b ''ts'' = None"
    by (cases "cm_body m"; simp add: field_append_cases field_wire_opt field_wire_attachments)+
  then have "parse_base ?f = Some (cm_id m, cm_ts m)"
    by (cases "cm_id m"; cases "cm_ts m") (simp_all add: parse_base_def wire_opt_def)
  then show ?thesis
    using ty(1,2) p skip [of "''type''"] by (simp add: parse_chat_event_def wire_event_def)
qed

subsection \<open>Properties\<close>

text \<open>C30: Every event the app-chat service writes is read back exactly: a history page in its wire
  form parses to the very rows it lists, optional fields, attachments and notification extras
  included, with its cursor.\<close>

theorem history_page_roundtrip:
  assumes "list_all from_service ms"
  shows "parse_history_page (JObj [(''events'', JArr (map wire_event ms)), (''cursor'', json_of_num_opt c)]) =
    Some \<lparr>hp_events = ms, hp_cursor = c\<rparr>"
proof -
  have m: "map parse_chat_event (map wire_event ms) = map Event ms"
    using assms by (induction ms) (simp_all add: parse_event_wire)
  have "InheritedCall \<notin> set (map Event ms)" by auto
  moreover have "concat (map (\<lambda>e. case e of Event m \<Rightarrow> [m] | _ \<Rightarrow> []) (map Event ms)) = ms" by (induction ms) simp_all
  moreover have "as_num (Some (json_of_num_opt c)) = c" by (cases c) (simp_all add: json_of_num_opt_def)
  ultimately show ?thesis by (simp add: parse_history_page_def m del: map_map set_map)
qed

definition sample_row :: "jsnum \<Rightarrow> chat_body \<Rightarrow> chat_message" where
  "sample_row i b = \<lparr>cm_id = Some i, cm_ts = None, cm_body = b\<rparr>"

theorem history_page_roundtrip_witness:
  "parse_history_page (JObj [(''events'', JArr (map wire_event [sample_row 7 (ChatBody ''hi'' None)])),
     (''cursor'', json_of_num_opt (Some 3))]) =
   Some \<lparr>hp_events = [sample_row 7 (ChatBody ''hi'' None)], hp_cursor = Some 3\<rparr>"
  by (rule history_page_roundtrip) (simp add: from_service_def sample_row_def)

text \<open>The frame whose type is the name of an inherited member is not dropped.\<close>

lemma inherited_type_is_not_dropped:
  "parse_chat_event (JObj [(''type'', JStr ''constructor'')]) = InheritedCall"
  by (simp add: parse_chat_event_def parse_base_def variants_def object_prototype_members_def)

end
