(* ===== verification/Api.thy ===== *)
theory Api
  imports Urls Provider Sse AgentStatus SyncProtocol ParseChat
begin

section \<open>The gateway's routes (api/, lifecycle/restart-reasons.ts)\<close>

text \<open>
  Every route an app calls, over the http client it is given: \<open>'w\<close> is whatever a request reads and
  changes, as in \<open>Http\<close>.  A function is a sequence of requests, each awaited before the next, that
  ends at the first rejection.  A response cast to an interface is used as the JSON it is: a property
  that is read may be absent, and reading one of null rejects.  \<open>AbortSignal\<close>s are left out; an abort
  is a rejected fetch.  \<open>String(n)\<close> of a number is the parameter \<open>show_num\<close>.
\<close>

datatype api_error =
  HttpFailed http_error
| BadJson
| TypeFailed
| AgentStatusError string agent_status
| TimedOut string

type_synonym 'w http_client = "string \<Rightarrow> http_init \<Rightarrow> 'w \<Rightarrow> (http_error + http_response) \<times> 'w"
type_synonym ('w, 'a) io = "'w \<Rightarrow> (api_error + 'a) \<times> 'w"

definition io_return :: "'a \<Rightarrow> ('w, 'a) io" where
  "io_return x w = (Inr x, w)"

definition io_bind :: "('w, 'a) io \<Rightarrow> ('a \<Rightarrow> ('w, 'b) io) \<Rightarrow> ('w, 'b) io" where
  "io_bind m f w = (case m w of (Inl e, w) \<Rightarrow> (Inl e, w) | (Inr x, w) \<Rightarrow> f x w)"

definition io_check :: "(api_error + 'a) \<Rightarrow> ('w, 'a) io" where
  "io_check r w = (r, w)"

definition bare_init :: "string \<Rightarrow> http_init" where
  "bare_init method = \<lparr>hi_method = method, hi_headers = [], hi_payload = None\<rparr>"

definition call :: "'w http_client \<Rightarrow> string \<Rightarrow> http_init \<Rightarrow> ('w, http_response) io" where
  "call http path init w =
     (case http path init w of (Inl e, w) \<Rightarrow> (Inl (HttpFailed e), w) | (Inr r, w) \<Rightarrow> (Inr r, w))"

definition call_unit :: "'w http_client \<Rightarrow> string \<Rightarrow> http_init \<Rightarrow> ('w, unit) io" where
  "call_unit http path init = io_bind (call http path init) (\<lambda>r. io_return ())"

definition call_json :: "'w http_client \<Rightarrow> string \<Rightarrow> http_init \<Rightarrow> ('w, json) io" where
  "call_json http path init =
     io_bind (call http path init)
       (\<lambda>r. io_check (case re_json r of None \<Rightarrow> Inl BadJson | Some v \<Rightarrow> Inr v))"

text \<open>\<open>value.key\<close> on the value of a response.\<close>

definition get_prop :: "string \<Rightarrow> json \<Rightarrow> api_error + json option" where
  "get_prop key v =
     (if v = JNull then Inl TypeFailed else Inr (Option.bind (as_record (Some v)) (\<lambda>p. field p key)))"

definition json_prop :: "'w http_client \<Rightarrow> string \<Rightarrow> http_init \<Rightarrow> string \<Rightarrow> ('w, json option) io" where
  "json_prop http path init key = io_bind (call_json http path init) (\<lambda>v. io_check (get_prop key v))"

subsection \<open>Restarts\<close>

datatype restart_reason = ProviderReason | SignOutReason | ModelReason | ContextReason

fun restart_token :: "restart_reason \<Rightarrow> string" where
  "restart_token ProviderReason = ''provider.configured''"
| "restart_token SignOutReason = ''provider.signed-out''"
| "restart_token ModelReason = ''provider.model''"
| "restart_token ContextReason = ''provider.context''"

definition restart_body :: "restart_reason \<Rightarrow> json" where
  "restart_body reason = JObj [(''reason_token'', JStr (restart_token reason))]"

subsection \<open>Agents (api/agents.ts)\<close>

definition agent_path :: "string \<Rightarrow> string \<Rightarrow> string" where
  "agent_path name suffix = ''/agents/'' @ encode_uri_component name @ suffix"

definition create_agent :: "'w http_client \<Rightarrow> string \<Rightarrow> ('w, unit) io" where
  "create_agent http name =
     io_bind (call_json http ''/agents'' (json_init ''POST'' (JObj [(''name'', JStr name)]))) (\<lambda>v. io_return ())"

definition start_agent :: "'w http_client \<Rightarrow> string \<Rightarrow> ('w, unit) io" where
  "start_agent http name = call_unit http (agent_path name ''/start'') (bare_init ''POST'')"

definition stop_agent :: "'w http_client \<Rightarrow> string \<Rightarrow> ('w, unit) io" where
  "stop_agent http name = call_unit http (agent_path name ''/stop'') (bare_init ''POST'')"

definition restart_init :: "restart_reason option \<Rightarrow> http_init" where
  "restart_init reason =
     (case reason of None \<Rightarrow> bare_init ''POST'' | Some r \<Rightarrow> json_init ''POST'' (restart_body r))"

definition restart_agent :: "'w http_client \<Rightarrow> string \<Rightarrow> restart_reason option \<Rightarrow> ('w, unit) io" where
  "restart_agent http name reason = call_unit http (agent_path name ''/restart'') (restart_init reason)"

definition delete_agent :: "'w http_client \<Rightarrow> string \<Rightarrow> ('w, unit) io" where
  "delete_agent http name = call_unit http (agent_path name []) (bare_init ''DELETE'')"

definition rename_agent :: "'w http_client \<Rightarrow> string \<Rightarrow> string \<Rightarrow> ('w, json option) io" where
  "rename_agent http name new_name =
     json_prop http (agent_path name []) (json_init ''PATCH'' (JObj [(''new_name'', JStr new_name)])) ''name''"

definition fetch_usage :: "'w http_client \<Rightarrow> string \<Rightarrow> ('w, json) io" where
  "fetch_usage http name = call_json http (agent_path name ''/usage'') (bare_init ''GET'')"

text \<open>A status response as the polls read it: a status they do not know, and whether \<open>booting\<close> is false.\<close>

record status_response =
  st_status :: "agent_status option"
  st_booting :: "bool option"

definition status_names :: "(string \<times> agent_status) list" where
  "status_names =
     [(''alive'', Alive), (''starting'', Starting), (''setting_up'', SettingUp),
      (''not_authenticated'', NotAuthenticated), (''unprovisioned'', Unprovisioned),
      (''restarting'', Restarting), (''rebuilding'', Rebuilding), (''stopped'', Stopped), (''dead'', Dead),
      (''not_found'', NotFound)]"

definition status_of :: "json \<Rightarrow> api_error + status_response" where
  "status_of v =
     (if v = JNull then Inl TypeFailed
      else let p = as_record (Some v); get = (\<lambda>k. Option.bind p (\<lambda>p. field p k))
           in Inr \<lparr>st_status = Option.bind (as_str (get ''status'')) (map_of status_names),
                   st_booting = as_bool (get ''booting'')\<rparr>)"

definition fetch_agent_status :: "'w http_client \<Rightarrow> string \<Rightarrow> ('w, status_response) io" where
  "fetch_agent_status http name =
     io_bind (call_json http (agent_path name []) (bare_init ''GET'')) (\<lambda>v. io_check (status_of v))"

text \<open>The clock: \<open>Date.now()\<close> in a world, and a timer of so many milliseconds run out.\<close>

record 'w clock =
  cl_now :: "'w \<Rightarrow> jsnum"
  cl_sleep :: "jsnum \<Rightarrow> 'w \<Rightarrow> 'w"

record status_wait =
  sw_ready :: "status_response \<Rightarrow> bool"
  sw_failed :: "status_response \<Rightarrow> bool"
  sw_label :: string

text \<open>\<open>new AgentStatusError(name, response.status)\<close>; a poll fails on a status it knows.\<close>

definition status_failure :: "string \<Rightarrow> status_response \<Rightarrow> api_error" where
  "status_failure name r =
     (case st_status r of Some s \<Rightarrow> AgentStatusError name s | None \<Rightarrow> TypeFailed)"

partial_function (option) poll_status ::
  "'w http_client \<Rightarrow> 'w clock \<Rightarrow> string \<Rightarrow> jsnum \<Rightarrow> jsnum \<Rightarrow> status_wait \<Rightarrow> 'w \<Rightarrow> ((api_error + unit) \<times> 'w) option" where
  "poll_status http clock name deadline interval wait w =
     (if cl_now clock w < deadline
      then let (r, w) = fetch_agent_status http name w
           in (case r of
                 Inl e \<Rightarrow> Some (Inl e, w)
               | Inr response \<Rightarrow>
                   if sw_ready wait response then Some (Inr (), w)
                   else if sw_failed wait response then Some (Inl (status_failure name response), w)
                   else poll_status http clock name deadline interval wait (cl_sleep clock interval w))
      else Some (Inl (TimedOut (name @ '': '' @ sw_label wait)), w))"

definition wait_for_status ::
  "'w http_client \<Rightarrow> 'w clock \<Rightarrow> string \<Rightarrow> jsnum \<Rightarrow> jsnum \<Rightarrow> status_wait \<Rightarrow> 'w \<Rightarrow> ((api_error + unit) \<times> 'w) option" where
  "wait_for_status http clock name timeout_ms interval wait w =
     poll_status http clock name (cl_now clock w + timeout_ms) interval wait w"

definition known :: "(agent_status \<Rightarrow> bool) \<Rightarrow> status_response \<Rightarrow> bool" where
  "known p r = (case st_status r of Some s \<Rightarrow> p s | None \<Rightarrow> False)"

definition running_wait :: status_wait where
  "running_wait = \<lparr>sw_ready = known agent_is_connectable, sw_failed = known agent_is_down,
     sw_label = ''timed out waiting for HTTP server''\<rparr>"

definition ready_wait :: status_wait where
  "ready_wait = \<lparr>sw_ready = (\<lambda>r. known (\<lambda>s. s = Alive) r \<and> st_booting r = Some False),
     sw_failed = known (\<lambda>s. agent_is_down s \<or> agent_needs_user s),
     sw_label = ''timed out waiting to become ready''\<rparr>"

definition wait_until_running where
  "wait_until_running http clock name timeout_ms interval =
     wait_for_status http clock name timeout_ms (nullish interval 500) running_wait"

definition wait_until_ready where
  "wait_until_ready http clock name timeout_ms interval =
     wait_for_status http clock name timeout_ms (nullish interval 500) ready_wait"

subsection \<open>Providers (api/provider.ts)\<close>

text \<open>The preferences written: an absent or an empty text writes none.\<close>

definition provision_prefs :: "string option \<Rightarrow> string option \<Rightarrow> jobj" where
  "provision_prefs personality timezone =
     (case personality of Some (c # p) \<Rightarrow> [(''agent_personality'', JStr (c # p))] | _ \<Rightarrow> []) @
     (case timezone of Some (c # t) \<Rightarrow> [(''timezone'', JStr (c # t))] | _ \<Rightarrow> [])"

definition provision_agent ::
  "'w http_client \<Rightarrow> string \<Rightarrow> provider_selection \<Rightarrow> string option \<Rightarrow> string option \<Rightarrow> ('w, unit) io" where
  "provision_agent http name selection personality timezone =
     io_bind (call http (agent_path name ''/provider'') (json_init ''PUT'' (provider_put_body selection)))
       (\<lambda>_. let prefs = provision_prefs personality timezone
            in io_bind (if prefs \<noteq> [] then call_unit http (agent_path name ''/config'') (json_init ''PUT'' (JObj prefs))
                        else io_return ())
                 (\<lambda>_. restart_agent http name (Some ProviderReason)))"

definition sign_out_provider :: "'w http_client \<Rightarrow> string \<Rightarrow> ('w, unit) io" where
  "sign_out_provider http name =
     io_bind (call http (agent_path name ''/provider'') (bare_init ''DELETE''))
       (\<lambda>_. restart_agent http name (Some SignOutReason))"

text \<open>The wire's provider as its interface declares it; a field of another type reads as absent.\<close>

definition provider_wire :: "json \<Rightarrow> provider_info_wire" where
  "provider_wire v =
     (let get = (\<lambda>k. Option.bind (as_record (Some v)) (\<lambda>p. field p k));
          kinds = map (\<lambda>k. (kind_name k, k)) [Claude, OpenRouter, Zai, Kimi, OpenAI]
      in \<lparr>pw_kind = Option.bind (as_str (get ''kind'')) (map_of kinds),
          pw_model = nullable_str (get ''model''), pw_resolved_model = nullable_str (get ''resolved_model''),
          pw_max_context_tokens = optional_num (get ''max_context_tokens''), pw_authed = as_bool (get ''authed''),
          pw_plan = nullable_str (get ''plan'')\<rparr>)"

definition get_provider :: "'w http_client \<Rightarrow> string \<Rightarrow> ('w, provider_info \<times> json option) io" where
  "get_provider http name =
     io_bind (call_json http (agent_path name ''/provider'') (bare_init ''GET''))
       (\<lambda>resource. io_bind (io_check (get_prop ''catalog'' resource))
         (\<lambda>catalog. io_return (normalize_provider_info (provider_wire resource), catalog)))"

definition patch_provider :: "'w http_client \<Rightarrow> string \<Rightarrow> jobj \<Rightarrow> restart_reason \<Rightarrow> ('w, unit) io" where
  "patch_provider http name patch reason =
     io_bind (call http (agent_path name ''/provider'') (json_init ''PATCH'' (JObj patch)))
       (\<lambda>_. restart_agent http name (Some reason))"

definition set_model :: "'w http_client \<Rightarrow> string \<Rightarrow> string \<Rightarrow> ('w, unit) io" where
  "set_model http name model = patch_provider http name [(''model'', JStr model)] ModelReason"

definition set_context_window :: "'w http_client \<Rightarrow> string \<Rightarrow> jsnum \<Rightarrow> ('w, unit) io" where
  "set_context_window http name tokens =
     patch_provider http name [(''max_context_tokens'', JNum tokens)] ContextReason"

definition provider_setup_path :: "string \<Rightarrow> string \<Rightarrow> string" where
  "provider_setup_path name suffix = agent_path name (''/providers/'' @ suffix)"

definition start_claude_oauth :: "'w http_client \<Rightarrow> string \<Rightarrow> ('w, json) io" where
  "start_claude_oauth http name =
     call_json http (provider_setup_path name ''claude/oauth/start'') (bare_init ''POST'')"

definition complete_claude_oauth :: "'w http_client \<Rightarrow> string \<Rightarrow> string \<Rightarrow> string \<Rightarrow> ('w, json option) io" where
  "complete_claude_oauth http name session_id code =
     json_prop http (provider_setup_path name ''claude/oauth/complete'')
       (json_init ''POST'' (JObj [(''session_id'', JStr session_id), (''code'', JStr code)])) ''credentials''"

definition fetch_claude_models_with_credentials :: "'w http_client \<Rightarrow> string \<Rightarrow> string \<Rightarrow> ('w, json) io" where
  "fetch_claude_models_with_credentials http name credentials =
     call_json http (provider_setup_path name ''claude/models'')
       (json_init ''POST'' (JObj [(''credentials'', JStr credentials)]))"

definition fetch_agent_claude_models :: "'w http_client \<Rightarrow> string \<Rightarrow> ('w, json) io" where
  "fetch_agent_claude_models http name = call_json http (agent_path name ''/provider/models'') (bare_init ''GET'')"

definition start_openai_oauth :: "'w http_client \<Rightarrow> string \<Rightarrow> ('w, json) io" where
  "start_openai_oauth http name =
     call_json http (provider_setup_path name ''openai/oauth/start'') (bare_init ''POST'')"

definition complete_openai_oauth :: "'w http_client \<Rightarrow> string \<Rightarrow> string \<Rightarrow> ('w, json option) io" where
  "complete_openai_oauth http name session_id =
     json_prop http (provider_setup_path name ''openai/oauth/complete'')
       (json_init ''POST'' (JObj [(''session_id'', JStr session_id)])) ''credentials''"

definition fetch_openrouter_models :: "'w http_client \<Rightarrow> string \<Rightarrow> ('w, json) io" where
  "fetch_openrouter_models http name =
     call_json http (provider_setup_path name ''openrouter/models/top'') (bare_init ''GET'')"

definition validate_openrouter_key :: "'w http_client \<Rightarrow> string \<Rightarrow> string \<Rightarrow> ('w, unit) io" where
  "validate_openrouter_key http name key =
     call_unit http (provider_setup_path name ''openrouter/validate-key'')
       (json_init ''POST'' (JObj [(''key'', JStr key)]))"

subsection \<open>Catalogs (api/catalogs.ts)\<close>

definition context_for_model :: "catalog_entry option \<Rightarrow> string \<Rightarrow> context_policy option" where
  "context_for_model entry model =
     (case entry of
        None \<Rightarrow> None
      | Some e \<Rightarrow>
          (case (case ce_context_by_model e of None \<Rightarrow> None | Some by_model \<Rightarrow> map_of by_model model) of
             Some policy \<Rightarrow> Some policy
           | None \<Rightarrow> Some (ce_context e)))"

definition fetch_provider_catalog :: "'w http_client \<Rightarrow> string \<Rightarrow> ('w, json option) io" where
  "fetch_provider_catalog http name =
     json_prop http (agent_path name ''/provider'') (bare_init ''GET'') ''catalog''"

definition fetch_personalities :: "'w http_client \<Rightarrow> string \<Rightarrow> ('w, json) io" where
  "fetch_personalities http name = call_json http (agent_path name ''/personalities'') (bare_init ''GET'')"

subsection \<open>The gateway itself (api/gateway.ts)\<close>

definition fetch_gateway_info :: "'w http_client \<Rightarrow> ('w, json) io" where
  "fetch_gateway_info http = call_json http ''/gateway/info'' (bare_init ''GET'')"

definition fetch_gateway_settings :: "'w http_client \<Rightarrow> ('w, json) io" where
  "fetch_gateway_settings http = call_json http ''/gateway/settings'' (bare_init ''GET'')"

definition channel_name :: "release_channel \<Rightarrow> string" where
  "channel_name c = (case c of Stable \<Rightarrow> ''stable'' | Beta \<Rightarrow> ''beta'')"

definition update_gateway_settings ::
  "'w http_client \<Rightarrow> bool option \<Rightarrow> release_channel option \<Rightarrow> ('w, json) io" where
  "update_gateway_settings http auto_update channel =
     call_json http ''/gateway/settings''
       (json_init ''PUT'' (JObj (opt_field ''auto_update'' (map_option JBool auto_update) @
          opt_field ''channel'' (map_option (\<lambda>c. JStr (channel_name c)) channel))))"

datatype update_outcome = UpdateStarted | UpdateCurrent | UpdateBusy string | UpdateUnreachable string

text \<open>The texts of what the platform rejects with are the parameter \<open>message\<close>.\<close>

fun error_detail :: "(api_error \<Rightarrow> string) \<Rightarrow> api_error \<Rightarrow> string" where
  "error_detail message (HttpFailed (ApiError status detail)) = detail"
| "error_detail message e = message e"

definition trigger_gateway_update ::
  "(api_error \<Rightarrow> string) \<Rightarrow> 'w http_client \<Rightarrow> 'w \<Rightarrow> update_outcome \<times> 'w" where
  "trigger_gateway_update message http w =
     (let (result, w) =
        io_bind (call_json http ''/gateway/update'' (bare_init ''POST''))
          (\<lambda>body. io_bind (io_check (get_prop ''started'' body))
            (\<lambda>started. io_bind (io_check (get_prop ''ok'' body))
              (\<lambda>accepted. io_return (as_bool started = Some True \<or> as_bool accepted = Some True)))) w
      in (case result of
            Inr True \<Rightarrow> UpdateStarted
          | Inr False \<Rightarrow> UpdateCurrent
          | Inl e \<Rightarrow>
              (case e of
                 HttpFailed (ApiError status detail) \<Rightarrow>
                   if status = 409 then UpdateBusy (error_detail message e) else UpdateUnreachable (error_detail message e)
               | _ \<Rightarrow> UpdateUnreachable (error_detail message e)), w))"

definition accepted_by :: "(api_error + 'a) \<times> 'w \<Rightarrow> bool \<times> 'w" where
  "accepted_by r = (case fst r of Inr _ \<Rightarrow> True | Inl _ \<Rightarrow> False, snd r)"

definition dismiss_gateway_update :: "'w http_client \<Rightarrow> 'w \<Rightarrow> bool \<times> 'w" where
  "dismiss_gateway_update http w = accepted_by (call http ''/gateway/update/dismiss'' (bare_init ''POST'') w)"

definition trigger_gateway_restart :: "'w http_client \<Rightarrow> 'w \<Rightarrow> bool \<times> 'w" where
  "trigger_gateway_restart http w = accepted_by (call http ''/gateway/restart'' (bare_init ''POST'') w)"

definition check_for_gateway_update :: "'w http_client \<Rightarrow> ('w, unit) io" where
  "check_for_gateway_update http = call_unit http ''/version/check'' (bare_init ''POST'')"

subsection \<open>Backups (api/backups.ts)\<close>

definition backup_path :: "string \<Rightarrow> string \<Rightarrow> string \<Rightarrow> string" where
  "backup_path name backup_id suffix = agent_path name (''/backups/'' @ encode_uri_component backup_id @ suffix)"

text \<open>A pipeline's response, drained; \<open>parse\<close> is \<open>JSON.parse\<close> of an event's data.\<close>

definition drain_response :: "(string \<Rightarrow> json option) \<Rightarrow> http_response \<Rightarrow> api_error + unit" where
  "drain_response parse r =
     (case drain_sse_pipeline parse (re_status r) (re_body r) of Inl e \<Rightarrow> Inl (HttpFailed e) | Inr _ \<Rightarrow> Inr ())"

definition create_backup :: "(string \<Rightarrow> json option) \<Rightarrow> 'w http_client \<Rightarrow> string \<Rightarrow> ('w, unit) io" where
  "create_backup parse http name =
     io_bind (call http (agent_path name ''/backups'') (bare_init ''POST'')) (\<lambda>r. io_check (drain_response parse r))"

definition list_backups :: "'w http_client \<Rightarrow> string \<Rightarrow> ('w, json) io" where
  "list_backups http name = call_json http (agent_path name ''/backups'') (bare_init ''GET'')"

definition restore_backup :: "(string \<Rightarrow> json option) \<Rightarrow> 'w http_client \<Rightarrow> string \<Rightarrow> string \<Rightarrow> ('w, unit) io" where
  "restore_backup parse http name backup_id =
     io_bind (call http (backup_path name backup_id ''/restore'') (bare_init ''POST''))
       (\<lambda>r. io_check (drain_response parse r))"

definition delete_backup :: "'w http_client \<Rightarrow> string \<Rightarrow> string \<Rightarrow> ('w, unit) io" where
  "delete_backup http name backup_id = call_unit http (backup_path name backup_id []) (bare_init ''DELETE'')"

definition fetch_agent_backup_settings :: "'w http_client \<Rightarrow> string \<Rightarrow> ('w, json) io" where
  "fetch_agent_backup_settings http name = call_json http (agent_path name ''/settings/backup'') (bare_init ''GET'')"

definition set_agent_backup_settings :: "'w http_client \<Rightarrow> string \<Rightarrow> bool \<Rightarrow> ('w, json) io" where
  "set_agent_backup_settings http name enabled =
     call_json http (agent_path name ''/settings/backup'')
       (json_init ''PUT'' (JObj [(''enabled'', JBool enabled)]))"

subsection \<open>History (api/history.ts)\<close>

definition cursor_query :: "(jsnum \<Rightarrow> string) \<Rightarrow> jsnum option \<Rightarrow> (string \<times> string) list" where
  "cursor_query show_num cursor = (case cursor of None \<Rightarrow> [] | Some c \<Rightarrow> [(''cursor'', show_num c)])"

definition chat_history_path :: "(jsnum \<Rightarrow> string) \<Rightarrow> string \<Rightarrow> jsnum option \<Rightarrow> string" where
  "chat_history_path show_num name cursor =
     (let query = query_string (cursor_query show_num cursor)
      in agent_path name (''/app-chat/history'' @ (if query \<noteq> [] then ''?'' @ query else [])))"

definition chat_socket_path :: "string \<Rightarrow> string" where
  "chat_socket_path name = agent_path name ''/app-chat/ws''"

definition fetch_chat_history ::
  "(jsnum \<Rightarrow> string) \<Rightarrow> 'w http_client \<Rightarrow> string \<Rightarrow> jsnum option \<Rightarrow> ('w, history_page) io" where
  "fetch_chat_history show_num http name cursor =
     io_bind (call_json http (chat_history_path show_num name cursor) (bare_init ''GET''))
       (\<lambda>v. io_check (case parse_history_page v of None \<Rightarrow> Inl TypeFailed | Some page \<Rightarrow> Inr page))"

text \<open>\<open>events.filter(event => event.type === "notification")\<close>: reading a type of null throws.\<close>

definition notification_events :: "json list \<Rightarrow> api_error + json list" where
  "notification_events events =
     (if JNull \<in> set events then Inl TypeFailed
      else Inr (filter (\<lambda>e. get_prop ''type'' e = Inr (Some (JStr ''notification''))) events))"

definition get_notification_history ::
  "(jsnum \<Rightarrow> string) \<Rightarrow> 'w http_client \<Rightarrow> string \<Rightarrow> jsnum option \<Rightarrow> ('w, json list \<times> json option) io" where
  "get_notification_history show_num http name cursor =
     io_bind (call_json http
         (agent_path name (''/history?'' @ query_string (cursor_query show_num cursor @ [(''channel'', ''notifications'')])))
         (bare_init ''GET''))
       (\<lambda>response. io_bind (io_check (get_prop ''events'' response))
         (\<lambda>events. io_bind (io_check (case as_arr events of None \<Rightarrow> Inl TypeFailed | Some es \<Rightarrow> notification_events es))
           (\<lambda>notifications. io_bind (io_check (get_prop ''cursor'' response))
             (\<lambda>cursor. io_return (rev notifications, cursor)))))"

subsection \<open>Files (api/files.ts)\<close>

definition tree_entry :: "json \<Rightarrow> json" where
  "tree_entry path = JObj [(''path'', path), (''is_dir'', JBool False), (''mode'', JNum 420)]"

definition tree_entries :: "json \<Rightarrow> api_error + json" where
  "tree_entries response =
     (if response = JNull then Inl TypeFailed
      else let get = (\<lambda>k. Option.bind (as_record (Some response)) (\<lambda>p. field p k))
           in if \<not> is_nullish (get ''entries'') then Inr (the (get ''entries''))
              else (case as_arr (get ''tree'') of
                      None \<Rightarrow> Inl TypeFailed
                    | Some paths \<Rightarrow> Inr (JArr (map tree_entry paths))))"

definition fetch_file_tree :: "'w http_client \<Rightarrow> string \<Rightarrow> ('w, json) io" where
  "fetch_file_tree http name =
     io_bind (call_json http (agent_path name ''/tree'') (bare_init ''GET'')) (\<lambda>v. io_check (tree_entries v))"

definition read_file :: "'w http_client \<Rightarrow> string \<Rightarrow> string \<Rightarrow> ('w, json) io" where
  "read_file http name path =
     call_json http (agent_path name (''/file?'' @ query_string [(''path'', path)])) (bare_init ''GET'')"

definition write_file :: "'w http_client \<Rightarrow> string \<Rightarrow> string \<Rightarrow> string \<Rightarrow> ('w, unit) io" where
  "write_file http name path content =
     call_unit http (agent_path name ''/file'')
       (json_init ''PUT'' (JObj [(''path'', JStr path), (''content'', JStr content)]))"

subsection \<open>Devices (api/devices.ts)\<close>

definition json_of_context :: "device_context \<Rightarrow> json" where
  "json_of_context c = JObj (opt_field ''timezone'' (map_option JStr (dc_timezone c)) @
     opt_field ''position'' (map_option json_of_position (dc_position c)))"

definition report_device_context_http :: "'w http_client \<Rightarrow> string \<Rightarrow> device_context \<Rightarrow> ('w, unit) io" where
  "report_device_context_http http device_id context =
     call_unit http (''/devices/'' @ encode_uri_component device_id @ ''/context'')
       (json_init ''PUT'' (json_of_context context))"

datatype mobile_platform = IOS | Android

record device_registration =
  dg_installation_id :: string
  dg_token :: string
  dg_platform :: mobile_platform
  dg_gateway :: string
  dg_event_types :: "string list"
  dg_previews :: bool

definition register_mobile_device :: "'w http_client \<Rightarrow> device_registration \<Rightarrow> ('w, unit) io" where
  "register_mobile_device http input =
     call_unit http ''/mobile/devices''
       (json_init ''PUT'' (JObj
          [(''installation_id'', JStr (dg_installation_id input)), (''token'', JStr (dg_token input)),
           (''platform'', JStr (case dg_platform input of IOS \<Rightarrow> ''ios'' | Android \<Rightarrow> ''android'')),
           (''gateway'', JStr (dg_gateway input)), (''event_types'', JArr (map JStr (dg_event_types input))),
           (''previews'', JBool (dg_previews input))]))"

definition unregister_mobile_device :: "'w http_client \<Rightarrow> string \<Rightarrow> ('w, unit) io" where
  "unregister_mobile_device http token =
     call_unit http ''/mobile/devices'' (json_init ''DELETE'' (JObj [(''token'', JStr token)]))"

subsection \<open>Interrupt rules and host folders (api/config-rules.ts, api/mounts.ts)\<close>

text \<open>A rule is the JSON object the app holds; \<open>?? []\<close> stands for a ruleset that is not there.\<close>

definition get_notification_interrupt_rules :: "'w http_client \<Rightarrow> string \<Rightarrow> ('w, json) io" where
  "get_notification_interrupt_rules http name =
     io_bind (json_prop http (agent_path name ''/config'') (bare_init ''GET'') ''notification_rules'')
       (\<lambda>rules. io_return (if is_nullish rules then JArr [] else the rules))"

definition set_notification_interrupt_rules :: "'w http_client \<Rightarrow> string \<Rightarrow> json list \<Rightarrow> ('w, json list) io" where
  "set_notification_interrupt_rules http name rules =
     io_bind (call http (agent_path name ''/config'') (json_init ''PUT'' (JObj [(''notification_rules'', JArr rules)])))
       (\<lambda>_. io_return rules)"

record host_mount =
  hm_host_path :: string
  hm_container_path :: string
  hm_writable :: bool

definition json_of_mount :: "host_mount \<Rightarrow> json" where
  "json_of_mount m = JObj [(''host_path'', JStr (hm_host_path m)), (''container_path'', JStr (hm_container_path m)),
     (''writable'', JBool (hm_writable m))]"

definition get_agent_mounts :: "'w http_client \<Rightarrow> string \<Rightarrow> ('w, json option) io" where
  "get_agent_mounts http name = json_prop http (agent_path name ''/mounts'') (bare_init ''GET'') ''mounts''"

definition set_agent_mounts :: "'w http_client \<Rightarrow> string \<Rightarrow> host_mount list \<Rightarrow> ('w, json option \<times> json option) io" where
  "set_agent_mounts http name mounts =
     io_bind (call_json http (agent_path name ''/mounts'')
         (json_init ''PUT'' (JObj [(''mounts'', JArr (map json_of_mount mounts))])))
       (\<lambda>response. io_bind (io_check (get_prop ''mounts'' response))
         (\<lambda>granted. io_bind (io_check (get_prop ''restart_required'' response))
           (\<lambda>restart. io_return (granted, restart))))"

definition get_host_folder_suggestions :: "'w http_client \<Rightarrow> ('w, json option) io" where
  "get_host_folder_suggestions http = json_prop http ''/host/folders'' (bare_init ''GET'') ''folders''"

subsection \<open>Logs (api/logs.ts)\<close>

definition agent_logs_path :: "(jsnum \<Rightarrow> string) \<Rightarrow> string \<Rightarrow> jsnum option \<Rightarrow> string" where
  "agent_logs_path show_num name tail =
     agent_path name (''/logs'' @ (case tail of None \<Rightarrow> [] | Some n \<Rightarrow> ''?tail='' @ show_num n))"

definition gateway_logs_path :: "bool \<Rightarrow> string" where
  "gateway_logs_path follow = (if follow then ''/gateway/logs?follow=true'' else ''/gateway/logs'')"

subsection \<open>Routes keep apart\<close>

definition route_suffix :: "string \<Rightarrow> bool" where
  "route_suffix s \<longleftrightarrow> s = [] \<or> hd s = CHR ''/''"

lemma cut_at_slash:
  assumes "x @ s = y @ t" "CHR ''/'' \<notin> set x" "CHR ''/'' \<notin> set y" "route_suffix s" "route_suffix t"
  shows "x = y \<and> s = t"
proof -
  have "takeWhile (\<lambda>c. c \<noteq> CHR ''/'') (z @ r) = z" if "CHR ''/'' \<notin> set z" "route_suffix r" for z r
    proof -
    have "takeWhile (\<lambda>c. c \<noteq> CHR ''/'') (z @ r) = z @ takeWhile (\<lambda>c. c \<noteq> CHR ''/'') r"
      using that(1) by (intro takeWhile_append2) auto
    then show ?thesis using that(2) by (cases r) (auto simp: route_suffix_def)
  qed
  from this [OF assms(2,4)] this [OF assms(3,5)] have "x = y" using assms(1) by simp
  with assms(1) show ?thesis by simp
qed

text \<open>A route under an agent names that agent and no other: whatever text the two names hold, two
  agent routes are the same text only when the names and the suffixes are.\<close>

theorem agent_routes_keep_apart:
  assumes "agent_path name suffix = agent_path name' suffix'" "route_suffix suffix" "route_suffix suffix'"
  shows "name = name' \<and> suffix = suffix'"
  using cut_at_slash [of "encode_uri_component name" suffix "encode_uri_component name'" suffix'] assms
  by (simp add: agent_path_def)

lemma agent_routes_keep_apart_witness:
  "agent_path ''a/stop'' ''/start'' \<noteq> agent_path ''a'' ''/stop/start''"
proof
  assume "agent_path ''a/stop'' ''/start'' = agent_path ''a'' ''/stop/start''"
  from agent_routes_keep_apart [OF this] show False by (simp add: route_suffix_def)
qed

subsection \<open>Requests in sequence\<close>

text \<open>A client with every request and whether it was accepted recorded, and its clock.\<close>

type_synonym request_log = "(string \<times> http_init \<times> bool) list"

definition recorded :: "'w http_client \<Rightarrow> ('w \<times> request_log) http_client" where
  "recorded http path init s =
     (let (r, w) = http path init (fst s) in (r, w, snd s @ [(path, init, \<exists>x. r = Inr x)]))"

definition recorded_clock :: "'w clock \<Rightarrow> ('w \<times> request_log) clock" where
  "recorded_clock clock =
     \<lparr>cl_now = (\<lambda>s. cl_now clock (fst s)), cl_sleep = (\<lambda>t s. (cl_sleep clock t (fst s), snd s))\<rparr>"

fun run_plan :: "'w http_client \<Rightarrow> (string \<times> http_init) list \<Rightarrow> ('w, unit) io" where
  "run_plan http [] = io_return ()"
| "run_plan http ((path, init) # rest) = io_bind (call http path init) (\<lambda>_. run_plan http rest)"

definition requests_of :: "request_log \<Rightarrow> (string \<times> http_init) list" where
  "requests_of sent = map (\<lambda>(path, init, ok). (path, init)) sent"

definition all_accepted :: "request_log \<Rightarrow> bool" where
  "all_accepted sent \<longleftrightarrow> list_all (\<lambda>(path, init, ok). ok) sent"

lemma call_recorded:
  "call (recorded http) path init (w, sent) =
     (case http path init w of
        (Inl e, v) \<Rightarrow> (Inl (HttpFailed e), v, sent @ [(path, init, False)])
      | (Inr x, v) \<Rightarrow> (Inr x, v, sent @ [(path, init, True)]))"
  by (auto simp: call_def recorded_def split: sum.splits prod.splits)

lemma run_plan_log:
  assumes "run_plan (recorded http) plan (w, sent) = (r, w', sent')"
  shows "\<exists>made. sent' = sent @ made \<and> requests_of made = take (length made) plan \<and> all_accepted (butlast made) \<and>
    (r = Inr () \<longrightarrow> requests_of made = plan \<and> all_accepted made) \<and>
    (r \<noteq> Inr () \<longrightarrow> made \<noteq> [] \<and> \<not> all_accepted made)"
  using assms
proof (induction plan arbitrary: w sent)
  case Nil
  then show ?case by (simp add: io_return_def requests_of_def all_accepted_def)
next
  case (Cons q plan)
  obtain path init where q: "q = (path, init)" by (cases q)
  obtain x v where x: "http path init w = (x, v)" by fastforce
  show ?case
  proof (cases x)
    case (Inl e)
    with Cons.prems x q have "r = Inl (HttpFailed e)" "sent' = sent @ [(path, init, False)]"
      by (auto simp: io_bind_def call_recorded)
    then show ?thesis using q by (simp add: requests_of_def all_accepted_def)
  next
    case (Inr resp)
    with Cons.prems x q have "run_plan (recorded http) plan (v, sent @ [(path, init, True)]) = (r, w', sent')"
      by (simp add: io_bind_def call_recorded)
    from Cons.IH [OF this] obtain later where
      "sent' = (sent @ [(path, init, True)]) @ later" "requests_of later = take (length later) plan"
      "all_accepted (butlast later)" "r = Inr () \<longrightarrow> requests_of later = plan \<and> all_accepted later"
      "r \<noteq> Inr () \<longrightarrow> later \<noteq> [] \<and> \<not> all_accepted later" by blast
    with q show ?thesis
      by (intro exI [of _ "(path, init, True) # later"])
        (auto simp: requests_of_def all_accepted_def)
  qed
qed

definition provision_plan ::
  "string \<Rightarrow> provider_selection \<Rightarrow> string option \<Rightarrow> string option \<Rightarrow> (string \<times> http_init) list" where
  "provision_plan name selection personality timezone =
     (let prefs = provision_prefs personality timezone
      in [(agent_path name ''/provider'', json_init ''PUT'' (provider_put_body selection))] @
         (if prefs \<noteq> [] then [(agent_path name ''/config'', json_init ''PUT'' (JObj prefs))] else []) @
         [(agent_path name ''/restart'', restart_init (Some ProviderReason))])"

lemma io_bind_return [simp]: "io_bind (io_return x) f = f x" "io_bind m io_return = m"
  by (auto simp: io_bind_def io_return_def fun_eq_iff split: prod.splits sum.splits)

lemma io_bind_assoc [simp]: "io_bind (io_bind m f) g = io_bind m (\<lambda>x. io_bind (f x) g)"
  by (auto simp: io_bind_def fun_eq_iff split: prod.splits sum.splits)

lemma provision_is_plan:
  "provision_agent http name selection personality timezone = run_plan http (provision_plan name selection personality timezone)"
  by (simp add: provision_agent_def provision_plan_def Let_def call_unit_def restart_agent_def)

text \<open>Provisioning sends its requests one behind the other, the next only once the last was accepted:
  the provider, the preferences where there are any, the restart.  It returns exactly when all of them
  were accepted, so an agent is restarted into its provider only behind every write.\<close>

theorem provisioning_restarts_last:
  assumes "provision_agent (recorded http) name selection personality timezone (w, []) = (r, w', sent)"
  shows "requests_of sent = take (length sent) (provision_plan name selection personality timezone) \<and>
    all_accepted (butlast sent) \<and>
    (r = Inr () \<longleftrightarrow> all_accepted sent) \<and>
    (r = Inr () \<longrightarrow> requests_of sent = provision_plan name selection personality timezone)"
proof -
  let ?plan = "provision_plan name selection personality timezone"
  from run_plan_log [OF assms [unfolded provision_is_plan]]
  obtain made where "sent = made" "requests_of made = take (length made) ?plan" "all_accepted (butlast made)"
    "r = Inr () \<longrightarrow> requests_of made = ?plan \<and> all_accepted made" "r \<noteq> Inr () \<longrightarrow> made \<noteq> [] \<and> \<not> all_accepted made"
    unfolding append_Nil by blast
  then show ?thesis by blast
qed

text \<open>A gateway that accepts everything, and one that refuses a restart: the world counts the requests.\<close>

definition accepting :: "nat http_client" where
  "accepting path init n = (Inr \<lparr>re_status = 200, re_body = [], re_json = None\<rparr>, Suc n)"

definition third_refused :: "nat http_client" where
  "third_refused path init n = (if n = 2 then Inl (ApiError 409 ''busy'') else Inr \<lparr>re_status = 200, re_body = [], re_json = None\<rparr>, Suc n)"

lemma provisioning_restarts_last_witness:
  "length (provision_plan ''a'' (OpenAISelection ''c'' ''m'' None) (Some ''p'') None) = 3 \<and>
   (let (r, w, sent) = provision_agent (recorded third_refused) ''a'' (OpenAISelection ''c'' ''m'' None) (Some ''p'') None (0, [])
    in r = Inl (HttpFailed (ApiError 409 ''busy'')) \<and> length sent = 3 \<and> all_accepted (butlast sent) \<and>
       requests_of sent = provision_plan ''a'' (OpenAISelection ''c'' ''m'' None) (Some ''p'') None)"
proof -
  let ?sel = "OpenAISelection ''c'' ''m'' None"
  have l: "length (provision_plan ''a'' ?sel (Some ''p'') None) = 3"
    by (simp add: provision_plan_def provision_prefs_def)
  obtain r w sent where e: "provision_agent (recorded third_refused) ''a'' ?sel (Some ''p'') None (0, []) = (r, w, sent)"
    by (metis prod_cases3)
  then have "r = Inl (HttpFailed (ApiError 409 ''busy''))" "length sent = 3"
    by (auto simp: provision_agent_def provision_prefs_def io_bind_def call_def call_unit_def recorded_def third_refused_def
        restart_agent_def io_return_def Let_def)
  with provisioning_restarts_last [OF e] e l show ?thesis by simp
qed

subsection \<open>The polls end\<close>

definition clock_moves :: "'w http_client \<Rightarrow> 'w clock \<Rightarrow> bool" where
  "clock_moves http clock \<longleftrightarrow>
     (\<forall>path init w. cl_now clock w \<le> cl_now clock (snd (http path init w))) \<and>
     (\<forall>t w. cl_now clock w + t \<le> cl_now clock (cl_sleep clock t w))"

lemma fetch_status_recorded:
  assumes "fetch_agent_status (recorded http) name (w, sent) = (r, w', sent')"
  shows "w' = snd (http (agent_path name []) (bare_init ''GET'') w) \<and>
    (\<exists>ok. sent' = sent @ [(agent_path name [], bare_init ''GET'', ok)])"
  using assms
  by (auto simp: fetch_agent_status_def call_json_def call_def io_bind_def io_check_def recorded_def
      split: sum.splits prod.splits)

lemma fetch_status_answer:
  assumes "fetch_agent_status (recorded http) name (w, sent) = (r, w', sent')"
  shows "fst (fetch_agent_status http name w) = r"
  using assms
  by (auto simp: fetch_agent_status_def call_json_def call_def io_bind_def io_check_def recorded_def
      split: sum.splits prod.splits)

lemma fetch_failure:
  assumes "fetch_agent_status (recorded http) name (w, sent) = (Inl e, w', sent')"
  shows "e \<noteq> TimedOut text'"
  using assms
  by (auto simp: fetch_agent_status_def call_json_def call_def io_bind_def io_check_def recorded_def status_of_def Let_def
      split: sum.splits prod.splits option.splits if_splits)

lemma poll_ends:
  assumes "clock_moves http clock" "interval > 0" "deadline \<le> cl_now clock w + of_nat n * interval"
  shows "\<exists>r w' sent'. poll_status (recorded http) (recorded_clock clock) name deadline interval wait (w, sent) = Some (r, w', sent') \<and>
    length sent' \<le> length sent + n \<and>
    (r = Inr () \<longrightarrow> (\<exists>v response. fst (fetch_agent_status http name v) = Inr response \<and> sw_ready wait response)) \<and>
    (r = Inl (TimedOut (name @ '': '' @ sw_label wait)) \<longrightarrow> deadline \<le> cl_now clock w')"
  using assms(3)
proof (induction n arbitrary: w sent)
  case 0
  then show ?case by (subst poll_status.simps) (simp add: recorded_clock_def)
next
  case (Suc n)
  show ?case
  proof (cases "cl_now clock w < deadline")
    case False
    then show ?thesis by (subst poll_status.simps) (simp add: recorded_clock_def)
  next
    case True
    obtain x v s where x: "fetch_agent_status (recorded http) name (w, sent) = (x, v, s)" by (metis prod_cases3)
    then have v: "v = snd (http (agent_path name []) (bare_init ''GET'') w)" and s: "length s = Suc (length sent)"
      using fetch_status_recorded by fastforce+
    show ?thesis
    proof (cases x)
      case (Inl e)
      then show ?thesis
        using True x s fetch_failure [OF x [unfolded Inl]]
        by (subst poll_status.simps) (simp add: recorded_clock_def)
    next
      case (Inr response)
      consider "sw_ready wait response" | "\<not> sw_ready wait response" "sw_failed wait response"
        | "\<not> sw_ready wait response" "\<not> sw_failed wait response" by blast
      then show ?thesis
      proof cases
        case 1
        then show ?thesis
          using True x s Inr fetch_status_answer [OF x]
          by (subst poll_status.simps) (auto simp: recorded_clock_def)
      next
        case 2
        then show ?thesis
          using True x s Inr
          by (subst poll_status.simps) (simp add: recorded_clock_def status_failure_def split: option.split)
      next
        case 3
        let ?u = "cl_sleep clock interval v"
        have "cl_now clock w \<le> cl_now clock v" using assms(1) v by (simp add: clock_moves_def)
        moreover have "cl_now clock v + interval \<le> cl_now clock ?u" using assms(1) by (simp add: clock_moves_def)
        ultimately have "deadline \<le> cl_now clock ?u + of_nat n * interval"
          using Suc.prems by (simp add: algebra_simps)
        from Suc.IH [OF this, of s] 3 True x Inr s show ?thesis
          by (subst poll_status.simps) (fastforce simp: recorded_clock_def)
      qed
    qed
  qed
qed

text \<open>C39: Waiting for an agent to become ready ends, whatever its status answers: with a clock that moves
  and a timer that takes its time, it asks at most once an interval until the timeout, it succeeds only
  on an answer that says the agent is alive and no longer booting, and it times out only when the time
  is over.\<close>

theorem waiting_for_ready_ends:
  assumes "clock_moves http clock" "0 < interval" "timeout_ms \<le> of_nat n * interval"
  shows "\<exists>r w' sent.
    wait_until_ready (recorded http) (recorded_clock clock) name timeout_ms (Some interval) (w, []) = Some (r, w', sent) \<and>
    length sent \<le> n \<and>
    (r = Inr () \<longrightarrow> (\<exists>v response. fst (fetch_agent_status http name v) = Inr response \<and>
       st_status response = Some Alive \<and> st_booting response = Some False)) \<and>
    (r = Inl (TimedOut (name @ '': timed out waiting to become ready'')) \<longrightarrow> cl_now clock w + timeout_ms \<le> cl_now clock w')"
proof -
  have now: "cl_now (recorded_clock clock) (w, []) = cl_now clock w" by (simp add: recorded_clock_def)
  have "cl_now clock w + timeout_ms \<le> cl_now clock w + of_nat n * interval" using assms(3) by simp
  from poll_ends [OF assms(1,2) this, of name ready_wait "[]"] show ?thesis
    unfolding wait_until_ready_def wait_for_status_def now
    by (auto simp: ready_wait_def known_def split: option.splits)
qed

text \<open>A gateway whose agent is ready, over a clock that counts milliseconds.\<close>

definition ready_gateway :: "nat http_client" where
  "ready_gateway path init n =
     (Inr \<lparr>re_status = 200, re_body = [],
           re_json = Some (JObj [(''status'', JStr ''alive''), (''booting'', JBool False)])\<rparr>, Suc n)"

definition tick :: "nat clock" where
  "tick = \<lparr>cl_now = of_nat, cl_sleep = (\<lambda>t n. n + nat \<lceil>t\<rceil>)\<rparr>"

lemma tick_moves: "clock_moves ready_gateway tick"
proof -
  have "(of_nat n :: jsnum) + t \<le> of_nat (n + nat \<lceil>t\<rceil>)" for n t
    by (cases "0 \<le> t") (auto simp: of_nat_nat intro: order_trans [OF _ le_of_int_ceiling])
  then show ?thesis by (simp add: clock_moves_def tick_def ready_gateway_def)
qed

lemma waiting_for_ready_ends_witness:
  "\<exists>r w' sent. wait_until_ready (recorded ready_gateway) (recorded_clock tick) ''a'' 10 (Some 5) (0, []) = Some (r, w', sent) \<and>
     length sent \<le> 2"
  using waiting_for_ready_ends [OF tick_moves, of 5 10 2 "''a''" 0] by auto

subsection \<open>A file's path\<close>

lemma read_file_path:
  "read_file http name path = call_json http (agent_path name (''/file?path='' @ form_encode path)) (bare_init ''GET'')"
proof -
  have "query_string [(''path'', path)] = ''path='' @ form_encode path"
    by (simp add: query_string_def form_encode_def percent_encode_def form_safe_def is_alnum_def)
  then show ?thesis by (simp add: read_file_def)
qed

text \<open>The file a gateway reads out of the request is the path the app asked for, and no other path is
  asked for by the same request.\<close>

theorem file_asked_for_is_the_path:
  "\<exists>query. read_file http name path = call_json http (agent_path name (''/file?path='' @ query)) (bare_init ''GET'') \<and>
     form_decode query = path"
  using read_file_path form_roundtrip by blast

end
