(* ===== verification/Attachments.thy ===== *)
theory Attachments
  imports ParseChat
begin

section \<open>Attachments and their drafts (attachments/attachment-model.ts, attachment-draft.ts)\<close>

text \<open>
  The constants of the upload protocol, the kind and size formatting, and the composer's draft
  list as pure data.  Sizes are byte counts (\<open>nat\<close>); a progress is an exact rational between
  0 and 1.
\<close>

subsection \<open>The model\<close>

definition max_attachment_bytes :: nat where "max_attachment_bytes = 512 * 1024 * 1024"
definition max_attachments_per_message :: nat where "max_attachments_per_message = 10"
definition max_chunk_upload_bytes :: nat where "max_chunk_upload_bytes = 8 * 1024 * 1024"
definition initial_chunk_bytes :: nat where "initial_chunk_bytes = 1024 * 1024"
definition min_chunk_bytes :: nat where "min_chunk_bytes = 256 * 1024"
definition chunk_fast_ms :: nat where "chunk_fast_ms = 2000"
definition chunk_timeout_ms :: nat where "chunk_timeout_ms = 120000"
definition retry_base_ms :: nat where "retry_base_ms = 1000"
definition retry_max_ms :: nat where "retry_max_ms = 30000"

datatype attachment_kind = KindImage | KindVideo | KindAudio | KindFile

definition attachment_kind :: "string \<Rightarrow> attachment_kind" where
  "attachment_kind mime =
     (if starts_with ''image/'' mime then KindImage
      else if starts_with ''video/'' mime then KindVideo
      else if starts_with ''audio/'' mime then KindAudio
      else KindFile)"

fun format_units :: "nat \<Rightarrow> rat \<Rightarrow> string list \<Rightarrow> string" where
  "format_units n val [] = show_nat n @ '' B''"
| "format_units n val (u # us) =
     (let val = val / 1024
      in if val < 1024 \<or> u = ''GB'' then to_fixed 1 val @ '' '' @ u else format_units n val us)"

definition format_bytes :: "nat \<Rightarrow> string" where
  "format_bytes n =
     (if n < 1024 then show_nat n @ '' B'' else format_units n (of_nat n) [''kB'', ''MB'', ''GB''])"

definition app_chat_attachment_path :: "(string \<Rightarrow> string) \<Rightarrow> string \<Rightarrow> string \<Rightarrow> bool \<Rightarrow> string" where
  "app_chat_attachment_path encode_uri agent ident download =
     (let base = ''/agents/'' @ encode_uri agent @ ''/app-chat/attachments/'' @ encode_uri ident
      in if download then base @ ''?download=1'' else base)"

subsection \<open>The drafts\<close>

datatype upload_error_reason = TooLarge | UnsupportedAgent | UploadFailed | UploadAborted

datatype draft_status = DraftUploading | DraftWaiting | DraftUploaded | DraftError

record draft_attachment =
  da_local_id :: string
  da_name :: string
  da_mime :: string
  da_size :: nat
  da_status :: draft_status
  da_progress :: rat
  da_attachment :: "chat_attachment option"
  da_error :: "upload_error_reason option"

record draft_file =
  df_name :: string
  df_mime :: string
  df_size :: nat

type_synonym drafts = "draft_attachment list"

definition add_draft :: "drafts \<Rightarrow> draft_file \<Rightarrow> string \<Rightarrow> drafts option" where
  "add_draft drafts file local_id =
     (if length drafts \<ge> max_attachments_per_message then None
      else Some (drafts @
        [\<lparr>da_local_id = local_id, da_name = df_name file, da_mime = df_mime file, da_size = df_size file,
          da_status = DraftUploading, da_progress = 0, da_attachment = None, da_error = None\<rparr>]))"

definition update_draft :: "drafts \<Rightarrow> string \<Rightarrow> (draft_attachment \<Rightarrow> draft_attachment) \<Rightarrow> drafts" where
  "update_draft drafts local_id change =
     map (\<lambda>draft. if da_local_id draft = local_id then change draft else draft) drafts"

definition draft_fraction :: "nat \<Rightarrow> nat \<Rightarrow> rat" where
  "draft_fraction sent n = (if n > 0 then min (of_nat sent / of_nat n) 1 else 1)"

definition set_draft_progress :: "drafts \<Rightarrow> string \<Rightarrow> nat \<Rightarrow> nat \<Rightarrow> drafts" where
  "set_draft_progress drafts local_id sent n =
     update_draft drafts local_id
       (\<lambda>draft. draft\<lparr>da_status := DraftUploading, da_progress := draft_fraction sent n\<rparr>)"

definition set_draft_waiting :: "drafts \<Rightarrow> string \<Rightarrow> drafts" where
  "set_draft_waiting drafts local_id = update_draft drafts local_id (\<lambda>draft. draft\<lparr>da_status := DraftWaiting\<rparr>)"

definition finalize_draft :: "drafts \<Rightarrow> string \<Rightarrow> chat_attachment \<Rightarrow> drafts" where
  "finalize_draft drafts local_id attachment =
     update_draft drafts local_id
       (\<lambda>draft. draft\<lparr>da_status := DraftUploaded, da_progress := 1, da_attachment := Some attachment\<rparr>)"

definition fail_draft :: "drafts \<Rightarrow> string \<Rightarrow> upload_error_reason \<Rightarrow> drafts" where
  "fail_draft drafts local_id err =
     update_draft drafts local_id (\<lambda>draft. draft\<lparr>da_status := DraftError, da_error := Some err\<rparr>)"

definition remove_draft :: "drafts \<Rightarrow> string \<Rightarrow> drafts" where
  "remove_draft drafts local_id = filter (\<lambda>draft. da_local_id draft \<noteq> local_id) drafts"

definition drafts_ready :: "drafts \<Rightarrow> bool" where
  "drafts_ready drafts \<longleftrightarrow> length drafts > 0 \<and> list_all (\<lambda>draft. da_status draft = DraftUploaded) drafts"

definition uploaded_ids :: "drafts \<Rightarrow> string list" where
  "uploaded_ids drafts =
     concat (map (\<lambda>draft. case da_attachment draft of Some a \<Rightarrow> [at_id a] | None \<Rightarrow> []) drafts)"

definition uploaded_attachments :: "drafts \<Rightarrow> chat_attachment list" where
  "uploaded_attachments drafts =
     concat (map (\<lambda>draft. case da_attachment draft of Some a \<Rightarrow> [a] | None \<Rightarrow> []) drafts)"

definition draft_total_bytes :: "drafts \<Rightarrow> nat" where
  "draft_total_bytes drafts = foldl (\<lambda>n draft. n + da_size draft) 0 drafts"

subsection \<open>The invariant of a draft list\<close>

definition draft_ok :: "draft_attachment \<Rightarrow> bool" where
  "draft_ok d \<longleftrightarrow> 0 \<le> da_progress d \<and> da_progress d \<le> 1 \<and>
     (da_status d = DraftUploaded \<longrightarrow> da_progress d = 1 \<and> da_attachment d \<noteq> None)"

definition drafts_ok :: "drafts \<Rightarrow> bool" where
  "drafts_ok drafts \<longleftrightarrow> list_all draft_ok drafts \<and> distinct (map da_local_id drafts) \<and>
     length drafts \<le> max_attachments_per_message"

lemma draft_fraction_range [simp]: "0 \<le> draft_fraction sent n" "draft_fraction sent n \<le> 1"
  by (simp_all add: draft_fraction_def)

lemma update_draft_ids [simp]:
  "(\<And>d. da_local_id (change d) = da_local_id d) \<Longrightarrow> map da_local_id (update_draft drafts i change) = map da_local_id drafts"
  by (induction drafts) (auto simp: update_draft_def)

lemma drafts_ok_update:
  assumes "drafts_ok drafts" "\<And>d. draft_ok d \<Longrightarrow> draft_ok (change d)"
    "\<And>d. da_local_id (change d) = da_local_id d"
  shows "drafts_ok (update_draft drafts i change)"
proof -
  have "list_all draft_ok (update_draft drafts i change)"
    using assms(1,2) by (auto simp: drafts_ok_def update_draft_def list_all_iff)
  moreover have "length (update_draft drafts i change) = length drafts" by (simp add: update_draft_def)
  ultimately show ?thesis using assms(1,3) by (simp add: drafts_ok_def)
qed

lemma drafts_ok_Nil [simp, wf_intros]: "drafts_ok []"
  by (simp add: drafts_ok_def)

lemma drafts_ok_add:
  "drafts_ok drafts \<Longrightarrow> i \<notin> set (map da_local_id drafts) \<Longrightarrow> add_draft drafts file i = Some ds \<Longrightarrow> drafts_ok ds"
  by (auto simp: drafts_ok_def add_draft_def draft_ok_def split: if_splits)

lemma drafts_ok_progress [wf_intros]: "drafts_ok drafts \<Longrightarrow> drafts_ok (set_draft_progress drafts i sent n)"
  unfolding set_draft_progress_def by (erule drafts_ok_update) (simp_all add: draft_ok_def)

lemma drafts_ok_waiting [wf_intros]: "drafts_ok drafts \<Longrightarrow> drafts_ok (set_draft_waiting drafts i)"
  unfolding set_draft_waiting_def by (erule drafts_ok_update) (simp_all add: draft_ok_def)

lemma drafts_ok_finalize [wf_intros]: "drafts_ok drafts \<Longrightarrow> drafts_ok (finalize_draft drafts i a)"
  unfolding finalize_draft_def by (erule drafts_ok_update) (simp_all add: draft_ok_def)

lemma drafts_ok_fail [wf_intros]: "drafts_ok drafts \<Longrightarrow> drafts_ok (fail_draft drafts i e)"
  unfolding fail_draft_def by (erule drafts_ok_update) (simp_all add: draft_ok_def)

lemma drafts_ok_remove [wf_intros]: "drafts_ok drafts \<Longrightarrow> drafts_ok (remove_draft drafts i)"
  by (auto simp: drafts_ok_def remove_draft_def list_all_iff distinct_map_filter_keep
      intro: le_trans [OF length_filter_le])

lemma update_draft_id_set:
  "(\<And>d. da_local_id (change d) = da_local_id d) \<Longrightarrow> da_local_id ` set (update_draft drafts i change) = da_local_id ` set drafts"
  by (metis (no_types, lifting) update_draft_ids set_map)

lemma draft_ids_kept [simp]:
  "da_local_id ` set (set_draft_progress drafts i sent n) = da_local_id ` set drafts"
  "da_local_id ` set (set_draft_waiting drafts i) = da_local_id ` set drafts"
  "da_local_id ` set (finalize_draft drafts i a) = da_local_id ` set drafts"
  "da_local_id ` set (fail_draft drafts i e) = da_local_id ` set drafts"
  by (simp_all add: set_draft_progress_def set_draft_waiting_def finalize_draft_def fail_draft_def
      update_draft_id_set)

lemma remove_draft_ids [simp]: "da_local_id ` set (remove_draft drafts i) = da_local_id ` set drafts - {i}"
  by (auto simp: remove_draft_def)

lemma ready_attachments:
  "drafts_ok drafts \<Longrightarrow> drafts_ready drafts \<Longrightarrow>
     map Some (uploaded_attachments drafts) = map da_attachment drafts"
proof -
  assume "drafts_ok drafts" "drafts_ready drafts"
  then have "\<forall>d \<in> set drafts. da_attachment d \<noteq> None"
    by (auto simp: drafts_ok_def drafts_ready_def list_all_iff draft_ok_def)
  then show ?thesis by (induction drafts) (auto simp: uploaded_attachments_def)
qed

lemma uploaded_ids_map: "uploaded_ids drafts = map at_id (uploaded_attachments drafts)"
  by (induction drafts) (auto simp: uploaded_ids_def uploaded_attachments_def split: option.split)

text \<open>The formatted limit, as the refusal shows it, and a value just under a unit.\<close>

lemma format_limit: "format_bytes max_attachment_bytes = ''512.0 MB''"
proof -
  have "\<lfloor>10241 / 2 :: rat\<rfloor> = 5120" by (rule floor_unique) simp_all
  then show ?thesis
    by (simp add: format_bytes_def max_attachment_bytes_def to_fixed_def fixed_digits_def pad_zeros_def show_nat.simps char_of_def bit_0)
qed

lemma format_just_under: "format_bytes 1048575 = ''1024.0 kB''"
proof -
  have "\<lfloor>5243131 / 512 :: rat\<rfloor> = 10240" by (rule floor_unique) simp_all
  then show ?thesis by (simp add: format_bytes_def to_fixed_def fixed_digits_def pad_zeros_def show_nat.simps char_of_def bit_0)
qed

end
