(* ===== verification/Backups.thy ===== *)
theory Backups
  imports ReleaseVersion
begin

section \<open>The backup timeline (backups/backup-timeline.ts)\<close>

text \<open>
  The snapshots of an agent as both apps list them, with the gateway's own version gate
  (vestad/src/update.rs) beside the client's eligibility.  \<open>Date.UTC\<close> is written out from ECMAScript
  (a year below 100 means 19xx, months and days carry over); the two \<open>Intl.DateTimeFormat\<close> texts
  are parameters.  The lemmas show that the order of the compact stamps is the order of time, that the
  timeline is the stable newest-first order of its rows, and that the client offers a restore exactly
  where the gateway would take it.
\<close>

subsection \<open>Stamps\<close>

definition leap :: "int \<Rightarrow> bool" where
  "leap y \<longleftrightarrow> y mod 4 = 0 \<and> (y mod 100 \<noteq> 0 \<or> y mod 400 = 0)"

definition day_from_year :: "int \<Rightarrow> int" where
  "day_from_year y = 365 * (y - 1970) + (y - 1969) div 4 - (y - 1901) div 100 + (y - 1601) div 400"

text \<open>The first day of a month, by its index from 0.\<close>

definition month_start :: "int \<Rightarrow> nat \<Rightarrow> int" where
  "month_start y m =
     [0, 31, 59, 90, 120, 151, 181, 212, 243, 273, 304, 334] ! m + (if leap y \<and> 2 \<le> m then 1 else 0)"

definition date_utc :: "nat \<Rightarrow> int \<Rightarrow> nat \<Rightarrow> nat \<Rightarrow> nat \<Rightarrow> nat \<Rightarrow> int" where
  "date_utc year month day hour minute second =
     (let full = (if year \<le> 99 then 1900 + int year else int year); y = full + month div 12;
          days = day_from_year y + month_start y (nat (month mod 12)) + int day - 1
      in days * 86400000 + int hour * 3600000 + int minute * 60000 + int second * 1000)"

definition compact_stamp :: "string \<Rightarrow> bool" where
  "compact_stamp s \<longleftrightarrow> length s = 15 \<and> s ! 8 = CHR ''-'' \<and> list_all is_digit (take 8 s @ drop 9 s)"

definition parse_snapshot_stamp :: "string \<Rightarrow> int option" where
  "parse_snapshot_stamp created_at =
     (let s = trim created_at; part = (\<lambda>i n. digits_value (take n (drop i s)))
      in if \<not> compact_stamp s then None
         else Some (date_utc (part 0 4) (int (part 4 2) - 1) (part 6 2) (part 9 2) (part 11 2) (part 13 2)))"

definition format_snapshot_stamp :: "(int \<Rightarrow> string) \<Rightarrow> (int \<Rightarrow> string) \<Rightarrow> string \<Rightarrow> string" where
  "format_snapshot_stamp date_text time_text created_at =
     (case parse_snapshot_stamp created_at of
        None \<Rightarrow> created_at
      | Some ms \<Rightarrow> date_text ms @ [CHR '' '', CHR 0xB7, CHR '' ''] @ time_text ms)"

subsection \<open>Rows and points\<close>

datatype backup_kind = Periodic | Manual | PreUpdate | PreRestore | UnknownKind

definition parse_backup_kind :: "string \<Rightarrow> backup_kind" where
  "parse_backup_kind v =
     (if v = ''periodic'' then Periodic else if v = ''manual'' then Manual
      else if v = ''pre_update'' then PreUpdate else if v = ''pre_restore'' then PreRestore else UnknownKind)"

record backup_row =
  br_id :: string
  br_created_at :: string
  br_type :: backup_kind
  br_size :: jsnum
  br_from_version :: "string option"
  br_vestad_version :: "string option"

datatype restore_eligibility = RestoreOk | RestoreOlder | RestoreNewer

record backup_point =
  bp_id :: string
  bp_created_at :: string
  bp_kind :: backup_kind
  bp_label :: string
  bp_size :: jsnum
  bp_eligibility :: restore_eligibility
  bp_vestad_version :: "string option"

fun backup_label :: "backup_kind \<Rightarrow> string option \<Rightarrow> string" where
  "backup_label Periodic _ = ''Automatic''"
| "backup_label Manual _ = ''Manual''"
| "backup_label PreUpdate v =
     (if v = None \<or> v = Some [] then ''Before update'' else ''Before update '' @ the v)"
| "backup_label PreRestore _ = ''Safety''"
| "backup_label UnknownKind _ = ''Backup''"

definition restore_eligibility_of :: "string option \<Rightarrow> string option \<Rightarrow> restore_eligibility" where
  "restore_eligibility_of vestad_version gateway_version =
     (case (vestad_version, gateway_version) of
        (Some v, Some g) \<Rightarrow>
          (case compare_release_versions v g of
             None \<Rightarrow> RestoreOk
           | Some c \<Rightarrow> if c = 0 then RestoreOk else if 0 < c then RestoreNewer else RestoreOlder)
      | _ \<Rightarrow> RestoreOk)"

text \<open>The comparison of two strings by code units.\<close>

fun str_less :: "string \<Rightarrow> string \<Rightarrow> bool" where
  "str_less _ [] \<longleftrightarrow> False"
| "str_less [] (d # t) \<longleftrightarrow> True"
| "str_less (c # s) (d # t) \<longleftrightarrow>
     (of_char c :: nat) < of_char d \<or> c = d \<and> str_less s t"

definition newest_point_first :: "backup_point \<Rightarrow> backup_point \<Rightarrow> int" where
  "newest_point_first left right =
     (if bp_created_at left = bp_created_at right then 0
      else if str_less (bp_created_at left) (bp_created_at right) then 1 else - 1)"

definition timeline_point :: "string option \<Rightarrow> backup_row \<Rightarrow> backup_point" where
  "timeline_point gateway_version row =
     \<lparr>bp_id = br_id row, bp_created_at = br_created_at row, bp_kind = br_type row,
      bp_label = backup_label (br_type row) (br_from_version row), bp_size = br_size row,
      bp_eligibility = restore_eligibility_of (br_vestad_version row) gateway_version,
      bp_vestad_version = br_vestad_version row\<rparr>"

definition build_backup_timeline :: "backup_row list \<Rightarrow> string option \<Rightarrow> backup_point list" where
  "build_backup_timeline rows gateway_version = js_sort newest_point_first (map (timeline_point gateway_version) rows)"

subsection \<open>The gateway's gate (vestad/src/update.rs)\<close>

text \<open>\<open>str::parse::<u64>\<close>: an optional plus sign, then digits whose value fits.\<close>

definition parse_u64 :: "string \<Rightarrow> nat option" where
  "parse_u64 s =
     (let digits = (if starts_with ''+'' s then tl s else s)
      in if all_digits digits \<and> digits_value digits < 2 ^ 64 then Some (digits_value digits) else None)"

text \<open>The order of \<open>Vec<u64>\<close>.\<close>

fun vec_less :: "nat list \<Rightarrow> nat list \<Rightarrow> bool" where
  "vec_less _ [] \<longleftrightarrow> False"
| "vec_less [] (y # ys) \<longleftrightarrow> True"
| "vec_less (x # xs) (y # ys) \<longleftrightarrow> x < y \<or> x = y \<and> vec_less xs ys"

definition version_less_than :: "string \<Rightarrow> string \<Rightarrow> bool" where
  "version_less_than a b =
     (let parse = (\<lambda>v. List.map_filter parse_u64 (split_char (CHR ''.'') v)) in vec_less (parse a) (parse b))"

definition version_comparable :: "string \<Rightarrow> bool" where
  "version_comparable v \<longleftrightarrow> v \<noteq> [] \<and> list_all (\<lambda>part. parse_u64 part \<noteq> None) (split_char (CHR ''.'') v)"

datatype version_gate = Proceed | ConfirmOlder string string | RefuseNewer string string

definition version_gate_of :: "string option \<Rightarrow> string \<Rightarrow> version_gate" where
  "version_gate_of stamped current =
     (case stamped of
        None \<Rightarrow> Proceed
      | Some v \<Rightarrow>
          if \<not> version_comparable v \<or> \<not> version_comparable current then Proceed
          else if version_less_than current v then RefuseNewer v current
          else if version_less_than v current then ConfirmOlder v current
          else Proceed)"

definition newer_state_refusal :: "string \<Rightarrow> string option \<Rightarrow> string \<Rightarrow> string option" where
  "newer_state_refusal backup_id stamped current =
     (case version_gate_of stamped current of
        RefuseNewer v g \<Rightarrow>
          Some (''backup '' @ backup_id @ '' was made by vestad v'' @ v @ ''; this vestad is v'' @ g @
                '' and cannot restore newer state; update vestad first'')
      | _ \<Rightarrow> None)"

subsection \<open>The order of the timeline\<close>

lemma str_less_irrefl: "\<not> str_less s s"
  by (induction s) auto

lemma str_less_total: "s \<noteq> t \<Longrightarrow> str_less s t \<or> str_less t s"
proof (induction s t rule: str_less.induct)
  case (1 s)
  then show ?case by (cases s) auto
next
  case (3 c s d t)
  have "(of_char c :: nat) = of_char d \<longleftrightarrow> c = d" by (rule of_char_eq_iff)
  with 3 show ?case by (cases "of_char c :: nat" "of_char d :: nat" rule: linorder_cases) auto
qed auto

lemma str_less_trans: "str_less s t \<Longrightarrow> str_less t u \<Longrightarrow> str_less s u"
proof (induction s u arbitrary: t rule: str_less.induct)
  case (1 s)
  then show ?case by (cases t) auto
next
  case (3 c s d u)
  then show ?case by (cases t) auto
qed auto

lemma newest_point_le: "newest_point_first x y \<le> 0 \<longleftrightarrow> \<not> str_less (bp_created_at x) (bp_created_at y)"
  by (simp add: newest_point_first_def str_less_irrefl)

interpretation timeline: comparator newest_point_first "\<lambda>_. True"
proof
  fix x y z :: backup_point
  show "newest_point_first x y \<le> 0 \<or> newest_point_first y x \<le> 0"
    unfolding newest_point_le using str_less_trans str_less_irrefl by blast
  show "newest_point_first x y \<le> 0 \<Longrightarrow> newest_point_first y z \<le> 0 \<Longrightarrow> newest_point_first x z \<le> 0"
    unfolding newest_point_le using str_less_trans str_less_total by metis
qed

text \<open>The timeline lists every row once, newest stamp first; the rows that share a stamp keep the
  order the gateway listed them in.\<close>

theorem timeline_is_newest_first:
  "sorted_wrt (\<lambda>p q. \<not> str_less (bp_created_at p) (bp_created_at q)) (build_backup_timeline rows gateway) \<and>
   filter (\<lambda>p. bp_created_at p = stamp) (build_backup_timeline rows gateway) =
     map (timeline_point gateway) (filter (\<lambda>r. br_created_at r = stamp) rows)"
proof
  have "sorted_wrt (\<lambda>a b. newest_point_first a b \<le> 0) (build_backup_timeline rows gateway)"
    unfolding build_backup_timeline_def by (rule timeline.js_sort_sorted) simp
  then show "sorted_wrt (\<lambda>p q. \<not> str_less (bp_created_at p) (bp_created_at q)) (build_backup_timeline rows gateway)"
    by (rule sorted_wrt_mono_rel [rotated]) (simp add: newest_point_le)
  have "filter (\<lambda>p. bp_created_at p = stamp) (build_backup_timeline rows gateway) =
      filter (\<lambda>p. bp_created_at p = stamp) (map (timeline_point gateway) rows)"
    unfolding build_backup_timeline_def
    by (rule timeline.js_sort_stable) (auto simp: newest_point_first_def)
  then show "filter (\<lambda>p. bp_created_at p = stamp) (build_backup_timeline rows gateway) =
      map (timeline_point gateway) (filter (\<lambda>r. br_created_at r = stamp) rows)"
    by (simp add: filter_map comp_def timeline_point_def)
qed

subsection \<open>The order of the stamps is the order of time\<close>

lemma str_less_append:
  "length a = length b \<Longrightarrow> str_less (a @ s) (b @ t) \<longleftrightarrow> str_less a b \<or> a = b \<and> str_less s t"
  by (induction a b rule: list_induct2) auto

lemma foldl_digits:
  fixes f :: "char \<Rightarrow> nat"
  shows "foldl (\<lambda>n c. 10 * n + f c) k s = k * 10 ^ length s + foldl (\<lambda>n c. 10 * n + f c) 0 s"
proof (induction s arbitrary: k)
  case (Cons d s)
  show ?case using Cons [of "10 * k + f d"] Cons [of "f d"] by (simp add: algebra_simps)
qed simp

lemma digits_value_Cons: "digits_value (c # s) = (of_char c - 48) * 10 ^ length s + digits_value s"
  using foldl_digits [of "\<lambda>c. of_char c - 48" "of_char c - 48" s] by (simp add: digits_value_def)

lemma digits_value_bound: "list_all is_digit s \<Longrightarrow> digits_value s < 10 ^ length s"
proof (induction s)
  case (Cons c s)
  then have "(of_char c - 48 :: nat) \<le> 9" by (auto simp: is_digit_def)
  then have "(of_char c - 48 :: nat) * 10 ^ length s \<le> 9 * 10 ^ length s" by (rule mult_le_mono1)
  moreover have "digits_value s < 10 ^ length s" using Cons by simp
  ultimately have "(of_char c - 48) * 10 ^ length s + digits_value s < 9 * 10 ^ length s + 10 ^ length s"
    by (rule add_le_less_mono)
  then show ?case by (simp add: digits_value_Cons)
qed (simp add: digits_value_def)

lemma str_less_digits:
  "length s = length t \<Longrightarrow> list_all is_digit s \<Longrightarrow> list_all is_digit t \<Longrightarrow>
     str_less s t \<longleftrightarrow> digits_value s < digits_value t"
proof (induction s t rule: list_induct2)
  case (Cons c s d t)
  let ?c = "of_char c - 48 :: nat" and ?d = "of_char d - 48 :: nat" and ?k = "10 ^ length t :: nat"
  have s: "digits_value s < ?k" and t: "digits_value t < ?k"
    using digits_value_bound [of s] digits_value_bound [of t] Cons by auto
  have lo: "(48 :: nat) \<le> of_char c" "(48 :: nat) \<le> of_char d" using Cons.prems by (simp_all add: is_digit_def)
  then have less: "(of_char c :: nat) < of_char d \<longleftrightarrow> ?c < ?d" by arith
  have "(of_char c :: nat) = of_char d \<longleftrightarrow> ?c = ?d" using lo by arith
  then have eq: "c = d \<longleftrightarrow> ?c = ?d" by (simp add: of_char_eq_iff)
  note cd = less eq
  have "?c < ?d \<Longrightarrow> ?c * ?k + digits_value s < ?d * ?k + digits_value t"
  proof -
    assume "?c < ?d"
    then have "Suc ?c * ?k \<le> ?d * ?k" by (intro mult_le_mono1) simp
    with s show ?thesis by simp
  qed
  moreover have "?d < ?c \<Longrightarrow> ?d * ?k + digits_value t < ?c * ?k + digits_value s"
  proof -
    assume "?d < ?c"
    then have "Suc ?d * ?k \<le> ?c * ?k" by (intro mult_le_mono1) simp
    with t show ?thesis by simp
  qed
  ultimately have "?c * ?k + digits_value s < ?d * ?k + digits_value t \<longleftrightarrow>
      ?c < ?d \<or> ?c = ?d \<and> digits_value s < digits_value t"
    by (cases ?c ?d rule: linorder_cases) auto
  then show ?case using Cons unfolding str_less.simps(3) cd by (simp add: digits_value_Cons)
qed (simp add: digits_value_def)

text \<open>A moment of the calendar as the gateway stamps it, \<open>YYYYMMDD-HHMMSS\<close>.\<close>

record moment =
  m_year :: nat
  m_month :: nat
  m_day :: nat
  m_hour :: nat
  m_minute :: nat
  m_second :: nat

definition days_in_month :: "int \<Rightarrow> nat \<Rightarrow> nat" where
  "days_in_month y m =
     [31, 28, 31, 30, 31, 30, 31, 31, 30, 31, 30, 31] ! (m - 1) + (if leap y \<and> m = 2 then 1 else 0)"

definition moment_ok :: "moment \<Rightarrow> bool" where
  "moment_ok x \<longleftrightarrow> 100 \<le> m_year x \<and> m_year x \<le> 9999 \<and> 1 \<le> m_month x \<and> m_month x \<le> 12 \<and>
     1 \<le> m_day x \<and> m_day x \<le> days_in_month (int (m_year x)) (m_month x) \<and>
     m_hour x < 24 \<and> m_minute x < 60 \<and> m_second x < 60"

definition digits :: "nat \<Rightarrow> nat \<Rightarrow> string" where
  "digits k n = pad_zeros k (show_nat n)"

definition stamp_of :: "moment \<Rightarrow> string" where
  "stamp_of x = digits 4 (m_year x) @ digits 2 (m_month x) @ digits 2 (m_day x) @ ''-'' @
     digits 2 (m_hour x) @ digits 2 (m_minute x) @ digits 2 (m_second x)"

definition epoch_of :: "moment \<Rightarrow> int" where
  "epoch_of x = date_utc (m_year x) (int (m_month x) - 1) (m_day x) (m_hour x) (m_minute x) (m_second x)"

lemma show_nat_length: "0 < k \<Longrightarrow> n < 10 ^ k \<Longrightarrow> length (show_nat n) \<le> k"
proof (induction k arbitrary: n)
  case (Suc k)
  show ?case
  proof (cases "n < 10")
    case True
    then show ?thesis by (simp add: show_nat.simps [of n])
  next
    case False
    with Suc.prems have "0 < k" by (cases k) auto
    moreover have "n div 10 < 10 ^ k" using Suc.prems by (simp add: less_mult_imp_div_less mult.commute)
    ultimately have "length (show_nat (n div 10)) \<le> k" using Suc.IH by blast
    with False show ?thesis by (simp add: show_nat.simps [of n])
  qed
qed simp

lemma digits_value_zeros: "digits_value (replicate k (CHR ''0'') @ s) = digits_value s"
  by (induction k) (simp_all add: digits_value_Cons)

lemma digits_facts:
  assumes "0 < k" "n < 10 ^ k"
  shows "length (digits k n) = k" "list_all is_digit (digits k n)" "digits_value (digits k n) = n"
  using show_nat_length [OF assms] show_nat_digits [of n]
  by (auto simp: digits_def pad_zeros_def digits_value_zeros list_all_iff is_digit_def)

lemma digit_not_space: "is_digit c \<Longrightarrow> \<not> is_js_space c"
  by (auto simp: is_digit_def is_js_space_def)

lemma trim_digits: "s \<noteq> [] \<Longrightarrow> is_digit (hd s) \<Longrightarrow> is_digit (last s) \<Longrightarrow> trim s = s"
  using digit_not_space dropWhile_eq_self_iff [of is_js_space s] dropWhile_eq_self_iff [of is_js_space "rev s"]
  by (simp add: trim_def hd_rev)

lemma month_step:
  assumes "i < 12"
  shows "month_start y i + int (days_in_month y (Suc i)) =
    (if i = 11 then 365 + (if leap y then 1 else 0) else month_start y (Suc i))"
  using assms by (auto simp: month_start_def days_in_month_def numeral_eq_Suc less_Suc_eq)

lemma days_bounds: "i < 12 \<Longrightarrow> 28 \<le> days_in_month y (Suc i) \<and> days_in_month y (Suc i) \<le> 31"
  by (auto simp: days_in_month_def numeral_eq_Suc less_Suc_eq)

lemma month_start_mono: "i \<le> k \<Longrightarrow> k < 12 \<Longrightarrow> month_start y i \<le> month_start y k"
proof (induction k)
  case (Suc k)
  show ?case
  proof (cases "i = Suc k")
    case False
    with Suc have "month_start y i \<le> month_start y k" by simp
    moreover have "month_start y k \<le> month_start y (Suc k)"
      using month_step [of k y] days_bounds [of k y] Suc.prems by simp
    ultimately show ?thesis by simp
  qed simp
qed simp

lemma month_facts:
  assumes "1 \<le> m" "m \<le> 12"
  shows "days_in_month y m \<le> 31"
    and "m < n \<Longrightarrow> n \<le> 12 \<Longrightarrow> month_start y (m - 1) + int (days_in_month y m) \<le> month_start y (n - 1)"
    and "0 \<le> month_start y (m - 1)"
    and "month_start y (m - 1) + int (days_in_month y m) \<le> 365 + (if leap y then 1 else 0)"
proof -
  obtain i where i: "m = Suc i" "i < 12" using assms by (cases m) auto
  show "days_in_month y m \<le> 31" using days_bounds [OF i(2)] i(1) by simp
  show "0 \<le> month_start y (m - 1)" using month_start_mono [of 0 i y] i by (simp add: month_start_def)
  have leap0: "month_start y 11 + int (days_in_month y 12) = 365 + (if leap y then 1 else 0)"
    using month_step [of 11 y] by (simp add: numeral_eq_Suc)
  show "month_start y (m - 1) + int (days_in_month y m) \<le> 365 + (if leap y then 1 else 0)"
  proof (cases "i = 11")
    case False
    with i have "month_start y (Suc i) \<le> month_start y 11" by (intro month_start_mono) auto
    with False i month_step [OF i(2), of y] leap0 show ?thesis by simp
  qed (use i month_step [OF i(2), of y] in simp)
  assume "m < n" "n \<le> 12"
  then have "month_start y (Suc i) \<le> month_start y (n - 1)" "i \<noteq> 11" using i by (auto intro: month_start_mono)
  with month_step [OF i(2), of y] show "month_start y (m - 1) + int (days_in_month y m) \<le> month_start y (n - 1)"
    by (simp add: i)
qed

lemma div_succ: "0 < k \<Longrightarrow> (z + 1) div k = z div k + (if (z + 1) mod k = 0 then 1 else 0)" for z k :: int
proof -
  assume k: "0 < k"
  have z: "z = k * (z div k) + z mod k" and r: "0 \<le> z mod k" "z mod k < k" using k by simp_all
  show ?thesis
  proof (cases "z mod k = k - 1")
    case True
    with z have e: "z + 1 = (z div k + 1) * k" by (simp add: algebra_simps)
    have "(z + 1) mod k = 0" "(z + 1) div k = z div k + 1" unfolding e using k by simp_all
    then show ?thesis by simp
  next
    case False
    with r have lt: "0 \<le> z mod k + 1" "z mod k + 1 < k" by simp_all
    from z have e: "z + 1 = (z mod k + 1) + (z div k) * k" by (simp add: algebra_simps)
    from arg_cong [OF e, of "\<lambda>w. w mod k"] have "(z + 1) mod k = z mod k + 1"
      using lt by (simp only: mod_mult_self1 mod_pos_pos_trivial)
    moreover from arg_cong [OF e, of "\<lambda>w. w div k"] have "(z + 1) div k = z div k + (z mod k + 1) div k"
      using k by (simp only: div_mult_self1)
    then have "(z + 1) div k = z div k" using div_pos_pos_trivial [OF lt] by (simp only: add_0_right)
    ultimately show ?thesis using r by simp
  qed
qed

lemma leap_mods:
  "leap y \<longleftrightarrow> (y - 1968) mod 4 = 0 \<and> ((y - 1900) mod 100 \<noteq> 0 \<or> (y - 1600) mod 400 = 0)"
  "(y - 1900) mod 100 = 0 \<Longrightarrow> (y - 1968) mod 4 = 0"
  "(y - 1600) mod 400 = 0 \<Longrightarrow> (y - 1900) mod 100 = 0"
proof -
  have shift: "(y + c * k) mod k = y mod k" for c k :: int by (rule mod_mult_self1)
  have eqs: "(y - 1968) mod 4 = y mod 4" "(y - 1900) mod 100 = y mod 100" "(y - 1600) mod 400 = y mod 400"
    using shift [of "- 492" 4] shift [of "- 19" 100] shift [of "- 4" 400] by simp_all
  then show "leap y \<longleftrightarrow> (y - 1968) mod 4 = 0 \<and> ((y - 1900) mod 100 \<noteq> 0 \<or> (y - 1600) mod 400 = 0)"
    by (simp only: leap_def)
  have "(4 :: int) dvd 100" "(100 :: int) dvd 400" by simp_all
  then have "100 dvd y \<Longrightarrow> 4 dvd y" "400 dvd y \<Longrightarrow> 100 dvd y" using dvd_trans by blast+
  then show "(y - 1900) mod 100 = 0 \<Longrightarrow> (y - 1968) mod 4 = 0" "(y - 1600) mod 400 = 0 \<Longrightarrow> (y - 1900) mod 100 = 0"
    by (simp_all only: eqs mod_eq_0_iff_dvd)
qed

lemma leap_count:
  assumes "L \<longleftrightarrow> P \<and> (\<not> Q \<or> R)" "Q \<longrightarrow> P" "R \<longrightarrow> Q"
  shows "(if P then 1 else 0) - (if Q then 1 else 0) + (if R then 1 else 0) = (if L then 1 else 0 :: int)"
  using assms by (cases P; cases Q; cases R) simp_all

lemma year_step: "day_from_year (y + 1) = day_from_year y + 365 + (if leap y then 1 else 0)"
proof -
  have e: "y - 1969 + 1 = y - 1968" "y - 1901 + 1 = y - 1900" "y - 1601 + 1 = y - 1600" by simp_all
  have b: "y + 1 - 1969 = y - 1968" "y + 1 - 1901 = y - 1900" "y + 1 - 1601 = y - 1600" by simp_all
  have a4: "(y - 1968) div 4 = (y - 1969) div 4 + (if (y - 1968) mod 4 = 0 then 1 else 0)"
    by (rule div_succ [of 4 "y - 1969", unfolded e]) simp
  have a100: "(y - 1900) div 100 = (y - 1901) div 100 + (if (y - 1900) mod 100 = 0 then 1 else 0)"
    by (rule div_succ [of 100 "y - 1901", unfolded e]) simp
  have a400: "(y - 1600) div 400 = (y - 1601) div 400 + (if (y - 1600) mod 400 = 0 then 1 else 0)"
    by (rule div_succ [of 400 "y - 1601", unfolded e]) simp
  have l: "(if (y - 1968) mod 4 = 0 then 1 else 0) - (if (y - 1900) mod 100 = 0 then 1 else 0) +
      (if (y - 1600) mod 400 = 0 then 1 else 0 :: int) = (if leap y then 1 else 0)"
    by (rule leap_count [OF leap_mods(1)]; rule impI; erule leap_mods)
  have sum: "365 * (y + 1 - 1970) + (a + u) - (c + v) + (d + w) = 365 * (y - 1970) + a - c + d + 365 + (u - v + w)"
    for a c d u v w :: int by simp
  show ?thesis unfolding day_from_year_def b a4 a100 a400 sum l ..
qed

lemma year_mono: "y < y' \<Longrightarrow> day_from_year y + 365 + (if leap y then 1 else 0) \<le> day_from_year y'"
proof -
  have "day_from_year (y + 1) \<le> day_from_year (y + 1 + int n)" for n
  proof (induction n)
    case (Suc n)
    then show ?case using year_step [of "y + 1 + int n"] by (simp add: algebra_simps)
  qed simp
  from this [of "nat (y' - y - 1)"] year_step [of y] show "y < y' \<Longrightarrow> ?thesis" by simp
qed

definition day_of :: "moment \<Rightarrow> int" where
  "day_of x = day_from_year (int (m_year x)) + month_start (int (m_year x)) (m_month x - 1) + int (m_day x) - 1"

definition seconds_of :: "moment \<Rightarrow> int" where
  "seconds_of x = int (m_hour x) * 3600 + int (m_minute x) * 60 + int (m_second x)"

lemma epoch_day:
  assumes "moment_ok x"
  shows "epoch_of x = day_of x * 86400000 + seconds_of x * 1000"
proof -
  have "(int (m_month x) - 1) div 12 = 0" "(int (m_month x) - 1) mod 12 = int (m_month x) - 1"
    using assms by (simp_all add: moment_ok_def)
  moreover have "nat (int (m_month x) - 1) = m_month x - 1" by simp
  ultimately show ?thesis using assms
    by (simp add: epoch_of_def date_utc_def day_of_def seconds_of_def moment_ok_def Let_def)
qed

definition earlier_day :: "moment \<Rightarrow> moment \<Rightarrow> bool" where
  "earlier_day x y \<longleftrightarrow> m_year x < m_year y \<or>
     m_year x = m_year y \<and> (m_month x < m_month y \<or> m_month x = m_month y \<and> m_day x < m_day y)"

definition same_day :: "moment \<Rightarrow> moment \<Rightarrow> bool" where
  "same_day x y \<longleftrightarrow> m_year x = m_year y \<and> m_month x = m_month y \<and> m_day x = m_day y"

lemma earlier_day_less:
  assumes x: "moment_ok x" and y: "moment_ok y" and e: "earlier_day x y"
  shows "day_of x < day_of y"
proof -
  have mx: "1 \<le> m_month x" "m_month x \<le> 12" and my: "1 \<le> m_month y" "m_month y \<le> 12"
    using x y by (simp_all add: moment_ok_def)
  have dx: "int (m_day x) \<le> int (days_in_month (int (m_year x)) (m_month x))" and dy: "1 \<le> int (m_day y)"
    using x y by (simp_all add: moment_ok_def)
  consider (year) "m_year x < m_year y"
    | (month) "m_year x = m_year y" "m_month x < m_month y"
    | (day) "m_year x = m_year y" "m_month x = m_month y" "m_day x < m_day y"
    using e by (auto simp: earlier_day_def)
  then show ?thesis
  proof cases
    case year
    with year_mono [of "int (m_year x)" "int (m_year y)"] month_facts(4) [OF mx, of "int (m_year x)"]
      month_facts(3) [OF my, of "int (m_year y)"] dx dy
    show ?thesis by (simp add: day_of_def)
  next
    case month
    with month_facts(2) [OF mx, of "m_month y" "int (m_year x)"] my dx dy show ?thesis by (simp add: day_of_def)
  next
    case day
    then show ?thesis by (simp add: day_of_def)
  qed
qed

lemma seconds_bounds: "moment_ok x \<Longrightarrow> 0 \<le> seconds_of x \<and> seconds_of x < 86400"
  by (simp add: seconds_of_def moment_ok_def)

definition earlier :: "moment \<Rightarrow> moment \<Rightarrow> bool" where
  "earlier x y \<longleftrightarrow> earlier_day x y \<or> same_day x y \<and> seconds_of x < seconds_of y"

lemma earlier_epoch:
  assumes "moment_ok x" "moment_ok y" "earlier x y"
  shows "epoch_of x < epoch_of y"
proof (cases "earlier_day x y")
  case True
  with earlier_day_less assms have "day_of x < day_of y" by blast
  with seconds_bounds [OF assms(1)] seconds_bounds [OF assms(2)] show ?thesis
    by (simp add: epoch_day assms)
next
  case False
  with assms(3) have "day_of x = day_of y" "seconds_of x < seconds_of y"
    by (auto simp: earlier_def same_day_def day_of_def)
  then show ?thesis by (simp add: epoch_day assms)
qed

lemma earlier_total: "\<not> earlier x y \<Longrightarrow> \<not> earlier y x \<Longrightarrow> same_day x y \<and> seconds_of x = seconds_of y"
  by (auto simp: earlier_def earlier_day_def same_day_def)

lemma moment_digits:
  assumes "moment_ok x"
  shows "m_year x < 10 ^ 4" "m_month x < 10 ^ 2" "m_day x < 10 ^ 2" "m_hour x < 10 ^ 2" "m_minute x < 10 ^ 2" "m_second x < 10 ^ 2"
  using assms month_facts(1) [of "m_month x" "int (m_year x)"] by (simp_all add: moment_ok_def)

lemmas moment_length = moment_digits [THEN digits_facts(1) [rotated]]
lemmas moment_is_digit = moment_digits [THEN digits_facts(2) [rotated]]
lemmas moment_value = moment_digits [THEN digits_facts(3) [rotated]]

lemma stamp_parses:
  assumes ok: "moment_ok x"
  shows "parse_snapshot_stamp (stamp_of x) = Some (epoch_of x)"
proof -
  let ?s = "stamp_of x"
  note l = moment_length [OF ok] and d = moment_is_digit [OF ok] and v = moment_value [OF ok]
  have len: "length ?s = 15" "?s ! 8 = CHR ''-''" using l by (simp_all add: stamp_of_def nth_append)
  have parts: "take 8 ?s = digits 4 (m_year x) @ digits 2 (m_month x) @ digits 2 (m_day x)"
    "drop 9 ?s = digits 2 (m_hour x) @ digits 2 (m_minute x) @ digits 2 (m_second x)"
    "take 4 ?s = digits 4 (m_year x)" "take 2 (drop 4 ?s) = digits 2 (m_month x)"
    "take 2 (drop 6 ?s) = digits 2 (m_day x)" "take 2 (drop 9 ?s) = digits 2 (m_hour x)"
    "take 2 (drop 11 ?s) = digits 2 (m_minute x)" "take 2 (drop 13 ?s) = digits 2 (m_second x)"
    using l by (simp_all add: stamp_of_def)
  have "digits 4 (m_year x) \<noteq> []" "digits 2 (m_second x) \<noteq> []" using l by auto
  then have "is_digit (hd ?s)" "is_digit (last ?s)" "?s \<noteq> []"
    using d by (auto simp: stamp_of_def list_all_iff)
  then have t: "trim ?s = ?s" by (rule trim_digits [rotated])
  have "compact_stamp ?s" using len d by (simp add: compact_stamp_def parts)
  then show ?thesis unfolding parse_snapshot_stamp_def t Let_def epoch_of_def
    using v by (simp add: parts(1,3-8))
qed

lemma digits_eq: "0 < k \<Longrightarrow> m < 10 ^ k \<Longrightarrow> n < 10 ^ k \<Longrightarrow> digits k m = digits k n \<longleftrightarrow> m = n"
  using digits_facts(3) by metis

lemma digits_less: "0 < k \<Longrightarrow> m < 10 ^ k \<Longrightarrow> n < 10 ^ k \<Longrightarrow>
    str_less (digits k m @ s) (digits k n @ t) \<longleftrightarrow> m < n \<or> m = n \<and> str_less s t"
  by (simp add: str_less_append str_less_digits digits_facts digits_eq)

lemma stamp_less:
  assumes x: "moment_ok x" and y: "moment_ok y"
  shows "str_less (stamp_of x) (stamp_of y) \<longleftrightarrow> earlier x y"
proof -
  note d = digits_less [OF _ moment_digits(1) [OF x] moment_digits(1) [OF y]]
    digits_less [OF _ moment_digits(2) [OF x] moment_digits(2) [OF y]]
    digits_less [OF _ moment_digits(3) [OF x] moment_digits(3) [OF y]]
    digits_less [OF _ moment_digits(4) [OF x] moment_digits(4) [OF y]]
    digits_less [OF _ moment_digits(5) [OF x] moment_digits(5) [OF y]]
    digits_less [OF _ moment_digits(6) [OF x] moment_digits(6) [OF y], where s = "[]" and t = "[]", simplified]
  have clock: "seconds_of x < seconds_of y \<longleftrightarrow> m_hour x < m_hour y \<or> m_hour x = m_hour y \<and>
      (m_minute x < m_minute y \<or> m_minute x = m_minute y \<and> m_second x < m_second y)"
    using x y unfolding seconds_of_def moment_ok_def by linarith
  show ?thesis unfolding stamp_of_def append_Cons append_Nil earlier_def earlier_day_def same_day_def clock
    by (simp add: d) blast
qed

text \<open>A stamp the gateway writes is read back as its moment, and the plain string order of two stamps
  is the order of their moments, across month and year ends and leap days.\<close>

theorem stamps_order_as_time:
  assumes x: "moment_ok x" and y: "moment_ok y"
  shows "parse_snapshot_stamp (stamp_of x) = Some (epoch_of x) \<and>
    (str_less (stamp_of x) (stamp_of y) \<longleftrightarrow> epoch_of x < epoch_of y)"
proof -
  have "epoch_of x < epoch_of y \<Longrightarrow> earlier x y"
  proof (rule ccontr)
    assume less: "epoch_of x < epoch_of y" and n: "\<not> earlier x y"
    then have "\<not> earlier y x" using earlier_epoch [OF y x] by auto
    with n have "same_day x y \<and> seconds_of x = seconds_of y" by (rule earlier_total)
    then have "epoch_of x = epoch_of y" by (simp add: epoch_day x y same_day_def day_of_def)
    with less show False by simp
  qed
  then show ?thesis using stamp_parses [OF x] stamp_less [OF x y] earlier_epoch [OF x y] by blast
qed

theorem stamps_order_as_time_witness:
  "parse_snapshot_stamp (stamp_of \<lparr>m_year = 2024, m_month = 2, m_day = 29, m_hour = 23, m_minute = 59, m_second = 59\<rparr>) =
     Some (epoch_of \<lparr>m_year = 2024, m_month = 2, m_day = 29, m_hour = 23, m_minute = 59, m_second = 59\<rparr>) \<and>
   (str_less (stamp_of \<lparr>m_year = 2024, m_month = 2, m_day = 29, m_hour = 23, m_minute = 59, m_second = 59\<rparr>)
      (stamp_of \<lparr>m_year = 2024, m_month = 3, m_day = 1, m_hour = 0, m_minute = 0, m_second = 0\<rparr>) \<longleftrightarrow>
    epoch_of \<lparr>m_year = 2024, m_month = 2, m_day = 29, m_hour = 23, m_minute = 59, m_second = 59\<rparr> <
      epoch_of \<lparr>m_year = 2024, m_month = 3, m_day = 1, m_hour = 0, m_minute = 0, m_second = 0\<rparr>)"
  by (rule stamps_order_as_time) (simp_all add: moment_ok_def days_in_month_def leap_def)

subsection \<open>The client and the gateway agree\<close>

definition dotted :: "nat list \<Rightarrow> string" where
  "dotted ns = join ''.'' (map show_nat ns)"

lemma digit_char: "is_digit c \<Longrightarrow> c \<noteq> CHR ''.'' \<and> c \<noteq> CHR ''-'' \<and> c \<noteq> CHR ''+''"
  by (auto simp: is_digit_def)

lemma show_nat_plain: "c \<in> set (show_nat n) \<Longrightarrow> c \<noteq> CHR ''.'' \<and> c \<noteq> CHR ''-'' \<and> c \<noteq> CHR ''+''"
  using show_nat_digits [of n] digit_char by (auto simp: list_all_iff)

lemma split_dotted: "ns \<noteq> [] \<Longrightarrow> split_char (CHR ''.'') (dotted ns) = map show_nat ns"
  unfolding dotted_def using show_nat_plain by (intro split_char_join) auto

lemma dotted_no_dash: "CHR ''-'' \<notin> set (dotted ns)"
proof (induction ns)
  case (Cons n ns)
  then show ?case using show_nat_plain [of "CHR ''-''" n]
    by (cases ns) (auto simp: dotted_def join_Cons)
qed (simp add: dotted_def)

lemma parse_parts_dotted: "ns \<noteq> [] \<Longrightarrow> parse_parts (dotted ns) = Some (map js_number ns)"
proof -
  assume ne: "ns \<noteq> []"
  have "parse_nums (map show_nat ns) = Some (map js_number ns)" for ns
    using show_nat_digits by (induction ns) (simp_all add: all_digits_def)
  then show ?thesis using ne
    by (simp add: parse_parts_def split_char_notin dotted_no_dash split_dotted)
qed

lemma parse_u64_show: "n < 2 ^ 64 \<Longrightarrow> parse_u64 (show_nat n) = Some n"
proof -
  have "\<not> starts_with ''+'' (show_nat n)"
    using show_nat_digits [of n] by (cases "show_nat n") (auto simp: starts_with_def is_digit_def)
  moreover assume "n < 2 ^ 64"
  ultimately show ?thesis using show_nat_digits [of n] by (simp add: parse_u64_def all_digits_def)
qed

lemma map_filter_show: "list_all (\<lambda>n. n < 2 ^ 64) ns \<Longrightarrow> List.map_filter parse_u64 (map show_nat ns) = ns"
  by (induction ns) (simp_all add: map_filter_simps parse_u64_show)

lemma dotted_nonempty: "ns \<noteq> [] \<Longrightarrow> dotted ns \<noteq> []"
  using show_nat_digits by (cases ns; cases "tl ns") (auto simp: dotted_def)

lemma comparable_dotted: "ns \<noteq> [] \<Longrightarrow> list_all (\<lambda>n. n < 2 ^ 64) ns \<Longrightarrow> version_comparable (dotted ns)"
  by (simp add: version_comparable_def dotted_nonempty split_dotted)
    (auto simp: list_all_iff parse_u64_show)

lemma part_at_Cons: "part_at (x # xs) 0 = x" "part_at (x # xs) (Suc k) = part_at xs k"
  by (simp_all add: part_at_def)

lemma lex_less_Cons: "lex_less (x # xs) (y # ys) \<longleftrightarrow> x < y \<or> x = y \<and> lex_less xs ys"
proof
  assume "lex_less (x # xs) (y # ys)"
  then obtain k where k: "part_at (x # xs) k < part_at (y # ys) k"
    and eq: "\<forall>j < k. part_at (x # xs) j = part_at (y # ys) j" unfolding lex_less_def by blast
  show "x < y \<or> x = y \<and> lex_less xs ys"
  proof (cases k)
    case 0
    with k show ?thesis by (simp add: part_at_Cons)
  next
    case (Suc m)
    with eq have "part_at (x # xs) 0 = part_at (y # ys) 0" by blast
    then have "x = y" unfolding part_at_Cons .
    moreover have "part_at xs j = part_at ys j" if "j < m" for j
      using eq Suc that part_at_Cons(2) by (metis Suc_less_eq)
    moreover have "part_at xs m < part_at ys m" using k unfolding Suc part_at_Cons .
    ultimately show ?thesis unfolding lex_less_def by blast
  qed
next
  assume "x < y \<or> x = y \<and> lex_less xs ys"
  then show "lex_less (x # xs) (y # ys)"
  proof
    assume "x < y"
    then show ?thesis unfolding lex_less_def by (intro exI [of _ 0]) (simp add: part_at_Cons)
  next
    assume a: "x = y \<and> lex_less xs ys"
    then obtain k where k: "part_at xs k < part_at ys k" "\<forall>j < k. part_at xs j = part_at ys j"
      unfolding lex_less_def by blast
    have "part_at (x # xs) j = part_at (y # ys) j" if "j < Suc k" for j
      using that a k(2) by (cases j) (auto simp: part_at_Cons)
    with k(1) show ?thesis unfolding lex_less_def by (intro exI [of _ "Suc k"]) (simp add: part_at_Cons)
  qed
qed

lemma vec_less_lex: "length xs = length ys \<Longrightarrow> vec_less xs ys \<longleftrightarrow> lex_less xs ys"
  by (induction xs ys rule: list_induct2) (simp_all add: lex_less_Cons, simp add: lex_less_def)

text \<open>C22: For a snapshot stamped with a plain dotted version of as many numbers as the gateway's, every number
  below $2^{53}$, the client calls it newer exactly where the gateway's own gate refuses it, older exactly where
  the gate wants the user's word, and plain exactly where the gate lets it through. (The client reads larger
  numbers as rounded ones, and the two part: \<open>rounded_version_is_judged_twice\<close>.)\<close>

theorem eligibility_is_the_gateways_gate:
  assumes "ns \<noteq> []" "length ns = length ms"
    and "list_all (\<lambda>n. n < 2 ^ 53) ns" "list_all (\<lambda>n. n < 2 ^ 53) ms"
  shows "restore_eligibility_of (Some (dotted ns)) (Some (dotted ms)) =
    (case version_gate_of (Some (dotted ns)) (dotted ms) of
       Proceed \<Rightarrow> RestoreOk | ConfirmOlder _ _ \<Rightarrow> RestoreOlder | RefuseNewer _ _ \<Rightarrow> RestoreNewer)"
proof -
  have ms: "ms \<noteq> []" using assms by auto
  have u64: "list_all (\<lambda>n. n < 2 ^ 64) ns" "list_all (\<lambda>n. n < 2 ^ 64) ms"
    and exact: "map js_number ns = ns" "map js_number ms = ms"
    using assms(3,4) by (auto simp: list_all_iff map_idI)
  have less: "version_less_than (dotted a) (dotted b) \<longleftrightarrow> vec_less a b"
    if "a \<noteq> []" "b \<noteq> []" "list_all (\<lambda>n. n < 2 ^ 64) a" "list_all (\<lambda>n. n < 2 ^ 64) b" for a b
    using that by (simp add: version_less_than_def split_dotted map_filter_show)
  note l = less [OF assms(1) ms u64] less [OF ms assms(1) u64(2,1)]
    vec_less_lex [OF assms(2)] vec_less_lex [OF assms(2) [symmetric]]
  have c: "compare_release_versions (dotted ns) (dotted ms) =
      Some (if lex_less ns ms then - 1 else if lex_less ms ns then 1 else 0)"
    using compare_loop_spec [of ns ms] lex_less_eq_irrefl [of ns ms] lex_less_eq_irrefl [of ms ns]
      lex_less_asym [of ns ms] assms(1) ms
    by (auto simp: compare_release_versions_def parse_parts_dotted exact lex_eq_def)
  show ?thesis using lex_less_asym [of ns ms]
    by (simp add: restore_eligibility_of_def version_gate_of_def c l comparable_dotted [OF assms(1) u64(1)] comparable_dotted [OF ms u64(2)])
qed

theorem eligibility_is_the_gateways_gate_witness:
  "restore_eligibility_of (Some (dotted [0, 3, 22])) (Some (dotted [0, 3, 9])) =
    (case version_gate_of (Some (dotted [0, 3, 22])) (dotted [0, 3, 9]) of
       Proceed \<Rightarrow> RestoreOk | ConfirmOlder _ _ \<Rightarrow> RestoreOlder | RefuseNewer _ _ \<Rightarrow> RestoreNewer)"
  by (rule eligibility_is_the_gateways_gate) simp_all

text \<open>Two numbers that a JavaScript number does not tell apart are the same to the client and not to the gateway.\<close>

lemma rounds_to_even: "js_number 9007199254740993 = 9007199254740992" "js_number 9007199254740992 = 9007199254740992"
proof -
  have "bit_count 9007199254740993 = 54" "bit_count 9007199254740992 = 54" by (simp_all add: bit_count.simps)
  then show "js_number 9007199254740993 = 9007199254740992" "js_number 9007199254740992 = 9007199254740992"
    by (simp_all add: js_number_def Let_def)
qed

lemma rounded_version_is_judged_twice:
  "restore_eligibility_of (Some ''9007199254740993'') (Some ''9007199254740992'') = RestoreOk"
  "version_gate_of (Some ''9007199254740993'') ''9007199254740992'' = RefuseNewer ''9007199254740993'' ''9007199254740992''"
  by (simp_all add: restore_eligibility_of_def version_gate_of_def version_comparable_def version_less_than_def parse_u64_def
      starts_with_def compare_release_versions_def parse_parts_def all_digits_def is_digit_def digits_value_def
      compare_loop.simps part_at_def rounds_to_even)

text \<open>A suffixed version is where the two part: the client compares its core, the gateway cannot compare it.\<close>

lemma suffixed_version_is_judged_twice:
  "restore_eligibility_of (Some ''0.4.0-dev'') (Some ''0.3.9'') = RestoreNewer"
  "version_gate_of (Some ''0.4.0-dev'') ''0.3.9'' = Proceed"
  by (simp_all add: restore_eligibility_of_def version_gate_of_def version_comparable_def parse_u64_def
      starts_with_def compare_release_versions_def parse_parts_def all_digits_def is_digit_def digits_value_def
      compare_loop.simps part_at_def)

end
