(* ===== verification/ChatStream.thy ===== *)
theory ChatStream
  imports ParseChat
begin

section \<open>The chat tail (chat/chat-stream-model.ts, chat/bubble-grouping.ts, chat/composer-wrap.ts, pacing/pacing.ts)\<close>

text \<open>
  The folds over the rows a chat view holds: seeding from the newest history page, folding a
  live event, committing a paced reply, the optimistic send and its echo, trimming and paging
  back.  The two sets are HOL sets.  \<open>now_iso\<close> is \<open>new Date().toISOString()\<close>, \<open>date_ms\<close> is
  \<open>new Date(ts).getTime()\<close> (\<open>None\<close> for NaN), \<open>rng\<close> the value \<open>Math.random\<close> gave.
\<close>

subsection \<open>pacing.ts\<close>

definition pacing_per_char :: int where "pacing_per_char = 25"
definition pacing_min :: int where "pacing_min = 1500"
definition pacing_max :: int where "pacing_max = 6000"
definition flush_threshold :: nat where "flush_threshold = 3"
definition max_messages :: nat where "max_messages = 5000"

definition typing_delay :: "nat \<Rightarrow> rat \<Rightarrow> int" where
  "typing_delay char_count rng =
     (let raw = min (pacing_min + pacing_per_char * int char_count) pacing_max;
          variance = \<lfloor>of_int raw * (1/5 :: rat)\<rfloor>
      in raw + \<lfloor>rng * of_int variance * 2\<rfloor> - variance)"

subsection \<open>chat-stream-model.ts\<close>

record chat_state =
  cs_messages :: "chat_message list"
  cs_shown :: "jsnum set"
  cs_pending :: "string set"
  cs_cursor :: "jsnum option"
  cs_loaded :: bool

definition initial_chat_state :: chat_state where
  "initial_chat_state =
     \<lparr>cs_messages = [], cs_shown = {}, cs_pending = {}, cs_cursor = None, cs_loaded = False\<rparr>"

definition cap_tail :: "chat_message list \<Rightarrow> chat_message list" where
  "cap_tail messages = (if length messages > max_messages then last_n max_messages messages else messages)"

text \<open>\<open>message.type === "user" ? message.intent_id : undefined\<close>\<close>

definition intent_of :: "chat_message \<Rightarrow> string option" where
  "intent_of m = (case cm_body m of UserBody u \<Rightarrow> us_intent_id u | _ \<Rightarrow> None)"

record page_index =
  pi_ids :: "jsnum set"
  pi_intents :: "string set"
  pi_oldest :: "jsnum option"

definition index_event :: "page_index \<Rightarrow> chat_message \<Rightarrow> page_index" where
  "index_event index event =
     (let index = (case cm_id event of
            None \<Rightarrow> index
          | Some i \<Rightarrow> index\<lparr>pi_ids := insert i (pi_ids index),
                           pi_oldest := (case pi_oldest index of
                                           None \<Rightarrow> Some i
                                         | Some oldest \<Rightarrow> (if i < oldest then Some i else Some oldest))\<rparr>)
      in case intent_of event of
           None \<Rightarrow> index
         | Some t \<Rightarrow> index\<lparr>pi_intents := insert t (pi_intents index)\<rparr>)"

definition index_page :: "history_page \<Rightarrow> page_index" where
  "index_page page = foldl index_event \<lparr>pi_ids = {}, pi_intents = {}, pi_oldest = None\<rparr> (hp_events page)"

text \<open>The loop of \<open>partitionHeld\<close>: older rows, newer rows, and whether a held row is on the page.\<close>

fun partition_held ::
  "string set \<Rightarrow> page_index \<Rightarrow> chat_message list \<Rightarrow> chat_message list \<times> chat_message list \<times> bool" where
  "partition_held pend index [] = ([], [], False)"
| "partition_held pend index (m # ms) =
     (let (older, newer, overlaps) = partition_held pend index ms;
          pending = (case intent_of m of None \<Rightarrow> False | Some t \<Rightarrow> t \<in> pend);
          echoed = (case intent_of m of None \<Rightarrow> False | Some t \<Rightarrow> t \<in> pi_intents index)
      in if pending \<and> echoed then (older, newer, overlaps)
         else case cm_id m of
                None \<Rightarrow> (if pending then (older, m # newer, overlaps) else (older, newer, overlaps))
              | Some i \<Rightarrow>
                  (if i \<in> pi_ids index then (older, newer, True)
                   else if (case pi_oldest index of None \<Rightarrow> False | Some oldest \<Rightarrow> i < oldest)
                   then (m # older, newer, overlaps)
                   else (older, m # newer, overlaps)))"

definition seed_tail :: "chat_state \<Rightarrow> history_page \<Rightarrow> chat_state" where
  "seed_tail s page =
     (let index = index_page page;
          (older, newer, overlaps) = partition_held (cs_pending s) index (cs_messages s);
          joined = (older = [] \<or> overlaps)
      in s\<lparr>cs_messages := cap_tail ((if joined then older else []) @ hp_events page @ newer),
           cs_shown := cs_shown s \<union> pi_ids index,
           cs_pending := cs_pending s - pi_intents index,
           cs_cursor := (if joined \<and> cs_loaded s then cs_cursor s else hp_cursor page),
           cs_loaded := True\<rparr>)"

definition is_chat_row :: "chat_message \<Rightarrow> bool" where
  "is_chat_row m = (case cm_body m of ToolStartBody _ _ _ \<Rightarrow> False | ToolEndBody _ _ \<Rightarrow> False | _ \<Rightarrow> True)"

definition is_chat :: "chat_message \<Rightarrow> bool" where
  "is_chat m = (case cm_body m of ChatBody _ _ \<Rightarrow> True | _ \<Rightarrow> False)"

text \<open>The bubble an echo confirms; an empty attachment list is truthy and replaces the copy.\<close>

definition confirm_with :: "chat_message \<Rightarrow> chat_message \<Rightarrow> chat_message" where
  "confirm_with event m =
     (case (cm_body m, cm_body event) of
        (UserBody u, UserBody e) \<Rightarrow>
          m\<lparr>cm_body := UserBody (u\<lparr>us_send_state := None,
                                  us_attachments := (case us_attachments e of
                                     None \<Rightarrow> us_attachments u | Some a \<Rightarrow> Some a)\<rparr>),
            cm_id := (case cm_id event of None \<Rightarrow> cm_id m | Some i \<Rightarrow> Some i),
            cm_ts := (case cm_ts event of None \<Rightarrow> cm_ts m | Some t \<Rightarrow> Some t)\<rparr>
      | _ \<Rightarrow> m)"

definition insert_id :: "jsnum option \<Rightarrow> jsnum set \<Rightarrow> jsnum set" where
  "insert_id i shown = (case i of None \<Rightarrow> shown | Some x \<Rightarrow> insert x shown)"

text \<open>The result's flag is \<open>paced\<close>.\<close>

definition fold_live_event :: "chat_state \<Rightarrow> chat_message \<Rightarrow> chat_state \<times> bool" where
  "fold_live_event s event =
     (if \<not> is_chat_row event then (s, False)
      else case (case intent_of event of None \<Rightarrow> None | Some t \<Rightarrow> if t \<in> cs_pending s then Some t else None) of
             Some t \<Rightarrow>
               (s\<lparr>cs_messages := map (\<lambda>m. if intent_of m = Some t then confirm_with event m else m) (cs_messages s),
                  cs_shown := insert_id (cm_id event) (cs_shown s),
                  cs_pending := cs_pending s - {t}\<rparr>, False)
           | None \<Rightarrow>
               (case cm_id event of
                  Some i \<Rightarrow>
                    (if i \<in> cs_shown s then (s, False)
                     else if is_chat event then (s\<lparr>cs_shown := insert i (cs_shown s)\<rparr>, True)
                     else (s\<lparr>cs_shown := insert i (cs_shown s),
                             cs_messages := cap_tail (cs_messages s @ [event])\<rparr>, False))
                | None \<Rightarrow>
                    (if is_chat event then (s, True)
                     else (s\<lparr>cs_messages := cap_tail (cs_messages s @ [event])\<rparr>, False))))"

definition commit_paced_chat :: "chat_state \<Rightarrow> chat_message \<Rightarrow> chat_state" where
  "commit_paced_chat s event =
     (if cm_id event \<noteq> None \<and> list_ex (\<lambda>m. cm_id m = cm_id event) (cs_messages s) then s
      else s\<lparr>cs_messages := cap_tail (cs_messages s @ [event])\<rparr>)"

definition begin_send ::
  "string \<Rightarrow> chat_state \<Rightarrow> string \<Rightarrow> input_method \<Rightarrow> string \<Rightarrow> chat_attachment list option \<Rightarrow> chat_state" where
  "begin_send now_iso s txt method intent_id attachments =
     (let bubble = \<lparr>cm_id = None, cm_ts = Some now_iso,
                    cm_body = UserBody \<lparr>us_text = txt, us_input_method = Some method,
                       us_attachments = (case attachments of Some (a # l) \<Rightarrow> Some (a # l) | _ \<Rightarrow> None),
                       us_intent_id = Some intent_id, us_send_state = Some Sending\<rparr>\<rparr>
      in s\<lparr>cs_pending := insert intent_id (cs_pending s),
           cs_messages := cap_tail (cs_messages s @ [bubble])\<rparr>)"

definition set_send_state :: "send_state option \<Rightarrow> chat_message \<Rightarrow> chat_message" where
  "set_send_state send m =
     (case cm_body m of UserBody u \<Rightarrow> m\<lparr>cm_body := UserBody (u\<lparr>us_send_state := send\<rparr>)\<rparr> | _ \<Rightarrow> m)"

definition mark_send :: "chat_state \<Rightarrow> string \<Rightarrow> send_state option \<Rightarrow> chat_state" where
  "mark_send s intent_id send =
     s\<lparr>cs_messages := map (\<lambda>m. if intent_of m = Some intent_id then set_send_state send m else m) (cs_messages s)\<rparr>"

definition trim_history_keep :: nat where "trim_history_keep = 100"

definition trim_tail :: "nat \<Rightarrow> chat_state \<Rightarrow> chat_state" where
  "trim_tail keep s =
     (if length (cs_messages s) \<le> keep then s
      else let messages = last_n keep (cs_messages s)
           in case Option.bind (find (\<lambda>m. cm_id m \<noteq> None) messages) cm_id of
                None \<Rightarrow> s
              | Some oldest \<Rightarrow>
                  s\<lparr>cs_messages := messages, cs_shown := Set.filter (\<lambda>i. i \<ge> oldest) (cs_shown s),
                    cs_cursor := Some oldest\<rparr>)"

definition prepend_page :: "chat_state \<Rightarrow> chat_message list \<Rightarrow> jsnum option \<Rightarrow> chat_state" where
  "prepend_page s events cursor =
     s\<lparr>cs_shown := foldl (\<lambda>shown e. insert_id (cm_id e) shown) (cs_shown s) events,
       cs_messages := events @ cs_messages s, cs_cursor := cursor\<rparr>"

record retryable_send =
  rt_intent :: string
  rt_text :: string
  rt_method :: input_method
  rt_attachments :: "chat_attachment list option"

definition retryable_sends :: "chat_state \<Rightarrow> retryable_send list" where
  "retryable_sends s =
     concat (map (\<lambda>m. case cm_body m of
         UserBody u \<Rightarrow>
           (case (us_send_state u, us_intent_id u) of
              (Some Retry, Some t) \<Rightarrow>
                [\<lparr>rt_intent = t, rt_text = us_text u, rt_method = nullish (us_input_method u) Typed,
                  rt_attachments = us_attachments u\<rparr>]
            | _ \<Rightarrow> [])
       | _ \<Rightarrow> []) (cs_messages s))"

subsection \<open>bubble-grouping.ts and composer-wrap.ts\<close>

definition bubble_group_time_gap_ms :: jsnum where "bubble_group_time_gap_ms = 5 * 60 * 1000"

datatype side = UserSide | AgentSide

definition chat_message_side :: "chat_message \<Rightarrow> side option" where
  "chat_message_side m =
     (case cm_body m of UserBody _ \<Rightarrow> Some UserSide | ChatBody _ _ \<Rightarrow> Some AgentSide | _ \<Rightarrow> None)"

definition timestamp_millis :: "(string \<Rightarrow> jsnum option) \<Rightarrow> string option \<Rightarrow> jsnum option" where
  "timestamp_millis date_ms ts = (case ts of None \<Rightarrow> None | Some t \<Rightarrow> (if t = [] then None else date_ms t))"

definition starts_new_bubble_group :: "(string \<Rightarrow> jsnum option) \<Rightarrow> chat_message option \<Rightarrow> chat_message \<Rightarrow> bool" where
  "starts_new_bubble_group date_ms prev cur =
     (case (chat_message_side cur, Option.bind prev chat_message_side) of
        (Some cur_side, Some prev_side) \<Rightarrow>
          (if cur_side \<noteq> prev_side then True
           else case (timestamp_millis date_ms (Option.bind prev cm_ts), timestamp_millis date_ms (cm_ts cur)) of
                  (Some prev_ts, Some cur_ts) \<Rightarrow> cur_ts - prev_ts \<ge> bubble_group_time_gap_ms
                | _ \<Rightarrow> False)
      | _ \<Rightarrow> False)"

definition composer_expanded_next :: "bool \<Rightarrow> string \<Rightarrow> jsnum \<Rightarrow> jsnum \<Rightarrow> bool" where
  "composer_expanded_next prev v avail width =
     (if trim v = [] then False
      else if CHR 0x0A \<in> set v then True
      else if avail \<le> 0 then prev
      else if prev then width > avail - 24 else width > avail - 8)"

subsection \<open>Rows, ids and pending sends\<close>

fun row_ids :: "chat_message list \<Rightarrow> jsnum list" where
  "row_ids [] = []"
| "row_ids (m # ms) = (case cm_id m of None \<Rightarrow> row_ids ms | Some i \<Rightarrow> i # row_ids ms)"

fun row_intents :: "chat_message list \<Rightarrow> string list" where
  "row_intents [] = []"
| "row_intents (m # ms) = (case intent_of m of None \<Rightarrow> row_intents ms | Some t \<Rightarrow> t # row_intents ms)"

lemma row_ids_append [simp]: "row_ids (xs @ ys) = row_ids xs @ row_ids ys"
  by (induction xs) (auto split: option.splits)

lemma row_intents_append [simp]: "row_intents (xs @ ys) = row_intents xs @ row_intents ys"
  by (induction xs) (auto split: option.splits)

lemma row_ids_iff: "i \<in> set (row_ids ms) \<longleftrightarrow> (\<exists>m \<in> set ms. cm_id m = Some i)"
  by (induction ms) (auto split: option.splits)

lemma row_intents_iff: "t \<in> set (row_intents ms) \<longleftrightarrow> (\<exists>m \<in> set ms. intent_of m = Some t)"
  by (induction ms) (auto split: option.splits)

definition pending_rows_ok :: "string set \<Rightarrow> chat_message list \<Rightarrow> bool" where
  "pending_rows_ok pend ms \<longleftrightarrow>
     distinct (filter (\<lambda>t. t \<in> pend) (row_intents ms)) \<and>
     (\<forall>m \<in> set ms. \<forall>t \<in> pend. intent_of m = Some t \<longrightarrow> cm_id m = None)"

text \<open>
  The invariant: no persisted row twice, every row's id known to the dedup set, and each send
  still waiting for its echo has one bubble at most, which has no id yet.
\<close>

definition chat_ok :: "chat_state \<Rightarrow> bool" where
  "chat_ok s \<longleftrightarrow>
     distinct (row_ids (cs_messages s)) \<and> set (row_ids (cs_messages s)) \<subseteq> cs_shown s \<and>
     pending_rows_ok (cs_pending s) (cs_messages s)"

lemma cap_tail_suffix: "\<exists>pre. ms = pre @ cap_tail ms"
  using last_n_suffix [of ms max_messages] by (auto simp: cap_tail_def)

lemma cap_tail_id [simp]: "length ms \<le> max_messages \<Longrightarrow> cap_tail ms = ms"
  by (simp add: cap_tail_def)

definition rows_ok :: "jsnum set \<Rightarrow> string set \<Rightarrow> chat_message list \<Rightarrow> bool" where
  "rows_ok shown pend ms \<longleftrightarrow> distinct (row_ids ms) \<and> set (row_ids ms) \<subseteq> shown \<and> pending_rows_ok pend ms"

lemma rows_ok_suffix: "rows_ok shown pend (xs @ ys) \<Longrightarrow> rows_ok shown pend ys"
  by (auto simp: rows_ok_def pending_rows_ok_def)

lemma rows_ok_cap: "rows_ok shown pend ms \<Longrightarrow> rows_ok shown pend (cap_tail ms)"
  using cap_tail_suffix [of ms] rows_ok_suffix by metis

lemma chat_ok_rows: "chat_ok s \<longleftrightarrow> rows_ok (cs_shown s) (cs_pending s) (cs_messages s)"
  by (simp add: chat_ok_def rows_ok_def)

lemma rows_ok_append:
  "rows_ok shown pend (xs @ ys) \<longleftrightarrow> rows_ok shown pend xs \<and> rows_ok shown pend ys \<and>
     set (row_ids xs) \<inter> set (row_ids ys) = {} \<and> set (row_intents xs) \<inter> set (row_intents ys) \<inter> pend = {}"
proof -
  have "distinct (filter (\<lambda>t. t \<in> pend) (row_intents xs) @ filter (\<lambda>t. t \<in> pend) (row_intents ys)) \<longleftrightarrow>
      distinct (filter (\<lambda>t. t \<in> pend) (row_intents xs)) \<and> distinct (filter (\<lambda>t. t \<in> pend) (row_intents ys)) \<and>
      set (row_intents xs) \<inter> set (row_intents ys) \<inter> pend = {}"
    by auto
  then show ?thesis
    unfolding rows_ok_def pending_rows_ok_def row_ids_append row_intents_append filter_append distinct_append
      set_append Un_subset_iff ball_Un by blast
qed

lemma rows_ok_single:
  "rows_ok shown pend [m] \<longleftrightarrow> (\<forall>i. cm_id m = Some i \<longrightarrow> i \<in> shown) \<and>
     (\<forall>t. intent_of m = Some t \<and> t \<in> pend \<longrightarrow> cm_id m = None)"
  by (auto simp: rows_ok_def pending_rows_ok_def split: option.splits)

lemma rows_ok_Cons:
  "rows_ok shown pend (m # ms) \<longleftrightarrow> rows_ok shown pend ms \<and>
     (\<forall>i. cm_id m = Some i \<longrightarrow> i \<in> shown \<and> i \<notin> set (row_ids ms)) \<and>
     (\<forall>t. intent_of m = Some t \<and> t \<in> pend \<longrightarrow> t \<notin> set (row_intents ms) \<and> cm_id m = None)"
  using rows_ok_append [of shown pend "[m]" ms] rows_ok_single [of shown pend m]
  by (cases "cm_id m"; cases "intent_of m") auto

text \<open>Appending one row.\<close>

lemma rows_ok_snoc:
  "rows_ok shown pend ms \<Longrightarrow> (\<And>i. cm_id m = Some i \<Longrightarrow> i \<in> shown \<and> i \<notin> set (row_ids ms)) \<Longrightarrow>
   (\<And>t. intent_of m = Some t \<Longrightarrow> t \<in> pend \<Longrightarrow> t \<notin> set (row_intents ms) \<and> cm_id m = None) \<Longrightarrow>
   rows_ok shown pend (ms @ [m])"
  by (auto simp: rows_ok_def pending_rows_ok_def split: option.splits)

lemma rows_ok_mono: "rows_ok shown pend ms \<Longrightarrow> shown \<subseteq> shown' \<Longrightarrow> pend' \<subseteq> pend \<Longrightarrow> rows_ok shown' pend' ms"
proof -
  assume a: "rows_ok shown pend ms" "shown \<subseteq> shown'" "pend' \<subseteq> pend"
  have "filter (\<lambda>t. t \<in> pend') (row_intents ms) = filter (\<lambda>t. t \<in> pend') (filter (\<lambda>t. t \<in> pend) (row_intents ms))"
    using a(3) by (auto intro: filter_cong)
  then have "distinct (filter (\<lambda>t. t \<in> pend') (row_intents ms))"
    using a(1) unfolding rows_ok_def pending_rows_ok_def by (metis distinct_filter)
  with a show ?thesis by (auto simp: rows_ok_def pending_rows_ok_def)
qed

subsection \<open>Seeding keeps the invariant\<close>

lemma index_fold:
  "pi_ids (foldl index_event ix es) = pi_ids ix \<union> set (row_ids es) \<and>
   pi_intents (foldl index_event ix es) = pi_intents ix \<union> set (row_intents es)"
  by (induction es arbitrary: ix) (auto simp: index_event_def Let_def split: option.splits)

lemma index_page_sets [simp]:
  "pi_ids (index_page page) = set (row_ids (hp_events page))"
  "pi_intents (index_page page) = set (row_intents (hp_events page))"
  using index_fold [of "\<lparr>pi_ids = {}, pi_intents = {}, pi_oldest = None\<rparr>" "hp_events page"]
  by (simp_all add: index_page_def)

definition page_ok :: "history_page \<Rightarrow> bool" where
  "page_ok page \<longleftrightarrow> distinct (row_ids (hp_events page))"

text \<open>Which of the rows held before survive a seed.\<close>

definition survives :: "string set \<Rightarrow> page_index \<Rightarrow> chat_message \<Rightarrow> bool" where
  "survives pend index m \<longleftrightarrow>
     \<not> (\<exists>t. intent_of m = Some t \<and> t \<in> pend \<and> t \<in> pi_intents index) \<and>
     (case cm_id m of
        None \<Rightarrow> (\<exists>t. intent_of m = Some t \<and> t \<in> pend)
      | Some i \<Rightarrow> i \<notin> pi_ids index)"

definition is_older :: "page_index \<Rightarrow> chat_message \<Rightarrow> bool" where
  "is_older index m \<longleftrightarrow> (case (cm_id m, pi_oldest index) of (Some i, Some oldest) \<Rightarrow> i < oldest | _ \<Rightarrow> False)"

lemma partition_held_filter:
  "fst (partition_held pend index ms) = filter (\<lambda>m. survives pend index m \<and> is_older index m) ms"
  "fst (snd (partition_held pend index ms)) = filter (\<lambda>m. survives pend index m \<and> \<not> is_older index m) ms"
  by (induction ms) (auto simp: survives_def is_older_def Let_def split_beta split: option.splits)

lemma row_filter_mono:
  "set (row_ids (filter P ms)) \<subseteq> set (row_ids ms)" "set (row_intents (filter P ms)) \<subseteq> set (row_intents ms)"
  by (auto simp: row_ids_iff row_intents_iff)

lemma filter_row_intents:
  "filter Q (row_intents (filter P ms)) = filter Q (row_intents (filter (\<lambda>m. P m \<and> (\<exists>t. intent_of m = Some t \<and> Q t)) ms))"
  by (induction ms) (auto split: option.splits)

lemma rows_ok_filter: "rows_ok shown pend ms \<Longrightarrow> rows_ok shown pend (filter P ms)"
proof (induction ms)
  case (Cons m ms)
  have "rows_ok shown pend ms" using rows_ok_suffix [of shown pend "[m]" ms] Cons.prems by simp
  with Cons.IH have IH: "rows_ok shown pend (filter P ms)" by simp
  show ?case
  proof (cases "P m")
    case True
    have "i \<notin> set (row_ids (filter P ms))" if "cm_id m = Some i" for i
      using Cons.prems that row_filter_mono(1) [of P ms] by (auto simp: rows_ok_def)
    moreover have "t \<notin> set (row_intents (filter P ms))" if "intent_of m = Some t" "t \<in> pend" for t
      using Cons.prems that row_filter_mono(2) [of P ms] by (auto simp: rows_ok_def pending_rows_ok_def)
    ultimately show ?thesis
      using IH Cons.prems True by (auto simp: rows_ok_def pending_rows_ok_def split: option.splits)
  qed (use IH in simp)
qed simp

lemma row_ids_filter_split:
  "distinct (row_ids ms) \<Longrightarrow> distinct (row_ids (filter P ms) @ row_ids (filter (\<lambda>m. \<not> P m) ms))"
proof (induction ms)
  case (Cons m ms)
  then show ?case using row_filter_mono(1) [of P ms] row_filter_mono(1) [of "\<lambda>m. \<not> P m" ms]
    by (auto split: option.splits)
qed simp

lemma row_intents_filter_split:
  "distinct (filter Q (row_intents ms)) \<Longrightarrow>
     distinct (filter Q (row_intents (filter P ms)) @ filter Q (row_intents (filter (\<lambda>m. \<not> P m) ms)))"
proof (induction ms)
  case (Cons m ms)
  then show ?case using row_filter_mono(2) [of P ms] row_filter_mono(2) [of "\<lambda>m. \<not> P m" ms]
    by (auto split: option.splits)
qed simp

lemma rows_ok_split:
  assumes "rows_ok shown pend ms"
  shows "rows_ok shown pend (filter P ms @ filter (\<lambda>m. \<not> P m) ms)"
  using assms row_ids_filter_split [of ms P] row_intents_filter_split [of "\<lambda>t. t \<in> pend" ms P]
    row_filter_mono(1) [of P ms] row_filter_mono(1) [of "\<lambda>m. \<not> P m" ms]
  by (auto simp: rows_ok_def pending_rows_ok_def)

text \<open>Older rows, then a page, then newer rows.\<close>

lemma rows_ok_seed:
  assumes ok: "rows_ok shown pend (older @ newer)" and page: "distinct (row_ids page)"
    and off: "\<forall>m \<in> set (older @ newer). \<forall>i. cm_id m = Some i \<longrightarrow> i \<notin> set (row_ids page)"
  shows "rows_ok (shown \<union> set (row_ids page)) (pend - set (row_intents page)) (older @ page @ newer)"
proof -
  have ids: "set (row_ids page) \<inter> set (row_ids (older @ newer)) = {}"
    using off unfolding disjoint_iff row_ids_iff by metis
  have none: "filter (\<lambda>t. t \<in> pend - set (row_intents page)) (row_intents page) = []"
    by (simp add: filter_empty_conv)
  have "rows_ok (shown \<union> set (row_ids page)) (pend - set (row_intents page)) page"
    unfolding rows_ok_def pending_rows_ok_def none using page by (auto simp: row_intents_iff)
  moreover have "rows_ok (shown \<union> set (row_ids page)) (pend - set (row_intents page)) (older @ newer)"
    by (rule rows_ok_mono [OF ok]) auto
  ultimately show ?thesis using ids unfolding rows_ok_append row_ids_append row_intents_append set_append by blast
qed

lemma seed_tail_ok:
  assumes "chat_ok s" "page_ok page"
  shows "chat_ok (seed_tail s page)"
proof -
  let ?ix = "index_page page" and ?ms = "cs_messages s" and ?pend = "cs_pending s"
  obtain older newer ov where p: "partition_held ?pend ?ix ?ms = (older, newer, ov)"
    using prod_cases3 by blast
  let ?S = "survives ?pend ?ix" and ?O = "is_older ?ix"
  have on: "older = filter ?O (filter ?S ?ms)" "newer = filter (\<lambda>m. \<not> ?O m) (filter ?S ?ms)"
    using partition_held_filter [of ?pend ?ix ?ms] p by (auto intro!: filter_cong)
  let ?older = "if older = [] \<or> ov then older else []"
  have "rows_ok (cs_shown s) ?pend (older @ newer)"
    unfolding on by (intro rows_ok_split rows_ok_filter) (use assms(1) in \<open>simp add: chat_ok_rows\<close>)
  moreover then have "rows_ok (cs_shown s) ?pend newer" by (rule rows_ok_suffix)
  ultimately have rows: "rows_ok (cs_shown s) ?pend (?older @ newer)" by simp
  have off: "\<forall>m \<in> set (?older @ newer). \<forall>i. cm_id m = Some i \<longrightarrow> i \<notin> set (row_ids (hp_events page))"
    by (auto simp: on survives_def)
  from rows_ok_seed [OF rows _ off] assms(2)
  have "rows_ok (cs_shown s \<union> set (row_ids (hp_events page))) (?pend - set (row_intents (hp_events page)))
    (?older @ hp_events page @ newer)" by (simp add: page_ok_def)
  from rows_ok_cap [OF this] show ?thesis
    by (simp add: seed_tail_def p Let_def chat_ok_rows)
qed

subsection \<open>The live folds keep the invariant\<close>

lemma intent_of_confirm [simp]: "intent_of (confirm_with e m) = intent_of m"
  by (cases "cm_body m"; cases "cm_body e") (simp_all add: confirm_with_def intent_of_def)

lemma intent_of_set_send [simp]: "intent_of (set_send_state x m) = intent_of m" "cm_id (set_send_state x m) = cm_id m"
  by (cases "cm_body m"; simp add: set_send_state_def intent_of_def)+

lemma row_intents_map:
  "(\<And>m. intent_of (f m) = intent_of m) \<Longrightarrow> row_intents (map f ms) = row_intents ms"
  by (induction ms) (auto split: option.splits)

lemma row_ids_map_same: "(\<And>m. cm_id (f m) = cm_id m) \<Longrightarrow> row_ids (map f ms) = row_ids ms"
  by (induction ms) (auto split: option.splits)

lemma mark_send_ok: "chat_ok s \<Longrightarrow> chat_ok (mark_send s t x)"
  by (auto simp: mark_send_def chat_ok_def pending_rows_ok_def row_intents_map row_ids_map_same)

lemma confirm_id: "intent_of m = Some t \<Longrightarrow> intent_of e = Some t' \<Longrightarrow>
   cm_id (confirm_with e m) = (case cm_id e of None \<Rightarrow> cm_id m | Some i \<Rightarrow> Some i)"
  by (auto simp: confirm_with_def intent_of_def split: chat_body.splits option.splits)

lemma confirm_rows_ok:
  assumes ok: "rows_ok shown pend ms" and e: "intent_of e = Some t" "t \<in> pend"
    and fresh: "\<And>i. cm_id e = Some i \<Longrightarrow> i \<notin> set (row_ids ms)"
  shows "rows_ok (insert_id (cm_id e) shown) (pend - {t})
    (map (\<lambda>m. if intent_of m = Some t then confirm_with e m else m) ms)"
  using ok fresh
proof (induction ms)
  case Nil
  then show ?case by (simp add: rows_ok_def pending_rows_ok_def)
next
  case (Cons m ms)
  let ?f = "\<lambda>m. if intent_of m = Some t then confirm_with e m else m"
  note ok' = Cons.prems(1) [unfolded rows_ok_Cons]
  have fresh': "\<And>i. cm_id e = Some i \<Longrightarrow> i \<notin> set (row_ids ms) \<and> cm_id m \<noteq> Some i"
    using Cons.prems(2) by (auto split: option.splits)
  have IH: "rows_ok (insert_id (cm_id e) shown) (pend - {t}) (map ?f ms)" using Cons.IH ok' fresh' by blast
  have intents: "row_intents (map ?f ms) = row_intents ms" by (rule row_intents_map) simp
  show ?case
  proof (cases "intent_of m = Some t")
    case False
    have "i \<notin> set (row_ids (map ?f ms))" if i: "cm_id m = Some i" for i
    proof
      assume "i \<in> set (row_ids (map ?f ms))"
      then obtain x where x: "x \<in> set ms" "cm_id (?f x) = Some i" by (auto simp: row_ids_iff)
      then have "cm_id x = Some i \<or> cm_id e = Some i"
        using confirm_id [OF _ e(1), of x] by (auto split: if_splits option.splits)
      with x(1) i ok' fresh' show False by (auto simp: row_ids_iff)
    qed
    then have "rows_ok (insert_id (cm_id e) shown) (pend - {t}) (m # map ?f ms)"
      unfolding rows_ok_Cons intents using IH ok' by (auto simp: insert_id_def split: option.splits)
    with False show ?thesis by simp
  next
    case True
    have nt: "t \<notin> set (row_intents ms)" "cm_id m = None" using ok' True e(2) by auto
    then have same: "map ?f ms = ms" by (auto simp: row_intents_iff intro!: map_idI)
    have "cm_id (confirm_with e m) = cm_id e" using confirm_id [OF True e(1)] nt(2) by (simp split: option.splits)
    then have "rows_ok (insert_id (cm_id e) shown) (pend - {t}) (confirm_with e m # ms)"
      unfolding rows_ok_Cons using IH same True fresh' by (auto simp: insert_id_def split: option.splits)
    with True same show ?thesis by simp
  qed
qed

text \<open>An echo of a pending send names a row that is not held yet.\<close>

definition live_ok :: "chat_state \<Rightarrow> chat_message \<Rightarrow> bool" where
  "live_ok s e \<longleftrightarrow> (case (intent_of e, cm_id e) of
     (Some t, Some i) \<Rightarrow> t \<in> cs_pending s \<longrightarrow> i \<notin> set (row_ids (cs_messages s)) | _ \<Rightarrow> True)"

lemma fold_live_ok:
  assumes ok: "chat_ok s" and e: "live_ok s e"
  shows "chat_ok (fst (fold_live_event s e))"
proof -
  have rows: "rows_ok (cs_shown s) (cs_pending s) (cs_messages s)" using ok by (simp add: chat_ok_rows)
  have append: "rows_ok (insert_id (cm_id e) (cs_shown s)) (cs_pending s) (cap_tail (cs_messages s @ [e]))"
    if "\<And>t. intent_of e = Some t \<Longrightarrow> t \<notin> cs_pending s" "\<And>i. cm_id e = Some i \<Longrightarrow> i \<notin> cs_shown s"
  proof (rule rows_ok_cap, rule rows_ok_snoc)
    show "rows_ok (insert_id (cm_id e) (cs_shown s)) (cs_pending s) (cs_messages s)"
      by (rule rows_ok_mono [OF rows]) (auto simp: insert_id_def split: option.splits)
  qed (use that rows in \<open>auto simp: insert_id_def rows_ok_def\<close>)
  have mono: "rows_ok (insert i (cs_shown s)) (cs_pending s) (cs_messages s)" for i
    by (rule rows_ok_mono [OF rows]) auto
  show ?thesis
  proof (cases "\<exists>t. intent_of e = Some t \<and> t \<in> cs_pending s")
    case True
    then obtain t where t: "intent_of e = Some t" "t \<in> cs_pending s" by blast
    have "i \<notin> set (row_ids (cs_messages s))" if "cm_id e = Some i" for i using e t that by (simp add: live_ok_def)
    from confirm_rows_ok [OF rows t this] ok t show ?thesis by (simp add: fold_live_event_def chat_ok_rows)
  next
    case False
    then have np: "(case intent_of e of None \<Rightarrow> None | Some t \<Rightarrow> if t \<in> cs_pending s then Some t else None) = None"
      by (auto split: option.splits)
    show ?thesis
      unfolding fold_live_event_def np using append False ok mono
      by (auto simp: chat_ok_rows insert_id_def split: option.splits)
  qed
qed

lemma commit_paced_ok:
  assumes "chat_ok s" "is_chat e" "cm_id e = Some i" "i \<in> cs_shown s"
  shows "chat_ok (commit_paced_chat s e)"
proof (cases "i \<in> set (row_ids (cs_messages s))")
  case True
  then show ?thesis using assms by (auto simp: commit_paced_chat_def row_ids_iff list_ex_iff)
next
  case False
  have "intent_of e = None" using assms(2) by (auto simp: is_chat_def intent_of_def split: chat_body.splits)
  then have "rows_ok (cs_shown s) (cs_pending s) (cap_tail (cs_messages s @ [e]))"
    using assms False by (intro rows_ok_cap rows_ok_snoc) (auto simp: chat_ok_rows)
  with False assms show ?thesis by (auto simp: commit_paced_chat_def chat_ok_rows row_ids_iff list_ex_iff)
qed

lemma begin_send_ok:
  assumes "chat_ok s" "t \<notin> set (row_intents (cs_messages s))"
  shows "chat_ok (begin_send now_iso s txt m t a)"
proof -
  have "filter (\<lambda>x. x \<in> insert t (cs_pending s)) (row_intents (cs_messages s)) =
      filter (\<lambda>x. x \<in> cs_pending s) (row_intents (cs_messages s))"
    using assms(2) by (auto intro: filter_cong)
  then have "rows_ok (cs_shown s) (insert t (cs_pending s)) (cs_messages s)"
    using assms by (auto simp: chat_ok_def rows_ok_def pending_rows_ok_def row_intents_iff)
  then have "rows_ok (cs_shown s) (insert t (cs_pending s)) (cap_tail (cs_messages s @ [b]))"
    if "intent_of b = Some t" "cm_id b = None" for b
    using that assms(2) by (intro rows_ok_cap rows_ok_snoc) auto
  then show ?thesis by (simp add: begin_send_def chat_ok_rows intent_of_def)
qed

text \<open>The rows a trim keeps are all at or above the cursor it sets.\<close>

definition trim_safe :: "nat \<Rightarrow> chat_state \<Rightarrow> bool" where
  "trim_safe keep s \<longleftrightarrow>
     (case Option.bind (find (\<lambda>m. cm_id m \<noteq> None) (last_n keep (cs_messages s))) cm_id of
        None \<Rightarrow> True
      | Some oldest \<Rightarrow> list_all (\<lambda>i. oldest \<le> i) (row_ids (last_n keep (cs_messages s))))"

lemma trim_tail_ok:
  assumes "chat_ok s" "trim_safe keep s"
  shows "chat_ok (trim_tail keep s)"
proof -
  obtain pre where "cs_messages s = pre @ last_n keep (cs_messages s)" using last_n_suffix by blast
  with assms(1) have "rows_ok (cs_shown s) (cs_pending s) (last_n keep (cs_messages s))"
    unfolding chat_ok_rows using rows_ok_suffix by metis
  then show ?thesis
    using assms
    by (auto simp: trim_tail_def trim_safe_def Let_def chat_ok_rows rows_ok_def list_all_iff split: option.splits)
qed

definition prepend_ok :: "chat_state \<Rightarrow> chat_message list \<Rightarrow> bool" where
  "prepend_ok s events \<longleftrightarrow> distinct (row_ids events) \<and> set (row_ids events) \<inter> set (row_ids (cs_messages s)) = {} \<and>
     set (row_intents events) \<inter> cs_pending s = {}"

lemma insert_ids_fold: "foldl (\<lambda>shown e. insert_id (cm_id e) shown) A es = A \<union> set (row_ids es)"
  by (induction es arbitrary: A) (auto simp: insert_id_def split: option.splits)

lemma prepend_page_ok:
  assumes "chat_ok s" "prepend_ok s events"
  shows "chat_ok (prepend_page s events c)"
proof -
  have "filter (\<lambda>t. t \<in> cs_pending s) (row_intents events) = []"
    using assms(2) by (auto simp: prepend_ok_def filter_empty_conv)
  moreover have "\<forall>m \<in> set events. \<forall>t \<in> cs_pending s. intent_of m \<noteq> Some t"
    using assms(2) by (auto simp: prepend_ok_def disjoint_iff row_intents_iff)
  ultimately have "rows_ok (cs_shown s \<union> set (row_ids events)) (cs_pending s) events"
    using assms(2) by (auto simp: rows_ok_def pending_rows_ok_def prepend_ok_def)
  moreover have "rows_ok (cs_shown s \<union> set (row_ids events)) (cs_pending s) (cs_messages s)"
    by (rule rows_ok_mono [OF assms(1) [unfolded chat_ok_rows]]) auto
  ultimately show ?thesis
    using assms(2) by (auto simp: prepend_page_def insert_ids_fold chat_ok_rows rows_ok_append prepend_ok_def)
qed

subsection \<open>The tail as a machine\<close>

datatype chat_event =
  SeedPage history_page
| LiveEvent chat_message
| CommitReply chat_message
| BeginSend string string input_method string "chat_attachment list option"
| MarkSend string "send_state option"
| TrimHistory nat
| PrependPage "chat_message list" "jsnum option"

text \<open>The output is the event flagged as paced.\<close>

fun chat_step :: "chat_state \<Rightarrow> chat_event \<Rightarrow> chat_state \<times> chat_message list" where
  "chat_step s (SeedPage page) = (seed_tail s page, [])"
| "chat_step s (LiveEvent e) = (let (s', paced) = fold_live_event s e in (s', if paced then [e] else []))"
| "chat_step s (CommitReply e) = (commit_paced_chat s e, [])"
| "chat_step s (BeginSend now_iso txt m t a) = (begin_send now_iso s txt m t a, [])"
| "chat_step s (MarkSend t x) = (mark_send s t x, [])"
| "chat_step s (TrimHistory keep) = (trim_tail keep s, [])"
| "chat_step s (PrependPage es c) = (prepend_page s es c, [])"

text \<open>
  What the service and the caller promise: a page lists a row once, an echo names a row that
  is not held, a committed reply was folded before, a send has a fresh intent, an older page
  holds none of the rows held.
\<close>

fun chat_enabled :: "chat_state \<Rightarrow> chat_event \<Rightarrow> bool" where
  "chat_enabled s (SeedPage page) \<longleftrightarrow> page_ok page"
| "chat_enabled s (LiveEvent e) \<longleftrightarrow> live_ok s e"
| "chat_enabled s (CommitReply e) \<longleftrightarrow> is_chat e \<and> (case cm_id e of None \<Rightarrow> False | Some i \<Rightarrow> i \<in> cs_shown s)"
| "chat_enabled s (BeginSend now_iso txt m t a) \<longleftrightarrow> t \<notin> set (row_intents (cs_messages s))"
| "chat_enabled s (MarkSend t x) \<longleftrightarrow> True"
| "chat_enabled s (TrimHistory keep) \<longleftrightarrow> trim_safe keep s"
| "chat_enabled s (PrependPage es c) \<longleftrightarrow> prepend_ok s es"

lemma chat_ok_step: "chat_ok s \<Longrightarrow> chat_enabled s e \<Longrightarrow> chat_ok (fst (chat_step s e))"
  by (cases e)
    (auto simp: seed_tail_ok mark_send_ok begin_send_ok trim_tail_ok prepend_page_ok split_beta Let_def
      intro: fold_live_ok commit_paced_ok split: option.splits)

interpretation chat: machine chat_step chat_enabled chat_ok
  by unfold_locales (rule chat_ok_step)

lemma chat_ok_initial: "chat_ok initial_chat_state"
  by (simp add: chat_ok_def initial_chat_state_def pending_rows_ok_def)

subsection \<open>Trimming and paging back\<close>

lemma find_first_id:
  "Option.bind (find (\<lambda>m. cm_id m \<noteq> None) ms) cm_id = (case row_ids ms of [] \<Rightarrow> None | i # _ \<Rightarrow> Some i)"
  by (induction ms) (auto split: option.splits)

lemma sorted_trim_safe:
  assumes "sorted_wrt (<) (row_ids (cs_messages s))"
  shows "trim_safe keep s"
proof -
  obtain pre where "cs_messages s = pre @ last_n keep (cs_messages s)" using last_n_suffix by blast
  then have "row_ids (cs_messages s) = row_ids pre @ row_ids (last_n keep (cs_messages s))"
    by (metis row_ids_append)
  with assms have "sorted_wrt (<) (row_ids (last_n keep (cs_messages s)))" by (simp add: sorted_wrt_append)
  then show ?thesis
    unfolding trim_safe_def find_first_id by (auto simp: list_all_iff intro: less_imp_le split: list.splits)
qed

subsection \<open>The typing delay\<close>

lemma typing_delay_bounds:
  assumes "0 \<le> rng" "rng < 1"
  shows "1200 \<le> typing_delay n rng \<and> typing_delay n rng < 7200"
proof -
  define raw where "raw = min (pacing_min + pacing_per_char * int n) pacing_max"
  define v where "v = \<lfloor>of_int raw * (1/5 :: rat)\<rfloor>"
  have raw: "1500 \<le> raw" "raw \<le> 6000" by (auto simp: raw_def pacing_min_def pacing_max_def pacing_per_char_def)
  have "v = raw div 5" using floor_divide_of_int_eq [of raw 5, where 'a = rat] by (simp add: v_def)
  then have v: "0 \<le> v" "5 * v \<le> raw" "raw < 5 * v + 5" using raw by linarith+
  have "0 \<le> \<lfloor>rng * of_int v * 2\<rfloor>" using assms(1) v(1) by simp
  moreover have "\<lfloor>rng * of_int v * 2\<rfloor> < 2 * v"
  proof -
    have "(0::rat) < of_int v * 2" using v raw by simp
    from mult_strict_right_mono [OF assms(2) this] have "rng * of_int v * 2 < of_int (2 * v)"
      by (simp add: mult.assoc mult.commute)
    then show ?thesis by (metis floor_less_iff)
  qed
  ultimately show ?thesis
    using raw v unfolding typing_delay_def Let_def raw_def [symmetric] v_def [symmetric]
    by (intro conjI; linarith)
qed

lemma filter_split_length:
  "length (filter (\<lambda>m. P m \<and> Q m) ms) + length (filter (\<lambda>m. P m \<and> \<not> Q m) ms) \<le> length ms"
  by (induction ms) auto

subsection \<open>Two edges of the trim\<close>

text \<open>
  Rows can be out of id order: a bubble keeps its place when its echo gives it an id, so a row
  that arrived in between has a smaller id and stands after it.  A trim that cuts just before
  such a bubble sets its cursor above a row it keeps, and the next older page, which holds
  every row below the cursor, brings that row a second time.
\<close>

definition user_row :: "jsnum \<Rightarrow> string \<Rightarrow> chat_message" where
  "user_row i t = \<lparr>cm_id = Some i, cm_ts = None, cm_body = UserBody \<lparr>us_text = ''x'', us_input_method = None,
     us_attachments = None, us_intent_id = Some t, us_send_state = None\<rparr>\<rparr>"

definition out_of_order :: chat_state where
  "out_of_order = fst (run_events chat_step initial_chat_state
     [LiveEvent (user_row 1 ''a''), BeginSend ''now'' ''x'' Typed ''mine'' None, LiveEvent (user_row 12 ''b''),
      LiveEvent (user_row 13 ''mine'')])"

lemma user_row_facts [simp]:
  "cm_id (user_row i t) = Some i" "intent_of (user_row i t) = Some t" "is_chat_row (user_row i t)" "\<not> is_chat (user_row i t)"
  by (simp_all add: user_row_def intent_of_def is_chat_row_def is_chat_def)

lemma trim_cursor_above_kept_row:
  "cs_cursor (trim_tail 2 out_of_order) = Some 13 \<and> row_ids (cs_messages (trim_tail 2 out_of_order)) = [13, 12] \<and>
   \<not> distinct (row_ids (cs_messages (prepend_page (trim_tail 2 out_of_order) [user_row 1 ''a'', user_row 12 ''b''] None)))"
proof -
  have m: "row_ids (cs_messages out_of_order) = [1, 13, 12]" "length (cs_messages out_of_order) = 3"
    "\<exists>a b c. cs_messages out_of_order = [a, b, c] \<and> cm_id b = Some 13 \<and> cm_id c = Some 12"
    by (simp_all add: out_of_order_def initial_chat_state_def fold_live_event_def begin_send_def Let_def
        insert_id_def confirm_with_def intent_of_def user_row_def is_chat_row_def is_chat_def max_messages_def)
  then obtain a b c where abc: "cs_messages out_of_order = [a, b, c]" "cm_id b = Some 13" "cm_id c = Some 12" by blast
  then have t: "trim_tail 2 out_of_order = out_of_order\<lparr>cs_messages := [b, c],
      cs_shown := Set.filter (\<lambda>i. i \<ge> 13) (cs_shown out_of_order), cs_cursor := Some 13\<rparr>"
    by (simp add: trim_tail_def last_n_def)
  show ?thesis unfolding t using abc by (simp add: prepend_page_def)
qed

text \<open>A send that failed keeps its place too, so a trim can drop the bubble while its intent is
  still pending.\<close>

lemma trim_drops_unsent_bubble:
  "\<exists>s. s = fst (run_events chat_step initial_chat_state
     [BeginSend ''now'' ''x'' Typed ''mine'' None, MarkSend ''mine'' (Some Failed),
      LiveEvent (user_row 5 ''a''), LiveEvent (user_row 6 ''b'')]) \<and>
   ''mine'' \<in> cs_pending (trim_tail 2 s) \<and> ''mine'' \<notin> set (row_intents (cs_messages (trim_tail 2 s)))"
  by (simp add: initial_chat_state_def fold_live_event_def begin_send_def mark_send_def Let_def
      insert_id_def set_send_state_def intent_of_def user_row_def is_chat_row_def is_chat_def max_messages_def
      trim_tail_def last_n_def)

subsection \<open>Properties\<close>

text \<open>C11: No message is shown twice: however pages, live events, paced replies, sends, echoes, trims and
  older pages interleave, the rows hold each persisted id once, the dedup set knows every one of them, and a
  send still waiting for its echo has one bubble at most. What is relied on: a page of the service lists an
  id once; the echo of a waiting send names a row that is not held; a paced reply that is committed is a chat
  row folded before; a send has a fresh intent; a page of older rows holds none of the rows held and none of
  the waiting intents; and the rows a trim keeps have no id below the first one, which is the cursor it pages back
  from (it holds where the rows are in the order of their ids, \<open>sorted_trim_safe\<close>; where they are not, a
  row can come twice: \<open>trim_cursor_above_kept_row\<close>).\<close>

theorem no_message_shown_twice:
  assumes "legal_events chat_step chat_enabled initial_chat_state es"
    and "s = fst (run_events chat_step initial_chat_state es)"
  shows "distinct (row_ids (cs_messages s)) \<and> set (row_ids (cs_messages s)) \<subseteq> cs_shown s \<and>
    distinct (filter (\<lambda>t. t \<in> cs_pending s) (row_intents (cs_messages s)))"
  using chat.run_inv [OF chat_ok_initial assms(1)] by (simp add: assms(2) chat_ok_def pending_rows_ok_def)

definition chat_sample :: "chat_event list" where
  "chat_sample = [SeedPage \<lparr>hp_events = [user_row 1 ''a''], hp_cursor = None\<rparr>,
     BeginSend ''now'' ''x'' Typed ''mine'' None, LiveEvent (user_row 2 ''mine''), LiveEvent (user_row 2 ''mine'')]"

theorem no_message_shown_twice_witness:
  "\<exists>s. s = fst (run_events chat_step initial_chat_state chat_sample) \<and> distinct (row_ids (cs_messages s))"
proof -
  have "legal_events chat_step chat_enabled initial_chat_state chat_sample"
    by (simp add: chat_sample_def initial_chat_state_def page_ok_def seed_tail_def index_page_def index_event_def
        begin_send_def live_ok_def fold_live_event_def Let_def insert_id_def confirm_with_def intent_of_def
        user_row_def is_chat_row_def is_chat_def max_messages_def)
  from no_message_shown_twice [OF this refl] show ?thesis by blast
qed

text \<open>Reseeding from the newest page loses nothing in flight: every row of the page is on the
  list, and every bubble whose echo is not on the page is still there and still waiting.\<close>

theorem seed_keeps_page_and_unconfirmed_sends:
  assumes "length (cs_messages s) + length (hp_events page) \<le> max_messages"
  shows "set (hp_events page) \<subseteq> set (cs_messages (seed_tail s page)) \<and>
    (\<forall>m \<in> set (cs_messages s). \<forall>t. intent_of m = Some t \<and> t \<in> cs_pending s \<and> cm_id m = None \<and>
       t \<notin> set (row_intents (hp_events page)) \<longrightarrow>
       m \<in> set (cs_messages (seed_tail s page)) \<and> t \<in> cs_pending (seed_tail s page))"
proof -
  let ?ix = "index_page page" and ?pend = "cs_pending s" and ?ms = "cs_messages s"
  obtain older newer ov where p: "partition_held ?pend ?ix ?ms = (older, newer, ov)"
    using prod_cases3 by blast
  have on: "older = filter (\<lambda>m. survives ?pend ?ix m \<and> is_older ?ix m) ?ms"
    "newer = filter (\<lambda>m. survives ?pend ?ix m \<and> \<not> is_older ?ix m) ?ms"
    using partition_held_filter [of ?pend ?ix ?ms] p by simp_all
  have "length older + length newer \<le> length ?ms" unfolding on by (rule filter_split_length)
  then have "length ((if older = [] \<or> ov then older else []) @ hp_events page @ newer) \<le> max_messages"
    using assms by simp
  then have msgs: "cs_messages (seed_tail s page) = (if older = [] \<or> ov then older else []) @ hp_events page @ newer"
    by (simp add: seed_tail_def p Let_def)
  have pend: "cs_pending (seed_tail s page) = ?pend - set (row_intents (hp_events page))"
    by (simp add: seed_tail_def p Let_def)
  show ?thesis unfolding msgs pend by (auto simp: on survives_def is_older_def)
qed

theorem seed_keeps_page_and_unconfirmed_sends_witness:
  "set [user_row 1 ''a''] \<subseteq> set (cs_messages (seed_tail (begin_send ''now'' initial_chat_state ''x'' Typed ''mine'' None)
     \<lparr>hp_events = [user_row 1 ''a''], hp_cursor = None\<rparr>))"
  using seed_keeps_page_and_unconfirmed_sends [of "begin_send ''now'' initial_chat_state ''x'' Typed ''mine'' None"
      "\<lparr>hp_events = [user_row 1 ''a''], hp_cursor = None\<rparr>"]
  by (simp add: begin_send_def initial_chat_state_def max_messages_def)

text \<open>An echo confirms its bubble in place: no row moves, appears or goes, the bubble takes the
  echo's id and loses its send state, its intent waits no more, and every other row is
  untouched.\<close>

theorem echo_confirms_in_place:
  assumes "intent_of e = Some t" "t \<in> cs_pending s"
  shows "length (cs_messages (fst (fold_live_event s e))) = length (cs_messages s) \<and>
    t \<notin> cs_pending (fst (fold_live_event s e)) \<and>
    list_all2 (\<lambda>m m'. if intent_of m = Some t
        then intent_of m' = Some t \<and> (cm_id e \<noteq> None \<longrightarrow> cm_id m' = cm_id e) \<and>
          (case cm_body m' of UserBody u \<Rightarrow> us_send_state u = None | _ \<Rightarrow> False)
        else m' = m) (cs_messages s) (cs_messages (fst (fold_live_event s e)))"
proof -
  obtain u where u: "cm_body e = UserBody u" "us_intent_id u = Some t"
    using assms(1) by (auto simp: intent_of_def split: chat_body.splits)
  then have row: "is_chat_row e" by (simp add: is_chat_row_def)
  have body: "case cm_body (confirm_with e m) of UserBody v \<Rightarrow> us_send_state v = None | _ \<Rightarrow> False"
    if m: "intent_of m = Some t" for m
  proof -
    obtain v where "cm_body m = UserBody v" using m by (cases "cm_body m") (auto simp: intent_of_def)
    then show ?thesis by (simp add: confirm_with_def u(1))
  qed
  have id: "cm_id e \<noteq> None \<longrightarrow> cm_id (confirm_with e m) = cm_id e" if "intent_of m = Some t" for m
    using confirm_id [OF that assms(1)] by (auto split: option.splits)
  have f: "fst (fold_live_event s e) = s\<lparr>cs_messages := map (\<lambda>m. if intent_of m = Some t then confirm_with e m else m) (cs_messages s),
      cs_shown := insert_id (cm_id e) (cs_shown s), cs_pending := cs_pending s - {t}\<rparr>"
    using assms row by (simp add: fold_live_event_def)
  show ?thesis unfolding f using body id by (auto simp: list_all2_conv_all_nth)
qed

theorem echo_confirms_in_place_witness:
  "''mine'' \<notin> cs_pending (fst (fold_live_event (begin_send ''now'' initial_chat_state ''x'' Typed ''mine'' None)
     (user_row 2 ''mine'')))"
  using echo_confirms_in_place [of "user_row 2 ''mine''" "''mine''" "begin_send ''now'' initial_chat_state ''x'' Typed ''mine'' None"]
  by (simp add: begin_send_def)

text \<open>While the rows are in id order, trimming and paging back are inverse: the cursor a trim
  leaves splits the rows exactly, what is below it was dropped and what is at or above it is
  kept, so prepending the dropped rows restores the list.\<close>

theorem trim_then_page_restores:
  assumes "sorted_wrt (<) (row_ids (cs_messages s))" "trim_tail keep s \<noteq> s"
  shows "\<exists>dropped c. cs_cursor (trim_tail keep s) = Some c \<and>
    cs_messages (prepend_page (trim_tail keep s) dropped d) = cs_messages s \<and>
    (\<forall>i \<in> set (row_ids dropped). i < c) \<and> (\<forall>i \<in> set (row_ids (cs_messages (trim_tail keep s))). c \<le> i)"
proof -
  obtain pre where pre: "cs_messages s = pre @ last_n keep (cs_messages s)" using last_n_suffix by blast
  let ?kept = "last_n keep (cs_messages s)"
  have ids: "row_ids (cs_messages s) = row_ids pre @ row_ids ?kept" by (metis pre row_ids_append)
  from assms(2) obtain c cs where c: "row_ids ?kept = c # cs"
    and t: "trim_tail keep s = s\<lparr>cs_messages := ?kept, cs_shown := Set.filter (\<lambda>i. i \<ge> c) (cs_shown s), cs_cursor := Some c\<rparr>"
    unfolding trim_tail_def find_first_id Let_def by (auto split: if_splits list.splits option.splits)
  have "sorted_wrt (<) (row_ids pre @ c # cs)" using assms(1) ids c by simp
  then have "\<forall>i \<in> set (row_ids pre). i < c" "\<forall>i \<in> set (c # cs). c \<le> i"
    by (auto simp: sorted_wrt_append intro: less_imp_le)
  then show ?thesis
    by (intro exI [of _ pre] exI [of _ c]) (simp add: t c prepend_page_def pre [symmetric])
qed

theorem trim_then_page_restores_witness:
  "\<exists>dropped c. cs_cursor (trim_tail 1 (fst (fold_live_event (fst (fold_live_event initial_chat_state
      (user_row 1 ''a''))) (user_row 2 ''b'')))) = Some c \<and> row_ids dropped = [1] \<and> c = 2"
proof -
  let ?s = "fst (fold_live_event (fst (fold_live_event initial_chat_state (user_row 1 ''a''))) (user_row 2 ''b''))"
  have m: "cs_messages ?s = [user_row 1 ''a'', user_row 2 ''b'']"
    by (simp add: initial_chat_state_def fold_live_event_def max_messages_def)
  have t: "cs_messages (trim_tail 1 ?s) = [user_row 2 ''b'']" "cs_cursor (trim_tail 1 ?s) = Some 2"
    using m by (simp_all add: trim_tail_def last_n_def)
  then have ne: "trim_tail 1 ?s \<noteq> ?s" using m by auto
  have "sorted_wrt (<) (row_ids (cs_messages ?s))" by (simp add: m)
  from trim_then_page_restores [OF this ne, of None] obtain dropped c where
    "cs_cursor (trim_tail 1 ?s) = Some c" "cs_messages (prepend_page (trim_tail 1 ?s) dropped None) = cs_messages ?s"
    by blast
  moreover then have "dropped = [user_row 1 ''a'']"
    using m t by (simp add: prepend_page_def append_eq_Cons_conv)
  ultimately show ?thesis using t(2) by (intro exI [of _ dropped] exI [of _ c]) simp
qed

end
