(* ===== verification/ChatRows.thy ===== *)
theory ChatRows
  imports ChatStream ReleaseVersion
begin

section \<open>The chat transcript's rows and its scroller
  (apps/web/src/components/Chat/ChatMessageArea/rows.ts and scroll.ts, apps/mobile/src/agent/chat-list-model.ts)\<close>

text \<open>
  What both apps make of the rows of a chat: the keys and decorations of the web list, the inverted list
  of the mobile app with its date rows, and the decisions of the web scroller.  The local calendar day of
  a timestamp (none where it does not parse) and the label of a day are parameters, as is \<open>date_ms\<close>.
\<close>

subsection \<open>Keys\<close>

fun type_name :: "chat_body \<Rightarrow> string" where
  "type_name (UserBody u) = ''user''"
| "type_name (ChatBody t a) = ''chat''"
| "type_name (AssistantBody t) = ''assistant''"
| "type_name (ErrorBody t) = ''error''"
| "type_name (ThinkingBody t s) = ''thinking''"
| "type_name (StatusBody b) = ''status''"
| "type_name (ToolStartBody t i s) = ''tool_start''"
| "type_name (ToolEndBody t s) = ''tool_end''"
| "type_name (RateLimitedBody t s n) = ''rate_limited''"
| "type_name (NotificationBody n) = ''notification''"
| "type_name (NotificationClearedBody n) = ''notification_cleared''"
| "type_name (SubagentStartBody a t) = ''subagent_start''"
| "type_name (SubagentStopBody a t) = ''subagent_stop''"

text \<open>The key of a row whose base key was seen so often before.\<close>

definition suffixed :: "string \<Rightarrow> nat \<Rightarrow> string" where
  "suffixed base seen = (if seen = 0 then base else base @ ''#'' @ show_nat seen)"

subsection \<open>The web list (rows.ts)\<close>

record decorated_row =
  dr_key :: string
  dr_event :: chat_message
  dr_gap :: string
  dr_show_day_stamp :: bool
  dr_day_label :: string
  dr_is_group_end :: bool

definition row_key :: "chat_message \<Rightarrow> nat \<Rightarrow> string" where
  "row_key event index =
     (case cm_ts event of
        Some (c # ts) \<Rightarrow> (c # ts) @ ''-'' @ type_name (cm_body event)
      | _ \<Rightarrow> ''i-'' @ show_nat index)"

fun last_index :: "('a \<Rightarrow> bool) \<Rightarrow> 'a list \<Rightarrow> nat option" where
  "last_index p [] = None"
| "last_index p (x # xs) = (case last_index p xs of Some i \<Rightarrow> Some (Suc i) | None \<Rightarrow> if p x then Some 0 else None)"

definition last_seen_index :: "decorated_row list \<Rightarrow> string option \<Rightarrow> int" where
  "last_seen_index rows prev_last_key =
     (case prev_last_key of
        None \<Rightarrow> -1
      | Some k \<Rightarrow> (case last_index (\<lambda>r. dr_key r = k) rows of Some i \<Rightarrow> int i | None \<Rightarrow> -1))"

definition calendar_day_key :: "(string \<Rightarrow> string option) \<Rightarrow> string option \<Rightarrow> string option" where
  "calendar_day_key day_of ts = (case ts of Some (c # t) \<Rightarrow> day_of (c # t) | _ \<Rightarrow> None)"

definition same_type :: "chat_message option \<Rightarrow> chat_message \<Rightarrow> bool" where
  "same_type other m = (case other of None \<Rightarrow> False | Some n \<Rightarrow> type_name (cm_body n) = type_name (cm_body m))"

definition row_gap :: "(string \<Rightarrow> jsnum option) \<Rightarrow> chat_message \<Rightarrow> chat_message option \<Rightarrow> bool \<Rightarrow> nat \<Rightarrow> bool \<Rightarrow> string" where
  "row_gap date_ms msg prev show_day_stamp index spacious =
     (if show_day_stamp then (if spacious then ''mt-6'' else ''mt-2'')
      else if index = 0 then []
      else let group_gap = (if spacious then ''mt-10'' else ''mt-5'')
           in if \<not> same_type prev msg then group_gap
              else if starts_new_bubble_group date_ms prev msg then group_gap
              else if spacious then ''mt-2'' else ''mt-1.5'')"

definition group_end :: "(string \<Rightarrow> jsnum option) \<Rightarrow> chat_message \<Rightarrow> chat_message list \<Rightarrow> bool" where
  "group_end date_ms msg later =
     (case later of
        [] \<Rightarrow> True
      | next # _ \<Rightarrow> \<not> same_type (Some next) msg \<or> starts_new_bubble_group date_ms (Some msg) next)"

text \<open>The map over the messages, with the variables it closes over: the day of the last row that had one,
  how often each base key was seen, the row before, and the index.\<close>

fun decorate ::
  "(string \<Rightarrow> jsnum option) \<Rightarrow> (string \<Rightarrow> string option) \<Rightarrow> (string \<Rightarrow> string) \<Rightarrow> bool \<Rightarrow> string option \<Rightarrow> (string \<Rightarrow> nat) \<Rightarrow>
   chat_message option \<Rightarrow> nat \<Rightarrow> chat_message list \<Rightarrow> decorated_row list" where
  "decorate date_ms day_of label_of spacious last_day seen prev i [] = []"
| "decorate date_ms day_of label_of spacious last_day seen prev i (msg # later) =
     (let day = calendar_day_key day_of (cm_ts msg);
          show_stamp = (day \<noteq> None \<and> day \<noteq> Some [] \<and> (last_day = None \<or> day \<noteq> last_day));
          base = row_key msg i
      in \<lparr>dr_key = suffixed base (seen base), dr_event = msg,
          dr_gap = row_gap date_ms msg prev show_stamp i spacious, dr_show_day_stamp = show_stamp,
          dr_day_label = (case (show_stamp, cm_ts msg) of (True, Some (c # t)) \<Rightarrow> label_of (c # t) | _ \<Rightarrow> []),
          dr_is_group_end = group_end date_ms msg later\<rparr>
         # decorate date_ms day_of label_of spacious (if day \<noteq> None \<and> day \<noteq> Some [] then day else last_day)
             (seen(base := Suc (seen base))) (Some msg) (Suc i) later)"

definition build_decorated ::
  "(string \<Rightarrow> jsnum option) \<Rightarrow> (string \<Rightarrow> string option) \<Rightarrow> (string \<Rightarrow> string) \<Rightarrow> chat_message list \<Rightarrow> bool \<Rightarrow> decorated_row list" where
  "build_decorated date_ms day_of label_of messages spacious =
     decorate date_ms day_of label_of spacious None (\<lambda>k. 0) None 0 messages"

subsection \<open>The mobile list (chat-list-model.ts)\<close>

record event_row =
  er_key :: string
  er_event :: chat_message
  er_starts :: bool
  er_ends :: bool

datatype chat_row =
  EventRow event_row
| TypingRow bool
| DateRow string "string option"

definition visible_event :: "chat_message \<Rightarrow> bool" where
  "visible_event m = (case cm_body m of UserBody _ \<Rightarrow> True | ChatBody _ _ \<Rightarrow> True | ErrorBody _ \<Rightarrow> True
     | RateLimitedBody _ _ _ \<Rightarrow> True | _ \<Rightarrow> False)"

definition event_base_key :: "chat_message \<Rightarrow> string" where
  "event_base_key event = nullish (cm_ts event) ''live'' @ ''-'' @ type_name (cm_body event)"

fun keyed_rows ::
  "(string \<Rightarrow> jsnum option) \<Rightarrow> (string \<Rightarrow> nat) \<Rightarrow> chat_message option \<Rightarrow> chat_message list \<Rightarrow> event_row list" where
  "keyed_rows date_ms seen previous_sided [] = []"
| "keyed_rows date_ms seen previous_sided (event # events) =
     (let base = event_base_key event
      in \<lparr>er_key = suffixed base (seen base), er_event = event,
          er_starts = starts_new_bubble_group date_ms previous_sided event, er_ends = False\<rparr>
         # keyed_rows date_ms (seen(base := Suc (seen base)))
             (if chat_message_side event \<noteq> None then Some event else previous_sided) events)"

text \<open>The loop from the last row to the first, with the next bubble's side, day and start.\<close>

definition mark_end ::
  "(string \<Rightarrow> string option) \<Rightarrow> event_row \<Rightarrow> event_row list \<times> (side option \<times> string option \<times> bool) \<Rightarrow>
   event_row list \<times> (side option \<times> string option \<times> bool)" where
  "mark_end day_of row acc =
     (let (rows, next_type, next_day, next_starts) = acc; bubble = chat_message_side (er_event row)
      in if bubble = None then (row # rows, next_type, next_day, next_starts)
         else let day = calendar_day_key day_of (cm_ts (er_event row))
              in (row\<lparr>er_ends := next_type = None \<or> bubble \<noteq> next_type \<or> day \<noteq> next_day \<or> next_starts\<rparr> # rows,
                  bubble, day, er_starts row))"

definition event_rows ::
  "(string \<Rightarrow> jsnum option) \<Rightarrow> (string \<Rightarrow> string option) \<Rightarrow> chat_message list \<Rightarrow> event_row list" where
  "event_rows date_ms day_of events =
     fst (foldr (mark_end day_of) (keyed_rows date_ms (\<lambda>k. 0) None (filter visible_event events)) ([], None, None, False))"

fun add_date_rows :: "(string \<Rightarrow> string option) \<Rightarrow> string option \<Rightarrow> event_row list \<Rightarrow> chat_row list" where
  "add_date_rows day_of previous_bucket [] = []"
| "add_date_rows day_of previous_bucket (row # rows) =
     (let day = calendar_day_key day_of (cm_ts (er_event row)); bucket = nullish day ''unknown''
      in if Some bucket \<noteq> previous_bucket
         then DateRow (case day of Some (c # d) \<Rightarrow> ''date-'' @ (c # d) | _ \<Rightarrow> ''date-unknown-'' @ er_key row)
                (case day of Some (c # d) \<Rightarrow> (case cm_ts (er_event row) of Some (c' # t) \<Rightarrow> Some (c' # t) | _ \<Rightarrow> None) | _ \<Rightarrow> None)
              # EventRow (row\<lparr>er_starts := False\<rparr>) # add_date_rows day_of (Some bucket) rows
         else EventRow row # add_date_rows day_of (Some bucket) rows)"

text \<open>The loop from the latest row to the first that has a side: the rows with it, and the side.\<close>

fun close_latest :: "chat_row list \<Rightarrow> chat_row list \<times> side option" where
  "close_latest [] = ([], None)"
| "close_latest (EventRow r # later) =
     (case chat_message_side (er_event r) of
        Some UserSide \<Rightarrow> (EventRow r # later, Some UserSide)
      | Some AgentSide \<Rightarrow> (EventRow (r\<lparr>er_ends := False\<rparr>) # later, Some AgentSide)
      | None \<Rightarrow> (let (rows, s) = close_latest later in (EventRow r # rows, s)))"
| "close_latest (row # later) = (let (rows, s) = close_latest later in (row # rows, s))"

text \<open>The rows, the latest first.\<close>

definition create_inverted_chat_rows ::
  "(string \<Rightarrow> jsnum option) \<Rightarrow> (string \<Rightarrow> string option) \<Rightarrow> chat_message list \<Rightarrow> bool \<Rightarrow> chat_row list" where
  "create_inverted_chat_rows date_ms day_of events is_typing =
     (let rows = rev (add_date_rows day_of None (event_rows date_ms day_of events))
      in if \<not> is_typing then rows
         else let (rows, latest_side) = close_latest rows in TypingRow (latest_side = Some UserSide) # rows)"

subsection \<open>The scroller (scroll.ts)\<close>

definition chat_bottom_threshold_px :: jsnum where "chat_bottom_threshold_px = 80"
definition chat_older_screens :: jsnum where "chat_older_screens = 3"
definition waiting_at_top_px :: jsnum where "waiting_at_top_px = 120"
definition repin_epsilon_px :: jsnum where "repin_epsilon_px = 1"

record scroll_metrics =
  sm_scroll_top :: jsnum
  sm_scroll_height :: jsnum
  sm_client_height :: jsnum

definition end_distance :: "scroll_metrics \<Rightarrow> jsnum" where
  "end_distance m = sm_scroll_height m - sm_scroll_top m - sm_client_height m"

record follow_latch =
  fl_following :: bool
  fl_last_distance :: jsnum

definition idle_latch :: follow_latch where
  "idle_latch = \<lparr>fl_following = False, fl_last_distance = 0\<rparr>"

definition start_follow :: "scroll_metrics \<Rightarrow> follow_latch" where
  "start_follow m = \<lparr>fl_following = True, fl_last_distance = end_distance m\<rparr>"

record scroll_tick =
  tk_at_bottom :: "bool option"
  tk_load_older :: bool
  tk_near_top :: bool
  tk_latch :: follow_latch

definition on_scroll_tick :: "scroll_metrics \<Rightarrow> follow_latch \<Rightarrow> bool \<Rightarrow> scroll_tick" where
  "on_scroll_tick m latch can_load_older =
     (let distance = end_distance m; at_end = distance \<le> chat_bottom_threshold_px;
          near_top = sm_scroll_top m < waiting_at_top_px
      in if fl_following latch \<and> at_end
         then \<lparr>tk_at_bottom = Some True, tk_load_older = False, tk_near_top = near_top, tk_latch = idle_latch\<rparr>
         else if fl_following latch \<and> distance \<le> fl_last_distance latch
         then \<lparr>tk_at_bottom = None, tk_load_older = False, tk_near_top = near_top,
               tk_latch = \<lparr>fl_following = True, fl_last_distance = distance\<rparr>\<rparr>
         else \<lparr>tk_at_bottom = Some at_end,
               tk_load_older = can_load_older \<and> \<not> at_end \<and> sm_scroll_top m < sm_client_height m * chat_older_screens,
               tk_near_top = near_top, tk_latch = idle_latch\<rparr>)"

datatype scroll_to_end = InstantScroll | SmoothScroll

record resize_tick =
  rt_at_bottom :: "bool option"
  rt_scroll_to_end :: "scroll_to_end option"
  rt_latch :: follow_latch

definition on_resize_tick :: "scroll_metrics \<Rightarrow> follow_latch \<Rightarrow> bool \<Rightarrow> resize_tick" where
  "on_resize_tick m latch at_bottom =
     (let distance = end_distance m
      in if fl_following latch
         then (if distance \<le> chat_bottom_threshold_px
               then \<lparr>rt_at_bottom = Some True, rt_scroll_to_end = None, rt_latch = idle_latch\<rparr>
               else \<lparr>rt_at_bottom = None, rt_scroll_to_end = Some SmoothScroll, rt_latch = start_follow m\<rparr>)
         else if at_bottom \<and> distance > repin_epsilon_px
         then \<lparr>rt_at_bottom = None, rt_scroll_to_end = Some InstantScroll, rt_latch = latch\<rparr>
         else \<lparr>rt_at_bottom = Some (distance \<le> chat_bottom_threshold_px), rt_scroll_to_end = None, rt_latch = latch\<rparr>)"

record prepend_snapshot =
  sn_scroll_top :: jsnum
  sn_scroll_height :: jsnum

datatype rows_change_action = RestoreScroll | JumpScroll | FollowScroll | NoScroll

definition on_rows_change :: "string option \<Rightarrow> string option \<Rightarrow> nat \<Rightarrow> nat \<Rightarrow> bool \<Rightarrow> rows_change_action" where
  "on_rows_change prev_first_key first_key prev_count row_count at_bottom =
     (if 0 < prev_count \<and> prev_count < row_count \<and> first_key \<noteq> prev_first_key then RestoreScroll
      else if 0 < row_count \<and> prev_count = 0 then JumpScroll
      else if prev_count < row_count \<and> at_bottom then FollowScroll else NoScroll)"

definition restored_scroll_top :: "prepend_snapshot \<Rightarrow> jsnum \<Rightarrow> jsnum" where
  "restored_scroll_top snapshot scroll_height = sn_scroll_top snapshot + (scroll_height - sn_scroll_height snapshot)"

subsection \<open>Keys are unique\<close>

text \<open>A base key has no suffix of its own.\<close>

definition unsuffixed :: "string \<Rightarrow> bool" where
  "unsuffixed k \<longleftrightarrow> CHR ''#'' \<notin> set k \<or> k \<noteq> [] \<and> \<not> is_digit (last k)"

lemma hash_no_digit: "CHR ''#'' \<notin> set (show_nat n)" "show_nat n \<noteq> []" "is_digit (last (show_nat n))"
proof -
  note s = show_nat_digits [of n]
  then show "show_nat n \<noteq> []" by simp
  show "CHR ''#'' \<notin> set (show_nat n)"
  proof
    assume "CHR ''#'' \<in> set (show_nat n)"
    with s have "is_digit (CHR ''#'')" by (auto simp: list_all_iff)
    then show False by (simp add: is_digit_def)
  qed
  show "is_digit (last (show_nat n))" using s by (simp add: list_all_iff)
qed

lemma cut_at_last:
  assumes "x @ c # d = y @ c # e" "c \<notin> set d" "c \<notin> set e"
  shows "x = y \<and> d = e"
proof -
  have cut: "takeWhile (\<lambda>a. a \<noteq> c) (rev (z @ c # r)) = rev r" if "c \<notin> set r" for z r
    using that takeWhile_append2 [of "rev r" "\<lambda>a. a \<noteq> c" "c # rev z"] by auto
  have "rev d = rev e" using cut [OF assms(2), of x] cut [OF assms(3), of y] assms(1) by simp
  with assms(1) show ?thesis by simp
qed

lemma suffixed_inj:
  assumes "suffixed b m = suffixed b' n" "unsuffixed b" "unsuffixed b'"
  shows "b = b' \<and> m = n"
proof -
  have not_base: "\<not> unsuffixed (z @ ''#'' @ show_nat k)" for z k
    using hash_no_digit [of k] by (simp add: unsuffixed_def)
  consider "m = 0" "n = 0" | "m = 0" "n > 0" | "m > 0" "n = 0" | "m > 0" "n > 0" by linarith
  then show ?thesis
  proof cases
    case 4
    with assms(1) have "b @ CHR ''#'' # show_nat m = b' @ CHR ''#'' # show_nat n" by (simp add: suffixed_def)
    from cut_at_last [OF this] hash_no_digit(1) have "b = b'" "show_nat m = show_nat n" by simp_all
    then show ?thesis using show_nat_digits [of m] show_nat_digits [of n] by metis
  qed (use assms not_base in \<open>auto simp: suffixed_def\<close>)
qed

fun suffix_all :: "(string \<Rightarrow> nat) \<Rightarrow> string list \<Rightarrow> string list" where
  "suffix_all seen [] = []"
| "suffix_all seen (b # bs) = suffixed b (seen b) # suffix_all (seen(b := Suc (seen b))) bs"

lemma suffix_all_keys: "k \<in> set (suffix_all seen bs) \<Longrightarrow> \<exists>b \<in> set bs. \<exists>n \<ge> seen b. k = suffixed b n"
proof (induction bs arbitrary: seen)
  case (Cons b bs)
  show ?case
  proof (cases "k = suffixed b (seen b)")
    case False
    with Cons.prems have "k \<in> set (suffix_all (seen(b := Suc (seen b))) bs)" by simp
    from Cons.IH [OF this] obtain c n where "c \<in> set bs" "(seen(b := Suc (seen b))) c \<le> n" "k = suffixed c n" by blast
    moreover from this have "seen c \<le> n" by (cases "c = b") auto
    ultimately show ?thesis by auto
  qed auto
qed simp

lemma suffix_all_distinct: "\<forall>b \<in> set bs. unsuffixed b \<Longrightarrow> distinct (suffix_all seen bs)"
proof (induction bs arbitrary: seen)
  case (Cons b bs)
  have "suffixed b (seen b) \<notin> set (suffix_all (seen(b := Suc (seen b))) bs)"
  proof
    assume "suffixed b (seen b) \<in> set (suffix_all (seen(b := Suc (seen b))) bs)"
    from suffix_all_keys [OF this] obtain c n
      where "c \<in> set bs" "(seen(b := Suc (seen b))) c \<le> n" "suffixed b (seen b) = suffixed c n" by blast
    with suffixed_inj [of b "seen b" c n] Cons.prems show False by auto
  qed
  with Cons show ?case by simp
qed simp

lemma type_name_end: "type_name b \<noteq> [] \<and> \<not> is_digit (last (type_name b))"
  by (cases b) (simp_all add: is_digit_def)

lemma unsuffixed_keys: "unsuffixed (row_key m i)" "unsuffixed (event_base_key m)"
  using type_name_end [of "cm_body m"] hash_no_digit(1) [of i]
  by (auto simp: unsuffixed_def row_key_def event_base_key_def split: option.split list.split)

fun base_keys :: "nat \<Rightarrow> chat_message list \<Rightarrow> string list" where
  "base_keys i [] = []"
| "base_keys i (m # ms) = row_key m i # base_keys (Suc i) ms"

lemma decorate_keys:
  "map dr_key (decorate date_ms day_of label_of spacious last_day seen prev i ms) = suffix_all seen (base_keys i ms)"
  by (induction ms arbitrary: last_day seen prev i) (simp_all add: Let_def)

lemma decorate_events: "map dr_event (decorate date_ms day_of label_of spacious last_day seen prev i ms) = ms"
  by (induction ms arbitrary: last_day seen prev i) (simp_all add: Let_def)

lemma base_keys_unsuffixed: "\<forall>b \<in> set (base_keys i ms). unsuffixed b"
  by (induction ms arbitrary: i) (simp_all add: unsuffixed_keys)

lemma keyed_keys: "map er_key (keyed_rows date_ms seen prev ms) = suffix_all seen (map event_base_key ms)"
  by (induction ms arbitrary: seen prev) (simp_all add: Let_def)

lemma keyed_events: "map er_event (keyed_rows date_ms seen prev ms) = ms"
  by (induction ms arbitrary: seen prev) (simp_all add: Let_def)

text \<open>However many messages share a time and a kind, the rows of the web list hold every message in
  order, each row under a key of its own.\<close>

theorem web_rows_have_their_own_keys:
  "map dr_event (build_decorated date_ms day_of label_of messages spacious) = messages \<and>
   distinct (map dr_key (build_decorated date_ms day_of label_of messages spacious))"
  by (simp add: build_decorated_def decorate_keys decorate_events suffix_all_distinct base_keys_unsuffixed)

text \<open>The suffixes count from the oldest row, so an older page whose message shares a time and a kind takes the
  key of a row that is shown, and that row goes on under another one.\<close>

lemma prepended_twin_takes_the_key:
  "let m = \<lparr>cm_id = Some 2, cm_ts = Some ''t'', cm_body = ChatBody ''new'' None\<rparr>;
       older = \<lparr>cm_id = Some 1, cm_ts = Some ''t'', cm_body = ChatBody ''old'' None\<rparr>;
       rows = (\<lambda>ms. map (\<lambda>r. (dr_key r, dr_event r)) (build_decorated (\<lambda>t. None) (\<lambda>t. None) (\<lambda>t. t) ms False))
   in rows [m] = [(''t-chat'', m)] \<and> rows [older, m] = [(''t-chat'', older), (''t-chat#1'', m)]"
  by (simp add: build_decorated_def row_key_def suffixed_def show_nat.simps Let_def char_of_def bit_0)

subsection \<open>The mobile list's rows\<close>

definition has_side :: "event_row \<Rightarrow> bool" where
  "has_side r \<longleftrightarrow> chat_message_side (er_event r) \<noteq> None"

definition row_day :: "(string \<Rightarrow> string option) \<Rightarrow> event_row \<Rightarrow> string option" where
  "row_day day_of r = calendar_day_key day_of (cm_ts (er_event r))"

definition ends_before :: "(string \<Rightarrow> string option) \<Rightarrow> event_row \<Rightarrow> event_row list \<Rightarrow> bool" where
  "ends_before day_of r later \<longleftrightarrow>
     (case find has_side later of
        None \<Rightarrow> True
      | Some n \<Rightarrow> chat_message_side (er_event r) \<noteq> chat_message_side (er_event n) \<or>
          row_day day_of r \<noteq> row_day day_of n \<or> er_starts n)"

fun marked :: "(string \<Rightarrow> string option) \<Rightarrow> event_row list \<Rightarrow> event_row list" where
  "marked day_of [] = []"
| "marked day_of (r # rs) = (if has_side r then r\<lparr>er_ends := ends_before day_of r rs\<rparr> else r) # marked day_of rs"

definition next_bubble :: "(string \<Rightarrow> string option) \<Rightarrow> event_row list \<Rightarrow> side option \<times> string option \<times> bool" where
  "next_bubble day_of rs =
     (case find has_side rs of
        None \<Rightarrow> (None, None, False)
      | Some n \<Rightarrow> (chat_message_side (er_event n), row_day day_of n, er_starts n))"

lemma mark_ends_marked: "foldr (mark_end day_of) rs ([], None, None, False) = (marked day_of rs, next_bubble day_of rs)"
proof (induction rs)
  case (Cons r rs)
  show ?case
  proof (cases "find has_side rs")
    case None
    with Cons show ?thesis
      by (auto simp: mark_end_def Let_def next_bubble_def has_side_def ends_before_def row_day_def)
  next
    case (Some n)
    then have "chat_message_side (er_event n) \<noteq> None" by (auto simp: find_Some_iff has_side_def)
    with Some Cons show ?thesis
      by (auto simp: mark_end_def Let_def next_bubble_def has_side_def ends_before_def row_day_def)
  qed
qed (simp add: next_bubble_def)

lemma event_rows_marked:
  "event_rows date_ms day_of events = marked day_of (keyed_rows date_ms (\<lambda>k. 0) None (filter visible_event events))"
  by (simp add: event_rows_def mark_ends_marked)

lemma marked_sel [simp]: "map er_key (marked day_of rs) = map er_key rs" "map er_event (marked day_of rs) = map er_event rs"
  by (induction rs) simp_all

definition rows_events :: "chat_row list \<Rightarrow> event_row list" where
  "rows_events rows = concat (map (\<lambda>r. case r of EventRow e \<Rightarrow> [e] | _ \<Rightarrow> []) rows)"

lemma rows_events_simps [simp]:
  "rows_events [] = []" "rows_events (EventRow e # rows) = e # rows_events rows"
  "rows_events (TypingRow b # rows) = rows_events rows" "rows_events (DateRow k ts # rows) = rows_events rows"
  "rows_events (xs @ ys) = rows_events xs @ rows_events ys"
  by (simp_all add: rows_events_def)

lemma rows_events_rev: "rows_events (rev rows) = rev (rows_events rows)"
  by (induction rows) (auto simp: rows_events_def split: chat_row.split)

lemma dated_sel:
  "map er_key (rows_events (add_date_rows day_of bucket rs)) = map er_key rs"
  "map er_event (rows_events (add_date_rows day_of bucket rs)) = map er_event rs"
  by (induction rs arbitrary: bucket) (simp_all add: Let_def)

lemma closed_sel:
  "map er_key (rows_events (fst (close_latest rows))) = map er_key (rows_events rows)"
  "map er_event (rows_events (fst (close_latest rows))) = map er_event (rows_events rows)"
  by (induction rows rule: close_latest.induct) (auto simp: split_beta Let_def split: option.split side.split)

text \<open>The mobile list shows every message of the four kinds it knows, the latest first, each under a key of
  its own; the date rows and the typing row come between and before them.\<close>

theorem mobile_rows_are_the_messages:
  "map er_event (rows_events (create_inverted_chat_rows date_ms day_of events is_typing)) = rev (filter visible_event events) \<and>
   distinct (map er_key (rows_events (create_inverted_chat_rows date_ms day_of events is_typing)))"
proof -
  let ?rows = "rev (add_date_rows day_of None (event_rows date_ms day_of events))"
  have "rows_events (create_inverted_chat_rows date_ms day_of events is_typing) =
      (if is_typing then rows_events (fst (close_latest ?rows)) else rows_events ?rows)"
    by (simp add: create_inverted_chat_rows_def Let_def split_beta)
  moreover have "map er_event (rows_events ?rows) = rev (filter visible_event events)"
    by (simp add: rows_events_rev rev_map [symmetric] dated_sel event_rows_marked keyed_events)
  moreover have "distinct (map er_key (rows_events ?rows))"
    by (simp add: rows_events_rev rev_map [symmetric] dated_sel event_rows_marked keyed_keys suffix_all_distinct unsuffixed_keys)
  ultimately show ?thesis by (simp add: closed_sel)
qed

lemma marked_find: "find has_side (marked day_of rs) = map_option (\<lambda>r. r\<lparr>er_ends := ends_before day_of r (tl (dropWhile (\<lambda>x. \<not> has_side x) rs))\<rparr>) (find has_side rs)"
  by (induction rs) (auto simp: has_side_def)

lemma ends_before_marked: "ends_before day_of r (marked day_of rs) = ends_before day_of r rs"
  by (auto simp: ends_before_def marked_find row_day_def split: option.split)

lemma ends_before_ends [simp]: "ends_before day_of (r\<lparr>er_ends := b\<rparr>) rs = ends_before day_of r rs"
  by (simp add: ends_before_def row_day_def split: option.split)

lemma marked_at: "i < length rs \<Longrightarrow> has_side (rs ! i) \<Longrightarrow>
    er_ends (marked day_of rs ! i) = ends_before day_of (rs ! i) (drop (Suc i) rs)"
  by (induction rs arbitrary: i) (auto simp: nth_Cons split: nat.split)

text \<open>A bubble of the mobile list ends its group exactly where the next bubble, over the errors and notices
  between them, is another side's, falls on another day or starts a group, or where there is none.\<close>

theorem bubble_ends_where_the_next_group_starts:
  assumes "i < length (event_rows date_ms day_of events)" "has_side (event_rows date_ms day_of events ! i)"
  shows "er_ends (event_rows date_ms day_of events ! i) =
    ends_before day_of (event_rows date_ms day_of events ! i) (drop (Suc i) (event_rows date_ms day_of events))"
proof -
  let ?rs = "keyed_rows date_ms (\<lambda>k. 0) None (filter visible_event events)"
  have len: "length (marked day_of rs) = length rs" for rs by (induction rs) simp_all
  have at: "marked day_of rs ! j = (if has_side (rs ! j) then (rs ! j)\<lparr>er_ends := ends_before day_of (rs ! j) (drop (Suc j) rs)\<rparr> else rs ! j)"
    if "j < length rs" for rs j
    using that by (induction rs arbitrary: j) (auto simp: nth_Cons split: nat.split)
  have dr: "drop j (marked day_of rs) = marked day_of (drop j rs)" for rs j
    by (induction rs arbitrary: j) (auto simp: drop_Cons split: nat.split)
  have i: "i < length ?rs" using assms(1) by (simp add: event_rows_marked len)
  have "has_side (?rs ! i)" using assms(2) i by (simp add: event_rows_marked at has_side_def split: if_splits)
  with i show ?thesis by (simp add: event_rows_marked at dr ends_before_marked)
qed

text \<open>The days of a transcript that is out of order come back, and their date rows share a key.\<close>

lemma returning_day_repeats_its_key:
  "let row = (\<lambda>t. \<lparr>er_key = t, er_event = \<lparr>cm_id = None, cm_ts = Some t, cm_body = ChatBody t None\<rparr>, er_starts = False, er_ends = True\<rparr>)
   in concat (map (\<lambda>r. case r of DateRow k ts \<Rightarrow> [k] | _ \<Rightarrow> []) (add_date_rows (\<lambda>t. Some (take 1 t)) None (map row [''1a'', ''2'', ''1b'']))) =
     [''date-1'', ''date-2'', ''date-1'']"
  by (simp add: calendar_day_key_def Let_def)

subsection \<open>Following the end\<close>

fun ride :: "bool \<Rightarrow> follow_latch \<Rightarrow> scroll_metrics list \<Rightarrow> scroll_tick list" where
  "ride can_load latch [] = []"
| "ride can_load latch (m # ms) =
     (let t = on_scroll_tick m latch can_load in t # ride can_load (tk_latch t) ms)"

lemma ride_quiet:
  assumes "sorted_wrt (\<ge>) (map end_distance ms)"
    "fl_following latch \<and> (\<forall>m \<in> set ms. end_distance m \<le> fl_last_distance latch) \<or> (\<forall>m \<in> set ms. end_distance m \<le> chat_bottom_threshold_px)"
    "t \<in> set (ride can_load latch ms)"
  shows "tk_at_bottom t \<noteq> Some False \<and> \<not> tk_load_older t"
  using assms
proof (induction ms arbitrary: latch)
  case (Cons m ms)
  let ?t = "on_scroll_tick m latch can_load"
  have "tk_at_bottom ?t \<noteq> Some False \<and> \<not> tk_load_older ?t"
    using Cons.prems(2) by (auto simp: on_scroll_tick_def Let_def)
  moreover have "fl_following (tk_latch ?t) \<and> (\<forall>m \<in> set ms. end_distance m \<le> fl_last_distance (tk_latch ?t)) \<or>
      (\<forall>m \<in> set ms. end_distance m \<le> chat_bottom_threshold_px)"
    using Cons.prems(1,2) by (fastforce simp: on_scroll_tick_def Let_def)
  moreover have "sorted_wrt (\<ge>) (map end_distance ms)" using Cons.prems(1) by simp
  ultimately show ?case using Cons.IH [of "tk_latch ?t"] Cons.prems(3) by (auto simp: Let_def)
qed simp

text \<open>From the start of a smooth scroll to the latest message, as long as the distance to the end only
  shrinks, no tick says the reader left the bottom and none loads older history.\<close>

theorem follow_never_leaves_the_bottom:
  assumes "sorted_wrt (\<ge>) (map end_distance (m # ms))" "t \<in> set (ride can_load (start_follow m) ms)"
  shows "tk_at_bottom t \<noteq> Some False \<and> \<not> tk_load_older t"
  using assms by (intro ride_quiet) (auto simp: start_follow_def)

lemma follow_never_leaves_the_bottom_witness:
  "tk_at_bottom (on_scroll_tick \<lparr>sm_scroll_top = 100, sm_scroll_height = 1000, sm_client_height = 500\<rparr>
     (start_follow \<lparr>sm_scroll_top = 0, sm_scroll_height = 1000, sm_client_height = 500\<rparr>) True) \<noteq> Some False"
  using follow_never_leaves_the_bottom
    [of "\<lparr>sm_scroll_top = 0, sm_scroll_height = 1000, sm_client_height = 500\<rparr>"
        "[\<lparr>sm_scroll_top = 100, sm_scroll_height = 1000, sm_client_height = 500\<rparr>]" _ True]
  by (simp add: end_distance_def Let_def)

text \<open>Older rows above the viewport leave what is in it where it was: the distance to the end is restored.\<close>

lemma restored_distance:
  "end_distance (m\<lparr>sm_scroll_top := restored_scroll_top \<lparr>sn_scroll_top = sm_scroll_top m, sn_scroll_height = sm_scroll_height m\<rparr> h,
       sm_scroll_height := h\<rparr>) = end_distance m"
  by (simp add: end_distance_def restored_scroll_top_def)

end
