(* ===== verification/ReconnectingSocket.thy ===== *)
theory ReconnectingSocket
  imports Json
begin

section \<open>The reconnecting socket (transport/reconnecting-socket.ts, transport/websocket.ts)\<close>

text \<open>
  The connection machine every transport dials through.  The state is the code's closed-over
  variables (\<open>phase\<close>, \<open>delay\<close>) with what the platform holds for it: the pending timers and the
  number of \<open>buildUrl\<close> promises awaited.  Sockets and timers are named by the order of their
  creation.  An event is a settled promise, a fired timer, a socket callback, or a call of
  \<open>send\<close> or \<open>close\<close>; an output is a callback made, or a call of the platform.  A callback that
  calls back into the socket is the next event.  Making a socket is taken not to throw; a URL that the platform
  refuses would leave the machine dialing.
\<close>

subsection \<open>State, events and outputs\<close>

text \<open>A text frame is what \<open>JSON.parse\<close> makes of it: a value, or \<open>None\<close> when it throws.\<close>

type_synonym wire_text = "json option"

datatype conn_phase = Dialing | Connecting nat | Open nat | Reconnecting nat | Closed

datatype reconnect_phase = PConnecting | POpen | PReconnecting | PClosed

record conn =
  cn_phase :: conn_phase
  cn_delay :: nat
  cn_base :: nat
  cn_max :: nat
  cn_sockets :: nat
  cn_timers :: nat
  cn_pending :: "nat set"
  cn_awaiting :: nat

datatype conn_event =
  UrlBuilt string
| UrlFailed
| SocketOpened nat
| SocketMessage nat wire_text
| SocketClosed nat
| TimerFired nat
| CallSend wire_text
| CallClose

datatype conn_out =
  BuildUrl
| CreateSocket nat string
| OnOpen nat
| OnMessage wire_text
| OnPhaseChange reconnect_phase
| StartTimer nat nat
| ClearTimer nat
| SocketSend nat wire_text
| DetachSocket nat
| CloseSocket nat
| SendReturned bool

subsection \<open>The handlers\<close>

definition reconnect_base_ms :: nat where "reconnect_base_ms = 1000"
definition reconnect_max_ms :: nat where "reconnect_max_ms = 30000"

definition schedule_reconnect :: "conn \<Rightarrow> conn \<times> conn_out list" where
  "schedule_reconnect c =
     (let (pending, cleared) =
            (case cn_phase c of
               Reconnecting t \<Rightarrow> (cn_pending c - {t}, [ClearTimer t])
             | _ \<Rightarrow> (cn_pending c, []));
          timer = cn_timers c
      in (c\<lparr>cn_phase := Reconnecting timer, cn_timers := Suc timer,
            cn_pending := insert timer pending, cn_delay := min (cn_delay c * 2) (cn_max c)\<rparr>,
          cleared @ [StartTimer timer (cn_delay c), OnPhaseChange PReconnecting]))"

definition connect :: "conn \<Rightarrow> conn \<times> conn_out list" where
  "connect c =
     (if cn_phase c = Closed then (c, [])
      else (c\<lparr>cn_phase := Dialing, cn_awaiting := Suc (cn_awaiting c)\<rparr>,
            [OnPhaseChange PConnecting, BuildUrl]))"

text \<open>The rest of \<open>connect\<close>, after \<open>await deps.buildUrl()\<close>.\<close>

definition url_failed :: "conn \<Rightarrow> conn \<times> conn_out list" where
  "url_failed c =
     (let c = c\<lparr>cn_awaiting := cn_awaiting c - 1\<rparr>
      in if cn_phase c \<noteq> Closed then schedule_reconnect c else (c, []))"

definition url_built :: "string \<Rightarrow> conn \<Rightarrow> conn \<times> conn_out list" where
  "url_built url c =
     (let c = c\<lparr>cn_awaiting := cn_awaiting c - 1\<rparr>
      in if cn_phase c \<noteq> Dialing then (c, [])
         else (c\<lparr>cn_phase := Connecting (cn_sockets c), cn_sockets := Suc (cn_sockets c)\<rparr>,
               [CreateSocket (cn_sockets c) url]))"

definition socket_opened :: "nat \<Rightarrow> conn \<Rightarrow> conn \<times> conn_out list" where
  "socket_opened current c =
     (if cn_phase c \<noteq> Connecting current then (c, [])
      else (c\<lparr>cn_phase := Open current, cn_delay := cn_base c\<rparr>,
            [OnOpen current, OnPhaseChange POpen]))"

definition holds_socket :: "nat \<Rightarrow> conn \<Rightarrow> bool" where
  "holds_socket current c \<longleftrightarrow> cn_phase c = Open current \<or> cn_phase c = Connecting current"

definition socket_message :: "nat \<Rightarrow> wire_text \<Rightarrow> conn \<Rightarrow> conn \<times> conn_out list" where
  "socket_message current data c = (c, if holds_socket current c then [OnMessage data] else [])"

definition socket_closed :: "nat \<Rightarrow> conn \<Rightarrow> conn \<times> conn_out list" where
  "socket_closed current c = (if holds_socket current c then schedule_reconnect c else (c, []))"

definition conn_send :: "wire_text \<Rightarrow> conn \<Rightarrow> conn \<times> conn_out list" where
  "conn_send data c =
     (case cn_phase c of
        Open s \<Rightarrow> (c, [SocketSend s data, SendReturned True])
      | _ \<Rightarrow> (c, [SendReturned False]))"

definition conn_close :: "conn \<Rightarrow> conn \<times> conn_out list" where
  "conn_close c =
     (let previous = cn_phase c; c = c\<lparr>cn_phase := Closed\<rparr>
      in case previous of
           Reconnecting t \<Rightarrow> (c\<lparr>cn_pending := cn_pending c - {t}\<rparr>, [ClearTimer t, OnPhaseChange PClosed])
         | Open s \<Rightarrow> (c, [DetachSocket s, CloseSocket s, OnPhaseChange PClosed])
         | Connecting s \<Rightarrow> (c, [DetachSocket s, CloseSocket s, OnPhaseChange PClosed])
         | _ \<Rightarrow> (c, [OnPhaseChange PClosed]))"

definition create_conn :: "nat option \<Rightarrow> nat option \<Rightarrow> conn \<times> conn_out list" where
  "create_conn base_ms max_ms =
     (let base = nullish base_ms reconnect_base_ms; cap = nullish max_ms reconnect_max_ms
      in connect \<lparr>cn_phase = Dialing, cn_delay = base, cn_base = base, cn_max = cap, cn_sockets = 0,
                  cn_timers = 0, cn_pending = {}, cn_awaiting = 0\<rparr>)"

fun conn_step :: "conn \<Rightarrow> conn_event \<Rightarrow> conn \<times> conn_out list" where
  "conn_step c (UrlBuilt url) = url_built url c"
| "conn_step c UrlFailed = url_failed c"
| "conn_step c (SocketOpened s) = socket_opened s c"
| "conn_step c (SocketMessage s data) = socket_message s data c"
| "conn_step c (SocketClosed s) = socket_closed s c"
| "conn_step c (TimerFired t) = connect (c\<lparr>cn_pending := cn_pending c - {t}\<rparr>)"
| "conn_step c (CallSend data) = conn_send data c"
| "conn_step c CallClose = conn_close c"

text \<open>
  What the platform delivers: an awaited promise settles once, a cleared or fired timer never
  fires, and only a socket that was created has events.
\<close>

fun conn_enabled :: "conn \<Rightarrow> conn_event \<Rightarrow> bool" where
  "conn_enabled c (UrlBuilt url) \<longleftrightarrow> cn_awaiting c > 0"
| "conn_enabled c UrlFailed \<longleftrightarrow> cn_awaiting c > 0"
| "conn_enabled c (SocketOpened s) \<longleftrightarrow> s < cn_sockets c"
| "conn_enabled c (SocketMessage s data) \<longleftrightarrow> s < cn_sockets c"
| "conn_enabled c (SocketClosed s) \<longleftrightarrow> s < cn_sockets c"
| "conn_enabled c (TimerFired t) \<longleftrightarrow> t \<in> cn_pending c"
| "conn_enabled c (CallSend data) \<longleftrightarrow> True"
| "conn_enabled c CallClose \<longleftrightarrow> True"

lemmas conn_defs = schedule_reconnect_def connect_def url_failed_def url_built_def
  socket_opened_def socket_message_def socket_closed_def conn_send_def conn_close_def holds_socket_def

subsection \<open>The invariant\<close>

text \<open>
  The phase owns the one thing in flight: the promise awaited while dialing, the timer while
  reconnecting.  A close may leave one promise behind, whose settling then does nothing.
\<close>

definition conn_inv :: "conn \<Rightarrow> bool" where
  "conn_inv c \<longleftrightarrow>
     cn_base c \<le> cn_delay c \<and> cn_delay c \<le> cn_max c \<and>
     cn_pending c = (case cn_phase c of Reconnecting t \<Rightarrow> {t} | _ \<Rightarrow> {}) \<and>
     (case cn_phase c of Dialing \<Rightarrow> cn_awaiting c = 1 | Closed \<Rightarrow> cn_awaiting c \<le> 1 | _ \<Rightarrow> cn_awaiting c = 0) \<and>
     (case cn_phase c of Connecting s \<Rightarrow> s < cn_sockets c | Open s \<Rightarrow> s < cn_sockets c | _ \<Rightarrow> True)"

lemma conn_inv_step: "conn_inv c \<Longrightarrow> conn_enabled c e \<Longrightarrow> conn_inv (fst (conn_step c e))"
  by (cases e; cases "cn_phase c")
    (auto simp: conn_inv_def conn_defs Let_def split: if_splits)

interpretation conn: machine conn_step conn_enabled conn_inv
  by unfold_locales (rule conn_inv_step)

lemma conn_params_step:
  "cn_base (fst (conn_step c e)) = cn_base c \<and> cn_max (fst (conn_step c e)) = cn_max c"
  by (cases e; cases "cn_phase c") (auto simp: conn_defs Let_def)

lemma conn_inv_create:
  "nullish base_ms reconnect_base_ms \<le> nullish max_ms reconnect_max_ms \<Longrightarrow> conn_inv (fst (create_conn base_ms max_ms))"
  by (simp add: create_conn_def connect_def conn_inv_def Let_def)

lemma create_conn_simps [simp]:
  "cn_base (fst (create_conn base_ms max_ms)) = nullish base_ms reconnect_base_ms"
  "cn_max (fst (create_conn base_ms max_ms)) = nullish max_ms reconnect_max_ms"
  "cn_phase (fst (create_conn base_ms max_ms)) = Dialing"
  "cn_delay (fst (create_conn base_ms max_ms)) = nullish base_ms reconnect_base_ms"
  "cn_timers (fst (create_conn base_ms max_ms)) = 0"
  "cn_awaiting (fst (create_conn base_ms max_ms)) = 1"
  by (simp_all add: create_conn_def connect_def Let_def)

lemma conn_timer_step:
  "conn_inv c \<Longrightarrow> StartTimer t ms \<in> set (snd (conn_step c e)) \<Longrightarrow> cn_base c \<le> ms \<and> ms \<le> cn_max c"
  by (cases e; cases "cn_phase c") (auto simp: conn_inv_def conn_defs Let_def split: if_splits)

lemma conn_timer_run:
  "conn_inv c \<Longrightarrow> legal_events conn_step conn_enabled c es \<Longrightarrow>
     StartTimer t ms \<in> set (snd (run_events conn_step c es)) \<Longrightarrow> cn_base c \<le> ms \<and> ms \<le> cn_max c"
proof (induction es arbitrary: c)
  case (Cons e es)
  then show ?case
    using conn_timer_step [of c t ms e] conn_params_step [of c e] conn_inv_step [of c e] by fastforce
qed simp

text \<open>The things in flight: dials, sockets it listens to, timers.\<close>

definition in_flight :: "conn \<Rightarrow> nat" where
  "in_flight c = cn_awaiting c + card (cn_pending c) +
     (case cn_phase c of Connecting _ \<Rightarrow> 1 | Open _ \<Rightarrow> 1 | _ \<Rightarrow> 0)"

lemma conn_inv_in_flight: "conn_inv c \<Longrightarrow> cn_phase c \<noteq> Closed \<Longrightarrow> in_flight c = 1"
  by (cases "cn_phase c") (auto simp: conn_inv_def in_flight_def)

subsection \<open>Closed is terminal\<close>

lemma closed_step:
  "cn_phase c = Closed \<Longrightarrow> e \<noteq> CallClose \<Longrightarrow>
     cn_phase (fst (conn_step c e)) = Closed \<and> set (snd (conn_step c e)) \<subseteq> {SendReturned False}"
  by (cases e) (auto simp: conn_defs Let_def)

lemma closed_run:
  "cn_phase c = Closed \<Longrightarrow> CallClose \<notin> set es \<Longrightarrow>
     cn_phase (fst (run_events conn_step c es)) = Closed \<and>
     set (snd (run_events conn_step c es)) \<subseteq> {SendReturned False}"
proof (induction es arbitrary: c)
  case (Cons e es)
  then show ?case using closed_step [of c e] by auto
qed simp

lemma conn_close_phase [simp]: "cn_phase (fst (conn_close c)) = Closed"
  by (cases "cn_phase c") (auto simp: conn_close_def Let_def)

subsection \<open>The backoff schedule\<close>

text \<open>A gateway that stays away: every dial fails, every timer fires.\<close>

fun failing_dials :: "nat \<Rightarrow> nat \<Rightarrow> conn_event list" where
  "failing_dials t 0 = []"
| "failing_dials t (Suc n) = UrlFailed # TimerFired t # failing_dials (Suc t) n"

definition timer_delays :: "conn_out list \<Rightarrow> nat list" where
  "timer_delays os = concat (map (\<lambda>x. case x of StartTimer _ ms \<Rightarrow> [ms] | _ \<Rightarrow> []) os)"

lemma timer_delays_append [simp]: "timer_delays (xs @ ys) = timer_delays xs @ timer_delays ys"
  by (simp add: timer_delays_def)

lemma failing_step:
  assumes "cn_phase c = Dialing" "cn_awaiting c = 1" "cn_timers c = t"
  defines "c1 \<equiv> fst (conn_step c UrlFailed)"
  defines "c2 \<equiv> fst (conn_step c1 (TimerFired t))"
  shows "timer_delays (snd (conn_step c UrlFailed)) = [cn_delay c]"
    and "timer_delays (snd (conn_step c1 (TimerFired t))) = []"
    and "cn_phase c2 = Dialing" "cn_awaiting c2 = 1" "cn_timers c2 = Suc t"
    and "cn_delay c2 = min (cn_delay c * 2) (cn_max c)" "cn_max c2 = cn_max c"
    and "conn_enabled c UrlFailed" "conn_enabled c1 (TimerFired t)"
  unfolding c1_def c2_def
  using assms(1-3) by (auto simp: conn_defs timer_delays_def Let_def)

lemma failing_delays:
  "cn_phase c = Dialing \<Longrightarrow> cn_awaiting c = 1 \<Longrightarrow> cn_timers c = t \<Longrightarrow>
   cn_delay c = min (b * 2 ^ k) (cn_max c) \<Longrightarrow>
   legal_events conn_step conn_enabled c (failing_dials t n) \<and>
   timer_delays (snd (run_events conn_step c (failing_dials t n))) =
     map (\<lambda>i. min (b * 2 ^ i) (cn_max c)) [k..<k + n]"
proof (induction n arbitrary: c t k)
  case (Suc n)
  let ?c1 = "fst (conn_step c UrlFailed)"
  let ?c2 = "fst (conn_step ?c1 (TimerFired t))"
  note f = failing_step [OF Suc.prems(1-3)]
  have "cn_delay ?c2 = min (b * 2 ^ Suc k) (cn_max ?c2)"
    unfolding f(6,7) Suc.prems(4) by (auto simp: min_def)
  from Suc.IH [OF f(3-5) this] show ?case
    using f(1,2,7,8,9) Suc.prems(4) by (simp add: upt_rec [of k] del: conn_step.simps conn_enabled.simps)
qed (simp add: timer_delays_def)

subsection \<open>Properties\<close>

text \<open>C5: Whatever the network does, a socket that was not closed has exactly one thing in
  flight: one awaited URL, one socket it listens to, or one backoff timer; it never dials
  twice at once and never stops trying.\<close>

theorem one_connection_in_flight:
  assumes "nullish base_ms reconnect_base_ms \<le> nullish max_ms reconnect_max_ms"
    and "legal_events conn_step conn_enabled (fst (create_conn base_ms max_ms)) es"
    and "cn_phase (fst (run_events conn_step (fst (create_conn base_ms max_ms)) es)) \<noteq> Closed"
  shows "in_flight (fst (run_events conn_step (fst (create_conn base_ms max_ms)) es)) = 1"
  using conn_inv_in_flight [OF conn.run_inv [OF conn_inv_create [OF assms(1)] assms(2)] assms(3)] .

theorem one_connection_in_flight_witness:
  "in_flight (fst (run_events conn_step (fst (create_conn None None)) [UrlFailed, TimerFired 0, UrlBuilt ''wss'']))
     = 1"
  by (rule one_connection_in_flight)
    (simp_all add: reconnect_base_ms_def reconnect_max_ms_def create_conn_def conn_defs Let_def)

text \<open>Every wait before a redial lies between the base delay and the cap, in any legal run.\<close>

theorem reconnect_delay_bounds:
  assumes "nullish base_ms reconnect_base_ms \<le> nullish max_ms reconnect_max_ms"
    and "legal_events conn_step conn_enabled (fst (create_conn base_ms max_ms)) es"
    and "StartTimer t ms \<in> set (snd (run_events conn_step (fst (create_conn base_ms max_ms)) es))"
  shows "nullish base_ms reconnect_base_ms \<le> ms \<and> ms \<le> nullish max_ms reconnect_max_ms"
  using conn_timer_run [OF conn_inv_create [OF assms(1)] assms(2,3)] by simp

theorem reconnect_delay_bounds_witness: "nullish None reconnect_base_ms \<le> 1000 \<and> (1000::nat) \<le> nullish None reconnect_max_ms"
  by (rule reconnect_delay_bounds [where base_ms = None and max_ms = None and es = "[UrlFailed]" and t = 0])
    (simp_all add: reconnect_base_ms_def reconnect_max_ms_def create_conn_def conn_defs Let_def)

text \<open>While every dial fails, the waits are the base doubled each time up to the cap.\<close>

theorem backoff_doubles_to_cap:
  assumes "nullish base_ms reconnect_base_ms \<le> nullish max_ms reconnect_max_ms"
  shows "timer_delays (snd (run_events conn_step (fst (create_conn base_ms max_ms)) (failing_dials 0 n))) =
    map (\<lambda>i. min (nullish base_ms reconnect_base_ms * 2 ^ i) (nullish max_ms reconnect_max_ms)) [0..<n]"
  using failing_delays [of "fst (create_conn base_ms max_ms)" 0 "nullish base_ms reconnect_base_ms" 0 n] assms
  by simp

theorem backoff_doubles_to_cap_witness:
  "timer_delays (snd (run_events conn_step (fst (create_conn None None)) (failing_dials 0 6))) =
     map (\<lambda>i. min (nullish None reconnect_base_ms * 2 ^ i) (nullish None reconnect_max_ms)) [0..<6]"
  by (rule backoff_doubles_to_cap) (simp add: reconnect_base_ms_def reconnect_max_ms_def)

text \<open>A closed socket is retired for good: whatever is delivered afterwards it stays closed,
  makes no callback, dials nothing and sends nothing.\<close>

theorem closed_is_terminal:
  assumes "CallClose \<notin> set es"
  shows "cn_phase (fst (run_events conn_step (fst (conn_step c CallClose)) es)) = Closed \<and>
    set (snd (run_events conn_step (fst (conn_step c CallClose)) es)) \<subseteq> {SendReturned False}"
  using closed_run [of "fst (conn_step c CallClose)" es] assms by simp

theorem closed_is_terminal_witness:
  "cn_phase (fst (run_events conn_step (fst (conn_step (fst (create_conn None None)) CallClose)) [UrlBuilt ''wss''])) = Closed \<and>
   set (snd (run_events conn_step (fst (conn_step (fst (create_conn None None)) CallClose)) [UrlBuilt ''wss'']))
     \<subseteq> {SendReturned False}"
  by (rule closed_is_terminal) simp

end
