(* ===== verification/ChatSession.thy ===== *)
theory ChatSession
  imports ChatStream ReconnectingSocket
begin

section \<open>The chat session (chat/chat-session.ts, chat-sender.ts, chat-socket.ts, intents/send-message.ts)\<close>

text \<open>
  The chat view-model: the app-chat socket joined to the history page, the pacing queue that
  types replies out, and the send path confirmed by its echo.  The state holds the
  connection; its callbacks run through the handlers of chat-socket.ts and chat-session.ts.
  A history fetch and a send POST are events when they settle.  \<open>naturalPacing()\<close> and
  \<open>repliesSpoken()\<close> are read where the code reads them, from \<open>ch_natural\<close> and \<open>ch_spoken\<close>.
  Intents and texts of the send are given in the event, and the attachments are the ids sent.
  The typing timer's delay is \<open>typing_delay\<close> of the character count in its output.
\<close>

definition seed_retry_base_ms :: nat where "seed_retry_base_ms = 1000"
definition seed_retry_max_ms :: nat where "seed_retry_max_ms = 30000"

record post_body =
  pb_text :: string
  pb_method :: input_method
  pb_attachments :: "string list option"
  pb_spoken :: bool
  pb_intent :: string

datatype send_failure = FailRetry | FailFailed

record chat_session =
  ch_chat :: chat_state
  ch_typing :: bool
  ch_loading_more :: bool
  ch_socket :: reconnect_phase
  ch_latest_reply :: "string option"
  ch_revision :: nat
  ch_closed :: bool
  ch_socket_open :: bool
  ch_queue :: "chat_message list"
  ch_typing_timer :: "chat_message option"
  ch_seed_timer :: "nat option"
  ch_seed_pending :: "nat set"
  ch_seed_next :: nat
  ch_seed_delay :: nat
  ch_seeds :: nat
  ch_mount_seeded :: bool
  ch_saw_open :: bool
  ch_load_in_flight :: bool
  ch_speaking :: bool
  ch_posts :: "(nat \<times> string) list"
  ch_next_post :: nat
  ch_natural :: bool
  ch_spoken :: bool
  ch_conn :: conn

datatype chat_session_event =
  ChatNet conn_event
| SeedLoaded history_page
| SeedFailed
| SeedTimerFired nat
| TypingFired
| SendMessage string string string input_method "chat_attachment list option"
| RetryMessage string string input_method "chat_attachment list option"
| PostSettled nat "send_failure option"
| LoadMore
| OlderLoaded history_page
| OlderFailed
| TrimCall
| FlushPacing
| ReportSpeaking bool
| Preferences bool bool
| SessionClose

datatype chat_session_out =
  Reply string
| Prefetch string
| FetchHistory "jsnum option"
| Post nat post_body
| StartTyping nat
| ClearTyping
| StartSeedTimer nat nat
| ClearSeedTimer nat
| SpeakingFrame nat bool
| InheritedEvent
| ChatPlatform conn_out

subsection \<open>The pacing queue\<close>

definition reply_text :: "chat_message \<Rightarrow> string option" where
  "reply_text e = (case cm_body e of ChatBody t _ \<Rightarrow> Some t | _ \<Rightarrow> None)"

definition clear_typing_timer :: "chat_session \<Rightarrow> chat_session \<times> chat_session_out list" where
  "clear_typing_timer s =
     (s\<lparr>ch_typing_timer := None\<rparr>, if ch_typing_timer s = None then [] else [ClearTyping])"

definition commit_reply :: "chat_session \<Rightarrow> chat_message \<Rightarrow> chat_session \<times> chat_session_out list" where
  "commit_reply s e =
     (let s = s\<lparr>ch_chat := commit_paced_chat (ch_chat s) e\<rparr>
      in case reply_text e of
           None \<Rightarrow> (s, [])
         | Some t \<Rightarrow> (s\<lparr>ch_latest_reply := Some t\<rparr>, [Reply t]))"

definition flush_queue :: "chat_session \<Rightarrow> chat_session \<times> chat_session_out list" where
  "flush_queue s =
     (let (s, os) = clear_typing_timer s;
          (s, os') = run_events commit_reply (s\<lparr>ch_queue := []\<rparr>) (ch_queue s)
      in (s\<lparr>ch_typing := False\<rparr>, os @ os'))"

definition reset_pacing :: "chat_session \<Rightarrow> chat_session \<times> chat_session_out list" where
  "reset_pacing s =
     (let (s, os) = clear_typing_timer s in (s\<lparr>ch_queue := [], ch_typing := False\<rparr>, os))"

definition drain_queue :: "chat_session \<Rightarrow> chat_session \<times> chat_session_out list" where
  "drain_queue s =
     (if ch_typing_timer s \<noteq> None then (s, [])
      else case ch_queue s of
             [] \<Rightarrow> (if ch_typing s then s\<lparr>ch_typing := False\<rparr> else s, [])
           | next # _ \<Rightarrow>
               (if length (ch_queue s) > flush_threshold \<or> \<not> ch_natural s then flush_queue s
                else (s\<lparr>ch_typing := True, ch_typing_timer := Some next\<rparr>,
                      (case reply_text next of None \<Rightarrow> [] | Some t \<Rightarrow> [Prefetch t])
                      @ [StartTyping (case reply_text next of None \<Rightarrow> 0 | Some t \<Rightarrow> length t)])))"

definition typing_fired :: "chat_session \<Rightarrow> chat_session \<times> chat_session_out list" where
  "typing_fired s =
     (case ch_typing_timer s of
        None \<Rightarrow> (s, [])
      | Some next \<Rightarrow>
          (let s = s\<lparr>ch_typing_timer := None, ch_queue := tl (ch_queue s)\<rparr>;
               (s, os) = commit_reply s next;
               (s, os') = drain_queue s
           in (s, os @ os')))"

subsection \<open>Seeding\<close>

definition clear_seed_retry :: "chat_session \<Rightarrow> chat_session \<times> chat_session_out list" where
  "clear_seed_retry s =
     (case ch_seed_timer s of
        None \<Rightarrow> (s, [])
      | Some t \<Rightarrow> (s\<lparr>ch_seed_timer := None, ch_seed_pending := ch_seed_pending s - {t}\<rparr>, [ClearSeedTimer t]))"

definition run_seed :: "chat_session \<Rightarrow> chat_session \<times> chat_session_out list" where
  "run_seed s = (s\<lparr>ch_seeds := Suc (ch_seeds s)\<rparr>, [FetchHistory None])"

definition seed_loaded :: "history_page \<Rightarrow> chat_session \<Rightarrow> chat_session \<times> chat_session_out list" where
  "seed_loaded page s =
     (let s = s\<lparr>ch_seeds := ch_seeds s - 1\<rparr>
      in if ch_closed s then (s, [])
         else (s\<lparr>ch_mount_seeded := True, ch_seed_delay := seed_retry_base_ms,
                 ch_chat := seed_tail (ch_chat s) page, ch_revision := ch_revision s + 1\<rparr>, []))"

definition seed_failed :: "chat_session \<Rightarrow> chat_session \<times> chat_session_out list" where
  "seed_failed s =
     (let s = s\<lparr>ch_seeds := ch_seeds s - 1\<rparr>
      in if ch_closed s \<or> \<not> ch_socket_open s then (s, [])
         else let t = ch_seed_next s
              in (s\<lparr>ch_seed_timer := Some t, ch_seed_pending := insert t (ch_seed_pending s), ch_seed_next := Suc t,
                    ch_seed_delay := min (ch_seed_delay s * 2) seed_retry_max_ms\<rparr>,
                  [StartSeedTimer t (ch_seed_delay s)]))"

definition seed_timer_fired :: "nat \<Rightarrow> chat_session \<Rightarrow> chat_session \<times> chat_session_out list" where
  "seed_timer_fired t s = run_seed (s\<lparr>ch_seed_timer := None, ch_seed_pending := ch_seed_pending s - {t}\<rparr>)"

subsection \<open>The sender (chat-sender.ts, send-message.ts)\<close>

text \<open>\<open>body\<close> with the intent id that \<open>sendMessage\<close> adds.\<close>

definition send_body ::
  "bool \<Rightarrow> string \<Rightarrow> input_method \<Rightarrow> chat_attachment list option \<Rightarrow> string \<Rightarrow> post_body" where
  "send_body spoken txt method attachments intent_id =
     (let ids = map_option (map at_id) attachments
      in \<lparr>pb_text = txt, pb_method = method,
          pb_attachments = (case ids of Some (i # l) \<Rightarrow> Some (i # l) | _ \<Rightarrow> None),
          pb_spoken = spoken, pb_intent = intent_id\<rparr>)"

text \<open>The disposition of a settled POST: \<open>None\<close> accepted; the error is an HTTP status, or no status.\<close>

datatype post_result = Accepted | HttpError nat | NoStatus

definition send_outcome :: "post_result \<Rightarrow> send_failure option" where
  "send_outcome r =
     (case r of
        Accepted \<Rightarrow> None
      | HttpError status \<Rightarrow> Some (if status = 502 \<or> status = 503 \<or> status = 504 then FailRetry else FailFailed)
      | NoStatus \<Rightarrow> Some FailRetry)"

definition post_message :: "post_body \<Rightarrow> chat_session \<Rightarrow> chat_session \<times> chat_session_out list" where
  "post_message body s =
     (s\<lparr>ch_posts := ch_posts s @ [(ch_next_post s, pb_intent body)], ch_next_post := Suc (ch_next_post s)\<rparr>,
      [Post (ch_next_post s) body])"

definition send_message ::
  "string \<Rightarrow> string \<Rightarrow> string \<Rightarrow> input_method \<Rightarrow> chat_attachment list option \<Rightarrow> chat_session
   \<Rightarrow> chat_session \<times> chat_session_out list" where
  "send_message now_iso intent_id txt method attachments s =
     (let (s, os) = post_message (send_body (ch_spoken s) txt method attachments intent_id) s
      in (s\<lparr>ch_chat := begin_send now_iso (ch_chat s) txt method intent_id attachments\<rparr>, os))"

definition retry_message ::
  "string \<Rightarrow> string \<Rightarrow> input_method \<Rightarrow> chat_attachment list option \<Rightarrow> chat_session
   \<Rightarrow> chat_session \<times> chat_session_out list" where
  "retry_message intent_id txt method attachments s =
     (let s = s\<lparr>ch_chat := mark_send (ch_chat s) intent_id (Some Sending)\<rparr>
      in post_message (send_body (ch_spoken s) txt method attachments intent_id) s)"

fun failure_state :: "send_failure \<Rightarrow> send_state" where
  "failure_state FailRetry = Retry"
| "failure_state FailFailed = Failed"

definition post_settled :: "nat \<Rightarrow> send_failure option \<Rightarrow> chat_session \<Rightarrow> chat_session \<times> chat_session_out list" where
  "post_settled n failure s =
     (case map_of (ch_posts s) n of
        None \<Rightarrow> (s, [])
      | Some intent_id \<Rightarrow>
          (let s = s\<lparr>ch_posts := filter (\<lambda>p. fst p \<noteq> n) (ch_posts s)\<rparr>
           in case failure of
                None \<Rightarrow> (s, [])
              | Some f \<Rightarrow> (s\<lparr>ch_chat := mark_send (ch_chat s) intent_id (Some (failure_state f))\<rparr>, [])))"

definition repost_parked :: "chat_session \<Rightarrow> chat_session \<times> chat_session_out list" where
  "repost_parked s =
     run_events (\<lambda>s p. retry_message (rt_intent p) (rt_text p) (rt_method p) (rt_attachments p) s) s
       (retryable_sends (ch_chat s))"

subsection \<open>The chat socket (chat-socket.ts)\<close>

definition speaking_frame :: "bool \<Rightarrow> json" where
  "speaking_frame speaking = JObj [(''type'', JStr ''speaking''), (''active'', JBool speaking)]"

definition on_event :: "chat_message \<Rightarrow> chat_session \<Rightarrow> chat_session \<times> chat_session_out list" where
  "on_event event s =
     (let (next, paced) = fold_live_event (ch_chat s) event;
          s = s\<lparr>ch_chat := next\<rparr>
      in if paced then drain_queue (s\<lparr>ch_queue := ch_queue s @ [event]\<rparr>) else (s, []))"

definition on_chat_message :: "wire_text \<Rightarrow> chat_session \<Rightarrow> chat_session \<times> chat_session_out list" where
  "on_chat_message data s =
     (case data of
        None \<Rightarrow> (s, [])
      | Some json \<Rightarrow>
          (case parse_chat_event json of
             Dropped \<Rightarrow> (s, [])
           | InheritedCall \<Rightarrow> (s, [InheritedEvent])
           | Event e \<Rightarrow> on_event e s))"

definition on_socket_open :: "chat_session \<Rightarrow> chat_session \<times> chat_session_out list" where
  "on_socket_open s =
     chain (reset_pacing s) (\<lambda>s.
     let s = s\<lparr>ch_seed_delay := seed_retry_base_ms\<rparr>
     in chain (if ch_saw_open s \<or> \<not> ch_mount_seeded s then run_seed s else (s, [])) (\<lambda>s.
        repost_parked (s\<lparr>ch_saw_open := True\<rparr>)))"

definition on_state_change :: "reconnect_phase \<Rightarrow> chat_session \<Rightarrow> chat_session \<times> chat_session_out list" where
  "on_state_change socket_state s =
     chain (clear_seed_retry (s\<lparr>ch_socket_open := (socket_state = POpen)\<rparr>)) (\<lambda>s.
     let s = s\<lparr>ch_socket := socket_state\<rparr>
     in if \<not> ch_socket_open s then (s, []) else on_socket_open s)"

fun on_chat_conn :: "chat_session \<Rightarrow> conn_out \<Rightarrow> chat_session \<times> chat_session_out list" where
  "on_chat_conn s (OnOpen live) = (s, if ch_speaking s then [SpeakingFrame live True] else [])"
| "on_chat_conn s (OnMessage data) = on_chat_message data s"
| "on_chat_conn s (OnPhaseChange p) = on_state_change p s"
| "on_chat_conn s x = (s, [ChatPlatform x])"

definition chat_net :: "chat_session \<Rightarrow> conn \<times> conn_out list \<Rightarrow> chat_session \<times> chat_session_out list" where
  "chat_net s r = run_events on_chat_conn (s\<lparr>ch_conn := fst r\<rparr>) (snd r)"

definition report_speaking :: "bool \<Rightarrow> chat_session \<Rightarrow> chat_session \<times> chat_session_out list" where
  "report_speaking v s =
     (if ch_speaking s = v then (s, [])
      else (s\<lparr>ch_speaking := v\<rparr>,
            concat (map (\<lambda>x. case x of SocketSend k _ \<Rightarrow> [SpeakingFrame k v] | _ \<Rightarrow> [])
              (snd (conn_send (Some (speaking_frame v)) (ch_conn s))))))"

subsection \<open>The session\<close>

definition load_more :: "chat_session \<Rightarrow> chat_session \<times> chat_session_out list" where
  "load_more s =
     (case cs_cursor (ch_chat s) of
        None \<Rightarrow> (s, [])
      | Some cursor \<Rightarrow>
          (if ch_load_in_flight s then (s, [])
           else (s\<lparr>ch_load_in_flight := True, ch_loading_more := True\<rparr>, [FetchHistory (Some cursor)])))"

definition older_settled :: "history_page option \<Rightarrow> chat_session \<Rightarrow> chat_session \<times> chat_session_out list" where
  "older_settled page s =
     (let s = s\<lparr>ch_load_in_flight := False\<rparr>
      in if ch_closed s then (s, [])
         else (case page of
                 None \<Rightarrow> (s\<lparr>ch_loading_more := False\<rparr>, [])
               | Some p \<Rightarrow> (s\<lparr>ch_chat := prepend_page (ch_chat s) (hp_events p) (hp_cursor p),
                             ch_loading_more := False\<rparr>, [])))"

definition trim_history :: "chat_session \<Rightarrow> chat_session \<times> chat_session_out list" where
  "trim_history s =
     (if ch_load_in_flight s then (s, []) else (s\<lparr>ch_chat := trim_tail trim_history_keep (ch_chat s)\<rparr>, []))"

definition chat_session_close :: "chat_session \<Rightarrow> chat_session \<times> chat_session_out list" where
  "chat_session_close s =
     chain (clear_seed_retry (s\<lparr>ch_closed := True\<rparr>)) (\<lambda>s.
     chain (reset_pacing s) (\<lambda>s. chat_net s (conn_close (ch_conn s))))"

definition create_chat_session :: "chat_state option \<Rightarrow> bool \<Rightarrow> bool \<Rightarrow> chat_session \<times> chat_session_out list" where
  "create_chat_session initial natural spoken =
     (let (s, os1) = run_seed
            \<lparr>ch_chat = nullish initial initial_chat_state, ch_typing = False, ch_loading_more = False,
             ch_socket = PConnecting, ch_latest_reply = None, ch_revision = 0, ch_closed = False,
             ch_socket_open = False, ch_queue = [], ch_typing_timer = None, ch_seed_timer = None,
             ch_seed_pending = {}, ch_seed_next = 0, ch_seed_delay = seed_retry_base_ms, ch_seeds = 0,
             ch_mount_seeded = False, ch_saw_open = False, ch_load_in_flight = False, ch_speaking = False,
             ch_posts = [], ch_next_post = 0, ch_natural = natural, ch_spoken = spoken,
             ch_conn = fst (create_conn None None)\<rparr>;
          (s, os2) = chat_net s (create_conn None None)
      in (s, os1 @ os2))"

fun chat_session_step :: "chat_session \<Rightarrow> chat_session_event \<Rightarrow> chat_session \<times> chat_session_out list" where
  "chat_session_step s (ChatNet e) = chat_net s (conn_step (ch_conn s) e)"
| "chat_session_step s (SeedLoaded page) = seed_loaded page s"
| "chat_session_step s SeedFailed = seed_failed s"
| "chat_session_step s (SeedTimerFired t) = seed_timer_fired t s"
| "chat_session_step s TypingFired = typing_fired s"
| "chat_session_step s (SendMessage now_iso intent_id txt m a) = send_message now_iso intent_id txt m a s"
| "chat_session_step s (RetryMessage intent_id txt m a) = retry_message intent_id txt m a s"
| "chat_session_step s (PostSettled n f) = post_settled n f s"
| "chat_session_step s LoadMore = load_more s"
| "chat_session_step s (OlderLoaded page) = older_settled (Some page) s"
| "chat_session_step s OlderFailed = older_settled None s"
| "chat_session_step s TrimCall = trim_history s"
| "chat_session_step s FlushPacing = flush_queue s"
| "chat_session_step s (ReportSpeaking v) = report_speaking v s"
| "chat_session_step s (Preferences natural spoken) = (s\<lparr>ch_natural := natural, ch_spoken := spoken\<rparr>, [])"
| "chat_session_step s SessionClose = chat_session_close s"

text \<open>What can be delivered: what was started and not settled, fired or cleared.\<close>

fun chat_session_enabled :: "chat_session \<Rightarrow> chat_session_event \<Rightarrow> bool" where
  "chat_session_enabled s (ChatNet e) \<longleftrightarrow> conn_enabled (ch_conn s) e \<and> e \<noteq> CallClose \<and> (\<forall>d. e \<noteq> CallSend d)"
| "chat_session_enabled s (SeedLoaded page) \<longleftrightarrow> ch_seeds s > 0"
| "chat_session_enabled s SeedFailed \<longleftrightarrow> ch_seeds s > 0"
| "chat_session_enabled s (SeedTimerFired t) \<longleftrightarrow> t \<in> ch_seed_pending s"
| "chat_session_enabled s TypingFired \<longleftrightarrow> ch_typing_timer s \<noteq> None"
| "chat_session_enabled s (OlderLoaded page) \<longleftrightarrow> ch_load_in_flight s"
| "chat_session_enabled s OlderFailed \<longleftrightarrow> ch_load_in_flight s"
| "chat_session_enabled s _ \<longleftrightarrow> True"

subsection \<open>The pacing queue is a queue\<close>

definition replies :: "chat_session_out list \<Rightarrow> string list" where
  "replies os = concat (map (\<lambda>x. case x of Reply t \<Rightarrow> [t] | _ \<Rightarrow> []) os)"

lemma replies_simps [simp]:
  "replies [] = []" "replies (xs @ ys) = replies xs @ replies ys" "replies (Reply t # os) = t # replies os"
  "replies (Prefetch t # os) = replies os" "replies (FetchHistory c # os) = replies os" "replies (Post n b # os) = replies os"
  "replies (StartTyping n # os) = replies os" "replies (ClearTyping # os) = replies os"
  "replies (StartSeedTimer a ms # os) = replies os" "replies (ClearSeedTimer a # os) = replies os"
  "replies (SpeakingFrame k v # os) = replies os" "replies (InheritedEvent # os) = replies os"
  "replies (ChatPlatform x # os) = replies os"
  by (simp_all add: replies_def)

definition pacing_view :: "chat_session \<Rightarrow> chat_message list \<times> chat_message option \<times> bool \<times> bool" where
  "pacing_view s = (ch_queue s, ch_typing_timer s, ch_typing s, ch_natural s)"

definition texts :: "chat_message list \<Rightarrow> string list" where
  "texts ms = concat (map (\<lambda>m. case reply_text m of None \<Rightarrow> [] | Some t \<Rightarrow> [t]) ms)"

lemma texts_simps [simp]:
  "texts [] = []" "texts (xs @ ys) = texts xs @ texts ys"
  "texts (m # ms) = (case reply_text m of None \<Rightarrow> texts ms | Some t \<Rightarrow> t # texts ms)"
  by (simp_all add: texts_def split: option.splits)

definition pacing_inv :: "chat_session \<Rightarrow> bool" where
  "pacing_inv s \<longleftrightarrow>
     (case ch_typing_timer s of None \<Rightarrow> ch_queue s = [] | Some m \<Rightarrow> \<exists>q. ch_queue s = m # q) \<and>
     (ch_typing s \<longleftrightarrow> ch_typing_timer s \<noteq> None)"

lemma pacing_inv_view: "pacing_view s = pacing_view t \<Longrightarrow> pacing_inv s = pacing_inv t"
  by (auto simp: pacing_view_def pacing_inv_def split: option.splits)

lemma commit_reply_view:
  "pacing_view (fst (commit_reply s e)) = pacing_view s"
  "replies (snd (commit_reply s e)) = texts [e]"
  by (simp_all add: commit_reply_def pacing_view_def Let_def split: option.splits)

lemma commit_all_view:
  "pacing_view (fst (run_events commit_reply s es)) = pacing_view s"
  "replies (snd (run_events commit_reply s es)) = texts es"
proof -
  show "pacing_view (fst (run_events commit_reply s es)) = pacing_view s"
    by (rule run_events_view) (rule commit_reply_view)
  show "replies (snd (run_events commit_reply s es)) = texts es"
    by (induction es arbitrary: s) (simp_all add: commit_reply_view split: option.splits)
qed

lemma clear_typing_replies [simp]: "replies (snd (clear_typing_timer s)) = []"
  by (simp add: clear_typing_timer_def)

lemma flush_queue_facts:
  "replies (snd (flush_queue s)) = texts (ch_queue s)" "ch_queue (fst (flush_queue s)) = []"
  "ch_typing_timer (fst (flush_queue s)) = None" "\<not> ch_typing (fst (flush_queue s))"
  using commit_all_view [of "s\<lparr>ch_typing_timer := None, ch_queue := []\<rparr>" "ch_queue s"]
  by (simp_all add: flush_queue_def clear_typing_timer_def split_beta Let_def pacing_view_def)

lemma drain_queue_facts:
  assumes "ch_typing_timer s = None \<or> pacing_inv s"
  shows "pacing_inv (fst (drain_queue s)) \<and> replies (snd (drain_queue s)) @ texts (ch_queue (fst (drain_queue s))) = texts (ch_queue s)"
  using assms flush_queue_facts [of s]
  by (cases "ch_typing_timer s"; cases "ch_queue s")
    (auto simp: drain_queue_def pacing_inv_def split: option.splits)

lemma typing_fired_facts:
  assumes "pacing_inv s" "ch_typing_timer s \<noteq> None"
  shows "pacing_inv (fst (typing_fired s)) \<and> replies (snd (typing_fired s)) @ texts (ch_queue (fst (typing_fired s))) = texts (ch_queue s)"
proof -
  obtain m q where m: "ch_typing_timer s = Some m" "ch_queue s = m # q" using assms by (auto simp: pacing_inv_def)
  let ?s1 = "s\<lparr>ch_typing_timer := None, ch_queue := q\<rparr>"
  have v: "pacing_view (fst (commit_reply ?s1 m)) = pacing_view ?s1" by (rule commit_reply_view)
  then have t: "ch_typing_timer (fst (commit_reply ?s1 m)) = None" "ch_queue (fst (commit_reply ?s1 m)) = q"
    by (simp_all add: pacing_view_def)
  have d: "typing_fired s = (fst (drain_queue (fst (commit_reply ?s1 m))),
      snd (commit_reply ?s1 m) @ snd (drain_queue (fst (commit_reply ?s1 m))))"
    by (simp add: typing_fired_def m split_beta Let_def)
  show ?thesis
    using drain_queue_facts [of "fst (commit_reply ?s1 m)"] t commit_reply_view(2) [of ?s1 m]
    by (simp add: d m split: option.splits)
qed

text \<open>The text a live event brings to the queue.\<close>

definition paced_by :: "wire_text \<Rightarrow> chat_session \<Rightarrow> string list" where
  "paced_by data s =
     (case data of
        None \<Rightarrow> []
      | Some j \<Rightarrow> (case parse_chat_event j of
            Event e \<Rightarrow> (if snd (fold_live_event (ch_chat s) e) then texts [e] else [])
          | _ \<Rightarrow> []))"

lemma on_event_facts:
  assumes "pacing_inv s"
  shows "pacing_inv (fst (on_event e s)) \<and> replies (snd (on_event e s)) @ texts (ch_queue (fst (on_event e s))) =
    texts (ch_queue s) @ (if snd (fold_live_event (ch_chat s) e) then texts [e] else [])"
proof (cases "snd (fold_live_event (ch_chat s) e)")
  case False
  let ?s1 = "s\<lparr>ch_chat := fst (fold_live_event (ch_chat s) e)\<rparr>"
  have "pacing_inv ?s1" using pacing_inv_view [of s ?s1] assms by (simp add: pacing_view_def)
  with False show ?thesis by (simp add: on_event_def split_beta Let_def)
next
  case True
  let ?s1 = "s\<lparr>ch_chat := fst (fold_live_event (ch_chat s) e), ch_queue := ch_queue s @ [e]\<rparr>"
  have "ch_typing_timer ?s1 = None \<or> pacing_inv ?s1"
    using assms by (auto simp: pacing_inv_def split: option.splits)
  from drain_queue_facts [OF this] True show ?thesis by (simp add: on_event_def split_beta Let_def)
qed

lemma on_chat_message_facts:
  assumes "pacing_inv s"
  shows "pacing_inv (fst (on_chat_message d s)) \<and>
    replies (snd (on_chat_message d s)) @ texts (ch_queue (fst (on_chat_message d s))) = texts (ch_queue s) @ paced_by d s"
  using assms on_event_facts [OF assms]
  by (auto simp: on_chat_message_def paced_by_def split: option.splits parsed_event.splits)

text \<open>Every other operation leaves the queue alone and announces nothing.\<close>

lemma quiet_ops:
  "pacing_view (fst (clear_seed_retry s)) = pacing_view s" "replies (snd (clear_seed_retry s)) = []"
  "pacing_view (fst (run_seed s)) = pacing_view s" "replies (snd (run_seed s)) = []"
  "pacing_view (fst (seed_loaded page s)) = pacing_view s" "replies (snd (seed_loaded page s)) = []"
  "pacing_view (fst (seed_failed s)) = pacing_view s" "replies (snd (seed_failed s)) = []"
  "pacing_view (fst (seed_timer_fired t s)) = pacing_view s" "replies (snd (seed_timer_fired t s)) = []"
  "pacing_view (fst (retry_message i txt m a s)) = pacing_view s" "replies (snd (retry_message i txt m a s)) = []"
  "pacing_view (fst (send_message n i txt m a s)) = pacing_view s" "replies (snd (send_message n i txt m a s)) = []"
  "pacing_view (fst (post_settled k f s)) = pacing_view s" "replies (snd (post_settled k f s)) = []"
  "pacing_view (fst (load_more s)) = pacing_view s" "replies (snd (load_more s)) = []"
  "pacing_view (fst (older_settled p s)) = pacing_view s" "replies (snd (older_settled p s)) = []"
  "pacing_view (fst (trim_history s)) = pacing_view s" "replies (snd (trim_history s)) = []"
  by (simp_all add: pacing_view_def clear_seed_retry_def run_seed_def seed_loaded_def seed_failed_def
      seed_timer_fired_def retry_message_def send_message_def post_message_def post_settled_def load_more_def
      older_settled_def trim_history_def Let_def split: option.splits)

lemma speaking_quiet:
  "pacing_view (fst (report_speaking v s)) = pacing_view s" "replies (snd (report_speaking v s)) = []"
  by (cases "cn_phase (ch_conn s)"; simp add: pacing_view_def report_speaking_def conn_send_def)+

lemma state_change_quiet:
  assumes "p \<noteq> POpen"
  shows "pacing_view (fst (on_state_change p s)) = pacing_view s" "replies (snd (on_state_change p s)) = []"
  using quiet_ops(1,2) [of "s\<lparr>ch_socket_open := False\<rparr>"] assms
  by (simp_all add: on_state_change_def split_beta Let_def pacing_view_def) (auto simp: clear_seed_retry_def split: option.splits)

definition hushed :: "conn_out \<Rightarrow> bool" where
  "hushed x = (case x of OnMessage _ \<Rightarrow> False | OnPhaseChange p \<Rightarrow> p \<noteq> POpen | _ \<Rightarrow> True)"

lemma hushed_out: "hushed x \<Longrightarrow> pacing_view (fst (on_chat_conn s x)) = pacing_view s \<and> replies (snd (on_chat_conn s x)) = []"
  by (cases x) (auto simp: hushed_def state_change_quiet)

lemma hushed_run:
  "list_all hushed xs \<Longrightarrow> pacing_view (fst (run_events on_chat_conn s xs)) = pacing_view s \<and>
     replies (snd (run_events on_chat_conn s xs)) = []"
proof (induction xs arbitrary: s)
  case (Cons x xs)
  then show ?case using hushed_out [of x s] by simp
qed simp

lemma conn_view [simp]: "pacing_view (s\<lparr>ch_conn := c\<rparr>) = pacing_view s"
  by (simp add: pacing_view_def)

lemma chat_net_hushed:
  "list_all hushed (snd r) \<Longrightarrow> pacing_view (fst (chat_net s r)) = pacing_view s \<and> replies (snd (chat_net s r)) = []"
  using hushed_run [of "snd r" "s\<lparr>ch_conn := fst r\<rparr>"] by (simp add: chat_net_def)

lemma conn_step_hushed:
  "(\<forall>k m. e \<noteq> SocketMessage k m) \<Longrightarrow> (\<forall>k. e = SocketOpened k \<longrightarrow> cn_phase c \<noteq> Connecting k) \<Longrightarrow>
     list_all hushed (snd (conn_step c e))"
  by (cases e; cases "cn_phase c") (auto simp: conn_defs hushed_def Let_def)

definition resets :: "chat_session \<Rightarrow> chat_session_event \<Rightarrow> bool" where
  "resets s e = (case e of
     SessionClose \<Rightarrow> True
   | ChatNet (SocketOpened k) \<Rightarrow> cn_phase (ch_conn s) = Connecting k
   | _ \<Rightarrow> False)"

definition arrival :: "chat_session \<Rightarrow> chat_session_event \<Rightarrow> string list" where
  "arrival s e = (case e of
     ChatNet (SocketMessage k d) \<Rightarrow> (if holds_socket k (ch_conn s) then paced_by d s else [])
   | _ \<Rightarrow> [])"

lemma reset_pacing_facts:
  "pacing_inv (fst (reset_pacing s))" "replies (snd (reset_pacing s)) = []"
  by (simp_all add: reset_pacing_def clear_typing_timer_def pacing_inv_def)

lemma retry_run_quiet:
  "pacing_view (fst (repost_parked s)) = pacing_view s" "replies (snd (repost_parked s)) = []"
  unfolding repost_parked_def
  by (rule run_events_view [where v = pacing_view], rule quiet_ops)
    (rule run_events_silent [where g = replies], simp_all add: quiet_ops)

lemma socket_open_inv: "pacing_inv (fst (on_socket_open s))"
proof -
  let ?b = "(fst (reset_pacing s))\<lparr>ch_seed_delay := seed_retry_base_ms\<rparr>"
  have "pacing_view (fst (on_socket_open s)) = pacing_view ?b"
    by (simp add: on_socket_open_def Let_def retry_run_quiet) (simp add: pacing_view_def run_seed_def)
  also have "\<dots> = pacing_view (fst (reset_pacing s))" by (simp add: pacing_view_def)
  finally have "pacing_view (fst (on_socket_open s)) = pacing_view (fst (reset_pacing s))" .
  from pacing_inv_view [OF this] reset_pacing_facts(1) [of s] show ?thesis by simp
qed

lemma state_change_inv: "pacing_inv s \<Longrightarrow> pacing_inv (fst (on_state_change p s))"
proof (cases "p = POpen")
  case False
  assume "pacing_inv s"
  with pacing_inv_view [OF state_change_quiet(1) [OF False, of s]] show ?thesis by simp
next
  case True
  have "ch_socket_open (fst (clear_seed_retry (s\<lparr>ch_socket_open := True\<rparr>)))"
    by (simp add: clear_seed_retry_def split: option.splits)
  with True show ?thesis by (simp add: on_state_change_def Let_def socket_open_inv)
qed

lemma chat_conn_inv: "pacing_inv s \<Longrightarrow> pacing_inv (fst (on_chat_conn s x))"
  by (cases x) (auto simp: state_change_inv on_chat_message_facts)

lemma chat_conn_run_inv: "pacing_inv s \<Longrightarrow> pacing_inv (fst (run_events on_chat_conn s xs))"
  by (induction xs arbitrary: s) (simp_all add: chat_conn_inv)

lemma chat_net_inv: "pacing_inv s \<Longrightarrow> pacing_inv (fst (chat_net s r))"
  using chat_conn_run_inv [of "s\<lparr>ch_conn := fst r\<rparr>" "snd r"] pacing_inv_view [of "s\<lparr>ch_conn := fst r\<rparr>" s]
  by (simp add: chat_net_def)

lemma close_inv: "pacing_inv (fst (chat_session_close s))"
  unfolding chat_session_close_def chain_simps by (rule chat_net_inv) (rule reset_pacing_facts)

lemma quiet_step:
  assumes "pacing_inv s" "pacing_view (fst r) = pacing_view s" "replies (snd r) = []"
  shows "pacing_inv (fst r) \<and> replies (snd r) @ texts (ch_queue (fst r)) = texts (ch_queue s)"
  using assms(1,3) pacing_inv_view [OF assms(2)] assms(2) by (simp add: pacing_view_def)

lemma net_step_facts:
  assumes "pacing_inv s" "\<not> resets s (ChatNet e)"
  shows "pacing_inv (fst (chat_net s (conn_step (ch_conn s) e))) \<and>
    replies (snd (chat_net s (conn_step (ch_conn s) e))) @ texts (ch_queue (fst (chat_net s (conn_step (ch_conn s) e)))) =
    texts (ch_queue s) @ arrival s (ChatNet e)"
proof (cases "\<exists>k m. e = SocketMessage k m")
  case True
  then obtain k m where e: "e = SocketMessage k m" by blast
  have same: "s\<lparr>ch_conn := ch_conn s\<rparr> = s" by simp
  show ?thesis
  proof (cases "holds_socket k (ch_conn s)")
    case True
    then have "chat_net s (conn_step (ch_conn s) e) = on_chat_message m s"
      by (simp add: e chat_net_def socket_message_def same)
    with on_chat_message_facts [OF assms(1), of m] True show ?thesis by (simp add: e arrival_def)
  next
    case False
    with assms(1) show ?thesis by (simp add: e chat_net_def socket_message_def same arrival_def)
  qed
next
  case False
  have "list_all hushed (snd (conn_step (ch_conn s) e))"
    using False assms(2) by (intro conn_step_hushed) (auto simp: resets_def)
  from chat_net_hushed [OF this, of s] have
    "pacing_view (fst (chat_net s (conn_step (ch_conn s) e))) = pacing_view s"
    "replies (snd (chat_net s (conn_step (ch_conn s) e))) = []" by simp_all
  from quiet_step [OF assms(1) this] False show ?thesis by (simp add: arrival_def split: conn_event.splits)
qed

lemma session_step_facts:
  assumes "pacing_inv s" "chat_session_enabled s e" "\<not> resets s e"
  shows "pacing_inv (fst (chat_session_step s e)) \<and>
    replies (snd (chat_session_step s e)) @ texts (ch_queue (fst (chat_session_step s e))) =
    texts (ch_queue s) @ arrival s e"
proof (cases "e = TypingFired \<or> e = FlushPacing \<or> (\<exists>x. e = ChatNet x)")
  case True
  then consider (typing) "e = TypingFired" | (flush) "e = FlushPacing" | (net) x where "e = ChatNet x" by blast
  then show ?thesis
  proof cases
    case typing
    with typing_fired_facts [OF assms(1)] assms(2) show ?thesis by (simp add: arrival_def)
  next
    case flush
    with flush_queue_facts [of s] show ?thesis by (simp add: arrival_def pacing_inv_def)
  next
    case (net x)
    with net_step_facts [OF assms(1), of x] assms(3) show ?thesis by simp
  qed
next
  case False
  have "pacing_view (fst (chat_session_step s e)) = pacing_view s \<or>
      (\<exists>n b. e = Preferences n b)" "replies (snd (chat_session_step s e)) = []" "arrival s e = []"
    using False assms(3) by (cases e; simp add: quiet_ops speaking_quiet arrival_def resets_def)+
  then show ?thesis
    using quiet_step [OF assms(1), of "chat_session_step s e"] assms(1) by (auto simp: pacing_inv_def)
qed

lemma session_step_inv:
  assumes "pacing_inv s" "chat_session_enabled s e"
  shows "pacing_inv (fst (chat_session_step s e))"
proof (cases "resets s e")
  case True
  then show ?thesis
    using assms(1) by (cases e) (auto simp: resets_def close_inv chat_net_inv)
next
  case False
  from session_step_facts [OF assms False] show ?thesis by simp
qed

interpretation pacing: machine chat_session_step chat_session_enabled pacing_inv
  by unfold_locales (rule session_step_inv)

fun arrivals :: "chat_session \<Rightarrow> chat_session_event list \<Rightarrow> string list" where
  "arrivals s [] = []"
| "arrivals s (e # es) = arrival s e @ arrivals (fst (chat_session_step s e)) es"

fun no_reset :: "chat_session \<Rightarrow> chat_session_event list \<Rightarrow> bool" where
  "no_reset s [] \<longleftrightarrow> True"
| "no_reset s (e # es) \<longleftrightarrow> \<not> resets s e \<and> no_reset (fst (chat_session_step s e)) es"

lemma replies_run:
  "pacing_inv s \<Longrightarrow> legal_events chat_session_step chat_session_enabled s es \<Longrightarrow> no_reset s es \<Longrightarrow>
     replies (snd (run_events chat_session_step s es)) @ texts (ch_queue (fst (run_events chat_session_step s es))) =
     texts (ch_queue s) @ arrivals s es"
proof (induction es arbitrary: s)
  case (Cons e es)
  let ?s1 = "fst (chat_session_step s e)"
  have f: "pacing_inv ?s1" "replies (snd (chat_session_step s e)) @ texts (ch_queue ?s1) = texts (ch_queue s) @ arrival s e"
    using session_step_facts [of s e] Cons.prems by auto
  have IH: "replies (snd (run_events chat_session_step ?s1 es)) @ texts (ch_queue (fst (run_events chat_session_step ?s1 es)))
      = texts (ch_queue ?s1) @ arrivals ?s1 es"
    using Cons.IH [OF f(1)] Cons.prems by simp
  have "replies (snd (chat_session_step s e)) @ texts (ch_queue ?s1) @ arrivals ?s1 es =
      texts (ch_queue s) @ arrival s e @ arrivals ?s1 es"
    using f(2) by (metis append_assoc)
  then show ?case using IH by (simp del: chat_session_step.simps)
qed simp

lemma create_pacing_inv: "pacing_inv (fst (create_chat_session initial natural spoken))"
proof -
  have "pacing_inv (fst (chat_net s r))" if "ch_queue s = []" "ch_typing_timer s = None" "\<not> ch_typing s" for s r
    using that by (intro chat_net_inv) (simp add: pacing_inv_def)
  then show ?thesis by (simp add: create_chat_session_def run_seed_def split_beta Let_def)
qed

subsection \<open>Seeding goes on until it succeeds\<close>

definition seed_view :: "chat_session \<Rightarrow> bool \<times> bool \<times> nat \<times> nat set \<times> bool" where
  "seed_view s = (ch_closed s, ch_socket_open s, ch_seeds s, ch_seed_pending s, ch_mount_seeded s)"

definition seed_inv :: "chat_session \<Rightarrow> bool" where
  "seed_inv s \<longleftrightarrow>
     (ch_socket_open s \<and> \<not> ch_closed s \<and> \<not> ch_mount_seeded s \<longrightarrow> ch_seeds s > 0 \<or> ch_seed_pending s \<noteq> {})"

lemma seed_inv_view: "seed_view s = seed_view t \<Longrightarrow> seed_inv s = seed_inv t"
  by (simp add: seed_view_def seed_inv_def)

lemma seed_quiet_small:
  "seed_view (fst (commit_reply s e)) = seed_view s"
  "seed_view (fst (clear_typing_timer s)) = seed_view s"
  "seed_view (fst (reset_pacing s)) = seed_view s"
  "seed_view (fst (retry_message i txt m a s)) = seed_view s"
  "seed_view (fst (send_message n i txt m a s)) = seed_view s"
  "seed_view (fst (post_settled k f s)) = seed_view s"
  "seed_view (fst (load_more s)) = seed_view s"
  "seed_view (fst (older_settled p s)) = seed_view s"
  "seed_view (fst (trim_history s)) = seed_view s"
  "seed_view (fst (report_speaking v s)) = seed_view s"
  by (simp_all add: seed_view_def commit_reply_def clear_typing_timer_def reset_pacing_def retry_message_def
      send_message_def post_message_def post_settled_def load_more_def older_settled_def trim_history_def
      report_speaking_def Let_def split: option.splits)

lemma seed_quiet_flush: "seed_view (fst (flush_queue s)) = seed_view s"
proof -
  have "seed_view (fst (run_events commit_reply t es)) = seed_view t" for t es
    by (rule run_events_view [where v = seed_view]) (rule seed_quiet_small)
  from this [of "s\<lparr>ch_typing_timer := None, ch_queue := []\<rparr>" "ch_queue s"] show ?thesis
    by (simp add: flush_queue_def clear_typing_timer_def split_beta Let_def) (simp add: seed_view_def)
qed

lemma seed_quiet_drain: "seed_view (fst (drain_queue s)) = seed_view s"
  using seed_quiet_flush [of s] by (simp add: drain_queue_def split: list.splits) (simp add: seed_view_def)

lemma seed_quiet_typing: "seed_view (fst (typing_fired s)) = seed_view s"
proof (cases "ch_typing_timer s")
  case (Some m)
  let ?t = "s\<lparr>ch_typing_timer := None, ch_queue := tl (ch_queue s)\<rparr>"
  have "seed_view (fst (typing_fired s)) = seed_view (fst (commit_reply ?t m))"
    by (simp add: typing_fired_def Some split_beta Let_def seed_quiet_drain)
  also have "\<dots> = seed_view s" by (simp add: seed_quiet_small) (simp add: seed_view_def)
  finally show ?thesis .
qed (simp add: typing_fired_def)

lemma seed_quiet_event: "seed_view (fst (on_event e s)) = seed_view s"
  by (simp add: on_event_def split_beta Let_def seed_quiet_drain) (simp add: seed_view_def)

lemma seed_quiet_message: "seed_view (fst (on_chat_message d s)) = seed_view s"
  by (simp add: on_chat_message_def seed_quiet_event split: option.splits parsed_event.splits)

lemma seed_quiet_repost: "seed_view (fst (repost_parked s)) = seed_view s"
  unfolding repost_parked_def by (rule run_events_view [where v = seed_view]) (rule seed_quiet_small)

lemma socket_open_seeds:
  assumes "\<not> ch_mount_seeded s"
  shows "ch_seeds (fst (on_socket_open s)) > 0"
proof -
  let ?b = "(fst (reset_pacing s))\<lparr>ch_seed_delay := seed_retry_base_ms\<rparr>"
  have m: "\<not> ch_mount_seeded ?b" using assms by (simp add: reset_pacing_def clear_typing_timer_def)
  have "seed_view (fst (on_socket_open s)) = seed_view ((fst (run_seed ?b))\<lparr>ch_saw_open := True\<rparr>)"
    using m by (simp add: on_socket_open_def Let_def seed_quiet_repost)
  then show ?thesis by (simp add: seed_view_def run_seed_def)
qed

lemma socket_open_mount: "ch_mount_seeded (fst (on_socket_open s)) = ch_mount_seeded s"
proof -
  let ?b = "(fst (reset_pacing s))\<lparr>ch_seed_delay := seed_retry_base_ms\<rparr>"
  have "seed_view (fst (on_socket_open s)) =
      seed_view ((fst (if ch_saw_open ?b \<or> \<not> ch_mount_seeded ?b then run_seed ?b else (?b, [])))\<lparr>ch_saw_open := True\<rparr>)"
    by (simp add: on_socket_open_def Let_def seed_quiet_repost)
  then show ?thesis by (simp add: seed_view_def run_seed_def reset_pacing_def clear_typing_timer_def split: if_splits)
qed

lemma clear_seed_fields:
  "ch_mount_seeded (fst (clear_seed_retry s)) = ch_mount_seeded s" "ch_socket_open (fst (clear_seed_retry s)) = ch_socket_open s"
  "ch_closed (fst (clear_seed_retry s)) = ch_closed s"
  by (simp_all add: clear_seed_retry_def split: option.splits)

lemma state_change_seeds: "seed_inv (fst (on_state_change p s))"
proof (cases "p = POpen")
  case True
  let ?a = "(fst (clear_seed_retry (s\<lparr>ch_socket_open := True\<rparr>)))\<lparr>ch_socket := POpen\<rparr>"
  have "fst (on_state_change p s) = fst (on_socket_open ?a)"
    using True by (simp add: on_state_change_def Let_def clear_seed_fields)
  then show ?thesis using socket_open_seeds [of ?a] socket_open_mount [of ?a] by (auto simp: seed_inv_def)
next
  case False
  then show ?thesis by (simp add: on_state_change_def Let_def clear_seed_fields seed_inv_def)
qed

lemma chat_conn_seeds: "seed_inv s \<Longrightarrow> seed_inv (fst (on_chat_conn s x))"
  using seed_inv_view [OF seed_quiet_message] by (cases x) (simp_all add: state_change_seeds)

lemma chat_net_seeds: "seed_inv s \<Longrightarrow> seed_inv (fst (chat_net s r))"
proof -
  assume "seed_inv s"
  then have "seed_inv (s\<lparr>ch_conn := fst r\<rparr>)" by (simp add: seed_inv_def)
  moreover have "seed_inv t \<Longrightarrow> seed_inv (fst (run_events on_chat_conn t xs))" for t xs
    by (induction xs arbitrary: t) (simp_all add: chat_conn_seeds)
  ultimately show ?thesis by (simp add: chat_net_def)
qed

lemma seed_inv_step:
  assumes "seed_inv s" "chat_session_enabled s e"
  shows "seed_inv (fst (chat_session_step s e))"
proof (cases e)
  case (ChatNet x)
  with assms(1) show ?thesis by (simp add: chat_net_seeds)
next
  case (SeedLoaded page)
  with assms(1) show ?thesis by (simp add: seed_loaded_def seed_inv_def Let_def)
next
  case SeedFailed
  with assms(1) show ?thesis by (simp add: seed_failed_def seed_inv_def Let_def)
next
  case (SeedTimerFired t)
  then show ?thesis by (simp add: seed_timer_fired_def run_seed_def seed_inv_def)
next
  case (Preferences n b)
  with assms(1) show ?thesis by (simp add: seed_inv_def)
next
  case SessionClose
  have "seed_inv t" if "ch_closed t" for t using that by (simp add: seed_inv_def)
  moreover have "ch_closed (fst (reset_pacing (fst (clear_seed_retry (s\<lparr>ch_closed := True\<rparr>)))))"
    using seed_quiet_small(3) [of "fst (clear_seed_retry (s\<lparr>ch_closed := True\<rparr>))"]
    by (simp add: seed_view_def clear_seed_fields)
  ultimately show ?thesis
    unfolding SessionClose chat_session_step.simps chat_session_close_def chain_simps by (intro chat_net_seeds) blast
qed (use assms(1) seed_inv_view [OF seed_quiet_small(4)] seed_inv_view [OF seed_quiet_small(5)]
      seed_inv_view [OF seed_quiet_small(6)] seed_inv_view [OF seed_quiet_small(7)] seed_inv_view [OF seed_quiet_small(8)]
      seed_inv_view [OF seed_quiet_small(9)] seed_inv_view [OF seed_quiet_small(10)]
      seed_inv_view [OF seed_quiet_flush] seed_inv_view [OF seed_quiet_typing] in simp_all)

interpretation seeding: machine chat_session_step chat_session_enabled seed_inv
  by unfold_locales (rule seed_inv_step)

lemma create_seed_inv: "seed_inv (fst (create_chat_session initial natural spoken))"
proof -
  have "seed_inv (fst (chat_net s r))" if "\<not> ch_socket_open s" for s r
    using that by (intro chat_net_seeds) (simp add: seed_inv_def)
  then show ?thesis by (simp add: create_chat_session_def run_seed_def split_beta Let_def)
qed

text \<open>
  A second seed that fails while a retry is armed overwrites \<open>seedRetryTimer\<close> without clearing
  it, so closing the session leaves the first timer to fire.
\<close>

lemma close_leaves_a_retry_timer:
  "\<exists>s. ch_seed_pending s = {0, 1} \<and> ch_seed_timer s = Some 1 \<and>
     s = fst (run_events chat_session_step t [SeedFailed, SeedFailed]) \<and>
     0 \<in> ch_seed_pending (fst (clear_seed_retry (s\<lparr>ch_closed := True\<rparr>)))"
  if "ch_socket_open t" "\<not> ch_closed t" "ch_seed_pending t = {}" "ch_seed_next t = 0"
  using that by (auto simp: seed_failed_def clear_seed_retry_def Let_def)

subsection \<open>Properties\<close>

text \<open>Between two opens of the socket every reply is spoken exactly once and in order: the
  replies announced, followed by those still typing, are the paced replies in the order they
  arrived, whatever bursts, flushes, seeds and sends happen meanwhile.\<close>

theorem replies_announced_in_order:
  assumes "legal_events chat_session_step chat_session_enabled (fst (create_chat_session initial natural spoken)) (before @ es)"
    and "run_events chat_session_step (fst (create_chat_session initial natural spoken)) before = (s, os0)"
    and "no_reset s es" and "run_events chat_session_step s es = (s', os)"
  shows "replies os @ texts (ch_queue s') = texts (ch_queue s) @ arrivals s es"
proof -
  have legal: "legal_events chat_session_step chat_session_enabled (fst (create_chat_session initial natural spoken)) before"
    "legal_events chat_session_step chat_session_enabled s es"
    using assms(1,2) by (simp_all add: legal_events_append)
  have "pacing_inv s" using pacing.run_inv [OF create_pacing_inv legal(1)] assms(2) by simp
  from replies_run [OF this legal(2) assms(3)] assms(4) show ?thesis by simp
qed

text \<open>A reply that waits always has its typing delay running, and the typing indicator is on
  exactly while one does: the queue can never be stuck.\<close>

theorem typing_timer_runs_while_queued:
  assumes "legal_events chat_session_step chat_session_enabled (fst (create_chat_session initial natural spoken)) es"
    and "s = fst (run_events chat_session_step (fst (create_chat_session initial natural spoken)) es)"
  shows "(ch_queue s \<noteq> [] \<longleftrightarrow> ch_typing_timer s \<noteq> None) \<and> (ch_typing s \<longleftrightarrow> ch_typing_timer s \<noteq> None) \<and>
    (ch_queue s \<noteq> [] \<longrightarrow> ch_typing_timer s = Some (hd (ch_queue s)))"
proof -
  have "pacing_inv s" using pacing.run_inv [OF create_pacing_inv assms(1)] assms(2) by simp
  then show ?thesis by (auto simp: pacing_inv_def split: option.splits)
qed

text \<open>C25: The skeleton is never stranded: while the socket is open and the history has not loaded
  once, a history fetch is in flight or a retry of it is armed.\<close>

theorem unseeded_chat_keeps_seeding:
  assumes "legal_events chat_session_step chat_session_enabled (fst (create_chat_session initial natural spoken)) es"
    and "s = fst (run_events chat_session_step (fst (create_chat_session initial natural spoken)) es)"
    and "ch_socket_open s" "\<not> ch_closed s" "\<not> ch_mount_seeded s"
  shows "ch_seeds s > 0 \<or> (\<exists>t. t \<in> ch_seed_pending s)"
  using seeding.run_inv [OF create_seed_inv assms(1)] assms(2-5) by (auto simp: seed_inv_def)

definition hi_frame :: wire_text where
  "hi_frame = Some (JObj [(''id'', JNum 1), (''type'', JStr ''chat''), (''text'', JStr ''hi'')])"

definition open_events :: "chat_session_event list" where
  "open_events = [ChatNet (UrlBuilt ''wss''), ChatNet (SocketOpened 0)]"

definition opened_session :: chat_session where
  "opened_session = fst (run_events chat_session_step (fst (create_chat_session None True False)) open_events)"

lemmas chat_session_defs = create_chat_session_def run_seed_def chat_net_def create_conn_def conn_defs on_state_change_def
  clear_seed_retry_def on_socket_open_def reset_pacing_def clear_typing_timer_def repost_parked_def
  retryable_sends_def initial_chat_state_def

lemma opened_session_facts:
  "cn_phase (ch_conn opened_session) = Open 0" "cn_sockets (ch_conn opened_session) = 1"
  "ch_chat opened_session = initial_chat_state" "ch_queue opened_session = []" "ch_typing_timer opened_session = None"
  "ch_natural opened_session" "ch_socket_open opened_session" "\<not> ch_closed opened_session" "\<not> ch_mount_seeded opened_session"
  by (simp_all add: opened_session_def open_events_def chat_session_defs Let_def split_beta)

lemma opening_legal:
  "legal_events chat_session_step chat_session_enabled (fst (create_chat_session None True False)) open_events"
  by (simp add: open_events_def chat_session_defs Let_def split_beta)

lemma hi_event: "parse_chat_event (JObj [(''id'', JNum 1), (''type'', JStr ''chat''), (''text'', JStr ''hi'')]) =
    Event \<lparr>cm_id = Some 1, cm_ts = None, cm_body = ChatBody ''hi'' None\<rparr>"
  by (simp add: parse_chat_event_def parse_base_def variants_def chat_variant_def parse_attachments_def)

lemma hi_arrives: "arrivals opened_session [ChatNet (SocketMessage 0 hi_frame), TypingFired] = [''hi'']"
  by (simp add: arrival_def opened_session_facts holds_socket_def paced_by_def hi_frame_def hi_event
      fold_live_event_def is_chat_row_def intent_of_def is_chat_def initial_chat_state_def reply_text_def)

lemma hi_received:
  "legal_events chat_session_step chat_session_enabled (fst (create_chat_session None True False))
     (open_events @ [ChatNet (SocketMessage 0 hi_frame), TypingFired])"
  "no_reset opened_session [ChatNet (SocketMessage 0 hi_frame), TypingFired]"
proof -
  have t: "ch_typing_timer (fst (chat_session_step opened_session (ChatNet (SocketMessage 0 hi_frame)))) \<noteq> None"
    by (simp add: opened_session_facts holds_socket_def socket_message_def chat_net_def hi_frame_def on_chat_message_def
        hi_event on_event_def fold_live_event_def is_chat_row_def intent_of_def is_chat_def initial_chat_state_def
        drain_queue_def flush_threshold_def Let_def)
  have o: "fst (run_events chat_session_step (fst (create_chat_session None True False)) open_events) = opened_session"
    by (simp add: opened_session_def)
  show "legal_events chat_session_step chat_session_enabled (fst (create_chat_session None True False))
     (open_events @ [ChatNet (SocketMessage 0 hi_frame), TypingFired])"
    unfolding legal_events_append o using opening_legal t by (simp add: opened_session_facts del: chat_session_step.simps)
  show "no_reset opened_session [ChatNet (SocketMessage 0 hi_frame), TypingFired]"
    by (simp add: resets_def)
qed

theorem replies_announced_in_order_witness:
  "\<exists>s' os. run_events chat_session_step opened_session [ChatNet (SocketMessage 0 hi_frame), TypingFired] = (s', os) \<and>
     replies os @ texts (ch_queue s') = [''hi'']"
proof -
  obtain s' os where r: "run_events chat_session_step opened_session [ChatNet (SocketMessage 0 hi_frame), TypingFired] = (s', os)"
    by (metis prod.collapse)
  obtain os0 where r0: "run_events chat_session_step (fst (create_chat_session None True False)) open_events = (opened_session, os0)"
    unfolding opened_session_def by (metis prod.collapse)
  from replies_announced_in_order [OF hi_received(1) r0 hi_received(2) r] r show ?thesis
    by (simp add: hi_arrives opened_session_facts del: arrivals.simps)
qed

theorem typing_timer_runs_while_queued_witness:
  "(ch_queue opened_session \<noteq> [] \<longleftrightarrow> ch_typing_timer opened_session \<noteq> None)"
  using typing_timer_runs_while_queued [OF opening_legal opened_session_def] by blast

theorem unseeded_chat_keeps_seeding_witness:
  "ch_seeds opened_session > 0 \<or> (\<exists>t. t \<in> ch_seed_pending opened_session)"
  by (rule unseeded_chat_keeps_seeding [OF opening_legal opened_session_def]) (simp_all add: opened_session_facts)

end
