(* ===== verification/CodeHighlight.thy ===== *)
theory CodeHighlight
  imports Prelude
begin

section \<open>Code blocks (code-highlight/code-highlight.ts)\<close>

text \<open>
  The lines of colored tokens both apps draw a code block from.  The highlighter itself
  (lowlight over highlight.js) is two parameters: which language names it has, and the tree it gives
  for a text.  A tree's class names are strings; the two tables are association lists, so a name that
  every JavaScript object inherits is not in them (the highlighter registers and emits no such name).
  The lemmas show that no character of the code is lost, doubled or moved.
\<close>

datatype token_kind = KPlain | KKeyword | KString | KNumber | KComment | KFunction | KType | KVariable | KOperator

record code_token =
  tk_text :: string
  tk_kind :: token_kind

record highlighted_code =
  hc_language :: "string option"
  hc_lines :: "code_token list list"

definition code_token_colors :: "(token_kind \<times> string) list" where
  "code_token_colors =
     [(KPlain, ''foreground''), (KKeyword, ''ansi-magenta''), (KString, ''ansi-green''), (KNumber, ''ansi-yellow''),
      (KComment, ''tertiary-foreground''), (KFunction, ''ansi-blue''), (KType, ''ansi-cyan''), (KVariable, ''ansi-red''),
      (KOperator, ''muted-foreground'')]"

definition highlight_max_chars :: nat where "highlight_max_chars = 20000"

definition language_aliases :: "(string \<times> string) list" where
  "language_aliases =
     [(''sh'', ''bash''), (''shell'', ''bash''), (''zsh'', ''bash''), (''py'', ''python''), (''js'', ''javascript''),
      (''jsx'', ''javascript''), (''ts'', ''typescript''), (''tsx'', ''typescript''), (''yml'', ''yaml''),
      (''rs'', ''rust''), (''html'', ''xml''), (''ini'', ''toml'')]"

definition scope_kinds :: "(string \<times> token_kind) list" where
  "scope_kinds =
     [(''keyword'', KKeyword), (''literal'', KKeyword), (''selector-tag'', KKeyword), (''name'', KKeyword),
      (''meta'', KKeyword), (''string'', KString), (''regexp'', KString), (''symbol'', KString),
      (''addition'', KString), (''number'', KNumber), (''comment'', KComment), (''doctag'', KComment),
      (''quote'', KComment), (''title'', KFunction), (''title.function_'', KFunction), (''built_in'', KFunction),
      (''section'', KFunction), (''type'', KType), (''title.class_'', KType), (''title.class_.inherited__'', KType),
      (''variable'', KVariable), (''template-variable'', KVariable), (''attr'', KVariable),
      (''attribute'', KVariable), (''property'', KVariable), (''params'', KVariable), (''deletion'', KVariable),
      (''operator'', KOperator), (''punctuation'', KOperator)]"

subsection \<open>The language\<close>

text \<open>The first word of the fence's info string: \<open>trim\<close>, then \<open>split(/\s+/)[0]\<close>.\<close>

definition first_word :: "string \<Rightarrow> string" where
  "first_word info = takeWhile (\<lambda>c. \<not> is_js_space c) (trim info)"

definition resolve_language :: "(string \<Rightarrow> bool) \<Rightarrow> string option \<Rightarrow> string option" where
  "resolve_language registered info =
     (let word = (case info of None \<Rightarrow> [] | Some i \<Rightarrow> map lower_char (first_word i))
      in if word = [] then None
         else let name = nullish (map_of language_aliases word) word
              in if registered name then Some name else None)"

subsection \<open>The walk\<close>

text \<open>A node of the tree: a text, an element with its class names (none when they are no list), or a
  node the walk skips.\<close>

datatype hast = HText string | HElement "string list option" "hast list" | HOther | HDoctype

definition without_prefix :: "string \<Rightarrow> string" where
  "without_prefix name = (if starts_with ''hljs-'' name then drop 5 name else name)"

definition scope_kind :: "string list option \<Rightarrow> token_kind \<Rightarrow> token_kind" where
  "scope_kind classes inherited =
     (case classes of
        None \<Rightarrow> inherited
      | Some names \<Rightarrow>
          (let scope = join ''.'' (map without_prefix names); head = hd (split_char (CHR ''.'') scope)
           in case map_of scope_kinds scope of
                Some k \<Rightarrow> k
              | None \<Rightarrow> nullish (map_of scope_kinds head) inherited))"

definition push_token :: "code_token \<Rightarrow> code_token list list \<Rightarrow> code_token list list" where
  "push_token t lines = (if lines = [] then [] else butlast lines @ [last lines @ [t]])"

text \<open>Every part but the first opens a line; a part that is not empty is a token on the last line.\<close>

definition push_part :: "token_kind \<Rightarrow> code_token list list \<Rightarrow> string \<Rightarrow> code_token list list" where
  "push_part kind lines part =
     (if part = [] then lines else push_token \<lparr>tk_text = part, tk_kind = kind\<rparr> lines)"

definition push_text :: "code_token list list \<Rightarrow> string \<Rightarrow> token_kind \<Rightarrow> code_token list list" where
  "push_text lines t kind =
     (let parts = split_char (CHR 0x0A) t
      in foldl (\<lambda>ls part. push_part kind (ls @ [[]]) part) (push_part kind lines (hd parts)) (tl parts))"

fun walk :: "hast list \<Rightarrow> token_kind \<Rightarrow> code_token list list \<Rightarrow> code_token list list" where
  "walk [] kind lines = lines"
| "walk (HText v # nodes) kind lines = walk nodes kind (push_text lines v kind)"
| "walk (HElement classes children # nodes) kind lines =
     walk nodes kind (walk children (scope_kind classes kind) lines)"
| "walk (HOther # nodes) kind lines = walk nodes kind lines"
| "walk (HDoctype # nodes) kind lines = walk nodes kind lines"

definition plain_lines :: "string \<Rightarrow> code_token list list" where
  "plain_lines code = push_text [[]] code KPlain"

definition highlight_code ::
  "(string \<Rightarrow> bool) \<Rightarrow> (string \<Rightarrow> string \<Rightarrow> hast list) \<Rightarrow> string \<Rightarrow> string option \<Rightarrow> highlighted_code" where
  "highlight_code registered highlight code info =
     (case resolve_language registered info of
        None \<Rightarrow> \<lparr>hc_language = None, hc_lines = plain_lines code\<rparr>
      | Some language \<Rightarrow>
          if length code > highlight_max_chars
          then \<lparr>hc_language = Some language, hc_lines = plain_lines code\<rparr>
          else \<lparr>hc_language = Some language,
                hc_lines = walk (filter (\<lambda>node. node \<noteq> HDoctype) (highlight language code)) KPlain [[]]\<rparr>)"

subsection \<open>The lines are the code\<close>

fun hast_text :: "hast list \<Rightarrow> string" where
  "hast_text [] = []"
| "hast_text (HText v # nodes) = v @ hast_text nodes"
| "hast_text (HElement classes children # nodes) = hast_text children @ hast_text nodes"
| "hast_text (HOther # nodes) = hast_text nodes"
| "hast_text (HDoctype # nodes) = hast_text nodes"

definition line_text :: "code_token list \<Rightarrow> string" where
  "line_text line = concat (map tk_text line)"

definition lines_text :: "code_token list list \<Rightarrow> string" where
  "lines_text lines = join [CHR 0x0A] (map line_text lines)"

definition token_ok :: "code_token \<Rightarrow> bool" where
  "token_ok t \<longleftrightarrow> tk_text t \<noteq> [] \<and> CHR 0x0A \<notin> set (tk_text t)"

definition lines_ok :: "code_token list list \<Rightarrow> bool" where
  "lines_ok lines \<longleftrightarrow> lines \<noteq> [] \<and> list_all (list_all token_ok) lines"

lemma join_last: "ps \<noteq> [] \<Longrightarrow> join sep (butlast ps @ [last ps @ x]) = join sep ps @ x"
proof (induction ps)
  case (Cons p ps)
  then show ?case by (cases "ps = []") (simp_all add: join_Cons)
qed simp

lemma join_open: "ps \<noteq> [] \<Longrightarrow> join sep (ps @ [[]]) = join sep ps @ sep"
proof (induction ps)
  case (Cons p ps)
  then show ?case by (cases "ps = []") (simp_all add: join_Cons)
qed simp

lemma push_part_facts:
  assumes "lines_ok lines" "CHR 0x0A \<notin> set part"
  shows "lines_ok (push_part kind lines part)" "lines_text (push_part kind lines part) = lines_text lines @ part"
proof -
  from assms have ne: "lines \<noteq> []" by (simp add: lines_ok_def)
  have "list_all (list_all token_ok) (butlast lines)" "list_all token_ok (last lines)"
    using assms(1) ne by (auto simp: lines_ok_def list_all_iff dest: in_set_butlastD)
  with assms(2) show "lines_ok (push_part kind lines part)" using assms(1)
    by (simp add: push_part_def push_token_def lines_ok_def token_ok_def)
  have "map line_text (butlast lines @ [last lines @ [\<lparr>tk_text = part, tk_kind = kind\<rparr>]]) =
      butlast (map line_text lines) @ [last (map line_text lines) @ part]"
    using ne by (simp add: map_butlast line_text_def last_map)
  then show "lines_text (push_part kind lines part) = lines_text lines @ part"
    using ne join_last [of "map line_text lines" "[CHR 0x0A]" part]
    by (simp add: push_part_def push_token_def lines_text_def)
qed

lemma open_line_facts:
  assumes "lines_ok lines"
  shows "lines_ok (lines @ [[]])" "lines_text (lines @ [[]]) = lines_text lines @ [CHR 0x0A]"
  using assms join_open [of "map line_text lines" "[CHR 0x0A]"]
  by (simp_all add: lines_ok_def lines_text_def line_text_def)

lemma push_parts_facts:
  assumes "lines_ok lines" "list_all (\<lambda>p. CHR 0x0A \<notin> set p) parts"
  shows "lines_ok (foldl (\<lambda>ls part. push_part kind (ls @ [[]]) part) lines parts) \<and>
    lines_text (foldl (\<lambda>ls part. push_part kind (ls @ [[]]) part) lines parts) =
      lines_text lines @ concat (map (\<lambda>p. CHR 0x0A # p) parts)"
  using assms
proof (induction parts arbitrary: lines)
  case (Cons p parts)
  then show ?case using push_part_facts [OF open_line_facts(1), of lines p kind] open_line_facts(2) [of lines]
    by simp
qed simp

lemma join_concat: "ps \<noteq> [] \<Longrightarrow> hd ps @ concat (map (\<lambda>p. c # p) (tl ps)) = join [c] ps"
proof (induction ps)
  case (Cons p ps)
  then show ?case by (cases ps) (simp_all add: join_Cons)
qed simp

lemma push_text_facts:
  assumes "lines_ok lines"
  shows "lines_ok (push_text lines t kind)" "lines_text (push_text lines t kind) = lines_text lines @ t"
proof -
  let ?parts = "split_char (CHR 0x0A) t"
  have no: "list_all (\<lambda>p. CHR 0x0A \<notin> set p) ?parts" using split_char_no_sep by (auto simp: list_all_iff)
  then have "CHR 0x0A \<notin> set (hd ?parts)" "list_all (\<lambda>p. CHR 0x0A \<notin> set p) (tl ?parts)"
    by (cases ?parts; simp)+
  note f = push_parts_facts [OF push_part_facts(1) [OF assms this(1), of kind] this(2), of kind]
    push_part_facts(2) [OF assms this(1), of kind]
  from f show "lines_ok (push_text lines t kind)" by (simp add: push_text_def Let_def)
  from f join_concat [of ?parts "CHR 0x0A"] show "lines_text (push_text lines t kind) = lines_text lines @ t"
    by (simp add: push_text_def Let_def)
qed

lemma walk_facts:
  "lines_ok lines \<Longrightarrow> lines_ok (walk nodes kind lines) \<and> lines_text (walk nodes kind lines) = lines_text lines @ hast_text nodes"
  by (induction nodes kind lines rule: walk.induct) (simp_all add: push_text_facts)

lemma one_empty_line: "lines_ok [[]]" "lines_text [[]] = []"
  by (simp_all add: lines_ok_def lines_text_def line_text_def)

lemma filter_doctype: "hast_text (filter (\<lambda>node. node \<noteq> HDoctype) nodes) = hast_text nodes"
  by (induction nodes rule: hast_text.induct) simp_all

text \<open>The lines shown, joined by line breaks, are exactly the code, whatever the highlighter nests: when
  its tree carries the text it was given, no character is lost, doubled or moved; and no token is empty
  or runs over a line's end.\<close>

theorem highlighted_lines_are_the_code:
  assumes "\<And>language. hast_text (highlight language code) = code"
  shows "lines_text (hc_lines (highlight_code registered highlight code info)) = code \<and>
    lines_ok (hc_lines (highlight_code registered highlight code info))"
  using push_text_facts [OF one_empty_line(1), of code KPlain]
    walk_facts [OF one_empty_line(1), of "filter (\<lambda>node. node \<noteq> HDoctype) (highlight language code)" KPlain for language]
  by (simp add: highlight_code_def plain_lines_def one_empty_line filter_doctype assms split: option.split)

text \<open>A highlighter that marks the first character of the code as a keyword.\<close>

definition first_char_keyword :: "string \<Rightarrow> string \<Rightarrow> hast list" where
  "first_char_keyword language code = [HDoctype, HElement (Some [''hljs-keyword'']) [HText (take 1 code)], HText (drop 1 code)]"

theorem highlighted_lines_are_the_code_witness:
  "lines_text (hc_lines (highlight_code (\<lambda>l. l = ''bash'') first_char_keyword ''if x'' (Some ''SH -c''))) = ''if x'' \<and>
    lines_ok (hc_lines (highlight_code (\<lambda>l. l = ''bash'') first_char_keyword ''if x'' (Some ''SH -c'')))"
  by (rule highlighted_lines_are_the_code) (simp add: first_char_keyword_def)

end
