(* ===== verification/ConnectLinks.thy ===== *)
theory ConnectLinks
  imports Urls ReleaseVersion
begin

section \<open>Connection links (apps/web/src/lib/connection.ts, apps/mobile/src/api/connection-link.ts)\<close>

text \<open>
  The link \<open>vestad status\<close> prints and what the two apps read from it.  \<open>URLSearchParams\<close> is modelled for
  text below code unit 256: a plus is a space, a percent with two hexadecimal digits is a byte, any other
  percent is itself, and the bytes are UTF-8.  The mobile app reads the link with \<open>new URL\<close>, a parameter
  that gives the parts of an address or none where it throws; its host is in lower case, and in dotted
  decimal where it is an IPv4 address.
\<close>

subsection \<open>Query parameters\<close>

definition hex_of :: "char \<Rightarrow> nat option" where
  "hex_of c =
     (let n = of_char c :: nat
      in if 48 \<le> n \<and> n \<le> 57 then Some (n - 48)
         else if 65 \<le> n \<and> n \<le> 70 then Some (n - 55)
         else if 97 \<le> n \<and> n \<le> 102 then Some (n - 87) else None)"

text \<open>The bytes of a text once its percent escapes are read.\<close>

fun form_bytes :: "string \<Rightarrow> nat list" where
  "form_bytes [] = []"
| "form_bytes (c # s) =
     (case (c = CHR ''%'', s) of
        (True, h # l # r) \<Rightarrow>
          (case (hex_of h, hex_of l) of
             (Some a, Some b) \<Rightarrow> (16 * a + b) # form_bytes (drop 2 s)
           | _ \<Rightarrow> 37 # form_bytes s)
      | (True, _) \<Rightarrow> 37 # form_bytes s
      | (False, _) \<Rightarrow> utf8 c @ form_bytes s)"

definition form_text :: "string \<Rightarrow> string" where
  "form_text s = utf8_read (form_bytes (map (\<lambda>c. if c = CHR ''+'' then CHR '' '' else c) s))"

text \<open>\<open>new URLSearchParams(s)\<close>: its entries in order.\<close>

definition search_params :: "string \<Rightarrow> (string \<times> string) list" where
  "search_params s =
     map (\<lambda>part. case index_of ''='' part of
            None \<Rightarrow> (form_text part, [])
          | Some i \<Rightarrow> (form_text (take i part), form_text (drop (Suc i) part)))
       (filter (\<lambda>part. part \<noteq> []) (split_char (CHR ''&'') s))"

subsection \<open>The web app\<close>

text \<open>The key of a fragment; null where it has none.\<close>

definition parse_connect_key :: "string \<Rightarrow> string option" where
  "parse_connect_key hash = (if \<not> starts_with ''#'' hash then None else map_of (search_params (drop 1 hash)) ''k'')"

definition strip_link_slashes :: "string \<Rightarrow> string" where
  "strip_link_slashes s = rev (dropWhile (\<lambda>c. c = CHR ''/'') (rev s))"

definition strip_app :: "string \<Rightarrow> string" where
  "strip_app s = (if ends_with ''/app'' s then take (length s - 4) s else s)"

record connect_target =
  ct_host :: string
  ct_key :: string

definition parse_web_link :: "string \<Rightarrow> connect_target option" where
  "parse_web_link input =
     (let trimmed = trim input
      in case index_of ''#'' trimmed of
           None \<Rightarrow> None
         | Some i \<Rightarrow>
             (case parse_connect_key (drop i trimmed) of
                None \<Rightarrow> None
              | Some [] \<Rightarrow> None
              | Some (c # key) \<Rightarrow>
                  (case strip_app (strip_link_slashes (take i trimmed)) of
                     [] \<Rightarrow> None
                   | h # host \<Rightarrow> Some \<lparr>ct_host = h # host, ct_key = c # key\<rparr>)))"

subsection \<open>The mobile app\<close>

text \<open>\<open>Number\<close> of a label of a host: its digits, or zero for no text; the other texts \<open>Number\<close> reads (white space, a
  sign, hexadecimal, an exponent) are in no four-label host that \<open>new URL\<close> gives, which writes numbers in decimal.\<close>

definition label_number :: "string \<Rightarrow> nat option" where
  "label_number s = (if s = [] then Some 0 else if all_digits s then Some (digits_value s) else None)"

definition is_private_ipv4 :: "string \<Rightarrow> bool" where
  "is_private_ipv4 hostname =
     (case map label_number (split_char (CHR ''.'') hostname) of
        [Some first, Some second, Some third, Some fourth] \<Rightarrow>
          first = 0 \<or> first = 10 \<or> first = 127 \<or> (first = 169 \<and> second = 254) \<or>
          (first = 172 \<and> 16 \<le> second \<and> second \<le> 31) \<or> (first = 192 \<and> second = 168)
      | _ \<Rightarrow> False)"

definition strip_brackets :: "string \<Rightarrow> string" where
  "strip_brackets s =
     (let t = (case s of c # r \<Rightarrow> if c = CHR ''['' then r else s | [] \<Rightarrow> [])
      in if ends_with '']'' t then butlast t else t)"

definition is_private_host :: "string \<Rightarrow> bool" where
  "is_private_host hostname =
     (let normalized = strip_brackets (lower_case hostname)
      in normalized = ''localhost'' \<or> ends_with ''.localhost'' normalized \<or> ends_with ''.local'' normalized \<or>
         normalized = ''::1'' \<or> starts_with ''fe80:'' normalized \<or> starts_with ''fc'' normalized \<or>
         starts_with ''fd'' normalized \<or> is_private_ipv4 normalized)"

record url_parts =
  up_protocol :: string
  up_hostname :: string
  up_origin :: string
  up_hash :: string

datatype link_refusal = IncompleteLink | LinkWithoutKey | NotTrustedTunnel | DirectLan

definition parse_mobile_link :: "(string \<Rightarrow> url_parts option) \<Rightarrow> string \<Rightarrow> link_refusal + connect_target" where
  "parse_mobile_link parse_url input =
     (case parse_url (trim input) of
        None \<Rightarrow> Inl IncompleteLink
      | Some u \<Rightarrow>
          (case map_option trim (map_of (search_params (drop 1 (up_hash u))) ''k'') of
             Some (c # key) \<Rightarrow>
               if up_protocol u \<noteq> ''https:'' then Inl NotTrustedTunnel
               else if is_private_host (up_hostname u) then Inl DirectLan
               else Inr \<lparr>ct_host = up_origin u, ct_key = c # key\<rparr>
           | _ \<Rightarrow> Inl LinkWithoutKey))"

subsection \<open>The link the gateway prints (vestad/src/status.rs)\<close>

definition connect_link :: "string \<Rightarrow> string \<Rightarrow> string" where
  "connect_link base_url api_key = base_url @ ''/app#k='' @ api_key"

text \<open>A generated key is in hexadecimal; a key is any text of letters and digits here.\<close>

definition plain_key :: "string \<Rightarrow> bool" where
  "plain_key key \<longleftrightarrow> key \<noteq> [] \<and> list_all is_alnum key"

lemma alnum_facts:
  assumes "is_alnum c"
  shows "\<not> is_js_space c" "c \<noteq> CHR ''%''" "c \<noteq> CHR ''+''" "c \<noteq> CHR ''&''" "c \<noteq> CHR ''=''" "c \<noteq> CHR ''#''" "utf8 c = [of_char c]"
    "(of_char c :: nat) < 128"
  using assms by (auto simp: is_alnum_def is_js_space_def utf8_def Let_def)

lemma form_text_plain: "list_all is_alnum s \<Longrightarrow> form_text s = s"
proof -
  assume a: "list_all is_alnum s"
  have "form_bytes s = map of_char s" using a by (induction s) (simp_all add: alnum_facts)
  moreover have "utf8_read (map of_char s) = s" using a by (induction s) (simp_all add: alnum_facts)
  moreover have "map (\<lambda>c. if c = CHR ''+'' then CHR '' '' else c) s = s"
    using a by (intro map_idI) (auto simp: list_all_iff alnum_facts)
  ultimately show ?thesis by (simp add: form_text_def)
qed

lemma index_of_char: "c \<notin> set p \<Longrightarrow> index_of [c] (p @ c # s) = Some (length p)"
  by (induction p) (auto simp: starts_with_def)

lemma map_of_key:
  assumes "plain_key key"
  shows "search_params (''k='' @ key) = [(''k'', key)]"
proof -
  have a: "\<forall>c \<in> set key. c \<noteq> CHR ''&'' \<and> c \<noteq> CHR ''=''" using assms by (auto simp: plain_key_def list_all_iff alnum_facts)
  then have "split_char (CHR ''&'') (''k='' @ key) = [''k='' @ key]" by (intro split_char_notin) auto
  moreover have "index_of ''='' (''k='' @ key) = Some 1" by (simp add: starts_with_def)
  moreover have "form_text ''k'' = ''k''" by (rule form_text_plain) (simp add: is_alnum_def)
  ultimately show ?thesis using assms form_text_plain by (simp add: search_params_def plain_key_def)
qed

lemma trim_around:
  assumes "list_all is_js_space pre" "list_all is_js_space post" "s \<noteq> []" "\<not> is_js_space (hd s)" "\<not> is_js_space (last s)"
  shows "trim (pre @ s @ post) = s"
proof -
  have d: "dropWhile is_js_space (pre @ s @ post) = s @ post"
    using assms(1,3,4) by (simp add: dropWhile_append list_all_iff) (cases s; auto)
  obtain z zs where z: "rev s = z # zs" "\<not> is_js_space z" using assms(3,5) by (cases s rule: rev_cases) auto
  have "\<forall>c \<in> set (rev post). is_js_space c" using assms(2) by (simp add: list_all_iff)
  then have "dropWhile is_js_space (rev post @ rev s) = rev s" unfolding dropWhile_append z(1) using z(2) by simp
  with d show ?thesis by (simp add: trim_def)
qed

subsection \<open>Which hosts the mobile app takes for private\<close>

lemma numeric_host:
  assumes "h \<noteq> []" "is_digit (hd h)" "is_digit (last h)" "\<forall>x \<in> set h. is_digit x \<or> x = CHR ''.''"
  shows "is_private_host h = is_private_ipv4 h"
proof -
  have lower: "lower_case h = h"
    unfolding lower_case_def
  proof (rule map_idI)
    fix x assume "x \<in> set h"
    with assms(4) have "is_digit x \<or> x = CHR ''.''" by blast
    then show "lower_char x = x" by (auto simp: lower_char_def is_digit_def Let_def)
  qed
  obtain x xs where h: "h = x # xs" "is_digit x" using assms(1,2) by (cases h) auto
  have head: "x \<noteq> CHR ''[''" "x \<noteq> CHR ''l''" "x \<noteq> CHR '':''" "x \<noteq> CHR ''f''" using h(2) by (auto simp: is_digit_def)
  have last_not: "\<not> ends_with p h" if "p \<noteq> []" "\<not> is_digit (last p)" for p
  proof
    assume "ends_with p h"
    then have "\<exists>q. h = q @ p" unfolding ends_with_def by (metis append_take_drop_id)
    with that assms(3) show False by auto
  qed
  have nots: "\<not> ends_with '']'' h" "\<not> ends_with ''.localhost'' h" "\<not> ends_with ''.local'' h"
    by (rule last_not; simp add: is_digit_def)+
  have strip: "strip_brackets h = h" using nots(1) head(1) unfolding h(1) by (simp add: strip_brackets_def Let_def)
  have firsts: "h \<noteq> ''localhost''" "h \<noteq> ''::1''" "\<not> starts_with ''fe80:'' h" "\<not> starts_with ''fc'' h" "\<not> starts_with ''fd'' h"
    using head by (simp_all add: h(1) starts_with_def)
  show ?thesis unfolding is_private_host_def lower strip Let_def using nots firsts by blast
qed

text \<open>An address in dotted decimal is refused exactly where it is in one of the ranges no tunnel has: this
  network, the private ones, the loopback and the link-local one.\<close>

theorem private_addresses_are_refused:
  "is_private_host (join ''.'' (map show_nat [a, b, c, d])) \<longleftrightarrow>
     a \<in> {0, 10, 127} \<or> (a = 169 \<and> b = 254) \<or> (a = 172 \<and> b \<in> {16..31}) \<or> (a = 192 \<and> b = 168)"
proof -
  let ?h = "join ''.'' (map show_nat [a, b, c, d])"
  have digits: "x \<noteq> CHR ''.'' \<and> is_digit x" if "x \<in> set (show_nat n)" for x n
    using that show_nat_digits [of n] by (auto simp: list_all_iff is_digit_def)
  have ne: "show_nat n \<noteq> []" for n using show_nat_digits by blast
  have "is_private_host ?h = is_private_ipv4 ?h"
    using digits ne digits [OF hd_in_set [OF ne]] digits [OF last_in_set [OF ne]]
    by (intro numeric_host) (auto simp: hd_append)
  moreover have "split_char (CHR ''.'') ?h = map show_nat [a, b, c, d]"
    using digits by (intro split_char_join) auto
  moreover have "label_number (show_nat n) = Some n" for n
    using show_nat_digits [of n] by (simp add: label_number_def all_digits_def)
  ultimately show ?thesis unfolding is_private_ipv4_def by auto
qed

text \<open>A public host: a name of two or more labels in lower case whose last label starts with a letter and is not one
  of the local domains, and that starts with neither of the IPv6 prefixes; or an IPv4 address outside those ranges.\<close>

definition host_char :: "char \<Rightarrow> bool" where
  "host_char c \<longleftrightarrow> is_digit c \<or> c = CHR ''-'' \<or> c = CHR ''.'' \<or> (97 \<le> (of_char c :: nat) \<and> (of_char c :: nat) \<le> 122)"

definition public_name :: "string \<Rightarrow> bool" where
  "public_name host \<longleftrightarrow>
     (let tld = last (split_char (CHR ''.'') host)
      in list_all host_char host \<and> tld \<noteq> [] \<and> \<not> is_digit (hd tld) \<and> tld \<noteq> ''local'' \<and> tld \<noteq> ''localhost'' \<and>
         take 2 host \<noteq> ''fc'' \<and> take 2 host \<noteq> ''fd'')"

inductive public_host :: "string \<Rightarrow> bool" where
  named: "public_name host \<Longrightarrow> public_host host"
| addressed: "a \<notin> {0, 10, 127} \<Longrightarrow> (a, b) \<noteq> (169, 254) \<Longrightarrow> (a, b) \<noteq> (192, 168) \<Longrightarrow>
    \<not> (a = 172 \<and> b \<in> {16..31}) \<Longrightarrow>
    public_host (join ''.'' (map show_nat [a, b, c, d]))"

lemma last_label: "CHR ''.'' \<notin> set t \<Longrightarrow> ends_with (CHR ''.'' # t) s \<Longrightarrow> last (split_char (CHR ''.'') s) = t"
proof -
  assume t: "CHR ''.'' \<notin> set t" and e: "ends_with (CHR ''.'' # t) s"
  from e obtain p where s: "s = p @ CHR ''.'' # t" unfolding ends_with_def by (metis append_take_drop_id)
  have "\<exists>q qs. split_char c (p @ c # t) = q # qs @ [t]" if "c \<notin> set t" for c p
    using that
  proof (induction p)
    case (Cons x p)
    then obtain q qs where "split_char c (p @ c # t) = q # qs @ [t]" by blast
    then show ?case by (cases "x = c") (auto intro: exI [of _ "q # qs"])
  qed (simp add: split_char_notin)
  from this [OF t, of p] obtain q qs where "split_char (CHR ''.'') s = q # qs @ [t]" unfolding s by blast
  then show ?thesis by simp
qed

fun four_numbers :: "nat option list \<Rightarrow> bool" where
  "four_numbers [Some a, Some b, Some c, Some d] = True"
| "four_numbers _ = False"

lemma private_ipv4_labels:
  assumes "is_private_ipv4 host" "s \<in> set (split_char (CHR ''.'') host)"
  shows "label_number s \<noteq> None"
proof -
  have four: "None \<notin> set xs" if "case xs of [Some a, Some b, Some c, Some d] \<Rightarrow> P a b c d | _ \<Rightarrow> False"
    for xs :: "nat option list" and P :: "nat \<Rightarrow> nat \<Rightarrow> nat \<Rightarrow> nat \<Rightarrow> bool"
    using that by (cases xs rule: four_numbers.cases) (auto split: option.split_asm list.split_asm)
  have "None \<notin> set (map label_number (split_char (CHR ''.'') host))"
    by (rule four) (rule assms(1) [unfolded is_private_ipv4_def])
  with assms(2) show ?thesis by force
qed

lemma host_char_lower: "host_char c \<Longrightarrow> lower_char c = c"
  by (auto simp: host_char_def is_digit_def lower_char_def Let_def)

lemma public_name_passes:
  assumes "public_name host"
  shows "\<not> is_private_host host"
proof -
  let ?tld = "last (split_char (CHR ''.'') host)"
  have p: "list_all host_char host" "?tld \<noteq> []" "\<not> is_digit (hd ?tld)" "?tld \<noteq> ''local''" "?tld \<noteq> ''localhost''"
    "take 2 host \<noteq> ''fc''" "take 2 host \<noteq> ''fd''"
    using assms by (simp_all add: public_name_def Let_def)
  have chars: "host_char x" if "x \<in> set host" for x using p(1) that by (simp add: list_all_iff)
  have lower: "lower_case host = host"
    unfolding lower_case_def by (rule map_idI) (rule host_char_lower [OF chars])
  have no: "CHR ''['' \<notin> set host" "CHR '']'' \<notin> set host" "CHR '':'' \<notin> set host"
    using chars by (force simp: host_char_def is_digit_def)+
  have "\<not> ends_with '']'' host"
  proof
    assume "ends_with '']'' host"
    then have "\<exists>q. host = q @ '']''" unfolding ends_with_def by (metis append_take_drop_id)
    with no(2) show False by auto
  qed
  then have strip: "strip_brackets host = host" using no(1) by (cases host) (auto simp: strip_brackets_def Let_def)
  have label: "label_number ?tld = None" using p(2,3) by (cases ?tld) (simp_all add: label_number_def all_digits_def)
  have "\<not> is_private_ipv4 host" using private_ipv4_labels [of host ?tld] label by auto
  moreover have "host \<noteq> ''localhost''" using p(5) by auto
  moreover have "\<not> ends_with ''.localhost'' host" "\<not> ends_with ''.local'' host"
    using last_label [of "''localhost''" host] last_label [of "''local''" host] p(4,5) by auto
  moreover have "\<not> starts_with ''fe80:'' host"
  proof
    assume "starts_with ''fe80:'' host"
    then have "CHR '':'' \<in> set (take 5 host)" by (simp add: starts_with_def eval_nat_numeral)
    with no(3) show False by (meson in_set_takeD)
  qed
  moreover have "host \<noteq> ''::1''" using no(3) by auto
  moreover have "\<not> starts_with ''fc'' host" "\<not> starts_with ''fd'' host" using p(6,7) by (simp_all add: starts_with_def numeral_2_eq_2)
  ultimately show ?thesis unfolding is_private_host_def lower strip Let_def by blast
qed

lemma public_host_passes: "public_host host \<Longrightarrow> \<not> is_private_host host"
proof (induction rule: public_host.induct)
  case (addressed a b c d)
  then show ?case unfolding private_addresses_are_refused by auto
qed (rule public_name_passes)

subsection \<open>The link reads back\<close>

text \<open>C34: The link the gateway prints reads back in both apps, whatever space is pasted around it: the web app gets
  the gateway's address and its key of letters and digits, and so does the mobile app where that address is the
  https origin of a public host, which is a name of letters, digits and hyphens that is
  not of a local domain, ends in a label that starts with a letter, and starts with neither fc nor fd, or an IPv4 address outside the local ranges. (A
  public name that does start with one of the two is refused: \<open>public_name_is_refused\<close>.)\<close>

theorem connect_link_reads_back:
  assumes "plain_key api_key" "base_url \<noteq> []" "CHR ''#'' \<notin> set base_url" "\<not> is_js_space (hd base_url)"
    "last base_url \<noteq> CHR ''/''" "list_all is_js_space pre" "list_all is_js_space post"
    "parse_url (connect_link base_url api_key) =
       Some \<lparr>up_protocol = ''https:'', up_hostname = host, up_origin = base_url, up_hash = ''#k='' @ api_key\<rparr>"
    "public_host host"
  shows "parse_web_link (pre @ connect_link base_url api_key @ post) = Some \<lparr>ct_host = base_url, ct_key = api_key\<rparr> \<and>
    parse_mobile_link parse_url (pre @ connect_link base_url api_key @ post) = Inr \<lparr>ct_host = base_url, ct_key = api_key\<rparr>"
proof -
  let ?link = "connect_link base_url api_key"
  have key: "api_key \<noteq> []" "list_all is_alnum api_key" using assms(1) by (simp_all add: plain_key_def)
  then have last: "is_alnum (last api_key)" "is_alnum (hd api_key)" by (auto simp: list_all_iff)
  have t: "trim (pre @ ?link @ post) = ?link"
    using assms(2,4,6,7) key(1) alnum_facts(1) [OF last(1)] by (intro trim_around) (simp_all add: connect_link_def)
  have "index_of ''#'' ?link = Some (length (base_url @ ''/app''))"
    using index_of_char [of "CHR ''#''" "base_url @ ''/app''" "''k='' @ api_key"] assms(3) by (simp add: connect_link_def)
  then have i: "index_of ''#'' ?link = Some (length base_url + 4)" by simp
  have parts: "take (length base_url + 4) ?link = base_url @ ''/app''" "drop (length base_url + 4) ?link = ''#k='' @ api_key"
    by (simp_all add: connect_link_def)
  have "map_of (search_params (''k='' @ api_key)) ''k'' = Some api_key" using map_of_key [OF assms(1)] by simp
  then have k: "parse_connect_key (''#k='' @ api_key) = Some api_key" "map_of (search_params (drop 1 (''#k='' @ api_key))) ''k'' = Some api_key"
    by (simp_all add: parse_connect_key_def starts_with_def)
  have h: "strip_app (strip_link_slashes (base_url @ ''/app'')) = base_url"
    by (simp add: strip_link_slashes_def strip_app_def ends_with_def)
  have kt: "trim api_key = api_key" using trim_around [of "[]" "[]" api_key] key(1) alnum_facts(1) last by simp
  obtain c cs b bs where n: "api_key = c # cs" "base_url = b # bs" using key(1) assms(2) by (cases api_key; cases base_url) auto
  have "parse_web_link (pre @ ?link @ post) = Some \<lparr>ct_host = base_url, ct_key = api_key\<rparr>"
    unfolding parse_web_link_def t Let_def i option.case parts k(1) h by (simp add: n)
  moreover have "parse_mobile_link parse_url (pre @ ?link @ post) = Inr \<lparr>ct_host = base_url, ct_key = api_key\<rparr>"
    unfolding parse_mobile_link_def t assms(8) option.case url_parts.simps k(2) option.map(2) kt
    using public_host_passes [OF assms(9)] by (simp add: n)
  ultimately show ?thesis ..
qed

definition example_url :: "string \<Rightarrow> url_parts option" where
  "example_url s = (if s = ''https://g.run/app#k=0a'' then Some \<lparr>up_protocol = ''https:'', up_hostname = ''g.run'',
     up_origin = ''https://g.run'', up_hash = ''#k=0a''\<rparr> else None)"

lemma connect_link_reads_back_witness:
  "parse_mobile_link example_url ('' '' @ connect_link ''https://g.run'' ''0a'' @ '' '') =
     Inr \<lparr>ct_host = ''https://g.run'', ct_key = ''0a''\<rparr>"
proof -
  have "public_host ''g.run''"
    by (rule named) (simp add: public_name_def host_char_def is_digit_def)
  then show ?thesis
    using connect_link_reads_back [of "''0a''" "''https://g.run''" "'' ''" "'' ''" example_url "''g.run''"]
    by (simp add: plain_key_def is_alnum_def is_js_space_def example_url_def connect_link_def)
qed

text \<open>The prefixes meant for IPv6 addresses are matched against names too, so a public host whose name starts with
  one of them is refused as a local one.\<close>

lemma public_name_is_refused: "is_private_host ''fcgateway.example.com'' \<and> is_private_host ''fd0.trycloudflare.com''"
  by code_simp

end
