(* ===== verification/SyncSocket.thy ===== *)
theory SyncSocket
  imports ReconnectingSocket SyncProtocol ReleaseVersion
begin

section \<open>The /sync socket (transport/socket.ts)\<close>

text \<open>
  The client half of the /sync protocol over a reconnecting socket: the hello's version
  window, the replay of cached context on every open, the reauth that waits for an open.
  The state holds the connection of ReconnectingSocket, and every callback the connection
  makes is run through the handler the code registered for it.  A snapshot and an agent's
  info stay JSON.  Two device reports are the same to the code when their JSON texts are,
  which for reports built with one key order is equality of the report.
\<close>

datatype sync_state = SConnecting | SOpen | SReconnecting | SAppBehind | SGatewayBehind | SClosed

record sync_deps =
  sd_version :: "string option"
  sd_kind :: client_kind
  sd_device :: "(string \<times> string) option"

record sync_socket =
  ss_conn :: conn
  ss_focused :: "bool option"
  ss_viewing :: "string option"
  ss_context :: "device_context option"
  ss_synced :: bool
  ss_pending_token :: "string option"
  ss_app_behind :: bool

datatype sync_out =
  SnapshotOut json
| DeltaOut wire_delta
| StateChange sync_state
| FrameSent nat json
| Platform conn_out

datatype sync_event =
  Net conn_event
| Reauth string
| ReportPresence bool
| ReportViewing "string option"
| ReportDeviceContext device_context
| SyncClose

subsection \<open>The code\<close>

definition context_frame :: "sync_deps \<Rightarrow> sync_socket \<Rightarrow> bool \<Rightarrow> client_frame" where
  "context_frame deps s resync =
     client_context_frame
       \<lparr>ci_focused = nullish (ss_focused s) False, ci_client = sd_kind deps, ci_resync = resync,
        ci_viewing = (if ss_focused s = Some True then ss_viewing s else None),
        ci_device = sd_device deps, ci_context = ss_context s\<rparr>"

definition classify_hello :: "sync_deps \<Rightarrow> hello_frame \<Rightarrow> sync_state option" where
  "classify_hello deps hello =
     (case sd_version deps of
        None \<Rightarrow> None
      | Some client \<Rightarrow>
          (if client_below_minimum client (hello_min_supported hello) then Some SAppBehind
           else if client_ahead_of_gateway client (hello_version hello) then Some SGatewayBehind
           else None))"

definition sync_phase :: "reconnect_phase \<Rightarrow> sync_socket \<Rightarrow> sync_out" where
  "sync_phase p s = StateChange
     (case p of PClosed \<Rightarrow> (if ss_app_behind s then SAppBehind else SClosed)
      | PConnecting \<Rightarrow> SConnecting | POpen \<Rightarrow> SOpen | PReconnecting \<Rightarrow> SReconnecting)"

text \<open>\<open>socket.close()\<close>: the connection closes, and its final phase is reported.\<close>

definition close_out :: "sync_socket \<Rightarrow> conn_out \<Rightarrow> sync_out" where
  "close_out s x = (case x of OnPhaseChange p \<Rightarrow> sync_phase p s | y \<Rightarrow> Platform y)"

definition close_socket :: "sync_socket \<Rightarrow> sync_socket \<times> sync_out list" where
  "close_socket s =
     (let (c, os) = conn_close (ss_conn s); s = s\<lparr>ss_conn := c\<rparr>
      in (s, map (close_out s) os))"

text \<open>\<open>socket.send(data)\<close>: what was put on the wire, and whether it was.\<close>

definition send_frame :: "client_frame \<Rightarrow> sync_socket \<Rightarrow> bool \<times> sync_out list" where
  "send_frame frame s =
     (let os = snd (conn_send (Some (encode_frame frame)) (ss_conn s))
      in (SendReturned True \<in> set os,
          concat (map (\<lambda>x. case x of SocketSend k (Some j) \<Rightarrow> [FrameSent k j] | _ \<Rightarrow> []) os)))"

definition on_open :: "sync_deps \<Rightarrow> nat \<Rightarrow> sync_socket \<Rightarrow> sync_socket \<times> sync_out list" where
  "on_open deps live s =
     (let (s, reauth) =
            (case ss_pending_token s of
               Some token \<Rightarrow> (s\<lparr>ss_pending_token := None\<rparr>, [FrameSent live (encode_frame (reauth_frame token))])
             | None \<Rightarrow> (s, []))
      in if ss_focused s \<noteq> None \<or> ss_viewing s \<noteq> None
         then (s\<lparr>ss_synced := True\<rparr>,
               reauth @ [FrameSent live (encode_frame (context_frame deps s (ss_synced s)))])
         else (s, reauth))"

definition on_message :: "sync_deps \<Rightarrow> wire_text \<Rightarrow> sync_socket \<Rightarrow> sync_socket \<times> sync_out list" where
  "on_message deps data s =
     (case parse_server_frame data of
        HelloParsed hello \<Rightarrow>
          (let outcome = classify_hello deps hello
           in if outcome = Some SAppBehind then close_socket (s\<lparr>ss_app_behind := True\<rparr>)
              else if outcome = Some SGatewayBehind then (s, [StateChange SGatewayBehind])
              else (s, []))
      | SnapshotParsed tree \<Rightarrow> (s, [SnapshotOut tree])
      | DeltaParsed delta \<Rightarrow> (s, [DeltaOut delta])
      | UnknownFrame \<Rightarrow> (s, []))"

fun on_conn_out :: "sync_deps \<Rightarrow> sync_socket \<Rightarrow> conn_out \<Rightarrow> sync_socket \<times> sync_out list" where
  "on_conn_out deps s (OnOpen live) = on_open deps live s"
| "on_conn_out deps s (OnMessage data) = on_message deps data s"
| "on_conn_out deps s (OnPhaseChange p) = (s, [sync_phase p s])"
| "on_conn_out deps s x = (s, [Platform x])"

definition emit_context :: "sync_deps \<Rightarrow> sync_socket \<Rightarrow> sync_socket \<times> sync_out list" where
  "emit_context deps s =
     (let (sent, os) = send_frame (context_frame deps s False) s
      in (s\<lparr>ss_synced := sent\<rparr>, os))"

definition sync_reauth :: "string \<Rightarrow> sync_socket \<Rightarrow> sync_socket \<times> sync_out list" where
  "sync_reauth token s =
     (let (sent, os) = send_frame (reauth_frame token) s
      in (if \<not> sent then s\<lparr>ss_pending_token := Some token\<rparr> else s, os))"

definition report_presence :: "sync_deps \<Rightarrow> bool \<Rightarrow> sync_socket \<Rightarrow> sync_socket \<times> sync_out list" where
  "report_presence deps focused s =
     (if ss_focused s = Some focused then (s, [])
      else emit_context deps (s\<lparr>ss_focused := Some focused\<rparr>))"

definition report_viewing :: "sync_deps \<Rightarrow> string option \<Rightarrow> sync_socket \<Rightarrow> sync_socket \<times> sync_out list" where
  "report_viewing deps agent s =
     (if ss_viewing s = agent then (s, [])
      else emit_context deps (s\<lparr>ss_viewing := agent\<rparr>))"

definition report_device_context ::
  "sync_deps \<Rightarrow> device_context \<Rightarrow> sync_socket \<Rightarrow> sync_socket \<times> sync_out list" where
  "report_device_context deps context s =
     (if Some context = ss_context s then (s, [])
      else emit_context deps (s\<lparr>ss_context := Some context\<rparr>))"

definition sync_close :: "sync_socket \<Rightarrow> sync_socket \<times> sync_out list" where
  "sync_close s = close_socket (s\<lparr>ss_pending_token := None\<rparr>)"

definition on_net :: "sync_deps \<Rightarrow> sync_socket \<Rightarrow> conn \<times> conn_out list \<Rightarrow> sync_socket \<times> sync_out list" where
  "on_net deps s r = run_events (on_conn_out deps) (s\<lparr>ss_conn := fst r\<rparr>) (snd r)"

definition create_sync :: "sync_deps \<Rightarrow> nat option \<Rightarrow> nat option \<Rightarrow> sync_socket \<times> sync_out list" where
  "create_sync deps base_ms max_ms =
     on_net deps \<lparr>ss_conn = fst (create_conn base_ms max_ms), ss_focused = None, ss_viewing = None,
       ss_context = None, ss_synced = False, ss_pending_token = None, ss_app_behind = False\<rparr>
       (create_conn base_ms max_ms)"

fun sync_step :: "sync_deps \<Rightarrow> sync_socket \<Rightarrow> sync_event \<Rightarrow> sync_socket \<times> sync_out list" where
  "sync_step deps s (Net e) = on_net deps s (conn_step (ss_conn s) e)"
| "sync_step deps s (Reauth token) = sync_reauth token s"
| "sync_step deps s (ReportPresence focused) = report_presence deps focused s"
| "sync_step deps s (ReportViewing agent) = report_viewing deps agent s"
| "sync_step deps s (ReportDeviceContext context) = report_device_context deps context s"
| "sync_step deps s SyncClose = sync_close s"

text \<open>The network's events are the ones the connection can have; its calls belong to this code.\<close>

fun sync_enabled :: "sync_socket \<Rightarrow> sync_event \<Rightarrow> bool" where
  "sync_enabled s (Net e) \<longleftrightarrow> conn_enabled (ss_conn s) e \<and> e \<noteq> CallClose \<and> (\<forall>d. e \<noteq> CallSend d)"
| "sync_enabled s _ \<longleftrightarrow> True"

subsection \<open>What the gateway has been told\<close>

definition is_context :: "json \<Rightarrow> bool" where
  "is_context j = (case j of JObj ps \<Rightarrow> field ps ''type'' = Some (JStr ''client_context'') | _ \<Rightarrow> False)"

definition is_resync :: "json \<Rightarrow> bool" where
  "is_resync j = (case j of JObj ps \<Rightarrow> field ps ''resync'' = Some (JBool True) | _ \<Rightarrow> False)"

definition context_sends :: "sync_out list \<Rightarrow> (nat \<times> json) list" where
  "context_sends os = concat (map (\<lambda>x. case x of FrameSent k j \<Rightarrow> (if is_context j then [(k, j)] else []) | _ \<Rightarrow> []) os)"

lemma context_sends_simps [simp]:
  "context_sends [] = []" "context_sends (xs @ ys) = context_sends xs @ context_sends ys"
  "context_sends (FrameSent k j # os) = (if is_context j then (k, j) # context_sends os else context_sends os)"
  "context_sends (StateChange st # os) = context_sends os"
  "context_sends (SnapshotOut t # os) = context_sends os"
  "context_sends (DeltaOut d # os) = context_sends os"
  "context_sends (Platform p # os) = context_sends os"
  by (simp_all add: context_sends_def)

lemma context_frame_facts [simp]:
  "is_context (encode_frame (context_frame deps s r))"
  "is_resync (encode_frame (context_frame deps s r)) = r"
  "\<not> is_context (encode_frame (reauth_frame token))"
  by (auto simp: context_frame_def client_context_frame_def is_context_def is_resync_def reauth_frame_def Let_def
      split: option.splits)

text \<open>What the frame says beside the resync flag; it depends on the three cached reports only.\<close>

definition current_context :: "sync_deps \<Rightarrow> sync_socket \<Rightarrow> json \<Rightarrow> bool" where
  "current_context deps s j \<longleftrightarrow> (\<exists>r. j = encode_frame (context_frame deps s r))"

definition same_reports :: "sync_socket \<Rightarrow> sync_socket \<Rightarrow> bool" where
  "same_reports s t \<longleftrightarrow> ss_focused s = ss_focused t \<and> ss_viewing s = ss_viewing t \<and> ss_context s = ss_context t"

lemma context_frame_reports: "same_reports s t \<Longrightarrow> context_frame deps s = context_frame deps t"
  by (auto simp: context_frame_def same_reports_def fun_eq_iff)

lemma current_context_reports: "same_reports s t \<Longrightarrow> current_context deps s = current_context deps t"
  by (auto simp: current_context_def context_frame_reports fun_eq_iff)

lemma current_context_frame [simp]: "current_context deps s (encode_frame (context_frame deps s r))"
  by (auto simp: current_context_def)

text \<open>The invariant over the state and the context frames sent so far.\<close>

definition reported :: "sync_socket \<Rightarrow> bool" where
  "reported s \<longleftrightarrow> ss_focused s \<noteq> None \<or> ss_viewing s \<noteq> None"

definition told :: "sync_deps \<Rightarrow> sync_socket \<Rightarrow> (nat \<times> json) list \<Rightarrow> bool" where
  "told deps s h \<longleftrightarrow>
     (ss_synced s \<longrightarrow> h \<noteq> [] \<and> current_context deps s (snd (last h))) \<and>
     (\<forall>k. cn_phase (ss_conn s) = Open k \<longrightarrow>
        ss_pending_token s = None \<and> (reported s \<longrightarrow> ss_synced s \<and> fst (last h) = k))"

definition without_resync :: "json \<Rightarrow> json" where
  "without_resync j = (case j of JObj ps \<Rightarrow> JObj (filter (\<lambda>p. fst p \<noteq> ''resync'') ps) | _ \<Rightarrow> j)"

fun resync_ok :: "json option \<Rightarrow> json list \<Rightarrow> bool" where
  "resync_ok prev [] \<longleftrightarrow> True"
| "resync_ok prev (j # js) \<longleftrightarrow>
     (is_resync j \<longrightarrow> map_option without_resync prev = Some (without_resync j)) \<and> resync_ok (Some j) js"

lemma resync_ok_snoc:
  "resync_ok prev (js @ [j]) \<longleftrightarrow> resync_ok prev js \<and>
     (is_resync j \<longrightarrow> map_option without_resync (if js = [] then prev else Some (last js)) = Some (without_resync j))"
  by (induction js arbitrary: prev) auto

lemma without_resync_context:
  "without_resync (encode_frame (context_frame deps s r)) = without_resync (encode_frame (context_frame deps s True))"
  by (cases "sd_device deps"; cases "ss_context s")
    (simp_all add: context_frame_def client_context_frame_def without_resync_def split_beta)

lemma current_context_same:
  "current_context deps s i \<Longrightarrow> current_context deps s j \<Longrightarrow> without_resync i = without_resync j"
  unfolding current_context_def using without_resync_context by metis

definition sync_ok :: "sync_deps \<Rightarrow> sync_socket \<Rightarrow> (nat \<times> json) list \<Rightarrow> bool" where
  "sync_ok deps s h \<longleftrightarrow> told deps s h \<and> resync_ok None (map snd h)"

lemma sync_ok_send:
  assumes h: "sync_ok deps s h" and r: "r \<longrightarrow> ss_synced s \<and> same_reports s s'"
    and "ss_synced s'" "ss_pending_token s' = None" "cn_phase (ss_conn s') = Open k"
  shows "sync_ok deps s' (h @ [(k, encode_frame (context_frame deps s' r))])"
proof -
  have "resync_ok None (map snd h @ [encode_frame (context_frame deps s' r)])"
    unfolding resync_ok_snoc
  proof (intro conjI impI)
    show "resync_ok None (map snd h)" using h by (simp add: sync_ok_def)
    assume "is_resync (encode_frame (context_frame deps s' r))"
    then have "ss_synced s" and same: "same_reports s s'" using r by auto
    with h have "h \<noteq> []" and cur: "current_context deps s (snd (last h))"
      by (auto simp: sync_ok_def told_def)
    have "current_context deps s (encode_frame (context_frame deps s' r))"
      unfolding context_frame_reports [OF same, symmetric] by simp
    from current_context_same [OF cur this] \<open>h \<noteq> []\<close>
    show "map_option without_resync (if map snd h = [] then None else Some (last (map snd h)))
      = Some (without_resync (encode_frame (context_frame deps s' r)))"
      by (simp add: last_map)
  qed
  then show ?thesis using assms(3-5) by (simp add: sync_ok_def told_def)
qed

text \<open>A change that sends nothing and opens nothing keeps the invariant.\<close>

lemma sync_ok_quiet:
  assumes "sync_ok deps s h" "same_reports s s'" "ss_synced s' = ss_synced s"
    and "\<And>k. cn_phase (ss_conn s') = Open k \<Longrightarrow>
      cn_phase (ss_conn s) = Open k \<and> ss_pending_token s' = ss_pending_token s"
  shows "sync_ok deps s' h"
  using assms current_context_reports [OF assms(2), of deps]
  unfolding sync_ok_def told_def reported_def same_reports_def by metis

lemma sync_ok_unsynced:
  assumes "sync_ok deps s h" "\<not> ss_synced s'" "\<And>k. cn_phase (ss_conn s') \<noteq> Open k"
  shows "sync_ok deps s' h"
  using assms by (simp add: sync_ok_def told_def)

lemma send_frame_cases:
  "send_frame f s = (case cn_phase (ss_conn s) of Open k \<Rightarrow> (True, [FrameSent k (encode_frame f)]) | _ \<Rightarrow> (False, []))"
  by (auto simp: send_frame_def conn_send_def split: conn_phase.splits)

lemma emit_context_ok:
  assumes "sync_ok deps s h" "ss_conn s' = ss_conn s" "ss_pending_token s' = ss_pending_token s"
  shows "sync_ok deps (fst (emit_context deps s')) (h @ context_sends (snd (emit_context deps s')))"
proof (cases "\<exists>k. cn_phase (ss_conn s) = Open k")
  case True
  then obtain k where k: "cn_phase (ss_conn s) = Open k" ..
  let ?t = "s'\<lparr>ss_synced := True\<rparr>"
  have e: "emit_context deps s' = (?t, [FrameSent k (encode_frame (context_frame deps s' False))])"
    using k assms(2) by (simp add: emit_context_def send_frame_cases)
  have f: "context_frame deps s' = context_frame deps ?t"
    by (rule context_frame_reports) (simp add: same_reports_def)
  have "ss_pending_token s = None" using assms(1) k by (simp add: sync_ok_def told_def)
  then have "sync_ok deps ?t (h @ [(k, encode_frame (context_frame deps ?t False))])"
    using sync_ok_send [OF assms(1), of False ?t k] k assms(2,3) by simp
  then show ?thesis by (simp add: e f)
next
  case False
  then have "emit_context deps s' = (s'\<lparr>ss_synced := False\<rparr>, [])"
    using assms(2) by (auto simp: emit_context_def send_frame_cases split: conn_phase.splits)
  then show ?thesis using sync_ok_unsynced [OF assms(1)] False assms(2) by simp
qed

lemma close_socket_simps:
  "ss_conn (fst (close_socket s)) = fst (conn_close (ss_conn s))"
  "same_reports (fst (close_socket s)) s" "ss_synced (fst (close_socket s)) = ss_synced s"
  by (simp_all add: close_socket_def split_beta Let_def same_reports_def)

lemma context_sends_close: "context_sends (map (close_out s) os) = []"
  by (induction os) (auto simp: context_sends_def close_out_def sync_phase_def split: conn_out.splits)

lemma same_reports_sym: "same_reports s t \<Longrightarrow> same_reports t s"
  by (simp add: same_reports_def)

lemma close_socket_ok:
  "sync_ok deps s h \<Longrightarrow> sync_ok deps (fst (close_socket s)) (h @ context_sends (snd (close_socket s)))"
proof -
  assume h: "sync_ok deps s h"
  have "context_sends (snd (close_socket s)) = []"
    by (simp add: close_socket_def split_beta Let_def context_sends_close)
  then show ?thesis
    using sync_ok_quiet [OF h same_reports_sym [OF close_socket_simps(2)] close_socket_simps(3)]
    by (simp add: close_socket_simps(1))
qed

lemma on_open_ok:
  assumes h: "sync_ok deps s h" and "ss_conn s' = c" "cn_phase c = Open k"
    and "same_reports s s'" "ss_synced s' = ss_synced s"
  shows "sync_ok deps (fst (on_open deps k s')) (h @ context_sends (snd (on_open deps k s')))"
proof -
  let ?t = "s'\<lparr>ss_pending_token := None\<rparr>" and ?u = "s'\<lparr>ss_pending_token := None, ss_synced := True\<rparr>"
  have tu: "context_frame deps ?t = context_frame deps ?u" "context_frame deps s' = context_frame deps ?u"
    by (rule context_frame_reports; simp add: same_reports_def)+
  show ?thesis
  proof (cases "reported s'")
    case True
    have "fst (on_open deps k s') = ?u"
      "context_sends (snd (on_open deps k s')) = [(k, encode_frame (context_frame deps ?u (ss_synced s)))]"
      using True assms(5) tu
      by (cases "ss_pending_token s'"; force simp: on_open_def reported_def Let_def)+
    then show ?thesis
      using sync_ok_send [OF h, of "ss_synced s" ?u k] assms(2-5) by (simp add: same_reports_def)
  next
    case False
    have "fst (on_open deps k s') = ?t" "context_sends (snd (on_open deps k s')) = []"
      using False by (cases "ss_pending_token s'"; force simp: on_open_def reported_def Let_def)+
    moreover have "sync_ok deps ?t h"
      using h False assms current_context_reports [OF assms(4), of deps]
        current_context_reports [of s' ?t deps]
      by (simp add: sync_ok_def told_def reported_def same_reports_def)
    ultimately show ?thesis by simp
  qed
qed

text \<open>The connection's other outputs change nothing this code keeps.\<close>

definition calm :: "conn_out \<Rightarrow> bool" where
  "calm x = (case x of OnOpen _ \<Rightarrow> False | OnMessage _ \<Rightarrow> False | _ \<Rightarrow> True)"

lemma calm_run:
  "list_all calm os \<Longrightarrow> fst (run_events (on_conn_out deps) s os) = s \<and>
     context_sends (snd (run_events (on_conn_out deps) s os)) = []"
proof (induction os)
  case (Cons x os)
  then show ?case by (cases x) (auto simp: calm_def sync_phase_def)
qed simp

lemma conn_step_calm:
  "(\<forall>k. e \<noteq> SocketOpened k) \<Longrightarrow> (\<forall>k m. e \<noteq> SocketMessage k m) \<Longrightarrow>
     list_all calm (snd (conn_step c e)) \<and>
     (\<forall>k. cn_phase (fst (conn_step c e)) = Open k \<longrightarrow> cn_phase c = Open k)"
  by (cases e; cases "cn_phase c") (auto simp: conn_defs calm_def Let_def)

lemma on_net_calm:
  assumes "sync_ok deps s h" "list_all calm (snd r)"
    and "\<And>k. cn_phase (fst r) = Open k \<Longrightarrow> cn_phase (ss_conn s) = Open k"
  shows "sync_ok deps (fst (on_net deps s r)) (h @ context_sends (snd (on_net deps s r)))"
proof -
  have "fst (on_net deps s r) = s\<lparr>ss_conn := fst r\<rparr>" "context_sends (snd (on_net deps s r)) = []"
    using calm_run [OF assms(2), of deps "s\<lparr>ss_conn := fst r\<rparr>"] by (simp_all add: on_net_def)
  moreover have "sync_ok deps (s\<lparr>ss_conn := fst r\<rparr>) h"
    using sync_ok_quiet [OF assms(1), of "s\<lparr>ss_conn := fst r\<rparr>"] assms(3) by (simp add: same_reports_def)
  ultimately show ?thesis by simp
qed

lemma on_message_ok:
  assumes "sync_ok deps s h"
  shows "sync_ok deps (fst (on_message deps m s)) (h @ context_sends (snd (on_message deps m s)))"
proof -
  have "sync_ok deps (s\<lparr>ss_app_behind := True\<rparr>) h"
    using sync_ok_quiet [OF assms, of "s\<lparr>ss_app_behind := True\<rparr>"] by (simp add: same_reports_def)
  from close_socket_ok [OF this] show ?thesis
    using assms by (auto simp: on_message_def Let_def split: parsed_frame.splits)
qed

lemma on_net_ok:
  assumes "sync_ok deps s h"
  shows "sync_ok deps (fst (on_net deps s (conn_step (ss_conn s) e)))
    (h @ context_sends (snd (on_net deps s (conn_step (ss_conn s) e))))"
proof -
  let ?r = "conn_step (ss_conn s) e"
  have same: "s\<lparr>ss_conn := ss_conn s\<rparr> = s" by simp
  consider (opened) k where "e = SocketOpened k" "cn_phase (ss_conn s) = Connecting k"
    | (message) k m where "e = SocketMessage k m" "holds_socket k (ss_conn s)"
    | (quiet) "list_all calm (snd ?r)" "\<And>k. cn_phase (fst ?r) = Open k \<Longrightarrow> cn_phase (ss_conn s) = Open k"
  proof (cases "\<exists>k m. e = SocketOpened k \<or> e = SocketMessage k m")
    case False
    then have "(\<forall>k. e \<noteq> SocketOpened k)" "(\<forall>k m. e \<noteq> SocketMessage k m)" by metis+
    from conn_step_calm [OF this, of "ss_conn s"] show ?thesis by (intro that(3)) simp_all
  next
    case True
    then obtain k m where e: "e = SocketOpened k \<or> e = SocketMessage k m" by metis
    show ?thesis
    proof (cases "e = SocketOpened k \<and> cn_phase (ss_conn s) = Connecting k \<or>
        e = SocketMessage k m \<and> holds_socket k (ss_conn s)")
      case True
      then show ?thesis using that(1) that(2) by metis
    next
      case False
      with e have "conn_step (ss_conn s) e = (ss_conn s, [])"
        by (auto simp: socket_opened_def socket_message_def)
      then show ?thesis by (intro that(3)) simp_all
    qed
  qed
  then show ?thesis
  proof cases
    case opened
    let ?c = "fst ?r"
    have c: "cn_phase ?c = Open k" "snd ?r = [OnOpen k, OnPhaseChange POpen]"
      using opened by (auto simp: socket_opened_def)
    have "sync_ok deps (fst (on_open deps k (s\<lparr>ss_conn := ?c\<rparr>)))
      (h @ context_sends (snd (on_open deps k (s\<lparr>ss_conn := ?c\<rparr>))))"
      by (rule on_open_ok [OF assms refl]) (simp_all add: c same_reports_def)
    then show ?thesis by (simp add: on_net_def c(2) sync_phase_def)
  next
    case message
    then have "snd ?r = [OnMessage m]" "fst ?r = ss_conn s" by (auto simp: socket_message_def)
    then show ?thesis using on_message_ok [OF assms, of m] by (simp add: on_net_def same)
  next
    case quiet
    show ?thesis by (rule on_net_calm [OF assms quiet])
  qed
qed

lemma sync_step_ok:
  assumes "sync_ok deps s h"
  shows "sync_ok deps (fst (sync_step deps s e)) (h @ context_sends (snd (sync_step deps s e)))"
proof (cases e)
  case (Net x)
  then show ?thesis using on_net_ok [OF assms, of x] by simp
next
  case (Reauth token)
  have "sync_ok deps (s\<lparr>ss_pending_token := Some token\<rparr>) h" if "\<And>k. cn_phase (ss_conn s) \<noteq> Open k"
    using sync_ok_quiet [OF assms, of "s\<lparr>ss_pending_token := Some token\<rparr>"] that by (simp add: same_reports_def)
  then show ?thesis
    using assms Reauth by (cases "cn_phase (ss_conn s)") (auto simp: sync_reauth_def send_frame_cases)
next
  case SyncClose
  have "sync_ok deps (s\<lparr>ss_pending_token := None\<rparr>) h"
    using sync_ok_quiet [OF assms, of "s\<lparr>ss_pending_token := None\<rparr>"] assms
    by (auto simp: same_reports_def sync_ok_def told_def)
  from close_socket_ok [OF this] show ?thesis using SyncClose by (simp add: sync_close_def)
next
  case (ReportPresence b)
  then show ?thesis
    using assms emit_context_ok [OF assms, of "s\<lparr>ss_focused := Some b\<rparr>"] by (simp add: report_presence_def)
next
  case (ReportViewing a)
  then show ?thesis
    using assms emit_context_ok [OF assms, of "s\<lparr>ss_viewing := a\<rparr>"] by (simp add: report_viewing_def)
next
  case (ReportDeviceContext d)
  then show ?thesis
    using assms emit_context_ok [OF assms, of "s\<lparr>ss_context := Some d\<rparr>"] by (simp add: report_device_context_def)
qed

lemma sync_run_ok:
  "sync_ok deps s h \<Longrightarrow>
     sync_ok deps (fst (run_events (sync_step deps) s es)) (h @ context_sends (snd (run_events (sync_step deps) s es)))"
proof (induction es arbitrary: s h)
  case (Cons e es)
  from Cons.IH [OF sync_step_ok [OF Cons.prems, of e]] show ?case by simp
qed simp

lemma create_sync_simps:
  "ss_conn (fst (create_sync deps base_ms max_ms)) = fst (create_conn base_ms max_ms)"
  "\<not> ss_synced (fst (create_sync deps base_ms max_ms))"
  by (simp_all add: create_sync_def on_net_def create_conn_def connect_def Let_def)

lemma create_sync_ok: "sync_ok deps (fst (create_sync deps base_ms max_ms)) []"
  by (simp add: sync_ok_def told_def create_sync_simps)

subsection \<open>Reauth and the closed socket\<close>

definition reauth_sent :: "string \<Rightarrow> sync_out list \<Rightarrow> bool" where
  "reauth_sent token os \<longleftrightarrow> (\<exists>k. FrameSent k (encode_frame (reauth_frame token)) \<in> set os)"

lemma reauth_sent_append [simp]:
  "reauth_sent token (xs @ ys) \<longleftrightarrow> reauth_sent token xs \<or> reauth_sent token ys"
  by (auto simp: reauth_sent_def)

lemma close_socket_fields [simp]: "ss_pending_token (fst (close_socket s)) = ss_pending_token s"
  by (simp add: close_socket_def split_beta Let_def)

lemma emit_context_fields [simp]:
  "ss_pending_token (fst (emit_context deps s)) = ss_pending_token s"
  "ss_conn (fst (emit_context deps s)) = ss_conn s"
  by (simp_all add: emit_context_def split_beta Let_def)

lemma on_conn_out_token:
  "ss_pending_token s = Some token \<Longrightarrow>
     ss_pending_token (fst (on_conn_out deps s x)) = Some token \<or> reauth_sent token (snd (on_conn_out deps s x))"
  by (cases x)
    (auto simp: on_open_def on_message_def reauth_sent_def Let_def split: parsed_frame.splits)

lemma net_token:
  "ss_pending_token s = Some token \<Longrightarrow>
     ss_pending_token (fst (run_events (on_conn_out deps) s os)) = Some token \<or>
     reauth_sent token (snd (run_events (on_conn_out deps) s os))"
proof (induction os arbitrary: s)
  case (Cons x os)
  then show ?case using on_conn_out_token [of s token deps x] by auto
qed simp

lemma sync_step_token:
  assumes "ss_pending_token s = Some token" "\<forall>t. e \<noteq> Reauth t" "e \<noteq> SyncClose"
  shows "ss_pending_token (fst (sync_step deps s e)) = Some token \<or> reauth_sent token (snd (sync_step deps s e))"
  using assms net_token [of "s\<lparr>ss_conn := c\<rparr>" token for c]
  by (cases e) (auto simp: on_net_def report_presence_def report_viewing_def report_device_context_def)

lemma sync_run_token:
  "ss_pending_token s = Some token \<Longrightarrow> (\<forall>t. Reauth t \<notin> set es) \<Longrightarrow> SyncClose \<notin> set es \<Longrightarrow>
     ss_pending_token (fst (run_events (sync_step deps) s es)) = Some token \<or>
     reauth_sent token (snd (run_events (sync_step deps) s es))"
proof (induction es arbitrary: s)
  case (Cons e es)
  then show ?case using sync_step_token [of s token e deps] by fastforce
qed simp

lemma sync_reauth_step:
  "ss_pending_token (fst (sync_reauth token s)) = Some token \<or> reauth_sent token (snd (sync_reauth token s))"
  by (cases "cn_phase (ss_conn s)") (auto simp: sync_reauth_def send_frame_cases reauth_sent_def)

lemma closed_sync_step:
  assumes "cn_phase (ss_conn s) = Closed" "e \<noteq> SyncClose" "sync_enabled s e"
  shows "cn_phase (ss_conn (fst (sync_step deps s e))) = Closed \<and> snd (sync_step deps s e) = []"
proof (cases e)
  case (Net x)
  have "cn_phase (fst (conn_step (ss_conn s) x)) = Closed" "snd (conn_step (ss_conn s) x) = []"
    using assms Net by (cases x; auto simp: conn_defs Let_def)+
  then show ?thesis by (simp add: Net on_net_def)
qed (use assms in \<open>auto simp: sync_reauth_def report_presence_def report_viewing_def
    report_device_context_def emit_context_def send_frame_cases\<close>)

lemma closed_sync_run:
  "cn_phase (ss_conn s) = Closed \<Longrightarrow> SyncClose \<notin> set es \<Longrightarrow> legal_events (sync_step deps) sync_enabled s es \<Longrightarrow>
     cn_phase (ss_conn (fst (run_events (sync_step deps) s es))) = Closed \<and> snd (run_events (sync_step deps) s es) = []"
proof (induction es arbitrary: s)
  case (Cons e es)
  have "e \<noteq> SyncClose" "sync_enabled s e" using Cons.prems(2,3) by auto
  from closed_sync_step [OF Cons.prems(1) this, of deps]
  show ?case using Cons.IH [of "fst (sync_step deps s e)"] Cons.prems(2,3) by simp
qed simp

subsection \<open>Properties\<close>


definition web_deps :: "sync_deps" where
  "web_deps = \<lparr>sd_version = Some ''0.1.5'', sd_kind = CWeb, sd_device = None\<rparr>"

definition sample_run :: "sync_event list" where
  "sample_run = [ReportPresence True, Net (UrlBuilt ''wss''), Net (SocketOpened 0), ReportViewing (Some ''a'')]"

lemmas sync_defs = create_sync_def on_net_def create_conn_def conn_defs report_presence_def report_viewing_def
  emit_context_def send_frame_def on_open_def on_message_def sync_phase_def sync_reauth_def


text \<open>A resync frame never tells the gateway anything new: every context frame sent with
  resync set says the same, that flag aside, as the context frame sent before it, so a
  reconnect is never read as the user coming back.\<close>

theorem resync_repeats_previous_context:
  "resync_ok None (map snd (context_sends (snd (run_events (sync_step deps) (fst (create_sync deps base_ms max_ms)) es))))"
  using sync_run_ok [OF create_sync_ok, of deps base_ms max_ms es] by (simp add: sync_ok_def)

text \<open>C24: A reauth is never lost: by the next time the socket is open the token has been sent,
  unless a newer token took its place or the caller closed the socket.\<close>

theorem reauth_reaches_open_socket:
  assumes "\<forall>t. Reauth t \<notin> set later" "SyncClose \<notin> set later"
    and "run_events (sync_step deps) (fst (create_sync deps base_ms max_ms)) before = (s0, os0)"
    and "run_events (sync_step deps) s0 (Reauth token # later) = (s, os)"
    and "cn_phase (ss_conn s) = Open k"
  shows "\<exists>k. FrameSent k (encode_frame (reauth_frame token)) \<in> set os"
proof -
  let ?s1 = "fst (sync_reauth token s0)"
  have s: "s = fst (run_events (sync_step deps) ?s1 later)"
    and os: "os = snd (sync_reauth token s0) @ snd (run_events (sync_step deps) ?s1 later)"
    using assms(4) run_events_Cons [of "sync_step deps" s0 "Reauth token" later] by simp_all
  have "sync_ok deps s0 (context_sends os0)"
    using sync_run_ok [OF create_sync_ok, of deps base_ms max_ms before] assms(3) by simp
  from sync_run_ok [OF this, of "Reauth token # later"] have "ss_pending_token s = None"
    using assms(4,5) by (simp add: sync_ok_def told_def)
  then have "reauth_sent token os"
    using sync_reauth_step [of token s0] sync_run_token [of ?s1 token later deps] assms(1,2) s os by auto
  then show ?thesis by (simp add: reauth_sent_def)
qed

theorem reauth_reaches_open_socket_witness:
  "\<exists>os k. snd (run_events (sync_step web_deps) (fst (create_sync web_deps None None))
     [Reauth ''tok'', Net (UrlBuilt ''wss''), Net (SocketOpened 0)]) = os \<and>
     FrameSent k (encode_frame (reauth_frame ''tok'')) \<in> set os"
proof -
  let ?es = "[Net (UrlBuilt ''wss''), Net (SocketOpened 0)]" and ?s0 = "fst (create_sync web_deps None None)"
  obtain s os where r: "run_events (sync_step web_deps) ?s0 (Reauth ''tok'' # ?es) = (s, os)"
    by (metis prod.collapse)
  have "s = fst (run_events (sync_step web_deps) ?s0 (Reauth ''tok'' # ?es))" by (simp add: r)
  then have "cn_phase (ss_conn s) = Open 0" by (simp add: sync_defs conn_send_def Let_def)
  with reauth_reaches_open_socket [of ?es web_deps None None "[]" ?s0 "[]" "''tok''" s os 0] r
  show ?thesis by auto
qed

text \<open>A client older than the gateway's minimum is retired for good: the hello closes the
  socket with the app-behind state as its last report, and no later event sends a frame,
  dials again or reports another state.\<close>

theorem app_behind_is_terminal:
  assumes "holds_socket k (ss_conn s)" "sd_version deps = Some client"
    and "parse_server_frame data = HelloParsed hello" "client_below_minimum client (hello_min_supported hello)"
    and "sync_step deps s (Net (SocketMessage k data)) = (s1, os)"
    and "legal_events (sync_step deps) sync_enabled s1 later" "SyncClose \<notin> set later"
  shows "last os = StateChange SAppBehind \<and> snd (run_events (sync_step deps) s1 later) = []"
proof -
  have s1: "s1 = fst (close_socket (s\<lparr>ss_app_behind := True\<rparr>))" and
    os: "os = snd (close_socket (s\<lparr>ss_app_behind := True\<rparr>))"
    using assms(1-5) by (auto simp: on_net_def socket_message_def on_message_def classify_hello_def Let_def)
  have "cn_phase (ss_conn s1) = Closed" by (simp add: s1 close_socket_simps(1))
  from closed_sync_run [OF this assms(7,6)] have "snd (run_events (sync_step deps) s1 later) = []" by simp
  moreover have "last os = StateChange SAppBehind"
    using assms(1) by (auto simp: os close_socket_def conn_close_def close_out_def sync_phase_def holds_socket_def Let_def)
  ultimately show ?thesis by simp
qed

definition old_hello :: wire_text where
  "old_hello = Some (JObj [(''type'', JStr ''hello''), (''version'', JStr ''0.2.0''), (''min_supported'', JStr ''0.1.6'')])"

theorem app_behind_is_terminal_witness:
  "\<exists>s s1 os. s = fst (run_events (sync_step web_deps) (fst (create_sync web_deps None None)) sample_run) \<and>
     sync_step web_deps s (Net (SocketMessage 0 old_hello)) = (s1, os) \<and> last os = StateChange SAppBehind \<and>
     snd (run_events (sync_step web_deps) s1 [ReportPresence False]) = []"
proof -
  let ?s = "fst (run_events (sync_step web_deps) (fst (create_sync web_deps None None)) sample_run)"
  obtain s1 os where r: "sync_step web_deps ?s (Net (SocketMessage 0 old_hello)) = (s1, os)" by (metis prod.collapse)
  have "holds_socket 0 (ss_conn ?s)" by (simp add: sample_run_def sync_defs Let_def)
  moreover have "client_below_minimum ''0.1.5'' ''0.1.6''"
    by (simp add: client_below_minimum_def compare_release_versions_def parse_parts_def all_digits_def
        is_digit_def digits_value_def compare_loop.simps part_at_def)
  moreover have "parse_server_frame old_hello =
      HelloParsed \<lparr>hello_version = ''0.2.0'', hello_min_supported = ''0.1.6''\<rparr>"
    by (simp add: old_hello_def parse_server_frame_def parse_hello_def)
  ultimately show ?thesis
    using app_behind_is_terminal [of 0 ?s web_deps "''0.1.5''" old_hello _ s1 os "[ReportPresence False]"] r
    by (simp add: web_deps_def)
qed

end
