(* ===== verification/Replica.thy ===== *)
theory Replica
  imports SyncTree
begin

section \<open>The replica of the state tree (replica/reducer.ts, replica/store.ts)\<close>

text \<open>
  The reducer and the store that holds the current tree.  Returning the tree it was given
  (the store compares by identity and then stays silent) is \<open>None\<close>; \<open>Some t\<close> is a new
  object.  The store's listeners are their identities, in subscription order, and an
  operation returns the listeners it called.  The abstract view of a replica is the gateway,
  a finite map from agent names to nodes, and the device list.
\<close>

definition reduce_delta ::
  "('g, 'i, 'n) tree \<Rightarrow> ('g, 'i, 'n) delta \<Rightarrow> ('g, 'i, 'n) tree option" where
  "reduce_delta tree delta =
     (case delta of
        StateDelta v \<Rightarrow> Some (tree\<lparr>tr_gateway := v\<rparr>)
      | AgentDelta name info \<Rightarrow>
          (let prev = map_of (tr_agents tree) name;
               node = \<lparr>an_info = info,
                       an_pending = (case prev of None \<Rightarrow> [] | Some p \<Rightarrow> an_pending p)\<rparr>
           in Some (tree\<lparr>tr_agents := AList.update name node (tr_agents tree)\<rparr>))
      | AgentRemovedDelta name \<Rightarrow>
          (if name \<notin> fst ` set (tr_agents tree) then None
           else Some (tree\<lparr>tr_agents := filter (\<lambda>(n, _). n \<noteq> name) (tr_agents tree)\<rparr>))
      | AgentNotificationsDelta agent pending \<Rightarrow>
          (case map_of (tr_agents tree) agent of
             None \<Rightarrow> None
           | Some prev \<Rightarrow>
               Some (tree\<lparr>tr_agents := AList.update agent (prev\<lparr>an_pending := pending\<rparr>) (tr_agents tree)\<rparr>))
      | UserNotificationDelta _ \<Rightarrow> None
      | PresenceDelta _ \<Rightarrow> None
      | DevicesDelta devices \<Rightarrow> Some (tree\<lparr>tr_devices := devices\<rparr>))"

subsection \<open>The store\<close>

record ('g, 'i, 'n) replica =
  rp_state :: "('g, 'i, 'n) tree option"
  rp_listeners :: "nat list"

definition create_replica :: "('g, 'i, 'n) replica" where
  "create_replica = \<lparr>rp_state = None, rp_listeners = []\<rparr>"

definition rp_subscribe :: "nat \<Rightarrow> ('g, 'i, 'n) replica \<Rightarrow> ('g, 'i, 'n) replica" where
  "rp_subscribe l r = (if l \<in> set (rp_listeners r) then r
     else r\<lparr>rp_listeners := rp_listeners r @ [l]\<rparr>)"

definition rp_unsubscribe :: "nat \<Rightarrow> ('g, 'i, 'n) replica \<Rightarrow> ('g, 'i, 'n) replica" where
  "rp_unsubscribe l r = r\<lparr>rp_listeners := filter (\<lambda>x. x \<noteq> l) (rp_listeners r)\<rparr>"

definition apply_snapshot ::
  "('g, 'i, 'n) tree \<Rightarrow> ('g, 'i, 'n) replica \<Rightarrow> ('g, 'i, 'n) replica \<times> nat list" where
  "apply_snapshot tree r = (r\<lparr>rp_state := Some tree\<rparr>, rp_listeners r)"

definition apply_delta ::
  "('g, 'i, 'n) delta \<Rightarrow> ('g, 'i, 'n) replica \<Rightarrow> ('g, 'i, 'n) replica \<times> nat list" where
  "apply_delta delta r =
     (case rp_state r of
        None \<Rightarrow> (r, [])
      | Some state \<Rightarrow>
          (case reduce_delta state delta of
             None \<Rightarrow> (r, [])
           | Some nxt \<Rightarrow> (r\<lparr>rp_state := Some nxt\<rparr>, rp_listeners r)))"

subsection \<open>The abstract view and its transition\<close>

record ('g, 'i, 'n) view =
  vw_gateway :: 'g
  vw_agents :: "string \<rightharpoonup> ('i, 'n) agent_node"
  vw_devices :: "device_info list"

definition view_of :: "('g, 'i, 'n) tree \<Rightarrow> ('g, 'i, 'n) view" where
  "view_of t = \<lparr>vw_gateway = tr_gateway t, vw_agents = map_of (tr_agents t), vw_devices = tr_devices t\<rparr>"

text \<open>What a delta promises: the gateway, one agent's info, one agent's inbox or the devices
  are replaced; a removed agent is gone; the two event deltas are not state.\<close>

fun view_step :: "('g, 'i, 'n) view \<Rightarrow> ('g, 'i, 'n) delta \<Rightarrow> ('g, 'i, 'n) view" where
  "view_step v (StateDelta g) = v\<lparr>vw_gateway := g\<rparr>"
| "view_step v (AgentDelta name info) =
     v\<lparr>vw_agents := (vw_agents v)(name \<mapsto> \<lparr>an_info = info,
        an_pending = (case vw_agents v name of None \<Rightarrow> [] | Some p \<Rightarrow> an_pending p)\<rparr>)\<rparr>"
| "view_step v (AgentRemovedDelta name) = v\<lparr>vw_agents := (vw_agents v)(name := None)\<rparr>"
| "view_step v (AgentNotificationsDelta name pending) =
     v\<lparr>vw_agents := (\<lambda>n. if n = name then map_option (an_pending_update (\<lambda>_. pending)) (vw_agents v n)
                         else vw_agents v n)\<rparr>"
| "view_step v (UserNotificationDelta _) = v"
| "view_step v (PresenceDelta _) = v"
| "view_step v (DevicesDelta ds) = v\<lparr>vw_devices := ds\<rparr>"

definition tree_wf :: "('g, 'i, 'n) tree \<Rightarrow> bool" where
  "tree_wf t \<longleftrightarrow> distinct (map fst (tr_agents t))"

lemma map_of_filter_key: "map_of (filter (\<lambda>(n, _). n \<noteq> k) ps) = (map_of ps)(k := None)"
  by (induction ps) (auto simp: fun_eq_iff)

lemma reduce_delta_wf: "tree_wf t \<Longrightarrow> reduce_delta t d = Some t' \<Longrightarrow> tree_wf t'"
  by (auto simp: tree_wf_def reduce_delta_def Let_def distinct_update distinct_map_filter_keep
      split: delta.splits if_splits option.splits)

lemma reduce_delta_view:
  "view_of (case reduce_delta t d of None \<Rightarrow> t | Some t' \<Rightarrow> t') = view_step (view_of t) d"
proof (cases d)
  case (AgentRemovedDelta name)
  show ?thesis
  proof (cases "name \<in> fst ` set (tr_agents t)")
    case False
    then have "map_of (tr_agents t) name = None" by (simp add: map_of_eq_None_iff)
    with False AgentRemovedDelta show ?thesis
      by (simp add: reduce_delta_def view_of_def fun_upd_idem)
  qed (simp add: AgentRemovedDelta reduce_delta_def view_of_def map_of_filter_key)
next
  case (AgentNotificationsDelta name pending)
  then show ?thesis
    by (cases "map_of (tr_agents t) name")
      (auto simp: reduce_delta_def view_of_def update_conv' fun_eq_iff)
qed (auto simp: reduce_delta_def view_of_def update_conv' Let_def)

fun apply_deltas :: "('g, 'i, 'n) delta list \<Rightarrow> ('g, 'i, 'n) replica \<Rightarrow> ('g, 'i, 'n) replica" where
  "apply_deltas [] r = r"
| "apply_deltas (d # ds) r = apply_deltas ds (fst (apply_delta d r))"

lemma apply_delta_state:
  "rp_state (fst (apply_delta d r)) =
     (case rp_state r of None \<Rightarrow> None
      | Some t \<Rightarrow> Some (case reduce_delta t d of None \<Rightarrow> t | Some t' \<Rightarrow> t'))"
  by (simp add: apply_delta_def split: option.splits)

lemma apply_deltas_view:
  "rp_state r = Some t \<Longrightarrow>
     map_option view_of (rp_state (apply_deltas ds r)) = Some (foldl view_step (view_of t) ds)"
proof (induction ds arbitrary: r t)
  case (Cons d ds)
  have "rp_state (fst (apply_delta d r)) = Some (case reduce_delta t d of None \<Rightarrow> t | Some t' \<Rightarrow> t')"
    using Cons.prems by (simp add: apply_delta_state)
  from Cons.IH [OF this] show ?case by (simp add: reduce_delta_view)
qed simp

subsection \<open>Properties\<close>

text \<open>C6: A replica that took a snapshot and then any deltas holds exactly what the abstract
  state transition of those deltas gives: the snapshot replaces everything before it, and
  each delta changes its own branch only.\<close>

theorem replica_refines_view:
  "map_option view_of (rp_state (apply_deltas ds (fst (apply_snapshot t r)))) =
     Some (foldl view_step (view_of t) ds)"
  by (rule apply_deltas_view) (simp add: apply_snapshot_def)

text \<open>No change is missed: when a delta changes what the tree says, every listener is
  called, and the replica then holds the changed state.\<close>

theorem every_change_is_announced:
  assumes "rp_state r = Some t" and "view_step (view_of t) d \<noteq> view_of t"
  shows "snd (apply_delta d r) = rp_listeners r \<and>
    map_option view_of (rp_state (fst (apply_delta d r))) = Some (view_step (view_of t) d)"
  using assms reduce_delta_view [of t d] by (cases "reduce_delta t d") (auto simp: apply_delta_def)

theorem every_change_is_announced_witness:
  "snd (apply_delta (StateDelta (2::nat)) (\<lparr>rp_state = Some \<lparr>tr_gateway = 1, tr_agents = [], tr_devices = []\<rparr>,
       rp_listeners = [7]\<rparr> :: (nat, nat, nat) replica)) = rp_listeners (\<lparr>rp_state =
       Some \<lparr>tr_gateway = 1, tr_agents = [], tr_devices = []\<rparr>, rp_listeners = [7]\<rparr> :: (nat, nat, nat) replica) \<and>
   map_option view_of (rp_state (fst (apply_delta (StateDelta (2::nat))
     (\<lparr>rp_state = Some \<lparr>tr_gateway = 1, tr_agents = [], tr_devices = []\<rparr>, rp_listeners = [7]\<rparr> :: (nat, nat, nat) replica))))
     = Some (view_step (view_of \<lparr>tr_gateway = 1, tr_agents = [], tr_devices = []\<rparr>) (StateDelta 2))"
  by (rule every_change_is_announced) (simp_all add: view_of_def)

text \<open>A delta about one agent never touches another: its info and its pending inbox stay
  what they were, and a new agent starts with an empty inbox.\<close>

theorem agent_delta_frame:
  assumes "reduce_delta t d = Some t'"
    and "d = AgentDelta name info \<or> d = AgentRemovedDelta name \<or> d = AgentNotificationsDelta name pending"
  shows "(n \<noteq> name \<longrightarrow> map_of (tr_agents t') n = map_of (tr_agents t) n) \<and>
    tr_gateway t' = tr_gateway t \<and> tr_devices t' = tr_devices t \<and>
    (d = AgentDelta name info \<longrightarrow> map_of (tr_agents t') name =
       Some \<lparr>an_info = info, an_pending =
         (case map_of (tr_agents t) name of None \<Rightarrow> [] | Some p \<Rightarrow> an_pending p)\<rparr>)"
  using assms
  by (auto simp: reduce_delta_def Let_def update_conv' map_of_filter_key split: if_splits option.splits)

theorem agent_delta_frame_witness:
  "map_of (tr_agents (\<lparr>tr_gateway = 0, tr_agents = [(''b'', \<lparr>an_info = 1, an_pending = [5]\<rparr>),
       (''a'', \<lparr>an_info = 2, an_pending = []\<rparr>)], tr_devices = []\<rparr> :: (nat, nat, nat) tree)) ''b'' =
     map_of [(''b'', \<lparr>an_info = 1, an_pending = [5]\<rparr>)] ''b''"
  using agent_delta_frame [of "\<lparr>tr_gateway = 0, tr_agents = [(''b'', \<lparr>an_info = 1, an_pending = [5]\<rparr>)], tr_devices = []\<rparr>"
      "AgentDelta ''a'' 2" "\<lparr>tr_gateway = 0, tr_agents = [(''b'', \<lparr>an_info = 1, an_pending = [5]\<rparr>),
       (''a'', \<lparr>an_info = 2, an_pending = []\<rparr>)], tr_devices = []\<rparr> :: (nat, nat, nat) tree" "''a''" 2 "[]" "''b''"]
  by (simp add: reduce_delta_def)

end
