(* ===== verification/Session.thy ===== *)
theory Session
  imports Http
begin

section \<open>The gateway session (session/session.ts)\<close>

text \<open>
  The connection a client mints and the one refresh that keeps its access token live.  A
  fetch is answered by a response, or rejects (\<open>None\<close>).  The session object is an event
  machine: a call of \<open>ensureFresh\<close>, the answer to the refresh's fetch, the settling of the
  app's \<open>write\<close>, and a change of the stored connection by the app.  \<open>write\<close> answers only once
  the new connection is what \<open>read\<close> returns, as its declaration asks.  Callers of
  \<open>ensureFresh\<close> are numbered.  \<open>con_expires_at\<close> is \<open>None\<close> for an expiry that overflowed to
  Infinity.
\<close>

record connection_config =
  con_url :: string
  con_access_token :: string
  con_refresh_token :: string
  con_expires_at :: "jsnum option"
  con_hosted :: "bool option"

definition token_refresh_buffer_ms :: jsnum where "token_refresh_buffer_ms = 5 * 60 * 1000"
definition reauth_poll_ms :: jsnum where "reauth_poll_ms = 60000"
definition gateway_connect_timeout_ms :: jsnum where "gateway_connect_timeout_ms = 8000"

definition is_token_expiring_soon :: "connection_config option \<Rightarrow> jsnum \<Rightarrow> bool" where
  "is_token_expiring_soon connection now =
     (case connection of
        None \<Rightarrow> False
      | Some c \<Rightarrow> (case con_expires_at c of
                    None \<Rightarrow> False
                  | Some expires \<Rightarrow> now \<ge> expires - token_refresh_buffer_ms))"

datatype refresh_result = RefreshOk | Transient | Expired

datatype refresh_outcome = OutcomeOk connection_config | OutcomeTransient | OutcomeExpired

record token_grant =
  tg_access :: string
  tg_refresh :: string
  tg_expires_in :: "jsnum option"

definition token_grant_of :: "json option \<Rightarrow> token_grant option" where
  "token_grant_of data =
     (case as_record data of
        None \<Rightarrow> None
      | Some d \<Rightarrow>
          (case (as_str (field d ''access_token''), as_str (field d ''refresh_token'')) of
             (Some access, Some refresh) \<Rightarrow>
               Some \<lparr>tg_access = access, tg_refresh = refresh,
                     tg_expires_in = (case field d ''expires_in'' of
                        Some (JNum n) \<Rightarrow> Some n
                      | Some JNonFinite \<Rightarrow> None
                      | _ \<Rightarrow> Some 3600)\<rparr>
           | _ \<Rightarrow> None))"

definition granted :: "string \<Rightarrow> token_grant \<Rightarrow> jsnum \<Rightarrow> bool option \<Rightarrow> connection_config" where
  "granted url grant now hosted =
     \<lparr>con_url = url, con_access_token = tg_access grant, con_refresh_token = tg_refresh grant,
      con_expires_at = map_option (\<lambda>e. now + e * 1000) (tg_expires_in grant), con_hosted = hosted\<rparr>"

definition refresh_request :: "connection_config \<Rightarrow> string \<times> json" where
  "refresh_request c = (con_url c @ ''/auth/refresh'', JObj [(''refresh_token'', JStr (con_refresh_token c))])"

text \<open>\<open>refreshConnection\<close> once its fetch settled.\<close>

definition refresh_connection :: "connection_config \<Rightarrow> jsnum \<Rightarrow> http_response option \<Rightarrow> refresh_outcome" where
  "refresh_connection c now response =
     (case response of
        None \<Rightarrow> OutcomeTransient
      | Some r \<Rightarrow>
          (if re_status r = 401 then OutcomeExpired
           else if \<not> response_ok r then OutcomeTransient
           else case token_grant_of (re_json r) of
                  None \<Rightarrow> OutcomeTransient
                | Some grant \<Rightarrow> OutcomeOk (granted (con_url c) grant now (con_hosted c))))"

subsection \<open>Minting a connection\<close>

datatype connect_failure = Unreachable | InvalidKey | SessionRefused | Malformed | BodyThrew

text \<open>\<open>BodyThrew\<close> is no reason of the code's: \<open>await response.json()\<close> rejects with its own
  error, which is not a \<open>ConnectError\<close>, when the body is not JSON.\<close>

function strip_slashes :: "string \<Rightarrow> string" where
  "strip_slashes s = (if ends_with ''/'' s then strip_slashes (butlast s) else s)"
  by pat_completeness auto
termination
  by (relation "measure length") (auto simp: ends_with_def)

declare strip_slashes.simps [simp del]

definition normalize_gateway_url :: "string \<Rightarrow> string" where
  "normalize_gateway_url url = strip_slashes (trim url)"

text \<open>\<open>fetch url body\<close> is one fetch within the time budget: \<open>None\<close> when it rejects, by the
  network or by the abort after \<open>gateway_connect_timeout_ms\<close>.\<close>

definition mint_connection ::
  "(string \<Rightarrow> json option \<Rightarrow> http_response option) \<Rightarrow> string \<Rightarrow> string \<Rightarrow> jsnum
   \<Rightarrow> connect_failure + connection_config" where
  "mint_connection fetch url api_key now =
     (let normalized = normalize_gateway_url url
      in case fetch (normalized @ ''/health'') None of
           None \<Rightarrow> Inl Unreachable
         | Some health \<Rightarrow>
             (if \<not> response_ok health then Inl Unreachable
              else case fetch (normalized @ ''/auth/session'') (Some (JObj [(''api_key'', JStr api_key)])) of
                     None \<Rightarrow> Inl Unreachable
                   | Some response \<Rightarrow>
                       (if re_status response = 401 then Inl InvalidKey
                        else if \<not> response_ok response then Inl SessionRefused
                        else case re_json response of
                               None \<Rightarrow> Inl BodyThrew
                             | Some data \<Rightarrow>
                                 (case token_grant_of (Some data) of
                                    None \<Rightarrow> Inl Malformed
                                  | Some grant \<Rightarrow> Inr (granted normalized grant now (Some False))))))"

subsection \<open>The session\<close>

text \<open>What the refresh in flight awaits: its fetch (with the connection and the clock it began
  with), or the app's write of the rotated connection.\<close>

datatype refresh_phase = AwaitFetch connection_config jsnum | AwaitWrite connection_config

record session =
  se_connection :: "connection_config option"
  se_in_flight :: "refresh_phase option"
  se_waiters :: "nat list"

datatype session_event =
  EnsureFresh nat bool jsnum
| FetchSettled "http_response option"
| WriteSettled bool
| AppConnection "connection_config option"

datatype session_out =
  FetchRefresh string json
| WriteConnection connection_config
| OnExpired
| Returned nat refresh_result

definition create_session :: "connection_config option \<Rightarrow> session" where
  "create_session c = \<lparr>se_connection = c, se_in_flight = None, se_waiters = []\<rparr>"

text \<open>Every caller that shares the refresh is answered, and the next call starts a new one.\<close>

definition settle_refresh :: "refresh_result \<Rightarrow> session \<Rightarrow> session \<times> session_out list" where
  "settle_refresh r s = (s\<lparr>se_in_flight := None, se_waiters := []\<rparr>, map (\<lambda>i. Returned i r) (se_waiters s))"

definition begin_refresh :: "jsnum \<Rightarrow> session \<Rightarrow> session \<times> session_out list" where
  "begin_refresh now s =
     (case se_connection s of
        None \<Rightarrow> settle_refresh Transient s
      | Some c \<Rightarrow>
          (if con_refresh_token c = [] then
             (let (s, os) = settle_refresh Expired s in (s, OnExpired # os))
           else (s\<lparr>se_in_flight := Some (AwaitFetch c now)\<rparr>,
                 [FetchRefresh (fst (refresh_request c)) (snd (refresh_request c))])))"

definition ensure_fresh :: "nat \<Rightarrow> bool \<Rightarrow> jsnum \<Rightarrow> session \<Rightarrow> session \<times> session_out list" where
  "ensure_fresh caller force now s =
     (if \<not> force \<and> \<not> is_token_expiring_soon (se_connection s) now then (s, [Returned caller RefreshOk])
      else if se_in_flight s \<noteq> None then (s\<lparr>se_waiters := se_waiters s @ [caller]\<rparr>, [])
      else begin_refresh now (s\<lparr>se_waiters := [caller]\<rparr>))"

definition fetch_settled :: "http_response option \<Rightarrow> session \<Rightarrow> session \<times> session_out list" where
  "fetch_settled response s =
     (case se_in_flight s of
        Some (AwaitFetch c now) \<Rightarrow>
          (case refresh_connection c now response of
             OutcomeOk next \<Rightarrow> (s\<lparr>se_in_flight := Some (AwaitWrite next)\<rparr>, [WriteConnection next])
           | OutcomeTransient \<Rightarrow> settle_refresh Transient s
           | OutcomeExpired \<Rightarrow> (let (s, os) = settle_refresh Expired s in (s, OnExpired # os)))
      | _ \<Rightarrow> (s, []))"

definition write_settled :: "bool \<Rightarrow> session \<Rightarrow> session \<times> session_out list" where
  "write_settled stored s =
     (case se_in_flight s of
        Some (AwaitWrite next) \<Rightarrow>
          (if stored then settle_refresh RefreshOk (s\<lparr>se_connection := Some next\<rparr>)
           else settle_refresh Transient s)
      | _ \<Rightarrow> (s, []))"

fun session_step :: "session \<Rightarrow> session_event \<Rightarrow> session \<times> session_out list" where
  "session_step s (EnsureFresh caller force now) = ensure_fresh caller force now s"
| "session_step s (FetchSettled response) = fetch_settled response s"
| "session_step s (WriteSettled stored) = write_settled stored s"
| "session_step s (AppConnection c) = (s\<lparr>se_connection := c\<rparr>, [])"

fun session_enabled :: "session \<Rightarrow> session_event \<Rightarrow> bool" where
  "session_enabled s (FetchSettled r) \<longleftrightarrow> (\<exists>c now. se_in_flight s = Some (AwaitFetch c now))"
| "session_enabled s (WriteSettled b) \<longleftrightarrow> (\<exists>c. se_in_flight s = Some (AwaitWrite c))"
| "session_enabled s _ \<longleftrightarrow> True"

subsection \<open>The token in a URL\<close>

text \<open>\<open>URLSearchParams\<close>: setting a name, and the form encoding of the pairs (a code unit of 128
  or more is two UTF-8 bytes).\<close>

definition query_set :: "string \<Rightarrow> string \<Rightarrow> (string \<times> string) list \<Rightarrow> (string \<times> string) list" where
  "query_set name v q =
     (if name \<in> fst ` set q
      then takeWhile (\<lambda>p. fst p \<noteq> name) q @ (name, v) # filter (\<lambda>p. fst p \<noteq> name) (tl (dropWhile (\<lambda>p. fst p \<noteq> name) q))
      else q @ [(name, v)])"

definition hex_digit :: "nat \<Rightarrow> char" where
  "hex_digit n = (if n < 10 then char_of (48 + n) else char_of (55 + n))"

definition percent_byte :: "nat \<Rightarrow> string" where
  "percent_byte b = [CHR ''%'', hex_digit (b div 16), hex_digit (b mod 16)]"

definition form_encode_char :: "char \<Rightarrow> string" where
  "form_encode_char c =
     (let n = of_char c :: nat
      in if (48 \<le> n \<and> n \<le> 57) \<or> (65 \<le> n \<and> n \<le> 90) \<or> (97 \<le> n \<and> n \<le> 122) \<or> n \<in> {42, 45, 46, 95} then [c]
         else if n = 32 then ''+''
         else if n < 128 then percent_byte n
         else percent_byte (192 + n div 64) @ percent_byte (128 + n mod 64))"

definition form_encode :: "string \<Rightarrow> string" where
  "form_encode s = concat (map form_encode_char s)"

definition query_string :: "(string \<times> string) list \<Rightarrow> string" where
  "query_string q = join ''&'' (map (\<lambda>(k, v). form_encode k @ ''='' @ form_encode v) q)"

text \<open>\<open>authedUrl\<close> after its \<open>ensureFresh\<close> returned; \<open>None\<close> is the not-connected error.\<close>

definition authed_url :: "connection_config option \<Rightarrow> string \<Rightarrow> (string \<times> string) list \<Rightarrow> string option" where
  "authed_url connection path q =
     (case connection of
        None \<Rightarrow> None
      | Some c \<Rightarrow> Some (con_url c @ path @ ''?'' @ query_string (query_set ''token'' (con_access_token c) q)))"

definition websocket_url :: "connection_config option \<Rightarrow> string \<Rightarrow> (string \<times> string) list \<Rightarrow> string option" where
  "websocket_url connection path q =
     map_option (\<lambda>u. if starts_with ''http'' u then ''ws'' @ drop 4 u else u) (authed_url connection path q)"

text \<open>\<open>runReauthCheck\<close>: the caller asks for a fresh token only while it is expiring, and hands
  the token over only when the refresh says ok.\<close>

definition reauth_check_starts :: "jsnum \<Rightarrow> session \<Rightarrow> bool" where
  "reauth_check_starts now s = is_token_expiring_soon (se_connection s) now"

definition reauth_check_token :: "refresh_result \<Rightarrow> session \<Rightarrow> string option" where
  "reauth_check_token r s = (if r \<noteq> RefreshOk then None else map_option con_access_token (se_connection s))"

subsection \<open>One refresh, shared\<close>

definition session_inv :: "session \<Rightarrow> bool" where
  "session_inv s \<longleftrightarrow> (se_in_flight s = None \<longleftrightarrow> se_waiters s = [])"

definition returned :: "session_out \<Rightarrow> nat multiset" where
  "returned x = (case x of Returned i _ \<Rightarrow> {#i#} | _ \<Rightarrow> {#})"

definition asked :: "session_event \<Rightarrow> nat multiset" where
  "asked e = (case e of EnsureFresh i _ _ \<Rightarrow> {#i#} | _ \<Rightarrow> {#})"

lemmas session_defs = ensure_fresh_def begin_refresh_def fetch_settled_def write_settled_def settle_refresh_def Let_def

lemma session_inv_step: "session_inv s \<Longrightarrow> session_enabled s e \<Longrightarrow> session_inv (fst (session_step s e))"
  by (cases e)
    (auto simp: session_inv_def session_defs split: option.splits refresh_phase.splits refresh_outcome.splits)

lemma sum_returned [simp]: "sum_list (map (returned \<circ> (\<lambda>i. Returned i r)) is) = mset is"
  by (induction "is") (simp_all add: returned_def)

lemma session_balance_step:
  "session_inv s \<Longrightarrow> session_enabled s e \<Longrightarrow>
     sum_list (map returned (snd (session_step s e))) + mset (se_waiters (fst (session_step s e))) =
     mset (se_waiters s) + asked e"
  by (cases e)
    (auto simp: session_inv_def session_defs asked_def returned_def [of OnExpired]
      returned_def [of "FetchRefresh u j" for u j] returned_def [of "WriteConnection c" for c]
      returned_def [of "Returned i r" for i r]
      split: option.splits refresh_phase.splits refresh_outcome.splits)

interpretation session: machine session_step session_enabled session_inv
  by unfold_locales (rule session_inv_step)

definition is_fetch :: "session_out \<Rightarrow> bool" where
  "is_fetch x = (case x of FetchRefresh _ _ \<Rightarrow> True | _ \<Rightarrow> False)"

definition fetching :: "session \<Rightarrow> nat" where
  "fetching s = (case se_in_flight s of Some (AwaitFetch _ _) \<Rightarrow> 1 | _ \<Rightarrow> 0)"

definition is_settled :: "session_event \<Rightarrow> bool" where
  "is_settled e = (case e of FetchSettled _ \<Rightarrow> True | _ \<Rightarrow> False)"

lemma filter_returned [simp]: "filter is_fetch (map (\<lambda>i. Returned i r) is) = []"
  by (induction "is") (simp_all add: is_fetch_def)

lemma fetch_balance_step:
  "session_enabled s e \<Longrightarrow>
     length (filter is_fetch (snd (session_step s e))) + fetching s = fetching (fst (session_step s e)) + of_bool (is_settled e)"
  by (cases e)
    (auto simp: session_defs fetching_def is_settled_def is_fetch_def [of OnExpired]
      is_fetch_def [of "FetchRefresh u j" for u j] is_fetch_def [of "WriteConnection c" for c]
      is_fetch_def [of "Returned i r" for i r]
      split: option.splits refresh_phase.splits refresh_outcome.splits)

lemma fetch_balance:
  "legal_events session_step session_enabled s es \<Longrightarrow>
     length (filter is_fetch (snd (run_events session_step s es))) + fetching s =
     fetching (fst (run_events session_step s es)) + length (filter is_settled es)"
proof (induction es arbitrary: s)
  case (Cons e es)
  let ?s1 = "fst (session_step s e)"
  have "length (filter is_fetch (snd (run_events session_step ?s1 es))) + fetching ?s1 =
     fetching (fst (run_events session_step ?s1 es)) + length (filter is_settled es)"
    using Cons.IH [of ?s1] Cons.prems by simp
  moreover have "length (filter is_fetch (snd (session_step s e))) + fetching s = fetching ?s1 + of_bool (is_settled e)"
    by (rule fetch_balance_step) (use Cons.prems in simp)
  ultimately show ?case
    unfolding run_events_Cons filter_append length_append filter.simps by (cases "is_settled e") simp_all
qed simp

lemma ok_means_live_token:
  assumes "Returned i RefreshOk \<in> set (snd (session_step s e))"
  shows "(\<exists>now. e = EnsureFresh i False now \<and> \<not> is_token_expiring_soon (se_connection s) now) \<or>
    (\<exists>c. e = WriteSettled True \<and> se_in_flight s = Some (AwaitWrite c) \<and>
       se_connection (fst (session_step s e)) = Some c)"
  using assms
  by (cases e) (auto simp: session_defs split: option.splits refresh_phase.splits refresh_outcome.splits if_splits)

subsection \<open>The normalized URL\<close>

lemma ends_with_single: "ends_with [c] s \<longleftrightarrow> s \<noteq> [] \<and> last s = c"
  by (cases s rule: rev_cases) (auto simp: ends_with_def)

lemma strip_slashes_no_slash: "\<not> ends_with ''/'' (strip_slashes s)"
proof (induction s rule: strip_slashes.induct)
  case (1 s)
  then show ?case by (cases "ends_with ''/'' s") (simp_all add: strip_slashes.simps [of s])
qed

lemma strip_slashes_prefix: "\<exists>n. s = strip_slashes s @ replicate n (CHR ''/'')"
proof (induction s rule: strip_slashes.induct)
  case (1 s)
  show ?case
  proof (cases "ends_with ''/'' s")
    case True
    then have ne: "s \<noteq> []" and l: "last s = CHR ''/''"
      by (simp_all add: ends_with_single)
    from 1 [OF True] obtain n where "butlast s = strip_slashes (butlast s) @ replicate n (CHR ''/'')" ..
    then have "s = (strip_slashes (butlast s) @ replicate n (CHR ''/'')) @ [CHR ''/'']"
      using ne l by (metis append_butlast_last_id)
    then have "s = strip_slashes s @ replicate (Suc n) (CHR ''/'')"
      using True by (simp add: strip_slashes.simps [of s] replicate_append_same)
    then show ?thesis by blast
  next
    case False
    then show ?thesis by (intro exI [of _ 0]) (simp add: strip_slashes.simps [of s])
  qed
qed

subsection \<open>Properties\<close>

text \<open>C36: However the calls, the gateway's answers and the app's writes interleave, every caller of
  \<open>ensureFresh\<close> is answered exactly once or is waiting on the one refresh in flight, and a new
  refresh request goes out only after the one before it was answered.\<close>

theorem every_caller_answered_once:
  assumes "legal_events session_step session_enabled (create_session c) es"
    and "run_events session_step (create_session c) es = (s, os)"
  shows "sum_list (map returned os) + mset (se_waiters s) = sum_list (map asked es) \<and>
    (se_in_flight s = None \<longrightarrow> se_waiters s = []) \<and>
    length (filter is_fetch os) \<le> Suc (length (filter is_settled es))"
proof -
  have inv: "session_inv (create_session c)" by (simp add: session_inv_def create_session_def)
  have "session_inv s" using session.run_inv [OF inv assms(1)] assms(2) by simp
  moreover have "sum_list (map returned os) + mset (se_waiters s) = sum_list (map asked es)"
    using session.run_balance [of returned "\<lambda>s. mset (se_waiters s)" asked, OF session_balance_step inv assms(1)]
      assms(2) by (simp add: create_session_def)
  moreover have "length (filter is_fetch os) \<le> Suc (length (filter is_settled es))"
    using fetch_balance [OF assms(1)] assms(2)
    by (auto simp: fetching_def create_session_def split: option.splits refresh_phase.splits)
  ultimately show ?thesis by (simp add: session_inv_def)
qed

definition old_connection :: connection_config where
  "old_connection = \<lparr>con_url = ''http://g'', con_access_token = ''a'', con_refresh_token = ''r'',
     con_expires_at = Some 1000, con_hosted = None\<rparr>"

theorem every_caller_answered_once_witness:
  "\<exists>s os. run_events session_step (create_session (Some old_connection))
       [EnsureFresh 2 False 900, EnsureFresh 3 True 900, FetchSettled None] = (s, os) \<and>
     sum_list (map returned os) = {#2, 3#}"
proof -
  let ?es = "[EnsureFresh 2 False 900, EnsureFresh 3 True 900, FetchSettled None]"
  obtain s os where r: "run_events session_step (create_session (Some old_connection)) ?es = (s, os)"
    by (metis prod.collapse)
  have legal: "legal_events session_step session_enabled (create_session (Some old_connection)) ?es"
    by (simp add: session_defs create_session_def old_connection_def is_token_expiring_soon_def
        token_refresh_buffer_ms_def refresh_request_def)
  have "s = fst (run_events session_step (create_session (Some old_connection)) ?es)" by (simp only: r fst_conv)
  then have "se_in_flight s = None"
    by (simp add: session_defs create_session_def old_connection_def is_token_expiring_soon_def
        token_refresh_buffer_ms_def refresh_request_def refresh_connection_def)
  with every_caller_answered_once [OF legal r] r show ?thesis by (auto simp: asked_def)
qed

text \<open>A connection that was minted has a URL with no trailing slash and both tokens the gateway
  answered with, and expires when the gateway said; every refusal has its own reason.\<close>

theorem minted_connection_is_the_grant:
  assumes "mint_connection fetch url api_key now = Inr c"
  shows "\<not> ends_with ''/'' (con_url c) \<and> (\<exists>n. trim url = con_url c @ replicate n (CHR ''/'')) \<and>
    (\<exists>r d. fetch (con_url c @ ''/auth/session'') (Some (JObj [(''api_key'', JStr api_key)])) = Some r \<and>
       response_ok r \<and> as_record (re_json r) = Some d \<and>
       field d ''access_token'' = Some (JStr (con_access_token c)) \<and>
       field d ''refresh_token'' = Some (JStr (con_refresh_token c)))"
proof -
  let ?u = "strip_slashes (trim url)"
  have c: "con_url c = ?u" "\<exists>r d. fetch (?u @ ''/auth/session'') (Some (JObj [(''api_key'', JStr api_key)])) = Some r \<and>
       response_ok r \<and> as_record (re_json r) = Some d \<and>
       field d ''access_token'' = Some (JStr (con_access_token c)) \<and>
       field d ''refresh_token'' = Some (JStr (con_refresh_token c))"
    using assms
    by (auto simp: mint_connection_def normalize_gateway_url_def Let_def token_grant_of_def granted_def
        reader_Some_iff split: option.splits if_splits)
  show ?thesis unfolding c(1) using c(2) strip_slashes_no_slash strip_slashes_prefix by blast
qed

theorem minted_connection_is_the_grant_witness:
  "\<not> ends_with ''/'' (con_url (granted ''http://g'' \<lparr>tg_access = ''a'', tg_refresh = ''r'', tg_expires_in = Some 3600\<rparr> 0 (Some False)))"
proof -
  let ?r = "\<lparr>re_status = 200, re_body = [], re_json =
      Some (JObj [(''access_token'', JStr ''a''), (''refresh_token'', JStr ''r'')])\<rparr>"
  have "mint_connection (\<lambda>_ _. Some ?r) ''http://g//'' ''k'' 0 = Inr
     (granted ''http://g'' \<lparr>tg_access = ''a'', tg_refresh = ''r'', tg_expires_in = Some 3600\<rparr> 0 (Some False))"
    by (simp add: mint_connection_def normalize_gateway_url_def trim_def is_js_space_def strip_slashes.simps
        ends_with_def response_ok_def token_grant_of_def)
  from minted_connection_is_the_grant [OF this] show ?thesis by blast
qed

end
