(* ===== verification/Controller.thy ===== *)
theory Controller
  imports SyncSocket Replica AgentRequests Session
begin

section \<open>The client controller (controller/controller.ts)\<close>

text \<open>
  The orchestrator: one replica, one sync socket feeding it, the requests of this client and
  the reauth tick.  The socket's callbacks are the outputs of SyncSocket, run through the
  handlers registered here.  \<open>as_tree\<close> reads the snapshot's JSON as a tree (the code's type
  assertion).  A cell is its value; the output \<open>CellChanged\<close> is the call of its listeners.
  The reauth check itself belongs to Session: its settling, with the token it handed over if
  any, is an event here.
\<close>

type_synonym wire_tree = "(json, json, json) tree"

datatype cell = SyncStateCell | AnyFocusedCell | FocusedCell | ViewingCell

record controller =
  ct_replica :: "(json, json, json) replica"
  ct_requests :: requests
  ct_sync_state :: sync_state
  ct_any_focused :: bool
  ct_focused :: bool
  ct_viewing :: "string option"
  ct_socket :: sync_socket
  ct_reauth_timer :: bool
  ct_closed :: bool

datatype controller_event =
  SocketNet conn_event
| Presence bool
| Viewing "string option"
| DeviceContext device_context
| Requests request_event
| ReauthChecked "string option"
| ReauthTimerFired
| ControllerClose

datatype controller_out =
  ReplicaNotified "nat list"
| RequestOut request_out
| DeltaHeard wire_delta
| CellChanged cell
| RunReauthCheck
| StartReauthTimer
| ClearReauthTimer
| Wire sync_out

subsection \<open>The code\<close>

definition set_cell :: "cell \<Rightarrow> ('a \<Rightarrow> controller \<Rightarrow> controller) \<Rightarrow> 'a \<Rightarrow> 'a \<Rightarrow> controller \<Rightarrow> controller \<times> controller_out list" where
  "set_cell name upd old next c = (if old = next then (c, []) else (upd next c, [CellChanged name]))"

definition set_sync_state :: "sync_state \<Rightarrow> controller \<Rightarrow> controller \<times> controller_out list" where
  "set_sync_state next c = set_cell SyncStateCell (\<lambda>x. ct_sync_state_update (\<lambda>_. x)) (ct_sync_state c) next c"

definition set_any_focused :: "bool \<Rightarrow> controller \<Rightarrow> controller \<times> controller_out list" where
  "set_any_focused next c = set_cell AnyFocusedCell (\<lambda>x. ct_any_focused_update (\<lambda>_. x)) (ct_any_focused c) next c"

definition set_focused :: "bool \<Rightarrow> controller \<Rightarrow> controller \<times> controller_out list" where
  "set_focused next c = set_cell FocusedCell (\<lambda>x. ct_focused_update (\<lambda>_. x)) (ct_focused c) next c"

definition set_viewing :: "string option \<Rightarrow> controller \<Rightarrow> controller \<times> controller_out list" where
  "set_viewing next c = set_cell ViewingCell (\<lambda>x. ct_viewing_update (\<lambda>_. x)) (ct_viewing c) next c"

definition reconcile_requests :: "controller \<Rightarrow> controller \<times> controller_out list" where
  "reconcile_requests c =
     (case rp_state (ct_replica c) of
        None \<Rightarrow> (c, [])
      | Some tree \<Rightarrow>
          (let (r, os) = reconcile (map fst (tr_agents tree)) (ct_requests c)
           in (c\<lparr>ct_requests := r\<rparr>, map RequestOut os)))"

definition on_snapshot :: "(json \<Rightarrow> wire_tree) \<Rightarrow> json \<Rightarrow> controller \<Rightarrow> controller \<times> controller_out list" where
  "on_snapshot as_tree tree c =
     (let (r, listeners) = apply_snapshot (as_tree tree) (ct_replica c);
          (c, os) = reconcile_requests (c\<lparr>ct_replica := r\<rparr>)
      in (c, ReplicaNotified listeners # os))"

definition on_delta :: "wire_delta \<Rightarrow> controller \<Rightarrow> controller \<times> controller_out list" where
  "on_delta delta c =
     (let (r, listeners) = apply_delta delta (ct_replica c);
          c = c\<lparr>ct_replica := r\<rparr>;
          (c, os1) = (case delta of AgentRemovedDelta _ \<Rightarrow> reconcile_requests c | _ \<Rightarrow> (c, []));
          (c, os2) = (case delta of PresenceDelta any \<Rightarrow> set_any_focused any c | _ \<Rightarrow> (c, []))
      in (c, ReplicaNotified listeners # os1 @ [DeltaHeard delta] @ os2))"

fun on_sync_out :: "(json \<Rightarrow> wire_tree) \<Rightarrow> controller \<Rightarrow> sync_out \<Rightarrow> controller \<times> controller_out list" where
  "on_sync_out as_tree c (SnapshotOut tree) = on_snapshot as_tree tree c"
| "on_sync_out as_tree c (DeltaOut delta) = on_delta delta c"
| "on_sync_out as_tree c (StateChange st) = set_sync_state st c"
| "on_sync_out as_tree c x = (c, [Wire x])"

definition from_socket ::
  "(json \<Rightarrow> wire_tree) \<Rightarrow> sync_socket \<times> sync_out list \<Rightarrow> controller \<Rightarrow> controller \<times> controller_out list" where
  "from_socket as_tree r c = run_events (on_sync_out as_tree) (c\<lparr>ct_socket := fst r\<rparr>) (snd r)"

definition create_controller ::
  "(json \<Rightarrow> wire_tree) \<Rightarrow> sync_deps \<Rightarrow> nat option \<Rightarrow> nat option \<Rightarrow> controller \<times> controller_out list" where
  "create_controller as_tree deps base_ms max_ms =
     (let socket = create_sync deps base_ms max_ms;
          (c, os) = from_socket as_tree socket
            \<lparr>ct_replica = create_replica, ct_requests = create_agent_requests, ct_sync_state = SConnecting,
             ct_any_focused = False, ct_focused = False, ct_viewing = None, ct_socket = fst socket,
             ct_reauth_timer = False, ct_closed = False\<rparr>
      in (c, os @ [RunReauthCheck]))"

definition report_presence_c ::
  "(json \<Rightarrow> wire_tree) \<Rightarrow> sync_deps \<Rightarrow> bool \<Rightarrow> controller \<Rightarrow> controller \<times> controller_out list" where
  "report_presence_c as_tree deps next c =
     (let (c, os) = set_focused next c;
          (c, os') = from_socket as_tree (report_presence deps next (ct_socket c)) c
      in (c, os @ os'))"

definition report_viewing_c ::
  "(json \<Rightarrow> wire_tree) \<Rightarrow> sync_deps \<Rightarrow> string option \<Rightarrow> controller \<Rightarrow> controller \<times> controller_out list" where
  "report_viewing_c as_tree deps agent c =
     (let (c, os) = set_viewing agent c;
          (c, os') = from_socket as_tree (report_viewing deps agent (ct_socket c)) c
      in (c, os @ os'))"

text \<open>The end of a reauth tick: the token, if there is one, goes to the socket; then the next
  tick is armed unless the controller was closed.\<close>

definition reauth_checked ::
  "(json \<Rightarrow> wire_tree) \<Rightarrow> string option \<Rightarrow> controller \<Rightarrow> controller \<times> controller_out list" where
  "reauth_checked as_tree token c =
     (let (c, os) = (case token of
                       None \<Rightarrow> (c, [])
                     | Some t \<Rightarrow> from_socket as_tree (sync_reauth t (ct_socket c)) c)
      in if ct_closed c then (c, os) else (c\<lparr>ct_reauth_timer := True\<rparr>, os @ [StartReauthTimer]))"

definition close_controller ::
  "(json \<Rightarrow> wire_tree) \<Rightarrow> controller \<Rightarrow> controller \<times> controller_out list" where
  "close_controller as_tree c =
     (let (c', os) = from_socket as_tree (sync_close (ct_socket c)) (c\<lparr>ct_closed := True, ct_reauth_timer := False\<rparr>)
      in (c', (if ct_reauth_timer c then [ClearReauthTimer] else []) @ os))"

fun controller_step ::
  "(json \<Rightarrow> wire_tree) \<Rightarrow> sync_deps \<Rightarrow> controller \<Rightarrow> controller_event \<Rightarrow> controller \<times> controller_out list" where
  "controller_step as_tree deps c (SocketNet e) = from_socket as_tree (sync_step deps (ct_socket c) (Net e)) c"
| "controller_step as_tree deps c (Presence next) = report_presence_c as_tree deps next c"
| "controller_step as_tree deps c (Viewing agent) = report_viewing_c as_tree deps agent c"
| "controller_step as_tree deps c (DeviceContext context) =
     from_socket as_tree (report_device_context deps context (ct_socket c)) c"
| "controller_step as_tree deps c (Requests e) =
     (let (r, os) = request_step (ct_requests c) e in (c\<lparr>ct_requests := r\<rparr>, map RequestOut os))"
| "controller_step as_tree deps c (ReauthChecked token) = reauth_checked as_tree token c"
| "controller_step as_tree deps c ReauthTimerFired = (c\<lparr>ct_reauth_timer := False\<rparr>, [RunReauthCheck])"
| "controller_step as_tree deps c ControllerClose = close_controller as_tree c"

subsection \<open>The controller's cells are what the socket reports\<close>

definition wire :: "controller_out list \<Rightarrow> sync_out list" where
  "wire os = concat (map (\<lambda>x. case x of Wire y \<Rightarrow> [y] | _ \<Rightarrow> []) os)"

lemma wire_simps [simp]:
  "wire [] = []" "wire (xs @ ys) = wire xs @ wire ys" "wire (Wire y # os) = y # wire os"
  "wire (CellChanged n # os) = wire os" "wire (RequestOut r # os) = wire os" "wire (ReplicaNotified l # os) = wire os"
  "wire (DeltaHeard d # os) = wire os" "wire (RunReauthCheck # os) = wire os" "wire (StartReauthTimer # os) = wire os"
  "wire (ClearReauthTimer # os) = wire os" "wire (map RequestOut rs) = []"
  by (simp_all add: wire_def o_def)

definition mirrors :: "controller \<Rightarrow> bool" where
  "mirrors c \<longleftrightarrow> ct_focused c = nullish (ss_focused (ct_socket c)) False \<and> ct_viewing c = ss_viewing (ct_socket c)"

definition same_core :: "controller \<Rightarrow> controller \<Rightarrow> bool" where
  "same_core c d \<longleftrightarrow> ct_focused c = ct_focused d \<and> ct_viewing c = ct_viewing d \<and> ct_socket c = ct_socket d \<and>
     ct_closed c = ct_closed d"

lemma reconcile_requests_core [simp]:
  "same_core (fst (reconcile_requests c)) d = same_core c d" "wire (snd (reconcile_requests c)) = []"
  by (simp_all add: reconcile_requests_def same_core_def split_beta Let_def split: option.splits)

lemma set_cells_core [simp]:
  "same_core (fst (set_sync_state x c)) d = same_core c d" "wire (snd (set_sync_state x c)) = []"
  "same_core (fst (set_any_focused y c)) d = same_core c d" "wire (snd (set_any_focused y c)) = []"
  by (simp_all add: set_sync_state_def set_any_focused_def set_cell_def same_core_def)

lemma on_sync_out_core:
  "same_core (fst (on_sync_out as_tree c x)) c \<and>
     context_sends (wire (snd (on_sync_out as_tree c x))) = context_sends [x]"
proof -
  have up: "same_core (c\<lparr>ct_replica := r\<rparr>) d = same_core c d" for r d by (simp add: same_core_def)
  have refl: "same_core c c" by (simp add: same_core_def)
  show ?thesis
    by (cases x) (auto simp: on_snapshot_def on_delta_def split_beta Let_def up refl split: delta.splits)
qed

lemma run_sync_out_core:
  "same_core (fst (run_events (on_sync_out as_tree) c os)) c \<and>
     context_sends (wire (snd (run_events (on_sync_out as_tree) c os))) = context_sends os"
proof (induction os arbitrary: c)
  case (Cons x os)
  have "context_sends (x # os) = context_sends [x] @ context_sends os" by (simp add: context_sends_def)
  with Cons [of "fst (on_sync_out as_tree c x)"] on_sync_out_core [of as_tree c x] show ?case
    by (auto simp: same_core_def)
qed (simp add: same_core_def)

lemma from_socket_core:
  "ct_focused (fst (from_socket as_tree r c)) = ct_focused c"
  "ct_viewing (fst (from_socket as_tree r c)) = ct_viewing c"
  "ct_socket (fst (from_socket as_tree r c)) = fst r"
  "ct_closed (fst (from_socket as_tree r c)) = ct_closed c"
  "context_sends (wire (snd (from_socket as_tree r c))) = context_sends (snd r)"
  using run_sync_out_core [of as_tree "c\<lparr>ct_socket := fst r\<rparr>" "snd r"]
  by (simp_all add: from_socket_def same_core_def)

lemma set_cells_fields [simp]:
  "ct_socket (fst (set_focused b c)) = ct_socket c" "ct_focused (fst (set_focused b c)) = b"
  "ct_viewing (fst (set_focused b c)) = ct_viewing c" "wire (snd (set_focused b c)) = []"
  "ct_socket (fst (set_viewing a c)) = ct_socket c" "ct_viewing (fst (set_viewing a c)) = a"
  "ct_focused (fst (set_viewing a c)) = ct_focused c" "wire (snd (set_viewing a c)) = []"
  by (simp_all add: set_focused_def set_viewing_def set_cell_def)

text \<open>Every controller event is at most one event of the socket, with the same frames sent.\<close>

definition socket_moves :: "sync_deps \<Rightarrow> sync_socket \<Rightarrow> sync_socket \<Rightarrow> (nat \<times> json) list \<Rightarrow> bool" where
  "socket_moves deps s s' h \<longleftrightarrow>
     (s' = s \<and> h = []) \<or> (\<exists>e. s' = fst (sync_step deps s e) \<and> h = context_sends (snd (sync_step deps s e)))"

lemma controller_socket:
  "socket_moves deps (ct_socket c) (ct_socket (fst (controller_step as_tree deps c e)))
     (context_sends (wire (snd (controller_step as_tree deps c e))))"
proof -
  have move: "socket_moves deps s (fst (sync_step deps s x)) (context_sends (snd (sync_step deps s x)))" for s x
    unfolding socket_moves_def by blast
  have stay: "socket_moves deps s s []" for s unfolding socket_moves_def by blast
  show ?thesis
    using move [of "ct_socket c" "Net n" for n] move [of "ct_socket c" "ReportPresence b" for b]
      move [of "ct_socket c" "ReportViewing a" for a] move [of "ct_socket c" "ReportDeviceContext d" for d]
      move [of "ct_socket c" "Reauth t" for t] move [of "ct_socket c" SyncClose] stay
    by (cases e)
      (auto simp: report_presence_c_def report_viewing_c_def reauth_checked_def close_controller_def
        split_beta Let_def from_socket_core split: option.splits)
qed

lemma sync_step_reports:
  "ss_focused (fst (sync_step deps s e)) = (case e of ReportPresence b \<Rightarrow> Some b | _ \<Rightarrow> ss_focused s) \<and>
   ss_viewing (fst (sync_step deps s e)) = (case e of ReportViewing a \<Rightarrow> a | _ \<Rightarrow> ss_viewing s)"
proof (cases e)
  case (Net n)
  have on: "ss_focused (fst (on_conn_out deps s x)) = ss_focused s \<and> ss_viewing (fst (on_conn_out deps s x)) = ss_viewing s"
    for s x
    by (cases x) (auto simp: on_open_def on_message_def close_socket_def split_beta Let_def split: option.splits parsed_frame.splits)
  have "ss_focused (fst (run_events (on_conn_out deps) s os)) = ss_focused s \<and>
      ss_viewing (fst (run_events (on_conn_out deps) s os)) = ss_viewing s" for s os
    by (induction os arbitrary: s) (simp_all add: on)
  with Net show ?thesis by (simp add: on_net_def)
qed (auto simp: sync_reauth_def report_presence_def report_viewing_def report_device_context_def emit_context_def
    sync_close_def close_socket_def split_beta Let_def)

lemma mirrors_step: "mirrors c \<Longrightarrow> mirrors (fst (controller_step as_tree deps c e))"
  using sync_step_reports [of deps "ct_socket c" "Net n" for n]
    sync_step_reports [of deps "ct_socket c" "ReportPresence b" for b]
    sync_step_reports [of deps "ct_socket c" "ReportViewing a" for a]
    sync_step_reports [of deps "ct_socket c" "ReportDeviceContext d" for d]
    sync_step_reports [of deps "ct_socket c" "Reauth t" for t] sync_step_reports [of deps "ct_socket c" SyncClose]
  by (cases e)
    (auto simp: mirrors_def report_presence_c_def report_viewing_c_def reauth_checked_def close_controller_def
      split_beta Let_def from_socket_core split: option.splits)

definition controller_ok :: "sync_deps \<Rightarrow> controller \<Rightarrow> (nat \<times> json) list \<Rightarrow> bool" where
  "controller_ok deps c h \<longleftrightarrow> sync_ok deps (ct_socket c) h \<and> mirrors c"

lemma controller_ok_step:
  assumes "controller_ok deps c h"
  shows "controller_ok deps (fst (controller_step as_tree deps c e))
    (h @ context_sends (wire (snd (controller_step as_tree deps c e))))"
  using assms controller_socket [of deps c as_tree e] sync_step_ok [of deps "ct_socket c" h]
    mirrors_step [of c as_tree deps e]
  unfolding controller_ok_def socket_moves_def by auto

lemma controller_ok_run:
  "controller_ok deps c h \<Longrightarrow>
     controller_ok deps (fst (run_events (controller_step as_tree deps) c es))
       (h @ context_sends (wire (snd (run_events (controller_step as_tree deps) c es))))"
proof (induction es arbitrary: c h)
  case (Cons e es)
  from Cons.IH [OF controller_ok_step [OF Cons.prems, of as_tree e]] show ?case by simp
qed simp

lemma create_sync_fields:
  "ss_focused (fst (create_sync deps base_ms max_ms)) = None" "ss_viewing (fst (create_sync deps base_ms max_ms)) = None"
  by (simp_all add: create_sync_def on_net_def create_conn_def connect_def Let_def)

lemma create_controller_ok: "controller_ok deps (fst (create_controller as_tree deps base_ms max_ms)) []"
  by (simp add: controller_ok_def create_controller_def mirrors_def split_beta Let_def from_socket_core
      create_sync_ok create_sync_fields)

lemma rp_state_other [simp]:
  "rp_state (ct_replica (fst (reconcile_requests c))) = rp_state (ct_replica c)"
  "ct_requests (fst (set_any_focused y c)) = ct_requests c"
  by (simp_all add: reconcile_requests_def set_any_focused_def set_cell_def split_beta Let_def split: option.splits)

lemma reconcile_requests_get:
  "rp_state (ct_replica c) = Some t \<Longrightarrow> get_request n (ct_requests (fst (reconcile_requests c))) =
     (if n \<in> fst ` set (tr_agents t) then get_request n (ct_requests c) else idle_request)"
  by (simp add: reconcile_requests_def split_beta Let_def reconcile_drops_gone)

subsection \<open>Properties\<close>

text \<open>C35: The app and the gateway agree on what this client is doing: while the socket holds a reported
  focus or a viewed agent, an open socket's last context frame went out on that socket and says exactly the
  focus the app's own consumers read, and the viewed agent exactly while focused. A client that holds neither
  (nothing was reported, a viewed agent was withdrawn again before any focus, or only a device context was
  reported) is outside the claim.\<close>

theorem gateway_sees_what_the_app_sees:
  assumes "run_events (controller_step as_tree deps) (fst (create_controller as_tree deps base_ms max_ms)) es = (c, os)"
    and "cn_phase (ss_conn (ct_socket c)) = Open k"
    and "ss_focused (ct_socket c) \<noteq> None \<or> ss_viewing (ct_socket c) \<noteq> None"
  shows "\<exists>ps. context_sends (wire os) \<noteq> [] \<and> last (context_sends (wire os)) = (k, JObj ps) \<and>
    field ps ''focused'' = Some (JBool (ct_focused c)) \<and>
    field ps ''viewing'' = Some (json_of_str_opt (if ct_focused c then ct_viewing c else None))"
proof -
  let ?h = "context_sends (wire os)" and ?s = "ct_socket c"
  have ok: "controller_ok deps c ?h"
    using controller_ok_run [OF create_controller_ok [of deps as_tree base_ms max_ms], where as_tree = as_tree and es = es]
    by (simp add: assms(1))
  then have "sync_ok deps ?s ?h" and m: "mirrors c" by (simp_all add: controller_ok_def)
  with assms(2,3) have h: "?h \<noteq> []" "fst (last ?h) = k" "current_context deps ?s (snd (last ?h))"
    by (auto simp: sync_ok_def told_def reported_def)
  then obtain r where r: "last ?h = (k, encode_frame (context_frame deps ?s r))"
    unfolding current_context_def by (metis prod.collapse)
  obtain ps where ps: "encode_frame (context_frame deps ?s r) = JObj ps"
    "field ps ''focused'' = Some (JBool (ct_focused c))"
    "field ps ''viewing'' = Some (json_of_str_opt (if ct_focused c then ct_viewing c else None))"
    using m by (cases "sd_device deps"; cases "ss_context ?s"; cases "ss_focused ?s")
      (auto simp: context_frame_def client_context_frame_def mirrors_def split_beta)
  with h(1) r show ?thesis by auto
qed

definition empty_tree :: "json \<Rightarrow> wire_tree" where
  "empty_tree j = \<lparr>tr_gateway = JNull, tr_agents = [], tr_devices = []\<rparr>"

definition controller_run :: "controller_event list" where
  "controller_run = [Presence True, SocketNet (UrlBuilt ''wss''), SocketNet (SocketOpened 0), Viewing (Some ''a'')]"

theorem gateway_sees_what_the_app_sees_witness:
  "\<exists>c os ps. run_events (controller_step empty_tree web_deps) (fst (create_controller empty_tree web_deps None None))
       controller_run = (c, os) \<and> last (context_sends (wire os)) = (0, JObj ps) \<and> field ps ''focused'' = Some (JBool True)"
proof -
  obtain c os where r: "run_events (controller_step empty_tree web_deps)
      (fst (create_controller empty_tree web_deps None None)) controller_run = (c, os)"
    by (metis prod.collapse)
  have "ct_socket c = fst (run_events (sync_step web_deps) (fst (create_sync web_deps None None)) sample_run)"
    using arg_cong [OF r, of "\<lambda>x. ct_socket (fst x)"]
    by (simp add: controller_run_def sample_run_def report_presence_c_def report_viewing_c_def
        create_controller_def split_beta Let_def from_socket_core)
  then have "cn_phase (ss_conn (ct_socket c)) = Open 0" "ss_focused (ct_socket c) = Some True"
    by (simp_all add: sample_run_def sync_defs Let_def)
  moreover have "ct_focused c"
    using controller_ok_run [OF create_controller_ok [of web_deps empty_tree None None], where as_tree = empty_tree
        and es = controller_run] calculation
    by (simp add: r controller_ok_def mirrors_def)
  ultimately have "cn_phase (ss_conn (ct_socket c)) = Open 0" "ss_focused (ct_socket c) = Some True" "ct_focused c"
    by simp_all
  with gateway_sees_what_the_app_sees [OF r, of 0] r show ?thesis by auto
qed

text \<open>A request dies with its agent and only with it: after an agent's removal or a fresh
  snapshot, the agents no longer on the roster have no request, and every other agent's is
  what it was.\<close>

theorem requests_die_with_their_agent:
  assumes "c' = fst (on_sync_out as_tree c ev)"
    and "(\<exists>j. ev = SnapshotOut j) \<or> ((\<exists>name. ev = DeltaOut (AgentRemovedDelta name)) \<and> rp_state (ct_replica c) \<noteq> None)"
  shows "\<exists>t. rp_state (ct_replica c') = Some t \<and>
    (\<forall>n. get_request n (ct_requests c') =
       (if n \<in> fst ` set (tr_agents t) then get_request n (ct_requests c) else idle_request))"
  using assms(2)
proof
  assume "\<exists>j. ev = SnapshotOut j"
  then obtain j where "ev = SnapshotOut j" ..
  then show ?thesis
    using reconcile_requests_get [of "c\<lparr>ct_replica := fst (apply_snapshot (as_tree j) (ct_replica c))\<rparr>" "as_tree j"]
    by (simp add: assms(1) on_snapshot_def split_beta Let_def apply_snapshot_def)
next
  assume "(\<exists>name. ev = DeltaOut (AgentRemovedDelta name)) \<and> rp_state (ct_replica c) \<noteq> None"
  then obtain name t where e: "ev = DeltaOut (AgentRemovedDelta name)" and t: "rp_state (ct_replica c) = Some t" by auto
  let ?c = "c\<lparr>ct_replica := fst (apply_delta (AgentRemovedDelta name) (ct_replica c))\<rparr>"
  obtain t' where "rp_state (ct_replica ?c) = Some t'"
    using t by (cases "reduce_delta t (AgentRemovedDelta name)") (auto simp: apply_delta_def)
  then show ?thesis
    using reconcile_requests_get [of ?c t'] e by (simp add: assms(1) on_delta_def split_beta Let_def)
qed

theorem requests_die_with_their_agent_witness:
  "\<exists>t. rp_state (ct_replica (fst (on_sync_out empty_tree (fst (create_controller empty_tree web_deps None None)) (SnapshotOut JNull)))) = Some t \<and>
     (\<forall>n. get_request n (ct_requests (fst (on_sync_out empty_tree (fst (create_controller empty_tree web_deps None None)) (SnapshotOut JNull)))) =
       (if n \<in> fst ` set (tr_agents t) then get_request n (ct_requests (fst (create_controller empty_tree web_deps None None)))
        else idle_request))"
  by (rule requests_die_with_their_agent [OF refl]) simp

end
