(* ===== verification/CreateFlow.thy ===== *)
theory CreateFlow
  imports Api
begin

section \<open>The wizard's create and sign-in flows (apps/web/src/components/NewAgent/create-flow.ts)\<close>

text \<open>
  What the new-agent wizard does with the routes of \<open>Api\<close>: the container is made and awaited, the
  provider set up and awaited.  The routes are the flow's \<open>deps\<close>; a poll may not return, so a flow is
  an option.
\<close>

datatype create_failure = AlreadyCreated | NameRejected | Retryable

fun classify_create_failure :: "api_error \<Rightarrow> bool \<Rightarrow> create_failure" where
  "classify_create_failure (HttpFailed (ApiError status m)) first_attempt =
     (if status = 409 then (if first_attempt then NameRejected else AlreadyCreated)
      else if status = 400 then NameRejected else Retryable)"
| "classify_create_failure e first_attempt = Retryable"

fun is_credential_rejection :: "api_error \<Rightarrow> bool" where
  "is_credential_rejection (HttpFailed (ApiError status m)) = (400 \<le> status \<and> status < 500)"
| "is_credential_rejection e = False"

type_synonym ('w, 'a) flow = "'w \<Rightarrow> ((api_error + 'a) \<times> 'w) option"

record 'w shell_flow_deps =
  sf_create_agent :: "string \<Rightarrow> ('w, unit) io"
  sf_wait_until_running :: "string \<Rightarrow> jsnum \<Rightarrow> ('w, unit) flow"
  sf_wait_until_ready :: "string \<Rightarrow> jsnum \<Rightarrow> ('w, unit) flow"

definition shell_flow_deps :: "'w http_client \<Rightarrow> 'w clock \<Rightarrow> 'w shell_flow_deps" where
  "shell_flow_deps http clock =
     \<lparr>sf_create_agent = create_agent http,
      sf_wait_until_running = (\<lambda>name timeout_ms. wait_until_running http clock name timeout_ms None),
      sf_wait_until_ready = (\<lambda>name timeout_ms. wait_until_ready http clock name timeout_ms None)\<rparr>"

datatype shell_flow_result = ShellReady | ShellNeedsProvider | ShellNameRejected api_error

fun needs_user_error :: "api_error \<Rightarrow> bool" where
  "needs_user_error (AgentStatusError name status) = agent_needs_user status"
| "needs_user_error e = False"

text \<open>The wait both flows end with, by what it comes to.\<close>

definition after_ready_wait :: "'a \<Rightarrow> 'a \<Rightarrow> ((api_error + unit) \<times> 'w) option \<Rightarrow> ((api_error + 'a) \<times> 'w) option" where
  "after_ready_wait ready needs_provider outcome =
     (case outcome of
        None \<Rightarrow> None
      | Some (Inr u, w) \<Rightarrow> Some (Inr ready, w)
      | Some (Inl e, w) \<Rightarrow> Some (if needs_user_error e then Inr needs_provider else Inl e, w))"

definition await_shell :: "'w shell_flow_deps \<Rightarrow> string \<Rightarrow> jsnum \<Rightarrow> ('w, shell_flow_result) flow" where
  "await_shell deps name timeout_ms w =
     (case sf_wait_until_running deps name timeout_ms w of
        None \<Rightarrow> None
      | Some (Inl e, w) \<Rightarrow> Some (Inl e, w)
      | Some (Inr u, w) \<Rightarrow> after_ready_wait ShellReady ShellNeedsProvider (sf_wait_until_ready deps name timeout_ms w))"

definition prepare_agent_shell :: "'w shell_flow_deps \<Rightarrow> string \<Rightarrow> bool \<Rightarrow> jsnum \<Rightarrow> ('w, shell_flow_result) flow" where
  "prepare_agent_shell deps name first_attempt timeout_ms w =
     (case sf_create_agent deps name w of
        (Inl e, w) \<Rightarrow>
          (case classify_create_failure e first_attempt of
             NameRejected \<Rightarrow> Some (Inr (ShellNameRejected e), w)
           | Retryable \<Rightarrow> Some (Inl e, w)
           | AlreadyCreated \<Rightarrow> await_shell deps name timeout_ms w)
      | (Inr u, w) \<Rightarrow> await_shell deps name timeout_ms w)"

record 'w provider_flow_deps =
  pf_provision_agent :: "string \<Rightarrow> provider_selection \<Rightarrow> string option \<Rightarrow> string option \<Rightarrow> ('w, unit) io"
  pf_wait_until_ready :: "string \<Rightarrow> jsnum \<Rightarrow> ('w, unit) flow"

definition provider_flow_deps :: "'w http_client \<Rightarrow> 'w clock \<Rightarrow> 'w provider_flow_deps" where
  "provider_flow_deps http clock =
     \<lparr>pf_provision_agent = provision_agent http,
      pf_wait_until_ready = (\<lambda>name timeout_ms. wait_until_ready http clock name timeout_ms None)\<rparr>"

datatype provider_flow_result = ProviderReady | ProviderNeeded | CredentialRejected api_error

record provider_setup_input =
  ps_name :: string
  ps_provider :: provider_selection
  ps_personality :: string
  ps_timezone :: string
  ps_timeout_ms :: jsnum

definition apply_provider_setup :: "'w provider_flow_deps \<Rightarrow> provider_setup_input \<Rightarrow> ('w, provider_flow_result) flow" where
  "apply_provider_setup deps input w =
     (case pf_provision_agent deps (ps_name input) (ps_provider input) (Some (ps_personality input))
             (Some (ps_timezone input)) w of
        (Inl e, w) \<Rightarrow> Some (if is_credential_rejection e then Inr (CredentialRejected e) else Inl e, w)
      | (Inr u, w) \<Rightarrow> after_ready_wait ProviderReady ProviderNeeded (pf_wait_until_ready deps (ps_name input) (ps_timeout_ms input) w))"

subsection \<open>The flow ends\<close>

lemma create_recorded:
  assumes "create_agent (recorded http) name (w, sent) = (r, w', sent')"
  shows "w' = snd (http ''/agents'' (json_init ''POST'' (JObj [(''name'', JStr name)])) w) \<and> length sent' = Suc (length sent)"
  using assms
  by (auto simp: create_agent_def call_json_def io_bind_def call_recorded io_return_def io_check_def
      split: sum.splits prod.splits option.splits)

lemma wait_ends:
  assumes "clock_moves http clock" "timeout_ms \<le> of_nat n * 500"
  shows "\<exists>r w' sent'. wait_for_status (recorded http) (recorded_clock clock) name timeout_ms 500 wait (w, sent) = Some (r, w', sent') \<and>
    length sent' \<le> length sent + n \<and>
    (r = Inr () \<longrightarrow> (\<exists>v response. fst (fetch_agent_status http name v) = Inr response \<and> sw_ready wait response))"
proof -
  have now: "cl_now (recorded_clock clock) (w, sent) = cl_now clock w" by (simp add: recorded_clock_def)
  have "cl_now clock w + timeout_ms \<le> cl_now clock w + of_nat n * 500" using assms(2) by simp
  from poll_ends [OF assms(1) _ this, of name wait sent] show ?thesis
    unfolding wait_for_status_def now by (simp, blast)
qed

lemma await_shell_ends:
  assumes "clock_moves http clock" "timeout_ms \<le> of_nat n * 500"
  shows "\<exists>r w' sent'. await_shell (shell_flow_deps (recorded http) (recorded_clock clock)) name timeout_ms (w, sent) = Some (r, w', sent') \<and>
    length sent' \<le> length sent + 2 * n \<and> (\<forall>e. r \<noteq> Inr (ShellNameRejected e)) \<and>
    (r = Inr ShellReady \<longrightarrow> (\<exists>v response. fst (fetch_agent_status http name v) = Inr response \<and> sw_ready ready_wait response))"
proof -
  from wait_ends [OF assms, of name running_wait w sent] obtain r v mid where
    run: "wait_for_status (recorded http) (recorded_clock clock) name timeout_ms 500 running_wait (w, sent) = Some (r, v, mid)"
      "length mid \<le> length sent + n" by blast
  from wait_ends [OF assms, of name ready_wait v mid] obtain q u fin where
    ready: "wait_for_status (recorded http) (recorded_clock clock) name timeout_ms 500 ready_wait (v, mid) = Some (q, u, fin)"
      "length fin \<le> length mid + n"
      "q = Inr () \<longrightarrow> (\<exists>v response. fst (fetch_agent_status http name v) = Inr response \<and> sw_ready ready_wait response)" by blast
  show ?thesis
    using run ready
    by (cases r; cases q)
      (auto simp: await_shell_def shell_flow_deps_def wait_until_running_def wait_until_ready_def after_ready_wait_def)
qed

text \<open>The wizard's create flow always comes to an end, with at most one request to create and two polls'
  worth of questions; a name is rejected only by the answer to the create itself, on which nothing more
  is sent, and the flow reports ready only for an agent that said so.\<close>

theorem create_flow_ends:
  assumes "clock_moves http clock" "timeout_ms \<le> of_nat n * 500"
  shows "\<exists>r w' sent. prepare_agent_shell (shell_flow_deps (recorded http) (recorded_clock clock)) name first_attempt timeout_ms (w, []) = Some (r, w', sent) \<and>
    length sent \<le> 1 + 2 * n \<and>
    (\<forall>e. r = Inr (ShellNameRejected e) \<longrightarrow> length sent = 1 \<and> classify_create_failure e first_attempt = NameRejected) \<and>
    (r = Inr ShellReady \<longrightarrow> (\<exists>v response. fst (fetch_agent_status http name v) = Inr response \<and>
       st_status response = Some Alive \<and> st_booting response = Some False))"
proof -
  obtain c v mid where c: "create_agent (recorded http) name (w, []) = (c, v, mid)" by (metis prod_cases3)
  have mid: "length mid = 1" using create_recorded [OF c] by simp
  have ready: "sw_ready ready_wait response \<longleftrightarrow> st_status response = Some Alive \<and> st_booting response = Some False" for response
    by (auto simp: ready_wait_def known_def split: option.splits)
  have create: "sf_create_agent (shell_flow_deps (recorded http) (recorded_clock clock)) name (w, []) = (c, v, mid)"
    using c by (simp add: shell_flow_deps_def)
  from await_shell_ends [OF assms, of name v mid] obtain r u fin where
    a: "await_shell (shell_flow_deps (recorded http) (recorded_clock clock)) name timeout_ms (v, mid) = Some (r, u, fin)"
      "length fin \<le> 1 + 2 * n" "\<forall>e. r \<noteq> Inr (ShellNameRejected e)"
      "r = Inr ShellReady \<longrightarrow> (\<exists>v response. fst (fetch_agent_status http name v) = Inr response \<and> sw_ready ready_wait response)"
    using mid by (simp, blast)
  show ?thesis
  proof (cases c)
    case (Inr x)
    then show ?thesis using create a by (auto simp: prepare_agent_shell_def ready)
  next
    case (Inl e)
    then show ?thesis
      using create a mid by (cases "classify_create_failure e first_attempt") (auto simp: prepare_agent_shell_def ready)
  qed
qed

lemma create_flow_ends_witness:
  "\<exists>r w' sent. prepare_agent_shell (shell_flow_deps (recorded ready_gateway) (recorded_clock tick)) ''a'' True 1000 (0, []) = Some (r, w', sent) \<and>
     length sent \<le> 5"
  using create_flow_ends [OF tick_moves, of 1000 2 "''a''" True 0] by auto

subsection \<open>A refused restart\<close>

text \<open>Every 4xx of the provisioning is read as a rejected credential, the restart's too: a gateway that took
  the provider and the preferences and answers the restart with a conflict sends the user back to the
  sign-in.\<close>

lemma refused_restart_reads_as_bad_credentials:
  "\<exists>w. apply_provider_setup (provider_flow_deps third_refused tick)
      \<lparr>ps_name = ''a'', ps_provider = OpenAISelection ''c'' ''m'' None, ps_personality = ''p'', ps_timezone = ''t'', ps_timeout_ms = 1000\<rparr> 0 =
     Some (Inr (CredentialRejected (HttpFailed (ApiError 409 ''busy''))), w)"
  by (simp add: apply_provider_setup_def provider_flow_deps_def provision_agent_def provision_prefs_def io_bind_def call_def
      call_unit_def third_refused_def restart_agent_def io_return_def Let_def)

end
