(* ===== verification/DesktopStore.thy ===== *)
theory DesktopStore
  imports Json
begin

section \<open>The desktop app's stores (apps/desktop/src/store.ts, window-state.ts)\<close>

text \<open>
  The files the Electron main process keeps.  A file is the JSON text in it, as \<open>JSON.parse\<close> reads it, and
  \<open>JSON.stringify\<close> writes what \<open>JSON.parse\<close> reads back.  Electron's safeStorage is a parameter:
  \<open>encrypt\<close> gives the base64 text of an encrypted value, \<open>decrypt\<close> the value back, or none where it throws
  or is no JSON; whether a backend is available is an argument, since it may change between launches.
  The directory, the temporary file and the rename behind a write are left out: a write replaces the
  file or throws and leaves it.
\<close>

record safe_storage =
  ss_encrypt :: "json \<Rightarrow> string"
  ss_decrypt :: "bool \<Rightarrow> string \<Rightarrow> json option"

type_synonym files = "string \<rightharpoonup> json option"

definition store_version :: jsnum where "store_version = 1"

definition storage_backend_is_secure :: "string \<Rightarrow> bool \<Rightarrow> string \<Rightarrow> bool" where
  "storage_backend_is_secure platform available linux_backend =
     (if \<not> available then False
      else if platform \<noteq> ''linux'' then True
      else linux_backend \<in> set [''gnome_libsecret'', ''kwallet'', ''kwallet5'', ''kwallet6''])"

definition store_payload :: "safe_storage \<Rightarrow> bool \<Rightarrow> json \<Rightarrow> json" where
  "store_payload ss available v =
     (if \<not> available then v
      else JObj [(''version'', JNum store_version), (''encrypted'', JStr (ss_encrypt ss v))])"

definition parse_encrypted_store :: "json \<Rightarrow> string option" where
  "parse_encrypted_store v =
     (case as_record (Some v) of
        None \<Rightarrow> None
      | Some p \<Rightarrow>
          if field p ''version'' \<noteq> Some (JNum store_version) then None
          else (case field p ''encrypted'' of Some (JStr s) \<Rightarrow> Some s | _ \<Rightarrow> None))"

definition write_json :: "string \<Rightarrow> json \<Rightarrow> files \<Rightarrow> files" where
  "write_json filename v fs = fs(filename \<mapsto> Some v)"

text \<open>\<open>readJson\<close>: a file that is not there or does not parse reads as null.\<close>

definition read_json :: "string \<Rightarrow> files \<Rightarrow> json" where
  "read_json filename fs = (case fs filename of Some (Some v) \<Rightarrow> v | _ \<Rightarrow> JNull)"

definition write_store :: "safe_storage \<Rightarrow> bool \<Rightarrow> string \<Rightarrow> json \<Rightarrow> files \<Rightarrow> files" where
  "write_store ss available filename v fs = write_json filename (store_payload ss available v) fs"

text \<open>\<open>write_ok\<close>: whether the write of a plain store's encryption in place succeeds.\<close>

definition read_store :: "safe_storage \<Rightarrow> bool \<Rightarrow> bool \<Rightarrow> string \<Rightarrow> files \<Rightarrow> json \<times> files" where
  "read_store ss available write_ok filename fs =
     (let parsed = read_json filename fs
      in if parsed = JNull then (JNull, fs)
         else case parse_encrypted_store parsed of
                Some encrypted \<Rightarrow> (nullish (ss_decrypt ss available encrypted) JNull, fs)
              | None \<Rightarrow> (parsed, if available \<and> write_ok then write_store ss available filename parsed fs else fs))"

definition clear_store :: "string \<Rightarrow> files \<Rightarrow> files" where
  "clear_store filename fs = fs(filename := None)"

subsection \<open>The window (window-state.ts)\<close>

record rectangle =
  rc_x :: jsnum
  rc_y :: jsnum
  rc_width :: jsnum
  rc_height :: jsnum

record window_state =
  ws_bounds :: rectangle
  ws_maximized :: bool

definition parse_rectangle :: "json option \<Rightarrow> rectangle option" where
  "parse_rectangle v =
     (case as_record v of
        None \<Rightarrow> None
      | Some p \<Rightarrow>
          (case (as_num (field p ''x''), as_num (field p ''y''), as_num (field p ''width''), as_num (field p ''height'')) of
             (Some x, Some y, Some w, Some h) \<Rightarrow> Some \<lparr>rc_x = x, rc_y = y, rc_width = w, rc_height = h\<rparr>
           | _ \<Rightarrow> None))"

definition parse_window_state :: "json \<Rightarrow> window_state option" where
  "parse_window_state v =
     (case as_record (Some v) of
        None \<Rightarrow> None
      | Some p \<Rightarrow>
          (case parse_rectangle (field p ''bounds'') of
             None \<Rightarrow> None
           | Some bounds \<Rightarrow>
               (case as_bool (field p ''maximized'') of
                  None \<Rightarrow> None
                | Some m \<Rightarrow> Some \<lparr>ws_bounds = bounds, ws_maximized = m\<rparr>)))"

definition min_visible_px :: jsnum where "min_visible_px = 80"

definition is_on_screen :: "rectangle \<Rightarrow> rectangle list \<Rightarrow> bool" where
  "is_on_screen bounds work_areas =
     (let top_edge = bounds\<lparr>rc_height := min_visible_px\<rparr>
      in list_ex (\<lambda>area.
           let width = min (rc_x top_edge + rc_width top_edge) (rc_x area + rc_width area) - max (rc_x top_edge) (rc_x area);
               height = min (rc_y top_edge + rc_height top_edge) (rc_y area + rc_height area) - max (rc_y top_edge) (rc_y area)
           in width \<ge> min_visible_px \<and> height \<ge> min_visible_px) work_areas)"

definition load_window_state :: "files \<Rightarrow> rectangle list \<Rightarrow> window_state option" where
  "load_window_state fs work_areas =
     (case parse_window_state (read_json ''window-state.json'' fs) of
        None \<Rightarrow> None
      | Some s \<Rightarrow> if is_on_screen (ws_bounds s) work_areas then Some s else None)"

text \<open>The tracker: a pending save, and what is written.  The window's bounds and flag at that moment come with
  the event; a write that fails is only warned about.\<close>

datatype window_event = WindowChanges | SaveFires window_state bool | WindowCloses window_state bool

datatype window_out = StartSave nat | WriteWindow window_state

definition save_debounce_ms :: nat where "save_debounce_ms = 500"

text \<open>The flag of an event says that the window is destroyed.\<close>

fun window_step :: "bool \<Rightarrow> window_event \<Rightarrow> bool \<times> window_out list" where
  "window_step pending WindowChanges = (True, [StartSave save_debounce_ms])"
| "window_step pending (SaveFires s destroyed) = (False, if destroyed then [] else [WriteWindow s])"
| "window_step pending (WindowCloses s destroyed) = (False, if destroyed then [] else [WriteWindow s])"

definition json_of_rectangle :: "rectangle \<Rightarrow> json" where
  "json_of_rectangle r = JObj [(''x'', JNum (rc_x r)), (''y'', JNum (rc_y r)), (''width'', JNum (rc_width r)),
     (''height'', JNum (rc_height r))]"

definition json_of_window_state :: "window_state \<Rightarrow> json" where
  "json_of_window_state s = JObj [(''bounds'', json_of_rectangle (ws_bounds s)), (''maximized'', JBool (ws_maximized s))]"

subsection \<open>A session survives a relaunch\<close>

text \<open>safeStorage as documented: while it is available, it decrypts what it encrypted.\<close>

definition decrypts :: "safe_storage \<Rightarrow> json \<Rightarrow> bool" where
  "decrypts ss v \<longleftrightarrow> ss_decrypt ss True (ss_encrypt ss v) = Some v"

fun relaunches :: "safe_storage \<Rightarrow> string \<Rightarrow> (bool \<times> bool) list \<Rightarrow> files \<Rightarrow> json list \<times> files" where
  "relaunches ss filename [] fs = ([], fs)"
| "relaunches ss filename ((available, write_ok) # later) fs =
     (let (v, fs) = read_store ss available write_ok filename fs; (vs, fs) = relaunches ss filename later fs
      in (v # vs, fs))"

definition holds :: "safe_storage \<Rightarrow> string \<Rightarrow> json \<Rightarrow> files \<Rightarrow> bool" where
  "holds ss filename v fs \<longleftrightarrow> fs filename \<in> {Some (Some v), Some (Some (store_payload ss True v))}"

lemma encrypted_payload: "parse_encrypted_store (store_payload ss True v) = Some (ss_encrypt ss v)"
  by (simp add: store_payload_def parse_encrypted_store_def)

lemma write_holds: "holds ss filename v (write_store ss available filename v fs)"
  by (cases available) (auto simp: holds_def write_store_def write_json_def store_payload_def)

lemma read_holds:
  assumes "holds ss filename v fs" "decrypts ss v" "v \<noteq> JNull" "parse_encrypted_store v = None"
  shows "fst (read_store ss True write_ok filename fs) = v \<and> holds ss filename v (snd (read_store ss available write_ok filename fs))"
proof -
  have np: "store_payload ss True v \<noteq> JNull" by (simp add: store_payload_def)
  consider "fs filename = Some (Some v)" | "fs filename = Some (Some (store_payload ss True v))"
    using assms(1) by (auto simp: holds_def)
  then show ?thesis
  proof cases
    case 1
    with assms write_holds [of ss filename v available fs] show ?thesis by (auto simp: read_store_def read_json_def Let_def)
  next
    case 2
    with assms(1,2) np show ?thesis
      by (simp add: read_store_def read_json_def encrypted_payload decrypts_def Let_def)
  qed
qed

lemma read_keeps_others: "other \<noteq> filename \<Longrightarrow> snd (read_store ss available write_ok filename fs) other = fs other"
  by (auto simp: read_store_def write_store_def write_json_def Let_def split: option.split)

lemma relaunches_hold:
  assumes "decrypts ss v" "v \<noteq> JNull" "parse_encrypted_store v = None"
  shows "holds ss filename v fs \<Longrightarrow>
    list_all2 (\<lambda>l r. fst l \<longrightarrow> r = v) launches (fst (relaunches ss filename launches fs)) \<and>
    (other \<noteq> filename \<longrightarrow> snd (relaunches ss filename launches fs) other = fs other)"
proof (induction launches arbitrary: fs)
  case (Cons l launches)
  obtain a w where l: "l = (a, w)" by (cases l)
  let ?fs = "snd (read_store ss a w filename fs)"
  from read_holds [OF Cons.prems assms] have "fst (read_store ss True w filename fs) = v" "holds ss filename v ?fs" by blast+
  with Cons.IH [of ?fs] read_keeps_others [of other filename ss a w fs] show ?case
    by (cases a) (auto simp: l split_beta Let_def)
qed simp

text \<open>C28: What the app stored is read at every later launch that has a storage backend, whether one was there when
  it was written or at the launches between, and whether a plain store's encryption in place succeeds;
  the other files stay as they are.\<close>

theorem stored_session_survives_relaunches:
  assumes "decrypts ss v" "v \<noteq> JNull" "parse_encrypted_store v = None"
  shows "list_all2 (\<lambda>l r. fst l \<longrightarrow> r = v) launches
      (fst (relaunches ss filename launches (write_store ss available filename v fs))) \<and>
    (other \<noteq> filename \<longrightarrow> snd (relaunches ss filename launches (write_store ss available filename v fs)) other = fs other)"
  using relaunches_hold [OF assms write_holds] by (auto simp: write_store_def write_json_def)

definition plain_storage :: safe_storage where
  "plain_storage = \<lparr>ss_encrypt = (\<lambda>v. case v of JStr s \<Rightarrow> s | _ \<Rightarrow> []),
     ss_decrypt = (\<lambda>available s. if available then Some (JStr s) else None)\<rparr>"

lemma stored_session_survives_relaunches_witness:
  "list_all2 (\<lambda>l r. r = JStr ''session'' \<or> l = (False, True)) [(True, True), (False, True), (True, True)]
     (fst (relaunches plain_storage ''connection.json'' [(True, True), (False, True), (True, True)]
       (write_store plain_storage False ''connection.json'' (JStr ''session'') (\<lambda>f. None))))"
proof -
  have "decrypts plain_storage (JStr ''session'')" by (simp add: decrypts_def plain_storage_def)
  from stored_session_survives_relaunches [OF this, of "[(True, True), (False, True), (True, True)]" "''connection.json''" False "\<lambda>f. None"]
  show ?thesis by (auto simp: parse_encrypted_store_def list_all2_Cons1)
qed

text \<open>A window's state is read back as it was written, and shown only where its top edge can be reached.\<close>

lemma window_state_roundtrip: "parse_window_state (json_of_window_state s) = Some s"
  by (simp add: parse_window_state_def json_of_window_state_def json_of_rectangle_def parse_rectangle_def)

lemma restored_window_is_reachable:
  assumes "load_window_state fs work_areas = Some s"
  shows "\<exists>area \<in> set work_areas. rc_x (ws_bounds s) + 80 \<le> rc_x area + rc_width area \<and>
    rc_x area + 80 \<le> rc_x (ws_bounds s) + rc_width (ws_bounds s) \<and>
    rc_y area \<le> rc_y (ws_bounds s) \<and> rc_y (ws_bounds s) + 80 \<le> rc_y area + rc_height area"
proof -
  from assms have "is_on_screen (ws_bounds s) work_areas" by (auto simp: load_window_state_def split: option.splits if_splits)
  then obtain area where a: "area \<in> set work_areas"
    "min (rc_x (ws_bounds s) + rc_width (ws_bounds s)) (rc_x area + rc_width area) - max (rc_x (ws_bounds s)) (rc_x area) \<ge> 80"
    "min (rc_y (ws_bounds s) + 80) (rc_y area + rc_height area) - max (rc_y (ws_bounds s)) (rc_y area) \<ge> 80"
    by (auto simp: is_on_screen_def list_ex_iff min_visible_px_def Let_def)
  then have "rc_x (ws_bounds s) + 80 \<le> rc_x area + rc_width area" "rc_x area + 80 \<le> rc_x (ws_bounds s) + rc_width (ws_bounds s)"
    "rc_y area \<le> rc_y (ws_bounds s)" "rc_y (ws_bounds s) + 80 \<le> rc_y area + rc_height area"
    by (simp_all add: min_def max_def split: if_splits)
  with a(1) show ?thesis by blast
qed

end
