(* ===== verification/DeviceContext.thy ===== *)
theory DeviceContext
  imports SyncProtocol ReleaseVersion
begin

section \<open>Where a device is (apps/mobile/src/device-context/device-context.ts, apps/web/src/lib/device-context.ts,
  apps/desktop/src/geolocation.ts)\<close>

text \<open>
  What a device reports about itself: its zone, and its position where the user shares it.  The operating system's
  calls are parameters that pass the world along: \<open>None\<close> is a call that rejected or whose time was over, and the two
  timeouts are arguments of the calls.  \<open>zone_at\<close> is the boundary table, none where it rejects the coordinates.  The
  desktop's providers are programs; \<open>run\<close> gives a program's output or the message of its failure.  A number a
  program prints is read as an exact rational, so none is too large to be finite.
\<close>

subsection \<open>The mobile app\<close>

record os_fix =
  fx_latitude :: jsnum
  fx_longitude :: jsnum
  fx_accuracy :: "jsnum option"

datatype position_mode = Foreground | Background

definition fresh_fix_timeout_ms :: nat where "fresh_fix_timeout_ms = 15000"
definition background_fix_timeout_ms :: nat where "background_fix_timeout_ms = 5000"
definition last_known_fix_max_age_ms :: nat where "last_known_fix_max_age_ms = 60 * 60 * 1000"

record 'w location_os =
  lo_granted :: "'w \<Rightarrow> bool option \<times> 'w"
  lo_fresh_fix :: "nat \<Rightarrow> 'w \<Rightarrow> os_fix option \<times> 'w"
  lo_last_known :: "nat \<Rightarrow> 'w \<Rightarrow> os_fix option \<times> 'w"
  lo_geocode :: "jsnum \<Rightarrow> jsnum \<Rightarrow> 'w \<Rightarrow> device_place list option \<times> 'w"
  lo_timezone :: "'w \<Rightarrow> string option \<times> 'w"

definition first_named :: "device_place \<Rightarrow> string option" where
  "first_named p = (if pl_city p \<noteq> None then pl_city p else if pl_region p \<noteq> None then pl_region p else pl_country p)"

definition to_device_position :: "os_fix \<Rightarrow> device_place option \<Rightarrow> device_position" where
  "to_device_position f geocoded =
     \<lparr>dp_latitude = fx_latitude f, dp_longitude = fx_longitude f, dp_accuracy = fx_accuracy f,
      dp_place = (case geocoded of None \<Rightarrow> None | Some p \<Rightarrow> if first_named p \<noteq> None then Some p else None)\<rparr>"

definition read_fix :: "'w location_os \<Rightarrow> position_mode \<Rightarrow> 'w \<Rightarrow> os_fix option \<times> 'w" where
  "read_fix os mode w =
     (case mode of
        Foreground \<Rightarrow> lo_fresh_fix os fresh_fix_timeout_ms w
      | Background \<Rightarrow>
          (case lo_fresh_fix os background_fix_timeout_ms w of
             (Some f, w) \<Rightarrow> (Some f, w)
           | (None, w) \<Rightarrow> lo_last_known os last_known_fix_max_age_ms w))"

definition read_device_position ::
  "(jsnum \<Rightarrow> jsnum \<Rightarrow> string option) \<Rightarrow> 'w location_os \<Rightarrow> position_mode \<Rightarrow> 'w \<Rightarrow> (device_position \<times> string option) option \<times> 'w" where
  "read_device_position zone_at os mode w =
     (case lo_granted os w of
        (Some True, w) \<Rightarrow>
          (case read_fix os mode w of
             (None, w) \<Rightarrow> (None, w)
           | (Some f, w) \<Rightarrow>
               (let (rows, w) = lo_geocode os (fx_latitude f) (fx_longitude f) w
                in (Some (to_device_position f (case rows of Some (p # _) \<Rightarrow> Some p | _ \<Rightarrow> None),
                          zone_at (fx_latitude f) (fx_longitude f)), w)))
      | (_, w) \<Rightarrow> (None, w))"

definition read_device_context ::
  "(jsnum \<Rightarrow> jsnum \<Rightarrow> string option) \<Rightarrow> 'w location_os \<Rightarrow> bool \<Rightarrow> position_mode \<Rightarrow> 'w \<Rightarrow> device_context \<times> 'w" where
  "read_device_context zone_at os share mode w =
     (if \<not> share
      then (let (zone, w) = lo_timezone os w in (\<lparr>dc_timezone = zone, dc_position = Some None\<rparr>, w))
      else let (located, w) = read_device_position zone_at os mode w
           in case Option.bind located snd of
                Some zone \<Rightarrow> (\<lparr>dc_timezone = Some zone, dc_position = map_option (\<lambda>l. Some (fst l)) located\<rparr>, w)
              | None \<Rightarrow>
                  (let (zone, w) = lo_timezone os w
                   in (\<lparr>dc_timezone = zone, dc_position = map_option (\<lambda>l. Some (fst l)) located\<rparr>, w)))"

subsection \<open>The web app\<close>

text \<open>The fix of the desktop app around it, or the browser's: none without an answer.  In the desktop app its answer is
  final.\<close>

record 'w web_os =
  wo_native :: "('w \<Rightarrow> os_fix option \<times> 'w) option"
  wo_browser :: "('w \<Rightarrow> os_fix option \<times> 'w) option"
  wo_timezone :: string

definition read_web_fix :: "'w web_os \<Rightarrow> 'w \<Rightarrow> os_fix option \<times> 'w" where
  "read_web_fix os w =
     (case wo_native os of
        Some read \<Rightarrow> read w
      | None \<Rightarrow> (case wo_browser os of None \<Rightarrow> (None, w) | Some read \<Rightarrow> read w))"

definition web_zone_at :: "(jsnum \<Rightarrow> jsnum \<Rightarrow> string option) \<Rightarrow> 'w web_os \<Rightarrow> jsnum \<Rightarrow> jsnum \<Rightarrow> string" where
  "web_zone_at zone_at os latitude longitude = nullish (zone_at latitude longitude) (wo_timezone os)"

definition read_browser_device_context ::
  "(jsnum \<Rightarrow> jsnum \<Rightarrow> string option) \<Rightarrow> 'w web_os \<Rightarrow> bool \<Rightarrow> 'w \<Rightarrow> device_context \<times> 'w" where
  "read_browser_device_context zone_at os share w =
     (if \<not> share then (\<lparr>dc_timezone = Some (wo_timezone os), dc_position = Some None\<rparr>, w)
      else case read_web_fix os w of
             (None, w) \<Rightarrow> (\<lparr>dc_timezone = Some (wo_timezone os), dc_position = None\<rparr>, w)
           | (Some f, w) \<Rightarrow>
               (\<lparr>dc_timezone = Some (web_zone_at zone_at os (fx_latitude f) (fx_longitude f)),
                 dc_position = Some (Some \<lparr>dp_latitude = fx_latitude f, dp_longitude = fx_longitude f,
                                           dp_accuracy = fx_accuracy f, dp_place = None\<rparr>)\<rparr>, w))"

subsection \<open>The numbers and paths a program prints\<close>

text \<open>An optional sign, digits with an optional fraction, and an optional exponent; \<open>loose\<close> is \<open>Number\<close>'s grammar, which
  allows a plus and leaves the digits out on one side of the point.\<close>

definition unsigned_text :: "string \<Rightarrow> bool \<times> string" where
  "unsigned_text s = (case s of c # cs \<Rightarrow> if c = CHR ''-'' then (True, cs) else (False, s) | [] \<Rightarrow> (False, s))"

definition drop_plus :: "string \<Rightarrow> string" where
  "drop_plus s = (case s of c # cs \<Rightarrow> if c = CHR ''+'' then cs else s | [] \<Rightarrow> s)"

definition exponent_of :: "string \<Rightarrow> int option" where
  "exponent_of s =
     (case s of
        [] \<Rightarrow> Some 0
      | c # cs \<Rightarrow>
          if c \<noteq> CHR ''e'' \<and> c \<noteq> CHR ''E'' then None
          else let (neg, ds) = unsigned_text cs; ds = (if neg then ds else drop_plus ds)
               in if ds \<noteq> [] \<and> list_all is_digit ds then Some (if neg then - int (digits_value ds) else int (digits_value ds)) else None)"

definition power_ten :: "int \<Rightarrow> rat" where
  "power_ten e = (if 0 \<le> e then 10 ^ nat e else 1 / 10 ^ nat (- e))"

definition decimal_number :: "bool \<Rightarrow> string \<Rightarrow> rat option" where
  "decimal_number loose s =
     (let (neg, s) = unsigned_text s; s = (if loose \<and> \<not> neg then drop_plus s else s);
          whole = takeWhile is_digit s; s = dropWhile is_digit s;
          point = (case s of c # cs \<Rightarrow> c = CHR ''.'' | [] \<Rightarrow> False);
          fraction = (if point then takeWhile is_digit (tl s) else []);
          s = (if point then dropWhile is_digit (tl s) else s);
          value = of_nat (digits_value (whole @ fraction)) / 10 ^ length fraction
      in if (if loose then whole = [] \<and> fraction = [] else whole = [] \<or> point \<and> fraction = []) then None
         else map_option (\<lambda>e. (if neg then - value else value) * power_ten e) (exponent_of s))"

text \<open>\<open>Number\<close>, none where it is not finite; the prefixes of the other bases are left out, as no provider prints them.\<close>

definition number_of_text :: "string \<Rightarrow> rat option" where
  "number_of_text s = (if trim s = [] then Some 0 else decimal_number True (trim s))"

definition parse_windows_fix :: "string \<Rightarrow> os_fix option" where
  "parse_windows_fix stdout =
     (case split_char (CHR ''|'') (trim stdout) of
        [a, b, c] \<Rightarrow>
          (case (number_of_text a, number_of_text b) of
             (Some latitude, Some longitude) \<Rightarrow>
               Some \<lparr>fx_latitude = latitude, fx_longitude = longitude, fx_accuracy = number_of_text c\<rparr>
           | _ \<Rightarrow> None)
      | _ \<Rightarrow> None)"

fun parse_object_path :: "string \<Rightarrow> string option" where
  "parse_object_path [] = None"
| "parse_object_path (c # cs) =
     (let rest = drop 12 (c # cs); path = takeWhile (\<lambda>x. x \<noteq> CHR 0x27) rest
      in if starts_with (''objectpath '' @ [CHR 0x27]) (c # cs) \<and> path \<noteq> [] \<and> length path < length rest then Some path
         else parse_object_path cs)"

definition without_double :: "string \<Rightarrow> string" where
  "without_double s = (if lower_case (take 7 s) = ''double '' then drop 7 s else s)"

fun parse_variant_number :: "string \<Rightarrow> rat option" where
  "parse_variant_number [] = None"
| "parse_variant_number (c # cs) =
     (let rest = without_double cs; number = takeWhile (\<lambda>x. x \<noteq> CHR ''>'') rest
      in if c = CHR ''<'' \<and> length number < length rest \<and> decimal_number False number \<noteq> None then decimal_number False number
         else parse_variant_number cs)"

subsection \<open>The desktop's providers\<close>

type_synonym 'w runner = "string \<Rightarrow> string list \<Rightarrow> 'w \<Rightarrow> (string + string) \<times> 'w"
type_synonym ('w, 'a) ran = "'w \<Rightarrow> (string + 'a) \<times> 'w"

definition ran_return :: "'a \<Rightarrow> ('w, 'a) ran" where
  "ran_return x w = (Inr x, w)"

definition ran_bind :: "('w, 'a) ran \<Rightarrow> ('a \<Rightarrow> ('w, 'b) ran) \<Rightarrow> ('w, 'b) ran" where
  "ran_bind m f w = (case m w of (Inl e, w) \<Rightarrow> (Inl e, w) | (Inr x, w) \<Rightarrow> f x w)"

definition geoclue_dest :: string where "geoclue_dest = ''org.freedesktop.GeoClue2''"
definition geoclue_client :: string where "geoclue_client = ''org.freedesktop.GeoClue2.Client''"
definition geoclue_accuracy_exact :: string where "geoclue_accuracy_exact = ''<uint32 8>''"

definition gdbus :: "'w runner \<Rightarrow> string \<Rightarrow> string list \<Rightarrow> ('w, string) ran" where
  "gdbus run path args = run ''gdbus'' ([''call'', ''--system'', ''--dest'', geoclue_dest, ''--object-path'', path] @ args)"

definition client_property :: "'w runner \<Rightarrow> string \<Rightarrow> string \<Rightarrow> string list \<Rightarrow> ('w, string) ran" where
  "client_property run client way args =
     gdbus run client ([''--method'', ''org.freedesktop.DBus.Properties.'' @ way, geoclue_client] @ args)"

definition location_property :: "'w runner \<Rightarrow> string \<Rightarrow> string \<Rightarrow> ('w, rat option) ran" where
  "location_property run location name =
     ran_bind (gdbus run location [''--method'', ''org.freedesktop.DBus.Properties.Get'', ''org.freedesktop.GeoClue2.Location'', name])
       (\<lambda>out. ran_return (parse_variant_number out))"

text \<open>The three properties are asked for together; here in their order.\<close>

definition read_location :: "'w runner \<Rightarrow> string \<Rightarrow> ('w, os_fix option) ran" where
  "read_location run location =
     ran_bind (location_property run location ''Latitude'') (\<lambda>latitude.
     ran_bind (location_property run location ''Longitude'') (\<lambda>longitude.
     ran_bind (location_property run location ''Accuracy'') (\<lambda>accuracy.
     ran_return
       (case (latitude, longitude) of
          (Some la, Some lo) \<Rightarrow> Some \<lparr>fx_latitude = la, fx_longitude = lo, fx_accuracy = accuracy\<rparr>
        | _ \<Rightarrow> None))))"

definition linux_poll_interval_ms :: nat where "linux_poll_interval_ms = 500"
definition poll_attempts :: nat where "poll_attempts = 15000 div linux_poll_interval_ms"

fun poll_location :: "'w runner \<Rightarrow> (nat \<Rightarrow> 'w \<Rightarrow> 'w) \<Rightarrow> string \<Rightarrow> nat \<Rightarrow> ('w, os_fix option) ran" where
  "poll_location run sleep client 0 w = (Inr None, w)"
| "poll_location run sleep client (Suc n) w =
     (case client_property run client ''Get'' [''Location''] w of
        (Inl e, w) \<Rightarrow> (Inl e, w)
      | (Inr reply, w) \<Rightarrow>
          (case parse_object_path reply of
             Some location \<Rightarrow>
               if location \<noteq> ''/'' then read_location run location w
               else poll_location run sleep client n (sleep linux_poll_interval_ms w)
           | None \<Rightarrow> poll_location run sleep client n (sleep linux_poll_interval_ms w)))"

text \<open>\<open>finally\<close>: the client is stopped whatever came of the poll, and what the stop answers is ignored.\<close>

definition stop_client :: "'w runner \<Rightarrow> string \<Rightarrow> ('w, 'a) ran \<Rightarrow> ('w, 'a) ran" where
  "stop_client run client m w =
     (let (r, w) = m w; (_, w) = gdbus run client [''--method'', geoclue_client @ ''.Stop''] w in (r, w))"

definition linux_fix :: "'w runner \<Rightarrow> (nat \<Rightarrow> 'w \<Rightarrow> 'w) \<Rightarrow> ('w, os_fix option) ran" where
  "linux_fix run sleep =
     ran_bind (gdbus run ''/org/freedesktop/GeoClue2/Manager'' [''--method'', ''org.freedesktop.GeoClue2.Manager.GetClient''])
       (\<lambda>reply. case parse_object_path reply of
          None \<Rightarrow> ran_return None
        | Some client \<Rightarrow>
            ran_bind (client_property run client ''Set'' [''DesktopId'', ''<'' @ [CHR 0x27] @ ''vesta'' @ [CHR 0x27] @ ''>'']) (\<lambda>_.
            ran_bind (client_property run client ''Set'' [''RequestedAccuracyLevel'', geoclue_accuracy_exact]) (\<lambda>_.
            ran_bind (gdbus run client [''--method'', geoclue_client @ ''.Start'']) (\<lambda>_.
            stop_client run client (poll_location run sleep client poll_attempts)))))"

datatype node_platform = Darwin | Win32 | Linux | OtherPlatform

text \<open>\<open>script\<close> is the script PowerShell runs.\<close>

definition resolve_native_fix ::
  "string \<Rightarrow> node_platform \<Rightarrow> 'w runner \<Rightarrow> (nat \<Rightarrow> 'w \<Rightarrow> 'w) \<Rightarrow> string option \<Rightarrow> ('w, os_fix option) ran" where
  "resolve_native_fix script platform run sleep mac_helper =
     (case (platform, mac_helper) of
        (Darwin, Some helper) \<Rightarrow> ran_bind (run helper []) (\<lambda>out. ran_return (parse_windows_fix out))
      | (Win32, _) \<Rightarrow>
          ran_bind (run ''powershell.exe'' [''-NoProfile'', ''-NonInteractive'', ''-Command'', script])
            (\<lambda>out. ran_return (parse_windows_fix out))
      | (Linux, _) \<Rightarrow> linux_fix run sleep
      | _ \<Rightarrow> ran_return None)"

subsection \<open>What the switch decides\<close>

text \<open>Location sharing that is off reads no location and retracts what the gateway holds: the report's position is
  null just when the switch is off, in the mobile app and in the web app, whatever the operating system answers, and
  the mobile app then asks it for the zone alone.\<close>

theorem switch_decides_the_position:
  "(dc_position (fst (read_device_context zone_at os share mode w)) = Some None \<longleftrightarrow> \<not> share) \<and>
   (dc_position (fst (read_browser_device_context zone_at web share v)) = Some None \<longleftrightarrow> \<not> share) \<and>
   snd (read_device_context zone_at os False mode w) = snd (lo_timezone os w) \<and>
   snd (read_browser_device_context zone_at web False v) = v"
  by (auto simp: read_device_context_def read_browser_device_context_def Let_def split_beta
      split: option.split prod.split)

text \<open>A shared report names the zone its position is in, where the table knows one.\<close>

theorem position_names_its_zone:
  assumes "dc_position (fst (read_device_context zone_at os share mode w)) = Some (Some p)"
    "zone_at (dp_latitude p) (dp_longitude p) = Some zone"
  shows "dc_timezone (fst (read_device_context zone_at os share mode w)) = Some zone"
proof -
  have at: "snd l = zone_at (dp_latitude (fst l)) (dp_longitude (fst l))"
    if "fst (read_device_position zone_at os mode w) = Some l" for l
    using that by (auto simp: read_device_position_def to_device_position_def Let_def split_beta split: option.splits prod.splits bool.splits)
  with assms show ?thesis
    by (auto simp: read_device_context_def Let_def split_beta split: if_splits option.splits)
qed

subsection \<open>The Linux client is stopped\<close>

text \<open>A runner that keeps a log: the arguments of every call, and whether it was answered.\<close>

definition logged :: "'w runner \<Rightarrow> ((string list \<times> bool) list \<times> 'w) runner" where
  "logged run command args v =
     (let (r, w) = run command args (snd v) in (r, (fst v @ [(args, case r of Inl e \<Rightarrow> False | Inr out \<Rightarrow> True)], w)))"

definition gdbus_args :: "string \<Rightarrow> string \<Rightarrow> string list \<Rightarrow> string list" where
  "gdbus_args path way args = [''call'', ''--system'', ''--dest'', geoclue_dest, ''--object-path'', path, ''--method'', way] @ args"

definition client_call :: "string \<Rightarrow> string \<Rightarrow> string list" where
  "client_call client way = gdbus_args client (geoclue_client @ way) []"

lemma logged_gdbus:
  "gdbus (logged run) path (''--method'' # way # args) v =
     (let (r, w) = run ''gdbus'' (gdbus_args path way args) (snd v)
      in (r, (fst v @ [(gdbus_args path way args, case r of Inl e \<Rightarrow> False | Inr out \<Rightarrow> True)], w)))"
  by (simp add: gdbus_def logged_def gdbus_args_def)

lemma gdbus_args_eq: "gdbus_args p m a = gdbus_args q n b \<longleftrightarrow> p = q \<and> m = n \<and> a = b"
  by (auto simp: gdbus_args_def)

definition property_calls :: "(string list \<times> bool) list \<Rightarrow> bool" where
  "property_calls past \<longleftrightarrow>
     (\<forall>(a, r) \<in> set past. \<exists>path way args. a = gdbus_args path (''org.freedesktop.DBus.Properties.'' @ way) args)"

lemma property_calls_simps [simp]:
  "property_calls []" "property_calls (xs @ ys) \<longleftrightarrow> property_calls xs \<and> property_calls ys"
  by (simp_all only: property_calls_def set_append ball_Un list.set) simp

lemma no_client_call:
  assumes "property_calls past"
  shows "(client_call client way, r) \<notin> set past"
proof
  assume "(client_call client way, r) \<in> set past"
  then obtain path w args where "client_call client way = gdbus_args path (''org.freedesktop.DBus.Properties.'' @ w) args"
    using assms unfolding property_calls_def by fastforce
  then show False by (simp add: client_call_def gdbus_args_eq geoclue_client_def)
qed

text \<open>What a call appends to the log.\<close>

definition logs :: "((string list \<times> bool) list \<times> 'w, 'a) ran \<Rightarrow> bool" where
  "logs m \<longleftrightarrow> (\<forall>past w. \<exists>more. fst (snd (m (past, w))) = past @ more \<and> property_calls more)"

lemma logs_bind:
  assumes "logs m" "\<And>x. logs (f x)"
  shows "logs (ran_bind m f)"
  unfolding logs_def
proof (intro allI)
  fix past :: "(string list \<times> bool) list" and w :: 'a
  obtain more where m: "fst (snd (m (past, w))) = past @ more" "property_calls more" using assms(1) unfolding logs_def by blast
  obtain r v where v: "m (past, w) = (r, (past @ more, v))" using m(1) by (metis prod.collapse)
  show "\<exists>more. fst (snd (ran_bind m f (past, w))) = past @ more \<and> property_calls more"
  proof (cases r)
    case (Inl e)
    with v m(2) show ?thesis by (auto simp: ran_bind_def)
  next
    case (Inr x)
    obtain rest where "fst (snd (f x (past @ more, v))) = (past @ more) @ rest" "property_calls rest"
      using assms(2) [of x] unfolding logs_def by blast
    with v Inr m(2) show ?thesis by (intro exI [of _ "more @ rest"]) (simp add: ran_bind_def)
  qed
qed

lemma ran_bind_to: "m w = (r, v) \<Longrightarrow> ran_bind m f w = (case r of Inl e \<Rightarrow> (Inl e, v) | Inr x \<Rightarrow> f x v)"
  by (simp add: ran_bind_def split: sum.split)

lemma logs_return: "logs (ran_return x)"
  by (simp add: logs_def ran_return_def)

lemma logs_property: "logs (gdbus (logged run) path (''--method'' # (''org.freedesktop.DBus.Properties.'' @ way) # args))"
  unfolding logs_def logged_gdbus by (auto simp: property_calls_def split_beta Let_def)

lemma logs_client: "logs (client_property (logged run) client way args)"
  using logs_property [of run client way "geoclue_client # args"] by (simp add: client_property_def)

lemma logs_location: "logs (read_location (logged run) location)"
proof -
  have "logs (location_property (logged run) location name)" for name
    using logs_property [of run location "''Get''" "[''org.freedesktop.GeoClue2.Location'', name]"]
    unfolding location_property_def by (intro logs_bind logs_return) simp
  then show ?thesis unfolding read_location_def by (intro logs_bind logs_return)
qed

lemma logs_poll: "logs (poll_location (logged run) (\<lambda>ms v. (fst v, sleep ms (snd v))) client n)"
proof (induction n)
  case 0
  then show ?case by (simp add: logs_def)
next
  case (Suc n)
  let ?nap = "\<lambda>v. poll_location (logged run) (\<lambda>ms v. (fst v, sleep ms (snd v))) client n (fst v, sleep linux_poll_interval_ms (snd v))"
  have nap: "logs ?nap" using Suc unfolding logs_def by (metis fst_conv snd_conv)
  have "poll_location (logged run) (\<lambda>ms v. (fst v, sleep ms (snd v))) client (Suc n) =
      ran_bind (client_property (logged run) client ''Get'' [''Location''])
        (\<lambda>reply. case parse_object_path reply of
            Some location \<Rightarrow> if location \<noteq> ''/'' then read_location (logged run) location else ?nap
          | None \<Rightarrow> ?nap)"
    by (rule ext) (auto simp: ran_bind_def split: prod.split sum.split option.split)
  then show ?case using nap logs_location by (auto intro!: logs_bind logs_client split: option.split)
qed

lemma logs_run:
  assumes "logs m"
  obtains r more w' where "m (past, w) = (r, (past @ more, w'))" "property_calls more"
proof -
  obtain more where m: "fst (snd (m (past, w))) = past @ more" "property_calls more" using assms unfolding logs_def by blast
  obtain r p w' where run: "m (past, w) = (r, (p, w'))" by (cases "m (past, w)") auto
  with m(1) have "p = past @ more" by simp
  with run m(2) show ?thesis by (intro that [of r more w']) simp_all
qed

lemma stop_client_log:
  assumes "m v = (r, (past, w))"
  shows "\<exists>ok w'. stop_client (logged run) client m v = (r, (past @ [(client_call client ''.Stop'', ok)], w'))"
proof -
  obtain q w' where "run ''gdbus'' (client_call client ''.Stop'') w = (q, w')" by fastforce
  with assms show ?thesis by (simp add: stop_client_def logged_gdbus client_call_def Let_def)
qed

text \<open>C19: A location client that was started is stopped: whatever the calls answer, and wherever they fail, the last call
  of a read that started its client is that client's stop, and the client is stopped once.\<close>

theorem started_client_is_stopped:
  assumes "past = fst (snd (linux_fix (logged run) (\<lambda>ms v. (fst v, sleep ms (snd v))) ([], w)))"
    "(client_call client ''.Start'', True) \<in> set past"
  shows "\<exists>before r. past = before @ [(client_call client ''.Stop'', r)] \<and> (\<forall>r'. (client_call client ''.Stop'', r') \<notin> set before)"
proof -
  let ?sleep = "\<lambda>ms v. (fst v, sleep ms (snd v))"
  let ?manager = "(gdbus_args ''/org/freedesktop/GeoClue2/Manager'' ''org.freedesktop.GeoClue2.Manager.GetClient'' [])"
  have manager: "?manager \<noteq> client_call c way" "client_call c way \<noteq> ?manager" for c way
    by (simp_all add: client_call_def gdbus_args_eq geoclue_client_def)
  obtain r1 w1 where run1: "run ''gdbus'' ?manager w = (r1, w1)" by fastforce
  have r1: "gdbus (logged run) ''/org/freedesktop/GeoClue2/Manager''
      [''--method'', ''org.freedesktop.GeoClue2.Manager.GetClient''] ([], w) = (r1, ([(?manager, case r1 of Inl e \<Rightarrow> False | Inr out \<Rightarrow> True)], w1))"
    unfolding logged_gdbus by (simp add: run1 Let_def)
  show ?thesis
  proof (cases "case r1 of Inl e \<Rightarrow> None | Inr reply \<Rightarrow> parse_object_path reply")
    case None
    then have "past = [(?manager, case r1 of Inl e \<Rightarrow> False | Inr out \<Rightarrow> True)]"
      using assms(1) by (auto simp: linux_fix_def ran_bind_def r1 ran_return_def split: sum.splits)
    with assms(2) manager show ?thesis by auto
  next
    case (Some c)
    then obtain reply where reply: "r1 = Inr reply" "parse_object_path reply = Some c" by (auto split: sum.splits)
    let ?sets = "ran_bind (client_property (logged run) c ''Set'' [''DesktopId'', ''<'' @ [CHR 0x27] @ ''vesta'' @ [CHR 0x27] @ ''>''])
        (\<lambda>_. client_property (logged run) c ''Set'' [''RequestedAccuracyLevel'', geoclue_accuracy_exact])"
    have "logs ?sets" by (intro logs_bind logs_client)
    then obtain r2 more w2 where r2: "?sets ([(?manager, True)], w1) = (r2, ([(?manager, True)] @ more, w2))"
      and more: "property_calls more"
      by (rule logs_run [of ?sets "[(?manager, True)]" w1])
    let ?rest = "\<lambda>_. ran_bind (gdbus (logged run) c [''--method'', geoclue_client @ ''.Start''])
      (\<lambda>_. stop_client (logged run) c (poll_location (logged run) ?sleep c poll_attempts))"
    have assoc: "linux_fix (logged run) ?sleep ([], w) = ran_bind ?sets ?rest ([(?manager, True)], w1)"
      by (simp add: linux_fix_def ran_bind_def r1 reply split: prod.split sum.split)
    show ?thesis
    proof (cases r2)
      case (Inl e)
      then have "past = (?manager, True) # more" using assms(1) unfolding assoc ran_bind_to [of ?sets, OF r2] by simp
      with assms(2) manager no_client_call [OF more] show ?thesis by auto
    next
      case (Inr x)
      obtain r3 w3 where r3: "run ''gdbus'' (client_call c ''.Start'') w2 = (r3, w3)" by fastforce
      let ?before = "((?manager, True) # more) @ [(client_call c ''.Start'', case r3 of Inl e \<Rightarrow> False | Inr out \<Rightarrow> True)]"
      have start: "gdbus (logged run) c [''--method'', geoclue_client @ ''.Start''] ((?manager, True) # more, w2) = (r3, (?before, w3))"
        using r3 unfolding logged_gdbus by (simp add: client_call_def Let_def)
      show ?thesis
      proof (cases r3)
        case (Inl e)
        then have "past = ?before"
          using assms(1) Inr unfolding assoc ran_bind_to [of ?sets, OF r2] by (simp add: \<open>r2 = Inr x\<close> ran_bind_to [of "gdbus (logged run) c [''--method'', geoclue_client @ ''.Start'']", OF start])
        with assms(2) Inl manager no_client_call [OF more] show ?thesis by auto
      next
        case (Inr y)
        obtain r4 polls w4 where r4: "poll_location (logged run) ?sleep c poll_attempts (?before, w3) = (r4, (?before @ polls, w4))"
          and polls: "property_calls polls"
          by (rule logs_run [OF logs_poll [of run sleep c poll_attempts], of ?before w3])
        obtain ok w5 where "stop_client (logged run) c (poll_location (logged run) ?sleep c poll_attempts) (?before, w3) =
            (r4, ((?before @ polls) @ [(client_call c ''.Stop'', ok)], w5))"
          using stop_client_log [where m = "poll_location (logged run) ?sleep c poll_attempts", OF r4, of run c] by (elim exE) (rule that)
        then have "\<exists>r. past = (?before @ polls) @ [(client_call c ''.Stop'', r)]"
          using assms(1) unfolding assoc ran_bind_to [of ?sets, OF r2] \<open>r2 = Inr x\<close>
          by (simp add: ran_bind_to [of "gdbus (logged run) c [''--method'', geoclue_client @ ''.Start'']", OF start] Inr)
        then obtain r where past: "past = (?before @ polls) @ [(client_call c ''.Stop'', r)]" ..
        have "client_call c' way' = client_call c'' way'' \<longleftrightarrow> c' = c'' \<and> way' = way''" for c' way' c'' way''
          by (simp add: client_call_def gdbus_args_eq)
        with assms(2) past manager no_client_call [OF more] no_client_call [OF polls] have "client = c"
          by auto
        moreover have "(client_call c ''.Stop'', r') \<notin> set (?before @ polls)" for r'
          using manager no_client_call [OF more] no_client_call [OF polls]
          by (auto simp: client_call_def gdbus_args_eq geoclue_client_def)
        ultimately show ?thesis using past by blast
      qed
    qed
  qed
qed

definition gone_client :: "unit runner" where
  "gone_client command args w =
     (if length args = 10 then Inl ''gone'' else Inr (''objectpath '' @ [CHR 0x27] @ ''/c'' @ [CHR 0x27]), w)"

lemma gone_path: "parse_object_path (''objectpath '' @ [CHR 0x27] @ ''/c'' @ [CHR 0x27]) = Some ''/c''"
  by (simp add: starts_with_def)

theorem started_client_is_stopped_witness:
  "\<exists>before r. fst (snd (linux_fix (logged gone_client) (\<lambda>ms v. (fst v, snd v)) ([], ()))) =
      before @ [(client_call ''/c'' ''.Stop'', r)] \<and> (\<forall>r'. (client_call ''/c'' ''.Stop'', r') \<notin> set before)"
proof (rule started_client_is_stopped [OF refl, where sleep = "\<lambda>ms v. v"])
  obtain n where attempts: "poll_attempts = Suc n" by (rule that [of 29]) (simp add: poll_attempts_def linux_poll_interval_ms_def)
  show "(client_call ''/c'' ''.Start'', True) \<in> set (fst (snd (linux_fix (logged gone_client)
      (\<lambda>ms v. (fst v, snd v)) ([], ()))))"
    unfolding linux_fix_def attempts
    by (simp add: ran_bind_def gdbus_def logged_def gone_client_def client_property_def stop_client_def gone_path [simplified]
        client_call_def gdbus_args_def)
qed

theorem position_names_its_zone_witness:
  "dc_timezone (fst (read_device_context (\<lambda>_ _. Some ''Europe/Rome'')
      \<lparr>lo_granted = \<lambda>w. (Some True, w), lo_fresh_fix = \<lambda>_ w. (Some \<lparr>fx_latitude = 42, fx_longitude = 12, fx_accuracy = None\<rparr>, w),
       lo_last_known = \<lambda>_ w. (None, w), lo_geocode = \<lambda>_ _ w. (None, w), lo_timezone = \<lambda>w. (None, w)\<rparr>
      True Foreground ())) = Some ''Europe/Rome''"
  by (rule position_names_its_zone [where p = "\<lparr>dp_latitude = 42, dp_longitude = 12, dp_accuracy = None, dp_place = None\<rparr>"])
    (simp_all add: read_device_context_def read_device_position_def read_fix_def to_device_position_def)

subsection \<open>The line of the Windows script and the macOS helper\<close>

text \<open>
  A number as the script (\<open>ToString\<close> in the invariant culture) and the helper (a Swift \<open>Double\<close>) write it: the sign, the
  digits before the point, those after it (no point where there are none), and the exponent of a very large or
  very small one, as in \<open>25\<close>, \<open>-12.5\<close>, \<open>1E-05\<close> and \<open>1e+16\<close>. It is worth the exact decimal; the rounding to
  a double is left out.
\<close>

type_synonym decimal = "bool \<times> string \<times> string \<times> (char \<times> string \<times> string) option"

fun exponent_text :: "(char \<times> string \<times> string) option \<Rightarrow> string" where
  "exponent_text None = []"
| "exponent_text (Some (letter, sign, ds)) = letter # sign @ ds"

fun exponent_value :: "(char \<times> string \<times> string) option \<Rightarrow> int" where
  "exponent_value None = 0"
| "exponent_value (Some (letter, sign, ds)) = (if sign = ''-'' then - int (digits_value ds) else int (digits_value ds))"

fun is_exponent :: "(char \<times> string \<times> string) option \<Rightarrow> bool" where
  "is_exponent None \<longleftrightarrow> True"
| "is_exponent (Some (letter, sign, ds)) \<longleftrightarrow>
     (letter = CHR ''e'' \<or> letter = CHR ''E'') \<and> sign \<in> {[], ''+'', ''-''} \<and> all_digits ds"

definition point_text :: "string \<Rightarrow> string" where
  "point_text fraction = (if fraction = [] then [] else CHR ''.'' # fraction)"

fun decimal_text :: "decimal \<Rightarrow> string" where
  "decimal_text (neg, whole, fraction, exponent) =
     (if neg then ''-'' else []) @ whole @ point_text fraction @ exponent_text exponent"

fun decimal_value :: "decimal \<Rightarrow> rat" where
  "decimal_value (neg, whole, fraction, exponent) =
     (let v = of_nat (digits_value (whole @ fraction)) / 10 ^ length fraction
      in (if neg then - v else v) * power_ten (exponent_value exponent))"

fun is_decimal :: "decimal \<Rightarrow> bool" where
  "is_decimal (neg, whole, fraction, exponent) \<longleftrightarrow>
     all_digits whole \<and> list_all is_digit fraction \<and> is_exponent exponent"

lemma digit_plain: "is_digit c \<Longrightarrow> \<not> is_js_space c \<and> c \<noteq> CHR ''.'' \<and> c \<noteq> CHR ''-'' \<and> c \<noteq> CHR ''+'' \<and> c \<noteq> CHR ''|''"
  by (auto simp: is_digit_def is_js_space_def)

lemma exponent_chars:
  "is_exponent x \<Longrightarrow> c \<in> set (exponent_text x) \<Longrightarrow>
     is_digit c \<or> c = CHR ''e'' \<or> c = CHR ''E'' \<or> c = CHR ''+'' \<or> c = CHR ''-''"
  by (cases x rule: exponent_text.cases) (auto simp: all_digits_def list_all_iff)

lemma decimal_chars:
  assumes "is_decimal d" "c \<in> set (decimal_text d)"
  shows "\<not> is_js_space c \<and> c \<noteq> CHR ''|''"
proof (cases d)
  case (fields neg whole fraction exponent)
  with assms have "is_digit c \<or> c \<in> set ''eE+-.''"
    using exponent_chars [of exponent c]
    by (auto simp: all_digits_def list_all_iff point_text_def split: if_splits)
  then show ?thesis using digit_plain [of c] by (auto simp: is_js_space_def)
qed

lemma decimal_nonempty: "is_decimal d \<Longrightarrow> decimal_text d \<noteq> []"
  by (cases d) (auto simp: all_digits_def)

lemma trim_plain: "list_all (\<lambda>c. \<not> is_js_space c) s \<Longrightarrow> list_all is_js_space post \<Longrightarrow> trim (s @ post) = s"
proof -
  assume a: "list_all (\<lambda>c. \<not> is_js_space c) s" "list_all is_js_space post"
  have plain: "dropWhile is_js_space t = t" if "list_all (\<lambda>c. \<not> is_js_space c) t" for t using that by (cases t) simp_all
  have "dropWhile is_js_space (rev (s @ post)) = rev s"
    using a plain [of "rev s"] by (simp add: dropWhile_append list_all_iff)
  moreover have "s \<noteq> [] \<Longrightarrow> dropWhile is_js_space (s @ post) = s @ post" using a(1) by (cases s) simp_all
  moreover have "dropWhile is_js_space post = []" using a(2) by (simp add: list_all_iff)
  ultimately show "trim (s @ post) = s" by (cases "s = []") (simp_all add: trim_def del: dropWhile_eq_Nil_conv)
qed

lemma digits_then:
  assumes "list_all is_digit ds" "rest = [] \<or> \<not> is_digit (hd rest)"
  shows "takeWhile is_digit (ds @ rest) = ds \<and> dropWhile is_digit (ds @ rest) = rest"
  using assms by (cases rest) (simp_all add: list_all_iff takeWhile_append dropWhile_append)

lemma exponent_reads:
  assumes "is_exponent x"
  shows "exponent_of (exponent_text x) = Some (exponent_value x)"
    "exponent_text x = [] \<or> \<not> is_digit (hd (exponent_text x))"
    "exponent_text x = [] \<or> hd (exponent_text x) \<noteq> CHR ''.''"
proof -
  show "exponent_of (exponent_text x) = Some (exponent_value x)"
  proof (cases x rule: exponent_text.cases)
    case (2 letter sign ds)
    then obtain d es where ds: "ds = d # es" "is_digit d" "list_all is_digit es"
      using assms by (cases ds) (auto simp: all_digits_def)
    then show ?thesis using 2 assms digit_plain [OF ds(2)]
      by (auto simp: exponent_of_def unsigned_text_def drop_plus_def)
  qed (simp add: exponent_of_def)
qed (use assms in \<open>cases x rule: exponent_text.cases; auto simp: is_digit_def\<close>)+

lemma point_reads:
  assumes "list_all is_digit fraction" "is_exponent x"
  defines "s \<equiv> point_text fraction @ exponent_text x"
  shows "s = [] \<or> \<not> is_digit (hd s)"
    "(case s of c # cs \<Rightarrow> c = CHR ''.'' | [] \<Rightarrow> False) \<longleftrightarrow> fraction \<noteq> []"
    "fraction \<noteq> [] \<Longrightarrow> takeWhile is_digit (tl s) = fraction \<and> dropWhile is_digit (tl s) = exponent_text x"
proof -
  show "s = [] \<or> \<not> is_digit (hd s)"
    using exponent_reads(2) [OF assms(2)] by (auto simp: s_def point_text_def is_digit_def)
  show "(case s of c # cs \<Rightarrow> c = CHR ''.'' | [] \<Rightarrow> False) \<longleftrightarrow> fraction \<noteq> []"
    using exponent_reads(3) [OF assms(2)] by (cases "exponent_text x") (auto simp: s_def point_text_def)
  show "takeWhile is_digit (tl s) = fraction \<and> dropWhile is_digit (tl s) = exponent_text x" if "fraction \<noteq> []"
    using that digits_then [OF assms(1) exponent_reads(2) [OF assms(2)]] by (simp add: s_def point_text_def)
qed

lemma decimal_reads:
  assumes "is_decimal d"
  shows "number_of_text (decimal_text d) = Some (decimal_value d)"
proof (cases d)
  case (fields neg whole fraction exponent)
  let ?s = "point_text fraction @ exponent_text exponent"
  from fields assms have w: "all_digits whole" "list_all is_digit fraction" "is_exponent exponent" by simp_all
  then obtain c cs where c: "whole = c # cs" "is_digit c" by (cases whole) (auto simp: all_digits_def)
  note p = point_reads [OF w(2,3)] and e = exponent_reads(1) [OF w(3)]
  have h: "takeWhile is_digit (whole @ ?s) = whole" "dropWhile is_digit (whole @ ?s) = ?s"
    using digits_then [OF _ p(1), of whole] w(1) by (simp_all add: all_digits_def)
  have t: "trim (decimal_text d) = decimal_text d"
    using trim_plain [of "decimal_text d" "[]"] decimal_chars [OF assms] by (simp add: list_all_iff)
  have u: "unsigned_text (decimal_text d) = (neg, whole @ ?s)"
    using fields c digit_plain [OF c(2)] by (simp add: unsigned_text_def)
  have plus: "(if True \<and> \<not> neg then drop_plus (whole @ ?s) else whole @ ?s) = whole @ ?s"
    using c digit_plain [OF c(2)] by (simp add: drop_plus_def)
  have ne: "whole \<noteq> []" using c by simp
  have tail: "(if fraction \<noteq> [] then takeWhile is_digit (tl ?s) else []) = fraction"
    "(if fraction \<noteq> [] then dropWhile is_digit (tl ?s) else ?s) = exponent_text exponent"
    using p(3) by (auto simp: point_text_def)
  have "decimal_number True (decimal_text d) =
      Some ((if neg then - (of_nat (digits_value (whole @ fraction)) / 10 ^ length fraction)
        else of_nat (digits_value (whole @ fraction)) / 10 ^ length fraction) * power_ten (exponent_value exponent))"
    unfolding decimal_number_def u Let_def case_prod_conv plus h p(2) tail e
    using ne by simp
  then have "decimal_number True (decimal_text d) = Some (decimal_value d)" by (simp add: fields Let_def)
  then show ?thesis using decimal_nonempty [OF assms] unfolding number_of_text_def t by simp
qed

text \<open>C27: What the Windows script and the macOS helper print of three finite numbers reads back: with a
  point and an exponent or without, they are the fix, as exact decimals, whatever white space the line ends with.\<close>

theorem native_line_reads_back:
  assumes "is_decimal a" "is_decimal b" "is_decimal c" "list_all is_js_space ending"
  shows "parse_windows_fix (decimal_text a @ ''|'' @ decimal_text b @ ''|'' @ decimal_text c @ ending) =
    Some \<lparr>fx_latitude = decimal_value a, fx_longitude = decimal_value b, fx_accuracy = Some (decimal_value c)\<rparr>"
proof -
  let ?line = "decimal_text a @ ''|'' @ decimal_text b @ ''|'' @ decimal_text c"
  have bar: "CHR ''|'' \<notin> set (decimal_text d)" if "is_decimal d" for d using decimal_chars [OF that] by blast
  have space: "\<not> is_js_space (CHR ''|'')" by (simp add: is_js_space_def)
  have "list_all (\<lambda>c. \<not> is_js_space c) ?line"
    using decimal_chars [OF assms(1)] decimal_chars [OF assms(2)] decimal_chars [OF assms(3)] space
    by (auto simp: list_all_iff)
  from trim_plain [OF this assms(4)] have "trim (?line @ ending) = ?line" .
  moreover have "split_char (CHR ''|'') ?line = [decimal_text a, decimal_text b, decimal_text c]"
    using bar assms(1-3) by (simp add: split_char_append split_char_notin)
  ultimately show ?thesis using assms(1-3) by (simp add: parse_windows_fix_def decimal_reads)
qed

theorem native_line_reads_back_witness:
  "parse_windows_fix (''39.2238|-1E-05|25'' @ [CHR 0x0D, CHR 0x0A]) =
     Some \<lparr>fx_latitude = 392238 / 10000, fx_longitude = - 1 / 100000, fx_accuracy = Some 25\<rparr>"
  using native_line_reads_back [of "(False, ''39'', ''2238'', None)" "(True, ''1'', [], Some (CHR ''E'', ''-'', ''05''))"
      "(False, ''25'', [], None)" "[CHR 0x0D, CHR 0x0A]"]
  by (simp add: all_digits_def is_digit_def is_js_space_def digits_value_def point_text_def power_ten_def)

text \<open>A line without numbers is no failure: an empty part is zero, and the fix is off the coast of Africa.\<close>

lemma empty_line_is_a_fix: "parse_windows_fix ''||'' = Some \<lparr>fx_latitude = 0, fx_longitude = 0, fx_accuracy = Some 0\<rparr>"
  by (simp add: parse_windows_fix_def number_of_text_def trim_def is_js_space_def)

text \<open>A daemon that refuses to start the client: its error is the answer, not a machine without a fix.\<close>

definition refusing :: "unit runner" where
  "refusing command args w =
     (if last args = geoclue_client @ ''.Start'' then Inl ''denied''
      else Inr (''(objectpath '' @ [CHR 0x27] @ ''/c'' @ [CHR 0x27] @ '',)''), w)"

lemma answered_path: "parse_object_path (''(objectpath '' @ [CHR 0x27] @ ''/c'' @ [CHR 0x27] @ '',)'') = Some ''/c''"
  by code_simp

lemma refused_start_fails: "fst (linux_fix refusing (\<lambda>ms w. w) ()) = Inl ''denied''"
proof -
  have "gdbus refusing p [m, x] w = (if x = geoclue_client @ ''.Start'' then Inl ''denied''
      else Inr (''(objectpath '' @ [CHR 0x27] @ ''/c'' @ [CHR 0x27] @ '',)''), w)" for p m x w
    by (simp add: gdbus_def refusing_def)
  moreover have "client_property refusing p m [x, y] w =
     (if y = geoclue_client @ ''.Start'' then Inl ''denied'' else Inr (''(objectpath '' @ [CHR 0x27] @ ''/c'' @ [CHR 0x27] @ '',)''), w)"
    for p m x y w
    by (simp add: client_property_def gdbus_def refusing_def)
  ultimately show ?thesis
    by (simp add: linux_fix_def ran_bind_def answered_path [simplified] geoclue_client_def geoclue_accuracy_exact_def)
qed

end
