(* ===== verification/KeyedHold.thy ===== *)
theory KeyedHold
  imports Prelude
begin

section \<open>The keyed holds (holds/keyed-hold.ts)\<close>

text \<open>
  A bounded least-recently-written store: cells in insertion order, twelve at most.
  \<open>keyed_store\<close> is what its users rely on (a write is read back; a write to another key
  leaves a cell alone or evicts it), and the store is also shown to be the last twelve cells
  of an unbounded one.
\<close>

type_synonym 'v held = "(string \<times> 'v) list"

definition max_hold_cells :: nat where "max_hold_cells = 12"

definition create_keyed_hold_store :: "'v held" where
  "create_keyed_hold_store = []"

definition hold_read :: "string \<Rightarrow> 'v held \<Rightarrow> 'v option" where
  "hold_read key cells = map_of cells key"

definition hold_persist :: "string \<Rightarrow> 'v \<Rightarrow> 'v held \<Rightarrow> 'v held" where
  "hold_persist key v cells =
     (let cells = filter (\<lambda>c. fst c \<noteq> key) cells;
          cells = cells @ [(key, v)]
      in if length cells > max_hold_cells then tl cells else cells)"

definition agent_hold_key :: "string \<Rightarrow> string \<Rightarrow> string" where
  "agent_hold_key agent connection_key = agent @ [CHR 0x0A] @ connection_key"

subsection \<open>The contract\<close>

locale keyed_store =
  fixes empty :: 's
    and get :: "string \<Rightarrow> 's \<Rightarrow> 'v option"
    and put :: "string \<Rightarrow> 'v \<Rightarrow> 's \<Rightarrow> 's"
    and ok :: "'s \<Rightarrow> bool"
  assumes ok_empty: "ok empty"
    and ok_put: "ok s \<Longrightarrow> ok (put k v s)"
    and get_empty: "get k empty = None"
    and get_put_same: "ok s \<Longrightarrow> get k (put k v s) = Some v"
    and get_put_other: "ok s \<Longrightarrow> k' \<noteq> k \<Longrightarrow> get k' (put k v s) = get k' s \<or> get k' (put k v s) = None"
begin

definition writes :: "(string \<times> 'v) list \<Rightarrow> 's" where
  "writes ws = foldl (\<lambda>s (k, v). put k v s) empty ws"

lemma writes_snoc: "writes (ws @ [(k, v)]) = put k v (writes ws)"
  by (simp add: writes_def)

lemma ok_writes: "ok (writes ws)"
  by (induction ws rule: rev_induct) (auto simp: writes_snoc ok_put intro: ok_empty simp: writes_def)

text \<open>A cell that is there holds the last value written under its key.\<close>

lemma reads_last_write: "get k (writes ws) = Some v \<Longrightarrow> map_of (rev ws) k = Some v"
proof (induction ws rule: rev_induct)
  case (snoc w ws)
  obtain k' v' where w: "w = (k', v')" by (cases w)
  show ?case
  proof (cases "k' = k")
    case True
    then show ?thesis using snoc.prems get_put_same [OF ok_writes] by (simp add: w writes_snoc)
  next
    case False
    then have "get k (put k' v' (writes ws)) = get k (writes ws) \<or> get k (put k' v' (writes ws)) = None"
      using get_put_other [OF ok_writes] by metis
    with snoc.prems have "get k (writes ws) = Some v" by (auto simp: w writes_snoc)
    with snoc.IH False show ?thesis by (simp add: w)
  qed
qed (simp add: writes_def get_empty)

end

subsection \<open>The cells of the model\<close>

definition hold_ok :: "'v held \<Rightarrow> bool" where
  "hold_ok cells \<longleftrightarrow> distinct (map fst cells) \<and> length cells \<le> max_hold_cells"

lemma map_of_filter_neq: "map_of (filter (\<lambda>c. fst c \<noteq> k) ps) x = (if x = k then None else map_of ps x)"
  by (induction ps) auto

lemma hold_ok_persist:
  assumes "hold_ok cells"
  shows "hold_ok (hold_persist key v cells)"
proof -
  let ?g = "filter (\<lambda>c. fst c \<noteq> key) cells @ [(key, v)]"
  have d: "distinct (map fst ?g)" using assms by (auto simp: hold_ok_def distinct_map_filter_keep)
  then have "distinct (map fst (tl ?g))" unfolding map_tl by (rule distinct_tl)
  moreover have "length ?g \<le> Suc max_hold_cells"
    using assms le_trans [OF length_filter_le] by (auto simp: hold_ok_def)
  ultimately show ?thesis
    using d unfolding hold_ok_def hold_persist_def Let_def by (cases ?g) (simp_all split: if_splits)
qed

lemma map_of_tl: "distinct (map fst ps) \<Longrightarrow> map_of (tl ps) x = map_of ps x \<or> map_of (tl ps) x = None"
  by (cases ps) (auto simp: map_of_eq_None_iff rev_image_eqI)

lemma hold_read_same:
  assumes "hold_ok cells"
  shows "hold_read key (hold_persist key v cells) = Some v"
proof -
  let ?f = "filter (\<lambda>c. fst c \<noteq> key) cells"
  have "map_of ?f key = None" by (simp add: map_of_filter_neq)
  moreover have "map_of (tl ?f) key = None" by (cases ?f) (auto simp: map_of_eq_None_iff dest: filter_eq_ConsD)
  moreover have "?f \<noteq> []" if "length ?f \<ge> 12" using that by auto
  ultimately show ?thesis
    by (auto simp: hold_read_def hold_persist_def Let_def max_hold_cells_def map_add_def)
qed

lemma hold_read_other:
  assumes "hold_ok cells" "k' \<noteq> key"
  shows "hold_read k' (hold_persist key v cells) = hold_read k' cells \<or> hold_read k' (hold_persist key v cells) = None"
proof -
  let ?g = "filter (\<lambda>c. fst c \<noteq> key) cells @ [(key, v)]"
  have d: "distinct (map fst ?g)" using assms(1) by (auto simp: hold_ok_def distinct_map_filter_keep)
  have g: "map_of ?g k' = map_of cells k'"
    using assms(2) by (simp add: map_of_filter_neq map_add_def split: option.splits)
  from map_of_tl [OF d, of k'] g show ?thesis
    by (auto simp: hold_read_def hold_persist_def Let_def simp del: map_of_append)
qed

text \<open>A write never invents a cell's contents, and a write to a cell that is there evicts nothing.\<close>

lemma hold_persist_mem:
  "(k, v') \<in> set (hold_persist key v cells) \<Longrightarrow> (k = key \<and> v' = v) \<or> (k \<noteq> key \<and> (k, v') \<in> set cells)"
proof -
  have "set (hold_persist key v cells) \<subseteq> set (filter (\<lambda>c. fst c \<noteq> key) cells @ [(key, v)])"
    unfolding hold_persist_def Let_def by (cases "filter (\<lambda>c. fst c \<noteq> key) cells") auto
  then show "(k, v') \<in> set (hold_persist key v cells) \<Longrightarrow> ?thesis" by auto
qed

lemma hold_persist_in_place:
  assumes "hold_ok cells" "key \<in> fst ` set cells"
  shows "hold_persist key v cells = filter (\<lambda>c. fst c \<noteq> key) cells @ [(key, v)]"
proof -
  have "length (filter (\<lambda>c. fst c \<noteq> key) cells) < length cells"
    using assms(2) by (auto intro!: length_filter_less)
  with assms(1) show ?thesis by (simp add: hold_persist_def Let_def hold_ok_def)
qed

lemma hold_read_mem: "hold_read key cells = Some v \<Longrightarrow> (key, v) \<in> set cells"
  by (simp add: hold_read_def map_of_SomeD)

lemma hold_mem_read: "hold_ok cells \<Longrightarrow> (key, v) \<in> set cells \<Longrightarrow> hold_read key cells = Some v"
  by (simp add: hold_read_def hold_ok_def)

lemma hold_persist_others:
  assumes "hold_ok cells" "key \<in> fst ` set cells"
  shows "fst ` set (hold_persist key v cells) = fst ` set cells"
    and "k \<noteq> key \<Longrightarrow> hold_read k (hold_persist key v cells) = hold_read k cells"
  using assms unfolding hold_persist_in_place [OF assms]
  by (auto simp: hold_read_def map_of_filter_neq map_add_def image_iff split: option.splits)

lemma hold_create: "hold_ok create_keyed_hold_store" "hold_read k create_keyed_hold_store = None"
  by (simp_all add: hold_ok_def hold_read_def create_keyed_hold_store_def)

interpretation hold: keyed_store create_keyed_hold_store hold_read hold_persist hold_ok
  by unfold_locales (rule hold_create hold_ok_persist hold_read_same hold_read_other; assumption?)+

subsection \<open>The bounded store is the tail of the unbounded one\<close>

definition persist_all :: "(string \<times> 'v) list \<Rightarrow> 'v held" where
  "persist_all ws = foldl (\<lambda>s (k, v). hold_persist k v s) create_keyed_hold_store ws"

definition unbounded :: "(string \<times> 'v) list \<Rightarrow> 'v held" where
  "unbounded ws = foldl (\<lambda>s (k, v). filter (\<lambda>c. fst c \<noteq> k) s @ [(k, v)]) [] ws"

lemma unbounded_distinct: "distinct (map fst (unbounded ws))"
  by (induction ws rule: rev_induct) (auto simp: unbounded_def distinct_map_filter_keep)

lemma hold_writes: "hold.writes ws = persist_all ws"
  by (simp add: hold.writes_def persist_all_def)

lemma length_filter_key:
  "distinct (map fst ps) \<Longrightarrow> k \<in> fst ` set ps \<Longrightarrow> Suc (length (filter (\<lambda>c. fst c \<noteq> k) ps)) = length ps"
proof (induction ps)
  case (Cons p ps)
  show ?case
  proof (cases "fst p = k")
    case True
    with Cons.prems have "filter (\<lambda>c. fst c \<noteq> k) ps = ps" by (auto simp: filter_id_conv image_iff)
    with True show ?thesis by simp
  next
    case False
    with Cons have "Suc (length (filter (\<lambda>c. fst c \<noteq> k) ps)) = length ps" by auto
    with False show ?thesis by simp
  qed
qed simp

lemma last_n_append_one: "0 < n \<Longrightarrow> last_n n (xs @ [x]) = last_n (n - 1) xs @ [x]"
  by (cases n) (simp_all add: last_n_def)

lemma last_n_append: "length ys \<le> n \<Longrightarrow> last_n n (xs @ ys) = last_n (n - length ys) xs @ ys"
  by (simp add: last_n_def)

lemma last_n_tail: "last_n n xs = (if length xs > n then tl (last_n (Suc n) xs) else last_n (Suc n) xs)"
  by (auto simp: last_n_def tl_drop drop_Suc [symmetric] Suc_diff_Suc)

lemma persist_tail:
  assumes "distinct (map fst u)"
  shows "hold_persist k v (last_n max_hold_cells u) = last_n max_hold_cells (filter (\<lambda>c. fst c \<noteq> k) u @ [(k, v)])"
proof -
  let ?t = "last_n 12 u" and ?n = "\<lambda>c. fst c \<noteq> k"
  obtain a where u: "u = a @ ?t" using last_n_suffix by blast
  have rhs: "last_n 12 (filter ?n u @ [(k, v)]) = last_n 11 (filter ?n u) @ [(k, v)]"
    using last_n_append_one [of 12 "filter ?n u" "(k, v)"] by simp
  have split: "filter ?n u = filter ?n a @ filter ?n ?t" by (metis filter_append u)
  show ?thesis
  proof (cases "k \<in> fst ` set ?t")
    case True
    have dt: "distinct (map fst ?t)" using assms by (rule distinct_map_last_n)
    have l: "Suc (length (filter ?n ?t)) = length ?t" by (rule length_filter_key [OF dt True])
    have "last_n 11 (filter ?n u) = filter ?n ?t"
    proof (cases "length u \<le> 12")
      case True
      then have "?t = u" by simp
      with l True show ?thesis by simp
    next
      case False
      then have "length (filter ?n ?t) = 11" using l by simp
      then show ?thesis unfolding split by (subst last_n_append) (simp_all add: last_n_def)
    qed
    moreover have "length (filter ?n ?t) \<le> 11" using l by simp
    ultimately show ?thesis
      unfolding max_hold_cells_def rhs by (simp add: hold_persist_def max_hold_cells_def Let_def)
  next
    case False
    then have ft: "filter ?n ?t = ?t" by (auto simp: filter_id_conv image_iff)
    show ?thesis
    proof (cases "length u \<ge> 12")
      case True
      then have "length ?t = 12" by simp
      moreover have "last_n 11 (filter ?n u) = tl ?t"
        unfolding split ft using last_n_tail [of 11 "filter ?n a @ ?t"] last_n_append [of ?t 12 "filter ?n a"]
          \<open>length ?t = 12\<close> by (simp add: last_n_def)
      moreover have "?t \<noteq> []" using \<open>length ?t = 12\<close> by (metis list.size(3) zero_neq_numeral)
      ultimately show ?thesis
        unfolding max_hold_cells_def rhs by (simp add: hold_persist_def max_hold_cells_def Let_def ft)
    next
      case F: False
      then have "?t = u" by simp
      with ft F show ?thesis
        unfolding max_hold_cells_def rhs by (simp add: hold_persist_def max_hold_cells_def Let_def)
    qed
  qed
qed

lemma persist_all_tail: "persist_all ws = last_n max_hold_cells (unbounded ws)"
proof (induction ws rule: rev_induct)
  case Nil
  show ?case by (simp add: persist_all_def unbounded_def create_keyed_hold_store_def)
next
  case (snoc w ws)
  obtain k v where w: "w = (k, v)" by (cases w)
  have "persist_all (ws @ [w]) = hold_persist k v (persist_all ws)" by (simp add: persist_all_def w)
  also have "\<dots> = last_n max_hold_cells (filter (\<lambda>c. fst c \<noteq> k) (unbounded ws) @ [(k, v)])"
    unfolding snoc by (rule persist_tail [OF unbounded_distinct])
  finally show ?case by (simp add: unbounded_def w)
qed

lemma agent_hold_key_inj:
  assumes "CHR 0x0A \<notin> set a" "CHR 0x0A \<notin> set b" "agent_hold_key a x = agent_hold_key b y"
  shows "a = b \<and> x = y"
proof -
  have "split_char (CHR 0x0A) (agent_hold_key a x) = a # split_char (CHR 0x0A) x"
    "split_char (CHR 0x0A) (agent_hold_key b y) = b # split_char (CHR 0x0A) y"
    using assms(1,2) by (simp_all add: agent_hold_key_def split_char_append)
  with assms(3) have "a = b" by simp
  with assms(3) show ?thesis by (simp add: agent_hold_key_def)
qed

subsection \<open>Properties\<close>

text \<open>The hold store is exactly the twelve most recently written keys of an unbounded store,
  each with its latest value: nothing newer is ever evicted before something older.\<close>

theorem hold_keeps_latest_twelve:
  "persist_all ws = last_n 12 (unbounded ws)"
  using persist_all_tail [of ws] by (simp add: max_hold_cells_def)

text \<open>A view never seeds from another agent's or another gateway's data: what is read for an
  agent on a connection is the value last written for that agent on that connection.\<close>

theorem hold_seeds_own_agent_only:
  assumes "hold_read (agent_hold_key agent conn) (persist_all (map (\<lambda>(a, c, v). (agent_hold_key a c, v)) ws)) = Some v"
    and "CHR 0x0A \<notin> set agent" "\<forall>w \<in> set ws. CHR 0x0A \<notin> set (fst w)"
  shows "map_of (map (\<lambda>(a, c, v). ((a, c), v)) (rev ws)) (agent, conn) = Some v"
proof -
  have "map_of (rev (map (\<lambda>(a, c, v). (agent_hold_key a c, v)) ws)) (agent_hold_key agent conn) = Some v"
    by (rule hold.reads_last_write [unfolded hold_writes, OF assms(1)])
  then have "map_of (map (\<lambda>(a, c, v). (agent_hold_key a c, v)) (rev ws)) (agent_hold_key agent conn) = Some v"
    by (simp add: rev_map)
  moreover have "map_of (map (\<lambda>(a, c, v). (agent_hold_key a c, v)) us) (agent_hold_key agent conn) =
      map_of (map (\<lambda>(a, c, v). ((a, c), v)) us) (agent, conn)"
    if "\<forall>w \<in> set us. CHR 0x0A \<notin> set (fst w)" for us :: "(string \<times> string \<times> 'a) list"
    using that by (induction us) (auto dest: agent_hold_key_inj [OF assms(2)] agent_hold_key_inj [OF _ assms(2)])
  ultimately show ?thesis using assms(3) by (metis set_rev)
qed

theorem hold_seeds_own_agent_only_witness:
  "map_of (map (\<lambda>(a, c, v). ((a, c), v)) (rev [(''a'', ''g1'', 1 :: nat), (''a'', ''g2'', 2), (''a'', ''g1'', 3)]))
     (''a'', ''g1'') = Some 3"
  by (rule hold_seeds_own_agent_only)
    (simp_all add: persist_all_def hold_persist_def hold_read_def create_keyed_hold_store_def agent_hold_key_def
      max_hold_cells_def)

end
