(* ===== verification/Upload.thy ===== *)
theory Upload
  imports Attachments
begin

section \<open>The chunked upload engine (attachments/upload.ts)\<close>

text \<open>
  One run of \<open>uploadAttachment\<close> as a machine over its await points.  An event is a settled
  request, a fired timer, the online edge, a call of \<open>abort\<close>, or \<open>Resume\<close>: the code that
  follows a callback synchronously, kept apart because the callback may call \<open>abort\<close> itself.
  The last part composes the run with the staging store of the app-chat service
  (agent/skills/app-chat/cli/src/app_chat_cli/attachments.py) over a network that may delay,
  repeat or lose every request and every response.
\<close>

subsection \<open>State, events and outputs\<close>

record upload_meta =
  um_name :: string
  um_mime :: string
  um_size :: nat
  um_width :: "jsnum option"
  um_height :: "jsnum option"
  um_duration_secs :: "jsnum option"

datatype upload_run_state = RunUploading | RunWaiting

text \<open>What a rejected request throws: an \<open>ApiError\<close> with its status, or anything else.\<close>

datatype thrown = ApiStatus nat | OtherThrown

datatype verdict = Retryable | Terminal upload_error_reason

definition classify :: "thrown \<Rightarrow> verdict" where
  "classify err =
     (case err of
        ApiStatus status \<Rightarrow>
          (if status = 408 \<or> status = 429 \<or> status \<ge> 500 then Retryable
           else if status = 413 then Terminal TooLarge
           else Terminal UploadFailed)
      | OtherThrown \<Rightarrow> Retryable)"

text \<open>Where a park returns to: the loop of \<open>createSession\<close>, of \<open>sendChunks\<close> or of \<open>complete\<close>.\<close>

datatype parked = ParkCreate nat | ParkSend nat | ParkComplete nat

datatype upload_phase =
  Creating nat
| LoopTop
| Putting nat
| Probing
| Parking parked
| Sleeping parked
| AwaitOnline parked
| Unparking parked
| Recovering
| Completing nat
| Resolved chat_attachment
| Rejected upload_error_reason

record 'b upload =
  up_meta :: upload_meta
  up_blob :: "'b list"
  up_phase :: upload_phase
  up_aborted :: bool
  up_id :: string
  up_offset :: nat
  up_chunk_bytes :: nat
  up_attempt :: nat

datatype upload_event =
  Resume bool
| CreateOk string
| CreateFailed thrown
| PutOk nat
| PutFailed thrown
| StatusOk nat bool
| StatusFailed thrown
| CompleteOk chat_attachment
| CompleteFailed thrown
| SleepOver
| OnlineEdge
| AbortCall

datatype 'b upload_out =
  OnStateChange upload_run_state
| OnProgress nat nat
| PostCreate
| PutChunk string nat "'b list"
| GetStatus string
| PostComplete string
| StartSleep nat
| ListenOnline
| StopSleep
| StopListening
| SignalRun
| SignalChunk
| Resolve chat_attachment
| Reject upload_error_reason

type_synonym 'b upload_result = "'b upload \<times> 'b upload_out list"

subsection \<open>The steps\<close>

definition upload_reject :: "upload_error_reason \<Rightarrow> 'b upload \<Rightarrow> 'b upload_result" where
  "upload_reject reason s = (s\<lparr>up_phase := Rejected reason\<rparr>, [Reject reason])"

definition unless_aborted :: "('b upload \<Rightarrow> 'b upload_result) \<Rightarrow> 'b upload \<Rightarrow> 'b upload_result" where
  "unless_aborted f s = (if up_aborted s then upload_reject UploadAborted s else f s)"

definition backoff_ms :: "nat \<Rightarrow> nat" where
  "backoff_ms attempt = min (retry_base_ms * 2 ^ attempt) retry_max_ms"

definition park :: "parked \<Rightarrow> 'b upload \<Rightarrow> 'b upload_result" where
  "park k s = (s\<lparr>up_phase := Parking k\<rparr>, [OnStateChange RunWaiting])"

definition park_attempt :: "parked \<Rightarrow> nat" where
  "park_attempt k = (case k of ParkCreate n \<Rightarrow> n | ParkSend n \<Rightarrow> n | ParkComplete n \<Rightarrow> n)"

definition park_wait :: "bool \<Rightarrow> parked \<Rightarrow> 'b upload \<Rightarrow> 'b upload_result" where
  "park_wait online k s =
     (if online then (s\<lparr>up_phase := Sleeping k\<rparr>, [StartSleep (backoff_ms (park_attempt k))])
      else (s\<lparr>up_phase := AwaitOnline k\<rparr>, [ListenOnline]))"

definition park_over :: "parked \<Rightarrow> 'b upload \<Rightarrow> 'b upload_result" where
  "park_over k = unless_aborted (\<lambda>s. (s\<lparr>up_phase := Unparking k\<rparr>, [OnStateChange RunUploading]))"

definition create_loop :: "nat \<Rightarrow> 'b upload \<Rightarrow> 'b upload_result" where
  "create_loop attempt = unless_aborted (\<lambda>s. (s\<lparr>up_phase := Creating attempt\<rparr>, [PostCreate]))"

definition complete_loop :: "nat \<Rightarrow> 'b upload \<Rightarrow> 'b upload_result" where
  "complete_loop attempt =
     unless_aborted (\<lambda>s. (s\<lparr>up_phase := Completing attempt\<rparr>, [PostComplete (up_id s)]))"

definition slice :: "nat \<Rightarrow> nat \<Rightarrow> 'b list \<Rightarrow> 'b list" where
  "slice i j xs = take (j - i) (drop i xs)"

definition next_chunk :: "'b upload \<Rightarrow> 'b list" where
  "next_chunk s = slice (up_offset s) (min (up_offset s + up_chunk_bytes s) (um_size (up_meta s))) (up_blob s)"

definition send_loop :: "'b upload \<Rightarrow> 'b upload_result" where
  "send_loop s =
     (if up_offset s < um_size (up_meta s)
      then unless_aborted
             (\<lambda>s. (s\<lparr>up_phase := Putting (length (next_chunk s))\<rparr>, [PutChunk (up_id s) (up_offset s) (next_chunk s)])) s
      else complete_loop 0 s)"

definition probe_offset :: "upload_phase \<Rightarrow> 'b upload \<Rightarrow> 'b upload_result" where
  "probe_offset ph s = (s\<lparr>up_phase := ph\<rparr>, [GetStatus (up_id s)])"

definition unpark :: "parked \<Rightarrow> 'b upload \<Rightarrow> 'b upload_result" where
  "unpark k s =
     (case k of
        ParkCreate n \<Rightarrow> create_loop (n + 1) s
      | ParkSend n \<Rightarrow> probe_offset Recovering (s\<lparr>up_attempt := n + 1\<rparr>)
      | ParkComplete n \<Rightarrow> complete_loop (n + 1) s)"

definition upload_resume :: "bool \<Rightarrow> 'b upload \<Rightarrow> 'b upload_result" where
  "upload_resume online s =
     (case up_phase s of
        LoopTop \<Rightarrow> send_loop s
      | Parking k \<Rightarrow> park_wait online k s
      | Unparking k \<Rightarrow> unpark k s
      | _ \<Rightarrow> (s, []))"

definition retry_or_reject :: "thrown \<Rightarrow> parked \<Rightarrow> 'b upload \<Rightarrow> 'b upload_result" where
  "retry_or_reject err k s =
     (case classify err of Retryable \<Rightarrow> park k s | Terminal reason \<Rightarrow> upload_reject reason s)"

definition create_ok :: "string \<Rightarrow> 'b upload \<Rightarrow> 'b upload_result" where
  "create_ok ident s =
     (s\<lparr>up_phase := LoopTop, up_id := ident, up_offset := 0,
        up_chunk_bytes := min initial_chunk_bytes max_chunk_upload_bytes, up_attempt := 0\<rparr>,
      [OnProgress 0 (um_size (up_meta s))])"

definition create_failed :: "thrown \<Rightarrow> nat \<Rightarrow> 'b upload \<Rightarrow> 'b upload_result" where
  "create_failed err attempt = unless_aborted
     (\<lambda>s. if err = ApiStatus 404 then upload_reject UnsupportedAgent s
          else retry_or_reject err (ParkCreate attempt) s)"

definition put_ok :: "nat \<Rightarrow> nat \<Rightarrow> 'b upload \<Rightarrow> 'b upload_result" where
  "put_ok elapsed sent s =
     (s\<lparr>up_phase := LoopTop, up_offset := up_offset s + sent, up_attempt := 0,
        up_chunk_bytes :=
          (if elapsed < chunk_fast_ms then min (up_chunk_bytes s * 2) max_chunk_upload_bytes else up_chunk_bytes s)\<rparr>,
      [OnProgress (up_offset s + sent) (um_size (up_meta s))])"

definition put_failed :: "thrown \<Rightarrow> 'b upload \<Rightarrow> 'b upload_result" where
  "put_failed err = unless_aborted
     (\<lambda>s. if err = ApiStatus 409 then probe_offset Probing s
          else case classify err of
                 Terminal reason \<Rightarrow> upload_reject reason s
               | Retryable \<Rightarrow>
                   park (ParkSend (up_attempt s))
                     (s\<lparr>up_chunk_bytes := max (up_chunk_bytes s div 2) min_chunk_bytes\<rparr>))"

text \<open>\<open>probeOffset\<close>: where to continue, by the server's answer.\<close>

definition staged_offset :: "nat \<Rightarrow> bool \<Rightarrow> 'b upload \<Rightarrow> nat" where
  "staged_offset received finalized s = (if finalized then um_size (up_meta s) else received)"

definition adopt_offset :: "nat \<Rightarrow> 'b upload \<Rightarrow> 'b upload_result" where
  "adopt_offset staged s =
     (s\<lparr>up_phase := LoopTop, up_offset := staged\<rparr>,
      [OnProgress (min staged (um_size (up_meta s))) (um_size (up_meta s))])"

definition probe_failed :: "thrown \<Rightarrow> 'b upload \<Rightarrow> 'b upload_result" where
  "probe_failed err = unless_aborted (\<lambda>s. retry_or_reject err (ParkSend (up_attempt s)) s)"

definition complete_failed :: "thrown \<Rightarrow> nat \<Rightarrow> 'b upload \<Rightarrow> 'b upload_result" where
  "complete_failed err attempt = unless_aborted
     (\<lambda>s. if err = ApiStatus 409 then upload_reject UploadFailed s
          else retry_or_reject err (ParkComplete attempt) s)"

definition upload_abort :: "'b upload \<Rightarrow> 'b upload_result" where
  "upload_abort s =
     (if up_aborted s then (s, [])
      else let s = s\<lparr>up_aborted := True\<rparr>
           in case up_phase s of
                Putting n \<Rightarrow> (s, [SignalRun, SignalChunk])
              | Sleeping k \<Rightarrow> chain (s, [SignalRun, StopSleep]) (upload_reject UploadAborted)
              | AwaitOnline k \<Rightarrow> chain (s, [SignalRun, StopListening]) (upload_reject UploadAborted)
              | _ \<Rightarrow> (s, [SignalRun]))"

fun upload_step :: "'b upload \<Rightarrow> upload_event \<Rightarrow> 'b upload_result" where
  "upload_step s (Resume online) = upload_resume online s"
| "upload_step s (CreateOk ident) = create_ok ident s"
| "upload_step s (CreateFailed err) =
     (case up_phase s of Creating n \<Rightarrow> create_failed err n s | _ \<Rightarrow> (s, []))"
| "upload_step s (PutOk elapsed) =
     (case up_phase s of Putting sent \<Rightarrow> put_ok elapsed sent s | _ \<Rightarrow> (s, []))"
| "upload_step s (PutFailed err) = put_failed err s"
| "upload_step s (StatusOk received finalized) = adopt_offset (staged_offset received finalized s) s"
| "upload_step s (StatusFailed err) =
     (case up_phase s of Recovering \<Rightarrow> (s\<lparr>up_phase := LoopTop\<rparr>, []) | _ \<Rightarrow> probe_failed err s)"
| "upload_step s (CompleteOk a) = (s\<lparr>up_phase := Resolved a\<rparr>, [Resolve a])"
| "upload_step s (CompleteFailed err) =
     (case up_phase s of Completing n \<Rightarrow> complete_failed err n s | _ \<Rightarrow> (s, []))"
| "upload_step s SleepOver = (case up_phase s of Sleeping k \<Rightarrow> park_over k s | _ \<Rightarrow> (s, []))"
| "upload_step s OnlineEdge = (case up_phase s of AwaitOnline k \<Rightarrow> park_over k s | _ \<Rightarrow> (s, []))"
| "upload_step s AbortCall = upload_abort s"

text \<open>What can happen in a state: the settling of the one awaited promise, or a call of \<open>abort\<close>.\<close>

fun upload_enabled :: "'b upload \<Rightarrow> upload_event \<Rightarrow> bool" where
  "upload_enabled s (Resume online) =
     (case up_phase s of LoopTop \<Rightarrow> True | Parking k \<Rightarrow> True | Unparking k \<Rightarrow> True | _ \<Rightarrow> False)"
| "upload_enabled s (CreateOk ident) = (case up_phase s of Creating n \<Rightarrow> True | _ \<Rightarrow> False)"
| "upload_enabled s (CreateFailed err) = (case up_phase s of Creating n \<Rightarrow> True | _ \<Rightarrow> False)"
| "upload_enabled s (PutOk elapsed) = (case up_phase s of Putting n \<Rightarrow> True | _ \<Rightarrow> False)"
| "upload_enabled s (PutFailed err) = (case up_phase s of Putting n \<Rightarrow> True | _ \<Rightarrow> False)"
| "upload_enabled s (StatusOk r f) = (up_phase s = Probing \<or> up_phase s = Recovering)"
| "upload_enabled s (StatusFailed err) = (up_phase s = Probing \<or> up_phase s = Recovering)"
| "upload_enabled s (CompleteOk a) = (case up_phase s of Completing n \<Rightarrow> True | _ \<Rightarrow> False)"
| "upload_enabled s (CompleteFailed err) = (case up_phase s of Completing n \<Rightarrow> True | _ \<Rightarrow> False)"
| "upload_enabled s SleepOver = (case up_phase s of Sleeping k \<Rightarrow> True | _ \<Rightarrow> False)"
| "upload_enabled s OnlineEdge = (case up_phase s of AwaitOnline k \<Rightarrow> True | _ \<Rightarrow> False)"
| "upload_enabled s AbortCall = True"

definition upload_attachment :: "'b list \<Rightarrow> upload_meta \<Rightarrow> 'b upload_result" where
  "upload_attachment blob meta =
     (let s = \<lparr>up_meta = meta, up_blob = blob, up_phase = Creating 0, up_aborted = False, up_id = [],
               up_offset = 0, up_chunk_bytes = min initial_chunk_bytes max_chunk_upload_bytes, up_attempt = 0\<rparr>
      in if um_size meta > max_attachment_bytes then upload_reject TooLarge s
         else chain (s, [OnStateChange RunUploading]) (create_loop 0))"

subsection \<open>Invariants of a run\<close>

definition upload_inv :: "'b upload \<Rightarrow> bool" where
  "upload_inv s \<longleftrightarrow> min_chunk_bytes \<le> up_chunk_bytes s \<and> up_chunk_bytes s \<le> max_chunk_upload_bytes \<and>
     (\<forall>n. up_phase s = Putting n \<longrightarrow> n = length (next_chunk s))"

lemmas upload_defs = upload_reject_def unless_aborted_def park_def park_wait_def park_over_def create_loop_def
  complete_loop_def send_loop_def probe_offset_def unpark_def upload_resume_def retry_or_reject_def
  create_ok_def create_failed_def put_ok_def put_failed_def adopt_offset_def probe_failed_def
  complete_failed_def upload_abort_def

lemmas upload_splits = if_splits upload_phase.splits parked.splits verdict.splits

lemma next_chunk_phase [simp]:
  "next_chunk (s\<lparr>up_phase := p\<rparr>) = next_chunk s" "next_chunk (s\<lparr>up_aborted := b\<rparr>) = next_chunk s"
  by (simp_all add: next_chunk_def)

lemma chunk_constants:
  "min_chunk_bytes \<le> initial_chunk_bytes" "initial_chunk_bytes \<le> max_chunk_upload_bytes" "0 < min_chunk_bytes"
  by (simp_all add: min_chunk_bytes_def initial_chunk_bytes_def max_chunk_upload_bytes_def)

lemma step_chunk_bounds:
  assumes "min_chunk_bytes \<le> up_chunk_bytes s" "up_chunk_bytes s \<le> max_chunk_upload_bytes"
  shows "min_chunk_bytes \<le> up_chunk_bytes (fst (upload_step s e)) \<and>
    up_chunk_bytes (fst (upload_step s e)) \<le> max_chunk_upload_bytes"
  using assms chunk_constants
  by (cases e) (auto simp: upload_defs chain_def Let_def split: upload_splits)

lemma step_putting:
  assumes "\<forall>n. up_phase s = Putting n \<longrightarrow> n = length (next_chunk s)"
  shows "\<forall>n. up_phase (fst (upload_step s e)) = Putting n \<longrightarrow> n = length (next_chunk (fst (upload_step s e)))"
  using assms
  by (cases e) (auto simp: upload_defs chain_def Let_def split: upload_splits)

lemma step_upload_inv: "upload_inv s \<Longrightarrow> upload_inv (fst (upload_step s e))"
  unfolding upload_inv_def using step_chunk_bounds [of s e] step_putting [of s e] by blast

interpretation uploading: machine upload_step upload_enabled upload_inv
  by unfold_locales (rule step_upload_inv)

lemma upload_inv_start [wf_intros]: "upload_inv (fst (upload_attachment blob meta))"
  using chunk_constants
  by (simp add: upload_attachment_def upload_inv_def upload_defs Let_def min_def)

lemma upload_file_kept [simp]:
  "up_meta (fst (upload_step s e)) = up_meta s" "up_blob (fst (upload_step s e)) = up_blob s"
  by (cases e; auto simp: upload_defs chain_def Let_def split: upload_splits)+

lemma upload_start_file [simp]:
  "up_meta (fst (upload_attachment blob meta)) = meta" "up_blob (fst (upload_attachment blob meta)) = blob"
  by (simp_all add: upload_attachment_def upload_defs Let_def)

lemma upload_run_file [simp]:
  "up_meta (fst (run_events upload_step s es)) = up_meta s" "up_blob (fst (run_events upload_step s es)) = up_blob s"
  by (rule run_events_view [where v = up_meta], simp) (rule run_events_view [where v = up_blob], simp)

text \<open>Every chunk put is the blob's own bytes at its offset, within the server's limit.\<close>

fun put_ok_for :: "'b list \<Rightarrow> nat \<Rightarrow> 'b upload_out \<Rightarrow> bool" where
  "put_ok_for blob n (PutChunk i off bs) =
     (bs = take (length bs) (drop off blob) \<and> length bs \<le> max_chunk_upload_bytes \<and> off < n)"
| "put_ok_for blob n x = True"

lemma next_chunk_slice:
  "next_chunk s = take (length (next_chunk s)) (drop (up_offset s) (up_blob s))"
proof -
  have "take n xs = take (length (take n xs)) xs" for n and xs :: "'a list" by (cases "n \<le> length xs") auto
  then show ?thesis unfolding next_chunk_def slice_def .
qed

lemma length_next_chunk: "length (next_chunk s) \<le> up_chunk_bytes s"
  by (simp add: next_chunk_def slice_def)

lemma send_loop_puts:
  "upload_inv s \<Longrightarrow> x \<in> set (snd (send_loop s)) \<Longrightarrow> put_ok_for (up_blob s) (um_size (up_meta s)) x"
  using length_next_chunk [of s] next_chunk_slice [of s]
  by (auto simp: send_loop_def unless_aborted_def upload_reject_def complete_loop_def upload_inv_def split: if_splits)

lemma step_puts:
  assumes "upload_inv s" "x \<in> set (snd (upload_step s e))"
  shows "put_ok_for (up_blob s) (um_size (up_meta s)) x"
proof (cases "\<exists>b. e = Resume b \<and> up_phase s = LoopTop")
  case True
  then show ?thesis using send_loop_puts [OF assms(1)] assms(2) by (auto simp: upload_resume_def)
next
  case False
  then show ?thesis using assms(2)
    by (cases e)
      (auto simp: upload_resume_def upload_reject_def unless_aborted_def park_def park_wait_def park_over_def
        create_loop_def complete_loop_def probe_offset_def unpark_def retry_or_reject_def create_ok_def
        create_failed_def put_ok_def put_failed_def adopt_offset_def probe_failed_def complete_failed_def
        upload_abort_def chain_def Let_def split: upload_splits)
qed

text \<open>A chunk is never empty while the file is as long as declared.\<close>

lemma next_chunk_nonempty:
  assumes "upload_inv s" "length (up_blob s) = um_size (up_meta s)" "up_offset s < um_size (up_meta s)"
  shows "length (next_chunk s) = min (up_chunk_bytes s) (um_size (up_meta s) - up_offset s)" "0 < length (next_chunk s)"
proof -
  have "0 < up_chunk_bytes s" using assms(1) chunk_constants by (simp add: upload_inv_def)
  then show "length (next_chunk s) = min (up_chunk_bytes s) (um_size (up_meta s) - up_offset s)"
    "0 < length (next_chunk s)"
    using assms(2,3) by (auto simp: next_chunk_def slice_def min_def)
qed

subsection \<open>The back-off\<close>

lemma backoff_bounds: "retry_base_ms \<le> backoff_ms n" "backoff_ms n \<le> retry_max_ms"
  by (auto simp: backoff_ms_def retry_base_ms_def retry_max_ms_def)

lemma backoff_values: "map backoff_ms [0, 1, 2, 3, 4, 5, 6] = [1000, 2000, 4000, 8000, 16000, 30000, 30000]"
  by (simp add: backoff_ms_def retry_base_ms_def retry_max_ms_def)

subsection \<open>Aborting\<close>

lemma aborted_stays: "up_aborted s \<Longrightarrow> up_aborted (fst (upload_step s e))"
  by (cases e) (auto simp: upload_defs chain_def Let_def split: upload_splits)

fun is_transfer :: "'b upload_out \<Rightarrow> bool" where
  "is_transfer PostCreate = True"
| "is_transfer (PutChunk i off bs) = True"
| "is_transfer (PostComplete i) = True"
| "is_transfer x = False"

lemma aborted_silent: "up_aborted s \<Longrightarrow> filter is_transfer (snd (upload_step s e)) = []"
  by (cases e) (auto simp: upload_defs chain_def Let_def split: upload_splits)

lemma aborted_run_silent:
  "up_aborted s \<Longrightarrow> filter is_transfer (snd (run_events upload_step s es)) = []"
  by (induction es arbitrary: s) (simp_all add: aborted_silent aborted_stays)

lemma abort_call_aborts: "up_aborted (fst (upload_step s AbortCall))"
  by (auto simp: upload_abort_def upload_reject_def chain_def Let_def split: upload_phase.splits)

text \<open>What the platform delivers after an abort: the rejection of the request in flight.\<close>

fun cancelled :: "upload_phase \<Rightarrow> upload_event list" where
  "cancelled (Creating n) = [CreateFailed OtherThrown]"
| "cancelled (Putting n) = [PutFailed OtherThrown]"
| "cancelled Probing = [StatusFailed OtherThrown]"
| "cancelled Recovering = [StatusFailed OtherThrown, Resume True]"
| "cancelled (Completing n) = [CompleteFailed OtherThrown]"
| "cancelled LoopTop = [Resume True]"
| "cancelled x = []"

fun can_be_parked :: "upload_phase \<Rightarrow> bool" where
  "can_be_parked (Parking k) = True"
| "can_be_parked (Unparking k) = True"
| "can_be_parked (Resolved a) = True"
| "can_be_parked (Rejected r) = True"
| "can_be_parked x = False"

lemma abort_rejects:
  "\<not> up_aborted s \<Longrightarrow> \<not> can_be_parked (up_phase s) \<Longrightarrow>
    up_phase (fst (run_events upload_step s (AbortCall # cancelled (up_phase s)))) = Rejected UploadAborted"
  by (cases "up_phase s") (simp_all add: upload_defs chain_def Let_def)

text \<open>An abort made by the waiting callback itself finds nothing to wake: the run still parks,
  for the whole back-off or until the next online edge.\<close>

lemma abort_in_waiting_callback_still_parks:
  assumes "up_phase s = Parking k" "\<not> up_aborted s"
  shows "up_phase (fst (run_events upload_step s [AbortCall, Resume True])) = Sleeping k"
    and "up_phase (fst (run_events upload_step s [AbortCall, Resume False])) = AwaitOnline k"
  using assms by (simp_all add: upload_defs Let_def)

subsection \<open>With a server that takes every chunk\<close>

definition rounds :: "nat list \<Rightarrow> upload_event list" where
  "rounds es = concat (map (\<lambda>elapsed. [Resume True, PutOk elapsed]) es)"

fun put_bytes :: "'b upload_out list \<Rightarrow> 'b list" where
  "put_bytes [] = []"
| "put_bytes (PutChunk i off bs # os) = bs @ put_bytes os"
| "put_bytes (x # os) = put_bytes os"

lemma put_bytes_append [simp]: "put_bytes (xs @ ys) = put_bytes xs @ put_bytes ys"
  by (induction xs rule: put_bytes.induct) simp_all

lemma rounds_after_last:
  assumes "up_phase s = Completing n"
  shows "up_phase (fst (run_events upload_step s (rounds es @ [Resume True]))) = Completing n \<and>
    put_bytes (snd (run_events upload_step s (rounds es @ [Resume True]))) = []"
proof -
  have quiet: "upload_step s (Resume True) = (s, [])" "upload_step s (PutOk e) = (s, [])" for e
    using assms by (simp_all add: upload_resume_def)
  show ?thesis using assms
    by (induction es) (simp_all add: rounds_def quiet del: upload_step.simps)
qed

lemma loop_top_end:
  assumes "up_phase s = LoopTop" "\<not> up_aborted s" "\<not> up_offset s < um_size (up_meta s)"
  shows "up_phase (fst (run_events upload_step s (rounds es @ [Resume True]))) = Completing 0 \<and>
    put_bytes (snd (run_events upload_step s (rounds es @ [Resume True]))) = []"
proof -
  let ?s = "s\<lparr>up_phase := Completing 0\<rparr>"
  have top: "upload_step s (Resume True) = (?s, [PostComplete (up_id s)])"
    using assms by (simp add: upload_resume_def send_loop_def complete_loop_def unless_aborted_def)
  have put: "upload_step ?s (PutOk e) = (?s, [])" for e by simp
  show ?thesis
  proof (cases es)
    case Nil
    then show ?thesis by (simp add: rounds_def top del: upload_step.simps)
  next
    case (Cons e es')
    have split: "rounds es @ [Resume True] = Resume True # PutOk e # (rounds es' @ [Resume True])"
      by (simp add: rounds_def Cons)
    have "up_phase ?s = Completing 0" by simp
    from rounds_after_last [OF this, of es'] show ?thesis
      unfolding split run_events_Cons top fst_conv snd_conv put by simp
  qed
qed

lemma one_round:
  assumes "up_phase s = LoopTop" "\<not> up_aborted s" "up_offset s < um_size (up_meta s)"
  shows "run_events upload_step s [Resume True, PutOk e] =
    chain (s\<lparr>up_phase := Putting (length (next_chunk s))\<rparr>, [PutChunk (up_id s) (up_offset s) (next_chunk s)])
      (put_ok e (length (next_chunk s)))"
  using assms
  by (simp add: run_events.simps(2) upload_resume_def send_loop_def unless_aborted_def chain_def split_beta)

lemma rounds_send_the_rest:
  assumes "upload_inv s" "up_phase s = LoopTop" "\<not> up_aborted s"
    "length (up_blob s) = um_size (up_meta s)" "um_size (up_meta s) - up_offset s \<le> length es * min_chunk_bytes"
  shows "up_phase (fst (run_events upload_step s (rounds es @ [Resume True]))) = Completing 0 \<and>
    put_bytes (snd (run_events upload_step s (rounds es @ [Resume True]))) = drop (up_offset s) (up_blob s)"
  using assms
proof (induction es arbitrary: s)
  case Nil
  then show ?case using loop_top_end [of s "[]"] by simp
next
  case (Cons e es)
  show ?case
  proof (cases "up_offset s < um_size (up_meta s)")
    case False
    with loop_top_end [of s "e # es"] Cons.prems show ?thesis by simp
  next
    case True
    let ?c = "next_chunk s"
    let ?s1 = "fst (run_events upload_step s [Resume True, PutOk e])"
    note r = one_round [OF Cons.prems(2,3) True, of e]
    have s1: "up_phase ?s1 = LoopTop" "\<not> up_aborted ?s1" "up_offset ?s1 = up_offset s + length ?c"
      "up_blob ?s1 = up_blob s" "up_meta ?s1 = up_meta s"
      unfolding r using Cons.prems(3) by (simp_all add: put_ok_def)
    have "upload_inv ?s1" unfolding run_events_Cons run_events.simps(1) fst_conv
      using Cons.prems(1) by (intro step_upload_inv)
    moreover have "um_size (up_meta s) - (up_offset s + length ?c) \<le> length es * min_chunk_bytes"
      using next_chunk_nonempty(1) [OF Cons.prems(1,4) True] Cons.prems(1,5)
      by (auto simp: upload_inv_def min_def split: if_splits)
    ultimately have IH: "up_phase (fst (run_events upload_step ?s1 (rounds es @ [Resume True]))) = Completing 0 \<and>
        put_bytes (snd (run_events upload_step ?s1 (rounds es @ [Resume True]))) = drop (up_offset s + length ?c) (up_blob s)"
      using Cons.IH [of ?s1] s1 Cons.prems(4) by simp
    have split: "rounds (e # es) @ [Resume True] = [Resume True, PutOk e] @ (rounds es @ [Resume True])"
      by (simp add: rounds_def)
    have first: "put_bytes (snd (run_events upload_step s [Resume True, PutOk e])) = ?c"
      unfolding r by (simp add: put_ok_def)
    have rest: "?c @ drop (up_offset s + length ?c) (up_blob s) = drop (up_offset s) (up_blob s)"
      by (metis append_take_drop_id drop_drop add.commute next_chunk_slice)
    show ?thesis
      unfolding split run_events_append [of _ _ "[Resume True, PutOk e]"] put_bytes_append first
      using IH rest by (simp only: simp_thms)
  qed
qed

subsection \<open>The staging store of the service\<close>

text \<open>
  \<open>attachments.py\<close> for one session: the staged bytes, the declared size, and whether the
  metadata record that marks a finalized blob is there.
\<close>

record 'b stage =
  sg_bytes :: "'b list"
  sg_size :: nat
  sg_final :: bool

datatype stage_error = UnknownAttachment | OffsetMismatch nat | SizeError | SizeMismatch

text \<open>
  An append first checks its offset and then writes. The service runs both in a worker thread and holds no lock
  between them, so they are two steps; a write that lands on a finalized blob opens a new part file and leaves the
  blob as it is.
\<close>

definition append_check :: "nat \<Rightarrow> 'b list \<Rightarrow> 'b stage \<Rightarrow> stage_error + nat" where
  "append_check off bs g =
     (if sg_final g then Inl UnknownAttachment
      else if off \<noteq> length (sg_bytes g) then Inl (OffsetMismatch (length (sg_bytes g)))
      else if off + length bs > sg_size g then Inl SizeError
      else Inr (length (sg_bytes g) + length bs))"

definition append_write :: "'b list \<Rightarrow> 'b stage \<Rightarrow> 'b stage" where
  "append_write bs g = (if sg_final g then g else g\<lparr>sg_bytes := sg_bytes g @ bs\<rparr>)"

definition finalize_stage :: "'b stage \<Rightarrow> stage_error + 'b stage" where
  "finalize_stage g =
     (if sg_final g then Inr g
      else if length (sg_bytes g) \<noteq> sg_size g then Inl SizeMismatch
      else Inr (g\<lparr>sg_final := True\<rparr>))"

definition upload_status :: "'b stage \<Rightarrow> nat \<times> nat \<times> bool" where
  "upload_status g =
     (if sg_final g then (sg_size g, sg_size g, True) else (length (sg_bytes g), sg_size g, False))"

text \<open>
  The run, the store, and what is between them: every chunk ever put (each may arrive at any
  later time, any number of times), the appends that are checked and not yet written, the chunks the store
  accepted, every status it answered, whether a completion was asked for, and whether one was refused for its size.
\<close>

record 'b net =
  nt_up :: "'b upload"
  nt_stage :: "'b stage"
  nt_sent :: "(nat \<times> 'b list) set"
  nt_writing :: "(nat \<times> 'b list) list"
  nt_accepted :: "(nat \<times> 'b list) set"
  nt_answers :: "(nat \<times> bool) set"
  nt_complete_sent :: bool
  nt_mismatch :: bool

datatype 'b net_event =
  Client upload_event
| PutArrives nat "'b list"
| PutWrites nat "'b list"
| StatusArrives
| CompleteArrives

fun chunks_put :: "'b upload_out list \<Rightarrow> (nat \<times> 'b list) set" where
  "chunks_put [] = {}"
| "chunks_put (PutChunk i off bs # os) = insert (off, bs) (chunks_put os)"
| "chunks_put (x # os) = chunks_put os"

fun asks_complete :: "'b upload_out list \<Rightarrow> bool" where
  "asks_complete [] = False"
| "asks_complete (PostComplete i # os) = True"
| "asks_complete (x # os) = asks_complete os"

fun net_step :: "'b net \<Rightarrow> 'b net_event \<Rightarrow> 'b net \<times> 'b upload_out list" where
  "net_step n (Client e) =
     (let (u, os) = upload_step (nt_up n) e
      in (n\<lparr>nt_up := u, nt_sent := nt_sent n \<union> chunks_put os,
            nt_complete_sent := nt_complete_sent n \<or> asks_complete os\<rparr>, os))"
| "net_step n (PutArrives off bs) =
     (case append_check off bs (nt_stage n) of
        Inl err \<Rightarrow> (n, [])
      | Inr received \<Rightarrow> (n\<lparr>nt_writing := nt_writing n @ [(off, bs)]\<rparr>, []))"
| "net_step n (PutWrites off bs) =
     (n\<lparr>nt_stage := append_write bs (nt_stage n), nt_writing := remove1 (off, bs) (nt_writing n),
        nt_accepted := insert (off, bs) (nt_accepted n)\<rparr>, [])"
| "net_step n StatusArrives =
     (case upload_status (nt_stage n) of
        (received, declared, finalized) \<Rightarrow> (n\<lparr>nt_answers := insert (received, finalized) (nt_answers n)\<rparr>, []))"
| "net_step n CompleteArrives =
     (case finalize_stage (nt_stage n) of
        Inl err \<Rightarrow> (n\<lparr>nt_mismatch := True\<rparr>, [])
      | Inr g \<Rightarrow> (n\<lparr>nt_stage := g\<rparr>, []))"

text \<open>A successful answer reaches the client only if the store gave it at some time before; a
  failure (a refusal, a lost request, a lost answer) may reach it at any time.\<close>

fun net_enabled :: "'b net \<Rightarrow> 'b net_event \<Rightarrow> bool" where
  "net_enabled n (Client e) =
     (upload_enabled (nt_up n) e \<and>
      (case e of
         PutOk elapsed \<Rightarrow> (up_offset (nt_up n), next_chunk (nt_up n)) \<in> nt_accepted n
       | StatusOk received finalized \<Rightarrow> (received, finalized) \<in> nt_answers n
       | CompleteOk a \<Rightarrow> sg_final (nt_stage n)
       | _ \<Rightarrow> True))"
| "net_enabled n (PutArrives off bs) = ((off, bs) \<in> nt_sent n)"
| "net_enabled n (PutWrites off bs) = ((off, bs) \<in> set (nt_writing n))"
| "net_enabled n StatusArrives = True"
| "net_enabled n CompleteArrives = nt_complete_sent n"

text \<open>No append is taken up before the one taken up last is written.\<close>

definition one_append :: "'b net \<Rightarrow> 'b net_event \<Rightarrow> bool" where
  "one_append n e \<longleftrightarrow> net_enabled n e \<and> (case e of PutArrives off bs \<Rightarrow> nt_writing n = [] | _ \<Rightarrow> True)"

definition net_start :: "'b list \<Rightarrow> upload_meta \<Rightarrow> 'b net" where
  "net_start blob meta =
     \<lparr>nt_up = fst (upload_attachment blob meta), nt_stage = \<lparr>sg_bytes = [], sg_size = um_size meta, sg_final = False\<rparr>,
      nt_sent = {}, nt_writing = [], nt_accepted = {}, nt_answers = {}, nt_complete_sent = False, nt_mismatch = False\<rparr>"

subsection \<open>The store holds a prefix of the file\<close>

text \<open>A phase that only a fully staged file reaches.\<close>

fun completes :: "parked \<Rightarrow> bool" where
  "completes (ParkComplete n) = True"
| "completes k = False"

fun finishing :: "upload_phase \<Rightarrow> bool" where
  "finishing (Completing n) = True"
| "finishing (Parking k) = completes k"
| "finishing (Sleeping k) = completes k"
| "finishing (AwaitOnline k) = completes k"
| "finishing (Unparking k) = completes k"
| "finishing (Resolved a) = True"
| "finishing x = False"

definition behind :: "nat \<Rightarrow> 'b upload \<Rightarrow> bool" where
  "behind m u \<longleftrightarrow> up_offset u \<le> m \<and> (finishing (up_phase u) \<longrightarrow> um_size (up_meta u) \<le> m)"

lemma behind_mono: "behind m u \<Longrightarrow> m \<le> m' \<Longrightarrow> behind m' u"
  by (auto simp: behind_def)

lemma behind_step:
  assumes "behind m u" "upload_inv u" "upload_enabled u e"
    "\<And>elapsed. e = PutOk elapsed \<Longrightarrow> up_offset u + length (next_chunk u) \<le> m"
    "\<And>received finalized. e = StatusOk received finalized \<Longrightarrow> staged_offset received finalized u \<le> m"
  shows "behind m (fst (upload_step u e))"
  using assms
  by (cases e) (auto simp: behind_def upload_inv_def upload_defs chain_def Let_def split: upload_splits)

lemma asks_complete_staged:
  assumes "behind m u" "upload_enabled u e" "asks_complete (snd (upload_step u e))"
  shows "um_size (up_meta u) \<le> m"
  using assms
  by (cases e) (auto simp: behind_def upload_defs chain_def Let_def split: upload_splits)

definition is_slice :: "'b list \<Rightarrow> nat \<Rightarrow> 'b list \<Rightarrow> bool" where
  "is_slice blob off bs \<longleftrightarrow> take (length bs) (drop off blob) = bs"

definition store_ok :: "'b list \<Rightarrow> 'b stage \<Rightarrow> bool" where
  "store_ok blob g \<longleftrightarrow> is_slice blob 0 (sg_bytes g) \<and> length (sg_bytes g) \<le> length blob \<and>
     sg_size g = length blob \<and> (sg_final g \<longrightarrow> length (sg_bytes g) = length blob)"

definition client_ok :: "'b list \<Rightarrow> nat \<Rightarrow> 'b upload \<Rightarrow> bool" where
  "client_ok blob m u \<longleftrightarrow> up_blob u = blob \<and> um_size (up_meta u) = length blob \<and> upload_inv u \<and> behind m u"

definition sent_ok :: "'b list \<Rightarrow> (nat \<times> 'b list) set \<Rightarrow> bool" where
  "sent_ok blob X \<longleftrightarrow> (\<forall>(off, bs) \<in> X. is_slice blob off bs)"

definition accepted_ok :: "nat \<Rightarrow> (nat \<times> 'b list) set \<Rightarrow> bool" where
  "accepted_ok m X \<longleftrightarrow> (\<forall>(off, bs) \<in> X. off + length bs \<le> m)"

definition answers_ok :: "'b list \<Rightarrow> nat \<Rightarrow> (nat \<times> bool) set \<Rightarrow> bool" where
  "answers_ok blob m X \<longleftrightarrow> (\<forall>(received, finalized) \<in> X. received \<le> m \<and> (finalized \<longrightarrow> m = length blob))"

definition writing_ok :: "'b list \<Rightarrow> nat \<Rightarrow> (nat \<times> 'b list) list \<Rightarrow> bool" where
  "writing_ok blob m X \<longleftrightarrow>
     X = [] \<or> (\<exists>bs. X = [(m, bs)] \<and> is_slice blob m bs \<and> m + length bs \<le> length blob)"

definition staged_ok :: "'b list \<Rightarrow> 'b net \<Rightarrow> bool" where
  "staged_ok blob n \<longleftrightarrow>
     store_ok blob (nt_stage n) \<and> client_ok blob (length (sg_bytes (nt_stage n))) (nt_up n) \<and>
     sent_ok blob (nt_sent n) \<and> writing_ok blob (length (sg_bytes (nt_stage n))) (nt_writing n) \<and> accepted_ok (length (sg_bytes (nt_stage n))) (nt_accepted n) \<and>
     answers_ok blob (length (sg_bytes (nt_stage n))) (nt_answers n) \<and>
     (nt_complete_sent n \<longrightarrow> length (sg_bytes (nt_stage n)) = length blob) \<and> \<not> nt_mismatch n"

lemma wire_ok_intros [wf_intros]:
  "sent_ok blob {}" "accepted_ok m {}" "answers_ok blob m {}"
  "sent_ok blob X \<Longrightarrow> sent_ok blob Y \<Longrightarrow> sent_ok blob (X \<union> Y)"
  "accepted_ok m A \<Longrightarrow> off + length bs \<le> m \<Longrightarrow> accepted_ok m (insert (off, bs) A)"
  "answers_ok blob m R \<Longrightarrow> received \<le> m \<Longrightarrow> (finalized \<Longrightarrow> m = length blob) \<Longrightarrow>
     answers_ok blob m (insert (received, finalized) R)"
  by (auto simp: sent_ok_def accepted_ok_def answers_ok_def)

lemma wire_ok_mono:
  "m \<le> m' \<Longrightarrow> accepted_ok m A \<Longrightarrow> accepted_ok m' A"
  "m \<le> m' \<Longrightarrow> m' \<le> length blob \<Longrightarrow> answers_ok blob m R \<Longrightarrow> answers_ok blob m' R"
  "m \<le> m' \<Longrightarrow> client_ok blob m u \<Longrightarrow> client_ok blob m' u"
  by (fastforce simp: accepted_ok_def answers_ok_def client_ok_def intro: behind_mono)+

lemma staged_ok_start: "length blob = um_size meta \<Longrightarrow> staged_ok blob (net_start blob meta)"
  using upload_inv_start [of blob meta]
  by (simp add: staged_ok_def store_ok_def client_ok_def is_slice_def wire_ok_intros net_start_def behind_def
      writing_ok_def upload_attachment_def upload_defs Let_def)

lemma chunks_put_slices:
  assumes "upload_inv u"
  shows "sent_ok (up_blob u) (chunks_put (snd (upload_step u e)))"
proof -
  have "(off, bs) \<in> chunks_put os \<Longrightarrow> \<exists>i. PutChunk i off bs \<in> set os" for os :: "'a upload_out list" and off bs
    by (induction os rule: chunks_put.induct) auto
  then show ?thesis
    using step_puts [OF assms, of _ e] by (force simp: sent_ok_def is_slice_def)
qed

lemma append_check_writes:
  assumes "append_check off bs g = Inr r" "store_ok blob g" "is_slice blob off bs"
  shows "writing_ok blob (length (sg_bytes g)) [(off, bs)]"
  using assms by (auto simp: append_check_def writing_ok_def store_ok_def split: if_splits)

lemma append_write_prefix:
  assumes "writing_ok blob (length (sg_bytes g)) X" "(off, bs) \<in> set X" "store_ok blob g"
  shows "store_ok blob (append_write bs g) \<and> length (sg_bytes (append_write bs g)) = off + length bs \<and>
    off = length (sg_bytes g) \<and> X = [(off, bs)]"
proof -
  have f: "off = length (sg_bytes g)" "off + length bs \<le> length blob" "is_slice blob off bs" "X = [(off, bs)]"
    using assms(1,2) by (auto simp: writing_ok_def)
  have "take (off + length bs) blob = take off blob @ take (length bs) (drop off blob)" by (simp add: take_add)
  with assms(3) f(1,3) have "is_slice blob 0 (sg_bytes g @ bs)" by (simp add: store_ok_def is_slice_def)
  moreover have "bs = []" if "sg_final g" using that assms(3) f(1,2) by (simp add: store_ok_def)
  ultimately show ?thesis using assms(3) f(1,2,4) by (cases "sg_final g") (simp_all add: append_write_def store_ok_def)
qed

lemma staged_ok_client:
  assumes "staged_ok blob n" "net_enabled n (Client e)"
  shows "staged_ok blob (fst (net_step n (Client e)))"
proof -
  let ?u = "nt_up n" and ?m = "length (sg_bytes (nt_stage n))"
  let ?u' = "fst (upload_step ?u e)" and ?os = "snd (upload_step ?u e)"
  have inv: "upload_inv ?u" and b: "behind ?m ?u" and sz: "um_size (up_meta ?u) = length blob" "up_blob ?u = blob"
    using assms(1) by (simp_all add: staged_ok_def client_ok_def)
  have m: "?m \<le> length blob" using assms(1) by (simp add: staged_ok_def store_ok_def)
  have en: "upload_enabled ?u e" using assms(2) by simp
  have "behind ?m ?u'"
  proof (rule behind_step [OF b inv en])
    fix elapsed assume "e = PutOk elapsed"
    with assms(2) have "(up_offset ?u, next_chunk ?u) \<in> nt_accepted n" by simp
    with assms(1) show "up_offset ?u + length (next_chunk ?u) \<le> ?m" by (auto simp: staged_ok_def accepted_ok_def)
  next
    fix received finalized assume "e = StatusOk received finalized"
    with assms(2) have "(received, finalized) \<in> nt_answers n" by simp
    with assms(1) sz show "staged_offset received finalized ?u \<le> ?m"
      by (auto simp: staged_ok_def answers_ok_def staged_offset_def)
  qed
  then have "client_ok blob ?m ?u'" using sz step_upload_inv [OF inv, of e] by (simp add: client_ok_def)
  moreover have "asks_complete ?os \<Longrightarrow> ?m = length blob"
    using asks_complete_staged [OF b en] sz m by simp
  moreover have "sent_ok blob (chunks_put ?os)" using chunks_put_slices [OF inv, of e] sz by simp
  moreover have "fst (net_step n (Client e)) = n\<lparr>nt_up := ?u', nt_sent := nt_sent n \<union> chunks_put ?os,
      nt_complete_sent := nt_complete_sent n \<or> asks_complete ?os\<rparr>"
    by (simp add: Let_def split_beta)
  ultimately show ?thesis
    using assms(1) wire_ok_intros(4) [of blob "nt_sent n" "chunks_put ?os"] by (auto simp: staged_ok_def)
qed

lemma staged_ok_put:
  assumes "staged_ok blob n" "one_append n (PutArrives off bs)"
  shows "staged_ok blob (fst (net_step n (PutArrives off bs)))"
proof (cases "append_check off bs (nt_stage n)")
  case (Inr r)
  have "is_slice blob off bs" "store_ok blob (nt_stage n)" "nt_writing n = []"
    using assms by (auto simp: staged_ok_def sent_ok_def one_append_def)
  then show ?thesis using assms(1) append_check_writes [OF Inr] by (simp add: staged_ok_def Inr)
qed (use assms in simp)

lemma staged_ok_write:
  assumes "staged_ok blob n" "net_enabled n (PutWrites off bs)"
  shows "staged_ok blob (fst (net_step n (PutWrites off bs)))"
proof -
  let ?m = "length (sg_bytes (nt_stage n))" and ?g = "append_write bs (nt_stage n)"
  let ?m' = "length (sg_bytes ?g)"
  have "writing_ok blob ?m (nt_writing n)" "(off, bs) \<in> set (nt_writing n)" "store_ok blob (nt_stage n)"
    using assms by (simp_all add: staged_ok_def)
  from append_write_prefix [OF this]
  have a: "store_ok blob ?g" "?m' = off + length bs" "off = ?m" "nt_writing n = [(off, bs)]" by simp_all
  have grow: "?m \<le> ?m'" "?m' \<le> length blob" using a by (simp_all add: store_ok_def)
  have "accepted_ok ?m' (insert (off, bs) (nt_accepted n))" "answers_ok blob ?m' (nt_answers n)"
    "client_ok blob ?m' (nt_up n)" "nt_complete_sent n \<Longrightarrow> ?m' = length blob"
    using assms(1) grow a(2) wire_ok_mono [OF grow(1)] by (auto simp: staged_ok_def intro: wire_ok_intros)
  then show ?thesis using assms(1) a(1,4) by (simp add: staged_ok_def writing_ok_def)
qed

lemma staged_ok_status:
  "staged_ok blob n \<Longrightarrow> staged_ok blob (fst (net_step n StatusArrives))"
  by (auto simp: staged_ok_def store_ok_def upload_status_def intro!: wire_ok_intros)

lemma staged_ok_complete:
  "staged_ok blob n \<Longrightarrow> net_enabled n CompleteArrives \<Longrightarrow> staged_ok blob (fst (net_step n CompleteArrives))"
  by (auto simp: staged_ok_def store_ok_def finalize_stage_def)

lemma staged_ok_step:
  assumes "staged_ok blob n" "one_append n e"
  shows "staged_ok blob (fst (net_step n e))"
proof -
  have "net_enabled n e" using assms(2) by (simp add: one_append_def)
  then show ?thesis
    using assms by (cases e) (simp_all only: staged_ok_client staged_ok_put staged_ok_write staged_ok_status staged_ok_complete)
qed

interpretation transfer: machine net_step one_append "staged_ok blob"
  by unfold_locales (rule staged_ok_step)

text \<open>A run resolves only on the store's own completion.\<close>

definition resolved_final :: "'b net \<Rightarrow> bool" where
  "resolved_final n \<longleftrightarrow> (\<forall>a. up_phase (nt_up n) = Resolved a \<longrightarrow> sg_final (nt_stage n))"

lemma resolved_step:
  "up_phase (fst (upload_step u e)) = Resolved a \<Longrightarrow> upload_enabled u e \<Longrightarrow>
     up_phase u = Resolved a \<or> e = CompleteOk a"
  by (cases e) (auto simp: upload_defs chain_def Let_def split: upload_splits)

lemma resolved_final_step:
  "resolved_final n \<Longrightarrow> one_append n e \<Longrightarrow> resolved_final (fst (net_step n e))"
proof (cases e)
  case (Client c)
  assume "resolved_final n" "one_append n e"
  with Client show ?thesis using resolved_step [of "nt_up n" c]
    by (fastforce simp: resolved_final_def one_append_def split_beta)
qed (auto simp: resolved_final_def append_check_def append_write_def finalize_stage_def upload_status_def split: sum.splits if_splits)

interpretation resolving: machine net_step one_append resolved_final
  by unfold_locales (rule resolved_final_step)

subsection \<open>Properties\<close>

definition sample_meta :: upload_meta where
  "sample_meta = \<lparr>um_name = ''a'', um_mime = ''image/png'', um_size = 3, um_width = None, um_height = None,
     um_duration_secs = None\<rparr>"

definition sample_attachment :: chat_attachment where
  "sample_attachment = \<lparr>at_id = ''x'', at_name = ''a'', at_mime = ''image/png'', at_size = 3, at_width = None,
     at_height = None, at_duration_secs = None\<rparr>"

definition lossy_run :: "nat net_event list" where
  "lossy_run =
     [Client (CreateOk ''x''), Client (Resume True), PutArrives 0 [7, 8, 9], PutWrites 0 [7, 8, 9], Client (PutFailed OtherThrown),
      Client (Resume True), Client SleepOver, Client (Resume True), PutArrives 0 [7, 8, 9], StatusArrives,
      Client (StatusOk 3 False), Client (Resume True), CompleteArrives, Client (CompleteOk sample_attachment)]"

lemmas net_eval = lossy_run_def net_start_def upload_attachment_def upload_defs next_chunk_def slice_def
  one_append_def append_check_def append_write_def finalize_stage_def upload_status_def staged_offset_def sample_meta_def max_attachment_bytes_def
  initial_chunk_bytes_def max_chunk_upload_bytes_def min_chunk_bytes_def classify_def chain_def Let_def

text \<open>C4: An upload that reports success left exactly the file's bytes at the service, finalized,
  however the network delayed, repeated or lost its requests and their answers, as long as the service has
  written one append of the file before it takes up the next. (It takes up repeats of one request side by side,
  and two of them that both pass the check are both written: \<open>overlapping_repeats_are_both_written\<close>.)\<close>

theorem resolved_upload_is_the_file:
  assumes "length blob = um_size meta" "legal_events net_step one_append (net_start blob meta) es"
    and "up_phase (nt_up (fst (run_events net_step (net_start blob meta) es))) = Resolved a"
  shows "sg_final (nt_stage (fst (run_events net_step (net_start blob meta) es))) \<and>
    sg_bytes (nt_stage (fst (run_events net_step (net_start blob meta) es))) = blob"
proof -
  let ?n = "fst (run_events net_step (net_start blob meta) es)"
  have "resolved_final (net_start blob meta)"
    by (simp add: resolved_final_def net_start_def upload_attachment_def upload_defs Let_def)
  then have "resolved_final ?n" using assms(2) by (rule resolving.run_inv)
  moreover have "staged_ok blob ?n" by (rule transfer.run_inv [OF staged_ok_start [OF assms(1)] assms(2)])
  ultimately show ?thesis using assms(3)
    by (auto simp: resolved_final_def staged_ok_def store_ok_def is_slice_def)
qed

theorem resolved_upload_is_the_file_witness:
  "sg_final (nt_stage (fst (run_events net_step (net_start [7, 8, 9] sample_meta) lossy_run))) \<and>
    sg_bytes (nt_stage (fst (run_events net_step (net_start [7, 8, 9] sample_meta) lossy_run))) = [7, 8, 9]"
  by (rule resolved_upload_is_the_file [of _ _ _ sample_attachment]) (simp_all add: net_eval)

text \<open>A repeat of a request that the service takes up while the first is being written is written too, and the
  completion of the file is then refused.\<close>

definition overlapping_run :: "nat net_event list" where
  "overlapping_run = [Client (CreateOk ''x''), Client (Resume True), PutArrives 0 [7, 8, 9], PutArrives 0 [7, 8, 9],
     PutWrites 0 [7, 8, 9], Client (PutOk 1), Client (Resume True), PutWrites 0 [7, 8, 9], CompleteArrives]"

lemma overlapping_repeats_are_both_written:
  "legal_events net_step net_enabled (net_start [7, 8, 9] sample_meta) overlapping_run \<and>
   sg_bytes (nt_stage (fst (run_events net_step (net_start [7, 8, 9] sample_meta) overlapping_run))) = [7, 8, 9, 7, 8, 9] \<and>
   nt_mismatch (fst (run_events net_step (net_start [7, 8, 9] sample_meta) overlapping_run))"
  by (simp add: overlapping_run_def net_eval)

text \<open>The service never refuses a completion for missing bytes: the client asks for it only
  when every byte is staged (one append at a time, as before).\<close>

theorem completion_never_refused:
  assumes "length blob = um_size meta" "legal_events net_step one_append (net_start blob meta) es"
  shows "\<not> nt_mismatch (fst (run_events net_step (net_start blob meta) es))"
  using transfer.run_inv [OF staged_ok_start [OF assms(1)] assms(2)] by (simp add: staged_ok_def)

theorem completion_never_refused_witness:
  "\<not> nt_mismatch (fst (run_events net_step (net_start [7, 8, 9] sample_meta) lossy_run))"
  by (rule completion_never_refused) (simp_all add: net_eval)

text \<open>C23: Against a server that takes every chunk, at most one chunk per 256 KiB of file sends
  the whole file, every byte once and in order, and the run moves on to the completion.\<close>

theorem cooperative_upload_sends_every_byte:
  assumes "length blob = um_size meta" "um_size meta \<le> max_attachment_bytes"
    and "um_size meta \<le> length es * min_chunk_bytes"
  shows "up_phase (fst (run_events upload_step (fst (upload_attachment blob meta))
        (CreateOk i # rounds es @ [Resume True]))) = Completing 0 \<and>
    put_bytes (snd (run_events upload_step (fst (upload_attachment blob meta))
        (CreateOk i # rounds es @ [Resume True]))) = blob"
proof -
  let ?s = "fst (create_ok i (fst (upload_attachment blob meta)))"
  have s: "up_phase ?s = LoopTop" "\<not> up_aborted ?s" "up_offset ?s = 0" "up_blob ?s = blob" "up_meta ?s = meta"
    using assms(2) by (simp_all add: create_ok_def upload_attachment_def upload_defs Let_def)
  have "upload_inv ?s" using step_upload_inv [OF upload_inv_start, of blob meta "CreateOk i"] by simp
  from rounds_send_the_rest [OF this s(1,2), of es] show ?thesis
    using assms(1,3) s by (simp add: create_ok_def)
qed

theorem cooperative_upload_sends_every_byte_witness:
  "up_phase (fst (run_events upload_step (fst (upload_attachment [7 :: nat, 8, 9] sample_meta))
        (CreateOk ''x'' # rounds [10] @ [Resume True]))) = Completing 0 \<and>
    put_bytes (snd (run_events upload_step (fst (upload_attachment [7 :: nat, 8, 9] sample_meta))
        (CreateOk ''x'' # rounds [10] @ [Resume True]))) = [7, 8, 9]"
  by (rule cooperative_upload_sends_every_byte)
    (simp_all add: sample_meta_def max_attachment_bytes_def min_chunk_bytes_def)

text \<open>Once a run is aborted it creates no session, sends no bytes and completes nothing,
  whatever settles afterwards.\<close>

theorem aborted_upload_sends_nothing:
  "filter is_transfer (snd (run_events upload_step (fst (upload_step s AbortCall)) es)) = []"
  by (rule aborted_run_silent [OF abort_call_aborts])

text \<open>Every chunk a run puts starts inside the file, is at most the 8 MiB the server accepts,
  and is the file's own bytes at that offset.\<close>

theorem puts_within_limit:
  assumes "legal_events upload_step upload_enabled (fst (upload_attachment blob meta)) es"
    and "PutChunk i off bs \<in> set (snd (run_events upload_step (fst (upload_attachment blob meta)) es))"
  shows "off < um_size meta \<and> length bs \<le> max_chunk_upload_bytes \<and> bs = take (length bs) (drop off blob)"
proof -
  have "upload_inv s \<Longrightarrow> up_blob s = blob \<Longrightarrow> up_meta s = meta \<Longrightarrow>
      x \<in> set (snd (run_events upload_step s es)) \<Longrightarrow> put_ok_for blob (um_size meta) x" for s x
  proof (induction es arbitrary: s)
    case (Cons e es)
    then show ?case
      using Cons.IH [OF step_upload_inv [of s e]] step_puts [of s x e] by (auto simp del: upload_step.simps)
  qed simp
  from this [OF upload_inv_start _ _ assms(2)] show ?thesis by simp
qed

theorem puts_within_limit_witness:
  "(0 :: nat) < um_size sample_meta \<and> length [7 :: nat, 8, 9] \<le> max_chunk_upload_bytes \<and>
    [7 :: nat, 8, 9] = take (length [7 :: nat, 8, 9]) (drop 0 [7, 8, 9])"
  by (rule puts_within_limit [where i = "''x''" and es = "[CreateOk ''x'', Resume True]"]) (simp_all add: net_eval)

end
