(* ===== verification/DraftStore.thy ===== *)
theory DraftStore
  imports KeyedHold Upload "HOL-Library.AList"
begin

section \<open>The draft store (attachments/draft-store.ts)\<close>

text \<open>
  The composer's attachment drafts: the cells of a keyed hold, and beside them the sources, the
  upload handles and the previews by local id.  An event is a call of the store, the settling
  of a source's \<open>open\<close>, a callback of an upload engine or the settling of its result.  Engines
  and openings are named by the order of their creation; \<open>ds_running\<close> are the engines whose
  result has not settled, each with whether it was aborted.
\<close>

subsection \<open>State, events and outputs\<close>

record draft_source =
  sr_name :: string
  sr_mime :: string
  sr_size :: nat
  sr_preview :: "string option"

record upload_job =
  jb_key :: string
  jb_agent :: string
  jb_id :: string

record draft_store =
  ds_hold :: "drafts held"
  ds_sources :: "string \<rightharpoonup> draft_source"
  ds_handles :: "string \<rightharpoonup> nat"
  ds_previews :: "(string \<times> string) list"
  ds_opening :: "nat \<rightharpoonup> upload_job \<times> draft_source"
  ds_running :: "nat \<rightharpoonup> upload_job \<times> bool"
  ds_next :: nat

text \<open>\<open>AddDraft\<close> carries what \<open>makeId\<close> returns; \<open>SourceOpened\<close> the size of the opened blob and
  what the probe measured.\<close>

datatype draft_event =
  AddDraft string string draft_source string
| RetryDraft string string string
| RemoveDraft string string
| ClearDrafts string
| SourceOpened nat nat "jsnum option \<times> jsnum option \<times> jsnum option"
| SourceFailed nat
| EngineProgress nat nat nat
| EngineState nat upload_run_state
| EngineDone nat chat_attachment
| EngineFailed nat "upload_error_reason option"

datatype draft_out =
  NotifyUser string
| RevokePreview string
| OpenSource nat draft_source
| StartEngine nat string upload_meta
| AbortEngine nat
| AddReturned bool

type_synonym draft_result = "draft_store \<times> draft_out list"

definition create_draft_store :: draft_store where
  "create_draft_store = \<lparr>ds_hold = create_keyed_hold_store, ds_sources = Map.empty, ds_handles = Map.empty,
     ds_previews = [], ds_opening = Map.empty, ds_running = Map.empty, ds_next = 0\<rparr>"

subsection \<open>The handlers\<close>

definition draft_cell :: "string \<Rightarrow> draft_store \<Rightarrow> drafts" where
  "draft_cell key s = nullish (hold_read key (ds_hold s)) []"

definition draft_exists :: "string \<Rightarrow> string \<Rightarrow> draft_store \<Rightarrow> bool" where
  "draft_exists key local_id s \<longleftrightarrow> list_ex (\<lambda>draft. da_local_id draft = local_id) (draft_cell key s)"

definition mutate :: "string \<Rightarrow> string \<Rightarrow> (drafts \<Rightarrow> drafts) \<Rightarrow> draft_store \<Rightarrow> draft_store \<times> bool" where
  "mutate key local_id fold_cell s =
     (let cell = draft_cell key s
      in if \<not> list_ex (\<lambda>draft. da_local_id draft = local_id) cell then (s, False)
         else (s\<lparr>ds_hold := hold_persist key (fold_cell cell) (ds_hold s)\<rparr>, True))"

definition abort_engine :: "nat \<Rightarrow> draft_store \<Rightarrow> draft_result" where
  "abort_engine u s =
     (s\<lparr>ds_running := (case ds_running s u of
          None \<Rightarrow> ds_running s | Some (job, _) \<Rightarrow> (ds_running s)(u \<mapsto> (job, True)))\<rparr>, [AbortEngine u])"

definition release :: "string \<Rightarrow> draft_store \<Rightarrow> draft_result" where
  "release local_id s =
     chain (case ds_handles s local_id of None \<Rightarrow> (s, []) | Some u \<Rightarrow> abort_engine u s)
       (\<lambda>s. let s = s\<lparr>ds_handles := (ds_handles s)(local_id := None), ds_sources := (ds_sources s)(local_id := None)\<rparr>
            in case map_of (ds_previews s) local_id of
                 None \<Rightarrow> (s, [])
               | Some url \<Rightarrow> (s\<lparr>ds_previews := AList.delete local_id (ds_previews s)\<rparr>, [RevokePreview url]))"

definition discard :: "string \<Rightarrow> string \<Rightarrow> draft_store \<Rightarrow> draft_result" where
  "discard key local_id s =
     chain (release local_id s) (\<lambda>s. (fst (mutate key local_id (\<lambda>drafts. remove_draft drafts local_id) s), []))"

definition start_upload :: "string \<Rightarrow> string \<Rightarrow> string \<Rightarrow> draft_store \<Rightarrow> draft_result" where
  "start_upload key agent local_id s =
     (case ds_sources s local_id of
        None \<Rightarrow> discard key local_id s
      | Some source \<Rightarrow>
          (s\<lparr>ds_opening := (ds_opening s)(ds_next s \<mapsto> (\<lparr>jb_key = key, jb_agent = agent, jb_id = local_id\<rparr>, source)),
             ds_next := Suc (ds_next s)\<rparr>, [OpenSource (ds_next s) source]))"

definition source_opened ::
  "nat \<Rightarrow> nat \<Rightarrow> jsnum option \<times> jsnum option \<times> jsnum option \<Rightarrow> draft_store \<Rightarrow> draft_result" where
  "source_opened i blob_size probe s =
     (case ds_opening s i of
        None \<Rightarrow> (s, [])
      | Some (job, source) \<Rightarrow>
          (let s = s\<lparr>ds_opening := (ds_opening s)(i := None)\<rparr>
           in if \<not> draft_exists (jb_key job) (jb_id job) s then release (jb_id job) s
              else
                  (s\<lparr>ds_running := (ds_running s)(ds_next s \<mapsto> (job, False)),
                     ds_handles := (ds_handles s)(jb_id job \<mapsto> ds_next s), ds_next := Suc (ds_next s)\<rparr>,
                   [StartEngine (ds_next s) (jb_agent job)
                      \<lparr>um_name = sr_name source, um_mime = sr_mime source, um_size = blob_size,
                       um_width = fst probe, um_height = fst (snd probe), um_duration_secs = snd (snd probe)\<rparr>])))"

definition source_failed :: "nat \<Rightarrow> draft_store \<Rightarrow> draft_result" where
  "source_failed i s =
     (case ds_opening s i of
        None \<Rightarrow> (s, [])
      | Some (job, source) \<Rightarrow>
          chain (s\<lparr>ds_opening := (ds_opening s)(i := None)\<rparr>, [NotifyUser (''couldn't read '' @ sr_name source)])
            (discard (jb_key job) (jb_id job)))"

definition orphaned :: "nat \<Rightarrow> string \<Rightarrow> draft_store \<Rightarrow> draft_result" where
  "orphaned u local_id s = chain (abort_engine u s) (release local_id)"

definition engine_callback :: "nat \<Rightarrow> (string \<Rightarrow> drafts \<Rightarrow> drafts) \<Rightarrow> draft_store \<Rightarrow> draft_result" where
  "engine_callback u fold_cell s =
     (case ds_running s u of
        None \<Rightarrow> (s, [])
      | Some (job, _) \<Rightarrow>
          (case mutate (jb_key job) (jb_id job) (fold_cell (jb_id job)) s of
             (s, True) \<Rightarrow> (s, [])
           | (s, False) \<Rightarrow> orphaned u (jb_id job) s))"

definition settle_engine :: "nat \<Rightarrow> string \<Rightarrow> draft_store \<Rightarrow> draft_store" where
  "settle_engine u local_id s =
     s\<lparr>ds_running := (ds_running s)(u := None), ds_handles := (ds_handles s)(local_id := None)\<rparr>"

definition engine_done :: "nat \<Rightarrow> chat_attachment \<Rightarrow> draft_store \<Rightarrow> draft_result" where
  "engine_done u attachment s =
     (case ds_running s u of
        None \<Rightarrow> (s, [])
      | Some (job, _) \<Rightarrow>
          (fst (mutate (jb_key job) (jb_id job) (\<lambda>drafts. finalize_draft drafts (jb_id job) attachment)
             (settle_engine u (jb_id job) s)), []))"

definition engine_failed :: "nat \<Rightarrow> upload_error_reason option \<Rightarrow> draft_store \<Rightarrow> draft_result" where
  "engine_failed u err s =
     (case ds_running s u of
        None \<Rightarrow> (s, [])
      | Some (job, _) \<Rightarrow>
          (let s = settle_engine u (jb_id job) s; reason = nullish err UploadFailed
           in if reason = UploadAborted then (s, [])
              else if reason = UnsupportedAgent
              then chain (s, [NotifyUser (jb_agent job @ '' needs an update to receive files'')])
                     (discard (jb_key job) (jb_id job))
              else (fst (mutate (jb_key job) (jb_id job) (\<lambda>drafts. fail_draft drafts (jb_id job) reason) s), [])))"

definition add_source :: "string \<Rightarrow> string \<Rightarrow> draft_source \<Rightarrow> string \<Rightarrow> draft_store \<Rightarrow> draft_result" where
  "add_source key agent source local_id s =
     (if sr_size source > max_attachment_bytes
      then (s, [NotifyUser (sr_name source @ '' is too large ('' @ format_bytes (sr_size source) @ '', limit '' @
                  format_bytes max_attachment_bytes @ '')''), AddReturned True])
      else case add_draft (draft_cell key s)
                  \<lparr>df_name = sr_name source, df_mime = sr_mime source, df_size = sr_size source\<rparr> local_id of
             None \<Rightarrow> (s, [NotifyUser (''at most '' @ show_nat max_attachments_per_message @ '' files per message''),
                          AddReturned False])
           | Some added \<Rightarrow>
               chain
                 (start_upload key agent local_id
                   (s\<lparr>ds_hold := hold_persist key added (ds_hold s),
                      ds_sources := (ds_sources s)(local_id \<mapsto> source),
                      ds_previews := (case sr_preview source of None \<Rightarrow> ds_previews s
                                      | Some url \<Rightarrow> AList.update local_id url (ds_previews s))\<rparr>))
                 (\<lambda>s. (s, [AddReturned True])))"

definition retry_draft :: "string \<Rightarrow> string \<Rightarrow> string \<Rightarrow> draft_store \<Rightarrow> draft_result" where
  "retry_draft key agent local_id s =
     (case ds_sources s local_id of
        None \<Rightarrow> discard key local_id s
      | Some source \<Rightarrow>
          start_upload key agent local_id
            (fst (mutate key local_id (\<lambda>drafts. set_draft_progress drafts local_id 0 (sr_size source)) s)))"

fun release_all :: "string list \<Rightarrow> draft_store \<Rightarrow> draft_result" where
  "release_all [] s = (s, [])"
| "release_all (i # ids) s = chain (release i s) (release_all ids)"

definition clear_drafts :: "string \<Rightarrow> draft_store \<Rightarrow> draft_result" where
  "clear_drafts key s =
     chain (release_all (map da_local_id (draft_cell key s)) s)
       (\<lambda>s. (s\<lparr>ds_hold := hold_persist key [] (ds_hold s)\<rparr>, []))"

definition preview_url :: "string \<Rightarrow> draft_store \<Rightarrow> string option" where
  "preview_url local_id s = map_of (ds_previews s) local_id"

fun draft_step :: "draft_store \<Rightarrow> draft_event \<Rightarrow> draft_result" where
  "draft_step s (AddDraft key agent source local_id) = add_source key agent source local_id s"
| "draft_step s (RetryDraft key agent local_id) = retry_draft key agent local_id s"
| "draft_step s (RemoveDraft key local_id) = discard key local_id s"
| "draft_step s (ClearDrafts key) = clear_drafts key s"
| "draft_step s (SourceOpened i blob_size probe) = source_opened i blob_size probe s"
| "draft_step s (SourceFailed i) = source_failed i s"
| "draft_step s (EngineProgress u sent n) =
     engine_callback u (\<lambda>local_id drafts. set_draft_progress drafts local_id sent n) s"
| "draft_step s (EngineState u st) =
     (if st \<noteq> RunWaiting then (s, [])
      else engine_callback u (\<lambda>local_id drafts. set_draft_waiting drafts local_id) s)"
| "draft_step s (EngineDone u attachment) = engine_done u attachment s"
| "draft_step s (EngineFailed u err) = engine_failed u err s"

subsection \<open>Drafts in the hold and jobs beside it\<close>

text \<open>What can happen: local ids are fresh, the user acts on chips of the list on show (a retry is
  offered on a failed draft only), and a pending promise settles once.\<close>

definition placed :: "drafts held \<Rightarrow> (string \<times> draft_attachment) set" where
  "placed cells = {(k, d). \<exists>ds. (k, ds) \<in> set cells \<and> d \<in> set ds}"

definition jobs :: "draft_store \<Rightarrow> ((bool \<times> nat) \<times> upload_job) set" where
  "jobs s = {((False, n), j) | n j. \<exists>source. ds_opening s n = Some (j, source)} \<union>
            {((True, u), j) | u j. ds_running s u = Some (j, False)}"

definition dead :: "draft_store \<Rightarrow> (nat \<times> upload_job) set" where
  "dead s = {(u, j). ds_running s u = Some (j, True)}"

definition local_id_unused :: "string \<Rightarrow> draft_store \<Rightarrow> bool" where
  "local_id_unused i s \<longleftrightarrow> (\<forall>(k, d) \<in> placed (ds_hold s). da_local_id d \<noteq> i) \<and>
     (\<forall>(n, j) \<in> jobs s. jb_id j \<noteq> i) \<and> (\<forall>(u, j) \<in> dead s. jb_id j \<noteq> i) \<and>
     i \<notin> fst ` set (ds_previews s)"

fun draft_enabled :: "draft_store \<Rightarrow> draft_event \<Rightarrow> bool" where
  "draft_enabled s (AddDraft key agent source local_id) = local_id_unused local_id s"
| "draft_enabled s (RetryDraft key agent local_id) =
     (\<exists>d. (key, d) \<in> placed (ds_hold s) \<and> da_local_id d = local_id \<and> da_status d = DraftError)"
| "draft_enabled s (RemoveDraft key local_id) =
     (\<exists>d. (key, d) \<in> placed (ds_hold s) \<and> da_local_id d = local_id)"
| "draft_enabled s (ClearDrafts key) = True"
| "draft_enabled s (SourceOpened i blob_size probe) = (ds_opening s i \<noteq> None)"
| "draft_enabled s (SourceFailed i) = (ds_opening s i \<noteq> None)"
| "draft_enabled s (EngineProgress u sent n) = (ds_running s u \<noteq> None)"
| "draft_enabled s (EngineState u st) = (ds_running s u \<noteq> None)"
| "draft_enabled s (EngineDone u attachment) = (ds_running s u \<noteq> None)"
| "draft_enabled s (EngineFailed u err) = (ds_running s u \<noteq> None)"

subsection \<open>The cells\<close>

definition cells_ok :: "drafts held \<Rightarrow> bool" where
  "cells_ok cells \<longleftrightarrow> hold_ok cells \<and> (\<forall>(k, ds) \<in> set cells. drafts_ok ds)"

lemma cells_ok_persist [wf_intros]: "cells_ok cells \<Longrightarrow> drafts_ok ds \<Longrightarrow> cells_ok (hold_persist key ds cells)"
  by (auto simp: cells_ok_def hold_ok_persist dest!: hold_persist_mem)

lemma draft_cell_ok: "cells_ok (ds_hold s) \<Longrightarrow> drafts_ok (draft_cell key s)"
  by (auto simp: draft_cell_def cells_ok_def dest!: hold_read_mem split: option.split)

lemma draft_cell_placed: "d \<in> set (draft_cell key s) \<Longrightarrow> (key, d) \<in> placed (ds_hold s)"
  by (auto simp: draft_cell_def placed_def dest!: hold_read_mem [OF sym] split: option.splits)

lemma placed_draft_cell: "cells_ok (ds_hold s) \<Longrightarrow> (key, d) \<in> placed (ds_hold s) \<longleftrightarrow> d \<in> set (draft_cell key s)"
  by (auto simp: draft_cell_def placed_def cells_ok_def dest: hold_mem_read hold_read_mem [OF sym] split: option.splits)

lemma draft_exists_placed:
  "cells_ok (ds_hold s) \<Longrightarrow> draft_exists key i s \<longleftrightarrow> (\<exists>d. (key, d) \<in> placed (ds_hold s) \<and> da_local_id d = i)"
  by (auto simp: draft_exists_def list_ex_iff placed_draft_cell)

lemma placed_persist:
  "placed (hold_persist key ds cells) \<subseteq> {(k, d) \<in> placed cells. k \<noteq> key} \<union> Pair key ` set ds"
  by (auto simp: placed_def dest!: hold_persist_mem)

lemma mutate_hold:
  "snd (mutate key i f s) = draft_exists key i s"
  "ds_hold (fst (mutate key i f s)) = (if draft_exists key i s then hold_persist key (f (draft_cell key s)) (ds_hold s) else ds_hold s)"
  "ds_sources (fst (mutate key i f s)) = ds_sources s" "ds_handles (fst (mutate key i f s)) = ds_handles s"
  "ds_previews (fst (mutate key i f s)) = ds_previews s" "ds_opening (fst (mutate key i f s)) = ds_opening s"
  "ds_running (fst (mutate key i f s)) = ds_running s" "ds_next (fst (mutate key i f s)) = ds_next s"
  by (simp_all add: mutate_def draft_exists_def Let_def)

lemma cells_ok_mutate:
  "cells_ok (ds_hold s) \<Longrightarrow> (\<And>ds. drafts_ok ds \<Longrightarrow> drafts_ok (f ds)) \<Longrightarrow> cells_ok (ds_hold (fst (mutate key i f s)))"
  by (auto simp: mutate_hold intro!: cells_ok_persist draft_cell_ok)

lemma placed_mutate_update:
  assumes "cells_ok (ds_hold s)" "\<And>d. da_local_id (change d) = da_local_id d"
    "(k, d') \<in> placed (ds_hold (fst (mutate key i (\<lambda>ds. update_draft ds i change) s)))"
  shows "\<exists>d. (k, d) \<in> placed (ds_hold s) \<and> da_local_id d = da_local_id d' \<and>
    d' = (if k = key \<and> da_local_id d = i then change d else d)"
proof (cases "draft_exists key i s")
  case True
  with assms(3) placed_persist
  have "(k, d') \<in> placed (ds_hold s) \<and> k \<noteq> key \<or> k = key \<and> d' \<in> set (update_draft (draft_cell key s) i change)"
    by (fastforce simp: mutate_hold)
  then show ?thesis using assms(2) by (fastforce simp: update_draft_def intro: draft_cell_placed)
next
  case False
  then have "\<nexists>d. (key, d) \<in> placed (ds_hold s) \<and> da_local_id d = i" using draft_exists_placed [OF assms(1)] by simp
  with False assms(3) show ?thesis by (auto simp: mutate_hold)
qed

lemma placed_mutate_remove:
  assumes "cells_ok (ds_hold s)"
  shows "placed (ds_hold (fst (mutate key i (\<lambda>ds. remove_draft ds i) s))) \<subseteq>
    {(k, d) \<in> placed (ds_hold s). \<not> (k = key \<and> da_local_id d = i)}"
proof (cases "draft_exists key i s")
  case True
  then show ?thesis
    using placed_persist [of key "remove_draft (draft_cell key s) i" "ds_hold s"]
    by (auto simp: mutate_hold remove_draft_def dest!: subsetD intro: draft_cell_placed)
next
  case False
  with draft_exists_placed [OF assms, of key i] show ?thesis by (auto simp: mutate_hold)
qed

subsection \<open>Every live upload is the one its draft's handle names\<close>

definition has_id :: "string \<Rightarrow> (string \<times> draft_attachment) set \<Rightarrow> bool" where
  "has_id i X \<longleftrightarrow> (\<exists>k d. (k, d) \<in> X \<and> da_local_id d = i)"

definition drafts_unique :: "(string \<times> draft_attachment) set \<Rightarrow> bool" where
  "drafts_unique X \<longleftrightarrow> (\<forall>k d k' d'. (k, d) \<in> X \<longrightarrow> (k', d') \<in> X \<longrightarrow> da_local_id d = da_local_id d' \<longrightarrow> k = k')"

definition jobs_match :: "(string \<times> draft_attachment) set \<Rightarrow> ('n \<times> upload_job) set \<Rightarrow> bool" where
  "jobs_match X J \<longleftrightarrow> (\<forall>n j k d. (n, j) \<in> J \<longrightarrow> (k, d) \<in> X \<longrightarrow> da_local_id d = jb_id j \<longrightarrow>
     k = jb_key j \<and> da_status d \<noteq> DraftError)"

definition jobs_distinct :: "('n \<times> upload_job) set \<Rightarrow> bool" where
  "jobs_distinct J \<longleftrightarrow> (\<forall>n j n' j'. (n, j) \<in> J \<longrightarrow> (n', j') \<in> J \<longrightarrow> jb_id j = jb_id j' \<longrightarrow> n = n' \<and> j = j')"

definition dead_gone :: "(string \<times> draft_attachment) set \<Rightarrow> ('n \<times> upload_job) set \<Rightarrow> (nat \<times> upload_job) set \<Rightarrow> bool" where
  "dead_gone X J D \<longleftrightarrow> (\<forall>u j. (u, j) \<in> D \<longrightarrow> \<not> has_id (jb_id j) X \<and> (\<forall>n j'. (n, j') \<in> J \<longrightarrow> jb_id j' \<noteq> jb_id j))"

definition handles_live :: "draft_store \<Rightarrow> bool" where
  "handles_live s \<longleftrightarrow> (\<forall>i u. ds_handles s i = Some u \<longleftrightarrow> (\<exists>j. ds_running s u = Some (j, False) \<and> jb_id j = i))"

definition sources_there :: "(string \<times> draft_attachment) set \<Rightarrow> (string \<rightharpoonup> draft_source) \<Rightarrow> bool" where
  "sources_there X src \<longleftrightarrow> (\<forall>k d. (k, d) \<in> X \<longrightarrow> src (da_local_id d) \<noteq> None)"

definition numbers_used :: "draft_store \<Rightarrow> bool" where
  "numbers_used s \<longleftrightarrow> (\<forall>n. ds_next s \<le> n \<longrightarrow> ds_opening s n = None \<and> ds_running s n = None)"

definition side_ok :: "(string \<times> draft_attachment) set \<Rightarrow> draft_store \<Rightarrow> bool" where
  "side_ok X s \<longleftrightarrow> drafts_unique X \<and> jobs_match X (jobs s) \<and> jobs_distinct (jobs s) \<and> dead_gone X (jobs s) (dead s) \<and>
     handles_live s \<and> sources_there X (ds_sources s) \<and> numbers_used s"

lemma handles_live_jobs:
  "handles_live s \<longleftrightarrow> (\<forall>i u. ds_handles s i = Some u \<longleftrightarrow> (\<exists>j. ((True, u), j) \<in> jobs s \<and> jb_id j = i))"
  by (auto simp: handles_live_def jobs_def)

lemma side_ok_hold [simp]: "side_ok X (s\<lparr>ds_hold := h\<rparr>) = side_ok X s"
  by (simp add: side_ok_def jobs_def dead_def handles_live_def numbers_used_def)

lemma side_ok_previews [simp]: "side_ok X (s\<lparr>ds_previews := p\<rparr>) = side_ok X s"
  by (simp add: side_ok_def jobs_def dead_def handles_live_def numbers_used_def)

text \<open>The drafts may shrink or change, as long as no draft with a job turns to a failure.\<close>

lemma side_ok_drafts:
  assumes "side_ok X s"
    "\<And>k d'. (k, d') \<in> X' \<Longrightarrow> \<exists>d. (k, d) \<in> X \<and> da_local_id d = da_local_id d' \<and>
       (da_status d' = DraftError \<longrightarrow> da_status d = DraftError \<or> (\<forall>n j. (n, j) \<in> jobs s \<longrightarrow> jb_id j \<noteq> da_local_id d'))"
  shows "side_ok X' s"
proof -
  note a = assms(1) [unfolded side_ok_def]
  have "drafts_unique X'" using a assms(2) unfolding drafts_unique_def by metis
  moreover have "jobs_match X' (jobs s)" using a assms(2) unfolding jobs_match_def by metis
  moreover have "has_id i X'\<Longrightarrow> has_id i X" for i using assms(2) unfolding has_id_def by metis
  then have "dead_gone X' (jobs s) (dead s)" using a unfolding dead_gone_def by blast
  moreover have "sources_there X' (ds_sources s)" using a assms(2) unfolding sources_there_def by metis
  ultimately show ?thesis using a by (simp add: side_ok_def)
qed

lemma side_ok_subset: "side_ok X s \<Longrightarrow> X' \<subseteq> X \<Longrightarrow> side_ok X' s"
  by (erule side_ok_drafts) auto

text \<open>Releasing a draft that is gone, or going.\<close>

lemma jobs_abort:
  "jobs (fst (abort_engine u s)) = {(n, j) \<in> jobs s. n \<noteq> (True, u)}"
  "dead (fst (abort_engine u s)) = dead s \<union> {(u, j) | j. ((True, u), j) \<in> jobs s}"
  by (auto simp: jobs_def dead_def abort_engine_def split: option.splits if_splits)

lemma release_effect:
  "ds_hold (fst (release i s)) = ds_hold s" "ds_opening (fst (release i s)) = ds_opening s"
  "ds_next (fst (release i s)) = ds_next s"
  "ds_running (fst (release i s)) = (case ds_handles s i of None \<Rightarrow> ds_running s
     | Some u \<Rightarrow> ds_running (fst (abort_engine u s)))"
  "ds_handles (fst (release i s)) = (ds_handles s)(i := None)"
  "ds_sources (fst (release i s)) = (ds_sources s)(i := None)"
  by (simp_all add: release_def Let_def abort_engine_def split: option.split)

lemma side_ok_release:
  assumes "side_ok X s" "X' \<subseteq> X" "\<not> has_id i X'"
  shows "side_ok X' (fst (release i s))"
proof -
  have X': "side_ok X' s" by (rule side_ok_subset [OF assms(1,2)])
  let ?r = "fst (release i s)"
  have h: "handles_live s" and n: "numbers_used s" and jd: "jobs_distinct (jobs s)" and
    dg: "dead_gone X' (jobs s) (dead s)" and jm: "jobs_match X' (jobs s)"
    using X' by (simp_all add: side_ok_def)
  have live: "jobs ?r = {(m, j) \<in> jobs s. m \<notin> Pair True ` set_option (ds_handles s i)}"
    by (cases "ds_handles s i") (auto simp: jobs_def release_effect abort_engine_def split: option.splits if_splits)
  have dd: "dead ?r = dead s \<union> {(u, j). ds_handles s i = Some u \<and> ((True, u), j) \<in> jobs s}"
    by (cases "ds_handles s i")
      (auto simp: dead_def jobs_def release_effect abort_engine_def split: option.splits if_splits)
  have sub: "jobs ?r \<subseteq> jobs s" unfolding live by auto
  have "jobs_match X' (jobs ?r)" using jm sub unfolding jobs_match_def by blast
  moreover have "jobs_distinct (jobs ?r)" using jd sub unfolding jobs_distinct_def by blast
  moreover have "dead_gone X' (jobs ?r) (dead ?r)"
  proof -
    have hi: "ds_handles s i = Some u \<Longrightarrow> ((True, u), j) \<in> jobs s \<Longrightarrow> jb_id j = i" for u j
      using h by (auto simp: handles_live_def jobs_def)
    have new: "ds_handles s i = Some u \<Longrightarrow> ((True, u), j) \<in> jobs s \<Longrightarrow> (m, j') \<in> jobs ?r \<Longrightarrow> jb_id j' \<noteq> jb_id j" for u j m j'
    proof
      assume a: "ds_handles s i = Some u" "((True, u), j) \<in> jobs s" "(m, j') \<in> jobs ?r" "jb_id j' = jb_id j"
      have "(m, j') \<in> jobs s" "m \<noteq> (True, u)" using a(1,3) unfolding live by auto
      with jd a(2,4) show False unfolding jobs_distinct_def by blast
    qed
    show ?thesis unfolding dead_gone_def
    proof (intro allI impI)
      fix u j assume "(u, j) \<in> dead ?r"
      then consider "(u, j) \<in> dead s" | "ds_handles s i = Some u" "((True, u), j) \<in> jobs s" unfolding dd by blast
      then show "\<not> has_id (jb_id j) X' \<and> (\<forall>m j'. (m, j') \<in> jobs ?r \<longrightarrow> jb_id j' \<noteq> jb_id j)"
      proof cases
        case 1
        with dg sub show ?thesis unfolding dead_gone_def by blast
      next
        case 2
        with new [OF 2] hi [OF 2] assms(3) show ?thesis by simp
      qed
    qed
  qed
  moreover have "handles_live ?r"
    unfolding handles_live_jobs live release_effect using h [unfolded handles_live_jobs]
    by (auto simp: jobs_def dest: spec)
  moreover have "sources_there X' (ds_sources ?r)"
    using X' assms(3) by (auto simp: side_ok_def sources_there_def release_effect has_id_def)
  moreover have "numbers_used ?r"
    using n by (auto simp: numbers_used_def release_effect abort_engine_def split: option.splits)
  ultimately show ?thesis using X' by (simp add: side_ok_def)
qed

lemma side_ok_jobs:
  assumes "side_ok X s" "ds_sources s' = ds_sources s"
    "jobs_match X (jobs s')" "jobs_distinct (jobs s')" "dead_gone X (jobs s') (dead s')" "handles_live s'" "numbers_used s'"
  shows "side_ok X s'"
  using assms by (simp add: side_ok_def)

text \<open>An opening settles.\<close>

lemma side_ok_close:
  assumes "side_ok X s"
  shows "side_ok X (s\<lparr>ds_opening := (ds_opening s)(n := None)\<rparr>)" (is "side_ok X ?s")
proof -
  note a = assms [unfolded side_ok_def]
  have J: "jobs ?s = {(m, j) \<in> jobs s. m \<noteq> (False, n)}" by (auto simp: jobs_def)
  have D: "dead ?s = dead s" by (simp add: dead_def)
  show ?thesis
  proof (rule side_ok_jobs [OF assms])
    show "jobs_match X (jobs ?s)" using a unfolding J jobs_match_def by blast
    show "jobs_distinct (jobs ?s)" using a unfolding J jobs_distinct_def by blast
    show "dead_gone X (jobs ?s) (dead ?s)" using a unfolding J D dead_gone_def by blast
  qed (use a in \<open>auto simp: handles_live_def numbers_used_def\<close>)
qed

text \<open>A call opens a source for a draft that has no job.\<close>

definition job_free :: "string \<Rightarrow> draft_store \<Rightarrow> bool" where
  "job_free i s \<longleftrightarrow> (\<forall>n j. (n, j) \<in> jobs s \<longrightarrow> jb_id j \<noteq> i) \<and> (\<forall>u j. (u, j) \<in> dead s \<longrightarrow> jb_id j \<noteq> i)"

lemma side_ok_open:
  assumes "side_ok X s" "job_free (jb_id j) s"
    "\<And>k d. (k, d) \<in> X \<Longrightarrow> da_local_id d = jb_id j \<Longrightarrow> k = jb_key j \<and> da_status d \<noteq> DraftError"
  shows "side_ok X (s\<lparr>ds_opening := (ds_opening s)(ds_next s \<mapsto> (j, source)), ds_next := Suc (ds_next s)\<rparr>)"
    (is "side_ok X ?s")
proof -
  note a = assms(1) [unfolded side_ok_def]
  have J: "jobs ?s = insert ((False, ds_next s), j) (jobs s)"
    using a by (auto simp: jobs_def numbers_used_def)
  have D: "dead ?s = dead s" by (simp add: dead_def)
  show ?thesis
  proof (rule side_ok_jobs [OF assms(1)])
    show "jobs_match X (jobs ?s)" using a assms(3) unfolding J jobs_match_def by blast
    show "jobs_distinct (jobs ?s)" using a assms(2) unfolding J jobs_distinct_def job_free_def
      by (metis insert_iff prod.inject)
    show "dead_gone X (jobs ?s) (dead ?s)" using a assms(2) unfolding J D dead_gone_def job_free_def
      by (metis insert_iff prod.inject)
  qed (use a in \<open>auto simp: handles_live_def numbers_used_def\<close>)
qed

text \<open>An opened source starts an engine for its draft.\<close>

lemma side_ok_start:
  assumes "side_ok X s" "job_free (jb_id j) s"
    "\<And>k d. (k, d) \<in> X \<Longrightarrow> da_local_id d = jb_id j \<Longrightarrow> k = jb_key j \<and> da_status d \<noteq> DraftError"
  shows "side_ok X (s\<lparr>ds_running := (ds_running s)(ds_next s \<mapsto> (j, False)),
     ds_handles := (ds_handles s)(jb_id j \<mapsto> ds_next s), ds_next := Suc (ds_next s)\<rparr>)"
    (is "side_ok X ?s")
proof -
  note a = assms(1) [unfolded side_ok_def]
  have J: "jobs ?s = insert ((True, ds_next s), j) (jobs s)"
    using a by (auto simp: jobs_def numbers_used_def)
  have D: "dead ?s = dead s" using a by (auto simp: dead_def numbers_used_def split: if_splits)
  have fresh: "((True, ds_next s), j') \<notin> jobs s" for j' using a by (auto simp: jobs_def numbers_used_def)
  have nojob: "((True, u), j') \<in> jobs s \<Longrightarrow> jb_id j' \<noteq> jb_id j" for u j'
    using assms(2) by (auto simp: job_free_def)
  have h: "ds_handles s i = Some u \<longleftrightarrow> (\<exists>j. ((True, u), j) \<in> jobs s \<and> jb_id j = i)" for i u
    using a handles_live_jobs by blast
  show ?thesis
  proof (rule side_ok_jobs [OF assms(1)])
    show "jobs_match X (jobs ?s)" using a assms(3) unfolding J jobs_match_def by blast
    show "jobs_distinct (jobs ?s)" using a assms(2) unfolding J jobs_distinct_def job_free_def
      by (metis insert_iff prod.inject)
    show "dead_gone X (jobs ?s) (dead ?s)" using a assms(2) unfolding J D dead_gone_def job_free_def
      by (metis insert_iff prod.inject)
    show "handles_live ?s" unfolding handles_live_jobs J using fresh nojob by (auto simp: h)
  qed (use a in \<open>auto simp: numbers_used_def\<close>)
qed

text \<open>An engine's result settles.\<close>

lemma side_ok_settle:
  assumes "side_ok X s" "ds_running s u = Some (j, aborted)"
  shows "side_ok X (settle_engine u (jb_id j) s)" (is "side_ok X ?s")
    and "job_free (jb_id j) (settle_engine u (jb_id j) s) \<or> aborted"
    and "(n, j') \<in> jobs (settle_engine u (jb_id j) s) \<Longrightarrow> jb_id j' \<noteq> jb_id j"
proof -
  note a = assms(1) [unfolded side_ok_def]
  have J: "jobs ?s = {(m, j) \<in> jobs s. m \<noteq> (True, u)}" by (auto simp: jobs_def settle_engine_def)
  have D: "dead ?s = {(v, j) \<in> dead s. v \<noteq> u}" by (auto simp: dead_def settle_engine_def split: if_splits)
  have h: "ds_handles s i = Some v \<longleftrightarrow> (\<exists>j. ((True, v), j) \<in> jobs s \<and> jb_id j = i)" for i v
    using a handles_live_jobs by blast
  have mine: "(n, j') \<in> jobs ?s \<Longrightarrow> jb_id j' \<noteq> jb_id j" for n j'
  proof (cases aborted)
    case True
    with assms(2) have "(u, j) \<in> dead s" by (simp add: dead_def)
    with a show "(n, j') \<in> jobs ?s \<Longrightarrow> jb_id j' \<noteq> jb_id j" unfolding J dead_gone_def by blast
  next
    case False
    with assms(2) have "((True, u), j) \<in> jobs s" by (simp add: jobs_def)
    with a show "(n, j') \<in> jobs ?s \<Longrightarrow> jb_id j' \<noteq> jb_id j" unfolding J jobs_distinct_def by blast
  qed
  show "side_ok X ?s"
  proof (rule side_ok_jobs [OF assms(1)])
    show "jobs_match X (jobs ?s)" using a unfolding J jobs_match_def by blast
    show "jobs_distinct (jobs ?s)" using a unfolding J jobs_distinct_def by blast
    show "dead_gone X (jobs ?s) (dead ?s)" using a unfolding J D dead_gone_def by blast
    have at_u: "((True, u), j') \<in> jobs s \<Longrightarrow> j' = j" for j' using assms(2) by (simp add: jobs_def)
    have "((ds_handles s)(jb_id j := None)) i = Some v \<longleftrightarrow>
        (\<exists>j. ((True, v), j) \<in> jobs s \<and> v \<noteq> u \<and> jb_id j = i)" for i v
      using mine at_u unfolding J by (auto simp: h)
    then show "handles_live ?s" unfolding handles_live_jobs J by (simp add: settle_engine_def)
  qed (use a in \<open>auto simp: settle_engine_def numbers_used_def\<close>)
  show "(n, j') \<in> jobs ?s \<Longrightarrow> jb_id j' \<noteq> jb_id j" by (rule mine)
  have "jb_id j' \<noteq> jb_id j" if "\<not> aborted" "(v, j') \<in> dead ?s" for v j'
  proof -
    have "((True, u), j) \<in> jobs s" using assms(2) that(1) by (simp add: jobs_def)
    with a that(2) show ?thesis unfolding D dead_gone_def by (metis (no_types, lifting) case_prodD mem_Collect_eq)
  qed
  then show "job_free (jb_id j) ?s \<or> aborted" using mine unfolding job_free_def by blast
qed

subsection \<open>The invariant\<close>

definition draft_inv :: "draft_store \<Rightarrow> bool" where
  "draft_inv s \<longleftrightarrow> cells_ok (ds_hold s) \<and> side_ok (placed (ds_hold s)) s"

lemma draft_inv_start: "draft_inv create_draft_store"
  by (simp add: draft_inv_def create_draft_store_def cells_ok_def hold_create side_ok_def drafts_unique_def placed_def
      jobs_match_def jobs_distinct_def dead_gone_def handles_live_def sources_there_def numbers_used_def
      jobs_def dead_def) (simp add: create_keyed_hold_store_def)

lemma draft_inv_release:
  "draft_inv s \<Longrightarrow> \<not> has_id i (placed (ds_hold s)) \<Longrightarrow> draft_inv (fst (release i s))"
  unfolding draft_inv_def release_effect by (blast intro: side_ok_release)

lemma mutate_side: "side_ok X (fst (mutate key i f s)) = side_ok X s"
  by (simp add: mutate_def Let_def)

lemma draft_inv_discard:
  assumes "draft_inv s" "\<And>k d. (k, d) \<in> placed (ds_hold s) \<Longrightarrow> da_local_id d = i \<Longrightarrow> k = key"
  shows "draft_inv (fst (discard key i s))"
proof -
  let ?r = "fst (release i s)" and ?X = "{(k, d) \<in> placed (ds_hold s). da_local_id d \<noteq> i}"
  have c: "cells_ok (ds_hold ?r)" using assms(1) by (simp add: draft_inv_def release_effect)
  have "side_ok ?X ?r"
    using assms(1) unfolding draft_inv_def by (intro side_ok_release [of "placed (ds_hold s)"]) (auto simp: has_id_def)
  moreover have "placed (ds_hold (fst (mutate key i (\<lambda>ds. remove_draft ds i) ?r))) \<subseteq> ?X"
    using placed_mutate_remove [OF c, of key i] assms(2) by (auto simp: release_effect)
  ultimately show ?thesis
    using cells_ok_mutate [OF c drafts_ok_remove]
    by (simp add: draft_inv_def discard_def mutate_side side_ok_subset)
qed

lemma draft_inv_update:
  assumes "draft_inv s" "\<And>d. da_local_id (change d) = da_local_id d"
    "\<And>ds. drafts_ok ds \<Longrightarrow> drafts_ok (update_draft ds i change)"
    "(\<forall>d. da_status (change d) \<noteq> DraftError) \<or> (\<forall>n j. (n, j) \<in> jobs s \<longrightarrow> jb_id j \<noteq> i)"
  shows "draft_inv (fst (mutate key i (\<lambda>ds. update_draft ds i change) s))"
proof -
  let ?m = "mutate key i (\<lambda>ds. update_draft ds i change) s"
  have c: "cells_ok (ds_hold s)" and x: "side_ok (placed (ds_hold s)) s" using assms(1) by (simp_all add: draft_inv_def)
  have "side_ok (placed (ds_hold (fst ?m))) s"
  proof (rule side_ok_drafts [OF x])
    fix k d' assume "(k, d') \<in> placed (ds_hold (fst ?m))"
    from placed_mutate_update [OF c assms(2) this] obtain d where d: "(k, d) \<in> placed (ds_hold s)"
      "da_local_id d = da_local_id d'" "d' = (if k = key \<and> da_local_id d = i then change d else d)" by blast
    then show "\<exists>d. (k, d) \<in> placed (ds_hold s) \<and> da_local_id d = da_local_id d' \<and>
        (da_status d' = DraftError \<longrightarrow> da_status d = DraftError \<or> (\<forall>n j. (n, j) \<in> jobs s \<longrightarrow> jb_id j \<noteq> da_local_id d'))"
      using assms(4) by (auto split: if_splits)
  qed
  then show ?thesis using cells_ok_mutate [OF c assms(3)] by (simp add: draft_inv_def mutate_side)
qed

lemma draft_inv_progress: "draft_inv s \<Longrightarrow> draft_inv (fst (mutate key i (\<lambda>ds. set_draft_progress ds i sent n) s))"
  using drafts_ok_progress unfolding set_draft_progress_def by (intro draft_inv_update) auto

lemma draft_inv_waiting: "draft_inv s \<Longrightarrow> draft_inv (fst (mutate key i (\<lambda>ds. set_draft_waiting ds i) s))"
  using drafts_ok_waiting unfolding set_draft_waiting_def by (intro draft_inv_update) auto

lemma draft_inv_finalize: "draft_inv s \<Longrightarrow> draft_inv (fst (mutate key i (\<lambda>ds. finalize_draft ds i a) s))"
  using drafts_ok_finalize unfolding finalize_draft_def by (intro draft_inv_update) auto

lemma draft_inv_fail:
  "draft_inv s \<Longrightarrow> (\<And>n j. (n, j) \<in> jobs s \<Longrightarrow> jb_id j \<noteq> i) \<Longrightarrow> draft_inv (fst (mutate key i (\<lambda>ds. fail_draft ds i e) s))"
  using drafts_ok_fail unfolding fail_draft_def by (intro draft_inv_update) auto

text \<open>The job of an opening or an engine and the drafts of its id.\<close>

lemma job_cell:
  "draft_inv s \<Longrightarrow> (n, j) \<in> jobs s \<Longrightarrow> (k, d) \<in> placed (ds_hold s) \<Longrightarrow> da_local_id d = jb_id j \<Longrightarrow>
     k = jb_key j \<and> da_status d \<noteq> DraftError"
  unfolding draft_inv_def side_ok_def jobs_match_def by blast

lemma dead_cell:
  "draft_inv s \<Longrightarrow> (u, j) \<in> dead s \<Longrightarrow> (k, d) \<in> placed (ds_hold s) \<Longrightarrow> da_local_id d \<noteq> jb_id j"
  unfolding draft_inv_def side_ok_def dead_gone_def has_id_def by blast

lemma running_cell:
  assumes "draft_inv s" "ds_running s u = Some (j, aborted)" "(k, d) \<in> placed (ds_hold s)" "da_local_id d = jb_id j"
  shows "k = jb_key j"
proof (cases aborted)
  case True
  with assms dead_cell [of s u j k d] show ?thesis by (simp add: dead_def)
next
  case False
  with assms job_cell [of s "(True, u)" j k d] show ?thesis by (simp add: jobs_def)
qed

lemma settle_hold [simp]: "ds_hold (settle_engine u i s) = ds_hold s"
  by (simp add: settle_engine_def)

lemma draft_inv_settle: "draft_inv s \<Longrightarrow> ds_running s u = Some (j, b) \<Longrightarrow> draft_inv (settle_engine u (jb_id j) s)"
  unfolding draft_inv_def by (auto intro: side_ok_settle(1))

lemma draft_inv_close: "draft_inv s \<Longrightarrow> draft_inv (s\<lparr>ds_opening := (ds_opening s)(n := None)\<rparr>)"
  unfolding draft_inv_def by (auto intro: side_ok_close)

lemma abort_then_release:
  assumes "handles_live s" "ds_running s u = Some (j, b)"
  shows "fst (orphaned u (jb_id j) s) = fst (release (jb_id j) s)"
proof (cases b)
  case True
  with assms(2) have "fst (abort_engine u s) = s" by (simp add: abort_engine_def fun_upd_idem)
  with True show ?thesis by (simp add: orphaned_def)
next
  case False
  with assms have "ds_handles s (jb_id j) = Some u" by (auto simp: handles_live_def)
  then have "fst (release (jb_id j) (fst (abort_engine u s))) = fst (release (jb_id j) s)"
    using assms(2) by (simp add: release_def abort_engine_def Let_def split: option.split)
  then show ?thesis by (simp add: orphaned_def)
qed

lemma draft_inv_callback:
  assumes "draft_inv s" "\<And>key i s. draft_inv s \<Longrightarrow> draft_inv (fst (mutate key i (f i) s))"
  shows "draft_inv (fst (engine_callback u f s))"
proof (cases "ds_running s u")
  case None
  with assms(1) show ?thesis by (simp add: engine_callback_def)
next
  case (Some p)
  obtain j b where p: "p = (j, b)" by (cases p)
  note run = Some [unfolded p]
  let ?m = "mutate (jb_key j) (jb_id j) (f (jb_id j)) s"
  show ?thesis
  proof (cases "snd ?m")
    case True
    then have "fst (engine_callback u f s) = fst ?m" by (cases ?m) (simp add: engine_callback_def run)
    with assms show ?thesis by simp
  next
    case False
    then have "\<not> draft_exists (jb_key j) (jb_id j) s" by (simp add: mutate_hold)
    then have gone: "\<not> has_id (jb_id j) (placed (ds_hold s))"
      using running_cell [OF assms(1) run] draft_exists_placed [of s] assms(1)
      by (auto simp: has_id_def draft_inv_def)
    have "?m = (s, False)" using False by (auto simp: mutate_def Let_def split: if_splits)
    then have "fst (engine_callback u f s) = fst (orphaned u (jb_id j) s)" by (simp add: engine_callback_def run)
    moreover have "handles_live s" using assms(1) by (simp add: draft_inv_def side_ok_def)
    ultimately show ?thesis
      using abort_then_release [OF _ run] draft_inv_release [OF assms(1) gone] by metis
  qed
qed

lemma draft_inv_start_upload:
  assumes "draft_inv s" "job_free i s"
    "\<And>k d. (k, d) \<in> placed (ds_hold s) \<Longrightarrow> da_local_id d = i \<Longrightarrow> k = key \<and> da_status d \<noteq> DraftError"
  shows "draft_inv (fst (start_upload key agent i s))"
proof (cases "ds_sources s i")
  case None
  then show ?thesis using draft_inv_discard [OF assms(1), of i key] assms(3) by (simp add: start_upload_def)
next
  case (Some source)
  then show ?thesis
    using side_ok_open [of "placed (ds_hold s)" s "\<lparr>jb_key = key, jb_agent = agent, jb_id = i\<rparr>" source] assms
    by (simp add: start_upload_def draft_inv_def)
qed

lemma draft_inv_add:
  assumes "draft_inv s" "local_id_unused i s"
  shows "draft_inv (fst (add_source key agent source i s))"
proof -
  let ?file = "\<lparr>df_name = sr_name source, df_mime = sr_mime source, df_size = sr_size source\<rparr>"
  have c: "cells_ok (ds_hold s)" and x: "side_ok (placed (ds_hold s)) s" using assms(1) by (simp_all add: draft_inv_def)
  have fresh: "(k, d) \<in> placed (ds_hold s) \<Longrightarrow> da_local_id d \<noteq> i" for k d
    using assms(2) by (auto simp: local_id_unused_def)
  show ?thesis
  proof (cases "sr_size source > max_attachment_bytes \<or> add_draft (draft_cell key s) ?file i = None")
    case True
    with assms(1) show ?thesis by (auto simp: add_source_def)
  next
    case False
    then obtain ds where ds: "add_draft (draft_cell key s) ?file i = Some ds" by auto
    then obtain d0 where d0: "ds = draft_cell key s @ [d0]" "da_local_id d0 = i" "da_status d0 = DraftUploading"
      by (auto simp: add_draft_def split: if_splits)
    define s1 where "s1 = s\<lparr>ds_hold := hold_persist key ds (ds_hold s), ds_sources := (ds_sources s)(i \<mapsto> source),
      ds_previews := (case sr_preview source of None \<Rightarrow> ds_previews s | Some url \<Rightarrow> AList.update i url (ds_previews s))\<rparr>"
    have step: "fst (add_source key agent source i s) = fst (start_upload key agent i s1)"
      using False ds by (simp add: add_source_def s1_def)
    have "i \<notin> set (map da_local_id (draft_cell key s))" using fresh draft_cell_placed by fastforce
    then have "drafts_ok ds" using drafts_ok_add [OF draft_cell_ok [OF c] _ ds] by simp
    then have c1: "cells_ok (ds_hold s1)" using c by (simp add: s1_def cells_ok_persist)
    have P: "placed (ds_hold s1) \<subseteq> insert (key, d0) (placed (ds_hold s))"
      using placed_persist [of key ds "ds_hold s"] draft_cell_placed by (fastforce simp: s1_def d0)
    have J: "jobs s1 = jobs s" "dead s1 = dead s" by (simp_all add: s1_def jobs_def dead_def)
    have free: "job_free i s1"
      using assms(2) unfolding job_free_def J by (auto simp: local_id_unused_def)
    note a = x [unfolded side_ok_def]
    have "side_ok (insert (key, d0) (placed (ds_hold s))) s1"
      unfolding side_ok_def J
    proof (intro conjI)
      show "drafts_unique (insert (key, d0) (placed (ds_hold s)))"
        using a fresh d0(2) unfolding drafts_unique_def by (metis insert_iff prod.inject)
      show "jobs_match (insert (key, d0) (placed (ds_hold s))) (jobs s)"
        using a free d0(2) unfolding jobs_match_def job_free_def J by (metis insert_iff prod.inject)
      show "jobs_distinct (jobs s)" using a by blast
      show "dead_gone (insert (key, d0) (placed (ds_hold s))) (jobs s) (dead s)"
        using a free d0(2) unfolding dead_gone_def has_id_def job_free_def J by (metis insert_iff prod.inject)
      show "handles_live s1" using a by (simp add: handles_live_def s1_def)
      show "sources_there (insert (key, d0) (placed (ds_hold s))) (ds_sources s1)"
        using a d0(2) by (auto simp: sources_there_def s1_def)
      show "numbers_used s1" using a by (simp add: numbers_used_def s1_def)
    qed
    then have "draft_inv s1" using c1 side_ok_subset [OF _ P] by (simp add: draft_inv_def)
    then show ?thesis unfolding step
      using free P fresh d0 by (intro draft_inv_start_upload) auto
  qed
qed

lemma draft_inv_retry:
  assumes "draft_inv s" "(key, d0) \<in> placed (ds_hold s)" "da_local_id d0 = i" "da_status d0 = DraftError"
  shows "draft_inv (fst (retry_draft key agent i s))"
proof -
  have c: "cells_ok (ds_hold s)" and u: "drafts_unique (placed (ds_hold s))"
    using assms(1) by (simp_all add: draft_inv_def side_ok_def)
  have key: "(k, d) \<in> placed (ds_hold s) \<Longrightarrow> da_local_id d = i \<Longrightarrow> k = key" for k d
    using u assms(2,3) unfolding drafts_unique_def by blast
  have free: "job_free i s"
    using job_cell [OF assms(1) _ assms(2)] dead_cell [OF assms(1) _ assms(2)] assms(3,4)
    unfolding job_free_def by metis
  show ?thesis
  proof (cases "ds_sources s i")
    case None
    with key show ?thesis using draft_inv_discard [OF assms(1), of i key] by (simp add: retry_draft_def)
  next
    case (Some source)
    let ?m = "fst (mutate key i (\<lambda>ds. set_draft_progress ds i 0 (sr_size source)) s)"
    have "job_free i ?m" using free by (simp add: job_free_def jobs_def dead_def mutate_hold)
    moreover have "k = key \<and> da_status d \<noteq> DraftError"
      if pl: "(k, d) \<in> placed (ds_hold ?m)" and i: "da_local_id d = i" for k d
    proof -
      let ?change = "\<lambda>d. d\<lparr>da_status := DraftUploading, da_progress := draft_fraction 0 (sr_size source)\<rparr>"
      have "\<exists>d0. (k, d0) \<in> placed (ds_hold s) \<and> da_local_id d0 = da_local_id d \<and>
          d = (if k = key \<and> da_local_id d0 = i then ?change d0 else d0)"
        by (rule placed_mutate_update [OF c]) (use pl in \<open>simp_all add: set_draft_progress_def\<close>)
      then obtain d0 where d0: "(k, d0) \<in> placed (ds_hold s)" "da_local_id d0 = i"
        "d = (if k = key \<and> da_local_id d0 = i then ?change d0 else d0)" using i by metis
      have "k = key" by (rule key [OF d0(1,2)])
      with d0(2,3) have "d = ?change d0" by simp
      then have "da_status d = DraftUploading" by simp
      with \<open>k = key\<close> show ?thesis by simp
    qed
    ultimately show ?thesis
      using draft_inv_start_upload [OF draft_inv_progress [OF assms(1)], of i key] by (simp add: retry_draft_def Some)
  qed
qed

lemma draft_inv_release_all:
  assumes "side_ok X s" "X' \<subseteq> X" "\<forall>i \<in> set ids. \<not> has_id i X'"
  shows "side_ok X' (fst (release_all ids s)) \<and> ds_hold (fst (release_all ids s)) = ds_hold s"
  using assms
proof (induction ids arbitrary: X s)
  case Nil
  then show ?case by (auto intro: side_ok_subset)
next
  case (Cons i ids)
  have "side_ok X' (fst (release i s))" using Cons.prems by (intro side_ok_release [of X]) auto
  from Cons.IH [OF this order_refl] Cons.prems(3) show ?case by (simp add: release_effect)
qed

lemma draft_inv_clear:
  assumes "draft_inv s"
  shows "draft_inv (fst (clear_drafts key s))"
proof -
  have c: "cells_ok (ds_hold s)" and x: "side_ok (placed (ds_hold s)) s" and u: "drafts_unique (placed (ds_hold s))"
    using assms by (simp_all add: draft_inv_def side_ok_def)
  let ?X = "{(k, d) \<in> placed (ds_hold s). k \<noteq> key}"
  have "\<not> has_id (da_local_id d) ?X" if "d \<in> set (draft_cell key s)" for d
  proof
    assume "has_id (da_local_id d) ?X"
    then obtain k d' where "(k, d') \<in> placed (ds_hold s)" "k \<noteq> key" "da_local_id d' = da_local_id d"
      by (auto simp: has_id_def)
    with u draft_cell_placed [OF that] show False unfolding drafts_unique_def by blast
  qed
  then have "\<forall>i \<in> set (map da_local_id (draft_cell key s)). \<not> has_id i ?X" by simp
  from draft_inv_release_all [OF x _ this]
  have r: "side_ok ?X (fst (release_all (map da_local_id (draft_cell key s)) s))"
    "ds_hold (fst (release_all (map da_local_id (draft_cell key s)) s)) = ds_hold s" by auto
  have "placed (hold_persist key [] (ds_hold s)) \<subseteq> ?X" using placed_persist [of key "[]" "ds_hold s"] by simp
  then show ?thesis
    using r cells_ok_persist [OF c drafts_ok_Nil, of key] side_ok_subset
    by (simp add: draft_inv_def clear_drafts_def)
qed

lemma draft_inv_source_opened:
  assumes "draft_inv s"
  shows "draft_inv (fst (source_opened n blob_size probe s))"
proof (cases "ds_opening s n")
  case None
  with assms show ?thesis by (simp add: source_opened_def)
next
  case (Some p)
  obtain j source where p: "p = (j, source)" by (cases p)
  let ?c = "s\<lparr>ds_opening := (ds_opening s)(n := None)\<rparr>"
  have inv: "draft_inv ?c" by (rule draft_inv_close [OF assms])
  have job: "((False, n), j) \<in> jobs s" using Some p by (auto simp: jobs_def)
  have cell: "k = jb_key j \<and> da_status d \<noteq> DraftError"
    if "(k, d) \<in> placed (ds_hold s)" "da_local_id d = jb_id j" for k d
    by (rule job_cell [OF assms job that])
  show ?thesis
  proof (cases "draft_exists (jb_key j) (jb_id j) ?c")
    case False
    then have "\<not> has_id (jb_id j) (placed (ds_hold ?c))"
      using cell draft_exists_placed [of ?c] inv by (auto simp: has_id_def draft_inv_def)
    with False show ?thesis using draft_inv_release [OF inv] by (simp add: source_opened_def Some p)
  next
    case True
    have sd: "jobs_distinct (jobs s)" and dg: "dead_gone (placed (ds_hold s)) (jobs s) (dead s)"
      using assms by (simp_all add: draft_inv_def side_ok_def)
    have J: "jobs ?c = {(m, j) \<in> jobs s. m \<noteq> (False, n)}" and D: "dead ?c = dead s"
      by (auto simp: jobs_def dead_def)
    have "m = (False, n)" if "(m, j') \<in> jobs s" "jb_id j' = jb_id j" for m j'
      using sd that job unfolding jobs_distinct_def by blast
    moreover have "jb_id j' \<noteq> jb_id j" if "(u, j') \<in> dead s" for u j'
      using dg that job unfolding dead_gone_def by metis
    ultimately have "job_free (jb_id j) ?c" unfolding job_free_def J D by blast
    with True cell show ?thesis
      using side_ok_start [of "placed (ds_hold s)" ?c j] inv by (simp add: source_opened_def Some p draft_inv_def)
  qed
qed

lemma draft_inv_source_failed:
  assumes "draft_inv s"
  shows "draft_inv (fst (source_failed n s))"
proof (cases "ds_opening s n")
  case None
  with assms show ?thesis by (simp add: source_failed_def)
next
  case (Some p)
  obtain j source where p: "p = (j, source)" by (cases p)
  have job: "((False, n), j) \<in> jobs s" using Some p by (auto simp: jobs_def)
  show ?thesis
    using draft_inv_discard [OF draft_inv_close [OF assms, of n], of "jb_id j" "jb_key j"] job_cell [OF assms job]
    by (simp add: source_failed_def Some p)
qed

lemma draft_inv_engine_done: "draft_inv s \<Longrightarrow> draft_inv (fst (engine_done u a s))"
  using draft_inv_finalize [OF draft_inv_settle]
  by (auto simp: engine_done_def split: option.split)

lemma draft_inv_engine_failed:
  assumes "draft_inv s"
  shows "draft_inv (fst (engine_failed u err s))"
proof (cases "ds_running s u")
  case None
  with assms show ?thesis by (simp add: engine_failed_def)
next
  case (Some p)
  obtain j b where p: "p = (j, b)" by (cases p)
  note run = Some [unfolded p]
  let ?s = "settle_engine u (jb_id j) s"
  have inv: "draft_inv ?s" by (rule draft_inv_settle [OF assms run])
  have x: "side_ok (placed (ds_hold s)) s" using assms by (simp add: draft_inv_def)
  have "draft_inv (fst (discard (jb_key j) (jb_id j) ?s))"
    using draft_inv_discard [OF inv] running_cell [OF assms run] by simp
  moreover have "draft_inv (fst (mutate (jb_key j) (jb_id j) (\<lambda>ds. fail_draft ds (jb_id j) r) ?s))" for r
    using draft_inv_fail [OF inv] side_ok_settle(3) [OF x run] by blast
  ultimately show ?thesis using inv by (auto simp: engine_failed_def run Let_def)
qed

lemma draft_inv_step: "draft_inv s \<Longrightarrow> draft_enabled s e \<Longrightarrow> draft_inv (fst (draft_step s e))"
proof (cases e)
  case (RemoveDraft key i)
  assume inv: "draft_inv s" and en: "draft_enabled s e"
  have "drafts_unique (placed (ds_hold s))" using inv by (simp add: draft_inv_def side_ok_def)
  with en RemoveDraft have "k = key" if "(k, d) \<in> placed (ds_hold s)" "da_local_id d = i" for k d
    using that unfolding drafts_unique_def by auto
  from draft_inv_discard [OF inv this] show ?thesis by (simp add: RemoveDraft)
qed (auto intro: draft_inv_add draft_inv_retry draft_inv_clear draft_inv_source_opened draft_inv_source_failed
    draft_inv_callback draft_inv_progress draft_inv_waiting draft_inv_engine_done draft_inv_engine_failed)

interpretation drafting: machine draft_step draft_enabled draft_inv
  by unfold_locales (rule draft_inv_step)

subsection \<open>What a callback may write\<close>

lemma mutate_keys:
  assumes "cells_ok (ds_hold s)"
  shows "fst ` set (ds_hold (fst (mutate key i f s))) = fst ` set (ds_hold s)"
proof (cases "draft_exists key i s")
  case True
  then have "hold_read key (ds_hold s) \<noteq> None" by (auto simp: draft_exists_def draft_cell_def split: option.splits)
  then have "key \<in> fst ` set (ds_hold s)" by (auto simp: hold_read_def map_of_eq_None_iff)
  then show ?thesis
    using True assms hold_persist_others(1) [of "ds_hold s" key "f (draft_cell key s)"]
    by (simp add: mutate_hold cells_ok_def)
qed (simp add: mutate_hold)

definition same_cells :: "draft_store \<Rightarrow> draft_store \<Rightarrow> bool" where
  "same_cells s s' \<longleftrightarrow> fst ` set (ds_hold s') = fst ` set (ds_hold s)"

lemma same_cells_refl [simp]: "same_cells s s"
  by (simp add: same_cells_def)

lemma same_cells_discard: "cells_ok (ds_hold s) \<Longrightarrow> same_cells s (fst (discard key i s))"
  by (simp add: same_cells_def discard_def mutate_keys release_effect)

lemma same_cells_start: "cells_ok (ds_hold s) \<Longrightarrow> same_cells s (fst (start_upload key agent i s))"
  using same_cells_discard [of s key i] by (simp add: start_upload_def same_cells_def split: option.split)

lemma orphaned_hold [simp]: "ds_hold (fst (orphaned u i s)) = ds_hold s"
  by (simp add: orphaned_def release_effect abort_engine_def)

lemma same_cells_callback: "cells_ok (ds_hold s) \<Longrightarrow> same_cells s (fst (engine_callback u f s))"
proof (cases "ds_running s u")
  case (Some p)
  assume c: "cells_ok (ds_hold s)"
  obtain j b where p: "p = (j, b)" by (cases p)
  let ?m = "mutate (jb_key j) (jb_id j) (f (jb_id j)) s"
  have "fst (engine_callback u f s) = (if snd ?m then fst ?m else fst (orphaned u (jb_id j) (fst ?m)))"
    by (simp add: engine_callback_def Some p split: prod.split bool.split)
  then show ?thesis using mutate_keys [OF c] by (simp add: same_cells_def)
qed (simp add: engine_callback_def)

lemma same_cells_step:
  assumes "cells_ok (ds_hold s)" "\<nexists>key agent source i. e = AddDraft key agent source i" "\<nexists>key. e = ClearDrafts key"
  shows "same_cells s (fst (draft_step s e))"
proof (cases e)
  case (RetryDraft key agent i)
  have "cells_ok (ds_hold (fst (mutate key i (\<lambda>ds. set_draft_progress ds i 0 n) s)))" for n
    by (rule cells_ok_mutate [OF assms(1) drafts_ok_progress])
  with RetryDraft show ?thesis
    using same_cells_discard [OF assms(1), of key i] same_cells_start mutate_keys [OF assms(1)]
    by (auto simp: retry_draft_def same_cells_def split: option.split)
next
  case (SourceOpened n sz probe)
  then show ?thesis by (auto simp: source_opened_def same_cells_def release_effect Let_def split: option.split)
next
  case (SourceFailed n)
  have "same_cells s (fst (discard key i (s\<lparr>ds_opening := (ds_opening s)(n := None)\<rparr>)))" for key i
    using same_cells_discard [of "s\<lparr>ds_opening := (ds_opening s)(n := None)\<rparr>" key i] assms(1) by (simp add: same_cells_def)
  with SourceFailed show ?thesis by (auto simp: source_failed_def split: option.split)
next
  case (EngineDone u a)
  then show ?thesis using assms(1) mutate_keys by (auto simp: engine_done_def same_cells_def split: option.split)
next
  case (EngineFailed u err)
  have "same_cells s (fst (discard key i (settle_engine u i s)))" for key i
    using same_cells_discard [of "settle_engine u i s" key i] assms(1) by (simp add: same_cells_def)
  with EngineFailed show ?thesis
    using assms(1) mutate_keys by (auto simp: engine_failed_def same_cells_def Let_def split: option.split)
qed (use assms in \<open>auto simp: same_cells_discard same_cells_callback\<close>)

subsection \<open>Previews\<close>

fun revoked :: "draft_out \<Rightarrow> string multiset" where
  "revoked (RevokePreview url) = {#url#}"
| "revoked x = {#}"

definition held_previews :: "draft_store \<Rightarrow> string multiset" where
  "held_previews s = mset (map snd (ds_previews s))"

text \<open>The preview a call of \<open>add\<close> takes over: that of a source accepted into the cell.\<close>

fun taken_preview :: "draft_store \<Rightarrow> draft_event \<Rightarrow> string multiset" where
  "taken_preview s (AddDraft key agent source i) =
     (if sr_size source > max_attachment_bytes \<or> length (draft_cell key s) \<ge> max_attachments_per_message then {#}
      else case sr_preview source of None \<Rightarrow> {#} | Some url \<Rightarrow> {#url#})"
| "taken_preview s e = {#}"

fun taken_previews :: "draft_store \<Rightarrow> draft_event list \<Rightarrow> string multiset" where
  "taken_previews s [] = {#}"
| "taken_previews s (e # es) = taken_preview s e + taken_previews (fst (draft_step s e)) es"

definition balanced :: "draft_store \<Rightarrow> string multiset \<Rightarrow> draft_result \<Rightarrow> bool" where
  "balanced s taken r \<longleftrightarrow>
     sum_list (map revoked (snd r)) + held_previews (fst r) = held_previews s + taken \<and>
     distinct (map fst (ds_previews (fst r)))"

lemma mset_delete:
  "distinct (map fst ps) \<Longrightarrow> map_of ps i = Some x \<Longrightarrow> add_mset x (mset (map snd (AList.delete i ps))) = mset (map snd ps)"
proof (induction ps)
  case (Cons p ps)
  show ?case
  proof (cases "fst p = i")
    case True
    with Cons.prems have "AList.delete i ps = ps" by (auto simp: AList.delete_eq filter_id_conv image_iff)
    with True Cons.prems show ?thesis by (cases p) simp
  next
    case False
    with Cons show ?thesis by (cases p) simp
  qed
qed simp

lemma delete_keys: "distinct (map fst ps) \<Longrightarrow> distinct (map fst (AList.delete i ps))"
  by (simp add: AList.delete_eq distinct_map_filter_keep)

lemma balanced_idle: "distinct (map fst (ds_previews s)) \<Longrightarrow> ds_previews s' = ds_previews s \<Longrightarrow>
    sum_list (map revoked os) = {#} \<Longrightarrow> balanced s {#} (s', os)"
  by (simp add: balanced_def held_previews_def)

lemma balanced_chain:
  assumes "balanced s taken r" "\<And>s1. distinct (map fst (ds_previews s1)) \<Longrightarrow> balanced s1 {#} (f s1)"
  shows "balanced s taken (chain r f)"
proof -
  have "sum_list (map revoked (snd r)) + held_previews (fst r) = held_previews s + taken"
    "sum_list (map revoked (snd (f (fst r)))) + held_previews (fst (f (fst r))) = held_previews (fst r)"
    "distinct (map fst (ds_previews (fst (f (fst r)))))"
    using assms(1) assms(2) [of "fst r"] by (simp_all add: balanced_def)
  then show ?thesis by (simp add: balanced_def) (simp only: add.assoc)
qed

lemma balanced_from: "balanced s1 taken r \<Longrightarrow> ds_previews s1 = ds_previews s \<Longrightarrow> balanced s taken r"
  by (simp add: balanced_def held_previews_def)

lemma balanced_release: "distinct (map fst (ds_previews s)) \<Longrightarrow> balanced s {#} (release i s)"
  unfolding release_def
  by (rule balanced_chain)
    (auto simp: balanced_def held_previews_def abort_engine_def Let_def delete_keys
        mset_delete [OF _ map_of_is_SomeI, unfolded mset_map] split: option.split)

lemma mutate_previews_balanced:
  "distinct (map fst (ds_previews s)) \<Longrightarrow> balanced s {#} (fst (mutate key i f s), [])"
  by (rule balanced_idle) (simp_all add: mutate_hold)

lemma balanced_discard: "distinct (map fst (ds_previews s)) \<Longrightarrow> balanced s {#} (discard key i s)"
  unfolding discard_def by (rule balanced_chain) (simp_all add: balanced_release mutate_previews_balanced)

lemma balanced_start: "distinct (map fst (ds_previews s)) \<Longrightarrow> balanced s {#} (start_upload key agent i s)"
  by (auto simp: start_upload_def balanced_discard intro!: balanced_idle split: option.split)

lemma balanced_orphaned: "distinct (map fst (ds_previews s)) \<Longrightarrow> balanced s {#} (orphaned u i s)"
  unfolding orphaned_def
  by (rule balanced_chain) (auto simp: balanced_release abort_engine_def intro!: balanced_idle)

lemma balanced_callback:
  assumes "distinct (map fst (ds_previews s))"
  shows "balanced s {#} (engine_callback u f s)"
proof (cases "ds_running s u")
  case None
  with assms show ?thesis by (simp add: engine_callback_def balanced_idle)
next
  case (Some p)
  obtain j b where p: "p = (j, b)" by (cases p)
  let ?m = "mutate (jb_key j) (jb_id j) (f (jb_id j)) s"
  have "engine_callback u f s = (if snd ?m then (fst ?m, []) else orphaned u (jb_id j) (fst ?m))"
    by (simp add: engine_callback_def Some p split: prod.split bool.split)
  moreover have "ds_previews (fst ?m) = ds_previews s" by (simp add: mutate_hold)
  ultimately show ?thesis
    using assms balanced_from [OF balanced_orphaned, of "fst ?m" s u "jb_id j"]
      mutate_previews_balanced [OF assms, of "jb_key j" "jb_id j" "f (jb_id j)"] by simp
qed

lemma balanced_release_all: "distinct (map fst (ds_previews s)) \<Longrightarrow> balanced s {#} (release_all ids s)"
  by (induction ids arbitrary: s) (auto intro!: balanced_chain balanced_release balanced_idle)

lemma update_fresh: "i \<notin> fst ` set ps \<Longrightarrow> AList.update i x ps = ps @ [(i, x)]"
  by (induction ps) auto

lemma balanced_add:
  assumes "distinct (map fst (ds_previews s))" "local_id_unused i s"
  shows "balanced s (taken_preview s (AddDraft key agent source i)) (add_source key agent source i s)"
proof (cases "sr_size source > max_attachment_bytes \<or> length (draft_cell key s) \<ge> max_attachments_per_message")
  case True
  then have "snd (add_source key agent source i s) \<noteq> [] \<and> fst (add_source key agent source i s) = s \<and>
      sum_list (map revoked (snd (add_source key agent source i s))) = {#}"
    by (auto simp: add_source_def add_draft_def)
  with True assms(1) show ?thesis by (auto simp: balanced_def)
next
  case False
  let ?file = "\<lparr>df_name = sr_name source, df_mime = sr_mime source, df_size = sr_size source\<rparr>"
  obtain ds where ds: "add_draft (draft_cell key s) ?file i = Some ds" using False by (simp add: add_draft_def)
  define s1 where "s1 = s\<lparr>ds_hold := hold_persist key ds (ds_hold s), ds_sources := (ds_sources s)(i \<mapsto> source),
    ds_previews := (case sr_preview source of None \<Rightarrow> ds_previews s | Some url \<Rightarrow> AList.update i url (ds_previews s))\<rparr>"
  have step: "add_source key agent source i s = chain (start_upload key agent i s1) (\<lambda>s. (s, [AddReturned True]))"
    using False ds by (simp add: add_source_def s1_def)
  have "i \<notin> fst ` set (ds_previews s)" using assms(2) by (simp add: local_id_unused_def)
  then have held: "held_previews s1 = held_previews s + taken_preview s (AddDraft key agent source i)"
    and d: "distinct (map fst (ds_previews s1))"
    using False assms(1) by (auto simp: s1_def held_previews_def update_fresh split: option.split)
  have "balanced s1 {#} (chain (start_upload key agent i s1) (\<lambda>s. (s, [AddReturned True])))"
    by (rule balanced_chain) (auto intro: balanced_start d balanced_idle)
  with held show ?thesis unfolding step balanced_def by simp
qed

lemma balanced_step:
  assumes "distinct (map fst (ds_previews s))" "draft_enabled s e"
  shows "balanced s (taken_preview s e) (draft_step s e)"
proof (cases e)
  case (AddDraft key agent source i)
  with balanced_add [OF assms(1)] assms(2) show ?thesis by simp
next
  case (RetryDraft key agent i)
  then show ?thesis
    using assms(1) balanced_discard [OF assms(1)] balanced_from [OF balanced_start]
    by (auto simp: retry_draft_def mutate_hold split: option.split)
next
  case (ClearDrafts key)
  then show ?thesis
    using assms(1) by (auto simp: clear_drafts_def intro!: balanced_chain balanced_release_all balanced_idle)
next
  case (SourceOpened n sz probe)
  have "balanced s {#} (release i (s\<lparr>ds_opening := (ds_opening s)(n := None)\<rparr>))" for i
    by (rule balanced_from [OF balanced_release]) (use assms(1) in simp_all)
  with SourceOpened assms(1) show ?thesis
    by (auto simp: source_opened_def Let_def intro!: balanced_idle split: option.split)
next
  case (SourceFailed n)
  with assms(1) show ?thesis
    by (auto simp: source_failed_def intro!: balanced_idle balanced_chain balanced_discard split: option.split)
next
  case (EngineDone u a)
  with assms(1) show ?thesis
    by (auto simp: engine_done_def mutate_hold settle_engine_def intro!: balanced_idle split: option.split)
next
  case (EngineFailed u err)
  have "ds_previews (settle_engine u i s) = ds_previews s" for i by (simp add: settle_engine_def)
  with EngineFailed assms(1) show ?thesis
    by (auto simp: engine_failed_def mutate_hold Let_def intro!: balanced_idle balanced_chain balanced_discard
        split: option.split)
qed (use assms(1) in \<open>auto intro: balanced_discard balanced_callback balanced_idle\<close>)

lemma balanced_run:
  "distinct (map fst (ds_previews s)) \<Longrightarrow> legal_events draft_step draft_enabled s es \<Longrightarrow>
     sum_list (map revoked (snd (run_events draft_step s es))) + held_previews (fst (run_events draft_step s es)) =
     held_previews s + taken_previews s es"
proof (induction es arbitrary: s)
  case (Cons e es)
  let ?s1 = "fst (draft_step s e)"
  have b: "sum_list (map revoked (snd (draft_step s e))) + held_previews ?s1 = held_previews s + taken_preview s e"
    "distinct (map fst (ds_previews ?s1))"
    using balanced_step [of s e] Cons.prems by (simp_all add: balanced_def)
  have IH: "sum_list (map revoked (snd (run_events draft_step ?s1 es))) + held_previews (fst (run_events draft_step ?s1 es))
      = held_previews ?s1 + taken_previews ?s1 es"
    using Cons.IH [OF b(2)] Cons.prems(2) by simp
  have "sum_list (map revoked (snd (run_events draft_step s (e # es)))) + held_previews (fst (run_events draft_step s (e # es)))
      = sum_list (map revoked (snd (draft_step s e))) + (held_previews ?s1 + taken_previews ?s1 es)"
    by (simp only: run_events_Cons map_append sum_list_append add.assoc IH)
  also have "\<dots> = held_previews s + taken_preview s e + taken_previews ?s1 es" by (simp only: b(1) add.assoc [symmetric])
  finally show ?case by (simp only: taken_previews.simps add.assoc)
qed simp

subsection \<open>Properties\<close>

definition sample_source :: draft_source where
  "sample_source = \<lparr>sr_name = ''a.png'', sr_mime = ''image/png'', sr_size = 3, sr_preview = Some ''blob:1''\<rparr>"

definition sample_drafting :: "draft_event list" where
  "sample_drafting = [AddDraft ''k'' ''ada'' sample_source ''d1'', SourceOpened 0 3 (None, None, None)]"

lemmas draft_eval = sample_drafting_def sample_source_def create_draft_store_def add_source_def start_upload_def
  source_opened_def draft_exists_def draft_cell_def add_draft_def local_id_unused_def placed_def jobs_def dead_def
  hold_read_def hold_persist_def create_keyed_hold_store_def max_hold_cells_def max_attachments_per_message_def
  max_attachment_bytes_def chain_def Let_def

text \<open>Removing a draft's chip always stops its upload: an engine that was not aborted is the
  one its local id's handle names, so the removal aborts it.\<close>

theorem removing_stops_the_upload:
  assumes "legal_events draft_step draft_enabled create_draft_store es"
    and "ds_running (fst (run_events draft_step create_draft_store es)) u = Some (job, False)"
  shows "AbortEngine u \<in> set (snd (draft_step (fst (run_events draft_step create_draft_store es))
    (RemoveDraft key (jb_id job))))"
proof -
  let ?s = "fst (run_events draft_step create_draft_store es)"
  have "draft_inv ?s" by (rule drafting.run_inv [OF draft_inv_start assms(1)])
  then have "ds_handles ?s (jb_id job) = Some u"
    using assms(2) by (auto simp: draft_inv_def side_ok_def handles_live_def)
  then show ?thesis by (simp add: discard_def release_def abort_engine_def)
qed

theorem removing_stops_the_upload_witness:
  "AbortEngine 1 \<in> set (snd (draft_step (fst (run_events draft_step create_draft_store sample_drafting))
    (RemoveDraft ''k'' (jb_id \<lparr>jb_key = ''k'', jb_agent = ''ada'', jb_id = ''d1''\<rparr>))))"
  by (rule removing_stops_the_upload) (simp_all add: draft_eval)

text \<open>Nothing but adding and clearing creates or evicts a cell: a late upload callback never
  brings a removed draft's cell back, and so never evicts someone else's drafts.\<close>

theorem callbacks_keep_the_cells:
  assumes "legal_events draft_step draft_enabled create_draft_store es"
    and "\<nexists>key agent source i. e = AddDraft key agent source i" "\<nexists>key. e = ClearDrafts key"
  shows "fst ` set (ds_hold (fst (draft_step (fst (run_events draft_step create_draft_store es)) e))) =
    fst ` set (ds_hold (fst (run_events draft_step create_draft_store es)))"
proof -
  let ?s = "fst (run_events draft_step create_draft_store es)"
  have "draft_inv ?s" by (rule drafting.run_inv [OF draft_inv_start assms(1)])
  then show ?thesis using same_cells_step [OF _ assms(2,3)] by (simp add: draft_inv_def same_cells_def)
qed

theorem callbacks_keep_the_cells_witness:
  "fst ` set (ds_hold (fst (draft_step (fst (run_events draft_step create_draft_store sample_drafting)) (EngineProgress 1 2 3)))) =
    fst ` set (ds_hold (fst (run_events draft_step create_draft_store sample_drafting)))"
  by (rule callbacks_keep_the_cells) (simp_all add: draft_eval)

text \<open>Every preview URL the store took over is still held for its draft or was revoked, exactly
  once each: none leaks and none is revoked twice.\<close>

theorem previews_revoked_once:
  assumes "legal_events draft_step draft_enabled create_draft_store es"
  shows "sum_list (map revoked (snd (run_events draft_step create_draft_store es))) +
      held_previews (fst (run_events draft_step create_draft_store es)) = taken_previews create_draft_store es"
  using balanced_run [OF _ assms] by (simp add: create_draft_store_def held_previews_def)

theorem previews_revoked_once_witness:
  "sum_list (map revoked (snd (run_events draft_step create_draft_store sample_drafting))) +
      held_previews (fst (run_events draft_step create_draft_store sample_drafting)) =
    taken_previews create_draft_store sample_drafting"
  by (rule previews_revoked_once) (simp add: draft_eval)

text \<open>C10: A message is sent with every file on show: when the drafts of a cell are ready, the
  attachments sent are those of the drafts, in order, all of them, ten at most.\<close>

theorem ready_message_carries_every_file:
  assumes "legal_events draft_step draft_enabled create_draft_store es"
    and "cell = draft_cell key (fst (run_events draft_step create_draft_store es))" "drafts_ready cell"
  shows "map Some (uploaded_attachments cell) = map da_attachment cell \<and>
    uploaded_ids cell = map at_id (uploaded_attachments cell) \<and> length (uploaded_ids cell) \<le> 10"
proof -
  let ?s = "fst (run_events draft_step create_draft_store es)"
  have "draft_inv ?s" by (rule drafting.run_inv [OF draft_inv_start assms(1)])
  then have ok: "drafts_ok cell" using draft_cell_ok assms(2) by (simp add: draft_inv_def)
  from ready_attachments [OF ok assms(3)]
  have m: "map Some (uploaded_attachments cell) = map da_attachment cell" .
  then have "length (uploaded_attachments cell) = length cell" by (metis length_map)
  with ok m show ?thesis by (simp add: uploaded_ids_map drafts_ok_def max_attachments_per_message_def)
qed

theorem ready_message_carries_every_file_witness:
  "map Some (uploaded_attachments
      (draft_cell ''k'' (fst (run_events draft_step create_draft_store (sample_drafting @ [EngineDone 1 sample_attachment]))))) =
    map da_attachment
      (draft_cell ''k'' (fst (run_events draft_step create_draft_store (sample_drafting @ [EngineDone 1 sample_attachment])))) \<and>
    uploaded_ids
      (draft_cell ''k'' (fst (run_events draft_step create_draft_store (sample_drafting @ [EngineDone 1 sample_attachment])))) =
    map at_id (uploaded_attachments
      (draft_cell ''k'' (fst (run_events draft_step create_draft_store (sample_drafting @ [EngineDone 1 sample_attachment]))))) \<and>
    length (uploaded_ids
      (draft_cell ''k'' (fst (run_events draft_step create_draft_store (sample_drafting @ [EngineDone 1 sample_attachment]))))) \<le> 10"
  by (rule ready_message_carries_every_file [OF _ refl])
    (simp_all add: draft_eval engine_done_def mutate_def settle_engine_def finalize_draft_def update_draft_def drafts_ready_def)

end
