(* ===== verification/VoicePanel.thy ===== *)
theory VoicePanel
  imports Json
begin

section \<open>Voice: the panel, the formatted values and the engine's frames
  (voice/conversation-panel.ts, voice/usage.ts, voice/setting-format.ts, voice/engine-frames.ts)\<close>

text \<open>
  What the conversation panel derives from the session, the numbers of the voice settings and
  usage as they are shown, and the parser of the frames the voice engine sends.
\<close>

subsection \<open>The formats a player decodes (api/voice.ts)\<close>

definition playback_formats :: "bool \<Rightarrow> string list" where
  "playback_formats plays_ogg_opus = (if plays_ogg_opus then [''opus_48000''] else []) @ [''mp3_44100'', ''mp3_22050'']"

subsection \<open>The conversation panel\<close>

datatype voice_mode = Dictation | Conversation

datatype conversation_stage = Starting | Live

definition conversation_stage :: "voice_mode option \<Rightarrow> bool \<Rightarrow> conversation_stage option" where
  "conversation_stage recording_mode listening =
     (if recording_mode \<noteq> Some Conversation then None else Some (if listening then Live else Starting))"

datatype conversation_phase = PhConnecting | PhSpeaking | PhMuted | PhThinking | PhListening

definition conversation_phase :: "bool \<Rightarrow> bool \<Rightarrow> bool \<Rightarrow> bool \<Rightarrow> conversation_phase" where
  "conversation_phase listening mic_muted speaking thinking =
     (if \<not> listening then PhConnecting
      else if speaking then PhSpeaking
      else if mic_muted then PhMuted
      else if thinking then PhThinking
      else PhListening)"

text \<open>\<open>s.lastIndexOf(c)\<close> for one character.\<close>

fun last_index_of :: "char \<Rightarrow> string \<Rightarrow> nat option" where
  "last_index_of c [] = None"
| "last_index_of c (x # xs) =
     (case last_index_of c xs of Some i \<Rightarrow> Some (Suc i) | None \<Rightarrow> if x = c then Some 0 else None)"

definition split_spoken_tail :: "string \<Rightarrow> string \<times> string" where
  "split_spoken_tail transcript =
     (case last_index_of (CHR '' '') transcript of
        None \<Rightarrow> ('''', transcript)
      | Some last_space \<Rightarrow> (take (last_space + 1) transcript, drop (last_space + 1) transcript))"

lemma last_index_of_None_iff: "last_index_of c s = None \<longleftrightarrow> c \<notin> set s"
  by (induction s) (auto split: option.split)

lemma last_index_of_drop: "last_index_of c s = Some i \<Longrightarrow> c \<notin> set (drop (Suc i) s)"
  by (induction s arbitrary: i) (auto split: option.splits if_splits simp: last_index_of_None_iff)

lemma split_spoken_tail_spec:
  "fst (split_spoken_tail t) @ snd (split_spoken_tail t) = t" "CHR '' '' \<notin> set (snd (split_spoken_tail t))"
  using last_index_of_drop [of "CHR '' ''" t]
  by (auto simp: split_spoken_tail_def last_index_of_None_iff split: option.split)

subsection \<open>Formatted values\<close>

record voice_amount =
  va_amount :: jsnum
  va_unit :: string

record voice_usage =
  vu_used :: "voice_amount option"
  vu_left :: "voice_amount option"

text \<open>\<open>Math.round\<close> and \<open>toLocaleString("en-US")\<close> of an integer.\<close>

definition js_math_round :: "rat \<Rightarrow> int" where
  "js_math_round x = \<lfloor>x + 1 / 2\<rfloor>"

fun group_thousands :: "nat \<Rightarrow> string" where
  "group_thousands n =
     (if n < 1000 then show_nat n
      else group_thousands (n div 1000) @ '','' @ pad_zeros 3 (show_nat (n mod 1000)))"

declare group_thousands.simps [simp del]

definition en_us_integer :: "int \<Rightarrow> string" where
  "en_us_integer i = (if i < 0 then ''-'' @ group_thousands (nat (- i)) else group_thousands (nat i))"

definition format_amount :: "voice_amount \<Rightarrow> string" where
  "format_amount a =
     (if va_unit a = ''usd'' then ''$'' @ to_fixed 2 (va_amount a)
      else if va_unit a = ''hours'' then to_fixed 2 (va_amount a) @ '' h''
      else if va_unit a = ''credits'' then en_us_integer (js_math_round (va_amount a)) @ '' credits''
      else to_fixed 2 (va_amount a) @ '' '' @ va_unit a)"

text \<open>The parts are joined with a middle dot; \<open>None\<close> stands for the em dash of \<open>NO_VALUE\<close>.\<close>

definition voice_usage_summary :: "voice_usage option \<Rightarrow> string option" where
  "voice_usage_summary usage =
     (let used = Option.bind usage vu_used;
          left = Option.bind usage vu_left;
          parts = List.map_filter id
            [map_option (\<lambda>a. format_amount a @ '' used'') used, map_option (\<lambda>a. format_amount a @ '' left'') left]
      in if length parts > 0 then Some (join ('' '' @ [CHR 0xB7] @ '' '') parts) else None)"

definition format_setting_number :: "string option \<Rightarrow> jsnum \<Rightarrow> string" where
  "format_setting_number unit v =
     (if unit = Some ''ms'' then to_fixed 1 (v / 1000) @ ''s'' else to_fixed 2 v)"

subsection \<open>The frames of the engine\<close>

datatype engine_frame =
  FState
| FTranscript string
| FTurnStart
| FTurnEnd string
| FTurnDropped
| FPlay string string
| FPausePlayback
| FResumePlayback
| FStopPlayback
| FError "string option" string
| FEnded string

definition parse_engine_frame :: "json option \<Rightarrow> engine_frame option" where
  "parse_engine_frame data =
     (case as_record data of
        None \<Rightarrow> None
      | Some body \<Rightarrow>
          (case as_str (field body ''type'') of
             None \<Rightarrow> None
           | Some ty \<Rightarrow>
               (if ty = ''state'' then Some FState
                else if ty = ''turn_start'' then Some FTurnStart
                else if ty = ''turn_dropped'' then Some FTurnDropped
                else if ty = ''pause_playback'' then Some FPausePlayback
                else if ty = ''resume_playback'' then Some FResumePlayback
                else if ty = ''stop_playback'' then Some FStopPlayback
                else if ty = ''transcript'' then map_option FTranscript (as_str (field body ''text''))
                else if ty = ''turn_end'' then map_option FTurnEnd (as_str (field body ''text''))
                else if ty = ''play'' then
                  (case (as_str (field body ''id''), as_str (field body ''url'')) of
                     (Some i, Some url) \<Rightarrow> Some (FPlay i url) | _ \<Rightarrow> None)
                else if ty = ''error'' then
                  map_option (FError (as_str (field body ''id''))) (as_str (field body ''message''))
                else if ty = ''ended'' then Some (FEnded (nullish (as_str (field body ''reason'')) ''''))
                else None)))"

text \<open>A frame as PROTOCOL.md writes it, with any further fields the engine may add.\<close>

fun wire_engine_frame :: "engine_frame \<Rightarrow> jobj" where
  "wire_engine_frame FState = [(''type'', JStr ''state'')]"
| "wire_engine_frame (FTranscript t) = [(''type'', JStr ''transcript''), (''text'', JStr t)]"
| "wire_engine_frame FTurnStart = [(''type'', JStr ''turn_start'')]"
| "wire_engine_frame (FTurnEnd t) = [(''type'', JStr ''turn_end''), (''text'', JStr t)]"
| "wire_engine_frame FTurnDropped = [(''type'', JStr ''turn_dropped'')]"
| "wire_engine_frame (FPlay i u) = [(''type'', JStr ''play''), (''id'', JStr i), (''url'', JStr u)]"
| "wire_engine_frame FPausePlayback = [(''type'', JStr ''pause_playback'')]"
| "wire_engine_frame FResumePlayback = [(''type'', JStr ''resume_playback'')]"
| "wire_engine_frame FStopPlayback = [(''type'', JStr ''stop_playback'')]"
| "wire_engine_frame (FError i m) =
     [(''type'', JStr ''error''), (''id'', json_of_str_opt i), (''message'', JStr m)]"
| "wire_engine_frame (FEnded r) = [(''type'', JStr ''ended''), (''reason'', JStr r)]"

lemma as_str_json_opt [simp]: "as_str (Some (json_of_str_opt i)) = i"
  by (cases i) (simp_all add: json_of_str_opt_def)

lemma engine_frame_read: "parse_engine_frame (Some (JObj (wire_engine_frame f @ extra))) = Some f"
  by (cases f) (simp_all add: parse_engine_frame_def)

text \<open>An unknown type, and a play without a url (the delivery this client never asks for).\<close>

lemma play_without_url_ignored:
  "parse_engine_frame (Some (JObj [(''type'', JStr ''play''), (''id'', JStr i)])) = None"
  by (simp add: parse_engine_frame_def)

subsection \<open>Properties\<close>

text \<open>Every frame of the voice protocol is read back as it was written, whatever fields the
  engine adds after those the client knows.\<close>

theorem engine_frames_read_back:
  "parse_engine_frame (Some (JObj (wire_engine_frame f @ extra))) = Some f"
  by (rule engine_frame_read)

text \<open>The bold tail of the live transcript is its last word: head and tail rebuild the
  transcript, and the tail holds no space.\<close>

theorem spoken_tail_is_the_last_word:
  "fst (split_spoken_tail t) @ snd (split_spoken_tail t) = t \<and> CHR '' '' \<notin> set (snd (split_spoken_tail t))"
  using split_spoken_tail_spec by blast

end
