(* ===== verification/PlayQueue.thy ===== *)
theory PlayQueue
  imports Prelude
begin

section \<open>The queue of plays of one engine session (voice/play-queue.ts)\<close>

text \<open>
  The plays the voice engine sends, in arrival order over one speaker.  A drain loop is an
  asynchronous loop, and a stop may leave an old one in flight beside a new one, so the state
  holds every play some loop is at, by the order in which the loops took them, with the abort
  controller and the outcome of that \<open>playOne\<close>.  An event is a call of the queue, a settled
  promise, a callback of the speaker, the watchdog, or the continuation of a loop.
\<close>

subsection \<open>State, events and outputs\<close>

record play =
  pl_id :: string
  pl_path :: string

datatype play_stage = Resolving | WaitingResume string | Proceeding string | Sounding | Ending

record play_loop =
  lo_epoch :: nat
  lo_play :: play
  lo_aborted :: bool
  lo_started :: bool
  lo_gave_up :: bool
  lo_stage :: play_stage

record play_queue =
  pq_queue :: "play list"
  pq_draining :: bool
  pq_abort :: "nat option"
  pq_epoch :: nat
  pq_paused :: bool
  pq_on_resume :: "nat option"
  pq_sounding :: bool
  pq_loops :: "nat \<rightharpoonup> play_loop"
  pq_next :: nat

datatype play_report = ReportStarted | ReportFinished | ReportFailed

datatype play_event =
  Enqueue string string
| PausePlays
| ResumePlays
| StopPlays
| UrlResolved nat string
| UrlRejected nat
| LoopProceeds nat
| SoundStarted nat
| SpeakerDone nat
| SpeakerRejected nat
| Watchdog nat
| LoopNext nat

datatype play_out =
  OnSpeaking bool
| ResolveUrl nat string
| StartWatchdog nat nat
| ClearWatchdog nat
| SpeakerPlay nat string
| SpeakerPause
| SpeakerResume
| AbortPlay nat
| Report string play_report
| OnPlayFailed string

type_synonym play_result = "play_queue \<times> play_out list"

definition play_start_timeout_ms :: nat where "play_start_timeout_ms = 15000"

definition create_play_queue :: play_queue where
  "create_play_queue = \<lparr>pq_queue = [], pq_draining = False, pq_abort = None, pq_epoch = 0, pq_paused = False,
     pq_on_resume = None, pq_sounding = False, pq_loops = Map.empty, pq_next = 0\<rparr>"

subsection \<open>The handlers\<close>

definition set_draining :: "bool \<Rightarrow> play_queue \<Rightarrow> play_result" where
  "set_draining v s = (if pq_draining s = v then (s, []) else (s\<lparr>pq_draining := v\<rparr>, [OnSpeaking v]))"

text \<open>The head of the drain loop: the next play of the queue, if the loop's epoch still runs.\<close>

definition take_next :: "nat \<Rightarrow> play_queue \<Rightarrow> play_result" where
  "take_next my_epoch s =
     (if pq_epoch s \<noteq> my_epoch then (s, [])
      else case pq_queue s of
             [] \<Rightarrow> set_draining False s
           | play # rest \<Rightarrow>
               (s\<lparr>pq_queue := rest, pq_abort := Some (pq_next s),
                  pq_loops := (pq_loops s)(pq_next s \<mapsto>
                    \<lparr>lo_epoch = my_epoch, lo_play = play, lo_aborted = False, lo_started = False,
                     lo_gave_up = False, lo_stage = Resolving\<rparr>),
                  pq_next := Suc (pq_next s)\<rparr>,
                [ResolveUrl (pq_next s) (pl_path play)]))"

definition drain :: "play_queue \<Rightarrow> play_result" where
  "drain s = (if pq_draining s then (s, []) else chain (set_draining True s) (\<lambda>s. take_next (pq_epoch s) s))"

definition enqueue :: "string \<Rightarrow> string \<Rightarrow> play_queue \<Rightarrow> play_result" where
  "enqueue i path s = drain (s\<lparr>pq_queue := pq_queue s @ [\<lparr>pl_id = i, pl_path = path\<rparr>]\<rparr>)"

definition set_loop :: "nat \<Rightarrow> (play_loop \<Rightarrow> play_loop) \<Rightarrow> play_queue \<Rightarrow> play_queue" where
  "set_loop n f s = s\<lparr>pq_loops := (pq_loops s)(n := map_option f (pq_loops s n))\<rparr>"

text \<open>The \<open>finally\<close> of \<open>playOne\<close>; the watchdog was set once the play was handed to the speaker.\<close>

definition finish_play :: "nat \<Rightarrow> bool \<Rightarrow> play_queue \<Rightarrow> play_result" where
  "finish_play n watched s =
     (let s = (if pq_abort s = Some n then s\<lparr>pq_abort := None, pq_sounding := False\<rparr> else s)
      in (set_loop n (\<lambda>l. l\<lparr>lo_stage := Ending\<rparr>) s, if watched then [ClearWatchdog n] else []))"

text \<open>The \<open>catch\<close> of \<open>playOne\<close>.\<close>

definition fail_play :: "nat \<Rightarrow> bool \<Rightarrow> play_loop \<Rightarrow> play_queue \<Rightarrow> play_result" where
  "fail_play n watched l s =
     chain (s, if lo_aborted l \<and> \<not> lo_gave_up l then []
               else [Report (pl_id (lo_play l)) ReportFailed, OnPlayFailed (pl_id (lo_play l))])
       (finish_play n watched)"

definition url_resolved :: "nat \<Rightarrow> string \<Rightarrow> play_queue \<Rightarrow> play_result" where
  "url_resolved n url s =
     (if pq_paused s then ((set_loop n (\<lambda>l. l\<lparr>lo_stage := WaitingResume url\<rparr>) s)\<lparr>pq_on_resume := Some n\<rparr>, [])
      else (set_loop n (\<lambda>l. l\<lparr>lo_stage := Proceeding url\<rparr>) s, []))"

definition loop_proceeds :: "nat \<Rightarrow> string \<Rightarrow> play_loop \<Rightarrow> play_queue \<Rightarrow> play_result" where
  "loop_proceeds n url l s =
     (if pq_epoch s \<noteq> lo_epoch l then finish_play n False s
      else ((set_loop n (\<lambda>l. l\<lparr>lo_stage := Sounding\<rparr>) s)\<lparr>pq_sounding := True\<rparr>,
            [StartWatchdog n play_start_timeout_ms, SpeakerPlay n url]))"

definition sound_started :: "nat \<Rightarrow> play_loop \<Rightarrow> play_queue \<Rightarrow> play_result" where
  "sound_started n l s =
     (set_loop n (\<lambda>l. l\<lparr>lo_started := True\<rparr>) s,
      if \<not> lo_aborted l then [Report (pl_id (lo_play l)) ReportStarted] else [])"

definition speaker_done :: "nat \<Rightarrow> play_loop \<Rightarrow> play_queue \<Rightarrow> play_result" where
  "speaker_done n l s =
     (if lo_gave_up l then fail_play n True l s
      else chain (s, if \<not> lo_aborted l then [Report (pl_id (lo_play l)) ReportFinished] else []) (finish_play n True))"

definition watchdog :: "nat \<Rightarrow> play_loop \<Rightarrow> play_queue \<Rightarrow> play_result" where
  "watchdog n l s =
     (if lo_started l then (s, [])
      else (set_loop n (\<lambda>l. l\<lparr>lo_gave_up := True, lo_aborted := True\<rparr>) s, [AbortPlay n]))"

definition loop_next :: "nat \<Rightarrow> play_loop \<Rightarrow> play_queue \<Rightarrow> play_result" where
  "loop_next n l s = take_next (lo_epoch l) (s\<lparr>pq_loops := (pq_loops s)(n := None)\<rparr>)"

definition pause_plays :: "play_queue \<Rightarrow> play_result" where
  "pause_plays s = (s\<lparr>pq_paused := True\<rparr>, if pq_sounding s then [SpeakerPause] else [])"

text \<open>\<open>onResume?.(); onResume = null\<close>: the one waiter it names proceeds.\<close>

definition wake :: "play_loop \<Rightarrow> play_loop" where
  "wake l = (case lo_stage l of WaitingResume url \<Rightarrow> l\<lparr>lo_stage := Proceeding url\<rparr> | _ \<Rightarrow> l)"

definition wake_resume :: "play_queue \<Rightarrow> play_queue" where
  "wake_resume s = (case pq_on_resume s of None \<Rightarrow> s | Some n \<Rightarrow> (set_loop n wake s)\<lparr>pq_on_resume := None\<rparr>)"

definition resume_plays :: "play_queue \<Rightarrow> play_result" where
  "resume_plays s =
     (let s = wake_resume (s\<lparr>pq_paused := False\<rparr>) in (s, if pq_sounding s then [SpeakerResume] else []))"

definition stop_plays :: "play_queue \<Rightarrow> play_result" where
  "stop_plays s =
     chain
       (case pq_abort s of
          None \<Rightarrow> (s\<lparr>pq_queue := [], pq_epoch := Suc (pq_epoch s)\<rparr>, [])
        | Some n \<Rightarrow>
            (set_loop n (\<lambda>l. l\<lparr>lo_aborted := True\<rparr>) (s\<lparr>pq_queue := [], pq_epoch := Suc (pq_epoch s)\<rparr>), [AbortPlay n]))
       (\<lambda>s. set_draining False (wake_resume (s\<lparr>pq_abort := None, pq_sounding := False, pq_paused := False\<rparr>)))"

definition at_loop :: "nat \<Rightarrow> (play_loop \<Rightarrow> play_queue \<Rightarrow> play_result) \<Rightarrow> play_queue \<Rightarrow> play_result" where
  "at_loop n f s = (case pq_loops s n of None \<Rightarrow> (s, []) | Some l \<Rightarrow> f l s)"

fun play_step :: "play_queue \<Rightarrow> play_event \<Rightarrow> play_result" where
  "play_step s (Enqueue i path) = enqueue i path s"
| "play_step s PausePlays = pause_plays s"
| "play_step s ResumePlays = resume_plays s"
| "play_step s StopPlays = stop_plays s"
| "play_step s (UrlResolved n url) = url_resolved n url s"
| "play_step s (UrlRejected n) = at_loop n (fail_play n False) s"
| "play_step s (LoopProceeds n) =
     at_loop n (\<lambda>l. case lo_stage l of Proceeding url \<Rightarrow> loop_proceeds n url l | _ \<Rightarrow> (\<lambda>s. (s, []))) s"
| "play_step s (SoundStarted n) = at_loop n (sound_started n) s"
| "play_step s (SpeakerDone n) = at_loop n (speaker_done n) s"
| "play_step s (SpeakerRejected n) = at_loop n (fail_play n True) s"
| "play_step s (Watchdog n) = at_loop n (watchdog n) s"
| "play_step s (LoopNext n) = at_loop n (loop_next n) s"

text \<open>What can happen: a promise settles once, the speaker reports the first sound of a play once.\<close>

definition loop_is :: "nat \<Rightarrow> (play_loop \<Rightarrow> bool) \<Rightarrow> play_queue \<Rightarrow> bool" where
  "loop_is n P s \<longleftrightarrow> (case pq_loops s n of None \<Rightarrow> False | Some l \<Rightarrow> P l)"

fun play_enabled :: "play_queue \<Rightarrow> play_event \<Rightarrow> bool" where
  "play_enabled s (UrlResolved n url) = loop_is n (\<lambda>l. lo_stage l = Resolving) s"
| "play_enabled s (UrlRejected n) = loop_is n (\<lambda>l. lo_stage l = Resolving) s"
| "play_enabled s (LoopProceeds n) = loop_is n (\<lambda>l. \<exists>url. lo_stage l = Proceeding url) s"
| "play_enabled s (SoundStarted n) = loop_is n (\<lambda>l. lo_stage l = Sounding \<and> \<not> lo_started l) s"
| "play_enabled s (SpeakerDone n) = loop_is n (\<lambda>l. lo_stage l = Sounding) s"
| "play_enabled s (SpeakerRejected n) = loop_is n (\<lambda>l. lo_stage l = Sounding) s"
| "play_enabled s (Watchdog n) = loop_is n (\<lambda>l. lo_stage l = Sounding \<and> \<not> lo_gave_up l) s"
| "play_enabled s (LoopNext n) = loop_is n (\<lambda>l. lo_stage l = Ending) s"
| "play_enabled s e = True"

subsection \<open>One loop at a time is the queue's own\<close>

definition current :: "play_queue \<Rightarrow> nat \<Rightarrow> play_loop \<Rightarrow> bool" where
  "current s n l \<longleftrightarrow> pq_loops s n = Some l \<and> lo_epoch l = pq_epoch s"

definition loop_ok :: "play_queue \<Rightarrow> nat \<Rightarrow> play_loop \<Rightarrow> bool" where
  "loop_ok s n l \<longleftrightarrow> n < pq_next s \<and> lo_epoch l \<le> pq_epoch s \<and> (lo_gave_up l \<longrightarrow> lo_aborted l) \<and>
     (if lo_epoch l = pq_epoch s
      then pq_draining s \<and> (lo_aborted l \<longrightarrow> lo_gave_up l) \<and>
           pq_abort s = (if lo_stage l = Ending then None else Some n) \<and> pq_sounding s = (lo_stage l = Sounding)
      else lo_aborted l \<or> lo_stage l = Ending)"

definition play_inv :: "play_queue \<Rightarrow> bool" where
  "play_inv s \<longleftrightarrow> (\<forall>n l. pq_loops s n = Some l \<longrightarrow> loop_ok s n l) \<and>
     (\<forall>n m l k. current s n l \<longrightarrow> current s m k \<longrightarrow> n = m) \<and>
     (pq_draining s \<longrightarrow> (\<exists>n l. current s n l)) \<and>
     (\<not> pq_draining s \<longrightarrow> pq_queue s = [] \<and> pq_abort s = None \<and> \<not> pq_sounding s)"

lemma play_inv_start: "play_inv create_play_queue"
  by (simp add: play_inv_def create_play_queue_def current_def)

lemma play_inv_loop: "play_inv s \<Longrightarrow> pq_loops s n = Some l \<Longrightarrow> loop_ok s n l"
  by (simp add: play_inv_def)

lemma play_inv_idle: "play_inv s \<Longrightarrow> \<not> pq_draining s \<Longrightarrow> \<not> current s n l"
  by (auto simp: play_inv_def current_def loop_ok_def)

lemma set_loop_fields [simp]:
  "pq_queue (set_loop n f s) = pq_queue s" "pq_draining (set_loop n f s) = pq_draining s"
  "pq_abort (set_loop n f s) = pq_abort s" "pq_epoch (set_loop n f s) = pq_epoch s"
  "pq_paused (set_loop n f s) = pq_paused s" "pq_on_resume (set_loop n f s) = pq_on_resume s"
  "pq_sounding (set_loop n f s) = pq_sounding s" "pq_next (set_loop n f s) = pq_next s"
  "pq_loops (set_loop n f s) = (pq_loops s)(n := map_option f (pq_loops s n))"
  by (simp_all add: set_loop_def)

text \<open>A change of one loop that keeps its epoch, with the flags it may set.\<close>

lemma play_inv_set_loop:
  assumes "play_inv s" "pq_loops s n = Some l" "lo_epoch (f l) = lo_epoch l"
    "s' = (set_loop n f s)\<lparr>pq_abort := ab, pq_sounding := so, pq_on_resume := re\<rparr>"
    "loop_ok s' n (f l)"
    "lo_epoch l \<noteq> pq_epoch s \<Longrightarrow> ab = pq_abort s \<and> so = pq_sounding s"
  shows "play_inv s'"
proof -
  have other: "loop_ok s' m k" if "pq_loops s m = Some k" "m \<noteq> n" for m k
  proof -
    have ok: "loop_ok s m k" by (rule play_inv_loop [OF assms(1) that(1)])
    show ?thesis
    proof (cases "lo_epoch k = pq_epoch s")
      case True
      then have "lo_epoch l \<noteq> pq_epoch s"
        using assms(1,2) that unfolding play_inv_def current_def by blast
      with ok assms(6) show ?thesis by (simp add: loop_ok_def assms(4))
    next
      case False
      with ok show ?thesis by (simp add: loop_ok_def assms(4))
    qed
  qed
  have cur: "current s' m k \<longleftrightarrow> (if m = n then k = f l \<and> lo_epoch l = pq_epoch s else current s m k)" for m k
    using assms(2,3) by (auto simp: current_def assms(4))
  have "\<And>m k. pq_loops s' m = Some k \<Longrightarrow> loop_ok s' m k"
    using other assms(2,5) by (auto simp: assms(4) split: if_splits)
  moreover have "m = m'" if "current s' m k" "current s' m' k'" for m m' k k'
  proof -
    have "current s m (if m = n then l else k)" "current s m' (if m' = n then l else k')"
      using that(1) [unfolded cur] that(2) [unfolded cur] assms(2) by (auto simp: current_def split: if_splits)
    then show ?thesis using assms(1) unfolding play_inv_def by blast
  qed
  moreover have "pq_draining s' \<Longrightarrow> \<exists>m k. current s' m k"
  proof -
    assume "pq_draining s'"
    then obtain m k where "current s m k" using assms(1) by (auto simp: play_inv_def assms(4))
    then have "current s' m (if m = n then f l else k)" using assms(2,3) by (auto simp: current_def assms(4))
    then show ?thesis by blast
  qed
  moreover have "\<not> pq_draining s' \<Longrightarrow> pq_queue s' = [] \<and> pq_abort s' = None \<and> \<not> pq_sounding s'"
  proof -
    assume d: "\<not> pq_draining s'"
    then have nd: "\<not> pq_draining s" by (simp add: assms(4))
    then have "lo_epoch l \<noteq> pq_epoch s" using play_inv_idle [OF assms(1) nd, of n l] assms(2) by (simp add: current_def)
    with nd assms(1,6) show ?thesis by (simp add: play_inv_def assms(4))
  qed
  ultimately show ?thesis unfolding play_inv_def by blast
qed

lemma play_inv_finish:
  assumes "play_inv s" "pq_loops s n = Some l"
  shows "play_inv (fst (finish_play n w s))"
proof -
  let ?ab = "if pq_abort s = Some n then None else pq_abort s"
  let ?so = "if pq_abort s = Some n then False else pq_sounding s"
  let ?s = "(set_loop n (\<lambda>l. l\<lparr>lo_stage := Ending\<rparr>) s)\<lparr>pq_abort := ?ab, pq_sounding := ?so, pq_on_resume := pq_on_resume s\<rparr>"
  have ok: "loop_ok s n l" by (rule play_inv_loop [OF assms])
  have old: "pq_abort s \<noteq> Some n" if "lo_epoch l \<noteq> pq_epoch s"
  proof
    assume ab: "pq_abort s = Some n"
    then have "pq_draining s" using assms(1) by (auto simp: play_inv_def)
    then obtain m k where cur: "current s m k" using assms(1) by (auto simp: play_inv_def)
    then have "loop_ok s m k" by (intro play_inv_loop [OF assms(1)]) (simp add: current_def)
    with cur ab have "m = n" by (auto simp: loop_ok_def current_def split: if_splits)
    with cur assms(2) that show False by (simp add: current_def)
  qed
  have "play_inv ?s"
    by (rule play_inv_set_loop [OF assms _ refl])
      (use ok old in \<open>auto simp: loop_ok_def split: if_splits\<close>)
  moreover have "fst (finish_play n w s) = ?s" by (simp add: finish_play_def set_loop_def)
  ultimately show ?thesis by simp
qed

lemma play_inv_fail:
  "play_inv s \<Longrightarrow> pq_loops s n = Some l \<Longrightarrow> play_inv (fst (fail_play n w l s))"
  by (simp add: fail_play_def play_inv_finish)

lemma play_inv_change:
  assumes "play_inv s" "pq_loops s n = Some l" "lo_epoch (f l) = lo_epoch l"
    "loop_ok ((set_loop n f s)\<lparr>pq_on_resume := re\<rparr>) n (f l)"
  shows "play_inv ((set_loop n f s)\<lparr>pq_on_resume := re\<rparr>)"
proof -
  let ?s = "(set_loop n f s)\<lparr>pq_abort := pq_abort s, pq_sounding := pq_sounding s, pq_on_resume := re\<rparr>"
  have eq: "?s = (set_loop n f s)\<lparr>pq_on_resume := re\<rparr>" by (simp add: set_loop_def)
  have "play_inv ?s" by (rule play_inv_set_loop [where f = f, OF assms(1-3) refl]) (use assms(4) in \<open>simp_all only: eq simp_thms\<close>)
  then show ?thesis by (simp only: eq)
qed

lemma play_inv_url_resolved:
  assumes "play_inv s" "play_enabled s (UrlResolved n url)"
  shows "play_inv (fst (url_resolved n url s))"
proof -
  obtain l where l: "pq_loops s n = Some l" "lo_stage l = Resolving"
    using assms(2) by (auto simp: loop_is_def split: option.splits)
  have ok: "loop_ok s n l" by (rule play_inv_loop [OF assms(1) l(1)])
  have "play_inv ((set_loop n (\<lambda>l. l\<lparr>lo_stage := WaitingResume url\<rparr>) s)\<lparr>pq_on_resume := Some n\<rparr>)"
    by (rule play_inv_change [OF assms(1) l(1)]) (use ok l(2) in \<open>auto simp: loop_ok_def split: if_splits\<close>)
  moreover have "play_inv ((set_loop n (\<lambda>l. l\<lparr>lo_stage := Proceeding url\<rparr>) s)\<lparr>pq_on_resume := pq_on_resume s\<rparr>)"
    by (rule play_inv_change [OF assms(1) l(1)]) (use ok l(2) in \<open>auto simp: loop_ok_def split: if_splits\<close>)
  ultimately show ?thesis by (simp add: url_resolved_def set_loop_def)
qed

lemma play_inv_proceeds:
  assumes "play_inv s" "pq_loops s n = Some l" "lo_stage l = Proceeding url"
  shows "play_inv (fst (loop_proceeds n url l s))"
proof (cases "pq_epoch s = lo_epoch l")
  case False
  then show ?thesis using play_inv_finish [OF assms(1,2)] by (simp add: loop_proceeds_def)
next
  case True
  have ok: "loop_ok s n l" by (rule play_inv_loop [OF assms(1,2)])
  let ?s = "(set_loop n (\<lambda>l. l\<lparr>lo_stage := Sounding\<rparr>) s)\<lparr>pq_abort := pq_abort s, pq_sounding := True, pq_on_resume := pq_on_resume s\<rparr>"
  have "play_inv ?s"
    by (rule play_inv_set_loop [OF assms(1,2) _ refl])
      (use ok assms(3) True in \<open>auto simp: loop_ok_def split: if_splits\<close>)
  moreover have "fst (loop_proceeds n url l s) = ?s" using True by (simp add: loop_proceeds_def set_loop_def)
  ultimately show ?thesis by simp
qed

lemma set_loop_same: "s\<lparr>pq_on_resume := pq_on_resume s\<rparr> = s"
  by simp

lemma play_inv_sound_started:
  assumes "play_inv s" "pq_loops s n = Some l"
  shows "play_inv (fst (sound_started n l s))"
proof -
  have ok: "loop_ok s n l" by (rule play_inv_loop [OF assms])
  have "play_inv ((set_loop n (\<lambda>l. l\<lparr>lo_started := True\<rparr>) s)\<lparr>pq_on_resume := pq_on_resume s\<rparr>)"
    by (rule play_inv_change [OF assms]) (use ok in \<open>auto simp: loop_ok_def split: if_splits\<close>)
  then show ?thesis by (simp add: sound_started_def set_loop_def)
qed

lemma play_inv_watchdog:
  assumes "play_inv s" "pq_loops s n = Some l"
  shows "play_inv (fst (watchdog n l s))"
proof -
  have ok: "loop_ok s n l" by (rule play_inv_loop [OF assms])
  have "play_inv ((set_loop n (\<lambda>l. l\<lparr>lo_gave_up := True, lo_aborted := True\<rparr>) s)\<lparr>pq_on_resume := pq_on_resume s\<rparr>)"
    by (rule play_inv_change [OF assms]) (use ok in \<open>auto simp: loop_ok_def split: if_splits\<close>)
  then show ?thesis using assms(1) by (simp add: watchdog_def set_loop_def)
qed

lemma play_inv_speaker_done:
  "play_inv s \<Longrightarrow> pq_loops s n = Some l \<Longrightarrow> play_inv (fst (speaker_done n l s))"
  by (simp add: speaker_done_def play_inv_fail play_inv_finish)

lemma play_inv_wake: "play_inv s \<Longrightarrow> play_inv (wake_resume s)"
proof (cases "pq_on_resume s")
  case (Some n)
  assume inv: "play_inv s"
  show ?thesis
  proof (cases "pq_loops s n")
    case None
    then have "wake_resume s = s\<lparr>pq_on_resume := None\<rparr>"
      by (simp add: wake_resume_def Some set_loop_def fun_upd_idem)
    with inv show ?thesis by (simp add: play_inv_def loop_ok_def current_def)
  next
    case l: (Some l)
    have ok: "loop_ok s n l" by (rule play_inv_loop [OF inv l])
    have "play_inv ((set_loop n wake s)\<lparr>pq_on_resume := None\<rparr>)"
      by (rule play_inv_change [OF inv l])
        (use ok in \<open>auto simp: loop_ok_def wake_def split: if_splits play_stage.splits\<close>)
    then show ?thesis by (simp add: wake_resume_def Some)
  qed
qed (simp add: wake_resume_def)

lemma play_inv_paused [simp]: "play_inv (s\<lparr>pq_paused := b\<rparr>) = play_inv s"
  by (simp add: play_inv_def loop_ok_def current_def)

text \<open>Between two plays the queue has no loop of its own.\<close>

definition between :: "play_queue \<Rightarrow> bool" where
  "between s \<longleftrightarrow> (\<forall>n l. pq_loops s n = Some l \<longrightarrow> n < pq_next s \<and> lo_epoch l < pq_epoch s \<and>
     (lo_gave_up l \<longrightarrow> lo_aborted l) \<and> (lo_aborted l \<or> lo_stage l = Ending)) \<and>
     pq_abort s = None \<and> \<not> pq_sounding s"

lemma between_loop_ok: "between s \<Longrightarrow> pq_loops s n = Some l \<Longrightarrow> loop_ok s n l"
  by (fastforce simp: between_def loop_ok_def)

lemma between_current: "between s \<Longrightarrow> \<not> current s n l"
  by (fastforce simp: between_def current_def)

lemma idle_between: "play_inv s \<Longrightarrow> \<not> pq_draining s \<Longrightarrow> between s"
proof -
  assume a: "play_inv s" "\<not> pq_draining s"
  have "n < pq_next s \<and> lo_epoch l < pq_epoch s \<and> (lo_gave_up l \<longrightarrow> lo_aborted l) \<and> (lo_aborted l \<or> lo_stage l = Ending)"
    if l: "pq_loops s n = Some l" for n l
  proof -
    have "lo_epoch l \<noteq> pq_epoch s" using play_inv_idle [OF a, of n l] l by (simp add: current_def)
    with play_inv_loop [OF a(1) l] show ?thesis by (simp add: loop_ok_def)
  qed
  with a show ?thesis by (simp add: between_def play_inv_def)
qed

lemma between_play_inv:
  "between s \<Longrightarrow> \<not> pq_draining s \<Longrightarrow> pq_queue s = [] \<Longrightarrow> play_inv s"
  using between_loop_ok between_current unfolding play_inv_def by (auto simp: between_def)

lemma play_inv_take_next:
  assumes "between s" "pq_draining s"
  shows "play_inv (fst (take_next (pq_epoch s) s))"
proof (cases "pq_queue s")
  case Nil
  have "between (s\<lparr>pq_draining := False\<rparr>)" using assms(1) by (simp add: between_def)
  from between_play_inv [OF this] show ?thesis
    using Nil assms(2) by (simp add: take_next_def set_draining_def)
next
  case (Cons p rest)
  let ?l = "\<lparr>lo_epoch = pq_epoch s, lo_play = p, lo_aborted = False, lo_started = False, lo_gave_up = False,
    lo_stage = Resolving\<rparr>"
  let ?s = "s\<lparr>pq_queue := rest, pq_abort := Some (pq_next s), pq_loops := (pq_loops s)(pq_next s \<mapsto> ?l),
    pq_next := Suc (pq_next s)\<rparr>"
  have ok: "loop_ok ?s n l" if "pq_loops ?s n = Some l" for n l
    using that assms by (fastforce simp: between_def loop_ok_def split: if_splits)
  have cur: "current ?s n l \<longleftrightarrow> n = pq_next s \<and> l = ?l" for n l
    using between_current [OF assms(1), of n l] by (auto simp: current_def)
  have one: "\<forall>n m l k. current ?s n l \<longrightarrow> current ?s m k \<longrightarrow> n = m" using cur by blast
  have ex: "\<exists>n l. current ?s n l" using cur by blast
  have "pq_draining ?s" using assms(2) by simp
  with ok one ex have "play_inv ?s" unfolding play_inv_def by blast
  then show ?thesis by (simp add: take_next_def Cons)
qed

lemma play_inv_enqueue: "play_inv s \<Longrightarrow> play_inv (fst (enqueue i path s))"
proof (cases "pq_draining s")
  case True
  assume "play_inv s"
  with True show ?thesis
    by (simp add: enqueue_def drain_def play_inv_def loop_ok_def current_def)
next
  case False
  assume inv: "play_inv s"
  let ?s = "s\<lparr>pq_queue := pq_queue s @ [\<lparr>pl_id = i, pl_path = path\<rparr>], pq_draining := True\<rparr>"
  have "between ?s" using idle_between [OF inv False] by (simp add: between_def)
  from play_inv_take_next [OF this] show ?thesis
    using False by (simp add: enqueue_def drain_def set_draining_def)
qed

lemma play_inv_loop_next:
  assumes "play_inv s" "pq_loops s n = Some l" "lo_stage l = Ending"
  shows "play_inv (fst (loop_next n l s))"
proof (cases "lo_epoch l = pq_epoch s")
  case True
  let ?s = "s\<lparr>pq_loops := (pq_loops s)(n := None)\<rparr>"
  have ok: "loop_ok s n l" by (rule play_inv_loop [OF assms(1,2)])
  have "between ?s" unfolding between_def
  proof (intro conjI allI impI)
    fix m k assume m: "pq_loops ?s m = Some k"
    then have mk: "pq_loops s m = Some k" "m \<noteq> n" by (auto split: if_splits)
    have "lo_epoch k \<noteq> pq_epoch s"
      using assms(1,2) True mk unfolding play_inv_def current_def by blast
    with play_inv_loop [OF assms(1) mk(1)]
    show "m < pq_next ?s" "lo_epoch k < pq_epoch ?s" "lo_gave_up k \<Longrightarrow> lo_aborted k" "lo_aborted k \<or> lo_stage k = Ending"
      by (simp_all add: loop_ok_def)
  qed (use ok True assms(3) in \<open>auto simp: loop_ok_def\<close>)
  moreover have "pq_draining ?s" using ok True by (simp add: loop_ok_def)
  ultimately show ?thesis using play_inv_take_next [of ?s] True by (simp add: loop_next_def)
next
  case False
  have cur: "current (s\<lparr>pq_loops := (pq_loops s)(n := None)\<rparr>) m k \<longleftrightarrow> current s m k" for m k
    using False assms(2) by (auto simp: current_def)
  have "play_inv (s\<lparr>pq_loops := (pq_loops s)(n := None)\<rparr>)"
    using assms(1) unfolding play_inv_def cur by (auto simp: loop_ok_def split: if_splits)
  with False show ?thesis by (simp add: loop_next_def take_next_def)
qed

lemma wake_resume_fields [simp]:
  "pq_queue (wake_resume s) = pq_queue s" "pq_draining (wake_resume s) = pq_draining s"
  "pq_abort (wake_resume s) = pq_abort s" "pq_epoch (wake_resume s) = pq_epoch s"
  "pq_sounding (wake_resume s) = pq_sounding s" "pq_next (wake_resume s) = pq_next s"
  by (simp_all add: wake_resume_def split: option.split)

lemma wake_fields [simp]:
  "lo_epoch (wake l) = lo_epoch l" "lo_aborted (wake l) = lo_aborted l" "lo_gave_up (wake l) = lo_gave_up l"
  "lo_play (wake l) = lo_play l" "(lo_stage (wake l) = Ending) = (lo_stage l = Ending)"
  by (simp_all add: wake_def split: play_stage.split)

lemma wake_resume_loops:
  "pq_loops (wake_resume s) n = Some l' \<Longrightarrow> \<exists>l. pq_loops s n = Some l \<and> (l' = l \<or> l' = wake l)"
  by (auto simp: wake_resume_def split: option.splits if_splits)

lemma between_wake: "between s \<Longrightarrow> between (wake_resume s)"
  unfolding between_def by (fastforce dest!: wake_resume_loops)

lemma play_inv_stop: "play_inv s \<Longrightarrow> play_inv (fst (stop_plays s))"
proof -
  assume inv: "play_inv s"
  let ?s0 = "s\<lparr>pq_queue := [], pq_epoch := Suc (pq_epoch s)\<rparr>"
  define s1 where "s1 = (case pq_abort s of None \<Rightarrow> ?s0 | Some n \<Rightarrow> set_loop n (\<lambda>l. l\<lparr>lo_aborted := True\<rparr>) ?s0)"
  let ?s2 = "wake_resume (s1\<lparr>pq_abort := None, pq_sounding := False, pq_paused := False\<rparr>)"
  have "between (s1\<lparr>pq_abort := None, pq_sounding := False, pq_paused := False\<rparr>)"
    unfolding between_def
  proof (intro conjI allI impI)
    fix n l' assume l': "pq_loops (s1\<lparr>pq_abort := None, pq_sounding := False, pq_paused := False\<rparr>) n = Some l'"
    then obtain l where l: "pq_loops s n = Some l"
      "l' = (if pq_abort s = Some n then l\<lparr>lo_aborted := True\<rparr> else l)"
      by (auto simp: s1_def split: option.splits if_splits)
    from play_inv_loop [OF inv l(1)] l(2)
    show "n < pq_next (s1\<lparr>pq_abort := None, pq_sounding := False, pq_paused := False\<rparr>)"
      "lo_epoch l' < pq_epoch (s1\<lparr>pq_abort := None, pq_sounding := False, pq_paused := False\<rparr>)"
      "lo_gave_up l' \<Longrightarrow> lo_aborted l'" "lo_aborted l' \<or> lo_stage l' = Ending"
      by (auto simp: loop_ok_def s1_def split: option.splits if_splits)
  qed simp_all
  from between_wake [OF this] have b: "between ?s2" .
  have fields: "pq_queue ?s2 = []" by (simp add: s1_def split: option.split)
  have "between (?s2\<lparr>pq_draining := False\<rparr>)" using b by (simp add: between_def)
  from between_play_inv [OF this] fields have "play_inv (?s2\<lparr>pq_draining := False\<rparr>)" by simp
  moreover have "fst (stop_plays s) = ?s2\<lparr>pq_draining := False\<rparr>"
  proof -
    have "fst (set_draining False t) = t\<lparr>pq_draining := False\<rparr>" for t by (simp add: set_draining_def)
    then show ?thesis by (simp add: stop_plays_def s1_def split: option.split)
  qed
  ultimately show ?thesis by simp
qed

lemma play_inv_step: "play_inv s \<Longrightarrow> play_enabled s e \<Longrightarrow> play_inv (fst (play_step s e))"
proof (cases e)
  case (UrlResolved n url)
  assume "play_inv s" "play_enabled s e"
  with UrlResolved show ?thesis using play_inv_url_resolved by simp
qed (auto simp: at_loop_def loop_is_def play_inv_enqueue play_inv_stop play_inv_fail play_inv_proceeds
    play_inv_sound_started play_inv_speaker_done play_inv_watchdog play_inv_loop_next
    pause_plays_def resume_plays_def play_inv_wake split: option.splits play_stage.split)

interpretation playing: machine play_step play_enabled play_inv
  by unfold_locales (rule play_inv_step)

subsection \<open>What is reported\<close>

fun ended :: "play_out \<Rightarrow> string list" where
  "ended (Report i r) = (if r = ReportStarted then [] else [i])"
| "ended x = []"

definition ended_ids :: "play_out list \<Rightarrow> string list" where
  "ended_ids os = concat (map ended os)"

definition pending_ids :: "play_queue \<Rightarrow> string list" where
  "pending_ids s =
     (case pq_abort s of None \<Rightarrow> [] | Some n \<Rightarrow> (case pq_loops s n of None \<Rightarrow> [] | Some l \<Rightarrow> [pl_id (lo_play l)])) @
     map pl_id (pq_queue s)"

fun enqueued :: "play_event \<Rightarrow> string list" where
  "enqueued (Enqueue i path) = [i]"
| "enqueued e = []"

lemma ended_ids_simps [simp]:
  "ended_ids [] = []" "ended_ids (x # os) = ended x @ ended_ids os" "ended_ids (xs @ ys) = ended_ids xs @ ended_ids ys"
  by (simp_all add: ended_ids_def)

definition unstopped_inv :: "play_queue \<Rightarrow> bool" where
  "unstopped_inv s \<longleftrightarrow> play_inv s \<and> pq_epoch s = 0"

definition unstopped_enabled :: "play_queue \<Rightarrow> play_event \<Rightarrow> bool" where
  "unstopped_enabled s e \<longleftrightarrow> play_enabled s e \<and> e \<noteq> StopPlays"

lemma step_epoch: "e \<noteq> StopPlays \<Longrightarrow> pq_epoch (fst (play_step s e)) = pq_epoch s"
  by (cases e)
    (auto simp: enqueue_def drain_def set_draining_def take_next_def pause_plays_def resume_plays_def
      url_resolved_def at_loop_def fail_play_def finish_play_def loop_proceeds_def sound_started_def speaker_done_def
      watchdog_def loop_next_def Let_def split: option.split list.split play_stage.split)

interpretation unstopped: machine play_step unstopped_enabled unstopped_inv
  by unfold_locales (auto simp: unstopped_inv_def unstopped_enabled_def step_epoch play_inv_step)

lemma unstopped_loop:
  assumes "unstopped_inv s" "pq_loops s n = Some l"
  shows "lo_epoch l = pq_epoch s" "lo_aborted l = lo_gave_up l"
    "pq_abort s = (if lo_stage l = Ending then None else Some n)"
  using play_inv_loop [of s n l] assms by (auto simp: unstopped_inv_def loop_ok_def)

lemma pending_finish:
  assumes "pq_loops s n = Some l" "pq_abort s = Some n"
  shows "pending_ids (fst (finish_play n w s)) = map pl_id (pq_queue s)"
    "ended_ids (snd (finish_play n w s)) = []" "pending_ids s = pl_id (lo_play l) # map pl_id (pq_queue s)"
  using assms by (simp_all add: finish_play_def pending_ids_def)

lemma pending_fail:
  assumes "unstopped_inv s" "pq_loops s n = Some l" "lo_stage l \<noteq> Ending"
  shows "ended_ids (snd (fail_play n w l s)) @ pending_ids (fst (fail_play n w l s)) = pending_ids s"
  using assms unstopped_loop [OF assms(1,2)] pending_finish [OF assms(2)]
  by (simp add: fail_play_def)

lemma pending_set_loop:
  "(\<And>l. lo_play (f l) = lo_play l) \<Longrightarrow> pending_ids (set_loop n f s) = pending_ids s"
  by (auto simp: pending_ids_def split: option.split)

lemma pending_fields [simp]:
  "pending_ids (s\<lparr>pq_on_resume := r\<rparr>) = pending_ids s" "pending_ids (s\<lparr>pq_sounding := b\<rparr>) = pending_ids s"
  "pending_ids (s\<lparr>pq_paused := b\<rparr>) = pending_ids s" "pending_ids (s\<lparr>pq_draining := b\<rparr>) = pending_ids s"
  by (simp_all add: pending_ids_def split: option.split)

lemma pending_wake: "pending_ids (wake_resume s) = pending_ids s"
  by (simp add: wake_resume_def pending_set_loop split: option.split)

lemma pending_take_next:
  assumes "pq_abort s = None" "pq_epoch s = my"
  shows "ended_ids (snd (take_next my s)) = [] \<and> pending_ids (fst (take_next my s)) = map pl_id (pq_queue s)"
  using assms by (auto simp: take_next_def set_draining_def pending_ids_def split: list.split)

lemma pending_enqueue:
  assumes "unstopped_inv s"
  shows "ended_ids (snd (enqueue i path s)) @ pending_ids (fst (enqueue i path s)) = pending_ids s @ [i]"
proof (cases "pq_draining s")
  case True
  then show ?thesis by (simp add: enqueue_def drain_def pending_ids_def split: option.split)
next
  case False
  then have "pq_queue s = []" "pq_abort s = None"
    using assms by (simp_all add: unstopped_inv_def play_inv_def)
  with False show ?thesis
    using pending_take_next [of "s\<lparr>pq_queue := [\<lparr>pl_id = i, pl_path = path\<rparr>], pq_draining := True\<rparr>"]
    by (simp add: enqueue_def drain_def set_draining_def pending_ids_def)
qed

lemma pending_step:
  assumes "unstopped_inv s" "unstopped_enabled s e"
  shows "ended_ids (snd (play_step s e)) @ pending_ids (fst (play_step s e)) = pending_ids s @ enqueued e"
proof (cases e)
  case (Enqueue i path)
  then show ?thesis using pending_enqueue [OF assms(1)] by simp
next
  case (UrlResolved n url)
  then show ?thesis by (auto simp: url_resolved_def pending_set_loop)
next
  case (UrlRejected n)
  with assms(2) show ?thesis
    using pending_fail [OF assms(1)] by (auto simp: unstopped_enabled_def at_loop_def loop_is_def split: option.splits)
next
  case (LoopProceeds n)
  then obtain l url where l: "pq_loops s n = Some l" "lo_stage l = Proceeding url"
    using assms(2) by (auto simp: unstopped_enabled_def loop_is_def split: option.splits)
  with LoopProceeds show ?thesis
    using unstopped_loop [OF assms(1) l(1)] by (simp add: at_loop_def loop_proceeds_def pending_set_loop)
next
  case (SoundStarted n)
  then show ?thesis by (auto simp: at_loop_def sound_started_def pending_set_loop split: option.split)
next
  case (SpeakerDone n)
  then obtain l where l: "pq_loops s n = Some l" "lo_stage l = Sounding"
    using assms(2) by (auto simp: unstopped_enabled_def loop_is_def split: option.splits)
  with SpeakerDone show ?thesis
    using unstopped_loop [OF assms(1) l(1)] pending_fail [OF assms(1) l(1)] pending_finish [OF l(1)]
    by (simp add: at_loop_def speaker_done_def)
next
  case (SpeakerRejected n)
  with assms(2) show ?thesis
    using pending_fail [OF assms(1)] by (auto simp: unstopped_enabled_def at_loop_def loop_is_def split: option.splits)
next
  case (Watchdog n)
  then show ?thesis by (auto simp: at_loop_def watchdog_def pending_set_loop split: option.split)
next
  case (LoopNext n)
  then obtain l where l: "pq_loops s n = Some l" "lo_stage l = Ending"
    using assms(2) by (auto simp: unstopped_enabled_def loop_is_def split: option.splits)
  have "pending_ids s = map pl_id (pq_queue s)" using unstopped_loop [OF assms(1) l(1)] l(2) by (simp add: pending_ids_def)
  with LoopNext l show ?thesis
    using unstopped_loop [OF assms(1) l(1)] pending_take_next [of "s\<lparr>pq_loops := (pq_loops s)(n := None)\<rparr>"]
    by (simp add: at_loop_def loop_next_def)
qed (use assms(2) in \<open>auto simp: unstopped_enabled_def pause_plays_def resume_plays_def Let_def pending_wake\<close>)

text \<open>A report is about the play its loop is at.\<close>

fun reports :: "play_out \<Rightarrow> (string \<times> play_report) list" where
  "reports (Report i r) = [(i, r)]"
| "reports x = []"

lemma take_next_silent: "concat (map reports (snd (take_next my s))) = []"
  by (auto simp: take_next_def set_draining_def split: list.split)

lemma report_source:
  assumes "play_inv s" "play_enabled s e" "(i, r) \<in> set (concat (map reports (snd (play_step s e))))"
  shows "\<exists>n l. pq_loops s n = Some l \<and> pl_id (lo_play l) = i \<and>
    (lo_epoch l = pq_epoch s \<or> r = ReportFailed \<and> lo_gave_up l)"
proof -
  have ok: "loop_ok s n l" if "pq_loops s n = Some l" for n l by (rule play_inv_loop [OF assms(1) that])
  have fail: "(i, r) \<in> set (concat (map reports (snd (fail_play n w l s)))) \<Longrightarrow>
      pl_id (lo_play l) = i \<and> r = ReportFailed \<and> (\<not> lo_aborted l \<or> lo_gave_up l)" for n w l
    by (auto simp: fail_play_def finish_play_def Let_def split: if_splits)
  have live: "\<not> lo_aborted l \<Longrightarrow> lo_stage l \<noteq> Ending \<Longrightarrow> lo_epoch l = pq_epoch s" if "pq_loops s n = Some l" for n l
    using ok [OF that] by (auto simp: loop_ok_def split: if_splits)
  show ?thesis
  proof (cases e)
    case (UrlRejected n)
    then obtain l where "pq_loops s n = Some l" "lo_stage l = Resolving"
      using assms(2) by (auto simp: loop_is_def split: option.splits)
    with UrlRejected assms(3) fail [of n False l] live [of n l] show ?thesis by (auto simp: at_loop_def)
  next
    case (SpeakerRejected n)
    then obtain l where "pq_loops s n = Some l" "lo_stage l = Sounding"
      using assms(2) by (auto simp: loop_is_def split: option.splits)
    with SpeakerRejected assms(3) fail [of n True l] live [of n l] show ?thesis by (auto simp: at_loop_def)
  next
    case (SpeakerDone n)
    then obtain l where "pq_loops s n = Some l" "lo_stage l = Sounding"
      using assms(2) by (auto simp: loop_is_def split: option.splits)
    with SpeakerDone assms(3) fail [of n True l] live [of n l] show ?thesis
      by (auto simp: at_loop_def speaker_done_def finish_play_def Let_def split: if_splits)
  next
    case (SoundStarted n)
    then obtain l where "pq_loops s n = Some l" "lo_stage l = Sounding"
      using assms(2) by (auto simp: loop_is_def split: option.splits)
    with SoundStarted assms(3) live [of n l] show ?thesis
      by (auto simp: at_loop_def sound_started_def split: if_splits)
  qed (use assms(3) in \<open>auto simp: enqueue_def drain_def set_draining_def pause_plays_def resume_plays_def
      stop_plays_def url_resolved_def at_loop_def loop_proceeds_def finish_play_def watchdog_def loop_next_def
      Let_def chain_def split_beta take_next_def split: option.splits play_stage.splits list.splits if_splits\<close>)
qed

subsection \<open>A resume that reaches the wrong loop\<close>

text \<open>An old loop that resolves its url during a pause takes over \<open>onResume\<close>: the resume then
  wakes the old loop only, and the play on hold waits although nothing is paused.\<close>

definition overtaken_resume :: "play_event list" where
  "overtaken_resume =
     [Enqueue ''a'' ''/a'', StopPlays, Enqueue ''b'' ''/b'', PausePlays, UrlResolved 1 ''u1'', UrlResolved 0 ''u0'',
      ResumePlays, LoopProceeds 0, LoopNext 0]"

lemmas play_eval = create_play_queue_def enqueue_def drain_def set_draining_def take_next_def stop_plays_def
  pause_plays_def resume_plays_def wake_resume_def wake_def set_loop_def url_resolved_def at_loop_def
  loop_proceeds_def sound_started_def speaker_done_def finish_play_def fail_play_def loop_next_def
  loop_is_def chain_def Let_def play_start_timeout_ms_def

lemma resume_can_miss_the_play:
  defines "s \<equiv> fst (run_events play_step create_play_queue overtaken_resume)"
  shows "legal_events play_step play_enabled create_play_queue overtaken_resume"
    and "\<not> pq_paused s" "pq_on_resume s = None" "loop_is 1 (\<lambda>l. lo_stage l = WaitingResume ''u1'') s"
  unfolding s_def by (simp_all add: overtaken_resume_def play_eval)

subsection \<open>Properties\<close>

text \<open>C14: Until a stop, every play the engine sends is reported ended (finished or failed) exactly
  once and in the order of arrival: what was reported, then what is pending, is what arrived.\<close>

theorem plays_end_in_order:
  assumes "legal_events play_step unstopped_enabled create_play_queue es"
  shows "ended_ids (snd (run_events play_step create_play_queue es)) @ pending_ids (fst (run_events play_step create_play_queue es)) =
    concat (map enqueued es)"
proof -
  have "unstopped_inv create_play_queue" using play_inv_start by (simp add: unstopped_inv_def create_play_queue_def)
  from unstopped.run_measure [OF pending_step ended_ids_simps(3) this assms] show ?thesis
    by (simp add: pending_ids_def create_play_queue_def)
qed

definition two_plays :: "play_event list" where
  "two_plays = [Enqueue ''a'' ''/a'', Enqueue ''b'' ''/b'', UrlResolved 0 ''u'', LoopProceeds 0, SoundStarted 0,
     SpeakerDone 0, LoopNext 0, UrlRejected 1]"

theorem plays_end_in_order_witness:
  "ended_ids (snd (run_events play_step create_play_queue two_plays)) @
      pending_ids (fst (run_events play_step create_play_queue two_plays)) = concat (map enqueued two_plays)"
  by (rule plays_end_in_order) (simp add: two_plays_def unstopped_enabled_def play_eval)

text \<open>Two plays never sound at once: of the plays handed to the speaker, all but one were
  aborted.\<close>

theorem one_play_sounds:
  assumes "legal_events play_step play_enabled create_play_queue es"
    and "pq_loops (fst (run_events play_step create_play_queue es)) n = Some l" "lo_stage l = Sounding" "\<not> lo_aborted l"
    and "pq_loops (fst (run_events play_step create_play_queue es)) m = Some k" "lo_stage k = Sounding" "\<not> lo_aborted k"
  shows "n = m"
proof -
  let ?s = "fst (run_events play_step create_play_queue es)"
  have inv: "play_inv ?s" by (rule playing.run_inv [OF play_inv_start assms(1)])
  have "current ?s n l" "current ?s m k"
    using play_inv_loop [OF inv assms(2)] play_inv_loop [OF inv assms(5)] assms
    by (auto simp: loop_ok_def current_def split: if_splits)
  with inv show ?thesis unfolding play_inv_def by blast
qed

theorem one_play_sounds_witness: "(0 :: nat) = 0"
proof -
  let ?es = "[Enqueue ''a'' ''/a'', UrlResolved 0 ''u'', LoopProceeds 0]"
  let ?l = "\<lparr>lo_epoch = 0, lo_play = \<lparr>pl_id = ''a'', pl_path = ''/a''\<rparr>, lo_aborted = False, lo_started = False,
    lo_gave_up = False, lo_stage = Sounding\<rparr>"
  show ?thesis by (rule one_play_sounds [of ?es 0 ?l 0 ?l]) (simp_all add: play_eval)
qed

text \<open>A report is always about a play of the queue as it is now: a play dropped by a stop reports
  nothing any more, except a failure the watchdog had already decided.\<close>

theorem stopped_plays_stay_silent:
  assumes "legal_events play_step play_enabled create_play_queue es"
    and "play_enabled (fst (run_events play_step create_play_queue es)) e"
    and "Report i r \<in> set (snd (play_step (fst (run_events play_step create_play_queue es)) e))"
  shows "\<exists>n l. pq_loops (fst (run_events play_step create_play_queue es)) n = Some l \<and> pl_id (lo_play l) = i \<and>
    (lo_epoch l = pq_epoch (fst (run_events play_step create_play_queue es)) \<or> r = ReportFailed \<and> lo_gave_up l)"
proof -
  let ?s = "fst (run_events play_step create_play_queue es)"
  have "(i, r) \<in> set (concat (map reports (snd (play_step ?s e))))" using assms(3) by force
  from report_source [OF playing.run_inv [OF play_inv_start assms(1)] assms(2) this] show ?thesis .
qed

theorem stopped_plays_stay_silent_witness:
  "\<exists>n l. pq_loops (fst (run_events play_step create_play_queue [Enqueue ''a'' ''/a'', UrlResolved 0 ''u'', LoopProceeds 0])) n =
      Some l \<and> pl_id (lo_play l) = ''a'' \<and>
    (lo_epoch l = pq_epoch (fst (run_events play_step create_play_queue [Enqueue ''a'' ''/a'', UrlResolved 0 ''u'', LoopProceeds 0])) \<or>
     ReportStarted = ReportFailed \<and> lo_gave_up l)"
  by (rule stopped_plays_stay_silent [where e = "SoundStarted 0"]) (simp_all add: play_eval)

end
