(* ===== verification/EngineSession.thy ===== *)
theory EngineSession
  imports VoicePanel PlayQueue
begin

section \<open>One session of the voice engine (voice/engine-session.ts)\<close>

text \<open>
  The socket lifecycle, the engine's frames, the audio kept before the socket opens and the
  queue of plays, as one machine.  A start in flight is named by its generation; it awaits the
  url, then both the microphone and the engine's acceptance.  What \<open>Promise.all\<close> settled to
  runs as an event of its own (\<open>StartReady\<close>, \<open>StartThrows\<close>).  The play queue is the one of
  PlayQueue, its callbacks taken from its outputs.  A socket that cannot even be constructed
  is not modelled.
\<close>

subsection \<open>State, events and outputs\<close>

type_synonym pcm = "nat list"

definition max_pending_audio_bytes :: nat where "max_pending_audio_bytes = 16000 * 2 * 2"

record engine_config =
  ec_client :: string
  ec_plays_ogg_opus :: bool
  ec_barge_in :: bool
  ec_wake_word :: bool

datatype session_state = SIdle | SStarting | SActive

datatype start_stage = Building | Opening bool bool | Rejecting string

record engine_session =
  es_config :: engine_config
  es_state :: session_state
  es_generation :: nat
  es_socket :: "nat option"
  es_open :: bool
  es_offer :: "nat option"
  es_pending :: "pcm list"
  es_pending_bytes :: nat
  es_waiting :: "string list"
  es_replies :: nat
  es_failed :: "string set"
  es_plays :: play_queue
  es_starts :: "nat \<rightharpoonup> start_stage"
  es_dials :: nat

datatype engine_event =
  EStart
| EStop
| ESpeak string
| EStopSpeech
| EUrlBuilt nat string
| EUrlFailed nat string
| CaptureStarted nat
| CaptureFailed nat string
| StartReady nat
| StartThrows nat
| EOpened nat
| EMessage nat "json option"
| EClosed nat
| MicFrame pcm
| Plays play_event

datatype engine_out =
  EBuildUrl nat
| StartCapture nat
| StopCapture
| DialEngine nat string
| SendFrame json
| SendAudio pcm
| CloseEngine nat
| OnTranscript string
| OnTurnStart
| OnTurnEnd string
| OnTurnDropped
| OnSpeakingChange bool
| OnReplyFailed string
| OnSessionError string
| OnActiveChange bool
| StartResolved nat
| StartRejected nat string
| ToSpeaker play_out

type_synonym engine_result = "engine_session \<times> engine_out list"

definition connect_failed :: string where "connect_failed = ''Could not connect to live voice''"
definition closed_message :: string where "closed_message = ''Voice connection closed unexpectedly''"
definition playback_failed :: string where "playback_failed = ''Voice playback failed''"

definition ended_messages :: "(string \<times> string) list" where
  "ended_messages =
     [(''not_configured'', ''Speech-to-text is off or not set up''),
      (''stt_failed'', ''The transcription service failed''),
      (''stt_limit'', ''The speech provider is at its limit of sessions. Try again in a moment''),
      (''unsupported_format'', ''This voice setup cannot make audio that this app plays'')]"

definition create_engine_session :: "engine_config \<Rightarrow> engine_session" where
  "create_engine_session config =
     \<lparr>es_config = config, es_state = SIdle, es_generation = 0, es_socket = None, es_open = False, es_offer = None,
      es_pending = [], es_pending_bytes = 0, es_waiting = [], es_replies = 0, es_failed = {},
      es_plays = create_play_queue, es_starts = Map.empty, es_dials = 0\<rparr>"

subsection \<open>The handlers\<close>

definition send_engine_frame :: "jobj \<Rightarrow> engine_session \<Rightarrow> engine_result" where
  "send_engine_frame frame s = (s, if es_socket s \<noteq> None \<and> es_open s then [SendFrame (JObj frame)] else [])"

definition reply_failed :: "string \<Rightarrow> string \<Rightarrow> engine_session \<Rightarrow> engine_result" where
  "reply_failed i message s =
     (if i \<in> es_failed s then (s, []) else (s\<lparr>es_failed := insert i (es_failed s)\<rparr>, [OnReplyFailed message]))"

definition report_word :: "play_report \<Rightarrow> string" where
  "report_word r = (case r of ReportStarted \<Rightarrow> ''started'' | ReportFinished \<Rightarrow> ''finished'' | ReportFailed \<Rightarrow> ''failed'')"

definition from_play :: "play_out \<Rightarrow> engine_session \<Rightarrow> engine_result" where
  "from_play x s =
     (case x of
        Report i r \<Rightarrow> send_engine_frame [(''type'', JStr ''playback''), (''id'', JStr i), (''state'', JStr (report_word r))] s
      | OnPlayFailed i \<Rightarrow> reply_failed i playback_failed s
      | OnSpeaking b \<Rightarrow> (s, [OnSpeakingChange b])
      | _ \<Rightarrow> (s, [ToSpeaker x]))"

definition plays_do :: "play_event \<Rightarrow> engine_session \<Rightarrow> engine_result" where
  "plays_do e s =
     (let (q, os) = play_step (es_plays s) e
      in run_events (\<lambda>s x. from_play x s) (s\<lparr>es_plays := q\<rparr>) os)"

text \<open>The rejection of a start's \<open>Promise.all\<close>; the first one counts.\<close>

definition reject_start :: "nat \<Rightarrow> string \<Rightarrow> engine_session \<Rightarrow> engine_session" where
  "reject_start g message s =
     (case es_starts s g of
        Some (Opening c a) \<Rightarrow> s\<lparr>es_starts := (es_starts s)(g \<mapsto> Rejecting message)\<rparr>
      | _ \<Rightarrow> s)"

definition refuse_offer :: "string \<Rightarrow> engine_session \<Rightarrow> engine_session" where
  "refuse_offer message s =
     (case es_offer s of None \<Rightarrow> s | Some g \<Rightarrow> (reject_start g message s)\<lparr>es_offer := None\<rparr>)"

definition cleanup :: "engine_session \<Rightarrow> engine_result" where
  "cleanup s =
     (let was_active = (es_state s = SActive);
          s = s\<lparr>es_state := SIdle, es_open := False, es_pending := [], es_pending_bytes := 0, es_waiting := [],
                es_failed := {}\<rparr>
      in chain (plays_do StopPlays s)
           (\<lambda>s. (refuse_offer connect_failed (s\<lparr>es_socket := None\<rparr>),
                 (case es_socket s of None \<Rightarrow> [] | Some d \<Rightarrow> [CloseEngine d]) @ [StopCapture] @
                 (if was_active then [OnActiveChange False] else []))))"

definition session_fail :: "string \<Rightarrow> engine_session \<Rightarrow> engine_result" where
  "session_fail message s = chain (s, [OnSessionError message]) cleanup"

text \<open>The bounded buffer of the audio before the socket opens.\<close>

fun drop_oldest :: "nat \<Rightarrow> pcm list \<Rightarrow> nat \<Rightarrow> pcm list \<times> nat" where
  "drop_oldest len [] bytes = ([], bytes)"
| "drop_oldest len (f # fs) bytes =
     (if bytes + len > max_pending_audio_bytes then drop_oldest len fs (bytes - length f) else (f # fs, bytes))"

definition mic_frame :: "pcm \<Rightarrow> engine_session \<Rightarrow> engine_result" where
  "mic_frame frame s =
     (if es_state s = SIdle then (s, [])
      else if es_socket s \<noteq> None \<and> es_open s then (s, [SendAudio frame])
      else let (pending, bytes) = drop_oldest (length frame) (es_pending s) (es_pending_bytes s)
           in if length frame \<le> max_pending_audio_bytes
              then (s\<lparr>es_pending := pending @ [frame], es_pending_bytes := bytes + length frame\<rparr>, [])
              else (s\<lparr>es_pending := pending, es_pending_bytes := bytes\<rparr>, []))"

definition say :: "string \<Rightarrow> engine_session \<Rightarrow> engine_result" where
  "say t s =
     (let s = s\<lparr>es_replies := Suc (es_replies s)\<rparr>
      in send_engine_frame [(''type'', JStr ''speak''), (''id'', JStr (''reply-'' @ show_nat (es_replies s))), (''text'', JStr t)] s)"

fun say_all :: "string list \<Rightarrow> engine_session \<Rightarrow> engine_result" where
  "say_all [] s = (s, [])"
| "say_all (t # ts) s = chain (say t s) (say_all ts)"

definition end_unasked :: "string \<Rightarrow> string \<Rightarrow> engine_session \<Rightarrow> engine_result" where
  "end_unasked message start_message s =
     (if es_offer s = None then session_fail message s else (refuse_offer start_message s, []))"

definition on_ended :: "string \<Rightarrow> engine_session \<Rightarrow> engine_result" where
  "on_ended reason s =
     (if reason = ''client_ended'' then (s, [])
      else let message = nullish (map_of ended_messages reason) closed_message in end_unasked message message s)"

definition accept_offer :: "engine_session \<Rightarrow> engine_session" where
  "accept_offer s =
     (case es_offer s of
        None \<Rightarrow> s
      | Some g \<Rightarrow>
          (case es_starts s g of
             Some (Opening c a) \<Rightarrow> s\<lparr>es_starts := (es_starts s)(g \<mapsto> Opening c True), es_offer := None\<rparr>
           | _ \<Rightarrow> s\<lparr>es_offer := None\<rparr>))"

definition handle_frame :: "engine_frame \<Rightarrow> engine_session \<Rightarrow> engine_result" where
  "handle_frame frame s =
     (case frame of
        FState \<Rightarrow> (accept_offer s, [])
      | FTranscript t \<Rightarrow> (s, [OnTranscript t])
      | FTurnStart \<Rightarrow> (s, [OnTurnStart])
      | FTurnEnd t \<Rightarrow> (s, [OnTurnEnd t])
      | FTurnDropped \<Rightarrow> (s, [OnTurnDropped])
      | FPlay i url \<Rightarrow> plays_do (Enqueue i url) s
      | FPausePlayback \<Rightarrow> plays_do PausePlays s
      | FResumePlayback \<Rightarrow> plays_do ResumePlays s
      | FStopPlayback \<Rightarrow> plays_do StopPlays s
      | FError None message \<Rightarrow> (s, [OnReplyFailed message])
      | FError (Some i) message \<Rightarrow> reply_failed i message s
      | FEnded reason \<Rightarrow> on_ended reason s)"

definition start_session_frame :: "engine_config \<Rightarrow> jobj" where
  "start_session_frame c =
     [(''type'', JStr ''start_session''), (''client'', JStr (ec_client c)),
      (''audio'', JObj [(''encoding'', JStr ''pcm_s16le''), (''sample_rate'', JNum 16000), (''channels'', JNum 1)]),
      (''playback'', JObj [(''delivery'', JStr ''url''),
         (''formats'', JArr (map JStr (playback_formats (ec_plays_ogg_opus c))))]),
      (''barge_in'', JBool (ec_barge_in c)), (''wake_word'', JBool (ec_wake_word c))]"

definition engine_opened :: "engine_session \<Rightarrow> engine_result" where
  "engine_opened s =
     chain (send_engine_frame (start_session_frame (es_config s)) (s\<lparr>es_open := True\<rparr>))
       (\<lambda>s. (s\<lparr>es_pending := [], es_pending_bytes := 0\<rparr>, map SendAudio (es_pending s)))"

definition session_start :: "engine_session \<Rightarrow> engine_result" where
  "session_start s =
     (if es_state s \<noteq> SIdle then (s, [])
      else let g = Suc (es_generation s)
           in (s\<lparr>es_state := SStarting, es_generation := g, es_pending := [], es_pending_bytes := 0,
                 es_starts := (es_starts s)(g \<mapsto> Building)\<rparr>, [EBuildUrl g]))"

definition drop_start :: "nat \<Rightarrow> engine_session \<Rightarrow> engine_session" where
  "drop_start g s = s\<lparr>es_starts := (es_starts s)(g := None)\<rparr>"

definition start_url_built :: "nat \<Rightarrow> string \<Rightarrow> engine_session \<Rightarrow> engine_result" where
  "start_url_built g url s =
     (if es_generation s \<noteq> g then (drop_start g s, [StartResolved g])
      else (s\<lparr>es_starts := (es_starts s)(g \<mapsto> Opening False False), es_socket := Some (es_dials s),
              es_offer := Some g, es_dials := Suc (es_dials s)\<rparr>,
            [StartCapture g, DialEngine (es_dials s) url]))"

text \<open>The \<open>catch\<close> of \<open>start\<close>.\<close>

definition start_throws :: "nat \<Rightarrow> string \<Rightarrow> engine_session \<Rightarrow> engine_result" where
  "start_throws g message s =
     chain (cleanup (drop_start g s))
       (\<lambda>s. (s, if es_generation s \<noteq> g then [StartResolved g] else [StartRejected g message]))"

definition start_ready :: "nat \<Rightarrow> engine_session \<Rightarrow> engine_result" where
  "start_ready g s =
     (let s = drop_start g s
      in if es_generation s \<noteq> g \<or> es_state s \<noteq> SStarting then (s, [StartResolved g])
         else chain
                (chain (s\<lparr>es_state := SActive\<rparr>, [OnActiveChange True])
                   (\<lambda>s. say_all (es_waiting s) (s\<lparr>es_waiting := []\<rparr>)))
                (\<lambda>s. (s, [StartResolved g])))"

definition capture_started :: "nat \<Rightarrow> engine_session \<Rightarrow> engine_session" where
  "capture_started g s =
     (case es_starts s g of
        Some (Opening c a) \<Rightarrow> s\<lparr>es_starts := (es_starts s)(g \<mapsto> Opening True a)\<rparr>
      | _ \<Rightarrow> s)"

definition session_stop :: "engine_session \<Rightarrow> engine_result" where
  "session_stop s =
     (if es_state s = SIdle then (s, [])
      else chain (send_engine_frame [(''type'', JStr ''end_session'')] (s\<lparr>es_generation := Suc (es_generation s)\<rparr>)) cleanup)"

definition session_speak :: "string \<Rightarrow> engine_session \<Rightarrow> engine_result" where
  "session_speak t s =
     (if es_state s = SActive then say t s
      else if es_state s = SStarting then (s\<lparr>es_waiting := es_waiting s @ [t]\<rparr>, [])
      else (s, []))"

definition session_stop_speech :: "engine_session \<Rightarrow> engine_result" where
  "session_stop_speech s =
     chain (send_engine_frame [(''type'', JStr ''playback''), (''state'', JStr ''stopped_by_user'')] s) (plays_do StopPlays)"

fun engine_step :: "engine_session \<Rightarrow> engine_event \<Rightarrow> engine_result" where
  "engine_step s EStart = session_start s"
| "engine_step s EStop = session_stop s"
| "engine_step s (ESpeak t) = session_speak t s"
| "engine_step s EStopSpeech = session_stop_speech s"
| "engine_step s (EUrlBuilt g url) = start_url_built g url s"
| "engine_step s (EUrlFailed g message) = start_throws g message s"
| "engine_step s (CaptureStarted g) = (capture_started g s, [])"
| "engine_step s (CaptureFailed g message) = (reject_start g message s, [])"
| "engine_step s (StartReady g) = start_ready g s"
| "engine_step s (StartThrows g) =
     (case es_starts s g of Some (Rejecting message) \<Rightarrow> start_throws g message s | _ \<Rightarrow> (s, []))"
| "engine_step s (EOpened d) = engine_opened s"
| "engine_step s (EMessage d data) =
     (case parse_engine_frame data of None \<Rightarrow> (s, []) | Some frame \<Rightarrow> handle_frame frame s)"
| "engine_step s (EClosed d) = (if es_socket s = Some d then end_unasked closed_message connect_failed s else (s, []))"
| "engine_step s (MicFrame frame) = mic_frame frame s"
| "engine_step s (Plays e) = plays_do e s"

text \<open>A detached socket calls nothing; a message comes after the open.  The plays' own calls are
  the engine's frames, so \<open>Plays\<close> carries the settled promises of the queue only.\<close>

fun engine_enabled :: "engine_session \<Rightarrow> engine_event \<Rightarrow> bool" where
  "engine_enabled s (EUrlBuilt g url) = (es_starts s g = Some Building)"
| "engine_enabled s (EUrlFailed g message) = (es_starts s g = Some Building)"
| "engine_enabled s (CaptureStarted g) = (es_starts s g \<noteq> None \<and> es_starts s g \<noteq> Some Building)"
| "engine_enabled s (CaptureFailed g message) = (es_starts s g \<noteq> None \<and> es_starts s g \<noteq> Some Building)"
| "engine_enabled s (StartReady g) = (es_starts s g = Some (Opening True True))"
| "engine_enabled s (StartThrows g) = (case es_starts s g of Some (Rejecting m) \<Rightarrow> True | _ \<Rightarrow> False)"
| "engine_enabled s (EOpened d) = (es_socket s = Some d \<and> \<not> es_open s)"
| "engine_enabled s (EMessage d data) = (es_socket s = Some d \<and> es_open s)"
| "engine_enabled s (EClosed d) = (es_socket s = Some d)"
| "engine_enabled s (Plays e) =
     (play_enabled (es_plays s) e \<and>
      (case e of Enqueue i p \<Rightarrow> False | PausePlays \<Rightarrow> False | ResumePlays \<Rightarrow> False | StopPlays \<Rightarrow> False | _ \<Rightarrow> True))"
| "engine_enabled s e = True"

subsection \<open>What the plays change\<close>

text \<open>The callbacks of the play queue change nothing of the session but the set of failed replies.\<close>

definition session_view :: "engine_session \<Rightarrow> engine_session" where
  "session_view s = s\<lparr>es_failed := {}, es_plays := create_play_queue\<rparr>"

lemma from_play_view: "session_view (fst (from_play x s)) = session_view s"
  by (simp add: session_view_def from_play_def send_engine_frame_def reply_failed_def split: play_out.split)

lemma from_play_plays: "es_plays (fst (from_play x s)) = es_plays s"
  by (simp add: from_play_def send_engine_frame_def reply_failed_def split: play_out.split)

lemma plays_do_view: "session_view (fst (plays_do e s)) = session_view s"
proof -
  have "session_view (fst (run_events (\<lambda>s x. from_play x s) t os)) = session_view t" for t os
    by (rule run_events_view) (rule from_play_view)
  then show ?thesis by (simp add: plays_do_def split_beta Let_def) (simp add: session_view_def)
qed

lemma plays_do_plays [simp]: "es_plays (fst (plays_do e s)) = fst (play_step (es_plays s) e)"
proof -
  have "es_plays (fst (run_events (\<lambda>s x. from_play x s) t os)) = es_plays t" for t os
    by (rule run_events_view) (rule from_play_plays)
  then show ?thesis by (simp add: plays_do_def split_beta Let_def)
qed

lemma session_view_select:
  "es_config (session_view s) = es_config s"
  "es_state (session_view s) = es_state s"
  "es_generation (session_view s) = es_generation s"
  "es_socket (session_view s) = es_socket s"
  "es_open (session_view s) = es_open s"
  "es_offer (session_view s) = es_offer s"
  "es_pending (session_view s) = es_pending s"
  "es_pending_bytes (session_view s) = es_pending_bytes s"
  "es_waiting (session_view s) = es_waiting s"
  "es_replies (session_view s) = es_replies s"
  "es_starts (session_view s) = es_starts s"
  "es_dials (session_view s) = es_dials s"
  by (simp_all add: session_view_def)

lemma session_view_fields:
  assumes "session_view s = session_view t"
  shows "es_config s = es_config t" "es_state s = es_state t" "es_generation s = es_generation t"
    "es_socket s = es_socket t" "es_open s = es_open t" "es_offer s = es_offer t" "es_pending s = es_pending t"
    "es_pending_bytes s = es_pending_bytes t" "es_waiting s = es_waiting t" "es_replies s = es_replies t"
    "es_starts s = es_starts t" "es_dials s = es_dials t"
  using assms by (metis session_view_select)+

lemmas plays_do_fields [simp] = session_view_fields [OF plays_do_view]

fun play_output :: "engine_out \<Rightarrow> bool" where
  "play_output (SendFrame j) = True"
| "play_output (OnReplyFailed m) = True"
| "play_output (OnSpeakingChange b) = True"
| "play_output (ToSpeaker x) = True"
| "play_output x = False"

lemma from_play_output: "x \<in> set (snd (from_play y s)) \<Longrightarrow> play_output x"
  by (auto simp: from_play_def send_engine_frame_def reply_failed_def split: play_out.splits if_splits)

lemma plays_do_output: "x \<in> set (snd (plays_do e s)) \<Longrightarrow> play_output x"
proof -
  have "x \<in> set (snd (run_events (\<lambda>s y. from_play y s) t os)) \<Longrightarrow> play_output x" for t os
    by (induction os arbitrary: t) (auto dest: from_play_output)
  then show "x \<in> set (snd (plays_do e s)) \<Longrightarrow> play_output x" by (simp add: plays_do_def split_beta Let_def)
qed

lemma send_engine_frame_fst [simp]: "fst (send_engine_frame f s) = s"
  by (simp add: send_engine_frame_def)

lemma refuse_offer_fields [simp]:
  "es_state (refuse_offer m s) = es_state s" "es_generation (refuse_offer m s) = es_generation s"
  "es_socket (refuse_offer m s) = es_socket s" "es_open (refuse_offer m s) = es_open s"
  "es_offer (refuse_offer m s) = None" "es_pending (refuse_offer m s) = es_pending s"
  "es_pending_bytes (refuse_offer m s) = es_pending_bytes s" "es_waiting (refuse_offer m s) = es_waiting s"
  "es_plays (refuse_offer m s) = es_plays s"
  by (auto simp: refuse_offer_def reject_start_def split: option.split start_stage.split)

lemma refuse_offer_starts:
  "es_starts (refuse_offer m s) g = Some (Opening c a) \<Longrightarrow> es_starts s g = Some (Opening c a)"
  by (auto simp: refuse_offer_def reject_start_def split: option.splits start_stage.splits if_splits)

lemma cleanup_fields [simp]:
  "es_state (fst (cleanup s)) = SIdle" "es_generation (fst (cleanup s)) = es_generation s"
  "es_socket (fst (cleanup s)) = None" "es_open (fst (cleanup s)) = False" "es_offer (fst (cleanup s)) = None"
  "es_pending (fst (cleanup s)) = []" "es_pending_bytes (fst (cleanup s)) = 0" "es_waiting (fst (cleanup s)) = []"
  "es_plays (fst (cleanup s)) = fst (stop_plays (es_plays s))"
  by (simp_all add: cleanup_def Let_def)

lemma cleanup_outputs:
  "x \<in> set (snd (cleanup s)) \<Longrightarrow> play_output x \<or> x = StopCapture \<or> (\<exists>d. x = CloseEngine d) \<or> x = OnActiveChange False"
  by (auto simp: cleanup_def Let_def dest: plays_do_output split: option.splits)

subsection \<open>The invariant of a session\<close>

text \<open>The voice session makes a new engine session for every start, so one is started once; what a
  second start can meet is shown below.\<close>

fun engine_enabled_once :: "engine_session \<Rightarrow> engine_event \<Rightarrow> bool" where
  "engine_enabled_once s EStart = (es_generation s = 0)"
| "engine_enabled_once s e = engine_enabled s e"

lemma enabled_once: "engine_enabled_once s e \<Longrightarrow> engine_enabled s e"
  by (cases e) auto

definition starts_once :: "nat \<Rightarrow> (nat \<rightharpoonup> start_stage) \<Rightarrow> bool" where
  "starts_once gen starts \<longleftrightarrow> (gen = 0 \<longrightarrow> starts = Map.empty) \<and> (\<forall>g. starts g \<noteq> None \<longrightarrow> g = 1)"

lemma starts_once_change: "starts_once gen f \<Longrightarrow> f g \<noteq> None \<Longrightarrow> starts_once gen (f(g \<mapsto> x))"
  unfolding starts_once_def by (cases "gen = 0") (simp_all, metis option.exhaust)

lemma starts_once_drop: "starts_once gen f \<Longrightarrow> starts_once gen (f(g := None))"
  by (auto simp: starts_once_def)

lemma starts_once_first: "starts_once 0 f \<Longrightarrow> starts_once (Suc 0) (f(Suc 0 \<mapsto> x))"
  by (auto simp: starts_once_def)

lemma starts_once_later: "starts_once gen f \<Longrightarrow> starts_once (Suc gen) f"
  by (auto simp: starts_once_def)

lemma starts_once_empty: "starts_once gen Map.empty"
  by (simp add: starts_once_def)

lemmas starts_once_intros [wf_intros] =
  starts_once_empty starts_once_later starts_once_change starts_once_drop starts_once_first

lemma starts_once_dom: "starts_once gen f \<Longrightarrow> (\<And>g. f' g = None \<longleftrightarrow> f g = None) \<Longrightarrow> starts_once gen f'"
  unfolding starts_once_def by (metis ext)

lemma starts_once_one: "starts_once gen f \<Longrightarrow> f g = Some x \<Longrightarrow> g = Suc 0 \<and> 0 < gen"
  by (auto simp: starts_once_def)

definition idle_clean :: "engine_session \<Rightarrow> bool" where
  "idle_clean s \<longleftrightarrow> es_socket s = None \<and> es_pending s = [] \<and> es_waiting s = [] \<and> es_offer s = None \<and>
     \<not> pq_draining (es_plays s)"

definition buffer_ok :: "pcm list \<Rightarrow> nat \<Rightarrow> bool" where
  "buffer_ok pending bytes \<longleftrightarrow> bytes = sum_list (map length pending) \<and> bytes \<le> max_pending_audio_bytes"

definition building_ok :: "engine_session \<Rightarrow> bool" where
  "building_ok s \<longleftrightarrow> (es_starts s 1 = Some Building \<longrightarrow> es_generation s = 1 \<longrightarrow>
     es_state s = SStarting \<and> es_socket s = None \<and> es_offer s = None)"

definition accepted_now :: "engine_session \<Rightarrow> bool" where
  "accepted_now s \<longleftrightarrow> es_state s = SStarting \<and> (\<exists>c. es_starts s (es_generation s) = Some (Opening c True))"

definition engine_inv :: "engine_session \<Rightarrow> bool" where
  "engine_inv s \<longleftrightarrow> play_inv (es_plays s) \<and> (es_state s = SIdle \<longrightarrow> idle_clean s) \<and>
     (es_open s \<longrightarrow> es_socket s \<noteq> None) \<and> buffer_ok (es_pending s) (es_pending_bytes s) \<and>
     starts_once (es_generation s) (es_starts s) \<and> building_ok s \<and>
     (es_offer s = None \<or> es_offer s = Some (es_generation s)) \<and> (es_state s = SActive \<longrightarrow> es_open s) \<and>
     (accepted_now s \<longrightarrow> es_open s)"

lemma buffer_ok_Nil [simp]: "buffer_ok [] 0"
  by (simp add: buffer_ok_def)

lemma engine_invI [wf_intros]:
  assumes "play_inv (es_plays s)" "es_state s = SIdle \<Longrightarrow> idle_clean s" "es_open s \<Longrightarrow> es_socket s \<noteq> None"
    "buffer_ok (es_pending s) (es_pending_bytes s)" "starts_once (es_generation s) (es_starts s)" "building_ok s"
    "es_offer s = None \<or> es_offer s = Some (es_generation s)" "es_state s = SActive \<Longrightarrow> es_open s"
    "accepted_now s \<Longrightarrow> es_open s"
  shows "engine_inv s"
  using assms unfolding engine_inv_def by blast

lemma engine_invD:
  assumes "engine_inv s"
  shows "play_inv (es_plays s)" "es_state s = SIdle \<Longrightarrow> idle_clean s" "es_open s \<Longrightarrow> es_socket s \<noteq> None"
    "buffer_ok (es_pending s) (es_pending_bytes s)" "starts_once (es_generation s) (es_starts s)" "building_ok s"
    "es_offer s = None \<or> es_offer s = Some (es_generation s)" "es_state s = SActive \<Longrightarrow> es_open s"
    "accepted_now s \<Longrightarrow> es_open s"
  using assms unfolding engine_inv_def by blast+

text \<open>A change of the other fields only.\<close>

definition session_core :: "engine_session \<Rightarrow> engine_session" where
  "session_core s = s\<lparr>es_failed := {}, es_replies := 0, es_dials := 0, es_plays := create_play_queue\<rparr>"

lemma session_core_select:
  "es_state (session_core s) = es_state s" "es_generation (session_core s) = es_generation s"
  "es_socket (session_core s) = es_socket s" "es_open (session_core s) = es_open s"
  "es_offer (session_core s) = es_offer s" "es_pending (session_core s) = es_pending s"
  "es_pending_bytes (session_core s) = es_pending_bytes s" "es_waiting (session_core s) = es_waiting s"
  "es_starts (session_core s) = es_starts s"
  by (simp_all add: session_core_def)

lemma engine_inv_core:
  assumes "session_core s' = session_core s" "engine_inv s" "play_inv (es_plays s')"
    "es_state s = SIdle \<Longrightarrow> \<not> pq_draining (es_plays s')"
  shows "engine_inv s'"
proof -
  have f: "es_state s' = es_state s" "es_generation s' = es_generation s" "es_socket s' = es_socket s"
    "es_open s' = es_open s" "es_offer s' = es_offer s" "es_pending s' = es_pending s"
    "es_pending_bytes s' = es_pending_bytes s" "es_waiting s' = es_waiting s" "es_starts s' = es_starts s"
    by (metis assms(1) session_core_select)+
  show ?thesis using assms(2-4) unfolding engine_inv_def idle_clean_def building_ok_def accepted_now_def f by blast
qed

lemma engine_inv_start: "engine_inv (create_engine_session config)"
  using play_inv_start
  by (intro engine_invI)
    (simp_all add: create_engine_session_def idle_clean_def building_ok_def accepted_now_def starts_once_intros
      create_play_queue_def)

lemma play_draining_step:
  "pq_draining (fst (play_step q e)) \<Longrightarrow> \<nexists>i p. e = Enqueue i p \<Longrightarrow> pq_draining q"
  by (cases e)
    (auto simp: set_draining_def take_next_def pause_plays_def resume_plays_def stop_plays_def url_resolved_def
      at_loop_def fail_play_def finish_play_def loop_proceeds_def sound_started_def speaker_done_def watchdog_def
      loop_next_def Let_def split: option.splits list.splits play_stage.splits if_splits)

lemma stop_plays_idle [simp]: "\<not> pq_draining (fst (stop_plays q))"
  by (auto simp: stop_plays_def set_draining_def split: option.split)

lemma plays_do_core: "session_core (fst (plays_do e s)) = session_core s"
proof -
  have "session_core t = (session_view t)\<lparr>es_replies := 0, es_dials := 0\<rparr>" for t
    by (simp add: session_core_def session_view_def)
  then show ?thesis by (simp add: plays_do_view)
qed

lemma engine_inv_plays:
  assumes "engine_inv s" "play_enabled (es_plays s) e" "\<nexists>i p. e = Enqueue i p"
  shows "engine_inv (fst (plays_do e s))"
proof (rule engine_inv_core [OF plays_do_core assms(1)])
  show "play_inv (es_plays (fst (plays_do e s)))"
    using play_inv_step [OF engine_invD(1) [OF assms(1)] assms(2)] by simp
  show "es_state s = SIdle \<Longrightarrow> \<not> pq_draining (es_plays (fst (plays_do e s)))"
    using play_draining_step [OF _ assms(3)] engine_invD(2) [OF assms(1)] by (auto simp: idle_clean_def)
qed

lemma engine_inv_enqueue:
  "engine_inv s \<Longrightarrow> es_state s \<noteq> SIdle \<Longrightarrow> engine_inv (fst (plays_do (Enqueue i p) s))"
  by (rule engine_inv_core [OF plays_do_core]) (simp_all add: play_inv_enqueue engine_invD)

lemma cleanup_building:
  "es_starts (fst (cleanup s)) g = Some Building \<longleftrightarrow> es_starts s g = Some Building"
  "es_starts (fst (cleanup s)) g = None \<longleftrightarrow> es_starts s g = None"
  by (auto simp: cleanup_def Let_def refuse_offer_def reject_start_def split: option.splits start_stage.splits)

text \<open>Cleaning up when no start is still building its url.\<close>

lemma engine_inv_cleanup:
  assumes "play_inv (es_plays s)" "starts_once (es_generation s) (es_starts s)"
    "es_starts s 1 = Some Building \<Longrightarrow> es_generation s \<noteq> 1"
  shows "engine_inv (fst (cleanup s))"
proof (rule engine_invI)
  show "starts_once (es_generation (fst (cleanup s))) (es_starts (fst (cleanup s)))"
    using starts_once_dom [OF assms(2) cleanup_building(2)] by simp
  show "building_ok (fst (cleanup s))" using assms(3) by (simp add: building_ok_def cleanup_building)
qed (use assms(1) in \<open>simp_all add: idle_clean_def accepted_now_def play_inv_stop\<close>)

lemma refuse_offer_building:
  "es_starts (refuse_offer m s) g = Some Building \<longleftrightarrow> es_starts s g = Some Building"
  "es_starts (refuse_offer m s) g = None \<longleftrightarrow> es_starts s g = None"
  by (auto simp: refuse_offer_def reject_start_def split: option.splits start_stage.splits)

lemma engine_inv_refuse:
  assumes "engine_inv s"
  shows "engine_inv (refuse_offer m s)"
proof (rule engine_invI)
  note d = engine_invD [OF assms]
  show "starts_once (es_generation (refuse_offer m s)) (es_starts (refuse_offer m s))"
    using starts_once_dom [OF d(5) refuse_offer_building(2)] by simp
  show "building_ok (refuse_offer m s)" using d(6) by (simp add: building_ok_def refuse_offer_building)
  show "accepted_now (refuse_offer m s) \<Longrightarrow> es_open (refuse_offer m s)"
    using d(9) refuse_offer_starts [of m s] by (fastforce simp: accepted_now_def)
qed (use engine_invD [OF assms] in \<open>simp_all add: idle_clean_def\<close>)

lemma engine_inv_unasked:
  assumes "engine_inv s" "es_socket s \<noteq> None"
  shows "engine_inv (fst (end_unasked m m' s))"
proof -
  note d = engine_invD [OF assms(1)]
  have "es_starts s 1 = Some Building \<Longrightarrow> es_generation s \<noteq> 1" using d(6) assms(2) by (auto simp: building_ok_def)
  then have "engine_inv (fst (cleanup s))" by (rule engine_inv_cleanup [OF d(1,5)])
  then show ?thesis using engine_inv_refuse [OF assms(1)] by (simp add: end_unasked_def session_fail_def)
qed

lemma engine_inv_failed: "engine_inv s \<Longrightarrow> engine_inv (s\<lparr>es_failed := f\<rparr>)"
  by (rule engine_inv_core [of _ s]) (auto simp: session_core_def idle_clean_def dest: engine_invD)

lemma engine_inv_reply_failed: "engine_inv s \<Longrightarrow> engine_inv (fst (reply_failed i m s))"
  by (simp add: reply_failed_def engine_inv_failed)

lemma engine_open_socket: "engine_inv s \<Longrightarrow> es_open s \<Longrightarrow> es_socket s \<noteq> None"
  by (rule engine_invD)

lemma engine_open_active: "engine_inv s \<Longrightarrow> es_open s \<Longrightarrow> es_state s \<noteq> SIdle"
  using engine_invD(2,3) [of s] by (auto simp: idle_clean_def)

text \<open>A change of one start's stage, other than into building.\<close>

lemma engine_inv_stage:
  assumes "engine_inv s" "es_starts s g \<noteq> None" "x \<noteq> Building"
    "off = None \<or> off = es_offer s" "\<And>c. x = Opening c True \<Longrightarrow> es_open s \<or> (\<exists>c. es_starts s g = Some (Opening c True))"
  shows "engine_inv (s\<lparr>es_starts := (es_starts s)(g \<mapsto> x), es_offer := off\<rparr>)" (is "engine_inv ?s")
proof (rule engine_invI)
  note d = engine_invD [OF assms(1)]
  show "starts_once (es_generation ?s) (es_starts ?s)" using d(5) assms(2) by (simp add: starts_once_intros)
  show "building_ok ?s" using d(6) assms(3,4) by (auto simp: building_ok_def)
  show "accepted_now ?s \<Longrightarrow> es_open ?s" using d(9) assms(5) by (auto simp: accepted_now_def split: if_splits)
  show "es_state ?s = SIdle \<Longrightarrow> idle_clean ?s" using d(2) assms(4) by (auto simp: idle_clean_def)
  show "es_offer ?s = None \<or> es_offer ?s = Some (es_generation ?s)" using d(7) assms(4) by auto
qed (use engine_invD [OF assms(1)] in simp_all)

lemma engine_inv_accept:
  assumes "engine_inv s" "es_open s"
  shows "engine_inv (accept_offer s)"
proof (cases "es_offer s")
  case None
  with assms show ?thesis by (simp add: accept_offer_def)
next
  case (Some g)
  have no_offer: "engine_inv (s\<lparr>es_offer := None\<rparr>)"
    using assms engine_invD [OF assms(1)] by (intro engine_invI) (auto simp: idle_clean_def building_ok_def accepted_now_def)
  show ?thesis
  proof (cases "\<exists>c a. es_starts s g = Some (Opening c a)")
    case True
    then obtain c a where st: "es_starts s g = Some (Opening c a)" by blast
    have "engine_inv (s\<lparr>es_starts := (es_starts s)(g \<mapsto> Opening c True), es_offer := None\<rparr>)"
      by (rule engine_inv_stage [OF assms(1)]) (use st assms(2) in auto)
    then show ?thesis by (simp add: accept_offer_def Some st)
  next
    case False
    with no_offer show ?thesis by (auto simp: accept_offer_def Some split: option.split start_stage.split)
  qed
qed

lemma engine_inv_frame:
  assumes "engine_inv s" "es_open s"
  shows "engine_inv (fst (handle_frame frame s))"
proof (cases frame)
  case (FError i m)
  with assms show ?thesis by (cases i) (simp_all add: handle_frame_def engine_inv_reply_failed)
next
  case (FEnded r)
  with assms show ?thesis
    by (simp add: handle_frame_def on_ended_def engine_inv_unasked engine_open_socket Let_def)
qed (use assms in \<open>auto simp: handle_frame_def engine_inv_accept engine_open_active intro: engine_inv_enqueue engine_inv_plays\<close>)

lemma drop_oldest_bytes:
  "drop_oldest len fs bytes = (fs', bytes') \<Longrightarrow> bytes = sum_list (map length fs) \<Longrightarrow>
     bytes \<le> max_pending_audio_bytes \<Longrightarrow>
     bytes' = sum_list (map length fs') \<and> bytes' \<le> max_pending_audio_bytes \<and>
     (len \<le> max_pending_audio_bytes \<longrightarrow> bytes' + len \<le> max_pending_audio_bytes) \<and> (\<exists>k. fs' = drop k fs)"
proof (induction len fs bytes rule: drop_oldest.induct)
  case (1 len bytes)
  then show ?case by simp
next
  case (2 len f fs bytes)
  show ?case
  proof (cases "bytes + len > max_pending_audio_bytes")
    case True
    then have "drop_oldest len fs (bytes - length f) = (fs', bytes')" using "2.prems" by simp
    from "2.IH" [OF True this] "2.prems"
    have IH: "bytes' = sum_list (map length fs')" "bytes' \<le> max_pending_audio_bytes"
      "len \<le> max_pending_audio_bytes \<longrightarrow> bytes' + len \<le> max_pending_audio_bytes" "\<exists>k. fs' = drop k fs" by auto
    then obtain k where "fs' = drop (Suc k) (f # fs)" by auto
    with IH show ?thesis by blast
  next
    case False
    with "2.prems" have "fs' = drop 0 (f # fs)" by simp
    with False "2.prems" show ?thesis by (metis drop_oldest.simps(2) leI prod.inject)
  qed
qed

lemma mic_frame_buffer:
  assumes "buffer_ok (es_pending s) (es_pending_bytes s)"
  shows "buffer_ok (es_pending (fst (mic_frame frame s))) (es_pending_bytes (fst (mic_frame frame s)))"
proof -
  obtain fs b where d: "drop_oldest (length frame) (es_pending s) (es_pending_bytes s) = (fs, b)" by fastforce
  from drop_oldest_bytes [OF d] assms
  have f: "b = sum_list (map length fs)" "b \<le> max_pending_audio_bytes"
    "length frame \<le> max_pending_audio_bytes \<Longrightarrow> b + length frame \<le> max_pending_audio_bytes"
    unfolding buffer_ok_def by blast+
  then show ?thesis using assms by (simp add: mic_frame_def d) (simp add: buffer_ok_def)
qed

lemma mic_frame_fields:
  "es_state (fst (mic_frame frame s)) = es_state s" "es_generation (fst (mic_frame frame s)) = es_generation s"
  "es_socket (fst (mic_frame frame s)) = es_socket s" "es_open (fst (mic_frame frame s)) = es_open s"
  "es_offer (fst (mic_frame frame s)) = es_offer s" "es_waiting (fst (mic_frame frame s)) = es_waiting s"
  "es_starts (fst (mic_frame frame s)) = es_starts s" "es_plays (fst (mic_frame frame s)) = es_plays s"
  "es_state s = SIdle \<Longrightarrow> es_pending (fst (mic_frame frame s)) = es_pending s"
  by (simp_all add: mic_frame_def split_beta Let_def)

lemma engine_inv_mic: "engine_inv s \<Longrightarrow> engine_inv (fst (mic_frame frame s))"
  using mic_frame_buffer [of s frame]
  by (auto simp: engine_inv_def idle_clean_def building_ok_def accepted_now_def mic_frame_fields)

lemma say_fields [simp]:
  "es_state (fst (say t s)) = es_state s" "es_socket (fst (say t s)) = es_socket s"
  "es_open (fst (say t s)) = es_open s" "es_waiting (fst (say t s)) = es_waiting s"
  "es_replies (fst (say t s)) = Suc (es_replies s)" "es_plays (fst (say t s)) = es_plays s"
  "session_core (fst (say t s)) = session_core s"
  by (simp_all add: say_def Let_def session_core_def)

lemma say_all_fields [simp]:
  "es_waiting (fst (say_all ts s)) = es_waiting s" "es_state (fst (say_all ts s)) = es_state s"
  "es_plays (fst (say_all ts s)) = es_plays s" "session_core (fst (say_all ts s)) = session_core s"
  by (induction ts arbitrary: s) simp_all

lemma engine_inv_drop:
  assumes "engine_inv s"
  shows "engine_inv (drop_start g s)"
  using engine_invD [OF assms]
  by (intro engine_invI)
    (auto simp: drop_start_def idle_clean_def building_ok_def accepted_now_def starts_once_intros split: if_splits)

lemma engine_inv_throws:
  assumes "engine_inv s" "es_starts s g \<noteq> None"
  shows "engine_inv (fst (start_throws g m s))"
proof -
  note d = engine_invD [OF engine_inv_drop [OF assms(1), of g]]
  have "g = Suc 0" using starts_once_one [OF engine_invD(5) [OF assms(1)]] assms(2) by auto
  then have "es_starts (drop_start g s) 1 = None" by (simp add: drop_start_def)
  then have "engine_inv (fst (cleanup (drop_start g s)))" by (intro engine_inv_cleanup d(1,5)) simp
  then show ?thesis by (simp add: start_throws_def)
qed

lemma engine_inv_ready:
  assumes "engine_inv s" "es_starts s g = Some (Opening True True)"
  shows "engine_inv (fst (start_ready g s))"
proof (cases "es_generation s \<noteq> g \<or> es_state s \<noteq> SStarting")
  case True
  with engine_inv_drop [OF assms(1)] show ?thesis by (simp add: start_ready_def drop_start_def Let_def)
next
  case False
  let ?s = "(drop_start g s)\<lparr>es_state := SActive, es_waiting := []\<rparr>"
  note d = engine_invD [OF assms(1)]
  have "accepted_now s" using False assms(2) by (auto simp: accepted_now_def)
  then have opened: "es_open s" by (rule d(9))
  have "engine_inv ?s"
    using d opened by (intro engine_invI)
      (auto simp: drop_start_def building_ok_def accepted_now_def starts_once_intros split: if_splits)
  then have "engine_inv (fst (say_all (es_waiting s) ?s))"
    by (rule engine_inv_core [OF say_all_fields(4)]) (use d in \<open>simp_all add: drop_start_def\<close>)
  with False show ?thesis by (simp add: start_ready_def Let_def drop_start_def)
qed

lemma engine_inv_step:
  assumes inv: "engine_inv s" and en: "engine_enabled_once s e"
  shows "engine_inv (fst (engine_step s e))"
proof -
  note d = engine_invD [OF inv]
  show ?thesis
  proof (cases e)
    case EStart
    then have gen: "es_generation s = 0" using en by simp
    show ?thesis
    proof (cases "es_state s = SIdle")
      case True
      then have i: "idle_clean s" by (rule d(2))
      let ?s = "s\<lparr>es_state := SStarting, es_generation := Suc 0, es_pending := [], es_pending_bytes := 0,
        es_starts := (es_starts s)(Suc 0 \<mapsto> Building)\<rparr>"
      have "engine_inv ?s"
        using d i gen by (intro engine_invI)
          (auto simp: idle_clean_def building_ok_def accepted_now_def starts_once_intros)
      with True gen EStart show ?thesis by (simp add: session_start_def Let_def)
    qed (use inv EStart in \<open>simp add: session_start_def\<close>)
  next
    case EStop
    let ?s = "s\<lparr>es_generation := Suc (es_generation s)\<rparr>"
    have "engine_inv (fst (cleanup ?s))"
    proof (rule engine_inv_cleanup)
      show "starts_once (es_generation ?s) (es_starts ?s)" using starts_once_later [OF d(5)] by simp
      show "es_starts ?s 1 = Some Building \<Longrightarrow> es_generation ?s \<noteq> 1"
        using starts_once_one [OF d(5), of 1 Building] by simp
    qed (use d(1) in simp)
    with EStop inv show ?thesis by (simp add: session_stop_def)
  next
    case (EUrlBuilt g url)
    with en have b: "es_starts s g = Some Building" by simp
    with starts_once_one [OF d(5)] have g: "g = 1" by auto
    show ?thesis
    proof (cases "es_generation s = g")
      case False
      with EUrlBuilt engine_inv_drop [OF inv] show ?thesis by (simp add: start_url_built_def)
    next
      case True
      let ?s = "s\<lparr>es_starts := (es_starts s)(g \<mapsto> Opening False False), es_socket := Some (es_dials s),
        es_offer := Some g, es_dials := Suc (es_dials s)\<rparr>"
      have st: "es_state s = SStarting" using d(6) b g True by (simp add: building_ok_def)
      have so: "starts_once g ((es_starts s)(g \<mapsto> Opening False False))"
        using d(5) b True by (intro starts_once_intros(3)) auto
      have "engine_inv ?s"
        using d st so True g by (intro engine_invI) (auto simp: building_ok_def accepted_now_def)
      with True EUrlBuilt show ?thesis by (simp add: start_url_built_def)
    qed
  next
    case (EUrlFailed g m)
    with en engine_inv_throws [OF inv] show ?thesis by simp
  next
    case (CaptureStarted g)
    have "engine_inv (s\<lparr>es_starts := (es_starts s)(g \<mapsto> Opening True a), es_offer := es_offer s\<rparr>)"
      if "es_starts s g = Some (Opening c a)" for c a
      by (rule engine_inv_stage [OF inv]) (use that in auto)
    with inv CaptureStarted show ?thesis by (simp add: capture_started_def split: option.split start_stage.split)
  next
    case (CaptureFailed g m)
    have "engine_inv (s\<lparr>es_starts := (es_starts s)(g \<mapsto> Rejecting m), es_offer := es_offer s\<rparr>)"
      if "es_starts s g = Some (Opening c a)" for c a
      by (rule engine_inv_stage [OF inv]) (use that in auto)
    with inv CaptureFailed show ?thesis by (simp add: reject_start_def split: option.split start_stage.split)
  next
    case (StartReady g)
    with en engine_inv_ready [OF inv] show ?thesis by simp
  next
    case (StartThrows g)
    with en engine_inv_throws [OF inv, of g] inv show ?thesis by (auto split: option.splits start_stage.splits)
  next
    case (EOpened k)
    have "engine_inv (s\<lparr>es_open := True, es_pending := [], es_pending_bytes := 0\<rparr>)"
      using d en EOpened by (intro engine_invI) (auto simp: idle_clean_def building_ok_def)
    with EOpened show ?thesis by (simp add: engine_opened_def)
  next
    case (EMessage k data)
    with en inv engine_inv_frame show ?thesis by (auto split: option.split)
  next
    case (EClosed k)
    with inv show ?thesis by (simp add: engine_inv_unasked)
  next
    case (MicFrame frame)
    with inv show ?thesis by (simp add: engine_inv_mic)
  next
    case (Plays pe)
    with en engine_inv_plays [OF inv, of pe] show ?thesis by (auto split: play_event.splits)
  next
    case (ESpeak t)
    have "engine_inv (fst (say t s))" by (rule engine_inv_core [OF say_fields(7) inv]) (use d in \<open>auto simp: idle_clean_def\<close>)
    moreover have "engine_inv (s\<lparr>es_waiting := es_waiting s @ [t]\<rparr>)" if "es_state s \<noteq> SIdle"
      using d that by (intro engine_invI) (auto simp: building_ok_def accepted_now_def)
    ultimately show ?thesis using ESpeak inv by (simp add: session_speak_def)
  next
    case EStopSpeech
    have "engine_inv (fst (plays_do StopPlays s))" by (rule engine_inv_plays [OF inv]) simp_all
    with EStopSpeech show ?thesis by (simp add: session_stop_speech_def)
  qed
qed

interpretation engine: machine engine_step engine_enabled_once engine_inv
  by unfold_locales (rule engine_inv_step)

subsection \<open>The audio before the socket opens\<close>

text \<open>What the buffer should hold: the longest run of the latest frames that fits.\<close>

fun fitting_tail :: "nat \<Rightarrow> pcm list \<Rightarrow> pcm list" where
  "fitting_tail limit [] = []"
| "fitting_tail limit (f # fs) =
     (if sum_list (map length (f # fs)) \<le> limit then f # fs else fitting_tail limit fs)"

lemma fitting_tail_fits: "sum_list (map length fs) \<le> limit \<Longrightarrow> fitting_tail limit fs = fs"
  by (cases fs) auto

lemma fitting_tail_bytes: "sum_list (map length (fitting_tail limit fs)) \<le> limit"
  by (induction fs) auto

lemma fitting_tail_snoc:
  "length f \<le> limit \<Longrightarrow> fitting_tail limit (fs @ [f]) = fitting_tail (limit - length f) fs @ [f]"
  by (induction fs) auto

lemma fitting_tail_twice: "m \<le> limit \<Longrightarrow> fitting_tail m (fitting_tail limit fs) = fitting_tail m fs"
  by (induction fs) auto

lemma drop_oldest_tail:
  "len \<le> max_pending_audio_bytes \<Longrightarrow>
     drop_oldest len fs (sum_list (map length fs)) =
       (let gs = fitting_tail (max_pending_audio_bytes - len) fs in (gs, sum_list (map length gs)))"
  by (induction fs) (auto simp: Let_def)

definition connecting :: "pcm list \<Rightarrow> engine_session \<Rightarrow> engine_session" where
  "connecting fs s = s\<lparr>es_pending := fitting_tail max_pending_audio_bytes fs,
     es_pending_bytes := sum_list (map length (fitting_tail max_pending_audio_bytes fs))\<rparr>"

lemma mic_frame_connecting:
  assumes "es_state s \<noteq> SIdle" "\<not> es_open s" "length f \<le> max_pending_audio_bytes"
  shows "mic_frame f (connecting fs s) = (connecting (fs @ [f]) s, [])"
  using assms
  by (simp add: mic_frame_def connecting_def drop_oldest_tail fitting_tail_snoc fitting_tail_twice Let_def)

lemma mic_frames_connecting:
  assumes "es_state s \<noteq> SIdle" "\<not> es_open s" "list_all (\<lambda>f. length f \<le> max_pending_audio_bytes) fs"
  shows "run_events engine_step (connecting gs s) (map MicFrame fs) = (connecting (gs @ fs) s, [])"
  using assms(3)
proof (induction fs arbitrary: gs)
  case (Cons f fs)
  then have "engine_step (connecting gs s) (MicFrame f) = (connecting (gs @ [f]) s, [])"
    using mic_frame_connecting [OF assms(1,2)] by simp
  with Cons show ?case by (simp add: run_events.simps(2) split_beta Let_def)
qed simp

text \<open>While the socket is being set up, the buffer holds the longest run of the latest frames
  that fits in two seconds of audio, and the open sends exactly those, in order, after the
  session's first frame.\<close>

theorem early_audio_is_the_latest_that_fits:
  assumes "es_state s \<noteq> SIdle" "es_socket s \<noteq> None" "\<not> es_open s" "es_pending s = []" "es_pending_bytes s = 0"
    and "list_all (\<lambda>f. length f \<le> max_pending_audio_bytes) fs"
  shows "snd (run_events engine_step s (map MicFrame fs @ [EOpened d])) =
    SendFrame (JObj (start_session_frame (es_config s))) # map SendAudio (fitting_tail max_pending_audio_bytes fs)"
proof -
  have "connecting [] s = s" using assms(4,5) by (simp add: connecting_def)
  with mic_frames_connecting [OF assms(1,3,6), of "[]"]
  have "run_events engine_step s (map MicFrame fs) = (connecting fs s, [])" by simp
  then show ?thesis using assms(2)
    by (simp add: run_events_append engine_opened_def send_engine_frame_def connecting_def)
qed

text \<open>\<open>eng_eval\<close> runs a concrete session.\<close>

lemmas eng_eval = create_engine_session_def session_start_def start_url_built_def drop_start_def engine_opened_def
  send_engine_frame_def start_session_frame_def playback_formats_def run_events.simps chain_def create_play_queue_def
  accept_offer_def reject_start_def refuse_offer_def cleanup_def session_stop_def start_throws_def start_ready_def
  capture_started_def session_speak_def say_def plays_do_def from_play_def stop_plays_def set_draining_def Let_def

definition some_config :: engine_config where
  "some_config = \<lparr>ec_client = ''web'', ec_plays_ogg_opus = True, ec_barge_in = True, ec_wake_word = True\<rparr>"

definition dialed :: engine_session where
  "dialed = fst (run_events engine_step (create_engine_session some_config) [EStart, EUrlBuilt 1 ''ws''])"

theorem early_audio_is_the_latest_that_fits_witness:
  "snd (run_events engine_step dialed (map MicFrame [[1, 2], [3]] @ [EOpened 0])) =
    SendFrame (JObj (start_session_frame (es_config dialed))) #
      map SendAudio (fitting_tail max_pending_audio_bytes [[1, 2], [3]])"
  by (rule early_audio_is_the_latest_that_fits)
    (simp_all add: dialed_def eng_eval max_pending_audio_bytes_def)

subsection \<open>Replies asked for while the session starts\<close>

text \<open>The replies spoken while a session was starting go out when it becomes active, each once,
  in the order they were asked for and numbered on from the last one.\<close>

theorem waiting_replies_go_out_in_order:
  assumes "es_state s = SStarting" "es_socket s \<noteq> None" "es_open s" "es_generation s = g"
  shows "snd (run_events engine_step s (map ESpeak ts @ [StartReady g])) =
    OnActiveChange True #
      map (\<lambda>(n, t). SendFrame (JObj [(''type'', JStr ''speak''), (''id'', JStr (''reply-'' @ show_nat n)), (''text'', JStr t)]))
        (enumerate (Suc (es_replies s)) (es_waiting s @ ts)) @ [StartResolved g]"
proof -
  have waits: "run_events engine_step s (map ESpeak ts) = (s\<lparr>es_waiting := es_waiting s @ ts\<rparr>, [])"
    using assms(1)
    by (induction ts arbitrary: s) (simp_all add: run_events.simps(2) session_speak_def split_beta Let_def)
  have says: "snd (say_all us t) =
      map (\<lambda>(n, u). SendFrame (JObj [(''type'', JStr ''speak''), (''id'', JStr (''reply-'' @ show_nat n)), (''text'', JStr u)]))
        (enumerate (Suc (es_replies t)) us)" if "es_socket t \<noteq> None" "es_open t" for us t
    using that
  proof (induction us arbitrary: t)
    case (Cons u us)
    then have "snd (say u t) =
        [SendFrame (JObj [(''type'', JStr ''speak''), (''id'', JStr (''reply-'' @ show_nat (Suc (es_replies t)))), (''text'', JStr u)])]"
      by (simp add: say_def send_engine_frame_def Let_def)
    with Cons show ?case by simp
  qed simp
  show ?thesis using assms
    by (simp add: run_events_append waits start_ready_def drop_start_def says Let_def)
qed

definition accepted :: engine_session where
  "accepted = fst (run_events engine_step dialed
     [CaptureStarted 1, EOpened 0, EMessage 0 (Some (JObj [(''type'', JStr ''state''), (''state'', JStr ''idle'')]))])"

theorem waiting_replies_go_out_in_order_witness:
  "snd (run_events engine_step accepted (map ESpeak [''hi'', ''there''] @ [StartReady 1])) =
    OnActiveChange True #
      map (\<lambda>(n, t). SendFrame (JObj [(''type'', JStr ''speak''), (''id'', JStr (''reply-'' @ show_nat n)), (''text'', JStr t)]))
        (enumerate (Suc (es_replies accepted)) (es_waiting accepted @ [''hi'', ''there''])) @ [StartResolved 1]"
  by (rule waiting_replies_go_out_in_order)
    (simp_all add: accepted_def dialed_def eng_eval parse_engine_frame_def handle_frame_def)

subsection \<open>After a stop\<close>

definition stopped :: "engine_session \<Rightarrow> bool" where
  "stopped s \<longleftrightarrow> es_state s = SIdle \<and> es_socket s = None \<and> \<not> es_open s \<and> es_offer s = None \<and> 1 < es_generation s \<and>
     starts_once (es_generation s) (es_starts s)"

fun quiet_output :: "engine_out \<Rightarrow> bool" where
  "quiet_output StopCapture = True"
| "quiet_output (StartResolved g) = True"
| "quiet_output (OnReplyFailed m) = True"
| "quiet_output (OnSpeakingChange b) = True"
| "quiet_output (ToSpeaker x) = True"
| "quiet_output x = False"

lemma plays_do_quiet:
  assumes "\<not> es_open s" "x \<in> set (snd (plays_do e s))"
  shows "quiet_output x"
proof -
  have one: "\<not> es_open (fst (from_play y t)) \<and> (x \<in> set (snd (from_play y t)) \<longrightarrow> quiet_output x)" if "\<not> es_open t" for y t
    using that by (auto simp: from_play_def send_engine_frame_def reply_failed_def split: play_out.split)
  have all: "x \<in> set (snd (run_events (\<lambda>s y. from_play y s) t os)) \<Longrightarrow> quiet_output x" if "\<not> es_open t" for t os
    using that
  proof (induction os arbitrary: t)
    case (Cons y os)
    then show ?case using one [of t y] by auto
  qed simp
  from all [of "s\<lparr>es_plays := fst (play_step (es_plays s) e)\<rparr>" "snd (play_step (es_plays s) e)"] assms
  show ?thesis by (simp add: plays_do_def split_beta Let_def)
qed

lemma stopped_cleanup:
  assumes "stopped s"
  shows "stopped (fst (cleanup s))" "x \<in> set (snd (cleanup s)) \<Longrightarrow> quiet_output x"
proof -
  show "stopped (fst (cleanup s))"
    using assms starts_once_dom [of "es_generation s" "es_starts s", OF _ cleanup_building(2)]
    by (simp add: stopped_def)
  let ?s = "s\<lparr>es_state := SIdle, es_open := False, es_pending := [], es_pending_bytes := 0, es_waiting := [],
    es_failed := {}\<rparr>"
  show "x \<in> set (snd (cleanup s)) \<Longrightarrow> quiet_output x"
    using assms plays_do_quiet [of ?s x StopPlays] by (auto simp: stopped_def cleanup_def Let_def)
qed

lemma stopped_drop: "stopped s \<Longrightarrow> stopped (drop_start g s)"
  by (simp add: stopped_def drop_start_def starts_once_drop)

lemma stopped_generation: "stopped s \<Longrightarrow> es_starts s g \<noteq> None \<Longrightarrow> es_generation s \<noteq> g"
  by (auto simp: stopped_def starts_once_def)

lemma stopped_throws:
  assumes "stopped s" "es_starts s g \<noteq> None"
  shows "stopped (fst (start_throws g m s)) \<and> (x \<in> set (snd (start_throws g m s)) \<longrightarrow> quiet_output x)"
  using stopped_cleanup [OF stopped_drop [OF assms(1), of g]] stopped_generation [OF assms]
  by (auto simp: start_throws_def drop_start_def)

lemma stopped_core: "session_core s' = session_core s \<Longrightarrow> stopped s \<Longrightarrow> stopped s'"
  unfolding stopped_def by (metis session_core_select)

lemma stopped_step:
  assumes "stopped s" "engine_enabled_once s e"
  shows "stopped (fst (engine_step s e)) \<and> (x \<in> set (snd (engine_step s e)) \<longrightarrow> quiet_output x)"
proof (cases e)
  case EStart
  with assms show ?thesis by (simp add: stopped_def)
next
  case (EUrlBuilt g url)
  with assms have "es_generation s \<noteq> g" using stopped_generation by simp
  with EUrlBuilt stopped_drop [OF assms(1)] show ?thesis by (simp add: start_url_built_def)
next
  case (EUrlFailed g m)
  with assms stopped_throws [of s g m x] show ?thesis by simp
next
  case (StartThrows g)
  with assms stopped_throws [of s g _ x] show ?thesis by (auto split: option.splits start_stage.splits)
next
  case (StartReady g)
  then have "es_generation (drop_start g s) \<noteq> g" using assms stopped_generation by (simp add: drop_start_def)
  with StartReady stopped_drop [OF assms(1)] show ?thesis by (simp add: start_ready_def Let_def)
next
  case (CaptureStarted g)
  with assms(1) show ?thesis
    by (auto simp: capture_started_def stopped_def starts_once_change split: option.split start_stage.split)
next
  case (CaptureFailed g m)
  with assms(1) show ?thesis
    by (auto simp: reject_start_def stopped_def starts_once_change split: option.split start_stage.split)
next
  case EStopSpeech
  with assms(1) show ?thesis
    using plays_do_quiet [of s x] stopped_core [OF plays_do_core]
    by (auto simp: session_stop_speech_def send_engine_frame_def stopped_def)
next
  case (Plays pe)
  with assms(1) show ?thesis using plays_do_quiet [of s x] stopped_core [OF plays_do_core] by (simp add: stopped_def)
qed (use assms in \<open>simp_all add: stopped_def session_stop_def session_speak_def mic_frame_def\<close>)

lemma stop_stops:
  assumes "engine_inv s" "es_state s \<noteq> SIdle" "0 < es_generation s"
  shows "stopped (fst (session_stop s))"
proof -
  let ?s = "s\<lparr>es_generation := Suc (es_generation s)\<rparr>"
  have "starts_once (es_generation ?s) (es_starts (fst (cleanup ?s)))"
    by (rule starts_once_dom [OF _ cleanup_building(2)])
      (use starts_once_later [OF engine_invD(5) [OF assms(1)]] in simp)
  with assms show ?thesis by (simp add: session_stop_def stopped_def)
qed

text \<open>A session that runs is in its one start.\<close>

definition live_once :: "engine_session \<Rightarrow> bool" where
  "live_once s \<longleftrightarrow> (es_state s \<noteq> SIdle \<longrightarrow> es_generation s = 1)"

lemma live_once_idle [intro]: "es_state s = SIdle \<Longrightarrow> live_once s"
  by (simp add: live_once_def)

lemma live_once_fields: "es_state s' = es_state s \<Longrightarrow> es_generation s' = es_generation s \<Longrightarrow> live_once s' = live_once s"
  by (simp add: live_once_def)

lemma accept_offer_fields [simp]:
  "es_state (accept_offer s) = es_state s" "es_generation (accept_offer s) = es_generation s"
  by (simp_all add: accept_offer_def split: option.split start_stage.split)

lemma say_generation [simp]: "es_generation (fst (say t s)) = es_generation s"
  by (simp add: say_def Let_def)

lemma say_all_generation [simp]: "es_generation (fst (say_all ts s)) = es_generation s"
  by (induction ts arbitrary: s) simp_all

lemma reply_failed_fields [simp]:
  "es_state (fst (reply_failed i m s)) = es_state s" "es_generation (fst (reply_failed i m s)) = es_generation s"
  by (simp_all add: reply_failed_def)

lemma drop_start_fields [simp]:
  "es_state (drop_start g s) = es_state s" "es_generation (drop_start g s) = es_generation s"
  by (simp_all add: drop_start_def)

lemma live_once_end: "live_once s \<Longrightarrow> live_once (fst (end_unasked m m' s))"
  by (simp add: end_unasked_def session_fail_def live_once_def)

lemma live_once_frame: "live_once s \<Longrightarrow> live_once (fst (handle_frame frame s))"
  by (auto simp: handle_frame_def on_ended_def live_once_end live_once_fields [OF accept_offer_fields]
      live_once_fields [OF reply_failed_fields] live_once_fields [OF plays_do_fields(2,3)] Let_def
      split: engine_frame.split option.split)

lemma live_once_throws: "live_once (fst (start_throws g m s))"
  by (simp add: start_throws_def live_once_def)

lemma live_once_step:
  assumes "live_once s" "engine_enabled_once s e"
  shows "live_once (fst (engine_step s e))"
proof (cases e)
  case (EMessage d data)
  with assms(1) live_once_frame show ?thesis by (simp split: option.split)
next
  case (StartThrows g)
  with assms(1) live_once_throws show ?thesis by (simp split: option.split start_stage.split)
next
  case (EUrlFailed g m)
  with live_once_throws show ?thesis by simp
next
  case (EClosed d)
  with assms(1) live_once_end show ?thesis by simp
next
  case (CaptureFailed g m)
  with assms(1) show ?thesis by (simp add: live_once_def reject_start_def split: option.split start_stage.split)
next
  case (CaptureStarted g)
  with assms(1) show ?thesis by (simp add: live_once_def capture_started_def split: option.split start_stage.split)
qed (use assms in \<open>auto simp: live_once_def session_start_def session_stop_def session_speak_def session_stop_speech_def
      start_url_built_def start_ready_def engine_opened_def mic_frame_fields Let_def\<close>)

interpretation live: machine engine_step engine_enabled_once live_once
  by unfold_locales (rule live_once_step)

interpretation quiet: machine engine_step engine_enabled_once stopped
  by unfold_locales (use stopped_step in blast)

lemma live_once_start: "live_once (create_engine_session config)"
  by (simp add: create_engine_session_def live_once_idle)

text \<open>C12: After a stop of a session that ran, and was started once as the app does, whatever the promises
  in flight settle to and whatever sounds or frames still come, the session dials nothing, opens no
  microphone, sends nothing, and reports no state, no transcript, no turn and no session error. What may still
  come out is the end of the capture and of the pending start, calls to the speaker, the speaking indicator,
  and the failure of a reply (a play that was given up before the stop may report its own after it).\<close>

theorem stopped_session_stays_quiet:
  assumes "legal_events engine_step engine_enabled_once (create_engine_session config) (before @ EStop # after)"
    and "es_state (fst (run_events engine_step (create_engine_session config) before)) \<noteq> SIdle"
    and "x \<in> set (snd (run_events engine_step
      (fst (run_events engine_step (create_engine_session config) (before @ [EStop]))) after))"
  shows "quiet_output x"
proof -
  let ?s = "fst (run_events engine_step (create_engine_session config) before)"
  have legal: "legal_events engine_step engine_enabled_once (create_engine_session config) before"
    "legal_events engine_step engine_enabled_once (fst (session_stop ?s)) after"
    using assms(1) by (simp_all add: legal_events_append)
  have "engine_inv ?s" by (rule engine.run_inv [OF engine_inv_start legal(1)])
  moreover have "0 < es_generation ?s"
    using live.run_inv [OF live_once_start legal(1)] assms(2) by (simp add: live_once_def)
  ultimately have "stopped (fst (session_stop ?s))" using stop_stops assms(2) by blast
  moreover have "x \<in> set (snd (run_events engine_step (fst (session_stop ?s)) after))"
    using assms(3) by (simp add: run_events_append)
  ultimately show ?thesis using quiet.run_outputs stopped_step legal(2) by metis
qed

theorem stopped_session_stays_quiet_witness: "quiet_output (StartResolved 1)"
  by (rule stopped_session_stays_quiet [where config = some_config and before = "[EStart]" and after = "[EUrlBuilt 1 ''ws'']"])
    (simp_all add: eng_eval)

text \<open>A session that is idle holds no socket, no early audio, no waiting reply and no play, and
  its early audio is at most two seconds at any time.\<close>

theorem idle_session_holds_nothing:
  assumes "legal_events engine_step engine_enabled_once (create_engine_session config) es"
  shows "let s = fst (run_events engine_step (create_engine_session config) es)
    in sum_list (map length (es_pending s)) \<le> 64000 \<and>
       (if es_state s = SIdle then es_socket s = None \<and> es_pending s = [] \<and> es_waiting s = [] \<and> \<not> pq_draining (es_plays s)
        else es_generation s = 1)"
proof -
  note inv = engine.run_inv [OF engine_inv_start assms] live.run_inv [OF live_once_start assms]
  show ?thesis using engine_invD(2,4) [OF inv(1)] inv(2)
    by (simp add: Let_def idle_clean_def buffer_ok_def max_pending_audio_bytes_def live_once_def)
qed

theorem idle_session_holds_nothing_witness:
  "let s = fst (run_events engine_step (create_engine_session some_config) [EStart])
    in sum_list (map length (es_pending s)) \<le> 64000 \<and>
       (if es_state s = SIdle then es_socket s = None \<and> es_pending s = [] \<and> es_waiting s = [] \<and> \<not> pq_draining (es_plays s)
        else es_generation s = 1)"
  by (rule idle_session_holds_nothing) (simp add: eng_eval)

subsection \<open>A second start on one session\<close>

text \<open>When a session is started again while the url of its first start is still being built, the
  first start's failure cleans up the second one: its url then dials a socket and opens the
  microphone with the state idle, where a stop does nothing.\<close>

definition restarted :: engine_session where
  "restarted = fst (run_events engine_step (create_engine_session some_config)
     [EStart, EStop, EStart, EUrlFailed 1 ''no route''])"

lemma stale_start_leaves_the_microphone_on:
  "let (s, os) = engine_step restarted (EUrlBuilt 3 ''ws'')
   in es_state s = SIdle \<and> es_socket s = Some 0 \<and> StartCapture 3 \<in> set os \<and> engine_step s EStop = (s, [])"
  by (simp add: restarted_def eng_eval)

subsection \<open>What a step tells of the session\<close>

text \<open>The value a list of outputs leaves of a signal.\<close>

definition signalled :: "('o \<Rightarrow> bool option) \<Rightarrow> 'o list \<Rightarrow> bool \<Rightarrow> bool" where
  "signalled f os d = fold (\<lambda>x d. nullish (f x) d) os d"

lemma signalled_simps [simp]:
  "signalled f [] d = d" "signalled f (x # os) d = signalled f os (nullish (f x) d)"
  "signalled f (os @ ps) d = signalled f ps (signalled f os d)"
  by (simp_all add: signalled_def)

lemma signalled_none: "list_all (\<lambda>x. f x = None) os \<Longrightarrow> signalled f os d = d"
  by (induction os) simp_all

fun play_speaks :: "play_out \<Rightarrow> bool option" where
  "play_speaks (OnSpeaking b) = Some b"
| "play_speaks x = None"

fun engine_speaks :: "engine_out \<Rightarrow> bool option" where
  "engine_speaks (OnSpeakingChange b) = Some b"
| "engine_speaks x = None"

lemma set_draining_signal [simp]:
  "signalled play_speaks (snd (set_draining v q)) (pq_draining q) = v" "pq_draining (fst (set_draining v q)) = v"
  by (simp_all add: set_draining_def)

lemma play_signal:
  "signalled play_speaks (snd (play_step q e)) (pq_draining q) = pq_draining (fst (play_step q e))"
  by (cases e)
    (auto simp: enqueue_def drain_def set_draining_def take_next_def pause_plays_def resume_plays_def stop_plays_def
      url_resolved_def at_loop_def fail_play_def finish_play_def loop_proceeds_def sound_started_def speaker_done_def
      watchdog_def loop_next_def Let_def
      split: option.splits list.splits play_stage.splits if_splits)

lemma play_signal_idle:
  assumes "play_inv q" "play_enabled q e" "\<not> pq_draining q" "\<nexists>i p. e = Enqueue i p"
  shows "OnSpeaking b \<notin> set (snd (play_step q e))"
  using assms(3,4) play_inv_idle [OF assms(1,3)]
  by (cases e)
    (auto simp: set_draining_def take_next_def pause_plays_def resume_plays_def stop_plays_def current_def
      url_resolved_def at_loop_def fail_play_def finish_play_def loop_proceeds_def sound_started_def speaker_done_def
      watchdog_def loop_next_def Let_def
      split: option.splits list.splits play_stage.splits if_splits)

lemma from_play_signal: "signalled engine_speaks (snd (from_play x s)) d = nullish (play_speaks x) d"
  by (simp add: from_play_def send_engine_frame_def reply_failed_def split: play_out.split)

lemma plays_do_signal:
  "signalled engine_speaks (snd (plays_do e s)) (pq_draining (es_plays s)) = pq_draining (fst (play_step (es_plays s) e))"
proof -
  have "signalled engine_speaks (snd (run_events (\<lambda>s x. from_play x s) t os)) d = signalled play_speaks os d" for t os d
    by (induction os arbitrary: t d) (simp_all add: from_play_signal)
  then show ?thesis by (simp add: plays_do_def split_beta Let_def play_signal)
qed

lemma send_engine_frame_signal [simp]: "signalled engine_speaks (snd (send_engine_frame f s)) d = d"
  by (simp add: send_engine_frame_def)

lemma reply_failed_signal [simp]:
  "signalled engine_speaks (snd (reply_failed i m s)) d = d" "es_plays (fst (reply_failed i m s)) = es_plays s"
  by (simp_all add: reply_failed_def)

lemma cleanup_signal:
  "signalled engine_speaks (snd (cleanup s)) (pq_draining (es_plays s)) = False"
  using plays_do_signal [of StopPlays "s\<lparr>es_state := SIdle, es_open := False, es_pending := [], es_pending_bytes := 0,
    es_waiting := [], es_failed := {}\<rparr>"]
  by (simp add: cleanup_def Let_def split: option.split)

lemma end_unasked_signal:
  "signalled engine_speaks (snd (end_unasked m m' s)) (pq_draining (es_plays s)) =
     pq_draining (es_plays (fst (end_unasked m m' s)))"
  by (simp add: end_unasked_def session_fail_def cleanup_signal)

lemma accept_offer_plays [simp]: "es_plays (accept_offer s) = es_plays s"
  by (simp add: accept_offer_def split: option.split start_stage.split)

lemma frame_signal:
  "signalled engine_speaks (snd (handle_frame frame s)) (pq_draining (es_plays s)) =
     pq_draining (es_plays (fst (handle_frame frame s)))"
  by (simp add: handle_frame_def on_ended_def end_unasked_signal plays_do_signal Let_def
      split: engine_frame.split option.split)

lemma throws_signal:
  "signalled engine_speaks (snd (start_throws g m s)) (pq_draining (es_plays s)) =
     pq_draining (es_plays (fst (start_throws g m s)))"
  using cleanup_signal [of "drop_start g s"] by (simp add: start_throws_def) (simp add: drop_start_def)

lemma say_all_signal [simp]: "signalled engine_speaks (snd (say_all ts s)) d = d"
  by (induction ts arbitrary: s) (simp_all add: say_def Let_def)

lemma map_audio_signal [simp]: "signalled engine_speaks (map SendAudio fs) d = d"
  by (induction fs) simp_all

lemma speaking_signal:
  "signalled engine_speaks (snd (engine_step s e)) (pq_draining (es_plays s)) = pq_draining (es_plays (fst (engine_step s e)))"
proof (cases e)
  case EStop
  then show ?thesis using cleanup_signal [of "s\<lparr>es_generation := Suc (es_generation s)\<rparr>"] by (simp add: session_stop_def)
next
  case (EMessage d data)
  then show ?thesis using frame_signal by (simp split: option.split)
next
  case (StartThrows g)
  then show ?thesis using throws_signal by (simp split: option.split start_stage.split)
next
  case (EUrlFailed g m)
  then show ?thesis using throws_signal by simp
next
  case (EClosed d)
  then show ?thesis by (simp add: end_unasked_signal)
next
  case EStopSpeech
  then show ?thesis by (simp add: session_stop_speech_def plays_do_signal)
next
  case (Plays pe)
  then show ?thesis by (simp add: plays_do_signal)
next
  case (MicFrame f)
  then show ?thesis by (simp add: mic_frame_def split_beta Let_def)
next
  case (CaptureFailed g m)
  then show ?thesis by (simp add: reject_start_def split: option.split start_stage.split)
next
  case (CaptureStarted g)
  then show ?thesis by (simp add: capture_started_def split: option.split start_stage.split)
next
  case (ESpeak t)
  then show ?thesis by (simp add: session_speak_def say_def Let_def)
next
  case (StartReady g)
  then show ?thesis by (simp add: start_ready_def drop_start_def Let_def)
next
  case (EUrlBuilt g url)
  then show ?thesis by (simp add: start_url_built_def drop_start_def)
next
  case (EOpened d)
  then show ?thesis by (simp add: engine_opened_def)
next
  case EStart
  then show ?thesis by (simp add: session_start_def Let_def)
qed

text \<open>The outputs by which a session tells that it ended, and those of a turn of the user.\<close>

fun ends_session :: "engine_out \<Rightarrow> bool" where
  "ends_session (OnSessionError m) = True"
| "ends_session (StartRejected g m) = True"
| "ends_session (OnActiveChange b) = (\<not> b)"
| "ends_session x = False"

fun turn_output :: "engine_out \<Rightarrow> bool" where
  "turn_output OnTurnStart = True"
| "turn_output (OnTurnEnd t) = True"
| "turn_output x = False"

text \<open>What a session that is idle can still report: nothing of turns, texts or speaking.\<close>

fun idle_output :: "engine_out \<Rightarrow> bool" where
  "idle_output (OnSpeakingChange b) = False"
| "idle_output (OnTranscript t) = False"
| "idle_output OnTurnDropped = False"
| "idle_output (OnActiveChange b) = False"
| "idle_output x = (\<not> turn_output x)"

lemma play_output_plain: "play_output x \<Longrightarrow> \<not> ends_session x \<and> \<not> turn_output x"
  by (cases x) simp_all

lemma plays_do_plain: "x \<in> set (snd (plays_do e s)) \<Longrightarrow> \<not> ends_session x \<and> \<not> turn_output x"
  using plays_do_output play_output_plain by blast

lemma cleanup_turns: "x \<in> set (snd (cleanup s)) \<Longrightarrow> \<not> turn_output x"
  using cleanup_outputs [of x s] play_output_plain by (cases x) auto

lemma say_all_output: "x \<in> set (snd (say_all ts s)) \<Longrightarrow> \<exists>f. x = SendFrame f"
  by (induction ts arbitrary: s) (auto simp: say_def send_engine_frame_def Let_def split: if_splits)

lemma end_unasked_ends:
  assumes "x \<in> set (snd (end_unasked m m' s))"
  shows "es_state (fst (end_unasked m m' s)) = SIdle \<and> \<not> turn_output x"
  using assms cleanup_turns by (auto simp: end_unasked_def session_fail_def)

lemma ended_session_is_idle:
  assumes "x \<in> set (snd (engine_step s e))" "ends_session x"
  shows "es_state (fst (engine_step s e)) = SIdle"
proof (cases e)
  case (EMessage d data)
  then obtain frame where f: "parse_engine_frame data = Some frame" using assms by (cases "parse_engine_frame data") auto
  show ?thesis
  proof (cases frame)
    case (FEnded r)
    with assms EMessage f end_unasked_ends [of x] show ?thesis
      by (auto simp: handle_frame_def on_ended_def Let_def split: if_splits)
  next
    case (FError i m)
    with assms EMessage f show ?thesis by (cases i) (auto simp: handle_frame_def reply_failed_def split: if_splits)
  qed (use assms EMessage f plays_do_plain [of x] in \<open>auto simp: handle_frame_def\<close>)
next
  case (EClosed d)
  with assms end_unasked_ends [of x] show ?thesis by (auto split: if_splits)
next
  case (StartReady g)
  with assms show ?thesis by (auto simp: start_ready_def Let_def dest!: say_all_output split: if_splits)
next
  case (StartThrows g)
  with assms show ?thesis by (auto simp: start_throws_def split: option.splits start_stage.splits)
next
  case EStopSpeech
  with assms plays_do_plain [of x] show ?thesis by (auto simp: session_stop_speech_def send_engine_frame_def split: if_splits)
next
  case (Plays pe)
  with assms plays_do_plain [of x] show ?thesis by auto
qed (use assms in \<open>auto simp: session_start_def session_stop_def session_speak_def say_def send_engine_frame_def start_url_built_def
      start_throws_def engine_opened_def mic_frame_def split_beta Let_def split: if_splits\<close>)

lemma start_named:
  assumes "engine_inv s" "live_once s" "es_state s \<noteq> SIdle" "es_starts s g \<noteq> None"
  shows "es_generation s = g"
proof -
  have "g = 1" using starts_once_one [OF engine_invD(5) [OF assms(1)]] assms(4) by auto
  moreover have "es_generation s = 1" using assms(2,3) by (simp add: live_once_def)
  ultimately show ?thesis by simp
qed

lemma end_unasked_tells:
  "es_state s \<noteq> SIdle \<Longrightarrow> es_state (fst (end_unasked m m' s)) = SIdle \<Longrightarrow> OnSessionError m \<in> set (snd (end_unasked m m' s))"
  by (auto simp: end_unasked_def session_fail_def split: if_splits)

lemma throws_tells:
  assumes "engine_inv s" "live_once s" "es_state s \<noteq> SIdle" "es_starts s g \<noteq> None"
  shows "StartRejected g m \<in> set (snd (start_throws g m s))"
  using start_named [OF assms] by (simp add: start_throws_def)

lemma ended_session_tells:
  assumes "engine_inv s" "live_once s" "engine_enabled_once s e" "e \<noteq> EStop"
    and "es_state s \<noteq> SIdle" "es_state (fst (engine_step s e)) = SIdle"
  shows "\<exists>x\<in>set (snd (engine_step s e)). ends_session x"
proof (cases e)
  case (EMessage d data)
  with assms obtain frame where f: "parse_engine_frame data = Some frame" by (cases "parse_engine_frame data") auto
  show ?thesis
  proof (cases frame)
    case (FEnded r)
    with assms EMessage f end_unasked_tells [of s] show ?thesis
      by (force simp: handle_frame_def on_ended_def Let_def split: if_splits)
  next
    case (FError i m)
    with assms EMessage f show ?thesis by (cases i) (auto simp: handle_frame_def)
  qed (use assms EMessage f in \<open>auto simp: handle_frame_def\<close>)
next
  case (EClosed d)
  with assms end_unasked_tells [of s] show ?thesis by (force split: if_splits)
next
  case (EUrlFailed g m)
  with assms throws_tells [OF assms(1,2,5), of g m] show ?thesis by force
next
  case (StartThrows g)
  then obtain m where "es_starts s g = Some (Rejecting m)"
    using assms(3) by (auto split: option.splits start_stage.splits)
  with StartThrows throws_tells [OF assms(1,2,5), of g m] show ?thesis by force
qed (use assms in \<open>auto simp: session_start_def session_speak_def session_stop_speech_def start_url_built_def start_ready_def
      engine_opened_def mic_frame_fields capture_started_def reject_start_def Let_def
      split: if_splits option.splits start_stage.splits\<close>)

lemma turn_frame:
  assumes "x \<in> set (snd (handle_frame frame s))" "turn_output x"
  shows "snd (handle_frame frame s) = [x]"
proof (cases frame)
  case (FError i m)
  with assms show ?thesis by (cases i) (auto simp: handle_frame_def reply_failed_def split: if_splits)
next
  case (FEnded r)
  with assms end_unasked_ends [of x] show ?thesis
    by (auto simp: handle_frame_def on_ended_def Let_def split: if_splits)
qed (use assms plays_do_plain [of x] in \<open>auto simp: handle_frame_def\<close>)

lemma turn_alone:
  assumes "x \<in> set (snd (engine_step s e))" "turn_output x"
  shows "snd (engine_step s e) = [x]"
proof (cases e)
  case (EMessage d data)
  with assms turn_frame show ?thesis by (auto split: option.splits)
next
  case (EClosed d)
  with assms end_unasked_ends [of x] show ?thesis by (auto split: if_splits)
next
  case (StartReady g)
  with assms show ?thesis by (auto simp: start_ready_def Let_def dest!: say_all_output split: if_splits)
next
  case (StartThrows g)
  with assms cleanup_turns [of x] show ?thesis by (auto simp: start_throws_def split: option.splits start_stage.splits if_splits)
next
  case (EUrlFailed g m)
  with assms cleanup_turns [of x] show ?thesis by (auto simp: start_throws_def split: if_splits)
next
  case EStop
  with assms cleanup_turns [of x] show ?thesis by (auto simp: session_stop_def send_engine_frame_def split: if_splits)
next
  case EStopSpeech
  with assms plays_do_plain [of x] show ?thesis by (auto simp: session_stop_speech_def send_engine_frame_def split: if_splits)
next
  case (Plays pe)
  with assms plays_do_plain [of x] show ?thesis by auto
qed (use assms in \<open>auto simp: session_start_def session_speak_def say_def send_engine_frame_def start_url_built_def
      engine_opened_def mic_frame_def split_beta Let_def split: if_splits\<close>)

text \<open>An idle session stays idle until it is started, and reports nothing of the user or the speaker.\<close>

lemma plays_do_idle:
  assumes "play_inv (es_plays s)" "play_enabled (es_plays s) e" "\<not> pq_draining (es_plays s)" "\<nexists>i p. e = Enqueue i p"
    and "x \<in> set (snd (plays_do e s))"
  shows "idle_output x"
proof -
  have one: "x \<in> set (snd (from_play y t)) \<Longrightarrow> idle_output x \<or> (\<exists>b. y = OnSpeaking b)" for y t
    by (auto simp: from_play_def send_engine_frame_def reply_failed_def split: play_out.splits if_splits)
  have "x \<in> set (snd (run_events (\<lambda>s y. from_play y s) t os)) \<Longrightarrow> \<forall>b. OnSpeaking b \<notin> set os \<Longrightarrow> idle_output x" for t os
  proof (induction os arbitrary: t)
    case (Cons y os)
    then show ?case using one [of y t] by auto
  qed simp
  with assms(5) play_signal_idle [OF assms(1-4)] show ?thesis by (simp add: plays_do_def split_beta Let_def)
qed

lemma cleanup_idle:
  assumes "engine_inv s" "es_state s = SIdle" "x \<in> set (snd (cleanup s))"
  shows "idle_output x"
proof -
  let ?s = "s\<lparr>es_state := SIdle, es_open := False, es_pending := [], es_pending_bytes := 0, es_waiting := [],
    es_failed := {}\<rparr>"
  have "\<not> pq_draining (es_plays s)" using engine_invD(2) [OF assms(1,2)] by (simp add: idle_clean_def)
  with engine_invD(1) [OF assms(1)] have "x \<in> set (snd (plays_do StopPlays ?s)) \<Longrightarrow> idle_output x"
    using plays_do_idle [of ?s StopPlays x] by simp
  with assms(2,3) show ?thesis by (auto simp: cleanup_def Let_def split: option.splits)
qed

lemma throws_idle:
  assumes "engine_inv s" "es_state s = SIdle" "x \<in> set (snd (start_throws g m s))"
  shows "idle_output x"
  using assms(2,3) cleanup_idle [OF engine_inv_drop [OF assms(1)], of g x] by (auto simp: start_throws_def split: if_splits)

lemma idle_stays_idle:
  assumes "engine_inv s" "engine_enabled_once s e" "e \<noteq> EStart" "es_state s = SIdle"
  shows "es_state (fst (engine_step s e)) = SIdle \<and> (x \<in> set (snd (engine_step s e)) \<longrightarrow> idle_output x)"
proof -
  note d = engine_invD [OF assms(1)]
  have clean: "idle_clean s" by (rule d(2) [OF assms(4)])
  then have off: "es_socket s = None" "\<not> es_open s" "\<not> pq_draining (es_plays s)"
    using d(3) by (auto simp: idle_clean_def)
  show ?thesis
  proof (cases e)
    case (EUrlBuilt g url)
    then have "es_generation s \<noteq> g"
      using assms(2,4) d(6) starts_once_one [OF d(5), of g] by (auto simp: building_ok_def)
    with EUrlBuilt assms(4) show ?thesis by (simp add: start_url_built_def)
  next
    case (EUrlFailed g m)
    with throws_idle [OF assms(1,4)] show ?thesis by (simp add: start_throws_def)
  next
    case (StartThrows g)
    with throws_idle [OF assms(1,4), of x g] assms(4) show ?thesis
      by (auto simp: start_throws_def split: option.splits start_stage.splits)
  next
    case (Plays pe)
    then have "\<nexists>i p. pe = Enqueue i p" "play_enabled (es_plays s) pe" using assms(2) by auto
    with Plays plays_do_idle [OF d(1), of pe x] off(3) assms(4) show ?thesis by simp
  next
    case EStopSpeech
    with plays_do_idle [OF d(1), of StopPlays x] off assms(4) show ?thesis
      by (simp add: session_stop_speech_def send_engine_frame_def)
  qed (use assms off in \<open>auto simp: session_stop_def session_speak_def start_ready_def mic_frame_def
        capture_started_def reject_start_def Let_def split: option.split start_stage.split\<close>)
qed

lemma cleanup_config [simp]: "es_config (fst (cleanup s)) = es_config s"
  by (simp add: cleanup_def refuse_offer_def reject_start_def Let_def split: option.split start_stage.split)

lemma refuse_offer_config [simp]: "es_config (refuse_offer m s) = es_config s"
  by (simp add: refuse_offer_def reject_start_def split: option.split start_stage.split)

lemma say_all_config [simp]: "es_config (fst (say_all ts s)) = es_config s"
  by (induction ts arbitrary: s) (simp_all add: say_def Let_def)

lemma frame_config: "es_config (fst (handle_frame frame s)) = es_config s"
  by (simp add: handle_frame_def on_ended_def end_unasked_def session_fail_def accept_offer_def reply_failed_def Let_def
      split: engine_frame.split option.split start_stage.split)

lemma engine_config_kept: "es_config (fst (engine_step s e)) = es_config s"
  by (cases e)
    (simp_all add: session_start_def session_stop_def session_speak_def session_stop_speech_def start_url_built_def
      start_throws_def drop_start_def capture_started_def reject_start_def start_ready_def engine_opened_def
      end_unasked_def session_fail_def mic_frame_def say_def frame_config split_beta Let_def
      split: option.split start_stage.split)

end
