(* ===== verification/Linkify.thy ===== *)
theory Linkify
  imports Ansi
begin

section \<open>Text with links (apps/web/src/lib/linkify.ts, ansi-html.ts, bare-url.ts, markdown.tsx,
  apps/mobile/src/agent/chat/chat-message-model.ts)\<close>

text \<open>
  The log viewer's lines become HTML, and the chat's words become links.  Every regular expression is a matcher at the
  head of a text, and a global \<open>replace\<close> a scan that takes the leftmost match and goes on behind it.  Text is below code
  unit 256; dates and their words are parameters.  The lemmas show what a browser reads in the written markup.
\<close>

abbreviation NUL :: char where "NUL \<equiv> CHR 0x00"
abbreviation QUOTE :: char where "QUOTE \<equiv> CHR 0x22"
abbreviation TICK :: char where "TICK \<equiv> CHR 0x60"
abbreviation STAR :: char where "STAR \<equiv> CHR ''*''"

subsection \<open>A line with its links\<close>

definition replace_char :: "char \<Rightarrow> string \<Rightarrow> string \<Rightarrow> string" where
  "replace_char c r s = concat (map (\<lambda>x. if x = c then r else [x]) s)"

definition escape_html :: "string \<Rightarrow> string" where
  "escape_html s =
     replace_char QUOTE ''&quot;'' (replace_char (CHR ''>'') ''&gt;''
       (replace_char (CHR ''<'') ''&lt;'' (replace_char (CHR ''&'') ''&amp;'' s)))"

definition ends_url :: "char \<Rightarrow> bool" where
  "ends_url c \<longleftrightarrow> is_js_space c \<or> c \<in> set ''<>)]},;*'' \<or> c = QUOTE \<or> c = CHR 0x27 \<or> c = TICK"

definition url_match :: "string \<Rightarrow> (string \<times> string) option" where
  "url_match s =
     (let n = (if starts_with ''http://'' s then 7 else if starts_with ''https://'' s then 8 else 0); rest = drop n s
      in if n = 0 \<or> rest = [] \<or> ends_url (hd rest) then None
         else Some (take n s @ takeWhile (\<lambda>c. \<not> ends_url c) rest, dropWhile (\<lambda>c. \<not> ends_url c) rest))"

definition url_placeholder :: "nat \<Rightarrow> string" where
  "url_placeholder n = [NUL] @ ''URL'' @ show_nat n @ [NUL]"

lemma url_match_length: "url_match s = Some (u, rest) \<Longrightarrow> length rest < length s"
  using length_dropWhile_le [of "\<lambda>c. \<not> ends_url c" "drop 7 s"] length_dropWhile_le [of "\<lambda>c. \<not> ends_url c" "drop 8 s"]
  by (auto simp: url_match_def Let_def split: if_splits dest!: starts_with_length)

function take_urls :: "nat \<Rightarrow> string \<Rightarrow> string \<times> string list" where
  "take_urls n [] = ([], [])"
| "take_urls n (c # s) =
     (case url_match (c # s) of
        None \<Rightarrow> (let (t, us) = take_urls n s in (c # t, us))
      | Some (u, rest) \<Rightarrow> (let (t, us) = take_urls (Suc n) rest in (url_placeholder n @ t, u # us)))"
  by pat_completeness auto
termination by (relation "measure (\<lambda>(n, s). length s)") (auto dest: url_match_length)

definition placeholder_match :: "string \<Rightarrow> (string \<times> string) option" where
  "placeholder_match s =
     (if starts_with ([NUL] @ ''URL'') s
      then let ds = takeWhile is_digit (drop 4 s); rest = dropWhile is_digit (drop 4 s)
           in if ds \<noteq> [] \<and> starts_with [NUL] rest then Some (ds, tl rest) else None
      else None)"

definition anchor_open :: "string \<Rightarrow> string" where
  "anchor_open u = ''a href='' @ [QUOTE] @ u @ [QUOTE] @ '' target='' @ [QUOTE] @ ''_blank'' @ [QUOTE] @ '' rel='' @ [QUOTE] @ ''noopener'' @ [QUOTE]"

definition html_tag :: "string \<Rightarrow> string" where
  "html_tag m = ''<'' @ m @ ''>''"

definition anchor :: "string \<Rightarrow> string" where
  "anchor u = html_tag (anchor_open (escape_html u)) @ escape_html u @ html_tag ''/a''"

lemma placeholder_match_length: "placeholder_match s = Some (ds, rest) \<Longrightarrow> length rest < length s"
  using length_dropWhile_le [of is_digit "drop 4 s"]
  by (auto simp: placeholder_match_def Let_def split: if_splits dest!: starts_with_length)

function put_urls :: "string list \<Rightarrow> string \<Rightarrow> string" where
  "put_urls us [] = []"
| "put_urls us (c # s) =
     (case placeholder_match (c # s) of
        None \<Rightarrow> c # put_urls us s
      | Some (ds, rest) \<Rightarrow>
          (if digits_value ds < length us then anchor (us ! digits_value ds) else [NUL] @ ''URL'' @ ds @ [NUL]) @ put_urls us rest)"
  by pat_completeness auto
termination by (relation "measure (\<lambda>(us, s). length s)") (auto dest: placeholder_match_length)

definition code_match :: "string \<Rightarrow> (string \<times> string) option" where
  "code_match s =
     (let inner = takeWhile (\<lambda>c. c \<noteq> TICK) s; rest = dropWhile (\<lambda>c. c \<noteq> TICK) s
      in if inner \<noteq> [] \<and> rest \<noteq> [] then Some (inner, tl rest) else None)"

lemma code_match_split: "code_match s = Some (inner, rest) \<Longrightarrow> s = inner @ [TICK] @ rest"
proof -
  assume m: "code_match s = Some (inner, rest)"
  have "hd (dropWhile (\<lambda>c. c \<noteq> TICK) s) = TICK" if "dropWhile (\<lambda>c. c \<noteq> TICK) s \<noteq> []"
    using hd_dropWhile [OF that] by simp
  with m show ?thesis
    unfolding code_match_def Let_def
    by (metis (no_types, lifting) append_Cons append_Nil list.collapse not_Some_eq option.inject prod.inject takeWhile_dropWhile_id)
qed

function replace_code :: "string \<Rightarrow> string" where
  "replace_code [] = []"
| "replace_code (c # s) =
     (case if c = TICK then code_match s else None of
        None \<Rightarrow> c # replace_code s
      | Some (inner, rest) \<Rightarrow> html_tag ''code'' @ inner @ html_tag ''/code'' @ replace_code rest)"
  by pat_completeness auto
termination by (relation "measure length") (auto split: if_splits dest!: code_match_split)

text \<open>\<open>(.+?)\<close> before what \<open>ends_at\<close> says of its last character and the text behind it.\<close>

fun lazy_match :: "(char \<Rightarrow> string \<Rightarrow> bool) \<Rightarrow> string \<Rightarrow> (string \<times> string) option" where
  "lazy_match ends_at [] = None"
| "lazy_match ends_at (c # s) =
     (if is_line_end c then None
      else if ends_at c s then Some ([c], s)
      else map_option (\<lambda>(inner, rest). (c # inner, rest)) (lazy_match ends_at s))"

definition bold_match :: "string \<Rightarrow> (string \<times> string) option" where
  "bold_match s =
     (if starts_with ''**'' s
      then map_option (\<lambda>(inner, rest). (inner, drop 2 rest)) (lazy_match (\<lambda>c rest. starts_with ''**'' rest) (drop 2 s)) else None)"

definition italic_match :: "char option \<Rightarrow> string \<Rightarrow> (string \<times> string) option" where
  "italic_match before s =
     (if before \<noteq> Some STAR \<and> starts_with ''*'' s \<and> \<not> starts_with ''**'' s
      then map_option (\<lambda>(inner, rest). (inner, tl rest))
        (lazy_match (\<lambda>c rest. c \<noteq> STAR \<and> starts_with ''*'' rest \<and> \<not> starts_with ''**'' rest) (tl s))
      else None)"

lemma lazy_match_split: "lazy_match e s = Some (inner, rest) \<Longrightarrow> s = inner @ rest \<and> (\<exists>c. e c rest)"
  by (induction s arbitrary: inner) (fastforce split: if_splits)+

lemma bold_match_split: "bold_match s = Some (inner, rest) \<Longrightarrow> s = [STAR, STAR] @ inner @ [STAR, STAR] @ rest"
  by (auto simp: bold_match_def split: if_splits dest!: lazy_match_split starts_with_ex)

lemma italic_match_split: "italic_match b s = Some (inner, rest) \<Longrightarrow> s = [STAR] @ inner @ [STAR] @ rest"
  by (auto simp: italic_match_def split: if_splits dest!: lazy_match_split starts_with_ex)

function replace_bold :: "string \<Rightarrow> string" where
  "replace_bold [] = []"
| "replace_bold (c # s) =
     (case bold_match (c # s) of
        None \<Rightarrow> c # replace_bold s
      | Some (inner, rest) \<Rightarrow> html_tag ''strong'' @ inner @ html_tag ''/strong'' @ replace_bold rest)"
  by pat_completeness auto
termination by (relation "measure length") (auto dest!: bold_match_split)

function replace_italic :: "char option \<Rightarrow> string \<Rightarrow> string" where
  "replace_italic before [] = []"
| "replace_italic before (c # s) =
     (case italic_match before (c # s) of
        None \<Rightarrow> c # replace_italic (Some c) s
      | Some (inner, rest) \<Rightarrow> html_tag ''em'' @ inner @ html_tag ''/em'' @ replace_italic (Some STAR) rest)"
  by pat_completeness auto
termination by (relation "measure (\<lambda>(b, s). length s)") (auto dest!: italic_match_split)

definition linkify :: "string \<Rightarrow> string" where
  "linkify text =
     (let (stripped, urls) = take_urls 0 text
      in replace_italic None (replace_bold (replace_code (put_urls urls (escape_html stripped)))))"

subsection \<open>A line with its colors\<close>

definition css_palette :: "string list" where
  "css_palette =
     map (\<lambda>c. ''var(--ansi-'' @ c @ '')'')
       [''black'', ''red'', ''green'', ''yellow'', ''blue'', ''magenta'', ''cyan'', ''white'',
        ''bright-black'', ''bright-red'', ''bright-green'', ''bright-yellow'', ''bright-blue'', ''bright-magenta'',
        ''bright-cyan'', ''bright-white'']"

definition style_declarations :: "ansi_style \<Rightarrow> string list" where
  "style_declarations s =
     (let fg = map_option (resolve_ansi_color css_palette) (foreground s);
          bg = map_option (resolve_ansi_color css_palette) (background s);
          fg' = (if inverse s then Some (nullish bg ''var(--ansi-black)'') else fg);
          bg' = (if inverse s then Some (nullish fg ''var(--ansi-white)'') else bg);
          decorations = (if underline s then [''underline''] else []) @ (if strikethrough s then [''line-through''] else [])
      in (case fg' of None \<Rightarrow> [] | Some c \<Rightarrow> [''color:'' @ c]) @
         (case bg' of None \<Rightarrow> [] | Some c \<Rightarrow> [''background-color:'' @ c]) @
         (if bold s then [''font-weight:700''] else []) @ (if dim s then [''opacity:0.62''] else []) @
         (if italic s then [''font-style:italic''] else []) @ (if hidden s then [''visibility:hidden''] else []) @
         (if decorations = [] then [] else [''text-decoration:'' @ join '' '' decorations]))"

definition style_open :: "string list \<Rightarrow> string" where
  "style_open ds = ''span style='' @ [QUOTE] @ join '';'' ds @ [QUOTE]"

definition render_span :: "(string \<Rightarrow> string) \<Rightarrow> ansi_span \<Rightarrow> string" where
  "render_span render_text x =
     (let html = render_text (span_text x); ds = style_declarations (span_style x)
      in if ds \<noteq> [] then html_tag (style_open ds) @ html @ html_tag ''/span'' else html)"

definition render_ansi_html :: "string \<Rightarrow> (string \<Rightarrow> string) \<Rightarrow> string" where
  "render_ansi_html v render_text = concat (map (render_span render_text) (parse_ansi v))"

subsection \<open>What a browser reads\<close>

text \<open>The tags of a text, up to the first \<open>>\<close>, and the text beside them with its four entities decoded.  A \<open><\<close> that is
  not closed is itself, which no tag is.\<close>

function markup :: "string \<Rightarrow> string list" where
  "markup [] = []"
| "markup (c # s) =
     (if c \<noteq> CHR ''<'' then markup s
      else if CHR ''>'' \<in> set s then takeWhile (\<lambda>c. c \<noteq> CHR ''>'') s # markup (tl (dropWhile (\<lambda>c. c \<noteq> CHR ''>'') s))
      else [''<''])"
  by pat_completeness auto
termination
proof (relation "measure length", goal_cases)
  case (3 c s)
  then show ?case using length_dropWhile_le [of "\<lambda>c. c \<noteq> CHR ''>''" s] by simp
qed auto

definition entities :: "(string \<times> char) list" where
  "entities = [(''&amp;'', CHR ''&''), (''&lt;'', CHR ''<''), (''&gt;'', CHR ''>''), (''&quot;'', QUOTE)]"

function html_text :: "string \<Rightarrow> string" where
  "html_text [] = []"
| "html_text (c # s) =
     (if c = CHR ''<'' then html_text (tl (dropWhile (\<lambda>c. c \<noteq> CHR ''>'') s))
      else case find (\<lambda>(e, x). starts_with e (c # s)) entities of
             None \<Rightarrow> c # html_text s
           | Some (e, x) \<Rightarrow> x # html_text (drop (length e - 1) s))"
  by pat_completeness auto
termination
proof (relation "measure length", goal_cases)
  case (2 c s)
  then show ?case using length_dropWhile_le [of "\<lambda>c. c \<noteq> CHR ''>''" s] by (simp add: less_Suc_eq_le)
next
  case (4 c s x e x')
  then show ?case by simp
qed auto

text \<open>The tags the viewer writes: the fixed ones, a link to an http address, and a span's style, the last two with an
  attribute that ends at its own quote.\<close>

definition attribute_safe :: "string \<Rightarrow> bool" where
  "attribute_safe v \<longleftrightarrow> list_all (\<lambda>c. c \<noteq> QUOTE \<and> c \<noteq> CHR ''<'' \<and> c \<noteq> CHR ''>'' \<and> c \<noteq> TICK \<and> c \<noteq> STAR) v"

definition http_url :: "string \<Rightarrow> bool" where
  "http_url u \<longleftrightarrow> starts_with ''http://'' u \<or> starts_with ''https://'' u"

definition own_tag :: "string \<Rightarrow> bool" where
  "own_tag m \<longleftrightarrow>
     m \<in> {''code'', ''/code'', ''strong'', ''/strong'', ''em'', ''/em'', ''/a'', ''/span''} \<or>
     (\<exists>u. m = anchor_open u \<and> http_url u \<and> attribute_safe u) \<or>
     (\<exists>ds. m = style_open ds \<and> list_all attribute_safe ds)"

subsection \<open>Tokens\<close>

datatype html_token = Txt char | Tag string

definition html_char :: "char \<Rightarrow> string" where
  "html_char c =
     (if c = CHR ''&'' then ''&amp;'' else if c = CHR ''<'' then ''&lt;'' else if c = CHR ''>'' then ''&gt;''
      else if c = QUOTE then ''&quot;'' else [c])"

fun token_html :: "html_token \<Rightarrow> string" where
  "token_html (Txt c) = html_char c"
| "token_html (Tag m) = html_tag m"

definition html_of :: "html_token list \<Rightarrow> string" where
  "html_of ts = concat (map token_html ts)"

fun token_ok :: "html_token \<Rightarrow> bool" where
  "token_ok (Txt c) = True"
| "token_ok (Tag m) = own_tag m"

fun token_text :: "html_token \<Rightarrow> string" where
  "token_text (Txt c) = [c]"
| "token_text (Tag m) = []"

definition tokens_text :: "html_token list \<Rightarrow> string" where
  "tokens_text ts = concat (map token_text ts)"

lemma html_of_simps [simp]:
  "html_of [] = []" "html_of (t # ts) = token_html t @ html_of ts" "html_of (ts @ us) = html_of ts @ html_of us"
  "tokens_text [] = []" "tokens_text (t # ts) = token_text t @ tokens_text ts"
  "tokens_text (ts @ us) = tokens_text ts @ tokens_text us"
  "tokens_text (map Txt s) = s"
  by (simp_all add: html_of_def tokens_text_def comp_def)

lemma escape_html_eq: "escape_html s = html_of (map Txt s)"
  by (induction s) (auto simp: escape_html_def replace_char_def html_char_def)

text \<open>No tag has an angle bracket inside, or a character that opens markup.\<close>

lemma attribute_safeD: "attribute_safe v \<Longrightarrow> c \<in> set v \<Longrightarrow> c \<notin> {QUOTE, CHR ''<'', CHR ''>'', TICK, STAR}"
  by (auto simp: attribute_safe_def list_all_iff)

lemma join_set: "c \<in> set (join s ps) \<Longrightarrow> c \<in> set s \<or> (\<exists>p \<in> set ps. c \<in> set p)"
  by (induction s ps rule: join.induct) auto

lemma own_tag_chars:
  assumes "own_tag m" "c \<in> set m"
  shows "c \<notin> {CHR ''<'', CHR ''>'', TICK, STAR}"
proof -
  have "c \<notin> {CHR ''<'', CHR ''>'', TICK, STAR}" if "m = anchor_open u" "attribute_safe u" for u
    using assms(2) that by (auto simp: anchor_open_def dest: attribute_safeD)
  moreover have "c \<notin> {CHR ''<'', CHR ''>'', TICK, STAR}" if "m = style_open ds" "list_all attribute_safe ds" for ds
    using assms(2) that by (auto simp: style_open_def list_all_iff dest!: join_set attribute_safeD)
  ultimately show ?thesis using assms by (auto simp: own_tag_def)
qed

lemma markup_tokens:
  assumes "list_all token_ok ts"
  shows "markup (html_of ts) = List.map_filter (\<lambda>t. case t of Txt c \<Rightarrow> None | Tag m \<Rightarrow> Some m) ts"
  using assms
proof (induction ts)
  case (Cons t ts)
  show ?case
  proof (cases t)
    case (Tag m)
    with Cons.prems have "\<forall>c \<in> set m. c \<noteq> CHR ''>''" using own_tag_chars by fastforce
    then have "takeWhile (\<lambda>c. c \<noteq> CHR ''>'') (m @ ''>'' @ html_of ts) = m" "dropWhile (\<lambda>c. c \<noteq> CHR ''>'') (m @ ''>'' @ html_of ts) = ''>'' @ html_of ts"
      by (simp_all add: takeWhile_append dropWhile_append)
    with Cons Tag show ?thesis by (simp add: html_tag_def map_filter_simps)
  next
    case (Txt c)
    with Cons show ?thesis by (simp add: html_char_def map_filter_simps)
  qed
qed (simp add: map_filter_simps)

lemma tokens_own_tags: "list_all token_ok ts \<Longrightarrow> list_all own_tag (markup (html_of ts))"
  by (subst markup_tokens, assumption, induction ts) (auto simp: map_filter_simps split: html_token.split)

lemma html_text_tokens:
  assumes "list_all token_ok ts"
  shows "html_text (html_of ts) = tokens_text ts"
  using assms
proof (induction ts)
  case (Cons t ts)
  show ?case
  proof (cases t)
    case (Tag m)
    with Cons.prems have "\<forall>c \<in> set m. c \<noteq> CHR ''>''" using own_tag_chars by fastforce
    then have "dropWhile (\<lambda>c. c \<noteq> CHR ''>'') (m @ ''>'' @ html_of ts) = ''>'' @ html_of ts"
      by (simp add: dropWhile_append)
    with Cons Tag show ?thesis by (simp add: html_tag_def)
  next
    case (Txt c)
    with Cons show ?thesis by (simp add: html_char_def entities_def starts_with_def)
  qed
qed simp

text \<open>A mark of the text is a token of its own, so a token list splits at it.\<close>

definition is_mark :: "char \<Rightarrow> bool" where
  "is_mark c \<longleftrightarrow> c = TICK \<or> c = STAR"

lemma mark_in_html_char: "is_mark c \<Longrightarrow> c \<in> set (html_char x) \<Longrightarrow> x = c"
  by (auto simp: html_char_def is_mark_def split: if_splits)

lemma token_no_mark: "token_ok t \<Longrightarrow> is_mark c \<Longrightarrow> t \<noteq> Txt c \<Longrightarrow> c \<in> set (token_html t) \<Longrightarrow> False"
proof (cases t)
  case (Tag m)
  assume "token_ok t" "is_mark c" "c \<in> set (token_html t)"
  with Tag own_tag_chars [of m c] show False by (auto simp: html_tag_def is_mark_def)
qed (auto dest: mark_in_html_char)

lemma mark_html [simp]: "is_mark c \<Longrightarrow> html_char c = [c]"
  by (auto simp: is_mark_def html_char_def)

lemma split_at_char:
  assumes "\<forall>t \<in> set ts. c \<in> set (token_html t) \<longrightarrow> t = Txt c" "html_char c = [c]" "html_of ts = a @ c # b"
  shows "\<exists>ta tb. ts = ta @ Txt c # tb \<and> html_of ta = a \<and> html_of tb = b"
  using assms
proof (induction ts arbitrary: a)
  case (Cons t ts)
  have eq: "token_html t @ html_of ts = a @ c # b" using Cons.prems(3) by simp
  show ?case
  proof (cases "t = Txt c")
    case True
    show ?thesis
    proof (cases a)
      case Nil
      with eq True Cons.prems(2) show ?thesis by (intro exI [of _ "[]"] exI [of _ ts]) simp
    next
      case (Cons d a')
      with eq True Cons.prems(2) have "d = c" "html_of ts = a' @ c # b" by auto
      with Cons.IH [of a'] Cons.prems obtain ta tb where "ts = ta @ Txt c # tb" "html_of ta = a'" "html_of tb = b" by auto
      with True Cons \<open>d = c\<close> Cons.prems(2) show ?thesis by (intro exI [of _ "t # ta"] exI [of _ tb]) simp
    qed
  next
    case False
    then have no: "c \<notin> set (token_html t)" using Cons.prems by auto
    from eq obtain us where us: "token_html t = a @ us \<and> us @ html_of ts = c # b \<or> token_html t @ us = a \<and> html_of ts = us @ c # b"
      by (auto simp: append_eq_append_conv2)
    with no have "token_html t @ us = a \<and> html_of ts = us @ c # b"
      by (cases us) auto
    with Cons.IH [of us] Cons.prems obtain ta tb where "ts = ta @ Txt c # tb" "html_of ta = us" "html_of tb = b" by auto
    with \<open>token_html t @ us = a \<and> html_of ts = us @ c # b\<close> show ?thesis by (intro exI [of _ "t # ta"] exI [of _ tb]) simp
  qed
qed simp

lemma split_at_mark:
  assumes "list_all token_ok ts" "is_mark c" "html_of ts = a @ c # b"
  shows "\<exists>ta tb. ts = ta @ Txt c # tb \<and> html_of ta = a \<and> html_of tb = b"
  using assms by (intro split_at_char) (auto simp: list_all_iff dest: token_no_mark)

lemma split_at_nul:
  assumes "html_of (map Txt s) = a @ NUL # b"
  shows "\<exists>sa sb. s = sa @ NUL # sb \<and> html_of (map Txt sa) = a \<and> html_of (map Txt sb) = b"
proof -
  have "NUL \<in> set (html_char x) \<Longrightarrow> x = NUL" for x by (auto simp: html_char_def split: if_splits)
  then have "\<exists>ta tb. map Txt s = ta @ Txt NUL # tb \<and> html_of ta = a \<and> html_of tb = b"
    by (intro split_at_char assms) (auto simp: html_char_def)
  then show ?thesis by (auto simp: map_eq_append_conv map_eq_Cons_conv)
qed

lemma token_html_nonempty: "token_html t \<noteq> []"
  by (cases t) (auto simp: html_char_def html_tag_def)

lemma html_of_Nil: "html_of ts = [] \<longleftrightarrow> ts = []"
  by (cases ts) (auto simp: token_html_nonempty)

lemma split_leading_marks:
  "list_all token_ok ts \<Longrightarrow> list_all is_mark d \<Longrightarrow> html_of ts = d @ b \<Longrightarrow> \<exists>tb. ts = map Txt d @ tb \<and> html_of tb = b"
proof (induction d arbitrary: ts)
  case (Cons c d)
  then obtain ta tb where "ts = ta @ Txt c # tb" "html_of ta = []" "html_of tb = d @ b"
    using split_at_mark [of ts c "[]" "d @ b"] by auto
  with Cons.IH [of tb] Cons.prems show ?case by (auto simp: html_of_Nil)
qed simp

lemma split_wrapped:
  assumes "list_all token_ok ts" "list_all is_mark d" "d \<noteq> []" "html_of ts = d @ inner @ d @ rest"
  shows "\<exists>ti tr. ts = map Txt d @ ti @ map Txt d @ tr \<and> html_of ti = inner \<and> html_of tr = rest"
proof -
  from split_leading_marks [OF assms(1,2,4)] obtain tb where tb: "ts = map Txt d @ tb" "html_of tb = inner @ d @ rest" by auto
  obtain x d' where d: "d = x # d'" using assms(3) by (cases d) auto
  have ok: "list_all token_ok tb" using assms(1) tb by simp
  with split_at_mark [of tb x inner "d' @ rest"] tb d assms(2) obtain ti tc where
    tc: "tb = ti @ Txt x # tc" "html_of ti = inner" "html_of tc = d' @ rest" by auto
  with ok split_leading_marks [of tc d' rest] assms(2) d obtain tr where "tc = map Txt d' @ tr" "html_of tr = rest" by auto
  with tb tc d show ?thesis by auto
qed

subsection \<open>Code, bold and italics\<close>

text \<open>What the three scans have in common: they keep a character or put tags for two runs of marks.\<close>

inductive marks_up :: "string \<Rightarrow> string \<Rightarrow> bool" where
  marks_up_nil: "marks_up [] []"
| marks_up_keep: "marks_up s r \<Longrightarrow> marks_up (c # s) (c # r)"
| marks_up_wrap: "list_all is_mark d \<Longrightarrow> d \<noteq> [] \<Longrightarrow> own_tag m \<Longrightarrow> own_tag m' \<Longrightarrow> marks_up rest r \<Longrightarrow>
    marks_up (d @ inner @ d @ rest) (html_tag m @ inner @ html_tag m' @ r)"

lemma code_marks_up: "marks_up s (replace_code s)"
proof (induction s rule: replace_code.induct)
  case (2 c s)
  show ?case
  proof (cases "if c = TICK then code_match s else None")
    case (Some m)
    then obtain inner rest where m: "c = TICK" "m = (inner, rest)" "code_match s = Some (inner, rest)"
      by (cases m) (auto split: if_splits)
    with 2(2) [OF Some] have "marks_up ([TICK] @ inner @ [TICK] @ rest) (html_tag ''code'' @ inner @ html_tag ''/code'' @ replace_code rest)"
      by (intro marks_up_wrap) (auto simp: is_mark_def own_tag_def)
    with m Some code_match_split [OF m(3)] show ?thesis by simp
  next
    case None
    with 2(1) show ?thesis by (auto intro: marks_up_keep)
  qed
qed (simp add: marks_up_nil)

lemma bold_marks_up: "marks_up s (replace_bold s)"
proof (induction s rule: replace_bold.induct)
  case (2 c s)
  show ?case
  proof (cases "bold_match (c # s)")
    case (Some m)
    obtain inner rest where m: "m = (inner, rest)" by (cases m)
    with 2(2) [OF Some] have "marks_up ([STAR, STAR] @ inner @ [STAR, STAR] @ rest)
        (html_tag ''strong'' @ inner @ html_tag ''/strong'' @ replace_bold rest)"
      by (intro marks_up_wrap) (auto simp: is_mark_def own_tag_def)
    with m Some bold_match_split [of "c # s" inner rest] show ?thesis by simp
  next
    case None
    with 2(1) show ?thesis by (auto intro: marks_up_keep)
  qed
qed (simp add: marks_up_nil)

lemma italic_marks_up: "marks_up s (replace_italic before s)"
proof (induction before s rule: replace_italic.induct)
  case (2 before c s)
  show ?case
  proof (cases "italic_match before (c # s)")
    case (Some m)
    obtain inner rest where m: "m = (inner, rest)" by (cases m)
    with 2(2) [OF Some] have "marks_up ([STAR] @ inner @ [STAR] @ rest)
        (html_tag ''em'' @ inner @ html_tag ''/em'' @ replace_italic (Some STAR) rest)"
      by (intro marks_up_wrap) (auto simp: is_mark_def own_tag_def)
    with m Some italic_match_split [of before "c # s" inner rest] show ?thesis by simp
  next
    case None
    with 2(1) show ?thesis by (auto intro: marks_up_keep)
  qed
qed (simp add: marks_up_nil)

definition unmarked :: "string \<Rightarrow> string" where
  "unmarked s = filter (\<lambda>c. \<not> is_mark c) s"

lemma unmarked_simps [simp]:
  "unmarked [] = []" "unmarked (s @ t) = unmarked s @ unmarked t" "list_all is_mark d \<Longrightarrow> unmarked d = []"
  by (auto simp: unmarked_def list_all_iff)

lemma token_html_tail: "token_ok t \<Longrightarrow> list_all (\<lambda>c. \<not> is_mark c) (tl (token_html t))"
proof (cases "\<exists>c. is_mark c \<and> t = Txt c")
  case False
  assume "token_ok t"
  with False show ?thesis by (cases "token_html t") (auto simp: list_all_iff dest: token_no_mark)
qed auto

lemma marks_up_tokens:
  "marks_up s r \<Longrightarrow> s = p @ html_of ts \<Longrightarrow> list_all (\<lambda>c. \<not> is_mark c) p \<Longrightarrow> list_all token_ok ts \<Longrightarrow>
   \<exists>ts'. r = p @ html_of ts' \<and> list_all token_ok ts' \<and> unmarked (tokens_text ts') = unmarked (tokens_text ts)"
proof (induction arbitrary: p ts rule: marks_up.induct)
  case marks_up_nil
  then show ?case by (intro exI [of _ "[]"]) (simp add: html_of_Nil)
next
  case (marks_up_keep s r c)
  show ?case
  proof (cases p)
    case (Cons d p')
    with marks_up_keep.IH [of p' ts] marks_up_keep.prems show ?thesis by auto
  next
    case Nil
    with marks_up_keep.prems obtain t ts1 where ts: "ts = t # ts1" by (cases ts) auto
    with Nil marks_up_keep.prems token_html_nonempty [of t] have s: "token_html t = c # tl (token_html t)" "s = tl (token_html t) @ html_of ts1"
      by (cases "token_html t"; simp)+
    with marks_up_keep.IH [of "tl (token_html t)" ts1] marks_up_keep.prems ts token_html_tail [of t] obtain ts'
      where "r = tl (token_html t) @ html_of ts'" "list_all token_ok ts'" "unmarked (tokens_text ts') = unmarked (tokens_text ts1)"
      by auto
    moreover have "c # tl (token_html t) @ html_of ts' = token_html t @ html_of ts'"
      by (subst s(1)) simp
    ultimately show ?thesis using ts Nil marks_up_keep.prems by (intro exI [of _ "t # ts'"]) simp
  qed
next
  case (marks_up_wrap d m m' rest r inner)
  have "p = []" using marks_up_wrap.prems marks_up_wrap.hyps(1,2) by (cases p; cases d) auto
  with split_wrapped [OF marks_up_wrap.prems(3) marks_up_wrap.hyps(1,2)] marks_up_wrap.prems(1)
  obtain ti tr where ts: "ts = map Txt d @ ti @ map Txt d @ tr" "html_of ti = inner" "html_of tr = rest"
    by (metis append_Nil)
  with marks_up_wrap.IH [of "[]" tr] marks_up_wrap.prems obtain tr' where
    "r = html_of tr'" "list_all token_ok tr'" "unmarked (tokens_text tr') = unmarked (tokens_text tr)" by auto
  with ts \<open>p = []\<close> marks_up_wrap.prems marks_up_wrap.hyps show ?case
    by (intro exI [of _ "Tag m # ti @ Tag m' # tr'"]) simp
qed

lemma marked_up_tokens:
  assumes "marks_up (html_of ts) r" "list_all token_ok ts"
  shows "\<exists>ts'. r = html_of ts' \<and> list_all token_ok ts' \<and> unmarked (tokens_text ts') = unmarked (tokens_text ts)"
  using marks_up_tokens [OF assms(1), of "[]" ts] assms(2) by simp


subsection \<open>Placeholders\<close>

lemma token_ok_simps [simp]:
  "list_all token_ok (map Txt s)" "own_tag ''/a''" "own_tag ''/span''"
  by (auto simp: list_all_iff own_tag_def)

lemma escape_append [simp]: "escape_html (s @ t) = escape_html s @ escape_html t" "escape_html [] = []"
  by (simp_all add: escape_html_eq)

lemma escape_Cons: "escape_html (c # s) = html_char c @ escape_html s"
  by (simp add: escape_html_eq)

definition taken_url :: "string \<Rightarrow> bool" where
  "taken_url u \<longleftrightarrow> http_url u \<and> list_all (\<lambda>c. c \<noteq> TICK \<and> c \<noteq> STAR) u"

lemma url_match_split:
  assumes "url_match s = Some (u, rest)"
  shows "s = u @ rest" "taken_url u"
proof -
  let ?q = "\<lambda>c. \<not> ends_url c"
  obtain n where n: "n = 7 \<and> starts_with ''http://'' s \<or> n = 8 \<and> starts_with ''https://'' s"
    "u = take n s @ takeWhile ?q (drop n s)" "rest = dropWhile ?q (drop n s)"
  proof (cases "starts_with ''http://'' s")
    case True
    with assms show ?thesis by (intro that [of 7]) (auto simp: url_match_def Let_def split: if_splits)
  next
    case False
    with assms show ?thesis by (intro that [of 8]) (auto simp: url_match_def Let_def split: if_splits)
  qed
  show "s = u @ rest" unfolding n(2,3) by simp
  have start: "take n s = ''http://'' \<or> take n s = ''https://''" using n(1) by (auto simp: starts_with_def numeral_eq_Suc)
  then have url: "http_url u" unfolding n(2) http_url_def by (metis starts_with_append)
  have "c \<noteq> TICK \<and> c \<noteq> STAR" if "c \<in> set (takeWhile ?q xs)" for c xs
    using set_takeWhileD [OF that] by (auto simp: ends_url_def)
  moreover have "c \<noteq> TICK \<and> c \<noteq> STAR" if "c \<in> set (take n s)" for c
    using start that by auto
  ultimately show "taken_url u" using url n(2) by (auto simp: taken_url_def list_all_iff)
qed

lemma taken_urls: "list_all taken_url (snd (take_urls n s))"
  by (induction n s rule: take_urls.induct) (auto simp: split_beta split: option.split dest: url_match_split)

lemma escaped_safe:
  assumes "list_all (\<lambda>c. c \<noteq> TICK \<and> c \<noteq> STAR) u"
  shows "attribute_safe (escape_html u)"
  using assms by (induction u) (auto simp: escape_Cons attribute_safe_def html_char_def)

lemma anchor_tokens:
  assumes "taken_url u"
  shows "\<exists>a. anchor u = html_of (Tag a # map Txt u @ [Tag ''/a'']) \<and> own_tag a"
proof -
  have "http_url (escape_html u)"
    using assms starts_with_ex [of "''http://''" u] starts_with_ex [of "''https://''" u]
    by (auto simp: taken_url_def http_url_def escape_Cons html_char_def starts_with_def)
  with assms have "own_tag (anchor_open (escape_html u))" by (auto simp: own_tag_def taken_url_def escaped_safe)
  then show ?thesis by (intro exI [of _ "anchor_open (escape_html u)"]) (simp add: anchor_def escape_html_eq)
qed

lemma placeholder_split:
  assumes "placeholder_match s = Some (ds, rest)"
  shows "s = NUL # (''URL'' @ ds) @ NUL # rest"
proof -
  from assms have "starts_with ([NUL] @ ''URL'') s" by (auto simp: placeholder_match_def split: if_splits)
  then obtain t where t: "s = NUL # ''URL'' @ t" by (auto dest!: starts_with_ex)
  with assms have d: "ds = takeWhile is_digit t" "starts_with [NUL] (dropWhile is_digit t)" "rest = tl (dropWhile is_digit t)"
    by (auto simp: placeholder_match_def Let_def split: if_splits)
  from starts_with_ex [OF d(2)] d(3) have "dropWhile is_digit t = NUL # rest" by auto
  with t d(1) takeWhile_dropWhile_id [of is_digit t] show ?thesis by simp
qed

text \<open>Whatever stands in the text, also a placeholder of its own, only links are put in.\<close>

lemma put_urls_tokens:
  "list_all taken_url us \<Longrightarrow> t = p @ html_of (map Txt s) \<Longrightarrow> NUL \<notin> set p \<Longrightarrow>
   \<exists>ts. put_urls us t = p @ html_of ts \<and> list_all token_ok ts"
proof (induction us t arbitrary: p s rule: put_urls.induct)
  case (1 us)
  then show ?case by (intro exI [of _ "[]"]) simp
next
  case (2 us c t)
  show ?case
  proof (cases "placeholder_match (c # t)")
    case (Some m)
    obtain ds rest where m: "m = (ds, rest)" by (cases m)
    have eq: "c # t = NUL # (''URL'' @ ds) @ NUL # rest" using placeholder_split [of "c # t" ds rest] Some m by simp
    then have p: "p = []" using 2(4,5) by (cases p) auto
    with eq 2(4) have "html_of (map Txt s) = (NUL # ''URL'' @ ds) @ NUL # rest" by simp
    from split_at_nul [OF this] obtain sb where sb: "html_of (map Txt sb) = rest" by auto
    with 2(2) [OF Some m [symmetric], of "[]" sb] 2(3) obtain ts where
      ts: "put_urls us rest = html_of ts" "list_all token_ok ts" by auto
    show ?thesis
    proof (cases "digits_value ds < length us")
      case True
      with 2(3) anchor_tokens [of "us ! digits_value ds"] obtain a where
        "anchor (us ! digits_value ds) = html_of (Tag a # map Txt (us ! digits_value ds) @ [Tag ''/a''])" "own_tag a"
        by (auto simp: list_all_iff)
      with True Some m p ts show ?thesis
        by (intro exI [of _ "Tag a # map Txt (us ! digits_value ds) @ Tag ''/a'' # ts"])
          simp
    next
      case False
      have "list_all is_digit ds" using Some m by (auto simp: placeholder_match_def Let_def list_all_iff split: if_splits dest: set_takeWhileD)
      then have "html_of (map Txt ds) = ds" by (induction ds) (auto simp: html_char_def is_digit_def)
      with False Some m p ts show ?thesis
        by (intro exI [of _ "map Txt (NUL # ''URL'' @ ds @ [NUL]) @ ts"]) (simp add: html_char_def)
    qed
  next
    case None
    show ?thesis
    proof (cases p)
      case (Cons d p')
      with 2(1) [OF None, of p' s] 2(3-5) None show ?thesis by auto
    next
      case Nil
      with 2(4) obtain x s' where s: "s = x # s'" by (cases s) auto
      obtain y where y: "html_char x = c # y" "t = y @ html_of (map Txt s')" 
        using 2(4) Nil s token_html_nonempty [of "Txt x"] by (cases "html_char x") auto
      then have "NUL \<notin> set y" by (auto simp: html_char_def split: if_splits)
      with 2(1) [OF None, of y s'] 2(3) y obtain ts where "put_urls us t = y @ html_of ts" "list_all token_ok ts" by auto
      with None y s Nil show ?thesis by (intro exI [of _ "Txt x # ts"]) simp
    qed
  qed
qed

text \<open>A text without \<open>NUL\<close> gets back exactly the addresses that were taken out of it.\<close>

lemma digits_before_nul: "list_all is_digit ds \<Longrightarrow> takeWhile is_digit (ds @ NUL # s) = ds \<and> dropWhile is_digit (ds @ NUL # s) = NUL # s"
  by (induction ds) (auto simp: is_digit_def)

lemma placeholder_matches:
  "placeholder_match (url_placeholder n @ s) = Some (show_nat n, s)"
  using show_nat_digits [of n] digits_before_nul [of "show_nat n" s]
  by (auto simp: placeholder_match_def url_placeholder_def starts_with_def Let_def)

lemma put_urls_plain: "NUL \<notin> set p \<Longrightarrow> put_urls us (p @ s) = p @ put_urls us s"
proof (induction p)
  case (Cons c p)
  then have "placeholder_match ((c # p) @ s) = None" by (auto simp: placeholder_match_def starts_with_def)
  with Cons show ?case by simp
qed simp

lemma escape_placeholder: "escape_html (url_placeholder n) = url_placeholder n"
proof -
  have "list_all is_digit ds \<Longrightarrow> escape_html ds = ds" for ds
    by (induction ds) (auto simp: escape_Cons html_char_def is_digit_def)
  with show_nat_digits [of n] show ?thesis by (simp add: url_placeholder_def escape_Cons html_char_def)
qed

lemma nul_escaped: "NUL \<in> set (html_char c) \<Longrightarrow> c = NUL"
  by (auto simp: html_char_def split: if_splits)

lemma urls_come_back:
  "NUL \<notin> set s \<Longrightarrow> length before = n \<Longrightarrow> take_urls n s = (t, us) \<Longrightarrow>
   \<exists>ts. put_urls (before @ us) (escape_html t) = html_of ts \<and> list_all token_ok ts \<and> tokens_text ts = s"
proof (induction n s arbitrary: before t us rule: take_urls.induct)
  case (1 n)
  then show ?case by (intro exI [of _ "[]"]) simp
next
  case (2 n c s)
  show ?case
  proof (cases "url_match (c # s)")
    case None
    obtain t' us' where t: "take_urls n s = (t', us')" by (cases "take_urls n s")
    with None 2(1) [OF None, of before t' us'] 2(3,4) obtain ts where
      "put_urls (before @ us') (escape_html t') = html_of ts" "list_all token_ok ts" "tokens_text ts = s" by auto
    moreover have "NUL \<notin> set (html_char c)" using 2(3) nul_escaped [of c] by auto
    ultimately show ?thesis using None t 2(5)
      by (intro exI [of _ "Txt c # ts"]) (auto simp: escape_Cons put_urls_plain)
  next
    case (Some m)
    obtain u rest where m: "m = (u, rest)" by (cases m)
    have eq: "c # s = u @ rest" "taken_url u" using url_match_split [of "c # s" u rest] Some m by auto
    obtain t' us' where t: "take_urls (Suc n) rest = (t', us')" by (cases "take_urls (Suc n) rest")
    have "NUL \<notin> set rest" using 2(3) eq(1) by (metis Un_iff set_append)
    with 2(2) [OF Some m [symmetric], of "before @ [u]" t' us'] t 2(4) obtain ts where
      ts: "put_urls (before @ u # us') (escape_html t') = html_of ts" "list_all token_ok ts" "tokens_text ts = rest" by auto
    obtain a where a: "anchor u = html_of (Tag a # map Txt u @ [Tag ''/a''])" "own_tag a" using anchor_tokens [OF eq(2)] by auto
    have p: "url_placeholder n @ x = NUL # (tl (url_placeholder n) @ x)" for x by (simp add: url_placeholder_def)
    have new: "t = url_placeholder n @ t'" "us = u # us'" using 2(5) Some m t by auto
    have "escape_html t = NUL # (tl (url_placeholder n) @ escape_html t')"
      unfolding new(1) escape_append escape_placeholder by (rule p)
    moreover have "placeholder_match (NUL # (tl (url_placeholder n) @ escape_html t')) = Some (show_nat n, escape_html t')"
      using placeholder_matches [of n "escape_html t'"] by (simp only: p)
    ultimately have "put_urls (before @ us) (escape_html t) = anchor u @ html_of ts"
      using 2(4) ts(1) show_nat_digits [of n] unfolding new(2) by (simp add: nth_append)
    with a ts eq(1) show ?thesis
      by (intro exI [of _ "Tag a # map Txt u @ Tag ''/a'' # ts"]) simp
  qed
qed

subsection \<open>What linkify writes\<close>

lemma linkify_tokens:
  "\<exists>ts. linkify s = html_of ts \<and> list_all token_ok ts \<and> (NUL \<notin> set s \<longrightarrow> unmarked (tokens_text ts) = unmarked s)"
proof -
  obtain t us where t: "take_urls 0 s = (t, us)" by (cases "take_urls 0 s")
  have "list_all taken_url us" using taken_urls [of 0 s] t by simp
  from put_urls_tokens [OF this, of "escape_html t" "[]" t]
  have "\<exists>ts. put_urls us (escape_html t) = html_of ts \<and> list_all token_ok ts \<and> (NUL \<notin> set s \<longrightarrow> tokens_text ts = s)"
    using urls_come_back [of s "[]" 0 t us] t by (cases "NUL \<in> set s") (auto simp: escape_html_eq)
  then obtain ts where ts: "put_urls us (escape_html t) = html_of ts" "list_all token_ok ts" "NUL \<notin> set s \<longrightarrow> tokens_text ts = s"
    by auto
  from marked_up_tokens [OF code_marks_up ts(2)] ts(1) obtain t1 where
    t1: "replace_code (put_urls us (escape_html t)) = html_of t1" "list_all token_ok t1" "unmarked (tokens_text t1) = unmarked (tokens_text ts)" by auto
  from marked_up_tokens [OF bold_marks_up t1(2)] obtain t2 where
    t2: "replace_bold (html_of t1) = html_of t2" "list_all token_ok t2" "unmarked (tokens_text t2) = unmarked (tokens_text t1)" by auto
  from marked_up_tokens [OF italic_marks_up t2(2)] obtain t3 where
    t3: "replace_italic None (html_of t2) = html_of t3" "list_all token_ok t3" "unmarked (tokens_text t3) = unmarked (tokens_text t2)" by blast
  with t1 t2 ts t show ?thesis by (intro exI [of _ t3]) (simp add: linkify_def)
qed

text \<open>Whatever a line of the log says, the only markup a browser reads in it is the viewer's own: code, bold and italic
  tags, and links to http addresses whose attribute ends at its own quote.\<close>

theorem linkify_writes_its_own_tags: "list_all own_tag (markup (linkify s))"
proof -
  obtain ts where ts: "linkify s = html_of ts" "list_all token_ok ts" using linkify_tokens [of s] by auto
  then show ?thesis by (simp add: tokens_own_tags)
qed

text \<open>Linkifying keeps the text: what a browser shows of a line that has no \<open>NUL\<close> is the line, less marks of code,
  bold and italics at most.\<close>

theorem linkify_keeps_the_text:
  assumes "NUL \<notin> set s"
  shows "unmarked (html_text (linkify s)) = unmarked s"
  using linkify_tokens [of s] assms by (auto simp: html_text_tokens)

lemma linkify_keeps_the_text_witness:
  "unmarked (html_text (linkify ''see **http://a.b/?c&d** <now>'')) = ''see http://a.b/?c&d <now>''"
  using linkify_keeps_the_text [of "''see **http://a.b/?c&d** <now>''"] by (simp add: unmarked_def is_mark_def)

text \<open>A placeholder of the line itself is replaced too, where its number is one of an address.\<close>

lemma forged_placeholder_shows_an_address:
  "html_text (linkify ([NUL] @ ''URL0'' @ [NUL] @ '' http://a'')) = ''http://a http://a''"
  by code_simp

subsection \<open>What the colored line writes\<close>

fun color_safe :: "ansi_color \<Rightarrow> bool" where
  "color_safe (Palette i) = True"
| "color_safe (Rgb v) = attribute_safe v"

definition style_safe :: "ansi_style \<Rightarrow> bool" where
  "style_safe s \<longleftrightarrow> pred_option color_safe (foreground s) \<and> pred_option color_safe (background s)"

lemma attribute_safe_simps [simp]:
  "attribute_safe []" "attribute_safe (u @ v) \<longleftrightarrow> attribute_safe u \<and> attribute_safe v"
  "attribute_safe (c # v) \<longleftrightarrow> c \<notin> {QUOTE, CHR ''<'', CHR ''>'', TICK, STAR} \<and> attribute_safe v"
  by (auto simp: attribute_safe_def)

lemma digits_safe: "attribute_safe (show_nat n)"
  using show_nat_digits [of n] unfolding attribute_safe_def list_all_iff by (auto simp: is_digit_def)

lemma rgb_safe: "attribute_safe (rgb r g b)"
  by (simp add: rgb_def digits_safe)

lemma extended_safe: "fst (extended_color ps) = Some c \<Longrightarrow> color_safe c"
  by (cases ps rule: extended_color.cases) (auto simp: rgb_safe split: if_splits list.splits)

lemma set_flag_safe: "style_safe (set_flag f s) = style_safe s"
  by (cases f) (simp_all add: style_safe_def)

lemma reset_style_safe: "reset_style code = Some f \<Longrightarrow> style_safe s \<Longrightarrow> style_safe (f s)"
  by (auto simp: reset_style_def style_safe_def split: if_splits)

lemma palette_color_safe: "style_safe s \<Longrightarrow> style_safe (apply_palette_color code s)"
  by (auto simp: apply_palette_color_def style_safe_def split: option.split)

lemma apply_parameters_safe: "style_safe s \<Longrightarrow> style_safe (apply_parameters s ps)"
proof (induction s ps rule: apply_parameters.induct)
  case (2 s code later)
  let ?s' = "case fst (extended_color later) of None \<Rightarrow> s
      | Some c \<Rightarrow> if code = 38 then s\<lparr>foreground := Some c\<rparr> else s\<lparr>background := Some c\<rparr>"
  have next_safe: "style_safe ?s'" using 2(6) extended_safe [of later] by (auto simp: style_safe_def split: option.split)
  show ?case
  proof (cases "code = 0")
    case True
    with 2(1) show ?thesis by (simp add: style_safe_def no_style_def)
  next
    case nonzero: False
    show ?thesis
    proof (cases "enabled_style_flag code")
      case (Some flag)
      with 2(5) [OF nonzero Some] 2(6) nonzero show ?thesis by (simp add: set_flag_safe)
    next
      case none: None
      show ?thesis
      proof (cases "reset_style code")
        case (Some f)
        with 2(4) [OF nonzero none Some] reset_style_safe [OF Some 2(6)] nonzero none show ?thesis by simp
      next
        case None
        with 2(2) [OF nonzero none None _ refl prod.collapse refl] 2(3) [OF nonzero none None] 2(6) next_safe nonzero none show ?thesis
          by (simp add: palette_color_safe split_beta Let_def)
      qed
    qed
  qed
qed simp

lemma parse_from_safe: "style_safe s \<Longrightarrow> \<forall>x \<in> set (parse_from s t cs). style_safe (span_style x)"
proof (induction s t cs rule: parse_from.induct)
  case (2 s t c cs)
  have "style_safe (apply_control s k)" for k
    using 2(3) by (auto simp: apply_control_def apply_sgr_def apply_parameters_safe split: ansi_control.split)
  with 2 show ?case by (auto simp: flush_span_def split: option.split)
qed (simp add: flush_span_def)

lemma css_palette_safe: "c \<in> set css_palette \<Longrightarrow> attribute_safe c"
  by (auto simp: css_palette_def)

lemma resolved_safe: "color_safe c \<Longrightarrow> attribute_safe (resolve_ansi_color css_palette c)"
proof (cases c)
  case (Palette i)
  have "length css_palette = 16" by (simp add: css_palette_def)
  then have "i < 16 \<Longrightarrow> css_palette ! i \<in> set css_palette" by simp
  with Palette \<open>length css_palette = 16\<close> show ?thesis by (auto simp: rgb_safe Let_def intro: css_palette_safe)
qed simp

lemma declarations_safe:
  assumes "style_safe s"
  shows "list_all attribute_safe (style_declarations s)"
proof -
  have "attribute_safe c" if "map_option (resolve_ansi_color css_palette) (foreground s) = Some c
      \<or> map_option (resolve_ansi_color css_palette) (background s) = Some c" for c
    using assms that by (auto simp: style_safe_def resolved_safe)
  then show ?thesis
    by (auto simp: style_declarations_def Let_def split: option.split)
qed

lemma render_span_tokens:
  assumes "style_safe (span_style x)"
  shows "\<exists>ts. render_span linkify x = html_of ts \<and> list_all token_ok ts \<and>
     (NUL \<notin> set (span_text x) \<longrightarrow> unmarked (tokens_text ts) = unmarked (span_text x))"
proof -
  obtain ts where ts: "linkify (span_text x) = html_of ts" "list_all token_ok ts"
    "NUL \<notin> set (span_text x) \<longrightarrow> unmarked (tokens_text ts) = unmarked (span_text x)"
    using linkify_tokens [of "span_text x"] by auto
  have "own_tag (style_open (style_declarations (span_style x)))" using declarations_safe [OF assms] by (auto simp: own_tag_def)
  with ts show ?thesis
    by (intro exI [of _ "if style_declarations (span_style x) = [] then ts
        else Tag (style_open (style_declarations (span_style x))) # ts @ [Tag ''/span'']"]) (simp add: render_span_def)
qed

lemma render_spans_tokens:
  "\<forall>x \<in> set xs. style_safe (span_style x) \<Longrightarrow>
   \<exists>ts. concat (map (render_span linkify) xs) = html_of ts \<and> list_all token_ok ts \<and>
     (NUL \<notin> set (concat (map span_text xs)) \<longrightarrow> unmarked (tokens_text ts) = unmarked (concat (map span_text xs)))"
proof (induction xs)
  case Nil
  show ?case by (intro exI [of _ "[]"]) simp
next
  case (Cons x xs)
  then obtain ts us where "render_span linkify x = html_of ts" "list_all token_ok ts"
      "NUL \<notin> set (span_text x) \<longrightarrow> unmarked (tokens_text ts) = unmarked (span_text x)"
    "concat (map (render_span linkify) xs) = html_of us" "list_all token_ok us"
      "NUL \<notin> set (concat (map span_text xs)) \<longrightarrow> unmarked (tokens_text us) = unmarked (concat (map span_text xs))"
    using render_span_tokens [of x] by auto
  then show ?case by (intro exI [of _ "ts @ us"]) auto
qed

lemma line_tokens:
  "\<exists>ts. render_ansi_html v linkify = html_of ts \<and> list_all token_ok ts \<and>
     (NUL \<notin> set (concat (map span_text (parse_ansi v))) \<longrightarrow>
      unmarked (tokens_text ts) = unmarked (concat (map span_text (parse_ansi v))))"
  unfolding render_ansi_html_def parse_ansi_def
  by (intro render_spans_tokens parse_from_safe) (simp add: style_safe_def no_style_def)

text \<open>Every line of the log viewer is safe to insert as HTML: whatever the agent logged, with whatever terminal
  sequences, the browser reads no markup in it but the viewer's own tags, and shows of a line without \<open>NUL\<close> the text its
  terminal would, less marks at most.\<close>

theorem log_line_is_safe_html:
  "list_all own_tag (markup (render_ansi_html v linkify)) \<and>
   (NUL \<notin> set (concat (map span_text (parse_ansi v))) \<longrightarrow>
    unmarked (html_text (render_ansi_html v linkify)) = unmarked (concat (map span_text (parse_ansi v))))"
  using line_tokens [of v] by (auto simp: tokens_own_tags html_text_tokens)

lemma log_line_is_safe_html_witness:
  "list_all own_tag (markup (render_ansi_html (ESC # ''[31m<b>'') linkify)) \<and> unmarked (html_text (render_ansi_html (ESC # ''[31m<b>'') linkify)) = ''<b>''"
  using log_line_is_safe_html [of "ESC # ''[31m<b>''"]
  by (simp add: parse_ansi_def control_match_def csi_match_def is_param_def is_intermediate_def is_final_def between_def
      flush_span_def unmarked_def is_mark_def)

subsection \<open>Bare domains in a message\<close>

definition is_host_char :: "char \<Rightarrow> bool" where
  "is_host_char c \<longleftrightarrow> is_letter c \<or> is_digit c \<or> c = CHR ''-''"

definition joins_word :: "char \<Rightarrow> bool" where
  "joins_word c \<longleftrightarrow> is_letter c \<or> is_digit c \<or> c \<in> set ''_@./-''"

definition link_tlds :: "string list" where
  "link_tlds = split_char (CHR ''|'')
     ''com|org|net|edu|gov|mil|io|ai|co|dev|app|run|me|info|biz|tv|ly|gg|xyz|so|us|uk|ca|de|fr|it|es|nl|eu|in|jp|au''"

text \<open>Labels with their dots, as many as there can be before a listed domain that ends there.\<close>

function host_match :: "string \<Rightarrow> (string \<times> string) option" where
  "host_match s =
     (let label = takeWhile is_host_char s; rest = dropWhile is_host_char s
      in if label = [] \<or> \<not> starts_with ''.'' rest then None
         else case host_match (tl rest) of
                Some (h, later) \<Rightarrow> Some (label @ ''.'' @ h, later)
              | None \<Rightarrow>
                  (let tld = takeWhile is_host_char (tl rest)
                   in if lower_case tld \<in> set link_tlds then Some (label @ ''.'' @ tld, dropWhile is_host_char (tl rest)) else None))"
  by pat_completeness auto
termination
proof (relation "measure length", goal_cases)
  case (2 s label rest)
  then have "dropWhile is_host_char s \<noteq> []" by (auto simp: starts_with_def simp del: dropWhile_eq_Nil_conv)
  moreover from this have "s \<noteq> []" by auto
  ultimately have "length (tl (dropWhile is_host_char s)) < length s"
    using length_dropWhile_le [of is_host_char s] by (cases "dropWhile is_host_char s") auto
  with 2 show ?case by simp
qed simp

declare host_match.simps [simp del]

definition bare_match :: "string \<Rightarrow> (string \<times> string) option" where
  "bare_match s =
     (case host_match s of
        None \<Rightarrow> None
      | Some (h, rest) \<Rightarrow>
          (let inside = (\<lambda>c. \<not> is_js_space c \<and> c \<noteq> CHR '')'')
           in if starts_with ''/'' rest then Some (h @ takeWhile inside rest, dropWhile inside rest) else Some (h, rest)))"

lemma host_match_split: "host_match s = Some (h, rest) \<Longrightarrow> s = h @ rest \<and> h \<noteq> []"
proof (induction s arbitrary: h rest rule: host_match.induct)
  case (1 s)
  let ?label = "takeWhile is_host_char s" and ?rest = "dropWhile is_host_char s"
  from 1(2) have c: "?label \<noteq> []" "starts_with ''.'' ?rest"
    by (auto simp: host_match.simps [of s] Let_def split: if_splits)
  then have rest: "?rest = ''.'' @ tl ?rest" by (auto dest!: starts_with_ex)
  then have s: "s = ?label @ ''.'' @ tl ?rest" by (metis takeWhile_dropWhile_id)
  show ?case
  proof (cases "host_match (tl ?rest)")
    case (Some m)
    obtain h' later where m: "m = (h', later)" by (cases m)
    with 1(2) c Some have "h = ?label @ ''.'' @ h'" "rest = later" by (auto simp: host_match.simps [of s] Let_def)
    moreover have "tl ?rest = h' @ later" using 1(1) [of ?label ?rest h' later] c Some m by auto
    ultimately show ?thesis using s by simp
  next
    case None
    with 1(2) c have "h = ?label @ ''.'' @ takeWhile is_host_char (tl ?rest)" "rest = dropWhile is_host_char (tl ?rest)"
      by (auto simp: host_match.simps [of s] Let_def split: if_splits)
    with s show ?thesis by simp
  qed
qed

lemma bare_match_split: "bare_match s = Some (raw, rest) \<Longrightarrow> s = raw @ rest \<and> raw \<noteq> []"
  by (auto simp: bare_match_def Let_def split: option.splits if_splits dest!: host_match_split)

datatype mdast_node = Mdast (md_type: string) (md_value: "string option") (md_url: "string option") (md_children: "mdast_node list option")

definition text_node :: "string \<Rightarrow> mdast_node" where
  "text_node v = Mdast ''text'' (Some v) None None"

definition link_node :: "string \<Rightarrow> mdast_node" where
  "link_node raw = Mdast ''link'' None (Some (''https://'' @ raw)) (Some [text_node raw])"

definition text_before :: "string \<Rightarrow> mdast_node list" where
  "text_before pending = (if pending = [] then [] else [text_node pending])"

function split_links :: "char option \<Rightarrow> string \<Rightarrow> string \<Rightarrow> mdast_node list" where
  "split_links before pending [] = text_before pending"
| "split_links before pending (c # s) =
     (case if pred_option (\<lambda>b. \<not> joins_word b) before then bare_match (c # s) else None of
        None \<Rightarrow> split_links (Some c) (pending @ [c]) s
      | Some (raw, rest) \<Rightarrow> text_before pending @ link_node raw # split_links (Some (last raw)) [] rest)"
  by pat_completeness auto
termination
  by (relation "measure (\<lambda>(b, p, s). length s)") (auto split: if_splits dest!: bare_match_split simp: neq_Nil_conv)

definition split_text_into_links :: "string \<Rightarrow> mdast_node list" where
  "split_text_into_links v = split_links None [] v"

fun linkify_node :: "mdast_node \<Rightarrow> mdast_node" and linkify_children :: "mdast_node list \<Rightarrow> mdast_node list" where
  "linkify_node (Mdast ty v u None) = Mdast ty v u None"
| "linkify_node (Mdast ty v u (Some cs)) = Mdast ty v u (Some (linkify_children cs))"
| "linkify_children [] = []"
| "linkify_children (n # ns) =
     (if md_type n = ''text'' \<and> nullish (md_value n) [] \<noteq> [] then split_text_into_links (nullish (md_value n) [])
      else if md_type n \<notin> {''link'', ''inlineCode'', ''code''} then [linkify_node n] else [n]) @ linkify_children ns"

text \<open>The text a tree shows; a text node has no children.\<close>

fun node_text :: "mdast_node \<Rightarrow> string" and nodes_text :: "mdast_node list \<Rightarrow> string" where
  "node_text (Mdast ty v u None) = nullish v []"
| "node_text (Mdast ty v u (Some cs)) = nullish v [] @ (if ty = ''text'' then [] else nodes_text cs)"
| "nodes_text [] = []"
| "nodes_text (n # ns) = node_text n @ nodes_text ns"

lemma nodes_text_append [simp]: "nodes_text (ms @ ns) = nodes_text ms @ nodes_text ns"
  by (induction ms) auto

lemma text_before_text [simp]: "nodes_text (text_before p) = p"
  by (simp add: text_before_def text_node_def)

lemma split_links_text: "nodes_text (split_links before p s) = p @ s"
proof (induction before p s rule: split_links.induct)
  case (2 before p c s)
  show ?case
  proof (cases "if pred_option (\<lambda>b. \<not> joins_word b) before then bare_match (c # s) else None")
    case None
    with 2(1) show ?thesis by simp
  next
    case (Some m)
    obtain raw rest where m: "m = (raw, rest)" by (cases m)
    then have "bare_match (c # s) = Some (raw, rest)" using Some by (auto split: if_splits)
    then have "c # s = raw @ rest" using bare_match_split [of "c # s" raw rest] by simp
    moreover have "split_links before p (c # s) = text_before p @ link_node raw # split_links (Some (last raw)) [] rest"
      using Some m by simp
    ultimately show ?thesis using 2(2) [OF Some m [symmetric]] by (simp add: link_node_def text_node_def)
  qed
qed simp

lemma linkify_text:
  "node_text (linkify_node n) = node_text n" "nodes_text (linkify_children ns) = nodes_text ns"
proof (induction n and ns rule: linkify_node_linkify_children.induct)
  case (4 n ns)
  have "nodes_text (split_text_into_links (nullish (md_value n) [])) = node_text n" if "md_type n = ''text''"
    using that by (cases n; cases "md_children n") (auto simp: split_text_into_links_def split_links_text)
  with 4 show ?case by auto
qed auto

text \<open>Every link of a tree: what it points at and what it shows.\<close>

fun node_links :: "mdast_node \<Rightarrow> (string \<times> string) list" and nodes_links :: "mdast_node list \<Rightarrow> (string \<times> string) list" where
  "node_links (Mdast ty v u None) = (if ty = ''link'' then [(nullish u [], [])] else [])"
| "node_links (Mdast ty v u (Some cs)) = (if ty = ''link'' then [(nullish u [], nodes_text cs)] else if ty = ''text'' then [] else nodes_links cs)"
| "nodes_links [] = []"
| "nodes_links (n # ns) = node_links n @ nodes_links ns"

definition bare_link :: "string \<times> string \<Rightarrow> bool" where
  "bare_link l \<longleftrightarrow> fst l = ''https://'' @ snd l \<and> snd l \<noteq> []"

lemma nodes_links_append [simp]: "nodes_links (ms @ ns) = nodes_links ms @ nodes_links ns"
  by (induction ms) auto

lemma link_node_links [simp]: "node_links (link_node raw) = [(''https://'' @ raw, raw)]"
  by (simp add: link_node_def text_node_def)

lemma text_before_links [simp]: "nodes_links (text_before p) = []"
  by (simp add: text_before_def text_node_def)

lemma split_links_bare: "set (nodes_links (split_links before p s)) \<subseteq> Collect bare_link"
proof (induction before p s rule: split_links.induct)
  case (2 before p c s)
  show ?case
  proof (cases "if pred_option (\<lambda>b. \<not> joins_word b) before then bare_match (c # s) else None")
    case None
    with 2(1) show ?thesis by simp
  next
    case (Some m)
    obtain raw rest where m: "m = (raw, rest)" by (cases m)
    then have "bare_match (c # s) = Some (raw, rest)" using Some by (auto split: if_splits)
    then have "raw \<noteq> []" using bare_match_split [of "c # s" raw rest] by simp
    with 2(2) [OF Some m [symmetric]] Some m show ?thesis by (simp add: bare_link_def)
  qed
qed simp

lemma linkify_links:
  "set (node_links n) \<subseteq> set (node_links (linkify_node n)) \<and> set (node_links (linkify_node n)) \<subseteq> set (node_links n) \<union> Collect bare_link"
  "set (nodes_links ns) \<subseteq> set (nodes_links (linkify_children ns)) \<and>
   set (nodes_links (linkify_children ns)) \<subseteq> set (nodes_links ns) \<union> Collect bare_link"
proof (induction n and ns rule: linkify_node_linkify_children.induct)
  case (4 n ns)
  let ?v = "nullish (md_value n) []"
  have "node_links n = []" if "md_type n = ''text''"
    using that by (cases n; cases "md_children n") auto
  moreover have "set (nodes_links (split_text_into_links ?v)) \<subseteq> Collect bare_link"
    by (simp add: split_text_into_links_def split_links_bare)
  moreover have "nodes_links [m] = node_links m" for m by simp
  ultimately show ?case using 4
    by (cases "md_type n = ''text'' \<and> ?v \<noteq> []"; cases "md_type n \<notin> {''link'', ''inlineCode'', ''code''}")
      (simp_all del: nodes_links.simps(2) add: nodes_links.simps(2) [of n ns], blast+)
qed (auto simp: linkify_text)

text \<open>Bare domains become links without a change of what the message says: the tree shows the same text, every link
  it had stays, and each new one points to the https address of exactly the words it shows.\<close>

theorem bare_links_keep_the_message:
  "node_text (linkify_node n) = node_text n \<and> set (node_links n) \<subseteq> set (node_links (linkify_node n)) \<and>
   set (node_links (linkify_node n)) \<subseteq> set (node_links n) \<union> Collect bare_link"
  using linkify_text(1) linkify_links(1) by blast

subsection \<open>Messages on the phone\<close>

datatype ast_node = AstNode (an_key: string) (an_type: string) (an_children: "ast_node list")

fun last_on_the_way :: "ast_node \<Rightarrow> ast_node list \<Rightarrow> bool" where
  "last_on_the_way child [] = True"
| "last_on_the_way child (p # ps) =
     (an_children p \<noteq> [] \<and> an_key (last (an_children p)) = an_key child \<and> last_on_the_way p ps)"

definition is_final_markdown_node :: "ast_node \<Rightarrow> ast_node list \<Rightarrow> bool" where
  "is_final_markdown_node n parents \<longleftrightarrow> last_on_the_way n parents \<and> parents \<noteq> [] \<and> an_type (last parents) = ''body''"

record calendar_day =
  cd_year :: int
  cd_month :: nat
  cd_date :: nat

definition is_same_calendar_day :: "calendar_day \<Rightarrow> calendar_day \<Rightarrow> bool" where
  "is_same_calendar_day left right \<longleftrightarrow>
     cd_year left = cd_year right \<and> cd_month left = cd_month right \<and> cd_date left = cd_date right"

text \<open>\<open>day_of\<close> is the local day of a timestamp, none where it is no date; \<open>yesterday\<close> is the day before \<open>today\<close>, and
  \<open>long_date\<close> the locale's words with or without the year.\<close>

definition chat_date_label ::
  "(string \<Rightarrow> calendar_day option) \<Rightarrow> (calendar_day \<Rightarrow> bool \<Rightarrow> string) \<Rightarrow> calendar_day \<Rightarrow> calendar_day \<Rightarrow> string option \<Rightarrow> string" where
  "chat_date_label day_of long_date today yesterday timestamp =
     (case timestamp of
        None \<Rightarrow> ''Earlier''
      | Some s \<Rightarrow>
          if s = [] then ''Earlier''
          else case day_of s of
                 None \<Rightarrow> ''Earlier''
               | Some d \<Rightarrow>
                   if is_same_calendar_day d today then ''Today''
                   else if is_same_calendar_day d yesterday then ''Yesterday''
                   else long_date d (cd_year d \<noteq> cd_year today))"

datatype link_opener = OpensWeb | OpensSystem | Unsupported

record link_target =
  lt_url :: string
  lt_opener :: link_opener

definition has_scheme :: "string \<Rightarrow> bool" where
  "has_scheme s \<longleftrightarrow> s \<noteq> [] \<and> is_letter (hd s) \<and>
     starts_with '':'' (dropWhile (\<lambda>c. is_letter c \<or> is_digit c \<or> c \<in> set ''+.-'') (tl s))"

definition scheme_is :: "string \<Rightarrow> string \<Rightarrow> bool" where
  "scheme_is scheme s \<longleftrightarrow> lower_case (take (Suc (length scheme)) s) = scheme @ '':''"

definition resolve_markdown_link :: "string \<Rightarrow> link_target" where
  "resolve_markdown_link href =
     (let trimmed = trim href;
          url = (if has_scheme trimmed then trimmed else ''https://'' @ dropWhile (\<lambda>c. c = CHR ''/'') trimmed)
      in \<lparr>lt_url = url,
          lt_opener = (if scheme_is ''http'' url \<or> scheme_is ''https'' url then OpensWeb
                       else if scheme_is ''mailto'' url \<or> scheme_is ''tel'' url \<or> scheme_is ''sms'' url then OpensSystem
                       else Unsupported)\<rparr>)"

text \<open>A link without a scheme opens the web, and a resolved one has a scheme.\<close>

lemma schemeless_opens_web: "\<not> has_scheme (trim href) \<Longrightarrow> lt_opener (resolve_markdown_link href) = OpensWeb"
  by (simp add: resolve_markdown_link_def scheme_is_def lower_case_def lower_char_def Let_def)

lemma resolved_has_scheme: "has_scheme (lt_url (resolve_markdown_link href))"
proof -
  have "has_scheme (''https://'' @ s)" for s
    by (simp add: has_scheme_def is_letter_def between_def is_digit_def starts_with_def)
  then show ?thesis unfolding resolve_markdown_link_def Let_def by (simp only: link_target.simps split: if_split) blast
qed

lemma script_is_unsupported: "lt_opener (resolve_markdown_link '' JavaScript:alert(1)'') = Unsupported"
  by code_simp

end
