(* ===== verification/MobileGates.thy ===== *)
theory MobileGates
  imports SyncSocket
begin

section \<open>What the mobile app lets through
  (apps/mobile/src: controller/, privacy/, notifications/, session/)\<close>

text \<open>
  The decisions of the mobile app's gates: the update sheet and the privacy screen, the route an
  operation leaves reachable, the controller's lifetime, the notification that opens an agent, the push
  registration and the roster held across a reconnect.  Each is a function of what one render or one
  event sees; the router, the platform and the storage are left out.  An active route is the first path
  segment, none on home.
\<close>

subsection \<open>The update sheet (controller/gateway-update-gate-model.ts, gateway-update-gate.tsx)\<close>

record behind_latch =
  bl_key :: "string option"
  bl_behind :: bool

definition latched_gateway_behind :: "behind_latch \<Rightarrow> string option \<Rightarrow> sync_state \<Rightarrow> bool" where
  "latched_gateway_behind latch connection_key state =
     (if state = SGatewayBehind then True
      else bl_key latch = connection_key \<and> state \<noteq> SOpen \<and> bl_behind latch)"

text \<open>One render of the provider: the latch it leaves (ControllerProvider.tsx).\<close>

definition render_latch :: "behind_latch \<Rightarrow> string option \<times> sync_state \<Rightarrow> behind_latch" where
  "render_latch latch seen =
     \<lparr>bl_key = fst seen, bl_behind = latched_gateway_behind latch (fst seen) (snd seen)\<rparr>"

datatype update_gate_action = NoUpdateAction | PushUpdate | ReplaceUpdate | DismissUpdate

record update_gate_input =
  ug_blocked :: bool
  ug_operation_presented :: bool
  ug_privacy_blocked :: bool
  ug_privacy_route :: bool
  ug_update_route :: bool
  ug_replace_route :: bool

definition update_navigation_action :: "update_gate_input \<Rightarrow> bool \<Rightarrow> update_gate_action" where
  "update_navigation_action i presented =
     (if ug_privacy_blocked i \<or> ug_privacy_route i then NoUpdateAction
      else if presented
      then (if ug_update_route i then NoUpdateAction else if ug_replace_route i then ReplaceUpdate else PushUpdate)
      else if ug_update_route i then DismissUpdate else NoUpdateAction)"

definition gateway_update_gate_decision :: "update_gate_input \<Rightarrow> update_gate_action \<times> bool" where
  "gateway_update_gate_decision i =
     (let privacy_owns = ug_privacy_blocked i \<or> ug_privacy_route i;
          presented = \<not> privacy_owns \<and> (ug_blocked i \<or> ug_operation_presented i)
      in (update_navigation_action i presented, presented))"

definition update_sheet_routes :: "string list" where
  "update_sheet_routes = [''connect-actions'', ''connect-link'', ''debug'', ''new-agent'', ''recent-gateways'', ''scan'',
     ''settings'', ''switch-gateway'', ''whats-new'']"

text \<open>What the gate's component makes of the route (gateway-update-gate.tsx).\<close>

definition update_gate :: "bool \<Rightarrow> bool \<Rightarrow> bool \<Rightarrow> string option \<Rightarrow> update_gate_action \<times> bool" where
  "update_gate blocked operation_presented privacy_blocked active_route =
     gateway_update_gate_decision
       \<lparr>ug_blocked = blocked, ug_operation_presented = operation_presented, ug_privacy_blocked = privacy_blocked,
        ug_privacy_route = active_route = Some ''privacy'', ug_update_route = active_route = Some ''gateway-update'',
        ug_replace_route = (case active_route of None \<Rightarrow> False | Some r \<Rightarrow> r \<in> set update_sheet_routes)\<rparr>"

subsection \<open>The privacy screen (privacy/privacy-gate-model.ts, privacy-gate.tsx, privacy/model.ts)\<close>

datatype session_status = SessionBooting | SessionDisconnected | SessionConnected

datatype privacy_gate_action =
  NoPrivacyAction | PushPrivacy | ReplacePrivacy | PrivacyBack | DismissToConnect | ReplaceRoot

record privacy_gate_input =
  pg_blocked :: bool
  pg_presentation_ready :: bool
  pg_privacy_route :: bool
  pg_replace_route :: bool
  pg_session :: session_status
  pg_can_go_back :: bool

definition privacy_gate_navigation_action :: "privacy_gate_input \<Rightarrow> privacy_gate_action" where
  "privacy_gate_navigation_action i =
     (if \<not> pg_presentation_ready i then NoPrivacyAction
      else if pg_blocked i
      then (if pg_privacy_route i then NoPrivacyAction else if pg_replace_route i then ReplacePrivacy else PushPrivacy)
      else if \<not> pg_privacy_route i then NoPrivacyAction
      else if pg_session i = SessionBooting then NoPrivacyAction
      else if pg_session i = SessionDisconnected then DismissToConnect
      else if pg_can_go_back i then PrivacyBack else ReplaceRoot)"

definition privacy_sheet_routes :: "string list" where
  "privacy_sheet_routes = [''connect-actions'', ''connect-link'', ''debug'', ''gateway-update'', ''new-agent'',
     ''recent-gateways'', ''scan'', ''settings'', ''switch-gateway'', ''whats-new'']"

definition privacy_gate :: "bool \<Rightarrow> bool \<Rightarrow> bool \<Rightarrow> session_status \<Rightarrow> bool \<Rightarrow> string option \<Rightarrow> privacy_gate_action" where
  "privacy_gate blocked preferences_hydrated privacy_hydrated status can_go_back active_route =
     privacy_gate_navigation_action
       \<lparr>pg_blocked = blocked,
        pg_presentation_ready = preferences_hydrated \<and> privacy_hydrated \<and> status \<noteq> SessionBooting,
        pg_privacy_route = active_route = Some ''privacy'',
        pg_replace_route = (case active_route of None \<Rightarrow> False | Some r \<Rightarrow> r \<in> set privacy_sheet_routes),
        pg_session = status, pg_can_go_back = can_go_back\<rparr>"

record unlock_input =
  ul_presentation_ready :: bool
  ul_privacy_route :: bool
  ul_hydrated :: bool
  ul_locked :: bool
  ul_authenticating :: bool
  ul_initialization_failed :: bool
  ul_attempted :: bool

definition should_automatically_unlock :: "unlock_input \<Rightarrow> bool" where
  "should_automatically_unlock i \<longleftrightarrow>
     ul_presentation_ready i \<and> ul_privacy_route i \<and> ul_hydrated i \<and> ul_locked i \<and> \<not> ul_authenticating i \<and>
     \<not> ul_initialization_failed i \<and> \<not> ul_attempted i"

record privacy_settings =
  pv_app_lock :: bool
  pv_hide_preview :: bool

definition initial_privacy_settings :: privacy_settings where
  "initial_privacy_settings = \<lparr>pv_app_lock = False, pv_hide_preview = False\<rparr>"

text \<open>The stored text: absent, empty, or what \<open>JSON.parse\<close> makes of it; a property of null throws.\<close>

datatype stored_text = NoText | StoredText "json option"

definition read_privacy_settings :: "stored_text \<Rightarrow> privacy_settings" where
  "read_privacy_settings stored =
     (case stored of
        NoText \<Rightarrow> initial_privacy_settings
      | StoredText None \<Rightarrow> initial_privacy_settings
      | StoredText (Some v) \<Rightarrow>
          if v = JNull then initial_privacy_settings
          else \<lparr>pv_app_lock = (case as_bool (Option.bind (as_record (Some v)) (\<lambda>p. field p ''appLockEnabled'')) of
                  Some b \<Rightarrow> b | None \<Rightarrow> False),
                pv_hide_preview = False\<rparr>)"

definition protects_app_switcher :: "privacy_settings \<Rightarrow> bool" where
  "protects_app_switcher s \<longleftrightarrow> pv_app_lock s \<or> pv_hide_preview s"

definition blocks_protected_content :: "bool \<Rightarrow> bool \<Rightarrow> bool \<Rightarrow> bool" where
  "blocks_protected_content hydrated locked initialization_failed \<longleftrightarrow> \<not> hydrated \<or> locked \<or> initialization_failed"

subsection \<open>Routes and the controller (controller/)\<close>

definition reachable_during_operation :: "string list" where
  "reachable_during_operation = [''settings'', ''privacy'', ''gateway-update'']"

text \<open>Whether the app goes home.\<close>

definition gateway_operation_route_action :: "bool \<Rightarrow> string option \<Rightarrow> bool" where
  "gateway_operation_route_action operating active_route \<longleftrightarrow>
     operating \<and> (case active_route of None \<Rightarrow> False | Some r \<Rightarrow> r \<notin> set reachable_during_operation)"

record controller_gate_input =
  cg_connected :: bool
  cg_foreground :: bool

datatype controller_gate_action = BuildController | CloseController | KeepController

definition controller_gate_action :: "controller_gate_input \<Rightarrow> controller_gate_input \<Rightarrow> controller_gate_action" where
  "controller_gate_action prev next =
     (let want = (\<lambda>g. cg_connected g \<and> cg_foreground g)
      in if want next \<and> \<not> want prev then BuildController
         else if \<not> want next \<and> want prev then CloseController else KeepController)"

subsection \<open>Sessions and the roster (session/session-model.ts, roster-model.ts)\<close>

record connection_config =
  co_url :: string
  co_access_token :: string
  co_refresh_token :: string
  co_hosted :: "bool option"

definition changes_gateway :: "connection_config option \<Rightarrow> connection_config \<Rightarrow> bool" where
  "changes_gateway current next \<longleftrightarrow>
     (case current of None \<Rightarrow> True | Some c \<Rightarrow> co_url c \<noteq> co_url next \<or> co_hosted c \<noteq> co_hosted next)"

definition connection_key_of :: "connection_config option \<Rightarrow> string option" where
  "connection_key_of connection =
     map_option (\<lambda>c. co_url c @ ''|'' @ (case co_hosted c of None \<Rightarrow> ''undefined'' | Some True \<Rightarrow> ''true'' | Some False \<Rightarrow> ''false''))
       connection"

definition rotated_stored_connection :: "connection_config option \<Rightarrow> connection_config option \<Rightarrow> connection_config option" where
  "rotated_stored_connection current stored =
     (case (current, stored) of
        (Some c, Some s) \<Rightarrow>
          if changes_gateway current s then None
          else if co_refresh_token s \<noteq> co_refresh_token c then Some s else None
      | _ \<Rightarrow> None)"

text \<open>The rows and the facts about the gateway a roster carries, as the parameter \<open>'r\<close> of both records.\<close>

record ('a, 'r) roster_hold =
  rh_key :: string
  rh_agents :: "'a list"
  rh_ready :: bool
  rh_facts :: "'r option"

definition empty_roster_hold :: "('a, 'r) roster_hold" where
  "empty_roster_hold = \<lparr>rh_key = [], rh_agents = [], rh_ready = False, rh_facts = None\<rparr>"

definition reconcile_roster_hold ::
  "('a, 'r) roster_hold \<Rightarrow> string \<Rightarrow> ('a list \<times> 'r) option \<Rightarrow> ('a, 'r) roster_hold" where
  "reconcile_roster_hold prev connection_key fresh =
     (let base = (if connection_key = rh_key prev then prev else empty_roster_hold)
      in case fresh of
           None \<Rightarrow> base\<lparr>rh_key := connection_key\<rparr>
         | Some (agents, facts) \<Rightarrow>
             \<lparr>rh_key = connection_key, rh_agents = agents, rh_ready = True, rh_facts = Some facts\<rparr>)"

subsection \<open>Notifications (notifications/)\<close>

record pending_notification =
  pn_identifier :: string
  pn_agent :: string
  pn_event_type :: string
  pn_gateway :: "string option"

definition pending_notification_from_data :: "jobj option \<Rightarrow> string \<Rightarrow> pending_notification option" where
  "pending_notification_from_data payload identifier =
     (case payload of
        None \<Rightarrow> None
      | Some d \<Rightarrow>
          (case as_str (field d ''agent'') of
             None \<Rightarrow> None
           | Some agent \<Rightarrow>
               if trim agent = [] then None
               else Some \<lparr>pn_identifier = identifier, pn_agent = trim agent,
                          pn_event_type = nullish (as_str (field d ''eventType'')) [],
                          pn_gateway = (case as_str (field d ''gateway'') of Some (c # g) \<Rightarrow> Some (c # g) | _ \<Rightarrow> None)\<rparr>))"

definition read_pending_notification :: "stored_text \<Rightarrow> pending_notification option" where
  "read_pending_notification stored =
     (case stored of
        StoredText (Some v) \<Rightarrow>
          if v = JNull then None
          else let d = nullish (as_record (Some v)) []
               in pending_notification_from_data (Some d) (nullish (as_str (field d ''identifier'')) ''stored'')
      | _ \<Rightarrow> None)"

datatype navigation_decision = WaitNotification | DiscardNotification | OpenNotification

record navigation_input =
  ni_pending :: pending_notification
  ni_session :: session_status
  ni_reachable :: bool
  ni_agents_ready :: bool
  ni_agent_names :: "string list"
  ni_route_ready :: bool
  ni_gateway :: "string option"
  ni_viewing :: "string option"

definition notification_navigation_decision :: "navigation_input \<Rightarrow> navigation_decision" where
  "notification_navigation_decision i =
     (if ni_session i \<noteq> SessionConnected \<or> \<not> ni_reachable i \<or> \<not> ni_agents_ready i \<or> \<not> ni_route_ready i then WaitNotification
      else if pn_gateway (ni_pending i) \<noteq> None \<and> pn_gateway (ni_pending i) \<noteq> Some [] \<and> pn_gateway (ni_pending i) \<noteq> ni_gateway i
      then DiscardNotification
      else if Some (pn_agent (ni_pending i)) = ni_viewing i then DiscardNotification
      else if pn_agent (ni_pending i) \<in> set (ni_agent_names i) then OpenNotification else DiscardNotification)"

datatype registration_decision = WaitRegistration | RegisterPush | UnregisterPush

definition push_registration_decision :: "bool \<Rightarrow> session_status \<Rightarrow> bool \<Rightarrow> registration_decision" where
  "push_registration_decision hydrated status enabled =
     (if \<not> hydrated \<or> status \<noteq> SessionConnected then WaitRegistration
      else if enabled then RegisterPush else UnregisterPush)"

text \<open>Whether the previous gateway's registration is removed.\<close>

definition gateway_handoff_decision :: "string option \<Rightarrow> string option \<Rightarrow> session_status \<Rightarrow> bool" where
  "gateway_handoff_decision previous_url current_url status =
     (if status = SessionBooting then False
      else if previous_url = None \<or> previous_url = Some [] then False
      else previous_url \<noteq> current_url)"

definition is_same_registration :: "(string \<times> string) option \<Rightarrow> (string \<times> string) option \<Rightarrow> bool" where
  "is_same_registration a b \<longleftrightarrow> a \<noteq> None \<and> b \<noteq> None \<and> a = b"

definition resolve_hydrated_snapshot :: "'a option \<Rightarrow> 'a option \<Rightarrow> 'a option" where
  "resolve_hydrated_snapshot current stored = (case current of Some c \<Rightarrow> Some c | None \<Rightarrow> stored)"

record visible_socket =
  vk_gateway :: string
  vk_agent :: string
  vk_connected :: bool

record foreground_policy =
  fp_visible :: "visible_socket option"
  fp_sync_connected :: bool

definition set_visible_agent_socket :: "string \<Rightarrow> string \<Rightarrow> bool \<Rightarrow> foreground_policy \<Rightarrow> foreground_policy" where
  "set_visible_agent_socket gateway agent is_up p =
     p\<lparr>fp_visible := if agent \<noteq> [] then Some \<lparr>vk_gateway = gateway, vk_agent = agent, vk_connected = is_up\<rparr> else None\<rparr>"

definition clear_visible_agent_socket :: "string \<Rightarrow> foreground_policy \<Rightarrow> foreground_policy" where
  "clear_visible_agent_socket agent p =
     (case fp_visible p of
        Some v \<Rightarrow> if vk_agent v = agent then p\<lparr>fp_visible := None\<rparr> else p
      | None \<Rightarrow> p)"

definition active_agent_name :: "foreground_policy \<Rightarrow> string option" where
  "active_agent_name p = map_option vk_agent (fp_visible p)"

definition set_sync_connected :: "bool \<Rightarrow> foreground_policy \<Rightarrow> foreground_policy" where
  "set_sync_connected is_up p = p\<lparr>fp_sync_connected := is_up\<rparr>"

definition should_present_foreground_notification :: "jobj option \<Rightarrow> foreground_policy \<Rightarrow> bool" where
  "should_present_foreground_notification payload p =
     (if fp_sync_connected p then False
      else let agent = Option.bind payload (\<lambda>d. as_str (field d ''agent''));
               gateway = Option.bind payload (\<lambda>d. as_str (field d ''gateway''))
           in \<not> (agent \<noteq> None \<and> agent \<noteq> Some [] \<and>
                 (case fp_visible p of
                    None \<Rightarrow> False
                  | Some v \<Rightarrow> Some (vk_agent v) = agent \<and>
                      (gateway = None \<or> gateway = Some [] \<or> Some (vk_gateway v) = gateway) \<and> vk_connected v)))"

subsection \<open>The gates do not fight\<close>

text \<open>The privacy screen and the update sheet never navigate in the same render, whatever the app shows:
  while one of them has something to do, the other does nothing.  What the update sheet was sent to
  show, it shows without asking again, and the privacy screen does the same.\<close>

theorem gates_never_navigate_together:
  "(privacy_gate blocked p_hydrated v_hydrated status can_go_back route = NoPrivacyAction \<or>
    fst (update_gate gateway_blocked presented blocked route) = NoUpdateAction) \<and>
   privacy_gate True p_hydrated v_hydrated status can_go_back (Some ''privacy'') = NoPrivacyAction \<and>
   (privacy_gate blocked True True SessionConnected can_go_back (Some ''privacy'') = NoPrivacyAction \<longleftrightarrow> blocked) \<and>
   fst (update_gate gateway_blocked presented blocked (Some ''gateway-update'')) =
     (if blocked \<or> gateway_blocked \<or> presented then NoUpdateAction else DismissUpdate)"
  by (auto simp: privacy_gate_def privacy_gate_navigation_action_def update_gate_def gateway_update_gate_decision_def
      update_navigation_action_def Let_def)

text \<open>The render in which an operation starts on an agent's page makes two owners act at once: the sheet is
  pushed and the app is sent home.\<close>

lemma sheet_and_home_in_one_render:
  "fst (update_gate False True False (Some ''agent'')) = PushUpdate \<and> gateway_operation_route_action True (Some ''agent'')"
  by (simp add: update_gate_def gateway_update_gate_decision_def update_navigation_action_def update_sheet_routes_def
      gateway_operation_route_action_def reachable_during_operation_def)

subsection \<open>Behind until the gateway opens\<close>

text \<open>A render with the gateway behind, and none since then that saw another gateway or an open socket.\<close>

definition behind_since :: "(string option \<times> sync_state) list \<Rightarrow> bool" where
  "behind_since renders \<longleftrightarrow>
     (\<exists>before key after. renders = before @ (key, SGatewayBehind) # after \<and>
        (\<forall>(k, st) \<in> set after. k = key \<and> st \<noteq> SOpen))"

lemma behind_since_snoc:
  "behind_since (rs @ [(k, st)]) \<longleftrightarrow>
     st = SGatewayBehind \<or> behind_since rs \<and> st \<noteq> SOpen \<and> fst (last rs) = k"
proof
  assume "behind_since (rs @ [(k, st)])"
  then obtain before key later where s: "rs @ [(k, st)] = before @ (key, SGatewayBehind) # later"
    and l: "\<forall>(k, st) \<in> set later. k = key \<and> st \<noteq> SOpen" by (auto simp: behind_since_def)
  show "st = SGatewayBehind \<or> behind_since rs \<and> st \<noteq> SOpen \<and> fst (last rs) = k"
  proof (cases later rule: rev_cases)
    case Nil
    with s show ?thesis by simp
  next
    case (snoc mid x)
    with s have rs: "rs = before @ (key, SGatewayBehind) # mid" "x = (k, st)" by auto
    have "behind_since rs" unfolding behind_since_def using rs(1) l snoc by auto
    moreover have "fst (last rs) = key"
      using rs(1) l snoc by (cases mid rule: rev_cases) auto
    ultimately show ?thesis using l snoc rs(2) by auto
  qed
next
  assume a: "st = SGatewayBehind \<or> behind_since rs \<and> st \<noteq> SOpen \<and> fst (last rs) = k"
  show "behind_since (rs @ [(k, st)])"
  proof (cases "st = SGatewayBehind")
    case True
    then show ?thesis unfolding behind_since_def by (intro exI [of _ rs] exI [of _ k] exI [of _ "[]"]) simp
  next
    case False
    with a obtain before key later where rs: "rs = before @ (key, SGatewayBehind) # later"
      and l: "\<forall>(k, st) \<in> set later. k = key \<and> st \<noteq> SOpen" by (auto simp: behind_since_def)
    have "fst (last rs) = key" using rs l by (cases later rule: rev_cases) auto
    with a False have "k = key" "st \<noteq> SOpen" by auto
    with rs l show ?thesis
      unfolding behind_since_def
      by (intro exI [of _ before] exI [of _ key] exI [of _ "later @ [(k, st)]"]) auto
  qed
qed

text \<open>The update screen stays up from the render that saw the gateway behind until one that sees its socket
  open or another gateway, across every reconnect between, and for no other reason.\<close>

theorem behind_until_the_gateway_opens:
  "bl_behind (foldl render_latch \<lparr>bl_key = key, bl_behind = False\<rparr> renders) = behind_since renders"
proof -
  have "bl_behind (foldl render_latch \<lparr>bl_key = key, bl_behind = False\<rparr> renders) = behind_since renders \<and>
      (renders \<noteq> [] \<longrightarrow> bl_key (foldl render_latch \<lparr>bl_key = key, bl_behind = False\<rparr> renders) = fst (last renders))"
  proof (induction renders rule: rev_induct)
    case Nil
    show ?case by (simp add: behind_since_def)
  next
    case (snoc r rs)
    obtain k st where r: "r = (k, st)" by (cases r)
    have none: "rs = [] \<Longrightarrow> \<not> behind_since rs" by (simp add: behind_since_def)
    show ?case
      using snoc none behind_since_snoc [of "[]" k st]
      by (cases "rs = []") (auto simp: r behind_since_snoc render_latch_def latched_gateway_behind_def)
  qed
  then show ?thesis by simp
qed

subsection \<open>The roster of one gateway\<close>

definition hold_roster :: "(string \<times> ('a list \<times> 'r) option) list \<Rightarrow> ('a, 'r) roster_hold" where
  "hold_roster = foldl (\<lambda>hold seen. reconcile_roster_hold hold (fst seen) (snd seen)) empty_roster_hold"

text \<open>The renders since the app came to the gateway of the last one, the last first.\<close>

definition this_visit :: "(string \<times> ('a list \<times> 'r) option) list \<Rightarrow> (string \<times> ('a list \<times> 'r) option) list" where
  "this_visit renders = takeWhile (\<lambda>seen. fst seen = fst (last renders)) (rev renders)"

definition latest_fresh :: "(string \<times> ('a list \<times> 'r) option) list \<Rightarrow> ('a list \<times> 'r) option" where
  "latest_fresh renders = (case find (\<lambda>seen. snd seen \<noteq> None) (this_visit renders) of None \<Rightarrow> None | Some seen \<Rightarrow> snd seen)"

lemma this_visit_snoc:
  "this_visit (rs @ [(k, f)]) = (k, f) # (if rs \<noteq> [] \<and> fst (last rs) = k then this_visit rs else [])"
  by (cases rs rule: rev_cases) (auto simp: this_visit_def)

lemma hold_roster_snoc: "hold_roster (rs @ [(k, f)]) = reconcile_roster_hold (hold_roster rs) k f"
  by (simp add: hold_roster_def)

lemma hold_roster_view:
  "rs \<noteq> [] \<Longrightarrow> rh_key (hold_roster rs) = fst (last rs) \<and>
     (case latest_fresh rs of
        None \<Rightarrow> rh_agents (hold_roster rs) = [] \<and> \<not> rh_ready (hold_roster rs) \<and> rh_facts (hold_roster rs) = None
      | Some (agents, facts) \<Rightarrow> rh_agents (hold_roster rs) = agents \<and> rh_ready (hold_roster rs) \<and> rh_facts (hold_roster rs) = Some facts)"
proof (induction rs rule: rev_induct)
  case (snoc r rs)
  obtain k f where r: "r = (k, f)" by (cases r)
  have empty: "hold_roster [] = empty_roster_hold" by (simp add: hold_roster_def)
  show ?case
  proof (cases f)
    case None
    show ?thesis
    proof (cases "rs = []")
      case True
      then show ?thesis
        using None by (simp add: r this_visit_def latest_fresh_def hold_roster_def reconcile_roster_hold_def empty_roster_hold_def)
    next
      case False
      with snoc.IH None show ?thesis
        by (auto simp: r hold_roster_snoc this_visit_snoc latest_fresh_def reconcile_roster_hold_def empty_roster_hold_def Let_def
            split: option.splits)
    qed
  next
    case (Some af)
    then show ?thesis
      by (cases af) (simp add: r hold_roster_snoc this_visit_snoc latest_fresh_def reconcile_roster_hold_def Let_def)
  qed
qed simp

text \<open>What is held after some renders is the last snapshot that was rendered since the app came to the gateway of the
  last one, whatever was rendered for another, or for this one before a switch away.\<close>

theorem held_roster_is_the_last_rendered:
  "let h = hold_roster (renders @ [(key, fresh)])
   in rh_key h = key \<and>
      (case latest_fresh (renders @ [(key, fresh)]) of
         None \<Rightarrow> rh_agents h = [] \<and> \<not> rh_ready h \<and> rh_facts h = None
       | Some (agents, facts) \<Rightarrow> rh_agents h = agents \<and> rh_ready h \<and> rh_facts h = Some facts)"
  using hold_roster_view [of "renders @ [(key, fresh)]"] by (simp add: Let_def)

end
