(* ===== verification/Preferences.thy ===== *)
theory Preferences
  imports MobileGates Urls "HOL-Library.AList"
begin

section \<open>Preferences (apps/mobile/src/preferences/, apps/web/src/stores/use-preferences.ts)\<close>

text \<open>
  The device's preferences.  The mobile app reads them from one stored text when it opens and writes all of them on
  every change, one write after the other; the provider's ref and the state set beside it are one field.  The web app
  keeps them in a persisted store; modelled are its operations and the values it takes over from the keys of older
  releases.  \<open>JSON.parse\<close> keeps one entry for a name.
\<close>

subsection \<open>The mobile app's preferences\<close>

datatype theme_preference = ThemeSystem | ThemeLight | ThemeDark

record preferences =
  pf_theme :: theme_preference
  pf_pacing :: "(string \<times> bool) list"
  pf_chat_page :: bool
  pf_dashboard_page :: bool
  pf_notifications_page :: bool
  pf_logs_page :: bool
  pf_remote_notifications :: bool
  pf_push_chat_replies :: bool
  pf_previews :: bool
  pf_share_location :: bool

definition initial_preferences :: preferences where
  "initial_preferences =
     \<lparr>pf_theme = ThemeSystem, pf_pacing = [], pf_chat_page = True, pf_dashboard_page = False,
      pf_notifications_page = False, pf_logs_page = False, pf_remote_notifications = True, pf_push_chat_replies = True,
      pf_previews = True, pf_share_location = True\<rparr>"

definition theme_of :: "json option \<Rightarrow> theme_preference option" where
  "theme_of v =
     (if v = Some (JStr ''system'') then Some ThemeSystem
      else if v = Some (JStr ''light'') then Some ThemeLight
      else if v = Some (JStr ''dark'') then Some ThemeDark else None)"

fun boolean_entries :: "jobj \<Rightarrow> (string \<times> bool) list" where
  "boolean_entries [] = []"
| "boolean_entries ((k, JBool b) # ps) = (k, b) # boolean_entries ps"
| "boolean_entries (p # ps) = boolean_entries ps"

definition read_boolean_record :: "json option \<Rightarrow> (string \<times> bool) list" where
  "read_boolean_record v = (case v of Some (JObj ps) \<Rightarrow> boolean_entries ps | _ \<Rightarrow> [])"

definition natural_pacing :: "(string \<times> bool) list \<Rightarrow> string \<Rightarrow> bool" where
  "natural_pacing pacing agent = nullish (map_of pacing agent) True"

definition preferences_of :: "jobj \<Rightarrow> preferences" where
  "preferences_of ps =
     (let flag = (\<lambda>key. nullish (as_bool (field ps key)))
      in \<lparr>pf_theme = nullish (theme_of (field ps ''theme'')) ThemeSystem,
          pf_pacing = read_boolean_record (field ps ''naturalChatPacingByAgent''),
          pf_chat_page = flag ''showChatPage'' True, pf_dashboard_page = flag ''showDashboardPage'' False,
          pf_notifications_page = flag ''showNotificationsPage'' False, pf_logs_page = flag ''showLogsPage'' False,
          pf_remote_notifications = flag ''remoteNotifications'' True,
          pf_push_chat_replies = flag ''pushChatReplies'' True, pf_previews = flag ''notificationPreviews'' True,
          pf_share_location = flag ''shareLocation'' True\<rparr>)"

definition read_stored_preferences :: "stored_text \<Rightarrow> preferences" where
  "read_stored_preferences stored =
     (case stored of
        StoredText (Some v) \<Rightarrow> if v = JNull then initial_preferences else preferences_of (nullish (as_record (Some v)) [])
      | _ \<Rightarrow> initial_preferences)"

text \<open>What \<open>JSON.stringify\<close> writes of them.\<close>

fun json_of_theme :: "theme_preference \<Rightarrow> json" where
  "json_of_theme ThemeSystem = JStr ''system''"
| "json_of_theme ThemeLight = JStr ''light''"
| "json_of_theme ThemeDark = JStr ''dark''"

definition json_of_preferences :: "preferences \<Rightarrow> json" where
  "json_of_preferences p =
     JObj [(''theme'', json_of_theme (pf_theme p)),
       (''naturalChatPacingByAgent'', JObj (map (\<lambda>(k, b). (k, JBool b)) (pf_pacing p))),
       (''showChatPage'', JBool (pf_chat_page p)), (''showDashboardPage'', JBool (pf_dashboard_page p)),
       (''showNotificationsPage'', JBool (pf_notifications_page p)), (''showLogsPage'', JBool (pf_logs_page p)),
       (''remoteNotifications'', JBool (pf_remote_notifications p)),
       (''pushChatReplies'', JBool (pf_push_chat_replies p)), (''notificationPreviews'', JBool (pf_previews p)),
       (''shareLocation'', JBool (pf_share_location p))]"

text \<open>The provider: what it shows, what is stored, and the writes that have not answered, the first of them
  under way.\<close>

record preferences_provider =
  pp_shown :: preferences
  pp_hydrated :: bool
  pp_loading :: bool
  pp_stored :: stored_text
  pp_writes :: "preferences list"

datatype preferences_event =
  LoadAnswers bool
| UpdatePreferences "preferences \<Rightarrow> preferences"
| SetPacing string bool
| WriteAnswers bool

datatype preferences_out = WriteSettled bool

definition open_preferences :: "stored_text \<Rightarrow> preferences_provider" where
  "open_preferences stored =
     \<lparr>pp_shown = initial_preferences, pp_hydrated = False, pp_loading = True, pp_stored = stored, pp_writes = []\<rparr>"

definition update_preferences :: "(preferences \<Rightarrow> preferences) \<Rightarrow> preferences_provider \<Rightarrow> preferences_provider" where
  "update_preferences patch s = s\<lparr>pp_shown := patch (pp_shown s), pp_writes := pp_writes s @ [patch (pp_shown s)]\<rparr>"

definition set_pacing :: "string \<Rightarrow> bool \<Rightarrow> preferences \<Rightarrow> preferences" where
  "set_pacing agent b p = p\<lparr>pf_pacing := AList.update agent b (pf_pacing p)\<rparr>"

definition preferences_loaded :: "bool \<Rightarrow> preferences_provider \<Rightarrow> preferences_provider" where
  "preferences_loaded ok s =
     s\<lparr>pp_shown := if ok then read_stored_preferences (pp_stored s) else pp_shown s, pp_hydrated := True, pp_loading := False\<rparr>"

definition write_answers :: "bool \<Rightarrow> preferences_provider \<Rightarrow> preferences_provider \<times> preferences_out list" where
  "write_answers ok s =
     (case pp_writes s of
        [] \<Rightarrow> (s, [])
      | p # rest \<Rightarrow>
          (s\<lparr>pp_writes := rest, pp_stored := if ok then StoredText (Some (json_of_preferences p)) else pp_stored s\<rparr>,
           [WriteSettled ok]))"

fun preferences_step :: "preferences_provider \<Rightarrow> preferences_event \<Rightarrow> preferences_provider \<times> preferences_out list" where
  "preferences_step s (LoadAnswers ok) = (preferences_loaded ok s, [])"
| "preferences_step s (UpdatePreferences patch) = (update_preferences patch s, [])"
| "preferences_step s (SetPacing agent b) = (update_preferences (set_pacing agent b) s, [])"
| "preferences_step s (WriteAnswers ok) = write_answers ok s"

definition preferences_ok :: "preferences \<Rightarrow> bool" where
  "preferences_ok p \<longleftrightarrow> distinct (map fst (pf_pacing p))"

fun preferences_enabled :: "preferences_provider \<Rightarrow> preferences_event \<Rightarrow> bool" where
  "preferences_enabled s (LoadAnswers ok) = pp_loading s"
| "preferences_enabled s (UpdatePreferences patch) = preferences_ok (patch (pp_shown s))"
| "preferences_enabled s (SetPacing agent b) = True"
| "preferences_enabled s (WriteAnswers ok) = (pp_writes s \<noteq> [])"

subsection \<open>The web app's preferences\<close>

record web_preferences =
  wp_pacing :: "(string \<times> bool) list"
  wp_share_location :: bool
  wp_hold_to_talk :: bool
  wp_voice_muted :: bool
  wp_voice_input :: "string option"
  wp_auto_end :: bool
  wp_collapsed :: "string list"
  wp_fullscreen :: "string list"
  wp_last_agent :: "string option"
  wp_whats_new :: "string option"

definition web_defaults :: web_preferences where
  "web_defaults =
     \<lparr>wp_pacing = [], wp_share_location = True, wp_hold_to_talk = False, wp_voice_muted = False, wp_voice_input = None,
      wp_auto_end = True, wp_collapsed = [], wp_fullscreen = [], wp_last_agent = None, wp_whats_new = None\<rparr>"

text \<open>\<open>localStorage\<close> as its items in the order of its keys; \<open>parse\<close> is \<open>JSON.parse\<close>, none where it throws.\<close>

definition legacy_preferences :: "(string \<Rightarrow> json option) \<Rightarrow> (string \<times> string) list option \<Rightarrow> web_preferences" where
  "legacy_preferences parse storage =
     (case storage of
        None \<Rightarrow> web_defaults
      | Some items \<Rightarrow>
          (let flag = (\<lambda>key fallback. case map_of items key of None \<Rightarrow> fallback | Some raw \<Rightarrow> raw = ''1'');
               raw_pacing = nullish (map_of items ''chat-natural-pacing-by-agent'') [];
               prefix = ''vesta:chat-collapsed:''
           in \<lparr>wp_pacing = (if raw_pacing = [] then [] else read_boolean_record (parse raw_pacing)),
               wp_share_location = (map_of items ''vesta:share-location'' \<noteq> Some ''off''),
               wp_hold_to_talk = (map_of items ''voice-activation'' = Some ''hold''),
               wp_voice_muted = flag ''voice-muted'' False, wp_voice_input = None,
               wp_auto_end = flag ''voice-conversation-auto-end'' True,
               wp_collapsed = map (drop (length prefix)) (filter (starts_with prefix) (map fst items)),
               wp_fullscreen = [], wp_last_agent = map_of items ''vesta:last-agent'',
               wp_whats_new = map_of items ''vesta:whats-new-last-seen''\<rparr>))"

definition with_agent :: "string list \<Rightarrow> string \<Rightarrow> bool \<Rightarrow> string list" where
  "with_agent agents agent member =
     (let without = filter (\<lambda>name. name \<noteq> agent) agents in if member then without @ [agent] else without)"

definition set_chat_collapsed :: "string \<Rightarrow> bool \<Rightarrow> web_preferences \<Rightarrow> web_preferences" where
  "set_chat_collapsed agent collapsed p = p\<lparr>wp_collapsed := with_agent (wp_collapsed p) agent collapsed\<rparr>"

definition set_chat_fullscreen :: "string \<Rightarrow> bool \<Rightarrow> web_preferences \<Rightarrow> web_preferences" where
  "set_chat_fullscreen agent fullscreen p =
     (if (agent \<in> set (wp_fullscreen p)) = fullscreen then p
      else p\<lparr>wp_fullscreen := with_agent (wp_fullscreen p) agent fullscreen\<rparr>)"

definition agent_view_path :: "web_preferences \<Rightarrow> string \<Rightarrow> string" where
  "agent_view_path p agent =
     (let base = ''/agent/'' @ encode_uri_component agent
      in if agent \<in> set (wp_fullscreen p) then base @ ''/chat'' else base)"

subsection \<open>What is stored\<close>

lemma boolean_entries_json [simp]: "boolean_entries (map (\<lambda>(k, b). (k, JBool b)) ps) = ps"
  by (induction ps) auto

lemma theme_of_json [simp]: "theme_of (Some (json_of_theme t)) = Some t"
  by (cases t) (simp_all add: theme_of_def)

lemma read_written [simp]: "read_stored_preferences (StoredText (Some (json_of_preferences p))) = p"
  by (simp add: read_stored_preferences_def json_of_preferences_def preferences_of_def field_def read_boolean_record_def Let_def)

text \<open>A store that loads before it is changed, and whose writes succeed: once the writes are through, it holds what
  the app shows.\<close>

definition stores_shown :: "preferences_provider \<Rightarrow> bool" where
  "stores_shown s \<longleftrightarrow> pp_loading s = (\<not> pp_hydrated s) \<and>
     (if pp_loading s then pp_writes s = []
      else if pp_writes s = [] then read_stored_preferences (pp_stored s) = pp_shown s
      else last (pp_writes s) = pp_shown s)"

fun undisturbed :: "preferences_provider \<Rightarrow> preferences_event \<Rightarrow> bool" where
  "undisturbed s (LoadAnswers ok) = ok"
| "undisturbed s (WriteAnswers ok) = ok"
| "undisturbed s e = (\<not> pp_loading s)"

lemma stores_shown_step:
  assumes "stores_shown s" "preferences_enabled s e" "undisturbed s e"
  shows "stores_shown (fst (preferences_step s e))"
proof (cases e)
  case (WriteAnswers ok)
  with assms show ?thesis
    by (cases "pp_writes s") (auto simp: stores_shown_def write_answers_def split: if_splits)
qed (use assms in \<open>auto simp: stores_shown_def preferences_loaded_def update_preferences_def\<close>)

interpretation storing: machine preferences_step "\<lambda>s e. preferences_enabled s e \<and> undisturbed s e" stores_shown
  by unfold_locales (auto intro: stores_shown_step)

text \<open>C31: When nothing is being written, the stored preferences are the shown ones: a relaunch shows what the app
  shows, as long as it was loaded before it was changed and its writes succeeded.\<close>

theorem quiet_store_holds_what_is_shown:
  assumes "legal_events preferences_step (\<lambda>s e. preferences_enabled s e \<and> undisturbed s e) (open_preferences stored) es"
    "s = fst (run_events preferences_step (open_preferences stored) es)" "pp_hydrated s" "pp_writes s = []"
  shows "fst (preferences_step (open_preferences (pp_stored s)) (LoadAnswers True)) =
    \<lparr>pp_shown = pp_shown s, pp_hydrated = True, pp_loading = False, pp_stored = pp_stored s, pp_writes = []\<rparr>"
proof -
  have "stores_shown (open_preferences stored)" by (simp add: stores_shown_def open_preferences_def)
  from storing.run_inv [OF this assms(1)] assms(2-) show ?thesis
    by (auto simp: stores_shown_def preferences_loaded_def open_preferences_def split: if_splits)
qed

theorem quiet_store_holds_what_is_shown_witness:
  "fst (preferences_step (open_preferences (pp_stored (fst (run_events preferences_step (open_preferences NoText)
      [LoadAnswers True, SetPacing ''a'' False, WriteAnswers True])))) (LoadAnswers True)) =
   (fst (run_events preferences_step (open_preferences NoText) [LoadAnswers True, SetPacing ''a'' False, WriteAnswers True]))"
  using quiet_store_holds_what_is_shown [OF _ refl, of NoText "[LoadAnswers True, SetPacing ''a'' False, WriteAnswers True]"]
  by (simp add: open_preferences_def preferences_loaded_def update_preferences_def write_answers_def)

text \<open>A change that comes before the stored preferences are loaded is written over all of them: the load that answers
  then shows the old ones, and the next launch shows the defaults the change was made to.\<close>

definition private_preferences :: preferences where
  "private_preferences = initial_preferences\<lparr>pf_share_location := False, pf_previews := False\<rparr>"

lemma early_change_forgets_the_others:
  "let s = fst (run_events preferences_step (open_preferences (StoredText (Some (json_of_preferences private_preferences))))
        [UpdatePreferences (pf_theme_update (\<lambda>_. ThemeDark)), LoadAnswers True, WriteAnswers True])
   in pp_shown s = private_preferences \<and>
      read_stored_preferences (pp_stored s) = initial_preferences\<lparr>pf_theme := ThemeDark\<rparr>"
  by (simp add: Let_def open_preferences_def update_preferences_def preferences_loaded_def write_answers_def)

text \<open>An agent's pacing is what was set last, and natural where nothing was.\<close>

theorem pacing_is_what_was_set:
  "natural_pacing (pf_pacing (set_pacing agent b p)) name = (if name = agent then b else natural_pacing (pf_pacing p) name)"
  by (simp add: natural_pacing_def set_pacing_def update_conv')

lemma fullscreen_member:
  "name \<in> set (wp_fullscreen (set_chat_fullscreen agent fullscreen p)) \<longleftrightarrow>
     (if name = agent then fullscreen else name \<in> set (wp_fullscreen p))"
  by (auto simp: set_chat_fullscreen_def with_agent_def Let_def)

text \<open>An agent opens in the view it was left in, and no other agent's view changes.\<close>

theorem agent_opens_where_it_was_left:
  "agent_view_path (set_chat_fullscreen agent fullscreen p) name =
     (if name = agent then ''/agent/'' @ encode_uri_component agent @ (if fullscreen then ''/chat'' else [])
      else agent_view_path p name)"
  by (simp add: agent_view_path_def fullscreen_member Let_def)

text \<open>A collapsed chat is remembered once.\<close>

theorem collapsed_once:
  assumes "distinct (wp_collapsed p)"
  shows "distinct (wp_collapsed (set_chat_collapsed agent collapsed p)) \<and>
    set (wp_collapsed (set_chat_collapsed agent collapsed p)) =
      (if collapsed then insert agent (set (wp_collapsed p)) else set (wp_collapsed p) - {agent})"
  using assms by (auto simp: set_chat_collapsed_def with_agent_def Let_def)

theorem collapsed_once_witness:
  "distinct (wp_collapsed (set_chat_collapsed ''a'' True web_defaults)) \<and>
    set (wp_collapsed (set_chat_collapsed ''a'' True web_defaults)) = {''a''}"
  using collapsed_once [of web_defaults "''a''" True] by (simp add: web_defaults_def)

end
