(* ===== verification/LocationSharing.thy ===== *)
theory LocationSharing
  imports Preferences DeviceContext
begin

section \<open>Location sharing on the phone (apps/mobile/src/presence/PresenceReporter.tsx,
  device-context/background-report.ts, location-consent.ts, app/settings.tsx)\<close>

text \<open>
  The effect that reads and reports where the phone is, the background task that does so while the app is closed, and
  the switch in the settings, over the preferences' provider (\<open>Preferences\<close>) and the readers (\<open>DeviceContext\<close>).
  Every asynchronous call is a task that waits for the one answer it awaits, and a change of what the effect depends
  on is rendered before the next event.  What a read of the context answers is what \<open>read_device_context\<close> can answer.
  The reports of focus and of the open agent are the controller's (\<open>Controller\<close>), and the background task's session
  is in \<open>SessionStore\<close>.
\<close>

datatype read_stage = AsksConsent | ReadsContext

record context_read =
  cr_controller :: nat
  cr_share :: bool
  cr_current :: bool
  cr_stage :: read_stage

datatype sync_stage = AsksGrant | StartsUpdates | AsksStarted | StopsUpdates

record location_sync =
  ls_share :: bool
  ls_stage :: sync_stage

datatype background_report = LoadsPreferences | ReadsInBackground bool | PutsReport device_context

record sharing =
  sh_prefs :: preferences_provider
  sh_controller :: "nat option"
  sh_active :: bool
  sh_ran :: "(nat option \<times> bool \<times> bool) option"
  sh_reads :: "(nat \<times> context_read) list"
  sh_syncs :: "(nat \<times> location_sync) list"
  sh_background :: "(nat \<times> background_report) list"
  sh_switching :: nat
  sh_updates :: bool
  sh_next :: nat

datatype sharing_event =
  PreferencesHear preferences_event
| ControllerIs "nat option"
| AppIsActive bool
| SwitchesSharing bool
| SharingGranted bool
| SharingFails
| ConsentAnswers nat bool
| ContextAnswers nat "device_context option"
| GrantAnswers nat "bool option"
| StartAnswers nat bool
| StartedAnswers nat "bool option"
| StopAnswers nat bool
| TaskWakes
| StoredAnswers nat
| BackgroundAnswers nat device_context
| PutAnswers nat
| BackgroundFails nat

datatype sharing_out =
  ReportsContext nat device_context
| PutsContext device_context
| AsksSettings

type_synonym sharing_result = "sharing \<times> sharing_out list"

definition shares :: "sharing \<Rightarrow> bool" where
  "shares s \<longleftrightarrow> pf_share_location (pp_shown (sh_prefs s))"

definition open_sharing :: "stored_text \<Rightarrow> sharing" where
  "open_sharing stored =
     \<lparr>sh_prefs = open_preferences stored, sh_controller = None, sh_active = True, sh_ran = None, sh_reads = [],
      sh_syncs = [], sh_background = [], sh_switching = 0, sh_updates = False, sh_next = 0\<rparr>"

definition without :: "nat \<Rightarrow> (nat \<times> 'a) list \<Rightarrow> (nat \<times> 'a) list" where
  "without i ts = filter (\<lambda>(j, t). j \<noteq> i) ts"

definition replaced :: "nat \<Rightarrow> 'a \<Rightarrow> (nat \<times> 'a) list \<Rightarrow> (nat \<times> 'a) list" where
  "replaced i t ts = map (\<lambda>(j, u). (j, if j = i then t else u)) ts"

subsection \<open>The background location task\<close>

definition start_sync :: "bool \<Rightarrow> sharing \<Rightarrow> sharing" where
  "start_sync share s =
     s\<lparr>sh_syncs := sh_syncs s @ [(sh_next s, \<lparr>ls_share = share, ls_stage = AsksGrant\<rparr>)], sh_next := Suc (sh_next s)\<rparr>"

definition sync_goes_on :: "nat \<Rightarrow> location_sync \<Rightarrow> sync_stage \<Rightarrow> sharing \<Rightarrow> sharing" where
  "sync_goes_on i l stage s = s\<lparr>sh_syncs := replaced i (l\<lparr>ls_stage := stage\<rparr>) (sh_syncs s)\<rparr>"

definition sync_ends :: "nat \<Rightarrow> sharing \<Rightarrow> sharing" where
  "sync_ends i s = s\<lparr>sh_syncs := without i (sh_syncs s)\<rparr>"

definition grant_answers :: "nat \<Rightarrow> bool option \<Rightarrow> location_sync \<Rightarrow> sharing \<Rightarrow> sharing" where
  "grant_answers i granted l s =
     (case granted of
        None \<Rightarrow> sync_ends i s
      | Some g \<Rightarrow> sync_goes_on i l (if ls_share l \<and> g then StartsUpdates else AsksStarted) s)"

definition started_answers :: "nat \<Rightarrow> bool option \<Rightarrow> location_sync \<Rightarrow> sharing \<Rightarrow> sharing" where
  "started_answers i started l s = (if started = Some True then sync_goes_on i l StopsUpdates s else sync_ends i s)"

subsection \<open>The foreground's read\<close>

text \<open>\<open>read\<close> once the consent is settled: the task is synchronised beside it, and the context is read.\<close>

definition start_reading :: "nat \<Rightarrow> context_read \<Rightarrow> sharing \<Rightarrow> sharing" where
  "start_reading i r s = start_sync (cr_share r) (s\<lparr>sh_reads := replaced i (r\<lparr>cr_stage := ReadsContext\<rparr>) (sh_reads s)\<rparr>)"

definition abandon_reads :: "sharing \<Rightarrow> sharing" where
  "abandon_reads s = s\<lparr>sh_reads := map (\<lambda>(i, r). (i, r\<lparr>cr_current := False\<rparr>)) (sh_reads s)\<rparr>"

definition start_read :: "nat \<Rightarrow> sharing \<Rightarrow> sharing" where
  "start_read c s =
     (let r = \<lparr>cr_controller = c, cr_share = shares s, cr_current = True, cr_stage = AsksConsent\<rparr>;
          s' = s\<lparr>sh_reads := sh_reads s @ [(sh_next s, r)], sh_next := Suc (sh_next s)\<rparr>
      in if shares s then s' else start_reading (sh_next s) r s')"

text \<open>The effect, with its dependencies and its cleanup.\<close>

definition sharing_deps :: "sharing \<Rightarrow> nat option \<times> bool \<times> bool" where
  "sharing_deps s = (sh_controller s, sh_active s, shares s)"

definition sharing_effect :: "sharing \<Rightarrow> sharing" where
  "sharing_effect s =
     (if sh_ran s = Some (sharing_deps s) then s
      else let s' = (abandon_reads s)\<lparr>sh_ran := Some (sharing_deps s)\<rparr>
           in case sh_controller s of
                None \<Rightarrow> s'
              | Some c \<Rightarrow> if sh_active s then start_read c s' else s')"

definition consent_answers :: "nat \<Rightarrow> bool \<Rightarrow> sharing \<Rightarrow> sharing" where
  "consent_answers i ok s =
     (case map_of (sh_reads s) i of
        None \<Rightarrow> s
      | Some r \<Rightarrow> if ok then start_reading i r s else s\<lparr>sh_reads := without i (sh_reads s)\<rparr>)"

definition context_answers :: "nat \<Rightarrow> device_context option \<Rightarrow> sharing \<Rightarrow> sharing_result" where
  "context_answers i answer s =
     (case map_of (sh_reads s) i of
        None \<Rightarrow> (s, [])
      | Some r \<Rightarrow>
          (s\<lparr>sh_reads := without i (sh_reads s)\<rparr>,
           case answer of None \<Rightarrow> [] | Some x \<Rightarrow> if cr_current r then [ReportsContext (cr_controller r) x] else []))"

subsection \<open>The report of the background task\<close>

definition stored_answers :: "nat \<Rightarrow> sharing \<Rightarrow> sharing" where
  "stored_answers i s =
     s\<lparr>sh_background := replaced i (ReadsInBackground (pf_share_location (read_stored_preferences (pp_stored (sh_prefs s)))))
         (sh_background s)\<rparr>"

definition background_answers :: "nat \<Rightarrow> device_context \<Rightarrow> sharing \<Rightarrow> sharing_result" where
  "background_answers i x s =
     (if dc_timezone x = None \<and> dc_position x = None then (s\<lparr>sh_background := without i (sh_background s)\<rparr>, [])
      else (s\<lparr>sh_background := replaced i (PutsReport x) (sh_background s)\<rparr>, [PutsContext x]))"

subsection \<open>The switch\<close>

definition set_sharing :: "bool \<Rightarrow> sharing \<Rightarrow> sharing" where
  "set_sharing on s = s\<lparr>sh_prefs := update_preferences (pf_share_location_update (\<lambda>_. on)) (sh_prefs s)\<rparr>"

definition switches_sharing :: "bool \<Rightarrow> sharing \<Rightarrow> sharing" where
  "switches_sharing on s = (if on then s\<lparr>sh_switching := Suc (sh_switching s)\<rparr> else set_sharing False s)"

definition sharing_granted :: "bool \<Rightarrow> sharing \<Rightarrow> sharing_result" where
  "sharing_granted granted s =
     (let s = s\<lparr>sh_switching := sh_switching s - 1\<rparr> in if granted then (set_sharing True s, []) else (s, [AsksSettings]))"

definition at_sync :: "nat \<Rightarrow> (location_sync \<Rightarrow> sharing \<Rightarrow> sharing) \<Rightarrow> sharing \<Rightarrow> sharing" where
  "at_sync i f s = (case map_of (sh_syncs s) i of None \<Rightarrow> s | Some l \<Rightarrow> f l s)"

fun sharing_handles :: "sharing \<Rightarrow> sharing_event \<Rightarrow> sharing_result" where
  "sharing_handles s (PreferencesHear e) = (s\<lparr>sh_prefs := fst (preferences_step (sh_prefs s) e)\<rparr>, [])"
| "sharing_handles s (ControllerIs c) = (s\<lparr>sh_controller := c\<rparr>, [])"
| "sharing_handles s (AppIsActive b) = (s\<lparr>sh_active := b\<rparr>, [])"
| "sharing_handles s (SwitchesSharing on) = (switches_sharing on s, [])"
| "sharing_handles s (SharingGranted granted) = sharing_granted granted s"
| "sharing_handles s SharingFails = (s\<lparr>sh_switching := sh_switching s - 1\<rparr>, [])"
| "sharing_handles s (ConsentAnswers i ok) = (consent_answers i ok s, [])"
| "sharing_handles s (ContextAnswers i answer) = context_answers i answer s"
| "sharing_handles s (GrantAnswers i granted) = (at_sync i (grant_answers i granted) s, [])"
| "sharing_handles s (StartAnswers i ok) = (sync_ends i (s\<lparr>sh_updates := ok \<or> sh_updates s\<rparr>), [])"
| "sharing_handles s (StartedAnswers i started) = (at_sync i (started_answers i started) s, [])"
| "sharing_handles s (StopAnswers i ok) = (sync_ends i (s\<lparr>sh_updates := \<not> ok \<and> sh_updates s\<rparr>), [])"
| "sharing_handles s TaskWakes =
     (s\<lparr>sh_background := sh_background s @ [(sh_next s, LoadsPreferences)], sh_next := Suc (sh_next s)\<rparr>, [])"
| "sharing_handles s (StoredAnswers i) = (stored_answers i s, [])"
| "sharing_handles s (BackgroundAnswers i x) = background_answers i x s"
| "sharing_handles s (PutAnswers i) = (s\<lparr>sh_background := without i (sh_background s)\<rparr>, [])"
| "sharing_handles s (BackgroundFails i) = (s\<lparr>sh_background := without i (sh_background s)\<rparr>, [])"

definition sharing_step :: "sharing \<Rightarrow> sharing_event \<Rightarrow> sharing_result" where
  "sharing_step s e = (let (s', os) = sharing_handles s e in (sharing_effect s', os))"

text \<open>What a read can answer: the position is null just when the read was not to share it.\<close>

definition answers_for :: "bool \<Rightarrow> device_context \<Rightarrow> bool" where
  "answers_for share x \<longleftrightarrow> (dc_position x = Some None \<longleftrightarrow> \<not> share)"

definition at_stage :: "sharing \<Rightarrow> nat \<Rightarrow> sync_stage \<Rightarrow> bool" where
  "at_stage s i stage \<longleftrightarrow> (case map_of (sh_syncs s) i of None \<Rightarrow> False | Some l \<Rightarrow> ls_stage l = stage)"

fun sharing_enabled :: "sharing \<Rightarrow> sharing_event \<Rightarrow> bool" where
  "sharing_enabled s (PreferencesHear e) = preferences_enabled (sh_prefs s) e"
| "sharing_enabled s (SharingGranted granted) = (0 < sh_switching s)"
| "sharing_enabled s SharingFails = (0 < sh_switching s)"
| "sharing_enabled s (ConsentAnswers i ok) =
     (case map_of (sh_reads s) i of None \<Rightarrow> False | Some r \<Rightarrow> cr_stage r = AsksConsent)"
| "sharing_enabled s (ContextAnswers i answer) =
     (case map_of (sh_reads s) i of
        None \<Rightarrow> False
      | Some r \<Rightarrow> cr_stage r = ReadsContext \<and> (case answer of None \<Rightarrow> True | Some x \<Rightarrow> answers_for (cr_share r) x))"
| "sharing_enabled s (GrantAnswers i granted) = at_stage s i AsksGrant"
| "sharing_enabled s (StartAnswers i ok) = at_stage s i StartsUpdates"
| "sharing_enabled s (StartedAnswers i started) =
     (at_stage s i AsksStarted \<and> (case started of None \<Rightarrow> True | Some b \<Rightarrow> b = sh_updates s))"
| "sharing_enabled s (StopAnswers i ok) = at_stage s i StopsUpdates"
| "sharing_enabled s (StoredAnswers i) = (map_of (sh_background s) i = Some LoadsPreferences)"
| "sharing_enabled s (BackgroundAnswers i x) =
     (case map_of (sh_background s) i of Some (ReadsInBackground share) \<Rightarrow> answers_for share x | _ \<Rightarrow> False)"
| "sharing_enabled s (PutAnswers i) =
     (case map_of (sh_background s) i of Some (PutsReport x) \<Rightarrow> True | _ \<Rightarrow> False)"
| "sharing_enabled s (BackgroundFails i) = (map_of (sh_background s) i \<noteq> None)"
| "sharing_enabled s e = True"

lemma readers_answer: "answers_for share (fst (read_device_context zone_at os share mode w))"
  by (auto simp: answers_for_def read_device_context_def Let_def split_beta split: option.split prod.split)

subsection \<open>What the foreground reports\<close>

lemma set_without: "set (without i ts) = {x \<in> set ts. fst x \<noteq> i}"
  by (auto simp: without_def)

lemma set_replaced: "x \<in> set (replaced i t ts) \<Longrightarrow> x \<in> set ts \<or> x = (i, t)"
  by (auto simp: replaced_def split: if_splits)

text \<open>A read that is current was started for what the effect depends on now.\<close>

definition read_current :: "(nat option \<times> bool \<times> bool) option \<Rightarrow> context_read \<Rightarrow> bool" where
  "read_current was r \<longleftrightarrow> (cr_current r \<longrightarrow> was = Some (Some (cr_controller r), True, cr_share r))"

definition reads_current :: "sharing \<Rightarrow> bool" where
  "reads_current s \<longleftrightarrow> (\<forall>(i, r) \<in> set (sh_reads s). read_current (sh_ran s) r)"

definition sharing_inv :: "sharing \<Rightarrow> bool" where
  "sharing_inv s \<longleftrightarrow> reads_current s \<and> sh_ran s \<in> {None, Some (sharing_deps s)}"

lemma reads_currentD: "reads_current s \<Longrightarrow> map_of (sh_reads s) i = Some r \<Longrightarrow> read_current (sh_ran s) r"
  by (auto simp: reads_current_def dest: map_of_SomeD)

lemma reads_current_same: "reads_current s \<Longrightarrow> sh_reads s' = sh_reads s \<Longrightarrow> sh_ran s' = sh_ran s \<Longrightarrow> reads_current s'"
  by (simp add: reads_current_def)

lemma reads_current_without: "reads_current s \<Longrightarrow> reads_current (s\<lparr>sh_reads := without i (sh_reads s)\<rparr>)"
  by (auto simp: reads_current_def set_without)

lemma reads_current_reading:
  assumes "reads_current s" "read_current (sh_ran s) r"
  shows "reads_current (start_reading i r s)"
proof -
  have "read_current (sh_ran s) (r\<lparr>cr_stage := ReadsContext\<rparr>)" using assms(2) by (simp add: read_current_def)
  with assms(1) show ?thesis
    by (auto simp: reads_current_def start_reading_def start_sync_def dest!: set_replaced)
qed

lemma reads_current_handles:
  assumes "reads_current s"
  shows "reads_current (fst (sharing_handles s e))"
proof (cases e)
  case (ConsentAnswers i ok)
  with assms reads_currentD [OF assms, of i] show ?thesis
    by (simp add: consent_answers_def reads_current_reading reads_current_without split: option.split)
next
  case (ContextAnswers i answer)
  with assms show ?thesis by (simp add: context_answers_def reads_current_without split: option.split)
qed (use assms in \<open>auto simp: switches_sharing_def sharing_granted_def set_sharing_def at_sync_def grant_answers_def
      started_answers_def sync_goes_on_def sync_ends_def stored_answers_def background_answers_def Let_def
      intro: reads_current_same split: option.split\<close>)

lemma handles_ran: "sh_ran (fst (sharing_handles s e)) = sh_ran s"
  by (cases e) (auto simp: switches_sharing_def sharing_granted_def set_sharing_def at_sync_def grant_answers_def consent_answers_def
      context_answers_def start_reading_def start_sync_def started_answers_def sync_goes_on_def sync_ends_def stored_answers_def
      background_answers_def Let_def split: option.split)

lemma effect_ran: "sh_ran (sharing_effect s) = Some (sharing_deps s)" "sharing_deps (sharing_effect s) = sharing_deps s"
  by (auto simp: sharing_effect_def start_read_def start_reading_def start_sync_def abandon_reads_def sharing_deps_def shares_def
      Let_def split: option.split)

lemma reads_current_start_read:
  assumes "reads_current s" "sh_ran s = Some (Some c, True, shares s)"
  shows "reads_current (start_read c s)"
proof -
  obtain r where r_def: "r = \<lparr>cr_controller = c, cr_share = shares s, cr_current = True, cr_stage = AsksConsent\<rparr>" by simp
  obtain t where t_def: "t = s\<lparr>sh_reads := sh_reads s @ [(sh_next s, r)], sh_next := Suc (sh_next s)\<rparr>" by simp
  have r: "read_current (sh_ran t) r" using assms(2) by (simp add: read_current_def r_def t_def)
  then have t: "reads_current t" using assms(1) by (auto simp: reads_current_def t_def)
  have "start_read c s = (if shares s then t else start_reading (sh_next s) r t)"
    by (simp add: start_read_def r_def t_def Let_def)
  then show ?thesis using t reads_current_reading [OF t r] by simp
qed

lemma effect_current:
  assumes "reads_current s"
  shows "reads_current (sharing_effect s)"
proof (cases "sh_ran s = Some (sharing_deps s)")
  case False
  let ?s = "(abandon_reads s)\<lparr>sh_ran := Some (sharing_deps s)\<rparr>"
  have none: "reads_current ?s" by (auto simp: reads_current_def abandon_reads_def read_current_def)
  have "reads_current (start_read c ?s)" if "sh_controller s = Some c" "sh_active s" for c
    by (rule reads_current_start_read [OF none]) (use that in \<open>simp add: sharing_deps_def shares_def abandon_reads_def\<close>)
  then show ?thesis using none False by (simp add: sharing_effect_def Let_def split: option.split)
qed (use assms in \<open>simp add: sharing_effect_def\<close>)

lemma sharing_inv_step: "sharing_inv s \<Longrightarrow> sharing_inv (fst (sharing_step s e))"
  using effect_current [OF reads_current_handles [of s e]] effect_ran [of "fst (sharing_handles s e)"]
  by (simp add: sharing_inv_def sharing_step_def split_beta Let_def)

interpretation sharing_machine: machine sharing_step sharing_enabled sharing_inv
  by unfold_locales (rule sharing_inv_step)

text \<open>C17: The foreground's reports follow the switch: a context that goes out on the live connection while
  the app is open goes to the gateway the app is connected to now, and retracts the position just when the
  switch is off now, whatever changed while the context was read. The reports of the background task, which go by
  a request of their own, are outside the claim (\<open>background_report_outlives_the_switch\<close>).\<close>

theorem report_follows_the_switch:
  assumes "legal_events sharing_step sharing_enabled (open_sharing stored) es"
    "s = fst (run_events sharing_step (open_sharing stored) es)" "sharing_enabled s e"
    "ReportsContext c x \<in> set (snd (sharing_step s e))"
  shows "sh_active s \<and> sh_controller s = Some c \<and> (dc_position x = Some None \<longleftrightarrow> \<not> shares s)"
proof -
  have "sharing_inv (open_sharing stored)" by (simp add: sharing_inv_def reads_current_def open_sharing_def)
  then have inv: "sharing_inv s" unfolding assms(2) by (rule sharing_machine.run_inv [OF _ assms(1)])
  have "ReportsContext c x \<in> set (snd (sharing_handles s e))" using assms(4) by (simp add: sharing_step_def split_beta Let_def)
  then obtain i r where e: "e = ContextAnswers i (Some x)" "map_of (sh_reads s) i = Some r" "cr_current r" "c = cr_controller r"
    by (cases e) (auto simp: context_answers_def sharing_granted_def background_answers_def Let_def split: option.splits if_splits)
  moreover have "answers_for (cr_share r) x" using assms(3) e by simp
  moreover have "read_current (sh_ran s) r" using inv e(2) by (auto simp: sharing_inv_def dest: reads_currentD)
  ultimately show ?thesis using inv
    by (auto simp: sharing_inv_def read_current_def sharing_deps_def answers_for_def)
qed

definition retraction :: device_context where
  "retraction = \<lparr>dc_timezone = None, dc_position = Some None\<rparr>"

definition switch_off :: "sharing_event list" where
  "switch_off = [ControllerIs (Some 7), SwitchesSharing False]"

lemma report_follows_the_switch_witness:
  "\<not> shares (fst (run_events sharing_step (open_sharing NoText) switch_off))"
proof -
  have "legal_events sharing_step sharing_enabled (open_sharing NoText) switch_off"
    "sharing_enabled (fst (run_events sharing_step (open_sharing NoText) switch_off)) (ContextAnswers 1 (Some retraction))"
    "ReportsContext 7 retraction \<in> set (snd (sharing_step (fst (run_events sharing_step (open_sharing NoText) switch_off))
       (ContextAnswers 1 (Some retraction))))" "dc_position retraction = Some None"
    by code_simp+
  with report_follows_the_switch [OF this(1) refl this(2,3)] show ?thesis by blast
qed

text \<open>The effect does not wait for the stored preferences: a phone whose user turned sharing off can report where it is
  when the app opens, and takes it back once they are read.\<close>

definition somewhere :: device_context where
  "somewhere = \<lparr>dc_timezone = None,
     dc_position = Some (Some \<lparr>dp_latitude = 1, dp_longitude = 2, dp_accuracy = None, dp_place = None\<rparr>)\<rparr>"

definition stored_off :: stored_text where
  "stored_off = StoredText (Some (json_of_preferences private_preferences))"

lemma position_before_preferences_load:
  "legal_events sharing_step sharing_enabled (open_sharing stored_off)
     [ControllerIs (Some 7), ConsentAnswers 0 True, ContextAnswers 0 (Some somewhere), PreferencesHear (LoadAnswers True),
      ContextAnswers 2 (Some retraction)]"
  "snd (run_events sharing_step (open_sharing stored_off)
     [ControllerIs (Some 7), ConsentAnswers 0 True, ContextAnswers 0 (Some somewhere), PreferencesHear (LoadAnswers True),
      ContextAnswers 2 (Some retraction)])
   = [ReportsContext 7 somewhere, ReportsContext 7 retraction]"
  by code_simp+

text \<open>A report of the background task that read the switch before it was turned off is sent after the foreground took
  the position back.\<close>

definition background_overlap :: "sharing_event list" where
  "background_overlap =
     [ControllerIs (Some 7), TaskWakes, StoredAnswers 1, SwitchesSharing False, ContextAnswers 2 (Some retraction),
      BackgroundAnswers 1 somewhere]"

lemma background_report_outlives_the_switch:
  "legal_events sharing_step sharing_enabled (open_sharing NoText) background_overlap"
  "snd (run_events sharing_step (open_sharing NoText) background_overlap) = [ReportsContext 7 retraction, PutsContext somewhere]"
  "\<not> shares (fst (run_events sharing_step (open_sharing NoText) background_overlap))"
  by code_simp+

text \<open>Two synchronisations are not kept apart: one that was asked to start the task ends after the one that was asked
  to stop it, and the task runs on with sharing off.\<close>

definition sync_overlap :: "sharing_event list" where
  "sync_overlap =
     [ControllerIs (Some 7), ConsentAnswers 0 True, GrantAnswers 1 (Some True), SwitchesSharing False,
      GrantAnswers 3 (Some True), StartedAnswers 3 (Some False), StartAnswers 1 True]"

lemma late_sync_leaves_updates_running:
  "legal_events sharing_step sharing_enabled (open_sharing NoText) sync_overlap"
  "sh_updates (fst (run_events sharing_step (open_sharing NoText) sync_overlap))"
  "\<not> shares (fst (run_events sharing_step (open_sharing NoText) sync_overlap))"
  "sh_syncs (fst (run_events sharing_step (open_sharing NoText) sync_overlap)) = []"
  by code_simp+

end
