(* ===== verification/LogSession.thy ===== *)
theory LogSession
  imports Api
begin

section \<open>An agent's log viewer
  (apps/web/src/lib/log-session.ts, log-stream-policy.ts, log-window.ts, apps/web/src/api/logs.ts)\<close>

text \<open>
  The one owner of an agent's log stream in the web app, as an event machine over the stream the
  app's \<open>streamLogs\<close> opens.  A pending reconnect timer is a number: the variable \<open>reconnectTimer\<close>
  names the last one that was set, and one that is overwritten stays pending.  The two timers of the
  opening fill are pending exactly while their variables are set.  A stream event is a line, the
  stopped event or the end of the response, a failure of the transport, which is the last event of its
  stream, or a line of the log that starts with \<open>error:\<close>, which readSse reports as an error and reads
  on.  \<open>renderLine\<close> is the parameter \<open>render\<close>.
\<close>

subsection \<open>The policy (log-stream-policy.ts)\<close>

datatype log_event = LogLine string | LogEnd | LogError string

datatype log_action = AppendLine string | StreamStopped | Reconnect

fun log_stream_action :: "log_event \<Rightarrow> log_action" where
  "log_stream_action (LogLine t) = AppendLine t"
| "log_stream_action LogEnd = StreamStopped"
| "log_stream_action (LogError message) = Reconnect"

definition container_down_statuses :: "agent_status set" where
  "container_down_statuses = {Stopped, Dead, NotFound}"

definition is_agent_container_up :: "agent_status \<Rightarrow> bool" where
  "is_agent_container_up status \<longleftrightarrow> status \<notin> container_down_statuses"

definition log_scrollback_lines :: nat where "log_scrollback_lines = 5000"

definition replay_tail_lines :: "bool \<Rightarrow> nat" where
  "replay_tail_lines replay = (if replay then log_scrollback_lines else 0)"

subsection \<open>The session (log-session.ts)\<close>

definition log_reconnect_base :: nat where "log_reconnect_base = 1000"
definition log_reconnect_max :: nat where "log_reconnect_max = 30000"
definition fill_quiesce_ms :: nat where "fill_quiesce_ms = 150"
definition fill_max_ms :: nat where "fill_max_ms = 1500"

datatype log_stream_state = LogsLive | LogsStopped | LogsReconnecting

type_synonym log_row = "nat \<times> string"

record log_session =
  lg_lines :: "log_row list"
  lg_stream_state :: log_stream_state
  lg_listeners :: "nat list"
  lg_started :: bool
  lg_disposed :: bool
  lg_next_id :: nat
  lg_delay :: nat
  lg_timer :: "nat option"
  lg_prev_status :: "agent_status option"
  lg_filling :: bool
  lg_buffer :: "log_row list"
  lg_quiesce :: bool
  lg_cap :: bool
  lg_pending :: "nat set"
  lg_timers :: nat
  lg_source :: "nat option"
  lg_alive :: bool
  lg_sources :: nat

datatype log_session_event =
  LogStart
| LogStatus agent_status
| LogSubscribe nat
| LogUnsubscribe nat
| LogDispose
| LineArrives string
| ErrorLineArrives string
| StreamEnds
| StreamDrops
| QuiesceFires
| CapFires
| ReconnectFires nat

datatype log_out =
  CallListener nat
| OpenStream nat string
| CancelStream nat
| StartReconnect nat nat
| ClearReconnect nat
| StartQuiesce nat
| StartCap nat
| ClearFill

type_synonym log_result = "log_session \<times> log_out list"

definition create_log_session :: log_session where
  "create_log_session =
     \<lparr>lg_lines = [], lg_stream_state = LogsLive, lg_listeners = [], lg_started = False, lg_disposed = False,
      lg_next_id = 0, lg_delay = log_reconnect_base, lg_timer = None, lg_prev_status = None, lg_filling = False,
      lg_buffer = [], lg_quiesce = False, lg_cap = False, lg_pending = {}, lg_timers = 0, lg_source = None,
      lg_alive = False, lg_sources = 0\<rparr>"

definition log_publish :: "log_session \<Rightarrow> log_result" where
  "log_publish s = (s, map CallListener (lg_listeners s))"

definition clear_fill_timers :: "log_session \<Rightarrow> log_result" where
  "clear_fill_timers s =
     (s\<lparr>lg_quiesce := False, lg_cap := False\<rparr>, if lg_quiesce s \<or> lg_cap s then [ClearFill] else [])"

definition capped :: "log_row list \<Rightarrow> log_row list" where
  "capped ls =
     (if length ls > log_scrollback_lines then drop (length ls - log_scrollback_lines) ls else ls)"

definition flush_buffer :: "log_session \<Rightarrow> log_result" where
  "flush_buffer s =
     (if \<not> lg_filling s then (s, [])
      else chain (clear_fill_timers (s\<lparr>lg_filling := False\<rparr>))
             (\<lambda>s. log_publish (s\<lparr>lg_buffer := [], lg_lines := capped (lg_buffer s)\<rparr>)))"

definition append_line :: "(string \<Rightarrow> string) \<Rightarrow> string \<Rightarrow> log_session \<Rightarrow> log_result" where
  "append_line render t s =
     (let line = (lg_next_id s, render t);
          s = s\<lparr>lg_delay := log_reconnect_base, lg_next_id := Suc (lg_next_id s)\<rparr>
      in if lg_filling s
         then (s\<lparr>lg_buffer := lg_buffer s @ [line], lg_quiesce := True, lg_cap := True\<rparr>,
               [StartQuiesce fill_quiesce_ms] @ (if lg_cap s then [] else [StartCap fill_max_ms]))
         else log_publish (s\<lparr>lg_lines := capped (lg_lines s @ [line])\<rparr>))"

text \<open>\<open>streamLogs\<close> (api/logs.ts): the stream held for the agent is cancelled, the new one takes its place.\<close>

definition stream_logs :: "(jsnum \<Rightarrow> string) \<Rightarrow> string \<Rightarrow> bool \<Rightarrow> log_session \<Rightarrow> log_result" where
  "stream_logs show_num name replay s =
     (let n = lg_sources s
      in (s\<lparr>lg_source := Some n, lg_alive := True, lg_sources := Suc n\<rparr>,
          (case lg_source s of None \<Rightarrow> [] | Some old \<Rightarrow> [CancelStream old]) @
          [OpenStream n (agent_logs_path show_num name (Some (of_nat (replay_tail_lines replay))))]))"

definition stop_logs :: "log_session \<Rightarrow> log_result" where
  "stop_logs s =
     (case lg_source s of
        None \<Rightarrow> (s, [])
      | Some n \<Rightarrow> (s\<lparr>lg_source := None, lg_alive := False\<rparr>, [CancelStream n]))"

definition connect_logs :: "(jsnum \<Rightarrow> string) \<Rightarrow> string \<Rightarrow> bool \<Rightarrow> log_session \<Rightarrow> log_result" where
  "connect_logs show_num name replay s =
     (if lg_disposed s then (s, [])
      else chain (log_publish (s\<lparr>lg_stream_state := LogsLive\<rparr>))
             (\<lambda>s. chain (clear_fill_timers (s\<lparr>lg_filling := replay, lg_buffer := []\<rparr>))
               (stream_logs show_num name replay)))"

definition on_log_event :: "(string \<Rightarrow> string) \<Rightarrow> log_event \<Rightarrow> log_session \<Rightarrow> log_result" where
  "on_log_event render event s =
     (case log_stream_action event of
        AppendLine t \<Rightarrow> append_line render t s
      | StreamStopped \<Rightarrow> chain (flush_buffer s) (\<lambda>s. log_publish (s\<lparr>lg_stream_state := LogsStopped\<rparr>))
      | Reconnect \<Rightarrow>
          chain (chain (flush_buffer s) (\<lambda>s. log_publish (s\<lparr>lg_stream_state := LogsReconnecting\<rparr>)))
            (\<lambda>s. if lg_disposed s then (s, [])
                 else let n = lg_timers s
                      in (s\<lparr>lg_timer := Some n, lg_pending := insert n (lg_pending s), lg_timers := Suc n\<rparr>,
                          [StartReconnect n (lg_delay s)])))"

definition clear_reconnect :: "log_session \<Rightarrow> log_result" where
  "clear_reconnect s =
     (case lg_timer s of
        None \<Rightarrow> (s, [])
      | Some n \<Rightarrow> (s\<lparr>lg_pending := lg_pending s - {n}\<rparr>, [ClearReconnect n]))"

definition set_log_status :: "(jsnum \<Rightarrow> string) \<Rightarrow> string \<Rightarrow> agent_status \<Rightarrow> log_session \<Rightarrow> log_result" where
  "set_log_status show_num name status s =
     (let prev = lg_prev_status s; s = s\<lparr>lg_prev_status := Some status\<rparr>
      in if \<not> lg_started s \<or> prev = None \<or> prev = Some status then (s, [])
         else if lg_stream_state s = LogsLive \<or> \<not> is_agent_container_up status then (s, [])
         else chain (clear_reconnect (s\<lparr>lg_next_id := 0, lg_delay := log_reconnect_base\<rparr>))
                (\<lambda>s. chain (log_publish (s\<lparr>lg_lines := []\<rparr>)) (connect_logs show_num name True)))"

definition dispose_logs :: "log_session \<Rightarrow> log_result" where
  "dispose_logs s = chain (clear_reconnect (s\<lparr>lg_disposed := True\<rparr>)) (\<lambda>s. chain (clear_fill_timers s) stop_logs)"

fun log_step :: "(jsnum \<Rightarrow> string) \<Rightarrow> (string \<Rightarrow> string) \<Rightarrow> string \<Rightarrow> log_session \<Rightarrow> log_session_event \<Rightarrow> log_result" where
  "log_step show_num render name s LogStart =
     (if lg_started s \<or> lg_disposed s then (s, []) else connect_logs show_num name True (s\<lparr>lg_started := True\<rparr>))"
| "log_step show_num render name s (LogStatus status) = set_log_status show_num name status s"
| "log_step show_num render name s (LogSubscribe l) =
     (if l \<in> set (lg_listeners s) then s else s\<lparr>lg_listeners := lg_listeners s @ [l]\<rparr>, [])"
| "log_step show_num render name s (LogUnsubscribe l) = (s\<lparr>lg_listeners := filter (\<lambda>x. x \<noteq> l) (lg_listeners s)\<rparr>, [])"
| "log_step show_num render name s LogDispose = dispose_logs s"
| "log_step show_num render name s (LineArrives t) = on_log_event render (LogLine t) s"
| "log_step show_num render name s (ErrorLineArrives t) = on_log_event render (LogError t) s"
| "log_step show_num render name s StreamEnds =
     chain (on_log_event render LogEnd s) (\<lambda>s. (s\<lparr>lg_source := None, lg_alive := False\<rparr>, []))"
| "log_step show_num render name s StreamDrops =
     on_log_event render (LogError disconnected) (s\<lparr>lg_alive := False\<rparr>)"
| "log_step show_num render name s QuiesceFires = flush_buffer s"
| "log_step show_num render name s CapFires = flush_buffer s"
| "log_step show_num render name s (ReconnectFires n) =
     connect_logs show_num name False
       (s\<lparr>lg_pending := lg_pending s - {n}, lg_delay := min (lg_delay s * 2) log_reconnect_max\<rparr>)"

fun log_enabled :: "log_session \<Rightarrow> log_session_event \<Rightarrow> bool" where
  "log_enabled s (LineArrives t) \<longleftrightarrow> lg_alive s"
| "log_enabled s (ErrorLineArrives t) \<longleftrightarrow> lg_alive s"
| "log_enabled s StreamEnds \<longleftrightarrow> lg_alive s"
| "log_enabled s StreamDrops \<longleftrightarrow> lg_alive s"
| "log_enabled s QuiesceFires \<longleftrightarrow> lg_quiesce s"
| "log_enabled s CapFires \<longleftrightarrow> lg_cap s"
| "log_enabled s (ReconnectFires n) \<longleftrightarrow> n \<in> lg_pending s"
| "log_enabled s e \<longleftrightarrow> True"

subsection \<open>The window (log-window.ts)\<close>

definition base_window_lines :: int where "base_window_lines = 300"
definition window_step_lines :: int where "window_step_lines = 300"
definition load_older_screens :: jsnum where "load_older_screens = 3"
definition at_bottom_threshold_px :: jsnum where "at_bottom_threshold_px = 80"

record window_metrics =
  wm_scroll_top :: jsnum
  wm_scroll_height :: jsnum
  wm_client_height :: jsnum

definition distance_from_end :: "window_metrics \<Rightarrow> jsnum" where
  "distance_from_end m = wm_scroll_height m - wm_scroll_top m - wm_client_height m"

definition is_at_bottom :: "window_metrics \<Rightarrow> bool" where
  "is_at_bottom m \<longleftrightarrow> distance_from_end m \<le> at_bottom_threshold_px"

definition should_grow :: "window_metrics \<Rightarrow> bool \<Rightarrow> bool" where
  "should_grow m has_hidden \<longleftrightarrow> has_hidden \<and> wm_scroll_top m < wm_client_height m * load_older_screens"

definition grown_window :: "int \<Rightarrow> int \<Rightarrow> int" where
  "grown_window visible total_count = min total_count (visible + window_step_lines)"

lemma grown_window_bounds:
  "visible \<le> total_count \<Longrightarrow> visible \<le> grown_window visible total_count \<and> grown_window visible total_count \<le> total_count"
  by (simp add: grown_window_def window_step_lines_def)

subsection \<open>Handlers\<close>

lemma capped_last_n: "capped ls = last_n log_scrollback_lines ls"
  by (simp add: capped_def last_n_def)

lemma publish_simps [simp]: "fst (log_publish s) = s" "OpenStream n p \<notin> set (snd (log_publish s))"
  by (auto simp: log_publish_def)

lemma clear_fill_simps [simp]:
  "fst (clear_fill_timers s) = s\<lparr>lg_quiesce := False, lg_cap := False\<rparr>"
  "OpenStream n p \<notin> set (snd (clear_fill_timers s))"
  by (auto simp: clear_fill_timers_def)

lemma flush_simps:
  "fst (flush_buffer s) =
     (if lg_filling s
      then s\<lparr>lg_filling := False, lg_quiesce := False, lg_cap := False, lg_buffer := [], lg_lines := capped (lg_buffer s)\<rparr>
      else s)"
  "OpenStream n p \<notin> set (snd (flush_buffer s))"
  by (auto simp: flush_buffer_def)

lemma append_simps:
  "fst (append_line render t s) =
     (let line = (lg_next_id s, render t); s' = s\<lparr>lg_delay := log_reconnect_base, lg_next_id := Suc (lg_next_id s)\<rparr>
      in if lg_filling s then s'\<lparr>lg_buffer := lg_buffer s @ [line], lg_quiesce := True, lg_cap := True\<rparr>
         else s'\<lparr>lg_lines := capped (lg_lines s @ [line])\<rparr>)"
  "OpenStream n p \<notin> set (snd (append_line render t s))"
  by (auto simp: append_line_def Let_def log_publish_def)

lemma stream_simps [simp]:
  "fst (stream_logs show_num name replay s) =
     s\<lparr>lg_source := Some (lg_sources s), lg_alive := True, lg_sources := Suc (lg_sources s)\<rparr>"
  by (simp add: stream_logs_def Let_def)

lemma clear_reconnect_simps [simp]:
  "fst (clear_reconnect s) = (case lg_timer s of None \<Rightarrow> s | Some n \<Rightarrow> s\<lparr>lg_pending := lg_pending s - {n}\<rparr>)"
  "OpenStream n p \<notin> set (snd (clear_reconnect s))"
  by (auto simp: clear_reconnect_def split: option.split)

lemma stop_simps [simp]:
  "fst (stop_logs s) = (if lg_source s = None then s else s\<lparr>lg_source := None, lg_alive := False\<rparr>)"
  "OpenStream n p \<notin> set (snd (stop_logs s))"
  by (auto simp: stop_logs_def split: option.split)

lemma connect_simps:
  "fst (connect_logs show_num name replay s) =
     (if lg_disposed s then s
      else s\<lparr>lg_stream_state := LogsLive, lg_filling := replay, lg_buffer := [], lg_quiesce := False, lg_cap := False,
             lg_source := Some (lg_sources s), lg_alive := True, lg_sources := Suc (lg_sources s)\<rparr>)"
  by (simp add: connect_logs_def)

lemma connect_opens:
  "(\<exists>n p. OpenStream n p \<in> set (snd (connect_logs show_num name replay s))) \<longleftrightarrow> \<not> lg_disposed s"
  by (auto simp: connect_logs_def stream_logs_def Let_def)

lemma event_simps:
  "fst (on_log_event render (LogLine t) s) = fst (append_line render t s)"
  "fst (on_log_event render LogEnd s) = (fst (flush_buffer s))\<lparr>lg_stream_state := LogsStopped\<rparr>"
  "fst (on_log_event render (LogError m) s) =
     (let s = (fst (flush_buffer s))\<lparr>lg_stream_state := LogsReconnecting\<rparr>
      in if lg_disposed s then s
         else s\<lparr>lg_timer := Some (lg_timers s), lg_pending := insert (lg_timers s) (lg_pending s),
               lg_timers := Suc (lg_timers s)\<rparr>)"
  by (simp_all add: on_log_event_def Let_def)

lemmas log_simps = flush_simps append_simps connect_simps event_simps Let_def set_log_status_def dispose_logs_def

subsection \<open>The session's invariant\<close>

definition rows_ok :: "log_session \<Rightarrow> bool" where
  "rows_ok s \<longleftrightarrow>
     sorted_wrt (<) (map fst (lg_lines s)) \<and> sorted_wrt (<) (map fst (lg_buffer s)) \<and>
     (\<forall>r \<in> set (lg_lines s) \<union> set (lg_buffer s). fst r < lg_next_id s) \<and>
     length (lg_lines s) \<le> log_scrollback_lines \<and>
     (lg_filling s \<longrightarrow> lg_lines s = [] \<and> lg_stream_state s = LogsLive) \<and> (\<not> lg_filling s \<longrightarrow> lg_buffer s = [])"

definition retry_ok :: "log_session \<Rightarrow> bool" where
  "retry_ok s \<longleftrightarrow>
     log_reconnect_base \<le> lg_delay s \<and> lg_delay s \<le> log_reconnect_max \<and>
     (lg_stream_state s = LogsReconnecting \<longrightarrow> \<not> lg_disposed s \<longrightarrow> (\<exists>n. lg_timer s = Some n \<and> n \<in> lg_pending s))"

definition start_ok :: "log_session \<Rightarrow> bool" where
  "start_ok s \<longleftrightarrow> lg_started s \<or> \<not> lg_alive s \<and> lg_pending s = {} \<and> lg_lines s = [] \<and> \<not> lg_filling s"

definition log_inv :: "log_session \<Rightarrow> bool" where
  "log_inv s \<longleftrightarrow> rows_ok s \<and> retry_ok s \<and> start_ok s"

lemma sorted_snoc: "sorted_wrt (<) (map fst ls) \<Longrightarrow> \<forall>r \<in> set ls. fst r < n \<Longrightarrow> sorted_wrt (<) (map fst (ls @ [(n :: nat, x)]))"
  by (auto simp: sorted_wrt_append)

lemma capped_facts:
  "sorted_wrt (<) (map fst ls) \<Longrightarrow> sorted_wrt (<) (map fst (capped ls))"
  "set (capped ls) \<subseteq> set ls" "length (capped ls) \<le> log_scrollback_lines"
  using set_last_n [of log_scrollback_lines ls]
  by (simp_all add: capped_last_n sorted_wrt_map sorted_wrt_last_n)

lemma rows_flush: "rows_ok s \<Longrightarrow> rows_ok (fst (flush_buffer s))"
  using capped_facts [of "lg_buffer s"] by (auto simp: rows_ok_def flush_simps)

lemma rows_append: "rows_ok s \<Longrightarrow> rows_ok (fst (append_line render t s))"
  using capped_facts [of "lg_lines s @ [(lg_next_id s, render t)]"] sorted_snoc [of "lg_lines s" "lg_next_id s" "render t"]
    sorted_snoc [of "lg_buffer s" "lg_next_id s" "render t"]
  unfolding rows_ok_def append_simps Let_def by (fastforce simp: less_Suc_eq split: if_splits)

lemma rows_state: "rows_ok s \<Longrightarrow> \<not> lg_filling s \<Longrightarrow> rows_ok (s\<lparr>lg_stream_state := x\<rparr>)"
  by (simp add: rows_ok_def)

lemma flush_not_filling [simp]: "\<not> lg_filling (fst (flush_buffer s))"
  by (simp add: flush_simps)

lemma rows_irrelevant [simp]:
  "rows_ok (s\<lparr>lg_timer := a\<rparr>) = rows_ok s" "rows_ok (s\<lparr>lg_pending := b\<rparr>) = rows_ok s"
  "rows_ok (s\<lparr>lg_timers := c\<rparr>) = rows_ok s" "rows_ok (s\<lparr>lg_alive := d\<rparr>) = rows_ok s"
  "rows_ok (s\<lparr>lg_source := e\<rparr>) = rows_ok s" "rows_ok (s\<lparr>lg_sources := n\<rparr>) = rows_ok s"
  "rows_ok (s\<lparr>lg_delay := n\<rparr>) = rows_ok s" "rows_ok (s\<lparr>lg_started := d\<rparr>) = rows_ok s"
  "rows_ok (s\<lparr>lg_disposed := d\<rparr>) = rows_ok s" "rows_ok (s\<lparr>lg_prev_status := p\<rparr>) = rows_ok s"
  "rows_ok (s\<lparr>lg_quiesce := d\<rparr>) = rows_ok s" "rows_ok (s\<lparr>lg_cap := d\<rparr>) = rows_ok s"
  "rows_ok (s\<lparr>lg_listeners := ls\<rparr>) = rows_ok s"
  by (simp_all add: rows_ok_def)

lemma rows_live_connect:
  "rows_ok s \<Longrightarrow> lg_lines s = [] \<Longrightarrow> rows_ok (fst (connect_logs show_num name True s))"
  by (auto simp: rows_ok_def connect_simps)

lemma rows_reconnect: "rows_ok s \<Longrightarrow> rows_ok (fst (connect_logs show_num name False s))"
  by (auto simp: rows_ok_def connect_simps)

lemma rows_step:
  assumes "rows_ok s" "lg_started s \<or> lg_lines s = []"
  shows "rows_ok (fst (log_step show_num render name s e))"
proof (cases e)
  case LogStart
  with assms show ?thesis by (auto intro!: rows_live_connect)
next
  case (LogStatus status)
  have "rows_ok (s\<lparr>lg_next_id := 0, lg_lines := []\<rparr>)" if "lg_stream_state s \<noteq> LogsLive"
    using assms that by (auto simp: rows_ok_def)
  then have "rows_ok (s\<lparr>lg_prev_status := p, lg_next_id := 0, lg_delay := d, lg_lines := []\<rparr>)" if "lg_stream_state s \<noteq> LogsLive" for p d
    using that by (simp add: rows_ok_def)
  then show ?thesis
    using assms LogStatus
    by (auto simp: set_log_status_def Let_def intro!: rows_live_connect split: option.split)
       (auto simp: rows_ok_def)
next
  case LogDispose
  with assms show ?thesis by (auto simp: dispose_logs_def split: option.split)
next
  case (LineArrives t)
  with assms show ?thesis by (simp add: event_simps rows_append)
next
  case (ErrorLineArrives t)
  with assms show ?thesis by (simp add: event_simps Let_def rows_flush rows_state)
next
  case StreamEnds
  with assms show ?thesis by (simp add: event_simps rows_flush rows_state)
next
  case StreamDrops
  have "rows_ok (s\<lparr>lg_alive := False\<rparr>)" using assms by simp
  then show ?thesis using StreamDrops by (simp add: event_simps Let_def rows_flush rows_state)
next
  case (ReconnectFires n)
  with assms show ?thesis by (simp add: rows_reconnect)
qed (use assms in \<open>simp_all add: rows_flush\<close>)

lemma start_step:
  assumes "start_ok s" "log_enabled s e"
  shows "start_ok (fst (log_step show_num render name s e))"
proof (cases "lg_started s")
  case True
  then show ?thesis
    by (cases e) (auto simp: start_ok_def log_simps split: option.split)
next
  case False
  with assms show ?thesis
    by (cases e) (auto simp: start_ok_def log_simps split: option.split)
qed

lemma retry_step:
  assumes "retry_ok s"
  shows "retry_ok (fst (log_step show_num render name s e))"
  using assms
  by (cases e) (auto simp: retry_ok_def log_simps log_reconnect_base_def log_reconnect_max_def split: option.split)

interpretation lg: machine "log_step show_num render name" log_enabled log_inv
proof unfold_locales
  fix s e
  assume "log_inv s" "log_enabled s e"
  then show "log_inv (fst (log_step show_num render name s e))"
    using rows_step [of s show_num render name e] retry_step start_step
    by (auto simp: log_inv_def start_ok_def)
qed

lemma fresh_log_inv: "log_inv create_log_session"
  by (simp add: log_inv_def rows_ok_def retry_ok_def start_ok_def create_log_session_def log_reconnect_base_def
      log_reconnect_max_def)

text \<open>In every run of the viewer the rows shown are at most the scrollback, each with a key of its own in
  the order of arrival, and a viewer that shows the stream as reconnecting has a retry coming, after a
  wait between one and thirty seconds.\<close>

theorem reconnecting_viewer_retries:
  assumes "legal_events (log_step show_num render name) log_enabled create_log_session es"
  shows "(let s = fst (run_events (log_step show_num render name) create_log_session es)
          in sorted_wrt (<) (map fst (lg_lines s)) \<and> length (lg_lines s) \<le> 5000 \<and>
             1000 \<le> lg_delay s \<and> lg_delay s \<le> 30000 \<and>
             (lg_stream_state s = LogsReconnecting \<and> \<not> lg_disposed s \<longrightarrow> (\<exists>n. n \<in> lg_pending s)))"
proof -
  from lg.run_inv [OF fresh_log_inv assms]
  have "log_inv (fst (run_events (log_step show_num render name) create_log_session es))" .
  then show ?thesis
    by (auto simp: Let_def log_inv_def rows_ok_def retry_ok_def log_scrollback_lines_def log_reconnect_base_def
        log_reconnect_max_def)
qed

subsection \<open>What is shown is what arrived\<close>

text \<open>The lines since the last stream that was asked to replay its tail.\<close>

fun received :: "(log_session \<Rightarrow> log_session_event \<Rightarrow> log_result) \<Rightarrow> log_session \<Rightarrow> string list \<Rightarrow> log_session_event list \<Rightarrow> string list" where
  "received step s got [] = got"
| "received step s got (e # es) =
     (let s' = fst (step s e)
      in received step s'
           (if lg_sources s' \<noteq> lg_sources s \<and> lg_filling s' then []
            else case e of LineArrives t \<Rightarrow> got @ [t] | _ \<Rightarrow> got) es)"

fun is_error_line :: "log_session_event \<Rightarrow> bool" where
  "is_error_line (ErrorLineArrives t) = True"
| "is_error_line e = False"

definition shows_tail :: "(string \<Rightarrow> string) \<Rightarrow> log_session \<Rightarrow> string list \<Rightarrow> bool" where
  "shows_tail render s got \<longleftrightarrow>
     (if lg_filling s then map snd (lg_buffer s) = map render got
      else map snd (lg_lines s) = last_n log_scrollback_lines (map render got))"

definition one_retry :: "log_session \<Rightarrow> bool" where
  "one_retry s \<longleftrightarrow>
     (\<forall>n \<in> lg_pending s. lg_timer s = Some n \<and> lg_stream_state s = LogsReconnecting \<and> \<not> lg_alive s)"

definition log_view_ok :: "(string \<Rightarrow> string) \<Rightarrow> log_session \<Rightarrow> string list \<Rightarrow> bool" where
  "log_view_ok render s got \<longleftrightarrow> lg_disposed s \<or> shows_tail render s got \<and> one_retry s"

lemma last_n_rev: "last_n n xs = rev (take n (rev xs))"
  by (simp add: last_n_def take_rev)

lemma last_n_snoc: "0 < n \<Longrightarrow> last_n n (last_n n xs @ [x]) = last_n n (xs @ [x])"
  by (cases n) (simp_all add: last_n_rev)

lemma map_last_n: "map f (last_n n xs) = last_n n (map f xs)"
  by (simp add: last_n_def drop_map)

lemma shows_flush: "shows_tail render s got \<Longrightarrow> shows_tail render (fst (flush_buffer s)) got"
  by (simp add: shows_tail_def flush_simps capped_last_n map_last_n)

lemma shows_append: "shows_tail render s got \<Longrightarrow> shows_tail render (fst (append_line render t s)) (got @ [t])"
  by (simp add: shows_tail_def append_simps Let_def capped_last_n map_last_n last_n_snoc log_scrollback_lines_def)

lemma view_step:
  assumes "log_view_ok render s got" "log_inv s" "log_enabled s e" "\<not> is_error_line e"
  shows "log_view_ok render (fst (log_step show_num render name s e))
    (let s' = fst (log_step show_num render name s e)
     in if lg_sources s' \<noteq> lg_sources s \<and> lg_filling s' then [] else case e of LineArrives t \<Rightarrow> got @ [t] | _ \<Rightarrow> got)"
proof (cases "lg_disposed s")
  case True
  then show ?thesis by (cases e) (simp_all add: log_view_ok_def log_simps split: option.split)
next
  case False
  with assms(1) have v: "shows_tail render s got" and r: "one_retry s" by (simp_all add: log_view_ok_def)
  from assms(2) have rows: "rows_ok s" and started: "start_ok s" by (simp_all add: log_inv_def)
  show ?thesis
  proof (cases e)
    case LogStart
    with v r started False show ?thesis
      by (auto simp: log_view_ok_def connect_simps shows_tail_def one_retry_def start_ok_def Let_def)
  next
    case (LogStatus status)
    have "\<not> lg_filling s" if "lg_stream_state s \<noteq> LogsLive" using rows that by (auto simp: rows_ok_def)
    with LogStatus v r False show ?thesis
      by (auto simp: log_view_ok_def set_log_status_def connect_simps shows_tail_def one_retry_def Let_def split: option.split)
  next
    case (LineArrives t)
    have "lg_sources (fst (append_line render t s)) = lg_sources s" "lg_pending (fst (append_line render t s)) = lg_pending s"
      "lg_alive (fst (append_line render t s)) = lg_alive s"
      by (simp_all add: append_simps Let_def)
    with LineArrives shows_append [OF v] r assms(3) show ?thesis
      by (auto simp: log_view_ok_def event_simps one_retry_def)
  next
    case StreamEnds
    with shows_flush [OF v] r assms(3) show ?thesis
      by (auto simp: log_view_ok_def event_simps one_retry_def shows_tail_def flush_simps)
  next
    case StreamDrops
    with v r assms(3) show ?thesis
      by (auto simp: log_view_ok_def event_simps one_retry_def shows_tail_def flush_simps Let_def capped_last_n map_last_n)
  next
    case (ReconnectFires n)
    with assms(3) have n: "n \<in> lg_pending s" by simp
    with r have "lg_timer s = Some n" "lg_stream_state s = LogsReconnecting" by (simp_all add: one_retry_def)
    moreover from this r have "m = n" if "m \<in> lg_pending s" for m using that by (auto simp: one_retry_def)
    ultimately have "lg_pending s = {n}" "lg_stream_state s = LogsReconnecting" using n by blast+
    moreover from this rows have "\<not> lg_filling s" by (auto simp: rows_ok_def)
    ultimately show ?thesis
      using ReconnectFires v by (auto simp: log_view_ok_def connect_simps shows_tail_def one_retry_def Let_def)
  next
    case QuiesceFires
    with shows_flush [OF v] r show ?thesis by (simp add: log_view_ok_def one_retry_def flush_simps split: if_splits)
  next
    case CapFires
    with shows_flush [OF v] r show ?thesis by (simp add: log_view_ok_def one_retry_def flush_simps split: if_splits)
  qed (use assms v r in \<open>simp_all add: log_view_ok_def shows_tail_def one_retry_def dispose_logs_def split: option.split\<close>)
qed

lemma view_run:
  assumes "log_view_ok render s got" "log_inv s" "legal_events (log_step show_num render name) log_enabled s es"
    "\<not> list_ex is_error_line es"
  shows "log_view_ok render (fst (run_events (log_step show_num render name) s es))
    (received (log_step show_num render name) s got es)"
  using assms
proof (induction es arbitrary: s got)
  case (Cons e es)
  from Cons.prems have e: "log_enabled s e" "\<not> is_error_line e" by auto
  from view_step [OF Cons.prems(1,2) e] lg.step_inv [OF Cons.prems(2) e(1)] Cons show ?case
    by (simp add: Let_def)
qed simp

text \<open>C33: As long as no line of the log itself reads as an error, the viewer shows just what arrived since the
  last stream that replayed its tail: the latest five thousand lines, in order, across every dropped
  stream; while the tail is still coming, the buffer holds all of it.  And a viewer that is stopped has no
  retry pending.\<close>

theorem viewer_shows_what_arrived:
  assumes "legal_events (log_step show_num render name) log_enabled create_log_session es"
    "\<not> list_ex is_error_line es"
    "s = fst (run_events (log_step show_num render name) create_log_session es)" "\<not> lg_disposed s"
    "got = map render (received (log_step show_num render name) create_log_session [] es)"
  shows "(if lg_filling s then map snd (lg_buffer s) = got else map snd (lg_lines s) = last_n 5000 got) \<and>
    (lg_stream_state s = LogsStopped \<longrightarrow> lg_pending s = {})"
proof -
  have "log_view_ok render create_log_session []"
    by (simp add: log_view_ok_def shows_tail_def one_retry_def create_log_session_def)
  from view_run [OF this fresh_log_inv assms(1,2)] assms(3-5) show ?thesis
    by (auto simp: log_view_ok_def shows_tail_def one_retry_def log_scrollback_lines_def)
qed

lemmas log_eval = create_log_session_def log_publish_def clear_fill_timers_def capped_def flush_buffer_def append_line_def
  stream_logs_def stop_logs_def connect_logs_def on_log_event_def clear_reconnect_def set_log_status_def dispose_logs_def
  chain_def Let_def is_agent_container_up_def container_down_statuses_def log_scrollback_lines_def

definition dropped_once :: "log_session_event list" where
  "dropped_once = [LogStart, LineArrives ''a'', StreamDrops, ReconnectFires 0]"

lemma viewer_shows_what_arrived_witness:
  "\<exists>s. s = fst (run_events (log_step (\<lambda>n. ''0'') id ''a'') create_log_session dropped_once) \<and>
     map snd (lg_lines s) = last_n 5000 [''a'']"
proof -
  let ?step = "log_step (\<lambda>n. ''0'') id ''a''"
  let ?s = "fst (run_events ?step create_log_session dropped_once)"
  have l: "legal_events ?step log_enabled create_log_session dropped_once" by (simp add: dropped_once_def log_eval)
  have e: "\<not> list_ex is_error_line dropped_once" by (simp add: dropped_once_def log_eval)
  have d: "\<not> lg_disposed ?s" by (simp add: dropped_once_def log_eval)
  have f: "\<not> lg_filling ?s" by (simp add: dropped_once_def log_eval)
  have g: "received ?step create_log_session [] dropped_once = [''a'']" by (simp add: dropped_once_def log_eval)
  from viewer_shows_what_arrived [OF l e refl d refl] f g show ?thesis by simp
qed

subsection \<open>A line that reads as an error\<close>

text \<open>A log line that starts with \<open>error:\<close> sets a retry although its stream reads on.  When the agent then
  stops, the retry dials a stopped agent.\<close>

lemma error_line_redials_a_stopped_agent:
  "let es = [LogStart, ErrorLineArrives ''error: x'', StreamEnds]; step = log_step (\<lambda>n. ''0'') id ''a'';
       s = fst (run_events step create_log_session es)
   in legal_events step log_enabled create_log_session (es @ [ReconnectFires 0]) \<and>
      lg_stream_state s = LogsStopped \<and>
      lg_stream_state (fst (step s (ReconnectFires 0))) = LogsLive \<and>
      OpenStream 1 (agent_logs_path (\<lambda>n. ''0'') ''a'' (Some 0)) \<in> set (snd (step s (ReconnectFires 0)))"
  by (simp add: log_eval replay_tail_lines_def)

text \<open>Two such lines set two retries, and the variable keeps the second: when the status resumes the stream,
  the first retry is still pending, and it empties the buffer that holds the tail.\<close>

lemma stray_retry_loses_the_tail:
  "let es = [LogStart, LogStatus Alive, ErrorLineArrives ''error: x'', ErrorLineArrives ''error: y'', LogStatus Restarting,
             LineArrives ''tail'', ReconnectFires 0];
       step = log_step (\<lambda>n. ''0'') id ''a''; s = fst (run_events step create_log_session es)
   in legal_events step log_enabled create_log_session es \<and> lg_lines s = [] \<and> lg_buffer s = []"
  by (simp add: log_eval)

end
