(* ===== verification/NotificationContent.thy ===== *)
theory NotificationContent
  imports ParseChat
begin

section \<open>The words of a notification (notification-content/notification-content.ts)\<close>

text \<open>
  The stored summary of a notification is the \<open>\<langle>channel\<rangle>\<close> element that the agent renders
  (\<open>Notification.format_for_display\<close> in agent/core/notification.py): its attributes and body are
  taken apart and decoded here.  The cursor of the attribute scan is the rest of the text.  A
  code unit above 255, which a \<open>char\<close> cannot hold, is what the parameter \<open>wide\<close> says, and
  \<open>upper\<close> is \<open>toUpperCase\<close> of one character.
\<close>

subsection \<open>Decoding\<close>

text \<open>\<open>s.replaceAll(p, r)\<close> for a pattern that is not empty.\<close>

function replace_all :: "string \<Rightarrow> string \<Rightarrow> string \<Rightarrow> string" where
  "replace_all p r [] = []"
| "replace_all p r (c # s) =
     (if starts_with p (c # s) then r @ replace_all p r (drop (length p - 1) s) else c # replace_all p r s)"
  by pat_completeness auto
termination by (relation "measure (\<lambda>(p, r, s). length s)") auto

definition is_digit :: "char \<Rightarrow> bool" where
  "is_digit c \<longleftrightarrow> c \<in> set ''0123456789''"

definition is_hex_digit :: "char \<Rightarrow> bool" where
  "is_hex_digit c \<longleftrightarrow> c \<in> set ''0123456789abcdefABCDEF''"

definition digit_value :: "char \<Rightarrow> nat" where
  "digit_value c =
     (let n = of_char c in if n < 58 then n - 48 else if n < 71 then n - 55 else n - 87)"

definition parse_int :: "nat \<Rightarrow> string \<Rightarrow> nat" where
  "parse_int base s = foldl (\<lambda>n c. n * base + digit_value c) 0 s"

text \<open>\<open>String.fromCodePoint\<close>.\<close>

definition from_code_point :: "(nat \<Rightarrow> string) \<Rightarrow> nat \<Rightarrow> string" where
  "from_code_point wide n = (if n < 256 then [char_of n] else wide n)"

text \<open>A character reference at the head of the text, after its \<open>&\<close>: the code point and the rest.\<close>

definition char_ref :: "string \<Rightarrow> (nat \<times> string) option" where
  "char_ref s =
     (let s1 = tl s; hex = (s1 \<noteq> [] \<and> (hd s1 = CHR ''x'' \<or> hd s1 = CHR ''X''));
          digits = (if hex then tl s1 else s1); ok = (if hex then is_hex_digit else is_digit);
          after = dropWhile ok digits
      in if starts_with ''#'' s \<and> takeWhile ok digits \<noteq> [] \<and> starts_with '';'' after
         then Some (parse_int (if hex then 16 else 10) (takeWhile ok digits), tl after)
         else None)"

lemma char_ref_length: "char_ref s = Some (n, rest) \<Longrightarrow> length rest \<le> length s"
proof -
  assume a: "char_ref s = Some (n, rest)"
  have "length (tl (dropWhile ok (tl (tl s)))) \<le> length s" "length (tl (dropWhile ok (tl s))) \<le> length s" for ok
    using length_dropWhile_le [of ok "tl (tl s)"] length_dropWhile_le [of ok "tl s"] by simp_all
  with a show ?thesis by (auto simp: char_ref_def Let_def split: if_splits)
qed

text \<open>The references; one that is no code point stays as it is written.\<close>

function decode_refs :: "(nat \<Rightarrow> string) \<Rightarrow> string \<Rightarrow> string" where
  "decode_refs wide [] = []"
| "decode_refs wide (c # s) =
     (case (if c = CHR ''&'' then char_ref s else None) of
        None \<Rightarrow> c # decode_refs wide s
      | Some (n, rest) \<Rightarrow>
          (if n \<le> 1114111 then from_code_point wide n else c # take (length s - length rest) s) @ decode_refs wide rest)"
  by pat_completeness auto
termination
  by (relation "measure (\<lambda>(wide, s). length s)") (auto dest: char_ref_length split: if_splits)

definition decode_xml :: "(nat \<Rightarrow> string) \<Rightarrow> string \<Rightarrow> string" where
  "decode_xml wide v =
     decode_refs wide (replace_all ''&amp;'' ''&'' (replace_all ''&apos;'' [CHR 0x27] (replace_all ''&quot;'' [CHR 0x22]
       (replace_all ''&gt;'' ''>'' (replace_all ''&lt;'' ''<'' v)))))"

subsection \<open>The attributes and the element\<close>

definition is_xml_space :: "char \<Rightarrow> bool" where
  "is_xml_space c \<longleftrightarrow> (of_char c :: nat) \<in> {32, 9, 10, 13, 12}"

definition is_key_start :: "char \<Rightarrow> bool" where
  "is_key_start c \<longleftrightarrow> (let n = of_char c :: nat in 65 \<le> n \<and> n \<le> 90 \<or> 97 \<le> n \<and> n \<le> 122 \<or> n = 95)"

definition is_key_char :: "char \<Rightarrow> bool" where
  "is_key_char c \<longleftrightarrow> is_key_start c \<or> (let n = of_char c :: nat in 48 \<le> n \<and> n \<le> 57 \<or> n = 46 \<or> n = 45)"

definition is_quote :: "char \<Rightarrow> bool" where
  "is_quote c \<longleftrightarrow> (of_char c :: nat) \<in> {34, 39}"

text \<open>An assignment to \<open>__proto__\<close> of an object literal sets no property.\<close>

definition set_attribute :: "string \<Rightarrow> string \<Rightarrow> (string \<rightharpoonup> string) \<Rightarrow> (string \<rightharpoonup> string)" where
  "set_attribute key v attributes = (if key = ''__proto__'' then attributes else attributes(key \<mapsto> v))"

lemma scan_lengths:
  assumes "s1 = dropWhile is_xml_space s" "s2 = dropWhile is_xml_space (dropWhile is_key_char s1)"
  shows "length s2 \<le> length s1" "length s1 \<le> length s"
  using assms length_dropWhile_le le_trans by blast+

function scan_attributes :: "(nat \<Rightarrow> string) \<Rightarrow> (string \<rightharpoonup> string) \<Rightarrow> string \<Rightarrow> (string \<rightharpoonup> string)" where
  "scan_attributes wide attributes s =
     (let s1 = dropWhile is_xml_space s
      in if s1 = [] then attributes
         else let key = takeWhile is_key_char s1; s2 = dropWhile is_xml_space (dropWhile is_key_char s1)
              in if s2 = [] \<or> hd s2 \<noteq> CHR ''=''
                 then scan_attributes wide attributes (if length s2 = length s1 then tl s2 else s2)
                 else let s3 = dropWhile is_xml_space (tl s2)
                      in if s3 = [] \<or> \<not> is_quote (hd s3) then scan_attributes wide attributes s3
                         else case index_of [hd s3] (tl s3) of
                                None \<Rightarrow> attributes
                              | Some i \<Rightarrow>
                                  scan_attributes wide
                                    (if key \<noteq> [] \<and> is_key_start (hd key)
                                     then set_attribute key (decode_xml wide (take i (tl s3))) attributes
                                     else attributes)
                                    (drop (Suc i) (tl s3)))"
  by pat_completeness auto
termination
proof (relation "measure (\<lambda>(wide, attributes, s). length s)", goal_cases)
  case 1
  then show ?case by simp
next
  case (2 wide attributes s s1 key s2)
  note l = scan_lengths [OF 2(1,4)]
  have "0 < length s1" using 2(2) by simp
  then have "length (if length s2 = length s1 then tl s2 else s2) < length s1" using l(1) by (simp del: length_0_conv)
  with l(2) show ?case by simp
next
  case (3 wide attributes s s1 key s2 s3)
  note l = scan_lengths [OF 3(1,4)]
  have "0 < length s2" using 3(5) by auto
  moreover have "length s3 \<le> length (tl s2)" using 3(6) length_dropWhile_le [of is_xml_space "tl s2"] by simp
  ultimately have "length s3 < length s2" unfolding length_tl by arith
  with l show ?case by simp
next
  case (4 wide attributes s s1 key s2 s3 i)
  note l = scan_lengths [OF 4(1,4)]
  have "0 < length s2" using 4(5) by auto
  moreover have "length s3 \<le> length (tl s2)" using 4(6) length_dropWhile_le [of is_xml_space "tl s2"] by simp
  moreover have "length (drop (Suc i) (tl s3)) \<le> length s3" unfolding length_tl length_drop by arith
  ultimately have "length (drop (Suc i) (tl s3)) < length s2" unfolding length_tl length_drop by arith
  with l show ?case by simp
qed

declare scan_attributes.simps [simp del]

definition parse_attributes :: "(nat \<Rightarrow> string) \<Rightarrow> string \<Rightarrow> (string \<rightharpoonup> string)" where
  "parse_attributes wide s = scan_attributes wide Map.empty s"

definition is_word_char :: "char \<Rightarrow> bool" where
  "is_word_char c \<longleftrightarrow> is_key_start c \<or> is_digit c"

text \<open>The regular expression: \<open>[^>]*\<close> ends at the first \<open>>\<close>, and the body is greedy to the end tag.\<close>

definition parse_channel :: "(nat \<Rightarrow> string) \<Rightarrow> string \<Rightarrow> ((string \<rightharpoonup> string) \<times> string) option" where
  "parse_channel wide summary =
     (let s = trim summary; s1 = drop 8 s; s2 = dropWhile (\<lambda>c. c \<noteq> CHR ''>'') s1
      in if \<not> starts_with ''<channel'' s \<or> (s1 \<noteq> [] \<and> is_word_char (hd s1)) \<or> s2 = [] \<or> \<not> ends_with ''</channel>'' (tl s2)
         then None
         else Some (parse_attributes wide (takeWhile (\<lambda>c. c \<noteq> CHR ''>'') s1),
                    trim (decode_xml wide (take (length (tl s2) - 10) (tl s2)))))"

subsection \<open>The content\<close>

record notification_content =
  nc_headline :: string
  nc_body :: "string option"
  nc_context :: "string option"

definition title_fields :: "string list" where "title_fields = [''subject'', ''title'']"
definition secondary_fields :: "string list" where "secondary_fields = [''preview'', ''reason'', ''description'']"
definition context_fields :: "string list" where
  "context_fields = [''channel_name'', ''chat_name'', ''server'', ''account'', ''folder'', ''location'', ''start_time'',
     ''minutes_until'', ''media_type'']"

definition trimmed :: "string option \<Rightarrow> string option" where
  "trimmed v = (case v of None \<Rightarrow> None | Some s \<Rightarrow> (if trim s = [] then None else Some (trim s)))"

fun take_first :: "(string \<rightharpoonup> string) \<Rightarrow> string list \<Rightarrow> string option" where
  "take_first fs [] = None"
| "take_first fs (k # ks) = (case trimmed (fs k) of Some v \<Rightarrow> Some v | None \<Rightarrow> take_first fs ks)"

definition humanize :: "(char \<Rightarrow> string) \<Rightarrow> string \<Rightarrow> string" where
  "humanize upper v =
     (let words = trim (replace_all ''_'' '' '' v)
      in if words \<noteq> [] then upper (hd words) @ tl words else ''Notification'')"

definition context_value :: "string \<Rightarrow> string \<Rightarrow> string" where
  "context_value key v =
     (if key = ''start_time'' then ''Starts '' @ v else if key = ''minutes_until'' then v @ '' min'' else v)"

definition notification_context :: "(string \<rightharpoonup> string) \<Rightarrow> string list" where
  "notification_context fs =
     concat (map (\<lambda>key. case trimmed (fs key) of None \<Rightarrow> [] | Some v \<Rightarrow> [context_value key v]) context_fields)"

definition parse_notification_content ::
  "(char \<Rightarrow> string) \<Rightarrow> (nat \<Rightarrow> string) \<Rightarrow> notification_fields \<Rightarrow> notification_content" where
  "parse_notification_content upper wide event =
     (case parse_channel wide (nf_summary event) of
        None \<Rightarrow>
          \<lparr>nc_headline = (if trim (nf_summary event) \<noteq> [] then trim (nf_summary event)
                          else humanize upper (nullish (nf_type event) ''notification'')),
           nc_body = None, nc_context = None\<rparr>
      | Some (attributes, body) \<Rightarrow>
          (let fs = attributes ++ map_of (rev (nullish (nf_fields event) []));
               title = take_first fs title_fields;
               secondary = (if body \<noteq> [] then Some body else take_first fs secondary_fields);
               context = notification_context fs
           in \<lparr>nc_headline =
                 (case title of Some t \<Rightarrow> t
                  | None \<Rightarrow> (case secondary of Some t \<Rightarrow> t
                    | None \<Rightarrow> humanize upper (nullish (nf_type event) (nullish (fs ''type'') ''notification'')))),
               nc_body = (if title \<noteq> None \<and> secondary \<noteq> None \<and> secondary \<noteq> title then secondary else None),
               nc_context = (if context \<noteq> [] then Some (join ([CHR '' ''] @ [CHR 0xB7] @ [CHR '' '']) context) else None)\<rparr>))"

text \<open>The identity of one arrival; \<open>\u0000\<close> separates its parts.\<close>

definition notification_row_key :: "string option \<Rightarrow> notification_fields \<Rightarrow> string" where
  "notification_row_key stamp event =
     (case nf_id event of
        Some i \<Rightarrow> ''id'' @ [CHR 0x00] @ i @ [CHR 0x00] @ nullish stamp []
      | None \<Rightarrow>
          (case stamp of
             Some t \<Rightarrow> ''ts'' @ [CHR 0x00] @ t
           | None \<Rightarrow> ''sig'' @ [CHR 0x00] @ nf_source event @ [CHR 0x00] @ nullish (nf_sender event) [] @
               [CHR 0x00] @ nf_summary event))"

subsection \<open>The element as the agent writes it (agent/core/notification.py)\<close>

text \<open>\<open>escape\<close> and \<open>quoteattr\<close> of Python's standard library, which the agent writes with.\<close>

definition escape_char :: "char \<Rightarrow> string" where
  "escape_char c =
     (if c = CHR ''&'' then ''&amp;'' else if c = CHR ''<'' then ''&lt;'' else if c = CHR ''>'' then ''&gt;'' else [c])"

definition xml_escape :: "string \<Rightarrow> string" where
  "xml_escape s = concat (map escape_char s)"

definition attr_char :: "bool \<Rightarrow> char \<Rightarrow> string" where
  "attr_char both c =
     (if c = CHR 0x0A then ''&#10;'' else if c = CHR 0x0D then ''&#13;'' else if c = CHR 0x09 then ''&#9;''
      else if both \<and> c = CHR 0x22 then ''&quot;'' else escape_char c)"

definition quoteattr :: "string \<Rightarrow> string" where
  "quoteattr s =
     (let dq = CHR 0x22 \<in> set s; sq = CHR 0x27 \<in> set s; q = (if dq \<and> \<not> sq then CHR 0x27 else CHR 0x22)
      in [q] @ concat (map (attr_char (dq \<and> sq)) s) @ [q])"

text \<open>The value of a field, as far as the writer looks at it: \<open>PyShown\<close> is any other value (a number, a list with items, a
  time without its microseconds) with the text \<open>str\<close> shows of it.  \<open>strip\<close> is Python's.\<close>

datatype py_value = PyNone | PyBool bool | PyStr string | PyEmptyList | PyShown string

fun rendered_value :: "py_value \<Rightarrow> string option" where
  "rendered_value PyNone = None"
| "rendered_value (PyBool b) = (if b then Some ''true'' else None)"
| "rendered_value (PyStr s) = (if s = [] then None else Some s)"
| "rendered_value PyEmptyList = None"
| "rendered_value (PyShown s) = Some s"

fun py_text :: "py_value \<Rightarrow> string" where
  "py_text (PyStr s) = s"
| "py_text _ = []"

definition content_fields :: "string list" where
  "content_fields = [''message'', ''text'', ''content'']"

definition content_field :: "(string \<Rightarrow> string) \<Rightarrow> (string \<times> py_value) list \<Rightarrow> string option" where
  "content_field strip data =
     List.find (\<lambda>k. case map_of data k of Some (PyStr v) \<Rightarrow> strip v \<noteq> [] | _ \<Rightarrow> False) content_fields"

text \<open>The fields that stay attributes, with the texts that are written for them.\<close>

definition attribute_fields :: "string option \<Rightarrow> (string \<times> py_value) list \<Rightarrow> (string \<times> string) list" where
  "attribute_fields chosen data =
     List.map_filter (\<lambda>(k, v). if Some k = chosen then None else map_option (Pair k) (rendered_value v)) data"

definition attribute :: "string \<times> string \<Rightarrow> string" where
  "attribute kv = fst kv @ ''='' @ quoteattr (snd kv)"

definition plain_attribute :: "string \<Rightarrow> string \<Rightarrow> string" where
  "plain_attribute k v = k @ ''='' @ [CHR 0x22] @ v @ [CHR 0x22]"

definition format_for_display ::
  "(string \<Rightarrow> string) \<Rightarrow> string \<Rightarrow> string \<Rightarrow> string option \<Rightarrow> string option \<Rightarrow> (string \<times> py_value) list \<Rightarrow> string" where
  "format_for_display strip source notif_type disposition body data =
     (let attrs = [plain_attribute ''source'' source, plain_attribute ''type'' notif_type] @
            (case disposition of None \<Rightarrow> [] | Some d \<Rightarrow> [plain_attribute ''disposition'' d])
      in case body of
           Some b \<Rightarrow> ''<channel '' @ join '' '' attrs @ ''>'' @ [CHR 0x0A] @ strip b @ [CHR 0x0A] @ ''</channel>''
         | None \<Rightarrow>
             (let chosen = content_field strip data;
                  content = (case chosen of None \<Rightarrow> [] | Some k \<Rightarrow> xml_escape (strip (py_text (the (map_of data k)))))
              in ''<channel '' @ join '' '' (attrs @ map attribute (attribute_fields chosen data)) @ ''>'' @ content @ ''</channel>''))"

subsection \<open>Decoding what was escaped\<close>

definition entity :: "string \<Rightarrow> bool" where
  "entity t \<longleftrightarrow> (\<exists>m. t = ''&'' @ m @ '';'' \<and> CHR ''&'' \<notin> set m \<and> CHR '';'' \<notin> set m)"

definition token :: "string \<Rightarrow> bool" where
  "token t \<longleftrightarrow> entity t \<or> (\<exists>c. t = [c] \<and> c \<noteq> CHR ''&'')"

definition sub :: "string \<Rightarrow> string \<Rightarrow> string \<Rightarrow> string" where
  "sub p r t = (if t = p then r else t)"

lemma replace_all_skip: "CHR ''&'' \<notin> set u \<Longrightarrow> entity p \<Longrightarrow> replace_all p r (u @ s) = u @ replace_all p r s"
  by (induction u) (auto simp: entity_def starts_with_def)

lemma entity_prefix:
  assumes "entity p" "entity t" "starts_with p (t @ s)"
  shows "t = p"
proof -
  obtain m n where m: "p = ''&'' @ m @ '';''" "CHR '';'' \<notin> set m" and n: "t = ''&'' @ n @ '';''" "CHR '';'' \<notin> set n"
    using assms(1,2) by (auto simp: entity_def)
  obtain r where "t @ s = p @ r" using starts_with_ex [OF assms(3)] by auto
  then have "n @ CHR '';'' # s = m @ CHR '';'' # r" using m n by simp
  then have "takeWhile (\<lambda>c. c \<noteq> CHR '';'') (n @ CHR '';'' # s) = takeWhile (\<lambda>c. c \<noteq> CHR '';'') (m @ CHR '';'' # r)"
    by (rule arg_cong)
  moreover have "takeWhile (\<lambda>c. c \<noteq> CHR '';'') (k @ CHR '';'' # u) = k" if "CHR '';'' \<notin> set k" for k u
    using that by (induction k) auto
  ultimately have "n = m" using m(2) n(2) by simp
  with m n show ?thesis by simp
qed

lemma replace_all_token:
  assumes "entity p" "token t"
  shows "replace_all p r (t @ s) = sub p r t @ replace_all p r s"
proof (cases "entity t")
  case False
  then obtain c where "t = [c]" "c \<noteq> CHR ''&''" using assms(2) by (auto simp: token_def)
  moreover then have "t \<noteq> p" using False assms(1) by auto
  ultimately show ?thesis using assms(1) by (auto simp: entity_def starts_with_def sub_def)
next
  case True
  then obtain m where m: "t = ''&'' @ m @ '';''" "CHR ''&'' \<notin> set m" by (auto simp: entity_def)
  show ?thesis
  proof (cases "t = p")
    case True
    with m have "starts_with p (CHR ''&'' # (m @ '';'') @ s)" by (metis append_Cons append_assoc self_append_conv2 starts_with_append)
    with m have "replace_all p r (t @ s) = r @ replace_all p r (drop (length p - 1) (m @ '';'' @ s))" by simp
    also have "drop (length p - 1) (m @ '';'' @ s) = s" using True m by auto
    finally show ?thesis using True by (simp add: sub_def)
  next
    case False
    then have "\<not> starts_with p (t @ s)" using entity_prefix [OF assms(1) True] by auto
    with False m replace_all_skip [OF _ assms(1), of "m @ '';''" r s] show ?thesis by (simp add: sub_def)
  qed
qed

lemma replace_all_tokens:
  "entity p \<Longrightarrow> list_all token ts \<Longrightarrow> replace_all p r (concat ts) = concat (map (sub p r) ts)"
  by (induction ts) (simp_all add: replace_all_token)

lemma token_sub: "token t \<Longrightarrow> r = [c] \<Longrightarrow> c \<noteq> CHR ''&'' \<Longrightarrow> token (sub p r t)"
  by (auto simp: sub_def token_def)

lemma entities:
  "entity ''&lt;''" "entity ''&gt;''" "entity ''&quot;''" "entity ''&apos;''" "entity ''&amp;''"
  "entity ''&#10;''" "entity ''&#13;''" "entity ''&#9;''"
proof -
  have e: "entity (CHR ''&'' # m @ '';'')" if "CHR ''&'' \<notin> set m" "CHR '';'' \<notin> set m" for m
    using that by (auto simp: entity_def)
  show "entity ''&lt;''" "entity ''&gt;''" "entity ''&quot;''" "entity ''&apos;''" "entity ''&amp;''"
    "entity ''&#10;''" "entity ''&#13;''" "entity ''&#9;''"
    using e [of "''lt''"] e [of "''gt''"] e [of "''quot''"] e [of "''apos''"] e [of "''amp''"] e [of "''#10''"] e [of "''#13''"] e [of "''#9''"]
    by simp_all
qed

lemma token_escape: "token (escape_char c)"
  using entities by (auto simp: escape_char_def token_def)

lemma token_attr: "token (attr_char both c)"
  using entities token_escape by (auto simp: attr_char_def token_def Let_def)

text \<open>What is left of a character when the named references are gone.\<close>

definition ref_char :: "bool \<Rightarrow> char \<Rightarrow> string" where
  "ref_char attr c =
     (if attr \<and> c = CHR 0x0A then ''&#10;'' else if attr \<and> c = CHR 0x0D then ''&#13;''
      else if attr \<and> c = CHR 0x09 then ''&#9;'' else [c])"

lemma decode_tokens:
  assumes "\<And>c. token (enc c)"
    and "\<And>c. sub ''&amp;'' ''&'' (sub ''&apos;'' [CHR 0x27] (sub ''&quot;'' [CHR 0x22] (sub ''&gt;'' ''>'' (sub ''&lt;'' ''<'' (enc c))))) = ref_char attr c"
  shows "decode_xml wide (concat (map enc s)) = decode_refs wide (concat (map (ref_char attr) s))"
proof -
  let ?f1 = "\<lambda>c. sub ''&lt;'' ''<'' (enc c)" and ?f2 = "\<lambda>c. sub ''&gt;'' ''>'' (sub ''&lt;'' ''<'' (enc c))"
  let ?f3 = "\<lambda>c. sub ''&quot;'' [CHR 0x22] (?f2 c)" and ?f4 = "\<lambda>c. sub ''&apos;'' [CHR 0x27] (sub ''&quot;'' [CHR 0x22] (?f2 c))"
  have t: "token (?f1 c)" "token (?f2 c)" "token (?f3 c)" "token (?f4 c)" for c
    using assms(1) by (auto intro!: token_sub)
  have step: "replace_all p r (concat (map f s)) = concat (map (\<lambda>c. sub p r (f c)) s)" if "entity p" "\<And>c. token (f c)" for p r f
    using replace_all_tokens [OF that(1), of "map f s" r] that(2) by (simp add: list_all_iff comp_def)
  show ?thesis
    unfolding decode_xml_def
    by (simp add: step [OF entities(1) assms(1)] step [OF entities(2) t(1)] step [OF entities(3) t(2)] step [OF entities(4) t(3)]
        step [OF entities(5) t(4)] assms(2))
qed

text \<open>A text that writes no character reference of its own.\<close>

definition no_ref :: "string \<Rightarrow> bool" where
  "no_ref s \<longleftrightarrow> index_of ''&#'' s = None"

lemma no_ref_Cons: "no_ref (c # s) \<Longrightarrow> no_ref s \<and> \<not> (c = CHR ''&'' \<and> starts_with ''#'' s)"
  by (cases s) (auto simp: no_ref_def starts_with_def split: if_splits)

lemma refs_head: "starts_with ''#'' (concat (map (ref_char attr) s)) \<Longrightarrow> starts_with ''#'' s"
  by (cases s) (auto simp: ref_char_def starts_with_def Let_def split: if_splits)

lemma char_ref_numbers:
  "char_ref (''#10;'' @ s) = Some (10, s)" "char_ref (''#13;'' @ s) = Some (13, s)" "char_ref (''#9;'' @ s) = Some (9, s)"
  by (simp_all add: char_ref_def is_digit_def starts_with_def parse_int_def digit_value_def Let_def)

lemma number_chars: "char_of (10 :: nat) = CHR 0x0A" "char_of (13 :: nat) = CHR 0x0D" "char_of (9 :: nat) = CHR 0x09"
proof -
  have "(10 :: nat) = of_char (CHR 0x0A)" "(13 :: nat) = of_char (CHR 0x0D)" "(9 :: nat) = of_char (CHR 0x09)" by simp_all
  then show "char_of (10 :: nat) = CHR 0x0A" "char_of (13 :: nat) = CHR 0x0D" "char_of (9 :: nat) = CHR 0x09"
    by (simp_all only: char_of_char)
qed

lemma decode_refs_number:
  assumes "char_ref (m @ s) = Some (n, s)" "n < 256"
  shows "decode_refs wide (CHR ''&'' # m @ s) = char_of n # decode_refs wide s"
  using assms by (simp add: from_code_point_def)

lemma decode_refs_text: "no_ref s \<Longrightarrow> decode_refs wide (concat (map (ref_char attr) s)) = s"
proof (induction s)
  case (Cons c s)
  from no_ref_Cons [OF Cons.prems] have s: "no_ref s" "\<not> (c = CHR ''&'' \<and> starts_with ''#'' s)" by auto
  have rest: "decode_refs wide (concat (map (ref_char attr) s)) = s" by (rule Cons.IH [OF s(1)])
  consider "ref_char attr c = ''&#10;''" "c = CHR 0x0A" | "ref_char attr c = ''&#13;''" "c = CHR 0x0D"
    | "ref_char attr c = ''&#9;''" "c = CHR 0x09" | "ref_char attr c = [c]"
    by (cases "c = CHR 0x0A"; cases "c = CHR 0x0D"; cases "c = CHR 0x09"; cases attr) (auto simp: ref_char_def)
  then show ?case
  proof cases
    case 1
    with decode_refs_number [of "''#10;''" _ 10 wide] char_ref_numbers(1) rest show ?thesis by (simp add: number_chars)
  next
    case 2
    with decode_refs_number [of "''#13;''" _ 13 wide] char_ref_numbers(2) rest show ?thesis by (simp add: number_chars)
  next
    case 3
    with decode_refs_number [of "''#9;''" _ 9 wide] char_ref_numbers(3) rest show ?thesis by (simp add: number_chars)
  next
    case 4
    have "c = CHR ''&'' \<Longrightarrow> char_ref (concat (map (ref_char attr) s)) = None"
      using s(2) refs_head [of attr s] by (auto simp: char_ref_def Let_def)
    with 4 rest show ?thesis by (simp add: number_chars)
  qed
qed simp

lemma decode_escape: "no_ref s \<Longrightarrow> decode_xml wide (xml_escape s) = s"
  unfolding xml_escape_def
proof (subst decode_tokens [where attr = False])
  show "sub ''&amp;'' ''&'' (sub ''&apos;'' [CHR 0x27] (sub ''&quot;'' [CHR 0x22] (sub ''&gt;'' ''>'' (sub ''&lt;'' ''<'' (escape_char c))))) =
      ref_char False c" for c
    by (auto simp: escape_char_def sub_def ref_char_def)
qed (auto simp: token_escape decode_refs_text)

lemma decode_attr: "no_ref s \<Longrightarrow> decode_xml wide (concat (map (attr_char both) s)) = s"
proof (subst decode_tokens [where attr = True])
  show "sub ''&amp;'' ''&'' (sub ''&apos;'' [CHR 0x27] (sub ''&quot;'' [CHR 0x22] (sub ''&gt;'' ''>'' (sub ''&lt;'' ''<'' (attr_char both c))))) =
      ref_char True c" for c
    by (auto simp: attr_char_def escape_char_def sub_def ref_char_def Let_def)
qed (auto simp: token_attr decode_refs_text)

text \<open>A quoted value: one quote, content without it, the quote again.\<close>

lemma attr_char_set: "x \<in> set (attr_char both c) \<Longrightarrow> x = c \<or> x \<in> set ''&#1039;ampltgquo''"
  by (auto simp: attr_char_def escape_char_def split: if_splits)

lemma attr_char_no_gt: "CHR ''>'' \<notin> set (attr_char both c)"
  by (auto simp: attr_char_def escape_char_def)

lemma attr_char_no_quote: "CHR 0x22 \<in> set (attr_char both c) \<longleftrightarrow> \<not> both \<and> c = CHR 0x22"
  by (auto simp: attr_char_def escape_char_def)

lemma attr_char_no_apostrophe: "CHR 0x27 \<in> set (attr_char both c) \<longleftrightarrow> c = CHR 0x27"
  by (auto simp: attr_char_def escape_char_def)

lemma quoteattr_shape:
  assumes "no_ref v"
  obtains q content where "quoteattr v = q # content @ [q]" "is_quote q" "q \<notin> set content"
    "CHR ''>'' \<notin> set (quoteattr v)" "decode_xml wide content = v"
proof -
  let ?dq = "CHR 0x22 \<in> set v" and ?sq = "CHR 0x27 \<in> set v"
  let ?q = "if ?dq \<and> \<not> ?sq then CHR 0x27 else CHR 0x22"
  let ?content = "concat (map (attr_char (?dq \<and> ?sq)) v)"
  have shape: "quoteattr v = ?q # ?content @ [?q]" by (simp add: quoteattr_def Let_def)
  have "is_quote ?q" by (simp add: is_quote_def)
  moreover have "?q \<notin> set ?content"
    by (auto simp: attr_char_no_quote attr_char_no_apostrophe)
  moreover have "CHR ''>'' \<notin> set (quoteattr v)" unfolding shape using attr_char_no_gt by auto
  ultimately show thesis using that [OF shape _ _ _ decode_attr [OF assms]] by blast
qed

lemma index_of_head: "c \<notin> set u \<Longrightarrow> index_of [c] (u @ c # s) = Some (length u)"
  by (induction u) (auto simp: starts_with_def)

subsection \<open>The attributes read back\<close>

definition key_ok :: "string \<Rightarrow> bool" where
  "key_ok k \<longleftrightarrow> k \<noteq> [] \<and> is_key_start (hd k) \<and> list_all is_key_char k \<and> k \<noteq> ''__proto__''"

lemma key_char_plain: "is_key_char c \<Longrightarrow> \<not> is_xml_space c \<and> c \<noteq> CHR ''='' \<and> c \<noteq> CHR ''>''"
  by (auto simp: is_key_char_def is_key_start_def is_xml_space_def Let_def)

lemma takeWhile_key:
  assumes "list_all P k" "\<not> P c"
  shows "takeWhile P (k @ c # s) = k" "dropWhile P (k @ c # s) = c # s"
  using assms by (induction k) auto

lemma scan_space: "scan_attributes wide acc (CHR '' '' # s) = scan_attributes wide acc s"
  by (subst (1 2) scan_attributes.simps) (simp add: is_xml_space_def)

lemma scan_attribute:
  assumes "key_ok k" "no_ref v"
  shows "scan_attributes wide acc (attribute (k, v) @ s) = scan_attributes wide (acc(k \<mapsto> v)) s"
proof -
  from quoteattr_shape [OF assms(2), of wide] obtain q content where q: "quoteattr v = q # content @ [q]" "is_quote q"
    "q \<notin> set content" "decode_xml wide content = v" by blast
  obtain c k' where k: "k = c # k'" using assms(1) by (cases k) (auto simp: key_ok_def)
  have kc: "list_all is_key_char k" "\<not> is_xml_space c" "is_key_start c" "k \<noteq> ''__proto__''"
    using assms(1) key_char_plain by (auto simp: key_ok_def k)
  have eq: "\<not> is_key_char (CHR ''='')" "\<not> is_xml_space (CHR ''='')"
    by (auto simp: is_key_char_def is_key_start_def is_xml_space_def)
  have nq: "\<not> is_xml_space q" using q(2) by (auto simp: is_quote_def is_xml_space_def)
  have written: "attribute (k, v) @ s = k @ CHR ''='' # q # content @ q # s" by (simp add: attribute_def q(1))
  let ?R = "q # content @ q # s"
  let ?X = "k @ CHR ''='' # ?R"
  have x: "dropWhile is_xml_space ?X = ?X" "?X \<noteq> []" using kc(2) by (simp_all add: k)
  note tw = takeWhile_key [OF kc(1) eq(1), of ?R]
  have e: "dropWhile is_xml_space (CHR ''='' # ?R) = CHR ''='' # ?R" "dropWhile is_xml_space ?R = ?R" "is_quote (hd ?R)"
    "k \<noteq> []" "is_key_start (hd k)" using eq(2) nq q(2) kc(3) by (simp_all add: k)
  have "scan_attributes wide acc ?X = scan_attributes wide (set_attribute k (decode_xml wide content) acc) s"
    unfolding scan_attributes.simps [of wide acc ?X] Let_def x(1) tw e(1) list.sel e(2) index_of_head [OF q(3)]
    using x(2) e(3-5) by simp
  then show ?thesis using kc(4) q(4) by (simp add: written set_attribute_def)
qed

definition assign_all :: "(string \<rightharpoonup> string) \<Rightarrow> (string \<times> string) list \<Rightarrow> (string \<rightharpoonup> string)" where
  "assign_all acc kvs = foldl (\<lambda>m kv. m(fst kv \<mapsto> snd kv)) acc kvs"

lemma assign_all_simps [simp]:
  "assign_all acc [] = acc" "assign_all acc (kv # kvs) = assign_all (acc(fst kv \<mapsto> snd kv)) kvs"
  by (simp_all add: assign_all_def)

lemma scan_joined:
  "list_all (\<lambda>kv. key_ok (fst kv) \<and> no_ref (snd kv)) kvs \<Longrightarrow>
     scan_attributes wide acc (join '' '' (map attribute kvs)) = assign_all acc kvs"
proof (induction kvs arbitrary: acc rule: induct_list012)
  case 1
  then show ?case by (simp add: scan_attributes.simps)
next
  case (2 kv)
  then have "scan_attributes wide acc (attribute (fst kv, snd kv) @ []) = scan_attributes wide (acc(fst kv \<mapsto> snd kv)) []"
    by (intro scan_attribute) simp_all
  then show ?case by (simp add: scan_attributes.simps [of _ _ "[]"])
next
  case (3 kv kw kvs)
  let ?rest = "join '' '' (map attribute (kw # kvs))"
  have "scan_attributes wide acc (attribute (fst kv, snd kv) @ CHR '' '' # ?rest) =
      scan_attributes wide (acc(fst kv \<mapsto> snd kv)) (CHR '' '' # ?rest)"
    using 3 by (intro scan_attribute) simp_all
  with 3 show ?case by (simp add: scan_space)
qed

lemma attribute_no_gt: "key_ok k \<Longrightarrow> no_ref v \<Longrightarrow> CHR ''>'' \<notin> set (attribute (k, v))"
proof -
  assume k: "key_ok k" and v: "no_ref v"
  have "CHR ''>'' \<notin> set k" using k key_char_plain by (auto simp: key_ok_def list_all_iff)
  moreover have "CHR ''>'' \<notin> set (quoteattr v)" using quoteattr_shape [OF v] by metis
  ultimately show ?thesis by (simp add: attribute_def)
qed

lemma joined_no_gt:
  "list_all (\<lambda>kv. key_ok (fst kv) \<and> no_ref (snd kv)) kvs \<Longrightarrow> CHR ''>'' \<notin> set (join '' '' (map attribute kvs))"
proof (induction kvs rule: induct_list012)
  case (2 kv)
  then show ?case using attribute_no_gt [of "fst kv" "snd kv"] by simp
next
  case (3 kv kw kvs)
  then show ?case using attribute_no_gt [of "fst kv" "snd kv"] by simp
qed simp

text \<open>A value the agent writes unquoted by \<open>quoteattr\<close>.\<close>

definition plain :: "string \<Rightarrow> bool" where
  "plain v \<longleftrightarrow> list_all (\<lambda>c. c \<notin> set (''&<>'' @ [CHR 0x22, CHR 0x0A, CHR 0x0D, CHR 0x09])) v"

lemma no_ref_plain: "CHR ''&'' \<notin> set v \<Longrightarrow> no_ref v"
  by (induction v) (auto simp: no_ref_def starts_with_def)

lemma plain_attribute_is_attribute: "plain v \<Longrightarrow> plain_attribute k v = attribute (k, v) \<and> no_ref v"
proof -
  assume p: "plain v"
  then have "concat (map (attr_char both) v) = v" for both
    by (induction v) (auto simp: plain_def attr_char_def escape_char_def)
  moreover have "CHR 0x22 \<notin> set v" "CHR ''&'' \<notin> set v" using p by (auto simp: plain_def list_all_iff)
  ultimately show ?thesis by (simp add: plain_attribute_def attribute_def quoteattr_def no_ref_plain Let_def)
qed

text \<open>Python's \<open>str.strip\<close>; it takes away every space that \<open>trim\<close> does.\<close>

definition is_py_space :: "char \<Rightarrow> bool" where
  "is_py_space c \<longleftrightarrow> (of_char c :: nat) \<in> {9, 10, 11, 12, 13, 28, 29, 30, 31, 32, 133, 160}"

definition py_strip :: "string \<Rightarrow> string" where
  "py_strip s = rev (dropWhile is_py_space (rev (dropWhile is_py_space s)))"

lemma js_space_py: "is_js_space c \<Longrightarrow> is_py_space c"
  by (auto simp: is_js_space_def is_py_space_def)

lemma trim_id: "(s \<noteq> [] \<Longrightarrow> \<not> is_js_space (hd s) \<and> \<not> is_js_space (last s)) \<Longrightarrow> trim s = s"
proof (cases s)
  case (Cons c s')
  assume a: "s \<noteq> [] \<Longrightarrow> \<not> is_js_space (hd s) \<and> \<not> is_js_space (last s)"
  then have "dropWhile is_js_space s = s" using Cons by simp
  moreover have "rev s = last s # rev (butlast s)" using Cons by (metis append_butlast_last_id list.distinct(1) rev_eq_Cons_iff rev_rev_ident)
  then have "dropWhile is_js_space (rev s) = rev s" using a Cons by simp
  ultimately show ?thesis by (simp add: trim_def)
qed (simp add: trim_def)

lemma trim_py_strip: "trim (py_strip s) = py_strip s"
proof (rule trim_id)
  assume ne: "py_strip s \<noteq> []"
  let ?d = "dropWhile is_py_space s"
  have "?d \<noteq> []" using ne unfolding py_strip_def by (metis dropWhile.simps(1) rev.simps(1))
  then have "hd (py_strip s) = hd ?d" "\<not> is_py_space (hd ?d)"
    using dropWhile_rev_keeps_hd [of ?d is_py_space] by (simp_all add: py_strip_def hd_dropWhile)
  moreover have "\<not> is_py_space (last (py_strip s))"
    using ne by (simp add: py_strip_def last_rev hd_dropWhile)
  ultimately show "\<not> is_js_space (hd (py_strip s)) \<and> \<not> is_js_space (last (py_strip s))" using js_space_py by auto
qed

lemma no_ref_inner: "no_ref (u @ m @ w) \<Longrightarrow> no_ref m"
proof -
  have "index_of p x \<noteq> None \<Longrightarrow> index_of p (u @ x) \<noteq> None" for p x
    by (induction u) (auto split: if_splits)
  then show "no_ref (u @ m @ w) \<Longrightarrow> no_ref m"
    unfolding no_ref_def using index_of_append_hit [of "''&#''" m _ w] by (metis not_None_eq)
qed

lemma no_ref_strip:
  assumes "no_ref v"
  shows "no_ref (py_strip v)"
proof -
  let ?d = "dropWhile is_py_space v"
  have "?d = py_strip v @ rev (takeWhile is_py_space (rev ?d))"
    unfolding py_strip_def by (metis rev_append rev_rev_ident takeWhile_dropWhile_id)
  then have "v = takeWhile is_py_space v @ py_strip v @ rev (takeWhile is_py_space (rev ?d))"
    by (metis takeWhile_dropWhile_id)
  with assms no_ref_inner show ?thesis by metis
qed

subsection \<open>The element reads back\<close>

lemma parse_written:
  assumes "CHR ''>'' \<notin> set attrs" "trim (decode_xml wide content) = message"
  shows "parse_channel wide (''<channel '' @ attrs @ ''>'' @ content @ ''</channel>'') =
    Some (scan_attributes wide Map.empty (CHR '' '' # attrs), message)"
proof -
  let ?s = "''<channel '' @ attrs @ ''>'' @ content @ ''</channel>''"
  have "trim ?s = ?s"
  proof (rule trim_id)
    have "last ?s = CHR ''>''" by (simp only: append_assoc [symmetric]) (simp add: last_append)
    then show "\<not> is_js_space (hd ?s) \<and> \<not> is_js_space (last ?s)" by (simp add: is_js_space_def)
  qed
  moreover have "starts_with ''<channel'' ?s" by (simp add: starts_with_def)
  moreover have "drop 8 ?s = CHR '' '' # attrs @ ''>'' @ content @ ''</channel>''" by simp
  moreover have "takeWhile (\<lambda>c. c \<noteq> CHR ''>'') (CHR '' '' # attrs @ ''>'' @ content @ ''</channel>'') = CHR '' '' # attrs"
    "dropWhile (\<lambda>c. c \<noteq> CHR ''>'') (CHR '' '' # attrs @ ''>'' @ content @ ''</channel>'') = ''>'' @ content @ ''</channel>''"
    using assms(1) by (induction attrs) auto
  moreover have "ends_with ''</channel>'' (content @ ''</channel>'')" by (simp add: ends_with_def)
  moreover have "\<not> is_word_char (CHR '' '')" by (simp add: is_word_char_def is_key_start_def is_digit_def)
  ultimately show ?thesis using assms(2) by (simp add: parse_channel_def parse_attributes_def Let_def)
qed

lemma assign_all_map_of:
  assumes "distinct (map fst kvs)"
  shows "assign_all m kvs = m ++ map_of kvs"
  using assms
proof (induction kvs arbitrary: m)
  case (Cons kv kvs)
  then have "map_of kvs (fst kv) = None" by (simp add: map_of_eq_None_iff)
  with Cons show ?case by (auto simp: map_add_def fun_eq_iff split: option.split)
qed simp

definition routing_fields :: "string \<Rightarrow> string \<Rightarrow> string option \<Rightarrow> (string \<times> string) list" where
  "routing_fields source notif_type disposition =
     [(''source'', source), (''type'', notif_type)] @ (case disposition of None \<Rightarrow> [] | Some d \<Rightarrow> [(''disposition'', d)])"

definition written_fields :: "string \<Rightarrow> string \<Rightarrow> string option \<Rightarrow> (string \<times> py_value) list \<Rightarrow> (string \<times> string) list" where
  "written_fields source notif_type disposition data =
     routing_fields source notif_type disposition @ attribute_fields (content_field py_strip data) data"

definition written_message :: "(string \<times> py_value) list \<Rightarrow> string" where
  "written_message data =
     (case content_field py_strip data of None \<Rightarrow> [] | Some k \<Rightarrow> py_strip (py_text (the (map_of data k))))"

text \<open>The fields that read back: distinct names of attributes, and no text that spells a character reference.\<close>

fun value_ok :: "py_value \<Rightarrow> bool" where
  "value_ok (PyStr s) = no_ref s"
| "value_ok (PyShown s) = no_ref s"
| "value_ok _ = True"

definition data_ok :: "string \<Rightarrow> string \<Rightarrow> string option \<Rightarrow> (string \<times> py_value) list \<Rightarrow> bool" where
  "data_ok source notif_type disposition data \<longleftrightarrow>
     distinct (map fst (written_fields source notif_type disposition data)) \<and> list_all (\<lambda>(k, v). key_ok k \<and> value_ok v) data"

lemma rendered_ok: "value_ok v \<Longrightarrow> rendered_value v = Some s \<Longrightarrow> no_ref s"
  by (cases v) (auto split: if_splits simp: no_ref_def starts_with_def)

lemma attribute_fields_ok:
  "list_all (\<lambda>(k, v). key_ok k \<and> value_ok v) data \<Longrightarrow> list_all (\<lambda>kv. key_ok (fst kv) \<and> no_ref (snd kv)) (attribute_fields chosen data)"
  by (fastforce simp: attribute_fields_def List.map_filter_def list_all_iff dest: rendered_ok split: if_splits)

lemma routing_written:
  assumes "list_all plain (source # notif_type # (case disposition of None \<Rightarrow> [] | Some d \<Rightarrow> [d]))"
  shows "map attribute (routing_fields source notif_type disposition) =
      [plain_attribute ''source'' source, plain_attribute ''type'' notif_type] @
      (case disposition of None \<Rightarrow> [] | Some d \<Rightarrow> [plain_attribute ''disposition'' d])"
    and "list_all (\<lambda>kv. key_ok (fst kv) \<and> no_ref (snd kv)) (routing_fields source notif_type disposition)"
proof -
  have "is_key_char c" if "c \<in> set ''sourcetypedisposition''" for c
    using that by (auto simp: is_key_char_def is_key_start_def)
  then have keys: "key_ok ''source''" "key_ok ''type''" "key_ok ''disposition''"
    by (simp_all add: key_ok_def is_key_char_def is_key_start_def)
  show "map attribute (routing_fields source notif_type disposition) =
      [plain_attribute ''source'' source, plain_attribute ''type'' notif_type] @
      (case disposition of None \<Rightarrow> [] | Some d \<Rightarrow> [plain_attribute ''disposition'' d])"
    using assms plain_attribute_is_attribute by (auto simp: routing_fields_def split: option.splits)
  show "list_all (\<lambda>kv. key_ok (fst kv) \<and> no_ref (snd kv)) (routing_fields source notif_type disposition)"
    using assms keys plain_attribute_is_attribute by (auto simp: routing_fields_def split: option.split)
qed

text \<open>An element of attributes and a body, read back.\<close>

lemma element_reads_back:
  assumes "list_all (\<lambda>kv. key_ok (fst kv) \<and> no_ref (snd kv)) kvs" "distinct (map fst kvs)"
  shows "parse_channel wide (''<channel '' @ join '' '' (map attribute kvs) @ ''>'' @ content @ ''</channel>'') =
    Some (map_of kvs, trim (decode_xml wide content))"
  using parse_written [OF joined_no_gt [OF assms(1)] refl, of wide content]
    scan_joined [OF assms(1), of wide Map.empty] assign_all_map_of [OF assms(2), of Map.empty]
  by (simp add: scan_space)

lemma message_reads_back:
  assumes "list_all (\<lambda>(k, v). key_ok k \<and> value_ok v) data"
  shows "trim (decode_xml wide (case content_field py_strip data of None \<Rightarrow> []
      | Some k \<Rightarrow> xml_escape (py_strip (py_text (the (map_of data k)))))) = written_message data"
proof (cases "content_field py_strip data")
  case None
  then show ?thesis by (simp add: written_message_def decode_xml_def trim_def)
next
  case (Some k)
  then obtain v where v: "map_of data k = Some (PyStr v)"
    by (auto simp: content_field_def find_Some_iff split: option.splits py_value.splits)
  then have "no_ref v" using assms map_of_SomeD [OF v] by (auto simp: list_all_iff)
  then have "decode_xml wide (xml_escape (py_strip v)) = py_strip v" by (intro decode_escape no_ref_strip)
  then show ?thesis by (simp add: written_message_def Some v trim_py_strip)
qed

lemma trim_spaced: "is_js_space c \<Longrightarrow> is_js_space d \<Longrightarrow> trim (c # s @ [d]) = trim s"
proof (cases "\<exists>x \<in> set s. \<not> is_js_space x")
  case False
  assume "is_js_space c" "is_js_space d"
  with False have e: "dropWhile is_js_space (c # s @ [d]) = []" "dropWhile is_js_space s = []" by auto
  show ?thesis unfolding trim_def e ..
qed (auto simp: trim_def dropWhile_append)

text \<open>A body in prose is not escaped, and is read as it stands where it has no ampersand.\<close>

lemma prose_reads_back:
  assumes "CHR ''&'' \<notin> set b"
  shows "trim (decode_xml wide ([CHR 0x0A] @ py_strip b @ [CHR 0x0A])) = py_strip b"
proof -
  let ?s = "[CHR 0x0A] @ py_strip b @ [CHR 0x0A]"
  have "set (py_strip b) \<subseteq> set b" by (auto simp: py_strip_def dest!: set_dropWhileD)
  with assms have amp: "CHR ''&'' \<notin> set ?s" by auto
  have skip: "replace_all p r u = u" if "entity p" "CHR ''&'' \<notin> set u" for p r u
    using replace_all_skip [OF that(2,1), of r "[]"] by simp
  have refs: "decode_refs wide u = u" if "CHR ''&'' \<notin> set u" for u using that by (induction u) auto
  have e: "entity ''&amp;''" "entity ''&apos;''" "entity ''&quot;''" "entity ''&gt;''" "entity ''&lt;''"
    by (auto simp: entity_def)
  have "decode_xml wide ?s = ?s"
    unfolding decode_xml_def skip [OF e(5) amp] skip [OF e(4) amp] skip [OF e(3) amp] skip [OF e(2) amp] skip [OF e(1) amp]
    by (rule refs [OF amp])
  moreover have "trim ?s = trim (py_strip b)"
    using trim_spaced [of "CHR 0x0A" "CHR 0x0A" "py_strip b"] by (simp add: is_js_space_def)
  ultimately show ?thesis by (simp add: trim_py_strip)
qed

text \<open>C7: The summary the agent writes for a notification reads back as what it was written from: without a body in prose,
  every field that is kept as an attribute, decoded, and the message as the body; with one, the routing attributes and
  the prose.  The condition: source, type and disposition have no markup, quotes or line breaks; the other fields have
  distinct names that are attribute names, and no text of them spells a character reference; and a prose body, which
  the agent writes as it is, has no ampersand.\<close>

theorem channel_reads_back:
  assumes "list_all plain (source # notif_type # (case disposition of None \<Rightarrow> [] | Some d \<Rightarrow> [d]))"
    and "case body of None \<Rightarrow> data_ok source notif_type disposition data | Some b \<Rightarrow> CHR ''&'' \<notin> set b"
  shows "parse_channel wide (format_for_display py_strip source notif_type disposition body data) =
    Some (case body of
            None \<Rightarrow> (map_of (written_fields source notif_type disposition data), written_message data)
          | Some b \<Rightarrow> (map_of (routing_fields source notif_type disposition), py_strip b))"
proof (cases body)
  case None
  with assms(2) have data: "distinct (map fst (written_fields source notif_type disposition data))"
    "list_all (\<lambda>(k, v). key_ok k \<and> value_ok v) data" by (simp_all add: data_ok_def)
  have ok: "list_all (\<lambda>kv. key_ok (fst kv) \<and> no_ref (snd kv)) (written_fields source notif_type disposition data)"
    using attribute_fields_ok [OF data(2)] routing_written(2) [OF assms(1)] by (simp add: written_fields_def)
  show ?thesis
    using element_reads_back [OF ok data(1), of wide] message_reads_back [OF data(2), of wide] None
    by (simp add: format_for_display_def written_fields_def routing_written(1) [OF assms(1)] Let_def split: option.split)
next
  case (Some b)
  have "distinct (map fst (routing_fields source notif_type disposition))"
    by (simp add: routing_fields_def split: option.split)
  with element_reads_back [OF routing_written(2) [OF assms(1)], of wide "[CHR 0x0A] @ py_strip b @ [CHR 0x0A]"]
    prose_reads_back [of b wide] assms(2) Some
  show ?thesis by (simp add: format_for_display_def routing_written(1) [OF assms(1)])
qed

definition mail_data :: "(string \<times> py_value) list" where
  "mail_data = [(''subject'', PyStr ''Q & A <now>''), (''message'', PyStr '' hello ''), (''folder'', PyStr []), (''missed'', PyBool True)]"

theorem channel_reads_back_witness:
  "parse_channel (\<lambda>n. []) (format_for_display py_strip ''email'' ''message'' (Some ''interrupt'') None mail_data) =
    Some (map_of (written_fields ''email'' ''message'' (Some ''interrupt'') mail_data), written_message mail_data)"
  using channel_reads_back [where source = "''email''" and notif_type = "''message''" and disposition = "Some ''interrupt''"
      and body = None and data = mail_data and wide = "\<lambda>n. []"]
  by (simp add: mail_data_def data_ok_def written_fields_def routing_fields_def attribute_fields_def List.map_filter_def
      content_field_def content_fields_def key_ok_def is_key_char_def is_key_start_def no_ref_def starts_with_def plain_def
      py_strip_def is_py_space_def)

text \<open>A text that does spell one is decoded twice: \<open>&#65;\<close> is written as \<open>&amp;#65;\<close> and read as \<open>A\<close>.\<close>

lemma written_reference_is_decoded_twice:
  "xml_escape ''&#65;'' = ''&amp;#65;''" "decode_xml wide (xml_escape ''&#65;'') = ''A''"
proof -
  have "char_of (65 :: nat) = CHR ''A''" using char_of_char [of "CHR ''A''", where ?'a = nat] by simp
  then show "xml_escape ''&#65;'' = ''&amp;#65;''" "decode_xml wide (xml_escape ''&#65;'') = ''A''"
    by (simp_all add: xml_escape_def escape_char_def decode_xml_def starts_with_def char_ref_def is_digit_def parse_int_def
        digit_value_def from_code_point_def)
qed

end
