(* ===== verification/Notifications.thy ===== *)
theory Notifications
  imports SyncProtocol AgentStatus "HOL-Library.AList"
begin

section \<open>The user's notifications (notifications-pill/, react/use-notification-feed.ts)\<close>

text \<open>
  The feed that joins the pages of the durable log to the live edge, the hook that drives it
  (loads, paging back to the watermark, marking seen), and the pill with its queue and timer.
  A logged notification is the record of the \<open>user_notification\<close> delta.  A React effect runs
  after the event that changed what it depends on; the conditions of the two effects of the
  feed read only their own dependencies, so an effect that does not run again would do nothing.
\<close>

subsection \<open>user-notification-feed.ts\<close>

definition logged_from_delta :: "('g, 'i, 'n) delta \<Rightarrow> user_notification option" where
  "logged_from_delta d = (case d of UserNotificationDelta n \<Rightarrow> Some n | _ \<Rightarrow> None)"

definition parse_logged_entry :: "json \<Rightarrow> user_notification option" where
  "parse_logged_entry raw =
     (case as_record (Some raw) of
        None \<Rightarrow> None
      | Some entry \<Rightarrow>
          (case (as_num (field entry ''id''), as_num (field entry ''at''), as_str (field entry ''agent''),
                 as_str (field entry ''kind''), as_str (field entry ''title''), as_str (field entry ''body'')) of
             (Some i, Some stamp, Some agent, Some kind, Some title, Some body) \<Rightarrow>
               Some \<lparr>un_id = i, un_at = stamp, un_agent = agent, un_kind = kind, un_title = title, un_body = body\<rparr>
           | _ \<Rightarrow> None))"

definition parse_logged :: "json option \<Rightarrow> user_notification list" where
  "parse_logged v = (case as_arr v of None \<Rightarrow> [] | Some rows \<Rightarrow> List.map_filter parse_logged_entry rows)"

text \<open>The query of a page: the cursor and the limit, as written by \<open>String\<close>.\<close>

definition user_notifications_path :: "(jsnum \<Rightarrow> string) \<Rightarrow> jsnum option \<Rightarrow> jsnum option \<Rightarrow> string" where
  "user_notifications_path show_num before limit =
     (let query = join ''&''
            ((case before of None \<Rightarrow> [] | Some b \<Rightarrow> [''before='' @ show_num b]) @
             (case limit of None \<Rightarrow> [] | Some l \<Rightarrow> [''limit='' @ show_num l]))
      in ''/notifications'' @ (if query \<noteq> [] then ''?'' @ query else []))"

fun split_by_seen :: "user_notification list \<Rightarrow> jsnum \<Rightarrow> user_notification list \<times> user_notification list" where
  "split_by_seen [] seen_at = ([], [])"
| "split_by_seen (e # es) seen_at =
     (let (unseen, seen) = split_by_seen es seen_at
      in if un_at e > seen_at then (e # unseen, seen) else (unseen, e # seen))"

definition feed_has_unseen :: "jsnum option \<Rightarrow> jsnum option \<Rightarrow> bool" where
  "feed_has_unseen last_at seen_at \<longleftrightarrow> nullish last_at 0 > nullish seen_at 0"

subsection \<open>notification-feed.ts\<close>

datatype newest_page_status = NewestIdle | NewestLoading | NewestReady | NewestFailed
datatype older_pages_status = OlderMore | OlderLoading | OlderExhausted | OlderFailed

record notification_feed =
  nf_entries :: "user_notification list"
  nf_live_ids :: "jsnum list"
  nf_read_ids :: "jsnum list"
  nf_newest :: newest_page_status
  nf_older :: older_pages_status
  nf_open :: bool
  nf_seen_at :: "jsnum option"
  nf_pending_seen_at :: "jsnum option"

definition empty_feed :: notification_feed where
  "empty_feed = \<lparr>nf_entries = [], nf_live_ids = [], nf_read_ids = [], nf_newest = NewestIdle, nf_older = OlderMore,
     nf_open = False, nf_seen_at = None, nf_pending_seen_at = None\<rparr>"

datatype feed_action =
  OpenFeed jsnum
| CloseFeed
| MarkedSeen jsnum
| Arrived user_notification bool
| PageLoading "jsnum option"
| PageLoaded "user_notification list" "jsnum option" nat
| PageFailed "jsnum option"

definition newer_first :: "user_notification \<Rightarrow> user_notification \<Rightarrow> int" where
  "newer_first a b = (if un_id b > un_id a then 1 else if un_id b < un_id a then - 1 else 0)"

definition merge :: "user_notification list \<Rightarrow> user_notification list \<Rightarrow> user_notification list" where
  "merge existing incoming =
     js_sort newer_first
       (map snd (foldl (\<lambda>by_id item. AList.update (un_id item) item by_id) [] (existing @ incoming)))"

definition reduce_feed :: "notification_feed \<Rightarrow> feed_action \<Rightarrow> notification_feed" where
  "reduce_feed feed action =
     (case action of
        OpenFeed seen_at \<Rightarrow>
          (if nf_open feed then feed
           else feed\<lparr>nf_open := True, nf_seen_at := Some seen_at, nf_live_ids := [], nf_read_ids := []\<rparr>)
      | CloseFeed \<Rightarrow> feed\<lparr>nf_open := False\<rparr>
      | MarkedSeen seen_at \<Rightarrow> feed\<lparr>nf_pending_seen_at := Some (max (nullish (nf_pending_seen_at feed) 0) seen_at)\<rparr>
      | Arrived entry read_in_place \<Rightarrow>
          (if \<exists>item \<in> set (nf_entries feed). un_id item = un_id entry then feed
           else feed\<lparr>nf_entries := merge (nf_entries feed) [entry], nf_live_ids := nf_live_ids feed @ [un_id entry],
                     nf_read_ids := (if read_in_place then nf_read_ids feed @ [un_id entry] else nf_read_ids feed)\<rparr>)
      | PageLoading None \<Rightarrow> feed\<lparr>nf_newest := NewestLoading\<rparr>
      | PageLoading (Some before) \<Rightarrow> feed\<lparr>nf_older := OlderLoading\<rparr>
      | PageLoaded page None page_size \<Rightarrow>
          feed\<lparr>nf_entries := merge (nf_entries feed) page, nf_newest := NewestReady,
               nf_older := (if length page < page_size then OlderExhausted else nf_older feed)\<rparr>
      | PageLoaded page (Some before) page_size \<Rightarrow>
          feed\<lparr>nf_entries := merge (nf_entries feed) page,
               nf_older := (if length page < page_size then OlderExhausted else OlderMore)\<rparr>
      | PageFailed None \<Rightarrow> feed\<lparr>nf_newest := NewestFailed\<rparr>
      | PageFailed (Some before) \<Rightarrow> feed\<lparr>nf_older := OlderFailed\<rparr>)"

definition feed_needs_mark_seen :: "notification_feed \<Rightarrow> jsnum option \<Rightarrow> bool" where
  "feed_needs_mark_seen feed last_at =
     (case nf_seen_at feed of
        None \<Rightarrow> False
      | Some seen_at \<Rightarrow>
          feed_has_unseen last_at (Some seen_at) \<or> (\<exists>item \<in> set (nf_entries feed). un_at item > seen_at))"

definition newest_at :: "notification_feed \<Rightarrow> jsnum" where
  "newest_at feed = (case nf_entries feed of [] \<Rightarrow> 0 | newest # _ \<Rightarrow> un_at newest)"

definition feed_unseen :: "notification_feed \<Rightarrow> jsnum option \<Rightarrow> jsnum option \<Rightarrow> bool" where
  "feed_unseen feed last_at seen_at =
     (let watermark = max (nullish seen_at 0) (nullish (nf_pending_seen_at feed) 0)
      in if \<not> feed_has_unseen last_at (Some watermark) then False
         else if nf_newest feed \<noteq> NewestReady then True
         else if nullish last_at 0 > newest_at feed then True
         else \<exists>item \<in> set (nf_entries feed). un_at item > watermark \<and> un_id item \<notin> set (nf_read_ids feed))"

definition feed_sections :: "notification_feed \<Rightarrow> (user_notification list \<times> user_notification list) option" where
  "feed_sections feed =
     (case nf_seen_at feed of
        None \<Rightarrow> None
      | Some seen_at \<Rightarrow> (if seen_at = 0 then None else Some (split_by_seen (nf_entries feed) seen_at)))"

datatype feed_view = ViewLoading | ViewFailed | ViewEmpty | ViewRows

definition feed_view_of :: "notification_feed \<Rightarrow> feed_view" where
  "feed_view_of feed =
     (if nf_entries feed \<noteq> [] then ViewRows
      else case nf_newest feed of NewestFailed \<Rightarrow> ViewFailed | NewestReady \<Rightarrow> ViewEmpty | _ \<Rightarrow> ViewLoading)"

subsection \<open>notifications-pill.ts\<close>

definition pill_show_ms :: nat where "pill_show_ms = 4000"

record pill_notification =
  pn_note :: user_notification
  pn_orb :: "orb_visual_state option"

definition pill_kind_icons :: "(string \<times> string) list" where
  "pill_kind_icons =
     [(''message'', ''message-square''), (''needs_user'', ''circle-alert''), (''rate_limited'', ''circle-alert''),
      (''task'', ''square-check''), (''agent_status'', ''activity''), (''gateway_updated'', ''sparkles''),
      (''update_available'', ''circle-arrow-up''), (''device_connected'', ''monitor-smartphone'')]"

definition pill_visible_while_viewing :: "user_notification \<Rightarrow> string option \<Rightarrow> bool" where
  "pill_visible_while_viewing item viewed \<longleftrightarrow> un_kind item \<noteq> ''message'' \<or> Some (un_agent item) \<noteq> viewed"

definition notification_read_in_place :: "user_notification \<Rightarrow> string option \<Rightarrow> bool \<Rightarrow> bool" where
  "notification_read_in_place item viewed focused \<longleftrightarrow>
     focused \<and> un_kind item = ''message'' \<and> Some (un_agent item) = viewed"

text \<open>The loop from the back: insert after the last item of the kind.\<close>

fun insert_after_kind :: "pill_notification list \<Rightarrow> pill_notification \<Rightarrow> pill_notification list option" where
  "insert_after_kind [] item = None"
| "insert_after_kind (q # qs) item =
     (case insert_after_kind qs item of
        Some qs' \<Rightarrow> Some (q # qs')
      | None \<Rightarrow> (if un_kind (pn_note q) = un_kind (pn_note item) then Some (q # item # qs) else None))"

definition enqueue_pill_notification :: "pill_notification list \<Rightarrow> pill_notification \<Rightarrow> pill_notification list" where
  "enqueue_pill_notification queue item = nullish (insert_after_kind queue item) (queue @ [item])"

definition pill_display_line :: "user_notification \<Rightarrow> string" where
  "pill_display_line item = (if un_body item \<noteq> [] then un_title item @ '': '' @ un_body item else un_title item)"

subsection \<open>react/use-notification-feed.ts\<close>

text \<open>A load in flight is named by the order of the loads; it keeps the cursor it asked with.\<close>

record feed_hook =
  fh_page_size :: nat
  fh_feed :: notification_feed
  fh_loads :: "nat \<rightharpoonup> jsnum option"
  fh_next :: nat

datatype feed_event =
  FeedMounts
| FeedDelta "(json, json, json) delta" "string option" bool
| OpenSurface jsnum
| CloseSurface "jsnum option"
| LoadOlder
| PageArrives nat "user_notification list"
| PageRejects nat

datatype feed_out =
  FetchPage nat "jsnum option" nat
| MarkSeen

type_synonym feed_result = "feed_hook \<times> feed_out list"

definition mounted_feed :: "nat \<Rightarrow> feed_hook" where
  "mounted_feed page_size = \<lparr>fh_page_size = page_size, fh_feed = empty_feed, fh_loads = Map.empty, fh_next = 0\<rparr>"

definition dispatch :: "feed_action \<Rightarrow> feed_hook \<Rightarrow> feed_hook" where
  "dispatch action s = s\<lparr>fh_feed := reduce_feed (fh_feed s) action\<rparr>"

definition load_page :: "jsnum option \<Rightarrow> feed_hook \<Rightarrow> feed_result" where
  "load_page before s =
     ((dispatch (PageLoading before) s)\<lparr>fh_loads := (fh_loads s)(fh_next s \<mapsto> before), fh_next := Suc (fh_next s)\<rparr>,
      [FetchPage (fh_next s) before (fh_page_size s)])"

definition oldest_entry :: "feed_hook \<Rightarrow> user_notification option" where
  "oldest_entry s = (if nf_entries (fh_feed s) = [] then None else Some (last (nf_entries (fh_feed s))))"

definition load_older :: "feed_hook \<Rightarrow> feed_result" where
  "load_older s = (case oldest_entry s of None \<Rightarrow> (s, []) | Some e \<Rightarrow> load_page (Some (un_id e)) s)"

text \<open>The prefetch, and the paging back to a real watermark.\<close>

definition prefetch_effect :: "feed_hook \<Rightarrow> feed_result" where
  "prefetch_effect s = (if nf_newest (fh_feed s) = NewestIdle then load_page None s else (s, []))"

definition must_page :: "feed_hook \<Rightarrow> bool" where
  "must_page s \<longleftrightarrow> nf_open (fh_feed s) \<and> nf_newest (fh_feed s) = NewestReady \<and> nf_older (fh_feed s) = OlderMore \<and>
     (case (nf_seen_at (fh_feed s), oldest_entry s) of
        (Some seen_at, Some e) \<Rightarrow> seen_at \<noteq> 0 \<and> un_at e > seen_at
      | _ \<Rightarrow> False)"

definition paging_effect :: "feed_hook \<Rightarrow> feed_result" where
  "paging_effect s = (if must_page s then load_older s else (s, []))"

definition feed_effects :: "feed_hook \<Rightarrow> feed_result" where
  "feed_effects s = chain (prefetch_effect s) paging_effect"

definition on_feed_delta :: "('g, 'i, 'n) delta \<Rightarrow> string option \<Rightarrow> bool \<Rightarrow> feed_hook \<Rightarrow> feed_hook" where
  "on_feed_delta d viewed focused s =
     (case logged_from_delta d of
        None \<Rightarrow> s
      | Some entry \<Rightarrow> dispatch (Arrived entry (notification_read_in_place entry viewed focused)) s)"

definition close_surface :: "jsnum option \<Rightarrow> feed_hook \<Rightarrow> feed_result" where
  "close_surface last_at s =
     (let feed = fh_feed s; s = dispatch CloseFeed s
      in if feed_needs_mark_seen feed last_at
         then (dispatch (MarkedSeen (max (nullish last_at 0) (newest_at feed))) s, [MarkSeen])
         else (s, []))"

definition page_arrives :: "nat \<Rightarrow> user_notification list \<Rightarrow> feed_hook \<Rightarrow> feed_hook" where
  "page_arrives k page s =
     (case fh_loads s k of
        None \<Rightarrow> s
      | Some before \<Rightarrow>
          (dispatch (PageLoaded page before (fh_page_size s)) s)\<lparr>fh_loads := (fh_loads s)(k := None)\<rparr>)"

definition page_rejects :: "nat \<Rightarrow> feed_hook \<Rightarrow> feed_hook" where
  "page_rejects k s =
     (case fh_loads s k of
        None \<Rightarrow> s
      | Some before \<Rightarrow> (dispatch (PageFailed before) s)\<lparr>fh_loads := (fh_loads s)(k := None)\<rparr>)"

fun feed_handle :: "feed_hook \<Rightarrow> feed_event \<Rightarrow> feed_result" where
  "feed_handle s FeedMounts = (s, [])"
| "feed_handle s (FeedDelta d viewed focused) = (on_feed_delta d viewed focused s, [])"
| "feed_handle s (OpenSurface seen_at) = load_page None (dispatch (OpenFeed seen_at) s)"
| "feed_handle s (CloseSurface last_at) = close_surface last_at s"
| "feed_handle s LoadOlder = load_older s"
| "feed_handle s (PageArrives k page) = (page_arrives k page s, [])"
| "feed_handle s (PageRejects k) = (page_rejects k s, [])"

definition feed_step :: "feed_hook \<Rightarrow> feed_event \<Rightarrow> feed_result" where
  "feed_step s e = chain (feed_handle s e) feed_effects"

fun feed_enabled :: "feed_hook \<Rightarrow> feed_event \<Rightarrow> bool" where
  "feed_enabled s (PageArrives k page) = (fh_loads s k \<noteq> None)"
| "feed_enabled s (PageRejects k) = (fh_loads s k \<noteq> None)"
| "feed_enabled s e = True"

subsection \<open>react/use-notifications-pill.ts\<close>

text \<open>The timer of the shown item is named by the id it removes; the effect that keeps it runs when
  the head's id changes, and clears the old one.\<close>

record pill =
  pl_queue :: "pill_notification list"
  pl_timer :: "jsnum option"

datatype pill_event =
  PillDelta "(json, json, json) delta" "string option" bool "string \<Rightarrow> orb_visual_state option"
| PillTimer
| PillDismiss

definition head_id :: "pill \<Rightarrow> jsnum option" where
  "head_id s = (case pl_queue s of [] \<Rightarrow> None | q # _ \<Rightarrow> Some (un_id (pn_note q)))"

definition pill_effects :: "pill \<Rightarrow> pill" where
  "pill_effects s = s\<lparr>pl_timer := head_id s\<rparr>"

definition remove_pill :: "jsnum \<Rightarrow> pill \<Rightarrow> pill" where
  "remove_pill i s = s\<lparr>pl_queue := filter (\<lambda>q. un_id (pn_note q) \<noteq> i) (pl_queue s)\<rparr>"

definition on_pill_delta ::
  "(json, json, json) delta \<Rightarrow> string option \<Rightarrow> bool \<Rightarrow> (string \<Rightarrow> orb_visual_state option) \<Rightarrow> pill \<Rightarrow> pill" where
  "on_pill_delta d viewed paused orb_state_for s =
     (case logged_from_delta d of
        None \<Rightarrow> s
      | Some item \<Rightarrow>
          (if paused \<or> \<not> pill_visible_while_viewing item viewed then s
           else s\<lparr>pl_queue := enqueue_pill_notification (pl_queue s)
                    \<lparr>pn_note = item, pn_orb = orb_state_for (un_agent item)\<rparr>\<rparr>))"

fun pill_step :: "pill \<Rightarrow> pill_event \<Rightarrow> pill" where
  "pill_step s (PillDelta d viewed paused orb) = pill_effects (on_pill_delta d viewed paused orb s)"
| "pill_step s PillTimer = (case pl_timer s of None \<Rightarrow> s | Some i \<Rightarrow> pill_effects (remove_pill i s))"
| "pill_step s PillDismiss = (case head_id s of None \<Rightarrow> s | Some i \<Rightarrow> pill_effects (remove_pill i s))"

definition pill_current :: "string option \<Rightarrow> pill \<Rightarrow> pill_notification option" where
  "pill_current viewed s =
     (case pl_queue s of
        [] \<Rightarrow> None
      | head # _ \<Rightarrow> (if pill_visible_while_viewing (pn_note head) viewed then Some head else None))"

subsection \<open>The merge\<close>

definition overlay :: "(jsnum \<rightharpoonup> user_notification) \<Rightarrow> user_notification list \<Rightarrow> (jsnum \<rightharpoonup> user_notification)" where
  "overlay m es = foldl (\<lambda>m e. m(un_id e \<mapsto> e)) m es"

lemma overlay_simps [simp]:
  "overlay m [] = m" "overlay m (e # es) = overlay (m(un_id e \<mapsto> e)) es" "overlay m (es @ fs) = overlay (overlay m es) fs"
  by (simp_all add: overlay_def)

lemma by_id_fold:
  assumes "distinct (map fst acc)" "\<forall>p \<in> set acc. fst p = un_id (snd p)"
  shows "distinct (map fst (foldl (\<lambda>by_id item. AList.update (un_id item) item by_id) acc es)) \<and>
    (\<forall>p \<in> set (foldl (\<lambda>by_id item. AList.update (un_id item) item by_id) acc es). fst p = un_id (snd p)) \<and>
    map_of (foldl (\<lambda>by_id item. AList.update (un_id item) item by_id) acc es) = overlay (map_of acc) es"
  using assms
proof (induction es arbitrary: acc)
  case (Cons e es)
  have "set (AList.update (un_id e) e acc) \<subseteq> insert (un_id e, e) (set acc)"
    by (induction acc) auto
  then have "\<forall>p \<in> set (AList.update (un_id e) e acc). fst p = un_id (snd p)" using Cons.prems by auto
  with Cons.IH [of "AList.update (un_id e) e acc"] Cons.prems(1) show ?case
    by (simp add: distinct_update update_conv' fun_upd_def)
qed simp

definition newest_first :: "user_notification list \<Rightarrow> bool" where
  "newest_first es \<longleftrightarrow> sorted_wrt (\<lambda>a b. un_id b < un_id a) es"

interpretation newest: comparator newer_first "\<lambda>_. True"
  by unfold_locales (auto simp: newer_first_def split: if_splits)

lemma newer_first_le: "newer_first a b \<le> 0 \<longleftrightarrow> un_id b \<le> un_id a"
  by (simp add: newer_first_def)

lemma sorted_distinct_newest:
  "distinct (map un_id es) \<Longrightarrow> sorted_wrt (\<lambda>a b. newer_first a b \<le> 0) es \<Longrightarrow> newest_first es"
  by (induction es) (auto simp: newest_first_def newer_first_le less_le image_iff)

lemma merge_newest_first: "newest_first (merge a b)"
proof -
  let ?m = "foldl (\<lambda>by_id item. AList.update (un_id item) item by_id) [] (a @ b)"
  have f: "distinct (map fst ?m)" "\<forall>p \<in> set ?m. fst p = un_id (snd p)"
    using by_id_fold [of "[]" "a @ b"] by auto
  then have ids: "map un_id (map snd ?m) = map fst ?m" by (induction ?m) auto
  have "distinct (map un_id (merge a b))"
    unfolding merge_def distinct_map_js_sort ids by (rule f(1))
  moreover have "sorted_wrt (\<lambda>a b. newer_first a b \<le> 0) (merge a b)"
    unfolding merge_def by (rule newest.js_sort_sorted) simp
  ultimately show ?thesis by (rule sorted_distinct_newest)
qed

lemma merge_set: "set (merge a b) = ran (overlay Map.empty (a @ b))"
proof -
  let ?m = "foldl (\<lambda>by_id item. AList.update (un_id item) item by_id) [] (a @ b)"
  have f: "distinct (map fst ?m)" "map_of ?m = overlay Map.empty (a @ b)" using by_id_fold [of "[]" "a @ b"] by auto
  have "set (merge a b) = set (map snd ?m)" unfolding merge_def set_js_sort ..
  also have "\<dots> = ran (map_of ?m)" unfolding set_map by (rule ran_distinct [symmetric]) (rule f(1))
  finally show ?thesis unfolding f(2) .
qed

lemma entries_newest_first: "newest_first (nf_entries feed) \<Longrightarrow> newest_first (nf_entries (reduce_feed feed action))"
  by (simp add: reduce_feed_def merge_newest_first split: feed_action.split option.split)

text \<open>What the actions bring, by id: a page's rows replace those held, an arrival comes where none is held.\<close>

fun came :: "(jsnum \<rightharpoonup> user_notification) \<Rightarrow> feed_action \<Rightarrow> (jsnum \<rightharpoonup> user_notification)" where
  "came m (Arrived e read_in_place) = (if m (un_id e) = None then m(un_id e \<mapsto> e) else m)"
| "came m (PageLoaded page before n) = overlay m page"
| "came m action = m"

definition holds :: "notification_feed \<Rightarrow> (jsnum \<rightharpoonup> user_notification) \<Rightarrow> bool" where
  "holds feed m \<longleftrightarrow> newest_first (nf_entries feed) \<and> overlay Map.empty (nf_entries feed) = m"

lemma overlay_keyed: "\<forall>i e. m i = Some e \<longrightarrow> un_id e = i \<Longrightarrow> overlay m es i = Some e \<Longrightarrow> un_id e = i"
proof (induction es arbitrary: m)
  case (Cons x es)
  have "\<forall>i e. (m(un_id x \<mapsto> x)) i = Some e \<longrightarrow> un_id e = i" using Cons.prems(1) by auto
  from Cons.IH [OF this] Cons.prems(2) show ?case unfolding overlay_simps .
qed simp

lemma overlay_distinct:
  "distinct (map un_id es) \<Longrightarrow> overlay m es i = Some e \<longleftrightarrow> (e \<in> set es \<and> un_id e = i) \<or> (i \<notin> un_id ` set es \<and> m i = Some e)"
  by (induction es arbitrary: m) auto

lemma newest_first_distinct: "newest_first es \<Longrightarrow> distinct (map un_id es)"
  by (induction es) (auto simp: newest_first_def)

lemma overlay_entries: "newest_first es \<Longrightarrow> set es = ran (overlay Map.empty es)"
  using overlay_distinct [OF newest_first_distinct, of es Map.empty] by (auto simp: ran_def)

lemma overlay_merge: "overlay Map.empty (merge a b) = overlay Map.empty (a @ b)"
proof
  fix i
  have d: "overlay Map.empty (merge a b) i = Some e \<longleftrightarrow> e \<in> ran (overlay Map.empty (a @ b)) \<and> un_id e = i" for e
    using overlay_distinct [OF newest_first_distinct [OF merge_newest_first], of Map.empty a b i e]
    by (simp add: merge_set)
  have k: "overlay Map.empty (a @ b) j = Some e \<Longrightarrow> un_id e = j" for j e
    using overlay_keyed [of Map.empty "a @ b" j e] by simp
  have "overlay Map.empty (merge a b) i = Some e \<longleftrightarrow> overlay Map.empty (a @ b) i = Some e" for e
    unfolding d using k by (auto simp: ran_def)
  then show "overlay Map.empty (merge a b) i = overlay Map.empty (a @ b) i" by (metis option.exhaust)
qed

lemma overlay_none: "overlay Map.empty es i = None \<longleftrightarrow> i \<notin> un_id ` set es"
proof -
  have "overlay m es i = None \<longleftrightarrow> i \<notin> un_id ` set es \<and> m i = None" for m by (induction es arbitrary: m) auto
  then show ?thesis by simp
qed

lemma holds_step: "holds feed m \<Longrightarrow> holds (reduce_feed feed action) (came m action)"
proof (cases action)
  case (Arrived e read_in_place)
  assume "holds feed m"
  moreover have "(\<exists>item \<in> set (nf_entries feed). un_id item = un_id e) \<longleftrightarrow> overlay Map.empty (nf_entries feed) (un_id e) \<noteq> None"
    unfolding overlay_none by (auto simp: image_iff) metis
  ultimately show ?thesis by (auto simp: Arrived holds_def reduce_feed_def merge_newest_first overlay_merge)
qed (auto simp: holds_def reduce_feed_def merge_newest_first overlay_merge split: option.split)

lemma holds_run: "holds feed m \<Longrightarrow> holds (foldl reduce_feed feed actions) (foldl came m actions)"
  by (induction actions arbitrary: feed m) (simp_all add: holds_step)

text \<open>C37: Whatever arrives, whatever pages land and whatever the surface does, in any order, the feed
  holds just what came: each notification once, newest first, a page's row in place of the one held, a
  live arrival only where its id is not held.\<close>

theorem feed_is_newest_first:
  "sorted_wrt (\<lambda>a b. un_id b < un_id a) (nf_entries (foldl reduce_feed empty_feed actions)) \<and>
   set (nf_entries (foldl reduce_feed empty_feed actions)) = ran (foldl came Map.empty actions)"
proof -
  have "holds (foldl reduce_feed empty_feed actions) (foldl came Map.empty actions)"
    by (rule holds_run) (simp add: holds_def empty_feed_def newest_first_def)
  then show ?thesis by (simp add: holds_def newest_first_def overlay_entries)
qed

subsection \<open>The dot\<close>

lemma feed_hides_known_rows_only:
  "\<not> feed_unseen feed last_at seen_at \<Longrightarrow> nullish last_at 0 > max (nullish seen_at 0) (nullish (nf_pending_seen_at feed) 0) \<Longrightarrow>
     nf_newest feed = NewestReady \<and> nullish last_at 0 \<le> newest_at feed \<and>
     (\<forall>item \<in> set (nf_entries feed). un_at item > max (nullish seen_at 0) (nullish (nf_pending_seen_at feed) 0) \<longrightarrow>
        un_id item \<in> set (nf_read_ids feed))"
  by (auto simp: feed_unseen_def feed_has_unseen_def Let_def split: if_splits)

text \<open>Closing the feed takes the bell's dot down, whether or not it had to tell the gateway, and
  until something is stamped after what was on offer.\<close>

theorem closing_clears_the_dot:
  assumes "nf_seen_at (fh_feed s) = Some seen" "0 \<le> seen" "seen \<le> nullish seen_now 0" "nullish last_now 0 \<le> nullish last_at 0"
  shows "\<not> feed_unseen (fh_feed (fst (close_surface last_at s))) last_now seen_now"
proof (cases "feed_needs_mark_seen (fh_feed s) last_at")
  case True
  then have "nullish last_at 0 \<le> nullish (nf_pending_seen_at (fh_feed (fst (close_surface last_at s)))) 0"
    by (simp add: close_surface_def dispatch_def reduce_feed_def Let_def le_max_iff_disj)
  with assms(4) show ?thesis by (auto simp: feed_unseen_def feed_has_unseen_def Let_def)
next
  case False
  then have "nullish last_at 0 \<le> seen" using assms(1) by (auto simp: feed_needs_mark_seen_def feed_has_unseen_def)
  with assms(3,4) show ?thesis by (auto simp: feed_unseen_def feed_has_unseen_def Let_def)
qed

definition a_note :: "jsnum \<Rightarrow> jsnum \<Rightarrow> string \<Rightarrow> user_notification" where
  "a_note i stamp kind = \<lparr>un_id = i, un_at = stamp, un_agent = ''ada'', un_kind = kind, un_title = ''t'', un_body = ''b''\<rparr>"

definition opened_feed :: feed_hook where
  "opened_feed = fst (run_events feed_step (mounted_feed 2)
     [FeedMounts, PageArrives 0 [a_note 2 20 ''task'', a_note 1 10 ''task''], OpenSurface 15])"

lemmas feed_eval = mounted_feed_def empty_feed_def feed_step_def feed_effects_def prefetch_effect_def paging_effect_def
  must_page_def load_page_def load_older_def oldest_entry_def dispatch_def reduce_feed_def page_arrives_def
  merge_def newer_first_def a_note_def chain_def run_events.simps Let_def

theorem closing_clears_the_dot_witness:
  "\<not> feed_unseen (fh_feed (fst (close_surface (Some 20) opened_feed))) (Some 20) (Some 15)"
  by (rule closing_clears_the_dot [where seen = 15]) (simp_all add: opened_feed_def feed_eval)

subsection \<open>The gateway's log (vestad/src/user_notification_log.rs)\<close>

text \<open>The log in memory, oldest first; the clock's reading is an argument.\<close>

definition push_entry ::
  "jsnum \<Rightarrow> string \<Rightarrow> string \<Rightarrow> string \<Rightarrow> string \<Rightarrow> user_notification list \<Rightarrow> user_notification list \<times> user_notification" where
  "push_entry now agent kind title body entries =
     (let entry = \<lparr>un_id = (if entries = [] then 1 else un_id (last entries) + 1), un_at = now, un_agent = agent,
                   un_kind = kind, un_title = title, un_body = body\<rparr>
      in (entries @ [entry], entry))"

definition log_page :: "jsnum option \<Rightarrow> nat \<Rightarrow> user_notification list \<Rightarrow> user_notification list" where
  "log_page before limit entries =
     take limit (filter (\<lambda>entry. case before of None \<Rightarrow> True | Some cursor \<Rightarrow> un_id entry < cursor) (rev entries))"

text \<open>The feed with the gateway it reads: an arrival is logged and its delta reaches the feed; a request
  is served from the log at some moment before its answer lands.\<close>

record feed_world =
  fw_hook :: feed_hook
  fw_log :: "user_notification list"
  fw_served :: "nat \<rightharpoonup> user_notification list"

datatype world_event =
  Delivered jsnum string string string string "string option" bool
| Served nat
| Landed nat
| Lost nat
| UserDoes feed_event

definition hook_in :: "feed_world \<Rightarrow> feed_event \<Rightarrow> feed_world \<times> feed_out list" where
  "hook_in w e = (let (h, os) = feed_step (fw_hook w) e in (w\<lparr>fw_hook := h\<rparr>, os))"

definition serve :: "nat \<Rightarrow> feed_world \<Rightarrow> feed_world" where
  "serve k w =
     (case fh_loads (fw_hook w) k of
        None \<Rightarrow> w
      | Some before \<Rightarrow>
          w\<lparr>fw_served := (fw_served w)(k \<mapsto> log_page before (fh_page_size (fw_hook w)) (fw_log w))\<rparr>)"

fun world_step :: "feed_world \<Rightarrow> world_event \<Rightarrow> feed_world \<times> feed_out list" where
  "world_step w (Delivered now agent kind title body viewed focused) =
     (let (entries, entry) = push_entry now agent kind title body (fw_log w)
      in hook_in (w\<lparr>fw_log := entries\<rparr>) (FeedDelta (UserNotificationDelta entry) viewed focused))"
| "world_step w (Served k) = (serve k w, [])"
| "world_step w (Landed k) =
     (case fw_served w k of
        None \<Rightarrow> (w, [])
      | Some page \<Rightarrow> hook_in (w\<lparr>fw_served := (fw_served w)(k := None)\<rparr>) (PageArrives k page))"
| "world_step w (Lost k) = hook_in (w\<lparr>fw_served := (fw_served w)(k := None)\<rparr>) (PageRejects k)"
| "world_step w (UserDoes e) = hook_in w e"

fun user_event :: "feed_event \<Rightarrow> bool" where
  "user_event FeedMounts = True"
| "user_event (OpenSurface seen_at) = True"
| "user_event (CloseSurface last_at) = True"
| "user_event LoadOlder = True"
| "user_event e = False"

fun world_enabled :: "feed_world \<Rightarrow> world_event \<Rightarrow> bool" where
  "world_enabled w (Delivered now agent kind title body viewed focused) =
     (fw_log w = [] \<or> un_at (last (fw_log w)) \<le> now)"
| "world_enabled w (Served k) = (fh_loads (fw_hook w) k \<noteq> None \<and> fw_served w k = None)"
| "world_enabled w (Landed k) = (fw_served w k \<noteq> None)"
| "world_enabled w (Lost k) = (fh_loads (fw_hook w) k \<noteq> None)"
| "world_enabled w (UserDoes e) = user_event e"

definition world_start :: "nat \<Rightarrow> user_notification list \<Rightarrow> feed_world" where
  "world_start page_size entries = \<lparr>fw_hook = mounted_feed page_size, fw_log = entries, fw_served = Map.empty\<rparr>"

subsection \<open>The feed holds an upper part of the log\<close>

definition log_ok :: "user_notification list \<Rightarrow> bool" where
  "log_ok entries \<longleftrightarrow> sorted_wrt (\<lambda>a b. un_id a < un_id b \<and> un_at a \<le> un_at b) entries"

definition upper_in :: "user_notification list \<Rightarrow> user_notification set \<Rightarrow> user_notification set \<Rightarrow> bool" where
  "upper_in entries P Q \<longleftrightarrow> (\<forall>x e. x \<in> P \<longrightarrow> e \<in> set entries \<longrightarrow> un_id x \<le> un_id e \<longrightarrow> e \<in> Q)"

definition feed_ok :: "user_notification list \<Rightarrow> notification_feed \<Rightarrow> bool" where
  "feed_ok entries feed \<longleftrightarrow>
     newest_first (nf_entries feed) \<and> set (nf_entries feed) \<subseteq> set entries \<and>
     upper_in entries (set (nf_entries feed)) (set (nf_entries feed)) \<and>
     (nf_older feed = OlderExhausted \<longrightarrow> set entries \<subseteq> set (nf_entries feed)) \<and>
     (nf_newest feed = NewestReady \<longrightarrow> nf_entries feed = [] \<longrightarrow> entries = [])"

definition newest_in_flight :: "(nat \<rightharpoonup> jsnum option) \<Rightarrow> bool" where
  "newest_in_flight loads \<longleftrightarrow> (\<exists>k. loads k = Some None)"

definition older_in_flight :: "(nat \<rightharpoonup> jsnum option) \<Rightarrow> bool" where
  "older_in_flight loads \<longleftrightarrow> (\<exists>k b. loads k = Some (Some b))"

lemma in_flight_add [simp]:
  "newest_in_flight (loads(n \<mapsto> None))" "older_in_flight (loads(n \<mapsto> Some b))"
  "loads n = None \<Longrightarrow> newest_in_flight loads \<Longrightarrow> newest_in_flight (loads(n \<mapsto> v))"
  "loads n = None \<Longrightarrow> older_in_flight loads \<Longrightarrow> older_in_flight (loads(n \<mapsto> v))"
  by (auto simp: newest_in_flight_def older_in_flight_def) (metis option.distinct(1))+

lemma in_flight_end [simp]:
  "loads n = Some (Some b) \<Longrightarrow> newest_in_flight loads \<Longrightarrow> newest_in_flight (loads(n := None))"
  "loads n = Some None \<Longrightarrow> older_in_flight loads \<Longrightarrow> older_in_flight (loads(n := None))"
  by (auto simp: newest_in_flight_def older_in_flight_def) (metis option.distinct(1) option.inject)+

definition cursors_in :: "(nat \<rightharpoonup> jsnum option) \<Rightarrow> user_notification list \<Rightarrow> bool" where
  "cursors_in loads es \<longleftrightarrow> (\<forall>k b. loads k = Some (Some b) \<longrightarrow> b \<in> un_id ` set es)"

lemma cursors_in_simps [simp]:
  "cursors_in loads es \<Longrightarrow> cursors_in (loads(k \<mapsto> None)) es"
  "cursors_in loads es \<Longrightarrow> b \<in> un_id ` set es \<Longrightarrow> cursors_in (loads(k \<mapsto> Some b)) es"
  "cursors_in loads es \<Longrightarrow> set es \<subseteq> set es' \<Longrightarrow> cursors_in (loads(k := None)) es'"
  unfolding cursors_in_def by (simp_all, blast+)

definition loads_ok :: "feed_hook \<Rightarrow> bool" where
  "loads_ok s \<longleftrightarrow> (\<forall>k. fh_loads s k \<noteq> None \<longrightarrow> k < fh_next s) \<and>
     cursors_in (fh_loads s) (nf_entries (fh_feed s)) \<and>
     (nf_newest (fh_feed s) = NewestLoading \<longrightarrow> newest_in_flight (fh_loads s)) \<and>
     (nf_older (fh_feed s) = OlderLoading \<longrightarrow> older_in_flight (fh_loads s))"

definition page_ok :: "user_notification list \<Rightarrow> notification_feed \<Rightarrow> nat \<Rightarrow> user_notification list \<Rightarrow> bool" where
  "page_ok entries feed n page \<longleftrightarrow> set page \<subseteq> set entries \<and>
     upper_in entries (set page) (set page \<union> set (nf_entries feed)) \<and>
     (length page < n \<longrightarrow> set entries \<subseteq> set page \<union> set (nf_entries feed))"

definition served_ok :: "feed_world \<Rightarrow> bool" where
  "served_ok w \<longleftrightarrow> (\<forall>k page. fw_served w k = Some page \<longrightarrow> fh_loads (fw_hook w) k \<noteq> None \<and>
     page_ok (fw_log w) (fh_feed (fw_hook w)) (fh_page_size (fw_hook w)) page)"

definition world_inv :: "feed_world \<Rightarrow> bool" where
  "world_inv w \<longleftrightarrow> log_ok (fw_log w) \<and> 0 < fh_page_size (fw_hook w) \<and> feed_ok (fw_log w) (fh_feed (fw_hook w)) \<and>
     loads_ok (fw_hook w) \<and> served_ok w"

lemma log_ok_inj: "log_ok entries \<Longrightarrow> x \<in> set entries \<Longrightarrow> y \<in> set entries \<Longrightarrow> un_id x = un_id y \<Longrightarrow> x = y"
  by (induction entries) (auto simp: log_ok_def)

lemma log_ok_at: "log_ok entries \<Longrightarrow> x \<in> set entries \<Longrightarrow> y \<in> set entries \<Longrightarrow> un_id x \<le> un_id y \<Longrightarrow> un_at x \<le> un_at y"
  by (induction entries) (auto simp: log_ok_def)

lemma log_ok_push:
  assumes "log_ok entries" "entries = [] \<or> un_at (last entries) \<le> now"
  shows "log_ok (fst (push_entry now agent kind title body entries))"
    "\<forall>e \<in> set entries. un_id e < un_id (snd (push_entry now agent kind title body entries))"
proof -
  have top: "un_id e \<le> un_id (last entries) \<and> un_at e \<le> un_at (last entries)" if "e \<in> set entries" for e
    using assms(1) that by (induction entries) (auto simp: log_ok_def less_le)
  show "\<forall>e \<in> set entries. un_id e < un_id (snd (push_entry now agent kind title body entries))"
    using top by (fastforce simp: push_entry_def Let_def)
  show "log_ok (fst (push_entry now agent kind title body entries))"
    using assms top by (fastforce simp: push_entry_def log_ok_def sorted_wrt_append Let_def)
qed

lemma overlay_ran:
  assumes "\<And>x y. x \<in> ran m \<union> set es \<Longrightarrow> y \<in> ran m \<union> set es \<Longrightarrow> un_id x = un_id y \<Longrightarrow> x = y"
    "\<And>k v. m k = Some v \<Longrightarrow> k = un_id v"
  shows "ran (overlay m es) = ran m \<union> set es"
  using assms
proof (induction es arbitrary: m)
  case (Cons e es)
  have r: "ran (m(un_id e \<mapsto> e)) = insert e (ran m)"
  proof (cases "m (un_id e)")
    case None
    then show ?thesis by simp
  next
    case (Some v)
    with Cons.prems have "v = e" by (metis UnI1 UnI2 list.set_intros(1) ranI)
    with Some have "m(un_id e \<mapsto> e) = m" by auto
    moreover have "e \<in> ran m" using Some \<open>v = e\<close> by (auto intro: ranI)
    ultimately show ?thesis by auto
  qed
  have "ran (overlay (m(un_id e \<mapsto> e)) es) = ran (m(un_id e \<mapsto> e)) \<union> set es"
  proof (rule Cons.IH)
    show "x = y" if "x \<in> ran (m(un_id e \<mapsto> e)) \<union> set es" "y \<in> ran (m(un_id e \<mapsto> e)) \<union> set es" "un_id x = un_id y" for x y
      by (rule Cons.prems(1)) (use that r in auto)
    show "k = un_id v" if "(m(un_id e \<mapsto> e)) k = Some v" for k v
      using that Cons.prems(2) by (auto split: if_splits)
  qed
  with r show ?case by simp
qed simp

lemma merge_union:
  assumes "log_ok entries" "set a \<subseteq> set entries" "set b \<subseteq> set entries"
  shows "set (merge a b) = set a \<union> set b"
proof -
  have "ran (overlay Map.empty (a @ b)) = ran (Map.empty :: jsnum \<rightharpoonup> user_notification) \<union> set (a @ b)"
  proof (rule overlay_ran)
    show "x = y" if "x \<in> ran (Map.empty :: jsnum \<rightharpoonup> user_notification) \<union> set (a @ b)"
      "y \<in> ran (Map.empty :: jsnum \<rightharpoonup> user_notification) \<union> set (a @ b)" "un_id x = un_id y" for x y
      by (rule log_ok_inj [OF assms(1)]) (use that assms(2,3) in auto)
  qed simp
  then show ?thesis by (simp add: merge_set)
qed

lemma newest_first_take:
  assumes "newest_first es" "x \<in> set (take n es)" "e \<in> set es" "un_id x \<le> un_id e"
  shows "e \<in> set (take n es)"
proof (rule ccontr)
  assume "e \<notin> set (take n es)"
  with assms(3) have "e \<in> set (drop n es)" by (metis Un_iff append_take_drop_id set_append)
  moreover have "newest_first (take n es @ drop n es)" using assms(1) by simp
  ultimately have "un_id e < un_id x" using assms(2) unfolding newest_first_def sorted_wrt_append by blast
  with assms(4) show False by simp
qed

lemma log_newest_first: "log_ok entries \<Longrightarrow> newest_first (filter P (rev entries))"
  unfolding log_ok_def newest_first_def
  by (rule sorted_wrt_filter) (auto simp: sorted_wrt_rev elim: sorted_wrt_mono_rel [rotated])

lemma log_page_ok:
  assumes "log_ok entries" "feed_ok entries feed" "\<And>b. before = Some b \<Longrightarrow> b \<in> un_id ` set (nf_entries feed)"
  shows "page_ok entries feed n (log_page before n entries)"
proof -
  define P where "P = (\<lambda>e :: user_notification. case before of None \<Rightarrow> True | Some cursor \<Rightarrow> un_id e < cursor)"
  let ?L = "filter P (rev entries)"
  have page: "log_page before n entries = take n ?L" by (simp add: log_page_def P_def)
  have nf: "newest_first ?L" by (rule log_newest_first [OF assms(1)])
  have held: "e \<in> set (nf_entries feed)" if e: "e \<in> set entries" "\<not> P e" for e
  proof -
    obtain b where b: "before = Some b" "b \<le> un_id e" using e(2) by (auto simp: P_def split: option.splits)
    with assms(3) obtain x where "x \<in> set (nf_entries feed)" "un_id x = b" by auto
    with assms(2) b(2) e(1) show ?thesis unfolding feed_ok_def upper_in_def by blast
  qed
  have "upper_in entries (set (take n ?L)) (set (take n ?L) \<union> set (nf_entries feed))"
    unfolding upper_in_def
  proof (intro allI impI)
    fix x e assume a: "x \<in> set (take n ?L)" "e \<in> set entries" "un_id x \<le> un_id e"
    show "e \<in> set (take n ?L) \<union> set (nf_entries feed)"
    proof (cases "P e")
      case True
      with a(2) have "e \<in> set ?L" by simp
      from newest_first_take [OF nf a(1) this a(3)] show ?thesis by simp
    qed (use held a(2) in simp)
  qed
  moreover have "set (take n ?L) \<subseteq> set entries" using set_take_subset [of n ?L] by auto
  moreover have "length (take n ?L) < n \<longrightarrow> set entries \<subseteq> set (take n ?L) \<union> set (nf_entries feed)"
    using held by auto
  ultimately show ?thesis by (simp add: page_ok_def page)
qed

lemma page_ok_mono:
  assumes "page_ok entries feed n page" "set (nf_entries feed) \<subseteq> set (nf_entries feed')"
  shows "page_ok entries feed' n page"
  using assms unfolding page_ok_def upper_in_def by blast

text \<open>The four ways the feed changes.\<close>

lemma feed_ok_page:
  assumes "log_ok entries" "feed_ok entries feed" "page_ok entries feed n page" "0 < n"
  shows "feed_ok entries (reduce_feed feed (PageLoaded page before n))"
    "set (nf_entries feed) \<subseteq> set (nf_entries (reduce_feed feed (PageLoaded page before n)))"
proof -
  let ?feed = "reduce_feed feed (PageLoaded page before n)"
  have set: "set (nf_entries ?feed) = set (nf_entries feed) \<union> set page"
    using merge_union [OF assms(1), of "nf_entries feed" page] assms(2,3)
    by (simp add: reduce_feed_def feed_ok_def page_ok_def split: option.split)
  have nf: "newest_first (nf_entries ?feed)" by (simp add: reduce_feed_def merge_newest_first split: option.split)
  have older: "nf_older ?feed = OlderExhausted \<Longrightarrow> length page < n \<or> nf_older feed = OlderExhausted"
    by (auto simp: reduce_feed_def split: option.splits if_splits)
  have up: "upper_in entries (set (nf_entries feed) \<union> set page) (set (nf_entries feed) \<union> set page)"
    using assms(2,3) unfolding feed_ok_def page_ok_def upper_in_def by blast
  have sub: "set (nf_entries feed) \<union> set page \<subseteq> set entries" using assms(2,3) by (simp add: feed_ok_def page_ok_def)
  have all: "set entries \<subseteq> set (nf_entries feed) \<union> set page" if "nf_older ?feed = OlderExhausted"
    using older [OF that] assms(2,3) by (auto simp: feed_ok_def page_ok_def)
  have "entries = []" if "nf_entries ?feed = []"
  proof -
    have "set (nf_entries feed) \<union> set page = {}" using set that by simp
    then have "page = []" by simp
    with assms(3,4) \<open>set (nf_entries feed) \<union> set page = {}\<close> show ?thesis by (simp add: page_ok_def)
  qed
  with nf up sub all show "feed_ok entries ?feed" by (simp add: feed_ok_def set)
  show "set (nf_entries feed) \<subseteq> set (nf_entries ?feed)" by (simp add: set)
qed

lemma feed_ok_status:
  assumes "feed_ok entries feed" "nf_entries feed' = nf_entries feed"
    "nf_older feed' = OlderExhausted \<Longrightarrow> nf_older feed = OlderExhausted"
    "nf_newest feed' = NewestReady \<Longrightarrow> nf_newest feed = NewestReady"
  shows "feed_ok entries feed'"
  using assms unfolding feed_ok_def by simp

lemma feed_ok_arrival:
  assumes "log_ok entries" "feed_ok entries feed" "entries = [] \<or> un_at (last entries) \<le> now"
    and "push_entry now agent kind title body entries = (entries', entry)"
  shows "feed_ok entries' (reduce_feed feed (Arrived entry r))"
    "set (nf_entries (reduce_feed feed (Arrived entry r))) = insert entry (set (nf_entries feed))"
proof -
  note ok = log_ok_push [OF assms(1,3), of agent kind title body, unfolded assms(4) fst_conv snd_conv]
  have e': "entries' = entries @ [entry]" using assms(4) by (auto simp: push_entry_def Let_def)
  have sub: "set (nf_entries feed) \<subseteq> set entries" using assms(2) by (simp add: feed_ok_def)
  then have new: "\<not> (\<exists>item \<in> set (nf_entries feed). un_id item = un_id entry)" using ok(2) by fastforce
  then have red: "nf_entries (reduce_feed feed (Arrived entry r)) = merge (nf_entries feed) [entry]"
    "nf_older (reduce_feed feed (Arrived entry r)) = nf_older feed"
    "nf_newest (reduce_feed feed (Arrived entry r)) = nf_newest feed"
    by (simp_all add: reduce_feed_def)
  have set: "set (merge (nf_entries feed) [entry]) = insert entry (set (nf_entries feed))"
    using merge_union [OF ok(1), of "nf_entries feed" "[entry]"] sub by (auto simp: e')
  then show s: "set (nf_entries (reduce_feed feed (Arrived entry r))) = insert entry (set (nf_entries feed))" by (simp add: red)
  have up: "upper_in entries' (insert entry (set (nf_entries feed))) (insert entry (set (nf_entries feed)))"
    using assms(2) ok(2) unfolding feed_ok_def upper_in_def e' by fastforce
  have "merge (nf_entries feed) [entry] \<noteq> []" using set by force
  with up sub assms(2) show "feed_ok entries' (reduce_feed feed (Arrived entry r))"
    by (auto simp: feed_ok_def red set e' merge_newest_first)
qed

text \<open>What a step of the hook keeps: the page size, the rows it held and the loads in flight but
  those that landed.\<close>

definition extends :: "nat set \<Rightarrow> feed_hook \<Rightarrow> feed_hook \<Rightarrow> bool" where
  "extends landed s s' \<longleftrightarrow> fh_page_size s' = fh_page_size s \<and>
     set (nf_entries (fh_feed s)) \<subseteq> set (nf_entries (fh_feed s')) \<and>
     (\<forall>k. fh_loads s k \<noteq> None \<longrightarrow> k \<notin> landed \<longrightarrow> fh_loads s' k \<noteq> None)"

lemma extends_trans: "extends A s s' \<Longrightarrow> extends {} s' s'' \<Longrightarrow> extends A s s''"
  unfolding extends_def by (metis empty_iff order_trans)

lemma extends_refl [simp]: "extends A s s"
  by (simp add: extends_def)

definition hook_ok :: "user_notification list \<Rightarrow> feed_hook \<Rightarrow> bool" where
  "hook_ok entries s \<longleftrightarrow> feed_ok entries (fh_feed s) \<and> loads_ok s"

lemma load_page_ok:
  assumes "hook_ok entries s" "\<And>b. before = Some b \<Longrightarrow> b \<in> un_id ` set (nf_entries (fh_feed s))"
  shows "hook_ok entries (fst (load_page before s)) \<and> extends {} s (fst (load_page before s))"
proof -
  have fresh: "fh_loads s (fh_next s) = None"
    using assms(1) unfolding hook_ok_def loads_ok_def by (metis less_irrefl)
  show ?thesis
  proof (cases before)
    case None
    have "feed_ok entries (reduce_feed (fh_feed s) (PageLoading None))"
      by (rule feed_ok_status [of _ "fh_feed s"]) (use assms(1) in \<open>simp_all add: hook_ok_def reduce_feed_def\<close>)
    with None assms(1) fresh show ?thesis
      by (auto simp: hook_ok_def load_page_def dispatch_def reduce_feed_def loads_ok_def extends_def less_Suc_eq)
  next
    case (Some b)
    have "feed_ok entries (reduce_feed (fh_feed s) (PageLoading (Some b)))"
      by (rule feed_ok_status [of _ "fh_feed s"]) (use assms(1) in \<open>simp_all add: hook_ok_def reduce_feed_def\<close>)
    with Some assms fresh show ?thesis
      by (auto simp: hook_ok_def load_page_def dispatch_def reduce_feed_def loads_ok_def extends_def less_Suc_eq)
  qed
qed

lemma load_older_ok:
  "hook_ok entries s \<Longrightarrow> hook_ok entries (fst (load_older s)) \<and> extends {} s (fst (load_older s))"
  using load_page_ok [of entries s "Some (un_id (last (nf_entries (fh_feed s))))"]
  by (simp add: load_older_def oldest_entry_def)

lemma feed_effects_ok:
  assumes "hook_ok entries s"
  shows "hook_ok entries (fst (feed_effects s)) \<and> extends {} s (fst (feed_effects s))"
proof -
  let ?t = "fst (prefetch_effect s)"
  have "hook_ok entries ?t \<and> extends {} s ?t"
    using assms load_page_ok [OF assms, of None] by (simp add: prefetch_effect_def)
  moreover then have "hook_ok entries (fst (paging_effect ?t)) \<and> extends {} ?t (fst (paging_effect ?t))"
    using load_older_ok [of entries ?t] by (simp add: paging_effect_def)
  ultimately show ?thesis by (auto simp: feed_effects_def intro: extends_trans)
qed

text \<open>After the effects nothing is left to page: the watermark is reached, or a load runs.\<close>

lemma effects_settle: "\<not> must_page (fst (feed_effects s)) \<and> nf_newest (fh_feed (fst (feed_effects s))) \<noteq> NewestIdle"
proof -
  have older: "\<not> must_page (fst (load_older t)) \<and> nf_newest (fh_feed (fst (load_older t))) = nf_newest (fh_feed t)"
    if "must_page t" for t
    using that by (auto simp: load_older_def load_page_def dispatch_def reduce_feed_def must_page_def oldest_entry_def
        split: option.splits)
  have newest: "nf_newest (fh_feed (fst (prefetch_effect s))) \<noteq> NewestIdle"
    by (simp add: prefetch_effect_def load_page_def dispatch_def reduce_feed_def)
  show ?thesis using older [of "fst (prefetch_effect s)"] newest
    by (auto simp: feed_effects_def paging_effect_def)
qed

lemma dispatch_status_ok:
  assumes "hook_ok entries s" "nf_entries (reduce_feed (fh_feed s) a) = nf_entries (fh_feed s)"
    "nf_older (reduce_feed (fh_feed s) a) = nf_older (fh_feed s)"
    "nf_newest (reduce_feed (fh_feed s) a) = nf_newest (fh_feed s)"
  shows "hook_ok entries (dispatch a s) \<and> extends {} s (dispatch a s)"
  using assms feed_ok_status [of entries "fh_feed s" "reduce_feed (fh_feed s) a"]
  by (simp add: hook_ok_def dispatch_def loads_ok_def extends_def)

lemma user_event_ok:
  assumes "hook_ok entries s" "user_event e"
  shows "hook_ok entries (fst (feed_handle s e)) \<and> extends {} s (fst (feed_handle s e))"
proof (cases e)
  case (OpenSurface seen_at)
  have "hook_ok entries (dispatch (OpenFeed seen_at) s) \<and> extends {} s (dispatch (OpenFeed seen_at) s)"
    by (rule dispatch_status_ok [OF assms(1)]) (simp_all add: reduce_feed_def)
  with OpenSurface load_page_ok [of entries "dispatch (OpenFeed seen_at) s" None] show ?thesis
    by (auto intro: extends_trans)
next
  case (CloseSurface last_at)
  have c: "hook_ok entries (dispatch CloseFeed s) \<and> extends {} s (dispatch CloseFeed s)"
    by (rule dispatch_status_ok [OF assms(1)]) (simp_all add: reduce_feed_def)
  then have "hook_ok entries (dispatch (MarkedSeen t) (dispatch CloseFeed s)) \<and>
      extends {} (dispatch CloseFeed s) (dispatch (MarkedSeen t) (dispatch CloseFeed s))" for t
    by (intro dispatch_status_ok) (simp_all add: reduce_feed_def)
  with c CloseSurface show ?thesis by (auto simp: close_surface_def Let_def intro: extends_trans)
qed (use assms load_older_ok in auto)

lemma landed_page_ok:
  assumes "log_ok entries" "hook_ok entries s" "fh_loads s k \<noteq> None" "page_ok entries (fh_feed s) (fh_page_size s) page"
    "0 < fh_page_size s"
  shows "hook_ok entries (page_arrives k page s) \<and> extends {k} s (page_arrives k page s)"
proof -
  obtain before where b: "fh_loads s k = Some before" using assms(3) by auto
  have l: "loads_ok s" "feed_ok entries (fh_feed s)" using assms(2) by (simp_all add: hook_ok_def)
  note f = feed_ok_page [OF assms(1) l(2) assms(4,5), of before]
  have "loads_ok (page_arrives k page s)"
  proof (cases before)
    case None
    with b l(1) f(2) show ?thesis
      by (auto simp: page_arrives_def dispatch_def loads_ok_def) (auto simp: reduce_feed_def split: if_splits)
  next
    case (Some c)
    with b l(1) f(2) show ?thesis
      by (auto simp: page_arrives_def dispatch_def loads_ok_def) (auto simp: reduce_feed_def split: if_splits)
  qed
  with b f show ?thesis by (simp add: hook_ok_def page_arrives_def dispatch_def extends_def)
qed

lemma rejected_page_ok:
  assumes "hook_ok entries s" "fh_loads s k \<noteq> None"
  shows "hook_ok entries (page_rejects k s) \<and> extends {k} s (page_rejects k s)"
proof -
  obtain before where b: "fh_loads s k = Some before" using assms(2) by auto
  have l: "loads_ok s" "feed_ok entries (fh_feed s)" using assms(1) by (simp_all add: hook_ok_def)
  have "feed_ok entries (reduce_feed (fh_feed s) (PageFailed before))"
    by (rule feed_ok_status [OF l(2)]) (auto simp: reduce_feed_def split: option.splits)
  moreover have "loads_ok (page_rejects k s)"
    using b l(1) by (cases before) (auto simp: page_rejects_def dispatch_def loads_ok_def reduce_feed_def)
  ultimately show ?thesis
    using b by (auto simp: hook_ok_def page_rejects_def dispatch_def extends_def reduce_feed_def split: option.split)
qed

subsection \<open>The world's invariant\<close>

lemma served_keep:
  assumes "served_ok w" "fw_log w' = fw_log w" "extends A (fw_hook w) (fw_hook w')"
    "\<And>k. fw_served w' k \<noteq> None \<Longrightarrow> k \<notin> A \<and> fw_served w' k = fw_served w k"
  shows "served_ok w'"
  unfolding served_ok_def
proof (intro allI impI)
  fix k page assume k: "fw_served w' k = Some page"
  with assms(4) [of k] have "k \<notin> A" "fw_served w k = Some page" by auto
  with assms(1) have old: "fh_loads (fw_hook w) k \<noteq> None"
    "page_ok (fw_log w) (fh_feed (fw_hook w)) (fh_page_size (fw_hook w)) page" by (auto simp: served_ok_def)
  with assms(2,3) \<open>k \<notin> A\<close> show "fh_loads (fw_hook w') k \<noteq> None \<and>
      page_ok (fw_log w') (fh_feed (fw_hook w')) (fh_page_size (fw_hook w')) page"
    by (auto simp: extends_def intro: page_ok_mono)
qed

lemma world_invI:
  assumes "log_ok (fw_log w)" "0 < fh_page_size (fw_hook w)" "hook_ok (fw_log w) (fw_hook w)" "served_ok w"
  shows "world_inv w"
  using assms by (simp add: world_inv_def hook_ok_def)

lemma hook_in_inv:
  assumes "world_inv w" "hook_ok (fw_log w) (fst (feed_handle (fw_hook w) e))"
    "extends A (fw_hook w) (fst (feed_handle (fw_hook w) e))"
    "\<And>k. served k \<noteq> None \<Longrightarrow> k \<notin> A \<and> served k = fw_served w k"
  shows "world_inv (fst (hook_in (w\<lparr>fw_served := served\<rparr>) e))"
proof -
  let ?h = "fst (feed_step (fw_hook w) e)"
  from feed_effects_ok [OF assms(2)] assms(3)
  have h: "hook_ok (fw_log w) ?h" "extends A (fw_hook w) ?h" by (auto simp: feed_step_def intro: extends_trans)
  have "served_ok (w\<lparr>fw_served := served, fw_hook := ?h\<rparr>)"
    by (rule served_keep [of w _ A]) (use assms(1,4) h(2) in \<open>simp_all add: world_inv_def\<close>)
  with h assms(1) have "world_inv (w\<lparr>fw_served := served, fw_hook := ?h\<rparr>)"
    by (intro world_invI) (simp_all add: world_inv_def extends_def)
  then show ?thesis by (simp add: hook_in_def split_beta)
qed

lemma page_ok_log:
  assumes "page_ok entries feed n page" "set (nf_entries feed') = insert entry (set (nf_entries feed))"
  shows "page_ok (entries @ [entry]) feed' n page"
  using assms unfolding page_ok_def upper_in_def by auto

lemma world_inv_delivered:
  assumes "world_inv w" "fw_log w = [] \<or> un_at (last (fw_log w)) \<le> now"
  shows "world_inv (fst (world_step w (Delivered now agent kind title body viewed focused)))"
proof -
  obtain log' entry where p: "push_entry now agent kind title body (fw_log w) = (log', entry)" by fastforce
  then have log': "log' = fw_log w @ [entry]" by (auto simp: push_entry_def Let_def)
  have w: "log_ok (fw_log w)" "feed_ok (fw_log w) (fh_feed (fw_hook w))" "loads_ok (fw_hook w)" "served_ok w"
    using assms(1) by (simp_all add: world_inv_def)
  let ?a = "Arrived entry (notification_read_in_place entry viewed focused)"
  let ?h = "dispatch ?a (fw_hook w)"
  note f = feed_ok_arrival [OF w(1,2) assms(2) p, of "notification_read_in_place entry viewed focused"]
  have status: "nf_newest (reduce_feed fd ?a) = nf_newest fd" "nf_older (reduce_feed fd ?a) = nf_older fd" for fd
    by (simp_all add: reduce_feed_def)
  have "cursors_in (fh_loads (fw_hook w)) (nf_entries (reduce_feed (fh_feed (fw_hook w)) ?a))"
    using w(3) f(2) unfolding loads_ok_def cursors_in_def by (metis image_insert insertCI)
  then have h: "hook_ok log' ?h" using f(1) w(3) by (simp add: hook_ok_def loads_ok_def dispatch_def status)
  let ?w = "w\<lparr>fw_log := log', fw_hook := ?h\<rparr>"
  have "served_ok ?w" unfolding served_ok_def
  proof (intro allI impI)
    fix k page assume "fw_served ?w k = Some page"
    with w(4) have "fh_loads (fw_hook w) k \<noteq> None" "page_ok (fw_log w) (fh_feed (fw_hook w)) (fh_page_size (fw_hook w)) page"
      by (auto simp: served_ok_def)
    with page_ok_log [OF _ f(2)] show "fh_loads (fw_hook ?w) k \<noteq> None \<and>
        page_ok (fw_log ?w) (fh_feed (fw_hook ?w)) (fh_page_size (fw_hook ?w)) page"
      by (simp add: log' dispatch_def)
  qed
  then have inv: "world_inv ?w"
    using h assms(1) log_ok_push(1) [OF w(1) assms(2), of agent kind title body] p
    by (intro world_invI) (simp_all add: world_inv_def dispatch_def)
  have "world_inv (fst (hook_in (?w\<lparr>fw_served := fw_served ?w\<rparr>) FeedMounts))"
    by (rule hook_in_inv [OF inv, of _ "{}"]) (use h in simp_all)
  moreover have "fst (world_step w (Delivered now agent kind title body viewed focused)) =
      fst (hook_in (?w\<lparr>fw_served := fw_served ?w\<rparr>) FeedMounts)"
    by (simp add: p hook_in_def feed_step_def on_feed_delta_def logged_from_delta_def split_beta)
  ultimately show ?thesis by simp
qed

lemma world_inv_step:
  assumes "world_inv w" "world_enabled w e"
  shows "world_inv (fst (world_step w e))"
proof (cases e)
  case (Delivered now agent kind title body viewed focused)
  then have "fw_log w = [] \<or> un_at (last (fw_log w)) \<le> now" using assms(2) by simp
  from world_inv_delivered [OF assms(1) this] Delivered show ?thesis by simp
next
  case (Served k)
  then obtain before where b: "fh_loads (fw_hook w) k = Some before" using assms(2) by auto
  have "before = Some c \<Longrightarrow> c \<in> un_id ` set (nf_entries (fh_feed (fw_hook w)))" for c
    using assms(1) b unfolding world_inv_def loads_ok_def cursors_in_def by blast
  from log_page_ok [OF _ _ this] assms(1)
  have "page_ok (fw_log w) (fh_feed (fw_hook w)) (fh_page_size (fw_hook w))
      (log_page before (fh_page_size (fw_hook w)) (fw_log w))" by (simp add: world_inv_def)
  with Served b assms(1) show ?thesis
    by (auto simp: world_inv_def serve_def served_ok_def split: if_splits)
next
  case (Landed k)
  then obtain page where p: "fw_served w k = Some page" using assms(2) by auto
  let ?served = "(fw_served w)(k := None)"
  have w: "fh_loads (fw_hook w) k \<noteq> None" "page_ok (fw_log w) (fh_feed (fw_hook w)) (fh_page_size (fw_hook w)) page"
    "log_ok (fw_log w)" "hook_ok (fw_log w) (fw_hook w)" "0 < fh_page_size (fw_hook w)"
    using assms(1) p by (auto simp: world_inv_def served_ok_def hook_ok_def)
  from landed_page_ok [OF w(3,4,1,2,5)]
  have "world_inv (fst (hook_in (w\<lparr>fw_served := ?served\<rparr>) (PageArrives k page)))"
    by (intro hook_in_inv [OF assms(1), where A = "{k}"]) (auto split: if_splits)
  with Landed p show ?thesis by simp
next
  case (Lost k)
  let ?served = "(fw_served w)(k := None)"
  have w: "fh_loads (fw_hook w) k \<noteq> None" "hook_ok (fw_log w) (fw_hook w)"
    using assms Lost by (auto simp: world_inv_def hook_ok_def)
  from rejected_page_ok [OF w(2,1)]
  have "world_inv (fst (hook_in (w\<lparr>fw_served := ?served\<rparr>) (PageRejects k)))"
    by (intro hook_in_inv [OF assms(1), where A = "{k}"]) (auto split: if_splits)
  with Lost show ?thesis by simp
next
  case (UserDoes ev)
  have "hook_ok (fw_log w) (fw_hook w)" using assms(1) by (simp add: world_inv_def hook_ok_def)
  from user_event_ok [OF this] UserDoes assms(2)
  have "world_inv (fst (hook_in (w\<lparr>fw_served := fw_served w\<rparr>) ev))"
    by (intro hook_in_inv [OF assms(1), where A = "{}"]) auto
  with UserDoes show ?thesis by simp
qed

interpretation feeding: machine world_step world_enabled world_inv
  by unfold_locales (rule world_inv_step)

lemma world_inv_start: "log_ok entries \<Longrightarrow> 0 < n \<Longrightarrow> world_inv (world_start n entries)"
  by (rule world_invI)
    (simp_all add: world_start_def mounted_feed_def empty_feed_def hook_ok_def feed_ok_def loads_ok_def served_ok_def
      newest_first_def upper_in_def cursors_in_def)

subsection \<open>The whole unseen set\<close>

definition settled :: "feed_world \<Rightarrow> bool" where
  "settled w \<longleftrightarrow> \<not> must_page (fw_hook w) \<and> nf_newest (fh_feed (fw_hook w)) \<noteq> NewestIdle"

lemma hook_in_settled: "settled (fst (hook_in w e))"
  using effects_settle by (simp add: settled_def hook_in_def feed_step_def split_beta)

interpretation settling: machine world_step world_enabled settled
proof unfold_locales
  fix w e assume "settled w"
  then show "settled (fst (world_step w e))"
    using hook_in_settled
    by (cases e) (auto simp: serve_def settled_def split_beta Let_def split: option.split)
qed

lemma split_by_seen_filter:
  "split_by_seen es seen_at = (filter (\<lambda>e. un_at e > seen_at) es, filter (\<lambda>e. \<not> un_at e > seen_at) es)"
  by (induction es) (simp_all add: Let_def)

lemma newest_first_unique:
  assumes "newest_first xs" "newest_first ys" "set xs = set ys"
  shows "xs = ys"
  using assms
proof (induction xs arbitrary: ys)
  case (Cons x xs)
  then obtain y ys' where ys: "ys = y # ys'" by (cases ys) auto
  have "x = y"
  proof (rule ccontr)
    assume "x \<noteq> y"
    with Cons.prems(3) ys have "x \<in> set ys'" "y \<in> set xs" by auto
    with Cons.prems(1,2) ys show False by (fastforce simp: newest_first_def)
  qed
  moreover have "x \<notin> set xs" "y \<notin> set ys'" using Cons.prems(1,2) ys by (auto simp: newest_first_def)
  ultimately have "set xs = set ys'" using Cons.prems(3) ys by auto
  with Cons \<open>x = y\<close> ys show ?case by (simp add: newest_first_def)
qed simp

lemma newest_first_filter: "newest_first es \<Longrightarrow> newest_first (filter P es)"
  by (simp add: newest_first_def sorted_wrt_filter)

lemma newest_first_last: "newest_first es \<Longrightarrow> x \<in> set es \<Longrightarrow> un_id (last es) \<le> un_id x"
  by (induction es) (auto simp: newest_first_def less_le)

text \<open>C3: A history surface on a real watermark offers the whole unseen set, as long as no live delta is
  missed: where every notification that is logged after the feed mounted reaches it as it is logged, with
  stamps that never go back, then once nothing is in flight and nothing failed the unseen section is every
  logged notification stamped after the watermark, newest first, however the pages and the live arrivals
  interleaved. (After missed deltas a reopened feed can hold a gap: \<open>reopen_leaves_a_gap\<close>.)\<close>

theorem whole_unseen_set_is_offered:
  assumes "log_ok entries" "0 < n"
    and "legal_events world_step world_enabled (world_start n entries) (UserDoes FeedMounts # es)"
    and "w = fst (run_events world_step (world_start n entries) (UserDoes FeedMounts # es))"
    and "nf_open (fh_feed (fw_hook w))" "nf_seen_at (fh_feed (fw_hook w)) = Some seen" "seen \<noteq> 0"
    and "fh_loads (fw_hook w) = Map.empty"
    and "nf_newest (fh_feed (fw_hook w)) \<noteq> NewestFailed" "nf_older (fh_feed (fw_hook w)) \<noteq> OlderFailed"
  shows "map_option fst (feed_sections (fh_feed (fw_hook w))) =
    Some (filter (\<lambda>e. un_at e > seen) (rev (fw_log w)))"
proof -
  let ?feed = "fh_feed (fw_hook w)"
  let ?w1 = "fst (world_step (world_start n entries) (UserDoes FeedMounts))"
  have "settled ?w1" using hook_in_settled by simp
  then have "settled w" using settling.run_inv [of ?w1 es] assms(3,4) by simp
  then have idle: "\<not> must_page (fw_hook w)" "nf_newest ?feed \<noteq> NewestIdle" by (simp_all add: settled_def)
  have "world_inv w" unfolding assms(4) by (rule feeding.run_inv [OF world_inv_start [OF assms(1,2)] assms(3)])
  then have inv: "log_ok (fw_log w)" "feed_ok (fw_log w) ?feed" "loads_ok (fw_hook w)" by (simp_all add: world_inv_def)
  have none: "\<not> newest_in_flight (fh_loads (fw_hook w))" "\<not> older_in_flight (fh_loads (fw_hook w))"
    by (simp_all add: assms(8) newest_in_flight_def older_in_flight_def)
  then have ready: "nf_newest ?feed = NewestReady"
    using inv(3) idle(2) assms(9) by (cases "nf_newest ?feed") (simp_all add: loads_ok_def)
  have older: "nf_older ?feed = OlderMore \<or> nf_older ?feed = OlderExhausted"
    using inv(3) none assms(10) by (cases "nf_older ?feed") (simp_all add: loads_ok_def)
  have held: "e \<in> set (nf_entries ?feed)" if e: "e \<in> set (fw_log w)" "un_at e > seen" for e
    using older
  proof
    assume "nf_older ?feed = OlderExhausted"
    with inv(2) e(1) show ?thesis by (auto simp: feed_ok_def)
  next
    assume more: "nf_older ?feed = OlderMore"
    have ne: "nf_entries ?feed \<noteq> []" using inv(2) ready e(1) by (auto simp: feed_ok_def)
    let ?o = "last (nf_entries ?feed)"
    have o: "?o \<in> set (nf_entries ?feed)" "?o \<in> set (fw_log w)" using ne inv(2) by (auto simp: feed_ok_def)
    have "un_at ?o \<le> seen"
      using idle(1) ready more assms(5-7) ne by (simp add: must_page_def oldest_entry_def)
    with e(2) have "\<not> un_at e \<le> un_at ?o" by simp
    then have "un_id ?o \<le> un_id e" using log_ok_at [OF inv(1) e(1) o(2)] linear by blast
    with inv(2) o(1) e(1) show ?thesis unfolding feed_ok_def upper_in_def by blast
  qed
  have "filter (\<lambda>e. un_at e > seen) (nf_entries ?feed) = filter (\<lambda>e. un_at e > seen) (rev (fw_log w))"
  proof (rule newest_first_unique)
    show "newest_first (filter (\<lambda>e. un_at e > seen) (nf_entries ?feed))"
      using inv(2) by (intro newest_first_filter) (simp add: feed_ok_def)
    show "newest_first (filter (\<lambda>e. un_at e > seen) (rev (fw_log w)))" by (rule log_newest_first [OF inv(1)])
    show "set (filter (\<lambda>e. un_at e > seen) (nf_entries ?feed)) = set (filter (\<lambda>e. un_at e > seen) (rev (fw_log w)))"
      using held inv(2) by (auto simp: feed_ok_def)
  qed
  with assms(6,7) show ?thesis by (simp add: feed_sections_def split_by_seen_filter)
qed

definition caught_up :: "world_event list" where
  "caught_up = [Served 0, Landed 0, Delivered 30 ''ada'' ''task'' ''t'' ''b'' None True, UserDoes (OpenSurface 5),
     Served 1, Landed 1, Served 2, Landed 2]"

lemmas world_eval = world_start_def hook_in_def serve_def log_page_def push_entry_def on_feed_delta_def
  logged_from_delta_def notification_read_in_place_def feed_eval

theorem whole_unseen_set_is_offered_witness:
  "map_option fst (feed_sections (fh_feed (fw_hook
      (fst (run_events world_step (world_start 2 [a_note 1 4 ''task'', a_note 2 10 ''task'', a_note 3 20 ''task''])
        (UserDoes FeedMounts # caught_up)))))) =
    Some (filter (\<lambda>e. un_at e > 5) (rev (fw_log
      (fst (run_events world_step (world_start 2 [a_note 1 4 ''task'', a_note 2 10 ''task'', a_note 3 20 ''task''])
        (UserDoes FeedMounts # caught_up))))))"
  by (rule whole_unseen_set_is_offered [OF _ _ _ refl])
    (simp_all add: caught_up_def log_ok_def world_eval fun_eq_iff)

text \<open>The deltas of a disconnected stretch are missed, and the newest page that the next open loads
  can lie wholly above what was held: the rows between are never asked for, since the paging
  goes back from the oldest row.  Here the surface is open on the watermark 5, nothing is in
  flight and nothing failed, and the rows 4 and 5, both unseen, are not offered.\<close>

definition reconnected :: "feed_event list" where
  "reconnected = [FeedMounts, PageArrives 0 [a_note 3 4 ''task'', a_note 2 3 ''task''], OpenSurface 5,
     PageArrives 1 [a_note 7 9 ''task'', a_note 6 8 ''task'']]"

lemma reopen_leaves_a_gap:
  "let s = fst (run_events feed_step (mounted_feed 2) reconnected);
       log = map (\<lambda>i. a_note i (i + (if i > 3 then 2 else 1)) ''task'') [1, 2, 3, 4, 5, 6, 7]
   in nf_open (fh_feed s) \<and> fh_loads s = Map.empty \<and> nf_newest (fh_feed s) = NewestReady \<and>
      log_page None 2 log = [a_note 7 9 ''task'', a_note 6 8 ''task''] \<and>
      map un_id (filter (\<lambda>e. un_at e > 5) (rev log)) = [7, 6, 5, 4] \<and>
      map_option (map un_id \<circ> fst) (feed_sections (fh_feed s)) = Some [7, 6]"
  by (simp add: reconnected_def feed_eval log_page_def feed_sections_def fun_eq_iff)

subsection \<open>The pill\<close>

text \<open>Grouped: no kind comes back after another kind.\<close>

fun grouped :: "pill_notification list \<Rightarrow> bool" where
  "grouped [] = True"
| "grouped [q] = True"
| "grouped (q # r # qs) \<longleftrightarrow> grouped (r # qs) \<and>
     (un_kind (pn_note q) = un_kind (pn_note r) \<or> un_kind (pn_note q) \<notin> (\<lambda>q. un_kind (pn_note q)) ` set (r # qs))"

definition of_kind :: "string \<Rightarrow> pill_notification list \<Rightarrow> pill_notification list" where
  "of_kind kind = filter (\<lambda>q. un_kind (pn_note q) = kind)"

lemma insert_after_kind_none:
  "insert_after_kind qs item = None \<longleftrightarrow> un_kind (pn_note item) \<notin> (\<lambda>q. un_kind (pn_note q)) ` set qs"
  by (induction qs) (auto split: option.splits)

lemma insert_after_kind_some:
  "insert_after_kind qs item = Some qs' \<Longrightarrow>
     mset qs' = add_mset item (mset qs) \<and> set qs' = insert item (set qs) \<and> qs \<noteq> [] \<and> hd qs' = hd qs \<and>
     of_kind k qs' = (if un_kind (pn_note item) = k then of_kind k qs @ [item] else of_kind k qs)"
proof (induction qs arbitrary: qs')
  case (Cons q qs)
  show ?case
  proof (cases "insert_after_kind qs item")
    case None
    with Cons.prems have q: "un_kind (pn_note q) = un_kind (pn_note item)" "qs' = q # item # qs" by (auto split: if_splits)
    have "of_kind (un_kind (pn_note item)) qs = []"
      using None unfolding insert_after_kind_none of_kind_def filter_empty_conv by (metis imageI)
    with q show ?thesis by (auto simp: of_kind_def)
  next
    case (Some rs)
    with Cons.prems have "qs' = q # rs" by simp
    with Cons.IH [OF Some] show ?thesis by (auto simp: of_kind_def)
  qed
qed simp

lemma grouped_insert: "insert_after_kind qs item = Some qs' \<Longrightarrow> grouped qs \<Longrightarrow> grouped qs'"
proof (induction qs arbitrary: qs' rule: grouped.induct)
  case (3 q r qs)
  show ?case
  proof (cases "insert_after_kind (r # qs) item")
    case None
    with 3 show ?thesis by (auto simp: insert_after_kind_none split: if_splits)
  next
    case (Some rs)
    with "3.prems" have qs': "qs' = q # rs" by simp
    from insert_after_kind_some [OF Some] obtain rs' where rs: "rs = r # rs'" "set rs = insert item (set (r # qs))"
      by (cases rs) auto
    have ni: "un_kind (pn_note item) \<in> (\<lambda>q. un_kind (pn_note q)) ` set (r # qs)"
      using Some insert_after_kind_none [of "r # qs" item] by (metis option.distinct(1))
    have "grouped rs" using 3 Some by simp
    with "3.prems"(2) rs ni show ?thesis unfolding qs' by auto
  qed
qed (auto split: if_splits)

lemma grouped_snoc:
  "grouped qs \<Longrightarrow> un_kind (pn_note item) \<notin> (\<lambda>q. un_kind (pn_note q)) ` set qs \<Longrightarrow> grouped (qs @ [item])"
  by (induction qs rule: grouped.induct) auto

text \<open>The pill's queue keeps each kind together and each kind in arrival order, and an arrival never
  moves the item that is shown.\<close>

theorem pill_queue_groups_by_kind:
  assumes "grouped queue"
  shows "grouped (enqueue_pill_notification queue item) \<and>
    of_kind k (enqueue_pill_notification queue item) =
      (if un_kind (pn_note item) = k then of_kind k queue @ [item] else of_kind k queue) \<and>
    take 1 (enqueue_pill_notification queue item) = take 1 (queue @ [item])"
proof (cases "insert_after_kind queue item")
  case None
  with grouped_snoc [OF assms] show ?thesis
    by (simp add: enqueue_pill_notification_def of_kind_def) (simp add: insert_after_kind_none)
next
  case (Some queue')
  from insert_after_kind_some [OF this, of k] grouped_insert [OF this assms]
  have "queue' \<noteq> []" "queue \<noteq> []" "hd queue' = hd queue" "grouped queue'"
    "of_kind k queue' = (if un_kind (pn_note item) = k then of_kind k queue @ [item] else of_kind k queue)" by auto
  moreover from this have "take 1 queue' = take 1 (queue @ [item])" by (cases queue; cases queue') simp_all
  moreover have "enqueue_pill_notification queue item = queue'" by (simp add: enqueue_pill_notification_def Some)
  ultimately show ?thesis by simp
qed

definition pill_row :: "jsnum \<Rightarrow> string \<Rightarrow> pill_notification" where
  "pill_row i kind = \<lparr>pn_note = a_note i 1 kind, pn_orb = None\<rparr>"

theorem pill_queue_groups_by_kind_witness:
  "grouped (enqueue_pill_notification [pill_row 1 ''task'', pill_row 2 ''message''] (pill_row 3 ''task'')) \<and>
    of_kind ''task'' (enqueue_pill_notification [pill_row 1 ''task'', pill_row 2 ''message''] (pill_row 3 ''task'')) =
      (if un_kind (pn_note (pill_row 3 ''task'')) = ''task''
       then of_kind ''task'' [pill_row 1 ''task'', pill_row 2 ''message''] @ [pill_row 3 ''task'']
       else of_kind ''task'' [pill_row 1 ''task'', pill_row 2 ''message'']) \<and>
    take 1 (enqueue_pill_notification [pill_row 1 ''task'', pill_row 2 ''message''] (pill_row 3 ''task'')) =
      take 1 ([pill_row 1 ''task'', pill_row 2 ''message''] @ [pill_row 3 ''task''])"
  by (rule pill_queue_groups_by_kind) (simp add: pill_row_def a_note_def)

text \<open>The timer always runs for the item that is shown, so an arrival behind it never resets it.\<close>

lemma pill_timer_is_the_heads:
  "pl_timer (foldl pill_step \<lparr>pl_queue = [], pl_timer = None\<rparr> es) =
     head_id (foldl pill_step \<lparr>pl_queue = [], pl_timer = None\<rparr> es)"
proof -
  have "pl_timer s = head_id s \<Longrightarrow> pl_timer (pill_step s e) = head_id (pill_step s e)" for s e
    by (cases e) (auto simp: pill_effects_def head_id_def split: option.split)
  then have "pl_timer s = head_id s \<Longrightarrow> pl_timer (foldl pill_step s es) = head_id (foldl pill_step s es)" for s
    by (induction es arbitrary: s) simp_all
  then show ?thesis by (simp add: head_id_def)
qed

end
