(* ===== verification/PrivacyLock.thy ===== *)
theory PrivacyLock
  imports MobileGates
begin

section \<open>The app lock of the mobile app (apps/mobile/src/privacy/privacy-provider.tsx)\<close>

text \<open>
  The provider's refs and React state as one record: a ref and the state set beside it are one field, and
  a state change is rendered before the next event.  Every asynchronous call of the provider is a task
  that waits for the one native answer it awaits; an event is a call of a screen, a change of the app's
  state, or the answer a task waits for.  The secure store and the app-switcher protection are part of the
  state, so that what they hold can be compared with what the provider believes: a native call that
  rejects has changed nothing.  \<open>native\<close> says whether the platform has a protection to switch (iOS and
  Android do); the name of the authentication method and the warnings to the console are left out.
\<close>

definition locks_app :: "string \<Rightarrow> bool" where
  "locks_app app_state \<longleftrightarrow> app_state = ''background''"

definition cancelled_auth_errors :: "string list" where
  "cancelled_auth_errors = [''user_cancel'', ''app_cancel'', ''system_cancel'']"

definition authentication_error :: "string \<Rightarrow> string" where
  "authentication_error e =
     (if e = ''not_enrolled''
      then ''Set up Face ID, Touch ID, or fingerprint authentication in your device settings first.''
      else if e = ''not_available'' then ''Device authentication is not available on this device.''
      else if e = ''passcode_not_set'' then ''Set a device passcode before enabling App Lock.''
      else if e = ''lockout''
      then ''Device authentication is temporarily locked. Unlock your device and try again.''
      else ''Vesta could not verify your identity. Please try again.'')"

text \<open>\<open>JSON.stringify\<close> of the settings.\<close>

definition json_of_privacy :: "privacy_settings \<Rightarrow> json" where
  "json_of_privacy p =
     JObj [(''appLockEnabled'', JBool (pv_app_lock p)), (''hideAppSwitcherPreview'', JBool (pv_hide_preview p))]"

subsection \<open>State and events\<close>

text \<open>Who called \<open>updateSettings\<close>, and where its run waits.\<close>

datatype update_caller = SwitchOff | SwitchOn | HidePreview

datatype update_stage = ProtectFirst | WriteNext | ProtectAfter | RollBackProtection | RollBackWrite

record privacy_update =
  pu_caller :: update_caller
  pu_stage :: update_stage
  pu_previous :: privacy_settings
  pu_next :: privacy_settings

datatype privacy_task =
    ReadingSettings nat
  | ApplyingSettings nat privacy_settings
  | Unlocking
  | ProbingHardware
  | ConfirmingUser
  | UpdatingSettings privacy_update

record privacy_lock =
  pr_settings :: privacy_settings
  pr_hydrated :: bool
  pr_revision :: nat
  pr_locked :: bool
  pr_authenticating :: bool
  pr_initialization_error :: bool
  pr_unlock_error :: "string option"
  pr_ready :: bool
  pr_tasks :: "(nat \<times> privacy_task) list"
  pr_next :: nat
  pr_stored :: stored_text
  pr_protected :: bool

datatype auth_answer = AuthOk | AuthRefused string

datatype privacy_event =
    RetryInitialization
  | UnlockApp
  | SetAppLock bool
  | SetHidePreview bool
  | AppStateChanges string
  | ReadAnswers nat bool
  | WriteAnswers nat bool
  | ProtectionAnswers nat bool
  | AuthAnswers nat "auth_answer option"
  | HardwareAnswers nat "(bool \<times> bool) option"

datatype privacy_out =
    ReadStore
  | WriteStore privacy_settings
  | ProtectPreview bool
  | PromptUser
  | ProbeHardware
  | CallReturns bool
  | CallThrows string
  | UpdateDone

definition update_locked :: "bool \<Rightarrow> privacy_lock \<Rightarrow> privacy_lock" where
  "update_locked v s =
     s\<lparr>pr_locked := v, pr_unlock_error := (if v then pr_unlock_error s else None)\<rparr>"

definition add_task :: "privacy_task \<Rightarrow> privacy_lock \<Rightarrow> privacy_lock" where
  "add_task t s = s\<lparr>pr_tasks := pr_tasks s @ [(pr_next s, t)], pr_next := Suc (pr_next s)\<rparr>"

definition drop_task :: "nat \<Rightarrow> privacy_lock \<Rightarrow> privacy_lock" where
  "drop_task i s = s\<lparr>pr_tasks := filter (\<lambda>(j, t). j \<noteq> i) (pr_tasks s)\<rparr>"

definition set_task :: "nat \<Rightarrow> privacy_task \<Rightarrow> privacy_lock \<Rightarrow> privacy_lock" where
  "set_task i t s = s\<lparr>pr_tasks := map (\<lambda>(j, u). (j, if j = i then t else u)) (pr_tasks s)\<rparr>"

text \<open>\<open>applyAppSwitcherProtection\<close>: what it asks of the platform, and what its answer leaves.\<close>

definition protection_call :: "bool \<Rightarrow> privacy_settings \<Rightarrow> privacy_out list" where
  "protection_call native p = (if native then [ProtectPreview (protects_app_switcher p)] else [])"

definition protection_done :: "bool \<Rightarrow> bool \<Rightarrow> privacy_settings \<Rightarrow> privacy_lock \<Rightarrow> privacy_lock" where
  "protection_done native ok p s =
     (if native \<and> ok then s\<lparr>pr_protected := protects_app_switcher p\<rparr> else s)"

subsection \<open>Loading the settings\<close>

definition open_privacy :: "stored_text \<Rightarrow> bool \<Rightarrow> privacy_lock" where
  "open_privacy stored protected =
     \<lparr>pr_settings = initial_privacy_settings, pr_hydrated = False, pr_revision = 0, pr_locked = True,
      pr_authenticating = False, pr_initialization_error = False, pr_unlock_error = None, pr_ready = False,
      pr_tasks = [(0, ReadingSettings 0)], pr_next = 1, pr_stored = stored, pr_protected = protected\<rparr>"

definition initialization_failed :: "privacy_lock \<Rightarrow> privacy_lock" where
  "initialization_failed s = (update_locked True (s\<lparr>pr_initialization_error := True\<rparr>))\<lparr>pr_hydrated := True\<rparr>"

definition settings_read :: "bool \<Rightarrow> nat \<Rightarrow> nat \<Rightarrow> bool \<Rightarrow> privacy_lock \<Rightarrow> privacy_lock \<times> privacy_out list" where
  "settings_read native i revision ok s =
     (if revision \<noteq> pr_revision s then (drop_task i s, [])
      else if \<not> ok then (initialization_failed (drop_task i s), [])
      else let next = read_privacy_settings (pr_stored s)
           in (set_task i (ApplyingSettings revision next) s, protection_call native next))"

definition settings_applied :: "nat \<Rightarrow> nat \<Rightarrow> privacy_settings \<Rightarrow> bool \<Rightarrow> privacy_lock \<Rightarrow> privacy_lock" where
  "settings_applied i revision p ok s0 =
     (let s = drop_task i s0
      in if revision \<noteq> pr_revision s then s
         else if \<not> ok \<and> protects_app_switcher p then initialization_failed s
         else (update_locked (pv_app_lock p) (s\<lparr>pr_settings := p\<rparr>))\<lparr>pr_ready := True, pr_hydrated := True\<rparr>)"

definition retry_initialization :: "privacy_lock \<Rightarrow> privacy_lock \<times> privacy_out list" where
  "retry_initialization s =
     (let s' = update_locked True (s\<lparr>pr_ready := False, pr_hydrated := False, pr_initialization_error := False,
             pr_revision := Suc (pr_revision s)\<rparr>)
      in (add_task (ReadingSettings (pr_revision s')) s', [ReadStore]))"

subsection \<open>Changing the settings\<close>

definition update_settings ::
  "bool \<Rightarrow> update_caller \<Rightarrow> (privacy_settings \<Rightarrow> privacy_settings) \<Rightarrow> privacy_lock \<Rightarrow> privacy_update \<times> privacy_out list" where
  "update_settings native caller patch s =
     (let previous = pr_settings s; next = patch previous
      in (\<lparr>pu_caller = caller, pu_stage = (if protects_app_switcher next then ProtectFirst else WriteNext),
           pu_previous = previous, pu_next = next\<rparr>,
          if protects_app_switcher next then protection_call native next else [WriteStore next]))"

text \<open>The update is through: the caller goes on.\<close>

definition update_done :: "nat \<Rightarrow> privacy_update \<Rightarrow> privacy_lock \<Rightarrow> privacy_lock \<times> privacy_out list" where
  "update_done i u s =
     (let s' = (drop_task i s)\<lparr>pr_settings := pu_next u\<rparr>
      in if pu_caller u = HidePreview then (s', [UpdateDone])
         else (update_locked False s', [CallReturns True]))"

definition roll_back :: "bool \<Rightarrow> nat \<Rightarrow> privacy_update \<Rightarrow> privacy_lock \<Rightarrow> privacy_lock \<times> privacy_out list" where
  "roll_back native i u s =
     (set_task i (UpdatingSettings (u\<lparr>pu_stage := RollBackProtection\<rparr>)) s, protection_call native (pu_previous u))"

definition update_protected :: "bool \<Rightarrow> nat \<Rightarrow> privacy_update \<Rightarrow> bool \<Rightarrow> privacy_lock \<Rightarrow> privacy_lock \<times> privacy_out list" where
  "update_protected native i u ok s =
     (case pu_stage u of
        ProtectFirst \<Rightarrow>
          if ok then (set_task i (UpdatingSettings (u\<lparr>pu_stage := WriteNext\<rparr>)) (protection_done native True (pu_next u) s),
                      [WriteStore (pu_next u)])
          else roll_back native i u s
      | ProtectAfter \<Rightarrow>
          if ok then update_done i u (protection_done native True (pu_next u) s) else roll_back native i u s
      | RollBackProtection \<Rightarrow>
          (set_task i (UpdatingSettings (u\<lparr>pu_stage := RollBackWrite\<rparr>)) (protection_done native ok (pu_previous u) s),
           [WriteStore (pu_previous u)])
      | _ \<Rightarrow> (s, []))"

definition save_failure :: string where
  "save_failure = ''Vesta could not save or apply privacy settings on this device.''"

definition store_written :: "bool \<Rightarrow> privacy_settings \<Rightarrow> privacy_lock \<Rightarrow> privacy_lock" where
  "store_written ok p s = (if ok then s\<lparr>pr_stored := StoredText (Some (json_of_privacy p))\<rparr> else s)"

definition update_written :: "bool \<Rightarrow> nat \<Rightarrow> privacy_update \<Rightarrow> bool \<Rightarrow> privacy_lock \<Rightarrow> privacy_lock \<times> privacy_out list" where
  "update_written native i u ok s =
     (case pu_stage u of
        WriteNext \<Rightarrow>
          if \<not> ok then roll_back native i u s
          else let s' = store_written True (pu_next u) s
               in if protects_app_switcher (pu_next u) then update_done i u s'
                  else (set_task i (UpdatingSettings (u\<lparr>pu_stage := ProtectAfter\<rparr>)) s',
                        protection_call native (pu_next u))
      | RollBackWrite \<Rightarrow> (drop_task i (store_written ok (pu_previous u) s), [CallThrows save_failure])
      | _ \<Rightarrow> (s, []))"

subsection \<open>Unlocking\<close>

text \<open>\<open>authenticate\<close>: a second prompt is not shown while one is up.\<close>

definition authenticate :: "privacy_task \<Rightarrow> privacy_lock \<Rightarrow> privacy_lock \<times> privacy_out list" where
  "authenticate t s =
     (if pr_authenticating s then (s, [CallReturns False])
      else (add_task t (s\<lparr>pr_authenticating := True\<rparr>), [PromptUser]))"

definition unlock_app :: "privacy_lock \<Rightarrow> privacy_lock \<times> privacy_out list" where
  "unlock_app s =
     (if \<not> pr_ready s then (s, [CallReturns False])
      else if \<not> pv_app_lock (pr_settings s) then (update_locked False s, [CallReturns True])
      else if \<not> pr_locked s then (s, [CallReturns True])
      else authenticate Unlocking s)"

definition unlock_answered :: "auth_answer option \<Rightarrow> privacy_lock \<Rightarrow> privacy_lock \<times> privacy_out list" where
  "unlock_answered a s =
     (case a of
        None \<Rightarrow> (s\<lparr>pr_unlock_error := Some ''Device authentication is currently unavailable.''\<rparr>, [CallReturns False])
      | Some AuthOk \<Rightarrow> (update_locked False s, [CallReturns True])
      | Some (AuthRefused e) \<Rightarrow>
          (if e \<in> set cancelled_auth_errors then s else s\<lparr>pr_unlock_error := Some (authentication_error e)\<rparr>,
           [CallReturns False]))"

definition set_app_lock :: "bool \<Rightarrow> bool \<Rightarrow> privacy_lock \<Rightarrow> privacy_lock \<times> privacy_out list" where
  "set_app_lock native on s =
     (if on then (add_task ProbingHardware s, [ProbeHardware])
      else let (u, calls) = update_settings native SwitchOff (pv_app_lock_update (\<lambda>_. False)) s
           in (add_task (UpdatingSettings u) s, calls))"

definition hardware_answered :: "(bool \<times> bool) option \<Rightarrow> privacy_lock \<Rightarrow> privacy_lock \<times> privacy_out list" where
  "hardware_answered a s =
     (case a of
        None \<Rightarrow> (s, [CallThrows []])
      | Some (has_hardware, enrolled) \<Rightarrow>
          if \<not> has_hardware
          then (s, [CallThrows ''This device does not support Face ID, Touch ID, or fingerprint authentication.''])
          else if \<not> enrolled then (s, [CallThrows (authentication_error ''not_enrolled'')])
          else authenticate ConfirmingUser s)"

definition confirmation_answered :: "bool \<Rightarrow> auth_answer option \<Rightarrow> privacy_lock \<Rightarrow> privacy_lock \<times> privacy_out list" where
  "confirmation_answered native a s =
     (case a of
        None \<Rightarrow> (s, [CallThrows []])
      | Some AuthOk \<Rightarrow>
          (let (u, calls) = update_settings native SwitchOn (pv_app_lock_update (\<lambda>_. True)) s
           in (add_task (UpdatingSettings u) s, calls))
      | Some (AuthRefused e) \<Rightarrow>
          (s, [if e \<in> set cancelled_auth_errors then CallReturns False else CallThrows (authentication_error e)]))"

definition set_hide_preview :: "bool \<Rightarrow> bool \<Rightarrow> privacy_lock \<Rightarrow> privacy_lock \<times> privacy_out list" where
  "set_hide_preview native on s =
     (let (u, calls) = update_settings native HidePreview (pv_hide_preview_update (\<lambda>_. on)) s
      in (add_task (UpdatingSettings u) s, calls))"

definition app_state_changes :: "string \<Rightarrow> privacy_lock \<Rightarrow> privacy_lock" where
  "app_state_changes app_state s =
     (if \<not> pr_ready s then s
      else if locks_app app_state \<and> pv_app_lock (pr_settings s) then update_locked True s else s)"

fun privacy_step :: "bool \<Rightarrow> privacy_lock \<Rightarrow> privacy_event \<Rightarrow> privacy_lock \<times> privacy_out list" where
  "privacy_step native s RetryInitialization = retry_initialization s"
| "privacy_step native s UnlockApp = unlock_app s"
| "privacy_step native s (SetAppLock on) = set_app_lock native on s"
| "privacy_step native s (SetHidePreview on) = set_hide_preview native on s"
| "privacy_step native s (AppStateChanges a) = (app_state_changes a s, [])"
| "privacy_step native s (ReadAnswers i ok) =
     (case map_of (pr_tasks s) i of
        Some (ReadingSettings r) \<Rightarrow> settings_read native i r ok s
      | _ \<Rightarrow> (s, []))"
| "privacy_step native s (WriteAnswers i ok) =
     (case map_of (pr_tasks s) i of
        Some (UpdatingSettings u) \<Rightarrow> update_written native i u ok s
      | _ \<Rightarrow> (s, []))"
| "privacy_step native s (ProtectionAnswers i ok) =
     (case map_of (pr_tasks s) i of
        Some (ApplyingSettings r p) \<Rightarrow> (settings_applied i r p ok (protection_done native ok p s), [])
      | Some (UpdatingSettings u) \<Rightarrow> update_protected native i u ok s
      | _ \<Rightarrow> (s, []))"
| "privacy_step native s (AuthAnswers i a) =
     (case map_of (pr_tasks s) i of
        Some Unlocking \<Rightarrow> unlock_answered a (drop_task i (s\<lparr>pr_authenticating := False\<rparr>))
      | Some ConfirmingUser \<Rightarrow> confirmation_answered native a (drop_task i (s\<lparr>pr_authenticating := False\<rparr>))
      | _ \<Rightarrow> (s, []))"
| "privacy_step native s (HardwareAnswers i a) =
     (case map_of (pr_tasks s) i of
        Some ProbingHardware \<Rightarrow> hardware_answered a (drop_task i s)
      | _ \<Rightarrow> (s, []))"

definition privacy_blocked :: "privacy_lock \<Rightarrow> bool" where
  "privacy_blocked s = blocks_protected_content (pr_hydrated s) (pr_locked s) (pr_initialization_error s)"

text \<open>Which answers can come: the one a task waits for; a platform without a protection answers at once and
  never rejects.\<close>

fun privacy_enabled :: "bool \<Rightarrow> privacy_lock \<Rightarrow> privacy_event \<Rightarrow> bool" where
  "privacy_enabled native s (ReadAnswers i ok) \<longleftrightarrow>
     (case map_of (pr_tasks s) i of Some (ReadingSettings r) \<Rightarrow> True | _ \<Rightarrow> False)"
| "privacy_enabled native s (WriteAnswers i ok) \<longleftrightarrow>
     (case map_of (pr_tasks s) i of Some (UpdatingSettings u) \<Rightarrow> pu_stage u \<in> {WriteNext, RollBackWrite} | _ \<Rightarrow> False)"
| "privacy_enabled native s (ProtectionAnswers i ok) \<longleftrightarrow>
     (native \<or> ok) \<and>
     (case map_of (pr_tasks s) i of
        Some (ApplyingSettings r p) \<Rightarrow> True
      | Some (UpdatingSettings u) \<Rightarrow> pu_stage u \<in> {ProtectFirst, ProtectAfter, RollBackProtection}
      | _ \<Rightarrow> False)"
| "privacy_enabled native s (AuthAnswers i a) \<longleftrightarrow> map_of (pr_tasks s) i \<in> {Some Unlocking, Some ConfirmingUser}"
| "privacy_enabled native s (HardwareAnswers i a) \<longleftrightarrow> map_of (pr_tasks s) i = Some ProbingHardware"
| "privacy_enabled native s e \<longleftrightarrow> True"

subsection \<open>Tasks\<close>

lemma set_set_task: "x \<in> set (pr_tasks (set_task i t s)) \<Longrightarrow> x = (i, t) \<or> x \<in> set (pr_tasks s)"
  by (auto simp: set_task_def split: if_splits)

lemma set_drop_task: "x \<in> set (pr_tasks (drop_task i s)) \<Longrightarrow> x \<in> set (pr_tasks s)"
  by (auto simp: drop_task_def)

lemma set_add_task: "x \<in> set (pr_tasks (add_task t s)) \<longleftrightarrow> x = (pr_next s, t) \<or> x \<in> set (pr_tasks s)"
  by (auto simp: add_task_def)

lemma task_simps [simp]:
  "pr_settings (set_task i t s) = pr_settings s" "pr_settings (drop_task i s) = pr_settings s" "pr_settings (add_task t s) = pr_settings s"
  "pr_ready (set_task i t s) = pr_ready s" "pr_ready (drop_task i s) = pr_ready s" "pr_ready (add_task t s) = pr_ready s"
  "pr_locked (set_task i t s) = pr_locked s" "pr_locked (drop_task i s) = pr_locked s" "pr_locked (add_task t s) = pr_locked s"
  "pr_revision (set_task i t s) = pr_revision s" "pr_revision (drop_task i s) = pr_revision s" "pr_revision (add_task t s) = pr_revision s"
  "pr_stored (set_task i t s) = pr_stored s" "pr_stored (drop_task i s) = pr_stored s" "pr_stored (add_task t s) = pr_stored s"
  "pr_protected (set_task i t s) = pr_protected s" "pr_protected (drop_task i s) = pr_protected s" "pr_protected (add_task t s) = pr_protected s"
  "pr_next (set_task i t s) = pr_next s" "pr_next (drop_task i s) = pr_next s" "pr_next (add_task t s) = Suc (pr_next s)"
  by (simp_all add: set_task_def drop_task_def add_task_def)

lemma lock_simps [simp]:
  "pr_settings (update_locked v s) = pr_settings s" "pr_ready (update_locked v s) = pr_ready s"
  "pr_locked (update_locked v s) = v" "pr_revision (update_locked v s) = pr_revision s" "pr_tasks (update_locked v s) = pr_tasks s"
  "pr_stored (update_locked v s) = pr_stored s" "pr_protected (update_locked v s) = pr_protected s" "pr_next (update_locked v s) = pr_next s"
  by (simp_all add: update_locked_def)

lemma native_simps [simp]:
  "pr_settings (protection_done n ok p s) = pr_settings s" "pr_ready (protection_done n ok p s) = pr_ready s"
  "pr_locked (protection_done n ok p s) = pr_locked s" "pr_revision (protection_done n ok p s) = pr_revision s"
  "pr_tasks (protection_done n ok p s) = pr_tasks s" "pr_stored (protection_done n ok p s) = pr_stored s"
  "pr_next (protection_done n ok p s) = pr_next s"
  "pr_settings (store_written ok p s) = pr_settings s" "pr_ready (store_written ok p s) = pr_ready s"
  "pr_locked (store_written ok p s) = pr_locked s" "pr_revision (store_written ok p s) = pr_revision s"
  "pr_tasks (store_written ok p s) = pr_tasks s" "pr_protected (store_written ok p s) = pr_protected s"
  "pr_next (store_written ok p s) = pr_next s"
  by (simp_all add: protection_done_def store_written_def)

subsection \<open>Locked until the user is recognised\<close>

text \<open>What may be under way while the app stays locked: no load of the current revision, no change of the lock
  itself, and no update that would write it off.\<close>

definition keeps_lock :: "nat \<Rightarrow> privacy_task \<Rightarrow> bool" where
  "keeps_lock revision t \<longleftrightarrow>
     (case t of
        ReadingSettings r \<Rightarrow> r \<noteq> revision
      | ApplyingSettings r p \<Rightarrow> r \<noteq> revision
      | UpdatingSettings u \<Rightarrow> pu_caller u = HidePreview \<and> pv_app_lock (pu_next u)
      | _ \<Rightarrow> True)"

definition stays_locked :: "privacy_lock \<Rightarrow> bool" where
  "stays_locked s \<longleftrightarrow> pr_ready s \<and> pv_app_lock (pr_settings s) \<and> pr_locked s \<and>
     (\<forall>(i, t) \<in> set (pr_tasks s). keeps_lock (pr_revision s) t)"

text \<open>An event that neither recognises the user, nor switches the lock off, nor loads the settings anew.\<close>

fun no_unlock :: "privacy_event \<Rightarrow> bool" where
  "no_unlock (AuthAnswers i a) \<longleftrightarrow> a \<noteq> Some AuthOk"
| "no_unlock (SetAppLock on) \<longleftrightarrow> on"
| "no_unlock RetryInitialization \<longleftrightarrow> False"
| "no_unlock e \<longleftrightarrow> True"

lemma stays_locked_tasks:
  assumes "stays_locked s" "pr_ready s'" "pv_app_lock (pr_settings s')" "pr_locked s'" "pr_revision s' = pr_revision s"
    "\<And>i t. (i, t) \<in> set (pr_tasks s') \<Longrightarrow> (i, t) \<in> set (pr_tasks s) \<or> keeps_lock (pr_revision s) t"
  shows "stays_locked s'"
  using assms by (fastforce simp: stays_locked_def)

lemma lock_update:
  "stays_locked s \<Longrightarrow> keeps_lock (pr_revision s) (UpdatingSettings u) \<Longrightarrow>
    stays_locked (fst (update_protected native i u ok s)) \<and> stays_locked (fst (update_written native i u ok s))"
  by (auto simp: update_protected_def update_written_def update_done_def roll_back_def keeps_lock_def
      stays_locked_def Let_def split: update_stage.split dest!: set_set_task set_drop_task)

lemma lock_step:
  assumes s: "stays_locked s" and e: "no_unlock e"
  shows "stays_locked (fst (privacy_step native s e))"
proof -
  have task: "keeps_lock (pr_revision s) t" if "map_of (pr_tasks s) i = Some t" for i t
    using s map_of_SomeD [OF that] by (auto simp: stays_locked_def)
  show ?thesis
  proof (cases e)
    case (AuthAnswers i a)
    with e show ?thesis using s
      by (auto simp: unlock_answered_def confirmation_answered_def stays_locked_def
          split: option.split privacy_task.split auth_answer.split dest!: set_drop_task)
  next
    case (ReadAnswers i ok)
    then show ?thesis using s task [of i]
      by (auto simp: settings_read_def keeps_lock_def stays_locked_def split: option.split privacy_task.split dest!: set_drop_task)
  next
    case (WriteAnswers i ok)
    then show ?thesis using s task [of i] lock_update [OF s] by (auto split: option.split privacy_task.split)
  next
    case (ProtectionAnswers i ok)
    have "stays_locked (protection_done native ok p s)" for p using s by (simp add: stays_locked_def)
    then have "stays_locked (settings_applied i r p ok (protection_done native ok p s))" if "r \<noteq> pr_revision s" for r p
      using that by (auto simp: settings_applied_def Let_def stays_locked_def dest!: set_drop_task)
    with ProtectionAnswers show ?thesis using s task [of i] lock_update [OF s]
      by (auto split: option.split privacy_task.split simp: keeps_lock_def)
  next
    case (HardwareAnswers i a)
    then show ?thesis using s
      by (auto simp: hardware_answered_def authenticate_def stays_locked_def set_add_task keeps_lock_def
          split: option.split privacy_task.split dest!: set_drop_task)
  qed (use s e in \<open>auto simp: unlock_app_def set_app_lock_def set_hide_preview_def update_settings_def app_state_changes_def
      authenticate_def stays_locked_def set_add_task keeps_lock_def Let_def\<close>)
qed

lemma lock_run: "stays_locked s \<Longrightarrow> list_all no_unlock es \<Longrightarrow> stays_locked (fst (run_events (privacy_step native) s es))"
  by (induction es arbitrary: s) (auto intro: lock_step)

subsection \<open>Loads\<close>

text \<open>A load of the current revision is the only one, and none is under way once the provider is ready.\<close>

fun load_revision :: "privacy_task \<Rightarrow> nat list" where
  "load_revision (ReadingSettings r) = [r]"
| "load_revision (ApplyingSettings r p) = [r]"
| "load_revision _ = []"

definition loads :: "privacy_lock \<Rightarrow> nat list" where
  "loads s = concat (map (\<lambda>(i, t). load_revision t) (pr_tasks s))"

definition privacy_inv :: "privacy_lock \<Rightarrow> bool" where
  "privacy_inv s \<longleftrightarrow> distinct (map fst (pr_tasks s)) \<and> (\<forall>i \<in> fst ` set (pr_tasks s). i < pr_next s) \<and>
     distinct (loads s) \<and> (\<forall>r \<in> set (loads s). r \<le> pr_revision s) \<and> (pr_ready s \<longrightarrow> pr_revision s \<notin> set (loads s))"


lemma loads_cong: "pr_tasks s' = pr_tasks s \<Longrightarrow> loads s' = loads s"
  by (simp add: loads_def)

lemma loads_add [simp]: "loads (add_task t s) = loads s @ load_revision t"
  by (simp add: loads_def add_task_def)

lemma task_split:
  assumes "map_of xs i = Some t"
  obtains as bs where "xs = as @ (i, t) # bs" "i \<notin> fst ` set as"
proof -
  have "\<exists>as bs. xs = as @ (i, t) # bs \<and> i \<notin> fst ` set as" using assms
  proof (induction xs)
    case (Cons x xs)
    show ?case
    proof (cases "fst x = i")
      case True
      with Cons.prems show ?thesis by (intro exI [of _ "[]"] exI [of _ xs]) (cases x, auto)
    next
      case False
      with Cons obtain as bs where "xs = as @ (i, t) # bs" "i \<notin> fst ` set as" by (cases x) auto
      with False show ?thesis by (intro exI [of _ "x # as"] exI [of _ bs]) auto
    qed
  qed simp
  with that show ?thesis by blast
qed

lemma tasks_at:
  assumes "map_of (pr_tasks s) i = Some t" "distinct (map fst (pr_tasks s))"
  obtains as bs where "pr_tasks s = as @ (i, t) # bs" "pr_tasks (drop_task i s) = as @ bs"
    "\<And>u. pr_tasks (set_task i u s) = as @ (i, u) # bs"
proof -
  from task_split [OF assms(1)] obtain as bs where *: "pr_tasks s = as @ (i, t) # bs" "i \<notin> fst ` set as" .
  with assms(2) have n: "i \<notin> fst ` set bs" by auto
  have keep: "filter (\<lambda>(j, t). j \<noteq> i) xs = xs" "map (\<lambda>(j, v). (j, if j = i then u else v)) xs = xs"
    if "i \<notin> fst ` set xs" for xs u
    using that by (force simp: filter_id_conv intro!: map_idI)+
  show ?thesis
    by (rule that [of as bs]) (use * n keep [OF *(2)] keep [OF n] in \<open>simp_all add: drop_task_def set_task_def\<close>)
qed

lemma same_inv:
  assumes "privacy_inv s" "pr_tasks s' = pr_tasks s" "pr_next s' = pr_next s" "pr_revision s' = pr_revision s" "pr_ready s' = pr_ready s"
  shows "privacy_inv s'"
  using assms loads_cong [OF assms(2)] by (simp add: privacy_inv_def)

lemma inv_fields:
  assumes "privacy_inv s"
  shows "privacy_inv (update_locked v s)" "privacy_inv (s\<lparr>pr_authenticating := b\<rparr>)" "privacy_inv (s\<lparr>pr_unlock_error := x\<rparr>)"
    "privacy_inv (s\<lparr>pr_settings := p\<rparr>)" "privacy_inv (protection_done n ok p s)" "privacy_inv (store_written ok p s)"
    "privacy_inv (initialization_failed s)"
  by (rule same_inv [OF assms]; simp add: initialization_failed_def)+

lemma inv_drop:
  assumes "privacy_inv s" "map_of (pr_tasks s) i = Some t"
  shows "privacy_inv (drop_task i s)" "set (load_revision t) \<inter> set (loads (drop_task i s)) = {}"
proof -
  have "distinct (map fst (pr_tasks s))" using assms(1) by (simp add: privacy_inv_def)
  then obtain as bs where *: "pr_tasks s = as @ (i, t) # bs" "pr_tasks (drop_task i s) = as @ bs"
    using tasks_at [OF assms(2)] by blast
  from * have l: "loads s = loads (s\<lparr>pr_tasks := as\<rparr>) @ load_revision t @ loads (s\<lparr>pr_tasks := bs\<rparr>)"
    "loads (drop_task i s) = loads (s\<lparr>pr_tasks := as\<rparr>) @ loads (s\<lparr>pr_tasks := bs\<rparr>)"
    by (simp_all add: loads_def)
  from assms(1) show "privacy_inv (drop_task i s)" unfolding privacy_inv_def l by (auto simp: *)
  from assms(1) show "set (load_revision t) \<inter> set (loads (drop_task i s)) = {}" unfolding privacy_inv_def l by auto
qed

lemma inv_set:
  assumes "privacy_inv s" "map_of (pr_tasks s) i = Some t" "load_revision u = load_revision t"
  shows "privacy_inv (set_task i u s)"
proof -
  have "distinct (map fst (pr_tasks s))" using assms(1) by (simp add: privacy_inv_def)
  then obtain as bs where *: "pr_tasks s = as @ (i, t) # bs" "pr_tasks (set_task i u s) = as @ (i, u) # bs"
    using tasks_at [OF assms(2)] by metis
  with assms(3) have l: "loads (set_task i u s) = loads s" by (simp add: loads_def)
  from assms(1) show ?thesis unfolding privacy_inv_def l by (auto simp: *)
qed

lemma inv_add:
  "privacy_inv s \<Longrightarrow> load_revision t = [] \<Longrightarrow> privacy_inv (add_task t s)"
  unfolding privacy_inv_def by (auto simp: add_task_def loads_def)

lemma inv_update:
  assumes "privacy_inv s" "map_of (pr_tasks s) i = Some (UpdatingSettings u)"
  shows "privacy_inv (fst (update_protected native i u ok s)) \<and> privacy_inv (fst (update_written native i u ok s))"
proof -
  have set: "privacy_inv (set_task i (UpdatingSettings v) s')"
    if "privacy_inv s'" "pr_tasks s' = pr_tasks s" for v s'
    using that assms(2) by (auto intro: inv_set)
  have drop: "privacy_inv (drop_task i s')" if "privacy_inv s'" "pr_tasks s' = pr_tasks s" for s'
    using that assms(2) by (auto intro: inv_drop)
  note prot = inv_fields(5,6) [OF assms(1)]
  have fin: "privacy_inv (fst (update_done i u s'))" if "privacy_inv s'" "pr_tasks s' = pr_tasks s" for s'
    using drop [OF that] by (simp add: update_done_def Let_def inv_fields)
  show ?thesis
    by (auto simp: update_protected_def update_written_def roll_back_def Let_def assms(1)
        intro!: set drop fin prot split: update_stage.split)
qed

lemma inv_auth:
  assumes "privacy_inv s" "load_revision t = []"
  shows "privacy_inv (fst (authenticate t s))"
  using assms by (auto simp: authenticate_def intro!: inv_add inv_fields)

lemma inv_step:
  assumes s: "privacy_inv s"
  shows "privacy_inv (fst (privacy_step native s e))"
proof (cases e)
  case RetryInitialization
  let ?s = "update_locked True (s\<lparr>pr_ready := False, pr_hydrated := False, pr_initialization_error := False,
      pr_revision := Suc (pr_revision s)\<rparr>)"
  have l: "loads ?s = loads s" by (rule loads_cong) simp
  have "privacy_inv (add_task (ReadingSettings (pr_revision ?s)) ?s)"
    using s unfolding privacy_inv_def loads_add l by (fastforce simp: add_task_def)
  with RetryInitialization show ?thesis by (simp add: retry_initialization_def Let_def)
next
  case UnlockApp
  with s show ?thesis by (auto simp: unlock_app_def intro!: inv_auth inv_fields)
next
  case (AppStateChanges a)
  with s show ?thesis by (simp add: app_state_changes_def inv_fields)
next
  case (ReadAnswers i ok)
  show ?thesis
  proof (cases "map_of (pr_tasks s) i")
    case (Some t)
    with ReadAnswers s inv_drop(1) [OF s Some] inv_set [OF s Some] show ?thesis
      by (cases t) (auto simp: settings_read_def Let_def intro: inv_fields)
  qed (use s ReadAnswers in simp)
next
  case (WriteAnswers i ok)
  with s inv_update [OF s] show ?thesis by (auto split: option.split privacy_task.split)
next
  case (ProtectionAnswers i ok)
  show ?thesis
  proof (cases "\<exists>r p. map_of (pr_tasks s) i = Some (ApplyingSettings r p)")
    case True
    then obtain r p where t: "map_of (pr_tasks s) i = Some (ApplyingSettings r p)" by blast
    let ?s = "protection_done native ok p s"
    have i: "privacy_inv ?s" using s by (rule inv_fields)
    have t': "map_of (pr_tasks ?s) i = Some (ApplyingSettings r p)" using t by simp
    note d = inv_drop [OF i t']
    have "privacy_inv ((update_locked (pv_app_lock p) ((drop_task i ?s)\<lparr>pr_settings := p\<rparr>))\<lparr>pr_ready := True, pr_hydrated := True\<rparr>)"
      if "r = pr_revision s"
      using d that unfolding privacy_inv_def by (auto simp: loads_def)
    with d(1) show ?thesis by (auto simp: ProtectionAnswers t settings_applied_def Let_def intro: inv_fields)
  next
    case False
    with ProtectionAnswers s inv_update [OF s] show ?thesis by (auto split: option.split privacy_task.split)
  qed
next
  case (AuthAnswers i a)
  show ?thesis
  proof (cases "map_of (pr_tasks s) i")
    case (Some t)
    let ?s = "drop_task i (s\<lparr>pr_authenticating := False\<rparr>)"
    have "privacy_inv (s\<lparr>pr_authenticating := False\<rparr>)" "map_of (pr_tasks (s\<lparr>pr_authenticating := False\<rparr>)) i = Some t"
      using inv_fields(2) [OF s] Some by simp_all
    from inv_drop(1) [OF this] have d: "privacy_inv ?s" .
    from d s inv_fields [OF d] show ?thesis
      by (auto simp: AuthAnswers Some unlock_answered_def confirmation_answered_def update_settings_def Let_def
          split: privacy_task.split option.split auth_answer.split intro: inv_add)
  qed (use s AuthAnswers in simp)
next
  case (HardwareAnswers i a)
  with s inv_drop(1) [OF s] show ?thesis
    by (auto simp: hardware_answered_def split: option.split privacy_task.split intro: inv_auth)
qed (use s in \<open>auto simp: set_app_lock_def set_hide_preview_def update_settings_def Let_def intro: inv_add\<close>)

lemma open_inv: "privacy_inv (open_privacy stored protected)"
  by (simp add: privacy_inv_def open_privacy_def loads_def)

interpretation app_lock: machine "privacy_step native" "privacy_enabled native" privacy_inv for native
  by unfold_locales (rule inv_step)

text \<open>C16: With the settings loaded, the app lock on, and no change of the settings still being written, a move to the background
  locks the app, and its content stays blocked, whatever else the user, the platform and the app's state do
  from then on, until the device recognises the user, the lock is switched off or the settings are loaded
  anew. (A change that began before the lock went on can write the lock off again:
  \<open>hiding_takes_the_lock_off\<close>.)\<close>

theorem background_locks_until_recognised:
  assumes "legal_events (privacy_step native) (privacy_enabled native) (open_privacy stored protected) before"
    "s = fst (run_events (privacy_step native) (open_privacy stored protected) before)"
    "pr_ready s" "pv_app_lock (pr_settings s)" "\<nexists>i u. (i, UpdatingSettings u) \<in> set (pr_tasks s)"
    "list_all no_unlock es"
  shows "privacy_blocked (fst (run_events (privacy_step native) s (AppStateChanges ''background'' # es)))"
proof -
  have inv: "privacy_inv s" using app_lock.run_inv [OF open_inv assms(1)] assms(2) by simp
  have "keeps_lock (pr_revision s) t" if "(i, t) \<in> set (pr_tasks s)" for i t
  proof (cases "load_revision t")
    case Nil
    with that assms(5) show ?thesis by (cases t) (auto simp: keeps_lock_def)
  next
    case (Cons r rs)
    then have "r \<in> set (loads s)" using that by (force simp: loads_def)
    with inv assms(3) have "r \<noteq> pr_revision s" by (auto simp: privacy_inv_def)
    with Cons show ?thesis by (cases t) (auto simp: keeps_lock_def)
  qed
  then have "stays_locked (app_state_changes ''background'' s)"
    using assms(3,4) by (auto simp: stays_locked_def app_state_changes_def locks_app_def)
  from lock_run [OF this assms(6), of native] show ?thesis
    by (simp add: stays_locked_def privacy_blocked_def blocks_protected_content_def)
qed

definition locked_store :: stored_text where
  "locked_store = StoredText (Some (json_of_privacy \<lparr>pv_app_lock = True, pv_hide_preview = False\<rparr>))"

lemma read_json_of_privacy [simp]:
  "read_privacy_settings (StoredText (Some (json_of_privacy p))) = p\<lparr>pv_hide_preview := False\<rparr>"
  by (simp add: read_privacy_settings_def json_of_privacy_def field_def)

lemma read_locked_store: "read_privacy_settings locked_store = \<lparr>pv_app_lock = True, pv_hide_preview = False\<rparr>"
  by (simp add: locked_store_def)

lemmas privacy_eval = open_privacy_def settings_read_def settings_applied_def set_task_def drop_task_def protection_call_def
  protection_done_def update_locked_def protects_app_switcher_def Let_def

lemma loaded_lock:
  "run_events (privacy_step True) (open_privacy locked_store False) [ReadAnswers 0 True, ProtectionAnswers 0 True] =
     (\<lparr>pr_settings = \<lparr>pv_app_lock = True, pv_hide_preview = False\<rparr>, pr_hydrated = True, pr_revision = 0, pr_locked = True,
       pr_authenticating = False, pr_initialization_error = False, pr_unlock_error = None, pr_ready = True,
       pr_tasks = [], pr_next = 1, pr_stored = locked_store, pr_protected = True\<rparr>, [ProtectPreview True])"
  by (simp add: run_events.simps(2) privacy_eval locked_store_def split: prod.split)

lemma background_locks_until_recognised_witness:
  "privacy_blocked (fst (run_events (privacy_step True)
     (fst (run_events (privacy_step True) (open_privacy locked_store False) [ReadAnswers 0 True, ProtectionAnswers 0 True]))
     [AppStateChanges ''background'', AppStateChanges ''active'', UnlockApp, AuthAnswers 1 (Some (AuthRefused ''user_cancel''))]))"
  by (rule background_locks_until_recognised
      [of True locked_store False "[ReadAnswers 0 True, ProtectionAnswers 0 True]", OF _ refl])
    (simp_all add: loaded_lock, simp add: open_privacy_def settings_read_def set_task_def Let_def)

subsection \<open>A stored choice to protect is in force\<close>

text \<open>The settings screen changes one thing at a time: it waits for a change before it starts another.  An
  unlock prompt may be up meanwhile.\<close>

definition busy :: "privacy_lock \<Rightarrow> privacy_task list" where
  "busy s = filter (\<lambda>t. t \<noteq> Unlocking) (map snd (pr_tasks s))"

definition starts_change :: "privacy_event \<Rightarrow> bool" where
  "starts_change e \<longleftrightarrow> (case e of RetryInitialization \<Rightarrow> True | SetAppLock on \<Rightarrow> True | SetHidePreview on \<Rightarrow> True | _ \<Rightarrow> False)"

definition one_change_enabled :: "privacy_lock \<Rightarrow> privacy_event \<Rightarrow> bool" where
  "one_change_enabled s e \<longleftrightarrow> privacy_enabled True s e \<and> (starts_change e \<longrightarrow> busy s = [])"

definition stored_protects :: "privacy_lock \<Rightarrow> bool" where
  "stored_protects s \<longleftrightarrow> protects_app_switcher (read_privacy_settings (pr_stored s))"

definition change_ok :: "privacy_lock \<Rightarrow> privacy_task \<Rightarrow> bool" where
  "change_ok s t \<longleftrightarrow>
     (case t of
        ReadingSettings r \<Rightarrow> \<not> pr_ready s
      | ApplyingSettings r p \<Rightarrow> \<not> pr_ready s \<and> p = read_privacy_settings (pr_stored s)
      | UpdatingSettings u \<Rightarrow>
          (pu_stage u = ProtectFirst \<longrightarrow> protects_app_switcher (pu_next u)) \<and>
          (pr_ready s \<longrightarrow>
            pu_previous u = pr_settings s \<and>
            (pu_stage u = WriteNext \<longrightarrow> protects_app_switcher (pu_next u) \<longrightarrow> pr_protected s) \<and>
            (pu_stage u = ProtectAfter \<longrightarrow> \<not> protects_app_switcher (pu_next u) \<and> \<not> stored_protects s))
      | _ \<Rightarrow> True)"

definition in_force :: "privacy_lock \<Rightarrow> bool" where
  "in_force s \<longleftrightarrow>
     (pr_ready s \<longrightarrow> (stored_protects s \<longrightarrow> protects_app_switcher (pr_settings s)) \<and>
                     (protects_app_switcher (pr_settings s) \<longrightarrow> pr_protected s))"

definition change_inv :: "privacy_lock \<Rightarrow> bool" where
  "change_inv s \<longleftrightarrow> privacy_inv s \<and> in_force s \<and> length (busy s) \<le> 1 \<and> (\<forall>t \<in> set (busy s). change_ok s t)"

lemma stored_written [simp]: "pr_stored (store_written True p s) = StoredText (Some (json_of_privacy p))"
  "pr_stored (store_written False p s) = pr_stored s" "pr_protected (protection_done n False p s) = pr_protected s"
  "pr_protected (protection_done True True p s) = protects_app_switcher p"
  by (simp_all add: store_written_def protection_done_def)

lemma stored_protects_simps [simp]:
  "stored_protects (set_task i t s) = stored_protects s" "stored_protects (drop_task i s) = stored_protects s"
  "stored_protects (add_task t s) = stored_protects s" "stored_protects (protection_done n ok p s) = stored_protects s"
  "stored_protects (store_written False p s) = stored_protects s"
  by (simp_all add: stored_protects_def)

lemma busy_at:
  assumes "privacy_inv s" "length (busy s) \<le> 1" "map_of (pr_tasks s) i = Some t"
  shows "t \<noteq> Unlocking \<Longrightarrow> busy s = [t] \<and> busy (drop_task i s) = [] \<and> busy (set_task i u s) = filter (\<lambda>t. t \<noteq> Unlocking) [u]"
    "t = Unlocking \<Longrightarrow> busy (drop_task i s) = busy s"
proof -
  have "distinct (map fst (pr_tasks s))" using assms(1) by (simp add: privacy_inv_def)
  then obtain as bs where *: "pr_tasks s = as @ (i, t) # bs" "pr_tasks (drop_task i s) = as @ bs"
    "\<And>u. pr_tasks (set_task i u s) = as @ (i, u) # bs"
    using tasks_at [OF assms(3)] by metis
  show "t \<noteq> Unlocking \<Longrightarrow> busy s = [t] \<and> busy (drop_task i s) = [] \<and> busy (set_task i u s) = filter (\<lambda>t. t \<noteq> Unlocking) [u]"
    using assms(2) by (auto simp: busy_def * filter_map)
  show "t = Unlocking \<Longrightarrow> busy (drop_task i s) = busy s" by (simp add: busy_def *)
qed

lemma busy_simps [simp]:
  "busy (add_task t s) = busy s @ filter (\<lambda>t. t \<noteq> Unlocking) [t]" "busy (update_locked v s) = busy s"
  "busy (protection_done n ok p s) = busy s" "busy (store_written ok p s) = busy s"
  by (simp_all add: busy_def add_task_def)

lemma busy_fields [simp]:
  "busy (s\<lparr>pr_authenticating := b\<rparr>) = busy s" "busy (s\<lparr>pr_unlock_error := x\<rparr>) = busy s" "busy (s\<lparr>pr_settings := p\<rparr>) = busy s"
  "busy (s\<lparr>pr_ready := r\<rparr>) = busy s" "busy (s\<lparr>pr_hydrated := h\<rparr>) = busy s" "busy (s\<lparr>pr_initialization_error := y\<rparr>) = busy s"
  by (simp_all add: busy_def)

definition change_holds :: "privacy_lock \<Rightarrow> bool" where
  "change_holds s \<longleftrightarrow> in_force s \<and> length (busy s) \<le> 1 \<and> (\<forall>t \<in> set (busy s). change_ok s t)"

lemma change_idle: "busy s = [] \<Longrightarrow> in_force s \<Longrightarrow> change_holds s"
  by (simp add: change_holds_def)

lemma change_one: "busy s = [t] \<Longrightarrow> in_force s \<Longrightarrow> change_ok s t \<Longrightarrow> change_holds s"
  by (simp add: change_holds_def)

lemmas change_simps = in_force_def change_ok_def stored_protects_def

lemma one_change:
  assumes "privacy_inv s" "length (busy s) \<le> 1" "map_of (pr_tasks s) i = Some (UpdatingSettings u)" "in_force s"
    "change_ok s (UpdatingSettings u)"
  shows "pu_stage u \<in> {ProtectFirst, ProtectAfter, RollBackProtection} \<Longrightarrow> change_holds (fst (update_protected True i u ok s))"
    "pu_stage u \<in> {WriteNext, RollBackWrite} \<Longrightarrow> change_holds (fst (update_written True i u ok s))"
proof -
  have b: "busy (drop_task i s') = []" "busy (set_task i (UpdatingSettings v) s') = [UpdatingSettings v]"
    if "pr_tasks s' = pr_tasks s" "pr_next s' = pr_next s" "pr_revision s' = pr_revision s" "pr_ready s' = pr_ready s" for s' v
    using busy_at(1) [OF same_inv [OF assms(1) that], of i "UpdatingSettings u"] assms(2,3) that(1)
    by (simp_all add: busy_def)
  have roll: "change_holds (fst (roll_back True i u s))"
    using assms(4,5) by (auto simp: roll_back_def b change_simps intro!: change_one)
  have settle: "change_holds (fst (update_done i u s'))"
    if "pr_tasks s' = pr_tasks s" "pr_next s' = pr_next s" "pr_revision s' = pr_revision s" "pr_ready s' = pr_ready s"
      "pr_ready s \<longrightarrow> (stored_protects s' \<longrightarrow> protects_app_switcher (pu_next u)) \<and> (protects_app_switcher (pu_next u) \<longrightarrow> pr_protected s')"
    for s'
    using that(5) b(1) [OF that(1-4)] that(4)
    by (intro change_idle) (simp_all add: update_done_def Let_def in_force_def stored_protects_def)
  show "change_holds (fst (update_protected True i u ok s))" if "pu_stage u \<in> {ProtectFirst, ProtectAfter, RollBackProtection}"
  proof (cases "pu_stage u")
    case ProtectFirst
    have "change_holds (set_task i (UpdatingSettings (u\<lparr>pu_stage := WriteNext\<rparr>)) (protection_done True True (pu_next u) s))"
      if "protects_app_switcher (pu_next u)"
      using assms(4,5) that by (intro change_one [OF b(2)]) (simp_all add: change_simps)
    then show ?thesis using roll assms(5) by (simp add: ProtectFirst update_protected_def change_ok_def)
  next
    case ProtectAfter
    then show ?thesis using roll assms(5) by (auto simp: update_protected_def change_simps intro!: settle)
  next
    case RollBackProtection
    have "change_holds (set_task i (UpdatingSettings (u\<lparr>pu_stage := RollBackWrite\<rparr>)) (protection_done True ok (pu_previous u) s))"
      using assms(4,5) by (intro change_one [OF b(2)]; cases ok) (auto simp: change_simps)
    then show ?thesis by (simp add: RollBackProtection update_protected_def)
  qed (use that in auto)
  show "change_holds (fst (update_written True i u ok s))" if "pu_stage u \<in> {WriteNext, RollBackWrite}"
  proof (cases "pu_stage u")
    case WriteNext
    let ?s = "store_written True (pu_next u) s"
    have read: "stored_protects ?s \<Longrightarrow> protects_app_switcher (pu_next u)"
      by (simp add: stored_protects_def protects_app_switcher_def)
    have "change_holds (set_task i (UpdatingSettings (u\<lparr>pu_stage := ProtectAfter\<rparr>)) ?s)"
      if "\<not> protects_app_switcher (pu_next u)"
      using assms(4,5) that read by (intro change_one [OF b(2)]) (auto simp: in_force_def change_ok_def)
    moreover have "change_holds (fst (update_done i u ?s))" if "protects_app_switcher (pu_next u)"
      using assms(5) that by (intro settle) (simp_all add: change_ok_def WriteNext)
    ultimately show ?thesis using roll by (simp add: WriteNext update_written_def Let_def)
  next
    case RollBackWrite
    have "stored_protects (store_written True p s) \<Longrightarrow> protects_app_switcher p" for p
      by (simp add: stored_protects_def protects_app_switcher_def)
    then have "change_holds (drop_task i (store_written ok (pu_previous u) s))"
      using assms(4,5) by (intro change_idle b; cases ok) (auto simp: change_ok_def in_force_def stored_protects_def)
    then show ?thesis by (simp add: RollBackWrite update_written_def)
  qed (use that in auto)
qed

lemma update_starts:
  assumes "in_force s" "busy s = []" "(u, calls) = update_settings native caller patch s"
  shows "change_holds (add_task (UpdatingSettings u) s)"
  using assms by (intro change_one [of _ "UpdatingSettings u"]) (auto simp: update_settings_def Let_def change_simps)

lemma change_same:
  assumes "change_holds s" "busy s' = busy s" "in_force s'" "pr_ready s' = pr_ready s" "pr_settings s' = pr_settings s"
    "pr_protected s' = pr_protected s" "pr_stored s' = pr_stored s"
  shows "change_holds s'"
proof -
  from assms(4-7) have "change_ok s' = change_ok s" by (intro ext) (simp add: change_ok_def stored_protects_def split: privacy_task.split)
  with assms(1-3) show ?thesis by (simp add: change_holds_def)
qed

lemma change_fields:
  assumes "change_holds s"
  shows "change_holds (update_locked v s)" "change_holds (s\<lparr>pr_authenticating := b\<rparr>)" "change_holds (s\<lparr>pr_unlock_error := x\<rparr>)"
    "change_holds (s\<lparr>pr_initialization_error := y\<rparr>)" "change_holds (s\<lparr>pr_hydrated := h\<rparr>)" "change_holds (add_task Unlocking s)"
  by (rule change_same [OF assms]; use assms in \<open>simp add: change_holds_def in_force_def stored_protects_def\<close>)+

lemma change_step:
  assumes s: "privacy_inv s" "change_holds s" and e: "one_change_enabled s e"
  shows "change_holds (fst (privacy_step True s e))"
proof -
  have f: "in_force s" "length (busy s) \<le> 1" using s(2) by (simp_all add: change_holds_def)
  have at: "busy s = [t]" "busy (drop_task i s) = []" "change_ok s t"
    if "map_of (pr_tasks s) i = Some t" "t \<noteq> Unlocking" for i t
    using busy_at(1) [OF s(1) f(2) that] s(2) by (simp_all add: change_holds_def)
  have failed: "change_holds (initialization_failed s')" if "change_holds s'" for s'
    using that by (simp add: initialization_failed_def change_fields)
  have drop: "change_holds (drop_task i s)" if "map_of (pr_tasks s) i = Some t" for i t
  proof (cases "t = Unlocking")
    case True
    with busy_at(2) [OF s(1) f(2) that] that show ?thesis
      by (intro change_same [OF s(2)]) (use f(1) in \<open>simp_all add: in_force_def stored_protects_def\<close>)
  next
    case False
    from at(2) [OF that False] f(1) show ?thesis by (intro change_idle) (simp_all add: in_force_def stored_protects_def)
  qed
  have start: "change_holds (add_task (UpdatingSettings (fst (update_settings True c patch s'))) s')"
    if "in_force s'" "busy s' = []" for c patch s'
    by (rule update_starts [OF that, of _ "snd (update_settings True c patch s')"]) simp
  show ?thesis
  proof (cases e)
    case RetryInitialization
    with e have "busy s = []" by (simp add: one_change_enabled_def starts_change_def)
    then show ?thesis
      by (auto simp: RetryInitialization retry_initialization_def Let_def busy_def update_locked_def add_task_def
          in_force_def change_ok_def intro!: change_one)
  next
    case UnlockApp
    with s(2) show ?thesis by (auto simp: unlock_app_def authenticate_def intro!: change_fields)
  next
    case (SetAppLock on)
    with e have b: "busy s = []" by (simp add: one_change_enabled_def starts_change_def)
    have "change_holds (add_task ProbingHardware s)"
      using b f(1) by (intro change_one) (auto simp: change_simps)
    with start [OF f(1) b] show ?thesis by (auto simp: SetAppLock set_app_lock_def split_beta)
  next
    case (SetHidePreview on)
    with e have b: "busy s = []" by (simp add: one_change_enabled_def starts_change_def)
    with start [OF f(1) b] show ?thesis by (auto simp: SetHidePreview set_hide_preview_def split_beta)
  next
    case (AppStateChanges a)
    with s(2) show ?thesis by (auto simp: app_state_changes_def intro!: change_fields)
  next
    case (ReadAnswers i ok)
    then obtain r where t: "map_of (pr_tasks s) i = Some (ReadingSettings r)"
      using e by (auto simp: one_change_enabled_def split: option.splits privacy_task.splits)
    have "change_holds (set_task i (ApplyingSettings r (read_privacy_settings (pr_stored s))) s)"
      using busy_at(1) [OF s(1) f(2) t] at(3) [OF t] f(1)
      by (intro change_one) (auto simp: change_simps)
    with drop [OF t] show ?thesis by (auto simp: ReadAnswers t settings_read_def Let_def intro!: failed)
  next
    case (WriteAnswers i ok)
    then obtain u where t: "map_of (pr_tasks s) i = Some (UpdatingSettings u)" "pu_stage u \<in> {WriteNext, RollBackWrite}"
      using e by (auto simp: one_change_enabled_def split: option.splits privacy_task.splits)
    from one_change(2) [OF s(1) f(2) t(1) f(1) at(3) [OF t(1)] t(2)] show ?thesis by (simp add: WriteAnswers t(1))
  next
    case (ProtectionAnswers i ok)
    then consider (load) r p where "map_of (pr_tasks s) i = Some (ApplyingSettings r p)"
      | (update) u where "map_of (pr_tasks s) i = Some (UpdatingSettings u)" "pu_stage u \<in> {ProtectFirst, ProtectAfter, RollBackProtection}"
      using e by (auto simp: one_change_enabled_def split: option.splits privacy_task.splits)
    then show ?thesis
    proof cases
      case load
      let ?s = "protection_done True ok p s"
      have b: "busy (drop_task i ?s) = []"
        using at(2) [OF load] by (simp add: busy_def drop_task_def)
      have p: "\<not> pr_ready s" "p = read_privacy_settings (pr_stored s)" using at(3) [OF load] by (simp_all add: change_ok_def)
      have "change_holds (drop_task i ?s)" using b p by (intro change_idle) (simp_all add: in_force_def)
      moreover have "change_holds ((update_locked (pv_app_lock p) ((drop_task i ?s)\<lparr>pr_settings := p\<rparr>))\<lparr>pr_ready := True, pr_hydrated := True\<rparr>)"
        if "ok \<or> \<not> protects_app_switcher p"
        using b p that by (intro change_idle; cases ok) (simp_all add: in_force_def stored_protects_def)
      ultimately show ?thesis
        by (auto simp: ProtectionAnswers load settings_applied_def Let_def intro!: failed)
    next
      case update
      from one_change(1) [OF s(1) f(2) update(1) f(1) at(3) [OF update(1)] update(2)] show ?thesis
        by (simp add: ProtectionAnswers update(1))
    qed
  next
    case (AuthAnswers i a)
    then have "map_of (pr_tasks s) i \<in> {Some Unlocking, Some ConfirmingUser}" using e by (simp add: one_change_enabled_def)
    then show ?thesis
    proof
      assume t: "map_of (pr_tasks s) i = Some Unlocking"
      have "drop_task i (s\<lparr>pr_authenticating := False\<rparr>) = (drop_task i s)\<lparr>pr_authenticating := False\<rparr>" by (simp add: drop_task_def)
      with drop [OF t] show ?thesis
        by (auto simp: AuthAnswers t unlock_answered_def split: option.split auth_answer.split intro!: change_fields)
    next
      assume "map_of (pr_tasks s) i \<in> {Some ConfirmingUser}"
      then have t: "map_of (pr_tasks s) i = Some ConfirmingUser" by simp
      let ?s = "drop_task i (s\<lparr>pr_authenticating := False\<rparr>)"
      have d: "?s = (drop_task i s)\<lparr>pr_authenticating := False\<rparr>" by (simp add: drop_task_def)
      have "in_force ?s" "busy ?s = []" using at(2) [OF t] f(1) by (simp_all add: d in_force_def stored_protects_def)
      from start [OF this] drop [OF t] show ?thesis
        by (auto simp: AuthAnswers t confirmation_answered_def split_beta d split: option.split auth_answer.split intro!: change_fields)
    qed
  next
    case (HardwareAnswers i a)
    then have t: "map_of (pr_tasks s) i = Some ProbingHardware" using e by (simp add: one_change_enabled_def)
    have f': "in_force (drop_task i s)" using f(1) by (simp add: in_force_def stored_protects_def)
    have "change_holds (add_task ConfirmingUser ((drop_task i s)\<lparr>pr_authenticating := True\<rparr>))"
      using at(2) [OF t] f' by (intro change_one [of _ ConfirmingUser]) (simp_all add: in_force_def stored_protects_def change_ok_def)
    then have "change_holds (fst (authenticate ConfirmingUser (drop_task i s)))"
      using change_idle [OF at(2) [OF t] f'] by (simp add: authenticate_def)
    with drop [OF t] show ?thesis by (auto simp: HardwareAnswers t hardware_answered_def split: option.split)
  qed
qed

interpretation one_change: machine "privacy_step True" one_change_enabled "\<lambda>s. privacy_inv s \<and> change_holds s"
  by unfold_locales (auto intro: inv_step change_step)

text \<open>When the settings screen changes one thing at a time, the protection a stored setting asks for is on
  whenever the provider is ready, at every point of every change, whichever of its calls fail: an
  interruption leaves extra protection at most.\<close>

theorem stored_protection_is_in_force:
  assumes "legal_events (privacy_step True) one_change_enabled (open_privacy stored protected) es"
    "s = fst (run_events (privacy_step True) (open_privacy stored protected) es)" "pr_ready s"
    "protects_app_switcher (read_privacy_settings (pr_stored s))"
  shows "pr_protected s"
proof -
  have "change_holds (open_privacy stored protected)"
    by (simp add: change_holds_def open_privacy_def in_force_def busy_def change_ok_def)
  with one_change.run_inv [OF _ assms(1)] open_inv have "change_holds s" by (simp add: assms(2))
  with assms(3,4) show ?thesis by (simp add: change_holds_def in_force_def stored_protects_def)
qed

lemma stored_protection_is_in_force_witness:
  "pr_protected (fst (run_events (privacy_step True) (open_privacy locked_store False) [ReadAnswers 0 True, ProtectionAnswers 0 True]))"
  by (rule stored_protection_is_in_force [OF _ refl])
    (simp_all add: loaded_lock read_locked_store protects_app_switcher_def,
     simp add: one_change_enabled_def starts_change_def open_privacy_def settings_read_def set_task_def Let_def)

text \<open>Two changes at once can take the lock off: the one that began first writes the settings it read then.\<close>

lemma hiding_takes_the_lock_off:
  "let s = (open_privacy NoText False)\<lparr>pr_ready := True, pr_tasks := []\<rparr>;
       t = fst (run_events (privacy_step True) s
         [SetAppLock True, HardwareAnswers 1 (Some (True, True)), SetHidePreview True, AuthAnswers 2 (Some AuthOk),
          ProtectionAnswers 4 True, WriteAnswers 4 True, ProtectionAnswers 3 True, WriteAnswers 3 True])
   in \<not> pv_app_lock (pr_settings t) \<and> pr_stored t = StoredText (Some (json_of_privacy \<lparr>pv_app_lock = False, pv_hide_preview = True\<rparr>))"
  by (simp add: run_events.simps(2) privacy_eval set_app_lock_def add_task_def hardware_answered_def authenticate_def
      set_hide_preview_def update_settings_def initial_privacy_settings_def confirmation_answered_def update_protected_def
      update_written_def update_done_def store_written_def split: prod.split)

end
