(* ===== verification/PushRegistration.thy ===== *)
theory PushRegistration
  imports MobileGates Api
begin

section \<open>Push registration (apps/mobile/src/notifications/PushCoordinator.tsx, storage/push-registration.ts)\<close>

text \<open>
  The mobile app keeps one registration for push notifications, at the gateway it is connected to.  The
  coordinator's effects put operations on a serial chain: hand the old gateway's registration off, remove
  the registration, register.  Its refs, the two stores it writes and the rows the gateways hold (a
  gateway's URL to the token it pushes to) are one record; \<open>pc_effect\<close> counts the runs of the registration
  effect, so that the \<open>active\<close> flag of a run is that it is the current one.  An event is a render, the
  restored snapshot, a new device token, or the answer of the one call the running operation awaits. A call
  that rejects has changed nothing (\<open>AnswerRejected\<close>), or it is a request the gateway has carried out and whose
  answer did not get back (\<open>AnswerLost\<close>).  A request of the session's client goes to the gateway the session is
  connected to when it is sent, which is an event of its own, since the client may refresh its token first.
  The notification that opens an agent is in \<open>MobileGates\<close>; permissions, tokens and the installation's id
  are answers, and \<open>platform\<close> is the platform if this build can receive pushes on it.
\<close>

record push_snapshot =
  ps_connection :: connection_config
  ps_token :: string

record registration_ask =
  ra_event_types :: "string list"
  ra_previews :: bool

datatype push_op = HandOff push_snapshot | RemoveRegistration | RegisterDevice nat registration_ask bool

text \<open>The call an operation waits for.\<close>

datatype push_stage =
    DeletingOld
  | ReadingStored
  | ClearingStored
  | ReadingToken
  | DeletingToken string
  | DeleteSent string string
  | RemovingKey
  | SettingChannel
  | AskingPermission
  | RequestingPermission
  | FetchingToken
  | FetchingId string
  | PuttingDevice push_snapshot string
  | PutSent push_snapshot string
  | WritingKey push_snapshot
  | WritingSnapshot push_snapshot

record push_view =
  vw_status :: session_status
  vw_connection :: "connection_config option"
  vw_prefs_hydrated :: bool
  vw_remote :: bool
  vw_chat_replies :: bool
  vw_previews :: bool

record push_coordinator =
  pc_view :: push_view
  pc_hydrated :: bool
  pc_snapshot :: "push_snapshot option"
  pc_effect :: nat
  pc_granted :: bool
  pc_listening :: "registration_ask option"
  pc_chain :: "push_op list"
  pc_running :: "(push_op \<times> push_stage) option"
  pc_stored :: "push_snapshot option"
  pc_token :: "string option"
  pc_rows :: "string \<Rightarrow> string option"

datatype push_answer =
    AnswerOk
  | AnswerRejected
  | AnswerLost
  | RequestSent
  | PermissionIs bool
  | ExpoTokenIs string
  | InstallationIdIs string

datatype push_event = SnapshotRead bool | PushRenders push_view | DeviceTokenChanges | CallAnswers push_answer

datatype push_out = DeleteDevice string string | PutDevice string device_registration

definition view_url :: "push_view \<Rightarrow> string option" where
  "view_url v = map_option co_url (vw_connection v)"

definition registration_target :: "push_snapshot option \<Rightarrow> (string \<times> string) option" where
  "registration_target snapshot = map_option (\<lambda>sn. (co_url (ps_connection sn), ps_token sn)) snapshot"

subsection \<open>The chain of operations\<close>

text \<open>The first await of an operation, or none where it returns at once.\<close>

definition begin_op ::
  "mobile_platform option \<Rightarrow> bool \<Rightarrow> push_op \<Rightarrow> push_coordinator \<Rightarrow> (push_stage \<times> push_out list) option" where
  "begin_op platform project op s =
     (case op of
        HandOff sn \<Rightarrow> Some (DeletingOld, [DeleteDevice (co_url (ps_connection sn)) (ps_token sn)])
      | RemoveRegistration \<Rightarrow> Some (ReadingToken, [])
      | RegisterDevice effect ask first \<Rightarrow>
          if effect \<noteq> pc_effect s then None
          else if first then Some (if platform = Some Android then SettingChannel else AskingPermission, [])
          else if pc_granted s \<and> project then Some (FetchingToken, []) else None)"

fun start_next ::
  "mobile_platform option \<Rightarrow> bool \<Rightarrow> push_op list \<Rightarrow> push_coordinator \<Rightarrow> push_coordinator \<times> push_out list" where
  "start_next platform project [] s = (s\<lparr>pc_chain := [], pc_running := None\<rparr>, [])"
| "start_next platform project (op # ops) s =
     (case begin_op platform project op s of
        Some (stage, outs) \<Rightarrow> (s\<lparr>pc_chain := ops, pc_running := Some (op, stage)\<rparr>, outs)
      | None \<Rightarrow> start_next platform project ops s)"

definition enqueue_op ::
  "mobile_platform option \<Rightarrow> bool \<Rightarrow> push_op \<Rightarrow> push_coordinator \<Rightarrow> push_coordinator \<times> push_out list" where
  "enqueue_op platform project op s =
     (if pc_running s = None then start_next platform project (pc_chain s @ [op]) s
      else (s\<lparr>pc_chain := pc_chain s @ [op]\<rparr>, []))"

definition end_op :: "mobile_platform option \<Rightarrow> bool \<Rightarrow> push_coordinator \<Rightarrow> push_coordinator \<times> push_out list" where
  "end_op platform project s = start_next platform project (pc_chain s) s"

subsection \<open>The effects\<close>

definition handoff_effect :: "mobile_platform option \<Rightarrow> bool \<Rightarrow> push_coordinator \<Rightarrow> push_coordinator \<times> push_out list" where
  "handoff_effect platform project s =
     (if \<not> pc_hydrated s then (s, [])
      else case pc_snapshot s of
             None \<Rightarrow> (s, [])
           | Some sn \<Rightarrow>
               if \<not> gateway_handoff_decision (Some (co_url (ps_connection sn))) (view_url (pc_view s)) (vw_status (pc_view s))
               then (s, [])
               else enqueue_op platform project (HandOff sn) (s\<lparr>pc_snapshot := None\<rparr>))"

definition asked_registration :: "push_view \<Rightarrow> registration_ask" where
  "asked_registration v =
     \<lparr>ra_event_types = (if vw_chat_replies v then [''chat''] else []) @ [''status''], ra_previews = vw_previews v\<rparr>"

definition register_effect :: "mobile_platform option \<Rightarrow> bool \<Rightarrow> push_coordinator \<Rightarrow> push_coordinator \<times> push_out list" where
  "register_effect platform project s0 =
     (let s = s0\<lparr>pc_effect := Suc (pc_effect s0), pc_granted := False, pc_listening := None\<rparr>; v = pc_view s
      in if \<not> pc_hydrated s then (s, [])
         else case push_registration_decision (vw_prefs_hydrated v) (vw_status v) (vw_remote v) of
                WaitRegistration \<Rightarrow> (s, [])
              | UnregisterPush \<Rightarrow> enqueue_op platform project RemoveRegistration s
              | RegisterPush \<Rightarrow>
                  if platform = None \<or> view_url v = None \<or> view_url v = Some [] then (s, [])
                  else enqueue_op platform project (RegisterDevice (pc_effect s) (asked_registration v) True)
                         (s\<lparr>pc_listening := Some (asked_registration v)\<rparr>))"

text \<open>Which effects a render runs: those whose dependencies changed.  The handoff's comes first, so the old
  gateway's deletion is always before the new one's registration.\<close>

definition handoff_deps :: "push_coordinator \<Rightarrow> bool \<times> session_status \<times> string option" where
  "handoff_deps s = (pc_hydrated s, vw_status (pc_view s), view_url (pc_view s))"

definition register_deps :: "push_coordinator \<Rightarrow> bool \<times> session_status \<times> string option \<times> bool \<times> bool \<times> bool \<times> bool" where
  "register_deps s =
     (let v = pc_view s
      in (pc_hydrated s, vw_status v, view_url v, vw_prefs_hydrated v, vw_remote v, vw_chat_replies v, vw_previews v))"

definition run_effects ::
  "mobile_platform option \<Rightarrow> bool \<Rightarrow> push_coordinator \<Rightarrow> push_coordinator \<Rightarrow> push_coordinator \<times> push_out list" where
  "run_effects platform project before s =
     chain (if handoff_deps s \<noteq> handoff_deps before then handoff_effect platform project s else (s, []))
       (\<lambda>s'. if register_deps s \<noteq> register_deps before then register_effect platform project s' else (s', []))"

subsection \<open>The answers\<close>

definition await_stage :: "push_op \<Rightarrow> push_stage \<Rightarrow> push_coordinator \<Rightarrow> push_coordinator" where
  "await_stage op stage s = s\<lparr>pc_running := Some (op, stage)\<rparr>"

definition delete_row :: "string \<Rightarrow> string \<Rightarrow> push_coordinator \<Rightarrow> push_coordinator" where
  "delete_row url token s =
     s\<lparr>pc_rows := (\<lambda>u. if u = url \<and> pc_rows s u = Some token then None else pc_rows s u)\<rparr>"

definition push_registration_of ::
  "mobile_platform \<Rightarrow> registration_ask \<Rightarrow> string \<Rightarrow> push_snapshot \<Rightarrow> device_registration" where
  "push_registration_of platform ask installation sn =
     \<lparr>dg_installation_id = installation, dg_token = ps_token sn, dg_platform = platform,
      dg_gateway = co_url (ps_connection sn), dg_event_types = ra_event_types ask, dg_previews = ra_previews ask\<rparr>"

text \<open>\<open>registerExpoToken\<close> up to its snapshot of the connection.\<close>

definition fetched_id :: "push_op \<Rightarrow> string \<Rightarrow> string \<Rightarrow> push_coordinator \<Rightarrow> push_coordinator option" where
  "fetched_id op token installation s =
     map_option (\<lambda>c. await_stage op (PuttingDevice \<lparr>ps_connection = c, ps_token = token\<rparr> installation) s)
       (vw_connection (pc_view s))"

text \<open>What the answer makes of the running operation: the state it goes on in, or none where it ends, with the
  state it leaves; \<open>op_active\<close> is the flag of the effect that queued it.\<close>

definition op_active :: "push_op \<Rightarrow> push_coordinator \<Rightarrow> bool" where
  "op_active op s = (case op of RegisterDevice effect ask first \<Rightarrow> effect = pc_effect s | _ \<Rightarrow> True)"

definition permission_answered :: "bool \<Rightarrow> push_op \<Rightarrow> bool \<Rightarrow> push_coordinator \<Rightarrow> push_coordinator \<times> bool" where
  "permission_answered project op granted s =
     (let s' = (if op_active op s then s\<lparr>pc_granted := granted\<rparr> else s)
      in if granted \<and> op_active op s \<and> project then (await_stage op FetchingToken s', True) else (s', False))"

text \<open>A request that was carried out while its answer was lost: the operation ends on the error.\<close>

definition lost_answer :: "push_op \<Rightarrow> push_stage \<Rightarrow> push_coordinator \<Rightarrow> push_coordinator" where
  "lost_answer op stage s =
     (case stage of
        DeletingOld \<Rightarrow> (case op of HandOff sn \<Rightarrow> delete_row (co_url (ps_connection sn)) (ps_token sn) s | _ \<Rightarrow> s)
      | DeleteSent token url \<Rightarrow> delete_row url token s
      | PutSent sn url \<Rightarrow> s\<lparr>pc_rows := (pc_rows s)(url \<mapsto> ps_token sn)\<rparr>
      | _ \<Rightarrow> s)"

definition op_answered ::
  "bool \<Rightarrow> push_op \<Rightarrow> push_stage \<Rightarrow> push_answer \<Rightarrow> push_coordinator \<Rightarrow> push_coordinator \<times> bool" where
  "op_answered project op stage answer s =
     (if answer = AnswerRejected then (s, False)
      else if answer = AnswerLost then (lost_answer op stage s, False)
      else case stage of
        DeletingOld \<Rightarrow>
          (case op of
             HandOff sn \<Rightarrow> (await_stage op ReadingStored (delete_row (co_url (ps_connection sn)) (ps_token sn) s), True)
           | _ \<Rightarrow> (s, False))
      | ReadingStored \<Rightarrow>
          (case op of
             HandOff sn \<Rightarrow>
               if is_same_registration (registration_target (pc_stored s)) (registration_target (Some sn))
               then (await_stage op ClearingStored s, True) else (s, False)
           | _ \<Rightarrow> (s, False))
      | ClearingStored \<Rightarrow> (s\<lparr>pc_stored := None\<rparr>, False)
      | ReadingToken \<Rightarrow>
          (case pc_token s of
             Some (c # token) \<Rightarrow> (await_stage op (DeletingToken (c # token)) s, True)
           | _ \<Rightarrow> (s, False))
      | DeletingToken token \<Rightarrow>
          (case view_url (pc_view s) of
             Some url \<Rightarrow> (await_stage op (DeleteSent token url) s, True)
           | None \<Rightarrow> (s, False))
      | DeleteSent token url \<Rightarrow> (await_stage op RemovingKey (delete_row url token s), True)
      | RemovingKey \<Rightarrow> (s\<lparr>pc_token := None\<rparr>, False)
      | SettingChannel \<Rightarrow> (await_stage op AskingPermission s, True)
      | AskingPermission \<Rightarrow>
          if answer = PermissionIs True then permission_answered project op True s
          else (await_stage op RequestingPermission s, True)
      | RequestingPermission \<Rightarrow> permission_answered project op (answer = PermissionIs True) s
      | FetchingToken \<Rightarrow>
          (case answer of
             ExpoTokenIs token \<Rightarrow> if op_active op s then (await_stage op (FetchingId token) s, True) else (s, False)
           | _ \<Rightarrow> (s, False))
      | FetchingId token \<Rightarrow>
          (case answer of
             InstallationIdIs installation \<Rightarrow>
               if \<not> op_active op s then (s, False)
               else (case fetched_id op token installation s of Some s' \<Rightarrow> (s', True) | None \<Rightarrow> (s, False))
           | _ \<Rightarrow> (s, False))
      | PuttingDevice sn installation \<Rightarrow>
          (case view_url (pc_view s) of
             Some url \<Rightarrow> (await_stage op (PutSent sn url) s, True)
           | None \<Rightarrow> (s, False))
      | PutSent sn url \<Rightarrow> (await_stage op (WritingKey sn) (s\<lparr>pc_rows := (pc_rows s)(url \<mapsto> ps_token sn)\<rparr>), True)
      | WritingKey sn \<Rightarrow>
          (await_stage op (WritingSnapshot sn) (s\<lparr>pc_token := Some (ps_token sn), pc_snapshot := Some sn\<rparr>), True)
      | WritingSnapshot sn \<Rightarrow> (s\<lparr>pc_stored := Some sn\<rparr>, False))"

text \<open>The requests an answer sends through the session's client.\<close>

definition sent_request :: "mobile_platform option \<Rightarrow> push_op \<Rightarrow> push_stage \<Rightarrow> push_answer \<Rightarrow> push_coordinator \<Rightarrow> push_out list" where
  "sent_request platform op stage answer s =
     (case (view_url (pc_view s), answer, stage) of
        (Some url, RequestSent, DeletingToken token) \<Rightarrow> [DeleteDevice url token]
      | (Some url, RequestSent, PuttingDevice sn installation) \<Rightarrow>
          (case (op, platform) of
             (RegisterDevice effect ask first, Some p) \<Rightarrow> [PutDevice url (push_registration_of p ask installation sn)]
           | _ \<Rightarrow> [])
      | _ \<Rightarrow> [])"

fun push_step ::
  "mobile_platform option \<Rightarrow> bool \<Rightarrow> push_coordinator \<Rightarrow> push_event \<Rightarrow> push_coordinator \<times> push_out list" where
  "push_step platform project s (SnapshotRead ok) =
     run_effects platform project s
       (s\<lparr>pc_snapshot := (if ok then resolve_hydrated_snapshot (pc_snapshot s) (pc_stored s) else pc_snapshot s),
          pc_hydrated := True\<rparr>)"
| "push_step platform project s (PushRenders v) = run_effects platform project s (s\<lparr>pc_view := v\<rparr>)"
| "push_step platform project s DeviceTokenChanges =
     (case pc_listening s of
        Some ask \<Rightarrow> enqueue_op platform project (RegisterDevice (pc_effect s) ask False) s
      | None \<Rightarrow> (s, []))"
| "push_step platform project s (CallAnswers answer) =
     (case pc_running s of
        None \<Rightarrow> (s, [])
      | Some (op, stage) \<Rightarrow>
          let (s', goes_on) = op_answered project op stage answer s; sent = sent_request platform op stage answer s
          in if goes_on then (s', sent) else let (s'', outs) = end_op platform project s' in (s'', sent @ outs))"

text \<open>Which answer a call can give.\<close>

definition fits :: "push_stage \<Rightarrow> push_answer \<Rightarrow> bool" where
  "fits stage answer \<longleftrightarrow>
     (case answer of
        AnswerRejected \<Rightarrow> True
      | AnswerLost \<Rightarrow> (case stage of DeletingOld \<Rightarrow> True | DeleteSent t u \<Rightarrow> True | PutSent sn u \<Rightarrow> True | _ \<Rightarrow> False)
      | AnswerOk \<Rightarrow> (case stage of
            DeletingToken t \<Rightarrow> False | AskingPermission \<Rightarrow> False | RequestingPermission \<Rightarrow> False | FetchingToken \<Rightarrow> False
          | FetchingId t \<Rightarrow> False | PuttingDevice sn i \<Rightarrow> False | _ \<Rightarrow> True)
      | RequestSent \<Rightarrow> (case stage of DeletingToken t \<Rightarrow> True | PuttingDevice sn i \<Rightarrow> True | _ \<Rightarrow> False)
      | PermissionIs g \<Rightarrow> stage = AskingPermission \<or> stage = RequestingPermission
      | ExpoTokenIs t \<Rightarrow> stage = FetchingToken
      | InstallationIdIs i \<Rightarrow> (case stage of FetchingId t \<Rightarrow> True | _ \<Rightarrow> False))"

text \<open>A session leaves its boot once, a connection has a URL, and a request is sent only while connected.\<close>

definition push_enabled :: "push_coordinator \<Rightarrow> push_event \<Rightarrow> bool" where
  "push_enabled s e \<longleftrightarrow>
     (case e of
        SnapshotRead ok \<Rightarrow> \<not> pc_hydrated s
      | PushRenders v \<Rightarrow> view_url v \<noteq> Some [] \<and> (vw_status v = SessionBooting \<longrightarrow> vw_status (pc_view s) = SessionBooting)
      | DeviceTokenChanges \<Rightarrow> pc_listening s \<noteq> None
      | CallAnswers answer \<Rightarrow>
          (case pc_running s of
             None \<Rightarrow> False
           | Some (op, stage) \<Rightarrow> fits stage answer \<and> (answer = RequestSent \<longrightarrow> vw_connection (pc_view s) \<noteq> None)))"

definition open_push :: "push_snapshot option \<Rightarrow> string option \<Rightarrow> (string \<Rightarrow> string option) \<Rightarrow> push_view \<Rightarrow> push_coordinator" where
  "open_push stored token rows v =
     \<lparr>pc_view = v, pc_hydrated = False, pc_snapshot = None, pc_effect = 0, pc_granted = False, pc_listening = None,
      pc_chain = [], pc_running = None, pc_stored = stored, pc_token = token, pc_rows = rows\<rparr>"

subsection \<open>Which gateways hold a registration\<close>

definition current_url :: "push_coordinator \<Rightarrow> string option" where
  "current_url s = view_url (pc_view s)"

definition registered_as :: "push_snapshot \<Rightarrow> string \<Rightarrow> string \<Rightarrow> bool" where
  "registered_as sn url token \<longleftrightarrow> co_url (ps_connection sn) = url \<and> ps_token sn = token"

definition past_boot :: "push_coordinator \<Rightarrow> bool" where
  "past_boot s \<longleftrightarrow> pc_hydrated s \<and> vw_status (pc_view s) \<noteq> SessionBooting"

definition put_stage :: "push_stage \<Rightarrow> push_snapshot option" where
  "put_stage stage =
     (case stage of
        PuttingDevice sn i \<Rightarrow> Some sn | PutSent sn url \<Rightarrow> Some sn | WritingKey sn \<Rightarrow> Some sn | _ \<Rightarrow> None)"

definition registers :: "push_op \<Rightarrow> bool" where
  "registers op \<longleftrightarrow> (case op of RegisterDevice e a f \<Rightarrow> True | _ \<Rightarrow> False)"

definition stage_kind :: "push_op \<Rightarrow> push_stage \<Rightarrow> bool" where
  "stage_kind op stage \<longleftrightarrow>
     (case stage of
        DeletingOld \<Rightarrow> \<exists>sn. op = HandOff sn
      | ReadingStored \<Rightarrow> \<exists>sn. op = HandOff sn
      | ClearingStored \<Rightarrow> \<exists>sn. op = HandOff sn
      | ReadingToken \<Rightarrow> op = RemoveRegistration
      | DeletingToken t \<Rightarrow> op = RemoveRegistration
      | DeleteSent t url \<Rightarrow> op = RemoveRegistration
      | RemovingKey \<Rightarrow> op = RemoveRegistration
      | _ \<Rightarrow> registers op)"

definition stage_ok :: "push_coordinator \<Rightarrow> push_op \<Rightarrow> push_stage \<Rightarrow> bool" where
  "stage_ok s op stage \<longleftrightarrow>
     stage_kind op stage \<and>
     (\<forall>sn. put_stage stage = Some sn \<longrightarrow> current_url s = Some (co_url (ps_connection sn))) \<and>
     (\<forall>sn url. stage = PutSent sn url \<longrightarrow> url = co_url (ps_connection sn)) \<and>
     (\<forall>sn. stage = WritingKey sn \<longrightarrow> pc_rows s (co_url (ps_connection sn)) = Some (ps_token sn))"

text \<open>What tracks a row: the snapshot, the stored one before it is restored, or an operation.\<close>

definition tracked_in :: "push_snapshot set \<Rightarrow> push_coordinator \<Rightarrow> bool" where
  "tracked_in H s \<longleftrightarrow>
     (\<forall>url token. pc_rows s url = Some token \<longrightarrow>
        (\<exists>sn. registered_as sn url token \<and>
           (pc_snapshot s = Some sn \<or> (\<not> pc_hydrated s \<and> pc_stored s = Some sn) \<or> sn \<in> H)))"

definition run_tracks :: "push_op \<Rightarrow> push_stage \<Rightarrow> push_snapshot set" where
  "run_tracks op stage = {sn. stage = WritingKey sn \<or> (op = HandOff sn \<and> stage = DeletingOld)}"

definition waiting :: "push_op list \<Rightarrow> push_snapshot set" where
  "waiting ops = {sn. HandOff sn \<in> set ops}"

definition aimed :: "push_coordinator \<Rightarrow> bool" where
  "aimed s \<longleftrightarrow> (past_boot s \<longrightarrow> (\<forall>sn. pc_snapshot s = Some sn \<longrightarrow> current_url s = Some (co_url (ps_connection sn))))"

definition push_base :: "push_coordinator \<Rightarrow> bool" where
  "push_base s \<longleftrightarrow>
     (\<not> pc_hydrated s \<longrightarrow> pc_snapshot s = None \<and> (\<forall>sn. pc_stored s = Some sn \<longrightarrow> co_url (ps_connection sn) \<noteq> [])) \<and>
     (\<forall>sn. pc_snapshot s = Some sn \<longrightarrow> co_url (ps_connection sn) \<noteq> []) \<and> current_url s \<noteq> Some [] \<and>
     (pc_listening s \<noteq> None \<longrightarrow> past_boot s)"

definition ops_ok :: "push_op list \<Rightarrow> push_coordinator \<Rightarrow> bool" where
  "ops_ok ops s \<longleftrightarrow> (\<forall>op \<in> set ops. registers op \<longrightarrow> past_boot s)"

definition push_core :: "push_snapshot set \<Rightarrow> push_coordinator \<Rightarrow> bool" where
  "push_core H s \<longleftrightarrow> push_base s \<and> ops_ok (pc_chain s) s \<and>
     (case pc_running s of
        None \<Rightarrow> pc_chain s = [] \<and> tracked_in H s
      | Some (op, stage) \<Rightarrow>
          tracked_in (H \<union> run_tracks op stage \<union> waiting (pc_chain s)) s \<and> stage_ok s op stage \<and> ops_ok [op] s \<and> pc_hydrated s)"

definition push_inv :: "push_coordinator \<Rightarrow> bool" where
  "push_inv s \<longleftrightarrow> push_core {} s \<and> aimed s"

text \<open>A calm event: no storage call rejects and no old gateway refuses the deletion, no registration is stored
  without its answer getting back, and the app does not move to another gateway while a registration is
  under way at one.\<close>

definition calm :: "push_coordinator \<Rightarrow> push_event \<Rightarrow> bool" where
  "calm s e \<longleftrightarrow>
     (case e of
        SnapshotRead ok \<Rightarrow> ok
      | PushRenders v \<Rightarrow>
          (case pc_running s of
             Some (op, stage) \<Rightarrow> put_stage stage = None \<or> view_url v = current_url s
           | None \<Rightarrow> True)
      | CallAnswers AnswerRejected \<Rightarrow>
          (case pc_running s of
             Some (op, DeletingOld) \<Rightarrow> False
           | Some (op, WritingKey sn) \<Rightarrow> False
           | _ \<Rightarrow> True)
      | CallAnswers AnswerLost \<Rightarrow>
          (case pc_running s of Some (op, PutSent sn url) \<Rightarrow> False | _ \<Rightarrow> True)
      | _ \<Rightarrow> True)"

lemma tracked_mono: "tracked_in H s \<Longrightarrow> H \<subseteq> H' \<Longrightarrow> tracked_in H' s"
  unfolding tracked_in_def by blast

lemma queue_simps [simp]:
  "push_base (s\<lparr>pc_chain := ops, pc_running := r\<rparr>) = push_base s" "aimed (s\<lparr>pc_chain := ops, pc_running := r\<rparr>) = aimed s"
  "ops_ok os (s\<lparr>pc_chain := ops, pc_running := r\<rparr>) = ops_ok os s" "tracked_in H (s\<lparr>pc_chain := ops, pc_running := r\<rparr>) = tracked_in H s"
  "stage_ok (s\<lparr>pc_chain := ops, pc_running := r\<rparr>) = stage_ok s"
  "push_base (s\<lparr>pc_chain := ops\<rparr>) = push_base s" "aimed (s\<lparr>pc_chain := ops\<rparr>) = aimed s"
  "ops_ok os (s\<lparr>pc_chain := ops\<rparr>) = ops_ok os s" "tracked_in H (s\<lparr>pc_chain := ops\<rparr>) = tracked_in H s"
  "stage_ok (s\<lparr>pc_chain := ops\<rparr>) = stage_ok s"
  "push_base (await_stage op stage s) = push_base s" "aimed (await_stage op stage s) = aimed s"
  "ops_ok os (await_stage op stage s) = ops_ok os s" "tracked_in H (await_stage op stage s) = tracked_in H s"
  "stage_ok (await_stage op stage s) = stage_ok s" "pc_chain (await_stage op stage s) = pc_chain s"
  "pc_running (await_stage op stage s) = Some (op, stage)"
  by (simp_all add: push_base_def aimed_def ops_ok_def tracked_in_def stage_ok_def past_boot_def current_url_def
      await_stage_def fun_eq_iff)

lemma begin_ok: "begin_op platform project op s = Some (stage, outs) \<Longrightarrow>
    stage_ok s op stage \<and> (\<forall>sn. op = HandOff sn \<longrightarrow> stage = DeletingOld)"
  by (auto simp: begin_op_def stage_ok_def stage_kind_def put_stage_def registers_def split: push_op.splits if_splits)

lemma start_core:
  assumes "push_base s" "ops_ok ops s" "tracked_in (waiting ops) s" "pc_hydrated s"
  shows "push_core {} (fst (start_next platform project ops s)) \<and> aimed (fst (start_next platform project ops s)) = aimed s"
  using assms
proof (induction ops)
  case Nil
  then show ?case by (simp add: push_core_def waiting_def ops_ok_def)
next
  case (Cons op ops)
  show ?case
  proof (cases "begin_op platform project op s")
    case None
    then have "waiting (op # ops) = waiting ops" by (auto simp: waiting_def begin_op_def)
    with Cons None show ?thesis by (simp add: ops_ok_def)
  next
    case (Some r)
    obtain stage outs where r: "r = (stage, outs)" by (cases r)
    note b = begin_ok [OF Some [unfolded r]]
    have "waiting (op # ops) \<subseteq> run_tracks op stage \<union> waiting ops" using b by (auto simp: waiting_def run_tracks_def)
    from tracked_mono [OF Cons.prems(3) this] b Cons.prems(1,2,4) show ?thesis
      by (simp add: Some r push_core_def) (simp add: ops_ok_def)
  qed
qed

lemma enqueue_core:
  assumes "push_core H s" "registers op \<longrightarrow> past_boot s" "H \<subseteq> waiting [op]" "pc_hydrated s"
  shows "push_core {} (fst (enqueue_op platform project op s)) \<and> aimed (fst (enqueue_op platform project op s)) = aimed s"
proof (cases "pc_running s")
  case None
  with assms(1) have "pc_chain s = []" "push_base s" "tracked_in H s" by (simp_all add: push_core_def)
  moreover from this have "tracked_in (waiting [op]) s" using tracked_mono assms(3) by blast
  ultimately show ?thesis using start_core [of s "[op]"] assms(2,4) by (simp add: enqueue_op_def None ops_ok_def)
next
  case (Some r)
  obtain rop stage where r: "r = (rop, stage)" by (cases r)
  have "H \<union> run_tracks rop stage \<union> waiting (pc_chain s) \<subseteq> run_tracks rop stage \<union> waiting (pc_chain s @ [op])"
    using assms(3) by (auto simp: waiting_def)
  with assms(1,2) tracked_mono show ?thesis
    by (auto simp: enqueue_op_def Some r push_core_def) (auto simp: ops_ok_def)
qed

lemma end_core:
  assumes "push_base s" "ops_ok (pc_chain s) s" "tracked_in (waiting (pc_chain s)) s" "aimed s" "pc_hydrated s"
  shows "push_inv (fst (end_op platform project s))"
  using start_core [OF assms(1-3,5)] assms(4) by (simp add: end_op_def push_inv_def)

subsection \<open>The effects keep the registrations tracked\<close>

lemma handoff_core:
  assumes "push_core {} s"
  shows "push_core {} (fst (handoff_effect platform project s)) \<and> aimed (fst (handoff_effect platform project s))"
proof (cases "pc_hydrated s \<and> (\<exists>sn. pc_snapshot s = Some sn \<and>
    gateway_handoff_decision (Some (co_url (ps_connection sn))) (view_url (pc_view s)) (vw_status (pc_view s)))")
  case True
  then obtain sn where sn: "pc_hydrated s" "pc_snapshot s = Some sn"
    "gateway_handoff_decision (Some (co_url (ps_connection sn))) (view_url (pc_view s)) (vw_status (pc_view s))" by blast
  let ?s = "s\<lparr>pc_snapshot := None\<rparr>"
  have t: "tracked_in (insert sn H) ?s" if "tracked_in H s" for H
    using that sn by (fastforce simp: tracked_in_def)
  have "push_core {sn} ?s"
    using assms sn(1) t [of "{}"] t
    by (auto simp: push_core_def push_base_def ops_ok_def past_boot_def current_url_def stage_ok_def split: option.splits)
  from enqueue_core [OF this, of "HandOff sn"] show ?thesis
    using sn by (simp add: handoff_effect_def registers_def waiting_def aimed_def)
next
  case False
  then have "handoff_effect platform project s = (s, [])" by (auto simp: handoff_effect_def split: option.split)
  moreover from False have "aimed s"
    using assms by (auto simp: aimed_def past_boot_def current_url_def gateway_handoff_decision_def push_core_def push_base_def
        split: if_splits)
  ultimately show ?thesis using assms by simp
qed

lemma register_core:
  assumes "push_core {} s" "aimed s"
  shows "push_inv (fst (register_effect platform project s))"
proof -
  have *: "push_core {} (s\<lparr>pc_effect := e, pc_granted := g, pc_listening := l\<rparr>) \<and> aimed (s\<lparr>pc_effect := e, pc_granted := g, pc_listening := l\<rparr>)"
    if "l = None \<or> past_boot s" for e g l
    using assms that
    by (auto simp: push_core_def push_base_def ops_ok_def past_boot_def current_url_def stage_ok_def tracked_in_def aimed_def
        split: option.splits)
  have p: "past_boot s" if "pc_hydrated s" "push_registration_decision h (vw_status (pc_view s)) r = RegisterPush" for h r
    using that by (auto simp: past_boot_def push_registration_decision_def split: if_splits)
  have q: "push_inv (fst (enqueue_op platform project op t))"
    if "push_core {} t \<and> aimed t" "registers op \<longrightarrow> past_boot t" "pc_hydrated t" for op t
    using enqueue_core [of "{}" t op] that by (simp add: push_inv_def)
  have b: "past_boot (s\<lparr>pc_effect := e, pc_granted := g, pc_listening := l\<rparr>) = past_boot s" for e g l by (simp add: past_boot_def)
  let ?t = "s\<lparr>pc_effect := Suc (pc_effect s), pc_granted := False, pc_listening := None\<rparr>"
  let ?r = "?t\<lparr>pc_listening := Some (asked_registration (pc_view s))\<rparr>"
  have t: "push_core {} ?t \<and> aimed ?t" using * [where l = None] by simp
  have idle: "push_inv ?t" using t by (simp add: push_inv_def)
  have remove: "push_inv (fst (enqueue_op platform project RemoveRegistration ?t))" if "pc_hydrated s"
    by (rule q [OF t]) (use that in \<open>simp_all add: registers_def\<close>)
  have reg: "push_inv (fst (enqueue_op platform project (RegisterDevice n a f) ?r))" if "past_boot s" for n a f
    using q [OF * [where l = "Some (asked_registration (pc_view s))" and e = "Suc (pc_effect s)" and g = False]] that b by (simp add: past_boot_def)
  show ?thesis
    using idle remove reg p [of "vw_prefs_hydrated (pc_view s)" "vw_remote (pc_view s)"]
    by (cases "push_registration_decision (vw_prefs_hydrated (pc_view s)) (vw_status (pc_view s)) (vw_remote (pc_view s))")
      (simp_all add: register_effect_def Let_def)
qed

lemma effects_inv:
  assumes "push_core {} s" "handoff_deps s = handoff_deps before \<Longrightarrow> aimed s"
  shows "push_inv (fst (run_effects platform project before s))"
  using assms handoff_core [OF assms(1), of platform project] register_core [of _ platform project]
  by (auto simp: run_effects_def push_inv_def)

lemma push_core_cases:
  assumes "push_inv s" "pc_running s = Some (op, stage)"
  shows "push_base s" "ops_ok (pc_chain s) s" "tracked_in (run_tracks op stage \<union> waiting (pc_chain s)) s"
    "stage_ok s op stage" "ops_ok [op] s" "aimed s" "pc_hydrated s"
  using assms by (simp_all add: push_inv_def push_core_def)

lemma await_inv:
  assumes "push_base s" "ops_ok (pc_chain s) s" "tracked_in (run_tracks op stage \<union> waiting (pc_chain s)) s"
    "stage_ok s op stage" "ops_ok [op] s" "aimed s" "pc_hydrated s"
  shows "push_inv (await_stage op stage s)"
  using assms by (simp add: push_inv_def push_core_def) (simp add: await_stage_def)

definition push_rest :: "push_coordinator \<Rightarrow> bool" where
  "push_rest s \<longleftrightarrow> push_base s \<and> ops_ok (pc_chain s) s \<and> tracked_in (waiting (pc_chain s)) s \<and> aimed s \<and> pc_hydrated s"

lemma rest_end: "push_rest s \<Longrightarrow> push_inv (fst (end_op platform project s))"
  using end_core by (simp add: push_rest_def)

lemma rest_await: "push_rest s \<Longrightarrow> stage_ok s op stage \<Longrightarrow> ops_ok [op] s \<Longrightarrow> push_inv (await_stage op stage s)"
  unfolding push_rest_def by (intro await_inv) (auto intro: tracked_mono)

lemma rest_fields:
  assumes "push_rest s"
  shows "push_rest (s\<lparr>pc_token := t\<rparr>)" "push_rest (s\<lparr>pc_granted := g\<rparr>)" "push_rest (s\<lparr>pc_stored := st\<rparr>)"
    "push_rest (delete_row url tok s)"
  using assms by (auto simp: push_rest_def push_base_def ops_ok_def tracked_in_def aimed_def past_boot_def current_url_def
      delete_row_def split: if_splits)

lemma tracked_deleted:
  assumes "tracked_in (insert sn H) s"
  shows "tracked_in H (delete_row (co_url (ps_connection sn)) (ps_token sn) s)"
  using assms unfolding tracked_in_def by (fastforce simp: delete_row_def registered_as_def split: if_splits)

lemma delete_row_simps [simp]:
  "push_base (delete_row url tok s) = push_base s" "aimed (delete_row url tok s) = aimed s"
  "ops_ok os (delete_row url tok s) = ops_ok os s" "pc_chain (delete_row url tok s) = pc_chain s"
  "pc_hydrated (delete_row url tok s) = pc_hydrated s"
  by (simp_all add: delete_row_def push_base_def aimed_def ops_ok_def past_boot_def current_url_def)

lemma stage_free:
  "stage_kind op stage \<Longrightarrow> put_stage stage = None \<Longrightarrow> stage_ok s op stage"
  by (auto simp: stage_ok_def put_stage_def split: push_stage.splits)

lemma put_done:
  assumes inv: "push_inv s" and run: "pc_running s = Some (op, PutSent sn url)"
  shows "push_inv (await_stage op (WritingKey sn) (s\<lparr>pc_rows := (pc_rows s)(url \<mapsto> ps_token sn)\<rparr>))"
proof -
  note c = push_core_cases [OF inv run]
  from c(4) have ok: "registers op" "current_url s = Some (co_url (ps_connection sn))" "url = co_url (ps_connection sn)"
    by (auto simp: stage_ok_def stage_kind_def put_stage_def)
  let ?s = "s\<lparr>pc_rows := (pc_rows s)(url \<mapsto> ps_token sn)\<rparr>"
  have t: "tracked_in (run_tracks op (WritingKey sn) \<union> waiting (pc_chain ?s)) ?s"
    using c(3) ok(3) unfolding tracked_in_def run_tracks_def by (auto simp: registered_as_def)
  show ?thesis
    by (rule await_inv [OF _ _ t])
      (use c ok in \<open>auto simp: push_base_def ops_ok_def aimed_def past_boot_def current_url_def stage_ok_def stage_kind_def put_stage_def\<close>)
qed

lemma key_written:
  assumes inv: "push_inv s" and run: "pc_running s = Some (op, WritingKey sn)"
  shows "push_inv (await_stage op (WritingSnapshot sn) (s\<lparr>pc_token := Some (ps_token sn), pc_snapshot := Some sn\<rparr>))"
proof -
  note c = push_core_cases [OF inv run]
  from c(4) have ok: "registers op" "current_url s = Some (co_url (ps_connection sn))"
    "pc_rows s (co_url (ps_connection sn)) = Some (ps_token sn)"
    by (auto simp: stage_ok_def stage_kind_def put_stage_def)
  with c(5) have p: "past_boot s" by (simp add: ops_ok_def)
  let ?s = "s\<lparr>pc_token := Some (ps_token sn), pc_snapshot := Some sn\<rparr>"
  have "\<exists>sn'. registered_as sn' url tok \<and> (sn' = sn \<or> sn' \<in> waiting (pc_chain s))" if "pc_rows s url = Some tok" for url tok
  proof -
    from c(3) that c(7) obtain sn' where sn': "registered_as sn' url tok"
      "pc_snapshot s = Some sn' \<or> sn' \<in> run_tracks op (WritingKey sn) \<union> waiting (pc_chain s)"
      unfolding tracked_in_def by blast
    show ?thesis
    proof (cases "pc_snapshot s = Some sn'")
      case True
      with c(6) p ok(2) sn'(1) have "url = co_url (ps_connection sn)" by (simp add: aimed_def registered_as_def)
      with that ok(3) show ?thesis by (auto simp: registered_as_def)
    next
      case False
      with sn' show ?thesis by (auto simp: run_tracks_def)
    qed
  qed
  then have "tracked_in (waiting (pc_chain s)) ?s" by (fastforce simp: tracked_in_def)
  moreover have "co_url (ps_connection sn) \<noteq> []" using c(1) ok(2) by (auto simp: push_base_def)
  ultimately have "push_rest ?s"
    using c ok(2) by (auto simp: push_rest_def push_base_def ops_ok_def aimed_def past_boot_def current_url_def)
  then show ?thesis
    by (rule rest_await) (use ok(1) p in \<open>auto simp: stage_free stage_kind_def put_stage_def ops_ok_def past_boot_def\<close>)
qed

lemma permission_ok:
  assumes "push_rest s" "registers op" "ops_ok [op] s"
  shows "(snd (permission_answered project op g s) \<longrightarrow> push_inv (fst (permission_answered project op g s))) \<and>
    (\<not> snd (permission_answered project op g s) \<longrightarrow> push_rest (fst (permission_answered project op g s)))"
proof -
  have "push_rest (s\<lparr>pc_granted := g\<rparr>)" using assms(1) by (rule rest_fields)
  moreover from this have "push_inv (await_stage op FetchingToken (s\<lparr>pc_granted := g\<rparr>))"
    by (rule rest_await) (use assms(2,3) in \<open>auto simp: stage_free stage_kind_def put_stage_def ops_ok_def past_boot_def\<close>)
  ultimately show ?thesis using assms(1) by (cases g) (simp_all add: permission_answered_def Let_def)
qed

lemma lost_ok:
  assumes inv: "push_inv s" and run: "pc_running s = Some (op, stage)" and fit: "fits stage AnswerLost"
    and calm: "calm s (CallAnswers AnswerLost)"
  shows "push_rest (lost_answer op stage s)"
proof -
  note c = push_core_cases [OF inv run]
  have kind: "stage_kind op stage" using c(4) by (simp add: stage_ok_def)
  show ?thesis
  proof (cases stage)
    case DeletingOld
    then obtain sn where op: "op = HandOff sn" using kind by (auto simp: stage_kind_def)
    have tracks: "run_tracks op stage \<union> waiting (pc_chain s) = insert sn (waiting (pc_chain s))"
      by (auto simp: run_tracks_def DeletingOld op)
    have "tracked_in (waiting (pc_chain s)) (delete_row (co_url (ps_connection sn)) (ps_token sn) s)"
      using c(3) unfolding tracks by (rule tracked_deleted)
    then show ?thesis using c by (simp add: push_rest_def lost_answer_def DeletingOld op)
  next
    case (DeleteSent t url)
    then have "push_rest s" using c by (simp add: push_rest_def run_tracks_def)
    then show ?thesis by (simp add: lost_answer_def DeleteSent rest_fields)
  qed (use fit calm run in \<open>auto simp: fits_def calm_def\<close>)
qed

lemma answered_ok:
  assumes inv: "push_inv s" and run: "pc_running s = Some (op, stage)" and fit: "fits stage answer"
    and calm: "calm s (CallAnswers answer)"
  shows "(snd (op_answered project op stage answer s) \<longrightarrow> push_inv (fst (op_answered project op stage answer s))) \<and>
    (\<not> snd (op_answered project op stage answer s) \<longrightarrow> push_rest (fst (op_answered project op stage answer s)))"
proof -
  note c = push_core_cases [OF inv run]
  have rest: "push_rest s" if "run_tracks op stage = {}" using c that by (simp add: push_rest_def)
  have kind: "stage_kind op stage" using c(4) by (simp add: stage_ok_def)
  have go: "push_inv (await_stage op stage' s)" if "push_rest s" "stage_kind op stage'" "put_stage stage' = None" for stage'
    using that c(5) by (intro rest_await stage_free)
  show ?thesis
  proof (cases "answer = AnswerRejected")
    case True
    with calm run have "stage \<noteq> DeletingOld" "\<And>sn. stage \<noteq> WritingKey sn" by (auto simp: calm_def)
    with True rest show ?thesis by (auto simp: op_answered_def run_tracks_def)
  next
    case rejected: False
    show ?thesis
    proof (cases "answer = AnswerLost")
      case True
      with lost_ok [OF inv run] fit calm show ?thesis by (simp add: op_answered_def)
    next
    case lost: False
    note False = rejected lost
    show ?thesis
    proof (cases stage)
      case DeletingOld
      then obtain sn where op: "op = HandOff sn" using kind by (auto simp: stage_kind_def)
      let ?s = "delete_row (co_url (ps_connection sn)) (ps_token sn) s"
      have tracks: "run_tracks op stage \<union> waiting (pc_chain s) = insert sn (waiting (pc_chain s))"
        by (auto simp: run_tracks_def DeletingOld op)
      have "tracked_in (waiting (pc_chain s)) ?s"
        using c(3) unfolding tracks by (rule tracked_deleted)
      then have "push_rest ?s" using c by (simp add: push_rest_def)
      then have "push_inv (await_stage op ReadingStored ?s)"
        by (rule rest_await) (use c(5) in \<open>auto simp: op stage_free stage_kind_def put_stage_def\<close>)
      with False show ?thesis by (simp add: op_answered_def DeletingOld op)
    next
      case (PutSent sn url)
      with put_done [OF inv, of op sn url] run False show ?thesis by (simp add: op_answered_def)
    next
      case (WritingKey sn)
      with key_written [OF inv, of op sn] run False show ?thesis by (simp add: op_answered_def)
    next
      case (DeleteSent t url)
      then have r: "push_rest (delete_row url t s)" using rest by (simp add: run_tracks_def rest_fields)
      then have "push_inv (await_stage op RemovingKey (delete_row url t s))"
        by (rule rest_await) (use c(5) kind DeleteSent in \<open>auto simp: stage_free stage_kind_def put_stage_def\<close>)
      with False show ?thesis by (simp add: op_answered_def DeleteSent)
    next
      case AskingPermission
      have r: "push_rest s" "registers op" using rest kind by (auto simp: AskingPermission run_tracks_def stage_kind_def)
      with go [of RequestingPermission] permission_ok [OF r c(5)] False show ?thesis
        by (auto simp: AskingPermission op_answered_def stage_kind_def put_stage_def)
    next
      case RequestingPermission
      have r: "push_rest s" "registers op" using rest kind by (auto simp: RequestingPermission run_tracks_def stage_kind_def)
      with permission_ok [OF r c(5)] False show ?thesis by (simp add: RequestingPermission op_answered_def)
    next
      case (FetchingId t)
      have r: "push_rest s" "registers op" using rest kind by (auto simp: FetchingId run_tracks_def stage_kind_def)
      have "push_inv (await_stage op (PuttingDevice \<lparr>ps_connection = k, ps_token = t\<rparr> i) s)"
        if "vw_connection (pc_view s) = Some k" for k i
        by (rule rest_await [OF r(1) _ c(5)])
          (use r(2) that in \<open>simp add: stage_ok_def stage_kind_def put_stage_def current_url_def view_url_def\<close>)
      with r False show ?thesis
        by (auto simp: FetchingId op_answered_def fetched_id_def split: push_answer.split option.split)
    next
      case (PuttingDevice sn i)
      have r: "push_rest s" using rest by (simp add: PuttingDevice run_tracks_def)
      have "push_inv (await_stage op (PutSent sn url) s)" if "view_url (pc_view s) = Some url" for url
        by (rule rest_await [OF r _ c(5)])
          (use c(4) that in \<open>simp add: PuttingDevice stage_ok_def stage_kind_def put_stage_def current_url_def\<close>)
      with r False show ?thesis by (auto simp: PuttingDevice op_answered_def split: option.split)
    qed (use rest False kind go rest_fields in \<open>auto simp: op_answered_def run_tracks_def stage_kind_def put_stage_def
        split: push_op.split option.split list.split push_answer.split\<close>)
    qed
  qed
qed

lemma push_step_inv:
  assumes "push_inv s" "push_enabled s e" "calm s e"
  shows "push_inv (fst (push_step platform project s e))"
proof (cases e)
  case (SnapshotRead ok)
  with assms have h: "\<not> pc_hydrated s" ok by (simp_all add: push_enabled_def calm_def)
  with assms(1) have "pc_running s = None" "pc_chain s = []" "tracked_in {} s" "push_base s"
    by (auto simp: push_inv_def push_core_def split: option.splits)
  with h have "push_core {} (s\<lparr>pc_snapshot := resolve_hydrated_snapshot (pc_snapshot s) (pc_stored s), pc_hydrated := True\<rparr>)"
    by (auto simp: push_core_def push_base_def ops_ok_def tracked_in_def past_boot_def current_url_def resolve_hydrated_snapshot_def)
  then show ?thesis unfolding SnapshotRead push_step.simps
    using h by (intro effects_inv) (simp_all add: handoff_deps_def)
next
  case (PushRenders v)
  let ?s = "s\<lparr>pc_view := v\<rparr>"
  have p: "past_boot s \<Longrightarrow> past_boot ?s" using assms(2) by (auto simp: PushRenders push_enabled_def past_boot_def)
  have "stage_ok ?s op stage" if "pc_running s = Some (op, stage)" "stage_ok s op stage" for op stage
    using that assms(3) by (auto simp: PushRenders calm_def stage_ok_def current_url_def)
  with p assms(1,2) have "push_core {} ?s"
    by (auto simp: PushRenders push_enabled_def push_inv_def push_core_def push_base_def ops_ok_def tracked_in_def
        current_url_def split: option.splits)
  moreover have "aimed ?s" if "handoff_deps ?s = handoff_deps s"
    using assms(1) that by (simp add: push_inv_def aimed_def handoff_deps_def past_boot_def current_url_def)
  ultimately show ?thesis unfolding PushRenders push_step.simps by (rule effects_inv)
next
  case DeviceTokenChanges
  have "push_inv (fst (enqueue_op platform project (RegisterDevice (pc_effect s) ask False) s))" if "pc_listening s = Some ask" for ask
  proof -
    have "push_base s" "push_core {} s" "aimed s" using assms(1) by (simp_all add: push_inv_def push_core_def)
    with that have "past_boot s" by (simp add: push_base_def)
    with enqueue_core [OF \<open>push_core {} s\<close>] \<open>aimed s\<close> show ?thesis by (simp add: push_inv_def past_boot_def)
  qed
  with assms(1) show ?thesis by (auto simp: DeviceTokenChanges split: option.split)
next
  case (CallAnswers answer)
  then obtain op stage where r: "pc_running s = Some (op, stage)" "fits stage answer"
    using assms(2) by (auto simp: push_enabled_def split: option.splits)
  from answered_ok [OF assms(1) r assms(3) [unfolded CallAnswers], of project] rest_end show ?thesis
    by (auto simp: CallAnswers r Let_def split_beta)
qed

interpretation push: machine "push_step platform project" "\<lambda>s e. push_enabled s e \<and> calm s e" push_inv
  for platform project
  by unfold_locales (auto intro: push_step_inv)

text \<open>C18: No gateway but the one the app is connected to holds a registration of the device whenever the
  coordinator, with its snapshot read and the session past its boot, has nothing left to do, under these conditions: at launch every registration a gateway holds is
  the one the stored snapshot names; the stores answer; the deletion asked of an old gateway reaches
  it; no registration is stored at a gateway while its answer is lost; and the app does not move to
  another gateway in the middle of registering at one. (Without the last three a registration is left behind:
  \<open>failed_handoff_is_forgotten\<close>, \<open>lost_registration_is_stranded\<close>, \<open>switch_strands_a_registration\<close>.)\<close>

theorem only_the_connected_gateway_pushes:
  assumes "legal_events (push_step platform project) (\<lambda>s e. push_enabled s e \<and> calm s e) (open_push stored token rows v) es"
    "s = fst (run_events (push_step platform project) (open_push stored token rows v) es)"
    "\<forall>url t. rows url = Some t \<longrightarrow> (\<exists>sn. stored = Some sn \<and> registered_as sn url t)"
    "\<forall>sn. stored = Some sn \<longrightarrow> co_url (ps_connection sn) \<noteq> []" "view_url v \<noteq> Some []"
    "pc_running s = None" "pc_hydrated s" "vw_status (pc_view s) \<noteq> SessionBooting" "pc_rows s url \<noteq> None"
  shows "view_url (pc_view s) = Some url"
proof -
  have "tracked_in {} (open_push stored token rows v)" using assms(3) by (fastforce simp: tracked_in_def open_push_def)
  then have "push_inv (open_push stored token rows v)"
    using assms(4,5)
    by (simp add: push_inv_def push_core_def push_base_def ops_ok_def aimed_def past_boot_def current_url_def open_push_def)
  from push.run_inv [OF this assms(1)] have "push_inv s" by (simp add: assms(2))
  with assms(6-9) show ?thesis
    by (auto simp: push_inv_def push_core_def tracked_in_def aimed_def past_boot_def current_url_def registered_as_def)
qed

definition gateway_a :: connection_config where
  "gateway_a = \<lparr>co_url = ''a'', co_access_token = ''x'', co_refresh_token = ''y'', co_hosted = None\<rparr>"

definition gateway_b :: connection_config where
  "gateway_b = gateway_a\<lparr>co_url := ''b''\<rparr>"

definition connected_to :: "connection_config \<Rightarrow> push_view" where
  "connected_to c = \<lparr>vw_status = SessionConnected, vw_connection = Some c, vw_prefs_hydrated = True, vw_remote = True,
     vw_chat_replies = True, vw_previews = False\<rparr>"

lemma only_the_connected_gateway_pushes_witness:
  "view_url (pc_view (fst (run_events (push_step None False)
     (open_push (Some \<lparr>ps_connection = gateway_a, ps_token = ''t''\<rparr>) None ((\<lambda>u. None)(''a'' := Some ''t'')) (connected_to gateway_a))
     [SnapshotRead True, PushRenders ((connected_to gateway_a)\<lparr>vw_previews := True\<rparr>)]))) = Some ''a''"
  by (rule only_the_connected_gateway_pushes [OF _ refl, where url = "''a''"])
    (simp_all add: open_push_def connected_to_def gateway_a_def push_enabled_def calm_def view_url_def run_effects_def
      handoff_deps_def register_deps_def handoff_effect_def register_effect_def push_registration_decision_def
      gateway_handoff_decision_def resolve_hydrated_snapshot_def registered_as_def Let_def)

lemmas push_eval = run_events.simps(2) view_url_def connected_to_def gateway_a_def gateway_b_def run_effects_def handoff_deps_def
  register_deps_def handoff_effect_def register_effect_def push_registration_decision_def gateway_handoff_decision_def
  enqueue_op_def end_op_def begin_op_def asked_registration_def op_answered_def lost_answer_def await_stage_def permission_answered_def
  op_active_def fetched_id_def sent_request_def chain_def Let_def

text \<open>Switching in the middle of registering strands the old gateway's registration: it lands after the
  handoff looked, and the new gateway's registration takes its place in both snapshots.\<close>

definition mid_registration :: push_coordinator where
  "mid_registration =
     \<lparr>pc_view = connected_to gateway_a, pc_hydrated = True, pc_snapshot = None, pc_effect = 1, pc_granted = True,
      pc_listening = Some (asked_registration (connected_to gateway_a)), pc_chain = [],
      pc_running = Some (RegisterDevice 1 (asked_registration (connected_to gateway_a)) True,
        PutSent \<lparr>ps_connection = gateway_a, ps_token = ''t''\<rparr> ''a''),
      pc_stored = None, pc_token = None, pc_rows = (\<lambda>u. None)\<rparr>"

lemma mid_registration_reached:
  "fst (run_events (push_step (Some IOS) True) (open_push None None (\<lambda>u. None) (connected_to gateway_a))
     [SnapshotRead True, CallAnswers (PermissionIs True), CallAnswers (ExpoTokenIs ''t''),
      CallAnswers (InstallationIdIs ''i''), CallAnswers RequestSent]) = mid_registration"
  by (simp add: push_eval open_push_def mid_registration_def resolve_hydrated_snapshot_def)

definition stranded :: push_coordinator where
  "stranded =
     \<lparr>pc_view = connected_to gateway_b, pc_hydrated = True, pc_snapshot = Some \<lparr>ps_connection = gateway_a, ps_token = ''t''\<rparr>,
      pc_effect = 2, pc_granted = False, pc_listening = Some (asked_registration (connected_to gateway_b)), pc_chain = [],
      pc_running = Some (RegisterDevice 2 (asked_registration (connected_to gateway_b)) True, AskingPermission),
      pc_stored = Some \<lparr>ps_connection = gateway_a, ps_token = ''t''\<rparr>, pc_token = Some ''t'',
      pc_rows = (\<lambda>u. None)(''a'' \<mapsto> ''t'')\<rparr>"

lemma switched_while_registering:
  "fst (run_events (push_step (Some IOS) True) mid_registration
     [PushRenders (connected_to gateway_b), CallAnswers AnswerOk, CallAnswers AnswerOk, CallAnswers AnswerOk]) = stranded"
  by (simp add: push_eval mid_registration_def stranded_def)

lemma switch_strands_a_registration:
  "let s = fst (run_events (push_step (Some IOS) True) stranded
       [CallAnswers (PermissionIs True), CallAnswers (ExpoTokenIs ''t''), CallAnswers (InstallationIdIs ''i''),
        CallAnswers RequestSent, CallAnswers AnswerOk, CallAnswers AnswerOk, CallAnswers AnswerOk])
   in pc_running s = None \<and> pc_chain s = [] \<and> view_url (pc_view s) = Some ''b'' \<and> pc_rows s ''a'' = Some ''t'' \<and>
      map_option (co_url \<circ> ps_connection) (pc_snapshot s) = Some ''b'' \<and> map_option (co_url \<circ> ps_connection) (pc_stored s) = Some ''b''"
  by (simp add: push_eval stranded_def)

text \<open>A registration whose answer is lost is in no snapshot, so nothing takes it away when the app moves on.\<close>

lemma lost_registration_is_stranded:
  "let s = fst (run_events (push_step (Some IOS) True) mid_registration
       [CallAnswers AnswerLost, PushRenders (connected_to gateway_b), CallAnswers (PermissionIs False), CallAnswers (PermissionIs False)])
   in pc_running s = None \<and> pc_chain s = [] \<and> view_url (pc_view s) = Some ''b'' \<and> pc_rows s ''a'' = Some ''t'' \<and>
      pc_snapshot s = None \<and> pc_stored s = None"
  by (simp add: push_eval mid_registration_def)

text \<open>A deletion the old gateway does not answer is not retried: the new registration overwrites the snapshot
  that would have.\<close>

lemma failed_handoff_is_forgotten:
  "let s = fst (run_events (push_step (Some IOS) True)
       \<lparr>pc_view = connected_to gateway_b, pc_hydrated = True, pc_snapshot = None, pc_effect = 2, pc_granted = False,
        pc_listening = Some (asked_registration (connected_to gateway_b)),
        pc_chain = [RegisterDevice 2 (asked_registration (connected_to gateway_b)) True],
        pc_running = Some (HandOff \<lparr>ps_connection = gateway_a, ps_token = ''t''\<rparr>, DeletingOld),
        pc_stored = Some \<lparr>ps_connection = gateway_a, ps_token = ''t''\<rparr>, pc_token = Some ''t'',
        pc_rows = (\<lambda>u. None)(''a'' \<mapsto> ''t'')\<rparr>
       [CallAnswers AnswerRejected, CallAnswers (PermissionIs True), CallAnswers (ExpoTokenIs ''t''),
        CallAnswers (InstallationIdIs ''i''), CallAnswers RequestSent, CallAnswers AnswerOk, CallAnswers AnswerOk, CallAnswers AnswerOk])
   in pc_running s = None \<and> pc_rows s ''a'' = Some ''t'' \<and> map_option (co_url \<circ> ps_connection) (pc_stored s) = Some ''b''"
  by (simp add: push_eval)

end
