(* ===== verification/RecentGateways.thy ===== *)
theory RecentGateways
  imports MobileGates "HOL-Library.Word"
begin

section \<open>Recent gateways (apps/web/src/lib/recent-gateways.ts, apps/mobile/src/storage/recent-gateway-model.ts)\<close>

text \<open>
  The list of gateways an app was connected to.  The hash is on 32-bit words, as \<open>^=\<close>, \<open>Math.imul\<close> and
  \<open>>>> 0\<close> make it.  \<open>new URL(url).origin\<close> is the parameter \<open>origin_of\<close>, the parsers of a stored
  connection and a stored number are \<open>parse_connection\<close> and the JSON readers.  What an entry carries
  beside its address is the parameter \<open>'c\<close>: the connection in the web app, nothing in the mobile one.
\<close>

unbundle bit_operations_syntax

subsection \<open>Ids\<close>

definition fnv_step :: "32 word \<Rightarrow> char \<Rightarrow> 32 word" where
  "fnv_step hash c = (hash XOR of_nat (of_char c)) * 16777619"

fun show_hex :: "nat \<Rightarrow> string" where
  "show_hex n =
     (if n < 16 then [''0123456789abcdef'' ! n] else show_hex (n div 16) @ [''0123456789abcdef'' ! (n mod 16)])"

declare show_hex.simps [simp del]

definition hash_string :: "string \<Rightarrow> 32 word \<Rightarrow> string" where
  "hash_string v seed = pad_zeros 8 (show_hex (unat (foldl fnv_step seed v)))"

definition recent_gateway_id :: "(string \<Rightarrow> string) \<Rightarrow> string \<Rightarrow> string" where
  "recent_gateway_id origin_of url =
     (let origin = origin_of url in ''g'' @ hash_string origin 2166136261 @ hash_string origin 2654435761)"

definition mobile_gateway_id :: "(string \<Rightarrow> string) \<Rightarrow> string \<Rightarrow> string" where
  "mobile_gateway_id origin_of url =
     (let origin = origin_of url in ''g'' @ hash_string origin 2166136261 @ hash_string (rev origin) 2654435761)"

subsection \<open>The list\<close>

record 'c recent_gateway =
  rg_id :: string
  rg_url :: string
  rg_hosted :: bool
  rg_last :: jsnum
  rg_connection :: 'c

definition upsert_gateway ::
  "(string \<Rightarrow> string) \<Rightarrow> 'c recent_gateway list \<Rightarrow> string \<Rightarrow> bool \<Rightarrow> 'c \<Rightarrow> bool \<Rightarrow> jsnum \<Rightarrow> 'c recent_gateway list" where
  "upsert_gateway id_of gateways url hosted connection touch now =
     (let gid = id_of url;
          existing = find (\<lambda>g. rg_id g = gid \<or> rg_url g = url) gateways;
          next = \<lparr>rg_id = gid, rg_url = url, rg_hosted = hosted,
                  rg_last = (case existing of Some e \<Rightarrow> if touch then now else rg_last e | None \<Rightarrow> now),
                  rg_connection = connection\<rparr>;
          remaining = filter (\<lambda>g. rg_id g \<noteq> gid \<and> rg_url g \<noteq> url) gateways
      in case existing of
           None \<Rightarrow> next # remaining
         | Some e \<Rightarrow> if touch then next # remaining else map (\<lambda>g. if rg_id g = rg_id e then next else g) gateways)"

definition upsert_recent_gateway ::
  "(string \<Rightarrow> string) \<Rightarrow> connection_config recent_gateway list \<Rightarrow> connection_config \<Rightarrow> bool \<Rightarrow> jsnum \<Rightarrow>
   connection_config recent_gateway list" where
  "upsert_recent_gateway origin_of gateways connection touch now =
     upsert_gateway (recent_gateway_id origin_of) gateways (co_url connection) (co_hosted connection = Some True)
       connection touch now"

definition upsert_mobile_gateway ::
  "(string \<Rightarrow> string) \<Rightarrow> unit recent_gateway list \<Rightarrow> connection_config \<Rightarrow> bool \<Rightarrow> jsnum \<Rightarrow> unit recent_gateway list" where
  "upsert_mobile_gateway origin_of gateways connection touch now =
     upsert_gateway (mobile_gateway_id origin_of) gateways (co_url connection) (nullish (co_hosted connection) False) () touch now"

definition remove_recent_gateway :: "'c recent_gateway list \<Rightarrow> string \<Rightarrow> 'c recent_gateway list" where
  "remove_recent_gateway gateways gid = filter (\<lambda>g. rg_id g \<noteq> gid) gateways"

definition parse_recent_gateway ::
  "(string \<Rightarrow> string) \<Rightarrow> (json option \<Rightarrow> connection_config option) \<Rightarrow> json \<Rightarrow> connection_config recent_gateway option" where
  "parse_recent_gateway origin_of parse_connection v =
     (let get = (\<lambda>k. Option.bind (as_record (Some v)) (\<lambda>p. field p k))
      in case parse_connection (get ''connection'') of
           None \<Rightarrow> None
         | Some connection \<Rightarrow>
             (case as_num (get ''lastConnectedAt'') of
                None \<Rightarrow> None
              | Some connected_at \<Rightarrow>
                  Some \<lparr>rg_id = nullish (as_str (get ''id'')) (recent_gateway_id origin_of (co_url connection)),
                        rg_url = co_url connection, rg_hosted = (co_hosted connection = Some True), rg_last = connected_at,
                        rg_connection = connection\<rparr>))"

text \<open>What is read from the store, and whether the store is cleared for being no list.\<close>

definition read_recent_gateways ::
  "(string \<Rightarrow> string) \<Rightarrow> (json option \<Rightarrow> connection_config option) \<Rightarrow> json \<Rightarrow> connection_config recent_gateway list \<times> bool" where
  "read_recent_gateways origin_of parse_connection stored =
     (case stored of
        JArr vs \<Rightarrow> (concat (map (\<lambda>v. case parse_recent_gateway origin_of parse_connection v of None \<Rightarrow> [] | Some g \<Rightarrow> [g]) vs), False)
      | _ \<Rightarrow> ([], stored \<noteq> JNull))"

subsection \<open>The ids' form\<close>

lemma hex_table: "d < 16 \<Longrightarrow> ''0123456789abcdef'' ! d \<in> set ''0123456789abcdef''"
  by (auto simp: numeral_eq_Suc less_Suc_eq)

lemma show_hex_length: "n < 16 ^ Suc k \<Longrightarrow> length (show_hex n) \<le> Suc k"
proof (induction k arbitrary: n)
  case 0
  then show ?case by (simp add: show_hex.simps [of n])
next
  case (Suc k)
  then have "n div 16 < 16 ^ Suc k" by (simp add: less_mult_imp_div_less)
  with Suc.IH [of "n div 16"] show ?case by (subst show_hex.simps) simp
qed

lemma hash_string_length: "length (hash_string v seed) = 8"
proof -
  let ?n = "unat (foldl fnv_step seed v)"
  have "?n < 2 ^ 32" by (rule order_less_le_trans [OF unsigned_less]) simp
  then have "?n < 16 ^ Suc 7" by simp
  from show_hex_length [OF this] show ?thesis by (simp add: hash_string_def pad_zeros_def)
qed

definition hex_val :: "char \<Rightarrow> nat" where
  "hex_val c = (let n = of_char c in if n < 58 then n - 48 else n - 87)"

lemma hex_val_digit: "d < 16 \<Longrightarrow> hex_val (''0123456789abcdef'' ! d) = d"
  by (auto simp: numeral_eq_Suc less_Suc_eq hex_val_def)

definition hex_value_of :: "string \<Rightarrow> nat" where
  "hex_value_of s = foldl (\<lambda>n c. 16 * n + hex_val c) 0 s"

lemma hex_value_show: "hex_value_of (show_hex n) = n"
proof (induction n rule: less_induct)
  case (less n)
  show ?case
  proof (cases "n < 16")
    case True
    then show ?thesis by (simp add: show_hex.simps [of n] hex_value_of_def hex_val_digit)
  next
    case False
    then have "n div 16 < n" by simp
    from less [OF this] False show ?thesis by (simp add: show_hex.simps [of n] hex_value_of_def hex_val_digit)
  qed
qed

lemma hex_value_pad: "hex_value_of (pad_zeros k s) = hex_value_of s"
proof -
  have "foldl (\<lambda>n c. 16 * n + hex_val c) 0 (replicate j (CHR ''0'')) = 0" for j
    by (induction j) (simp_all add: hex_val_def)
  then show ?thesis by (simp add: hex_value_of_def pad_zeros_def)
qed

lemma hash_string_eq: "hash_string v s = hash_string w t \<longleftrightarrow> foldl fnv_step s v = foldl fnv_step t w"
proof
  assume "hash_string v s = hash_string w t"
  then have "hex_value_of (hash_string v s) = hex_value_of (hash_string w t)" by simp
  then show "foldl fnv_step s v = foldl fnv_step t w" by (simp add: hash_string_def hex_value_pad hex_value_show word_unat_eq_iff)
qed (simp add: hash_string_def)

text \<open>A gateway's id is one letter and sixteen hexadecimal digits, and two addresses have the same id
  exactly when both 32-bit hashes of their origins agree.\<close>

theorem gateway_id_is_both_hashes:
  "length (recent_gateway_id origin_of url) = 17 \<and>
   (recent_gateway_id origin_of url = recent_gateway_id origin_of url' \<longleftrightarrow>
     foldl fnv_step 2166136261 (origin_of url) = foldl fnv_step 2166136261 (origin_of url') \<and>
     foldl fnv_step 2654435761 (origin_of url) = foldl fnv_step 2654435761 (origin_of url'))"
  by (auto simp: recent_gateway_id_def Let_def hash_string_length append_eq_append_conv hash_string_eq)

subsection \<open>Newest first\<close>

datatype 'c recents_call = Remember string bool 'c bool jsnum | Forget string

fun gateway_call :: "(string \<Rightarrow> string) \<Rightarrow> 'c recent_gateway list \<Rightarrow> 'c recents_call \<Rightarrow> 'c recent_gateway list" where
  "gateway_call id_of gs (Remember url hosted c touch now) = upsert_gateway id_of gs url hosted c touch now"
| "gateway_call id_of gs (Forget gid) = remove_recent_gateway gs gid"

text \<open>A clock that does not run back.\<close>

fun clock_ok :: "jsnum \<Rightarrow> 'c recents_call list \<Rightarrow> bool" where
  "clock_ok now [] \<longleftrightarrow> True"
| "clock_ok now (Remember url hosted c touch t # calls) \<longleftrightarrow> now \<le> t \<and> clock_ok t calls"
| "clock_ok now (Forget gid # calls) \<longleftrightarrow> clock_ok now calls"

definition recents_ok :: "(string \<Rightarrow> string) \<Rightarrow> jsnum \<Rightarrow> 'c recent_gateway list \<Rightarrow> bool" where
  "recents_ok id_of now gs \<longleftrightarrow>
     distinct (map rg_id gs) \<and> (\<forall>g \<in> set gs. rg_id g = id_of (rg_url g) \<and> rg_last g \<le> now) \<and>
     sorted_wrt (\<ge>) (map rg_last gs)"

lemma recents_filter: "recents_ok id_of now gs \<Longrightarrow> recents_ok id_of now (filter P gs)"
  by (auto simp: recents_ok_def distinct_map_filter_keep sorted_wrt_map sorted_wrt_filter)

lemma recents_later: "recents_ok id_of now gs \<Longrightarrow> now \<le> t \<Longrightarrow> recents_ok id_of t gs"
  by (fastforce simp: recents_ok_def)

lemma upsert_ok:
  assumes "recents_ok id_of now gs" "now \<le> t"
  shows "recents_ok id_of t (upsert_gateway id_of gs url hosted c touch t)"
proof -
  let ?match = "\<lambda>g. rg_id g = id_of url \<or> rg_url g = url"
  let ?rest = "filter (\<lambda>g. rg_id g \<noteq> id_of url \<and> rg_url g \<noteq> url) gs"
  have rest: "recents_ok id_of t ?rest" using assms recents_filter recents_later by blast
  have first: "recents_ok id_of t (\<lparr>rg_id = id_of url, rg_url = url, rg_hosted = hosted, rg_last = t, rg_connection = c\<rparr> # ?rest)"
    using rest by (auto simp: recents_ok_def)
  show ?thesis
  proof (cases "find ?match gs")
    case None
    then show ?thesis using first by (simp add: upsert_gateway_def Let_def)
  next
    case (Some e)
    show ?thesis
    proof (cases touch)
      case True
      then show ?thesis using Some first by (simp add: upsert_gateway_def Let_def)
    next
      case False
      from Some have e: "e \<in> set gs" "?match e" by (auto simp: find_Some_iff)
      then have eid: "rg_id e = id_of url" using assms(1) by (auto simp: recents_ok_def)
      let ?next = "\<lparr>rg_id = id_of url, rg_url = url, rg_hosted = hosted, rg_last = rg_last e, rg_connection = c\<rparr>"
      let ?new = "map (\<lambda>g. if rg_id g = rg_id e then ?next else g) gs"
      have same: "g = e" if "g \<in> set gs" "rg_id g = rg_id e" for g
        using that e(1) assms(1) by (auto simp: recents_ok_def distinct_map inj_on_def)
      have ids: "map rg_id ?new = map rg_id gs"
        unfolding map_map comp_def using eid by (intro map_cong [OF refl]) auto
      have lasts: "map rg_last ?new = map rg_last gs"
        unfolding map_map comp_def by (intro map_cong [OF refl]) (auto dest: same)
      have each: "\<forall>g \<in> set ?new. rg_id g = id_of (rg_url g) \<and> rg_last g \<le> t"
      proof
        fix g
        assume "g \<in> set ?new"
        then obtain h where h: "h \<in> set gs" "g = (if rg_id h = rg_id e then ?next else h)" by auto
        have all: "\<forall>g \<in> set gs. rg_id g = id_of (rg_url g) \<and> rg_last g \<le> now"
          using assms(1) unfolding recents_ok_def by blast
        then have n: "rg_last e \<le> now" "rg_last h \<le> now" and hid: "rg_id h = id_of (rg_url h)"
          using e(1) h(1) by blast+
        have "rg_last e \<le> t" "rg_last h \<le> t" by (rule order_trans [OF n(1) assms(2)], rule order_trans [OF n(2) assms(2)])
        with hid show "rg_id g = id_of (rg_url g) \<and> rg_last g \<le> t"
          unfolding h(2) by (cases "rg_id h = rg_id e") (simp_all only: if_True if_False recent_gateway.simps simp_thms)
      qed
      have "distinct (map rg_id gs)" "sorted_wrt (\<ge>) (map rg_last gs)" using assms(1) unfolding recents_ok_def by blast+
      then have "recents_ok id_of t ?new" unfolding recents_ok_def ids lasts using each by blast
      then show ?thesis using False unfolding upsert_gateway_def Let_def Some option.case by simp
    qed
  qed
qed

lemma calls_ok:
  "recents_ok id_of now gs \<Longrightarrow> clock_ok now calls \<Longrightarrow> \<exists>t. recents_ok id_of t (foldl (gateway_call id_of) gs calls)"
proof (induction calls arbitrary: now gs)
  case (Cons call calls)
  show ?case
  proof (cases call)
    case (Remember url hosted c touch t)
    with Cons.prems have "recents_ok id_of t (gateway_call id_of gs call)" "clock_ok t calls" by (auto intro: upsert_ok)
    from Cons.IH [OF this] show ?thesis by simp
  next
    case (Forget gid)
    with Cons.prems have "recents_ok id_of now (gateway_call id_of gs call)" "clock_ok now calls"
      by (auto simp: remove_recent_gateway_def recents_filter)
    from Cons.IH [OF this] show ?thesis by simp
  qed
qed auto

text \<open>However often gateways are remembered and forgotten, the list holds each once and the one connected to
  last comes first, as long as the clock does not run back; a gateway whose tokens are only refreshed
  keeps its place.\<close>

theorem recents_are_newest_first:
  assumes "clock_ok 0 calls"
  shows "distinct (map rg_id (foldl (gateway_call id_of) [] calls)) \<and>
    sorted_wrt (\<ge>) (map rg_last (foldl (gateway_call id_of) [] calls))"
proof -
  have "recents_ok id_of 0 []" by (simp add: recents_ok_def)
  from calls_ok [OF this assms] show ?thesis by (auto simp: recents_ok_def)
qed

lemma recents_are_newest_first_witness:
  "distinct (map rg_id (foldl (gateway_call id) [] [Remember ''a'' False () True 1, Remember ''b'' False () True 2, Remember ''a'' True () False 3]))"
  using recents_are_newest_first [of "[Remember ''a'' False () True 1, Remember ''b'' False () True 2, Remember ''a'' True () False 3]" id]
  by simp

end
