(* ===== verification/ReleaseNotes.thy ===== *)
theory ReleaseNotes
  imports ReleaseVersion Json
begin

section \<open>Release notes (release-notes/release-notes.ts)\<close>

text \<open>
  The notes the apps show for the versions their gateway has shipped: the GitHub release list is
  parsed, the marked part of each body is cut out, and the list is filtered by the connected version
  and channel.  \<open>encodeURIComponent\<close> is a parameter.  The sort's compare answers 0 for a tag that
  does not parse; ECMAScript leaves the order open for an inconsistent compare, so the model's sort
  stands for the code's when every tag parses, which is the hypothesis of the lemmas about order.
\<close>

definition releases_fetch_timeout_ms :: nat where "releases_fetch_timeout_ms = 10000"

record release_note =
  rn_version :: string
  rn_date :: string
  rn_prerelease :: bool
  rn_message :: string
  rn_url :: string

record github_release =
  gr_tag_name :: string
  gr_published_at :: string
  gr_prerelease :: bool
  gr_body :: string

definition github_release_of :: "json \<Rightarrow> github_release option" where
  "github_release_of v =
     (case v of
        JObj fs \<Rightarrow>
          (case (as_str (field fs ''tag_name''), as_str (field fs ''published_at''),
                 as_bool (field fs ''prerelease''), as_str (field fs ''body'')) of
             (Some tag, Some stamp, Some pre, Some body) \<Rightarrow>
               Some \<lparr>gr_tag_name = tag, gr_published_at = stamp, gr_prerelease = pre, gr_body = body\<rparr>
           | _ \<Rightarrow> None)
      | _ \<Rightarrow> None)"

subsection \<open>The marked part of a body\<close>

text \<open>
  Both loops walk the comments from a cursor and end at the first whose text, trimmed, is the
  marker: the position of its start and of the text behind it.
\<close>

function find_marker :: "string \<Rightarrow> string \<Rightarrow> nat \<Rightarrow> (nat \<times> nat) option" where
  "find_marker marker body cursor =
     (if length body \<le> cursor then None
      else case index_of_from ''<!--'' body cursor of
        None \<Rightarrow> None
      | Some comment_start \<Rightarrow>
          (case index_of_from ''-->'' body (comment_start + 4) of
             None \<Rightarrow> None
           | Some comment_end \<Rightarrow>
               if trim (take (comment_end - (comment_start + 4)) (drop (comment_start + 4) body)) = marker
               then Some (comment_start, comment_end + 3)
               else find_marker marker body (comment_end + 3)))"
  by pat_completeness auto
termination
  by (relation "measure (\<lambda>(marker, body, cursor). length body - cursor)")
    (auto dest!: index_of_from_bound simp: index_of_from_def dest!: index_of_bound)

declare find_marker.simps [simp del]

definition extract_whats_new :: "string \<Rightarrow> string option" where
  "extract_whats_new body =
     (case find_marker ''whats-new'' body 0 of
        None \<Rightarrow> None
      | Some (_, content_start) \<Rightarrow>
          (case find_marker ''/whats-new'' body content_start of
             None \<Rightarrow> None
           | Some (comment_start, _) \<Rightarrow>
               (let message = trim (take (comment_start - content_start) (drop content_start body))
                in if length message > 0 then Some message else None)))"

subsection \<open>The list\<close>

definition drop_v :: "string \<Rightarrow> string" where
  "drop_v tag = (if starts_with ''v'' tag then tl tag else tag)"

definition release_note_of :: "(string \<Rightarrow> string) \<Rightarrow> github_release \<Rightarrow> release_note option" where
  "release_note_of encode r =
     (case extract_whats_new (gr_body r) of
        None \<Rightarrow> None
      | Some message \<Rightarrow>
          Some \<lparr>rn_version = drop_v (gr_tag_name r), rn_date = gr_published_at r, rn_prerelease = gr_prerelease r,
                rn_message = message,
                rn_url = ''https://github.com/elyxlz/vesta/releases/tag/'' @ encode (gr_tag_name r)\<rparr>)"

definition newest_note_first :: "release_note \<Rightarrow> release_note \<Rightarrow> int" where
  "newest_note_first a b = nullish (compare_release_versions (rn_version b) (rn_version a)) 0"

definition parse_release_notes :: "(string \<Rightarrow> string) \<Rightarrow> json \<Rightarrow> release_note list" where
  "parse_release_notes encode v =
     (case v of
        JArr releases \<Rightarrow>
          js_sort newest_note_first
            (List.map_filter (release_note_of encode) (List.map_filter github_release_of releases))
      | _ \<Rightarrow> [])"

datatype release_channel = StableChannel | BetaChannel

definition note_shipped :: "string \<Rightarrow> release_channel \<Rightarrow> release_note \<Rightarrow> bool" where
  "note_shipped version channel note =
     (case compare_release_versions (rn_version note) version of
        None \<Rightarrow> False
      | Some c \<Rightarrow> c \<le> 0 \<and> (channel = BetaChannel \<or> \<not> rn_prerelease note))"

definition filter_release_notes :: "release_note list \<Rightarrow> string \<Rightarrow> release_channel \<Rightarrow> release_note list" where
  "filter_release_notes notes version channel = filter (note_shipped version channel) notes"

text \<open>What the fetch can come to: a rejection, which the timeout's abort also gives, or a response with
  its status and its body, parsed or not.\<close>

datatype fetch_outcome = FetchRejected | Responded bool "json option"

fun fetch_release_notes :: "(string \<Rightarrow> string) \<Rightarrow> fetch_outcome \<Rightarrow> release_note list option" where
  "fetch_release_notes encode FetchRejected = None"
| "fetch_release_notes encode (Responded success body) =
     (if \<not> success then None
      else case body of None \<Rightarrow> None | Some v \<Rightarrow> Some (parse_release_notes encode v))"

subsection \<open>The marked part is cut out\<close>

definition borderless :: "string \<Rightarrow> bool" where
  "borderless p \<longleftrightarrow> p \<noteq> [] \<and> list_all (\<lambda>k. take (length p - k) p \<noteq> drop k p) [1..<length p]"

lemma index_of_first:
  assumes b: "borderless p" and none: "index_of p pre = None"
  shows "index_of p (pre @ p @ r) = Some (length pre)"
proof -
  let ?s = "pre @ p @ r"
  have here: "starts_with p (drop (length pre) ?s)" by simp
  then obtain i where i: "index_of p ?s = Some i" using index_of_None by (cases "index_of p ?s") blast+
  have "\<not> length pre < i" using index_of_minimal [OF i] here by blast
  moreover have "\<not> i < length pre"
  proof
    assume lt: "i < length pre"
    let ?k = "length pre - i"
    from index_of_Some [OF i] index_of_bound [OF i] have "take (length p) (drop i ?s) = p"
      by (metis append_eq_conv_conj append_take_drop_id length_take min.absorb2 add_leD1)
    then have t: "take (length p) (drop i pre @ p @ r) = p" using lt by simp
    show False
    proof (cases "length p \<le> ?k")
      case True
      with t have "starts_with p (drop i pre)" by (simp add: starts_with_def)
      with index_of_None [OF none] show False by blast
    next
      case False
      then have k: "?k \<in> set [1..<length p]" using lt by simp
      from False t have "p = drop i pre @ take (length p - ?k) p" by (simp add: min_def)
      then have "drop ?k p = take (length p - ?k) p" using lt by (metis append_eq_conv_conj length_drop)
      moreover have "take (length p - ?k) p \<noteq> drop ?k p" using b k unfolding borderless_def list_all_iff by blast
      ultimately show False by simp
    qed
  qed
  ultimately show ?thesis using i by simp
qed

lemma index_of_from_first:
  "borderless p \<Longrightarrow> index_of p pre = None \<Longrightarrow> index_of_from p (a @ pre @ p @ r) (length a) = Some (length a + length pre)"
  by (simp add: index_of_from_def index_of_first)

lemma borderless_comment: "borderless ''<!--''" "borderless ''-->''"
  by (simp_all add: borderless_def upt_rec)

lemma no_end_inside: "CHR ''>'' \<notin> set s \<Longrightarrow> index_of ''-->'' s = None"
  by (induction s) (auto dest!: starts_with_ex simp: starts_with_def [of _ "[]"])

definition comment :: "string \<Rightarrow> string" where
  "comment t = ''<!--'' @ t @ ''-->''"

lemma find_marker_comment:
  assumes "index_of ''<!--'' pre = None" "CHR ''>'' \<notin> set t" "trim t = marker"
  shows "find_marker marker (a @ pre @ comment t @ r) (length a) =
    Some (length a + length pre, length a + length pre + length t + 7)"
proof -
  let ?b = "a @ pre @ comment t @ r"
  have open_at: "index_of_from ''<!--'' ?b (length a) = Some (length a + length pre)"
    using index_of_from_first [OF borderless_comment(1) assms(1), of a "t @ ''-->'' @ r"] by (simp add: comment_def)
  have "index_of_from ''-->'' ((a @ pre @ ''<!--'') @ t @ ''-->'' @ r) (length (a @ pre @ ''<!--'')) =
      Some (length (a @ pre @ ''<!--'') + length t)"
    by (rule index_of_from_first [OF borderless_comment(2) no_end_inside [OF assms(2)]])
  moreover have "length (a @ pre @ ''<!--'') = length a + length pre + 4"
    "(a @ pre @ ''<!--'') @ t @ ''-->'' @ r = ?b" by (simp_all add: comment_def)
  ultimately have close_at: "index_of_from ''-->'' ?b (length a + length pre + 4) = Some (length a + length pre + 4 + length t)"
    by (simp only:)
  have inside: "take (length a + length pre + 4 + length t - (length a + length pre + 4)) (drop (length a + length pre + 4) ?b) = t"
    by (simp add: comment_def)
  have "\<not> length ?b \<le> length a" by (simp add: comment_def)
  then show ?thesis
    by (subst find_marker.simps) (simp only: if_False open_at close_at inside option.case assms(3) if_True, simp)
qed

text \<open>The message a release body carries between its two marker comments is cut out, trimmed, wherever
  the pair stands and whatever follows it; the space inside the markers does not matter.\<close>

theorem marked_message_is_cut_out:
  assumes "index_of ''<!--'' before = None" "index_of ''<!--'' message = None"
    and "trim start_mark = ''whats-new''" "trim end_mark = ''/whats-new''"
    and "CHR ''>'' \<notin> set start_mark" "CHR ''>'' \<notin> set end_mark"
  shows "extract_whats_new (before @ comment start_mark @ message @ comment end_mark @ later) =
    (if trim message = [] then None else Some (trim message))"
proof -
  let ?rest = "message @ comment end_mark @ later" and ?head = "before @ comment start_mark"
  have h: "length ?head = length before + length start_mark + 7" by (simp add: comment_def)
  have "find_marker ''whats-new'' (before @ comment start_mark @ ?rest) 0 =
      Some (length before, length before + length start_mark + 7)"
    using find_marker_comment [OF assms(1,5,3), of "[]" ?rest] by simp
  moreover have "find_marker ''/whats-new'' (before @ comment start_mark @ ?rest) (length before + length start_mark + 7) =
      Some (length ?head + length message, length ?head + length message + length end_mark + 7)"
    using find_marker_comment [OF assms(2,6,4), of ?head later] by (simp only: h append_assoc)
  moreover have "take (length ?head + length message - (length before + length start_mark + 7))
      (drop (length before + length start_mark + 7) (before @ comment start_mark @ ?rest)) = message"
    unfolding h [symmetric] by simp
  ultimately show ?thesis by (simp add: extract_whats_new_def)
qed

theorem marked_message_is_cut_out_witness:
  "extract_whats_new (''v1 '' @ comment '' whats-new '' @ '' faster '' @ comment '' /whats-new '' @ ''log'') =
    (if trim '' faster '' = [] then None else Some (trim '' faster ''))"
  by (rule marked_message_is_cut_out)
    (simp_all add: starts_with_def trim_def is_js_space_def)

subsection \<open>The list is what was shipped\<close>

interpretation note_order: comparator newest_note_first "\<lambda>n. parse_parts (rn_version n) \<noteq> None"
proof
  fix x y z :: release_note
  assume x: "parse_parts (rn_version x) \<noteq> None" and y: "parse_parts (rn_version y) \<noteq> None"
  from release.ascending.cmp_total [OF y x] show "newest_note_first x y \<le> 0 \<or> newest_note_first y x \<le> 0"
    by (simp add: newest_note_first_def release.compare_or_zero_def)
  assume z: "parse_parts (rn_version z) \<noteq> None"
  from release.ascending.cmp_trans [OF z y x]
  show "newest_note_first x y \<le> 0 \<Longrightarrow> newest_note_first y z \<le> 0 \<Longrightarrow> newest_note_first x z \<le> 0"
    by (simp add: newest_note_first_def release.compare_or_zero_def)
qed

definition read_notes :: "(string \<Rightarrow> string) \<Rightarrow> json list \<Rightarrow> release_note list" where
  "read_notes encode releases = List.map_filter (release_note_of encode) (List.map_filter github_release_of releases)"

text \<open>What a user is shown is every note read from the list whose version the gateway runs or has left
  behind, prereleases on the beta channel only, newest version first; when every tag parses.\<close>

theorem shown_notes_are_the_shipped_ones:
  assumes "\<forall>n \<in> set (read_notes encode releases). parse_parts (rn_version n) \<noteq> None"
  shows "sorted_wrt (\<lambda>a b. nullish (compare_release_versions (rn_version b) (rn_version a)) 0 \<le> 0)
      (filter_release_notes (parse_release_notes encode (JArr releases)) version channel) \<and>
    mset (filter_release_notes (parse_release_notes encode (JArr releases)) version channel) =
      mset (filter (\<lambda>n. (channel = BetaChannel \<or> \<not> rn_prerelease n) \<and>
        nullish (compare_release_versions (rn_version n) version) 1 \<le> 0) (read_notes encode releases))"
proof -
  have eq: "note_shipped version channel = (\<lambda>n. (channel = BetaChannel \<or> \<not> rn_prerelease n) \<and>
        nullish (compare_release_versions (rn_version n) version) 1 \<le> 0)"
    by (auto simp: note_shipped_def split: option.splits)
  have parsed: "parse_release_notes encode (JArr releases) = js_sort newest_note_first (read_notes encode releases)"
    by (simp add: parse_release_notes_def read_notes_def)
  have "sorted_wrt (\<lambda>a b. newest_note_first a b \<le> 0) (js_sort newest_note_first (read_notes encode releases))"
    using assms by (rule note_order.js_sort_sorted)
  then show ?thesis
    by (simp add: filter_release_notes_def parsed sorted_wrt_filter_keep newest_note_first_def eq mset_filter)
qed

definition sample_releases :: "json list" where
  "sample_releases =
     [JObj [(''tag_name'', JStr ''v0.3.1''), (''published_at'', JStr ''may''), (''prerelease'', JBool False),
            (''body'', JStr ''<!-- whats-new -->a<!-- /whats-new -->'')],
      JObj [(''tag_name'', JStr ''v0.3.2'')]]"

theorem shown_notes_are_the_shipped_ones_witness:
  "sorted_wrt (\<lambda>a b. nullish (compare_release_versions (rn_version b) (rn_version a)) 0 \<le> 0)
      (filter_release_notes (parse_release_notes id (JArr sample_releases)) ''0.3.5'' StableChannel) \<and>
    mset (filter_release_notes (parse_release_notes id (JArr sample_releases)) ''0.3.5'' StableChannel) =
      mset (filter (\<lambda>n. (StableChannel = BetaChannel \<or> \<not> rn_prerelease n) \<and>
        nullish (compare_release_versions (rn_version n) ''0.3.5'') 1 \<le> 0) (read_notes id sample_releases))"
proof (rule shown_notes_are_the_shipped_ones)
  have "extract_whats_new ''<!-- whats-new -->a<!-- /whats-new -->'' = Some ''a''"
    by (simp add: extract_whats_new_def find_marker.simps index_of_from_def starts_with_def trim_def is_js_space_def)
  then have "read_notes id sample_releases =
      [\<lparr>rn_version = ''0.3.1'', rn_date = ''may'', rn_prerelease = False, rn_message = ''a'',
        rn_url = ''https://github.com/elyxlz/vesta/releases/tag/v0.3.1''\<rparr>]"
    by (simp add: read_notes_def sample_releases_def github_release_of_def field_def release_note_of_def drop_v_def
        starts_with_def map_filter_simps)
  then show "\<forall>n \<in> set (read_notes id sample_releases). parse_parts (rn_version n) \<noteq> None"
    by (simp add: parse_parts_def all_digits_def is_digit_def)
qed

text \<open>A tag that does not parse ties with every other one, so the compare is not consistent: the list's
  order is then whatever the engine's sort makes of it.\<close>

lemma unparsed_tag_ties_with_all:
  fixes n :: "string \<Rightarrow> release_note"
  defines "n \<equiv> \<lambda>v. \<lparr>rn_version = v, rn_date = [], rn_prerelease = False, rn_message = ''m'', rn_url = []\<rparr>"
  shows "newest_note_first (n ''0.3.1'') (n ''nightly'') = 0" "newest_note_first (n ''nightly'') (n ''0.3.2'') = 0"
    "newest_note_first (n ''0.3.1'') (n ''0.3.2'') = 1"
  by (simp_all add: n_def newest_note_first_def compare_release_versions_def parse_parts_def all_digits_def is_digit_def
      digits_value_def compare_loop.simps part_at_def)

end
