(* ===== verification/ResourceHook.thy ===== *)
theory ResourceHook
  imports Prelude
begin

section \<open>One remote value per key (react/use-resource.ts)\<close>

text \<open>
  The hook behind most of the apps' screens: a value is loaded when its key changes, a result that
  lands for an earlier key is dropped, a failure may be retried, and a caller may reload or replace the
  value.  A state change renders again before the next event, so the effect of a new nonce runs with
  the event that raised it.  A load and its retry timer belong to one run of the effect, which a new
  run or the unmount cancels.
\<close>

record 'a settled =
  se_key :: string
  se_nonce :: nat
  se_data :: "'a option"
  se_error :: "string option"

record 'a resource_hook =
  rh_key :: "string option"
  rh_retry_ms :: "nat option"
  rh_mounted :: bool
  rh_nonce :: nat
  rh_settled :: "'a settled option"
  rh_live :: "nat option"
  rh_loads :: "nat \<rightharpoonup> string \<times> nat"
  rh_retry :: bool
  rh_next :: nat

datatype 'a resource_event =
  ResourceRenders "string option" "nat option"
| LoadResolves nat 'a
| LoadRejects nat string
| ResourceRetryFires
| ReloadCalled
| SetCalled 'a
| ResourceUnmounts

datatype resource_out = LoadKey nat string | StartResourceRetry nat | ClearResourceRetry

type_synonym 'a hook_result = "'a resource_hook \<times> resource_out list"

definition new_resource_hook :: "'a resource_hook" where
  "new_resource_hook =
     \<lparr>rh_key = None, rh_retry_ms = None, rh_mounted = False, rh_nonce = 0, rh_settled = None, rh_live = None,
      rh_loads = Map.empty, rh_retry = False, rh_next = 0\<rparr>"

definition resource_cleanup :: "'a resource_hook \<Rightarrow> 'a hook_result" where
  "resource_cleanup s = (s\<lparr>rh_live := None, rh_retry := False\<rparr>, if rh_retry s then [ClearResourceRetry] else [])"

definition resource_effect :: "'a resource_hook \<Rightarrow> 'a hook_result" where
  "resource_effect s =
     (case rh_key s of
        None \<Rightarrow> (s, [])
      | Some key \<Rightarrow>
          (s\<lparr>rh_live := Some (rh_next s), rh_loads := (rh_loads s)(rh_next s \<mapsto> (key, rh_nonce s)), rh_next := Suc (rh_next s)\<rparr>,
           [LoadKey (rh_next s) key]))"

definition rerun :: "'a resource_hook \<Rightarrow> 'a hook_result" where
  "rerun s = (if rh_mounted s then chain (resource_cleanup s) resource_effect else (s, []))"

definition resource_renders :: "string option \<Rightarrow> nat option \<Rightarrow> 'a resource_hook \<Rightarrow> 'a hook_result" where
  "resource_renders key retry_ms s =
     (if rh_mounted s \<and> rh_key s = key \<and> rh_retry_ms s = retry_ms then (s, [])
      else rerun (s\<lparr>rh_mounted := True, rh_key := key, rh_retry_ms := retry_ms\<rparr>))"

definition load_resolves :: "nat \<Rightarrow> 'a \<Rightarrow> 'a resource_hook \<Rightarrow> 'a hook_result" where
  "load_resolves l data s =
     (case rh_loads s l of
        None \<Rightarrow> (s, [])
      | Some (key, nonce) \<Rightarrow>
          (let s = s\<lparr>rh_loads := (rh_loads s)(l := None)\<rparr>
           in if rh_live s \<noteq> Some l then (s, [])
              else (s\<lparr>rh_settled := Some \<lparr>se_key = key, se_nonce = nonce, se_data = Some data, se_error = None\<rparr>\<rparr>, [])))"

definition kept_data :: "string \<Rightarrow> 'a settled option \<Rightarrow> 'a option" where
  "kept_data key previous =
     (case previous of None \<Rightarrow> None | Some p \<Rightarrow> if se_key p = key then se_data p else None)"

definition load_rejects :: "nat \<Rightarrow> string \<Rightarrow> 'a resource_hook \<Rightarrow> 'a hook_result" where
  "load_rejects l reason s =
     (case rh_loads s l of
        None \<Rightarrow> (s, [])
      | Some (key, nonce) \<Rightarrow>
          (let s = s\<lparr>rh_loads := (rh_loads s)(l := None)\<rparr>
           in if rh_live s \<noteq> Some l then (s, [])
              else (let s = s\<lparr>rh_settled := Some \<lparr>se_key = key, se_nonce = nonce,
                                 se_data = kept_data key (rh_settled s), se_error = Some reason\<rparr>\<rparr>
                    in case rh_retry_ms s of
                         None \<Rightarrow> (s, [])
                       | Some ms \<Rightarrow> (s\<lparr>rh_retry := True\<rparr>, [StartResourceRetry ms]))))"

definition reload_called :: "'a resource_hook \<Rightarrow> 'a hook_result" where
  "reload_called s = rerun (s\<lparr>rh_nonce := Suc (rh_nonce s)\<rparr>)"

definition set_called :: "'a \<Rightarrow> 'a resource_hook \<Rightarrow> 'a hook_result" where
  "set_called data s =
     (case rh_key s of
        None \<Rightarrow> (s, [])
      | Some key \<Rightarrow>
          (s\<lparr>rh_settled := Some \<lparr>se_key = key, se_nonce = rh_nonce s, se_data = Some data, se_error = None\<rparr>\<rparr>, []))"

fun resource_step :: "'a resource_hook \<Rightarrow> 'a resource_event \<Rightarrow> 'a hook_result" where
  "resource_step s (ResourceRenders key retry_ms) = resource_renders key retry_ms s"
| "resource_step s (LoadResolves l data) = load_resolves l data s"
| "resource_step s (LoadRejects l reason) = load_rejects l reason s"
| "resource_step s ResourceRetryFires = reload_called (s\<lparr>rh_retry := False\<rparr>)"
| "resource_step s ReloadCalled = reload_called s"
| "resource_step s (SetCalled data) = set_called data s"
| "resource_step s ResourceUnmounts = resource_cleanup (s\<lparr>rh_mounted := False\<rparr>)"

text \<open>What a render returns.\<close>

definition current_settled :: "'a resource_hook \<Rightarrow> 'a settled option" where
  "current_settled s = (case rh_settled s of None \<Rightarrow> None | Some x \<Rightarrow> if Some (se_key x) = rh_key s then Some x else None)"

definition is_fresh :: "'a resource_hook \<Rightarrow> bool" where
  "is_fresh s \<longleftrightarrow> (case current_settled s of None \<Rightarrow> False | Some x \<Rightarrow> se_nonce x = rh_nonce s)"

definition shown_data :: "'a resource_hook \<Rightarrow> 'a option" where
  "shown_data s = (case current_settled s of None \<Rightarrow> None | Some x \<Rightarrow> se_data x)"

definition shown_error :: "'a resource_hook \<Rightarrow> string option" where
  "shown_error s = (if is_fresh s then se_error (the (current_settled s)) else None)"

definition shown_loading :: "'a resource_hook \<Rightarrow> bool" where
  "shown_loading s \<longleftrightarrow> rh_key s \<noteq> None \<and> \<not> is_fresh s"

subsection \<open>What the hook keeps\<close>

text \<open>\<open>belongs key data\<close>: the data was loaded for the key, or a caller set it while the key was current.\<close>

fun resource_enabled :: "(string \<Rightarrow> 'a \<Rightarrow> bool) \<Rightarrow> 'a resource_hook \<Rightarrow> 'a resource_event \<Rightarrow> bool" where
  "resource_enabled belongs s (LoadResolves l data) \<longleftrightarrow>
     (case rh_loads s l of None \<Rightarrow> False | Some (key, nonce) \<Rightarrow> belongs key data)"
| "resource_enabled belongs s (LoadRejects l reason) \<longleftrightarrow> rh_loads s l \<noteq> None"
| "resource_enabled belongs s ResourceRetryFires \<longleftrightarrow> rh_retry s"
| "resource_enabled belongs s (SetCalled data) \<longleftrightarrow> (case rh_key s of None \<Rightarrow> True | Some key \<Rightarrow> belongs key data)"
| "resource_enabled belongs s _ \<longleftrightarrow> True"

definition settled_belongs :: "(string \<Rightarrow> 'a \<Rightarrow> bool) \<Rightarrow> 'a settled option \<Rightarrow> bool" where
  "settled_belongs belongs x \<longleftrightarrow>
     (case x of None \<Rightarrow> True | Some y \<Rightarrow> (case se_data y of None \<Rightarrow> True | Some d \<Rightarrow> belongs (se_key y) d))"

definition loading_ok :: "'a resource_hook \<Rightarrow> bool" where
  "loading_ok s \<longleftrightarrow>
     (rh_mounted s \<longrightarrow> (\<forall>key. rh_key s = Some key \<longrightarrow>
        (\<exists>l. rh_live s = Some l \<and> (rh_loads s l = Some (key, rh_nonce s) \<or> rh_loads s l = None \<and> is_fresh s)))) \<and>
     (rh_mounted s \<longrightarrow> shown_error s \<noteq> None \<longrightarrow> rh_retry_ms s \<noteq> None \<longrightarrow> rh_retry s \<or> (\<exists>l. rh_live s = Some l \<and> rh_loads s l \<noteq> None))"

definition resource_core :: "(string \<Rightarrow> 'a \<Rightarrow> bool) \<Rightarrow> 'a resource_hook \<Rightarrow> bool" where
  "resource_core belongs s \<longleftrightarrow> settled_belongs belongs (rh_settled s) \<and> (\<forall>l. rh_next s \<le> l \<longrightarrow> rh_loads s l = None)"

definition live_load :: "'a resource_hook \<Rightarrow> bool" where
  "live_load s \<longleftrightarrow>
     (\<forall>l k n. rh_live s = Some l \<longrightarrow> rh_loads s l = Some (k, n) \<longrightarrow> rh_key s = Some k \<and> n = rh_nonce s)"

definition resource_inv :: "(string \<Rightarrow> 'a \<Rightarrow> bool) \<Rightarrow> 'a resource_hook \<Rightarrow> bool" where
  "resource_inv belongs s \<longleftrightarrow> resource_core belongs s \<and> loading_ok s \<and> live_load s \<and> (rh_retry s \<longrightarrow> rh_mounted s) \<and>
     (\<not> rh_mounted s \<longrightarrow> rh_live s = None)"

lemma rerun_inv: "resource_core belongs s \<Longrightarrow> \<not> rh_mounted s \<longrightarrow> rh_live s = None \<and> \<not> rh_retry s \<Longrightarrow>
    resource_inv belongs (fst (rerun s))"
  by (auto simp: rerun_def resource_cleanup_def resource_effect_def resource_inv_def resource_core_def loading_ok_def
      live_load_def shown_error_def is_fresh_def current_settled_def split: option.splits)

lemma shown_same:
  assumes "rh_settled t = rh_settled s" "rh_key t = rh_key s" "rh_nonce t = rh_nonce s"
  shows "shown_error t = shown_error s \<and> is_fresh t = is_fresh s"
  unfolding shown_error_def is_fresh_def current_settled_def assms by simp

lemma reload_inv:
  assumes "resource_core belongs s" "\<not> rh_mounted s \<longrightarrow> rh_live s = None \<and> \<not> rh_retry s"
  shows "resource_inv belongs (fst (reload_called s))"
  unfolding reload_called_def by (rule rerun_inv) (use assms in \<open>simp_all add: resource_core_def\<close>)

lemma resource_inv_step:
  assumes inv: "resource_inv belongs s" and en: "resource_enabled belongs s e"
  shows "resource_inv belongs (fst (resource_step s e))"
proof (cases e)
  case (ResourceRenders key retry_ms)
  have "resource_core belongs (s\<lparr>rh_mounted := True, rh_key := key, rh_retry_ms := retry_ms\<rparr>)"
    using inv by (simp add: resource_inv_def resource_core_def)
  then show ?thesis using inv by (auto simp: ResourceRenders resource_renders_def intro: rerun_inv)
next
  case (LoadResolves l data)
  with en obtain k n where l: "rh_loads s l = Some (k, n)" and b: "belongs k data" by (auto split: option.splits)
  show ?thesis
  proof (cases "rh_live s = Some l")
    case True
    with inv l have "rh_key s = Some k" "n = rh_nonce s" by (auto simp: resource_inv_def live_load_def)
    with inv l b True show ?thesis
      by (auto simp: LoadResolves load_resolves_def Let_def resource_inv_def resource_core_def loading_ok_def live_load_def
          settled_belongs_def shown_error_def is_fresh_def current_settled_def)
  next
    case False
    let ?t = "s\<lparr>rh_loads := (rh_loads s)(l := None)\<rparr>"
    have "shown_error ?t = shown_error s \<and> is_fresh ?t = is_fresh s" by (rule shown_same) simp_all
    with inv l False show ?thesis
      by (auto simp: LoadResolves load_resolves_def Let_def resource_inv_def resource_core_def loading_ok_def live_load_def)
  qed
next
  case (LoadRejects l reason)
  with en obtain k n where l: "rh_loads s l = Some (k, n)" by auto
  show ?thesis
  proof (cases "rh_live s = Some l")
    case True
    with inv l have "rh_key s = Some k" "n = rh_nonce s" by (auto simp: resource_inv_def live_load_def)
    moreover have "settled_belongs belongs (Some \<lparr>se_key = k, se_nonce = n, se_data = kept_data k (rh_settled s), se_error = Some reason\<rparr>)"
      using inv by (auto simp: resource_inv_def resource_core_def settled_belongs_def kept_data_def split: option.splits)
    moreover have "rh_mounted s" using inv True by (auto simp: resource_inv_def)
    ultimately show ?thesis using inv l True
      by (cases "rh_retry_ms s")
        (auto simp: LoadRejects load_rejects_def Let_def resource_inv_def resource_core_def loading_ok_def live_load_def
          shown_error_def is_fresh_def current_settled_def)
  next
    case False
    let ?t = "s\<lparr>rh_loads := (rh_loads s)(l := None)\<rparr>"
    have "shown_error ?t = shown_error s \<and> is_fresh ?t = is_fresh s" by (rule shown_same) simp_all
    with inv l False show ?thesis
      by (auto simp: LoadRejects load_rejects_def Let_def resource_inv_def resource_core_def loading_ok_def live_load_def)
  qed
next
  case ResourceRetryFires
  then show ?thesis using reload_inv [of belongs "s\<lparr>rh_retry := False\<rparr>"] inv by (simp add: resource_inv_def resource_core_def)
next
  case ReloadCalled
  then show ?thesis using reload_inv [of belongs s] inv by (auto simp: resource_inv_def)
next
  case (SetCalled data)
  show ?thesis
  proof (cases "rh_key s")
    case None
    with inv show ?thesis by (simp add: SetCalled set_called_def)
  next
    case (Some key)
    with en SetCalled have b: "belongs key data" by simp
    let ?t = "s\<lparr>rh_settled := Some \<lparr>se_key = key, se_nonce = rh_nonce s, se_data = Some data, se_error = None\<rparr>\<rparr>"
    have fresh: "is_fresh ?t" "shown_error ?t = None"
      by (simp_all add: shown_error_def is_fresh_def current_settled_def Some)
    have "loading_ok s" "live_load s" using inv by (simp_all add: resource_inv_def)
    then have "loading_ok ?t" "live_load ?t"
      unfolding loading_ok_def live_load_def fresh by (simp_all add: fresh) blast
    with inv b Some show ?thesis
      by (simp add: SetCalled set_called_def resource_inv_def resource_core_def settled_belongs_def)
  qed
next
  case ResourceUnmounts
  with inv show ?thesis
    by (auto simp: resource_cleanup_def resource_inv_def resource_core_def loading_ok_def live_load_def)
qed

interpretation resource: machine resource_step "resource_enabled belongs" "resource_inv belongs" for belongs
  by unfold_locales (rule resource_inv_step)

text \<open>A screen shows data of its current key only, however its key changed while loads were in flight;
  while it says it is loading, the load of that key is under way; and with a retry set, a shown failure
  always has its retry coming.\<close>

theorem resource_shows_its_key:
  assumes "legal_events resource_step (resource_enabled belongs) new_resource_hook es"
    and "s = fst (run_events resource_step new_resource_hook es)" "rh_mounted s" "rh_key s = Some key"
  shows "(case shown_data s of None \<Rightarrow> True | Some d \<Rightarrow> belongs key d) \<and>
    (is_fresh s \<or> (\<exists>l. rh_live s = Some l \<and> rh_loads s l = Some (key, rh_nonce s))) \<and>
    (shown_error s = None \<or> rh_retry_ms s = None \<or> rh_retry s \<or> (\<exists>l. rh_live s = Some l \<and> rh_loads s l \<noteq> None))"
proof -
  have "resource_inv belongs (new_resource_hook :: 'a resource_hook)"
    by (simp add: resource_inv_def resource_core_def loading_ok_def live_load_def new_resource_hook_def settled_belongs_def)
  from resource.run_inv [OF this assms(1)] have inv: "resource_inv belongs s" by (simp add: assms(2))
  have "case shown_data s of None \<Rightarrow> True | Some d \<Rightarrow> belongs key d"
    using inv assms(4)
    by (auto simp: resource_inv_def resource_core_def settled_belongs_def shown_data_def current_settled_def split: option.splits)
  then show ?thesis using inv assms(3,4) by (auto simp: resource_inv_def loading_ok_def)
qed

definition changed_key :: "nat resource_event list" where
  "changed_key = [ResourceRenders (Some ''a'') (Some 500), ResourceRenders (Some ''bb'') (Some 500), LoadResolves 0 1,
     LoadRejects 1 ''offline'', ResourceRetryFires, LoadResolves 2 2]"

lemmas resource_eval = changed_key_def new_resource_hook_def resource_renders_def rerun_def resource_cleanup_def
  resource_effect_def load_resolves_def load_rejects_def reload_called_def kept_data_def Let_def

theorem resource_shows_its_key_witness:
  "case shown_data (fst (run_events resource_step new_resource_hook changed_key)) of None \<Rightarrow> True | Some d \<Rightarrow> d = length ''bb''"
  using resource_shows_its_key [of "\<lambda>key d. d = length key" changed_key, OF _ refl, of "''bb''"]
  by (simp add: resource_eval)

text \<open>A load that was under way when a caller replaced the value lands after it and puts the older value back.\<close>

lemma load_under_way_undoes_a_set:
  "shown_data (fst (run_events resource_step new_resource_hook
     [ResourceRenders (Some ''k'') None, LoadResolves 0 (1::nat), ReloadCalled, SetCalled 2, LoadResolves 1 1])) = Some 1"
  by (simp add: resource_eval set_called_def shown_data_def current_settled_def)

end
