(* ===== verification/RestartPending.thy ===== *)
theory RestartPending
  imports Json "HOL-Library.AList"
begin

section \<open>Changes that wait for a restart (apps/web/src/stores/use-restart-pending.ts)\<close>

text \<open>
  The persisted store of agents with a saved change that only a restart applies.  The record of
  entries is an association list in insertion order; an agent's name that is an array index would be
  listed before the others, which nothing here reads; the name of a member every object inherits
  (\<open>constructor\<close>) is left out.  A set that returns the state unchanged notifies
  nobody.  zustand's \<open>persist\<close> is a parameter: it calls \<open>migrate\<close> on what it read.
\<close>

datatype pending_reason = HostAccess | FilesReason | SettingsReason

definition all_reasons :: "pending_reason list" where
  "all_reasons = [HostAccess, FilesReason, SettingsReason]"

fun reason_name :: "pending_reason \<Rightarrow> string" where
  "reason_name HostAccess = ''host-access''"
| "reason_name FilesReason = ''files''"
| "reason_name SettingsReason = ''settings''"

definition recreate_only_reasons :: "pending_reason list" where
  "recreate_only_reasons = [HostAccess]"

record pending_entry =
  pe_reasons :: "pending_reason list"
  pe_since :: "string option"

type_synonym pending_map = "(string \<times> pending_entry) list"

definition without_agent :: "pending_map \<Rightarrow> string \<Rightarrow> pending_map" where
  "without_agent pending agent = filter (\<lambda>(name, entry). name \<noteq> agent) pending"

text \<open>\<open>{...pending, [agent]: entry}\<close>: replaced where it stands, appended when it is new.\<close>

definition set_entry :: "pending_map \<Rightarrow> string \<Rightarrow> pending_entry \<Rightarrow> pending_map" where
  "set_entry pending agent entry = AList.update agent entry pending"

definition mark_pending :: "string \<Rightarrow> pending_reason \<Rightarrow> string option \<Rightarrow> pending_map \<Rightarrow> pending_map" where
  "mark_pending agent reason started_at pending =
     (let entry = map_of pending agent
      in case entry of
           Some e \<Rightarrow>
             if reason \<in> set (pe_reasons e) then pending
             else set_entry pending agent
                    \<lparr>pe_reasons = pe_reasons e @ [reason],
                     pe_since = (case started_at of Some t \<Rightarrow> Some t | None \<Rightarrow> pe_since e)\<rparr>
         | None \<Rightarrow> set_entry pending agent \<lparr>pe_reasons = [reason], pe_since = started_at\<rparr>)"

definition clear_reason :: "string \<Rightarrow> pending_reason \<Rightarrow> pending_map \<Rightarrow> pending_map" where
  "clear_reason agent reason pending =
     (case map_of pending agent of
        None \<Rightarrow> pending
      | Some entry \<Rightarrow>
          if reason \<notin> set (pe_reasons entry) then pending
          else let remaining = filter (\<lambda>r. r \<noteq> reason) (pe_reasons entry)
               in if remaining = [] then without_agent pending agent
                  else set_entry pending agent (entry\<lparr>pe_reasons := remaining\<rparr>))"

definition clear_pending :: "string \<Rightarrow> pending_map \<Rightarrow> pending_map" where
  "clear_pending agent pending =
     (if map_of pending agent = None then pending else without_agent pending agent)"

text \<open>One observed agent: its name and its container's start, absent or empty when it is not known.\<close>

definition reconcile_agent :: "string \<times> string option \<Rightarrow> pending_map \<Rightarrow> pending_map" where
  "reconcile_agent agent pending =
     (let (name, started_at) = agent
      in case map_of pending name of
           None \<Rightarrow> pending
         | Some entry \<Rightarrow>
             (case started_at of
                None \<Rightarrow> pending
              | Some t \<Rightarrow>
                  if t = [] then pending
                  else (case pe_since entry of
                          None \<Rightarrow> set_entry pending name (entry\<lparr>pe_since := Some t\<rparr>)
                        | Some since \<Rightarrow>
                            if t \<noteq> since
                            then let survivors = filter (\<lambda>r. r \<in> set recreate_only_reasons) (pe_reasons entry)
                                 in if survivors = [] then without_agent pending name
                                    else set_entry pending name \<lparr>pe_reasons = survivors, pe_since = Some t\<rparr>
                            else pending)))"

definition reconcile_pending :: "(string \<times> string option) list \<Rightarrow> pending_map \<Rightarrow> pending_map" where
  "reconcile_pending agents pending = foldl (\<lambda>p a. reconcile_agent a p) pending agents"

subsection \<open>Migration\<close>

definition known_reasons :: "json list \<Rightarrow> pending_reason list" where
  "known_reasons vs =
     concat (map (\<lambda>v. case as_str (Some v) of None \<Rightarrow> []
                      | Some s \<Rightarrow> filter (\<lambda>r. reason_name r = s) all_reasons) vs)"

definition migrate_entry :: "nat \<Rightarrow> json \<Rightarrow> pending_entry option" where
  "migrate_entry version v =
     (if version = 0
      then (if v = JBool True then Some \<lparr>pe_reasons = [SettingsReason], pe_since = None\<rparr> else None)
      else case v of
             JArr vs \<Rightarrow> (let reasons = known_reasons vs
                         in if reasons = [] then None else Some \<lparr>pe_reasons = reasons, pe_since = None\<rparr>)
           | _ \<Rightarrow> None)"

definition migrate_restart_pending :: "json \<Rightarrow> nat \<Rightarrow> pending_map" where
  "migrate_restart_pending persisted version =
     (let stored = Option.bind (as_record (Some persisted)) (\<lambda>p. field p ''pending'');
          entries = (case as_record stored of None \<Rightarrow> [] | Some ps \<Rightarrow> ps)
      in foldl (\<lambda>pending (agent, v). case migrate_entry version v of
                  None \<Rightarrow> pending | Some entry \<Rightarrow> set_entry pending agent entry) [] entries)"

subsection \<open>What the store keeps\<close>

text \<open>The calls of the store.\<close>

datatype pending_call =
  MarkPending string pending_reason "string option"
| ClearReason string pending_reason
| ClearPending string
| ReconcilePending "(string \<times> string option) list"

fun pending_step :: "pending_map \<Rightarrow> pending_call \<Rightarrow> pending_map" where
  "pending_step p (MarkPending agent reason started_at) = mark_pending agent reason started_at p"
| "pending_step p (ClearReason agent reason) = clear_reason agent reason p"
| "pending_step p (ClearPending agent) = clear_pending agent p"
| "pending_step p (ReconcilePending agents) = reconcile_pending agents p"

definition pending_ok :: "pending_map \<Rightarrow> bool" where
  "pending_ok p \<longleftrightarrow> distinct (map fst p) \<and>
     (\<forall>(name, e) \<in> set p. pe_reasons e \<noteq> [] \<and> distinct (pe_reasons e))"

text \<open>The reasons an agent is flagged with.\<close>

definition reasons_of :: "pending_map \<Rightarrow> string \<Rightarrow> pending_reason set" where
  "reasons_of p agent = (case map_of p agent of None \<Rightarrow> {} | Some e \<Rightarrow> set (pe_reasons e))"

lemma map_of_set_entry [simp]: "map_of (set_entry p a e) = (map_of p)(a \<mapsto> e)"
  by (simp add: set_entry_def update_conv')

lemma map_of_without [simp]: "map_of (without_agent p a) = (map_of p)(a := None)"
  unfolding without_agent_def by (induction p) (auto simp: fun_eq_iff)

lemma set_entry_ok: "pending_ok p \<Longrightarrow> pe_reasons e \<noteq> [] \<Longrightarrow> distinct (pe_reasons e) \<Longrightarrow> pending_ok (set_entry p a e)"
  unfolding pending_ok_def set_entry_def
  by (induction p) (auto simp: dom_update split: if_splits)

lemma without_ok: "pending_ok p \<Longrightarrow> pending_ok (without_agent p a)"
  unfolding pending_ok_def without_agent_def by (auto simp: distinct_map_filter_keep)

lemma entry_ok: "pending_ok p \<Longrightarrow> map_of p a = Some e \<Longrightarrow> pe_reasons e \<noteq> [] \<and> distinct (pe_reasons e)"
  by (auto simp: pending_ok_def dest!: map_of_SomeD)

lemma mark_ok: "pending_ok p \<Longrightarrow> pending_ok (mark_pending a r t p)"
  using entry_ok by (auto simp: mark_pending_def Let_def intro!: set_entry_ok split: option.split)

lemma clear_reason_ok: "pending_ok p \<Longrightarrow> pending_ok (clear_reason a r p)"
  using entry_ok by (auto simp: clear_reason_def Let_def intro!: set_entry_ok without_ok split: option.split)

lemma reconcile_agent_ok: "pending_ok p \<Longrightarrow> pending_ok (reconcile_agent a p)"
  using entry_ok
  by (auto simp: reconcile_agent_def Let_def split_beta intro!: set_entry_ok without_ok split: option.split)

lemma reconcile_ok: "pending_ok p \<Longrightarrow> pending_ok (reconcile_pending agents p)"
  unfolding reconcile_pending_def by (induction agents arbitrary: p) (simp_all add: reconcile_agent_ok)

lemma pending_step_ok: "pending_ok p \<Longrightarrow> pending_ok (pending_step p c)"
  by (cases c) (auto simp: mark_ok clear_reason_ok reconcile_ok clear_pending_def without_ok)

lemma pending_run_ok: "pending_ok p \<Longrightarrow> pending_ok (foldl pending_step p cs)"
  by (induction cs arbitrary: p) (simp_all add: pending_step_ok)

subsection \<open>A roster's observation, agent by agent\<close>

text \<open>What the observation of one start makes of one agent's entry.\<close>

definition observed_entry :: "pending_entry \<Rightarrow> string option \<Rightarrow> pending_entry option" where
  "observed_entry e started_at =
     (case started_at of
        None \<Rightarrow> Some e
      | Some t \<Rightarrow>
          if t = [] \<or> pe_since e = Some t then Some e
          else if pe_since e = None then Some (e\<lparr>pe_since := Some t\<rparr>)
          else if HostAccess \<in> set (pe_reasons e)
          then Some \<lparr>pe_reasons = filter (\<lambda>r. r = HostAccess) (pe_reasons e), pe_since = Some t\<rparr> else None)"

lemma reconcile_agent_map:
  "map_of (reconcile_agent (name, s) p) = (map_of p)(name := Option.bind (map_of p name) (\<lambda>e. observed_entry e s))"
proof (cases "map_of p name")
  case (Some e)
  have none: "filter (\<lambda>r. r = HostAccess) rs = [] \<longleftrightarrow> HostAccess \<notin> set rs" for rs by (auto simp: filter_empty_conv)
  show ?thesis
    using Some
    by (cases s; cases "pe_since e")
      (auto simp: reconcile_agent_def observed_entry_def recreate_only_reasons_def Let_def none fun_upd_idem)
qed (simp add: reconcile_agent_def fun_upd_idem)

lemma reconcile_map:
  assumes "distinct (map fst agents)"
  shows "map_of (reconcile_pending agents p) name =
    (case map_of agents name of
       None \<Rightarrow> map_of p name
     | Some s \<Rightarrow> Option.bind (map_of p name) (\<lambda>e. observed_entry e s))"
  using assms unfolding reconcile_pending_def
proof (induction agents arbitrary: p)
  case (Cons a agents)
  obtain n s where a: "a = (n, s)" by (cases a)
  have "map_of agents n = None" if "n = name" using Cons.prems a by (simp add: map_of_eq_None_iff)
  with Cons a show ?case by (auto simp: reconcile_agent_map split: option.split)
qed simp

text \<open>The roster is judged agent by agent, wherever an agent stands in it: an entry whose boot is not
  known takes the one that is seen, one that is seen under another boot keeps host access alone, or goes
  where it has none, and every other entry stays as it is.\<close>

theorem roster_is_judged_agent_by_agent:
  assumes "distinct (map fst agents)"
  shows "map_of (reconcile_pending agents p) name =
    (case map_of agents name of
       None \<Rightarrow> map_of p name
     | Some s \<Rightarrow> Option.bind (map_of p name) (\<lambda>e. observed_entry e s))"
  using reconcile_map [OF assms] .

lemma roster_is_judged_agent_by_agent_witness:
  "map_of (reconcile_pending [(''b'', None), (''a'', Some ''t2'')]
     [(''a'', \<lparr>pe_reasons = [FilesReason, HostAccess], pe_since = Some ''t1''\<rparr>)]) ''a'' =
   Some \<lparr>pe_reasons = [HostAccess], pe_since = Some ''t2''\<rparr>"
  by (subst roster_is_judged_agent_by_agent) (simp_all add: observed_entry_def)

subsection \<open>A flag stays until its restart\<close>

text \<open>A call that leaves an agent's flag alone while its boot is \<open>t\<close>: it withdraws neither, and what it
  says of the agent's start is that boot or nothing.\<close>

fun same_boot :: "string \<Rightarrow> string \<Rightarrow> pending_reason \<Rightarrow> pending_call \<Rightarrow> bool" where
  "same_boot agent t reason (MarkPending a r s) = (a = agent \<longrightarrow> s \<in> {None, Some t})"
| "same_boot agent t reason (ClearReason a r) = (a = agent \<longrightarrow> r \<noteq> reason)"
| "same_boot agent t reason (ClearPending a) = (a \<noteq> agent)"
| "same_boot agent t reason (ReconcilePending agents) =
     (distinct (map fst agents) \<and> (\<forall>s. map_of agents agent = Some s \<longrightarrow> s \<in> {None, Some [], Some t}))"

definition flagged :: "string \<Rightarrow> string \<Rightarrow> pending_reason \<Rightarrow> pending_map \<Rightarrow> bool" where
  "flagged agent t reason p \<longleftrightarrow>
     (\<exists>e. map_of p agent = Some e \<and> reason \<in> set (pe_reasons e) \<and> pe_since e = Some t)"

lemma flagged_step:
  assumes "flagged agent t reason p" "same_boot agent t reason c"
  shows "flagged agent t reason (pending_step p c)"
proof (cases c)
  case (MarkPending a r s)
  with assms show ?thesis by (auto simp: flagged_def mark_pending_def Let_def split: option.split)
next
  case (ClearReason a r)
  from assms(1) obtain e where e: "map_of p agent = Some e" "reason \<in> set (pe_reasons e)" "pe_since e = Some t"
    by (auto simp: flagged_def)
  show ?thesis
  proof (cases "a = agent")
    case True
    then have "reason \<in> set (filter (\<lambda>x. x \<noteq> r) (pe_reasons e))" using assms(2) ClearReason e by auto
    then have "filter (\<lambda>x. x \<noteq> r) (pe_reasons e) \<noteq> []" by force
    then show ?thesis
      using ClearReason True e assms(2) by (simp add: flagged_def clear_reason_def Let_def)
  next
    case False
    then have "map_of (clear_reason a r p) agent = map_of p agent"
      by (simp add: clear_reason_def Let_def split: option.split)
    then show ?thesis using ClearReason e by (simp add: flagged_def)
  qed
next
  case (ClearPending a)
  with assms show ?thesis by (auto simp: flagged_def clear_pending_def)
next
  case (ReconcilePending agents)
  from assms(1) obtain e where e: "map_of p agent = Some e" "reason \<in> set (pe_reasons e)" "pe_since e = Some t"
    by (auto simp: flagged_def)
  have d: "distinct (map fst agents)" using assms(2) ReconcilePending by simp
  have "map_of (reconcile_pending agents p) agent = Some e"
  proof (cases "map_of agents agent")
    case (Some s)
    then have "s \<in> {None, Some [], Some t}" using assms(2) ReconcilePending by simp
    then have "observed_entry e s = Some e" using e(3) by (auto simp: observed_entry_def)
    then show ?thesis using Some e(1) by (simp add: reconcile_map [OF d])
  qed (simp add: reconcile_map [OF d] e(1))
  then show ?thesis using ReconcilePending e by (simp add: flagged_def)
qed

lemma flagged_run:
  "flagged agent t reason p \<Longrightarrow> list_all (same_boot agent t reason) cs \<Longrightarrow> flagged agent t reason (foldl pending_step p cs)"
  by (induction cs arbitrary: p) (simp_all add: flagged_step)

lemma flagged_marked: "flagged agent t reason (mark_pending agent reason (Some t) p)"
  if "case map_of p agent of None \<Rightarrow> True | Some e \<Rightarrow> reason \<notin> set (pe_reasons e)"
  using that by (auto simp: flagged_def mark_pending_def Let_def split: option.split)

text \<open>C32: A change that is newly flagged under the boot it was saved in stays flagged, whatever is flagged,
  cleared or observed of other agents, whatever other reasons of its agent come and go, and however often its
  agent is seen without a start or under that boot, as long as it is not withdrawn itself and no other mark
  of its agent names another boot; once the agent is seen under another boot, the flag is gone, unless the
  change waits for the container to be made anew. (A mark that names another boot replaces the one on record.)\<close>

theorem saved_change_is_flagged_until_restart:
  assumes "case map_of p agent of None \<Rightarrow> True | Some e \<Rightarrow> reason \<notin> set (pe_reasons e)"
    "list_all (same_boot agent t reason) calls"
    "q = foldl pending_step (mark_pending agent reason (Some t) p) calls"
    "distinct (map fst agents)" "map_of agents agent = Some (Some t')" "t' \<noteq> []" "t' \<noteq> t"
  shows "reason \<in> reasons_of q agent \<and>
    reasons_of (reconcile_pending agents q) agent = reasons_of q agent \<inter> {HostAccess}"
proof -
  from flagged_run [OF flagged_marked [OF assms(1)] assms(2)] assms(3)
  obtain e where e: "map_of q agent = Some e" "reason \<in> set (pe_reasons e)" "pe_since e = Some t"
    by (auto simp: flagged_def)
  then have "observed_entry e (Some t') = (if HostAccess \<in> set (pe_reasons e)
      then Some \<lparr>pe_reasons = filter (\<lambda>r. r = HostAccess) (pe_reasons e), pe_since = Some t'\<rparr> else None)"
    using assms(6,7) by (simp add: observed_entry_def)
  then show ?thesis using e by (auto simp: reasons_of_def reconcile_map [OF assms(4)] assms(5))
qed

lemma saved_change_is_flagged_until_restart_witness:
  "reasons_of (mark_pending ''a'' HostAccess None (mark_pending ''a'' FilesReason (Some ''t1'') [])) ''a'' = {FilesReason, HostAccess} \<and>
   reasons_of (reconcile_pending [(''a'', Some ''t2'')]
     (mark_pending ''a'' HostAccess None (mark_pending ''a'' FilesReason (Some ''t1'') []))) ''a'' = {HostAccess}"
proof -
  let ?q = "foldl pending_step (mark_pending ''a'' FilesReason (Some ''t1'') []) [MarkPending ''a'' HostAccess None]"
  have "reasons_of ?q ''a'' = {FilesReason, HostAccess}"
    by (simp add: mark_pending_def reasons_of_def)
  moreover from saved_change_is_flagged_until_restart
      [where p = "[]" and agent = "''a''" and reason = FilesReason and t = "''t1''" and calls = "[MarkPending ''a'' HostAccess None]"
        and q = ?q and agents = "[(''a'', Some ''t2'')]" and t' = "''t2''"]
  have "reasons_of (reconcile_pending [(''a'', Some ''t2'')] ?q) ''a'' = reasons_of ?q ''a'' \<inter> {HostAccess}" by simp
  ultimately show ?thesis by simp
qed

end
