(* ===== verification/RosterView.thy ===== *)
theory RosterView
  imports MobileGates
begin

section \<open>The roster the mobile app shows (apps/mobile/src/controller/ControllerProvider.tsx, session/RosterProvider.tsx)\<close>

text \<open>
  The two providers that decide whose agents are on the screen.  The controller's provider builds a controller for
  the connected gateway while the app is in the foreground, in an effect, so the render that first sees another
  gateway still has the controller of the one before; the roster's provider reconciles the hold of \<open>MobileGates\<close> in
  every render with what the controller's tree has and keeps it for the next.  An event is followed by the renders
  and effects React runs for it.  A session that is not connected has no connection, and with it no controller.
  The facts beside a roster start with the gateway whose tree they are read from, which the code does not keep:
  it is there to say where the held agents come from.
\<close>

record ('a, 'f) roster_app =
  rv_key :: "string option"
  rv_foreground :: bool
  rv_controller :: "string option"
  rv_tree :: "('a list \<times> (string \<times> 'f)) option"
  rv_hold :: "('a, string \<times> 'f) roster_hold"

datatype ('a, 'f) roster_event =
  ConnectionBecomes "string option"
| ForegroundBecomes bool
| DeviceResolves
| TreeBecomes "'a list" "string \<times> 'f"

definition open_roster :: "bool \<Rightarrow> ('a, 'f) roster_app" where
  "open_roster foreground =
     \<lparr>rv_key = None, rv_foreground = foreground, rv_controller = None, rv_tree = None, rv_hold = empty_roster_hold\<rparr>"

text \<open>A render of the roster's provider, with its effect that keeps the hold.\<close>

definition render_roster :: "('a, 'f) roster_app \<Rightarrow> ('a, 'f) roster_app" where
  "render_roster s =
     s\<lparr>rv_hold := reconcile_roster_hold (rv_hold s) (nullish (rv_key s) [])
         (if rv_controller s = None then None else rv_tree s)\<rparr>"

definition gate_of :: "('a, 'f) roster_app \<Rightarrow> controller_gate_input" where
  "gate_of s = \<lparr>cg_connected = (rv_key s \<noteq> None), cg_foreground = rv_foreground s\<rparr>"

definition without_controller :: "('a, 'f) roster_app \<Rightarrow> ('a, 'f) roster_app" where
  "without_controller s = s\<lparr>rv_controller := None, rv_tree := None\<rparr>"

text \<open>\<open>reconcile\<close> of the build effect: what the gate says to a change builds or closes the controller.\<close>

definition reconcile_gate :: "controller_gate_input \<Rightarrow> ('a, 'f) roster_app \<Rightarrow> ('a, 'f) roster_app" where
  "reconcile_gate prev s =
     (case controller_gate_action prev (gate_of s) of
        BuildController \<Rightarrow> s\<lparr>rv_controller := rv_key s, rv_tree := None\<rparr>
      | CloseController \<Rightarrow> without_controller s
      | KeepController \<Rightarrow> s)"

text \<open>The effect's cleanup and its next run.\<close>

definition rerun_gate :: "('a, 'f) roster_app \<Rightarrow> ('a, 'f) roster_app" where
  "rerun_gate s = reconcile_gate \<lparr>cg_connected = False, cg_foreground = False\<rparr> (without_controller s)"

fun roster_step :: "('a, 'f) roster_app \<Rightarrow> ('a, 'f) roster_event \<Rightarrow> ('a, 'f) roster_app \<times> unit list" where
  "roster_step s (ConnectionBecomes key) =
     (if key = rv_key s then (s, [])
      else if key = None then (render_roster ((without_controller s)\<lparr>rv_key := None\<rparr>), [])
      else (render_roster (rerun_gate (render_roster (s\<lparr>rv_key := key\<rparr>))), []))"
| "roster_step s (ForegroundBecomes b) = (render_roster (reconcile_gate (gate_of s) (s\<lparr>rv_foreground := b\<rparr>)), [])"
| "roster_step s DeviceResolves = (render_roster (rerun_gate s), [])"
| "roster_step s (TreeBecomes agents facts) = (render_roster (s\<lparr>rv_tree := Some (agents, facts)\<rparr>), [])"

text \<open>A tree is of the gateway its controller was built for, and a connection has a key.\<close>

fun roster_enabled :: "('a, 'f) roster_app \<Rightarrow> ('a, 'f) roster_event \<Rightarrow> bool" where
  "roster_enabled s (ConnectionBecomes key) \<longleftrightarrow> key \<noteq> Some []"
| "roster_enabled s (ForegroundBecomes b) \<longleftrightarrow> True"
| "roster_enabled s DeviceResolves \<longleftrightarrow> rv_key s \<noteq> None"
| "roster_enabled s (TreeBecomes agents facts) \<longleftrightarrow> rv_controller s = Some (fst facts)"

text \<open>The app does not go straight from a gateway whose roster is loaded to another.\<close>

definition through_no_gateway :: "('a, 'f) roster_app \<Rightarrow> ('a, 'f) roster_event \<Rightarrow> bool" where
  "through_no_gateway s e \<longleftrightarrow> roster_enabled s e \<and>
     (case e of ConnectionBecomes (Some key) \<Rightarrow> rv_key s = Some key \<or> rv_tree s = None | _ \<Rightarrow> True)"

subsection \<open>Whose agents are held\<close>

definition hold_ok :: "string option \<Rightarrow> ('a, string \<times> 'f) roster_hold \<Rightarrow> bool" where
  "hold_ok key h \<longleftrightarrow> key \<noteq> Some [] \<and> rh_key h = nullish key [] \<and>
     (case rh_facts h of None \<Rightarrow> rh_agents h = [] \<and> \<not> rh_ready h | Some (g, f) \<Rightarrow> key = Some g)"

definition tree_held :: "('a, 'f) roster_app \<Rightarrow> bool" where
  "tree_held s \<longleftrightarrow>
     (case rv_tree s of
        None \<Rightarrow> True
      | Some (agents, facts) \<Rightarrow> rh_agents (rv_hold s) = agents \<and> rh_ready (rv_hold s) \<and> rh_facts (rv_hold s) = Some facts)"

definition controller_ours :: "('a, 'f) roster_app \<Rightarrow> bool" where
  "controller_ours s \<longleftrightarrow>
     (rv_controller s = None \<longrightarrow> rv_tree s = None) \<and> (\<forall>g. rv_controller s = Some g \<longrightarrow> rv_key s = Some g) \<and>
     (\<forall>agents g f. rv_tree s = Some (agents, g, f) \<longrightarrow> rv_controller s = Some g)"

definition roster_ok :: "('a, 'f) roster_app \<Rightarrow> bool" where
  "roster_ok s \<longleftrightarrow> hold_ok (rv_key s) (rv_hold s) \<and> tree_held s \<and> controller_ours s"

lemmas roster_defs = roster_ok_def hold_ok_def tree_held_def controller_ours_def render_roster_def reconcile_roster_hold_def
  empty_roster_hold_def without_controller_def

lemma reconcile_gate_cases:
  "reconcile_gate prev s = s \<or> reconcile_gate prev s = without_controller s \<or>
   rv_key s \<noteq> None \<and> reconcile_gate prev s = s\<lparr>rv_controller := rv_key s, rv_tree := None\<rparr>"
  by (auto simp: reconcile_gate_def controller_gate_action_def gate_of_def Let_def split: controller_gate_action.split)

text \<open>A controller with no tree yet, or none, leaves the hold of its gateway as it is.\<close>

lemma render_treeless:
  assumes "hold_ok (rv_key s) (rv_hold s)" "rv_tree s = None"
  shows "render_roster s = s"
  using assms by (simp add: hold_ok_def render_roster_def reconcile_roster_hold_def Let_def)

lemma treeless_ok:
  "hold_ok (rv_key s) (rv_hold s) \<Longrightarrow> roster_ok (without_controller s)"
  "hold_ok (rv_key s) (rv_hold s) \<Longrightarrow> roster_ok (s\<lparr>rv_controller := rv_key s, rv_tree := None\<rparr>)"
  by (simp_all add: roster_ok_def tree_held_def controller_ours_def without_controller_def)

lemma render_ok: "roster_ok s \<Longrightarrow> render_roster s = s"
  by (cases "rv_tree s")
    (auto simp: roster_ok_def render_treeless controller_ours_def tree_held_def hold_ok_def render_roster_def
      reconcile_roster_hold_def)

lemma foreground_ok [simp]: "roster_ok (s\<lparr>rv_foreground := b\<rparr>) = roster_ok s"
  by (cases "rv_tree s") (auto simp: roster_ok_def tree_held_def controller_ours_def)

lemma gate_ok: "roster_ok s \<Longrightarrow> roster_ok (reconcile_gate prev s)"
  using reconcile_gate_cases [of prev s] treeless_ok [of s] by (auto simp: roster_ok_def)

lemma rerun_ok: "hold_ok (rv_key s) (rv_hold s) \<Longrightarrow> roster_ok (rerun_gate s)"
  unfolding rerun_gate_def by (intro gate_ok treeless_ok)

text \<open>Without a tree a render under another key empties the hold.\<close>

lemma render_moved:
  assumes "roster_ok s" "key \<noteq> rv_key s" "key \<noteq> Some []" "rv_tree s = None"
  shows "hold_ok key (rv_hold (render_roster (s\<lparr>rv_key := key\<rparr>)))"
proof -
  have "nullish key [] \<noteq> rh_key (rv_hold s)"
    using assms(1-3) by (cases key; cases "rv_key s") (auto simp: roster_ok_def hold_ok_def)
  then show ?thesis using assms(3,4) by (simp add: hold_ok_def render_roster_def reconcile_roster_hold_def empty_roster_hold_def Let_def)
qed

lemma roster_step_ok:
  assumes "roster_ok s" "through_no_gateway s e"
  shows "roster_ok (fst (roster_step s e))"
proof (cases e)
  case (ConnectionBecomes key)
  let ?first = "render_roster (s\<lparr>rv_key := key\<rparr>)"
  have ne: "key \<noteq> Some []" using assms(2) by (simp add: ConnectionBecomes through_no_gateway_def)
  have gone: "roster_ok (render_roster ((without_controller s)\<lparr>rv_key := None\<rparr>))" if "rv_key s \<noteq> None"
  proof -
    have "roster_ok (without_controller s)" using assms(1) by (intro treeless_ok) (simp add: roster_ok_def)
    from render_moved [OF this, of None] that
    have "hold_ok None (rv_hold (render_roster ((without_controller s)\<lparr>rv_key := None\<rparr>)))"
      by (simp add: without_controller_def [of s])
    then show ?thesis by (simp add: roster_ok_def tree_held_def controller_ours_def render_roster_def without_controller_def)
  qed
  have moved: "roster_ok (render_roster (rerun_gate ?first))" if "key \<noteq> rv_key s" "key \<noteq> None"
  proof -
    have "rv_tree s = None" using that assms(2) by (auto simp: ConnectionBecomes through_no_gateway_def)
    from render_moved [OF assms(1) that(1) ne this] have "hold_ok (rv_key ?first) (rv_hold ?first)" by (simp add: render_roster_def)
    from rerun_ok [OF this] show ?thesis by (simp add: render_ok)
  qed
  show ?thesis using assms(1) gone moved by (cases key; cases "rv_key s") (auto simp: ConnectionBecomes)
next
  case (ForegroundBecomes b)
  have "roster_ok (reconcile_gate (gate_of s) (s\<lparr>rv_foreground := b\<rparr>))" using assms(1) by (intro gate_ok) simp
  then show ?thesis by (simp add: ForegroundBecomes render_ok)
next
  case DeviceResolves
  moreover have "roster_ok (rerun_gate s)" using assms(1) by (intro rerun_ok) (simp add: roster_ok_def)
  ultimately show ?thesis by (simp add: render_ok)
next
  case (TreeBecomes agents facts)
  with assms show ?thesis
    by (cases facts) (auto simp: through_no_gateway_def roster_ok_def hold_ok_def tree_held_def controller_ours_def render_roster_def
        reconcile_roster_hold_def)
qed

interpretation roster: machine roster_step through_no_gateway roster_ok
  by unfold_locales (rule roster_step_ok)

lemma open_roster_ok: "roster_ok (open_roster foreground)"
  by (simp add: roster_ok_def hold_ok_def tree_held_def controller_ours_def open_roster_def empty_roster_hold_def)

text \<open>C38: The agents on the screen are of the gateway the app is connected to: as long as the app does not go
  straight from a gateway whose roster is loaded to another, the held roster is of the connected gateway or empty, it is
  what the controller's tree has once it has one, and a move to the background and back leaves it as it is.
  (On a direct switch the old gateway's agents stay under the new one: \<open>direct_switch_shows_the_old_agents\<close>.)\<close>

theorem held_agents_are_this_gateways:
  assumes "legal_events roster_step through_no_gateway (open_roster foreground) es"
    "s = fst (run_events roster_step (open_roster foreground) es)"
  shows "(case rh_facts (rv_hold s) of
       None \<Rightarrow> rh_agents (rv_hold s) = [] \<and> \<not> rh_ready (rv_hold s) | Some (gateway, f) \<Rightarrow> rv_key s = Some gateway) \<and>
    (case rv_tree s of
       None \<Rightarrow> True
     | Some (agents, facts) \<Rightarrow> rh_agents (rv_hold s) = agents \<and> rh_ready (rv_hold s) \<and> rh_facts (rv_hold s) = Some facts) \<and>
    rv_hold (fst (roster_step s (ForegroundBecomes b))) = rv_hold s"
proof -
  have ok: "roster_ok s" unfolding assms(2) by (rule roster.run_inv [OF open_roster_ok assms(1)])
  let ?s = "reconcile_gate (gate_of s) (s\<lparr>rv_foreground := b\<rparr>)"
  have "roster_ok (s\<lparr>rv_foreground := b\<rparr>)" using ok by simp
  from render_ok [OF gate_ok [OF this]] have "fst (roster_step s (ForegroundBecomes b)) = ?s" by simp
  moreover have "rv_hold ?s = rv_hold s"
    using reconcile_gate_cases [of "gate_of s" "s\<lparr>rv_foreground := b\<rparr>"] by (auto simp: without_controller_def)
  ultimately show ?thesis using ok by (simp add: roster_ok_def hold_ok_def tree_held_def)
qed

lemmas roster_eval = open_roster_def render_roster_def reconcile_gate_def rerun_gate_def without_controller_def gate_of_def
  controller_gate_action_def reconcile_roster_hold_def empty_roster_hold_def through_no_gateway_def Let_def

definition switched_through_none :: "(string, nat) roster_event list" where
  "switched_through_none =
     [ConnectionBecomes (Some ''a''), TreeBecomes [''ann''] (''a'', 1), ConnectionBecomes None, ConnectionBecomes (Some ''b'')]"

theorem held_agents_are_this_gateways_witness:
  "rv_hold (fst (roster_step (fst (run_events roster_step (open_roster True) switched_through_none)) (ForegroundBecomes False))) =
   rv_hold (fst (run_events roster_step (open_roster True) switched_through_none))"
  using held_agents_are_this_gateways [of True switched_through_none _ False, OF _ refl]
  by (simp add: switched_through_none_def roster_eval)

text \<open>The first render of a direct switch has the new key and the old controller, whose tree it takes for the new
  gateway's; the hold is kept under the new key, and no later render clears it before the new gateway's snapshot.\<close>

lemma direct_switch_shows_the_old_agents:
  "let s = fst (run_events roster_step (open_roster True)
       [ConnectionBecomes (Some ''a''), TreeBecomes [''ann''] (''a'', 1 :: nat), ConnectionBecomes (Some ''b'')])
   in rv_key s = Some ''b'' \<and> rv_controller s = Some ''b'' \<and> rv_tree s = None \<and>
      rh_agents (rv_hold s) = [''ann''] \<and> rh_ready (rv_hold s)"
  by (simp add: roster_eval run_events.simps(2))

end
