(* ===== verification/ServiceKeys.thy ===== *)
theory ServiceKeys
  imports Http
begin

section \<open>Service keys (service-keys/service-keys.ts, react/use-service-key.ts)\<close>

text \<open>
  The cache that hands out the keys of an agent's services, and the hook that keeps asking it for
  one.  The cache is an event machine: a call of \<open>get\<close> with the clock and the gateway at that
  moment, a mint that resolves or rejects, and the end of its promise chain (\<open>finally\<close>), which
  answers the callers that share it.  \<open>encodeURIComponent\<close> is a parameter.  The hook is an event
  machine of its own over the promises the cache returns.
\<close>

record service_key =
  sv_id :: string
  sv_key :: string
  sv_expires_at :: "jsnum option"

record cached_key =
  ck_key :: string
  ck_expires_at :: "jsnum option"

definition remint_margin_secs :: jsnum where "remint_margin_secs = 3600"
definition app_key_ttl_secs :: jsnum where "app_key_ttl_secs = 12 * 3600"

definition mint_service_key :: "(string \<Rightarrow> string) \<Rightarrow> string \<Rightarrow> string \<Rightarrow> jsnum option \<Rightarrow> string \<times> http_init" where
  "mint_service_key encode agent service ttl_secs =
     (''/agents/'' @ encode agent @ ''/services/'' @ encode service @ ''/keys'',
      \<lparr>hi_method = ''POST'', hi_headers = [(''Content-Type'', ''application/json'')],
       hi_payload = Some (JObj (case ttl_secs of None \<Rightarrow> [] | Some t \<Rightarrow> [(''ttl_secs'', JNum t)]))\<rparr>)"

definition is_key_fresh :: "cached_key option \<Rightarrow> jsnum \<Rightarrow> bool" where
  "is_key_fresh entry now_secs \<longleftrightarrow>
     (case entry of
        None \<Rightarrow> False
      | Some e \<Rightarrow> (case ck_expires_at e of None \<Rightarrow> True | Some t \<Rightarrow> t - now_secs > remint_margin_secs))"

definition service_key_path_url :: "(string \<Rightarrow> string) \<Rightarrow> string \<Rightarrow> string \<Rightarrow> string \<Rightarrow> string \<Rightarrow> string" where
  "service_key_path_url encode base_url agent service key =
     base_url @ ''/agents/'' @ encode agent @ ''/'' @ encode service @ ''/k/'' @ encode key @ ''/''"

definition key_identity :: "string option \<Rightarrow> string \<Rightarrow> string \<Rightarrow> string" where
  "key_identity gateway agent service = nullish gateway [] @ ''/'' @ agent @ ''/'' @ service"

subsection \<open>The cache\<close>

text \<open>A mint in flight, with the calls whose promise it is.\<close>

datatype mint_state = MintInFlight | MintGot string | MintFailed

record mint =
  mt_identity :: string
  mt_callers :: "nat list"
  mt_state :: mint_state

record key_cache =
  kc_cached :: "string \<rightharpoonup> cached_key"
  kc_minting :: "string \<rightharpoonup> nat"
  kc_mints :: "nat \<rightharpoonup> mint"
  kc_next :: nat

datatype key_event =
  GetKey nat "string option" string string jsnum
| MintResolves nat service_key
| MintRejects nat
| MintSettles nat

datatype key_out = MintKey nat "string \<times> http_init" | KeyGiven nat string | KeyRefused nat

type_synonym key_result = "key_cache \<times> key_out list"

definition create_service_key_cache :: key_cache where
  "create_service_key_cache = \<lparr>kc_cached = Map.empty, kc_minting = Map.empty, kc_mints = Map.empty, kc_next = 0\<rparr>"

definition get_key ::
  "(string \<Rightarrow> string) \<Rightarrow> nat \<Rightarrow> string option \<Rightarrow> string \<Rightarrow> string \<Rightarrow> jsnum \<Rightarrow> key_cache \<Rightarrow> key_result" where
  "get_key encode caller gateway agent service now_secs s =
     (let key = key_identity gateway agent service; existing = kc_cached s key
      in if existing \<noteq> None \<and> is_key_fresh existing now_secs then (s, [KeyGiven caller (ck_key (the existing))])
         else case kc_minting s key of
           Some p \<Rightarrow>
             (s\<lparr>kc_mints := (kc_mints s)(p := map_option (\<lambda>m. m\<lparr>mt_callers := mt_callers m @ [caller]\<rparr>) (kc_mints s p))\<rparr>, [])
         | None \<Rightarrow>
             (s\<lparr>kc_minting := (kc_minting s)(key \<mapsto> kc_next s),
                kc_mints := (kc_mints s)(kc_next s \<mapsto> \<lparr>mt_identity = key, mt_callers = [caller], mt_state = MintInFlight\<rparr>),
                kc_next := Suc (kc_next s)\<rparr>,
              [MintKey (kc_next s) (mint_service_key encode agent service (Some app_key_ttl_secs))]))"

definition mint_resolved :: "nat \<Rightarrow> service_key \<Rightarrow> key_cache \<Rightarrow> key_result" where
  "mint_resolved p minted s =
     (case kc_mints s p of
        None \<Rightarrow> (s, [])
      | Some m \<Rightarrow>
          (s\<lparr>kc_cached := (kc_cached s)(mt_identity m \<mapsto> \<lparr>ck_key = sv_key minted, ck_expires_at = sv_expires_at minted\<rparr>),
             kc_mints := (kc_mints s)(p \<mapsto> m\<lparr>mt_state := MintGot (sv_key minted)\<rparr>)\<rparr>, []))"

definition mint_rejected :: "nat \<Rightarrow> key_cache \<Rightarrow> key_result" where
  "mint_rejected p s =
     (case kc_mints s p of
        None \<Rightarrow> (s, [])
      | Some m \<Rightarrow> (s\<lparr>kc_mints := (kc_mints s)(p \<mapsto> m\<lparr>mt_state := MintFailed\<rparr>)\<rparr>, []))"

text \<open>The \<open>finally\<close>: the entry goes, then every call that shares the promise is answered.\<close>

definition mint_settled :: "nat \<Rightarrow> key_cache \<Rightarrow> key_result" where
  "mint_settled p s =
     (case kc_mints s p of
        None \<Rightarrow> (s, [])
      | Some m \<Rightarrow>
          (s\<lparr>kc_minting := (kc_minting s)(mt_identity m := None), kc_mints := (kc_mints s)(p := None)\<rparr>,
           map (\<lambda>c. case mt_state m of MintGot k \<Rightarrow> KeyGiven c k | _ \<Rightarrow> KeyRefused c) (mt_callers m)))"

fun key_step :: "(string \<Rightarrow> string) \<Rightarrow> key_cache \<Rightarrow> key_event \<Rightarrow> key_result" where
  "key_step encode s (GetKey caller gateway agent service now_secs) = get_key encode caller gateway agent service now_secs s"
| "key_step encode s (MintResolves p minted) = mint_resolved p minted s"
| "key_step encode s (MintRejects p) = mint_rejected p s"
| "key_step encode s (MintSettles p) = mint_settled p s"

text \<open>A mint settles once; what a gateway answers for an identity is \<open>minted\<close> there.\<close>

definition mint_in_flight :: "key_cache \<Rightarrow> nat \<Rightarrow> bool" where
  "mint_in_flight s p \<longleftrightarrow> (case kc_mints s p of None \<Rightarrow> False | Some m \<Rightarrow> mt_state m = MintInFlight)"

fun key_enabled :: "(string \<Rightarrow> string \<Rightarrow> bool) \<Rightarrow> key_cache \<Rightarrow> key_event \<Rightarrow> bool" where
  "key_enabled minted s (GetKey caller gateway agent service now_secs) \<longleftrightarrow> True"
| "key_enabled minted s (MintResolves p k) \<longleftrightarrow>
     mint_in_flight s p \<and> minted (mt_identity (the (kc_mints s p))) (sv_key k)"
| "key_enabled minted s (MintRejects p) \<longleftrightarrow> mint_in_flight s p"
| "key_enabled minted s (MintSettles p) \<longleftrightarrow> kc_mints s p \<noteq> None \<and> \<not> mint_in_flight s p"

subsection \<open>What the cache keeps\<close>

definition mint_ok :: "(string \<Rightarrow> string \<Rightarrow> bool) \<Rightarrow> key_cache \<Rightarrow> nat \<Rightarrow> mint \<Rightarrow> bool" where
  "mint_ok minted s p m \<longleftrightarrow> p < kc_next s \<and> kc_minting s (mt_identity m) = Some p \<and>
     (case mt_state m of MintGot k \<Rightarrow> minted (mt_identity m) k | _ \<Rightarrow> True)"

definition key_inv :: "(string \<Rightarrow> string \<Rightarrow> bool) \<Rightarrow> key_cache \<Rightarrow> bool" where
  "key_inv minted s \<longleftrightarrow>
     (\<forall>i e. kc_cached s i = Some e \<longrightarrow> minted i (ck_key e)) \<and>
     (\<forall>i p. kc_minting s i = Some p \<longrightarrow> (\<exists>m. kc_mints s p = Some m \<and> mt_identity m = i)) \<and>
     (\<forall>p m. kc_mints s p = Some m \<longrightarrow> mint_ok minted s p m)"

lemma key_invI:
  assumes "\<And>i e. kc_cached s i = Some e \<Longrightarrow> minted i (ck_key e)"
    "\<And>i p. kc_minting s i = Some p \<Longrightarrow> \<exists>m. kc_mints s p = Some m \<and> mt_identity m = i"
    "\<And>p m. kc_mints s p = Some m \<Longrightarrow> mint_ok minted s p m"
  shows "key_inv minted s"
  using assms unfolding key_inv_def by blast

lemma key_invD:
  assumes "key_inv minted s"
  shows "kc_cached s i = Some e \<Longrightarrow> minted i (ck_key e)"
    "kc_minting s i = Some p \<Longrightarrow> \<exists>m. kc_mints s p = Some m \<and> mt_identity m = i"
    "kc_mints s p = Some m \<Longrightarrow> mint_ok minted s p m"
  using assms unfolding key_inv_def by blast+

definition state_minted :: "(string \<Rightarrow> string \<Rightarrow> bool) \<Rightarrow> mint \<Rightarrow> bool" where
  "state_minted minted m \<longleftrightarrow> (case mt_state m of MintGot k \<Rightarrow> minted (mt_identity m) k | _ \<Rightarrow> True)"

lemma mint_ok_iff:
  "mint_ok minted s p m \<longleftrightarrow> p < kc_next s \<and> kc_minting s (mt_identity m) = Some p \<and> state_minted minted m"
  by (simp add: mint_ok_def state_minted_def)

lemma key_inv_mint:
  assumes inv: "key_inv minted s" and m: "kc_mints s p = Some m" and m': "mt_identity m' = mt_identity m" "state_minted minted m'"
    and c: "\<And>i e. c i = Some e \<Longrightarrow> minted i (ck_key e)"
  shows "key_inv minted (s\<lparr>kc_cached := c, kc_mints := (kc_mints s)(p \<mapsto> m')\<rparr>)"
proof (rule key_invI)
  fix i q assume "kc_minting (s\<lparr>kc_cached := c, kc_mints := (kc_mints s)(p \<mapsto> m')\<rparr>) i = Some q"
  then obtain n where "kc_mints s q = Some n" "mt_identity n = i" using key_invD(2) [OF inv] by auto
  with m m' show "\<exists>n. kc_mints (s\<lparr>kc_cached := c, kc_mints := (kc_mints s)(p \<mapsto> m')\<rparr>) q = Some n \<and> mt_identity n = i"
    by auto
next
  fix q n assume "kc_mints (s\<lparr>kc_cached := c, kc_mints := (kc_mints s)(p \<mapsto> m')\<rparr>) q = Some n"
  then show "mint_ok minted (s\<lparr>kc_cached := c, kc_mints := (kc_mints s)(p \<mapsto> m')\<rparr>) q n"
    using key_invD(3) [OF inv, of q n] key_invD(3) [OF inv m] m' by (auto simp: mint_ok_iff split: if_splits)
qed (simp add: c)

lemma key_inv_keep: "key_inv minted s \<Longrightarrow> kc_mints s p = Some m \<Longrightarrow> mt_identity m' = mt_identity m \<Longrightarrow>
    state_minted minted m' \<Longrightarrow> key_inv minted (s\<lparr>kc_mints := (kc_mints s)(p \<mapsto> m')\<rparr>)"
  using key_inv_mint [of minted s p m m' "kc_cached s"] key_invD(1) [of minted s] by simp

lemma key_inv_new:
  assumes inv: "key_inv minted s" and none: "kc_minting s i = None" and m: "mt_identity m = i" "state_minted minted m"
  shows "key_inv minted (s\<lparr>kc_minting := (kc_minting s)(i \<mapsto> kc_next s), kc_mints := (kc_mints s)(kc_next s \<mapsto> m),
    kc_next := Suc (kc_next s)\<rparr>)" (is "key_inv minted ?t")
proof (rule key_invI)
  fix j e assume "kc_cached ?t j = Some e"
  then show "minted j (ck_key e)" using key_invD(1) [OF inv] by simp
next
  have old: "q \<noteq> kc_next s" if "kc_mints s q = Some n" for q n
    using key_invD(3) [OF inv that] by (auto simp: mint_ok_iff)
  fix j q assume a: "kc_minting ?t j = Some q"
  show "\<exists>n. kc_mints ?t q = Some n \<and> mt_identity n = j"
  proof (cases "j = i")
    case True
    with a m show ?thesis by simp
  next
    case False
    with a obtain n where "kc_mints s q = Some n" "mt_identity n = j" using key_invD(2) [OF inv] by auto
    with old show ?thesis by auto
  qed
next
  fix q n assume a: "kc_mints ?t q = Some n"
  show "mint_ok minted ?t q n"
  proof (cases "q = kc_next s")
    case True
    with a m show ?thesis by (simp add: mint_ok_iff)
  next
    case False
    with a have "mint_ok minted s q n" using key_invD(3) [OF inv] by simp
    with none show ?thesis by (auto simp: mint_ok_iff)
  qed
qed

lemma key_inv_drop:
  assumes inv: "key_inv minted s" and m: "kc_mints s p = Some m"
  shows "key_inv minted (s\<lparr>kc_minting := (kc_minting s)(mt_identity m := None), kc_mints := (kc_mints s)(p := None)\<rparr>)"
    (is "key_inv minted ?t")
proof (rule key_invI)
  fix j e assume "kc_cached ?t j = Some e"
  then show "minted j (ck_key e)" using key_invD(1) [OF inv] by simp
next
  fix j q assume a: "kc_minting ?t j = Some q"
  then have j: "j \<noteq> mt_identity m" "kc_minting s j = Some q" by (auto split: if_splits)
  then obtain n where n: "kc_mints s q = Some n" "mt_identity n = j" using key_invD(2) [OF inv] by blast
  with j m have "q \<noteq> p" by auto
  with n show "\<exists>n. kc_mints ?t q = Some n \<and> mt_identity n = j" by simp
next
  fix q n assume a: "kc_mints ?t q = Some n"
  then have q: "q \<noteq> p" "kc_mints s q = Some n" by (auto split: if_splits)
  have ok: "mint_ok minted s q n" "mint_ok minted s p m" using key_invD(3) [OF inv] q(2) m by blast+
  with q(1) have "mt_identity n \<noteq> mt_identity m" by (auto simp: mint_ok_iff)
  with ok(1) show "mint_ok minted ?t q n" by (simp add: mint_ok_iff)
qed

lemma key_inv_get:
  assumes inv: "key_inv minted s"
  shows "key_inv minted (fst (get_key encode caller gateway agent service now_secs s))"
proof (cases "kc_minting s (key_identity gateway agent service)")
  case None
  from key_inv_new [OF inv None] inv show ?thesis by (simp add: get_key_def Let_def None state_minted_def)
next
  case (Some p)
  with key_invD(2) [OF inv] obtain m where m: "kc_mints s p = Some m" by blast
  then have "state_minted minted m" using key_invD(3) [OF inv m] by (simp add: mint_ok_iff)
  then have "state_minted minted (m\<lparr>mt_callers := mt_callers m @ [caller]\<rparr>)"
    by (simp add: state_minted_def split: mint_state.splits)
  from key_inv_keep [OF inv m _ this] inv show ?thesis by (simp add: get_key_def Let_def Some m)
qed

interpretation keys: machine "key_step encode" "key_enabled minted" "key_inv minted" for encode minted
proof
  fix s e
  assume inv: "key_inv minted s" and en: "key_enabled minted s e"
  show "key_inv minted (fst (key_step encode s e))"
  proof (cases e)
    case GetKey
    with inv show ?thesis by (simp add: key_inv_get)
  next
    case (MintResolves p k)
    then obtain m where m: "kc_mints s p = Some m" using en by (auto simp: mint_in_flight_def split: option.splits)
    with MintResolves en have "minted (mt_identity m) (sv_key k)" by simp
    with key_invD(1) [OF inv] show ?thesis
      by (simp add: MintResolves mint_resolved_def m)
        (rule key_inv_mint [OF inv m]; auto simp: state_minted_def split: if_splits)
  next
    case (MintRejects p)
    then obtain m where m: "kc_mints s p = Some m" using en by (auto simp: mint_in_flight_def split: option.splits)
    show ?thesis by (simp add: MintRejects mint_rejected_def m) (rule key_inv_keep [OF inv m]; simp add: state_minted_def)
  next
    case (MintSettles p)
    then obtain m where m: "kc_mints s p = Some m" using en by auto
    from key_inv_drop [OF inv m] show ?thesis by (simp add: MintSettles mint_settled_def m)
  qed
qed

subsection \<open>Every call is answered, with a key of its own service\<close>

definition asks_of :: "key_event list \<Rightarrow> nat \<Rightarrow> string \<Rightarrow> bool" where
  "asks_of es c i \<longleftrightarrow> (\<exists>gateway agent service now_secs.
     GetKey c gateway agent service now_secs \<in> set es \<and> i = key_identity gateway agent service)"

fun asked_ok :: "(nat \<Rightarrow> string \<Rightarrow> bool) \<Rightarrow> key_event \<Rightarrow> bool" where
  "asked_ok asked (GetKey c gateway agent service now_secs) \<longleftrightarrow> asked c (key_identity gateway agent service)"
| "asked_ok asked _ \<longleftrightarrow> True"

definition callers_asked :: "(nat \<Rightarrow> string \<Rightarrow> bool) \<Rightarrow> key_cache \<Rightarrow> bool" where
  "callers_asked asked s \<longleftrightarrow> (\<forall>p m. kc_mints s p = Some m \<longrightarrow> (\<forall>c \<in> set (mt_callers m). asked c (mt_identity m)))"

lemma callers_asked_step:
  assumes inv: "key_inv minted s" and c: "callers_asked asked s" and e: "asked_ok asked e"
  shows "callers_asked asked (fst (key_step encode s e))"
proof (cases e)
  case (GetKey caller gateway agent service now_secs)
  let ?i = "key_identity gateway agent service"
  from GetKey e have a: "asked caller ?i" by simp
  show ?thesis
  proof (cases "kc_minting s ?i")
    case None
    with c a show ?thesis by (auto simp: GetKey get_key_def Let_def callers_asked_def)
  next
    case (Some p)
    with key_invD(2) [OF inv] obtain m where "kc_mints s p = Some m" "mt_identity m = ?i" by blast
    moreover from this c have "\<forall>x \<in> set (mt_callers m). asked x ?i" unfolding callers_asked_def by metis
    ultimately show ?thesis using c a Some by (auto simp: GetKey get_key_def Let_def callers_asked_def)
  qed
qed (use c in \<open>auto simp: mint_resolved_def mint_rejected_def mint_settled_def callers_asked_def split: option.splits\<close>)

interpretation asked_keys: machine "key_step encode" "\<lambda>s e. key_enabled minted s e \<and> asked_ok asked e"
    "\<lambda>s. key_inv minted s \<and> callers_asked asked s" for encode minted asked
  by unfold_locales (auto intro: keys.step_inv callers_asked_step)

lemma key_answers:
  assumes inv: "key_inv minted s" and c: "callers_asked asked s" and e: "key_enabled minted s e" "asked_ok asked e"
    and x: "KeyGiven c k \<in> set (snd (key_step encode s e))"
  shows "\<exists>i. asked c i \<and> minted i k"
proof (cases e)
  case GetKey
  with x e key_invD(1) [OF inv] show ?thesis
    by (auto simp: get_key_def Let_def split: if_splits option.splits)
next
  case (MintSettles p)
  with x obtain m where m: "kc_mints s p = Some m" by (auto simp: mint_settled_def split: option.splits)
  with x MintSettles have "mt_state m = MintGot k" "c \<in> set (mt_callers m)"
    by (auto simp: mint_settled_def split: mint_state.splits)
  moreover have "state_minted minted m" using key_invD(3) [OF inv m] by (simp add: mint_ok_iff)
  ultimately show ?thesis using c m by (auto simp: callers_asked_def state_minted_def)
qed (use x in \<open>auto simp: mint_resolved_def mint_rejected_def split: option.splits\<close>)

lemma legal_events_also:
  "legal_events step en s es \<Longrightarrow> list_all ok es \<Longrightarrow> legal_events step (\<lambda>s e. en s e \<and> ok e) s es"
  by (induction es arbitrary: s) auto

lemma key_inv_create: "key_inv minted create_service_key_cache"
  by (simp add: key_inv_def create_service_key_cache_def)

text \<open>A key handed to a call was minted for exactly the gateway, agent and service that call named,
  however the calls, the mints and their failures interleave: no call is ever given a key of another
  service or of another gateway, from the cache or from a mint it shares.\<close>

theorem keys_go_to_their_service:
  assumes "legal_events (key_step encode) (key_enabled minted) create_service_key_cache es"
    and "KeyGiven c k \<in> set (snd (run_events (key_step encode) create_service_key_cache es))"
  shows "\<exists>i. asks_of es c i \<and> minted i k"
proof -
  have "list_all (asked_ok (asks_of es)) es"
    unfolding list_all_iff
  proof
    fix e assume e: "e \<in> set es"
    show "asked_ok (asks_of es) e" by (cases e) (use e in \<open>auto simp: asks_of_def\<close>)
  qed
  note legal = legal_events_also [OF assms(1) this]
  have out: "\<forall>x \<in> set (snd (key_step encode s e)). \<forall>c k. x = KeyGiven c k \<longrightarrow> (\<exists>i. asks_of es c i \<and> minted i k)"
    if "key_inv minted s \<and> callers_asked (asks_of es) s" "key_enabled minted s e \<and> asked_ok (asks_of es) e" for s e
    using that key_answers [of minted s "asks_of es" e] by blast
  have "callers_asked (asks_of es) create_service_key_cache"
    by (simp add: callers_asked_def create_service_key_cache_def)
  with key_inv_create have start: "key_inv minted create_service_key_cache \<and> callers_asked (asks_of es) create_service_key_cache"
    by blast
  show ?thesis
    using asked_keys.run_outputs [of minted "asks_of es" encode, OF out start legal assms(2)] by blast
qed

definition two_callers :: "key_event list" where
  "two_callers =
     [GetKey 1 (Some ''home'') ''vesta'' ''dashboard'' 100, GetKey 2 (Some ''home'') ''vesta'' ''dashboard'' 100,
      MintResolves 0 \<lparr>sv_id = ''i'', sv_key = ''k'', sv_expires_at = None\<rparr>, MintSettles 0]"

lemmas key_eval = two_callers_def get_key_def mint_resolved_def mint_settled_def create_service_key_cache_def
  mint_in_flight_def Let_def key_identity_def is_key_fresh_def

theorem keys_go_to_their_service_witness:
  "\<exists>i. asks_of two_callers 2 i \<and> (\<lambda>i k. i = ''home/vesta/dashboard'' \<and> k = ''k'') i ''k''"
  by (rule keys_go_to_their_service [where minted = "\<lambda>i k. i = ''home/vesta/dashboard'' \<and> k = ''k''" and encode = id])
    (simp_all add: key_eval)

definition waiting_callers :: "key_cache \<Rightarrow> nat multiset" where
  "waiting_callers s = (\<Sum>p < kc_next s. case kc_mints s p of None \<Rightarrow> {#} | Some m \<Rightarrow> mset (mt_callers m))"

fun answered_caller :: "key_out \<Rightarrow> nat multiset" where
  "answered_caller (KeyGiven c k) = {#c#}"
| "answered_caller (KeyRefused c) = {#c#}"
| "answered_caller (MintKey p r) = {#}"

fun calling :: "key_event \<Rightarrow> nat multiset" where
  "calling (GetKey c gateway agent service now_secs) = {#c#}"
| "calling _ = {#}"

lemma sum_one_changes:
  fixes f g :: "nat \<Rightarrow> 'a multiset"
  assumes "p < n" "\<And>q. q < n \<Longrightarrow> q \<noteq> p \<Longrightarrow> g q = f q"
  shows "sum g {..<n} + f p = sum f {..<n} + g p"
proof -
  have "sum g ({..<n} - {p}) = sum f ({..<n} - {p})" using assms(2) by (intro sum.cong) auto
  with assms(1) show ?thesis
    by (simp add: sum.remove [of "{..<n}" p] add.commute add.left_commute)
qed

lemma waiting_set:
  assumes "p < kc_next s" "kc_mints s p = Some m"
  shows "waiting_callers (s\<lparr>kc_mints := (kc_mints s)(p := new)\<rparr>) + mset (mt_callers m) =
    waiting_callers s + (case new of None \<Rightarrow> {#} | Some n \<Rightarrow> mset (mt_callers n))"
  unfolding waiting_callers_def
  using sum_one_changes [of p "kc_next s" "\<lambda>q. case ((kc_mints s)(p := new)) q of None \<Rightarrow> {#} | Some m \<Rightarrow> mset (mt_callers m)"
      "\<lambda>q. case kc_mints s q of None \<Rightarrow> {#} | Some m \<Rightarrow> mset (mt_callers m)"] assms by simp

lemma waiting_fields:
  "waiting_callers (s\<lparr>kc_cached := c\<rparr>) = waiting_callers s" "waiting_callers (s\<lparr>kc_minting := d\<rparr>) = waiting_callers s"
  by (simp_all add: waiting_callers_def)

lemma answered_all:
  "sum_list (map answered_caller (map (\<lambda>c. case st of MintGot k \<Rightarrow> KeyGiven c k | _ \<Rightarrow> KeyRefused c) cs)) = mset cs"
  by (induction cs) (simp_all split: mint_state.split)

lemma key_balance:
  assumes inv: "key_inv minted s" and en: "key_enabled minted s e"
  shows "sum_list (map answered_caller (snd (key_step encode s e))) + waiting_callers (fst (key_step encode s e)) =
    waiting_callers s + calling e"
proof (cases e)
  case (GetKey caller gateway agent service now_secs)
  let ?i = "key_identity gateway agent service"
  show ?thesis
  proof (cases "kc_minting s ?i")
    case None
    have "waiting_callers (s\<lparr>kc_minting := d, kc_mints := (kc_mints s)(kc_next s \<mapsto> m), kc_next := Suc (kc_next s)\<rparr>) =
        waiting_callers s + mset (mt_callers m)" for d m
      by (simp add: waiting_callers_def)
    then show ?thesis by (simp add: GetKey get_key_def Let_def None)
  next
    case (Some p)
    with key_invD(2) [OF inv] obtain m where m: "kc_mints s p = Some m" by blast
    then have p: "p < kc_next s" using key_invD(3) [OF inv m] by (simp add: mint_ok_iff)
    from waiting_set [OF p m, of "Some (m\<lparr>mt_callers := mt_callers m @ [caller]\<rparr>)"] show ?thesis
      by (simp add: GetKey get_key_def Let_def Some m)
  qed
next
  case (MintResolves p k)
  then obtain m where m: "kc_mints s p = Some m" using en by (auto simp: mint_in_flight_def split: option.splits)
  then have p: "p < kc_next s" using key_invD(3) [OF inv m] by (simp add: mint_ok_iff)
  have "waiting_callers (s\<lparr>kc_cached := c, kc_mints := (kc_mints s)(p \<mapsto> m\<lparr>mt_state := st\<rparr>)\<rparr>) = waiting_callers s" for c st
    using waiting_set [OF p m, of "Some (m\<lparr>mt_state := st\<rparr>)"] by (simp add: waiting_callers_def)
  then show ?thesis by (simp add: MintResolves mint_resolved_def m)
next
  case (MintRejects p)
  then obtain m where m: "kc_mints s p = Some m" using en by (auto simp: mint_in_flight_def split: option.splits)
  then have p: "p < kc_next s" using key_invD(3) [OF inv m] by (simp add: mint_ok_iff)
  from waiting_set [OF p m, of "Some (m\<lparr>mt_state := MintFailed\<rparr>)"] show ?thesis
    by (simp add: MintRejects mint_rejected_def m)
next
  case (MintSettles p)
  then obtain m where m: "kc_mints s p = Some m" using en by auto
  then have p: "p < kc_next s" using key_invD(3) [OF inv m] by (simp add: mint_ok_iff)
  have "waiting_callers (s\<lparr>kc_minting := d, kc_mints := (kc_mints s)(p := None)\<rparr>) + mset (mt_callers m) = waiting_callers s" for d
    using waiting_set [OF p m, of None] by (simp add: waiting_callers_def)
  then show ?thesis using answered_all by (simp add: MintSettles mint_settled_def m add.commute)
qed

text \<open>Calls share mints and none is lost: at any moment every call made so far was answered once or
  waits at one mint, and no two mints in flight are for the same gateway, agent and service; so when
  the mints have all settled, every call has exactly one answer.\<close>

theorem every_key_call_is_answered_once:
  assumes "legal_events (key_step encode) (key_enabled minted) create_service_key_cache es"
    and "run_events (key_step encode) create_service_key_cache es = (s, os)"
  shows "sum_list (map answered_caller os) + waiting_callers s = sum_list (map calling es) \<and>
    (kc_mints s p = Some m \<and> kc_mints s q = Some n \<and> mt_identity m = mt_identity n \<longrightarrow> p = q)"
proof
  have start: "waiting_callers create_service_key_cache = {#}"
    by (simp add: waiting_callers_def create_service_key_cache_def)
  from keys.run_balance [of minted answered_caller encode waiting_callers calling, OF key_balance key_inv_create assms(1)]
  show "sum_list (map answered_caller os) + waiting_callers s = sum_list (map calling es)"
    by (simp add: assms(2) start)
  have "key_inv minted s" using keys.run_inv [OF key_inv_create assms(1)] by (simp add: assms(2))
  from key_invD(3) [OF this] show "kc_mints s p = Some m \<and> kc_mints s q = Some n \<and> mt_identity m = mt_identity n \<longrightarrow> p = q"
    unfolding mint_ok_iff by (metis option.inject)
qed

theorem every_key_call_is_answered_once_witness:
  "\<exists>s os. run_events (key_step id) create_service_key_cache two_callers = (s, os) \<and>
    sum_list (map answered_caller os) + waiting_callers s = sum_list (map calling two_callers)"
proof -
  obtain s os where r: "run_events (key_step id) create_service_key_cache two_callers = (s, os)" by (cases "run_events (key_step id) create_service_key_cache two_callers")
  have "legal_events (key_step id) (key_enabled (\<lambda>_ _. True)) create_service_key_cache two_callers"
    by (simp add: key_eval)
  from every_key_call_is_answered_once [OF this r] r show ?thesis by blast
qed

subsection \<open>The hook (react/use-service-key.ts)\<close>

text \<open>
  An effect run captures its agent and service; when its dependencies change the run is cancelled,
  its retry timer cleared, and a new run asks at once.  A promise of a cancelled run is ignored.
\<close>

definition mint_retry_delay_ms :: nat where "mint_retry_delay_ms = 5000"

record mint_outcome =
  mo_agent :: string
  mo_service :: string
  mo_key :: "string option"
  mo_error :: "string option"

record key_deps =
  kd_agent :: string
  kd_service :: string
  kd_cache :: "nat option"
  kd_enabled :: bool

record key_hook =
  kh_deps :: "key_deps option"
  kh_outcome :: "mint_outcome option"
  kh_live :: "(nat \<times> string \<times> string) option"
  kh_retry :: bool
  kh_asks :: "nat \<rightharpoonup> (nat \<times> string \<times> string)"
  kh_next :: nat

datatype hook_event =
  HookRenders key_deps
| AskResolves nat string
| AskRejects nat string
| RetryFires
| HookUnmounts

datatype hook_out = AskKey nat nat string string | StartRetry nat | ClearRetry

type_synonym hook_result = "key_hook \<times> hook_out list"

definition unmounted_hook :: key_hook where
  "unmounted_hook = \<lparr>kh_deps = None, kh_outcome = None, kh_live = None, kh_retry = False, kh_asks = Map.empty, kh_next = 0\<rparr>"

definition attempt :: "nat \<Rightarrow> nat \<times> string \<times> string \<Rightarrow> key_hook \<Rightarrow> hook_result" where
  "attempt cache run s =
     (case run of (r, agent, service) \<Rightarrow>
        (s\<lparr>kh_asks := (kh_asks s)(kh_next s \<mapsto> run), kh_next := Suc (kh_next s)\<rparr>, [AskKey (kh_next s) cache agent service]))"

definition effect_cleanup :: "key_hook \<Rightarrow> hook_result" where
  "effect_cleanup s = (s\<lparr>kh_live := None, kh_retry := False\<rparr>, if kh_retry s then [ClearRetry] else [])"

definition run_effect :: "key_deps \<Rightarrow> key_hook \<Rightarrow> hook_result" where
  "run_effect deps s =
     (case (kd_enabled deps, kd_cache deps) of
        (True, Some cache) \<Rightarrow>
          (let run = (kh_next s, kd_agent deps, kd_service deps)
           in attempt cache run (s\<lparr>kh_live := Some run, kh_next := Suc (kh_next s)\<rparr>))
      | _ \<Rightarrow> (s, []))"

definition hook_renders :: "key_deps \<Rightarrow> key_hook \<Rightarrow> hook_result" where
  "hook_renders deps s =
     (if kh_deps s = Some deps then (s, [])
      else chain (effect_cleanup (s\<lparr>kh_deps := Some deps\<rparr>)) (run_effect deps))"

definition ask_resolves :: "nat \<Rightarrow> string \<Rightarrow> key_hook \<Rightarrow> hook_result" where
  "ask_resolves a key s =
     (case kh_asks s a of
        None \<Rightarrow> (s, [])
      | Some run \<Rightarrow>
          (let s = s\<lparr>kh_asks := (kh_asks s)(a := None)\<rparr>
           in if kh_live s \<noteq> Some run then (s, [])
              else (s\<lparr>kh_outcome := Some \<lparr>mo_agent = fst (snd run), mo_service = snd (snd run), mo_key = Some key,
                                        mo_error = None\<rparr>\<rparr>, [])))"

definition ask_rejects :: "nat \<Rightarrow> string \<Rightarrow> key_hook \<Rightarrow> hook_result" where
  "ask_rejects a reason s =
     (case kh_asks s a of
        None \<Rightarrow> (s, [])
      | Some run \<Rightarrow>
          (let s = s\<lparr>kh_asks := (kh_asks s)(a := None)\<rparr>
           in if kh_live s \<noteq> Some run then (s, [])
              else (s\<lparr>kh_outcome := Some \<lparr>mo_agent = fst (snd run), mo_service = snd (snd run), mo_key = None,
                                        mo_error = Some reason\<rparr>, kh_retry := True\<rparr>,
                    [StartRetry mint_retry_delay_ms])))"

definition retry_fires :: "key_hook \<Rightarrow> hook_result" where
  "retry_fires s =
     (case (kh_live s, kh_deps s) of
        (Some run, Some deps) \<Rightarrow> attempt (the (kd_cache deps)) run (s\<lparr>kh_retry := False\<rparr>)
      | _ \<Rightarrow> (s, []))"

fun hook_step :: "key_hook \<Rightarrow> hook_event \<Rightarrow> hook_result" where
  "hook_step s (HookRenders deps) = hook_renders deps s"
| "hook_step s (AskResolves a key) = ask_resolves a key s"
| "hook_step s (AskRejects a reason) = ask_rejects a reason s"
| "hook_step s RetryFires = retry_fires s"
| "hook_step s HookUnmounts = effect_cleanup (s\<lparr>kh_deps := None\<rparr>)"

text \<open>What a render returns: the outcome, while it is for the pair the render asks for.\<close>

definition key_state :: "string \<Rightarrow> string \<Rightarrow> key_hook \<Rightarrow> string option \<times> string option" where
  "key_state agent service s =
     (case kh_outcome s of
        None \<Rightarrow> (None, None)
      | Some out \<Rightarrow> if mo_agent out = agent \<and> mo_service out = service then (mo_key out, mo_error out) else (None, None))"

text \<open>The cache answers an ask with a key of the service it named (\<open>keys_go_to_their_service\<close>).\<close>

fun hook_enabled :: "(string \<Rightarrow> string \<Rightarrow> string \<Rightarrow> bool) \<Rightarrow> key_hook \<Rightarrow> hook_event \<Rightarrow> bool" where
  "hook_enabled minted s (AskResolves a key) \<longleftrightarrow>
     (case kh_asks s a of None \<Rightarrow> False | Some (r, agent, service) \<Rightarrow> minted agent service key)"
| "hook_enabled minted s (AskRejects a reason) \<longleftrightarrow> kh_asks s a \<noteq> None"
| "hook_enabled minted s RetryFires \<longleftrightarrow> kh_retry s"
| "hook_enabled minted s _ \<longleftrightarrow> True"

definition asking :: "key_hook \<Rightarrow> bool" where
  "asking s \<longleftrightarrow> kh_retry s \<or> (\<exists>a. kh_asks s a \<noteq> None \<and> kh_asks s a = kh_live s)"

definition outcome_minted :: "(string \<Rightarrow> string \<Rightarrow> string \<Rightarrow> bool) \<Rightarrow> key_hook \<Rightarrow> bool" where
  "outcome_minted minted s \<longleftrightarrow>
     (\<forall>out k. kh_outcome s = Some out \<longrightarrow> mo_key out = Some k \<longrightarrow> minted (mo_agent out) (mo_service out) k)"

definition live_ok :: "key_hook \<Rightarrow> bool" where
  "live_ok s \<longleftrightarrow>
     (case kh_deps s of
        None \<Rightarrow> kh_live s = None
      | Some d \<Rightarrow>
          if kd_enabled d \<and> kd_cache d \<noteq> None
          then (\<exists>r. kh_live s = Some (r, kd_agent d, kd_service d)) \<and>
               (asking s \<or> fst (key_state (kd_agent d) (kd_service d) s) \<noteq> None)
          else kh_live s = None)"

definition hook_inv :: "(string \<Rightarrow> string \<Rightarrow> string \<Rightarrow> bool) \<Rightarrow> key_hook \<Rightarrow> bool" where
  "hook_inv minted s \<longleftrightarrow> outcome_minted minted s \<and> live_ok s \<and> (kh_retry s \<longrightarrow> kh_live s \<noteq> None) \<and>
     (\<forall>a r. kh_asks s a = Some r \<longrightarrow> fst r < kh_next s) \<and> (\<forall>r. kh_live s = Some r \<longrightarrow> fst r < kh_next s)"

lemma hook_inv_renders:
  assumes inv: "hook_inv minted s"
  shows "hook_inv minted (fst (hook_renders deps s))"
proof (cases "kh_deps s = Some deps")
  case True
  with inv show ?thesis by (simp add: hook_renders_def)
next
  case False
  have old: "kh_asks s a = Some r \<Longrightarrow> fst r < kh_next s" for a r using inv unfolding hook_inv_def by blast
  note mono = old less_SucI [OF less_SucI [OF old]]
  have "outcome_minted minted s" using inv by (simp add: hook_inv_def)
  then have m: "kh_outcome t = kh_outcome s \<Longrightarrow> outcome_minted minted t" for t by (simp add: outcome_minted_def)
  show ?thesis
    using False mono
    by (auto simp: hook_renders_def effect_cleanup_def run_effect_def attempt_def Let_def hook_inv_def live_ok_def asking_def
        intro!: m split: option.splits bool.splits if_splits)
qed

lemma asking_drop:
  assumes "kh_asks s a \<noteq> kh_live s"
  shows "asking (s\<lparr>kh_asks := (kh_asks s)(a := None)\<rparr>) = asking s"
proof -
  have "x \<noteq> a" if "kh_asks s x = kh_live s" for x using that assms by blast
  then have "((kh_asks s)(a := None)) x \<noteq> None \<and> ((kh_asks s)(a := None)) x = kh_live s \<longleftrightarrow>
      kh_asks s x \<noteq> None \<and> kh_asks s x = kh_live s" for x
    by (cases "x = a") (use assms in auto)
  then show ?thesis by (simp add: asking_def)
qed

lemma hook_inv_step:
  assumes inv: "hook_inv minted s" and en: "hook_enabled minted s e"
  shows "hook_inv minted (fst (hook_step s e))"
proof (cases e)
  case (HookRenders deps)
  with inv show ?thesis by (simp add: hook_inv_renders)
next
  case (AskResolves a key)
  with en obtain r agent service where a: "kh_asks s a = Some (r, agent, service)" and m: "minted agent service key"
    by (auto split: option.splits)
  have live: "live_ok s" using inv by (simp add: hook_inv_def)
  show ?thesis
  proof (cases "kh_live s = Some (r, agent, service)")
    case True
    with inv m a live show ?thesis
      by (auto simp: AskResolves ask_resolves_def Let_def hook_inv_def live_ok_def outcome_minted_def key_state_def
          split: option.splits if_splits)
  next
    case False
    with a have "asking (s\<lparr>kh_asks := (kh_asks s)(a := None)\<rparr>) = asking s" by (intro asking_drop) auto
    with inv a False show ?thesis
      by (auto simp: AskResolves ask_resolves_def Let_def hook_inv_def live_ok_def outcome_minted_def key_state_def
          split: option.splits if_splits)
  qed
next
  case (AskRejects a reason)
  with en obtain r agent service where a: "kh_asks s a = Some (r, agent, service)" by auto
  show ?thesis
  proof (cases "kh_live s = Some (r, agent, service)")
    case True
    with inv a show ?thesis
      by (auto simp: AskRejects ask_rejects_def Let_def hook_inv_def live_ok_def outcome_minted_def asking_def
          split: option.splits if_splits)
  next
    case False
    with a have "asking (s\<lparr>kh_asks := (kh_asks s)(a := None)\<rparr>) = asking s" by (intro asking_drop) auto
    with inv a False show ?thesis
      by (auto simp: AskRejects ask_rejects_def Let_def hook_inv_def live_ok_def outcome_minted_def key_state_def
          split: option.splits if_splits)
  qed
next
  case RetryFires
  with en inv show ?thesis
    by (auto simp: retry_fires_def attempt_def hook_inv_def live_ok_def outcome_minted_def asking_def less_SucI
        split: option.splits if_splits)
next
  case HookUnmounts
  with inv show ?thesis by (auto simp: effect_cleanup_def hook_inv_def live_ok_def outcome_minted_def)
qed

interpretation key_hook: machine hook_step "hook_enabled minted" "hook_inv minted" for minted
  by unfold_locales (rule hook_inv_step)

text \<open>A panel shows a key for its own agent and service only, and one that the cache gave for exactly
  that pair, whatever agents it was switched between; and while it is enabled and shows no key, an ask
  for it is under way or a retry timer runs, however often the mints fail.\<close>

theorem panel_keeps_asking_and_shows_its_own_key:
  assumes "legal_events hook_step (hook_enabled minted) unmounted_hook es"
    and "s = fst (run_events hook_step unmounted_hook es)"
  shows "(case fst (key_state agent service s) of None \<Rightarrow> True | Some k \<Rightarrow> minted agent service k) \<and>
    (case kh_deps s of None \<Rightarrow> True | Some d \<Rightarrow>
       kd_enabled d \<and> kd_cache d \<noteq> None \<and> fst (key_state (kd_agent d) (kd_service d) s) = None \<longrightarrow> asking s)"
proof -
  have "hook_inv minted unmounted_hook"
    by (simp add: hook_inv_def unmounted_hook_def outcome_minted_def live_ok_def)
  from key_hook.run_inv [OF this assms(1)] have "hook_inv minted s" by (simp add: assms(2))
  then show ?thesis
    by (auto simp: hook_inv_def live_ok_def outcome_minted_def key_state_def split: option.splits if_splits)
qed

definition switched_panel :: "hook_event list" where
  "switched_panel =
     [HookRenders \<lparr>kd_agent = ''a'', kd_service = ''dashboard'', kd_cache = Some 0, kd_enabled = True\<rparr>,
      HookRenders \<lparr>kd_agent = ''b'', kd_service = ''dashboard'', kd_cache = Some 0, kd_enabled = True\<rparr>,
      AskResolves 1 ''key of a'', AskRejects 3 ''offline'', RetryFires, AskResolves 4 ''key of b'']"

theorem panel_keeps_asking_and_shows_its_own_key_witness:
  "fst (key_state ''b'' ''dashboard'' (fst (run_events hook_step unmounted_hook switched_panel))) = Some ''key of b'' \<and>
   ''key of b'' = ''key of '' @ ''b''"
proof -
  let ?s = "fst (run_events hook_step unmounted_hook switched_panel)"
  have k: "fst (key_state ''b'' ''dashboard'' ?s) = Some ''key of b''"
    by (simp add: switched_panel_def unmounted_hook_def hook_renders_def effect_cleanup_def run_effect_def attempt_def
        ask_resolves_def ask_rejects_def retry_fires_def key_state_def Let_def)
  have "legal_events hook_step (hook_enabled (\<lambda>agent service key. key = ''key of '' @ agent)) unmounted_hook switched_panel"
    by (simp add: switched_panel_def unmounted_hook_def hook_renders_def effect_cleanup_def run_effect_def attempt_def
        ask_resolves_def ask_rejects_def retry_fires_def Let_def)
  from panel_keeps_asking_and_shows_its_own_key [OF this refl, of "''b''" "''dashboard''"] k show ?thesis by simp
qed

end
