(* ===== verification/SessionStore.thy ===== *)
theory SessionStore
  imports RecentGateways
begin

section \<open>The mobile session and its stores
  (apps/mobile/src/session/SessionProvider.tsx, storage/connection.ts, storage/recent-gateways.ts)\<close>

text \<open>
  The provider's connection (the store its client reads and the React state set beside it are one field),
  its status and its list of remembered gateways, with what SecureStore and AsyncStorage hold: the active
  connection, the index of remembered gateways, and a secret for each of them.  An asynchronous call is a
  task that stands at one await; an event is a call of a screen, the app coming to the foreground, a token
  that has to be refreshed, the background report's own rotation, or the answer a task waits for.  A read
  gives what is stored when it answers; a write that rejects has changed nothing.  What a store holds was
  written by this code, so it parses.  The refresh is the one of \<open>createSession\<close> (\<open>Session\<close>): one at a time, for
  the connection it read when it began.  Ids are the parameter \<open>id_of\<close> of a URL, the clock the parameter
  \<open>now\<close> of the events that touch the list.
\<close>

record gateway_credential =
  gc_connection :: connection_config
  gc_key :: "string option"

type_synonym gateway_index = "unit recent_gateway list"

datatype session_task =
    RestoringConnection
  | ReadingRecents
  | Committing connection_config "string option" bool
  | SaveReading connection_config "string option" bool bool
  | SaveSecret connection_config gateway_credential bool bool
  | SaveIndexing connection_config bool bool
  | SaveIndex gateway_index bool
  | ForgetReading string bool
  | ForgetIndex string gateway_index bool
  | ForgetSecret string gateway_index bool
  | Clearing
  | Adopting "connection_config option"
  | MintingSession "string option"
  | ReadingCredential string
  | ResumingSession gateway_credential
  | RefreshingToken connection_config

record session_store =
  sx_connection :: "connection_config option"
  sx_status :: session_status
  sx_recents :: "gateway_index option"
  sx_tasks :: "session_task list"
  sx_stored :: "connection_config option"
  sx_index :: gateway_index
  sx_secrets :: "string \<Rightarrow> gateway_credential option"

datatype session_answer = CallWent jsnum | CallFailed | SessionGranted connection_config | SessionExpired

datatype session_event =
    ConnectsLink string string
  | ConnectsRecent string
  | Forgets string
  | Disconnects
  | ComesToForeground
  | RefreshesToken
  | BackgroundRotates connection_config
  | TaskAnswers session_task session_answer

datatype session_out =
    ClearQueries
  | MintAt string string
  | RefreshAt connection_config
  | SessionThrows string

definition spawn :: "session_task \<Rightarrow> session_store \<Rightarrow> session_store" where
  "spawn t s = s\<lparr>sx_tasks := sx_tasks s @ [t]\<rparr>"

definition finish :: "session_task \<Rightarrow> session_store \<Rightarrow> session_store" where
  "finish t s = s\<lparr>sx_tasks := remove1 t (sx_tasks s)\<rparr>"

subsection \<open>Remembered gateways (storage/recent-gateways.ts)\<close>

definition read_credential :: "(string \<Rightarrow> string) \<Rightarrow> string \<Rightarrow> session_store \<Rightarrow> gateway_credential option" where
  "read_credential id_of gid s =
     (case sx_secrets s gid of
        None \<Rightarrow> None
      | Some c \<Rightarrow> if id_of (co_url (gc_connection c)) \<noteq> gid then None else Some c)"

definition saved_credential ::
  "(string \<Rightarrow> string) \<Rightarrow> connection_config \<Rightarrow> string option \<Rightarrow> session_store \<Rightarrow> gateway_credential" where
  "saved_credential id_of c key s =
     \<lparr>gc_connection = c,
      gc_key = (case key of
          Some k \<Rightarrow> Some k
        | None \<Rightarrow> Option.bind (read_credential id_of (id_of (co_url c)) s) gc_key)\<rparr>"

definition upsert_index :: "(string \<Rightarrow> string) \<Rightarrow> connection_config \<Rightarrow> bool \<Rightarrow> jsnum \<Rightarrow> gateway_index \<Rightarrow> gateway_index" where
  "upsert_index id_of c touch now gs =
     upsert_gateway id_of gs (co_url c) (nullish (co_hosted c) False) () touch now"

text \<open>\<open>saveRecentGateway\<close>, await by await; a save of the restored session that fails leaves an empty list.\<close>

definition save_failed :: "bool \<Rightarrow> session_store \<Rightarrow> session_store" where
  "save_failed restoring s = (if restoring then s\<lparr>sx_recents := Some []\<rparr> else s)"

definition save_step :: "(string \<Rightarrow> string) \<Rightarrow> session_task \<Rightarrow> jsnum option \<Rightarrow> session_store \<Rightarrow> session_store" where
  "save_step id_of t answer s0 =
     (let s = finish t s0
      in case t of
           SaveReading c key touch restoring \<Rightarrow>
             if answer = None then save_failed restoring s
             else spawn (SaveSecret c (saved_credential id_of c key s) touch restoring) s
         | SaveSecret c credential touch restoring \<Rightarrow>
             if answer = None then save_failed restoring s
             else spawn (SaveIndexing c touch restoring)
                    (s\<lparr>sx_secrets := (sx_secrets s)(id_of (co_url c) \<mapsto> credential)\<rparr>)
         | SaveIndexing c touch restoring \<Rightarrow>
             (case answer of
                None \<Rightarrow> save_failed restoring s
              | Some now \<Rightarrow> spawn (SaveIndex (upsert_index id_of c touch now (sx_index s)) restoring) s)
         | SaveIndex next restoring \<Rightarrow>
             if answer = None then save_failed restoring s
             else s\<lparr>sx_index := next, sx_recents := Some next\<rparr>
         | _ \<Rightarrow> s0)"

text \<open>\<open>forgetRecentGateway\<close>; the flag says it was called for a gateway whose secret is gone, and throws then.\<close>

definition gone_message :: string where
  "gone_message = ''This saved gateway is no longer available.''"

definition forget_step :: "session_task \<Rightarrow> bool \<Rightarrow> session_store \<Rightarrow> session_store \<times> session_out list" where
  "forget_step t ok s0 =
     (let s = finish t s0
      in if \<not> ok then (s, [SessionThrows []])
         else case t of
           ForgetReading gid gone \<Rightarrow> (spawn (ForgetIndex gid (remove_recent_gateway (sx_index s) gid) gone) s, [])
         | ForgetIndex gid next gone \<Rightarrow> (spawn (ForgetSecret gid next gone) (s\<lparr>sx_index := next\<rparr>), [])
         | ForgetSecret gid next gone \<Rightarrow>
             (s\<lparr>sx_secrets := (sx_secrets s)(gid := None), sx_recents := Some next\<rparr>,
              if gone then [SessionThrows gone_message] else [])
         | _ \<Rightarrow> (s0, []))"

subsection \<open>The session\<close>

definition commit_connection ::
  "connection_config \<Rightarrow> string option \<Rightarrow> bool \<Rightarrow> session_store \<Rightarrow> session_store \<times> session_out list" where
  "commit_connection next key touch s =
     (spawn (Committing next key touch) s, if changes_gateway (sx_connection s) next then [ClearQueries] else [])"

definition committed ::
  "connection_config \<Rightarrow> string option \<Rightarrow> bool \<Rightarrow> session_store \<Rightarrow> session_store" where
  "committed next key touch s =
     spawn (SaveReading next key touch False)
       (s\<lparr>sx_stored := Some next, sx_connection := Some next, sx_status := SessionConnected\<rparr>)"

definition disconnect_session :: "session_store \<Rightarrow> session_store \<times> session_out list" where
  "disconnect_session s =
     (spawn Clearing (s\<lparr>sx_connection := None, sx_status := SessionDisconnected\<rparr>), [ClearQueries])"

definition restored :: "connection_config option \<Rightarrow> session_store \<Rightarrow> session_store" where
  "restored stored s =
     (let s' = s\<lparr>sx_connection := stored,
                 sx_status := (if stored = None then SessionDisconnected else SessionConnected)\<rparr>
      in case stored of
           Some c \<Rightarrow> spawn (SaveReading c None False True) s'
         | None \<Rightarrow> spawn ReadingRecents s')"

text \<open>The connection is read before the stored one is awaited.\<close>

definition adopted :: "connection_config option \<Rightarrow> session_store \<Rightarrow> session_store" where
  "adopted current s =
     (case rotated_stored_connection current (sx_stored s) of
        None \<Rightarrow> s
      | Some rotated \<Rightarrow> s\<lparr>sx_connection := Some rotated\<rparr>)"

definition expired_message :: string where
  "expired_message = ''This saved gateway session has expired. Connect to it again.''"

text \<open>\<open>connectRecentGateway\<close> once the credential is read: its key where the gateway is not hosted, else its session.\<close>

definition credential_read :: "string \<Rightarrow> gateway_credential option \<Rightarrow> session_store \<Rightarrow> session_store \<times> session_out list" where
  "credential_read gid credential s =
     (case credential of
        None \<Rightarrow> (spawn (ForgetReading gid True) s, [])
      | Some c \<Rightarrow>
          (case gc_key c of
             Some (k # ks) \<Rightarrow>
               if co_hosted (gc_connection c) \<noteq> Some True
               then (spawn (MintingSession (gc_key c)) s, [MintAt (co_url (gc_connection c)) (k # ks)])
               else if co_refresh_token (gc_connection c) = [] then (s, [SessionThrows expired_message])
               else (spawn (ResumingSession c) s, [RefreshAt (gc_connection c)])
           | _ \<Rightarrow>
               if co_refresh_token (gc_connection c) = [] then (s, [SessionThrows expired_message])
               else (spawn (ResumingSession c) s, [RefreshAt (gc_connection c)])))"

text \<open>The session's refresh (\<open>createSession\<close>): it reads the connection, and an answer is written or signs out,
  whatever the session is connected to by then.\<close>

definition refresh_token :: "session_store \<Rightarrow> session_store \<times> session_out list" where
  "refresh_token s =
     (if \<exists>c \<in> set (sx_tasks s). \<exists>k. c = RefreshingToken k then (s, [])
      else case sx_connection s of
             None \<Rightarrow> (s, [])
           | Some c \<Rightarrow>
               if co_refresh_token c = [] then disconnect_session s
               else (spawn (RefreshingToken c) s, [RefreshAt c]))"

fun session_store_step :: "(string \<Rightarrow> string) \<Rightarrow> session_store \<Rightarrow> session_event \<Rightarrow> session_store \<times> session_out list" where
  "session_store_step id_of s (ConnectsLink url key) = (spawn (MintingSession (Some key)) s, [MintAt url key])"
| "session_store_step id_of s (ConnectsRecent gid) = (spawn (ReadingCredential gid) s, [])"
| "session_store_step id_of s (Forgets gid) = (spawn (ForgetReading gid False) s, [])"
| "session_store_step id_of s Disconnects = disconnect_session s"
| "session_store_step id_of s ComesToForeground = (spawn (Adopting (sx_connection s)) s, [])"
| "session_store_step id_of s RefreshesToken = refresh_token s"
| "session_store_step id_of s (BackgroundRotates c) = (s\<lparr>sx_stored := Some c\<rparr>, [])"
| "session_store_step id_of s (TaskAnswers t answer) =
     (let s' = finish t s
      in case t of
           RestoringConnection \<Rightarrow> (restored (if answer = CallFailed then None else sx_stored s) s', [])
         | ReadingRecents \<Rightarrow> (s'\<lparr>sx_recents := Some (if answer = CallFailed then [] else sx_index s)\<rparr>, [])
         | Committing next key touch \<Rightarrow>
             if answer = CallFailed then (s', [SessionThrows []]) else (committed next key touch s', [])
         | Clearing \<Rightarrow> if answer = CallFailed then (s', [SessionThrows []]) else (s'\<lparr>sx_stored := None\<rparr>, [])
         | Adopting current \<Rightarrow> (if answer = CallFailed then s' else adopted current s', [])
         | MintingSession key \<Rightarrow>
             (case answer of SessionGranted c \<Rightarrow> commit_connection c key True s' | _ \<Rightarrow> (s', [SessionThrows []]))
         | ReadingCredential gid \<Rightarrow>
             if answer = CallFailed then (s', [SessionThrows []]) else credential_read gid (read_credential id_of gid s) s'
         | ResumingSession c \<Rightarrow>
             (case answer of
                SessionGranted k \<Rightarrow> commit_connection k (gc_key c) True s'
              | SessionExpired \<Rightarrow> (s', [SessionThrows expired_message])
              | _ \<Rightarrow> (s', [SessionThrows ''Could not restore this saved gateway session.'']))
         | RefreshingToken c \<Rightarrow>
             (case answer of
                SessionGranted k \<Rightarrow> commit_connection k None False s'
              | SessionExpired \<Rightarrow> disconnect_session s'
              | _ \<Rightarrow> (s', []))
         | ForgetReading gid gone \<Rightarrow> forget_step t (answer \<noteq> CallFailed) s
         | ForgetIndex gid next gone \<Rightarrow> forget_step t (answer \<noteq> CallFailed) s
         | ForgetSecret gid next gone \<Rightarrow> forget_step t (answer \<noteq> CallFailed) s
         | _ \<Rightarrow> (save_step id_of t (case answer of CallWent now \<Rightarrow> Some now | _ \<Rightarrow> None) s, []))"

definition open_session ::
  "connection_config option \<Rightarrow> gateway_index \<Rightarrow> (string \<Rightarrow> gateway_credential option) \<Rightarrow> session_store" where
  "open_session stored index secrets =
     \<lparr>sx_connection = None, sx_status = SessionBooting, sx_recents = None, sx_tasks = [RestoringConnection],
      sx_stored = stored, sx_index = index, sx_secrets = secrets\<rparr>"

text \<open>Which answer a task can get: a session granted for a connection is one of its gateway.\<close>

definition session_enabled :: "session_store \<Rightarrow> session_event \<Rightarrow> bool" where
  "session_enabled s e \<longleftrightarrow>
     (case e of
        TaskAnswers t answer \<Rightarrow>
          t \<in> set (sx_tasks s) \<and>
          (case (t, answer) of
             (RefreshingToken c, SessionGranted k) \<Rightarrow> \<not> changes_gateway (Some c) k
           | (ResumingSession c, SessionGranted k) \<Rightarrow> \<not> changes_gateway (Some (gc_connection c)) k
           | (MintingSession key, SessionGranted k) \<Rightarrow> True
           | (_, SessionGranted k) \<Rightarrow> False
           | _ \<Rightarrow> True)
      | BackgroundRotates c \<Rightarrow> sx_stored s \<noteq> None \<and> \<not> changes_gateway (sx_stored s) c
      | _ \<Rightarrow> True)"

lemma task_fields [simp]:
  "sx_connection (spawn t s) = sx_connection s" "sx_connection (finish t s) = sx_connection s"
  "sx_stored (spawn t s) = sx_stored s" "sx_stored (finish t s) = sx_stored s"
  "sx_index (spawn t s) = sx_index s" "sx_index (finish t s) = sx_index s"
  "sx_secrets (spawn t s) = sx_secrets s" "sx_secrets (finish t s) = sx_secrets s"
  "sx_tasks (spawn t s) = sx_tasks s @ [t]" "sx_tasks (finish t s) = remove1 t (sx_tasks s)"
  by (simp_all add: spawn_def finish_def)

subsection \<open>Every remembered gateway has its secret\<close>

definition is_storing :: "session_task \<Rightarrow> bool" where
  "is_storing t \<longleftrightarrow>
     (case t of
        SaveReading c k b r \<Rightarrow> True | SaveSecret c g b r \<Rightarrow> True | SaveIndexing c b r \<Rightarrow> True | SaveIndex n r \<Rightarrow> True
      | ForgetReading i g \<Rightarrow> True | ForgetIndex i n g \<Rightarrow> True | ForgetSecret i n g \<Rightarrow> True | _ \<Rightarrow> False)"

definition storing :: "session_store \<Rightarrow> session_task list" where
  "storing s = filter is_storing (sx_tasks s)"

text \<open>The events that start to change what is remembered; one at a time, each waits for the one before.\<close>

definition starts_storing :: "session_event \<Rightarrow> bool" where
  "starts_storing e \<longleftrightarrow>
     (case e of
        Forgets gid \<Rightarrow> True
      | TaskAnswers (Committing c k b) answer \<Rightarrow> True
      | TaskAnswers RestoringConnection answer \<Rightarrow> True
      | TaskAnswers (ReadingCredential gid) answer \<Rightarrow> True
      | _ \<Rightarrow> False)"

definition one_store_at_a_time :: "session_store \<Rightarrow> session_event \<Rightarrow> bool" where
  "one_store_at_a_time s e \<longleftrightarrow> session_enabled s e \<and> (starts_storing e \<longrightarrow> storing s = [])"

definition has_secret :: "(string \<Rightarrow> string) \<Rightarrow> session_store \<Rightarrow> string \<Rightarrow> bool" where
  "has_secret id_of s gid \<longleftrightarrow> read_credential id_of gid s \<noteq> None"

definition all_secret :: "(string \<Rightarrow> string) \<Rightarrow> session_store \<Rightarrow> gateway_index \<Rightarrow> bool" where
  "all_secret id_of s gs \<longleftrightarrow> (\<forall>g \<in> set gs. has_secret id_of s (rg_id g))"

definition storing_ok :: "(string \<Rightarrow> string) \<Rightarrow> session_store \<Rightarrow> session_task \<Rightarrow> bool" where
  "storing_ok id_of s t \<longleftrightarrow>
     (case t of
        SaveSecret c credential b r \<Rightarrow> gc_connection credential = c
      | SaveIndexing c b r \<Rightarrow> has_secret id_of s (id_of (co_url c))
      | SaveIndex next r \<Rightarrow> all_secret id_of s next
      | ForgetIndex gid next g \<Rightarrow> all_secret id_of s next \<and> gid \<notin> rg_id ` set next
      | ForgetSecret gid next g \<Rightarrow> gid \<notin> rg_id ` set (sx_index s)
      | _ \<Rightarrow> True)"

definition secrets_inv :: "(string \<Rightarrow> string) \<Rightarrow> session_store \<Rightarrow> bool" where
  "secrets_inv id_of s \<longleftrightarrow>
     all_secret id_of s (sx_index s) \<and> length (storing s) \<le> 1 \<and> (\<forall>t \<in> set (storing s). storing_ok id_of s t)"

lemma upsert_ids: "g \<in> set (upsert_gateway id_of gs url h c touch now) \<Longrightarrow> rg_id g = id_of url \<or> g \<in> set gs"
  by (auto simp: upsert_gateway_def Let_def split: option.splits if_splits)

lemma storing_at:
  assumes "t \<in> set (sx_tasks s)" "length (storing s) \<le> 1"
  shows "is_storing t \<Longrightarrow> storing s = [t] \<and> storing (finish t s) = []"
    "\<not> is_storing t \<Longrightarrow> storing (finish t s) = storing s"
proof -
  have r: "storing (finish t s) = remove1 t (storing s)" by (simp add: storing_def filter_remove1)
  have "t \<in> set (storing s)" if "is_storing t" using assms(1) that by (simp add: storing_def)
  then show "is_storing t \<Longrightarrow> storing s = [t] \<and> storing (finish t s) = []"
    using assms(2) by (cases "storing s") (auto simp: r)
  show "\<not> is_storing t \<Longrightarrow> storing (finish t s) = storing s"
    unfolding r by (rule remove1_idem) (simp add: storing_def)
qed

lemma storing_spawn [simp]: "storing (spawn t s) = storing s @ (if is_storing t then [t] else [])"
  by (simp add: storing_def)

lemma secret_cong:
  assumes "sx_secrets s' = sx_secrets s"
  shows "has_secret id_of s' = has_secret id_of s" "all_secret id_of s' = all_secret id_of s"
  using assms by (auto simp: has_secret_def read_credential_def all_secret_def fun_eq_iff)

lemma secrets_same:
  assumes "secrets_inv id_of s" "sx_secrets s' = sx_secrets s" "sx_index s' = sx_index s" "storing s' = storing s"
  shows "secrets_inv id_of s'"
proof -
  have "storing_ok id_of s' = storing_ok id_of s"
    unfolding storing_ok_def secret_cong [OF assms(2)] assms(3) by (rule refl)
  with assms show ?thesis unfolding secrets_inv_def secret_cong [OF assms(2)] by simp
qed

lemma secrets_one:
  assumes "all_secret id_of s (sx_index s)" "storing s = ts" "length ts \<le> 1" "\<forall>t \<in> set ts. storing_ok id_of s t"
  shows "secrets_inv id_of s"
  using assms by (simp add: secrets_inv_def)

lemma save_keeps:
  assumes inv: "secrets_inv id_of s" and t: "t \<in> set (sx_tasks s)" "is_storing t"
    "\<exists>c k b r cr n. t = SaveReading c k b r \<or> t = SaveSecret c cr b r \<or> t = SaveIndexing c b r \<or> t = SaveIndex n r"
  shows "secrets_inv id_of (save_step id_of t answer s)"
proof -
  let ?s = "finish t s"
  from inv have i: "all_secret id_of s (sx_index s)" "length (storing s) \<le> 1" by (simp_all add: secrets_inv_def)
  note at = storing_at(1) [OF t(1) i(2) t(2)]
  with inv have ok: "storing_ok id_of s t" by (simp add: secrets_inv_def)
  have sec: "has_secret id_of ?s = has_secret id_of s" "all_secret id_of ?s = all_secret id_of s"
    by (rule secret_cong, simp)+
  have quit: "secrets_inv id_of ?s" by (rule secrets_one [of _ _ "[]"]) (use i at in \<open>simp_all add: sec\<close>)
  have failed: "secrets_inv id_of (save_failed r ?s)" for r
    by (rule secrets_same [OF quit]) (simp_all add: save_failed_def storing_def)
  have go: "secrets_inv id_of (spawn u ?s)" if "is_storing u" "storing_ok id_of s u" for u
  proof (rule secrets_one [of _ _ "[u]"])
    have "has_secret id_of (spawn u ?s) = has_secret id_of s" "all_secret id_of (spawn u ?s) = all_secret id_of s"
      by (rule secret_cong, simp)+
    then show "all_secret id_of (spawn u ?s) (sx_index (spawn u ?s))" "\<forall>t \<in> set [u]. storing_ok id_of (spawn u ?s) t"
      using i that(2) by (simp_all add: storing_ok_def split: session_task.splits)
  qed (use at that(1) in simp_all)
  from t(3) show ?thesis
  proof (elim exE disjE)
    fix c k b r assume "t = SaveReading c k b r"
    with failed go [of "SaveSecret c (saved_credential id_of c k ?s) b r"] show ?thesis
      by (simp add: save_step_def Let_def is_storing_def storing_ok_def saved_credential_def)
  next
    fix c b r cr assume e: "t = SaveSecret c cr b r"
    let ?u = "?s\<lparr>sx_secrets := (sx_secrets ?s)(id_of (co_url c) \<mapsto> cr)\<rparr>"
    let ?n = "spawn (SaveIndexing c b r) ?u"
    from ok e have cr: "gc_connection cr = c" by (simp add: storing_ok_def)
    have keep: "has_secret id_of ?n g" if "has_secret id_of s g \<or> g = id_of (co_url c)" for g
      using that cr by (auto simp: has_secret_def read_credential_def spawn_def finish_def split: option.splits if_splits)
    have "secrets_inv id_of ?n"
    proof (rule secrets_one [of _ _ "[SaveIndexing c b r]"])
      show "all_secret id_of ?n (sx_index ?n)" using i(1) keep by (simp add: all_secret_def)
      show "storing ?n = [SaveIndexing c b r]" using at by (simp add: storing_def is_storing_def spawn_def finish_def)
    qed (use keep in \<open>simp_all add: storing_ok_def\<close>)
    with failed show ?thesis by (simp add: e save_step_def Let_def)
  next
    fix c b r assume e: "t = SaveIndexing c b r"
    have "all_secret id_of s (upsert_index id_of c b now (sx_index s))" for now
      using i(1) ok e by (auto simp: all_secret_def upsert_index_def storing_ok_def dest!: upsert_ids)
    with failed go show ?thesis
      by (auto simp: e save_step_def Let_def is_storing_def storing_ok_def split: option.split)
  next
    fix n r assume e: "t = SaveIndex n r"
    have "secrets_inv id_of (?s\<lparr>sx_index := n, sx_recents := Some n\<rparr>)"
    proof (rule secrets_one [of _ _ "[]"])
      have "all_secret id_of (?s\<lparr>sx_index := n, sx_recents := Some n\<rparr>) = all_secret id_of s" by (rule secret_cong) simp
      then show "all_secret id_of (?s\<lparr>sx_index := n, sx_recents := Some n\<rparr>) (sx_index (?s\<lparr>sx_index := n, sx_recents := Some n\<rparr>))"
        using ok e by (simp add: storing_ok_def)
    qed (use at in \<open>simp_all add: storing_def\<close>)
    with failed show ?thesis by (simp add: e save_step_def Let_def)
  qed
qed

lemma forget_keeps:
  assumes inv: "secrets_inv id_of s" and t: "t \<in> set (sx_tasks s)"
    "\<exists>i g n. t = ForgetReading i g \<or> t = ForgetIndex i n g \<or> t = ForgetSecret i n g"
  shows "secrets_inv id_of (fst (forget_step t ok s))"
proof -
  let ?s = "finish t s"
  from inv have i: "all_secret id_of s (sx_index s)" "length (storing s) \<le> 1" by (simp_all add: secrets_inv_def)
  have "is_storing t" using t(2) by (auto simp: is_storing_def)
  note at = storing_at(1) [OF t(1) i(2) this]
  with inv have tok: "storing_ok id_of s t" by (simp add: secrets_inv_def)
  have sec: "all_secret id_of ?s = all_secret id_of s" by (rule secret_cong) simp
  have quit: "secrets_inv id_of ?s" by (rule secrets_one [of _ _ "[]"]) (use i at in \<open>simp_all add: sec\<close>)
  from t(2) show ?thesis
  proof (elim exE disjE)
    fix gid g assume e: "t = ForgetReading gid g"
    let ?u = "ForgetIndex gid (remove_recent_gateway (sx_index s) gid) g"
    have left: "all_secret id_of s (remove_recent_gateway (sx_index s) gid) \<and> gid \<notin> rg_id ` set (remove_recent_gateway (sx_index s) gid)"
      using i(1) by (auto simp: all_secret_def remove_recent_gateway_def)
    have "secrets_inv id_of (spawn ?u ?s)"
    proof (rule secrets_one [of _ _ "[?u]"])
      have a: "all_secret id_of (spawn ?u ?s) = all_secret id_of s" by (rule secret_cong) simp
      then show "all_secret id_of (spawn ?u ?s) (sx_index (spawn ?u ?s))" using i by simp
      show "\<forall>t \<in> set [?u]. storing_ok id_of (spawn ?u ?s) t"
        using left by (simp add: storing_ok_def a)
    qed (use at in \<open>simp_all add: is_storing_def\<close>)
    with quit show ?thesis by (simp add: e forget_step_def Let_def)
  next
    fix gid n g assume e: "t = ForgetIndex gid n g"
    let ?u = "spawn (ForgetSecret gid n g) (?s\<lparr>sx_index := n\<rparr>)"
    have "secrets_inv id_of ?u"
    proof (rule secrets_one [of _ _ "[ForgetSecret gid n g]"])
      have "all_secret id_of ?u = all_secret id_of s" by (rule secret_cong) simp
      then show "all_secret id_of ?u (sx_index ?u)" using tok e by (simp add: storing_ok_def)
      show "storing ?u = [ForgetSecret gid n g]" using at by (simp add: storing_def is_storing_def)
      show "\<forall>t \<in> set [ForgetSecret gid n g]. storing_ok id_of ?u t" using tok e by (simp add: storing_ok_def)
    qed simp
    with quit show ?thesis by (simp add: e forget_step_def Let_def)
  next
    fix gid n g assume e: "t = ForgetSecret gid n g"
    let ?u = "?s\<lparr>sx_secrets := (sx_secrets ?s)(gid := None), sx_recents := Some n\<rparr>"
    have "secrets_inv id_of ?u"
    proof (rule secrets_one [of _ _ "[]"])
      have "has_secret id_of ?u h" if "has_secret id_of s h" "h \<noteq> gid" for h
        using that by (simp add: has_secret_def read_credential_def)
      with i(1) tok e show "all_secret id_of ?u (sx_index ?u)" by (auto simp: all_secret_def storing_ok_def)
    qed (use at in \<open>simp_all add: storing_def\<close>)
    with quit show ?thesis by (simp add: e forget_step_def Let_def)
  qed
qed

lemma session_changes:
  "storing (fst (disconnect_session s)) = storing s" "sx_secrets (fst (disconnect_session s)) = sx_secrets s"
  "sx_index (fst (disconnect_session s)) = sx_index s"
  "storing (fst (commit_connection c k b s)) = storing s" "sx_secrets (fst (commit_connection c k b s)) = sx_secrets s"
  "sx_index (fst (commit_connection c k b s)) = sx_index s"
  "storing (fst (refresh_token s)) = storing s" "sx_secrets (fst (refresh_token s)) = sx_secrets s"
  "sx_index (fst (refresh_token s)) = sx_index s"
  "storing (adopted current s) = storing s" "sx_secrets (adopted current s) = sx_secrets s" "sx_index (adopted current s) = sx_index s"
  by (auto simp: disconnect_session_def commit_connection_def refresh_token_def adopted_def storing_def is_storing_def
      split: option.split)

lemma secrets_step:
  assumes inv: "secrets_inv id_of s" and en: "one_store_at_a_time s e"
  shows "secrets_inv id_of (fst (session_store_step id_of s e))"
proof -
  from inv have i: "all_secret id_of s (sx_index s)" "length (storing s) \<le> 1" by (simp_all add: secrets_inv_def)
  have starts: "secrets_inv id_of (spawn u s')"
    if "sx_secrets s' = sx_secrets s" "sx_index s' = sx_index s" "storing s' = []" "storing_ok id_of (spawn u s') u" for u s'
  proof (rule secrets_one [of _ _ "if is_storing u then [u] else []"])
    have "all_secret id_of (spawn u s') = all_secret id_of s" using that(1) by (intro secret_cong) simp
    then show "all_secret id_of (spawn u s') (sx_index (spawn u s'))" using i(1) that(2) by simp
  qed (use that(3,4) in auto)
  show ?thesis
  proof (cases e)
    case (Forgets gid)
    with en have "storing s = []" by (simp add: one_store_at_a_time_def starts_storing_def)
    then have "secrets_inv id_of (spawn (ForgetReading gid False) s)" by (intro starts) (simp_all add: storing_ok_def)
    with Forgets show ?thesis by simp
  next
    case (TaskAnswers t answer)
    with en have t: "t \<in> set (sx_tasks s)" by (simp add: one_store_at_a_time_def session_enabled_def)
    show ?thesis
    proof (cases "is_storing t")
      case True
      then show ?thesis using save_keeps [OF inv t True] forget_keeps [OF inv t]
        by (cases t) (auto simp: TaskAnswers is_storing_def Let_def)
    next
      case False
      let ?s = "finish t s"
      note keep = storing_at(2) [OF t i(2) False]
      have same: "secrets_inv id_of s'" if "sx_secrets s' = sx_secrets s" "sx_index s' = sx_index s" "storing s' = storing ?s" for s'
        using secrets_same [OF inv that(1,2)] that(3) keep by simp
      have e: "storing s = []" if "starts_storing (TaskAnswers t answer)"
        using en that by (simp add: TaskAnswers one_store_at_a_time_def)
      have commits: "secrets_inv id_of (committed c k b ?s)" if "storing s = []" for c k b
        unfolding committed_def by (rule starts) (use that keep in \<open>simp_all add: storing_def is_storing_def storing_ok_def\<close>)
      have restores: "secrets_inv id_of (restored c ?s)" if "storing s = []" for c
        unfolding restored_def Let_def
        by (cases c) (use that keep in \<open>auto simp: storing_def is_storing_def storing_ok_def intro!: starts\<close>)
      have reads: "secrets_inv id_of (fst (credential_read gid c ?s))" if "storing s = []" for gid c
      proof -
        have "secrets_inv id_of (spawn (ForgetReading gid True) ?s)" using that keep by (intro starts) (auto simp: storing_ok_def)
        moreover have "secrets_inv id_of (spawn u ?s)" if "\<not> is_storing u" for u using that by (intro same) simp_all
        moreover have "secrets_inv id_of ?s" by (rule same) simp_all
        ultimately show ?thesis by (auto simp: credential_read_def is_storing_def split: option.split list.split)
      qed
      have plain: "secrets_inv id_of ?s" by (rule same) simp_all
      have fields: "secrets_inv id_of (?s\<lparr>sx_recents := r\<rparr>)" "secrets_inv id_of (?s\<lparr>sx_stored := st\<rparr>)" for r st
        by (rule same; simp add: storing_def)+
      have others: "secrets_inv id_of (adopted cur ?s)" "secrets_inv id_of (fst (commit_connection c k b ?s))"
        "secrets_inv id_of (fst (disconnect_session ?s))" for cur c k b
        by (rule same; simp add: session_changes)+
      show ?thesis
        using False e commits restores reads plain fields others
        by (cases t) (auto simp: TaskAnswers is_storing_def starts_storing_def Let_def split: session_answer.split)
    qed
  next
    case (BackgroundRotates c)
    show ?thesis unfolding BackgroundRotates session_store_step.simps fst_conv
      by (rule secrets_same [OF inv]) (simp_all add: storing_def)
  qed (use secrets_same [OF inv] in \<open>auto simp: session_changes is_storing_def\<close>)
qed

interpretation secrets: machine "session_store_step id_of" one_store_at_a_time "secrets_inv id_of" for id_of
  by unfold_locales (rule secrets_step)

text \<open>C15: Every gateway on the list can be connected to again: its secret is stored, and is its own, at every point
  of every save and forget, whichever of their writes fail or never happen because the app is closed, as
  long as one of them runs at a time.\<close>

theorem every_remembered_gateway_has_its_secret:
  assumes "legal_events (session_store_step id_of) one_store_at_a_time (open_session stored index secrets) es"
    "s = fst (run_events (session_store_step id_of) (open_session stored index secrets) es)"
    "\<forall>g \<in> set index. read_credential id_of (rg_id g) (open_session stored index secrets) \<noteq> None" "g \<in> set (sx_index s)"
  shows "read_credential id_of (rg_id g) s \<noteq> None"
proof -
  have "secrets_inv id_of (open_session stored index secrets)"
    using assms(3) by (simp add: secrets_inv_def all_secret_def has_secret_def open_session_def storing_def is_storing_def)
  from secrets.run_inv [OF this assms(1)] assms(4) show ?thesis
    by (simp add: assms(2) secrets_inv_def all_secret_def has_secret_def)
qed

definition home_gateway :: connection_config where
  "home_gateway = \<lparr>co_url = ''a'', co_access_token = ''x'', co_refresh_token = ''y'', co_hosted = None\<rparr>"

definition other_gateway :: connection_config where
  "other_gateway = home_gateway\<lparr>co_url := ''b''\<rparr>"

definition saved_home :: "unit recent_gateway" where
  "saved_home = \<lparr>rg_id = ''a'', rg_url = ''a'', rg_hosted = False, rg_last = 1, rg_connection = ()\<rparr>"

definition home_secret :: "string \<Rightarrow> gateway_credential option" where
  "home_secret = (\<lambda>i. None)(''a'' := Some \<lparr>gc_connection = home_gateway, gc_key = None\<rparr>)"

lemma every_remembered_gateway_has_its_secret_witness:
  "read_credential id ''a'' (fst (run_events (session_store_step id) (open_session None [saved_home] home_secret)
     [TaskAnswers RestoringConnection (CallWent 1), Forgets ''c'', TaskAnswers (ForgetReading ''c'' False) CallFailed])) \<noteq> None"
  using every_remembered_gateway_has_its_secret [of id None "[saved_home]" home_secret
      "[TaskAnswers RestoringConnection (CallWent 1), Forgets ''c'', TaskAnswers (ForgetReading ''c'' False) CallFailed]" _ saved_home]
  by (simp add: open_session_def saved_home_def home_secret_def home_gateway_def read_credential_def one_store_at_a_time_def
      session_enabled_def starts_storing_def restored_def forget_step_def spawn_def finish_def storing_def is_storing_def Let_def)

subsection \<open>What is stored is the connected gateway's session\<close>

definition is_moving :: "session_task \<Rightarrow> bool" where
  "is_moving t \<longleftrightarrow>
     (case t of
        RestoringConnection \<Rightarrow> True | Committing c k b \<Rightarrow> True | Clearing \<Rightarrow> True | MintingSession k \<Rightarrow> True
      | ReadingCredential i \<Rightarrow> True | ResumingSession c \<Rightarrow> True | RefreshingToken c \<Rightarrow> True
      | Adopting c \<Rightarrow> True | _ \<Rightarrow> False)"

definition moving :: "session_store \<Rightarrow> session_task list" where
  "moving s = filter is_moving (sx_tasks s)"

definition starts_moving :: "session_event \<Rightarrow> bool" where
  "starts_moving e \<longleftrightarrow>
     (case e of
        ConnectsLink u k \<Rightarrow> True | ConnectsRecent i \<Rightarrow> True | Disconnects \<Rightarrow> True | RefreshesToken \<Rightarrow> True
      | BackgroundRotates c \<Rightarrow> True | ComesToForeground \<Rightarrow> True | _ \<Rightarrow> False)"

text \<open>Nothing moves the session while something else does: no connect, disconnect, refresh or adoption begins, and no
  background rotation is stored, before the last one is through.\<close>

definition one_move_at_a_time :: "session_store \<Rightarrow> session_event \<Rightarrow> bool" where
  "one_move_at_a_time s e \<longleftrightarrow> session_enabled s e \<and> (starts_moving e \<longrightarrow> moving s = [])"

definition stored_is_connected :: "session_store \<Rightarrow> bool" where
  "stored_is_connected s \<longleftrightarrow>
     (\<forall>c. sx_connection s = Some c \<longrightarrow> (\<exists>st. sx_stored s = Some st \<and> \<not> changes_gateway (Some c) st))"

definition move_inv :: "session_store \<Rightarrow> bool" where
  "move_inv s \<longleftrightarrow> stored_is_connected s \<and> length (moving s) \<le> 1 \<and> (Clearing \<in> set (moving s) \<longrightarrow> sx_connection s = None) \<and>
     (\<forall>current. Adopting current \<in> set (moving s) \<longrightarrow> current = sx_connection s)"

lemma same_gateway [simp]: "\<not> changes_gateway (Some c) c"
  by (simp add: changes_gateway_def)

lemma same_gateway_trans: "\<not> changes_gateway (Some a) b \<Longrightarrow> \<not> changes_gateway (Some b) c \<Longrightarrow> \<not> changes_gateway (Some a) c"
  by (simp add: changes_gateway_def)

lemma moving_at:
  assumes "t \<in> set (sx_tasks s)" "length (moving s) \<le> 1"
  shows "is_moving t \<Longrightarrow> moving (finish t s) = []" "\<not> is_moving t \<Longrightarrow> moving (finish t s) = moving s"
proof -
  have r: "moving (finish t s) = remove1 t (moving s)" by (simp add: moving_def filter_remove1)
  have "t \<in> set (moving s)" if "is_moving t" using assms(1) that by (simp add: moving_def)
  then show "is_moving t \<Longrightarrow> moving (finish t s) = []" using assms(2) by (cases "moving s") (auto simp: r)
  show "\<not> is_moving t \<Longrightarrow> moving (finish t s) = moving s" unfolding r by (rule remove1_idem) (simp add: moving_def)
qed

lemma move_same:
  assumes "move_inv s" "sx_connection s' = sx_connection s" "sx_stored s' = sx_stored s" "moving s' = moving s"
  shows "move_inv s'"
  using assms by (simp add: move_inv_def stored_is_connected_def)

lemma move_idle:
  "stored_is_connected s \<Longrightarrow> moving s = [] \<Longrightarrow> move_inv s"
  by (simp add: move_inv_def)

lemma moving_spawn [simp]: "moving (spawn t s) = moving s @ (if is_moving t then [t] else [])"
  by (simp add: moving_def)

lemma moving_fields [simp]:
  "moving (s\<lparr>sx_recents := l\<rparr>) = moving s" "moving (s\<lparr>sx_index := n\<rparr>) = moving s" "moving (s\<lparr>sx_secrets := f\<rparr>) = moving s"
  "moving (s\<lparr>sx_connection := c\<rparr>) = moving s" "moving (s\<lparr>sx_status := st\<rparr>) = moving s" "moving (s\<lparr>sx_stored := so\<rparr>) = moving s"
  by (simp_all add: moving_def)

lemma move_spawn:
  "stored_is_connected s \<Longrightarrow> moving s = [] \<Longrightarrow> (t = Clearing \<Longrightarrow> sx_connection s = None) \<Longrightarrow>
     (\<And>current. t = Adopting current \<Longrightarrow> current = sx_connection s) \<Longrightarrow> move_inv (spawn t s)"
  by (auto simp: move_inv_def stored_is_connected_def)

lemma store_steps_stay:
  assumes "is_storing t"
  shows "sx_connection (save_step id_of t a s) = sx_connection s" "sx_stored (save_step id_of t a s) = sx_stored s"
    "moving (save_step id_of t a s) = moving s"
    "sx_connection (fst (forget_step t b s)) = sx_connection s" "sx_stored (fst (forget_step t b s)) = sx_stored s"
    "moving (fst (forget_step t b s)) = moving s"
proof -
  have r: "moving (finish t s) = moving s"
    using assms by (cases t) (simp_all add: moving_def filter_remove1 is_storing_def is_moving_def remove1_idem)
  show "sx_connection (save_step id_of t a s) = sx_connection s" "sx_stored (save_step id_of t a s) = sx_stored s"
    "moving (save_step id_of t a s) = moving s"
    using r by (cases t; auto simp: save_step_def save_failed_def Let_def is_moving_def split: option.split)+
  show "sx_connection (fst (forget_step t b s)) = sx_connection s" "sx_stored (fst (forget_step t b s)) = sx_stored s"
    "moving (fst (forget_step t b s)) = moving s"
    using r by (cases t; auto simp: forget_step_def Let_def is_moving_def)+
qed

lemma move_step:
  assumes inv: "move_inv s" and en: "one_move_at_a_time s e"
  shows "move_inv (fst (session_store_step id_of s e))"
proof -
  from inv have i: "stored_is_connected s" "length (moving s) \<le> 1" by (simp_all add: move_inv_def)
  have ends: "move_inv (fst (disconnect_session s'))" if "moving s' = []" for s'
  proof -
    have "moving (s'\<lparr>sx_connection := None, sx_status := SessionDisconnected\<rparr>) = []" using that by (simp add: moving_def)
    then show ?thesis unfolding disconnect_session_def fst_conv
      by (intro move_spawn) (simp_all add: stored_is_connected_def)
  qed
  have begins: "move_inv (fst (commit_connection c k b s'))" if "moving s' = []" "stored_is_connected s'" for c k b s'
    unfolding commit_connection_def fst_conv by (rule move_spawn) (use that in simp_all)
  show ?thesis
  proof (cases e)
    case (TaskAnswers t answer)
    with en have t: "t \<in> set (sx_tasks s)" by (simp add: one_move_at_a_time_def session_enabled_def)
    let ?s = "finish t s"
    have c: "stored_is_connected ?s" using i(1) by (simp add: stored_is_connected_def)
    show ?thesis
    proof (cases "is_moving t")
      case True
      then have m: "moving ?s = []" by (rule moving_at(1) [OF t i(2)])
      have none: "t = Clearing \<Longrightarrow> sx_connection s = None" using inv t by (auto simp: move_inv_def moving_def is_moving_def)
      have r: "move_inv (restored st ?s)" if "st = None \<or> st = sx_stored s" for st
        using that m by (cases st) (auto simp: restored_def Let_def move_inv_def stored_is_connected_def is_moving_def)
      have cm: "move_inv (committed n k b ?s)" for n k b
        using m by (simp add: committed_def move_inv_def stored_is_connected_def is_moving_def)
      have cr: "move_inv (fst (credential_read gid cc ?s))" for gid cc
        using move_idle [OF c m] move_spawn [OF c m] by (auto simp: credential_read_def split: option.split list.split)
      have cl: "move_inv (?s\<lparr>sx_stored := None\<rparr>)" if "t = Clearing"
        using none [OF that] m by (intro move_idle) (simp_all add: stored_is_connected_def moving_def)
      have ad: "move_inv (adopted current ?s)" if "t = Adopting current" for current
      proof -
        have "current = sx_connection s" using inv t that by (auto simp: move_inv_def moving_def is_moving_def)
        with move_idle [OF c m] m show ?thesis
          by (auto simp: adopted_def rotated_stored_connection_def stored_is_connected_def intro!: move_idle split: option.split)
      qed
      show ?thesis using True move_idle [OF c m] r cm cr cl ad begins [OF m c] ends [OF m]
        by (cases t) (auto simp: TaskAnswers is_moving_def Let_def split: session_answer.split)
    next
      case False
      note m = moving_at(2) [OF t i(2) False]
      have same: "move_inv s'" if "sx_connection s' = sx_connection s" "sx_stored s' = sx_stored s" "moving s' = moving ?s" for s'
        using move_same [OF inv that(1,2)] that(3) m by simp
      have plain: "move_inv ?s" "move_inv (?s\<lparr>sx_recents := r\<rparr>)" for r by (rule same; simp add: moving_def)+
      have st: "move_inv (save_step id_of t a s)" "move_inv (fst (forget_step t b s))" if "is_storing t" for a b
        by (rule move_same [OF inv]; simp add: store_steps_stay [OF that])+
      show ?thesis using False plain st
        by (cases t) (auto simp: TaskAnswers is_moving_def is_storing_def Let_def)
    qed
  next
    case Disconnects
    with en ends [of s] show ?thesis by (simp add: one_move_at_a_time_def starts_moving_def)
  next
    case RefreshesToken
    with en have m: "moving s = []" by (simp add: one_move_at_a_time_def starts_moving_def)
    show ?thesis using inv ends [OF m] move_spawn [OF i(1) m]
      by (auto simp: RefreshesToken refresh_token_def split: option.split)
  next
    case (BackgroundRotates c)
    with en have st: "\<not> changes_gateway (sx_stored s) c" "sx_stored s \<noteq> None" "moving s = []"
      by (simp_all add: one_move_at_a_time_def session_enabled_def starts_moving_def)
    have "stored_is_connected (s\<lparr>sx_stored := Some c\<rparr>)"
      using i(1) st(1,2) by (auto simp: stored_is_connected_def dest: same_gateway_trans)
    then show ?thesis using st(3) by (simp add: BackgroundRotates move_idle moving_def)
  next
    case (ConnectsLink url key)
    with en have m: "moving s = []" by (simp add: one_move_at_a_time_def starts_moving_def)
    then have "move_inv (spawn (MintingSession k) s)" "move_inv (spawn (ReadingCredential g) s)" for k g
      by (rule move_spawn [OF i(1)]; simp)+
    with m show ?thesis by (simp add: ConnectsLink)
  next
    case (ConnectsRecent gid)
    with en have m: "moving s = []" by (simp add: one_move_at_a_time_def starts_moving_def)
    then have "move_inv (spawn (MintingSession k) s)" "move_inv (spawn (ReadingCredential g) s)" for k g
      by (rule move_spawn [OF i(1)]; simp)+
    with m show ?thesis by (simp add: ConnectsRecent)
  next
    case ComesToForeground
    with en i(1) show ?thesis by (auto simp: one_move_at_a_time_def starts_moving_def intro: move_spawn)
  qed (use move_same [OF inv] in \<open>simp_all add: is_moving_def\<close>)
qed

interpretation moves: machine "session_store_step id_of" one_move_at_a_time move_inv for id_of
  by unfold_locales (rule move_step)

text \<open>C20: As long as no connect, disconnect, refresh or adoption begins, and no background rotation is stored, before the
  last of them is through, a session that is connected is stored: what a relaunch would restore is a session of the
  very gateway the app shows, whichever of the calls fail; and when the app that came back gets its answer, it holds
  the refresh token that is stored, which may be one a background rotation left there.\<close>

theorem connected_session_is_stored:
  assumes "legal_events (session_store_step id_of) one_move_at_a_time (open_session stored index secrets) es"
    "s = fst (run_events (session_store_step id_of) (open_session stored index secrets) es)"
    "sx_connection s = Some c"
  shows "\<exists>st. sx_stored s = Some st \<and> co_url st = co_url c \<and> co_hosted st = co_hosted c \<and>
    (Adopting current \<in> set (sx_tasks s) \<longrightarrow>
     map_option co_refresh_token (sx_connection (fst (session_store_step id_of s (TaskAnswers (Adopting current) (CallWent n))))) =
       Some (co_refresh_token st))"
proof -
  have "move_inv (open_session stored index secrets)"
    by (simp add: move_inv_def stored_is_connected_def open_session_def moving_def is_moving_def)
  then have inv: "move_inv s" unfolding assms(2) by (rule moves.run_inv [OF _ assms(1)])
  then obtain st where st: "sx_stored s = Some st" "\<not> changes_gateway (Some c) st"
    using assms(3) by (auto simp: move_inv_def stored_is_connected_def)
  have "map_option co_refresh_token (sx_connection (adopted current (finish (Adopting current) s))) = Some (co_refresh_token st)"
    if "Adopting current \<in> set (sx_tasks s)"
  proof -
    have "current = Some c" using inv that assms(3) by (auto simp: move_inv_def moving_def is_moving_def)
    with st assms(3) show ?thesis by (simp add: adopted_def rotated_stored_connection_def)
  qed
  with st show ?thesis by (auto simp: changes_gateway_def)
qed

lemma connected_session_is_stored_witness:
  "co_refresh_token (the (sx_connection (fst (session_store_step id (fst (run_events (session_store_step id)
     (open_session (Some home_gateway) [] home_secret) [TaskAnswers RestoringConnection (CallWent 1),
      BackgroundRotates (home_gateway\<lparr>co_refresh_token := ''z''\<rparr>), ComesToForeground]))
     (TaskAnswers (Adopting (Some home_gateway)) (CallWent 2)))))) = ''z''"
  using connected_session_is_stored [of id "Some home_gateway" "[]" home_secret
      "[TaskAnswers RestoringConnection (CallWent 1), BackgroundRotates (home_gateway\<lparr>co_refresh_token := ''z''\<rparr>), ComesToForeground]"
      _ home_gateway "Some home_gateway" 2]
  by (auto simp: open_session_def home_gateway_def one_move_at_a_time_def session_enabled_def starts_moving_def restored_def
      spawn_def finish_def moving_def is_moving_def changes_gateway_def Let_def)

subsection \<open>Where the moves meet\<close>

definition at_home :: session_store where
  "at_home = \<lparr>sx_connection = Some home_gateway, sx_status = SessionConnected, sx_recents = Some [saved_home], sx_tasks = [],
     sx_stored = Some home_gateway, sx_index = [saved_home], sx_secrets = home_secret\<rparr>"

lemmas session_eval = run_events.simps(2) at_home_def spawn_def finish_def refresh_token_def disconnect_session_def
  commit_connection_def committed_def changes_gateway_def home_gateway_def other_gateway_def Let_def

text \<open>A refresh that is under way when the user disconnects signs the app back in when it answers: the session
  writes what it was granted without asking what the app is connected to by then.\<close>

lemma late_refresh_undoes_a_disconnect:
  "let s = fst (run_events (session_store_step id) at_home
       [RefreshesToken, Disconnects, TaskAnswers Clearing (CallWent 1),
        TaskAnswers (RefreshingToken home_gateway) (SessionGranted (home_gateway\<lparr>co_refresh_token := ''z''\<rparr>)),
        TaskAnswers (Committing (home_gateway\<lparr>co_refresh_token := ''z''\<rparr>) None False) (CallWent 2)])
   in sx_status s = SessionConnected \<and> map_option co_url (sx_connection s) = Some ''a'' \<and> map_option co_url (sx_stored s) = Some ''a''"
  by (simp add: session_eval)

text \<open>And the old gateway's refusal signs the app out of the gateway it was switched to meanwhile.\<close>

lemma late_refusal_signs_out_of_the_new_gateway:
  "let s = fst (run_events (session_store_step id) at_home
       [RefreshesToken, ConnectsLink ''b'' ''k'', TaskAnswers (MintingSession (Some ''k'')) (SessionGranted other_gateway),
        TaskAnswers (Committing other_gateway (Some ''k'') True) (CallWent 1),
        TaskAnswers (RefreshingToken home_gateway) SessionExpired])
   in sx_status s = SessionDisconnected \<and> sx_connection s = None \<and> Clearing \<in> set (sx_tasks s)"
  by (simp add: session_eval)

text \<open>A gateway that is forgotten while another one is saved comes back on the list, without its secret.\<close>

lemma forgotten_gateway_returns_without_secret:
  "let s = fst (run_events (session_store_step id) (at_home\<lparr>sx_tasks := [SaveIndexing other_gateway True False]\<rparr>)
       [TaskAnswers (SaveIndexing other_gateway True False) (CallWent 2), Forgets ''a'',
        TaskAnswers (ForgetReading ''a'' False) (CallWent 2), TaskAnswers (ForgetIndex ''a'' [] False) (CallWent 2),
        TaskAnswers (ForgetSecret ''a'' [] False) (CallWent 2),
        TaskAnswers (SaveIndex (upsert_index id other_gateway True 2 [saved_home]) False) (CallWent 2)])
   in ''a'' \<in> rg_id ` set (sx_index s) \<and> sx_secrets s ''a'' = None"
  by (simp add: session_eval save_step_def forget_step_def remove_recent_gateway_def upsert_index_def upsert_gateway_def
      saved_home_def)

text \<open>An adoption that was reading when the user disconnected signs the app back in with what a background rotation
  left: the connection it compares with was read before.\<close>

lemma late_adoption_undoes_a_disconnect:
  "let s = fst (run_events (session_store_step id) at_home
       [BackgroundRotates (home_gateway\<lparr>co_refresh_token := ''z''\<rparr>), ComesToForeground, Disconnects,
        TaskAnswers (Adopting (Some home_gateway)) (CallWent 1), TaskAnswers Clearing (CallWent 2)])
   in map_option co_url (sx_connection s) = Some ''a'' \<and> sx_status s = SessionDisconnected \<and> sx_stored s = None"
  by (simp add: session_eval adopted_def rotated_stored_connection_def)

end
