(* ===== verification/TtsQueue.thy ===== *)
theory TtsQueue
  imports Prelude "HOL-Library.AList"
begin

section \<open>The read-aloud queue and the shared microphone (voice/tts-queue.ts, voice/microphone.ts)\<close>

text \<open>
  The queue that reads replies aloud outside a session, and the wrapper that serializes the
  starts and stops of the one microphone.  Both are asynchronous: the utterances some drain
  loop is at, the promises of \<open>prepare\<close> and the starts in flight are part of the state, by
  the order of their creation.
\<close>

subsection \<open>The read-aloud queue\<close>

datatype prepared = Pending | Ready string | Unprepared

datatype tts_stage = AwaitCached nat | Preparing nat | Playing | Spoken

record tts_loop =
  tl_epoch :: nat
  tl_text :: string
  tl_aborted :: bool
  tl_stage :: tts_stage

record tts_queue =
  tq_queue :: "string list"
  tq_processing :: bool
  tq_speaking :: bool
  tq_abort :: "nat option"
  tq_epoch :: nat
  tq_prefetched :: "(string \<times> nat) list"
  tq_prepares :: "nat \<rightharpoonup> prepared"
  tq_loops :: "nat \<rightharpoonup> tts_loop"
  tq_next :: nat

datatype tts_event =
  Speak string
| Prefetch string
| StopSpeech
| PrepareSettled nat "string option"
| TtsContinues nat
| TtsPlayed nat
| TtsPlayFailed nat
| TtsNext nat

datatype tts_out =
  TtsSpeaking bool
| TtsError
| Prepare nat string
| PlaySpeech nat string
| AbortSpeech nat

type_synonym tts_result = "tts_queue \<times> tts_out list"

definition create_tts_queue :: tts_queue where
  "create_tts_queue = \<lparr>tq_queue = [], tq_processing = False, tq_speaking = False, tq_abort = None, tq_epoch = 0,
     tq_prefetched = [], tq_prepares = Map.empty, tq_loops = Map.empty, tq_next = 0\<rparr>"

definition set_speaking :: "bool \<Rightarrow> tts_queue \<Rightarrow> tts_result" where
  "set_speaking v s = (if tq_speaking s = v then (s, []) else (s\<lparr>tq_speaking := v\<rparr>, [TtsSpeaking v]))"

definition prepare_speech :: "string \<Rightarrow> tts_queue \<Rightarrow> tts_result" where
  "prepare_speech utt s =
     (s\<lparr>tq_prepares := (tq_prepares s)(tq_next s \<mapsto> Pending), tq_next := Suc (tq_next s)\<rparr>, [Prepare (tq_next s) utt])"

text \<open>The head of the loop: the next text, with its prefetched promise if there is one; the end
  of the loop otherwise.\<close>

definition tts_take :: "nat \<Rightarrow> tts_queue \<Rightarrow> tts_result" where
  "tts_take my_epoch s =
     (if tq_epoch s \<noteq> my_epoch then (s, [])
      else case tq_queue s of
             [] \<Rightarrow> set_speaking False (s\<lparr>tq_processing := False\<rparr>)
           | utt # rest \<Rightarrow>
               (let s = s\<lparr>tq_queue := rest\<rparr>;
                    entry = \<lparr>tl_epoch = my_epoch, tl_text = utt, tl_aborted = False, tl_stage = Playing\<rparr>
                in case map_of (tq_prefetched s) utt of
                     Some p \<Rightarrow>
                       (s\<lparr>tq_prefetched := AList.delete utt (tq_prefetched s), tq_abort := Some (tq_next s),
                          tq_loops := (tq_loops s)(tq_next s \<mapsto> entry\<lparr>tl_stage := AwaitCached p\<rparr>),
                          tq_next := Suc (tq_next s)\<rparr>, [])
                   | None \<Rightarrow>
                       prepare_speech utt
                         (s\<lparr>tq_abort := Some (tq_next s),
                            tq_loops := (tq_loops s)(tq_next s \<mapsto> entry\<lparr>tl_stage := Preparing (Suc (tq_next s))\<rparr>),
                            tq_next := Suc (tq_next s)\<rparr>)))"

definition tts_drain :: "tts_queue \<Rightarrow> tts_result" where
  "tts_drain s =
     (if tq_processing s then (s, [])
      else chain (set_speaking True (s\<lparr>tq_processing := True\<rparr>)) (\<lambda>s. tts_take (tq_epoch s) s))"

definition tts_speak :: "string \<Rightarrow> tts_queue \<Rightarrow> tts_result" where
  "tts_speak utt s = tts_drain (s\<lparr>tq_queue := tq_queue s @ [utt]\<rparr>)"

definition tts_prefetch :: "string \<Rightarrow> tts_queue \<Rightarrow> tts_result" where
  "tts_prefetch utt s =
     (if map_of (tq_prefetched s) utt \<noteq> None then (s, [])
      else chain (prepare_speech utt s)
             (\<lambda>s'. (s'\<lparr>tq_prefetched := AList.update utt (tq_next s) (tq_prefetched s')\<rparr>, [])))"

definition tts_set :: "nat \<Rightarrow> (tts_loop \<Rightarrow> tts_loop) \<Rightarrow> tts_queue \<Rightarrow> tts_queue" where
  "tts_set n f s = s\<lparr>tq_loops := (tq_loops s)(n := map_option f (tq_loops s n))\<rparr>"

text \<open>The end of an utterance: the catch, then \<open>if (abort === controller) abort = null\<close>.\<close>

definition tts_end :: "nat \<Rightarrow> bool \<Rightarrow> tts_loop \<Rightarrow> tts_queue \<Rightarrow> tts_result" where
  "tts_end n threw l s =
     ((tts_set n (\<lambda>l. l\<lparr>tl_stage := Spoken\<rparr>) s)\<lparr>tq_abort := if tq_abort s = Some n then None else tq_abort s\<rparr>,
      if threw \<and> \<not> tl_aborted l then [TtsError] else [])"

definition tts_play :: "nat \<Rightarrow> string \<Rightarrow> tts_loop \<Rightarrow> tts_queue \<Rightarrow> tts_result" where
  "tts_play n ident l s =
     (if tq_epoch s \<noteq> tl_epoch l
      then (s\<lparr>tq_loops := (tq_loops s)(n := None)\<rparr>, [])
      else (tts_set n (\<lambda>l. l\<lparr>tl_stage := Playing\<rparr>) s, [PlaySpeech n ident]))"

definition tts_continues :: "nat \<Rightarrow> tts_loop \<Rightarrow> tts_queue \<Rightarrow> tts_result" where
  "tts_continues n l s =
     (case tl_stage l of
        AwaitCached p \<Rightarrow>
          (case tq_prepares s p of
             Some (Ready ident) \<Rightarrow> tts_play n ident l s
           | Some Unprepared \<Rightarrow>
               prepare_speech (tl_text l) (tts_set n (\<lambda>l. l\<lparr>tl_stage := Preparing (tq_next s)\<rparr>) s)
           | _ \<Rightarrow> (s, []))
      | Preparing p \<Rightarrow>
          (case tq_prepares s p of
             Some (Ready ident) \<Rightarrow> tts_play n ident l s
           | Some Unprepared \<Rightarrow> tts_end n True l s
           | _ \<Rightarrow> (s, []))
      | _ \<Rightarrow> (s, []))"

definition tts_stop :: "tts_queue \<Rightarrow> tts_result" where
  "tts_stop s =
     chain
       (case tq_abort s of
          None \<Rightarrow> (s\<lparr>tq_queue := [], tq_prefetched := [], tq_epoch := Suc (tq_epoch s)\<rparr>, [])
        | Some n \<Rightarrow>
            (tts_set n (\<lambda>l. l\<lparr>tl_aborted := True\<rparr>)
               (s\<lparr>tq_queue := [], tq_prefetched := [], tq_epoch := Suc (tq_epoch s)\<rparr>), [AbortSpeech n]))
       (\<lambda>s. set_speaking False (s\<lparr>tq_abort := None, tq_processing := False\<rparr>))"

definition at_tts :: "nat \<Rightarrow> (tts_loop \<Rightarrow> tts_queue \<Rightarrow> tts_result) \<Rightarrow> tts_queue \<Rightarrow> tts_result" where
  "at_tts n f s = (case tq_loops s n of None \<Rightarrow> (s, []) | Some l \<Rightarrow> f l s)"

fun tts_step :: "tts_queue \<Rightarrow> tts_event \<Rightarrow> tts_result" where
  "tts_step s (Speak utt) = tts_speak utt s"
| "tts_step s (Prefetch utt) = tts_prefetch utt s"
| "tts_step s StopSpeech = tts_stop s"
| "tts_step s (PrepareSettled p r) =
     (s\<lparr>tq_prepares := (tq_prepares s)(p \<mapsto> (case r of Some ident \<Rightarrow> Ready ident | None \<Rightarrow> Unprepared))\<rparr>, [])"
| "tts_step s (TtsContinues n) = at_tts n (tts_continues n) s"
| "tts_step s (TtsPlayed n) = at_tts n (tts_end n False) s"
| "tts_step s (TtsPlayFailed n) = at_tts n (tts_end n True) s"
| "tts_step s (TtsNext n) =
     at_tts n (\<lambda>l s. tts_take (tl_epoch l) (s\<lparr>tq_loops := (tq_loops s)(n := None)\<rparr>)) s"

definition tts_at :: "nat \<Rightarrow> (tts_loop \<Rightarrow> bool) \<Rightarrow> tts_queue \<Rightarrow> bool" where
  "tts_at n P s \<longleftrightarrow> (case tq_loops s n of None \<Rightarrow> False | Some l \<Rightarrow> P l)"

definition awaits_settled :: "tts_queue \<Rightarrow> tts_loop \<Rightarrow> bool" where
  "awaits_settled s l \<longleftrightarrow>
     (case tl_stage l of
        AwaitCached p \<Rightarrow> tq_prepares s p \<noteq> Some Pending
      | Preparing p \<Rightarrow> tq_prepares s p \<noteq> Some Pending
      | _ \<Rightarrow> False)"

fun tts_enabled :: "tts_queue \<Rightarrow> tts_event \<Rightarrow> bool" where
  "tts_enabled s (PrepareSettled p r) = (tq_prepares s p = Some Pending)"
| "tts_enabled s (TtsContinues n) = tts_at n (awaits_settled s) s"
| "tts_enabled s (TtsPlayed n) = tts_at n (\<lambda>l. tl_stage l = Playing) s"
| "tts_enabled s (TtsPlayFailed n) = tts_at n (\<lambda>l. tl_stage l = Playing) s"
| "tts_enabled s (TtsNext n) = tts_at n (\<lambda>l. tl_stage l = Spoken) s"
| "tts_enabled s e = True"

subsection \<open>The microphone\<close>

text \<open>The starts that wait on the one before, oldest first, and the one at the port.\<close>

record microphone =
  mc_attempt :: nat
  mc_waiting :: "nat list"
  mc_running :: "nat option"

datatype mic_event =
  MicStart
| MicStop
| MicRun
| PortStarted
| PortFailed

datatype mic_out =
  PortStart
| PortStop
| StartSettled nat bool

definition serialize_capture :: microphone where
  "serialize_capture = \<lparr>mc_attempt = 0, mc_waiting = [], mc_running = None\<rparr>"

definition mic_run :: "microphone \<Rightarrow> microphone \<times> mic_out list" where
  "mic_run s =
     (case mc_waiting s of
        [] \<Rightarrow> (s, [])
      | mine # rest \<Rightarrow>
          (if mine \<noteq> mc_attempt s then (s\<lparr>mc_waiting := rest\<rparr>, [StartSettled mine True])
           else (s\<lparr>mc_waiting := rest, mc_running := Some mine\<rparr>, [PortStart])))"

definition port_settled :: "bool \<Rightarrow> microphone \<Rightarrow> microphone \<times> mic_out list" where
  "port_settled ok s =
     (case mc_running s of
        None \<Rightarrow> (s, [])
      | Some mine \<Rightarrow>
          (s\<lparr>mc_running := None\<rparr>, (if mine \<noteq> mc_attempt s then [PortStop] else []) @ [StartSettled mine ok]))"

fun mic_step :: "microphone \<Rightarrow> mic_event \<Rightarrow> microphone \<times> mic_out list" where
  "mic_step s MicStart =
     (s\<lparr>mc_attempt := Suc (mc_attempt s), mc_waiting := mc_waiting s @ [Suc (mc_attempt s)]\<rparr>, [])"
| "mic_step s MicStop = (s\<lparr>mc_attempt := Suc (mc_attempt s)\<rparr>, [PortStop])"
| "mic_step s MicRun = mic_run s"
| "mic_step s PortStarted = port_settled True s"
| "mic_step s PortFailed = port_settled False s"

fun mic_enabled :: "microphone \<Rightarrow> mic_event \<Rightarrow> bool" where
  "mic_enabled s MicRun = (mc_running s = None \<and> mc_waiting s \<noteq> [])"
| "mic_enabled s PortStarted = (mc_running s \<noteq> None)"
| "mic_enabled s PortFailed = (mc_running s \<noteq> None)"
| "mic_enabled s e = True"

subsection \<open>One utterance at a time\<close>

definition tts_current :: "tts_queue \<Rightarrow> nat \<Rightarrow> tts_loop \<Rightarrow> bool" where
  "tts_current s n l \<longleftrightarrow> tq_loops s n = Some l \<and> tl_epoch l = tq_epoch s"

definition tts_ok :: "tts_queue \<Rightarrow> nat \<Rightarrow> tts_loop \<Rightarrow> bool" where
  "tts_ok s n l \<longleftrightarrow> n < tq_next s \<and> tl_epoch l \<le> tq_epoch s \<and>
     (if tl_epoch l = tq_epoch s
      then tq_processing s \<and> \<not> tl_aborted l \<and> tq_abort s = (if tl_stage l = Spoken then None else Some n)
      else tl_aborted l \<or> tl_stage l = Spoken)"

definition tts_inv :: "tts_queue \<Rightarrow> bool" where
  "tts_inv s \<longleftrightarrow> (\<forall>n l. tq_loops s n = Some l \<longrightarrow> tts_ok s n l) \<and>
     (\<forall>n m l k. tts_current s n l \<longrightarrow> tts_current s m k \<longrightarrow> n = m) \<and>
     (tq_processing s \<longrightarrow> (\<exists>n l. tts_current s n l)) \<and>
     (\<not> tq_processing s \<longrightarrow> tq_queue s = [] \<and> tq_abort s = None) \<and> tq_speaking s = tq_processing s"

lemma tts_inv_start: "tts_inv create_tts_queue"
  by (simp add: tts_inv_def create_tts_queue_def tts_current_def)

lemma tts_inv_loop: "tts_inv s \<Longrightarrow> tq_loops s n = Some l \<Longrightarrow> tts_ok s n l"
  by (simp add: tts_inv_def)

text \<open>Between two utterances the queue has no loop of its own.\<close>

definition tts_between :: "tts_queue \<Rightarrow> bool" where
  "tts_between s \<longleftrightarrow> (\<forall>n l. tq_loops s n = Some l \<longrightarrow>
     n < tq_next s \<and> tl_epoch l < tq_epoch s \<and> (tl_aborted l \<or> tl_stage l = Spoken)) \<and> tq_abort s = None"

lemma tts_between_ok: "tts_between s \<Longrightarrow> tq_loops s n = Some l \<Longrightarrow> tts_ok s n l"
  by (fastforce simp: tts_between_def tts_ok_def)

lemma tts_between_current: "tts_between s \<Longrightarrow> \<not> tts_current s n l"
  by (fastforce simp: tts_between_def tts_current_def)

lemma tts_between_inv:
  "tts_between s \<Longrightarrow> \<not> tq_processing s \<Longrightarrow> tq_queue s = [] \<Longrightarrow> \<not> tq_speaking s \<Longrightarrow> tts_inv s"
  using tts_between_ok tts_between_current unfolding tts_inv_def by (auto simp: tts_between_def)

lemma tts_idle_between: "tts_inv s \<Longrightarrow> \<not> tq_processing s \<Longrightarrow> tts_between s"
proof -
  assume a: "tts_inv s" "\<not> tq_processing s"
  have "n < tq_next s \<and> tl_epoch l < tq_epoch s \<and> (tl_aborted l \<or> tl_stage l = Spoken)"
    if l: "tq_loops s n = Some l" for n l
    using tts_inv_loop [OF a(1) l] a(2) by (auto simp: tts_ok_def split: if_splits)
  with a show ?thesis by (simp add: tts_between_def tts_inv_def)
qed

lemma tts_inv_entry:
  assumes "tts_between s" "tq_processing s" "tq_speaking s" "tl_epoch l = tq_epoch s" "\<not> tl_aborted l"
    "tl_stage l \<noteq> Spoken" "tq_next s < m'"
    "s' = s\<lparr>tq_queue := q, tq_prefetched := pf, tq_abort := Some (tq_next s),
       tq_loops := (tq_loops s)(tq_next s \<mapsto> l), tq_prepares := pp, tq_next := m'\<rparr>"
  shows "tts_inv s'"
proof -
  have ok: "tts_ok s' n k" if "tq_loops s' n = Some k" for n k
    using that assms by (fastforce simp: tts_between_def tts_ok_def split: if_splits)
  have cur: "tts_current s' n k \<longleftrightarrow> n = tq_next s \<and> k = l" for n k
    using tts_between_current [OF assms(1), of n k] assms(4) by (auto simp: tts_current_def assms(8))
  have one: "\<forall>n m l k. tts_current s' n l \<longrightarrow> tts_current s' m k \<longrightarrow> n = m" by (simp add: cur)
  have ex: "\<exists>n l. tts_current s' n l" by (simp add: cur)
  have "tq_processing s'" "tq_speaking s'" using assms(2,3) by (simp_all add: assms(8))
  with ok one ex show ?thesis unfolding tts_inv_def by blast
qed

lemma tts_inv_take:
  assumes "tts_between s" "tq_processing s" "tq_speaking s"
  shows "tts_inv (fst (tts_take (tq_epoch s) s))"
proof (cases "tq_queue s")
  case Nil
  have "tts_between (s\<lparr>tq_processing := False, tq_speaking := False\<rparr>)" using assms(1) by (simp add: tts_between_def)
  from tts_between_inv [OF this] show ?thesis
    using Nil assms(3) by (simp add: tts_take_def set_speaking_def)
next
  case (Cons utt rest)
  show ?thesis
  proof (cases "map_of (tq_prefetched s) utt")
    case None
    let ?l = "\<lparr>tl_epoch = tq_epoch s, tl_text = utt, tl_aborted = False, tl_stage = Preparing (Suc (tq_next s))\<rparr>"
    let ?s' = "s\<lparr>tq_queue := rest, tq_prefetched := tq_prefetched s,
      tq_abort := Some (tq_next s), tq_loops := (tq_loops s)(tq_next s \<mapsto> ?l),
      tq_prepares := (tq_prepares s)(Suc (tq_next s) \<mapsto> Pending), tq_next := Suc (Suc (tq_next s))\<rparr>"
    have "tts_inv ?s'" by (rule tts_inv_entry [OF assms _ _ _ _ refl]) simp_all
    then show ?thesis by (simp add: tts_take_def Cons None prepare_speech_def)
  next
    case (Some p)
    let ?l = "\<lparr>tl_epoch = tq_epoch s, tl_text = utt, tl_aborted = False, tl_stage = AwaitCached p\<rparr>"
    let ?s' = "s\<lparr>tq_queue := rest, tq_prefetched := AList.delete utt (tq_prefetched s),
      tq_abort := Some (tq_next s), tq_loops := (tq_loops s)(tq_next s \<mapsto> ?l),
      tq_prepares := tq_prepares s, tq_next := Suc (tq_next s)\<rparr>"
    have "tts_inv ?s'" by (rule tts_inv_entry [OF assms _ _ _ _ refl]) simp_all
    then show ?thesis by (simp add: tts_take_def Cons Some)
  qed
qed

lemma tts_inv_speak: "tts_inv s \<Longrightarrow> tts_inv (fst (tts_speak utt s))"
proof (cases "tq_processing s")
  case True
  assume "tts_inv s"
  with True show ?thesis by (simp add: tts_speak_def tts_drain_def tts_inv_def tts_ok_def tts_current_def)
next
  case False
  assume inv: "tts_inv s"
  let ?s = "s\<lparr>tq_queue := tq_queue s @ [utt], tq_processing := True, tq_speaking := True\<rparr>"
  have "tts_between ?s" using tts_idle_between [OF inv False] by (simp add: tts_between_def)
  moreover have "\<not> tq_speaking s" using inv False by (simp add: tts_inv_def)
  ultimately show ?thesis
    using tts_inv_take [of ?s] False by (simp add: tts_speak_def tts_drain_def set_speaking_def)
qed

lemma tts_inv_fields [simp]:
  "tts_inv (s\<lparr>tq_prefetched := pf\<rparr>) = tts_inv s" "tts_inv (s\<lparr>tq_prepares := pp\<rparr>) = tts_inv s"
  by (simp_all add: tts_inv_def tts_ok_def tts_current_def)

lemma tts_inv_next: "tts_inv s \<Longrightarrow> tts_inv (s\<lparr>tq_next := Suc (tq_next s)\<rparr>)"
  by (fastforce simp: tts_inv_def tts_ok_def tts_current_def)

lemma tts_inv_prepare: "tts_inv s \<Longrightarrow> tts_inv (fst (prepare_speech utt s))"
  using tts_inv_next [of "s\<lparr>tq_prepares := (tq_prepares s)(tq_next s \<mapsto> Pending)\<rparr>"] by (simp add: prepare_speech_def)

lemma tts_inv_change:
  assumes "tts_inv s" "tq_loops s n = Some l" "tl_epoch (f l) = tl_epoch l"
    "s' = (tts_set n f s)\<lparr>tq_abort := ab\<rparr>" "tts_ok s' n (f l)" "tl_epoch l \<noteq> tq_epoch s \<Longrightarrow> ab = tq_abort s"
  shows "tts_inv s'"
proof -
  have cur: "tts_current s' m k \<longleftrightarrow> (if m = n then k = f l \<and> tl_epoch l = tq_epoch s else tts_current s m k)" for m k
    using assms(2,3) by (auto simp: tts_current_def tts_set_def assms(4))
  have curl: "tl_epoch l = tq_epoch s \<Longrightarrow> tts_current s n l" using assms(2) by (simp add: tts_current_def)
  have uniq: "tts_current s m k \<Longrightarrow> tts_current s m' k' \<Longrightarrow> m = m'" for m k m' k'
    using assms(1) unfolding tts_inv_def by blast
  have ok: "tts_ok s' m k" if "tq_loops s' m = Some k" for m k
  proof (cases "m = n")
    case True
    with that assms(2,5) show ?thesis by (simp add: tts_set_def assms(4))
  next
    case False
    with that have mk: "tq_loops s m = Some k" by (simp add: tts_set_def assms(4))
    then have "tl_epoch k = tq_epoch s \<Longrightarrow> tl_epoch l \<noteq> tq_epoch s"
      using uniq [of m k n l] curl False by (auto simp: tts_current_def)
    with tts_inv_loop [OF assms(1) mk] assms(6) show ?thesis
      by (cases "tl_epoch k = tq_epoch s") (simp_all add: tts_ok_def tts_set_def assms(4))
  qed
  have one: "m = m'" if a: "tts_current s' m k" "tts_current s' m' k'" for m m' k k'
  proof -
    have "tts_current s m (if m = n then l else k)" "tts_current s m' (if m' = n then l else k')"
      using a(1) [unfolded cur] a(2) [unfolded cur] curl by (auto split: if_splits)
    then show ?thesis by (rule uniq)
  qed
  have ex: "\<exists>m k. tts_current s' m k" if p: "tq_processing s'"
  proof -
    have "tq_processing s" using p by (simp add: assms(4) tts_set_def)
    then obtain m k where c: "tts_current s m k" using assms(1) unfolding tts_inv_def by blast
    have "tts_current s' m (if m = n then f l else k)"
      using c assms(2) unfolding cur by (auto simp: tts_current_def)
    then show ?thesis by blast
  qed
  have idle: "tq_queue s' = [] \<and> tq_abort s' = None" if p: "\<not> tq_processing s'"
  proof -
    have np: "\<not> tq_processing s" using p by (simp add: assms(4) tts_set_def)
    have "tl_epoch l \<noteq> tq_epoch s" using tts_inv_loop [OF assms(1,2)] np by (auto simp: tts_ok_def)
    with np assms(1,6) show ?thesis by (simp add: tts_inv_def assms(4) tts_set_def)
  qed
  have "tq_speaking s' = tq_processing s'" using assms(1) by (simp add: tts_inv_def assms(4) tts_set_def)
  with ok one ex idle show ?thesis unfolding tts_inv_def by blast
qed

lemma tts_inv_end:
  assumes "tts_inv s" "tq_loops s n = Some l"
  shows "tts_inv (fst (tts_end n b l s))"
proof -
  have ok: "tts_ok s n l" by (rule tts_inv_loop [OF assms])
  have old: "tq_abort s \<noteq> Some n" if e: "tl_epoch l \<noteq> tq_epoch s"
  proof
    assume ab: "tq_abort s = Some n"
    then obtain m k where c: "tts_current s m k" using assms(1) unfolding tts_inv_def by fastforce
    then have "tts_ok s m k" by (intro tts_inv_loop [OF assms(1)]) (simp add: tts_current_def)
    with c ab have "m = n" by (auto simp: tts_ok_def tts_current_def split: if_splits)
    with c assms(2) e show False by (simp add: tts_current_def)
  qed
  show ?thesis unfolding tts_end_def fst_conv
    by (rule tts_inv_change [OF assms _ refl]) (use ok old in \<open>auto simp: tts_ok_def tts_set_def split: if_splits\<close>)
qed

lemma tts_set_abort: "(tts_set n f s)\<lparr>tq_abort := tq_abort s\<rparr> = tts_set n f s"
  by (simp add: tts_set_def)

lemma tts_inv_stage:
  assumes "tts_inv s" "tq_loops s n = Some l" "tl_stage l \<noteq> Spoken" "st \<noteq> Spoken"
  shows "tts_inv (tts_set n (\<lambda>l. l\<lparr>tl_stage := st\<rparr>) s)"
  using tts_inv_change [OF assms(1,2), of "\<lambda>l. l\<lparr>tl_stage := st\<rparr>" _ "tq_abort s", OF _ refl]
    tts_inv_loop [OF assms(1,2)] assms(3,4)
  by (simp add: tts_set_abort tts_ok_def tts_set_def split: if_splits)

lemma tts_inv_drop:
  assumes "tts_inv s" "tq_loops s n = Some l" "tl_epoch l \<noteq> tq_epoch s"
  shows "tts_inv (s\<lparr>tq_loops := (tq_loops s)(n := None)\<rparr>)"
proof -
  have cur: "tts_current (s\<lparr>tq_loops := (tq_loops s)(n := None)\<rparr>) m k \<longleftrightarrow> tts_current s m k" for m k
    using assms(2,3) by (auto simp: tts_current_def)
  show ?thesis using assms(1) unfolding tts_inv_def cur by (auto simp: tts_ok_def split: if_splits)
qed

lemma tts_inv_play:
  assumes "tts_inv s" "tq_loops s n = Some l" "tl_stage l \<noteq> Spoken"
  shows "tts_inv (fst (tts_play n ident l s))"
  using assms tts_inv_stage tts_inv_drop by (simp add: tts_play_def)

lemma tts_inv_continues:
  assumes "tts_inv s" "tq_loops s n = Some l"
  shows "tts_inv (fst (tts_continues n l s))"
  using assms tts_inv_play tts_inv_end tts_inv_prepare tts_inv_stage
  by (auto simp: tts_continues_def split: tts_stage.split option.split prepared.split)

lemma tts_inv_next_loop:
  assumes "tts_inv s" "tq_loops s n = Some l" "tl_stage l = Spoken"
  shows "tts_inv (fst (tts_take (tl_epoch l) (s\<lparr>tq_loops := (tq_loops s)(n := None)\<rparr>)))"
proof (cases "tl_epoch l = tq_epoch s")
  case False
  with tts_inv_drop [OF assms(1,2)] show ?thesis by (simp add: tts_take_def)
next
  case True
  let ?s = "s\<lparr>tq_loops := (tq_loops s)(n := None)\<rparr>"
  have ok: "tts_ok s n l" by (rule tts_inv_loop [OF assms(1,2)])
  have "m < tq_next s \<and> tl_epoch k < tq_epoch s \<and> (tl_aborted k \<or> tl_stage k = Spoken)"
    if mk: "tq_loops s m = Some k" "m \<noteq> n" for m k
  proof -
    have "tl_epoch k \<noteq> tq_epoch s"
      using assms(1,2) True mk unfolding tts_inv_def tts_current_def by blast
    with tts_inv_loop [OF assms(1) mk(1)] show ?thesis by (simp add: tts_ok_def)
  qed
  then have "tts_between ?s" using ok True assms(3) by (simp add: tts_between_def tts_ok_def)
  moreover have "tq_processing ?s" "tq_speaking ?s" using ok True assms(1) by (simp_all add: tts_ok_def tts_inv_def)
  ultimately show ?thesis using tts_inv_take [of ?s] True by simp
qed

lemma tts_inv_stop: "tts_inv s \<Longrightarrow> tts_inv (fst (tts_stop s))"
proof -
  assume inv: "tts_inv s"
  let ?s0 = "s\<lparr>tq_queue := [], tq_prefetched := [], tq_epoch := Suc (tq_epoch s)\<rparr>"
  define s1 where "s1 = (case tq_abort s of None \<Rightarrow> ?s0 | Some n \<Rightarrow> tts_set n (\<lambda>l. l\<lparr>tl_aborted := True\<rparr>) ?s0)"
  let ?s2 = "s1\<lparr>tq_abort := None, tq_processing := False, tq_speaking := False\<rparr>"
  have "n < tq_next s \<and> tl_epoch l' < Suc (tq_epoch s) \<and> (tl_aborted l' \<or> tl_stage l' = Spoken)"
    if l': "tq_loops s1 n = Some l'" for n l'
  proof -
    obtain l where l: "tq_loops s n = Some l" "l' = (if tq_abort s = Some n then l\<lparr>tl_aborted := True\<rparr> else l)"
      using l' by (auto simp: s1_def tts_set_def split: option.splits if_splits)
    from tts_inv_loop [OF inv l(1)] l(2) show ?thesis by (auto simp: tts_ok_def split: if_splits)
  qed
  moreover have f: "tq_next s1 = tq_next s" "tq_epoch s1 = Suc (tq_epoch s)" "tq_queue s1 = []"
    by (simp_all add: s1_def tts_set_def split: option.split)
  ultimately have "tts_between ?s2" by (simp add: tts_between_def)
  from tts_between_inv [OF this] f have "tts_inv ?s2" by simp
  moreover have "fst (set_speaking False t) = t\<lparr>tq_speaking := False\<rparr>" for t by (simp add: set_speaking_def)
  ultimately show ?thesis by (simp add: tts_stop_def s1_def split: option.split_asm option.split)
qed

lemma tts_inv_step: "tts_inv s \<Longrightarrow> tts_enabled s e \<Longrightarrow> tts_inv (fst (tts_step s e))"
proof (cases e)
  case (Prefetch utt)
  assume "tts_inv s"
  with Prefetch tts_inv_prepare [of s utt] show ?thesis by (simp add: tts_prefetch_def)
qed (auto simp: at_tts_def tts_at_def tts_inv_speak tts_inv_stop tts_inv_continues tts_inv_end tts_inv_next_loop
    split: option.splits)

interpretation reading: machine tts_step tts_enabled tts_inv
  by unfold_locales (rule tts_inv_step)

text \<open>An error reaches the user only from an utterance of the queue as it is now.\<close>

lemma tts_error_source:
  assumes "tts_inv s" "tts_enabled s e" "TtsError \<in> set (snd (tts_step s e))"
  shows "\<exists>n l. tts_current s n l"
proof -
  have thrown: "\<exists>n l. tts_current s n l"
    if l: "tq_loops s n = Some l" "tl_stage l \<noteq> Spoken" "TtsError \<in> set (snd (tts_end n b l s))" for n l b
  proof -
    have "\<not> tl_aborted l" using l(3) by (auto simp: tts_end_def split: if_splits)
    with tts_inv_loop [OF assms(1) l(1)] l(1,2) show ?thesis
      by (auto simp: tts_ok_def tts_current_def split: if_splits)
  qed
  have take: "TtsError \<notin> set (snd (tts_take m t))" for m t
    by (auto simp: tts_take_def set_speaking_def prepare_speech_def Let_def split: list.split option.split)
  show ?thesis
  proof (cases e)
    case (TtsContinues n)
    then obtain l where l: "tq_loops s n = Some l" "awaits_settled s l"
      using assms(2) by (auto simp: tts_at_def split: option.splits)
    then have "tl_stage l \<noteq> Spoken" by (auto simp: awaits_settled_def)
    moreover have "TtsError \<in> set (snd (tts_end n True l s))"
      using assms(3) TtsContinues l(1)
      by (auto simp: at_tts_def tts_continues_def tts_play_def prepare_speech_def
          split: tts_stage.splits option.splits prepared.splits if_splits)
    ultimately show ?thesis using thrown l(1) by blast
  next
    case (TtsPlayFailed n)
    then obtain l where l: "tq_loops s n = Some l" "tl_stage l = Playing"
      using assms(2) by (auto simp: tts_at_def split: option.splits)
    with assms(3) TtsPlayFailed show ?thesis using thrown [of n l True] by (auto simp: at_tts_def)
  next
    case (TtsNext n)
    with assms(3) take show ?thesis by (auto simp: at_tts_def split: option.splits)
  qed (use assms(3) take in \<open>auto simp: tts_speak_def tts_drain_def set_speaking_def tts_prefetch_def prepare_speech_def
      tts_stop_def at_tts_def tts_end_def split: option.splits if_splits\<close>)
qed

text \<open>A prefetched reply plays from its prefetched promise; \<open>prepare\<close> is not called again.\<close>

lemma prefetched_reply_is_prepared_once:
  assumes "p = tq_next s" "tq_prefetched s = []" "tq_queue s = []" "\<not> tq_processing s" "\<not> tq_speaking s"
  shows "snd (run_events tts_step s [Prefetch t, PrepareSettled p (Some url), Speak t, TtsContinues (Suc p)]) =
    [Prepare p t, TtsSpeaking True, PlaySpeech (Suc p) url]"
  using assms
  by (simp add: tts_prefetch_def prepare_speech_def tts_speak_def tts_drain_def set_speaking_def tts_take_def
      at_tts_def tts_continues_def tts_play_def Let_def)

subsection \<open>The microphone is off after a stop\<close>

text \<open>The wrapper with its port: whether the microphone is on, and whether the last call was a
  stop.  The port turns the microphone on when its start settles and off in \<open>stop\<close>.\<close>

record mic_port =
  mp_mic :: microphone
  mp_on :: bool
  mp_stopped :: bool

definition mic_port_step :: "mic_port \<Rightarrow> mic_event \<Rightarrow> mic_port \<times> mic_out list" where
  "mic_port_step s e =
     (let (m, os) = mic_step (mp_mic s) e
      in (\<lparr>mp_mic = m, mp_on = (PortStop \<notin> set os \<and> (e = PortStarted \<or> mp_on s)),
           mp_stopped = (case e of MicStart \<Rightarrow> False | MicStop \<Rightarrow> True | _ \<Rightarrow> mp_stopped s)\<rparr>, os))"

definition mic_port_start :: mic_port where
  "mic_port_start = \<lparr>mp_mic = serialize_capture, mp_on = False, mp_stopped = True\<rparr>"

definition mic_inv :: "mic_port \<Rightarrow> bool" where
  "mic_inv s \<longleftrightarrow> (let m = mp_mic s in
     (\<forall>i. i \<in> set (mc_waiting m) \<or> mc_running m = Some i \<longrightarrow>
        i \<le> mc_attempt m \<and> (mp_stopped s \<longrightarrow> i \<noteq> mc_attempt m)) \<and>
     (mp_stopped s \<longrightarrow> \<not> mp_on s))"

lemma mic_inv_step: "mic_inv s \<Longrightarrow> mic_enabled (mp_mic s) e \<Longrightarrow> mic_inv (fst (mic_port_step s e))"
  by (cases e)
    (fastforce simp: mic_inv_def mic_port_step_def mic_run_def port_settled_def Let_def
      split: list.splits option.splits if_splits)+

interpretation mic: machine mic_port_step "\<lambda>s. mic_enabled (mp_mic s)" mic_inv
  by unfold_locales (rule mic_inv_step)

lemma mic_inv_start: "mic_inv mic_port_start"
  by (simp add: mic_inv_def mic_port_start_def serialize_capture_def Let_def)

text \<open>A start asked for while the microphone is starting waits for that start to settle.\<close>

lemma starts_are_serial:
  "PortStart \<in> set (snd (mic_step s e)) \<Longrightarrow> mic_enabled s e \<Longrightarrow> mc_running s = None"
  by (cases e) (auto simp: mic_run_def port_settled_def split: option.splits if_splits)

subsection \<open>Properties\<close>

text \<open>The read-aloud reports speaking exactly while it has an utterance of its own, one at a
  time, and an idle queue holds no text back.\<close>

theorem reading_aloud_is_speaking:
  assumes "legal_events tts_step tts_enabled create_tts_queue es"
  shows "tq_speaking (fst (run_events tts_step create_tts_queue es)) =
      (\<exists>!n. \<exists>l. tts_current (fst (run_events tts_step create_tts_queue es)) n l) \<and>
    (tq_speaking (fst (run_events tts_step create_tts_queue es)) \<or> tq_queue (fst (run_events tts_step create_tts_queue es)) = [])"
proof -
  let ?s = "fst (run_events tts_step create_tts_queue es)"
  have inv: "tts_inv ?s" by (rule reading.run_inv [OF tts_inv_start assms])
  have "tq_processing ?s" if "tts_current ?s n l" for n l
    using inv that unfolding tts_inv_def tts_current_def tts_ok_def by metis
  with inv show ?thesis unfolding tts_inv_def by blast
qed

definition spoken_run :: "tts_event list" where
  "spoken_run = [Prefetch ''a'', Speak ''a'', PrepareSettled 0 (Some ''u''), TtsContinues 1, Speak ''b'']"

theorem reading_aloud_is_speaking_witness:
  "tq_speaking (fst (run_events tts_step create_tts_queue spoken_run)) =
      (\<exists>!n. \<exists>l. tts_current (fst (run_events tts_step create_tts_queue spoken_run)) n l) \<and>
    (tq_speaking (fst (run_events tts_step create_tts_queue spoken_run)) \<or>
     tq_queue (fst (run_events tts_step create_tts_queue spoken_run)) = [])"
  by (rule reading_aloud_is_speaking)
    (simp add: spoken_run_def create_tts_queue_def tts_prefetch_def prepare_speech_def tts_speak_def tts_drain_def
      set_speaking_def tts_take_def at_tts_def tts_continues_def tts_play_def tts_at_def awaits_settled_def Let_def)

text \<open>The microphone is never left on by a start that a stop overtook: whenever the last call
  was a stop, the microphone is off, however the starts in flight settle.\<close>

theorem stopped_microphone_is_off:
  assumes "legal_events mic_port_step (\<lambda>s. mic_enabled (mp_mic s)) mic_port_start es"
    and "mp_stopped (fst (run_events mic_port_step mic_port_start es))"
  shows "\<not> mp_on (fst (run_events mic_port_step mic_port_start es))"
  using mic.run_inv [OF mic_inv_start assms(1)] assms(2) by (simp add: mic_inv_def Let_def)

theorem stopped_microphone_is_off_witness:
  "\<not> mp_on (fst (run_events mic_port_step mic_port_start [MicStart, MicRun, MicStop, PortStarted]))"
  by (rule stopped_microphone_is_off)
    (simp_all add: mic_port_start_def serialize_capture_def mic_port_step_def mic_run_def port_settled_def)

end
