(* ===== verification/UpdateNotice.thy ===== *)
theory UpdateNotice
  imports SyncTree
begin

section \<open>What the user sees an operation end in (react/use-update-resolution.ts)\<close>

text \<open>
  Two hooks watch the gateway's operation: one reports the version an update landed on, one that a
  restart came back.  A render with new props derives the watch before it returns; the notice's expiry
  is the one effect.  The lemmas say that the derivation is stable (React renders again with the watch
  it set, and sets no other), what each notice says after any sequence of renders, and that a notice
  has its timer, so it always goes away.
\<close>

definition updated_notice_ms :: nat where "updated_notice_ms = 3000"
definition restarted_notice_ms :: nat where "restarted_notice_ms = 2500"

subsection \<open>The update\<close>

record update_watch =
  uw_active :: bool
  uw_before :: string
  uw_updated_to :: "string option"

definition first_update_watch :: "gateway_operation option \<Rightarrow> string \<Rightarrow> update_watch" where
  "first_update_watch operation version =
     \<lparr>uw_active = (operation \<noteq> None), uw_before = (if operation \<noteq> None then version else []), uw_updated_to = None\<rparr>"

definition derive_update :: "gateway_operation option \<Rightarrow> string \<Rightarrow> update_watch \<Rightarrow> update_watch" where
  "derive_update operation version watch =
     (let active = (operation \<noteq> None)
      in if active \<noteq> uw_active watch
         then let landed = (uw_before watch \<noteq> [] \<and> version \<noteq> [] \<and> uw_before watch \<noteq> version)
              in \<lparr>uw_active = active, uw_before = (if active then version else []),
                  uw_updated_to = (if \<not> active \<and> landed then Some version else None)\<rparr>
         else if active \<and> uw_before watch = [] \<and> version \<noteq> [] then watch\<lparr>uw_before := version\<rparr>
         else watch)"

subsection \<open>The restart\<close>

record restart_watch =
  rw_active :: bool
  rw_watching :: bool
  rw_restarted :: bool

definition watches_restart :: "gateway_operation option \<Rightarrow> bool" where
  "watches_restart operation \<longleftrightarrow>
     (case operation of None \<Rightarrow> False | Some op \<Rightarrow> go_kind op = ''restart'' \<and> go_phase op \<noteq> ''failed'')"

definition first_restart_watch :: "gateway_operation option \<Rightarrow> restart_watch" where
  "first_restart_watch operation =
     \<lparr>rw_active = (operation \<noteq> None), rw_watching = watches_restart operation, rw_restarted = False\<rparr>"

definition derive_restart :: "gateway_operation option \<Rightarrow> restart_watch \<Rightarrow> restart_watch" where
  "derive_restart operation watch =
     (let active = (operation \<noteq> None); watching = watches_restart operation
      in if active \<noteq> rw_active watch
         then \<lparr>rw_active = active, rw_watching = watching, rw_restarted = \<not> active \<and> rw_watching watch\<rparr>
         else if active \<and> watching \<noteq> rw_watching watch
         then \<lparr>rw_active = active, rw_watching = watching, rw_restarted = False\<rparr>
         else watch)"

subsection \<open>The mounted hooks\<close>

text \<open>The effect runs when the notice changed: it clears the timer of the notice before, and starts one
  for the new.\<close>

record notices =
  nc_update :: update_watch
  nc_update_timer :: bool
  nc_restart :: restart_watch
  nc_restart_timer :: bool

datatype notice_event = NoticeRender "gateway_operation option" string | UpdateNoticeExpires | RestartNoticeExpires
datatype notice_out = StartNotice nat | ClearNotice

definition notice_effect :: "'a option \<Rightarrow> 'a option \<Rightarrow> nat \<Rightarrow> bool \<Rightarrow> bool \<times> notice_out list" where
  "notice_effect old now ms timer =
     (if old = now then (timer, [])
      else (now \<noteq> None, (if timer then [ClearNotice] else []) @ (if now \<noteq> None then [StartNotice ms] else [])))"

definition restarted_notice :: "restart_watch \<Rightarrow> unit option" where
  "restarted_notice w = (if rw_restarted w then Some () else None)"

definition set_update :: "update_watch \<Rightarrow> notices \<Rightarrow> notices \<times> notice_out list" where
  "set_update w s =
     (let (timer, os) = notice_effect (uw_updated_to (nc_update s)) (uw_updated_to w) updated_notice_ms (nc_update_timer s)
      in (s\<lparr>nc_update := w, nc_update_timer := timer\<rparr>, os))"

definition set_restart :: "restart_watch \<Rightarrow> notices \<Rightarrow> notices \<times> notice_out list" where
  "set_restart w s =
     (let (timer, os) = notice_effect (restarted_notice (nc_restart s)) (restarted_notice w) restarted_notice_ms (nc_restart_timer s)
      in (s\<lparr>nc_restart := w, nc_restart_timer := timer\<rparr>, os))"

definition mounted_notices :: "gateway_operation option \<Rightarrow> string \<Rightarrow> notices" where
  "mounted_notices operation version =
     \<lparr>nc_update = derive_update operation version (first_update_watch operation version), nc_update_timer = False,
      nc_restart = first_restart_watch operation, nc_restart_timer = False\<rparr>"

fun notice_step :: "notices \<Rightarrow> notice_event \<Rightarrow> notices \<times> notice_out list" where
  "notice_step s (NoticeRender operation version) =
     chain (set_update (derive_update operation version (nc_update s)) s)
       (\<lambda>s. set_restart (derive_restart operation (nc_restart s)) s)"
| "notice_step s UpdateNoticeExpires =
     set_update ((nc_update s)\<lparr>uw_updated_to := None\<rparr>) (s\<lparr>nc_update_timer := False\<rparr>)"
| "notice_step s RestartNoticeExpires =
     set_restart ((nc_restart s)\<lparr>rw_restarted := False\<rparr>) (s\<lparr>nc_restart_timer := False\<rparr>)"

fun notice_enabled :: "notices \<Rightarrow> notice_event \<Rightarrow> bool" where
  "notice_enabled s (NoticeRender operation version) \<longleftrightarrow> True"
| "notice_enabled s UpdateNoticeExpires \<longleftrightarrow> nc_update_timer s"
| "notice_enabled s RestartNoticeExpires \<longleftrightarrow> nc_restart_timer s"

subsection \<open>Properties\<close>

text \<open>A second render with the watch the first derived derives nothing new, so the render loop ends.\<close>

lemma derive_is_stable:
  "derive_update operation version (derive_update operation version w) = derive_update operation version w"
  "derive_restart operation (derive_restart operation v) = derive_restart operation v"
proof -
  show "derive_update operation version (derive_update operation version w) = derive_update operation version w"
    by (cases "operation = None"; cases "uw_active w"; cases "uw_before w = []"; cases "version = []";
        simp add: derive_update_def)
  show "derive_restart operation (derive_restart operation v) = derive_restart operation v"
    by (cases "operation = None"; cases "rw_active v"; cases "watches_restart operation = rw_watching v";
        simp add: derive_restart_def watches_restart_def)
qed

definition notices_ok :: "notices \<Rightarrow> bool" where
  "notices_ok s \<longleftrightarrow> nc_update_timer s = (uw_updated_to (nc_update s) \<noteq> None) \<and>
     nc_restart_timer s = rw_restarted (nc_restart s)"

lemma set_update_ok:
  "nc_update_timer s = (uw_updated_to (nc_update s) \<noteq> None) \<or> uw_updated_to w = None \<and> \<not> nc_update_timer s \<Longrightarrow>
     nc_update_timer (fst (set_update w s)) = (uw_updated_to w \<noteq> None)"
  "nc_restart (fst (set_update w s)) = nc_restart s" "nc_restart_timer (fst (set_update w s)) = nc_restart_timer s"
  "nc_update (fst (set_update w s)) = w"
  by (cases "uw_updated_to w"; auto simp: set_update_def notice_effect_def)+

lemma set_restart_ok:
  "nc_restart_timer s = rw_restarted (nc_restart s) \<or> \<not> rw_restarted w \<and> \<not> nc_restart_timer s \<Longrightarrow>
     nc_restart_timer (fst (set_restart w s)) = rw_restarted w"
  "nc_update (fst (set_restart w s)) = nc_update s" "nc_update_timer (fst (set_restart w s)) = nc_update_timer s"
  "nc_restart (fst (set_restart w s)) = w"
  by (auto simp: set_restart_def notice_effect_def restarted_notice_def)

lemma notices_ok_step: "notices_ok s \<Longrightarrow> notices_ok (fst (notice_step s e))"
  by (cases e) (simp_all add: notices_ok_def set_update_ok set_restart_ok)

interpretation notices: machine notice_step notice_enabled notices_ok
  by unfold_locales (rule notices_ok_step)

text \<open>A notice shows exactly while its timer runs, whatever renders and expiries come, so every notice
  ends; and the render loop settles after one derivation.\<close>

theorem notice_shows_while_its_timer_runs:
  assumes "legal_events notice_step notice_enabled (mounted_notices operation version) es"
    and "s = fst (run_events notice_step (mounted_notices operation version) es)"
  shows "nc_update_timer s = (uw_updated_to (nc_update s) \<noteq> None) \<and> nc_restart_timer s = rw_restarted (nc_restart s)"
proof -
  have "notices_ok (mounted_notices operation version)"
    by (simp add: notices_ok_def mounted_notices_def derive_update_def first_update_watch_def first_restart_watch_def Let_def)
  from notices.run_inv [OF this assms(1)] show ?thesis by (simp add: assms(2) notices_ok_def)
qed

definition an_operation :: "string \<Rightarrow> string \<Rightarrow> gateway_operation" where
  "an_operation kind phase = \<lparr>go_kind = kind, go_phase = phase, go_agent = None, go_done = None, go_total = None,
     go_target_version = None, go_warnings = [], go_error = None\<rparr>"

text \<open>What the renders of one operation leave the watch: the first version known while it ran.\<close>

definition operation_renders :: "(gateway_operation \<times> string) list \<Rightarrow> notice_event list" where
  "operation_renders rs = map (\<lambda>(op, version). NoticeRender (Some op) version) rs"

lemma update_while_active:
  assumes "uw_active (nc_update s)"
  shows "uw_active (nc_update (fst (run_events notice_step s (operation_renders rs)))) \<and>
    uw_before (nc_update (fst (run_events notice_step s (operation_renders rs)))) =
      (if uw_before (nc_update s) \<noteq> [] then uw_before (nc_update s)
       else nullish (List.find (\<lambda>v. v \<noteq> []) (map snd rs)) [])"
  using assms
proof (induction rs arbitrary: s)
  case (Cons r rs)
  obtain op v where r: "r = (op, v)" by (cases r)
  let ?s = "fst (notice_step s (NoticeRender (Some op) v))"
  have u: "nc_update ?s = (if uw_before (nc_update s) = [] \<and> v \<noteq> [] then (nc_update s)\<lparr>uw_before := v\<rparr> else nc_update s)"
    using Cons.prems by (simp add: set_update_ok set_restart_ok Let_def derive_update_def)
  then have "uw_active (nc_update ?s)" using Cons.prems by simp
  from Cons.IH [OF this] u show ?case by (simp add: operation_renders_def r)
qed (simp add: operation_renders_def)

lemma restart_while_active:
  assumes "rw_active (nc_restart s)" "rs \<noteq> []"
  shows "rw_active (nc_restart (fst (run_events notice_step s (operation_renders rs)))) \<and>
    rw_watching (nc_restart (fst (run_events notice_step s (operation_renders rs)))) = watches_restart (Some (fst (last rs)))"
  using assms
proof (induction rs arbitrary: s)
  case (Cons r rs)
  obtain op v where r: "r = (op, v)" by (cases r)
  let ?s = "fst (notice_step s (NoticeRender (Some op) v))"
  have u: "rw_active (nc_restart ?s)" "rw_watching (nc_restart ?s) = watches_restart (Some op)"
    using Cons.prems by (auto simp: set_update_ok set_restart_ok Let_def derive_restart_def)
  show ?case
  proof (cases "rs = []")
    case True
    with u show ?thesis by (simp add: operation_renders_def r)
  next
    case False
    from Cons.IH [OF u(1) False] False show ?thesis by (simp add: operation_renders_def r)
  qed
qed simp

text \<open>The operation the user watched from its first render to its end is resolved rightly: when it
  clears, the update notice names the version shown then exactly if that is not the version first known
  while it ran, and the restart notice shows exactly if the last state seen was a restart that had not
  failed.\<close>

theorem watched_operation_is_resolved:
  assumes "\<not> uw_active (nc_update s)" "\<not> rw_active (nc_restart s)" "rs \<noteq> []"
    and "t = fst (run_events notice_step s (operation_renders rs @ [NoticeRender None version]))"
  shows "uw_updated_to (nc_update t) =
      (case List.find (\<lambda>v. v \<noteq> []) (map snd rs) of
         None \<Rightarrow> None | Some before \<Rightarrow> if version \<noteq> [] \<and> before \<noteq> version then Some version else None) \<and>
    rw_restarted (nc_restart t) = watches_restart (Some (fst (last rs)))"
proof -
  obtain op v rest where rs: "rs = (op, v) # rest" using assms(3) by (cases rs) auto
  let ?s = "fst (notice_step s (NoticeRender (Some op) v))"
  let ?u = "fst (run_events notice_step ?s (operation_renders rest))"
  have s: "uw_active (nc_update ?s)" "uw_before (nc_update ?s) = v" "rw_active (nc_restart ?s)"
    "rw_watching (nc_restart ?s) = watches_restart (Some op)"
    using assms(1,2) by (simp_all add: set_update_ok set_restart_ok Let_def derive_update_def derive_restart_def)
  have t: "t = fst (notice_step ?u (NoticeRender None version))"
    by (simp add: assms(4) rs operation_renders_def run_events_append)
  have before: "uw_before (nc_update ?u) = nullish (List.find (\<lambda>v. v \<noteq> []) (map snd rs)) []" "uw_active (nc_update ?u)"
    using update_while_active [OF s(1), of rest] s(2) by (auto simp: rs)
  have watching: "rw_watching (nc_restart ?u) = watches_restart (Some (fst (last rs)))" "rw_active (nc_restart ?u)"
    using restart_while_active [OF s(3), of rest] s(3,4) by (cases "rest = []"; simp add: rs operation_renders_def)+
  have "uw_updated_to (nc_update t) =
      (if uw_before (nc_update ?u) \<noteq> [] \<and> version \<noteq> [] \<and> uw_before (nc_update ?u) \<noteq> version then Some version else None)"
    using before(2) by (simp add: t set_update_ok set_restart_ok Let_def derive_update_def)
  moreover have "rw_restarted (nc_restart t) = rw_watching (nc_restart ?u)"
    using watching(2) by (simp add: t set_update_ok set_restart_ok Let_def derive_restart_def)
  moreover have "before \<noteq> []" if "List.find (\<lambda>v. v \<noteq> []) (map snd rs) = Some before" for before
    using that by (auto simp: find_Some_iff)
  ultimately show ?thesis using before(1) watching(1) by (auto split: option.splits)
qed

theorem watched_operation_is_resolved_witness:
  "uw_updated_to (nc_update (fst (run_events notice_step (mounted_notices None ''1.0'')
      (operation_renders [(an_operation ''update'' ''applying'', []), (an_operation ''update'' ''restarting'', ''1.0'')] @
       [NoticeRender None ''1.1''])))) = Some ''1.1''"
  using watched_operation_is_resolved [OF _ _ _ refl, of "mounted_notices None ''1.0''"
      "[(an_operation ''update'' ''applying'', []), (an_operation ''update'' ''restarting'', ''1.0'')]" "''1.1''"]
  by (simp add: mounted_notices_def derive_update_def first_update_watch_def first_restart_watch_def)

theorem notice_shows_while_its_timer_runs_witness:
  "nc_update_timer (fst (run_events notice_step (mounted_notices (Some (an_operation ''update'' ''applying'')) ''1.0'')
      [NoticeRender None ''1.1''])) = (uw_updated_to (nc_update (fst (run_events notice_step
        (mounted_notices (Some (an_operation ''update'' ''applying'')) ''1.0'') [NoticeRender None ''1.1'']))) \<noteq> None)"
  using notice_shows_while_its_timer_runs [OF _ refl, of "Some (an_operation ''update'' ''applying'')" "''1.0''" "[NoticeRender None ''1.1'']"]
  by simp

end
