(* ===== verification/Viewer.thy ===== *)
theory Viewer
  imports Prelude
begin

section \<open>The attachment viewers (apps/mobile/src/agent/chat/viewer-gesture.ts, attachment-viewer.tsx,
  apps/web/src/components/Chat/AttachmentViewer/)\<close>

text \<open>
  The zoom and pan of both viewers; the web's \<^verbatim>\<open>viewer-zoom.ts\<close> has the same functions under the names \<^verbatim>\<open>ZoomState\<close>,
  \<^verbatim>\<open>resetZoom\<close> and \<^verbatim>\<open>DOUBLE_CLICK_SCALE\<close>.  Lengths and scales are rationals, and rounding is not modelled.  A viewer
  is its transform with the gestures of its component: in the mobile app the shared values that the gesture
  handlers read and set, with the window's size, which a rotation changes, in the web app the state and the last
  point of a drag.  The exponential of a wheel event is
  the event's factor.
\<close>

subsection \<open>The model of the gestures\<close>

record viewer_transform =
  vt_scale :: rat
  vt_x :: rat
  vt_y :: rat

record size2 =
  sz_width :: rat
  sz_height :: rat

record point2 =
  pt_x :: rat
  pt_y :: rat

definition zoom_max :: rat where "zoom_max = 4"
definition double_tap_scale :: rat where "double_tap_scale = 2"
definition dismiss_drag_px :: rat where "dismiss_drag_px = 90"

definition reset_transform :: viewer_transform where
  "reset_transform = \<lparr>vt_scale = 1, vt_x = 0, vt_y = 0\<rparr>"

definition clamp_value :: "rat \<Rightarrow> rat \<Rightarrow> rat" where
  "clamp_value v b = min b (max (- b) v)"

definition pan_bound :: "rat \<Rightarrow> rat \<Rightarrow> rat \<Rightarrow> rat" where
  "pan_bound content scale container = max 0 ((content * scale - container) / 2)"

definition clamp_pan :: "viewer_transform \<Rightarrow> size2 \<Rightarrow> size2 \<Rightarrow> viewer_transform" where
  "clamp_pan t container content =
     \<lparr>vt_scale = vt_scale t,
      vt_x = clamp_value (vt_x t) (pan_bound (sz_width content) (vt_scale t) (sz_width container)),
      vt_y = clamp_value (vt_y t) (pan_bound (sz_height content) (vt_scale t) (sz_height container))\<rparr>"

definition zoom_at :: "viewer_transform \<Rightarrow> point2 \<Rightarrow> rat \<Rightarrow> size2 \<Rightarrow> size2 \<Rightarrow> viewer_transform" where
  "zoom_at t focal factor container content =
     (let scale = min zoom_max (max 1 (vt_scale t * factor));
          ratio = scale / vt_scale t
      in clamp_pan \<lparr>vt_scale = scale, vt_x = pt_x focal - (pt_x focal - vt_x t) * ratio,
                    vt_y = pt_y focal - (pt_y focal - vt_y t) * ratio\<rparr> container content)"

definition pan_by :: "viewer_transform \<Rightarrow> rat \<Rightarrow> rat \<Rightarrow> size2 \<Rightarrow> size2 \<Rightarrow> viewer_transform" where
  "pan_by t dx dy container content =
     clamp_pan \<lparr>vt_scale = vt_scale t, vt_x = vt_x t + dx, vt_y = vt_y t + dy\<rparr> container content"

definition toggle_zoom :: "viewer_transform \<Rightarrow> point2 \<Rightarrow> size2 \<Rightarrow> size2 \<Rightarrow> viewer_transform" where
  "toggle_zoom t focal container content =
     (if vt_scale t > 101 / 100 then reset_transform else zoom_at t focal double_tap_scale container content)"

definition fitted_size :: "size2 \<Rightarrow> size2 \<Rightarrow> size2" where
  "fitted_size container media =
     (if sz_width media \<le> 0 \<or> sz_height media \<le> 0 then container
      else let scale = min (sz_width container / sz_width media) (sz_height container / sz_height media)
           in \<lparr>sz_width = sz_width media * scale, sz_height = sz_height media * scale\<rparr>)"

subsection \<open>The mobile viewer\<close>

record zoomable =
  zo_container :: size2
  zo_transform :: viewer_transform
  zo_start :: viewer_transform
  zo_dismiss :: rat
  zo_closing :: bool

datatype gesture_event =
  PinchStart
| PinchUpdate point2 rat
| PinchEnd
| PanStart
| PanUpdate rat rat
| PanEnd bool
| DismissFrame rat
| DismissFinished
| DoubleTap point2
| Rotates size2

datatype gesture_out = ClosesViewer

definition open_zoomable :: "size2 \<Rightarrow> zoomable" where
  "open_zoomable container =
     \<lparr>zo_container = container, zo_transform = reset_transform, zo_start = reset_transform, zo_dismiss = 0,
      zo_closing = False\<rparr>"

text \<open>The size of the media: an attachment without its own takes the window's.\<close>

definition zo_fitted :: "size2 option \<Rightarrow> zoomable \<Rightarrow> size2" where
  "zo_fitted media s = fitted_size (zo_container s) (case media of None \<Rightarrow> zo_container s | Some m \<Rightarrow> m)"

text \<open>What is drawn: the transform, moved down by the drag that dismisses.\<close>

definition rendered_transform :: "zoomable \<Rightarrow> viewer_transform" where
  "rendered_transform s = (zo_transform s)\<lparr>vt_y := vt_y (zo_transform s) + zo_dismiss s\<rparr>"

text \<open>The focal point of an event, which counts from the surface's corner, relative to its center.\<close>

definition from_center :: "point2 \<Rightarrow> size2 \<Rightarrow> point2" where
  "from_center p container = \<lparr>pt_x = pt_x p - sz_width container / 2, pt_y = pt_y p - sz_height container / 2\<rparr>"

fun gesture_step :: "size2 option \<Rightarrow> zoomable \<Rightarrow> gesture_event \<Rightarrow> zoomable \<times> gesture_out list" where
  "gesture_step media s PinchStart = (s\<lparr>zo_start := zo_transform s\<rparr>, [])"
| "gesture_step media s (PinchUpdate p factor) =
     (s\<lparr>zo_transform :=
          zoom_at (zo_start s) (from_center p (zo_container s)) factor (zo_container s) (zo_fitted media s)\<rparr>, [])"
| "gesture_step media s PinchEnd = (s\<lparr>zo_transform := clamp_pan (zo_transform s) (zo_container s) (zo_fitted media s)\<rparr>, [])"
| "gesture_step media s PanStart = (s\<lparr>zo_start := zo_transform s\<rparr>, [])"
| "gesture_step media s (PanUpdate dx dy) =
     (if vt_scale (zo_start s) > 101 / 100
      then (s\<lparr>zo_transform := pan_by (zo_start s) dx dy (zo_container s) (zo_fitted media s)\<rparr>, [])
      else (s\<lparr>zo_dismiss := max 0 dy, zo_closing := False\<rparr>, []))"
| "gesture_step media s (PanEnd success) =
     (s\<lparr>zo_closing := success \<and> zo_dismiss s > dismiss_drag_px\<rparr>, [])"
| "gesture_step media s (DismissFrame v) = (s\<lparr>zo_dismiss := v\<rparr>, [])"
| "gesture_step media s DismissFinished = (s\<lparr>zo_closing := False\<rparr>, if zo_closing s then [ClosesViewer] else [])"
| "gesture_step media s (DoubleTap p) =
     (s\<lparr>zo_transform :=
          toggle_zoom (zo_transform s) (from_center p (zo_container s)) (zo_container s) (zo_fitted media s)\<rparr>, [])"
| "gesture_step media s (Rotates container) = (s\<lparr>zo_container := container\<rparr>, [])"

text \<open>A frame of an animation goes between where it is and its end, which for the closing one is the height of the
  window it began in; a pinch reports a positive scale.\<close>

definition size_ok :: "size2 \<Rightarrow> bool" where
  "size_ok sz \<longleftrightarrow> 0 \<le> sz_width sz \<and> 0 \<le> sz_height sz"

fun gesture_enabled :: "zoomable \<Rightarrow> gesture_event \<Rightarrow> bool" where
  "gesture_enabled s (PinchUpdate p factor) = (0 < factor)"
| "gesture_enabled s (DismissFrame v) = (if zo_closing s then zo_dismiss s \<le> v else 0 \<le> v \<and> v \<le> zo_dismiss s)"
| "gesture_enabled s (Rotates container) = size_ok container"
| "gesture_enabled s e = True"

text \<open>An event that places the media anew.\<close>

fun places :: "zoomable \<Rightarrow> gesture_event \<Rightarrow> bool" where
  "places s (PinchUpdate p factor) \<longleftrightarrow> True"
| "places s PinchEnd \<longleftrightarrow> True"
| "places s (PanUpdate dx dy) \<longleftrightarrow> vt_scale (zo_start s) > 101 / 100"
| "places s (DoubleTap p) \<longleftrightarrow> True"
| "places s e \<longleftrightarrow> False"

fun is_rotation :: "gesture_event \<Rightarrow> bool" where
  "is_rotation (Rotates c) = True"
| "is_rotation e = False"

subsection \<open>The web viewer\<close>

record image_zoom =
  iz_zoom :: viewer_transform
  iz_drag :: "point2 option"

datatype pointer_event =
  Wheel point2 rat
| DoubleClick point2
| PointerDown point2
| PointerMove point2
| PointerEnd

definition open_image :: image_zoom where
  "open_image = \<lparr>iz_zoom = reset_transform, iz_drag = None\<rparr>"

text \<open>\<open>getBoundingClientRect\<close> is of the image as it is transformed: its center is the image's own, moved by the pan.\<close>

definition cursor_at :: "point2 \<Rightarrow> viewer_transform \<Rightarrow> point2 \<Rightarrow> point2" where
  "cursor_at center t client =
     \<lparr>pt_x = pt_x client - (pt_x center + vt_x t), pt_y = pt_y client - (pt_y center + vt_y t)\<rparr>"

fun pointer_step :: "point2 \<Rightarrow> size2 \<Rightarrow> image_zoom \<Rightarrow> pointer_event \<Rightarrow> image_zoom \<times> unit list" where
  "pointer_step center box s (Wheel p factor) =
     (s\<lparr>iz_zoom := zoom_at (iz_zoom s) (cursor_at center (iz_zoom s) p) factor box box\<rparr>, [])"
| "pointer_step center box s (DoubleClick p) =
     (s\<lparr>iz_zoom := toggle_zoom (iz_zoom s) (cursor_at center (iz_zoom s) p) box box\<rparr>, [])"
| "pointer_step center box s (PointerDown p) = (if vt_scale (iz_zoom s) \<le> 1 then s else s\<lparr>iz_drag := Some p\<rparr>, [])"
| "pointer_step center box s (PointerMove p) =
     (case iz_drag s of
        None \<Rightarrow> (s, [])
      | Some was \<Rightarrow>
          (s\<lparr>iz_drag := Some p, iz_zoom := pan_by (iz_zoom s) (pt_x p - pt_x was) (pt_y p - pt_y was) box box\<rparr>, []))"
| "pointer_step center box s PointerEnd = (s\<lparr>iz_drag := None\<rparr>, [])"

fun pointer_enabled :: "image_zoom \<Rightarrow> pointer_event \<Rightarrow> bool" where
  "pointer_enabled s (Wheel p factor) = (0 < factor)"
| "pointer_enabled s e = True"

subsection \<open>The bounds of the pan\<close>

text \<open>What is in bounds: the scale between fitted and the largest, and on each axis the content covers the container
  where it is larger, and is centered where it is not.\<close>

definition axis_in_bounds :: "rat \<Rightarrow> rat \<Rightarrow> rat \<Rightarrow> rat \<Rightarrow> bool" where
  "axis_in_bounds pos content scale container \<longleftrightarrow>
     (if content * scale \<le> container then pos = 0
      else pos - content * scale / 2 \<le> - (container / 2) \<and> container / 2 \<le> pos + content * scale / 2)"

definition in_bounds :: "viewer_transform \<Rightarrow> size2 \<Rightarrow> size2 \<Rightarrow> bool" where
  "in_bounds t container content \<longleftrightarrow>
     1 \<le> vt_scale t \<and> vt_scale t \<le> zoom_max \<and>
     axis_in_bounds (vt_x t) (sz_width content) (vt_scale t) (sz_width container) \<and>
     axis_in_bounds (vt_y t) (sz_height content) (vt_scale t) (sz_height container)"

lemma clamped_axis: "axis_in_bounds (clamp_value v (pan_bound content scale container)) content scale container"
  by (auto simp: axis_in_bounds_def clamp_value_def pan_bound_def min_def max_def field_simps)

lemma axis_clamped: "axis_in_bounds v content scale container \<Longrightarrow> clamp_value v (pan_bound content scale container) = v"
  by (auto simp: axis_in_bounds_def clamp_value_def pan_bound_def min_def max_def field_simps split: if_splits)

lemma clamp_pan_in_bounds: "1 \<le> vt_scale t \<Longrightarrow> vt_scale t \<le> zoom_max \<Longrightarrow> in_bounds (clamp_pan t container content) container content"
  by (simp add: in_bounds_def clamp_pan_def clamped_axis)

lemma in_bounds_clamped: "in_bounds t container content \<Longrightarrow> clamp_pan t container content = t"
  by (simp add: in_bounds_def clamp_pan_def axis_clamped)

lemma zoom_at_in_bounds: "in_bounds (zoom_at t focal factor container content) container content"
  by (simp add: zoom_at_def Let_def clamp_pan_in_bounds zoom_max_def)

lemma pan_by_in_bounds: "in_bounds t container content \<Longrightarrow> in_bounds (pan_by t dx dy container content) container content"
  by (simp add: pan_by_def clamp_pan_in_bounds in_bounds_def [of t])

lemma reset_in_bounds:
  "sz_width content \<le> sz_width container \<Longrightarrow> sz_height content \<le> sz_height container \<Longrightarrow>
     in_bounds reset_transform container content"
  by (simp add: in_bounds_def reset_transform_def axis_in_bounds_def zoom_max_def)

lemma toggle_zoom_in_bounds:
  "sz_width content \<le> sz_width container \<Longrightarrow> sz_height content \<le> sz_height container \<Longrightarrow>
     in_bounds (toggle_zoom t focal container content) container content"
  by (simp add: toggle_zoom_def reset_in_bounds zoom_at_in_bounds)

text \<open>The fitted size is inside the container, reaches one of its sides, and has the media's proportions.\<close>

theorem fitted_media_fits:
  assumes "0 < sz_width media" "0 < sz_height media" "0 < sz_width container" "0 < sz_height container"
  shows "let f = fitted_size container media in
    sz_width f \<le> sz_width container \<and> sz_height f \<le> sz_height container \<and>
    (sz_width f = sz_width container \<or> sz_height f = sz_height container) \<and>
    sz_width f * sz_height media = sz_height f * sz_width media"
  using assms by (auto simp: fitted_size_def Let_def min_def field_simps)

theorem fitted_media_fits_witness:
  "let f = fitted_size \<lparr>sz_width = 400, sz_height = 800\<rparr> \<lparr>sz_width = 1000, sz_height = 500\<rparr> in
    sz_width f \<le> 400 \<and> sz_height f \<le> 800 \<and> (sz_width f = 400 \<or> sz_height f = 800) \<and> sz_width f * 500 = sz_height f * 1000"
  using fitted_media_fits [of "\<lparr>sz_width = 1000, sz_height = 500\<rparr>" "\<lparr>sz_width = 400, sz_height = 800\<rparr>"] by simp

lemma fitted_inside:
  assumes "0 \<le> sz_width container" "0 \<le> sz_height container"
  shows "sz_width (fitted_size container media) \<le> sz_width container \<and> sz_height (fitted_size container media) \<le> sz_height container"
proof (cases "sz_width media \<le> 0 \<or> sz_height media \<le> 0")
  case False
  then have pos: "0 < sz_width media" "0 < sz_height media" by simp_all
  have "w * min (c / w) b \<le> c \<and> w * min b (c / w) \<le> c" if "0 < w" for w b c :: rat
    using that mult_left_mono [of "min (c / w) b" "c / w" w] mult_left_mono [of "min b (c / w)" "c / w" w] by simp
  with pos False show ?thesis by (simp add: fitted_size_def Let_def)
qed (simp add: fitted_size_def)

lemma fitted_no_larger:
  assumes "size_ok (zo_container s)"
  shows "sz_width (zo_fitted media s) \<le> sz_width (zo_container s)" "sz_height (zo_fitted media s) \<le> sz_height (zo_container s)"
  using assms fitted_inside by (simp_all add: zo_fitted_def size_ok_def)

definition media_in_bounds :: "size2 option \<Rightarrow> zoomable \<Rightarrow> bool" where
  "media_in_bounds media s \<longleftrightarrow> in_bounds (zo_transform s) (zo_container s) (zo_fitted media s)"

definition scaled :: "viewer_transform \<Rightarrow> bool" where
  "scaled t \<longleftrightarrow> 1 \<le> vt_scale t \<and> vt_scale t \<le> zoom_max"

definition zoomable_ok :: "zoomable \<Rightarrow> bool" where
  "zoomable_ok s \<longleftrightarrow> size_ok (zo_container s) \<and> scaled (zo_transform s) \<and> scaled (zo_start s) \<and> 0 \<le> zo_dismiss s"

lemma in_bounds_scaled: "in_bounds t container content \<Longrightarrow> scaled t"
  by (simp add: in_bounds_def scaled_def)

lemma fitted_view: "zo_container s' = zo_container s \<Longrightarrow> zo_fitted media s' = zo_fitted media s"
  by (cases media) (simp_all add: zo_fitted_def)

lemma fitted_updates [simp]:
  "zo_fitted media (s\<lparr>zo_transform := t\<rparr>) = zo_fitted media s" "zo_fitted media (s\<lparr>zo_start := t\<rparr>) = zo_fitted media s"
  "zo_fitted media (s\<lparr>zo_dismiss := v\<rparr>) = zo_fitted media s" "zo_fitted media (s\<lparr>zo_closing := b\<rparr>) = zo_fitted media s"
  by (rule fitted_view; simp)+

lemma placed_in_bounds: "zoomable_ok s \<Longrightarrow> places s e \<Longrightarrow> media_in_bounds media (fst (gesture_step media s e))"
  using fitted_no_larger [of s media]
  by (cases e) (auto simp: zoomable_ok_def scaled_def media_in_bounds_def zoom_at_in_bounds
      toggle_zoom_in_bounds pan_by_def intro!: clamp_pan_in_bounds)

lemma step_keeps:
  "\<not> places s e \<Longrightarrow> zo_transform (fst (gesture_step media s e)) = zo_transform s"
  "\<not> is_rotation e \<Longrightarrow> zo_container (fst (gesture_step media s e)) = zo_container s"
  by (cases e; simp)+

lemma stays_in_bounds:
  assumes "zoomable_ok s" "media_in_bounds media s" "\<not> is_rotation e"
  shows "media_in_bounds media (fst (gesture_step media s e))"
proof (cases "places s e")
  case True
  with assms(1) show ?thesis by (rule placed_in_bounds)
next
  case False
  from step_keeps(1) [OF this] step_keeps(2) [OF assms(3)] assms(2) show ?thesis
    by (simp add: media_in_bounds_def fitted_view [OF step_keeps(2) [OF assms(3)]])
qed

lemma gesture_ok:
  assumes "zoomable_ok s" "gesture_enabled s e"
  shows "zoomable_ok (fst (gesture_step media s e))"
proof (cases "places s e")
  case True
  from in_bounds_scaled [OF placed_in_bounds [OF assms(1) this, unfolded media_in_bounds_def]] assms True
  show ?thesis by (cases e) (simp_all add: zoomable_ok_def)
qed (use assms in \<open>cases e; auto simp: zoomable_ok_def split: if_splits\<close>)

interpretation mobile_viewer: machine "gesture_step media" gesture_enabled zoomable_ok for media
  by unfold_locales (rule gesture_ok)

interpretation still_viewer: machine "gesture_step media" "\<lambda>s e. gesture_enabled s e \<and> \<not> is_rotation e"
    "\<lambda>s. zoomable_ok s \<and> media_in_bounds media s" for media
  by unfold_locales (simp add: gesture_ok stays_in_bounds)

lemma unrotated_legal:
  "legal_events (gesture_step media) gesture_enabled s es \<Longrightarrow> list_all (\<lambda>e. \<not> is_rotation e) es \<Longrightarrow>
     legal_events (gesture_step media) (\<lambda>s e. gesture_enabled s e \<and> \<not> is_rotation e) s es"
  by (induction es arbitrary: s) auto

lemma pointer_ok: "in_bounds (iz_zoom s) box box \<Longrightarrow> in_bounds (iz_zoom (fst (pointer_step center box s e))) box box"
  by (cases e) (auto simp: zoom_at_in_bounds pan_by_in_bounds toggle_zoom_in_bounds split: option.split)

interpretation web_viewer: machine "pointer_step center box" pointer_enabled "\<lambda>s. in_bounds (iz_zoom s) box box" for center box
  by unfold_locales (rule pointer_ok)

subsection \<open>What the viewers promise\<close>

text \<open>C29: The viewers keep the media in the viewport: whatever gestures are made, in whatever order and however far,
  the scale stays between fitted and four; in a window that keeps its size the media covers the viewport on each
  axis where it is larger and is centered where it is not, and after a rotation of the phone the next gesture that
  places the media puts it back there. What the phone draws is this place, moved only down and only by the drag that
  dismisses the viewer. The web's viewer keeps the bounds while its box keeps its size. (A rotation itself
  leaves the media where it was: \<open>rotation_leaves_it_outside\<close>.)\<close>

theorem viewers_stay_in_bounds:
  assumes "size_ok container" "legal_events (gesture_step media) gesture_enabled (open_zoomable container) es"
    "s = fst (run_events (gesture_step media) (open_zoomable container) es)"
    "legal_events (pointer_step center box) pointer_enabled open_image ps"
  shows "1 \<le> vt_scale (rendered_transform s) \<and> vt_scale (rendered_transform s) \<le> zoom_max \<and>
    (list_all (\<lambda>e. \<not> is_rotation e) es \<longrightarrow> in_bounds (zo_transform s) (zo_container s) (zo_fitted media s)) \<and>
    (places s e \<longrightarrow> (let t = fst (gesture_step media s e) in in_bounds (zo_transform t) (zo_container t) (zo_fitted media t))) \<and>
    vt_x (rendered_transform s) = vt_x (zo_transform s) \<and>
    vt_y (rendered_transform s) = vt_y (zo_transform s) + zo_dismiss s \<and> 0 \<le> zo_dismiss s \<and>
    in_bounds (iz_zoom (fst (run_events (pointer_step center box) open_image ps))) box box"
proof -
  have start: "zoomable_ok (open_zoomable container)"
    using assms(1) by (simp add: zoomable_ok_def open_zoomable_def scaled_def reset_transform_def zoom_max_def)
  have first: "media_in_bounds media (open_zoomable container)"
    using reset_in_bounds fitted_no_larger [of "open_zoomable container" media] assms(1)
    by (simp add: media_in_bounds_def open_zoomable_def)
  have ok: "zoomable_ok s" unfolding assms(3) by (rule mobile_viewer.run_inv [OF start assms(2)])
  have "media_in_bounds media s" if "list_all (\<lambda>e. \<not> is_rotation e) es"
    using still_viewer.run_inv [OF _ unrotated_legal [OF assms(2) that]] start first by (simp add: assms(3))
  moreover have "in_bounds (iz_zoom (fst (run_events (pointer_step center box) open_image ps))) box box"
    by (rule web_viewer.run_inv [OF _ assms(4)]) (simp add: open_image_def reset_in_bounds)
  ultimately show ?thesis using ok placed_in_bounds [OF ok, of e media]
    by (simp add: rendered_transform_def media_in_bounds_def zoomable_ok_def scaled_def Let_def)
qed

definition square :: size2 where "square = \<lparr>sz_width = 400, sz_height = 400\<rparr>"

definition middle :: point2 where "middle = \<lparr>pt_x = 0, pt_y = 0\<rparr>"

theorem viewers_stay_in_bounds_witness:
  "let s = fst (run_events (gesture_step (Some square)) (open_zoomable square) [DoubleTap middle]) in
    in_bounds (zo_transform s) (zo_container s) (zo_fitted (Some square) s)"
  using viewers_stay_in_bounds [of square "Some square" "[DoubleTap middle]" _ middle square "[]" PinchEnd, OF _ _ refl]
  by (simp add: Let_def square_def size_ok_def)

text \<open>A zoom and a pan to the edge of a tall picture; then the phone is turned, and nothing of the picture is left in
  the left half of the window.\<close>

definition tall :: size2 where "tall = \<lparr>sz_width = 400, sz_height = 800\<rparr>"

lemma rotation_leaves_it_outside:
  "let s = fst (run_events (gesture_step (Some tall)) (open_zoomable tall)
       [PinchStart, PinchUpdate \<lparr>pt_x = 200, pt_y = 400\<rparr> 4, PinchEnd, PanStart, PanUpdate 600 0,
        Rotates \<lparr>sz_width = 800, sz_height = 400\<rparr>])
   in \<not> in_bounds (zo_transform s) (zo_container s) (zo_fitted (Some tall) s) \<and>
      vt_x (zo_transform s) - sz_width (zo_fitted (Some tall) s) * vt_scale (zo_transform s) / 2 = 200"
  by (simp add: run_events.simps(2) open_zoomable_def tall_def zo_fitted_def fitted_size_def zoom_at_def from_center_def clamp_pan_def clamp_value_def
      pan_bound_def pan_by_def reset_transform_def zoom_max_def in_bounds_def axis_in_bounds_def Let_def)

text \<open>The point of the media that is under a point of the viewport.\<close>

definition media_point :: "viewer_transform \<Rightarrow> point2 \<Rightarrow> point2" where
  "media_point t p = \<lparr>pt_x = (pt_x p - vt_x t) / vt_scale t, pt_y = (pt_y p - vt_y t) / vt_scale t\<rparr>"

text \<open>A zoom is anchored: on an axis where the clamp does not have to move the media, the point of the media under
  the focal point is the one that was there, whatever the factor.\<close>

theorem zoom_keeps_the_focal_point:
  assumes "0 < vt_scale t"
  shows "let z = zoom_at t focal factor container content; s = vt_scale z;
      x = pt_x focal - (pt_x focal - vt_x t) * (s / vt_scale t); y = pt_y focal - (pt_y focal - vt_y t) * (s / vt_scale t) in
    (axis_in_bounds x (sz_width content) s (sz_width container) \<longrightarrow> pt_x (media_point z focal) = pt_x (media_point t focal)) \<and>
    (axis_in_bounds y (sz_height content) s (sz_height container) \<longrightarrow> pt_y (media_point z focal) = pt_y (media_point t focal))"
proof -
  have pos: "0 < min zoom_max (max 1 (vt_scale t * factor))" by (simp add: zoom_max_def min_def max_def)
  have "(f - (f - (f - v) * (s / u))) / s = (f - v) / u" if "0 < s" "0 < u" for f v s u :: rat
    using that by (simp add: field_simps)
  from this [OF pos assms] show ?thesis by (simp add: zoom_at_def clamp_pan_def media_point_def Let_def axis_clamped)
qed

theorem zoom_keeps_the_focal_point_witness:
  "media_point (zoom_at reset_transform \<lparr>pt_x = 100, pt_y = 50\<rparr> 2 square square) \<lparr>pt_x = 100, pt_y = 50\<rparr> = \<lparr>pt_x = 100, pt_y = 50\<rparr>"
  using zoom_keeps_the_focal_point [of reset_transform "\<lparr>pt_x = 100, pt_y = 50\<rparr>" 2 square square]
  by (simp add: reset_transform_def zoom_at_def clamp_pan_def media_point_def axis_in_bounds_def square_def zoom_max_def
      clamp_value_def pan_bound_def Let_def)

text \<open>The web viewer measures its cursor from the image as it is moved, so once an image is panned its zoom is not
  anchored: here the point at the viewport's center, where the pointer is, was 50 pixels to the left of the image's
  center; zoomed, the pointer is at another point of it.\<close>

definition panned :: image_zoom where
  "panned = \<lparr>iz_zoom = \<lparr>vt_scale = 2, vt_x = 100, vt_y = 0\<rparr>, iz_drag = None\<rparr>"

lemma panned_zoom_drifts:
  "media_point (iz_zoom panned) \<lparr>pt_x = 0, pt_y = 0\<rparr> = \<lparr>pt_x = - 50, pt_y = 0\<rparr>"
  "media_point (iz_zoom (fst (pointer_step \<lparr>pt_x = 0, pt_y = 0\<rparr> square panned (Wheel \<lparr>pt_x = 0, pt_y = 0\<rparr> (3 / 2)))))
     \<lparr>pt_x = 0, pt_y = 0\<rparr> = \<lparr>pt_x = - (200 / 3), pt_y = 0\<rparr>"
  by (simp_all add: panned_def media_point_def zoom_at_def cursor_at_def clamp_pan_def clamp_value_def pan_bound_def square_def
      zoom_max_def Let_def)

end
