(* ===== verification/VoiceApi.thy ===== *)
theory VoiceApi
  imports Api VoicePanel
begin

section \<open>The voice service's routes (api/voice.ts)\<close>

text \<open>
  The routes of the voice service, over the client of \<open>Api\<close>.  The four requests behind the settings
  start together; what \<open>Promise.all\<close> makes of them is a function of their answers in the order they
  arrive.
\<close>

datatype voice_domain = Stt | Tts | Judge

fun domain_name :: "voice_domain \<Rightarrow> string" where
  "domain_name Stt = ''stt''"
| "domain_name Tts = ''tts''"
| "domain_name Judge = ''judge''"

definition voice_path :: "string \<Rightarrow> string \<Rightarrow> string" where
  "voice_path name suffix = agent_path name (''/voice/'' @ suffix)"

text \<open>\<open>{...status, settings}\<close>: the property is replaced where it stands.\<close>

definition replace_field :: "string \<Rightarrow> json \<Rightarrow> jobj \<Rightarrow> jobj" where
  "replace_field key v ps = map (\<lambda>(k, x). (k, if k = key then v else x)) ps"

definition truthy :: "json option \<Rightarrow> bool" where
  "truthy v = (case v of None \<Rightarrow> False | Some JNull \<Rightarrow> False | Some (JBool b) \<Rightarrow> b | Some (JNum n) \<Rightarrow> n \<noteq> 0
     | Some (JStr s) \<Rightarrow> s \<noteq> [] | Some _ \<Rightarrow> True)"

definition kept_settings :: "json list \<Rightarrow> json list" where
  "kept_settings settings = filter (\<lambda>s. get_prop ''key'' s \<noteq> Inr (Some (JStr ''interrupt_tts''))) settings"

definition voice_status_of :: "json \<Rightarrow> api_error + json" where
  "voice_status_of status =
     (case get_prop ''settings'' status of
        Inl e \<Rightarrow> Inl e
      | Inr settings \<Rightarrow>
          if \<not> truthy settings then Inr status
          else (case (as_record (Some status), as_arr settings) of
                  (Some ps, Some ss) \<Rightarrow>
                    if JNull \<in> set ss then Inl TypeFailed
                    else Inr (JObj (replace_field ''settings'' (JArr (kept_settings ss)) ps))
                | _ \<Rightarrow> Inl TypeFailed))"

definition voice_status :: "'w http_client \<Rightarrow> string \<Rightarrow> http_init \<Rightarrow> ('w, json) io" where
  "voice_status http path init = io_bind (call_json http path init) (\<lambda>v. io_check (voice_status_of v))"

definition voice_session_path :: "string \<Rightarrow> string" where
  "voice_session_path name = voice_path name ''voice/session''"

definition voice_play_path :: "string \<Rightarrow> string \<Rightarrow> string" where
  "voice_play_path name engine_path =
     voice_path name (if starts_with ''/'' engine_path then drop 1 engine_path else engine_path)"

definition tts_stream_path :: "string \<Rightarrow> string \<Rightarrow> string" where
  "tts_stream_path name speech = voice_path name (''tts/stream/'' @ encode_uri_component speech)"

definition tts_stream_query :: "bool \<Rightarrow> (string \<times> string) list" where
  "tts_stream_query plays_ogg_opus = [(''formats'', join '','' (playback_formats plays_ogg_opus))]"

definition fetch_voice_status :: "'w http_client \<Rightarrow> string \<Rightarrow> voice_domain \<Rightarrow> ('w, json) io" where
  "fetch_voice_status http name domain =
     voice_status http (voice_path name (domain_name domain @ ''/status'')) (bare_init ''GET'')"

text \<open>The result is a value or null, so a body that is null is none as well.\<close>

definition none_when_missing :: "api_error + json \<Rightarrow> api_error + json option" where
  "none_when_missing request =
     (case request of
        Inr x \<Rightarrow> Inr (if x = JNull then None else Some x)
      | Inl e \<Rightarrow> (case e of
                    HttpFailed (ApiError status detail) \<Rightarrow> if status = 404 then Inr None else Inl e
                  | _ \<Rightarrow> Inl e))"

datatype settings_ask = AskStatus voice_domain | AskBehaviors

record voice_settings =
  vs_stt :: json
  vs_tts :: json
  vs_judge :: "json option"
  vs_behaviors :: "json option"

definition client_query :: "client_kind \<Rightarrow> string" where
  "client_query client =
     query_string [(''client'', case client of CWeb \<Rightarrow> ''web'' | CMobile \<Rightarrow> ''mobile'' | CDesktop \<Rightarrow> ''desktop'')]"

text \<open>The requests of \<open>fetchVoiceSettings\<close>, in the order they start.\<close>

definition settings_requests :: "string \<Rightarrow> client_kind \<Rightarrow> (settings_ask \<times> string) list" where
  "settings_requests name client =
     map (\<lambda>d. (AskStatus d, voice_path name (domain_name d @ ''/status''))) [Stt, Tts, Judge] @
     [(AskBehaviors, voice_path name (''behavior/status?'' @ client_query client))]"

text \<open>What a request's promise comes to; a missing route is none for the judge and the behaviors (so is a null body; the
  status of a null body is a type error before that).\<close>

definition settings_answer :: "settings_ask \<Rightarrow> api_error + json \<Rightarrow> api_error + json option" where
  "settings_answer ask answer =
     (let status = (case answer of Inl e \<Rightarrow> Inl e | Inr v \<Rightarrow> voice_status_of v)
      in case ask of
           AskStatus Judge \<Rightarrow> none_when_missing status
         | AskStatus d \<Rightarrow> (case status of Inl e \<Rightarrow> Inl e | Inr v \<Rightarrow> Inr (Some v))
         | AskBehaviors \<Rightarrow> none_when_missing answer)"

text \<open>\<open>Promise.all\<close> over the settled promises so far, in the order they settled: rejected by the first
  rejection, resolved when all four are, and pending before that.\<close>

fun first_rejection :: "(settings_ask \<times> (api_error + json option)) list \<Rightarrow> api_error option" where
  "first_rejection [] = None"
| "first_rejection ((ask, Inl e) # rest) = Some e"
| "first_rejection ((ask, Inr v) # rest) = first_rejection rest"

definition voice_settings_settled ::
  "(settings_ask \<times> (api_error + json)) list \<Rightarrow> (api_error + voice_settings) option" where
  "voice_settings_settled answers =
     (let settled = map (\<lambda>(ask, answer). (ask, settings_answer ask answer)) answers;
          value_of = (\<lambda>ask. case map_of settled ask of Some (Inr v) \<Rightarrow> v | _ \<Rightarrow> None);
          given = (\<lambda>ask. ask \<in> fst ` set settled)
      in case first_rejection settled of
           Some e \<Rightarrow> Some (Inl e)
         | None \<Rightarrow>
             if given (AskStatus Stt) \<and> given (AskStatus Tts) \<and> given (AskStatus Judge) \<and> given AskBehaviors
             then Some (Inr \<lparr>vs_stt = the (value_of (AskStatus Stt)), vs_tts = the (value_of (AskStatus Tts)),
                            vs_judge = value_of (AskStatus Judge), vs_behaviors = value_of AskBehaviors\<rparr>)
             else None)"

definition set_voice_behavior :: "'w http_client \<Rightarrow> string \<Rightarrow> client_kind \<Rightarrow> string \<Rightarrow> json \<Rightarrow> ('w, json) io" where
  "set_voice_behavior http name client key v =
     call_json http (voice_path name ''behavior/set'')
       (json_init ''POST'' (JObj [(''key'', JStr key), (''value'', v), (''client'', json_of_client_kind client)]))"

definition fetch_voice_usage :: "'w http_client \<Rightarrow> string \<Rightarrow> voice_domain \<Rightarrow> ('w, json) io" where
  "fetch_voice_usage http name domain =
     call_json http (voice_path name (domain_name domain @ ''/usage'')) (bare_init ''GET'')"

definition set_voice_enabled :: "'w http_client \<Rightarrow> string \<Rightarrow> voice_domain \<Rightarrow> bool \<Rightarrow> ('w, json) io" where
  "set_voice_enabled http name domain v =
     voice_status http (voice_path name (domain_name domain @ ''/set-enabled''))
       (json_init ''POST'' (JObj [(''value'', JBool v)]))"

definition select_voice_provider :: "'w http_client \<Rightarrow> string \<Rightarrow> voice_domain \<Rightarrow> string \<Rightarrow> ('w, json) io" where
  "select_voice_provider http name domain provider =
     voice_status http (voice_path name (domain_name domain @ ''/use''))
       (json_init ''POST'' (JObj [(''provider'', JStr provider)]))"

definition set_voice_setting :: "'w http_client \<Rightarrow> string \<Rightarrow> voice_domain \<Rightarrow> string \<Rightarrow> json \<Rightarrow> ('w, json) io" where
  "set_voice_setting http name domain key v =
     voice_status http (voice_path name (domain_name domain @ ''/set''))
       (json_init ''POST'' (JObj [(''key'', JStr key), (''value'', v)]))"

definition prepare_speech_http :: "'w http_client \<Rightarrow> string \<Rightarrow> string \<Rightarrow> ('w, json option) io" where
  "prepare_speech_http http name t =
     json_prop http (voice_path name ''tts/prepare'') (json_init ''POST'' (JObj [(''text'', JStr t)])) ''id''"

subsection \<open>What the settings show\<close>

lemma first_rejection_None: "first_rejection settled = None \<longleftrightarrow> (\<forall>(ask, r) \<in> set settled. \<exists>v. r = Inr v)"
  by (induction settled rule: first_rejection.induct) auto

lemma first_rejection_Some: "first_rejection settled = Some e \<Longrightarrow> \<exists>ask. (ask, Inl e) \<in> set settled"
  by (induction settled rule: first_rejection.induct) auto

lemma status_never_missing: "voice_status_of v \<noteq> Inl (HttpFailed e)"
  by (auto simp: voice_status_of_def get_prop_def split: sum.splits option.splits prod.splits if_splits)

lemma status_not_null: "voice_status_of v \<noteq> Inr JNull"
  by (cases v) (auto simp: voice_status_of_def get_prop_def truthy_def split: option.splits if_splits)

lemma missing_is_404: "settings_answer (AskStatus Judge) answer = Inr None \<longleftrightarrow> (\<exists>m. answer = Inl (HttpFailed (ApiError 404 m)))"
  "settings_answer AskBehaviors answer = Inr None \<longleftrightarrow> (\<exists>m. answer = Inl (HttpFailed (ApiError 404 m))) \<or> answer = Inr JNull"
  using status_never_missing status_not_null
  by (auto simp: settings_answer_def none_when_missing_def split: sum.splits api_error.splits http_error.splits)

lemma settled_value:
  assumes "voice_settings_settled answers = Some (Inr s)" "distinct (map fst answers)"
  shows "\<And>ask answer. (ask, answer) \<in> set answers \<Longrightarrow> \<exists>v. settings_answer ask answer = Inr v \<and>
      (ask = AskStatus Judge \<longrightarrow> vs_judge s = v) \<and> (ask = AskBehaviors \<longrightarrow> vs_behaviors s = v)"
    and "\<exists>a. (AskStatus Judge, a) \<in> set answers" "\<exists>a. (AskBehaviors, a) \<in> set answers"
proof -
  let ?settled = "map (\<lambda>(ask, answer). (ask, settings_answer ask answer)) answers"
  have d: "distinct (map fst ?settled)" using assms(2) by (simp add: comp_def split_beta)
  from assms(1) have none: "first_rejection ?settled = None"
    by (simp add: voice_settings_settled_def Let_def split: option.splits)
  with assms(1) show "\<exists>a. (AskStatus Judge, a) \<in> set answers" "\<exists>a. (AskBehaviors, a) \<in> set answers"
    by (auto simp: voice_settings_settled_def Let_def split: if_splits)
  fix ask answer
  assume m: "(ask, answer) \<in> set answers"
  then have m': "(ask, settings_answer ask answer) \<in> set ?settled" by force
  with none obtain v where v: "settings_answer ask answer = Inr v" by (fastforce simp: first_rejection_None)
  have "map_of ?settled ask = Some (Inr v)" using d m' v by (simp only: map_of_is_SomeI)
  then have "ask = AskStatus Judge \<longrightarrow> vs_judge s = v" "ask = AskBehaviors \<longrightarrow> vs_behaviors s = v"
    using assms(1) none by (auto simp: voice_settings_settled_def Let_def split: if_splits)
  with v show "\<exists>v. settings_answer ask answer = Inr v \<and> (ask = AskStatus Judge \<longrightarrow> vs_judge s = v) \<and>
      (ask = AskBehaviors \<longrightarrow> vs_behaviors s = v)" by blast
qed

text \<open>C40: A card of the voice settings is left out only where its route has nothing: when the settings load
  at all, the judge is none just when its own request was answered 404, the behaviors just when theirs was
  answered 404 or with the body \<open>null\<close>, and no other failure hides them, whatever order the four answers arrive in.\<close>

theorem only_a_missing_route_hides_a_card:
  assumes "voice_settings_settled answers = Some (Inr s)" "distinct (map fst answers)"
  shows "(vs_judge s = None \<longleftrightarrow> (\<exists>m. (AskStatus Judge, Inl (HttpFailed (ApiError 404 m))) \<in> set answers)) \<and>
    (vs_behaviors s = None \<longleftrightarrow>
       (\<exists>m. (AskBehaviors, Inl (HttpFailed (ApiError 404 m))) \<in> set answers) \<or> (AskBehaviors, Inr JNull) \<in> set answers)"
proof -
  note each = settled_value(1) [OF assms]
  obtain j b where j: "(AskStatus Judge, j) \<in> set answers" and b: "(AskBehaviors, b) \<in> set answers"
    using settled_value(2,3) [OF assms] by blast
  have only: "x = y" if "(ask, x) \<in> set answers" "(ask, y) \<in> set answers" for ask x y
    using that assms(2) by (meson eq_key_imp_eq_value)
  have "vs_judge s = None \<longleftrightarrow> settings_answer (AskStatus Judge) j = Inr None" using each [OF j] by auto
  moreover have "vs_behaviors s = None \<longleftrightarrow> settings_answer AskBehaviors b = Inr None" using each [OF b] by auto
  ultimately show ?thesis unfolding missing_is_404 using j b only by metis
qed

definition old_service :: "(settings_ask \<times> (api_error + json)) list" where
  "old_service =
     [(AskBehaviors, Inl (HttpFailed (ApiError 404 ''''))), (AskStatus Tts, Inr (JObj [])),
      (AskStatus Judge, Inr (JObj [])),
      (AskStatus Stt, Inr (JObj [(''settings'', JArr [JObj [(''key'', JStr ''interrupt_tts'')]])]))]"

lemma only_a_missing_route_hides_a_card_witness:
  "\<exists>s. voice_settings_settled old_service = Some (Inr s) \<and> vs_behaviors s = None \<and> vs_judge s = Some (JObj []) \<and>
     vs_stt s = JObj [(''settings'', JArr [])]"
proof -
  let ?s = "\<lparr>vs_stt = JObj [(''settings'', JArr [])], vs_tts = JObj [], vs_judge = Some (JObj []), vs_behaviors = None\<rparr>"
  have e: "voice_settings_settled old_service = Some (Inr ?s)"
    by (simp add: voice_settings_settled_def old_service_def settings_answer_def none_when_missing_def
        voice_status_of_def get_prop_def truthy_def kept_settings_def replace_field_def)
  from only_a_missing_route_hides_a_card [OF e] have "vs_behaviors ?s = None"
    by (simp add: old_service_def)
  with e show ?thesis by auto
qed

text \<open>The setting the behaviors replaced is in no status an app shows.\<close>

lemma status_hides_old_setting:
  assumes "voice_status_of v = Inr (JObj ps)" "distinct (map fst ps)" "field ps ''settings'' = Some (JArr ss)" "s \<in> set ss"
  shows "get_prop ''key'' s \<noteq> Inr (Some (JStr ''interrupt_tts''))"
proof
  assume k: "get_prop ''key'' s = Inr (Some (JStr ''interrupt_tts''))"
  show False
  proof (cases "get_prop ''settings'' v")
    case (Inr settings)
    show ?thesis
    proof (cases "truthy settings")
      case False
      with assms Inr have "v = JObj ps" by (simp add: voice_status_of_def)
      with Inr assms(3) have "settings = Some (JArr ss)" by (simp add: get_prop_def)
      with False show ?thesis by (simp add: truthy_def)
    next
      case True
      with assms(1) Inr obtain qs ts where q: "ps = replace_field ''settings'' (JArr (kept_settings ts)) qs"
        by (auto simp: voice_status_of_def split: option.splits if_splits)
      have "(''settings'', JArr ss) \<in> set ps" using assms(3) unfolding field_def by (rule map_of_SomeD)
      then have "ss = kept_settings ts" unfolding q replace_field_def by auto
      with assms(4) k show ?thesis by (simp add: kept_settings_def)
    qed
  qed (use assms in \<open>simp add: voice_status_of_def\<close>)
qed

end
