(* ===== verification/VoiceSession.thy ===== *)
theory VoiceSession
  imports EngineSession TtsQueue
begin

section \<open>The voice of a client (voice/voice-session.ts)\<close>

text \<open>
  The behaviour model over one microphone and one speaker: the two modes, where a turn goes, the
  idle timer, and whether a reply is read aloud or said by the engine.  It is composed of the
  engine sessions it made (EngineSession, by the order of their creation; an old one still has
  its promises in flight) and of the read-aloud queue (TtsQueue): a call or an event of one of
  them runs its step, and its outputs run the callbacks of the voice session in order.
\<close>

subsection \<open>State\<close>

record voice_session =
  vs_deps :: engine_config
  vs_inactivity :: nat
  vs_sessions :: "nat \<rightharpoonup> engine_session"
  vs_next :: nat
  vs_read_aloud :: tts_queue
  vs_engine :: "nat option"
  vs_mode :: "voice_mode option"
  vs_idle_timer :: "nat option"
  vs_user_turn :: bool
  vs_committed :: string
  vs_live :: string
  vs_reading_aloud :: bool
  vs_session_speaking :: bool
  vs_speaking :: bool

datatype voice_event =
  VStart voice_mode
| VStop
| VCancel
| VSpeak string
| VPrefetch string
| VStopSpeech
| VIdle
| VSettings nat
| VEngine nat engine_event
| VTts tts_event

datatype voice_out =
  VTranscript string
| VSend string
| VError string
| VMode "voice_mode option"
| VListening bool
| VSpeaking bool
| VInactivityStop
| VUserSpeaking bool
| VStarted nat
| VStartFailed nat string
| VEngineIo nat engine_out
| VTtsIo tts_out

type_synonym voice_result = "voice_session \<times> voice_out list"

definition create_voice_session :: "engine_config \<Rightarrow> nat \<Rightarrow> voice_session" where
  "create_voice_session deps inactivity =
     \<lparr>vs_deps = deps, vs_inactivity = inactivity, vs_sessions = Map.empty, vs_next = 0,
      vs_read_aloud = create_tts_queue, vs_engine = None, vs_mode = None, vs_idle_timer = None, vs_user_turn = False,
      vs_committed = [], vs_live = [], vs_reading_aloud = False, vs_session_speaking = False, vs_speaking = False\<rparr>"

subsection \<open>The callbacks\<close>

definition report_voice_speaking :: "voice_session \<Rightarrow> voice_result" where
  "report_voice_speaking s =
     (let now = (vs_reading_aloud s \<or> vs_session_speaking s)
      in if now = vs_speaking s then (s, []) else (s\<lparr>vs_speaking := now\<rparr>, [VSpeaking now]))"

definition set_user_turn :: "bool \<Rightarrow> voice_session \<Rightarrow> voice_result" where
  "set_user_turn v s = (if vs_user_turn s = v then (s, []) else (s\<lparr>vs_user_turn := v\<rparr>, [VUserSpeaking v]))"

text \<open>Two texts with a space between, when both are there.\<close>

definition dictated :: "voice_session \<Rightarrow> string" where
  "dictated s =
     (if vs_committed s \<noteq> [] \<and> vs_live s \<noteq> [] then vs_committed s @ '' '' @ vs_live s
      else if vs_committed s \<noteq> [] then vs_committed s else vs_live s)"

definition voice_clear :: "voice_session \<Rightarrow> voice_result" where
  "voice_clear s =
     chain (set_user_turn False (s\<lparr>vs_idle_timer := None, vs_engine := None\<rparr>))
       (\<lambda>s. if vs_mode s \<noteq> None then (s\<lparr>vs_mode := None\<rparr>, [VMode None]) else (s, []))"

definition arm_idle_timer :: "bool \<Rightarrow> voice_session \<Rightarrow> voice_session" where
  "arm_idle_timer conversation s =
     (if \<not> conversation \<or> vs_inactivity s = 0 then s else s\<lparr>vs_idle_timer := Some (vs_inactivity s)\<rparr>)"

definition on_turn_end :: "bool \<Rightarrow> string \<Rightarrow> voice_session \<Rightarrow> voice_result" where
  "on_turn_end conversation t s =
     (if \<not> conversation
      then let c = (if vs_committed s \<noteq> [] then vs_committed s @ '' '' @ t else t)
           in (s\<lparr>vs_committed := c\<rparr>, [VTranscript c])
      else chain (set_user_turn False s) (\<lambda>s. (arm_idle_timer conversation s, [VSend t])))"

text \<open>What an engine session of the voice session calls; \<open>conversation\<close> is fixed by its start.\<close>

definition conversation_of :: "voice_session \<Rightarrow> nat \<Rightarrow> bool" where
  "conversation_of s k = (case vs_sessions s k of None \<Rightarrow> False | Some e \<Rightarrow> ec_wake_word (es_config e))"

definition from_engine :: "nat \<Rightarrow> engine_out \<Rightarrow> voice_session \<Rightarrow> voice_result" where
  "from_engine k x s =
     (case x of
        OnTranscript t \<Rightarrow>
          (let s = s\<lparr>vs_live := t\<rparr> in (s, [VTranscript (if conversation_of s k then t else dictated s)]))
      | OnTurnStart \<Rightarrow> (if conversation_of s k then set_user_turn True s else (s, []))
      | OnTurnEnd t \<Rightarrow> on_turn_end (conversation_of s k) t s
      | OnTurnDropped \<Rightarrow> set_user_turn False s
      | OnSpeakingChange b \<Rightarrow> report_voice_speaking (s\<lparr>vs_session_speaking := b\<rparr>)
      | OnReplyFailed m \<Rightarrow> (s, [VError m])
      | OnSessionError m \<Rightarrow>
          (if vs_engine s \<noteq> Some k then (s, []) else chain (voice_clear s) (\<lambda>s. (s, [VError m])))
      | OnActiveChange b \<Rightarrow>
          chain (if \<not> b \<and> vs_engine s = Some k then voice_clear s else (s, [])) (\<lambda>s. (s, [VListening b]))
      | StartResolved g \<Rightarrow>
          (if vs_engine s = Some k then arm_idle_timer (conversation_of s k) s else s, [VStarted k])
      | StartRejected g m \<Rightarrow>
          chain (if vs_engine s = Some k then voice_clear s else (s, [])) (\<lambda>s. (s, [VStartFailed k m]))
      | _ \<Rightarrow> (s, [VEngineIo k x]))"

definition from_tts :: "tts_out \<Rightarrow> voice_session \<Rightarrow> voice_result" where
  "from_tts x s =
     (case x of
        TtsSpeaking b \<Rightarrow> report_voice_speaking (s\<lparr>vs_reading_aloud := b\<rparr>)
      | TtsError \<Rightarrow> (s, [VError playback_failed])
      | _ \<Rightarrow> (s, [VTtsIo x]))"

definition engine_do :: "nat \<Rightarrow> engine_event \<Rightarrow> voice_session \<Rightarrow> voice_result" where
  "engine_do k e s =
     (case vs_sessions s k of
        None \<Rightarrow> (s, [])
      | Some es \<Rightarrow>
          (let (es', os) = engine_step es e
           in run_events (\<lambda>s x. from_engine k x s) (s\<lparr>vs_sessions := (vs_sessions s)(k \<mapsto> es')\<rparr>) os))"

definition tts_do :: "tts_event \<Rightarrow> voice_session \<Rightarrow> voice_result" where
  "tts_do e s =
     (let (q, os) = tts_step (vs_read_aloud s) e
      in run_events (\<lambda>s x. from_tts x s) (s\<lparr>vs_read_aloud := q\<rparr>) os)"

subsection \<open>The operations\<close>

definition voice_end :: "bool \<Rightarrow> voice_session \<Rightarrow> voice_result" where
  "voice_end send s =
     (case vs_engine s of
        None \<Rightarrow> (s, [])
      | Some k \<Rightarrow>
          (let captured = (if vs_mode s = Some Dictation then trim (dictated s) else [])
           in chain (chain (engine_do k EStop s) voice_clear)
                (\<lambda>s. (s, if send \<and> captured \<noteq> [] then [VSend captured] else []))))"

definition voice_config :: "voice_mode \<Rightarrow> engine_config \<Rightarrow> engine_config" where
  "voice_config m deps = deps\<lparr>ec_barge_in := (m = Conversation), ec_wake_word := (m = Conversation)\<rparr>"

definition voice_open :: "voice_mode \<Rightarrow> voice_session \<Rightarrow> voice_session" where
  "voice_open m s =
     s\<lparr>vs_committed := [], vs_live := [],
       vs_sessions := (vs_sessions s)(vs_next s \<mapsto> create_engine_session (voice_config m (vs_deps s))),
       vs_engine := Some (vs_next s), vs_next := Suc (vs_next s)\<rparr>"

definition voice_start :: "voice_mode \<Rightarrow> voice_session \<Rightarrow> voice_result" where
  "voice_start m s =
     (if vs_engine s \<noteq> None then (s, [])
      else chain (chain (s\<lparr>vs_mode := Some m\<rparr>, [VMode (Some m)]) (tts_do TtsQueue.StopSpeech))
             (\<lambda>s. engine_do (vs_next s) EStart (voice_open m s)))"

definition voice_idle :: "voice_session \<Rightarrow> voice_result" where
  "voice_idle s = chain (voice_end False (s\<lparr>vs_idle_timer := None\<rparr>)) (\<lambda>s. (s, [VInactivityStop]))"

definition voice_speak :: "string \<Rightarrow> voice_session \<Rightarrow> voice_result" where
  "voice_speak t s =
     (case vs_engine s of Some k \<Rightarrow> engine_do k (ESpeak t) s | None \<Rightarrow> tts_do (Speak t) s)"

definition voice_prefetch :: "string \<Rightarrow> voice_session \<Rightarrow> voice_result" where
  "voice_prefetch t s = (if vs_engine s = None then tts_do (Prefetch t) s else (s, []))"

definition voice_stop_speech :: "voice_session \<Rightarrow> voice_result" where
  "voice_stop_speech s =
     chain (tts_do TtsQueue.StopSpeech s)
       (\<lambda>s. case vs_engine s of Some k \<Rightarrow> engine_do k EStopSpeech s | None \<Rightarrow> (s, []))"

definition listening :: "voice_session \<Rightarrow> bool" where
  "listening s =
     (case vs_engine s of None \<Rightarrow> False
      | Some k \<Rightarrow> (case vs_sessions s k of None \<Rightarrow> False | Some e \<Rightarrow> es_state e = SActive))"

fun voice_step :: "voice_session \<Rightarrow> voice_event \<Rightarrow> voice_result" where
  "voice_step s (VStart m) = voice_start m s"
| "voice_step s VStop = voice_end True s"
| "voice_step s VCancel = voice_end False s"
| "voice_step s (VSpeak t) = voice_speak t s"
| "voice_step s (VPrefetch t) = voice_prefetch t s"
| "voice_step s VStopSpeech = voice_stop_speech s"
| "voice_step s VIdle = voice_idle s"
| "voice_step s (VSettings n) = (s\<lparr>vs_inactivity := n\<rparr>, [])"
| "voice_step s (VEngine k e) = engine_do k e s"
| "voice_step s (VTts e) = tts_do e s"

text \<open>The client calls the voice session only; the parts hear the environment.\<close>

fun engine_call :: "engine_event \<Rightarrow> bool" where
  "engine_call EStart = True"
| "engine_call EStop = True"
| "engine_call (ESpeak t) = True"
| "engine_call EStopSpeech = True"
| "engine_call e = False"

fun tts_call :: "tts_event \<Rightarrow> bool" where
  "tts_call (Speak t) = True"
| "tts_call (Prefetch t) = True"
| "tts_call TtsQueue.StopSpeech = True"
| "tts_call e = False"

fun voice_enabled :: "voice_session \<Rightarrow> voice_event \<Rightarrow> bool" where
  "voice_enabled s VIdle = (vs_idle_timer s \<noteq> None)"
| "voice_enabled s (VEngine k e) =
     (\<not> engine_call e \<and> (case vs_sessions s k of None \<Rightarrow> False | Some es \<Rightarrow> engine_enabled es e))"
| "voice_enabled s (VTts e) = (\<not> tts_call e \<and> tts_enabled (vs_read_aloud s) e)"
| "voice_enabled s e = True"

subsection \<open>What the callbacks change\<close>

lemma report_voice_speaking_fields [simp]:
  "fst (report_voice_speaking s) = s\<lparr>vs_speaking := vs_reading_aloud s \<or> vs_session_speaking s\<rparr>"
  by (simp add: report_voice_speaking_def Let_def)

lemma set_user_turn_fields [simp]: "fst (set_user_turn v s) = s\<lparr>vs_user_turn := v\<rparr>"
  by (simp add: set_user_turn_def)

lemma voice_clear_fields [simp]:
  "fst (voice_clear s) = s\<lparr>vs_idle_timer := None, vs_engine := None, vs_user_turn := False, vs_mode := None\<rparr>"
  by (simp add: voice_clear_def)

lemma arm_idle_timer_fields [simp]:
  "vs_deps (arm_idle_timer c s) = vs_deps s" "vs_inactivity (arm_idle_timer c s) = vs_inactivity s"
  "vs_sessions (arm_idle_timer c s) = vs_sessions s" "vs_next (arm_idle_timer c s) = vs_next s"
  "vs_read_aloud (arm_idle_timer c s) = vs_read_aloud s" "vs_engine (arm_idle_timer c s) = vs_engine s"
  "vs_mode (arm_idle_timer c s) = vs_mode s" "vs_user_turn (arm_idle_timer c s) = vs_user_turn s"
  "vs_committed (arm_idle_timer c s) = vs_committed s" "vs_live (arm_idle_timer c s) = vs_live s"
  "vs_reading_aloud (arm_idle_timer c s) = vs_reading_aloud s"
  "vs_session_speaking (arm_idle_timer c s) = vs_session_speaking s" "vs_speaking (arm_idle_timer c s) = vs_speaking s"
  "vs_idle_timer (arm_idle_timer c s) \<noteq> None \<Longrightarrow> vs_idle_timer s = None \<Longrightarrow> c"
  by (simp_all add: arm_idle_timer_def split: if_splits)

lemma from_engine_fields:
  "vs_sessions (fst (from_engine k x s)) = vs_sessions s" "vs_next (fst (from_engine k x s)) = vs_next s"
  "vs_read_aloud (fst (from_engine k x s)) = vs_read_aloud s"
  "vs_reading_aloud (fst (from_engine k x s)) = vs_reading_aloud s"
  "vs_deps (fst (from_engine k x s)) = vs_deps s"
  "vs_engine (fst (from_engine k x s)) = (if ends_session x \<and> vs_engine s = Some k then None else vs_engine s)"
  "vs_session_speaking (fst (from_engine k x s)) = nullish (engine_speaks x) (vs_session_speaking s)"
  by (simp_all add: from_engine_def on_turn_end_def Let_def split: engine_out.split)

text \<open>The modes, the turn of the user and the speaking, as every callback leaves them.\<close>

definition mode_of :: "voice_session \<Rightarrow> nat \<Rightarrow> voice_mode" where
  "mode_of s k = (if conversation_of s k then Conversation else Dictation)"

definition conversing :: "voice_mode option \<Rightarrow> bool" where
  "conversing m \<longleftrightarrow> m = Some Conversation"

lemma conversing_simps [simp]: "conversing (Some m) \<longleftrightarrow> m = Conversation" "\<not> conversing None"
  by (simp_all add: conversing_def)

definition voice_ok :: "voice_session \<Rightarrow> bool" where
  "voice_ok s \<longleftrightarrow> vs_mode s = map_option (mode_of s) (vs_engine s) \<and>
     (vs_user_turn s \<longrightarrow> conversing (vs_mode s)) \<and>
     (vs_idle_timer s \<noteq> None \<longrightarrow> conversing (vs_mode s)) \<and>
     vs_speaking s = (vs_reading_aloud s \<or> vs_session_speaking s)"

lemma conversation_of_sessions [simp]:
  "conversation_of (s\<lparr>vs_engine := a\<rparr>) k = conversation_of s k" "conversation_of (s\<lparr>vs_mode := b\<rparr>) k = conversation_of s k"
  "conversation_of (s\<lparr>vs_idle_timer := c\<rparr>) k = conversation_of s k"
  "conversation_of (s\<lparr>vs_user_turn := d\<rparr>) k = conversation_of s k"
  "conversation_of (s\<lparr>vs_live := e\<rparr>) k = conversation_of s k"
  "conversation_of (s\<lparr>vs_committed := e\<rparr>) k = conversation_of s k"
  "conversation_of (s\<lparr>vs_session_speaking := d\<rparr>) k = conversation_of s k"
  "conversation_of (s\<lparr>vs_reading_aloud := d\<rparr>) k = conversation_of s k"
  "conversation_of (s\<lparr>vs_speaking := d\<rparr>) k = conversation_of s k"
  "conversation_of (s\<lparr>vs_read_aloud := q\<rparr>) k = conversation_of s k"
  "conversation_of (s\<lparr>vs_inactivity := n\<rparr>) k = conversation_of s k"
  "conversation_of (arm_idle_timer d s) k = conversation_of s k"
  by (simp_all add: conversation_of_def)

lemma mode_of_sessions [simp]:
  "mode_of (s\<lparr>vs_user_turn := d\<rparr>) = mode_of s" "mode_of (s\<lparr>vs_live := e\<rparr>) = mode_of s"
  "mode_of (s\<lparr>vs_committed := e\<rparr>) = mode_of s" "mode_of (s\<lparr>vs_session_speaking := d\<rparr>) = mode_of s"
  "mode_of (s\<lparr>vs_reading_aloud := d\<rparr>) = mode_of s" "mode_of (s\<lparr>vs_speaking := d\<rparr>) = mode_of s"
  "mode_of (s\<lparr>vs_idle_timer := i\<rparr>) = mode_of s" "mode_of (s\<lparr>vs_engine := a\<rparr>) = mode_of s"
  "mode_of (s\<lparr>vs_mode := m\<rparr>) = mode_of s" "mode_of (s\<lparr>vs_read_aloud := q\<rparr>) = mode_of s"
  "mode_of (s\<lparr>vs_inactivity := n\<rparr>) = mode_of s" "mode_of (arm_idle_timer c s) = mode_of s"
  by (simp_all add: mode_of_def fun_eq_iff)

lemma voice_ok_clear: "voice_ok s \<Longrightarrow> voice_ok (fst (voice_clear s))"
  by (simp add: voice_ok_def)

lemma voice_ok_fields [simp]:
  "voice_ok (s\<lparr>vs_live := t\<rparr>) = voice_ok s" "voice_ok (s\<lparr>vs_committed := t\<rparr>) = voice_ok s"
  by (simp_all add: voice_ok_def)

lemma voice_ok_speaking: "voice_ok s \<Longrightarrow> voice_ok (fst (report_voice_speaking (s\<lparr>vs_session_speaking := b\<rparr>)))"
  by (auto simp: voice_ok_def)

lemma voice_ok_arm:
  "voice_ok s \<Longrightarrow> vs_engine s = Some k \<Longrightarrow> c = conversation_of s k \<Longrightarrow> voice_ok (arm_idle_timer c s)"
  by (auto simp: voice_ok_def arm_idle_timer_def) (auto simp: mode_of_def)

lemma voice_ok_turn:
  "voice_ok s \<Longrightarrow> v \<longrightarrow> conversing (vs_mode s) \<Longrightarrow> voice_ok (s\<lparr>vs_user_turn := v\<rparr>)"
  by (auto simp: voice_ok_def)

lemma voice_ok_mode: "voice_ok s \<Longrightarrow> vs_engine s = Some k \<Longrightarrow> vs_mode s = Some (mode_of s k)"
  by (simp add: voice_ok_def)

lemma voice_ok_from_engine:
  assumes "voice_ok s" "turn_output x \<longrightarrow> vs_engine s = Some k"
  shows "voice_ok (fst (from_engine k x s))"
  using assms voice_ok_mode [OF assms(1), of k]
  by (auto simp: from_engine_def on_turn_end_def mode_of_def voice_ok_turn voice_ok_arm Let_def
      simp del: report_voice_speaking_fields voice_clear_fields
      intro: voice_ok_speaking voice_ok_clear split: engine_out.split)

text \<open>A step of an engine session, with all its callbacks.\<close>

lemma engine_outputs_fold:
  assumes "voice_ok s" "list_all (\<lambda>x. \<not> turn_output x) os \<or> vs_engine s = Some k \<and> (\<exists>x. os = [x])"
  shows "voice_ok (fst (run_events (\<lambda>s x. from_engine k x s) s os))"
  using assms
proof (induction os arbitrary: s)
  case (Cons x os)
  then show ?case using voice_ok_from_engine [OF Cons.prems(1), of x k] by auto
qed simp

lemma engine_outputs_engine:
  "vs_engine (fst (run_events (\<lambda>s x. from_engine k x s) s os)) =
     (if list_ex ends_session os \<and> vs_engine s = Some k then None else vs_engine s)"
  by (induction os arbitrary: s) (simp_all add: from_engine_fields)

lemma engine_outputs_speaking:
  "vs_session_speaking (fst (run_events (\<lambda>s x. from_engine k x s) s os)) = signalled engine_speaks os (vs_session_speaking s)"
  by (induction os arbitrary: s) (simp_all add: from_engine_fields)

lemma engine_outputs_fields:
  "vs_sessions (fst (run_events (\<lambda>s x. from_engine k x s) s os)) = vs_sessions s"
  "vs_next (fst (run_events (\<lambda>s x. from_engine k x s) s os)) = vs_next s"
  "vs_read_aloud (fst (run_events (\<lambda>s x. from_engine k x s) s os)) = vs_read_aloud s"
  "vs_reading_aloud (fst (run_events (\<lambda>s x. from_engine k x s) s os)) = vs_reading_aloud s"
  by (rule run_events_view, rule from_engine_fields)+

subsection \<open>The invariant\<close>

text \<open>Every session it ever made is sound, and only the current one is not idle.\<close>

definition session_at :: "voice_session \<Rightarrow> nat \<Rightarrow> engine_session \<Rightarrow> bool" where
  "session_at s k es \<longleftrightarrow> k < vs_next s \<and> engine_inv es \<and> live_once es \<and> (vs_engine s = Some k \<longleftrightarrow> es_state es \<noteq> SIdle)"

definition now_speaking :: "voice_session \<Rightarrow> bool" where
  "now_speaking s \<longleftrightarrow> (\<exists>k es. vs_engine s = Some k \<and> vs_sessions s k = Some es \<and> pq_draining (es_plays es))"

definition voice_inv :: "voice_session \<Rightarrow> bool" where
  "voice_inv s \<longleftrightarrow> voice_ok s \<and> tts_inv (vs_read_aloud s) \<and> vs_reading_aloud s = tq_speaking (vs_read_aloud s) \<and>
     (\<forall>k es. vs_sessions s k = Some es \<longrightarrow> session_at s k es) \<and>
     (\<forall>k. vs_engine s = Some k \<longrightarrow> vs_sessions s k \<noteq> None) \<and> vs_session_speaking s = now_speaking s"

lemma voice_invI:
  assumes "voice_ok s" "tts_inv (vs_read_aloud s)" "vs_reading_aloud s = tq_speaking (vs_read_aloud s)"
    "\<And>k es. vs_sessions s k = Some es \<Longrightarrow> session_at s k es" "\<And>k. vs_engine s = Some k \<Longrightarrow> vs_sessions s k \<noteq> None"
    "vs_session_speaking s = now_speaking s"
  shows "voice_inv s"
  using assms unfolding voice_inv_def by blast

lemma voice_invD:
  assumes "voice_inv s"
  shows "voice_ok s" "tts_inv (vs_read_aloud s)" "vs_reading_aloud s = tq_speaking (vs_read_aloud s)"
    "vs_sessions s k = Some es \<Longrightarrow> session_at s k es" "vs_engine s = Some k \<Longrightarrow> vs_sessions s k \<noteq> None"
    "vs_session_speaking s = now_speaking s"
  using assms unfolding voice_inv_def by blast+

lemma voice_inv_start: "voice_inv (create_voice_session deps n)"
  using tts_inv_start
  by (intro voice_invI)
    (simp_all add: create_voice_session_def voice_ok_def now_speaking_def create_tts_queue_def)

text \<open>What a step of a session does to the voice session.\<close>

lemma engine_do_sessions:
  assumes "voice_inv s" "vs_sessions s k = Some es"
  shows "vs_sessions (fst (engine_do k e s)) = (vs_sessions s)(k \<mapsto> fst (engine_step es e))"
    "vs_next (fst (engine_do k e s)) = vs_next s" "vs_read_aloud (fst (engine_do k e s)) = vs_read_aloud s"
    "vs_reading_aloud (fst (engine_do k e s)) = vs_reading_aloud s"
    "vs_engine (fst (engine_do k e s)) =
       (if list_ex ends_session (snd (engine_step es e)) \<and> vs_engine s = Some k then None else vs_engine s)"
  using assms
  by (simp_all add: engine_do_def split_beta Let_def engine_outputs_fields engine_outputs_engine)

lemma conversation_of_step:
  "vs_sessions s k = Some es \<Longrightarrow>
     conversation_of (s\<lparr>vs_sessions := (vs_sessions s)(k \<mapsto> fst (engine_step es e))\<rparr>) m = conversation_of s m"
  by (simp add: conversation_of_def engine_config_kept)

lemma voice_ok_sessions:
  assumes "voice_ok s" "vs_sessions s k = Some es"
  shows "voice_ok (s\<lparr>vs_sessions := (vs_sessions s)(k \<mapsto> fst (engine_step es e))\<rparr>)"
proof -
  have "mode_of (s\<lparr>vs_sessions := (vs_sessions s)(k \<mapsto> fst (engine_step es e))\<rparr>) = mode_of s"
    by (simp add: mode_of_def fun_eq_iff conversation_of_step [OF assms(2)])
  with assms(1) show ?thesis by (auto simp: voice_ok_def)
qed

lemma engine_do_ok:
  assumes "voice_inv s" "vs_sessions s k = Some es" "engine_enabled_once es e" "e \<noteq> EStart"
  shows "voice_ok (fst (engine_do k e s))"
    "vs_session_speaking (fst (engine_do k e s)) =
       (if vs_engine s = Some k then pq_draining (es_plays (fst (engine_step es e))) else vs_session_speaking s)"
proof -
  let ?os = "snd (engine_step es e)"
  let ?s = "s\<lparr>vs_sessions := (vs_sessions s)(k \<mapsto> fst (engine_step es e))\<rparr>"
  have sess: "session_at s k es" by (rule voice_invD(4) [OF assms(1,2)])
  have idle: "list_all idle_output ?os" if "vs_engine s \<noteq> Some k"
    using that sess idle_stays_idle [OF _ assms(3,4)] by (auto simp: session_at_def list_all_iff)
  have idle_plain: "idle_output x \<Longrightarrow> \<not> turn_output x \<and> engine_speaks x = None" for x by (cases x) simp_all
  have "list_all (\<lambda>x. \<not> turn_output x) ?os \<or> vs_engine s = Some k \<and> (\<exists>x. ?os = [x])"
  proof (cases "vs_engine s = Some k")
    case True
    show ?thesis
    proof (cases "\<exists>x\<in>set ?os. turn_output x")
      case True
      then obtain x where "x \<in> set ?os" "turn_output x" by blast
      then have "?os = [x]" by (rule turn_alone)
      with \<open>vs_engine s = Some k\<close> show ?thesis by blast
    qed (auto simp: list_all_iff)
  next
    case False
    with idle idle_plain show ?thesis by (auto simp: list_all_iff)
  qed
  then have "voice_ok (fst (run_events (\<lambda>s x. from_engine k x s) ?s ?os))"
    by (intro engine_outputs_fold voice_ok_sessions [OF voice_invD(1) [OF assms(1)] assms(2)]) simp
  then show "voice_ok (fst (engine_do k e s))" using assms(2) by (simp add: engine_do_def split_beta Let_def)
  have "vs_session_speaking (fst (engine_do k e s)) = signalled engine_speaks ?os (vs_session_speaking s)"
    using assms(2) by (simp add: engine_do_def split_beta Let_def engine_outputs_speaking)
  also have "\<dots> = (if vs_engine s = Some k then pq_draining (es_plays (fst (engine_step es e))) else vs_session_speaking s)"
  proof (cases "vs_engine s = Some k")
    case True
    then have "vs_session_speaking s = pq_draining (es_plays es)"
      using voice_invD(6) [OF assms(1)] assms(2) by (simp add: now_speaking_def)
    with True speaking_signal [of es e] show ?thesis by simp
  next
    case False
    then have "list_all (\<lambda>x. engine_speaks x = None) ?os" using idle idle_plain by (auto simp: list_all_iff)
    with False show ?thesis by (simp add: signalled_none)
  qed
  finally show "vs_session_speaking (fst (engine_do k e s)) =
       (if vs_engine s = Some k then pq_draining (es_plays (fst (engine_step es e))) else vs_session_speaking s)" .
qed

lemma session_step:
  assumes "session_at s k es" "engine_enabled_once es e"
  shows "engine_inv (fst (engine_step es e))" "live_once (fst (engine_step es e))"
  using assms engine_inv_step live_once_step by (auto simp: session_at_def)

lemma voice_inv_engine:
  assumes "voice_inv s" "vs_sessions s k = Some es" "engine_enabled_once es e" "e \<noteq> EStart" "e \<noteq> EStop"
  shows "voice_inv (fst (engine_do k e s))" (is "voice_inv ?s'")
proof -
  note d = voice_invD [OF assms(1)] and f = engine_do_sessions [OF assms(1,2), of e] and ok = engine_do_ok [OF assms(1-4)]
  let ?es' = "fst (engine_step es e)"
  have at_k: "session_at s k es" by (rule d(4) [OF assms(2)])
  have cur: "vs_engine ?s' = Some k \<longleftrightarrow> es_state ?es' \<noteq> SIdle"
  proof (cases "vs_engine s = Some k")
    case True
    then have "es_state es \<noteq> SIdle" using at_k by (simp add: session_at_def)
    with True ended_session_is_idle [of _ es e] ended_session_tells [OF _ _ assms(3,5)] at_k
    show ?thesis by (auto simp: f(5) session_at_def list_ex_iff)
  next
    case False
    with idle_stays_idle [OF _ assms(3,4)] at_k show ?thesis by (simp add: f(5) session_at_def)
  qed
  have others: "vs_engine ?s' = Some m \<longleftrightarrow> vs_engine s = Some m" if "m \<noteq> k" for m
    using that by (auto simp: f(5))
  show ?thesis
  proof (rule voice_invI)
    show "voice_ok ?s'" by (rule ok(1))
    show "tts_inv (vs_read_aloud ?s')" "vs_reading_aloud ?s' = tq_speaking (vs_read_aloud ?s')" using d(2,3) by (simp_all add: f)
    show "session_at ?s' m em" if "vs_sessions ?s' m = Some em" for m em
    proof (cases "m = k")
      case True
      with that have "em = ?es'" by (simp add: f)
      with True cur session_step [OF at_k assms(3)] at_k show ?thesis by (simp add: session_at_def f(2))
    next
      case False
      with that have "session_at s m em" by (intro d(4)) (simp add: f)
      with others [OF False] show ?thesis by (simp add: session_at_def f(2))
    qed
    show "vs_sessions ?s' m \<noteq> None" if "vs_engine ?s' = Some m" for m
      using that others [of m] d(5) [of m] by (cases "m = k") (simp_all add: f(1))
    show "vs_session_speaking ?s' = now_speaking ?s'"
    proof (cases "vs_engine s = Some k")
      case True
      have "\<not> pq_draining (es_plays ?es')" if "es_state ?es' = SIdle"
        using that engine_invD(2) [OF session_step(1) [OF at_k assms(3)]] by (simp add: idle_clean_def)
      with True cur show ?thesis using f(5) by (auto simp: ok(2) now_speaking_def f(1) split: if_splits)
    next
      case False
      with cur f(5) d(6) show ?thesis by (auto simp: ok(2) now_speaking_def f(1))
    qed
  qed
qed

text \<open>The end of the current session, however it is told.\<close>

lemma voice_inv_stopped:
  assumes "voice_inv s" "vs_engine s = Some k"
  shows "voice_inv (fst (voice_clear (fst (engine_do k EStop s))))" (is "voice_inv (fst (voice_clear ?t))")
proof -
  obtain es where es: "vs_sessions s k = Some es" using voice_invD(5) [OF assms] by auto
  have en: "engine_enabled_once es EStop" by simp
  note d = voice_invD [OF assms(1)] and f = engine_do_sessions [OF assms(1) es, of EStop]
    and ok = engine_do_ok [OF assms(1) es en engine_event.distinct(1)[symmetric]]
  have at_k: "session_at s k es" by (rule d(4) [OF es])
  have idle: "es_state (fst (engine_step es EStop)) = SIdle" by (simp add: session_stop_def)
  have stop_inv: "engine_inv (fst (engine_step es EStop))" "live_once (fst (engine_step es EStop))"
    by (rule session_step [OF at_k en])+
  then have quiet: "\<not> pq_draining (es_plays (fst (engine_step es EStop)))"
    using engine_invD(2) [OF stop_inv(1) idle] by (simp add: idle_clean_def)
  show ?thesis
  proof (rule voice_invI)
    show "voice_ok (fst (voice_clear ?t))" by (rule voice_ok_clear) (rule ok(1))
    show "session_at (fst (voice_clear ?t)) m em" if m: "vs_sessions (fst (voice_clear ?t)) m = Some em" for m em
    proof (cases "m = k")
      case True
      with m idle stop_inv at_k show ?thesis by (auto simp: session_at_def f)
    next
      case False
      with m have "session_at s m em" by (intro d(4)) (simp add: f)
      with False assms(2) show ?thesis by (simp add: session_at_def f(2))
    qed
    show "vs_session_speaking (fst (voice_clear ?t)) = now_speaking (fst (voice_clear ?t))"
      using ok(2) assms(2) quiet by (simp add: now_speaking_def)
  qed (use d(2,3) in \<open>simp_all add: f\<close>)
qed

lemma voice_inv_end: "voice_inv s \<Longrightarrow> voice_inv (fst (voice_end send s))"
  using voice_inv_stopped [of s] by (simp add: voice_end_def Let_def split: option.split)

text \<open>The read-aloud queue.\<close>

fun tts_speaks :: "tts_out \<Rightarrow> bool option" where
  "tts_speaks (TtsSpeaking b) = Some b"
| "tts_speaks x = None"

lemma tts_signal:
  "signalled tts_speaks (snd (tts_step q e)) (tq_speaking q) = tq_speaking (fst (tts_step q e))"
  by (cases e)
    (auto simp: tts_speak_def tts_drain_def set_speaking_def tts_take_def tts_prefetch_def prepare_speech_def tts_stop_def
      at_tts_def tts_continues_def tts_play_def tts_end_def tts_set_def Let_def
      split: option.splits list.splits tts_stage.splits prepared.splits if_splits)

lemma from_tts_ok: "voice_ok s \<Longrightarrow> voice_ok (fst (from_tts x s))"
  by (cases x) (auto simp: from_tts_def voice_ok_def)

lemma from_tts_fields:
  "vs_sessions (fst (from_tts x s)) = vs_sessions s" "vs_next (fst (from_tts x s)) = vs_next s"
  "vs_read_aloud (fst (from_tts x s)) = vs_read_aloud s" "vs_engine (fst (from_tts x s)) = vs_engine s"
  "vs_session_speaking (fst (from_tts x s)) = vs_session_speaking s" "vs_mode (fst (from_tts x s)) = vs_mode s"
  "vs_reading_aloud (fst (from_tts x s)) = nullish (tts_speaks x) (vs_reading_aloud s)"
  by (simp_all add: from_tts_def split: tts_out.split)

lemma tts_outputs_ok: "voice_ok s \<Longrightarrow> voice_ok (fst (run_events (\<lambda>s x. from_tts x s) s os))"
  by (induction os arbitrary: s) (simp_all add: from_tts_ok)

lemma tts_outputs_fields:
  "vs_sessions (fst (run_events (\<lambda>s x. from_tts x s) s os)) = vs_sessions s"
  "vs_next (fst (run_events (\<lambda>s x. from_tts x s) s os)) = vs_next s"
  "vs_read_aloud (fst (run_events (\<lambda>s x. from_tts x s) s os)) = vs_read_aloud s"
  "vs_engine (fst (run_events (\<lambda>s x. from_tts x s) s os)) = vs_engine s"
  "vs_session_speaking (fst (run_events (\<lambda>s x. from_tts x s) s os)) = vs_session_speaking s"
  "vs_mode (fst (run_events (\<lambda>s x. from_tts x s) s os)) = vs_mode s"
  by (rule run_events_view, rule from_tts_fields)+

lemma tts_outputs_reading:
  "vs_reading_aloud (fst (run_events (\<lambda>s x. from_tts x s) s os)) = signalled tts_speaks os (vs_reading_aloud s)"
  by (induction os arbitrary: s) (simp_all add: from_tts_fields)

lemma tts_do_fields:
  "vs_sessions (fst (tts_do e s)) = vs_sessions s" "vs_next (fst (tts_do e s)) = vs_next s"
  "vs_read_aloud (fst (tts_do e s)) = fst (tts_step (vs_read_aloud s) e)" "vs_engine (fst (tts_do e s)) = vs_engine s"
  "vs_session_speaking (fst (tts_do e s)) = vs_session_speaking s" "vs_mode (fst (tts_do e s)) = vs_mode s"
  by (simp_all add: tts_do_def split_beta Let_def tts_outputs_fields)

lemma voice_inv_tts:
  assumes "voice_inv s" "tts_enabled (vs_read_aloud s) e"
  shows "voice_inv (fst (tts_do e s))"
proof -
  note d = voice_invD [OF assms(1)]
  have read_ok: "voice_ok (s\<lparr>vs_read_aloud := fst (tts_step (vs_read_aloud s) e)\<rparr>)" using d(1) by (auto simp: voice_ok_def)
  show ?thesis
  proof (rule voice_invI)
    show "voice_ok (fst (tts_do e s))"
      using tts_outputs_ok [OF read_ok] by (simp add: tts_do_def split_beta Let_def)
    show "tts_inv (vs_read_aloud (fst (tts_do e s)))" using reading.step_inv [OF d(2) assms(2)] by (simp add: tts_do_fields)
    show "vs_reading_aloud (fst (tts_do e s)) = tq_speaking (vs_read_aloud (fst (tts_do e s)))"
      using tts_signal d(3) by (simp add: tts_do_def split_beta Let_def tts_outputs_reading tts_outputs_fields)
  qed (use d in \<open>simp_all add: tts_do_fields session_at_def now_speaking_def\<close>)
qed

lemma voice_inv_opened:
  assumes "voice_inv s" "vs_engine s = None"
  shows "voice_inv (fst (engine_do (vs_next s) EStart (voice_open m (s\<lparr>vs_mode := Some m\<rparr>))))"
proof -
  note d = voice_invD [OF assms(1)]
  let ?e = "create_engine_session (voice_config m (vs_deps s))"
  let ?e' = "fst (session_start ?e)"
  let ?s' = "s\<lparr>vs_mode := Some m, vs_committed := [], vs_live := [], vs_sessions := (vs_sessions s)(vs_next s \<mapsto> ?e'),
    vs_engine := Some (vs_next s), vs_next := Suc (vs_next s)\<rparr>"
  have run: "fst (engine_do (vs_next s) EStart (voice_open m (s\<lparr>vs_mode := Some m\<rparr>))) = ?s'"
    by (simp add: engine_do_def voice_open_def session_start_def create_engine_session_def from_engine_def Let_def)
  have start: "engine_inv ?e'" "live_once ?e'"
    using engine_inv_step [OF engine_inv_start [of "voice_config m (vs_deps s)"], of EStart]
      live_once_step [OF live_once_start [of "voice_config m (vs_deps s)"], of EStart]
    by (simp_all add: create_engine_session_def)
  have fields: "es_state ?e' = SStarting" "es_plays ?e' = create_play_queue" "es_config ?e' = voice_config m (vs_deps s)"
    by (simp_all add: session_start_def create_engine_session_def Let_def)
  have "mode_of ?s' (vs_next s) = m" using fields(3)
    by (cases m) (simp_all add: mode_of_def conversation_of_def voice_config_def)
  then have ok: "voice_ok ?s'" using d(1,6) assms(2) by (auto simp: voice_ok_def now_speaking_def)
  have at': "session_at ?s' k es" if k: "vs_sessions ?s' k = Some es" for k es
  proof (cases "k = vs_next s")
    case True
    with k start fields show ?thesis by (auto simp: session_at_def)
  next
    case False
    with k have "session_at s k es" by (intro d(4)) simp
    with False assms(2) show ?thesis by (auto simp: session_at_def)
  qed
  have "voice_inv ?s'"
  proof (rule voice_invI)
    show "vs_session_speaking ?s' = now_speaking ?s'"
      using d(6) assms(2) fields(2) by (simp add: now_speaking_def create_play_queue_def)
  qed (use ok at' d(2,3) in auto)
  then show ?thesis by (simp only: run)
qed

lemma tts_do_mode: "fst (tts_do e (s\<lparr>vs_mode := m\<rparr>)) = (fst (tts_do e s))\<lparr>vs_mode := m\<rparr>"
proof -
  have one: "fst (from_tts x (t\<lparr>vs_mode := m\<rparr>)) = (fst (from_tts x t))\<lparr>vs_mode := m\<rparr>" for x t
    by (simp add: from_tts_def split: tts_out.split)
  have "fst (run_events (\<lambda>s x. from_tts x s) (t\<lparr>vs_mode := m\<rparr>) os) =
      (fst (run_events (\<lambda>s x. from_tts x s) t os))\<lparr>vs_mode := m\<rparr>" for t os
    by (induction os arbitrary: t) (simp_all add: one)
  then have "fst (run_events (\<lambda>s x. from_tts x s) t' os) =
      (fst (run_events (\<lambda>s x. from_tts x s) t os))\<lparr>vs_mode := m\<rparr>" if "t' = t\<lparr>vs_mode := m\<rparr>" for t t' os
    using that by simp
  from this [of "s\<lparr>vs_mode := m, vs_read_aloud := fst (tts_step (vs_read_aloud s) e)\<rparr>"
      "s\<lparr>vs_read_aloud := fst (tts_step (vs_read_aloud s) e)\<rparr>"]
  show ?thesis by (simp add: tts_do_def split_beta Let_def)
qed

lemma voice_inv_begin:
  assumes "voice_inv s"
  shows "voice_inv (fst (voice_start m s))"
proof (cases "vs_engine s")
  case None
  let ?t = "fst (tts_do TtsQueue.StopSpeech s)"
  have "voice_inv ?t" by (rule voice_inv_tts [OF assms]) simp
  moreover have "vs_engine ?t = None" using None by (simp add: tts_do_fields)
  ultimately have "voice_inv (fst (engine_do (vs_next ?t) EStart (voice_open m (?t\<lparr>vs_mode := Some m\<rparr>))))"
    by (rule voice_inv_opened)
  with None show ?thesis by (simp add: voice_start_def tts_do_mode)
qed (use assms in \<open>simp add: voice_start_def\<close>)

lemma voice_inv_call:
  assumes "voice_inv s" "vs_engine s = Some k" "e = ESpeak t \<or> e = EStopSpeech"
  shows "voice_inv (fst (engine_do k e s))"
proof -
  obtain es where "vs_sessions s k = Some es" using voice_invD(5) [OF assms(1,2)] by auto
  then show ?thesis by (rule voice_inv_engine [OF assms(1)]) (use assms(3) in auto)
qed

lemma voice_inv_step:
  assumes "voice_inv s" "voice_enabled s e"
  shows "voice_inv (fst (voice_step s e))"
proof (cases e)
  case VIdle
  have "voice_inv (s\<lparr>vs_idle_timer := None\<rparr>)"
    using voice_invD [OF assms(1)]
    by (intro voice_invI) (auto simp: voice_ok_def session_at_def now_speaking_def)
  from voice_inv_end [OF this] VIdle show ?thesis by (simp add: voice_idle_def)
next
  case (VSettings n)
  have "voice_inv (s\<lparr>vs_inactivity := n\<rparr>)"
    using voice_invD [OF assms(1)]
    by (intro voice_invI) (auto simp: voice_ok_def session_at_def now_speaking_def)
  with VSettings show ?thesis by simp
next
  case (VEngine k ev)
  then obtain es where es: "vs_sessions s k = Some es" "engine_enabled es ev" "\<not> engine_call ev"
    using assms(2) by (auto split: option.splits)
  then have "engine_enabled_once es ev" "ev \<noteq> EStart" "ev \<noteq> EStop" by (cases ev; simp)+
  with voice_inv_engine [OF assms(1) es(1)] VEngine show ?thesis by simp
next
  case (VTts ev)
  with voice_inv_tts [OF assms(1), of ev] assms(2) show ?thesis by simp
next
  case (VSpeak t)
  with voice_inv_tts [OF assms(1), of "Speak t"] voice_inv_call [OF assms(1)] show ?thesis
    by (simp add: voice_speak_def split: option.split)
next
  case (VPrefetch t)
  with voice_inv_tts [OF assms(1), of "Prefetch t"] assms(1) show ?thesis by (simp add: voice_prefetch_def)
next
  case VStopSpeech
  have "voice_inv (fst (tts_do TtsQueue.StopSpeech s))" by (rule voice_inv_tts [OF assms(1)]) simp
  with VStopSpeech voice_inv_call [OF this] show ?thesis by (simp add: voice_stop_speech_def split: option.split)
qed (use assms voice_inv_begin voice_inv_end in simp_all)

interpretation voice: machine voice_step voice_enabled voice_inv
  by unfold_locales (rule voice_inv_step)

subsection \<open>What a client can rely on\<close>

definition voice_after :: "engine_config \<Rightarrow> nat \<Rightarrow> voice_event list \<Rightarrow> voice_session" where
  "voice_after deps n es = fst (run_events voice_step (create_voice_session deps n) es)"

text \<open>C2: One session at a time: whatever happens, a mode is set just when a session is current, every session made
  before is idle, with no socket, and the current one is not idle and is of the mode that is set.\<close>

theorem one_session_at_a_time:
  assumes "legal_events voice_step voice_enabled (create_voice_session deps n) es"
  shows "(vs_mode (voice_after deps n es) = None \<longleftrightarrow> vs_engine (voice_after deps n es) = None) \<and>
    (vs_sessions (voice_after deps n es) k = Some e \<longrightarrow>
      (if vs_engine (voice_after deps n es) = Some k
       then es_state e \<noteq> SIdle \<and>
         vs_mode (voice_after deps n es) = Some (if ec_wake_word (es_config e) then Conversation else Dictation)
       else es_state e = SIdle \<and> es_socket e = None))"
proof -
  have inv: "voice_inv (voice_after deps n es)"
    unfolding voice_after_def by (rule voice.run_inv [OF voice_inv_start assms])
  note ok = voice_invD(1) [OF inv]
  have "vs_mode (voice_after deps n es) = None \<longleftrightarrow> vs_engine (voice_after deps n es) = None"
    using ok by (auto simp: voice_ok_def split: option.splits)
  moreover have "if vs_engine (voice_after deps n es) = Some k
       then es_state e \<noteq> SIdle \<and>
         vs_mode (voice_after deps n es) = Some (if ec_wake_word (es_config e) then Conversation else Dictation)
       else es_state e = SIdle \<and> es_socket e = None" if k: "vs_sessions (voice_after deps n es) k = Some e"
  proof -
    note d = voice_invD(4) [OF inv k]
    have "es_socket e = None" if "es_state e = SIdle"
      using engine_invD(2) [OF _ that] d by (simp add: session_at_def idle_clean_def)
    with ok d k voice_ok_mode [OF ok, of k] show ?thesis
      by (auto simp: session_at_def mode_of_def conversation_of_def split: if_splits)
  qed
  ultimately show ?thesis by blast
qed

definition web_deps :: engine_config where
  "web_deps = \<lparr>ec_client = ''web'', ec_plays_ogg_opus = True, ec_barge_in = False, ec_wake_word = False\<rparr>"

lemmas voice_eval = voice_after_def create_voice_session_def voice_start_def voice_open_def voice_config_def tts_do_def
  engine_do_def from_engine_def from_tts_def tts_stop_def create_tts_queue_def set_speaking_def voice_end_def
  voice_clear_def set_user_turn_def report_voice_speaking_def conversation_of_def on_turn_end_def arm_idle_timer_def
  voice_idle_def dictated_def parse_engine_frame_def handle_frame_def eng_eval web_deps_def

theorem one_session_at_a_time_witness:
  "vs_mode (voice_after web_deps 0 [VStart Dictation]) \<noteq> None \<and>
   es_state (the (vs_sessions (voice_after web_deps 0 [VStart Dictation]) 0)) \<noteq> SIdle"
proof -
  have legal: "legal_events voice_step voice_enabled (create_voice_session web_deps 0) [VStart Dictation]"
    and s: "vs_engine (voice_after web_deps 0 [VStart Dictation]) = Some 0"
      "vs_sessions (voice_after web_deps 0 [VStart Dictation]) 0 = Some (fst (session_start (create_engine_session web_deps)))"
    by (simp_all add: voice_eval)
  show ?thesis using one_session_at_a_time [OF legal, of 0 "fst (session_start (create_engine_session web_deps))"] s by auto
qed

text \<open>The client hears speaking just while a reply is read aloud or a play of the current session
  is running; and the user holds the floor, or an idle timer runs, in a conversation only.\<close>

theorem voice_flags_are_the_parts:
  assumes "legal_events voice_step voice_enabled (create_voice_session deps n) es"
  shows "let s = voice_after deps n es in
    vs_speaking s = (tq_speaking (vs_read_aloud s) \<or>
      (case vs_engine s of None \<Rightarrow> False
       | Some k \<Rightarrow> (case vs_sessions s k of None \<Rightarrow> False | Some e \<Rightarrow> pq_draining (es_plays e)))) \<and>
    (if vs_user_turn s then vs_mode s = Some Conversation else True) \<and>
    (if vs_idle_timer s = None then True else vs_mode s = Some Conversation)"
proof -
  have inv: "voice_inv (voice_after deps n es)"
    unfolding voice_after_def by (rule voice.run_inv [OF voice_inv_start assms(1)])
  show ?thesis using voice_invD(1,3,6) [OF inv]
    by (auto simp: voice_ok_def conversing_def now_speaking_def Let_def split: option.split)
qed

theorem voice_flags_are_the_parts_witness:
  "let s = voice_after web_deps 0 [VStart Conversation] in
    vs_speaking s = (tq_speaking (vs_read_aloud s) \<or>
      (case vs_engine s of None \<Rightarrow> False
       | Some k \<Rightarrow> (case vs_sessions s k of None \<Rightarrow> False | Some e \<Rightarrow> pq_draining (es_plays e)))) \<and>
    (if vs_user_turn s then vs_mode s = Some Conversation else True) \<and>
    (if vs_idle_timer s = None then True else vs_mode s = Some Conversation)"
  by (rule voice_flags_are_the_parts) simp

subsection \<open>Dictation\<close>

text \<open>What the engine told of the user: the words of the turn in progress (empty when it is over),
  and the text of a turn that ended.\<close>

datatype heard = Words string | Turn string

fun heard_frame :: "heard \<Rightarrow> json" where
  "heard_frame (Words t) = JObj [(''type'', JStr ''transcript''), (''text'', JStr t)]"
| "heard_frame (Turn t) = JObj [(''type'', JStr ''turn_end''), (''text'', JStr t)]"

fun turns_of :: "heard list \<Rightarrow> string list" where
  "turns_of [] = []"
| "turns_of (Turn t # hs) = t # turns_of hs"
| "turns_of (Words t # hs) = turns_of hs"

fun words_of :: "string \<Rightarrow> heard list \<Rightarrow> string" where
  "words_of w [] = w"
| "words_of w (Words t # hs) = words_of t hs"
| "words_of w (Turn t # hs) = words_of w hs"

definition spoken_text :: "heard list \<Rightarrow> string" where
  "spoken_text hs = join '' '' (turns_of hs @ (if words_of [] hs = [] then [] else [words_of [] hs]))"

lemma join_snoc: "join sep (ts @ [t]) = (if ts = [] then t else join sep ts @ sep @ t)"
  by (induction sep ts rule: join.induct) simp_all

lemma join_nonempty: "list_all (\<lambda>t. t \<noteq> []) ts \<Longrightarrow> join sep ts = [] \<longleftrightarrow> ts = []"
  by (induction sep ts rule: join.induct) simp_all

text \<open>A dictation that has heard some turns and words.\<close>

definition dictating :: "string list \<Rightarrow> string \<Rightarrow> voice_session \<Rightarrow> voice_session" where
  "dictating ts w s = s\<lparr>vs_committed := join '' '' ts, vs_live := w\<rparr>"

lemma dictation_hears:
  assumes "vs_sessions s k = Some es" "\<not> ec_wake_word (es_config es)" "list_all (\<lambda>t. t \<noteq> []) (ts @ turns_of [h])"
  shows "fst (voice_step (dictating ts w s) (VEngine k (EMessage d (Some (heard_frame h))))) =
      dictating (ts @ turns_of [h]) (words_of w [h]) s \<and>
    filter (\<lambda>x. \<exists>t. x = VSend t) (snd (voice_step (dictating ts w s) (VEngine k (EMessage d (Some (heard_frame h)))))) = []"
  using assms join_nonempty [of ts "'' ''"]
  by (cases h)
    (auto simp: engine_do_def dictating_def parse_engine_frame_def handle_frame_def from_engine_def conversation_of_def
      on_turn_end_def join_snoc fun_upd_idem Let_def)

lemma dictation_run:
  assumes "vs_sessions s k = Some es" "\<not> ec_wake_word (es_config es)" "list_all (\<lambda>t. t \<noteq> []) (ts @ turns_of hs)"
  shows "fst (run_events voice_step (dictating ts w s) (map (\<lambda>h. VEngine k (EMessage d (Some (heard_frame h)))) hs)) =
      dictating (ts @ turns_of hs) (words_of w hs) s \<and>
    filter (\<lambda>x. \<exists>t. x = VSend t)
      (snd (run_events voice_step (dictating ts w s) (map (\<lambda>h. VEngine k (EMessage d (Some (heard_frame h)))) hs))) = []"
  using assms(3)
proof (induction hs arbitrary: ts w)
  case (Cons h hs)
  have parts: "turns_of (h # hs) = turns_of [h] @ turns_of hs" "words_of w (h # hs) = words_of (words_of w [h]) hs"
    by (cases h; simp)+
  have "list_all (\<lambda>t. t \<noteq> []) (ts @ turns_of [h])" "list_all (\<lambda>t. t \<noteq> []) ((ts @ turns_of [h]) @ turns_of hs)"
    using Cons.prems by (simp_all add: parts(1))
  with Cons.IH dictation_hears [OF assms(1,2), of ts h] show ?case by (simp add: parts del: turns_of.simps words_of.simps)
qed simp

lemma dictating_texts:
  "list_all (\<lambda>t. t \<noteq> []) ts \<Longrightarrow>
     dictated (dictating ts w s) = join '' '' (ts @ (if w = [] then [] else [w]))"
  using join_nonempty [of ts "'' ''"] by (auto simp: dictated_def dictating_def join_snoc)

lemma from_engine_sends:
  "\<not> turn_output x \<Longrightarrow> filter (\<lambda>y. \<exists>t. y = VSend t) (snd (from_engine k x s)) = []"
  by (cases x) (simp_all add: from_engine_def report_voice_speaking_def set_user_turn_def voice_clear_def Let_def)

lemma stop_sends_nothing: "filter (\<lambda>x. \<exists>t. x = VSend t) (snd (engine_do k EStop s)) = []"
proof -
  have one: "filter (\<lambda>x. \<exists>t. x = VSend t) (snd (run_events (\<lambda>s x. from_engine k x s) t os)) = []"
    if "\<forall>x \<in> set os. \<not> turn_output x" for t os
    using that by (induction os arbitrary: t) (simp_all add: from_engine_sends)
  have "\<not> turn_output x" if "x \<in> set (snd (engine_step es EStop))" for x es
    using that cleanup_turns by (auto simp: session_stop_def send_engine_frame_def split: if_splits)
  with one show ?thesis by (simp add: engine_do_def split_beta Let_def split: option.split)
qed

lemma clear_sends_nothing: "filter (\<lambda>x. \<exists>t. x = VSend t) (snd (voice_clear s)) = []"
  by (simp add: voice_clear_def set_user_turn_def)

lemma end_sends:
  "filter (\<lambda>x. \<exists>t. x = VSend t) (snd (voice_end send s)) =
     (case vs_engine s of
        None \<Rightarrow> []
      | Some k \<Rightarrow>
          if send \<and> vs_mode s = Some Dictation \<and> trim (dictated s) \<noteq> [] then [VSend (trim (dictated s))] else [])"
  by (simp add: voice_end_def stop_sends_nothing clear_sends_nothing Let_def split: option.split)

text \<open>A confirmed dictation sends one message: the texts of the turns that ended and the words of
  the turn in progress, in the order heard, one space between, trimmed; nothing when that is empty.\<close>

theorem dictation_sends_what_was_heard:
  assumes "vs_engine s = Some k" "vs_mode s = Some Dictation" "vs_sessions s k = Some es" "\<not> ec_wake_word (es_config es)"
    and "vs_committed s = []" "vs_live s = []" "list_all (\<lambda>t. t \<noteq> []) (turns_of hs)"
  shows "filter (\<lambda>x. \<exists>t. x = VSend t)
      (snd (run_events voice_step s (map (\<lambda>h. VEngine k (EMessage d (Some (heard_frame h)))) hs @ [VStop]))) =
    (if trim (spoken_text hs) = [] then [] else [VSend (trim (spoken_text hs))])"
proof -
  let ?es = "map (\<lambda>h. VEngine k (EMessage d (Some (heard_frame h)))) hs"
  have s: "dictating [] [] s = s" using assms(5,6) by (simp add: dictating_def)
  have run: "fst (run_events voice_step s ?es) = dictating (turns_of hs) (words_of [] hs) s"
    "filter (\<lambda>x. \<exists>t. x = VSend t) (snd (run_events voice_step s ?es)) = []"
    using dictation_run [OF assms(3,4), of "[]" hs "[]" d] assms(7) by (simp_all add: s)
  let ?t = "dictating (turns_of hs) (words_of [] hs) s"
  have "vs_engine ?t = Some k" "vs_mode ?t = Some Dictation" using assms(1,2) by (simp_all add: dictating_def)
  with dictating_texts [OF assms(7), of "words_of [] hs" s] show ?thesis
    by (simp add: run_events_append run end_sends spoken_text_def)
qed

definition dictation_open :: voice_session where
  "dictation_open = voice_after web_deps 0 [VStart Dictation, VEngine 0 (EUrlBuilt 1 ''ws''), VEngine 0 (EOpened 0)]"

theorem dictation_sends_what_was_heard_witness:
  "filter (\<lambda>x. \<exists>t. x = VSend t)
      (snd (run_events voice_step dictation_open
        (map (\<lambda>h. VEngine 0 (EMessage 0 (Some (heard_frame h)))) [Words ''buy'', Words '''', Turn ''Buy milk'', Words ''and eggs''] @ [VStop]))) =
    (if trim (spoken_text [Words ''buy'', Words '''', Turn ''Buy milk'', Words ''and eggs'']) = [] then []
     else [VSend (trim (spoken_text [Words ''buy'', Words '''', Turn ''Buy milk'', Words ''and eggs'']))])"
  by (rule dictation_sends_what_was_heard [where k = 0 and es = "the (vs_sessions dictation_open 0)"])
    (simp_all add: dictation_open_def voice_eval)

lemma conversation_of_from_engine: "conversation_of (fst (from_engine k x s)) m = conversation_of s m"
  by (simp add: conversation_of_def from_engine_fields)

lemma engine_sends:
  assumes "VSend t \<in> set (snd (engine_do k e s))"
  shows "\<exists>es. vs_sessions s k = Some es \<and> ec_wake_word (es_config es) \<and> OnTurnEnd t \<in> set (snd (engine_step es e))"
proof -
  obtain es where es: "vs_sessions s k = Some es" using assms by (cases "vs_sessions s k") (auto simp: engine_do_def)
  have one: "x = OnTurnEnd t \<and> conversation_of u k" if "VSend t \<in> set (snd (from_engine k x u))" for x u
    using that
    by (cases x) (auto simp: from_engine_def report_voice_speaking_def set_user_turn_def voice_clear_def on_turn_end_def Let_def
        split: if_splits)
  have fold: "VSend t \<in> set (snd (run_events (\<lambda>s x. from_engine k x s) u os)) \<Longrightarrow>
      OnTurnEnd t \<in> set os \<and> conversation_of u k" for u os
  proof (induction os arbitrary: u)
    case (Cons x os)
    then show ?case using one [of x u] Cons.IH [of "fst (from_engine k x u)"]
      by (auto simp: conversation_of_from_engine)
  qed simp
  from fold [of "s\<lparr>vs_sessions := (vs_sessions s)(k \<mapsto> fst (engine_step es e))\<rparr>" "snd (engine_step es e)"] assms es
  have "OnTurnEnd t \<in> set (snd (engine_step es e))" "conversation_of s k"
    by (simp_all add: engine_do_def split_beta Let_def conversation_of_step [OF es])
  with es show ?thesis by (auto simp: conversation_of_def)
qed

lemma tts_sends_nothing: "VSend t \<notin> set (snd (tts_do e s))"
proof -
  have one: "VSend t \<notin> set (snd (from_tts x u))" for x u
    by (simp add: from_tts_def report_voice_speaking_def Let_def split: tts_out.split)
  have "VSend t \<notin> set (snd (run_events (\<lambda>s x. from_tts x s) u os))" for u os
    by (induction os arbitrary: u) (simp_all add: one)
  then show ?thesis by (simp add: tts_do_def split_beta Let_def)
qed

lemma end_sends_set:
  "VSend t \<in> set (snd (voice_end send s)) \<Longrightarrow> send \<and> vs_mode s = Some Dictation \<and> t = trim (dictated s) \<and> t \<noteq> []"
proof -
  assume a: "VSend t \<in> set (snd (voice_end send s))"
  then have "VSend t \<in> set (filter (\<lambda>x. \<exists>t. x = VSend t) (snd (voice_end send s)))" by simp
  then show ?thesis unfolding end_sends by (auto split: option.splits if_splits)
qed

lemma calls_send_nothing:
  "VSend t \<notin> set (snd (engine_do k EStart s))" "VSend t \<notin> set (snd (engine_do k (ESpeak u) s))"
  "VSend t \<notin> set (snd (engine_do k EStopSpeech s))"
  using engine_sends [of t k _ s] plays_do_plain [of "OnTurnEnd t"]
  by (fastforce simp: session_start_def session_speak_def say_def send_engine_frame_def session_stop_speech_def Let_def
      split: if_splits)+

text \<open>C9: A message goes out for two reasons only: the user confirmed a dictation that is not blank, or
  a turn of the user ended in a conversation; a cancel, an idle timer and the end of a conversation
  send nothing.\<close>

theorem every_message_is_the_users:
  assumes "VSend t \<in> set (snd (voice_step s e))"
  shows "(e = VStop \<and> vs_mode s = Some Dictation \<and> t = trim (dictated s) \<and> t \<noteq> []) \<or>
    (\<exists>k ev es. e = VEngine k ev \<and> vs_sessions s k = Some es \<and> ec_wake_word (es_config es) \<and>
       OnTurnEnd t \<in> set (snd (engine_step es ev)))"
proof (cases e)
  case (VEngine k ev)
  with assms engine_sends [of t k ev s] show ?thesis by auto
next
  case VStop
  with assms end_sends_set [of t True s] show ?thesis by simp blast
next
  case VCancel
  with assms end_sends_set [of t False s] show ?thesis by simp
next
  case VIdle
  with assms end_sends_set [of t False] show ?thesis by (auto simp: voice_idle_def)
qed (use assms tts_sends_nothing calls_send_nothing in \<open>auto simp: voice_start_def voice_speak_def voice_prefetch_def
      voice_stop_speech_def split: option.splits if_splits\<close>)

definition heard_hi :: voice_session where
  "heard_hi = dictating [] ''hi'' dictation_open"

theorem every_message_is_the_users_witness:
  "(VStop = VStop \<and> vs_mode heard_hi = Some Dictation \<and> ''hi'' = trim (dictated heard_hi) \<and> ''hi'' \<noteq> []) \<or>
    (\<exists>k ev es. VStop = VEngine k ev \<and> vs_sessions heard_hi k = Some es \<and> ec_wake_word (es_config es) \<and>
       OnTurnEnd ''hi'' \<in> set (snd (engine_step es ev)))"
  by (rule every_message_is_the_users)
    (simp add: heard_hi_def dictating_def dictation_open_def voice_eval trim_def is_js_space_def)

subsection \<open>The two signals of a voice session\<close>

text \<open>A signal of the outputs follows a flag of the state: it is sent when the flag changes, and only
  then.\<close>

fun toggles :: "('o \<Rightarrow> bool option) \<Rightarrow> bool \<Rightarrow> 'o list \<Rightarrow> bool" where
  "toggles f d [] = True"
| "toggles f d (x # os) = (case f x of None \<Rightarrow> toggles f d os | Some b \<Rightarrow> b \<noteq> d \<and> toggles f b os)"

lemma toggles_append: "toggles f d (os @ ps) \<longleftrightarrow> toggles f d os \<and> toggles f (signalled f os d) ps"
  by (induction os arbitrary: d) (auto split: option.split)

definition tracks :: "('o \<Rightarrow> bool option) \<Rightarrow> ('s \<Rightarrow> bool) \<Rightarrow> 's \<Rightarrow> 's \<times> 'o list \<Rightarrow> bool" where
  "tracks f g s r \<longleftrightarrow> toggles f (g s) (snd r) \<and> signalled f (snd r) (g s) = g (fst r)"

lemma tracks_chain:
  assumes "tracks f g s r" "\<And>t. tracks f g t (h t)"
  shows "tracks f g s (chain r h)"
  using assms(1) assms(2) [of "fst r"] by (simp add: tracks_def toggles_append)

lemma tracks_run:
  assumes "\<And>t x. tracks f g t (step t x)"
  shows "tracks f g s (run_events step s os)"
proof (induction os arbitrary: s)
  case (Cons x os)
  from Cons [of "fst (step s x)"] assms [of s x] show ?case by (simp add: tracks_def toggles_append)
qed (simp add: tracks_def)

lemma tracks_from: "g t = g s \<Longrightarrow> tracks f g t r \<Longrightarrow> tracks f g s r"
  by (simp add: tracks_def)

lemma tracks_same: "g t = g s \<Longrightarrow> list_all (\<lambda>x. f x = None) os \<Longrightarrow> tracks f g s (t, os)"
proof -
  have "list_all (\<lambda>x. f x = None) os \<Longrightarrow> toggles f d os" for d by (induction os) simp_all
  then show "g t = g s \<Longrightarrow> list_all (\<lambda>x. f x = None) os \<Longrightarrow> tracks f g s (t, os)"
    by (simp add: tracks_def signalled_none)
qed

fun floor_signal :: "voice_out \<Rightarrow> bool option" where
  "floor_signal (VUserSpeaking b) = Some b"
| "floor_signal x = None"

fun speaking_told :: "voice_out \<Rightarrow> bool option" where
  "speaking_told (VSpeaking b) = Some b"
| "speaking_told x = None"

text \<open>The two flags at once: the floor of the user and the speaking.\<close>

definition tells :: "voice_session \<Rightarrow> voice_result \<Rightarrow> bool" where
  "tells s r \<longleftrightarrow> tracks floor_signal vs_user_turn s r \<and> tracks speaking_told vs_speaking s r"

lemma tells_chain: "tells s r \<Longrightarrow> (\<And>t. tells t (h t)) \<Longrightarrow> tells s (chain r h)"
  by (simp add: tells_def tracks_chain)

lemma tells_run: "(\<And>t x. tells t (step t x)) \<Longrightarrow> tells s (run_events step s os)"
  by (simp add: tells_def tracks_run)

lemma tells_from: "vs_user_turn t = vs_user_turn s \<Longrightarrow> vs_speaking t = vs_speaking s \<Longrightarrow> tells t r \<Longrightarrow> tells s r"
  by (auto simp: tells_def intro: tracks_from)

lemma tells_same:
  "vs_user_turn t = vs_user_turn s \<Longrightarrow> vs_speaking t = vs_speaking s \<Longrightarrow>
     list_all (\<lambda>x. floor_signal x = None \<and> speaking_told x = None) os \<Longrightarrow> tells s (t, os)"
  by (simp add: tells_def tracks_same list_all_iff)

lemma tells_turn: "tells s (set_user_turn v s)"
  by (simp add: tells_def tracks_def set_user_turn_def)

lemma tells_report: "vs_user_turn t = vs_user_turn s \<Longrightarrow> vs_speaking t = vs_speaking s \<Longrightarrow> tells s (report_voice_speaking t)"
  by (auto simp: tells_def tracks_def report_voice_speaking_def Let_def)

lemma tells_clear: "tells s (voice_clear s)"
  unfolding voice_clear_def
  by (rule tells_chain, rule tells_from [OF _ _ tells_turn]) (simp_all add: tells_same)

lemma tells_from_engine: "tells s (from_engine k x s)"
proof (cases x)
  case (OnTurnEnd t)
  have "tells s (chain (set_user_turn False s) (\<lambda>s. (arm_idle_timer True s, [VSend t])))"
    by (rule tells_chain [OF tells_turn]) (simp add: tells_same)
  with OnTurnEnd show ?thesis by (simp add: from_engine_def on_turn_end_def tells_same Let_def)
next
  case (OnSessionError m)
  then show ?thesis by (auto simp: from_engine_def tells_same tells_clear intro!: tells_chain)
next
  case (OnActiveChange b)
  then show ?thesis by (auto simp: from_engine_def tells_same tells_clear intro!: tells_chain)
next
  case (StartRejected g m)
  then show ?thesis by (auto simp: from_engine_def tells_same tells_clear intro!: tells_chain)
qed (simp_all add: from_engine_def tells_same tells_turn tells_report Let_def)

lemma tells_from_tts: "tells s (from_tts x s)"
  by (cases x) (simp_all add: from_tts_def tells_same tells_report)

lemma tells_engine: "tells s (engine_do k e s)"
  unfolding engine_do_def
  by (auto simp: split_beta Let_def tells_same intro: tells_from [OF _ _ tells_run [OF tells_from_engine]]
      split: option.split)

lemma tells_tts: "tells s (tts_do e s)"
  unfolding tts_do_def
  by (auto simp: split_beta Let_def intro: tells_from [OF _ _ tells_run [OF tells_from_tts]])

lemma tells_end: "tells s (voice_end send s)"
  unfolding voice_end_def Let_def
  by (auto simp: tells_same tells_engine tells_clear intro!: tells_chain split: option.split)

lemma tells_step: "tells s (voice_step s e)"
proof (cases e)
  case VIdle
  have "tells s (voice_end False (s\<lparr>vs_idle_timer := None\<rparr>))" by (rule tells_from [OF _ _ tells_end]) simp_all
  with VIdle show ?thesis by (simp add: voice_idle_def tells_chain tells_same)
next
  case (VStart m)
  have "tells t (engine_do (vs_next t) EStart (voice_open m t))" for t
    by (rule tells_from [OF _ _ tells_engine]) (simp_all add: voice_open_def)
  with VStart show ?thesis
    by (auto simp: voice_start_def tells_same tells_tts intro!: tells_chain)
next
  case VStopSpeech
  then show ?thesis by (auto simp: voice_stop_speech_def tells_same tells_tts tells_engine intro!: tells_chain split: option.split)
qed (simp_all add: tells_same tells_end tells_engine tells_tts voice_speak_def voice_prefetch_def split: option.split)

text \<open>C8: The client hears of the user's turn and of the speaking exactly when they change: the signals
  alternate, from true, and what they leave is the flag.  So the user's turn is given back however
  the session ends: outside a conversation it is false.\<close>

theorem floor_and_speaking_alternate:
  assumes "legal_events voice_step voice_enabled (create_voice_session deps n) es"
  shows "let os = snd (run_events voice_step (create_voice_session deps n) es); s = voice_after deps n es in
    toggles floor_signal False os \<and> toggles speaking_told False os \<and>
    signalled speaking_told os False = vs_speaking s \<and>
    signalled floor_signal os False = (vs_user_turn s \<and> vs_mode s = Some Conversation)"
proof -
  have "tells (create_voice_session deps n) (run_events voice_step (create_voice_session deps n) es)"
    by (rule tells_run [OF tells_step])
  then have t: "toggles floor_signal False (snd (run_events voice_step (create_voice_session deps n) es))"
    "toggles speaking_told False (snd (run_events voice_step (create_voice_session deps n) es))"
    "signalled floor_signal (snd (run_events voice_step (create_voice_session deps n) es)) False =
       vs_user_turn (voice_after deps n es)"
    "signalled speaking_told (snd (run_events voice_step (create_voice_session deps n) es)) False =
       vs_speaking (voice_after deps n es)"
    by (simp_all add: tells_def tracks_def voice_after_def) (simp_all add: create_voice_session_def)
  have inv: "voice_inv (voice_after deps n es)"
    unfolding voice_after_def by (rule voice.run_inv [OF voice_inv_start assms])
  have "vs_user_turn (voice_after deps n es) \<Longrightarrow> vs_mode (voice_after deps n es) = Some Conversation"
    using voice_invD(1) [OF inv] unfolding voice_ok_def conversing_def by blast
  with t show ?thesis by (auto simp: Let_def)
qed

theorem floor_and_speaking_alternate_witness:
  "let os = snd (run_events voice_step (create_voice_session web_deps 0) [VSpeak ''hello'', VStart Conversation]);
       s = voice_after web_deps 0 [VSpeak ''hello'', VStart Conversation] in
    toggles floor_signal False os \<and> toggles speaking_told False os \<and>
    signalled speaking_told os False = vs_speaking s \<and>
    signalled floor_signal os False = (vs_user_turn s \<and> vs_mode s = Some Conversation)"
  by (rule floor_and_speaking_alternate) simp

subsection \<open>The idle timer\<close>

text \<open>The timer is armed when a turn ends and is not cleared when the next turn starts, so a
  conversation ends itself while its user is talking: the turn in progress is dropped.\<close>

definition talking :: voice_session where
  "talking = voice_after web_deps 1000
     [VStart Conversation, VEngine 0 (EUrlBuilt 1 ''ws''), VEngine 0 (EOpened 0), VEngine 0 (CaptureStarted 1),
      VEngine 0 (EMessage 0 (Some (JObj [(''type'', JStr ''state''), (''state'', JStr ''idle'')]))),
      VEngine 0 (StartReady 1), VEngine 0 (EMessage 0 (Some (JObj [(''type'', JStr ''turn_start'')])))]"

lemma idle_timer_cuts_a_turn:
  "vs_user_turn talking \<and> voice_enabled talking VIdle \<and> vs_mode (fst (voice_step talking VIdle)) = None \<and>
     last (snd (voice_step talking VIdle)) = VInactivityStop"
  by (simp add: talking_def voice_eval)

end
