(* ===== verification/VoiceStore.thy ===== *)
theory VoiceStore
  imports VoiceSession
begin

section \<open>The web app's voice (apps/web/src/stores/use-voice.ts, providers/VoiceProvider/index.tsx)\<close>

text \<open>
  The store of the tab and the effects of its provider, over the voice session of core (\<open>VoiceSession\<close>).  A call of
  the session runs its step, and its callbacks change the store in their order.  The store's own calls, the renders
  of the provider and the answers of the status requests are the events; everything else the session hears is passed
  on to it.  A call of the session's ports goes out with the agent the store has at that moment, since the ports
  read it then.  The agent a session was started for is kept beside the store, to state what the store promises of it.
  The time the conversation may be silent is the store's setting, which the session reads when it arms its timer.
  The list of services is left out but for whether it has the voice service, and with which revision.
\<close>

subsection \<open>State\<close>

record role_status =
  rs_configured :: bool
  rs_enabled :: "bool option"
  rs_settings :: "json option"

text \<open>\<open>Partial<VoiceStatus>\<close>, of the fields above: one that is absent is none.\<close>

record status_patch =
  sp_configured :: "bool option"
  sp_enabled :: "bool option"
  sp_settings :: "json option"

record voice_data =
  vd_stt :: role_status
  vd_tts :: role_status
  vd_judge :: "role_status option"
  vd_behaviors :: "json option"

record derived_status =
  dv_stt_available :: bool
  dv_speech_enabled :: bool
  dv_configured :: bool

text \<open>A request of the settings: the provider's, which a later run of its effect aborts, or a refresh.\<close>

record settings_fetch =
  sf_agent :: string
  sf_aborted :: bool
  sf_effect :: bool

record voice_store =
  vo_session :: voice_session
  vo_agent :: "string option"
  vo_has_voice :: bool
  vo_rev :: "nat option"
  vo_mounted :: bool
  vo_stt :: "role_status option"
  vo_tts :: "role_status option"
  vo_judge :: "role_status option"
  vo_behaviors :: "json option"
  vo_derived :: derived_status
  vo_mode :: "voice_mode option"
  vo_listening :: bool
  vo_transcript :: string
  vo_error :: "string option"
  vo_speaking :: bool
  vo_muted :: bool
  vo_mic_muted :: bool
  vo_auto_end :: bool
  vo_chat :: bool
  vo_fetches :: "(nat \<times> settings_fetch) list"
  vo_next :: nat
  vo_started_for :: "string option"

datatype store_event =
  StartVoice voice_mode
| StopVoice
| CancelVoice
| PrefetchText string
| SpeakText string
| StopSpeechCall
| ToggleMuted
| ToggleMicMuted
| SetAutoEnd bool
| RegisterChat
| PatchStt status_patch
| PatchTts status_patch
| SetSttStatus "role_status option"
| SetTtsStatus "role_status option"
| SetBehaviors "json option"
| SetJudge "role_status option"
| RefreshStatus
| SettingsAnswer nat "voice_data option"
| ProviderRenders "string option" bool "nat option"
| DismissError
| ProviderUnmounts
| SessionHears voice_event

datatype store_out =
  SendsToChat string
| ClearsInput
| ReportsSpeaking bool
| ShowsToast string string
| PortCall "string option" voice_out
| SavesMuted bool
| SavesAutoEnd bool
| FetchesSettings nat string

type_synonym store_result = "voice_store \<times> store_out list"

definition conversation_inactivity_ms :: nat where "conversation_inactivity_ms = 15 * 60000"

definition derive_status :: "role_status option \<Rightarrow> role_status option \<Rightarrow> derived_status" where
  "derive_status stt tts =
     (let usable = (\<lambda>r. case r of None \<Rightarrow> False | Some s \<Rightarrow> rs_configured s \<and> rs_enabled s = Some True);
          set_up = (\<lambda>r. case r of None \<Rightarrow> False | Some s \<Rightarrow> rs_configured s)
      in \<lparr>dv_stt_available = usable stt, dv_speech_enabled = usable tts, dv_configured = set_up stt \<or> set_up tts\<rparr>)"

definition speakable :: "voice_store \<Rightarrow> bool" where
  "speakable s \<longleftrightarrow> dv_speech_enabled (vo_derived s) \<and> (vo_mode s = Some Conversation \<or> \<not> vo_muted s)"

definition inactivity_of :: "bool \<Rightarrow> nat" where
  "inactivity_of auto_end = (if auto_end then conversation_inactivity_ms else 0)"

definition create_voice_store :: "engine_config \<Rightarrow> bool \<Rightarrow> bool \<Rightarrow> voice_store" where
  "create_voice_store deps muted auto_end =
     \<lparr>vo_session = create_voice_session deps (inactivity_of auto_end), vo_agent = None, vo_has_voice = False,
      vo_rev = None, vo_mounted = False, vo_stt = None, vo_tts = None, vo_judge = None, vo_behaviors = None,
      vo_derived = derive_status None None, vo_mode = None, vo_listening = False, vo_transcript = [],
      vo_error = None, vo_speaking = False, vo_muted = muted, vo_mic_muted = False, vo_auto_end = auto_end,
      vo_chat = False, vo_fetches = [], vo_next = 0, vo_started_for = None\<rparr>"

subsection \<open>The session's callbacks\<close>

definition mode_changed :: "voice_mode option \<Rightarrow> voice_store \<Rightarrow> voice_store" where
  "mode_changed m s =
     (case m of
        None \<Rightarrow> s\<lparr>vo_mode := None, vo_listening := False, vo_transcript := [], vo_mic_muted := False\<rparr>
      | Some k \<Rightarrow> s\<lparr>vo_mode := Some k\<rparr>)"

definition from_voice :: "voice_store \<Rightarrow> voice_out \<Rightarrow> store_result" where
  "from_voice s x =
     (case x of
        VTranscript t \<Rightarrow> (s\<lparr>vo_transcript := t\<rparr>, [])
      | VSend t \<Rightarrow> (s, if vo_chat s then [SendsToChat t] else [])
      | VError m \<Rightarrow> (s\<lparr>vo_error := Some m\<rparr>, [])
      | VMode m \<Rightarrow> (mode_changed m s, [])
      | VListening b \<Rightarrow> (s\<lparr>vo_listening := b\<rparr>, [])
      | VSpeaking b \<Rightarrow> (s\<lparr>vo_speaking := b\<rparr>, [])
      | VUserSpeaking b \<Rightarrow> (s, if vo_chat s then [ReportsSpeaking b] else [])
      | VInactivityStop \<Rightarrow> (s, [ShowsToast ''info'' ''conversation ended after 15 minutes of silence''])
      | VStarted k \<Rightarrow> (s, [])
      | VStartFailed k m \<Rightarrow> (s\<lparr>vo_error := Some m\<rparr>, [])
      | _ \<Rightarrow> (s, [PortCall (vo_agent s) x]))"

definition session_do :: "voice_event \<Rightarrow> voice_store \<Rightarrow> store_result" where
  "session_do e s =
     (let (v, os) = voice_step (vo_session s) e in run_events from_voice (s\<lparr>vo_session := v\<rparr>) os)"

subsection \<open>The store's calls\<close>

definition named_agent :: "string option \<Rightarrow> bool" where
  "named_agent a \<longleftrightarrow> a \<noteq> None \<and> a \<noteq> Some []"

definition setup_toast :: "role_status option \<Rightarrow> string \<Rightarrow> store_out" where
  "setup_toast status role =
     ShowsToast ''error''
       ((if (case status of None \<Rightarrow> False | Some r \<Rightarrow> rs_configured r) then ''enable '' else ''set up '') @
        role @ '' in the settings'')"

definition start_voice :: "voice_mode \<Rightarrow> voice_store \<Rightarrow> store_result" where
  "start_voice m s =
     (if vs_mode (vo_session s) \<noteq> None then (s, [])
      else if \<not> named_agent (vo_agent s) then (s, [])
      else if \<not> dv_stt_available (vo_derived s) then (s, [setup_toast (vo_stt s) ''speech-to-text''])
      else if m = Conversation \<and> \<not> dv_speech_enabled (vo_derived s)
      then (s, [setup_toast (vo_tts s) ''text-to-speech''])
      else chain (s\<lparr>vo_error := None, vo_started_for := vo_agent s\<rparr>, if vo_chat s then [ClearsInput] else [])
             (session_do (VStart m)))"

definition toggle_muted :: "voice_store \<Rightarrow> store_result" where
  "toggle_muted s =
     (let now = (\<not> vo_muted s)
      in chain (chain (s, [SavesMuted now]) (\<lambda>s. if now then session_do VStopSpeech s else (s, [])))
           (\<lambda>s. (s\<lparr>vo_muted := now\<rparr>, [])))"

definition set_auto_end :: "bool \<Rightarrow> voice_store \<Rightarrow> store_result" where
  "set_auto_end b s =
     chain (s\<lparr>vo_auto_end := b\<rparr>, [SavesAutoEnd b]) (session_do (VSettings (inactivity_of b)))"

definition patched :: "status_patch \<Rightarrow> role_status \<Rightarrow> role_status" where
  "patched p r =
     \<lparr>rs_configured = nullish (sp_configured p) (rs_configured r),
      rs_enabled = (if sp_enabled p = None then rs_enabled r else sp_enabled p),
      rs_settings = (if sp_settings p = None then rs_settings r else sp_settings p)\<rparr>"

definition patch_stt :: "status_patch \<Rightarrow> voice_store \<Rightarrow> voice_store" where
  "patch_stt p s =
     (let stt = map_option (patched p) (vo_stt s) in s\<lparr>vo_stt := stt, vo_derived := derive_status stt (vo_tts s)\<rparr>)"

definition patch_tts :: "status_patch \<Rightarrow> voice_store \<Rightarrow> voice_store" where
  "patch_tts p s =
     (let tts = map_option (patched p) (vo_tts s) in s\<lparr>vo_tts := tts, vo_derived := derive_status (vo_stt s) tts\<rparr>)"

definition set_voice_settings :: "voice_data option \<Rightarrow> voice_store \<Rightarrow> voice_store" where
  "set_voice_settings data s =
     (let stt = map_option vd_stt data; tts = map_option vd_tts data
      in s\<lparr>vo_stt := stt, vo_tts := tts, vo_judge := Option.bind data vd_judge,
           vo_behaviors := Option.bind data vd_behaviors, vo_derived := derive_status stt tts\<rparr>)"

definition fetch_settings :: "string \<Rightarrow> bool \<Rightarrow> voice_store \<Rightarrow> store_result" where
  "fetch_settings agent effect s =
     (s\<lparr>vo_fetches := vo_fetches s @ [(vo_next s, \<lparr>sf_agent = agent, sf_aborted = False, sf_effect = effect\<rparr>)],
        vo_next := Suc (vo_next s)\<rparr>, [FetchesSettings (vo_next s) agent])"

definition refresh_status :: "voice_store \<Rightarrow> store_result" where
  "refresh_status s =
     (case vo_agent s of
        None \<Rightarrow> (s, [])
      | Some name \<Rightarrow> if name = [] then (s, []) else fetch_settings name False s)"

text \<open>The answer of a settings request; one of the provider's effect that was aborted is dropped.\<close>

definition settings_arrive :: "nat \<Rightarrow> voice_data option \<Rightarrow> voice_store \<Rightarrow> voice_store" where
  "settings_arrive i data s =
     (case map_of (vo_fetches s) i of
        None \<Rightarrow> s
      | Some f \<Rightarrow>
          (let s = s\<lparr>vo_fetches := filter (\<lambda>(j, _). j \<noteq> i) (vo_fetches s)\<rparr>
           in case data of None \<Rightarrow> s | Some d \<Rightarrow> if sf_aborted f then s else set_voice_settings (Some d) s))"

definition set_agent_context :: "string option \<Rightarrow> bool \<Rightarrow> nat option \<Rightarrow> voice_store \<Rightarrow> store_result" where
  "set_agent_context name has_voice revision s =
     chain (if name \<noteq> vo_agent s \<and> vs_mode (vo_session s) \<noteq> None then session_do VCancel s else (s, []))
       (\<lambda>s. (s\<lparr>vo_agent := name, vo_has_voice := has_voice, vo_rev := revision\<rparr>, []))"

definition abort_effect :: "voice_store \<Rightarrow> voice_store" where
  "abort_effect s =
     s\<lparr>vo_fetches := map (\<lambda>(i, f). (i, if sf_effect f then f\<lparr>sf_aborted := True\<rparr> else f)) (vo_fetches s)\<rparr>"

text \<open>The provider's two effects that follow the selected agent; their dependencies are compared with the
  last render's, which the store holds.\<close>

definition provider_renders :: "string option \<Rightarrow> bool \<Rightarrow> nat option \<Rightarrow> voice_store \<Rightarrow> store_result" where
  "provider_renders name has_voice revision s =
     (let moved = (\<not> vo_mounted s \<or> (name, has_voice, revision) \<noteq> (vo_agent s, vo_has_voice s, vo_rev s))
      in chain (set_agent_context name has_voice revision (s\<lparr>vo_mounted := True\<rparr>))
           (\<lambda>s. if \<not> moved then (s, [])
                else case name of
                       None \<Rightarrow> (set_voice_settings None (abort_effect s), [])
                     | Some n \<Rightarrow> if \<not> has_voice then (set_voice_settings None (abort_effect s), [])
                                 else fetch_settings n True (abort_effect s)))"

definition provider_unmounts :: "voice_store \<Rightarrow> store_result" where
  "provider_unmounts s = 
     chain (session_do VCancel (abort_effect (s\<lparr>vo_mounted := False\<rparr>))) (session_do VStopSpeech)"

fun store_step :: "voice_store \<Rightarrow> store_event \<Rightarrow> store_result" where
  "store_step s (StartVoice m) = start_voice m s"
| "store_step s StopVoice = session_do VStop s"
| "store_step s CancelVoice = session_do VCancel s"
| "store_step s (PrefetchText t) = (if speakable s then session_do (VPrefetch t) s else (s, []))"
| "store_step s (SpeakText t) = (if speakable s then session_do (VSpeak t) s else (s, []))"
| "store_step s StopSpeechCall = session_do VStopSpeech s"
| "store_step s ToggleMuted = toggle_muted s"
| "store_step s ToggleMicMuted = (s\<lparr>vo_mic_muted := \<not> vo_mic_muted s\<rparr>, [])"
| "store_step s (SetAutoEnd b) = set_auto_end b s"
| "store_step s RegisterChat = (s\<lparr>vo_chat := True\<rparr>, [])"
| "store_step s (PatchStt p) = (patch_stt p s, [])"
| "store_step s (PatchTts p) = (patch_tts p s, [])"
| "store_step s (SetSttStatus r) = (s\<lparr>vo_stt := r, vo_derived := derive_status r (vo_tts s)\<rparr>, [])"
| "store_step s (SetTtsStatus r) = (s\<lparr>vo_tts := r, vo_derived := derive_status (vo_stt s) r\<rparr>, [])"
| "store_step s (SetBehaviors b) = (s\<lparr>vo_behaviors := b\<rparr>, [])"
| "store_step s (SetJudge j) = (s\<lparr>vo_judge := j\<rparr>, [])"
| "store_step s RefreshStatus = refresh_status s"
| "store_step s (SettingsAnswer i data) = (settings_arrive i data s, [])"
| "store_step s (ProviderRenders name has_voice revision) = provider_renders name has_voice revision s"
| "store_step s DismissError = (s\<lparr>vo_error := None\<rparr>, [])"
| "store_step s ProviderUnmounts = provider_unmounts s"
| "store_step s (SessionHears e) = session_do e s"

text \<open>What the session hears of its environment: its idle timer, and the ports' events.\<close>

fun of_environment :: "voice_event \<Rightarrow> bool" where
  "of_environment VIdle = True"
| "of_environment (VEngine k e) = True"
| "of_environment (VTts e) = True"
| "of_environment e = False"

fun store_enabled :: "voice_store \<Rightarrow> store_event \<Rightarrow> bool" where
  "store_enabled s (SessionHears e) = (of_environment e \<and> voice_enabled (vo_session s) e)"
| "store_enabled s (SettingsAnswer i data) = (map_of (vo_fetches s) i \<noteq> None)"
| "store_enabled s DismissError = (vo_mounted s \<and> vo_error s \<noteq> None \<and> vo_error s \<noteq> Some [])"
| "store_enabled s e = True"

subsection \<open>What the session tells of its mode and its texts\<close>

text \<open>The mode the client was told last.\<close>

definition told_mode :: "voice_out list \<Rightarrow> voice_mode option \<Rightarrow> voice_mode option" where
  "told_mode os m = fold (\<lambda>x m. case x of VMode m' \<Rightarrow> m' | _ \<Rightarrow> m) os m"

lemma told_mode_simps [simp]:
  "told_mode [] m = m" "told_mode (x # os) m = told_mode os (case x of VMode m' \<Rightarrow> m' | _ \<Rightarrow> m)"
  "told_mode (os @ ps) m = told_mode ps (told_mode os m)"
  by (simp_all add: told_mode_def)

lemma told_mode_none: "\<forall>x \<in> set os. \<forall>m. x \<noteq> VMode m \<Longrightarrow> told_mode os m = m"
  by (induction os) (auto split: voice_out.split)

definition tells_mode :: "voice_session \<Rightarrow> voice_result \<Rightarrow> bool" where
  "tells_mode s r \<longleftrightarrow> told_mode (snd r) (vs_mode s) = vs_mode (fst r)"

lemma tells_mode_chain: "tells_mode s r \<Longrightarrow> (\<And>t. tells_mode t (h t)) \<Longrightarrow> tells_mode s (chain r h)"
  by (simp add: tells_mode_def)

lemma tells_mode_run: "(\<And>t x. tells_mode t (step t x)) \<Longrightarrow> tells_mode s (run_events step s os)"
  by (induction os arbitrary: s) (simp_all add: tells_mode_def)

lemma tells_mode_from: "vs_mode t = vs_mode s \<Longrightarrow> tells_mode t r \<Longrightarrow> tells_mode s r"
  by (simp add: tells_mode_def)

lemma tells_mode_same: "vs_mode t = vs_mode s \<Longrightarrow> \<forall>x \<in> set os. \<forall>m. x \<noteq> VMode m \<Longrightarrow> tells_mode s (t, os)"
  by (simp add: tells_mode_def told_mode_none)

lemma tells_mode_clear: "tells_mode s (voice_clear s)"
  by (simp add: tells_mode_def voice_clear_def set_user_turn_def)

lemma tells_mode_report: "vs_mode t = vs_mode s \<Longrightarrow> tells_mode s (report_voice_speaking t)"
  by (simp add: tells_mode_def report_voice_speaking_def Let_def)

lemma tells_mode_turn: "tells_mode s (set_user_turn v s)"
  by (simp add: tells_mode_def set_user_turn_def)

lemma tells_mode_from_engine: "tells_mode s (from_engine k x s)"
proof (cases x)
  case (OnTurnEnd t)
  have "tells_mode s (chain (set_user_turn False s) (\<lambda>s. (arm_idle_timer True s, [VSend t])))"
    by (rule tells_mode_chain [OF tells_mode_turn]) (simp add: tells_mode_same)
  with OnTurnEnd show ?thesis by (simp add: from_engine_def on_turn_end_def tells_mode_same Let_def)
next
  case (OnSessionError m)
  then show ?thesis by (auto simp: from_engine_def tells_mode_same tells_mode_clear intro!: tells_mode_chain)
next
  case (OnActiveChange b)
  then show ?thesis by (auto simp: from_engine_def tells_mode_same tells_mode_clear intro!: tells_mode_chain)
next
  case (StartRejected g m)
  then show ?thesis by (auto simp: from_engine_def tells_mode_same tells_mode_clear intro!: tells_mode_chain)
qed (simp_all add: from_engine_def tells_mode_same tells_mode_turn tells_mode_report Let_def)

lemma tells_mode_from_tts: "tells_mode s (from_tts x s)"
  by (cases x) (simp_all add: from_tts_def tells_mode_same tells_mode_report)

lemma tells_mode_engine: "tells_mode s (engine_do k e s)"
  unfolding engine_do_def
  by (auto simp: split_beta Let_def tells_mode_same intro: tells_mode_from [OF _ tells_mode_run [OF tells_mode_from_engine]]
      split: option.split)

lemma tells_mode_tts: "tells_mode s (tts_do e s)"
  unfolding tts_do_def
  by (auto simp: split_beta Let_def intro: tells_mode_from [OF _ tells_mode_run [OF tells_mode_from_tts]])

lemma tells_mode_end: "tells_mode s (voice_end send s)"
  unfolding voice_end_def Let_def
  by (auto simp: tells_mode_same tells_mode_engine tells_mode_clear intro!: tells_mode_chain split: option.split)

lemma tells_mode_step: "tells_mode s (voice_step s e)"
proof (cases e)
  case VIdle
  have "tells_mode s (voice_end False (s\<lparr>vs_idle_timer := None\<rparr>))" by (rule tells_mode_from [OF _ tells_mode_end]) simp
  with VIdle show ?thesis by (simp add: voice_idle_def tells_mode_chain tells_mode_same)
next
  case (VStart m)
  have "tells_mode s (s\<lparr>vs_mode := Some m\<rparr>, [VMode (Some m)])" by (simp add: tells_mode_def)
  moreover have "tells_mode t (engine_do (vs_next t) EStart (voice_open m t))" for t
    by (rule tells_mode_from [OF _ tells_mode_engine]) (simp add: voice_open_def)
  ultimately show ?thesis using VStart by (auto simp: voice_start_def tells_mode_same tells_mode_tts intro!: tells_mode_chain)
next
  case VStopSpeech
  then show ?thesis
    by (auto simp: voice_stop_speech_def tells_mode_same tells_mode_tts tells_mode_engine intro!: tells_mode_chain split: option.split)
qed (simp_all add: tells_mode_same tells_mode_end tells_mode_engine tells_mode_tts voice_speak_def voice_prefetch_def split: option.split)

text \<open>Only a start sets a mode; everything else keeps it or clears it.\<close>

definition keeps_mode :: "voice_session \<Rightarrow> voice_result \<Rightarrow> bool" where
  "keeps_mode s r \<longleftrightarrow> vs_mode (fst r) \<in> {vs_mode s, None} \<and> vs_inactivity (fst r) = vs_inactivity s"

lemma keeps_mode_chain:
  assumes "keeps_mode s r" "\<And>t. keeps_mode t (h t)"
  shows "keeps_mode s (chain r h)"
  using assms(1) assms(2) [of "fst r"] by (auto simp: keeps_mode_def)

lemma keeps_mode_run:
  assumes "\<And>t x. keeps_mode t (step t x)"
  shows "keeps_mode s (run_events step s os)"
proof (induction os arbitrary: s)
  case (Cons x os)
  from Cons [of "fst (step s x)"] assms [of s x] show ?case by (auto simp: keeps_mode_def)
qed (simp add: keeps_mode_def)

lemma keeps_mode_from:
  "vs_mode t = vs_mode s \<Longrightarrow> vs_inactivity t = vs_inactivity s \<Longrightarrow> keeps_mode t r \<Longrightarrow> keeps_mode s r"
  by (simp add: keeps_mode_def)

lemma keeps_mode_engine: "keeps_mode s (engine_do k e s)"
proof -
  have "keeps_mode t (from_engine k x t)" for x t
    by (auto simp: keeps_mode_def from_engine_def on_turn_end_def Let_def split: engine_out.split)
  then show ?thesis unfolding engine_do_def
    by (auto simp: split_beta Let_def keeps_mode_def [of _ "(_, [])"] intro: keeps_mode_from [OF _ _ keeps_mode_run] split: option.split)
qed

lemma keeps_mode_tts: "keeps_mode s (tts_do e s)"
proof -
  have "keeps_mode t (from_tts x t)" for x t by (simp add: keeps_mode_def from_tts_def split: tts_out.split)
  then show ?thesis unfolding tts_do_def by (auto simp: split_beta Let_def intro: keeps_mode_from [OF _ _ keeps_mode_run])
qed

lemma keeps_mode_end: "keeps_mode s (voice_end send s)"
proof -
  have "keeps_mode t (voice_clear t)" for t by (simp add: keeps_mode_def)
  then show ?thesis unfolding voice_end_def Let_def
    by (auto simp: keeps_mode_engine keeps_mode_def [of _ "(_, _)"] intro!: keeps_mode_chain split: option.split)
qed

lemma keeps_mode_step:
  assumes "\<nexists>m. e = VStart m" "\<nexists>n. e = VSettings n"
  shows "keeps_mode s (voice_step s e)"
proof (cases e)
  case VIdle
  have "keeps_mode s (voice_end False (s\<lparr>vs_idle_timer := None\<rparr>))" by (rule keeps_mode_from [OF _ _ keeps_mode_end]) simp_all
  with VIdle show ?thesis by (auto simp: voice_idle_def keeps_mode_def [of _ "(_, _)"] intro!: keeps_mode_chain)
next
  case VStopSpeech
  then show ?thesis
    by (auto simp: voice_stop_speech_def keeps_mode_tts keeps_mode_engine keeps_mode_def [of _ "(_, _)"]
        intro!: keeps_mode_chain split: option.split)
next
  case (VPrefetch t)
  then show ?thesis by (simp add: voice_prefetch_def keeps_mode_tts) (simp add: keeps_mode_def)
qed (use assms in \<open>simp_all add: keeps_mode_end keeps_mode_engine keeps_mode_tts voice_speak_def split: option.split\<close>)

text \<open>The outputs that put a text or the microphone on the screen, and the one that clears them.\<close>

fun shows_session :: "voice_out \<Rightarrow> bool option" where
  "shows_session (VMode m) = (if m = None then Some False else None)"
| "shows_session (VListening b) = (if b then Some True else None)"
| "shows_session (VTranscript t) = Some True"
| "shows_session x = None"

definition shows_live :: "voice_session \<Rightarrow> voice_result \<Rightarrow> bool" where
  "shows_live s r \<longleftrightarrow>
     (\<forall>d. (d \<longrightarrow> vs_mode s \<noteq> None) \<longrightarrow> signalled shows_session (snd r) d \<longrightarrow> vs_mode (fst r) \<noteq> None)"

lemma shows_live_mode: "vs_mode (fst r) \<noteq> None \<Longrightarrow> shows_live s r"
  by (simp add: shows_live_def)

lemma shows_liveD:
  "shows_live s r \<Longrightarrow> d \<longrightarrow> vs_mode s \<noteq> None \<Longrightarrow> signalled shows_session (snd r) d \<longrightarrow> vs_mode (fst r) \<noteq> None"
  unfolding shows_live_def by blast

lemma shows_live_append:
  assumes "shows_live s r" "shows_live (fst r) q"
  shows "shows_live s (fst q, snd r @ snd q)"
  unfolding shows_live_def fst_conv snd_conv signalled_simps
  using shows_liveD [OF assms(2) shows_liveD [OF assms(1)]] by blast

lemma shows_live_chain:
  assumes "shows_live s r" "\<And>t. shows_live t (h t)"
  shows "shows_live s (chain r h)"
  using shows_live_append [OF assms(1) assms(2)] by (simp add: shows_live_def)

lemma shows_live_run:
  assumes "\<And>t x. P x \<Longrightarrow> shows_live t (step t x)" "list_all P os"
  shows "shows_live s (run_events step s os)"
  using assms(2)
proof (induction os arbitrary: s)
  case (Cons x os)
  then have "shows_live s (step s x)" "shows_live (fst (step s x)) (run_events step (fst (step s x)) os)"
    using assms(1) by simp_all
  from shows_live_append [OF this] show ?case by (simp add: shows_live_def)
qed (simp add: shows_live_def)

lemma shows_live_from: "vs_mode t = vs_mode s \<Longrightarrow> shows_live t r \<Longrightarrow> shows_live s r"
  by (simp add: shows_live_def)

lemma shows_live_same:
  "vs_mode t = vs_mode s \<Longrightarrow> list_all (\<lambda>x. shows_session x = None) os \<Longrightarrow> shows_live s (t, os)"
  by (simp add: shows_live_def signalled_none)

lemma shows_live_clear: "shows_live s (voice_clear s)"
  by (auto simp: shows_live_def voice_clear_def set_user_turn_def)

lemma shows_live_report: "vs_mode t = vs_mode s \<Longrightarrow> shows_live s (report_voice_speaking t)"
  by (simp add: shows_live_def report_voice_speaking_def Let_def)

lemma shows_live_turn: "shows_live s (set_user_turn v s)"
  by (simp add: shows_live_def set_user_turn_def)

text \<open>What an engine session hears of its user, or that it is up, it never tells with its end.\<close>

fun live_output :: "engine_out \<Rightarrow> bool" where
  "live_output (OnTranscript t) = True"
| "live_output (OnTurnEnd t) = True"
| "live_output (OnActiveChange b) = b"
| "live_output x = False"

lemma live_output_plain: "play_output x \<Longrightarrow> \<not> live_output x"
  by (cases x) simp_all

lemma plays_do_not_live: "x \<in> set (snd (plays_do e s)) \<Longrightarrow> \<not> live_output x"
  using plays_do_output live_output_plain by blast

lemma cleanup_not_live: "x \<in> set (snd (cleanup s)) \<Longrightarrow> \<not> live_output x"
  using cleanup_outputs [of x s] live_output_plain by (cases x) auto

lemma end_unasked_not_live: "x \<in> set (snd (end_unasked m m' s)) \<Longrightarrow> \<not> live_output x"
  using cleanup_not_live by (auto simp: end_unasked_def session_fail_def split: if_splits)

lemma live_frame:
  assumes "x \<in> set (snd (handle_frame frame s))" "live_output x"
  shows "snd (handle_frame frame s) = [x]"
proof (cases frame)
  case (FError i m)
  with assms show ?thesis by (cases i) (auto simp: handle_frame_def reply_failed_def split: if_splits)
next
  case (FEnded r)
  with assms end_unasked_not_live [of x] show ?thesis
    by (auto simp: handle_frame_def on_ended_def Let_def split: if_splits)
qed (use assms plays_do_not_live [of x] in \<open>auto simp: handle_frame_def\<close>)

lemma live_alone:
  assumes "x \<in> set (snd (engine_step s e))" "live_output x"
  shows "list_all (\<lambda>y. \<not> ends_session y) (snd (engine_step s e))"
proof (cases e)
  case (EMessage d data)
  have "list_all (\<lambda>y. \<not> ends_session y) [x]" using assms(2) by (cases x) simp_all
  with EMessage assms live_frame [OF _ assms(2)] show ?thesis by (fastforce split: option.splits if_splits)
next
  case (EClosed d)
  with assms end_unasked_not_live [of x] show ?thesis by (auto split: if_splits)
next
  case (StartReady g)
  with assms show ?thesis by (auto simp: start_ready_def Let_def list_all_iff dest!: say_all_output split: if_splits)
next
  case (StartThrows g)
  with assms cleanup_not_live [of x] show ?thesis by (auto simp: start_throws_def split: option.splits start_stage.splits if_splits)
next
  case (EUrlFailed g m)
  with assms cleanup_not_live [of x] show ?thesis by (auto simp: start_throws_def split: if_splits)
next
  case EStop
  with assms cleanup_not_live [of x] show ?thesis by (auto simp: session_stop_def send_engine_frame_def split: if_splits)
next
  case EStopSpeech
  with assms plays_do_not_live [of x] show ?thesis by (auto simp: session_stop_speech_def send_engine_frame_def split: if_splits)
next
  case (Plays pe)
  with assms plays_do_not_live [of x] show ?thesis by auto
qed (use assms in \<open>auto simp: session_start_def session_speak_def say_def send_engine_frame_def start_url_built_def
      engine_opened_def mic_frame_def split_beta Let_def split: if_splits\<close>)

lemma quiet_from_engine:
  assumes "\<not> live_output x"
  shows "shows_live s (from_engine k x s)"
proof (cases x)
  case (OnSessionError m)
  then show ?thesis by (auto simp: from_engine_def shows_live_same shows_live_clear intro!: shows_live_chain)
next
  case (OnActiveChange b)
  with assms show ?thesis by (auto simp: from_engine_def shows_live_same shows_live_clear intro!: shows_live_chain)
next
  case (StartRejected g m)
  then show ?thesis by (auto simp: from_engine_def shows_live_same shows_live_clear intro!: shows_live_chain)
qed (use assms in \<open>simp_all add: from_engine_def shows_live_same shows_live_turn shows_live_report Let_def\<close>)

lemma quiet_run:
  "list_all (\<lambda>x. \<not> live_output x) os \<Longrightarrow> shows_live s (run_events (\<lambda>s x. from_engine k x s) s os)"
  by (rule shows_live_run [OF quiet_from_engine])

lemma unended_mode:
  "list_all (\<lambda>x. \<not> ends_session x) os \<Longrightarrow> vs_mode (fst (run_events (\<lambda>s x. from_engine k x s) s os)) = vs_mode s"
proof (induction os arbitrary: s)
  case (Cons x os)
  have "vs_mode (fst (from_engine k x s)) = vs_mode s" using Cons.prems
    by (cases x) (simp_all add: from_engine_def on_turn_end_def Let_def)
  with Cons show ?case by simp
qed simp

lemma shows_live_engine:
  assumes "voice_inv s" "vs_sessions s k = Some es" "engine_enabled_once es e" "e \<noteq> EStart"
  shows "shows_live s (engine_do k e s)"
proof -
  let ?os = "snd (engine_step es e)" and ?s = "s\<lparr>vs_sessions := (vs_sessions s)(k \<mapsto> fst (engine_step es e))\<rparr>"
  have run: "engine_do k e s = run_events (\<lambda>s x. from_engine k x s) ?s ?os"
    using assms(2) by (simp add: engine_do_def split_beta Let_def)
  show ?thesis
  proof (cases "\<exists>x \<in> set ?os. live_output x")
    case True
    then obtain x where x: "x \<in> set ?os" "live_output x" ..
    have "vs_engine s = Some k"
    proof (rule ccontr)
      assume "vs_engine s \<noteq> Some k"
      with voice_invD(4) [OF assms(1,2)] idle_stays_idle [OF _ assms(3,4), of x] x(1) have "idle_output x"
        by (auto simp: session_at_def)
      with x(2) show False by (cases x) simp_all
    qed
    with voice_ok_mode [OF voice_invD(1) [OF assms(1)]] unended_mode [OF live_alone [OF x], of k ?s]
    show ?thesis by (intro shows_live_mode) (simp add: run)
  next
    case False
    then have "list_all (\<lambda>x. \<not> live_output x) ?os" by (simp add: list_all_iff)
    from quiet_run [OF this, of ?s k] show ?thesis unfolding run by (rule shows_live_from [rotated]) simp
  qed
qed

lemma shows_live_tts: "shows_live s (tts_do e s)"
proof -
  have one: "shows_live t (from_tts x t)" for x t by (cases x) (simp_all add: from_tts_def shows_live_same shows_live_report)
  have "shows_live t (run_events (\<lambda>s x. from_tts x s) t os)" for t os
    by (rule shows_live_run [where P = "\<lambda>x. True"]) (simp_all add: one list_all_iff)
  from shows_live_from [OF _ this, of "s\<lparr>vs_read_aloud := fst (tts_step (vs_read_aloud s) e)\<rparr>" s] show ?thesis
    by (simp add: tts_do_def split_beta Let_def)
qed

lemma shows_live_end:
  assumes "voice_inv s"
  shows "shows_live s (voice_end send s)"
proof (cases "vs_engine s")
  case (Some k)
  then obtain es where es: "vs_sessions s k = Some es" using voice_invD(5) [OF assms] by auto
  have "shows_live s (engine_do k EStop s)" by (rule shows_live_engine [OF assms es]) simp_all
  with Some show ?thesis
    by (auto simp: voice_end_def Let_def shows_live_same shows_live_clear intro!: shows_live_chain)
qed (simp add: voice_end_def shows_live_same)

lemma shows_live_call:
  assumes "voice_inv s" "vs_engine s = Some k" "e = ESpeak t \<or> e = EStopSpeech"
  shows "shows_live s (engine_do k e s)"
proof -
  obtain es where "vs_sessions s k = Some es" using voice_invD(5) [OF assms(1,2)] by auto
  then show ?thesis by (rule shows_live_engine [OF assms(1)]) (use assms(3) in auto)
qed

lemma voice_inv_idle:
  assumes "voice_inv s"
  shows "voice_inv (s\<lparr>vs_idle_timer := None\<rparr>)"
  using voice_invD [OF assms] by (intro voice_invI) (auto simp: voice_ok_def session_at_def now_speaking_def)

lemma start_mode: "vs_engine s = None \<Longrightarrow> vs_mode (fst (voice_start m s)) = Some m"
  by (simp add: voice_start_def voice_open_def engine_do_def session_start_def create_engine_session_def from_engine_def
      tts_do_fields Let_def)

lemma shows_live_step:
  assumes "voice_inv s" "voice_enabled s e"
  shows "shows_live s (voice_step s e)"
proof (cases e)
  case (VStart m)
  then show ?thesis
    using shows_live_mode [of "voice_start m s"] start_mode [of s m]
    by (cases "vs_engine s = None") (simp_all add: voice_start_def shows_live_same)
next
  case VIdle
  have "shows_live s (voice_end False (s\<lparr>vs_idle_timer := None\<rparr>))"
    using shows_live_end [OF voice_inv_idle [OF assms(1)]] by (rule shows_live_from [rotated]) simp
  with VIdle show ?thesis by (simp add: voice_idle_def shows_live_chain shows_live_same)
next
  case (VEngine k ev)
  then obtain es where es: "vs_sessions s k = Some es" "engine_enabled es ev" "\<not> engine_call ev"
    using assms(2) by (auto split: option.splits)
  then have "engine_enabled_once es ev" "ev \<noteq> EStart" by (cases ev; simp)+
  with shows_live_engine [OF assms(1) es(1)] VEngine show ?thesis by simp
next
  case VStopSpeech
  let ?t = "tts_do TtsQueue.StopSpeech s"
  have "voice_inv (fst ?t)" by (rule voice_inv_tts [OF assms(1)]) simp
  then have "shows_live (fst ?t) (case vs_engine (fst ?t) of Some k \<Rightarrow> engine_do k EStopSpeech (fst ?t) | None \<Rightarrow> (fst ?t, []))"
    by (auto intro: shows_live_call shows_live_same split: option.split)
  from shows_live_append [OF shows_live_tts this] VStopSpeech show ?thesis
    by (simp add: voice_stop_speech_def shows_live_def)
qed (use assms shows_live_call [OF assms(1)] in
    \<open>auto simp: shows_live_same shows_live_end shows_live_tts voice_speak_def voice_prefetch_def split: option.split\<close>)

subsection \<open>A read-aloud that is over\<close>

text \<open>A queue that reads nothing starts nothing until it is asked.\<close>

fun starts_reading :: "voice_out \<Rightarrow> bool" where
  "starts_reading (VTtsIo (PlaySpeech n u)) = True"
| "starts_reading x = False"

lemma silent_tts:
  assumes "tts_inv q" "\<not> tq_processing q" "\<nexists>t. e = Speak t"
  shows "\<not> tq_processing (fst (tts_step q e)) \<and> (\<forall>n u. PlaySpeech n u \<notin> set (snd (tts_step q e)))"
proof -
  have old: "tl_epoch l < tq_epoch q" if "tq_loops q n = Some l" for n l
    using tts_idle_between [OF assms(1,2)] that by (simp add: tts_between_def)
  show ?thesis
  proof (cases e)
    case (TtsContinues n)
    with old assms(2) show ?thesis
      by (fastforce simp: at_tts_def tts_continues_def tts_play_def tts_end_def tts_set_def prepare_speech_def
          split: option.splits tts_stage.splits prepared.splits)
  next
    case (TtsNext n)
    with old assms(2) show ?thesis by (fastforce simp: at_tts_def tts_take_def split: option.splits)
  qed (use assms in \<open>auto simp: tts_prefetch_def prepare_speech_def tts_stop_def set_speaking_def at_tts_def tts_end_def
      tts_set_def Let_def split: option.splits if_splits\<close>)
qed

lemma silent_tts_do:
  assumes "tts_inv (vs_read_aloud s)" "\<not> tq_processing (vs_read_aloud s)" "\<nexists>t. e = Speak t"
  shows "\<not> tq_processing (vs_read_aloud (fst (tts_do e s)))" "list_all (\<lambda>x. \<not> starts_reading x) (snd (tts_do e s))"
proof -
  note q = silent_tts [OF assms]
  then show "\<not> tq_processing (vs_read_aloud (fst (tts_do e s)))" by (simp add: tts_do_fields)
  have one: "list_all (\<lambda>x. \<not> starts_reading x) (snd (from_tts y t))" if "\<forall>n u. y \<noteq> PlaySpeech n u" for y t
    using that by (cases y) (auto simp: from_tts_def report_voice_speaking_def Let_def)
  have "\<forall>n u. PlaySpeech n u \<notin> set os \<Longrightarrow> list_all (\<lambda>x. \<not> starts_reading x) (snd (run_events (\<lambda>s x. from_tts x s) t os))" for os t
  proof (induction os arbitrary: t)
    case (Cons y os)
    then show ?case using one [of y t] by auto
  qed simp
  with q show "list_all (\<lambda>x. \<not> starts_reading x) (snd (tts_do e s))" by (simp add: tts_do_def split_beta Let_def)
qed

lemma engine_do_silent:
  "vs_read_aloud (fst (engine_do k e s)) = vs_read_aloud s" "list_all (\<lambda>x. \<not> starts_reading x) (snd (engine_do k e s))"
proof -
  show "vs_read_aloud (fst (engine_do k e s)) = vs_read_aloud s"
    by (simp add: engine_do_def split_beta Let_def engine_outputs_fields split: option.split)
  have one: "list_all (\<lambda>x. \<not> starts_reading x) (snd (from_engine k y t))" for y t
    by (auto simp: from_engine_def report_voice_speaking_def set_user_turn_def voice_clear_def on_turn_end_def Let_def
        split: engine_out.split)
  have "list_all (\<lambda>x. \<not> starts_reading x) (snd (run_events (\<lambda>s x. from_engine k x s) t os))" for os t
    by (induction os arbitrary: t) (simp_all add: one)
  then show "list_all (\<lambda>x. \<not> starts_reading x) (snd (engine_do k e s))"
    by (simp add: engine_do_def split_beta Let_def split: option.split)
qed

definition stays_silent :: "voice_session \<Rightarrow> voice_result \<Rightarrow> bool" where
  "stays_silent s r \<longleftrightarrow> \<not> tq_processing (vs_read_aloud (fst r)) \<and> list_all (\<lambda>x. \<not> starts_reading x) (snd r)"

lemma silent_step:
  assumes "voice_inv s" "\<not> tq_processing (vs_read_aloud s)" "voice_enabled s e" "\<exists>t. e = VSpeak t \<Longrightarrow> vs_engine s \<noteq> None"
  shows "stays_silent s (voice_step s e)"
proof -
  have tts: "tts_inv (vs_read_aloud s)" by (rule voice_invD(2) [OF assms(1)])
  note t = silent_tts_do [OF tts assms(2)] and e = engine_do_silent
  have c: "vs_read_aloud (fst (voice_clear u)) = vs_read_aloud u" "list_all (\<lambda>x. \<not> starts_reading x) (snd (voice_clear u))" for u
    by (simp_all add: voice_clear_def set_user_turn_def)
  show ?thesis
  proof (cases e)
    case (VTts ev)
    then have "\<nexists>t. ev = Speak t" using assms(3) by auto
    with VTts t show ?thesis by (simp add: stays_silent_def)
  next
    case (VStart m)
    then show ?thesis using t [of TtsQueue.StopSpeech] silent_tts_do(2) [of "s\<lparr>vs_mode := Some m\<rparr>" TtsQueue.StopSpeech] tts assms(2)
      by (auto simp: stays_silent_def voice_start_def tts_do_mode voice_open_def e)
  qed (use assms t e c in \<open>auto simp: stays_silent_def voice_end_def voice_idle_def voice_speak_def voice_prefetch_def
        voice_stop_speech_def Let_def split: option.splits\<close>)
qed

subsection \<open>The store shows its session\<close>

definition store_shows :: "voice_store \<Rightarrow> bool" where
  "store_shows s \<longleftrightarrow> voice_inv (vo_session s) \<and> vo_mode s = vs_mode (vo_session s) \<and>
     vo_speaking s = vs_speaking (vo_session s) \<and> (vo_listening s \<or> vo_transcript s \<noteq> [] \<longrightarrow> vo_mode s \<noteq> None)"

lemma from_voice_kept [simp]:
  "vo_session (fst (from_voice s x)) = vo_session s" "vo_agent (fst (from_voice s x)) = vo_agent s"
  "vo_derived (fst (from_voice s x)) = vo_derived s" "vo_stt (fst (from_voice s x)) = vo_stt s"
  "vo_tts (fst (from_voice s x)) = vo_tts s" "vo_muted (fst (from_voice s x)) = vo_muted s"
  "vo_auto_end (fst (from_voice s x)) = vo_auto_end s" "vo_started_for (fst (from_voice s x)) = vo_started_for s"
  "vo_fetches (fst (from_voice s x)) = vo_fetches s" "vo_chat (fst (from_voice s x)) = vo_chat s"
  by (simp_all add: from_voice_def mode_changed_def split: voice_out.split option.split)

lemma session_do_run: "session_do e s = run_events from_voice (s\<lparr>vo_session := fst (voice_step (vo_session s) e)\<rparr>) (snd (voice_step (vo_session s) e))"
  by (simp add: session_do_def split_beta Let_def)

lemma session_do_kept [simp]:
  "vo_session (fst (session_do e s)) = fst (voice_step (vo_session s) e)" "vo_agent (fst (session_do e s)) = vo_agent s"
  "vo_derived (fst (session_do e s)) = vo_derived s" "vo_stt (fst (session_do e s)) = vo_stt s"
  "vo_tts (fst (session_do e s)) = vo_tts s" "vo_muted (fst (session_do e s)) = vo_muted s"
  "vo_auto_end (fst (session_do e s)) = vo_auto_end s" "vo_started_for (fst (session_do e s)) = vo_started_for s"
  "vo_fetches (fst (session_do e s)) = vo_fetches s" "vo_chat (fst (session_do e s)) = vo_chat s"
  unfolding session_do_run by (subst run_events_view, rule from_voice_kept, simp)+

lemma run_from_voice:
  "vo_mode (fst (run_events from_voice s os)) = told_mode os (vo_mode s)"
  "vo_speaking (fst (run_events from_voice s os)) = signalled speaking_told os (vo_speaking s)"
  "vo_listening (fst (run_events from_voice s os)) \<or> vo_transcript (fst (run_events from_voice s os)) \<noteq> [] \<Longrightarrow>
     signalled shows_session os (vo_listening s \<or> vo_transcript s \<noteq> [])"
proof (induction os arbitrary: s)
  case (Cons x os)
  have m: "vo_mode (fst (from_voice s x)) = (case x of VMode m' \<Rightarrow> m' | _ \<Rightarrow> vo_mode s)"
    "vo_speaking (fst (from_voice s x)) = nullish (speaking_told x) (vo_speaking s)" for s
    by (simp_all add: from_voice_def mode_changed_def split: voice_out.split option.split)
  have up: "signalled shows_session os d \<Longrightarrow> d \<longrightarrow> d' \<Longrightarrow> signalled shows_session os d'" for d d' os
  proof (induction os arbitrary: d d')
    case (Cons a os)
    then show ?case by (cases "shows_session a") simp_all
  qed simp
  have d: "vo_listening (fst (from_voice s x)) \<or> vo_transcript (fst (from_voice s x)) \<noteq> [] \<Longrightarrow>
      nullish (shows_session x) (vo_listening s \<or> vo_transcript s \<noteq> [])" for s
    by (cases x) (auto simp: from_voice_def mode_changed_def split: option.splits if_splits)
  {
    case 1
    have "vo_mode (fst (run_events from_voice s (x # os))) = told_mode os (vo_mode (fst (from_voice s x)))" by (simp add: Cons(1))
    then show ?case by (simp only: m(1) told_mode_simps)
  next
    case 2
    have "vo_speaking (fst (run_events from_voice s (x # os))) = signalled speaking_told os (vo_speaking (fst (from_voice s x)))"
      by (simp add: Cons(2))
    then show ?case by (simp only: m(2) signalled_simps)
  next
    case 3
    then have "signalled shows_session os (vo_listening (fst (from_voice s x)) \<or> vo_transcript (fst (from_voice s x)) \<noteq> [])"
      using Cons(3) by simp
    from up [OF this] d show ?case by simp
  }
qed simp_all

lemma store_shows_do:
  assumes "store_shows s" "voice_enabled (vo_session s) e"
  shows "store_shows (fst (session_do e s))"
proof -
  let ?v = "voice_step (vo_session s) e" and ?s = "s\<lparr>vo_session := fst (voice_step (vo_session s) e)\<rparr>"
  have inv: "voice_inv (vo_session s)" and eqs: "vo_mode s = vs_mode (vo_session s)" "vo_speaking s = vs_speaking (vo_session s)"
    and live: "vo_listening s \<or> vo_transcript s \<noteq> [] \<longrightarrow> vs_mode (vo_session s) \<noteq> None"
    using assms(1) unfolding store_shows_def by metis+
  have "voice_inv (fst ?v)" by (rule voice_inv_step [OF inv assms(2)])
  moreover have "vo_mode (fst (session_do e s)) = vs_mode (fst ?v)"
    using tells_mode_step [of "vo_session s" e] eqs(1) by (simp add: session_do_run run_from_voice tells_mode_def)
  moreover have "vo_speaking (fst (session_do e s)) = vs_speaking (fst ?v)"
    using tells_step [of "vo_session s" e] eqs(2) by (simp add: session_do_run run_from_voice tells_def tracks_def)
  moreover have "vs_mode (fst ?v) \<noteq> None"
    if "vo_listening (fst (session_do e s)) \<or> vo_transcript (fst (session_do e s)) \<noteq> []"
  proof -
    have "signalled shows_session (snd ?v) (vo_listening s \<or> vo_transcript s \<noteq> [])"
      using run_from_voice(3) [of ?s "snd ?v"] that by (simp add: session_do_run)
    with shows_liveD [OF shows_live_step [OF inv assms(2)] live] show ?thesis by blast
  qed
  ultimately show ?thesis unfolding store_shows_def by auto
qed

lemma store_shows_same:
  "store_shows s \<Longrightarrow> vo_session s' = vo_session s \<Longrightarrow> vo_mode s' = vo_mode s \<Longrightarrow> vo_speaking s' = vo_speaking s \<Longrightarrow>
     vo_listening s' = vo_listening s \<Longrightarrow> vo_transcript s' = vo_transcript s \<Longrightarrow> store_shows s'"
  unfolding store_shows_def by metis

subsection \<open>The invariant of the store\<close>

definition pinned :: "voice_store \<Rightarrow> bool" where
  "pinned s \<longleftrightarrow> (vs_mode (vo_session s) \<noteq> None \<longrightarrow> vo_started_for s = vo_agent s \<and> named_agent (vo_agent s))"

definition silenced :: "voice_store \<Rightarrow> bool" where
  "silenced s \<longleftrightarrow> (vo_muted s \<longrightarrow> \<not> tq_processing (vs_read_aloud (vo_session s)))"

definition store_inv :: "voice_store \<Rightarrow> bool" where
  "store_inv s \<longleftrightarrow> store_shows s \<and> pinned s \<and> silenced s \<and> vo_derived s = derive_status (vo_stt s) (vo_tts s) \<and>
     vs_inactivity (vo_session s) = inactivity_of (vo_auto_end s)"

lemma store_invI:
  assumes "store_shows s" "pinned s" "silenced s" "vo_derived s = derive_status (vo_stt s) (vo_tts s)"
    "vs_inactivity (vo_session s) = inactivity_of (vo_auto_end s)"
  shows "store_inv s"
  using assms unfolding store_inv_def by blast

lemma store_invD:
  assumes "store_inv s"
  shows "store_shows s" "pinned s" "silenced s" "vo_derived s = derive_status (vo_stt s) (vo_tts s)"
    "vs_inactivity (vo_session s) = inactivity_of (vo_auto_end s)" "voice_inv (vo_session s)"
  using assms unfolding store_inv_def store_shows_def by blast+

lemma mode_has_engine: "voice_inv v \<Longrightarrow> vs_mode v \<noteq> None \<Longrightarrow> vs_engine v \<noteq> None"
  using voice_invD(1) [of v] by (auto simp: voice_ok_def)

text \<open>An event of the session that neither starts one nor reads a reply aloud while that is muted.\<close>

definition plain_call :: "voice_store \<Rightarrow> voice_event \<Rightarrow> bool" where
  "plain_call s e \<longleftrightarrow> voice_enabled (vo_session s) e \<and> (\<nexists>m. e = VStart m) \<and> (\<nexists>n. e = VSettings n) \<and>
     ((\<exists>t. e = VSpeak t) \<longrightarrow> vo_muted s \<longrightarrow> vs_engine (vo_session s) \<noteq> None)"

lemma store_inv_do:
  assumes "store_inv s" "plain_call s e"
  shows "store_inv (fst (session_do e s))"
proof -
  note d = store_invD [OF assms(1)]
  have e: "voice_enabled (vo_session s) e" "\<nexists>m. e = VStart m" "\<nexists>n. e = VSettings n"
    and speak: "\<exists>t. e = VSpeak t \<Longrightarrow> vo_muted s \<Longrightarrow> vs_engine (vo_session s) \<noteq> None"
    using assms(2) by (auto simp: plain_call_def)
  have keep: "keeps_mode (vo_session s) (voice_step (vo_session s) e)" by (rule keeps_mode_step [OF e(2,3)])
  have quiet: "\<not> tq_processing (vs_read_aloud (fst (voice_step (vo_session s) e)))" if "vo_muted s"
    using silent_step [OF d(6) _ e(1)] speak [OF _ that] d(3) that by (simp add: silenced_def stays_silent_def)
  show ?thesis
  proof (rule store_invI)
    show "store_shows (fst (session_do e s))" by (rule store_shows_do [OF d(1) e(1)])
    show "pinned (fst (session_do e s))" using keep d(2) by (auto simp: keeps_mode_def pinned_def)
    show "silenced (fst (session_do e s))" using quiet by (simp add: silenced_def)
    show "vs_inactivity (vo_session (fst (session_do e s))) = inactivity_of (vo_auto_end (fst (session_do e s)))"
      using keep d(5) by (simp add: keeps_mode_def)
  qed (use d(4) in simp)
qed

lemma store_inv_same:
  assumes "store_inv s" "vo_session s' = vo_session s" "vo_mode s' = vo_mode s" "vo_speaking s' = vo_speaking s"
    "vo_listening s' = vo_listening s" "vo_transcript s' = vo_transcript s" "vo_agent s' = vo_agent s"
    "vo_started_for s' = vo_started_for s" "vo_muted s' = vo_muted s" "vo_auto_end s' = vo_auto_end s"
    "vo_derived s' = derive_status (vo_stt s') (vo_tts s')"
  shows "store_inv s'"
  using store_invD [OF assms(1)] store_shows_same [OF _ assms(2-6)] assms(2-)
  by (intro store_invI) (simp_all add: pinned_def silenced_def)

lemma start_inactivity: "vs_inactivity (fst (voice_start m v)) = vs_inactivity v"
proof -
  have "keeps_mode (v\<lparr>vs_mode := Some m\<rparr>) (chain (tts_do TtsQueue.StopSpeech (v\<lparr>vs_mode := Some m\<rparr>))
      (\<lambda>s. engine_do (vs_next s) EStart (voice_open m s)))"
    by (rule keeps_mode_chain [OF keeps_mode_tts]) (rule keeps_mode_from [OF _ _ keeps_mode_engine]; simp add: voice_open_def)
  then show ?thesis by (simp add: voice_start_def keeps_mode_def)
qed

lemma store_inv_start:
  assumes "store_inv s"
  shows "store_inv (fst (start_voice m s))"
proof (cases "vs_mode (vo_session s) = None \<and> named_agent (vo_agent s)")
  case True
  let ?s = "s\<lparr>vo_error := None, vo_started_for := vo_agent s\<rparr>"
  note d = store_invD [OF assms]
  have "store_inv (fst (session_do (VStart m) ?s))"
  proof (rule store_invI)
    show "store_shows (fst (session_do (VStart m) ?s))" by (rule store_shows_do [OF store_shows_same [OF d(1)]]) simp_all
    show "pinned (fst (session_do (VStart m) ?s))" using True by (simp add: pinned_def)
    show "silenced (fst (session_do (VStart m) ?s))"
      using silent_step [OF d(6), of "VStart m"] d(3) by (simp add: silenced_def stays_silent_def)
  qed (use d(4,5) in \<open>simp_all add: start_inactivity\<close>)
  then show ?thesis using assms by (simp add: start_voice_def)
qed (use assms in \<open>auto simp: start_voice_def\<close>)

lemma store_inv_auto_end:
  assumes "store_inv s"
  shows "store_inv (fst (set_auto_end b s))"
proof -
  note d = store_invD [OF assms]
  let ?s = "s\<lparr>vo_auto_end := b\<rparr>"
  have "store_shows (fst (session_do (VSettings (inactivity_of b)) ?s))"
    by (rule store_shows_do [OF store_shows_same [OF d(1)]]) simp_all
  then have "store_inv (fst (session_do (VSettings (inactivity_of b)) ?s))"
    by (rule store_invI) (use d in \<open>simp_all add: pinned_def silenced_def\<close>)
  then show ?thesis by (simp add: set_auto_end_def)
qed

lemma stop_silences: "\<not> tq_processing (vs_read_aloud (fst (voice_step v VStopSpeech)))"
proof -
  have "\<not> tq_processing (fst (tts_stop q))" for q by (simp add: tts_stop_def set_speaking_def)
  then show ?thesis by (simp add: voice_stop_speech_def engine_do_silent tts_do_fields split: option.split)
qed

lemma store_inv_muted:
  assumes "store_inv s"
  shows "store_inv (fst (toggle_muted s))"
proof -
  have "plain_call s VStopSpeech" by (simp add: plain_call_def)
  note d = store_invD [OF assms] store_invD [OF store_inv_do [OF assms this]]
  show ?thesis
    by (rule store_invI) (use d stop_silences [of "vo_session s"] in
        \<open>auto simp: toggle_muted_def Let_def pinned_def silenced_def intro: store_shows_same\<close>)
qed

lemma cancel_clears:
  assumes "voice_inv v"
  shows "vs_mode (fst (voice_step v VCancel)) = None"
proof (cases "vs_engine v")
  case None
  then have "vs_mode v = None" using mode_has_engine [OF assms] by blast
  with None show ?thesis by (simp add: voice_end_def)
qed (simp add: voice_end_def Let_def)

lemma store_inv_context:
  assumes "store_inv s"
  shows "store_inv (fst (set_agent_context name has_voice revision s))"
proof -
  have c: "plain_call s VCancel" by (simp add: plain_call_def)
  note d = store_invD [OF assms] store_invD [OF store_inv_do [OF assms c]]
  show ?thesis
    by (rule store_invI) (use d cancel_clears [OF d(6)] in
        \<open>auto simp: set_agent_context_def pinned_def silenced_def intro: store_shows_same\<close>)
qed

lemma store_inv_fetches:
  "store_inv s \<Longrightarrow> store_inv (fst (fetch_settings a b s))" "store_inv s \<Longrightarrow> store_inv (abort_effect s)"
  "store_inv s \<Longrightarrow> store_inv (set_voice_settings data s)" "store_inv s \<Longrightarrow> store_inv (s\<lparr>vo_mounted := f\<rparr>)"
  "store_inv s \<Longrightarrow> store_inv (s\<lparr>vo_fetches := fs\<rparr>)"
  using store_invD(4) [of s]
  by (simp_all add: store_inv_same fetch_settings_def abort_effect_def set_voice_settings_def Let_def)

lemma store_inv_renders: "store_inv s \<Longrightarrow> store_inv (fst (provider_renders name has_voice revision s))"
  using store_inv_context [OF store_inv_fetches(4)] store_inv_fetches
  by (simp add: provider_renders_def Let_def split: option.split)

lemma store_inv_unmounts:
  assumes "store_inv s"
  shows "store_inv (fst (provider_unmounts s))"
proof -
  let ?s = "abort_effect (s\<lparr>vo_mounted := False\<rparr>)"
  have "store_inv ?s" by (intro store_inv_fetches assms)
  then have "store_inv (fst (session_do VCancel ?s))" by (rule store_inv_do) (simp add: plain_call_def)
  then have "store_inv (fst (session_do VStopSpeech (fst (session_do VCancel ?s))))"
    by (rule store_inv_do) (simp add: plain_call_def)
  then show ?thesis by (simp add: provider_unmounts_def)
qed

lemma speakable_call: "store_inv s \<Longrightarrow> speakable s \<Longrightarrow> plain_call s (VSpeak t) \<and> plain_call s (VPrefetch t)"
  using mode_has_engine store_invD(6) [of s] store_invD(1) [of s]
  by (auto simp: plain_call_def speakable_def store_shows_def)

lemma store_inv_step:
  assumes "store_inv s" "store_enabled s e"
  shows "store_inv (fst (store_step s e))"
proof (cases e)
  case (SessionHears ev)
  then have "plain_call s ev" using assms(2) by (cases ev) (simp_all add: plain_call_def)
  with SessionHears store_inv_do [OF assms(1)] show ?thesis by simp
next
  case (SettingsAnswer i data)
  then show ?thesis using assms(1) store_inv_fetches(3) [OF store_inv_fetches(5) [OF assms(1)]] store_inv_fetches(5)
    by (simp add: settings_arrive_def Let_def split: option.split)
next
  case RefreshStatus
  then show ?thesis using assms(1) store_inv_fetches(1) by (simp add: refresh_status_def split: option.split)
next
  case (SpeakText t)
  then show ?thesis using assms(1) store_inv_do speakable_call by simp
next
  case (PrefetchText t)
  then show ?thesis using assms(1) store_inv_do speakable_call by simp
next
  case (StartVoice m)
  then show ?thesis using store_inv_start [OF assms(1)] by simp
next
  case StopVoice
  then show ?thesis using store_inv_do [OF assms(1), of VStop] by (simp add: plain_call_def)
next
  case CancelVoice
  then show ?thesis using store_inv_do [OF assms(1), of VCancel] by (simp add: plain_call_def)
next
  case StopSpeechCall
  then show ?thesis using store_inv_do [OF assms(1), of VStopSpeech] by (simp add: plain_call_def)
next
  case ToggleMuted
  then show ?thesis using store_inv_muted [OF assms(1)] by simp
next
  case (SetAutoEnd b)
  then show ?thesis using store_inv_auto_end [OF assms(1)] by simp
next
  case (ProviderRenders name has_voice revision)
  then show ?thesis using store_inv_renders [OF assms(1)] by simp
next
  case ProviderUnmounts
  then show ?thesis using store_inv_unmounts [OF assms(1)] by simp
qed (simp_all add: patch_stt_def patch_tts_def Let_def store_invD(4) [OF assms(1)] store_inv_same [OF assms(1)])

lemma store_inv_create: "store_inv (create_voice_store deps muted auto_end)"
proof (rule store_invI)
  show "store_shows (create_voice_store deps muted auto_end)"
    using voice_inv_start [of deps "inactivity_of auto_end"] by (simp add: store_shows_def create_voice_store_def)
      (simp add: create_voice_session_def)
qed (simp_all add: create_voice_store_def create_voice_session_def create_tts_queue_def pinned_def silenced_def)

interpretation store: machine store_step store_enabled store_inv
  by unfold_locales (rule store_inv_step)

subsection \<open>What the app can rely on\<close>

text \<open>C21: What the tab shows is its voice session: the mode and the speaking are the session's, the microphone and
  the live text are shown while a session runs only, and the running session is the selected agent's, since a
  switch ends it; whatever the settings, the user, the engine and the speaker do, in whatever order.\<close>

theorem store_shows_its_session:
  assumes "legal_events store_step store_enabled (create_voice_store deps muted auto_end) es"
    "s = fst (run_events store_step (create_voice_store deps muted auto_end) es)"
  shows "vo_mode s = vs_mode (vo_session s) \<and> vo_speaking s = vs_speaking (vo_session s) \<and>
    vo_derived s = derive_status (vo_stt s) (vo_tts s) \<and>
    (if vo_mode s = None then \<not> vo_listening s \<and> vo_transcript s = []
     else vo_started_for s = vo_agent s \<and> named_agent (vo_agent s))"
proof -
  have "store_inv s" unfolding assms(2) by (rule store.run_inv [OF store_inv_create assms(1)])
  from store_invD [OF this] show ?thesis by (auto simp: store_shows_def pinned_def)
qed

definition enabled_role :: role_status where
  "enabled_role = \<lparr>rs_configured = True, rs_enabled = Some True, rs_settings = None\<rparr>"

definition enabled_voice :: voice_data where
  "enabled_voice = \<lparr>vd_stt = enabled_role, vd_tts = enabled_role, vd_judge = None, vd_behaviors = None\<rparr>"

lemmas store_eval = create_voice_store_def provider_renders_def set_agent_context_def abort_effect_def fetch_settings_def
  settings_arrive_def set_voice_settings_def enabled_voice_def enabled_role_def derive_status_def start_voice_def
  session_do_def from_voice_def mode_changed_def named_agent_def inactivity_of_def speakable_def refresh_status_def
  voice_speak_def tts_speak_def tts_drain_def tts_take_def prepare_speech_def at_tts_def tts_at_def awaits_settled_def
  tts_continues_def tts_play_def tts_end_def tts_set_def

theorem store_shows_its_session_witness:
  "let s = fst (run_events store_step (create_voice_store web_deps False True)
        [ProviderRenders (Some ''a'') True None, SettingsAnswer 0 (Some enabled_voice), StartVoice Conversation])
   in vo_mode s = vs_mode (vo_session s) \<and> vo_speaking s = vs_speaking (vo_session s) \<and>
    vo_derived s = derive_status (vo_stt s) (vo_tts s) \<and>
    (if vo_mode s = None then \<not> vo_listening s \<and> vo_transcript s = []
     else vo_started_for s = vo_agent s \<and> named_agent (vo_agent s))"
  unfolding Let_def by (rule store_shows_its_session [OF _ refl]) (simp add: store_eval voice_eval)

text \<open>The outputs of the store that start to read a reply aloud.\<close>

fun reads_aloud :: "store_out \<Rightarrow> bool" where
  "reads_aloud (PortCall agent x) = starts_reading x"
| "reads_aloud x = False"

lemma do_silent:
  assumes "stays_silent (vo_session s) (voice_step (vo_session s) e)"
  shows "list_all (\<lambda>x. \<not> reads_aloud x) (snd (session_do e s))"
proof -
  have one: "\<not> starts_reading x \<Longrightarrow> list_all (\<lambda>x. \<not> reads_aloud x) (snd (from_voice t x))" for x t
    by (cases x) (simp_all add: from_voice_def)
  have "list_all (\<lambda>x. \<not> starts_reading x) os \<Longrightarrow> list_all (\<lambda>x. \<not> reads_aloud x) (snd (run_events from_voice t os))" for os t
    by (induction os arbitrary: t) (simp_all add: one)
  with assms show ?thesis by (simp add: session_do_run stays_silent_def)
qed

lemma muted_silent:
  assumes "store_inv s" "vo_muted s" "voice_enabled (vo_session s) e" "\<exists>t. e = VSpeak t \<Longrightarrow> vs_engine (vo_session s) \<noteq> None"
  shows "stays_silent (vo_session s) (voice_step (vo_session s) e)"
  using store_invD(3,6) [OF assms(1)] assms(2) silent_step [OF _ _ assms(3,4)] by (auto simp: silenced_def)

text \<open>A device that is muted starts to read no reply aloud, whatever else happens, until it is unmuted: what was
  queued is dropped by the mute, and a reply of a conversation is the engine's to say.\<close>

theorem muted_device_reads_nothing_aloud:
  assumes "legal_events store_step store_enabled (create_voice_store deps muted auto_end) es"
    "s = fst (run_events store_step (create_voice_store deps muted auto_end) es)"
    "vo_muted s" "store_enabled s e" "e \<noteq> ToggleMuted"
  shows "list_all (\<lambda>x. \<not> reads_aloud x) (snd (store_step s e))"
proof -
  have inv: "store_inv s" unfolding assms(2) by (rule store.run_inv [OF store_inv_create assms(1)])
  have quiet: "list_all (\<lambda>x. \<not> reads_aloud x) (snd (session_do e t))"
    if "store_inv t" "vo_muted t" "voice_enabled (vo_session t) e" "\<nexists>u. e = VSpeak u" for t e
    using that by (intro do_silent muted_silent) auto
  show ?thesis
  proof (cases e)
    case (SessionHears ev)
    then have "\<nexists>u. ev = VSpeak u" using assms(4) by auto
    with SessionHears quiet [OF inv assms(3)] assms(4) show ?thesis by simp
  next
    case (StartVoice m)
    have "stays_silent (vo_session s) (voice_step (vo_session s) (VStart m))"
      by (rule muted_silent [OF inv assms(3)]) simp_all
    then have "list_all (\<lambda>x. \<not> reads_aloud x) (snd (session_do (VStart m) (s\<lparr>vo_error := None, vo_started_for := vo_agent s\<rparr>)))"
      by (intro do_silent) simp
    with StartVoice show ?thesis by (simp add: start_voice_def setup_toast_def)
  next
    case (SpeakText t)
    show ?thesis
    proof (cases "speakable s")
      case True
      then have "vs_mode (vo_session s) \<noteq> None"
        using assms(3) store_invD(1) [OF inv] unfolding speakable_def store_shows_def by (metis option.distinct(1))
      then have "vs_engine (vo_session s) \<noteq> None" by (rule mode_has_engine [OF store_invD(6) [OF inv]])
      with SpeakText True do_silent [OF muted_silent [OF inv assms(3), of "VSpeak t"]] show ?thesis by simp
    qed (simp add: SpeakText)
  next
    case (ProviderRenders name has_voice revision)
    have "store_inv (s\<lparr>vo_mounted := True\<rparr>)" by (rule store_inv_fetches(4) [OF inv])
    with quiet [of "s\<lparr>vo_mounted := True\<rparr>" VCancel] assms(3)
    show ?thesis by (simp add: ProviderRenders provider_renders_def set_agent_context_def fetch_settings_def Let_def split: option.split)
  next
    case ProviderUnmounts
    let ?t = "abort_effect (s\<lparr>vo_mounted := False\<rparr>)"
    have t: "store_inv ?t" by (intro store_inv_fetches inv)
    have m: "vo_muted ?t" using assms(3) by (simp add: abort_effect_def)
    have u: "store_inv (fst (session_do VCancel ?t))" by (rule store_inv_do [OF t]) (simp add: plain_call_def)
    from quiet [OF t m, of VCancel] quiet [OF u, of VStopSpeech] m show ?thesis
      by (simp add: ProviderUnmounts provider_unmounts_def)
  next
    case (SetAutoEnd b)
    then show ?thesis by (simp add: set_auto_end_def session_do_def)
  next
    case (PrefetchText t)
    then show ?thesis using quiet [OF inv assms(3), of "VPrefetch t"] by simp
  next
    case StopVoice
    then show ?thesis using quiet [OF inv assms(3), of VStop] by simp
  next
    case CancelVoice
    then show ?thesis using quiet [OF inv assms(3), of VCancel] by simp
  next
    case StopSpeechCall
    then show ?thesis using quiet [OF inv assms(3), of VStopSpeech] by simp
  qed (use assms(5) in \<open>simp_all add: refresh_status_def fetch_settings_def split: option.split\<close>)
qed

theorem muted_device_reads_nothing_aloud_witness:
  "list_all (\<lambda>x. \<not> reads_aloud x) (snd (store_step (fst (run_events store_step (create_voice_store web_deps True True)
      [ProviderRenders (Some ''a'') True None, SettingsAnswer 0 (Some enabled_voice)])) (SpeakText ''hello'')))"
  by (rule muted_device_reads_nothing_aloud [OF _ refl]) (simp_all add: store_eval voice_eval)

subsection \<open>What crosses from one agent to another\<close>

text \<open>A refresh of the status does not look which agent is selected when its answer comes: the settings of the
  agent that was left become those of the agent that is shown.\<close>

lemma refresh_crosses_agents:
  "let s = fst (run_events store_step (create_voice_store web_deps False True)
        [ProviderRenders (Some ''a'') True None, RefreshStatus, ProviderRenders (Some ''b'') True None,
         SettingsAnswer 1 (Some enabled_voice)])
   in vo_agent s = Some ''b'' \<and> vo_stt s = Some enabled_role \<and> dv_stt_available (vo_derived s)"
  "FetchesSettings 1 ''a'' \<in> set (snd (run_events store_step (create_voice_store web_deps False True)
        [ProviderRenders (Some ''a'') True None, RefreshStatus]))"
  by (simp_all add: store_eval voice_eval Let_def)

text \<open>A switch ends a session, but not what is read aloud outside one: the replies that wait are the old agent's,
  and the next of them is registered at the agent that is selected by then.\<close>

lemma waiting_reply_goes_to_the_next_agent:
  "PortCall (Some ''b'') (VTtsIo (Prepare 3 ''second'')) \<in> set (snd (run_events store_step (create_voice_store web_deps False True)
      [ProviderRenders (Some ''a'') True None, SettingsAnswer 0 (Some enabled_voice), SpeakText ''first'', SpeakText ''second'',
       ProviderRenders (Some ''b'') True None, SessionHears (VTts (PrepareSettled 1 (Some ''x''))),
       SessionHears (VTts (TtsContinues 0)), SessionHears (VTts (TtsPlayed 0)), SessionHears (VTts (TtsNext 0))]))"
  by (simp add: store_eval voice_eval Let_def)

end
