(* ===== verification/Spec2Isabelle.thy ===== *)
theory Spec2Isabelle
  imports AgentRequests AgentStatus Ansi Api Attachments Backups ChatRows ChatSession ChatStream
    CodeHighlight ConnectLinks Controller CreateFlow DesktopStore DeviceContext DraftStore
    EngineSession Http Json KeyedHold Linkify LocationSharing LogSession MobileGates
    NotificationContent Notifications ParseChat PlayQueue Preferences Prelude PrivacyLock Provider
    PushRegistration RecentGateways ReconnectingSocket ReleaseNotes ReleaseVersion Replica
    ResourceHook RestartPending RosterView ServiceKeys Session SessionStore Sse SyncProtocol
    SyncSocket SyncTree TtsQueue UpdateNotice Upload Urls Viewer VoiceApi VoicePanel VoiceSession
    VoiceStore
begin

text \<open>
  This library models the client core of Vesta (\<^verbatim>\<open>src/apps/core/src\<close>, "core" below): the TypeScript
  package both apps (web and mobile) run to follow a gateway, talk to its agents, upload files, hold
  voice conversations and read notifications.  It also models the few functions outside core that a core
  function mirrors or reads back, named where they are used.  A property's claim id stands in the text
  block before its theorem.

  \<^bold>\<open>How the program is put together.\<close>  A \<^emph>\<open>gateway\<close> (vestad) serves a state tree over the
  \<^verbatim>\<open>/sync\<close> socket: a snapshot, then deltas.  \<^emph>\<open>ReconnectingSocket\<close> is the connection machine every
  transport dials through; \<^emph>\<open>SyncSocket\<close> runs the sync protocol on it (hello and version window, frames
  in, context and reauth frames out); \<^emph>\<open>Replica\<close> folds what arrives into the local tree and notifies its
  listeners; \<^emph>\<open>Controller\<close> composes the two with the in-flight requests (\<^emph>\<open>AgentRequests\<close>) and the reauth
  tick, whose token comes from \<^emph>\<open>Session\<close>, on which the \<^emph>\<open>Http\<close> client rests too.  A chat is a second
  socket with a paged history: \<^emph>\<open>ParseChat\<close> reads its rows, \<^emph>\<open>ChatStream\<close> folds them into the tail the
  view holds, and \<^emph>\<open>ChatSession\<close> paces, seeds, sends and confirms.  A message may carry files:
  \<^emph>\<open>Attachments\<close> are the draft list's folds, \<^emph>\<open>Upload\<close> the resumable transfer against the service that
  stores the bytes, \<^emph>\<open>DraftStore\<close> the store that runs one upload per draft over a \<^emph>\<open>KeyedHold\<close>.  A voice
  conversation is an \<^emph>\<open>EngineSession\<close> (socket, microphone, offer) playing through a \<^emph>\<open>PlayQueue\<close>, beside the
  read-aloud \<^emph>\<open>TtsQueue\<close>; \<^emph>\<open>VoiceSession\<close> composes them.  The rest are the leaves the views read:
  notifications, log streams, backups, release notes, providers, service keys and hooks.

  \<^bold>\<open>How it is modelled.\<close>  A value type of the source is a \<^verbatim>\<open>record\<close> or \<^verbatim>\<open>datatype\<close> with the source's
  fields; an absent property is \<^verbatim>\<open>None\<close>, a property that may also be null an option of an option.  A pure
  function is a definition that computes.  A closure over mutable variables, with the timers, promises and
  sockets it holds, is a record of state with an event handler
  \<^verbatim>\<open>step :: state \<Rightarrow> event \<Rightarrow> state \<times> output list\<close>: an event is a call into the component or something that
  settles or fires (a promise, a timer, a socket callback), an output is a call the component makes to the
  outside, in the order the code makes it.  One event runs to the next await, as one turn of the
  JavaScript event loop does, so an interleaving is a list of events, and \<^verbatim>\<open>enabled\<close> says which events the
  platform can deliver (a timer that is set, a promise in flight).  The locale \<open>machine\<close> of the prelude is
  that contract: from an invariant kept by every enabled step it gives the invariant of every run
  (\<open>run_inv\<close>), a property of every output (\<open>run_outputs\<close>), a measure and a balance over runs; every machine
  below interprets it.  Errors are values: \<^verbatim>\<open>None\<close>, a sum, or an outcome datatype with one constructor per
  rejection.  JavaScript numbers are exact rationals (\<open>jsnum\<close>), which is what the code's uses of them
  (counters, ids, byte offsets, milliseconds) are; rounding is written out.  JSON is \<open>json\<close>, and the
  text of a frame is the value \<^verbatim>\<open>JSON.parse\<close> gives, or \<open>None\<close> where it throws.  Maps whose insertion order
  matters are association lists.  What is not in the sources (dates and their texts, highlight.js, random
  ids, URL encoding, fetch itself) is a parameter, or an event with every outcome the platform can give.

  \<^bold>\<open>The theories\<close> (files under core unless they start with \<^verbatim>\<open>src/\<close>; a definition has the source's name, in
  snake case, and a suffix where HOL has the name):
  \<^item> \<open>Prelude\<close>: strings, nullish defaults, list and map lemmas, \<open>chain\<close>, the locale \<open>machine\<close>.
  \<^item> \<open>Json\<close>: JSON values and the readers of \<^verbatim>\<open>protocol/parse.ts\<close> and \<^verbatim>\<open>protocol/parse-chat.ts\<close>.
  \<^item> \<open>ReleaseVersion\<close> (\<^verbatim>\<open>protocol/release-version.ts\<close>): the comparison is a total preorder on parsed
    versions and the hello window is consistent.
  \<^item> \<open>SyncTree\<close> (\<^verbatim>\<open>protocol/tree.ts\<close>, \<^verbatim>\<open>deltas.ts\<close>, \<^verbatim>\<open>tree/\<close>): the tree, deltas, selectors and compares.
  \<^item> \<open>SyncProtocol\<close> (\<^verbatim>\<open>protocol/parse.ts\<close>, \<^verbatim>\<open>frames.ts\<close>): frames in and out; a devices frame reads back
    and is all or nothing.
  \<^item> \<open>Replica\<close> (\<^verbatim>\<open>replica/\<close>): the reducer refines the abstract view of the tree.
  \<^item> \<open>ReconnectingSocket\<close> (\<^verbatim>\<open>transport/reconnecting-socket.ts\<close>): one connection or timer at a time, the
    backoff between its bounds, closed for ever.
  \<^item> \<open>SyncSocket\<close> (\<^verbatim>\<open>transport/socket.ts\<close>): an open gateway has the last reported context; a reauth
    reaches it.
  \<^item> \<open>Controller\<close> (\<^verbatim>\<open>controller/controller.ts\<close>): what the app sees and what the gateway sees agree, and a
    request dies with its agent.
  \<^item> \<open>AgentStatus\<close>, \<open>AgentRequests\<close> (\<^verbatim>\<open>agent-status/\<close>, \<^verbatim>\<open>orb/\<close>, \<^verbatim>\<open>agent-request/\<close>): kinds, words and orb with
    their precedence; one action per agent.
  \<^item> \<open>Session\<close>, \<open>Http\<close> (\<^verbatim>\<open>session/session.ts\<close>, \<^verbatim>\<open>transport/http.ts\<close>): one shared refresh answers every caller
    once; a request is retried once, after a refresh.
  \<^item> \<open>KeyedHold\<close> (\<^verbatim>\<open>holds/keyed-hold.ts\<close>): the bounded store, with the locale \<open>keyed_store\<close> its users rest on.
  \<^item> \<open>ParseChat\<close>, \<open>ChatStream\<close>, \<open>ChatSession\<close> (\<^verbatim>\<open>protocol/events.ts\<close>, \<^verbatim>\<open>parse-chat.ts\<close>, \<^verbatim>\<open>chat/\<close>, \<^verbatim>\<open>pacing/\<close>,
    \<^verbatim>\<open>intents/\<close>): a page reads back, no message is shown twice, replies are announced in order, an unseeded
    chat keeps seeding.
  \<^item> \<open>Attachments\<close>, \<open>Upload\<close>, \<open>DraftStore\<close> (\<^verbatim>\<open>attachments/\<close>, and the receiving side
    \<^verbatim>\<open>src/agent/skills/app-chat/cli/src/app_chat_cli/attachments.py\<close>): what resolves is the file, byte for byte;
    a message that may be sent carries every file; previews are revoked once.
  \<^item> \<open>VoicePanel\<close>, \<open>PlayQueue\<close>, \<open>TtsQueue\<close>, \<open>EngineSession\<close>, \<open>VoiceSession\<close> (\<^verbatim>\<open>voice/\<close>): plays end in order, a
    stopped session stays quiet, at most one session runs, floor and speaking reports alternate.
  \<^item> \<open>Notifications\<close>, \<open>NotificationContent\<close> (\<^verbatim>\<open>notifications-pill/\<close>, \<^verbatim>\<open>react/use-notification-feed.ts\<close>,
    \<^verbatim>\<open>use-notifications-pill.ts\<close>, \<^verbatim>\<open>notification-content/\<close>, with the gateway's log
    \<^verbatim>\<open>src/vestad/src/user_notification_log.rs\<close> and the agent's writer \<^verbatim>\<open>src/agent/core/notification.py\<close>):
    the whole unseen set is paged in; what the agent writes reads back.
  \<^item> \<open>Sse\<close>, \<open>Ansi\<close>, \<open>CodeHighlight\<close> (\<^verbatim>\<open>transport/sse.ts\<close>, \<^verbatim>\<open>ansi/\<close>, \<^verbatim>\<open>code-highlight/\<close>): a stream in chunks is its
    text; spans are the visible text; highlighted lines are the code.
  \<^item> \<open>Backups\<close>, \<open>ReleaseNotes\<close>, \<open>Provider\<close>, \<open>ServiceKeys\<close>, \<open>UpdateNotice\<close>, \<open>ResourceHook\<close> (\<^verbatim>\<open>backups/\<close>,
    \<^verbatim>\<open>release-notes/\<close>, \<^verbatim>\<open>provider/\<close>, \<^verbatim>\<open>service-keys/\<close>, \<^verbatim>\<open>react/\<close>, and the gateway's gate in
    \<^verbatim>\<open>src/vestad/src/update.rs\<close> and \<^verbatim>\<open>backup.rs\<close>): eligibility is the gateway's gate, stamps order as time,
    a service key goes to its own service, a notice shows while its timer runs.
  \<^item> \<open>Urls\<close>, \<open>Api\<close>, \<open>VoiceApi\<close> (\<^verbatim>\<open>api/\<close>, \<^verbatim>\<open>lifecycle/restart-reasons.ts\<close>): the calls of the gateway's HTTP routes,
    composed over a client that passes the world along; provisioning restarts last, a wait for an agent
    ends, only a missing route hides a voice card.
  \<^item> \<open>LogSession\<close>, \<open>RestartPending\<close>, \<open>CreateFlow\<close>, \<open>ChatRows\<close>, \<open>RecentGateways\<close> (\<^verbatim>\<open>src/apps/web/src\<close>:
    \<^verbatim>\<open>lib/log-session.ts\<close>, \<^verbatim>\<open>lib/log-stream-policy.ts\<close>, \<^verbatim>\<open>lib/log-window.ts\<close>, \<^verbatim>\<open>stores/use-restart-pending.ts\<close>,
    \<^verbatim>\<open>components/NewAgent/create-flow.ts\<close>, \<^verbatim>\<open>components/Chat/ChatMessageArea/\<close>, \<^verbatim>\<open>lib/recent-gateways.ts\<close>, with the
    mobile app's lists): what the log viewer shows is what arrived, a saved change stays flagged until its
    agent restarts, rows have their own keys.
  \<^item> \<open>MobileGates\<close> (\<^verbatim>\<open>src/apps/mobile/src\<close>: \<^verbatim>\<open>controller/\<close>, \<^verbatim>\<open>privacy/\<close>, \<^verbatim>\<open>session/\<close>, \<^verbatim>\<open>notifications/\<close>): the gates
    that own navigation, the latches over renders, the roster held across a reconnect.
  \<^item> \<open>DesktopStore\<close> (\<^verbatim>\<open>src/apps/desktop/src/store.ts\<close>, \<^verbatim>\<open>window-state.ts\<close>): a stored session survives relaunches.
  \<^item> \<open>PrivacyLock\<close> (\<^verbatim>\<open>src/apps/mobile/src/privacy/\<close>): an app that was in the background shows nothing until its user is
    recognised.
  \<^item> \<open>PushRegistration\<close> (\<^verbatim>\<open>src/apps/mobile/src/notifications/PushCoordinator.tsx\<close>, \<^verbatim>\<open>storage/push-registration.ts\<close>): a
    settled app is registered at no gateway but the one it is connected to, under the conditions of its property.
  \<^item> \<open>SessionStore\<close> (\<^verbatim>\<open>src/apps/mobile/src/session/SessionProvider.tsx\<close>, \<^verbatim>\<open>storage/\<close>, \<^verbatim>\<open>api/auth.ts\<close>): a connected session
    is the stored one, and every remembered gateway has its secret.
  \<^item> \<open>ConnectLinks\<close> (\<^verbatim>\<open>src/apps/web/src/lib/connection.ts\<close>, \<^verbatim>\<open>src/apps/mobile/src/api/connection-link.ts\<close>, the link of
    \<^verbatim>\<open>src/vestad/src/status.rs\<close>): a link the gateway prints reads back in both apps.
  \<^item> \<open>VoiceStore\<close> (\<^verbatim>\<open>src/apps/web/src/stores/use-voice.ts\<close>, \<^verbatim>\<open>providers/VoiceProvider/\<close>): the store shows the state of the
    session it holds; a muted device reads nothing aloud.
  \<^item> \<open>Viewer\<close> (\<^verbatim>\<open>src/apps/mobile/src/agent/chat/viewer-gesture.ts\<close>, \<^verbatim>\<open>attachment-viewer.tsx\<close> and
    \<^verbatim>\<open>src/apps/web/src/components/Chat/AttachmentViewer/\<close>): a gesture leaves the image in its bounds, a zoom keeps its
    focal point.
  \<^item> \<open>Preferences\<close>, \<open>DeviceContext\<close>, \<open>LocationSharing\<close> (\<^verbatim>\<open>src/apps/mobile/src/preferences/\<close>, \<^verbatim>\<open>device-context/\<close>,
    \<^verbatim>\<open>presence/PresenceReporter.tsx\<close>, \<^verbatim>\<open>src/apps/web/src/stores/use-preferences.ts\<close>, \<^verbatim>\<open>lib/device-context.ts\<close>,
    \<^verbatim>\<open>src/apps/desktop/src/geolocation.ts\<close>): what is shown is stored once the writes are done, the reports of the open app
    follow the switch, a location client that was started is stopped.
  \<^item> \<open>RosterView\<close> (\<^verbatim>\<open>src/apps/mobile/src/controller/ControllerProvider.tsx\<close>, \<^verbatim>\<open>session/RosterProvider.tsx\<close>): the agents on
    the screen are the connected gateway's, where the app does not switch straight from one to another.
  \<^item> \<open>Linkify\<close> (\<^verbatim>\<open>src/apps/web/src/lib/linkify.ts\<close>, \<^verbatim>\<open>ansi-html.ts\<close>, \<^verbatim>\<open>bare-url.ts\<close>, \<^verbatim>\<open>markdown.tsx\<close>,
    \<^verbatim>\<open>src/apps/mobile/src/agent/chat/chat-message-model.ts\<close>): the log viewer writes no markup but its own, and links
    leave the text as it is.
  \<^bold>\<open>Bounds and fuel.\<close>  No definition takes fuel: a loop of the code is a structural recursion or a
  \<^verbatim>\<open>function\<close> with its termination proof, and a loop over awaits is one step per await, whose progress is a
  theorem (\<open>cooperative_upload_sends_every_byte\<close>, \<open>whole_unseen_set_is_offered\<close>, the two liveness
  properties of \<open>ChatSession\<close>).  The code's own bounds (twelve held cells, the backoff's ceiling, the
  buffered audio's bytes, the page sizes) are its constants.

  \<^bold>\<open>Not modelled.\<close>  The React bindings that only subscribe a component to a store, the test fakes; the views,
  styles and animation of the apps, the native bridges of desktop and mobile, the visual harness and build scripts; the gateway (Rust), the
  agent and its skills (Python, Go), apart from the functions named above.  Text is modelled below code
  unit 256 where a theory says so, and floating-point rounding only in the parts of a version.
\<close>

end
